(* ===== verification/Prelude.thy ===== *)
theory Prelude
  imports Main "HOL-Library.Monad_Syntax"
begin

text \<open>
  What the components of the avr-Xinu model share: the C integers of the AVR target,
  the kernel's universal constants (\<open>src/sys/h/kernel.h\<close>), the build configuration
  (\<open>HelloWorld/avr-Configuration\<close>), the collections of rewrite rules the component
  proofs use, and lemmas on lists that no component owns.

  A C \<open>int\<close> is 16 bits wide on the AVR. It is modelled as an \<open>int\<close>
  within \<open>MININT..MAXINT\<close>; where an operation of the code may leave that range the
  model uses \<open>add16\<close> and \<open>sub16\<close>, which have no value on signed overflow
  (undefined in C), or \<open>s16\<close> and \<open>u16\<close> where the code converts and the value
  wraps. A function that may fail to return (an endless list walk, \<open>panic\<close>, signed
  overflow) has an \<open>option\<close> type, and \<open>None\<close> is that outcome.
\<close>

named_theorems queue_upd \<open>rewrite rules for single assignments to the q table\<close>
named_theorems kupd \<open>rewrite rules for single assignments to the kernel state\<close>
named_theorems kdefs \<open>definitions of the kernel operations\<close>

section \<open>Machine integers\<close>

definition MININT :: int where "MININT = - 32768"
definition MAXINT :: int where "MAXINT = 32767"

abbreviation int16 :: "int \<Rightarrow> bool" where
  "int16 x \<equiv> MININT \<le> x \<and> x \<le> MAXINT"

definition s16 :: "int \<Rightarrow> int" where
  "s16 x = (x + 32768) mod 65536 - 32768"

definition u16 :: "int \<Rightarrow> int" where
  "u16 x = x mod 65536"

definition chk16 :: "int \<Rightarrow> int option" where
  "chk16 x = (if int16 x then Some x else None)"

definition add16 :: "int \<Rightarrow> int \<Rightarrow> int option" where
  "add16 x y = chk16 (x + y)"

definition sub16 :: "int \<Rightarrow> int \<Rightarrow> int option" where
  "sub16 x y = chk16 (x - y)"

definition add32 :: "int \<Rightarrow> int \<Rightarrow> int option" where
  "add32 x y = (if - 2147483648 \<le> x + y \<and> x + y < 2147483648 then Some (x + y) else None)"

definition u8 :: "int \<Rightarrow> int" where
  "u8 x = x mod 256"

definition u32 :: "int \<Rightarrow> int" where
  "u32 x = x mod 4294967296"

lemma MININT_less_MAXINT [simp]: "MININT < MAXINT" "MININT \<le> MAXINT"
  by (simp_all add: MININT_def MAXINT_def)

lemma s16_range: "int16 (s16 x)"
  by (simp add: s16_def MININT_def MAXINT_def)

lemma s16_id [simp]: "int16 x \<Longrightarrow> s16 x = x"
  by (simp add: s16_def MININT_def MAXINT_def)

lemma u16_range: "0 \<le> u16 x \<and> u16 x < 65536"
  by (simp add: u16_def)

lemma u16_id [simp]: "0 \<le> x \<Longrightarrow> x < 65536 \<Longrightarrow> u16 x = x"
  by (simp add: u16_def)

lemma chk16_eq_Some [simp]: "chk16 x = Some y \<longleftrightarrow> int16 x \<and> y = x"
  by (auto simp: chk16_def)

lemma add16_Some [simp]: "int16 (x + y) \<Longrightarrow> add16 x y = Some (x + y)"
  by (simp add: add16_def)

lemma sub16_Some [simp]: "int16 (x - y) \<Longrightarrow> sub16 x y = Some (x - y)"
  by (simp add: sub16_def)

lemma add16_SomeD: "add16 x y = Some z \<Longrightarrow> z = x + y \<and> int16 z"
  by (auto simp: add16_def)

lemma sub16_SomeD: "sub16 x y = Some z \<Longrightarrow> z = x - y \<and> int16 z"
  by (auto simp: sub16_def)

section \<open>Constants of kernel.h and of the build configuration\<close>

definition OK :: int where "OK = 1"
definition SYSERR :: int where "SYSERR = - 1"
definition EOF :: int where "EOF = - 2"
definition TIMEOUT :: int where "TIMEOUT = - 3"
definition INTRMSG :: int where "INTRMSG = - 4"
definition QUANTUM :: int where "QUANTUM = 10"
definition MINSTK :: int where "MINSTK = 200"
definition NULLSTK :: int where "NULLSTK = 200"
definition MAGIC :: int where "MAGIC = 170"

definition NPROC :: int where "NPROC = 10"
definition NSEM :: int where "NSEM = 30"
definition TICK :: int where "TICK = 16"

definition EMPTY :: int where "EMPTY = - 1"
definition NULLPROC :: int where "NULLPROC = 0"
definition BADPID :: int where "BADPID = - 1"
definition BADDEV :: int where "BADDEV = - 1"

definition isbadpid :: "int \<Rightarrow> bool" where
  "isbadpid x \<longleftrightarrow> x \<le> 0 \<or> NPROC \<le> x"

definition isbadsem :: "int \<Rightarrow> bool" where
  "isbadsem s \<longleftrightarrow> s < 0 \<or> s \<ge> NSEM"

lemma NPROC_pos [simp]: "0 < NPROC" "0 \<le> NPROC" "NPROC \<noteq> 0"
  by (simp_all add: NPROC_def)

lemma NSEM_pos [simp]: "0 < NSEM" "0 \<le> NSEM"
  by (simp_all add: NSEM_def)

lemma EMPTY_not_pid [simp]: "EMPTY < 0" "\<not> 0 \<le> EMPTY" "EMPTY < NPROC"
  by (simp_all add: EMPTY_def NPROC_def)

lemma isbadpid_EMPTY [simp]: "isbadpid EMPTY"
  by (simp add: isbadpid_def EMPTY_def)

lemma isbadpid_NULLPROC [simp]: "isbadpid NULLPROC"
  by (simp add: isbadpid_def NULLPROC_def)

lemma isbadpid_iff: "\<not> isbadpid p \<longleftrightarrow> 0 < p \<and> p < NPROC"
  by (auto simp: isbadpid_def)

section \<open>Lists\<close>

text \<open>The position a key takes in a list ordered by \<open>kf\<close>: before the first element
  whose key is not smaller.\<close>

definition key_insert :: "(int \<Rightarrow> int) \<Rightarrow> int \<Rightarrow> int \<Rightarrow> int list \<Rightarrow> int list" where
  "key_insert kf k p xs =
     takeWhile (\<lambda>x. kf x < k) xs @ p # dropWhile (\<lambda>x. kf x < k) xs"

lemma set_key_insert [simp]: "set (key_insert kf k p xs) = insert p (set xs)"
  unfolding key_insert_def
  by (metis Un_insert_right list.simps(15) set_append takeWhile_dropWhile_id)

lemma length_key_insert [simp]: "length (key_insert kf k p xs) = Suc (length xs)"
  unfolding key_insert_def
  by (metis add_Suc_right length_Cons length_append takeWhile_dropWhile_id)

lemma key_insert_not_Nil [simp]: "key_insert kf k p xs \<noteq> []"
  by (simp add: key_insert_def)

lemma distinct_mid: "distinct (xs @ ys) \<Longrightarrow> p \<notin> set (xs @ ys) \<Longrightarrow> distinct (xs @ p # ys)"
  by auto

lemma distinct_key_insert [simp]:
  "distinct xs \<Longrightarrow> p \<notin> set xs \<Longrightarrow> distinct (key_insert kf k p xs)"
  unfolding key_insert_def by (rule distinct_mid) simp_all

lemma key_insert_cong:
  assumes "\<And>x. x \<in> set xs \<Longrightarrow> kf x = kf' x"
  shows "key_insert kf k p xs = key_insert kf' k p xs"
proof -
  have "takeWhile (\<lambda>x. kf x < k) xs = takeWhile (\<lambda>x. kf' x < k) xs"
    by (rule takeWhile_cong) (simp_all add: assms)
  moreover have "dropWhile (\<lambda>x. kf x < k) xs = dropWhile (\<lambda>x. kf' x < k) xs"
    by (rule dropWhile_cong) (simp_all add: assms)
  ultimately show ?thesis by (simp add: key_insert_def)
qed

lemma key_insert_Cons:
  "key_insert kf k p (x # xs) = (if kf x < k then x # key_insert kf k p xs else p # x # xs)"
  by (simp add: key_insert_def)

lemma key_insert_Nil [simp]: "key_insert kf k p [] = [p]"
  by (simp add: key_insert_def)

lemma sorted_key_insert:
  "sorted (map kf xs) \<Longrightarrow> kf p = k \<Longrightarrow> sorted (map kf (key_insert kf k p xs))"
  by (induction xs) (auto simp: key_insert_Cons)

lemma mod_cover:
  fixes N :: int
  assumes "0 \<le> j" "j < N"
  shows "\<exists>k < nat N. (x - int k) mod N = j"
proof (intro exI conjI)
  let ?k = "nat ((x - j) mod N)"
  have b: "0 \<le> (x - j) mod N" "(x - j) mod N < N" using assms by simp_all
  then show "?k < nat N" by (simp add: nat_less_iff)
  have "(x - int ?k) mod N = (x - (x - j)) mod N" using b(1) by (simp add: mod_simps)
  then show "(x - int ?k) mod N = j" using assms by simp
qed

lemma remove1_mid: "p \<notin> set xs \<Longrightarrow> remove1 p (xs @ p # ys) = xs @ ys"
  by (simp add: remove1_append)

end
