(* ===== verification/QueueTab.thy ===== *)
theory QueueTab
  imports Prelude
begin

text \<open>
  The \<open>q\<close> table (\<open>src/sys/h/q.h\<close>): one array of entries that holds every list of
  the kernel, the ready list, the list of sleeping processes and one list per semaphore.
  Entries below \<open>NPROC\<close> are processes; every list has two further entries, its head and
  its tail. The operations are those of \<open>queue.c\<close>, \<open>insert.c\<close>, \<open>insertd.c\<close>,
  \<open>getitem.c\<close> and \<open>newqueue.c\<close>, assignment by assignment, on the array as a
  function from indices to entries. \<open>qrep q h xs\<close> says that the doubly linked list with
  head \<open>h\<close> holds the processes \<open>xs\<close>; every operation is shown to act on \<open>xs\<close> as
  an operation on lists and to leave every entry outside its list alone.
\<close>

section \<open>The table and its operations\<close>

record qent =
  qkey :: int
  qnext :: int
  qprev :: int

type_synonym qarr = "int \<Rightarrow> qent"

definition set_qkey :: "int \<Rightarrow> int \<Rightarrow> qarr \<Rightarrow> qarr" where
  "set_qkey i v q = q(i := (q i)\<lparr>qkey := v\<rparr>)"

definition set_qnext :: "int \<Rightarrow> int \<Rightarrow> qarr \<Rightarrow> qarr" where
  "set_qnext i v q = q(i := (q i)\<lparr>qnext := v\<rparr>)"

definition set_qprev :: "int \<Rightarrow> int \<Rightarrow> qarr \<Rightarrow> qarr" where
  "set_qprev i v q = q(i := (q i)\<lparr>qprev := v\<rparr>)"

text \<open>The inline list operations of q.h.\<close>

definition isempty :: "qarr \<Rightarrow> int \<Rightarrow> bool" where
  "isempty q list = (qnext (q list) \<ge> NPROC)"

definition nonempty :: "qarr \<Rightarrow> int \<Rightarrow> bool" where
  "nonempty q list = (qnext (q list) < NPROC)"

definition firstkey :: "qarr \<Rightarrow> int \<Rightarrow> int" where
  "firstkey q list = qkey (q (qnext (q list)))"

definition lastkey :: "qarr \<Rightarrow> int \<Rightarrow> int" where
  "lastkey q tail = qkey (q (qprev (q tail)))"

definition firstid :: "qarr \<Rightarrow> int \<Rightarrow> int" where
  "firstid q list = qnext (q list)"

definition enqueue :: "int \<Rightarrow> int \<Rightarrow> qarr \<Rightarrow> int \<times> qarr" where
  "enqueue item tail q =
     (let q1 = set_qnext item tail q;
          q2 = set_qprev item (qprev (q1 tail)) q1;
          q3 = set_qnext (qprev (q2 tail)) item q2;
          q4 = set_qprev tail item q3
      in (item, q4))"

definition dequeue :: "int \<Rightarrow> qarr \<Rightarrow> int \<times> qarr" where
  "dequeue item q =
     (let q1 = set_qnext (qprev (q item)) (qnext (q item)) q;
          q2 = set_qprev (qnext (q1 item)) (qprev (q1 item)) q1
      in (item, q2))"

partial_function (option) insert_scan :: "qarr \<Rightarrow> int \<Rightarrow> int \<Rightarrow> int option" where
  "insert_scan q key next =
     (if qkey (q next) < key then insert_scan q key (qnext (q next)) else Some next)"

definition insert_q :: "int \<Rightarrow> int \<Rightarrow> int \<Rightarrow> qarr \<Rightarrow> (int \<times> qarr) option" where
  "insert_q proc head key q = do {
     next \<leftarrow> insert_scan q key (qnext (q head));
     let q1 = set_qnext proc next q;
         prev = qprev (q1 next);
         q2 = set_qprev proc prev q1;
         q3 = set_qkey proc key q2;
         q4 = set_qnext prev proc q3;
         q5 = set_qprev next proc q4
     in Some (OK, q5)
   }"

partial_function (option) insertd_scan ::
  "qarr \<Rightarrow> int \<Rightarrow> int \<Rightarrow> int \<Rightarrow> (int \<times> int \<times> int) option" where
  "insertd_scan q prev next key =
     (if qkey (q next) < key
      then Option.bind (sub16 key (qkey (q next)))
             (\<lambda>key'. insertd_scan q next (qnext (q next)) key')
      else Some (prev, next, key))"

definition insertd :: "int \<Rightarrow> int \<Rightarrow> int \<Rightarrow> qarr \<Rightarrow> (int \<times> qarr) option" where
  "insertd pid head key q = do {
     (prev, next, key) \<leftarrow> insertd_scan q head (qnext (q head)) key;
     let q1 = set_qnext pid next q;
         q2 = set_qprev pid prev q1;
         q3 = set_qkey pid key q2;
         q4 = set_qnext prev pid q3;
         q5 = set_qprev next pid q4
     in if next < NPROC
        then do { k \<leftarrow> sub16 (qkey (q5 next)) key; Some (OK, set_qkey next k q5) }
        else Some (OK, q5)
   }"

definition getfirst :: "int \<Rightarrow> qarr \<Rightarrow> int \<times> qarr" where
  "getfirst head q =
     (let proc = qnext (q head) in
      if proc < NPROC then dequeue proc q else (EMPTY, q))"

definition getlast :: "int \<Rightarrow> qarr \<Rightarrow> int \<times> qarr" where
  "getlast tail q =
     (let proc = qprev (q tail) in
      if proc < NPROC then dequeue proc q else (EMPTY, q))"

definition newqueue :: "int \<times> qarr \<Rightarrow> int \<times> int \<times> qarr" where
  "newqueue nq =
     (let (nextqueue, q) = nq;
          hindex = nextqueue; nextqueue = nextqueue + 1;
          tindex = nextqueue; nextqueue = nextqueue + 1;
          q1 = set_qnext hindex tindex q;
          q2 = set_qprev hindex EMPTY q1;
          q3 = set_qkey hindex MININT q2;
          q4 = set_qnext tindex EMPTY q3;
          q5 = set_qprev tindex hindex q4;
          q6 = set_qkey tindex MAXINT q5
      in (hindex, nextqueue, q6))"

lemma set_q_simps [queue_upd]:
  "qkey (set_qkey i v q j) = (if j = i then v else qkey (q j))"
  "qnext (set_qkey i v q j) = qnext (q j)"
  "qprev (set_qkey i v q j) = qprev (q j)"
  "qkey (set_qnext i v q j) = qkey (q j)"
  "qnext (set_qnext i v q j) = (if j = i then v else qnext (q j))"
  "qprev (set_qnext i v q j) = qprev (q j)"
  "qkey (set_qprev i v q j) = qkey (q j)"
  "qnext (set_qprev i v q j) = qnext (q j)"
  "qprev (set_qprev i v q j) = (if j = i then v else qprev (q j))"
  by (simp_all add: set_qkey_def set_qnext_def set_qprev_def)

lemma set_q_other [queue_upd]:
  "j \<noteq> i \<Longrightarrow> set_qkey i v q j = q j"
  "j \<noteq> i \<Longrightarrow> set_qnext i v q j = q j"
  "j \<noteq> i \<Longrightarrow> set_qprev i v q j = q j"
  by (simp_all add: set_qkey_def set_qnext_def set_qprev_def)

section \<open>Linked lists in the table\<close>

fun linked :: "qarr \<Rightarrow> int list \<Rightarrow> bool" where
  "linked q (a # b # xs) \<longleftrightarrow> qnext (q a) = b \<and> qprev (q b) = a \<and> linked q (b # xs)"
| "linked q _ \<longleftrightarrow> True"

lemma linked_append:
  "linked q (xs @ a # ys) \<longleftrightarrow> linked q (xs @ [a]) \<and> linked q (a # ys)"
proof (induction xs)
  case Nil
  show ?case by simp
next
  case (Cons x xs)
  then show ?case by (cases xs) auto
qed

lemma linked_cong:
  assumes "linked q xs"
    and "\<And>a. a \<in> set (butlast xs) \<Longrightarrow> qnext (q' a) = qnext (q a)"
    and "\<And>a. a \<in> set (tl xs) \<Longrightarrow> qprev (q' a) = qprev (q a)"
  shows "linked q' xs"
  using assms
proof (induction q xs rule: linked.induct)
  case (1 q a b xs)
  have "linked q' (b # xs)"
    using "1.prems" by (intro "1.IH") (auto dest: in_set_butlastD split: if_splits)
  moreover have "qnext (q' a) = qnext (q a)" "qprev (q' b) = qprev (q b)"
    using "1.prems"(2)[of a] "1.prems"(3)[of b] by simp_all
  ultimately show ?case using "1.prems"(1) by simp
qed simp_all

definition heads :: "int \<Rightarrow> int set" where
  "heads h = {h, h + 1}"

definition nodes :: "int \<Rightarrow> int list \<Rightarrow> int set" where
  "nodes h xs = insert h (insert (h + 1) (set xs))"

text \<open>The list with head \<open>h\<close> and tail \<open>h + 1\<close> holds the processes \<open>xs\<close>.\<close>

definition qrep :: "qarr \<Rightarrow> int \<Rightarrow> int list \<Rightarrow> bool" where
  "qrep q h xs \<longleftrightarrow>
     linked q (h # xs @ [h + 1]) \<and> distinct xs \<and> set xs \<subseteq> {0..<NPROC} \<and> NPROC \<le> h \<and>
     qkey (q h) = MININT \<and> qkey (q (h + 1)) = MAXINT"

lemma qrepD:
  assumes "qrep q h xs"
  shows "distinct xs" "set xs \<subseteq> {0..<NPROC}" "NPROC \<le> h" "h \<notin> set xs" "h + 1 \<notin> set xs"
    "qkey (q h) = MININT" "qkey (q (h + 1)) = MAXINT" "linked q (h # xs @ [h + 1])"
  using assms by (auto simp: qrep_def)

lemma qrep_frame:
  assumes "qrep q h xs" "\<And>i. i \<in> nodes h xs \<Longrightarrow> q' i = q i"
  shows "qrep q' h xs"
proof -
  have "linked q' (h # xs @ [h + 1])"
    by (rule linked_cong [OF qrepD(8) [OF assms(1)]])
       (auto simp: assms(2) nodes_def butlast_append)
  then show ?thesis using assms by (simp add: qrep_def nodes_def)
qed

text \<open>Rewriting a key of a process leaves the links alone.\<close>

lemma qrep_links:
  assumes "qrep q h xs" "\<And>i. qnext (q' i) = qnext (q i)" "\<And>i. qprev (q' i) = qprev (q i)"
    "qkey (q' h) = qkey (q h)" "qkey (q' (h + 1)) = qkey (q (h + 1))"
  shows "qrep q' h xs"
proof -
  have "linked q' (h # xs @ [h + 1])"
    by (rule linked_cong [OF qrepD(8) [OF assms(1)]]) (simp_all add: assms)
  then show ?thesis using assms by (simp add: qrep_def)
qed

lemma qrep_set_qkey:
  assumes "qrep q h xs" "i < NPROC"
  shows "qrep (set_qkey i v q) h xs"
proof -
  have "h \<noteq> i" "h + 1 \<noteq> i" using qrepD(3) [OF assms(1)] assms(2) by auto
  then show ?thesis by (intro qrep_links [OF assms(1)]) (simp_all add: queue_upd)
qed

lemma qrep_unique:
  assumes "qrep q h xs" "qrep q h ys"
  shows "xs = ys"
proof -
  have *: "linked q (a # xs @ [h + 1]) \<Longrightarrow> linked q (a # ys @ [h + 1]) \<Longrightarrow>
    h + 1 \<notin> set xs \<Longrightarrow> h + 1 \<notin> set ys \<Longrightarrow> xs = ys" for a
  proof (induction xs arbitrary: a ys)
    case Nil
    then show ?case by (cases ys) auto
  next
    case (Cons x xs)
    then show ?case by (cases ys) auto
  qed
  show ?thesis
    by (rule * [of h]) (use qrepD [OF assms(1)] qrepD [OF assms(2)] in simp_all)
qed

lemma qrep_first:
  assumes "qrep q h xs"
  shows "qnext (q h) = (case xs of [] \<Rightarrow> h + 1 | x # _ \<Rightarrow> x)"
  using qrepD(8) [OF assms] by (cases xs) auto

lemma qrep_last:
  assumes "qrep q h xs"
  shows "qprev (q (h + 1)) = (if xs = [] then h else last xs)"
proof (cases xs rule: rev_cases)
  case Nil
  then show ?thesis using qrepD(8) [OF assms] by simp
next
  case (snoc ys y)
  then have "linked q ((h # ys) @ y # [h + 1])" using qrepD(8) [OF assms] by simp
  then show ?thesis using snoc by (subst (asm) linked_append) simp
qed

lemma nonempty_qrep: "qrep q h xs \<Longrightarrow> nonempty q h \<longleftrightarrow> xs \<noteq> []"
  using qrepD(2,3)[of q h xs]
  by (auto simp: nonempty_def qrep_first split: list.splits)

lemma isempty_qrep: "qrep q h xs \<Longrightarrow> isempty q h \<longleftrightarrow> xs = []"
  using nonempty_qrep[of q h xs] by (auto simp: nonempty_def isempty_def)

subsection \<open>Splicing an entry in and out\<close>

lemma linked_splice_in:
  assumes "linked q (xs @ a # b # ys)" "distinct (xs @ a # b # ys)" "p \<notin> set (xs @ a # b # ys)"
    and "qnext (q' a) = p" "qprev (q' p) = a" "qnext (q' p) = b" "qprev (q' b) = p"
    and "\<And>i. i \<noteq> a \<Longrightarrow> i \<noteq> p \<Longrightarrow> qnext (q' i) = qnext (q i)"
    and "\<And>i. i \<noteq> b \<Longrightarrow> i \<noteq> p \<Longrightarrow> qprev (q' i) = qprev (q i)"
  shows "linked q' (xs @ a # p # b # ys)"
proof -
  have l: "linked q (xs @ [a])" "linked q (b # ys)"
    using assms(1) linked_append [of q xs a "b # ys"] by simp_all
  have "linked q' (xs @ [a])"
  proof (rule linked_cong [OF l(1)])
    fix i assume "i \<in> set (butlast (xs @ [a]))"
    then show "qnext (q' i) = qnext (q i)" using assms(2,3) by (intro assms(8)) auto
  next
    fix i assume "i \<in> set (tl (xs @ [a]))"
    then have "i \<in> set (xs @ [a])" by (cases xs) auto
    then show "qprev (q' i) = qprev (q i)" using assms(2,3) by (intro assms(9)) auto
  qed
  moreover have "linked q' (b # ys)"
  proof (rule linked_cong [OF l(2)])
    fix i assume "i \<in> set (butlast (b # ys))"
    then have "i \<in> set (b # ys)" by (rule in_set_butlastD)
    then show "qnext (q' i) = qnext (q i)" using assms(2,3) by (intro assms(8)) auto
  next
    fix i assume "i \<in> set (tl (b # ys))"
    then show "qprev (q' i) = qprev (q i)" using assms(2,3) by (intro assms(9)) auto
  qed
  ultimately show ?thesis
    using assms(4-7) by (subst linked_append) simp
qed

lemma linked_splice_out:
  assumes "linked q (xs @ a # p # b # ys)" "distinct (xs @ a # p # b # ys)"
    and "qnext (q' a) = b" "qprev (q' b) = a"
    and "\<And>i. i \<noteq> a \<Longrightarrow> qnext (q' i) = qnext (q i)"
    and "\<And>i. i \<noteq> b \<Longrightarrow> qprev (q' i) = qprev (q i)"
  shows "linked q' (xs @ a # b # ys)"
proof -
  have l: "linked q (xs @ [a])" "linked q (b # ys)"
    using assms(1) linked_append [of q xs a "p # b # ys"] by simp_all
  have "linked q' (xs @ [a])"
  proof (rule linked_cong [OF l(1)])
    fix i assume "i \<in> set (butlast (xs @ [a]))"
    then show "qnext (q' i) = qnext (q i)" using assms(2) by (intro assms(5)) auto
  next
    fix i assume "i \<in> set (tl (xs @ [a]))"
    then have "i \<in> set (xs @ [a])" by (cases xs) auto
    then show "qprev (q' i) = qprev (q i)" using assms(2) by (intro assms(6)) auto
  qed
  moreover have "linked q' (b # ys)"
  proof (rule linked_cong [OF l(2)])
    fix i assume "i \<in> set (butlast (b # ys))"
    then have "i \<in> set (b # ys)" by (rule in_set_butlastD)
    then show "qnext (q' i) = qnext (q i)" using assms(2) by (intro assms(5)) auto
  next
    fix i assume "i \<in> set (tl (b # ys))"
    then show "qprev (q' i) = qprev (q i)" using assms(2) by (intro assms(6)) auto
  qed
  ultimately show ?thesis
    using assms(3,4) by (subst linked_append) simp
qed

text \<open>The neighbours of a position in a list: the entry before it and the entry after.\<close>

definition before :: "int \<Rightarrow> int list \<Rightarrow> int" where
  "before h l = last (h # l)"

definition after :: "int \<Rightarrow> int list \<Rightarrow> int" where
  "after h r = hd (r @ [h + 1])"

definition upto_before :: "int \<Rightarrow> int list \<Rightarrow> int list" where
  "upto_before h l = butlast (h # l)"

definition from_after :: "int \<Rightarrow> int list \<Rightarrow> int list" where
  "from_after h r = tl (r @ [h + 1])"

lemma chain_parts:
  "h # l = upto_before h l @ [before h l]" "r @ [h + 1] = after h r # from_after h r"
  by (simp_all only: before_def after_def upto_before_def from_after_def
        append_butlast_last_id list.distinct(2) not_False_eq_True append_is_Nil_conv
        list.exhaust_sel) simp_all

lemma chain_split:
  "h # (l @ r) @ [h + 1] = upto_before h l @ before h l # after h r # from_after h r"
  using chain_parts(1) [of h l] chain_parts(2) [of r h]
  by (metis append.assoc append_Cons append_Nil)

lemma chain_split_mid:
  "h # (l @ p # r) @ [h + 1] = upto_before h l @ before h l # p # after h r # from_after h r"
  using chain_parts(1) [of h l] chain_parts(2) [of r h]
  by (metis append.assoc append_Cons append_Nil)

lemma before_simps [simp]: "before h [] = h" "before h (l @ [x]) = x"
  by (simp_all add: before_def)

lemma after_simps [simp]: "after h [] = h + 1" "after h (x # r) = x"
  by (simp_all add: after_def)

lemma before_in: "before h l \<in> insert h (set l)"
  by (simp add: before_def)

lemma after_in: "after h r \<in> insert (h + 1) (set r)"
  by (simp add: after_def hd_append)

lemma qrep_chain_distinct: "qrep q h xs \<Longrightarrow> distinct (h # xs @ [h + 1])"
  using qrepD[of q h xs] by auto

lemma qrep_neighbours:
  assumes "qrep q h (l @ r)"
  shows "qnext (q (before h l)) = after h r" "qprev (q (after h r)) = before h l"
    "before h l \<in> nodes h (l @ r)" "after h r \<in> nodes h (l @ r)"
    "before h l \<noteq> after h r" "before h l \<noteq> h + 1" "after h r \<noteq> h"
proof -
  have "linked q (upto_before h l @ before h l # after h r # from_after h r)"
    using qrepD(8) [OF assms] by (simp only: chain_split)
  then have "linked q (before h l # after h r # from_after h r)"
    by (subst (asm) linked_append) simp
  then show "qnext (q (before h l)) = after h r" "qprev (q (after h r)) = before h l" by simp_all
  show "before h l \<in> nodes h (l @ r)" "after h r \<in> nodes h (l @ r)"
    using before_in [of h l] after_in [of h r] by (auto simp: nodes_def)
  have "distinct (upto_before h l @ before h l # after h r # from_after h r)"
    using qrep_chain_distinct [OF assms] by (simp only: chain_split)
  then show "before h l \<noteq> after h r" by simp
  show "before h l \<noteq> h + 1" "after h r \<noteq> h"
    using qrepD(3-5) [OF assms] before_in [of h l] after_in [of h r] by auto
qed

lemma qrep_neighbours_mid:
  assumes "qrep q h (l @ p # r)"
  shows "qnext (q p) = after h r" "qprev (q p) = before h l"
    "p \<noteq> before h l" "p \<noteq> after h r" "before h l \<noteq> after h r"
    "before h l \<in> nodes h (l @ p # r)" "after h r \<in> nodes h (l @ p # r)"
proof -
  have "linked q (upto_before h l @ before h l # p # after h r # from_after h r)"
    using qrepD(8) [OF assms] by (simp only: chain_split_mid)
  then have "linked q (before h l # p # after h r # from_after h r)"
    by (subst (asm) linked_append) simp
  then show "qnext (q p) = after h r" "qprev (q p) = before h l" by simp_all
  have "distinct (upto_before h l @ before h l # p # after h r # from_after h r)"
    using qrep_chain_distinct [OF assms] by (simp only: chain_split_mid)
  then show "p \<noteq> before h l" "p \<noteq> after h r" "before h l \<noteq> after h r" by auto
  show "before h l \<in> nodes h (l @ p # r)" "after h r \<in> nodes h (l @ p # r)"
    using before_in [of h l] after_in [of h r] by (auto simp: nodes_def)
qed

lemma qrep_splice_in:
  assumes "qrep q h (l @ r)" "p \<notin> set (l @ r)" "0 \<le> p" "p < NPROC"
    and "qnext (q' (before h l)) = p" "qprev (q' p) = before h l"
    and "qnext (q' p) = after h r" "qprev (q' (after h r)) = p"
    and "\<And>i. i \<noteq> before h l \<Longrightarrow> i \<noteq> p \<Longrightarrow> qnext (q' i) = qnext (q i)"
    and "\<And>i. i \<noteq> after h r \<Longrightarrow> i \<noteq> p \<Longrightarrow> qprev (q' i) = qprev (q i)"
    and "qkey (q' h) = qkey (q h)" "qkey (q' (h + 1)) = qkey (q (h + 1))"
  shows "qrep q' h (l @ p # r)"
proof -
  let ?c = "upto_before h l @ before h l # after h r # from_after h r"
  have "distinct (h # (l @ r) @ [h + 1])" "p \<notin> set (h # (l @ r) @ [h + 1])"
    using qrepD(1-5) [OF assms(1)] assms(2-4) by auto
  then have d: "distinct ?c" "p \<notin> set ?c" "linked q ?c"
    using qrepD(8) [OF assms(1)] by (simp_all only: chain_split not_False_eq_True)
  have "linked q' (upto_before h l @ before h l # p # after h r # from_after h r)"
    by (rule linked_splice_in [OF d(3,1,2)]) (simp_all add: assms)
  then have "linked q' (h # (l @ p # r) @ [h + 1])" by (simp only: chain_split_mid)
  then show ?thesis
    using assms(2-4,11,12) qrepD [OF assms(1)] by (auto simp: qrep_def)
qed

lemma qrep_splice_out:
  assumes "qrep q h (l @ p # r)"
    and "qnext (q' (before h l)) = after h r" "qprev (q' (after h r)) = before h l"
    and "\<And>i. i \<noteq> before h l \<Longrightarrow> qnext (q' i) = qnext (q i)"
    and "\<And>i. i \<noteq> after h r \<Longrightarrow> qprev (q' i) = qprev (q i)"
    and "qkey (q' h) = qkey (q h)" "qkey (q' (h + 1)) = qkey (q (h + 1))"
  shows "qrep q' h (l @ r)"
proof -
  let ?c = "upto_before h l @ before h l # p # after h r # from_after h r"
  have d: "distinct ?c" "linked q ?c"
    using qrep_chain_distinct [OF assms(1)] qrepD(8) [OF assms(1)]
    by (simp_all only: chain_split_mid)
  have "linked q' (upto_before h l @ before h l # after h r # from_after h r)"
    by (rule linked_splice_out [OF d(2,1)]) (simp_all add: assms)
  then have "linked q' (h # (l @ r) @ [h + 1])" by (simp only: chain_split)
  then show ?thesis
    using assms(6,7) qrepD [OF assms(1)] by (auto simp: qrep_def)
qed

section \<open>What the operations do to a list\<close>

lemma enqueue_qrep:
  assumes "qrep q h xs" "p \<notin> set xs" "0 \<le> p" "p < NPROC"
  shows "qrep (snd (enqueue p (h + 1) q)) h (xs @ [p])"
proof -
  have r: "qrep q h (xs @ [])" using assms(1) by simp
  have "p \<noteq> h + 1" using assms(4) qrepD(3) [OF assms(1)] by simp
  then show ?thesis
    using qrep_neighbours [OF r] assms before_in [of h xs] qrepD(3) [OF assms(1)]
    by (intro qrep_splice_in [OF r]) (auto simp: enqueue_def Let_def queue_upd)
qed

lemma enqueue_frame:
  assumes "qrep q h xs" "i \<notin> nodes h xs" "i \<noteq> p" "p \<noteq> h + 1"
  shows "snd (enqueue p (h + 1) q) i = q i"
proof -
  have "qprev (q (h + 1)) = before h xs" using qrep_neighbours(2) [of q h xs "[]"] assms(1) by simp
  moreover have "i \<noteq> before h xs" "i \<noteq> h + 1"
    using assms(2) before_in [of h xs] by (auto simp: nodes_def)
  ultimately show ?thesis
    using assms(3,4) by (simp add: enqueue_def Let_def queue_upd)
qed

lemma enqueue_key [simp]: "qkey (snd (enqueue p t q) i) = qkey (q i)"
  by (simp add: enqueue_def Let_def queue_upd)

lemma fst_enqueue [simp]: "fst (enqueue p t q) = p"
  by (simp add: enqueue_def Let_def)

lemma dequeue_qrep_mid:
  assumes "qrep q h (l @ p # r)"
  shows "qrep (snd (dequeue p q)) h (l @ r)"
  using qrep_neighbours_mid [OF assms] qrepD(3,4,5) [OF assms]
  by (intro qrep_splice_out [OF assms]) (auto simp: dequeue_def Let_def queue_upd)

lemma dequeue_qrep:
  assumes "qrep q h xs" "p \<in> set xs"
  shows "qrep (snd (dequeue p q)) h (remove1 p xs)"
proof -
  obtain l r where xs: "xs = l @ p # r" "p \<notin> set l"
    using assms(2) by (meson split_list_first)
  then show ?thesis using dequeue_qrep_mid [of q h l p r] assms(1) by (simp add: remove1_mid)
qed

lemma dequeue_frame:
  assumes "qrep q h xs" "p \<in> set xs" "i \<notin> nodes h xs"
  shows "snd (dequeue p q) i = q i"
proof -
  obtain l r where xs: "xs = l @ p # r" using assms(2) by (meson split_list)
  with assms(1) have r: "qrep q h (l @ p # r)" by simp
  have "i \<noteq> before h l" "i \<noteq> after h r"
    using qrep_neighbours_mid(6,7) [OF r] assms(3) xs by auto
  then show ?thesis
    using qrep_neighbours_mid [OF r] by (simp add: dequeue_def Let_def queue_upd)
qed

lemma dequeue_key [simp]: "qkey (snd (dequeue p q) i) = qkey (q i)"
  by (simp add: dequeue_def Let_def queue_upd)

lemma fst_dequeue [simp]: "fst (dequeue p q) = p"
  by (simp add: dequeue_def Let_def)

lemma getfirst_Nil: "qrep q h [] \<Longrightarrow> getfirst h q = (EMPTY, q)"
  using nonempty_qrep [of q h "[]"] by (simp add: getfirst_def nonempty_def Let_def)

lemma getfirst_Cons: "qrep q h (x # xs) \<Longrightarrow> getfirst h q = (x, snd (dequeue x q))"
  using qrepD(2) [of q h "x # xs"]
  by (auto simp: getfirst_def Let_def qrep_first intro: prod_eqI)

lemma getlast_Nil: "qrep q h [] \<Longrightarrow> getlast (h + 1) q = (EMPTY, q)"
  using qrepD(3) [of q h "[]"] by (simp add: getlast_def Let_def qrep_last)

lemma getlast_snoc: "qrep q h (xs @ [x]) \<Longrightarrow> getlast (h + 1) q = (x, snd (dequeue x q))"
  using qrepD(2) [of q h "xs @ [x]"]
  by (auto simp: getlast_def Let_def qrep_last intro: prod_eqI)

section \<open>Insertion by key\<close>

lemma insert_scan_chain:
  assumes "linked q (xs @ b # ys)" "\<And>x. x \<in> set xs \<Longrightarrow> qkey (q x) < k" "\<not> qkey (q b) < k"
  shows "insert_scan q k (hd (xs @ [b])) = Some b"
  using assms
proof (induction xs)
  case Nil
  then show ?case by (simp add: insert_scan.simps)
next
  case (Cons x xs)
  have "linked q (xs @ b # ys)" using Cons.prems(1) by (cases xs) auto
  then have "insert_scan q k (hd (xs @ [b])) = Some b" using Cons by simp
  moreover have "qnext (q x) = hd (xs @ [b])" using Cons.prems(1) by (cases xs) auto
  ultimately show ?case using Cons.prems(2) by (simp add: insert_scan.simps [of q k x])
qed

lemma linked_tl: "linked q (a # xs) \<Longrightarrow> linked q xs"
  by (cases xs) auto

text \<open>The walk stops at the first entry whose key is not below the new one; the tail, with
  key \<open>MAXINT\<close>, stops it at the latest.\<close>

lemma insert_scan_qrep:
  assumes "qrep q h (l @ r)" "\<And>x. x \<in> set l \<Longrightarrow> qkey (q x) < k"
    "r \<noteq> [] \<Longrightarrow> k \<le> qkey (q (hd r))" "k \<le> MAXINT"
  shows "insert_scan q k (qnext (q h)) = Some (after h r)"
proof -
  have "linked q (l @ after h r # from_after h r)"
    using linked_tl [OF qrepD(8) [OF assms(1)]] chain_parts(2) [of r h] by simp
  moreover have "\<not> qkey (q (after h r)) < k"
    using assms(3,4) qrepD(7) [OF assms(1)] by (cases r) auto
  ultimately have "insert_scan q k (hd (l @ [after h r])) = Some (after h r)"
    using assms(2) by (intro insert_scan_chain)
  moreover have "qnext (q h) = hd (l @ [after h r])"
    using qrepD(8) [OF assms(1)] by (cases l; cases r) (auto simp: qrep_first [OF assms(1)])
  ultimately show ?thesis by simp
qed

lemma insert_q_qrep:
  assumes "qrep q h xs" "p \<notin> set xs" "0 \<le> p" "p < NPROC" "k \<le> MAXINT"
  obtains q' where "insert_q p h k q = Some (OK, q')"
    "qrep q' h (key_insert (\<lambda>x. qkey (q x)) k p xs)"
    "\<And>i. qkey (q' i) = (if i = p then k else qkey (q i))"
    "\<And>i. i \<notin> nodes h xs \<Longrightarrow> i \<noteq> p \<Longrightarrow> q' i = q i"
proof -
  let ?l = "takeWhile (\<lambda>x. qkey (q x) < k) xs" and ?r = "dropWhile (\<lambda>x. qkey (q x) < k) xs"
  have r: "qrep q h (?l @ ?r)" using assms(1) by simp
  note nb = qrep_neighbours [OF r]
  have ph: "p \<noteq> h" "p \<noteq> h + 1" using assms(4) qrepD(3) [OF assms(1)] by auto
  have pl: "p \<noteq> before h ?l" "p \<noteq> after h ?r"
    using nb(3,4) assms(2) ph by (auto simp: nodes_def)
  have scan: "insert_scan q k (qnext (q h)) = Some (after h ?r)"
  proof (rule insert_scan_qrep [OF r])
    show "qkey (q x) < k" if "x \<in> set ?l" for x using set_takeWhileD [OF that] by simp
    show "k \<le> qkey (q (hd ?r))" if "?r \<noteq> []" using hd_dropWhile [OF that] by simp
  qed (rule assms(5))
  define q' where "q' = set_qprev (after h ?r) p (set_qnext (before h ?l) p
    (set_qkey p k (set_qprev p (before h ?l) (set_qnext p (after h ?r) q))))"
  have 1: "insert_q p h k q = Some (OK, q')"
    using scan nb pl by (simp add: insert_q_def q'_def Let_def queue_upd)
  have "qrep q' h (?l @ p # ?r)"
    using nb assms(2-4) ph pl
    by (intro qrep_splice_in [OF r]) (auto simp: q'_def queue_upd)
  then have 2: "qrep q' h (key_insert (\<lambda>x. qkey (q x)) k p xs)" by (simp add: key_insert_def)
  have 3: "qkey (q' i) = (if i = p then k else qkey (q i))" for i
    using pl by (simp add: q'_def queue_upd)
  have 4: "q' i = q i" if "i \<notin> nodes h xs" "i \<noteq> p" for i
  proof -
    have "i \<noteq> before h ?l" "i \<noteq> after h ?r" using nb(3,4) that by auto
    then show ?thesis using that by (simp add: q'_def queue_upd)
  qed
  show thesis by (rule that [OF 1 2 3 4])
qed

section \<open>A new list\<close>

lemma newqueue_qrep:
  assumes "newqueue (n, q) = (h, n', q')" "NPROC \<le> n"
  shows "h = n" "n' = n + 2" "qrep q' h []" "\<And>i. i \<notin> heads h \<Longrightarrow> q' i = q i"
  using assms by (auto simp: newqueue_def Let_def qrep_def heads_def queue_upd)

section \<open>Interfaces: a first-in first-out queue and a priority queue\<close>

text \<open>
  Semaphores use a list of the q table as a queue (\<open>enqueue\<close> at the tail, \<open>getfirst\<close>
  from the head), the scheduler uses one as a priority queue (\<open>insert\<close> by key,
  \<open>getlast\<close>). The contracts of both uses, with what a client may conclude from them.
\<close>

locale fifo =
  fixes rep :: "'q \<Rightarrow> 'a list \<Rightarrow> bool"
    and enq :: "'a \<Rightarrow> 'q \<Rightarrow> 'q"
    and deq :: "'q \<Rightarrow> 'a \<times> 'q"
    and item_ok :: "'a \<Rightarrow> bool"
    and none :: 'a
  assumes rep_distinct: "rep q xs \<Longrightarrow> distinct xs"
    and rep_enq: "rep q xs \<Longrightarrow> item_ok x \<Longrightarrow> x \<notin> set xs \<Longrightarrow> rep (enq x q) (xs @ [x])"
    and rep_deq: "rep q (x # xs) \<Longrightarrow> fst (deq q) = x \<and> rep (snd (deq q)) xs"
    and rep_deq_none: "rep q [] \<Longrightarrow> deq q = (none, q)"
begin

fun enq_all :: "'a list \<Rightarrow> 'q \<Rightarrow> 'q" where
  "enq_all [] q = q"
| "enq_all (x # xs) q = enq_all xs (enq x q)"

fun deq_n :: "nat \<Rightarrow> 'q \<Rightarrow> 'a list \<times> 'q" where
  "deq_n 0 q = ([], q)"
| "deq_n (Suc n) q = (let (x, q) = deq q; (ys, q) = deq_n n q in (x # ys, q))"

lemma rep_enq_all:
  "rep q xs \<Longrightarrow> distinct (xs @ ys) \<Longrightarrow> (\<And>y. y \<in> set ys \<Longrightarrow> item_ok y) \<Longrightarrow>
    rep (enq_all ys q) (xs @ ys)"
proof (induction ys arbitrary: q xs)
  case (Cons y ys)
  have "rep (enq y q) (xs @ [y])" using Cons.prems by (intro rep_enq) auto
  then have "rep (enq_all ys (enq y q)) ((xs @ [y]) @ ys)"
    using Cons.prems by (intro Cons.IH) auto
  then show ?case by simp
qed simp

lemma rep_deq_n:
  "rep q (xs @ ys) \<Longrightarrow> n = length xs \<Longrightarrow>
    fst (deq_n n q) = xs \<and> rep (snd (deq_n n q)) ys"
proof (induction xs arbitrary: q n)
  case (Cons x xs)
  obtain q' where q': "deq q = (x, q')" "rep q' (xs @ ys)"
    using rep_deq [of q x "xs @ ys"] Cons.prems(1) by (cases "deq q") auto
  then have "fst (deq_n (length xs) q') = xs \<and> rep (snd (deq_n (length xs) q')) ys"
    by (intro Cons.IH) simp_all
  then show ?case using q' Cons.prems(2) by (simp add: Let_def case_prod_beta)
qed simp

text \<open>Processes leave in the order they came.\<close>

lemma fifo_order:
  assumes "rep q []" "distinct ys" "\<And>y. y \<in> set ys \<Longrightarrow> item_ok y"
  shows "fst (deq_n (length ys) (enq_all ys q)) = ys"
proof -
  have "rep (enq_all ys q) ([] @ ys)" by (rule rep_enq_all) (simp_all add: assms)
  then show ?thesis using rep_deq_n [of "enq_all ys q" ys "[]"] by simp
qed

end

interpretation semq: fifo "\<lambda>q xs. qrep q h xs" "\<lambda>p q. snd (enqueue p (h + 1) q)" "getfirst h"
  "\<lambda>p. 0 \<le> p \<and> p < NPROC" EMPTY for h
proof unfold_locales
  show "qrep q h xs \<Longrightarrow> distinct xs" for q xs by (rule qrepD)
  show "qrep (snd (enqueue x (h + 1) q)) h (xs @ [x])"
    if "qrep q h xs" "0 \<le> x \<and> x < NPROC" "x \<notin> set xs" for q xs x
    using that by (simp add: enqueue_qrep)
  show "fst (getfirst h q) = x \<and> qrep (snd (getfirst h q)) h xs" if "qrep q h (x # xs)" for q x xs
    using that dequeue_qrep_mid [of q h "[]" x xs] by (simp add: getfirst_Cons)
  show "getfirst h q = (EMPTY, q)" if "qrep q h []" for q
    using that by (rule getfirst_Nil)
qed

locale prioq =
  fixes rep :: "'q \<Rightarrow> 'a list \<Rightarrow> bool"
    and key :: "'q \<Rightarrow> 'a \<Rightarrow> int"
    and ins :: "'a \<Rightarrow> int \<Rightarrow> 'q \<Rightarrow> 'q option"
    and del :: "'q \<Rightarrow> 'a \<times> 'q"
    and item_ok :: "'a \<Rightarrow> bool"
  assumes rep_ins: "rep q xs \<Longrightarrow> item_ok x \<Longrightarrow> x \<notin> set xs \<Longrightarrow> k \<le> MAXINT \<Longrightarrow>
      sorted (map (key q) xs) \<Longrightarrow>
      \<exists>q' l r. ins x k q = Some q' \<and> xs = l @ r \<and> rep q' (l @ x # r) \<and>
        sorted (map (key q') (l @ x # r)) \<and> key q' x = k \<and>
        (\<forall>y \<in> set l. key q y < k) \<and> (\<forall>y \<in> set xs. key q' y = key q y)"
    and rep_del: "rep q (xs @ [x]) \<Longrightarrow> fst (del q) = x \<and> rep (snd (del q)) xs \<and>
      key (snd (del q)) = key q"
begin

text \<open>What is taken has the highest key in the queue.\<close>

lemma del_max:
  assumes "rep q xs" "xs \<noteq> []" "sorted (map (key q) xs)" "y \<in> set xs"
  shows "key q y \<le> key q (fst (del q))"
proof -
  obtain ys x where xs: "xs = ys @ [x]" using assms(2) by (cases xs rule: rev_cases) auto
  then have "fst (del q) = x" using rep_del assms(1) by blast
  then show ?thesis using assms(3,4) xs by (auto simp: sorted_append)
qed

text \<open>A process inserted with the key of others already there is taken after them.\<close>

lemma ins_behind_equals:
  assumes "rep q xs" "item_ok x" "x \<notin> set xs" "k \<le> MAXINT" "sorted (map (key q) xs)"
    and "y \<in> set xs" "key q y = k"
  shows "\<exists>q' l m r. ins x k q = Some q' \<and> rep q' (l @ x # m @ y # r)"
proof -
  obtain q' l r where *: "ins x k q = Some q'" "xs = l @ r" "rep q' (l @ x # r)"
    "\<forall>y \<in> set l. key q y < k"
    using rep_ins [OF assms(1-5)] by blast
  have "y \<in> set r" using * assms(6,7) by auto
  then obtain m r' where "r = m @ y # r'" by (meson split_list)
  then show ?thesis using * by blast
qed

end

interpretation rdyq: prioq "\<lambda>q xs. qrep q h xs" "\<lambda>q x. qkey (q x)"
  "\<lambda>p k q. map_option snd (insert_q p h k q)" "getlast (h + 1)" "\<lambda>p. 0 \<le> p \<and> p < NPROC" for h
proof unfold_locales
  fix q xs x k
  assume a: "qrep q h xs" "0 \<le> x \<and> x < NPROC" "x \<notin> set xs" "k \<le> MAXINT"
    "sorted (map (\<lambda>x. qkey (q x)) xs)"
  obtain q' where q': "insert_q x h k q = Some (OK, q')"
    "qrep q' h (key_insert (\<lambda>x. qkey (q x)) k x xs)"
    "\<And>i. qkey (q' i) = (if i = x then k else qkey (q i))"
    by (rule insert_q_qrep [of q h xs x k]) (use a in simp_all)
  let ?l = "takeWhile (\<lambda>x. qkey (q x) < k) xs" and ?r = "dropWhile (\<lambda>x. qkey (q x) < k) xs"
  have "map (\<lambda>x. qkey (q' x)) xs = map (\<lambda>x. qkey (q x)) xs" using q'(3) a(3) by auto
  then have "sorted (map (\<lambda>x. qkey (q' x)) xs)" using a(5) by (simp only:)
  then have "sorted (map (\<lambda>x. qkey (q' x)) (key_insert (\<lambda>x. qkey (q' x)) k x xs))"
    using q'(3) [of x] by (intro sorted_key_insert) simp_all
  moreover have "key_insert (\<lambda>x. qkey (q' x)) k x xs = key_insert (\<lambda>x. qkey (q x)) k x xs"
    using q'(3) a(3) by (intro key_insert_cong) auto
  ultimately have "sorted (map (\<lambda>x. qkey (q' x)) (?l @ x # ?r))" by (simp only: key_insert_def)
  moreover have "qrep q' h (?l @ x # ?r)" using q'(2) by (simp add: key_insert_def)
  moreover have "\<forall>y \<in> set ?l. qkey (q y) < k" using set_takeWhileD by fastforce
  moreover have "\<forall>y \<in> set xs. qkey (q' y) = qkey (q y)" using q'(3) a(3) by auto
  moreover have "map_option snd (insert_q x h k q) = Some q'" "qkey (q' x) = k" "xs = ?l @ ?r"
    using q'(1,3) by simp_all
  ultimately show "\<exists>q' l r. map_option snd (insert_q x h k q) = Some q' \<and> xs = l @ r \<and>
      qrep q' h (l @ x # r) \<and> sorted (map (\<lambda>x. qkey (q' x)) (l @ x # r)) \<and> qkey (q' x) = k \<and>
      (\<forall>y \<in> set l. qkey (q y) < k) \<and> (\<forall>y \<in> set xs. qkey (q' y) = qkey (q y))"
    by (intro exI [of _ q'] exI [of _ ?l] exI [of _ ?r] conjI)
next
  fix q xs x
  assume a: "qrep q h (xs @ [x])"
  then show "fst (getlast (h + 1) q) = x \<and> qrep (snd (getlast (h + 1) q)) h xs \<and>
      (\<lambda>x. qkey (snd (getlast (h + 1) q) x)) = (\<lambda>x. qkey (q x))"
    using dequeue_qrep_mid [of q h xs x "[]"] by (simp add: getlast_snoc)
qed

end
