(* ===== verification/DeltaQueue.thy ===== *)
theory DeltaQueue
  imports QueueTab
begin

text \<open>
  The list of sleeping processes is a delta list: the key of an entry is the number of clock
  ticks between its wake-up and that of the entry before it. \<open>delays\<close> reads off the
  ticks each process still has to wait. \<open>insertd\<close> (\<open>insertd.c\<close>) inserts into the
  delays; removing an entry and adding its key to the next one (the part of \<open>unsleep.c\<close>
  that touches the table) deletes from the delays; both leave all other delays as they were.
\<close>

fun delays :: "(int \<Rightarrow> int) \<Rightarrow> int \<Rightarrow> int list \<Rightarrow> (int \<times> int) list" where
  "delays kf t [] = []"
| "delays kf t (x # xs) = (x, t + kf x) # delays kf (t + kf x) xs"

lemma delays_append:
  "delays kf t (xs @ ys) = delays kf t xs @ delays kf (t + sum_list (map kf xs)) ys"
  by (induction xs arbitrary: t) (auto simp: algebra_simps)

lemma delays_cong:
  "(\<And>x. x \<in> set xs \<Longrightarrow> kf x = kf' x) \<Longrightarrow> delays kf t xs = delays kf' t xs"
  by (induction xs arbitrary: t) auto

lemma map_fst_delays [simp]: "map fst (delays kf t xs) = xs"
  by (induction xs arbitrary: t) auto

lemma delays_ge:
  "(\<And>x. x \<in> set xs \<Longrightarrow> 0 \<le> kf x) \<Longrightarrow> d \<in> set (delays kf t xs) \<Longrightarrow> t \<le> snd d"
proof (induction xs arbitrary: t)
  case (Cons x xs)
  have "0 \<le> kf x" using Cons.prems(1) by simp
  moreover have "d \<in> set (delays kf (t + kf x) xs) \<Longrightarrow> t + kf x \<le> snd d"
    using Cons.IH Cons.prems(1) by simp
  ultimately show ?case using Cons.prems(2) by auto
qed simp

lemma delays_shift: "delays kf (t + d) xs = map (\<lambda>(p, t). (p, t + d)) (delays kf t xs)"
  by (induction xs arbitrary: t) (auto simp: algebra_simps, metis add.commute add.left_commute)

text \<open>Where a wake-up \<open>t\<close> ticks ahead goes among the delays.\<close>

definition time_insert :: "int \<Rightarrow> int \<Rightarrow> (int \<times> int) list \<Rightarrow> (int \<times> int) list" where
  "time_insert t p ds = takeWhile (\<lambda>d. snd d < t) ds @ (p, t) # dropWhile (\<lambda>d. snd d < t) ds"

fun delta_split :: "(int \<Rightarrow> int) \<Rightarrow> int \<Rightarrow> int list \<Rightarrow> int list \<times> int \<times> int list" where
  "delta_split kf k [] = ([], k, [])"
| "delta_split kf k (x # xs) =
     (if kf x < k then (let (l, k', r) = delta_split kf (k - kf x) xs in (x # l, k', r))
      else ([], k, x # xs))"

lemma delta_split_parts:
  "delta_split kf k xs = (l, k', r) \<Longrightarrow>
    xs = l @ r \<and> k' = k - sum_list (map kf l) \<and> (r \<noteq> [] \<longrightarrow> k' \<le> kf (hd r)) \<and>
    (0 \<le> k \<longrightarrow> 0 \<le> k') \<and> ((\<forall>x \<in> set l. 0 \<le> kf x) \<longrightarrow> k' \<le> k)"
  by (induction kf k xs arbitrary: l k' r rule: delta_split.induct)
     (fastforce split: if_splits prod.splits)+

lemma delta_split_delays:
  "delta_split kf k xs = (l, k', r) \<Longrightarrow>
    takeWhile (\<lambda>d. snd d < t + k) (delays kf t xs) = delays kf t l \<and>
    dropWhile (\<lambda>d. snd d < t + k) (delays kf t xs) = delays kf (t + sum_list (map kf l)) r"
proof (induction kf k xs arbitrary: l k' r t rule: delta_split.induct)
  case (2 kf k x xs)
  show ?case
  proof (cases "kf x < k")
    case True
    with "2.prems" obtain l' where l': "delta_split kf (k - kf x) xs = (l', k', r)" "l = x # l'"
      by (auto split: prod.splits)
    from "2.IH" [OF True l'(1), of "t + kf x"] True l'(2) show ?thesis by (simp add: algebra_simps)
  next
    case False
    with "2.prems" show ?thesis by auto
  qed
qed simp

text \<open>A delta insertion is an insertion into the delays.\<close>

lemma delays_insert:
  assumes "delta_split kf k xs = (l, k', r)" "distinct xs" "p \<notin> set xs"
    and "kf' p = k'" "r \<noteq> [] \<Longrightarrow> kf' (hd r) = kf (hd r) - k'"
    and "\<And>x. x \<in> set xs \<Longrightarrow> r = [] \<or> x \<noteq> hd r \<Longrightarrow> kf' x = kf x"
  shows "delays kf' 0 (l @ p # r) = time_insert k p (delays kf 0 xs)"
proof -
  note parts = delta_split_parts [OF assms(1)]
  have l: "delays kf' 0 l = delays kf 0 l" "sum_list (map kf' l) = sum_list (map kf l)"
  proof -
    have "kf' x = kf x" if "x \<in> set l" for x
      using that parts assms(2) by (intro assms(6)) (cases r; auto)+
    then show "delays kf' 0 l = delays kf 0 l" "sum_list (map kf' l) = sum_list (map kf l)"
      by (auto intro: delays_cong arg_cong [of _ _ sum_list])
  qed
  have "delays kf' k r = delays kf (sum_list (map kf l)) r"
  proof (cases r)
    case (Cons y ys)
    have "delays kf' (k + kf' y) ys = delays kf (k + kf' y) ys"
      using parts assms(2) Cons by (intro delays_cong assms(6)) auto
    then show ?thesis using Cons assms(5) parts by (simp add: add.commute)
  qed simp
  then show ?thesis
    using delta_split_delays [OF assms(1), of 0] l parts assms(4)
    by (simp add: time_insert_def delays_append)
qed

section \<open>insertd\<close>

lemma insertd_scan_chain:
  assumes "linked q (a # xs @ [t])" "qkey (q t) = MAXINT" "k \<le> MAXINT"
    "\<And>x. x \<in> set xs \<Longrightarrow> 0 \<le> qkey (q x)" "delta_split (\<lambda>x. qkey (q x)) k xs = (l, k', r)"
  shows "insertd_scan q a (hd (xs @ [t])) k = Some (last (a # l), hd (r @ [t]), k')"
  using assms
proof (induction xs arbitrary: a k l)
  case Nil
  then show ?case by (simp add: insertd_scan.simps)
next
  case (Cons x xs)
  show ?case
  proof (cases "qkey (q x) < k")
    case True
    with Cons.prems(5) obtain l' where l': "l = x # l'"
      "delta_split (\<lambda>x. qkey (q x)) (k - qkey (q x)) xs = (l', k', r)"
      by (auto split: prod.splits)
    have x: "0 \<le> qkey (q x)" using Cons.prems(4) by simp
    have k: "k - qkey (q x) \<le> MAXINT" using x Cons.prems(3) by simp
    have "insertd_scan q x (hd (xs @ [t])) (k - qkey (q x)) = Some (last (x # l'), hd (r @ [t]), k')"
      using Cons.prems(1,2,4) k by (intro Cons.IH l'(2)) auto
    moreover have "qnext (q x) = hd (xs @ [t])" using Cons.prems(1) by (cases xs) auto
    moreover have "sub16 k (qkey (q x)) = Some (k - qkey (q x))"
      using True x Cons.prems(3) by (intro sub16_Some) (simp add: MININT_def)
    ultimately show ?thesis
      using True l'(1) by (subst insertd_scan.simps) simp
  next
    case False
    with Cons.prems(5) show ?thesis by (subst insertd_scan.simps) auto
  qed
qed

lemma insertd_qrep:
  assumes "qrep q h xs" "p \<notin> set xs" "0 \<le> p" "p < NPROC" "0 \<le> k" "k \<le> MAXINT"
    and keys: "\<And>x. x \<in> set xs \<Longrightarrow> 0 \<le> qkey (q x) \<and> qkey (q x) \<le> MAXINT"
    and split: "delta_split (\<lambda>x. qkey (q x)) k xs = (l, k', r)"
  obtains q' where "insertd p h k q = Some (OK, q')" "qrep q' h (l @ p # r)"
    "qkey (q' p) = k'" "r \<noteq> [] \<Longrightarrow> qkey (q' (hd r)) = qkey (q (hd r)) - k'"
    "\<And>i. i \<noteq> p \<Longrightarrow> r = [] \<or> i \<noteq> hd r \<Longrightarrow> qkey (q' i) = qkey (q i)"
    "\<And>i. i \<notin> nodes h xs \<Longrightarrow> i \<noteq> p \<Longrightarrow> q' i = q i"
proof -
  have parts: "xs = l @ r" "r \<noteq> [] \<Longrightarrow> k' \<le> qkey (q (hd r))" "0 \<le> k'"
    using delta_split_parts [OF split] assms(5) by auto
  have r: "qrep q h (l @ r)" using assms(1) parts(1) by simp
  note nb = qrep_neighbours [OF r]
  have ph: "p \<noteq> h" "p \<noteq> h + 1" using assms(4) qrepD(3) [OF r] by auto
  have pl: "p \<noteq> before h l" "p \<noteq> after h r"
    using nb(3,4) assms(2) ph parts(1) by (auto simp: nodes_def)
  have hd: "qnext (q h) = hd (xs @ [h + 1])"
    using qrep_first [OF assms(1)] by (cases xs) auto
  have "insertd_scan q h (hd (xs @ [h + 1])) k = Some (last (h # l), hd (r @ [h + 1]), k')"
    by (rule insertd_scan_chain)
       (use qrepD(7,8) [OF assms(1)] assms(6) keys split in auto)
  then have scan: "insertd_scan q h (qnext (q h)) k = Some (before h l, after h r, k')"
    by (simp only: hd before_def after_def)
  define q5 where "q5 = set_qprev (after h r) p (set_qnext (before h l) p
    (set_qkey p k' (set_qprev p (before h l) (set_qnext p (after h r) q))))"
  have nxt: "after h r < NPROC \<longleftrightarrow> r \<noteq> []"
    using qrepD(2,3) [OF r] by (cases r) auto
  define q' where "q' = (if r = [] then q5 else set_qkey (hd r) (qkey (q (hd r)) - k') q5)"
  have k5: "qkey (q5 i) = (if i = p then k' else qkey (q i))" for i
    by (simp add: q5_def queue_upd)
  have rp: "hd r \<noteq> p" if "r \<noteq> []" using that assms(2) parts(1) hd_in_set [OF that] by auto
  have "sub16 (qkey (q (hd r))) k' = Some (qkey (q (hd r)) - k')" if "r \<noteq> []"
    using that parts hd_in_set [OF that] keys [of "hd r"] by (intro sub16_Some) (auto simp: MININT_def)
  then have 1: "insertd p h k q = Some (OK, q')"
    using scan nxt rp
    by (cases r) (simp_all add: insertd_def q5_def q'_def Let_def queue_upd)
  have "qrep q5 h (l @ p # r)"
    using nb assms(2-4) ph pl parts(1)
    by (intro qrep_splice_in [OF r]) (auto simp: q5_def queue_upd)
  then have 2: "qrep q' h (l @ p # r)"
    unfolding q'_def using qrepD(2) [OF r] by (cases r) (simp_all add: qrep_set_qkey)
  have 3: "qkey (q' p) = k'" using rp by (auto simp: q'_def k5 queue_upd)
  have 4: "qkey (q' (hd r)) = qkey (q (hd r)) - k'" if "r \<noteq> []"
    using that by (simp add: q'_def queue_upd)
  have 5: "qkey (q' i) = qkey (q i)" if "i \<noteq> p" "r = [] \<or> i \<noteq> hd r" for i
    using that by (auto simp: q'_def queue_upd k5)
  have 6: "q' i = q i" if "i \<notin> nodes h xs" "i \<noteq> p" for i
  proof -
    have "i \<noteq> before h l" "i \<noteq> after h r" "r \<noteq> [] \<Longrightarrow> i \<noteq> hd r"
      using nb(3,4) that parts(1) by (auto simp: nodes_def)
    then show ?thesis using that by (cases r) (simp_all add: q'_def q5_def queue_upd)
  qed
  show thesis by (rule that [OF 1 2 3 4 5 6])
qed

section \<open>Removal from the delta list\<close>

text \<open>The table part of \<open>unsleep.c\<close> (lines 30 to 34): the key of the entry that leaves is
  added to the one after it.\<close>

definition delta_remove :: "int \<Rightarrow> qarr \<Rightarrow> qarr option" where
  "delta_remove pid q = do {
     let remain = qkey (q pid);
         nxt = qnext (q pid)
     in do {
       q1 \<leftarrow> (if nxt < NPROC
             then do { k \<leftarrow> add16 (qkey (q nxt)) remain; Some (set_qkey nxt k q) }
             else Some q);
       Some (snd (dequeue pid q1))
     }
   }"

lemma sum_list_map_le:
  "(\<And>x. x \<in> set xs \<Longrightarrow> (0::int) \<le> f x) \<Longrightarrow> y \<in> set xs \<Longrightarrow> f y \<le> sum_list (map f xs)"
proof (induction xs)
  case (Cons x xs)
  have "0 \<le> f x" "0 \<le> sum_list (map f xs)"
    using Cons.prems(1) by (auto intro!: sum_list_nonneg)
  moreover have "y \<in> set xs \<Longrightarrow> f y \<le> sum_list (map f xs)" using Cons by simp
  ultimately show ?case using Cons.prems(2) by auto
qed simp

lemma delta_remove_qrep:
  assumes "qrep q h (l @ p # r)"
    and keys: "\<And>x. x \<in> set (l @ p # r) \<Longrightarrow> MININT \<le> qkey (q x)"
    and sum: "r \<noteq> [] \<Longrightarrow> int16 (qkey (q p) + qkey (q (hd r)))"
  obtains q' where "delta_remove p q = Some q'" "qrep q' h (l @ r)"
    "r \<noteq> [] \<Longrightarrow> qkey (q' (hd r)) = qkey (q (hd r)) + qkey (q p)"
    "\<And>i. r = [] \<or> i \<noteq> hd r \<Longrightarrow> qkey (q' i) = qkey (q i)"
    "\<And>i. i \<notin> nodes h (l @ p # r) \<Longrightarrow> q' i = q i"
proof -
  note nb = qrep_neighbours_mid [OF assms(1)]
  define q1 where "q1 = (if r = [] then q else set_qkey (hd r) (qkey (q (hd r)) + qkey (q p)) q)"
  have nxt: "after h r < NPROC \<longleftrightarrow> r \<noteq> []"
    using qrepD(2,3) [OF assms(1)] by (cases r) auto
  have "add16 (qkey (q (hd r))) (qkey (q p)) = Some (qkey (q (hd r)) + qkey (q p))" if "r \<noteq> []"
    using sum [OF that] by (intro add16_Some) (simp add: add.commute)
  then have 1: "delta_remove p q = Some (snd (dequeue p q1))"
    using nb(1) nxt by (cases r) (simp_all add: delta_remove_def q1_def Let_def)
  have q1: "qrep q1 h (l @ p # r)"
    unfolding q1_def using qrepD(2) [OF assms(1)] assms(1)
    by (cases r) (simp_all add: qrep_set_qkey)
  have 2: "qrep (snd (dequeue p q1)) h (l @ r)" by (rule dequeue_qrep_mid [OF q1])
  have 3: "qkey (snd (dequeue p q1) (hd r)) = qkey (q (hd r)) + qkey (q p)" if "r \<noteq> []"
    using that by (simp add: q1_def queue_upd)
  have 4: "qkey (snd (dequeue p q1) i) = qkey (q i)" if "r = [] \<or> i \<noteq> hd r" for i
    using that by (auto simp: q1_def queue_upd)
  have 5: "snd (dequeue p q1) i = q i" if "i \<notin> nodes h (l @ p # r)" for i
  proof -
    have "snd (dequeue p q1) i = q1 i"
      using that by (intro dequeue_frame [OF q1]) simp_all
    moreover have "r \<noteq> [] \<Longrightarrow> i \<noteq> hd r" using that by (auto simp: nodes_def)
    ultimately show ?thesis by (simp add: q1_def queue_upd)
  qed
  show thesis by (rule that [OF 1 2 3 4 5])
qed

lemma delays_remove:
  assumes "distinct (l @ p # r)" "r \<noteq> [] \<Longrightarrow> kf' (hd r) = kf (hd r) + kf p"
    and "\<And>x. r = [] \<or> x \<noteq> hd r \<Longrightarrow> kf' x = kf x"
  shows "delays kf' t (l @ r) = filter (\<lambda>d. fst d \<noteq> p) (delays kf t (l @ p # r))"
proof -
  have l: "map kf' l = map kf l" "delays kf' t l = delays kf t l"
  proof -
    have "kf' x = kf x" if "x \<in> set l" for x
      using that assms(1) by (intro assms(3)) (cases r; auto)
    then show "map kf' l = map kf l" "delays kf' t l = delays kf t l"
      by (auto intro: delays_cong)
  qed
  have "delays kf' u r = delays kf (u + kf p) r" for u
  proof (cases r)
    case (Cons y ys)
    have "delays kf' (u + kf' y) ys = delays kf (u + kf' y) ys"
      using assms(1) Cons by (intro delays_cong assms(3)) auto
    then show ?thesis using Cons assms(2) by (simp add: add.commute add.left_commute)
  qed simp
  moreover have "filter (\<lambda>d. fst d \<noteq> p) (delays kf u xs) = delays kf u xs" if "p \<notin> set xs" for u xs
    using that by (induction xs arbitrary: u) auto
  moreover have "sum_list (map kf' l) = sum_list (map kf l)" using l(1) by (simp only:)
  ultimately show ?thesis using assms(1) l(2) by (simp add: delays_append)
qed

end
