(* ===== verification/QueueFam.thy ===== *)
theory QueueFam
  imports DeltaQueue
begin

text \<open>
  All lists of the kernel at once. \<open>sysinit\<close> and \<open>clkinit\<close> lay the lists out in the
  q table one after the other (\<open>newqueue\<close>): one per semaphore, the ready list, the list of
  sleepers. List number \<open>n\<close> has its head at \<open>qhead n\<close>. \<open>qfam q L\<close> says that the table
  holds the lists \<open>L n\<close> and that no process is on two of them. Every operation of the table
  changes one list of the family; that the others survive is proved here once.
\<close>

definition RDYQ :: int where "RDYQ = NSEM"
definition CLKQ :: int where "CLKQ = NSEM + 1"

definition NQENT :: int where "NQENT = NPROC + NSEM + NSEM + 4"

abbreviation isqueue :: "int \<Rightarrow> bool" where
  "isqueue n \<equiv> 0 \<le> n \<and> n \<le> CLKQ"

definition qhead :: "int \<Rightarrow> int" where "qhead n = NPROC + 2 * n"

definition qfam :: "qarr \<Rightarrow> (int \<Rightarrow> int list) \<Rightarrow> bool" where
  "qfam q L \<longleftrightarrow>
     (\<forall>n. isqueue n \<longrightarrow> qrep q (qhead n) (L n)) \<and>
     (\<forall>m n. isqueue m \<longrightarrow> isqueue n \<longrightarrow> m \<noteq> n \<longrightarrow> set (L m) \<inter> set (L n) = {})"

abbreviation unqueued :: "(int \<Rightarrow> int list) \<Rightarrow> int \<Rightarrow> bool" where
  "unqueued L p \<equiv> (\<forall>n. isqueue n \<longrightarrow> p \<notin> set (L n))"

lemma queue_numbers [simp]:
  "isqueue RDYQ" "isqueue CLKQ" "RDYQ \<noteq> CLKQ" "CLKQ \<noteq> RDYQ"
  "0 \<le> RDYQ" "0 \<le> CLKQ" "RDYQ \<le> CLKQ"
  by (simp_all add: RDYQ_def CLKQ_def NSEM_def)

lemma sem_queue [simp]:
  "\<not> isbadsem i \<Longrightarrow> isqueue i" "\<not> isbadsem i \<Longrightarrow> i \<noteq> RDYQ" "\<not> isbadsem i \<Longrightarrow> i \<noteq> CLKQ"
  by (auto simp: isbadsem_def RDYQ_def CLKQ_def)

lemma sem_queue_sym [simp]: "\<not> isbadsem i \<Longrightarrow> RDYQ \<noteq> i" "\<not> isbadsem i \<Longrightarrow> CLKQ \<noteq> i"
  by (auto simp: isbadsem_def RDYQ_def CLKQ_def)

lemma qfam_qrep: "qfam q L \<Longrightarrow> isqueue n \<Longrightarrow> qrep q (qhead n) (L n)"
  by (simp add: qfam_def)

lemma qfam_disjoint:
  "qfam q L \<Longrightarrow> isqueue m \<Longrightarrow> isqueue n \<Longrightarrow> p \<in> set (L m) \<Longrightarrow> p \<in> set (L n) \<Longrightarrow> m = n"
  by (auto simp: qfam_def)

lemma qfam_range: "qfam q L \<Longrightarrow> isqueue n \<Longrightarrow> p \<in> set (L n) \<Longrightarrow> 0 \<le> p \<and> p < NPROC"
  using qrepD(2) [OF qfam_qrep] by fastforce

lemma qfam_distinct: "qfam q L \<Longrightarrow> isqueue n \<Longrightarrow> distinct (L n)"
  by (rule qrepD(1) [OF qfam_qrep])

lemma NPROC_le_qhead: "isqueue n \<Longrightarrow> NPROC \<le> qhead n"
  by (simp add: qhead_def)

lemma heads_in_table: "isqueue n \<Longrightarrow> qhead n + 1 < NQENT"
  by (auto simp: qhead_def NQENT_def CLKQ_def)

lemma nodes_disjoint:
  assumes "qfam q L" "isqueue m" "isqueue n" "m \<noteq> n"
  shows "nodes (qhead m) (L m) \<inter> nodes (qhead n) (L n) = {}"
proof -
  have "set (L m) \<inter> set (L n) = {}" using assms by (simp add: qfam_def)
  moreover have "set (L m) \<subseteq> {0..<NPROC}" "set (L n) \<subseteq> {0..<NPROC}"
    using qrepD(2) [OF qfam_qrep [OF assms(1)]] assms(2,3) by simp_all
  moreover have "NPROC \<le> qhead m" "NPROC \<le> qhead n" using assms(2,3) by (simp_all add: NPROC_le_qhead)
  moreover have "qhead m \<noteq> qhead n" "qhead m \<noteq> qhead n + 1" "qhead m + 1 \<noteq> qhead n"
    using assms(4) unfolding qhead_def by presburger+
  ultimately show ?thesis by (auto simp: nodes_def)
qed

text \<open>One list changes, with the entries outside it and outside one process kept.\<close>

lemma qfam_update:
  assumes "qfam q L" "isqueue n" "qrep q' (qhead n) xs"
    and "\<And>i. i \<notin> nodes (qhead n) (L n) \<Longrightarrow> i \<noteq> p \<Longrightarrow> q' i = q i"
    and "set xs \<subseteq> insert p (set (L n))" "\<And>m. isqueue m \<Longrightarrow> m \<noteq> n \<Longrightarrow> p \<notin> set (L m)"
    and "p < NPROC"
  shows "qfam q' (L(n := xs))"
  unfolding qfam_def
proof (intro conjI allI impI)
  fix m assume m: "isqueue m"
  show "qrep q' (qhead m) ((L(n := xs)) m)"
  proof (cases "m = n")
    case False
    have "qrep q' (qhead m) (L m)"
    proof (rule qrep_frame [OF qfam_qrep [OF assms(1) m]])
      fix i assume i: "i \<in> nodes (qhead m) (L m)"
      then have "i \<notin> nodes (qhead n) (L n)"
        using nodes_disjoint [OF assms(1) m assms(2) False] by auto
      moreover have "i \<noteq> p"
        using i assms(6) [OF m False] assms(7) NPROC_le_qhead [OF m] by (auto simp: nodes_def)
      ultimately show "q' i = q i" by (rule assms(4))
    qed
    then show ?thesis using False by simp
  qed (simp add: assms(3))
next
  fix k m assume km: "isqueue k" "isqueue m" "k \<noteq> m"
  have "set (L k) \<inter> set (L m) = {}" using assms(1) km by (simp add: qfam_def)
  moreover have "k \<noteq> n \<Longrightarrow> p \<notin> set (L k) \<and> set (L k) \<inter> set (L n) = {}"
    "m \<noteq> n \<Longrightarrow> p \<notin> set (L m) \<and> set (L m) \<inter> set (L n) = {}"
    using assms(1,2,6) km by (simp_all add: qfam_def)
  ultimately show "set ((L(n := xs)) k) \<inter> set ((L(n := xs)) m) = {}"
    using assms(5) km(3) by auto
qed

lemma qfam_enqueue:
  assumes "qfam q L" "isqueue n" "unqueued L p" "0 \<le> p" "p < NPROC"
  shows "qfam (snd (enqueue p (qhead n + 1) q)) (L(n := L n @ [p]))"
proof (rule qfam_update [OF assms(1,2), where p = p])
  show "qrep (snd (enqueue p (qhead n + 1) q)) (qhead n) (L n @ [p])"
    using assms qfam_qrep [OF assms(1,2)] by (simp add: enqueue_qrep)
  show "snd (enqueue p (qhead n + 1) q) i = q i" if "i \<notin> nodes (qhead n) (L n)" "i \<noteq> p" for i
    using that assms NPROC_le_qhead [OF assms(2)]
    by (intro enqueue_frame [OF qfam_qrep [OF assms(1,2)]]) auto
qed (use assms in auto)

lemma qfam_dequeue:
  assumes "qfam q L" "isqueue n" "p \<in> set (L n)"
  shows "qfam (snd (dequeue p q)) (L(n := remove1 p (L n)))"
proof (rule qfam_update [OF assms(1,2), where p = p])
  show "qrep (snd (dequeue p q)) (qhead n) (remove1 p (L n))"
    by (rule dequeue_qrep [OF qfam_qrep [OF assms(1,2)] assms(3)])
  show "snd (dequeue p q) i = q i" if "i \<notin> nodes (qhead n) (L n)" "i \<noteq> p" for i
    by (rule dequeue_frame [OF qfam_qrep [OF assms(1,2)] assms(3) that(1)])
  show "p \<notin> set (L m)" if "isqueue m" "m \<noteq> n" for m
    using qfam_disjoint [OF assms(1) that(1) assms(2) _ assms(3)] that(2) by auto
  show "p < NPROC" using qfam_range [OF assms] by simp
qed (auto dest: set_remove1_subset [THEN subsetD])

lemma qfam_getfirst:
  assumes "qfam q L" "isqueue n"
  shows "L n = [] \<Longrightarrow> getfirst (qhead n) q = (EMPTY, q)"
    and "L n = p # xs \<Longrightarrow> getfirst (qhead n) q = (p, snd (dequeue p q)) \<and>
      qfam (snd (dequeue p q)) (L(n := xs))"
proof -
  show "L n = [] \<Longrightarrow> getfirst (qhead n) q = (EMPTY, q)"
    using qfam_qrep [OF assms] by (simp add: getfirst_Nil)
  assume "L n = p # xs"
  then show "getfirst (qhead n) q = (p, snd (dequeue p q)) \<and>
      qfam (snd (dequeue p q)) (L(n := xs))"
    using qfam_qrep [OF assms] qfam_dequeue [OF assms, of p] by (simp add: getfirst_Cons)
qed

lemma qfam_getlast:
  assumes "qfam q L" "isqueue n"
  shows "L n = [] \<Longrightarrow> getlast (qhead n + 1) q = (EMPTY, q)"
    and "L n = xs @ [p] \<Longrightarrow> getlast (qhead n + 1) q = (p, snd (dequeue p q)) \<and>
      qfam (snd (dequeue p q)) (L(n := xs))"
proof -
  show "L n = [] \<Longrightarrow> getlast (qhead n + 1) q = (EMPTY, q)"
    using qfam_qrep [OF assms] by (simp add: getlast_Nil)
  assume l: "L n = xs @ [p]"
  then have "distinct (xs @ [p])" using qfam_distinct [OF assms] by simp
  then have "remove1 p (L n) = xs" using l by (simp add: remove1_append)
  then show "getlast (qhead n + 1) q = (p, snd (dequeue p q)) \<and>
      qfam (snd (dequeue p q)) (L(n := xs))"
    using qfam_qrep [OF assms] qfam_dequeue [OF assms, of p] l by (simp add: getlast_snoc)
qed

lemma qfam_insert:
  assumes "qfam q L" "isqueue n" "unqueued L p" "0 \<le> p" "p < NPROC" "k \<le> MAXINT"
  obtains q' where "insert_q p (qhead n) k q = Some (OK, q')"
    "qfam q' (L(n := key_insert (\<lambda>x. qkey (q x)) k p (L n)))"
    "\<And>i. qkey (q' i) = (if i = p then k else qkey (q i))"
proof -
  obtain q' where q': "insert_q p (qhead n) k q = Some (OK, q')"
    "qrep q' (qhead n) (key_insert (\<lambda>x. qkey (q x)) k p (L n))"
    "\<And>i. qkey (q' i) = (if i = p then k else qkey (q i))"
    "\<And>i. i \<notin> nodes (qhead n) (L n) \<Longrightarrow> i \<noteq> p \<Longrightarrow> q' i = q i"
    by (rule insert_q_qrep [OF qfam_qrep [OF assms(1,2)], of p k]) (use assms in simp_all)
  show thesis
    by (rule that [OF q'(1) _ q'(3)], rule qfam_update [OF assms(1,2) q'(2,4)])
       (use assms in auto)
qed

lemma qfam_insertd:
  assumes "qfam q L" "isqueue n" "unqueued L p" "0 \<le> p" "p < NPROC" "0 \<le> k" "k \<le> MAXINT"
    and "\<And>x. x \<in> set (L n) \<Longrightarrow> 0 \<le> qkey (q x) \<and> qkey (q x) \<le> MAXINT"
    and "delta_split (\<lambda>x. qkey (q x)) k (L n) = (l, k', r)"
  obtains q' where "insertd p (qhead n) k q = Some (OK, q')"
    "qfam q' (L(n := l @ p # r))"
    "qkey (q' p) = k'" "r \<noteq> [] \<Longrightarrow> qkey (q' (hd r)) = qkey (q (hd r)) - k'"
    "\<And>i. i \<noteq> p \<Longrightarrow> r = [] \<or> i \<noteq> hd r \<Longrightarrow> qkey (q' i) = qkey (q i)"
proof -
  obtain q' where q': "insertd p (qhead n) k q = Some (OK, q')" "qrep q' (qhead n) (l @ p # r)"
    "qkey (q' p) = k'" "r \<noteq> [] \<Longrightarrow> qkey (q' (hd r)) = qkey (q (hd r)) - k'"
    "\<And>i. i \<noteq> p \<Longrightarrow> r = [] \<or> i \<noteq> hd r \<Longrightarrow> qkey (q' i) = qkey (q i)"
    "\<And>i. i \<notin> nodes (qhead n) (L n) \<Longrightarrow> i \<noteq> p \<Longrightarrow> q' i = q i"
    by (rule insertd_qrep [OF qfam_qrep [OF assms(1,2)], of p k l k' r]) (use assms in simp_all)
  have "L n = l @ r" using delta_split_parts [OF assms(9)] by simp
  then show thesis
    by (intro that [OF q'(1) _ q'(3-5)] qfam_update [OF assms(1,2) q'(2,6)])
       (use assms in auto)
qed

lemma qfam_delta_remove:
  assumes "qfam q L" "isqueue n" "L n = l @ p # r"
    and "\<And>x. x \<in> set (L n) \<Longrightarrow> MININT \<le> qkey (q x)"
    and "r \<noteq> [] \<Longrightarrow> int16 (qkey (q p) + qkey (q (hd r)))"
  obtains q' where "delta_remove p q = Some q'" "qfam q' (L(n := l @ r))"
    "r \<noteq> [] \<Longrightarrow> qkey (q' (hd r)) = qkey (q (hd r)) + qkey (q p)"
    "\<And>i. r = [] \<or> i \<noteq> hd r \<Longrightarrow> qkey (q' i) = qkey (q i)"
proof -
  have rep: "qrep q (qhead n) (l @ p # r)" using qfam_qrep [OF assms(1,2)] assms(3) by simp
  obtain q' where q': "delta_remove p q = Some q'" "qrep q' (qhead n) (l @ r)"
    "r \<noteq> [] \<Longrightarrow> qkey (q' (hd r)) = qkey (q (hd r)) + qkey (q p)"
    "\<And>i. r = [] \<or> i \<noteq> hd r \<Longrightarrow> qkey (q' i) = qkey (q i)"
    "\<And>i. i \<notin> nodes (qhead n) (l @ p # r) \<Longrightarrow> q' i = q i"
    by (rule delta_remove_qrep [OF rep]) (use assms in simp_all)
  have p: "p \<in> set (L n)" using assms(3) by simp
  have "qfam q' (L(n := l @ r))"
  proof (rule qfam_update [OF assms(1,2) q'(2), of p])
    show "q' i = q i" if "i \<notin> nodes (qhead n) (L n)" "i \<noteq> p" for i
      using q'(5) that assms(3) by simp
    show "p \<notin> set (L m)" if "isqueue m" "m \<noteq> n" for m
      using qfam_disjoint [OF assms(1) that(1) assms(2) _ p] that(2) by auto
    show "p < NPROC" using qfam_range [OF assms(1,2) p] by simp
  qed (use assms(3) in auto)
  then show thesis by (rule that [OF q'(1) _ q'(3,4)])
qed

text \<open>Keys of processes that are not on a keyed list may be rewritten.\<close>

lemma qfam_links:
  assumes "qfam q L" "\<And>i. qnext (q' i) = qnext (q i)" "\<And>i. qprev (q' i) = qprev (q i)"
    "\<And>i. NPROC \<le> i \<Longrightarrow> qkey (q' i) = qkey (q i)"
  shows "qfam q' L"
  unfolding qfam_def
proof (intro conjI allI impI)
  fix n assume n: "isqueue n"
  show "qrep q' (qhead n) (L n)"
    using assms NPROC_le_qhead [OF n] by (intro qrep_links [OF qfam_qrep [OF assms(1) n]]) auto
qed (use assms(1) in \<open>simp_all add: qfam_def\<close>)

end
