(* ===== verification/Memory.thy ===== *)
theory Memory
  imports Prelude
begin

text \<open>
  The memory manager: \<open>getmem.c\<close>, \<open>freemem.c\<close>, \<open>getstk.c\<close>, \<open>malloc.c\<close> and the
  macros of \<open>mem.h\<close>. Free memory is a singly linked list of blocks ordered by address,
  headed by \<open>memlist\<close>. The two fields of \<open>struct mblock\<close> are maps from addresses, the
  bytes that the kernel writes into allocated memory are the map \<open>ram\<close>; addresses and lengths are unsigned 16-bit values,
  with the wrap-around of the code's unsigned arithmetic written out.
\<close>

section \<open>State and operations\<close>

record memst =
  mnext :: "int \<Rightarrow> int"
  mlen :: "int \<Rightarrow> int"
  ram :: "int \<Rightarrow> int"
  memlist :: int
  heap_start :: int
  heap_end :: int

definition NULLBLK :: int where "NULLBLK = 0"

text \<open>\<open>(WORD *) SYSERR\<close>, and the sizes of the AVR.\<close>

definition SYSPTR :: int where "SYSPTR = 65535"
definition sizeof_mblock :: int where "sizeof_mblock = 4"
definition sizeof_int :: int where "sizeof_int = 2"

definition roundmb :: "int \<Rightarrow> int" where
  "roundmb x = (let y = u16 ((sizeof_mblock - 1) + x) in y - y mod sizeof_mblock)"

definition truncmb :: "int \<Rightarrow> int" where
  "truncmb x = (let y = u16 x in y - y mod sizeof_mblock)"

definition set_mnext :: "int \<Rightarrow> int \<Rightarrow> memst \<Rightarrow> memst" where
  "set_mnext a v m = m\<lparr>mnext := (mnext m)(a := v)\<rparr>"

definition set_mlen :: "int \<Rightarrow> int \<Rightarrow> memst \<Rightarrow> memst" where
  "set_mlen a v m = m\<lparr>mlen := (mlen m)(a := v)\<rparr>"

definition set_ram :: "int \<Rightarrow> int \<Rightarrow> memst \<Rightarrow> memst" where
  "set_ram a v m = m\<lparr>ram := (ram m)(a := v)\<rparr>"

text \<open>A word in memory: its low byte comes first.\<close>

definition set_word :: "int \<Rightarrow> int \<Rightarrow> memst \<Rightarrow> memst" where
  "set_word a v m = set_ram (u16 (a + 1)) (u16 v div 256) (set_ram a (u8 v) m)"

definition get_word :: "memst \<Rightarrow> int \<Rightarrow> int" where
  "get_word m a = ram m a + 256 * ram m (u16 (a + 1))"

partial_function (option) getmem_loop ::
  "memst \<Rightarrow> int \<Rightarrow> int \<Rightarrow> int \<Rightarrow> (int \<times> memst) option" where
  "getmem_loop m nbytes q p =
     (if p = NULLBLK then Some (SYSPTR, m)
      else if mlen m p = nbytes then Some (p, set_mnext q (mnext m p) m)
      else if mlen m p > nbytes then
        (let leftover = u16 (p + nbytes);
             m1 = set_mnext q leftover m;
             m2 = set_mnext leftover (mnext m1 p) m1;
             m3 = set_mlen leftover (u16 (mlen m2 p - nbytes)) m2
         in Some (p, m3))
      else getmem_loop m nbytes p (mnext m p))"

definition getmem :: "int \<Rightarrow> memst \<Rightarrow> (int \<times> memst) option" where
  "getmem nbytes m =
     (if nbytes = 0 \<or> mnext m (memlist m) = NULLBLK then Some (SYSPTR, m)
      else getmem_loop m (roundmb nbytes) (memlist m) (mnext m (memlist m)))"

partial_function (option) freemem_scan ::
  "memst \<Rightarrow> int \<Rightarrow> int \<Rightarrow> int \<Rightarrow> (int \<times> int) option" where
  "freemem_scan m block q p =
     (if p \<noteq> NULLBLK \<and> p < block then freemem_scan m block p (mnext m p) else Some (q, p))"

text \<open>The stores of freemem once the neighbours \<open>q\<close> and \<open>p\<close> of the block are known.\<close>

definition link_right :: "int \<Rightarrow> int \<Rightarrow> memst \<Rightarrow> memst" where
  "link_right q p m =
     (if u16 (mlen m q + q) = p
      then let m2 = set_mlen q (u16 (mlen m q + mlen m p)) m in set_mnext q (mnext m2 p) m2
      else m)"

definition link_block :: "int \<Rightarrow> int \<Rightarrow> int \<Rightarrow> int \<Rightarrow> memst \<Rightarrow> memst" where
  "link_block b n q p m =
     (if q \<noteq> memlist m \<and> u16 (mlen m q + q) = b
      then link_right q p (set_mlen q (u16 (mlen m q + n)) m)
      else link_right b p (set_mnext q b (set_mnext b p (set_mlen b n m))))"

definition freemem :: "int \<Rightarrow> int \<Rightarrow> memst \<Rightarrow> (int \<times> memst) option" where
  "freemem block sz m =
     (if sz = 0 \<or> block > heap_end m \<or> block < heap_start m then Some (SYSERR, m)
      else do {
        let sz = roundmb sz;
        (q, p) \<leftarrow> freemem_scan m block (memlist m) (mnext m (memlist m));
        let top = u16 (mlen m q + q);
        if (top > block \<and> q \<noteq> memlist m) \<or> (p \<noteq> NULLBLK \<and> u16 (sz + block) > p)
        then Some (SYSERR, m)
        else Some (OK, link_block block sz q p m)
      })"

partial_function (option) getstk_loop ::
  "memst \<Rightarrow> int \<Rightarrow> int \<Rightarrow> int \<Rightarrow> int \<Rightarrow> int \<Rightarrow> (int \<times> int) option" where
  "getstk_loop m nbytes fitsq fits q p =
     (if p = NULLBLK then Some (fitsq, fits)
      else if mlen m p \<ge> nbytes then getstk_loop m nbytes q p p (mnext m p)
      else getstk_loop m nbytes fitsq fits p (mnext m p))"

definition getstk :: "int \<Rightarrow> memst \<Rightarrow> (int \<times> memst) option" where
  "getstk nbytes m =
     (if nbytes = 0 then Some (SYSPTR, m)
      else do {
        let nbytes = roundmb nbytes;
        (fitsq, fits) \<leftarrow> getstk_loop m nbytes NULLBLK NULLBLK (memlist m) (mnext m (memlist m));
        if fits = NULLBLK then Some (SYSPTR, m)
        else
          (let len = mlen m fits;
               m1 = (if nbytes = len then set_mnext fitsq (mnext m fits) m
                     else set_mlen fits (u16 (len - nbytes)) m);
               top = u16 (fits + len - sizeof_int)
           in Some (top, set_word top nbytes m1))
      })"

definition freestk :: "int \<Rightarrow> int \<Rightarrow> memst \<Rightarrow> (int \<times> memst) option" where
  "freestk p len m = freemem (u16 (p - roundmb len + sizeof_int)) (roundmb len) m"

text \<open>\<open>malloc\<close> does not look at what \<open>getmem\<close> returned: when there is no memory it writes
  through \<open>(WORD *) SYSERR\<close>, which has no meaning in C, and has no value here.\<close>

definition wrap_malloc :: "int \<Rightarrow> memst \<Rightarrow> (int \<times> memst) option" where
  "wrap_malloc len m = do {
     let len = u16 (roundmb len + sizeof_int);
     (cp, m1) \<leftarrow> getmem len m;
     if cp = SYSPTR then None
     else Some (u16 (cp + sizeof_int), set_word cp len m1)
   }"

definition wrap_free :: "int \<Rightarrow> memst \<Rightarrow> memst option" where
  "wrap_free p m =
     (if p = 0 then Some m
      else do {
        let cpnew = u16 (p - sizeof_int);
        (r, m1) \<leftarrow> freemem cpnew (get_word m cpnew) m;
        Some m1
      })"

definition wrap_realloc :: "int \<Rightarrow> int \<Rightarrow> int" where
  "wrap_realloc ptr sz = 0"

text \<open>\<open>sysinit\<close> (initialize.c, lines 188 to 193): one free block, from the end of the
  program's data to the null process's stack.\<close>

definition meminit :: "int \<Rightarrow> int \<Rightarrow> memst \<Rightarrow> memst" where
  "meminit ramend bss_end m =
     (let mptr = roundmb (heap_start m);
          len = truncmb (u16 (ramend - NULLSTK - bss_end));
          m1 = set_mnext (memlist m) mptr m;
          m2 = set_mlen mptr len (set_mnext mptr NULLBLK m1)
      in m2\<lparr>heap_start := mptr, heap_end := u16 (mptr + len)\<rparr>)"

lemma mem_simps [simp]:
  "mnext (set_mnext a v m) b = (if b = a then v else mnext m b)"
  "mlen (set_mnext a v m) b = mlen m b" "ram (set_mnext a v m) = ram m"
  "mnext (set_mlen a v m) b = mnext m b"
  "mlen (set_mlen a v m) b = (if b = a then v else mlen m b)" "ram (set_mlen a v m) = ram m"
  "mnext (set_ram a v m) = mnext m" "mlen (set_ram a v m) = mlen m"
  "ram (set_ram a v m) b = (if b = a then v else ram m b)"
  "memlist (set_mnext a v m) = memlist m" "memlist (set_mlen a v m) = memlist m"
  "memlist (set_ram a v m) = memlist m"
  "heap_start (set_mnext a v m) = heap_start m" "heap_start (set_mlen a v m) = heap_start m"
  "heap_start (set_ram a v m) = heap_start m"
  "heap_end (set_mnext a v m) = heap_end m" "heap_end (set_mlen a v m) = heap_end m"
  "heap_end (set_ram a v m) = heap_end m"
  by (simp_all add: set_mnext_def set_mlen_def set_ram_def)

lemma word_simps [simp]:
  "mnext (set_word a v m) = mnext m" "mlen (set_word a v m) = mlen m"
  "memlist (set_word a v m) = memlist m"
  "heap_start (set_word a v m) = heap_start m" "heap_end (set_word a v m) = heap_end m"
  by (simp_all add: set_word_def)

lemma ram_word_cong: "ram m = ram m' \<Longrightarrow> ram (set_word a v m) = ram (set_word a v m')"
  by (simp add: set_word_def set_ram_def)

lemma get_set_word:
  assumes "0 \<le> a" "a < 65536"
  shows "get_word (set_word a v m) a = u16 v"
proof -
  have "u16 (a + 1) \<noteq> a" using assms by (cases "a = 65535") (simp_all add: u16_def)
  moreover have "u8 v = u16 v mod 256" by (simp add: u8_def u16_def mod_mod_cancel)
  ultimately show ?thesis by (simp add: get_word_def set_word_def)
qed

section \<open>The free list\<close>

type_synonym fblock = "int \<times> int"

text \<open>\<open>chain m q bs\<close>: the blocks from the one after \<open>q\<close> on, as pairs of address and length.\<close>

fun chain :: "memst \<Rightarrow> int \<Rightarrow> fblock list \<Rightarrow> bool" where
  "chain m q [] \<longleftrightarrow> mnext m q = NULLBLK"
| "chain m q ((a, l) # bs) \<longleftrightarrow> mnext m q = a \<and> mlen m a = l \<and> chain m a bs"

text \<open>Blocks are aligned, ordered by address, not adjacent, and end before \<open>hi\<close>.\<close>

fun blocks_ok :: "int \<Rightarrow> int \<Rightarrow> fblock list \<Rightarrow> bool" where
  "blocks_ok lo hi [] \<longleftrightarrow> True"
| "blocks_ok lo hi ((a, l) # bs) \<longleftrightarrow>
     lo < a \<and> 0 < l \<and> a mod 4 = 0 \<and> l mod 4 = 0 \<and> a + l \<le> hi \<and> blocks_ok (a + l) hi bs"

definition memwf :: "memst \<Rightarrow> fblock list \<Rightarrow> bool" where
  "memwf m bs \<longleftrightarrow> chain m (memlist m) bs \<and> blocks_ok (heap_start m - 1) (heap_end m) bs \<and>
     0 < memlist m \<and> memlist m < heap_start m \<and> heap_start m \<le> heap_end m \<and> heap_end m < 65535"

definition bytes :: "fblock list \<Rightarrow> int set" where
  "bytes bs = (\<Union>(a, l) \<in> set bs. {a..<a + l})"

lemma bytes_simps [simp]:
  "bytes [] = {}" "bytes ((a, l) # bs) = {a..<a + l} \<union> bytes bs" "bytes (xs @ ys) = bytes xs \<union> bytes ys"
  by (auto simp: bytes_def)

lemma bytes_mem: "(a, l) \<in> set bs \<Longrightarrow> a \<le> x \<Longrightarrow> x < a + l \<Longrightarrow> x \<in> bytes bs"
  by (force simp: bytes_def)

lemma blocks_ok_above: "blocks_ok lo hi bs \<Longrightarrow> x \<in> bytes bs \<Longrightarrow> lo < x \<and> x < hi"
  by (induction lo hi bs rule: blocks_ok.induct) fastforce+

lemma blocks_ok_mono: "blocks_ok lo hi bs \<Longrightarrow> lo' \<le> lo \<Longrightarrow> blocks_ok lo' hi bs"
  by (cases bs) auto

lemma blocks_ok_addr: "blocks_ok lo hi bs \<Longrightarrow> (a, l) \<in> set bs \<Longrightarrow> lo < a \<and> 0 < l \<and> a + l \<le> hi"
  by (induction lo hi bs rule: blocks_ok.induct) fastforce+

lemma chain_frame:
  assumes "chain m q bs" "mnext m' q = mnext m q"
    and "\<And>a l. (a, l) \<in> set bs \<Longrightarrow> mnext m' a = mnext m a \<and> mlen m' a = mlen m a"
  shows "chain m' q bs"
  using assms
proof (induction m q bs rule: chain.induct)
  case (2 m q a l bs)
  have "chain m' a bs"
    by (rule "2.IH") (use 2(2-4) in auto)
  then show ?case using 2(2-4) by auto
qed simp

text \<open>The block at \<open>a\<close> is skipped.\<close>

lemma chain_unlink:
  assumes "chain m a bs" "q < a" "\<And>x k. (x, k) \<in> set bs \<Longrightarrow> a < x"
  shows "chain (set_mnext q (mnext m a) m) q bs"
proof (cases bs)
  case Nil
  then show ?thesis using assms(1) by simp
next
  case (Cons c cs)
  obtain x k where c: "c = (x, k)" by fastforce
  have "chain (set_mnext q (mnext m a) m) x cs"
  proof (rule chain_frame [of m])
    show "chain m x cs" using assms(1) Cons c by simp
    have "x \<noteq> q" using assms(3) [of x k] Cons c assms(2) by simp
    then show "mnext (set_mnext q (mnext m a) m) x = mnext m x" by simp
    show "mnext (set_mnext q (mnext m a) m) y = mnext m y \<and> mlen (set_mnext q (mnext m a) m) y = mlen m y"
      if "(y, j) \<in> set cs" for y j
      using assms(3) [of y j] that Cons assms(2) by auto
  qed
  then show ?thesis using assms(1) Cons c by simp
qed

lemma minus_front:
  fixes a :: int
  assumes "n \<le> l" "0 \<le> n" "\<And>x. x \<in> B \<Longrightarrow> a + l < x"
  shows "({a..<a + l} \<union> B) - {a..<a + n} = {a + n..<a + l} \<union> B"
  using assms by fastforce

lemma minus_back:
  fixes a :: int
  assumes "n \<le> l" "0 \<le> n" "\<And>x. x \<in> B \<Longrightarrow> a + l < x"
  shows "({a..<a + l} \<union> B) - {a + l - n..<a + l} = {a..<a + (l - n)} \<union> B"
  using assms by fastforce

text \<open>First fit at the level of blocks.\<close>

fun alloc_first :: "int \<Rightarrow> fblock list \<Rightarrow> (int \<times> fblock list) option" where
  "alloc_first n [] = None"
| "alloc_first n ((a, l) # bs) =
     (if l = n then Some (a, bs)
      else if l > n then Some (a, (a + n, l - n) # bs)
      else map_option (\<lambda>(p, bs'). (p, (a, l) # bs')) (alloc_first n bs))"

lemma alloc_first_spec:
  "alloc_first n bs = Some (p, bs') \<Longrightarrow> blocks_ok lo hi bs \<Longrightarrow> 0 < n \<Longrightarrow> n mod 4 = 0 \<Longrightarrow>
    blocks_ok lo hi bs' \<and> {p..<p + n} \<subseteq> bytes bs \<and> bytes bs' = bytes bs - {p..<p + n} \<and> p mod 4 = 0"
proof (induction bs arbitrary: lo bs')
  case (Cons b bs)
  obtain a l where b: "b = (a, l)" by fastforce
  have ok: "lo < a" "0 < l" "a mod 4 = 0" "l mod 4 = 0" "a + l \<le> hi" "blocks_ok (a + l) hi bs"
    using Cons.prems(2) b by simp_all
  have above: "\<And>x. x \<in> bytes bs \<Longrightarrow> a + l < x" using blocks_ok_above [OF ok(6)] by blast
  consider "l = n" | "l > n" | "l < n" by linarith
  then show ?case
  proof cases
    case 1
    then have "p = a" "bs' = bs" using Cons.prems(1) b by auto
    then show ?thesis using 1 ok above b blocks_ok_mono [OF ok(6), of lo] by (auto dest: above)
  next
    case 2
    then have r: "p = a" "bs' = (a + n, l - n) # bs" using Cons.prems(1) b by auto
    have "(a + n) mod 4 = 0" "(l - n) mod 4 = 0" using ok(3,4) Cons.prems(4) by presburger+
    then have "blocks_ok lo hi bs'" using r 2 ok Cons.prems(3) by simp
    moreover have "bytes bs' = bytes (b # bs) - {p..<p + n}"
      using minus_front [of n l "bytes bs" a] r 2 b above Cons.prems(3) by simp
    moreover have "{p..<p + n} \<subseteq> bytes (b # bs)" "p mod 4 = 0" using r 2 b ok(3) by auto
    ultimately show ?thesis by simp
  next
    case 3
    then obtain bs1 where r: "alloc_first n bs = Some (p, bs1)" "bs' = (a, l) # bs1"
      using Cons.prems(1) b by auto
    note IH = Cons.IH [OF r(1) ok(6) Cons.prems(3,4)]
    have "p \<in> bytes bs" using IH Cons.prems(3) by auto
    then have "a + l < p" by (rule above)
    then show ?thesis using IH r(2) b ok Cons.prems(3) by auto
  qed
qed simp

lemma getmem_loop_None:
  "chain m q bs \<Longrightarrow> blocks_ok lo hi bs \<Longrightarrow> 0 \<le> lo \<Longrightarrow> alloc_first n bs = None \<Longrightarrow>
    getmem_loop m n q (mnext m q) = Some (SYSPTR, m)"
proof (induction bs arbitrary: q lo)
  case Nil
  then show ?case by (simp add: getmem_loop.simps)
next
  case (Cons b bs)
  obtain a l where b: "b = (a, l)" by fastforce
  have "a \<noteq> NULLBLK" "l < n" "alloc_first n bs = None"
    using Cons.prems b by (auto simp: NULLBLK_def split: if_splits)
  then show ?case
    using Cons.prems Cons.IH [of a "a + l"] b by (subst getmem_loop.simps) auto
qed

lemma getmem_loop_Some:
  assumes "chain m q bs" "blocks_ok lo hi bs" "q \<le> lo" "0 \<le> lo" "hi < 65536" "0 < n" "n mod 4 = 0"
    and "alloc_first n bs = Some (p, bs')"
  shows "\<exists>m'. getmem_loop m n q (mnext m q) = Some (p, m') \<and> chain m' q bs' \<and>
    (\<forall>x < q. mnext m' x = mnext m x) \<and> (\<forall>x \<le> q. mlen m' x = mlen m x) \<and>
    ram m' = ram m \<and> memlist m' = memlist m \<and> heap_start m' = heap_start m \<and> heap_end m' = heap_end m"
  using assms
proof (induction bs arbitrary: q lo bs')
  case (Cons b bs)
  obtain a l where b: "b = (a, l)" by fastforce
  have ok: "lo < a" "0 < l" "a + l \<le> hi" "blocks_ok (a + l) hi bs"
    using Cons.prems(2) b by simp_all
  have ch: "mnext m q = a" "mlen m a = l" "chain m a bs" using Cons.prems(1) b by simp_all
  have nz: "a \<noteq> NULLBLK" using ok(1) Cons.prems(4) by (simp add: NULLBLK_def)
  have far: "a + l < x" if "(x, k) \<in> set bs" for x k using blocks_ok_addr [OF ok(4) that] by simp
  have qa: "q < a" using ok(1) Cons.prems(3) by simp
  consider "l = n" | "l > n" | "l < n" by linarith
  then show ?case
  proof cases
    case 1
    let ?m = "set_mnext q (mnext m a) m"
    have r: "p = a" "bs' = bs" using Cons.prems(8) b 1 by auto
    have "chain ?m q bs"
      by (rule chain_unlink [OF ch(3) qa]) (use far ok(2) in fastforce)
    moreover have "getmem_loop m n q (mnext m q) = Some (p, ?m)"
      using ch nz 1 r by (subst getmem_loop.simps) simp
    ultimately show ?thesis using r by (intro exI [of _ ?m]) simp
  next
    case 2
    have r: "p = a" "bs' = (a + n, l - n) # bs" using Cons.prems(8) b 2 by auto
    have left: "u16 (a + n) = a + n" "u16 (l - n) = l - n"
      using ok(1-3) 2 Cons.prems(4-6) by simp_all
    let ?m1 = "set_mnext q (a + n) m"
    let ?m2 = "set_mnext (a + n) (mnext m a) ?m1"
    let ?m3 = "set_mlen (a + n) (l - n) ?m2"
    have na: "a \<noteq> q" "a + n \<noteq> q" "a + n \<noteq> a" using qa Cons.prems(6) by simp_all
    have "chain ?m3 (a + n) bs"
    proof (cases bs)
      case Nil
      then show ?thesis using ch(3) by simp
    next
      case (Cons c cs)
      obtain x k where c: "c = (x, k)" by fastforce
      have x: "a + l < x" using far [of x k] Cons c by simp
      have "chain ?m3 x cs"
      proof (rule chain_frame [of m])
        show "chain m x cs" using ch(3) Cons c by simp
        show "mnext ?m3 x = mnext m x" using x qa 2 ok(2) by simp
        show "mnext ?m3 y = mnext m y \<and> mlen ?m3 y = mlen m y" if "(y, j) \<in> set cs" for y j
        proof -
          have "a + l < y" using far [of y j] that Cons by simp
          then show ?thesis using qa 2 ok(2) by simp
        qed
      qed
      moreover have "mlen ?m3 x = k" using ch(3) Cons c x 2 by simp
      moreover have "x \<noteq> a + n" using x 2 by simp
      ultimately show ?thesis using ch(3) Cons c by simp
    qed
    then have "chain ?m3 q bs'" using r na by simp
    moreover have "getmem_loop m n q (mnext m q) = Some (p, ?m3)"
      using ch nz 2 r left na by (subst getmem_loop.simps) (simp add: Let_def)
    moreover have "\<forall>x < q. mnext ?m3 x = mnext m x" "\<forall>x \<le> q. mlen ?m3 x = mlen m x"
      using qa Cons.prems(6) by auto
    ultimately show ?thesis by (intro exI [of _ ?m3]) simp
  next
    case 3
    then obtain bs1 where r: "alloc_first n bs = Some (p, bs1)" "bs' = (a, l) # bs1"
      using Cons.prems(8) b by auto
    have aa: "a \<le> a + l" "0 \<le> a + l" using ok(1,2) Cons.prems(4) by simp_all
    obtain m' where m': "getmem_loop m n a (mnext m a) = Some (p, m')" "chain m' a bs1"
      "\<forall>x < a. mnext m' x = mnext m x" "\<forall>x \<le> a. mlen m' x = mlen m x" "ram m' = ram m"
      "memlist m' = memlist m" "heap_start m' = heap_start m" "heap_end m' = heap_end m"
      using Cons.IH [OF ch(3) ok(4) aa Cons.prems(5-7) r(1)] by blast
    have "getmem_loop m n q (mnext m q) = Some (p, m')"
      using m'(1) ch nz 3 by (subst getmem_loop.simps) simp
    then show ?thesis using m'(2-8) ch r(2) qa by (intro exI [of _ m']) auto
  qed
qed simp

section \<open>getmem\<close>

lemma chain_ram [simp]: "chain (set_ram a v m) q bs = chain m q bs"
  by (rule iffI; erule chain_frame) simp_all

lemma memwf_ram [simp]: "memwf (set_ram a v m) bs = memwf m bs" "memwf (set_word a v m) bs = memwf m bs"
  by (simp_all add: memwf_def set_word_def)

lemma memwfD:
  assumes "memwf m bs"
  shows "chain m (memlist m) bs" "blocks_ok (heap_start m - 1) (heap_end m) bs" "0 < memlist m"
    "memlist m < heap_start m" "heap_start m \<le> heap_end m" "heap_end m < 65535"
  using assms by (simp_all add: memwf_def)

lemma roundmb_eq: "0 \<le> n \<Longrightarrow> n \<le> 65532 \<Longrightarrow> roundmb n = (n + 3) div 4 * 4"
  by (simp add: roundmb_def sizeof_mblock_def Let_def minus_mod_eq_div_mult add.commute)

lemma roundmb_props:
  assumes "0 < n" "n \<le> 65532"
  shows "0 < roundmb n" "roundmb n mod 4 = 0" "n \<le> roundmb n" "roundmb n < n + 4" "roundmb n \<le> 65532"
proof -
  have e: "roundmb n = (n + 3) div 4 * 4" by (rule roundmb_eq) (use assms in simp_all)
  show "0 < roundmb n" "n \<le> roundmb n" "roundmb n < n + 4" "roundmb n \<le> 65532"
    unfolding e using assms by presburger+
  show "roundmb n mod 4 = 0" unfolding e by simp
qed

lemma roundmb_idem: "0 \<le> n \<Longrightarrow> n \<le> 65532 \<Longrightarrow> n mod 4 = 0 \<Longrightarrow> roundmb n = n"
  by (simp add: roundmb_eq) presburger

lemma getmem_none:
  assumes "memwf m bs" "0 < n" "n \<le> 65532" "alloc_first (roundmb n) bs = None"
  shows "getmem n m = Some (SYSPTR, m)"
proof (cases "mnext m (memlist m) = NULLBLK")
  case False
  note W = memwfD [OF assms(1)]
  have "0 \<le> heap_start m - 1" using W by simp
  then have "getmem_loop m (roundmb n) (memlist m) (mnext m (memlist m)) = Some (SYSPTR, m)"
    by (rule getmem_loop_None [OF W(1,2) _ assms(4)])
  then show ?thesis using assms(2) False by (simp add: getmem_def)
qed (use assms(2) in \<open>simp add: getmem_def\<close>)

lemma getmem_some:
  assumes "memwf m bs" "0 < n" "n \<le> 65532" "alloc_first (roundmb n) bs = Some (p, bs')"
  obtains m' where "getmem n m = Some (p, m')" "memwf m' bs'" "ram m' = ram m"
    "memlist m' = memlist m" "heap_start m' = heap_start m" "heap_end m' = heap_end m"
proof -
  note W = memwfD [OF assms(1)] and R = roundmb_props [OF assms(2,3)]
  have pre: "memlist m \<le> heap_start m - 1" "0 \<le> heap_start m - 1" "heap_end m < 65536"
    using W by simp_all
  have ne: "mnext m (memlist m) \<noteq> NULLBLK"
  proof (cases bs)
    case Nil
    then show ?thesis using assms(4) by simp
  next
    case (Cons b cs)
    then show ?thesis using W(1,2,3,4) by (cases b) (simp add: NULLBLK_def)
  qed
  obtain m' where m': "getmem_loop m (roundmb n) (memlist m) (mnext m (memlist m)) = Some (p, m')"
    "chain m' (memlist m) bs'" "ram m' = ram m" "memlist m' = memlist m"
    "heap_start m' = heap_start m" "heap_end m' = heap_end m"
    using getmem_loop_Some [OF W(1,2) pre R(1,2) assms(4)] by blast
  have "blocks_ok (heap_start m - 1) (heap_end m) bs'"
    using alloc_first_spec [OF assms(4) W(2) R(1,2)] by blast
  then have "memwf m' bs'" using m' W by (simp add: memwf_def)
  moreover have "getmem n m = Some (p, m')" using m'(1) ne assms(2) by (simp add: getmem_def)
  ultimately show thesis using that m'(3-6) by blast
qed

section \<open>getstk\<close>

text \<open>A stack is taken from the top of the last block that is large enough.\<close>

fun alloc_last :: "int \<Rightarrow> fblock list \<Rightarrow> (int \<times> fblock list) option" where
  "alloc_last n [] = None"
| "alloc_last n ((a, l) # bs) =
     (case alloc_last n bs of
        Some (p, bs') \<Rightarrow> Some (p, (a, l) # bs')
      | None \<Rightarrow> if l \<ge> n then Some (a + l - n, if l = n then bs else (a, l - n) # bs) else None)"

fun last_fit :: "int \<Rightarrow> int \<Rightarrow> fblock list \<Rightarrow> (int \<times> int) option" where
  "last_fit n q [] = None"
| "last_fit n q ((a, l) # bs) =
     (case last_fit n a bs of Some r \<Rightarrow> Some r | None \<Rightarrow> if l \<ge> n then Some (q, a) else None)"

lemma getstk_loop_fit:
  "chain m q bs \<Longrightarrow> blocks_ok lo hi bs \<Longrightarrow> 0 \<le> lo \<Longrightarrow>
    getstk_loop m n fq f q (mnext m q) = Some (case last_fit n q bs of Some r \<Rightarrow> r | None \<Rightarrow> (fq, f))"
proof (induction bs arbitrary: q lo fq f)
  case Nil
  then show ?case by (simp add: getstk_loop.simps)
next
  case (Cons b bs)
  obtain a l where b: "b = (a, l)" by fastforce
  have ok: "a \<noteq> NULLBLK" "0 \<le> a + l" using Cons.prems b by (auto simp: NULLBLK_def)
  have "getstk_loop m n fq' f' a (mnext m a) =
      Some (case last_fit n a bs of Some r \<Rightarrow> r | None \<Rightarrow> (fq', f'))" for fq' f'
    using Cons.IH [of a "a + l"] Cons.prems b ok by simp
  then show ?case
    using Cons.prems b ok by (subst getstk_loop.simps) (auto split: option.splits)
qed

lemma alloc_last_fit: "alloc_last n bs = None \<longleftrightarrow> last_fit n q bs = None"
  by (induction bs arbitrary: q rule: alloc_last.induct) (auto split: option.splits)

lemma alloc_last_spec:
  "alloc_last n bs = Some (p, bs') \<Longrightarrow> blocks_ok lo hi bs \<Longrightarrow> 0 < n \<Longrightarrow> n mod 4 = 0 \<Longrightarrow>
    blocks_ok lo hi bs' \<and> {p..<p + n} \<subseteq> bytes bs \<and> bytes bs' = bytes bs - {p..<p + n} \<and> p mod 4 = 0"
proof (induction bs arbitrary: lo bs')
  case (Cons b bs)
  obtain a l where b: "b = (a, l)" by fastforce
  have ok: "lo < a" "0 < l" "a mod 4 = 0" "l mod 4 = 0" "a + l \<le> hi" "blocks_ok (a + l) hi bs"
    using Cons.prems(2) b by simp_all
  have above: "\<And>x. x \<in> bytes bs \<Longrightarrow> a + l < x" using blocks_ok_above [OF ok(6)] by blast
  show ?case
  proof (cases "alloc_last n bs")
    case None
    then have r: "n \<le> l" "p = a + l - n" "bs' = (if l = n then bs else (a, l - n) # bs)"
      using Cons.prems(1) b by (auto split: if_splits)
    have md: "(l - n) mod 4 = 0" "p mod 4 = 0" using ok(3,4) Cons.prems(4) r(2) by presburger+
    have "blocks_ok (a + (l - n)) hi bs" by (rule blocks_ok_mono [OF ok(6)]) (use Cons.prems(3) in simp)
    moreover have "blocks_ok lo hi bs" by (rule blocks_ok_mono [OF ok(6)]) (use ok in simp)
    ultimately have "blocks_ok lo hi bs'" using r ok md Cons.prems(3) by auto
    moreover have "bytes bs' = bytes (b # bs) - {p..<p + n}"
      using minus_back [of n l "bytes bs" a] r b above Cons.prems(3) by (cases "l = n") simp_all
    moreover have "{p..<p + n} \<subseteq> bytes (b # bs)" using r b by auto
    ultimately show ?thesis using md by simp
  next
    case (Some pb)
    then obtain bs1 where r: "alloc_last n bs = Some (p, bs1)" "bs' = (a, l) # bs1"
      using Cons.prems(1) b by (auto split: prod.splits)
    note IH = Cons.IH [OF r(1) ok(6) Cons.prems(3,4)]
    have "p \<in> bytes bs" using IH Cons.prems(3) by auto
    then have "a + l < p" by (rule above)
    then show ?thesis using IH r(2) b ok Cons.prems(3) by auto
  qed
qed simp

text \<open>What getstk stores when the block after \<open>x\<close>, at \<open>y\<close>, is the one chosen.\<close>

definition take_top :: "int \<Rightarrow> int \<Rightarrow> int \<Rightarrow> memst \<Rightarrow> memst" where
  "take_top n x y m =
     (if n = mlen m y then set_mnext x (mnext m y) m else set_mlen y (u16 (mlen m y - n)) m)"

lemma take_top_simps:
  "z \<noteq> x \<Longrightarrow> mnext (take_top n x y m) z = mnext m z" "z \<noteq> y \<Longrightarrow> mlen (take_top n x y m) z = mlen m z"
  "ram (take_top n x y m) = ram m" "memlist (take_top n x y m) = memlist m"
  "heap_start (take_top n x y m) = heap_start m" "heap_end (take_top n x y m) = heap_end m"
  by (simp_all add: take_top_def)

lemma take_top_chain:
  assumes "chain m q bs" "blocks_ok lo hi bs" "q \<le> lo" "0 \<le> lo" "hi < 65536" "0 < n"
    and "last_fit n q bs = Some (x, y)"
  shows "\<exists>bs'. alloc_last n bs = Some (y + mlen m y - n, bs') \<and> chain (take_top n x y m) q bs' \<and>
    (x = q \<or> lo < x) \<and> lo < y \<and> y + mlen m y \<le> hi \<and> n \<le> mlen m y"
  using assms
proof (induction bs arbitrary: q lo)
  case (Cons b bs)
  obtain a l where b: "b = (a, l)" by fastforce
  have ok: "lo < a" "0 < l" "a + l \<le> hi" "blocks_ok (a + l) hi bs"
    using Cons.prems(2) b by simp_all
  have ch: "mnext m q = a" "mlen m a = l" "chain m a bs" using Cons.prems(1) b by simp_all
  have qa: "q < a" using ok(1) Cons.prems(3) by simp
  have far: "a < z" if "(z, k) \<in> set bs" for z k using blocks_ok_addr [OF ok(4) that] ok(2) by simp
  show ?case
  proof (cases "last_fit n a bs")
    case None
    then have r: "x = q" "y = a" "n \<le> l" using Cons.prems(7) b by (auto split: if_splits)
    have al: "alloc_last n bs = None" using None alloc_last_fit [of n bs a] by simp
    show ?thesis
    proof (cases "n = l")
      case True
      have "chain (take_top n x y m) q bs"
        using chain_unlink [OF ch(3) qa far] r True ch(2) by (simp add: take_top_def)
      then show ?thesis using al b r True ch(2) ok by simp
    next
      case False
      have "u16 (l - n) = l - n" using r ok Cons.prems(4-6) by simp
      then have t: "take_top n x y m = set_mlen a (l - n) m"
        using False r ch(2) by (simp add: take_top_def)
      have "chain (set_mlen a (l - n) m) a bs"
        by (rule chain_frame [OF ch(3)]) (use far in auto)
      then show ?thesis using al b r False ch ok t by simp
    qed
  next
    case (Some r)
    then have fit: "last_fit n a bs = Some (x, y)" using Cons.prems(7) b by simp
    have pre: "a \<le> a + l" "0 \<le> a + l" using ok(1,2) Cons.prems(4) by simp_all
    obtain bs1 where r: "alloc_last n bs = Some (y + mlen m y - n, bs1)" "chain (take_top n x y m) a bs1"
      "x = a \<or> a + l < x" "a + l < y" "y + mlen m y \<le> hi" "n \<le> mlen m y"
      using Cons.IH [OF ch(3) ok(4) pre Cons.prems(5,6) fit] by blast
    have "mnext (take_top n x y m) q = a" "mlen (take_top n x y m) a = l"
      using r(3,4) qa ok(2) ch by (auto simp: take_top_simps)
    then show ?thesis using r b ok by auto
  qed
qed simp

lemma getstk_some:
  assumes "memwf m bs" "0 < n" "n \<le> 65532" "alloc_last (roundmb n) bs = Some (p, bs')"
  obtains m' where "getstk n m = Some (p + roundmb n - 2, m')" "memwf m' bs'"
    "ram m' = ram (set_word (p + roundmb n - 2) (roundmb n) m)"
    "memlist m' = memlist m" "heap_start m' = heap_start m" "heap_end m' = heap_end m"
proof -
  note W = memwfD [OF assms(1)] and R = roundmb_props [OF assms(2,3)]
  let ?n = "roundmb n"
  have pre: "memlist m \<le> heap_start m - 1" "0 \<le> heap_start m - 1" "heap_end m < 65536"
    using W by simp_all
  obtain x y where fit: "last_fit ?n (memlist m) bs = Some (x, y)"
    using assms(4) alloc_last_fit [of ?n bs "memlist m"] by (cases "last_fit ?n (memlist m) bs") auto
  obtain bs1 where r: "alloc_last ?n bs = Some (y + mlen m y - ?n, bs1)"
    "chain (take_top ?n x y m) (memlist m) bs1" "heap_start m - 1 < y" "y + mlen m y \<le> heap_end m"
    "?n \<le> mlen m y"
    using take_top_chain [OF W(1,2) pre R(1) fit] by blast
  have pb: "p = y + mlen m y - ?n" "bs' = bs1" using r(1) assms(4) by simp_all
  have yz: "y \<noteq> NULLBLK" using r(3) W(3,4) by (simp add: NULLBLK_def)
  have top: "u16 (y + mlen m y - sizeof_int) = p + ?n - 2"
    using r(3-5) pb R(1,2) W by (simp add: sizeof_int_def)
  let ?m = "set_word (p + ?n - 2) ?n (take_top ?n x y m)"
  have loop: "getstk_loop m ?n NULLBLK NULLBLK (memlist m) (mnext m (memlist m)) = Some (x, y)"
    using getstk_loop_fit [OF W(1,2) pre(2)] fit by simp
  have "chain ?m (memlist m) bs1"
    by (rule chain_frame [OF r(2)]) simp_all
  moreover have "blocks_ok (heap_start m - 1) (heap_end m) bs'"
    using alloc_last_spec [OF assms(4) W(2) R(1,2)] by blast
  ultimately have w: "memwf ?m bs'" using W pb by (simp add: memwf_def take_top_simps)
  have eq: "getstk n m = Some (p + ?n - 2, ?m)"
    using loop assms(2) yz top by (simp add: getstk_def take_top_def Let_def)
  have "ram ?m = ram (set_word (p + ?n - 2) ?n m)"
    by (rule ram_word_cong) (simp add: take_top_simps)
  then show thesis by (rule that [OF eq w]) (simp_all add: take_top_simps)
qed

lemma getstk_none:
  assumes "memwf m bs" "0 < n" "n \<le> 65532" "alloc_last (roundmb n) bs = None"
  shows "getstk n m = Some (SYSPTR, m)"
proof -
  note W = memwfD [OF assms(1)]
  have "0 \<le> heap_start m - 1" using W by simp
  then have "getstk_loop m (roundmb n) NULLBLK NULLBLK (memlist m) (mnext m (memlist m)) = Some (NULLBLK, NULLBLK)"
    using getstk_loop_fit [OF W(1,2)] alloc_last_fit [of "roundmb n" bs "memlist m"] assms(4) by simp
  then show ?thesis using assms(2) by (simp add: getstk_def)
qed

section \<open>freemem\<close>

text \<open>Returning \<open>n\<close> bytes at \<open>b\<close>: coalescing with the block before and the block after.\<close>

fun merge_right :: "int \<Rightarrow> int \<Rightarrow> fblock list \<Rightarrow> fblock list" where
  "merge_right b n [] = [(b, n)]"
| "merge_right b n ((a, l) # bs) = (if b + n = a then (b, n + l) # bs else (b, n) # (a, l) # bs)"

fun release_block :: "int \<Rightarrow> int \<Rightarrow> fblock list \<Rightarrow> fblock list" where
  "release_block b n [] = [(b, n)]"
| "release_block b n ((a, l) # bs) =
     (if a < b
      then if a + l = b \<and> (bs = [] \<or> b \<le> fst (hd bs)) then merge_right a (l + n) bs
           else (a, l) # release_block b n bs
      else merge_right b n ((a, l) # bs))"

lemma merge_right_ok:
  assumes "blocks_ok lo' hi bs" "b + n \<le> lo' + 1" "lo < b" "0 < n" "b mod 4 = 0" "n mod 4 = 0" "b + n \<le> hi"
  shows "blocks_ok lo hi (merge_right b n bs)" "bytes (merge_right b n bs) = {b..<b + n} \<union> bytes bs"
proof -
  show "blocks_ok lo hi (merge_right b n bs)"
    using assms
  proof (cases bs)
    case (Cons c cs)
    obtain a l where c: "c = (a, l)" by fastforce
    have a: "lo' < a" "0 < l" "a mod 4 = 0" "l mod 4 = 0" "a + l \<le> hi" "blocks_ok (a + l) hi cs"
      using assms(1) Cons c by simp_all
    have "(n + l) mod 4 = 0" using a(4) assms(6) by presburger
    moreover have "b + n \<noteq> a \<Longrightarrow> b + n < a" using a(1) assms(2) by simp
    ultimately show ?thesis using a Cons c assms by (auto simp: algebra_simps)
  qed simp
  show "bytes (merge_right b n bs) = {b..<b + n} \<union> bytes bs"
  proof (cases bs)
    case (Cons c cs)
    obtain a l where c: "c = (a, l)" by fastforce
    show ?thesis
    proof (cases "b + n = a")
      case True
      have "0 < l" using assms(1) Cons c by simp
      then have "{b..<b + (n + l)} = {b..<a} \<union> {a..<a + l}" using True assms(4) by auto
      then show ?thesis using True Cons c by auto
    qed (use Cons c in auto)
  qed simp
qed

lemma release_block_spec:
  assumes "blocks_ok lo hi bs" "lo < b" "0 < n" "b mod 4 = 0" "n mod 4 = 0" "b + n \<le> hi"
    and "{b..<b + n} \<inter> bytes bs = {}"
  shows "blocks_ok lo hi (release_block b n bs) \<and> bytes (release_block b n bs) = {b..<b + n} \<union> bytes bs"
  using assms
proof (induction bs arbitrary: lo)
  case (Cons c bs)
  obtain a l where c: "c = (a, l)" by fastforce
  have a: "lo < a" "0 < l" "a mod 4 = 0" "l mod 4 = 0" "a + l \<le> hi" "blocks_ok (a + l) hi bs"
    using Cons.prems(1) c by simp_all
  have dis: "{b..<b + n} \<inter> {a..<a + l} = {}" "{b..<b + n} \<inter> bytes bs = {}"
    using Cons.prems(7) unfolding c bytes_simps by blast+
  show ?case
  proof (cases "a < b")
    case False
    have "b + n \<le> a"
    proof (rule ccontr)
      assume "\<not> b + n \<le> a"
      then have "a \<in> {b..<b + n} \<inter> {a..<a + l}" using False a(2) by simp
      then show False using dis by blast
    qed
    moreover have "blocks_ok (a - 1) hi (c # bs)" using Cons.prems(1) c by simp
    ultimately show ?thesis
      using merge_right_ok [of "a - 1" hi "c # bs" b n lo] Cons.prems(2-6) False c by simp
  next
    case True
    have le: "a + l \<le> b"
    proof (rule ccontr)
      assume "\<not> a + l \<le> b"
      then have "b \<in> {b..<b + n} \<inter> {a..<a + l}" using True Cons.prems(3) by simp
      then show False using dis by blast
    qed
    show ?thesis
    proof (cases "a + l = b")
      case eq: True
      have hd: "bs = [] \<or> b \<le> fst (hd bs)" using a(6) eq by (cases bs) auto
      have gap: "b + n \<le> a' " if "bs = (a', l') # cs" for a' l' cs
      proof (rule ccontr)
        assume "\<not> b + n \<le> a'"
        then have "a' \<in> {b..<b + n} \<inter> bytes bs" using that a(6) eq by simp
        then show False using dis by blast
      qed
      have ok: "blocks_ok (b + n - 1) hi bs"
        using a(6) gap by (cases bs) auto
      have md: "(l + n) mod 4 = 0" using a(4) Cons.prems(5) by presburger
      have le: "a + (l + n) \<le> b + n - 1 + 1" "0 < l + n" "a + (l + n) \<le> hi"
        using eq a(2) Cons.prems(3,6) by simp_all
      note m = merge_right_ok [OF ok le(1) a(1) le(2) a(3) md le(3)]
      have "release_block b n (c # bs) = merge_right a (l + n) bs" using True eq hd c by simp
      moreover have "{a..<a + (l + n)} = {b..<b + n} \<union> {a..<a + l}"
        using eq a(2) Cons.prems(3) by auto
      ultimately show ?thesis using m c by (simp only: bytes_simps Un_assoc)
    next
      case False
      then have "a + l < b" using le by simp
      then have "blocks_ok (a + l) hi (release_block b n bs) \<and>
          bytes (release_block b n bs) = {b..<b + n} \<union> bytes bs"
        using Cons.IH [OF a(6)] Cons.prems(3-6) dis(2) by simp
      moreover have "release_block b n (c # bs) = (a, l) # release_block b n bs"
        using True False c by simp
      ultimately show ?thesis using a c by (simp only: bytes_simps blocks_ok.simps Un_left_commute simp_thms)
    qed
  qed
qed simp

text \<open>The scan stops at the block before \<open>b\<close>.\<close>

fun scan_stop :: "int \<Rightarrow> int \<Rightarrow> fblock list \<Rightarrow> int \<times> int" where
  "scan_stop b q [] = (q, NULLBLK)"
| "scan_stop b q ((a, l) # bs) = (if a < b then scan_stop b a bs else (q, a))"

lemma freemem_scan_stop:
  "chain m q bs \<Longrightarrow> blocks_ok lo hi bs \<Longrightarrow> 0 \<le> lo \<Longrightarrow>
    freemem_scan m b q (mnext m q) = Some (scan_stop b q bs)"
proof (induction bs arbitrary: q lo)
  case Nil
  then show ?case by (simp add: freemem_scan.simps)
next
  case (Cons c bs)
  obtain a l where c: "c = (a, l)" by fastforce
  have "a \<noteq> NULLBLK" "0 \<le> a + l" using Cons.prems c by (auto simp: NULLBLK_def)
  then show ?case
    using Cons.prems Cons.IH [of a "a + l"] c by (subst freemem_scan.simps) auto
qed

lemma link_simps [simp]:
  "ram (link_right q p m) = ram m" "memlist (link_right q p m) = memlist m"
  "heap_start (link_right q p m) = heap_start m" "heap_end (link_right q p m) = heap_end m"
  "ram (link_block b n q p m) = ram m" "memlist (link_block b n q p m) = memlist m"
  "heap_start (link_block b n q p m) = heap_start m" "heap_end (link_block b n q p m) = heap_end m"
  by (simp_all add: link_right_def link_block_def Let_def)

lemma link_right_other:
  "x \<noteq> q \<Longrightarrow> mnext (link_right q p m) x = mnext m x" "x \<noteq> q \<Longrightarrow> mlen (link_right q p m) x = mlen m x"
  by (simp_all add: link_right_def Let_def)

text \<open>A block at \<open>b\<close> that is already in the chain is merged with the one after it.\<close>

lemma link_right_chain:
  assumes "chain m b bs" "blocks_ok (b + n - 1) hi bs" "mlen m b = n" "p = mnext m b" "0 < b" "0 < n"
    "b + n \<le> hi" "hi < 65535" "mnext m q = b" "q < b"
  shows "chain (link_right b p m) q (merge_right b n bs)"
proof (cases bs)
  case Nil
  then have "p = 0" using assms(1,4) by (simp add: NULLBLK_def)
  then have "link_right b p m = m" using assms(3,5-8) by (simp add: link_right_def)
  then show ?thesis using Nil assms(1,3,9) by simp
next
  case (Cons c cs)
  obtain a l where c: "c = (a, l)" by fastforce
  have a: "b + n \<le> a" "0 < l" "a + l \<le> hi" "blocks_ok (a + l) hi cs" "p = a" "mlen m a = l" "chain m a cs"
    using assms(1,2,4) Cons c by simp_all
  have u: "u16 (mlen m b + b) = b + n" using assms(3,5-8) by simp
  show ?thesis
  proof (cases "b + n = a")
    case False
    then have "link_right b p m = m" using u a(5) by (simp add: link_right_def)
    then show ?thesis using False Cons c assms(1,3,9) a by simp
  next
    case True
    let ?m = "set_mnext b (mnext m a) (set_mlen b (n + l) m)"
    have "u16 (n + l) = n + l" using True a(2,3) assms(5,6,8) by simp
    then have lr: "link_right b p m = ?m"
      using u True a(5,6) assms(3,6) by (simp add: link_right_def Let_def)
    have "chain (set_mnext b (mnext m a) m) b cs"
      by (rule chain_unlink [OF a(7)]) (use a(1) assms(6) blocks_ok_addr [OF a(4)] a(2) in fastforce)+
    then have "chain ?m b cs"
    proof (rule chain_frame)
      show "mnext ?m x = mnext (set_mnext b (mnext m a) m) x \<and> mlen ?m x = mlen (set_mnext b (mnext m a) m) x"
        if "(x, k) \<in> set cs" for x k
        using blocks_ok_addr [OF a(4) that] a(1,2) assms(6) by simp
    qed simp
    then show ?thesis using lr True Cons c assms(9,10) by simp
  qed
qed

lemma link_block_chain:
  assumes "chain m q bs" "blocks_ok lo hi bs" "q \<le> lo" "0 \<le> lo" "hi < 65535" "lo < b" "0 < n" "b + n \<le> hi"
    and "{b..<b + n} \<inter> bytes bs = {}" "memlist m \<le> lo"
    and "q = memlist m \<or> (0 \<le> q + mlen m q \<and> q + mlen m q < b)"
    and "scan_stop b q bs = (q', p')"
  shows "chain (link_block b n q' p' m) q (release_block b n bs) \<and>
    (\<forall>x < q. mnext (link_block b n q' p' m) x = mnext m x) \<and>
    (\<forall>x \<le> q. mlen (link_block b n q' p' m) x = mlen m x)"
  using assms
proof (induction bs arbitrary: q lo)
  case Nil
  then have r: "q' = q" "p' = NULLBLK" by simp_all
  let ?m1 = "set_mnext q b (set_mnext b NULLBLK (set_mlen b n m))"
  have qb: "q < b" using Nil.prems(3,6) by simp
  have "\<not> (q \<noteq> memlist m \<and> u16 (mlen m q + q) = b)"
  proof
    assume a: "q \<noteq> memlist m \<and> u16 (mlen m q + q) = b"
    then have "u16 (mlen m q + q) = mlen m q + q" using Nil.prems(5,7,8,11) by simp
    then show False using a Nil.prems(11) by simp
  qed
  then have lb: "link_block b n q' p' m = link_right b NULLBLK ?m1" using r by (auto simp: link_block_def)
  have "chain (link_right b NULLBLK ?m1) q (merge_right b n [])"
    by (rule link_right_chain) (use Nil.prems qb in simp_all)
  then show ?case using lb qb by (simp add: link_right_other)
next
  case (Cons c bs)
  obtain a l where c: "c = (a, l)" by fastforce
  have a: "lo < a" "0 < l" "a mod 4 = 0" "l mod 4 = 0" "a + l \<le> hi" "blocks_ok (a + l) hi bs"
    using Cons.prems(2) c by simp_all
  have ch: "mnext m q = a" "mlen m a = l" "chain m a bs" using Cons.prems(1) c by simp_all
  have dis: "{b..<b + n} \<inter> {a..<a + l} = {}" "{b..<b + n} \<inter> bytes bs = {}"
    using Cons.prems(9) unfolding c bytes_simps by blast+
  have qb: "q < b" "q < a" using Cons.prems(3,6) a(1) by simp_all
  show ?case
  proof (cases "a < b")
    case False
    have ba: "b + n \<le> a"
    proof (rule ccontr)
      assume "\<not> b + n \<le> a"
      then have "a \<in> {b..<b + n} \<inter> {a..<a + l}" using False a(2) by simp
      then show False using dis by blast
    qed
    have r: "q' = q" "p' = a" using Cons.prems(12) False c by simp_all
    let ?m1 = "set_mnext q b (set_mnext b a (set_mlen b n m))"
    have "\<not> (q \<noteq> memlist m \<and> u16 (mlen m q + q) = b)"
    proof
      assume x: "q \<noteq> memlist m \<and> u16 (mlen m q + q) = b"
      then have "u16 (mlen m q + q) = mlen m q + q" using Cons.prems(5,7,8,11) by simp
      then show False using x Cons.prems(11) by simp
    qed
    then have lb: "link_block b n q' p' m = link_right b a ?m1" using r by (auto simp: link_block_def)
    have far: "a < x" if "(x, k) \<in> set bs" for x k using blocks_ok_addr [OF a(6) that] a(2) by simp
    have "chain ?m1 a bs"
      by (rule chain_frame [OF ch(3)]) (use far qb ba Cons.prems(7) in fastforce)+
    then have "chain ?m1 b (c # bs)" using ch(2) c ba qb Cons.prems(7) by simp
    moreover have "blocks_ok (b + n - 1) hi (c # bs)" using a ba c by simp
    ultimately have "chain (link_right b a ?m1) q (merge_right b n (c # bs))"
      by (rule link_right_chain) (use Cons.prems qb in simp_all)
    then show ?thesis using lb qb False c by (simp add: link_right_other)
  next
    case True
    have le: "a + l \<le> b"
    proof (rule ccontr)
      assume "\<not> a + l \<le> b"
      then have "b \<in> {b..<b + n} \<inter> {a..<a + l}" using True Cons.prems(7) by simp
      then show False using dis by blast
    qed
    have sc: "scan_stop b a bs = (q', p')" using Cons.prems(12) True c by simp
    show ?thesis
    proof (cases "a + l = b")
      case eq: True
      have hd: "bs = [] \<or> b \<le> fst (hd bs)" using a(6) eq by (cases bs) auto
      have st: "q' = a \<and> p' = mnext m a" using sc ch(3) a(6) eq by (cases bs) auto
      let ?m1 = "set_mlen a (l + n) m"
      have u: "u16 (mlen m a + a) = b" "u16 (l + n) = l + n"
        using ch(2) eq a Cons.prems(4,5,7,8) by simp_all
      have am: "a \<noteq> memlist m" using a(1) Cons.prems(10) by simp
      then have lb: "link_block b n q' p' m = link_right a (mnext m a) ?m1"
        using st u ch(2) by (simp add: link_block_def)
      have far: "a < x" if "(x, k) \<in> set bs" for x k using blocks_ok_addr [OF a(6) that] a(2) by simp
      have "chain ?m1 a bs" by (rule chain_frame [OF ch(3)]) (use far in fastforce)+
      moreover have "blocks_ok (a + (l + n) - 1) hi bs"
      proof (cases bs)
        case (Cons d ds)
        obtain x k where d: "d = (x, k)" by fastforce
        have "b + n \<le> x"
        proof (rule ccontr)
          assume "\<not> b + n \<le> x"
          then have "x \<in> {b..<b + n} \<inter> bytes bs" using a(6) eq Cons d by simp
          then show False using dis by blast
        qed
        then show ?thesis using a(6) eq Cons d by simp
      qed simp
      ultimately have "chain (link_right a (mnext m a) ?m1) q (merge_right a (l + n) bs)"
        by (rule link_right_chain) (use a eq ch(1) qb Cons.prems(4,5,7,8) in simp_all)
      then show ?thesis using lb qb True eq hd c by (simp add: link_right_other)
    next
      case False
      then have lt: "a + l < b" using le by simp
      have pre: "a \<le> a + l" "0 \<le> a + l" "memlist m \<le> a + l" "0 \<le> a + mlen m a \<and> a + mlen m a < b"
        using a(1,2) Cons.prems(4,10) lt ch(2) by simp_all
      have IH: "chain (link_block b n q' p' m) a (release_block b n bs) \<and>
          (\<forall>x < a. mnext (link_block b n q' p' m) x = mnext m x) \<and>
          (\<forall>x \<le> a. mlen (link_block b n q' p' m) x = mlen m x)"
        by (rule Cons.IH [OF ch(3) a(6) pre(1,2) Cons.prems(5) lt Cons.prems(7,8) dis(2) pre(3) _ sc])
           (use pre(4) in simp)
      then show ?thesis using True False ch(1,2) qb c by simp
    qed
  qed
qed

lemma chain_mlen: "chain m q bs \<Longrightarrow> (a, l) \<in> set bs \<Longrightarrow> mlen m a = l"
  by (induction m q bs rule: chain.induct) auto

lemma scan_stop_neighbours:
  "scan_stop b q bs = (q', p') \<Longrightarrow>
    (q' = q \<or> (\<exists>l. (q', l) \<in> set bs \<and> q' < b)) \<and> (p' = NULLBLK \<or> (\<exists>l. (p', l) \<in> set bs \<and> b \<le> p'))"
  by (induction b q bs rule: scan_stop.induct) (auto split: if_splits)

lemma scan_stop_overlap:
  "blocks_ok lo hi bs \<Longrightarrow> x \<in> bytes bs \<Longrightarrow> b \<le> x \<Longrightarrow> x < b + n \<Longrightarrow> scan_stop b q bs = (q', p') \<Longrightarrow>
    (\<exists>l. (q', l) \<in> set bs \<and> b < q' + l) \<or> (\<exists>l. (p', l) \<in> set bs \<and> p' < b + n)"
proof (induction b q bs arbitrary: lo rule: scan_stop.induct)
  case (2 b q a l bs)
  have ok: "blocks_ok (a + l) hi bs" "0 < l" using "2.prems"(1) by simp_all
  show ?case
  proof (cases "a < b")
    case False
    then have r: "q' = q" "p' = a" using "2.prems"(5) by simp_all
    have "a \<le> x" using "2.prems"(1,2) blocks_ok_above [OF ok(1), of x] ok(2) by auto
    then show ?thesis using r "2.prems"(4) by auto
  next
    case True
    then have sc: "scan_stop b a bs = (q', p')" using "2.prems"(5) by simp
    show ?thesis
    proof (cases "x \<in> bytes bs")
      case in_rest: True
      then show ?thesis using "2.IH" [OF True ok(1) in_rest "2.prems"(3,4) sc] by auto
    next
      case False
      then have "a \<le> x" "x < a + l" using "2.prems"(2) by simp_all
      then have lt: "b < a + l" using "2.prems"(3) by simp
      have "q' = a"
      proof (cases bs)
        case (Cons c cs)
        then show ?thesis using sc ok(1) lt by (cases c) auto
      qed (use sc in simp)
      then show ?thesis using lt by auto
    qed
  qed
qed simp

lemma freemem_ok:
  assumes "memwf m bs" "0 < sz" "sz \<le> 65532" "heap_start m \<le> b" "b mod 4 = 0" "b + roundmb sz \<le> heap_end m"
    and "{b..<b + roundmb sz} \<inter> bytes bs = {}"
  obtains m' where "freemem b sz m = Some (OK, m')" "memwf m' (release_block b (roundmb sz) bs)"
    "ram m' = ram m" "memlist m' = memlist m" "heap_start m' = heap_start m" "heap_end m' = heap_end m"
proof -
  note W = memwfD [OF assms(1)] and R = roundmb_props [OF assms(2,3)]
  let ?n = "roundmb sz"
  obtain q p where sc: "scan_stop b (memlist m) bs = (q, p)" by fastforce
  have pre: "memlist m \<le> heap_start m - 1" "0 \<le> heap_start m - 1" "heap_start m - 1 < b"
    using W assms(4) by simp_all
  note nb = scan_stop_neighbours [OF sc]
  have q: "u16 (mlen m q + q) \<le> b" if neq: "q \<noteq> memlist m"
  proof -
    obtain l where l: "(q, l) \<in> set bs" "q < b" using neq nb by auto
    note a = blocks_ok_addr [OF W(2) l(1)]
    have "q + l \<le> b"
    proof (rule ccontr)
      assume "\<not> q + l \<le> b"
      then have "b \<in> {b..<b + ?n} \<inter> bytes bs" using bytes_mem [OF l(1), of b] l(2) R(1) by simp
      then show False using assms(7) by blast
    qed
    moreover have "u16 (mlen m q + q) = q + l"
      using chain_mlen [OF W(1) l(1)] a W by (simp add: add.commute)
    ultimately show ?thesis by simp
  qed
  have p: "u16 (?n + b) \<le> p" if neq: "p \<noteq> NULLBLK"
  proof -
    obtain l where l: "(p, l) \<in> set bs" "b \<le> p" using neq nb by auto
    have "b + ?n \<le> p"
    proof (rule ccontr)
      assume "\<not> b + ?n \<le> p"
      then have "p \<in> {b..<b + ?n} \<inter> bytes bs"
        using bytes_mem [OF l(1), of p] l(2) blocks_ok_addr [OF W(2) l(1)] by simp
      then show False using assms(7) by blast
    qed
    then show ?thesis using R(1) pre assms(6) W(6) by simp
  qed
  have link: "chain (link_block b ?n q p m) (memlist m) (release_block b ?n bs)"
    using link_block_chain [OF W(1,2) pre(1,2) W(6) pre(3) R(1) assms(6,7) pre(1) disjI1 [OF refl] sc] by blast
  have "blocks_ok (heap_start m - 1) (heap_end m) (release_block b ?n bs)"
    using release_block_spec [OF W(2) pre(3) R(1) assms(5) R(2) assms(6,7)] by blast
  then have w: "memwf (link_block b ?n q p m) (release_block b ?n bs)"
    using link W by (simp add: memwf_def)
  have "freemem_scan m b (memlist m) (mnext m (memlist m)) = Some (q, p)"
    using freemem_scan_stop [OF W(1,2) pre(2)] sc by simp
  then have eq: "freemem b sz m = Some (OK, link_block b ?n q p m)"
    using assms(2,4,6) R(1) q p by (auto simp: freemem_def Let_def)
  show thesis by (rule that [OF eq w]) simp_all
qed

lemma freemem_rejected:
  assumes "memwf m bs" "0 < sz" "sz \<le> 65532" "heap_start m \<le> b" "b \<le> heap_end m" "b + roundmb sz < 65536"
    and "{b..<b + roundmb sz} \<inter> bytes bs \<noteq> {}"
  shows "freemem b sz m = Some (SYSERR, m)"
proof -
  note W = memwfD [OF assms(1)] and R = roundmb_props [OF assms(2,3)]
  let ?n = "roundmb sz"
  obtain q p where sc: "scan_stop b (memlist m) bs = (q, p)" by fastforce
  have pre: "0 \<le> heap_start m - 1" using W by simp
  obtain x where "x \<in> bytes bs" "b \<le> x" "x < b + ?n" using assms(7) by auto
  then have "(\<exists>l. (q, l) \<in> set bs \<and> b < q + l) \<or> (\<exists>l. (p, l) \<in> set bs \<and> p < b + ?n)"
    by (rule scan_stop_overlap [OF W(2) _ _ _ sc])
  then have "u16 (mlen m q + q) > b \<and> q \<noteq> memlist m \<or> p \<noteq> NULLBLK \<and> u16 (?n + b) > p"
  proof
    assume "\<exists>l. (q, l) \<in> set bs \<and> b < q + l"
    then obtain l where l: "(q, l) \<in> set bs" "b < q + l" by blast
    have "u16 (mlen m q + q) = q + l" "q \<noteq> memlist m"
      using chain_mlen [OF W(1) l(1)] blocks_ok_addr [OF W(2) l(1)] W by (simp_all add: add.commute)
    then show ?thesis using l(2) by simp
  next
    assume "\<exists>l. (p, l) \<in> set bs \<and> p < b + ?n"
    then obtain l where l: "(p, l) \<in> set bs" "p < b + ?n" by blast
    have "p \<noteq> NULLBLK" using blocks_ok_addr [OF W(2) l(1)] W by (simp add: NULLBLK_def)
    moreover have "u16 (?n + b) = b + ?n" using assms(4,6) W R(1) by simp
    ultimately show ?thesis using l(2) by simp
  qed
  moreover have "freemem_scan m b (memlist m) (mnext m (memlist m)) = Some (q, p)"
    using freemem_scan_stop [OF W(1,2) pre] sc by simp
  ultimately show ?thesis by (simp add: freemem_def)
qed

section \<open>The contract of an allocator\<close>

text \<open>
  What a client may rely on. \<open>area p r\<close> is the memory of a request \<open>r\<close> that was answered with
  \<open>p\<close>; a run of requests and returns keeps the areas in use apart and accounts for every byte.
  \<open>bnd\<close> is the part of the state on which the legality of an address depends, \<open>rd\<close> reads a
  byte of memory: the bytes of the areas in use are not touched.
\<close>

locale allocator =
  fixes take :: "'r \<Rightarrow> 'm \<Rightarrow> (int \<times> 'm) option"
    and give :: "int \<Rightarrow> 'r \<Rightarrow> 'm \<Rightarrow> (int \<times> 'm) option"
    and good :: "'m \<Rightarrow> int set \<Rightarrow> bool"
    and area :: "int \<Rightarrow> 'r \<Rightarrow> int set"
    and fine :: "int \<Rightarrow> 'r \<Rightarrow> 'm \<Rightarrow> bool"
    and req_ok :: "'r \<Rightarrow> bool"
    and bnd :: "'m \<Rightarrow> 'b"
    and rd :: "'m \<Rightarrow> int \<Rightarrow> int"
  assumes take_cases: "good m F \<Longrightarrow> req_ok r \<Longrightarrow>
      take r m = Some (SYSPTR, m) \<or>
      (\<exists>p m'. take r m = Some (p, m') \<and> p \<noteq> SYSPTR \<and> area p r \<subseteq> F \<and> good m' (F - area p r) \<and>
         fine p r m' \<and> bnd m' = bnd m \<and> (\<forall>a. a \<notin> area p r \<longrightarrow> rd m' a = rd m a))"
    and give_ok: "good m F \<Longrightarrow> req_ok r \<Longrightarrow> fine p r m \<Longrightarrow> area p r \<inter> F = {} \<Longrightarrow>
      \<exists>m'. give p r m = Some (OK, m') \<and> good m' (F \<union> area p r) \<and> bnd m' = bnd m \<and> rd m' = rd m"
    and fine_bnd: "bnd m' = bnd m \<Longrightarrow> fine p r m \<Longrightarrow> fine p r m'"
begin

text \<open>\<open>uses m F live\<close>: the areas of \<open>live\<close> are disjoint from each other and from the free bytes.\<close>

definition uses :: "'m \<Rightarrow> int set \<Rightarrow> (int \<times> 'r) list \<Rightarrow> bool" where
  "uses m F live \<longleftrightarrow> good m F \<and>
     (\<forall>(p, r) \<in> set live. req_ok r \<and> fine p r m \<and> area p r \<inter> F = {}) \<and>
     sorted_wrt (\<lambda>(p, r) (p', r'). area p r \<inter> area p' r' = {}) live"

definition covered :: "int set \<Rightarrow> (int \<times> 'r) list \<Rightarrow> int set" where
  "covered F live = F \<union> (\<Union>(p, r) \<in> set live. area p r)"

lemma take_uses:
  assumes "uses m F live" "req_ok r" "take r m = Some (p, m')" "p \<noteq> SYSPTR"
  shows "uses m' (F - area p r) ((p, r) # live)" "covered (F - area p r) ((p, r) # live) = covered F live"
    "bnd m' = bnd m" "a \<notin> area p r \<Longrightarrow> rd m' a = rd m a"
proof -
  have g: "good m F" using assms(1) by (simp add: uses_def)
  have t: "area p r \<subseteq> F" "good m' (F - area p r)" "fine p r m'" "bnd m' = bnd m"
    and rd: "\<forall>a. a \<notin> area p r \<longrightarrow> rd m' a = rd m a"
    using take_cases [OF g assms(2)] assms(3,4) by auto
  show "bnd m' = bnd m" "a \<notin> area p r \<Longrightarrow> rd m' a = rd m a" using t(4) rd by simp_all
  show "uses m' (F - area p r) ((p, r) # live)"
    using assms(1,2) fine_bnd [OF t(4)] t(1-3) unfolding uses_def by fastforce
  show "covered (F - area p r) ((p, r) # live) = covered F live"
    using t(1) by (auto simp: covered_def)
qed

lemma take_fails:
  assumes "uses m F live" "req_ok r" "take r m = Some (SYSPTR, m')"
  shows "m' = m"
  using take_cases [of m F r] assms by (auto simp: uses_def)

lemma take_total: "uses m F live \<Longrightarrow> req_ok r \<Longrightarrow> \<exists>p m'. take r m = Some (p, m')"
  using take_cases [of m F r] by (auto simp: uses_def)

lemma sorted_wrt_remove1: "sorted_wrt P xs \<Longrightarrow> sorted_wrt P (remove1 x xs)"
  by (induction xs) (auto dest: set_remove1_subset [THEN subsetD])

lemma give_uses:
  assumes "uses m F live" "(p, r) \<in> set live"
  obtains m' where "give p r m = Some (OK, m')" "uses m' (F \<union> area p r) (remove1 (p, r) live)"
    "covered (F \<union> area p r) (remove1 (p, r) live) = covered F live" "bnd m' = bnd m" "rd m' = rd m"
proof -
  have u: "good m F" "req_ok r" "fine p r m" "area p r \<inter> F = {}"
    using assms by (auto simp: uses_def)
  obtain m' where m': "give p r m = Some (OK, m')" "good m' (F \<union> area p r)" "bnd m' = bnd m"
    "rd m' = rd m"
    using give_ok [OF u] by blast
  obtain xs ys where live: "live = xs @ (p, r) # ys" "(p, r) \<notin> set xs"
    using split_list_first [OF assms(2)] by blast
  have rm: "remove1 (p, r) live = xs @ ys" using live by (simp add: remove1_append)
  have srt: "sorted_wrt (\<lambda>(p, r) (p', r'). area p r \<inter> area p' r' = {}) (xs @ (p, r) # ys)"
    using assms(1) unfolding uses_def live(1) by blast
  have each: "req_ok r' \<and> fine p' r' m' \<and> area p' r' \<inter> (F \<union> area p r) = {}"
    if mem: "(p', r') \<in> set xs \<union> set ys" for p' r'
  proof -
    have "(p', r') \<in> set live" using mem live(1) by auto
    then have "req_ok r'" "fine p' r' m" "area p' r' \<inter> F = {}"
      using assms(1) by (auto simp: uses_def)
    moreover have "area p' r' \<inter> area p r = {}"
      using srt mem unfolding sorted_wrt_append by (auto simp: Int_commute)
    ultimately show ?thesis using fine_bnd [OF m'(3)] by (simp add: Int_Un_distrib)
  qed
  have "sorted_wrt (\<lambda>(p, r) (p', r'). area p r \<inter> area p' r' = {}) (xs @ ys)"
    using srt by (simp add: sorted_wrt_append)
  moreover have "\<forall>(p', r') \<in> set (xs @ ys). req_ok r' \<and> fine p' r' m' \<and>
      area p' r' \<inter> (F \<union> area p r) = {}"
    using each by auto
  ultimately have "uses m' (F \<union> area p r) (remove1 (p, r) live)"
    using m'(2) unfolding uses_def rm by blast
  moreover have "covered (F \<union> area p r) (remove1 (p, r) live) = covered F live"
    unfolding rm by (auto simp: covered_def live(1))
  ultimately show thesis using that m'(1,3,4) by blast
qed

text \<open>Runs of requests and returns of what is in use.\<close>

inductive astep :: "'m \<times> (int \<times> 'r) list \<Rightarrow> 'm \<times> (int \<times> 'r) list \<Rightarrow> bool" where
  take_step: "req_ok r \<Longrightarrow> take r m = Some (p, m') \<Longrightarrow>
    astep (m, live) (m', if p = SYSPTR then live else (p, r) # live)"
| give_step: "(p, r) \<in> set live \<Longrightarrow> give p r m = Some (v, m') \<Longrightarrow>
    astep (m, live) (m', remove1 (p, r) live)"

lemma astep_uses:
  assumes "astep (m, live) (m', live')" "uses m F live"
  shows "\<exists>F'. uses m' F' live' \<and> covered F' live' = covered F live"
  using assms(1)
proof cases
  case (take_step r p)
  then show ?thesis
    using take_uses [OF assms(2), of r p m'] take_fails [OF assms(2), of r m'] assms(2)
    by (cases "p = SYSPTR") auto
next
  case (give_step p r v)
  obtain m2 where "give p r m = Some (OK, m2)" "uses m2 (F \<union> area p r) (remove1 (p, r) live)"
    "covered (F \<union> area p r) (remove1 (p, r) live) = covered F live"
    by (rule give_uses [OF assms(2) give_step(2)])
  then show ?thesis using give_step by auto
qed

lemma run_uses:
  "astep\<^sup>*\<^sup>* (m, live) (m', live') \<Longrightarrow> uses m F live \<Longrightarrow>
    \<exists>F'. uses m' F' live' \<and> covered F' live' = covered F live"
proof (induction "(m', live')" arbitrary: m' live' rule: rtranclp_induct)
  case base
  then show ?case by blast
next
  case (step y)
  obtain m1 live1 where y: "y = (m1, live1)" by fastforce
  then obtain F1 where "uses m1 F1 live1" "covered F1 live1 = covered F live" using step by blast
  then show ?case using astep_uses [of m1 live1 m' live' F1] step(2) y by auto
qed

lemma uses_apart:
  assumes "uses m F live" "(p, r) \<in> set live" "(p', r') \<in> set live" "(p, r) \<noteq> (p', r')"
  shows "area p r \<inter> area p' r' = {}"
proof -
  have s: "sorted_wrt (\<lambda>(p, r) (p', r'). area p r \<inter> area p' r' = {}) live"
    using assms(1) unfolding uses_def by blast
  obtain i j where i: "i < length live" "live ! i = (p, r)" and j: "j < length live" "live ! j = (p', r')"
    using assms(2,3) by (auto simp: in_set_conv_nth)
  have "i \<noteq> j" using i j assms(4) by auto
  then consider "i < j" | "j < i" by linarith
  then show ?thesis
  proof cases
    case 1
    then show ?thesis using s i j unfolding sorted_wrt_iff_nth_less by force
  next
    case 2
    then show ?thesis using s i j unfolding sorted_wrt_iff_nth_less by (force simp: Int_commute)
  qed
qed

lemma uses_req: "uses m F live \<Longrightarrow> (p, r) \<in> set live \<Longrightarrow> req_ok r \<and> fine p r m"
  by (auto simp: uses_def)

lemma uses_disjoint:
  "uses m F live \<Longrightarrow> i < j \<Longrightarrow> j < length live \<Longrightarrow>
    area (fst (live ! i)) (snd (live ! i)) \<inter> area (fst (live ! j)) (snd (live ! j)) = {}"
  unfolding uses_def sorted_wrt_iff_nth_less by (auto simp: case_prod_beta)

end

section \<open>The two allocators\<close>

definition memgood :: "memst \<Rightarrow> int set \<Rightarrow> bool" where
  "memgood m F \<longleftrightarrow> (\<exists>bs. memwf m bs \<and> bytes bs = F)"

lemma memgood_ram [simp]:
  "memgood (set_ram a v m) F = memgood m F" "memgood (set_word a v m) F = memgood m F"
  by (simp_all add: memgood_def)

definition heap_area :: "int \<Rightarrow> int \<Rightarrow> int set" where
  "heap_area p n = {p..<p + roundmb n}"

definition heap_fine :: "int \<Rightarrow> int \<Rightarrow> memst \<Rightarrow> bool" where
  "heap_fine p n m \<longleftrightarrow> p mod 4 = 0 \<and> heap_start m \<le> p \<and> p + roundmb n \<le> heap_end m"

definition stk_area :: "int \<Rightarrow> int \<Rightarrow> int set" where
  "stk_area p n = {p + 2 - roundmb n..<p + 2}"

definition stk_fine :: "int \<Rightarrow> int \<Rightarrow> memst \<Rightarrow> bool" where
  "stk_fine p n m \<longleftrightarrow> (p + 2) mod 4 = 0 \<and> heap_start m \<le> p + 2 - roundmb n \<and> p + 2 \<le> heap_end m"

lemma bytes_range: "memwf m bs \<Longrightarrow> {p..<p + n} \<subseteq> bytes bs \<Longrightarrow> 0 < n \<Longrightarrow>
    heap_start m \<le> p \<and> p + n \<le> heap_end m"
proof -
  assume m: "memwf m bs" "{p..<p + n} \<subseteq> bytes bs" "0 < n"
  have "p \<in> bytes bs" "p + n - 1 \<in> bytes bs" using m(2,3) by auto
  then show ?thesis using blocks_ok_above [OF memwfD(2) [OF m(1)]] by fastforce
qed

definition mbound :: "memst \<Rightarrow> int \<times> int" where
  "mbound m = (heap_start m, heap_end m)"

definition size_ok :: "int \<Rightarrow> bool" where
  "size_ok n \<longleftrightarrow> 0 < n \<and> n \<le> 65532"

interpretation heap: allocator getmem freemem memgood heap_area heap_fine size_ok mbound ram
proof
  fix m F and n :: int assume g: "memgood m F" and sz: "size_ok n"
  obtain bs where bs: "memwf m bs" "bytes bs = F" using g by (auto simp: memgood_def)
  have n: "0 < n" "n \<le> 65532" using sz by (simp_all add: size_ok_def)
  note R = roundmb_props [OF n]
  show "getmem n m = Some (SYSPTR, m) \<or>
      (\<exists>p m'. getmem n m = Some (p, m') \<and> p \<noteq> SYSPTR \<and> heap_area p n \<subseteq> F \<and>
         memgood m' (F - heap_area p n) \<and> heap_fine p n m' \<and> mbound m' = mbound m \<and> (\<forall>a. a \<notin> heap_area p n \<longrightarrow> ram m' a = ram m a))"
  proof (cases "alloc_first (roundmb n) bs")
    case None
    then show ?thesis using getmem_none [OF bs(1) n] by simp
  next
    case (Some r)
    obtain p bs' where r: "r = (p, bs')" by fastforce
    obtain m' where m': "getmem n m = Some (p, m')" "memwf m' bs'"
      "heap_start m' = heap_start m" "heap_end m' = heap_end m" "ram m' = ram m"
      by (rule getmem_some [OF bs(1) n Some [unfolded r]]) blast
    have sp: "{p..<p + roundmb n} \<subseteq> bytes bs" "bytes bs' = bytes bs - {p..<p + roundmb n}" "p mod 4 = 0"
      using alloc_first_spec [OF Some [unfolded r] memwfD(2) [OF bs(1)] R(1,2)] by blast+
    note rg = bytes_range [OF bs(1) sp(1) R(1)]
    have "p \<noteq> SYSPTR" using rg R(1) memwfD(6) [OF bs(1)] by (simp add: SYSPTR_def)
    moreover have "memgood m' (F - heap_area p n)"
      using m'(2) sp(2) bs(2) by (auto simp: memgood_def heap_area_def)
    moreover have "heap_area p n \<subseteq> F" using sp(1) bs(2) by (simp add: heap_area_def)
    moreover have "heap_fine p n m'" "mbound m' = mbound m"
      using rg sp(3) m'(3,4) by (simp_all add: heap_fine_def mbound_def)
    ultimately show ?thesis
      using m'(1,5) by (intro disjI2 exI [of _ p] exI [of _ m'] conjI) simp_all
  qed
next
  fix m F and n p :: int assume g: "memgood m F" and sz: "size_ok n" and f: "heap_fine p n m"
    and dis: "heap_area p n \<inter> F = {}"
  obtain bs where bs: "memwf m bs" "bytes bs = F" using g by (auto simp: memgood_def)
  have n: "0 < n" "n \<le> 65532" using sz by (simp_all add: size_ok_def)
  note R = roundmb_props [OF n]
  have fr: "heap_start m \<le> p" "p mod 4 = 0" "p + roundmb n \<le> heap_end m" using f by (simp_all add: heap_fine_def mbound_def)
  have d: "{p..<p + roundmb n} \<inter> bytes bs = {}" using dis bs(2) by (simp add: heap_area_def)
  obtain m' where m': "freemem p n m = Some (OK, m')" "memwf m' (release_block p (roundmb n) bs)"
    "heap_start m' = heap_start m" "heap_end m' = heap_end m" "ram m' = ram m"
    by (rule freemem_ok [OF bs(1) n fr d]) blast
  have "heap_start m - 1 < p" using fr(1) by simp
  then have "bytes (release_block p (roundmb n) bs) = {p..<p + roundmb n} \<union> bytes bs"
    using release_block_spec [OF memwfD(2) [OF bs(1)] _ R(1) fr(2) R(2) fr(3) d] by blast
  then have "memgood m' (F \<union> heap_area p n)"
    using m'(2) bs(2) by (auto simp: memgood_def heap_area_def)
  moreover have "mbound m' = mbound m" using m'(3,4) by (simp add: mbound_def)
  ultimately show "\<exists>m'. freemem p n m = Some (OK, m') \<and> memgood m' (F \<union> heap_area p n) \<and>
      mbound m' = mbound m \<and> ram m' = ram m" using m'(1,5) by blast
qed (simp add: heap_fine_def mbound_def)

lemma freestk_freemem:
  assumes "0 < n" "n \<le> 65532" "stk_fine p n m" "0 \<le> heap_start m" "heap_end m < 65536"
  shows "freestk p n m = freemem (p + 2 - roundmb n) (roundmb n) m"
  using assms roundmb_props [OF assms(1,2)] by (simp add: freestk_def stk_fine_def sizeof_int_def algebra_simps)

interpretation stk: allocator getstk freestk memgood stk_area stk_fine size_ok mbound ram
proof
  fix m F and n :: int assume g: "memgood m F" and sz: "size_ok n"
  obtain bs where bs: "memwf m bs" "bytes bs = F" using g by (auto simp: memgood_def)
  have n: "0 < n" "n \<le> 65532" using sz by (simp_all add: size_ok_def)
  note R = roundmb_props [OF n]
  show "getstk n m = Some (SYSPTR, m) \<or>
      (\<exists>p m'. getstk n m = Some (p, m') \<and> p \<noteq> SYSPTR \<and> stk_area p n \<subseteq> F \<and>
         memgood m' (F - stk_area p n) \<and> stk_fine p n m' \<and> mbound m' = mbound m \<and> (\<forall>a. a \<notin> stk_area p n \<longrightarrow> ram m' a = ram m a))"
  proof (cases "alloc_last (roundmb n) bs")
    case None
    then show ?thesis using getstk_none [OF bs(1) n] by simp
  next
    case (Some r)
    obtain a bs' where r: "r = (a, bs')" by fastforce
    let ?p = "a + roundmb n - 2"
    obtain m' where m': "getstk n m = Some (?p, m')" "memwf m' bs'"
      "heap_start m' = heap_start m" "heap_end m' = heap_end m" "ram m' = ram (set_word ?p (roundmb n) m)"
      by (rule getstk_some [OF bs(1) n Some [unfolded r]]) blast
    have sp: "{a..<a + roundmb n} \<subseteq> bytes bs" "bytes bs' = bytes bs - {a..<a + roundmb n}" "a mod 4 = 0"
      using alloc_last_spec [OF Some [unfolded r] memwfD(2) [OF bs(1)] R(1,2)] by blast+
    note rg = bytes_range [OF bs(1) sp(1) R(1)]
    have ar: "stk_area ?p n = {a..<a + roundmb n}" by (simp add: stk_area_def)
    have "?p \<noteq> SYSPTR" using rg memwfD(6) [OF bs(1)] by (simp add: SYSPTR_def)
    moreover have "memgood m' (F - stk_area ?p n)"
      using m'(2) sp(2) bs(2) unfolding ar memgood_def by auto
    moreover have "stk_area ?p n \<subseteq> F" using sp(1) bs(2) unfolding ar by simp
    moreover have "(a + roundmb n) mod 4 = 0" using sp(3) R(2) by presburger
    then have "stk_fine ?p n m'" "mbound m' = mbound m"
      using rg m'(3,4) by (simp_all add: stk_fine_def mbound_def)
    moreover have "ram m' x = ram m x" if "x \<notin> stk_area ?p n" for x
    proof -
      have "u16 (?p + 1) = ?p + 1"
        using rg R(1,2) memwfD(3,4,6) [OF bs(1)] by simp
      moreover have "?p \<in> stk_area ?p n" "?p + 1 \<in> stk_area ?p n"
        using R(1,2) unfolding ar by auto
      ultimately have "x \<noteq> ?p" "x \<noteq> u16 (?p + 1)" using that by auto
      then show ?thesis using m'(5) by (simp add: set_word_def)
    qed
    ultimately show ?thesis using m'(1) by blast
  qed
next
  fix m F and n p :: int assume g: "memgood m F" and sz: "size_ok n" and f: "stk_fine p n m"
    and dis: "stk_area p n \<inter> F = {}"
  obtain bs where bs: "memwf m bs" "bytes bs = F" using g by (auto simp: memgood_def)
  have n: "0 < n" "n \<le> 65532" using sz by (simp_all add: size_ok_def)
  note R = roundmb_props [OF n] and W = memwfD [OF bs(1)]
  let ?a = "p + 2 - roundmb n"
  have idem: "roundmb (roundmb n) = roundmb n" using R by (intro roundmb_idem) simp_all
  have md: "?a mod 4 = 0" using f R(2) by (simp add: stk_fine_def) presburger
  have h: "heap_fine ?a (roundmb n) m" "heap_area ?a (roundmb n) \<inter> F = {}"
    "heap_area ?a (roundmb n) = stk_area p n"
    using f md dis idem by (simp_all add: heap_fine_def stk_fine_def heap_area_def stk_area_def)
  obtain m' where m': "freemem ?a (roundmb n) m = Some (OK, m')" "memgood m' (F \<union> heap_area ?a (roundmb n))" "mbound m' = mbound m" "ram m' = ram m"
    using heap.give_ok [OF g _ h(1,2)] R(1,5) by (auto simp: size_ok_def)
  have "freestk p n m = Some (OK, m')"
    using freestk_freemem [OF n f] W m'(1) by simp
  then show "\<exists>m'. freestk p n m = Some (OK, m') \<and> memgood m' (F \<union> stk_area p n) \<and>
      mbound m' = mbound m \<and> ram m' = ram m" using m'(2-4) h(3) by auto
qed (simp add: stk_fine_def mbound_def)

text \<open>Both allocators on the same memory: a request says which one it is for.\<close>

definition arena_take :: "bool \<times> int \<Rightarrow> memst \<Rightarrow> (int \<times> memst) option" where
  "arena_take r m = (if fst r then getstk (snd r) m else getmem (snd r) m)"

definition arena_give :: "int \<Rightarrow> bool \<times> int \<Rightarrow> memst \<Rightarrow> (int \<times> memst) option" where
  "arena_give p r m = (if fst r then freestk p (snd r) m else freemem p (snd r) m)"

definition arena_area :: "int \<Rightarrow> bool \<times> int \<Rightarrow> int set" where
  "arena_area p r = (if fst r then stk_area p (snd r) else heap_area p (snd r))"

definition arena_fine :: "int \<Rightarrow> bool \<times> int \<Rightarrow> memst \<Rightarrow> bool" where
  "arena_fine p r m = (if fst r then stk_fine p (snd r) m else heap_fine p (snd r) m)"

interpretation arena: allocator arena_take arena_give memgood arena_area arena_fine
  "\<lambda>r. size_ok (snd r)" mbound ram
proof
  fix m F and r :: "bool \<times> int" and p :: int
  assume m: "memgood m F" "size_ok (snd r)"
  show "arena_take r m = Some (SYSPTR, m) \<or>
      (\<exists>p m'. arena_take r m = Some (p, m') \<and> p \<noteq> SYSPTR \<and> arena_area p r \<subseteq> F \<and>
         memgood m' (F - arena_area p r) \<and> arena_fine p r m' \<and> mbound m' = mbound m \<and>
         (\<forall>a. a \<notin> arena_area p r \<longrightarrow> ram m' a = ram m a))"
    using heap.take_cases [OF m] stk.take_cases [OF m]
    by (simp add: arena_take_def arena_area_def arena_fine_def)
  assume "arena_fine p r m" "arena_area p r \<inter> F = {}"
  then show "\<exists>m'. arena_give p r m = Some (OK, m') \<and> memgood m' (F \<union> arena_area p r) \<and>
      mbound m' = mbound m \<and> ram m' = ram m"
    using heap.give_ok [OF m] stk.give_ok [OF m]
    by (simp add: arena_give_def arena_area_def arena_fine_def split: if_splits)
qed (auto simp: arena_fine_def intro: heap.fine_bnd stk.fine_bnd)

lemma arena_ram [simp]:
  "arena.uses (set_ram a v m) F live = arena.uses m F live"
  "arena.uses (set_word a v m) F live = arena.uses m F live"
  by (simp_all add: arena.uses_def arena_fine_def heap_fine_def stk_fine_def)

lemma arena_area_mem: "size_ok (snd r) \<Longrightarrow> \<exists>a. a \<in> arena_area p r"
  using roundmb_props(1) [of "snd r"]
  by (auto simp: arena_area_def size_ok_def heap_area_def stk_area_def intro: exI [of _ p] exI [of _ "p + 1"])

lemma arena_distinct: "arena.uses m F live \<Longrightarrow> distinct live"
proof -
  assume u: "arena.uses m F live"
  have "live ! i \<noteq> live ! j" if ij: "i < j" "j < length live" for i j
  proof
    assume e: "live ! i = live ! j"
    obtain p r where pr: "live ! j = (p, r)" by (rule prod.exhaust)
    have "arena_area p r \<inter> arena_area p r = {}" using arena.uses_disjoint [OF u ij] e pr by simp
    moreover have "(p, r) \<in> set live" using pr ij(2) nth_mem by metis
    then have "size_ok (snd r)" using arena.uses_req [OF u] by blast
    ultimately show False using arena_area_mem [of r p] by blast
  qed
  then show ?thesis unfolding distinct_conv_nth by (metis nat_neq_iff)
qed

text \<open>\<open>malloc\<close> and \<open>free\<close> as clients of the allocator.\<close>

lemma arena_bounds: "arena.uses m F live \<Longrightarrow> 0 < heap_start m \<and> heap_end m < 65535"
proof -
  assume "arena.uses m F live"
  then obtain bs where "memwf m bs" by (auto simp: arena.uses_def memgood_def)
  from memwfD(3,4,6) [OF this] show ?thesis by simp
qed

lemma malloc_uses:
  assumes "arena.uses m F live" "0 < n" "n \<le> 65500"
  obtains (none) "wrap_malloc n m = None"
    | (some) p m' where "wrap_malloc n m = Some (p, m')"
      "arena.uses m' (F - heap_area (p - 2) (roundmb n + 2)) ((p - 2, (False, roundmb n + 2)) # live)"
      "get_word m' (p - 2) = roundmb n + 2" "mbound m' = mbound m"
      "heap_start m + 2 \<le> p" "p < heap_end m"
      "heap_area (p - 2) (roundmb n + 2) \<subseteq> F"
      "\<And>a. a \<notin> heap_area (p - 2) (roundmb n + 2) \<Longrightarrow> ram m' a = ram m a"
proof -
  let ?n = "roundmb n + 2"
  have R: "0 < roundmb n" "roundmb n < n + 4" "roundmb n mod 4 = 0"
    using roundmb_props [of n] assms(2,3) by simp_all
  then have n: "0 < ?n" "?n \<le> 65532" "u16 ?n = ?n" "size_ok ?n"
    using assms(3) by (simp_all add: size_ok_def)
  have rr: "?n \<le> roundmb ?n" by (rule roundmb_props [OF n(1,2)])
  have g: "memgood m F" using assms(1) by (simp add: arena.uses_def)
  note B = arena_bounds [OF assms(1)]
  show thesis
  proof (cases "getmem ?n m = Some (SYSPTR, m)")
    case True
    then show thesis by (intro none) (simp add: wrap_malloc_def sizeof_int_def n(3))
  next
    case False
    then obtain q m0 where q: "getmem ?n m = Some (q, m0)" "q \<noteq> SYSPTR" "heap_area q ?n \<subseteq> F"
      "heap_fine q ?n m0" "mbound m0 = mbound m" "\<forall>a. a \<notin> heap_area q ?n \<longrightarrow> ram m0 a = ram m a"
      using heap.take_cases [OF g n(4)] by blast
    have b: "heap_start m \<le> q" "q + roundmb ?n \<le> heap_end m"
      using q(4,5) by (simp_all add: heap_fine_def mbound_def)
    have qr: "0 < q" "q + 18 - 18 < 65535" "u16 (q + 2) = q + 2" "u16 (q + 1) = q + 1"
      using b B rr R(1) by simp_all
    let ?m = "set_word q ?n m0"
    have t: "arena_take (False, ?n) m = Some (q, m0)" using q(1) by (simp add: arena_take_def)
    have "arena.uses m0 (F - arena_area q (False, ?n)) ((q, (False, ?n)) # live)"
      by (rule arena.take_uses(1) [OF assms(1) _ t q(2)]) (simp add: n(4))
    then have u: "arena.uses ?m (F - heap_area q ?n) ((q, (False, ?n)) # live)"
      by (simp add: arena_area_def)
    have w: "get_word ?m q = ?n" using get_set_word [of q ?n m0] qr n(3) by simp
    have "q \<in> heap_area q ?n" "q + 1 \<in> heap_area q ?n" using rr R(1) by (simp_all add: heap_area_def)
    then have o: "ram ?m a = ram m a" if "a \<notin> heap_area q ?n" for a
      using q(6) that qr(4) by (auto simp: set_word_def)
    have eq: "wrap_malloc n m = Some (q + 2, ?m)"
      using q(1,2) qr(3) by (simp add: wrap_malloc_def sizeof_int_def n(3))
    show thesis
      by (rule some [OF eq]) (use u w o q(3,5) b rr R(1) in \<open>simp_all add: mbound_def\<close>)
  qed
qed

lemma free_uses:
  assumes "arena.uses m F live" "(p - 2, (False, k)) \<in> set live" "get_word m (p - 2) = k"
  obtains m' where "wrap_free p m = Some m'"
    "arena.uses m' (F \<union> heap_area (p - 2) k) (remove1 (p - 2, (False, k)) live)"
    "ram m' = ram m" "mbound m' = mbound m"
proof -
  note B = arena_bounds [OF assms(1)]
  have "arena_fine (p - 2) (False, k) m" "size_ok k"
    using arena.uses_req [OF assms(1,2)] by simp_all
  then have b: "heap_start m \<le> p - 2" "p - 2 < heap_end m"
    using roundmb_props(1) [of k] by (simp_all add: arena_fine_def heap_fine_def size_ok_def)
  then have e: "u16 (p - 2) = p - 2" "p \<noteq> 0" using B by simp_all
  obtain m' where m': "arena_give (p - 2) (False, k) m = Some (OK, m')"
    "arena.uses m' (F \<union> arena_area (p - 2) (False, k)) (remove1 (p - 2, (False, k)) live)"
    "mbound m' = mbound m" "ram m' = ram m"
    by (rule arena.give_uses [OF assms(1,2)])
  have "wrap_free p m = Some m'"
    using m'(1) e assms(3) by (simp add: wrap_free_def sizeof_int_def arena_give_def)
  moreover have "arena_area (p - 2) (False, k) = heap_area (p - 2) k" by (simp add: arena_area_def)
  ultimately show thesis using that m'(2-4) by simp
qed

end
