(* ===== verification/KState.thy ===== *)
theory KState
  imports QueueFam Memory
begin

text \<open>
  The kernel's variables (\<open>proc.h\<close>, \<open>sem.h\<close>, \<open>sleep.h\<close>, \<open>initialize.c\<close>,
  \<open>clkinit.c\<close>) as one record, and the well-formedness of a kernel state: \<open>kq\<close> relates
  the q table to the process table, \<open>ksem\<close> the semaphore counts to the queues, \<open>kclk\<close>
  the clock variables to the list of sleepers, \<open>krun\<close> says that the running process is the
  right one. The lists are given explicitly as \<open>L\<close>; \<open>X\<close> holds the processes that an
  operation has taken off their list and not yet put back.
\<close>

section \<open>Process table, semaphore table, kernel variables\<close>

datatype pstate = PRCURR | PRFREE | PRREADY | PRRECV | PRSLEEP | PRSUSP | PRWAIT | PRTRECV

text \<open>The states are numbered in \<open>proc.h\<close>, and ordered by their numbers.\<close>

fun state_code :: "pstate \<Rightarrow> int" where
  "state_code PRCURR = 1"
| "state_code PRFREE = 2"
| "state_code PRREADY = 3"
| "state_code PRRECV = 4"
| "state_code PRSLEEP = 5"
| "state_code PRSUSP = 6"
| "state_code PRWAIT = 7"
| "state_code PRTRECV = 8"

lemma state_code_inject [simp]: "state_code a = state_code b \<longleftrightarrow> a = b"
  by (cases a; cases b) simp_all

instantiation pstate :: linorder
begin

definition less_eq_pstate :: "pstate \<Rightarrow> pstate \<Rightarrow> bool" where
  "less_eq_pstate a b \<longleftrightarrow> state_code a \<le> state_code b"

definition less_pstate :: "pstate \<Rightarrow> pstate \<Rightarrow> bool" where
  "less_pstate a b \<longleftrightarrow> state_code a < state_code b"

instance
  by standard (auto simp: less_eq_pstate_def less_pstate_def)

end

record pentry =
  pstate :: pstate
  pprio :: int
  pregs :: "int \<Rightarrow> int"
  psem :: int
  pmsg :: int
  phasmsg :: int
  pbase :: int
  pstklen :: int
  plimit :: int
  pname :: string
  pargs :: int
  parg :: "int \<Rightarrow> int"
  paddr :: int
  pnxtkin :: int
  pdevs0 :: int
  pdevs1 :: int
  fildes :: "int \<Rightarrow> int"

datatype sstate = SFREE | SUSED

record sentry =
  sstate :: sstate
  semcnt :: int
  sqhead :: int
  sqtail :: int

text \<open>Messages on the console.\<close>

datatype xcall = Xdone | Xpanic

text \<open>The fields of a stdio stream that the kernel uses.\<close>

record sfile =
  sflags :: int
  sput :: int
  sget :: int
  sfdesc :: int

text \<open>
  What a process does in the kernel when it next has the processor: return a value to its
  caller, or go on after the \<open>resched\<close> in which it lost the processor. The argument is
  what the rest of the call still uses of its local variables.
\<close>

datatype kont =
    KRet int
  | KSuspend int
  | KReceive
  | KRecvtim
  | KSleep int
  | KKill int
  | KKilled
  | KClkint
  | KStrtclk

text \<open>\<open>sltop\<close> points to a key in the q table: it is the index of that entry.\<close>

record kstate =
  proctab :: "int \<Rightarrow> pentry"
  numproc :: int
  nextproc :: int
  currpid :: int
  semaph :: "int \<Rightarrow> sentry"
  nextsem :: int
  qtab :: qarr
  nextqueue :: int
  rdyhead :: int
  rdytail :: int
  preempt :: int
  clkruns :: bool
  clockq :: int
  slnempty :: bool
  sltop :: int
  defclk :: int
  clkdiff :: int
  clktime :: int
  ctr100 :: int
  prescaler :: int
  rtcScaler :: int
  mem :: memst
  files :: "int \<Rightarrow> sfile"
  xcalls :: "xcall list"

definition upd_proc :: "int \<Rightarrow> (pentry \<Rightarrow> pentry) \<Rightarrow> kstate \<Rightarrow> kstate" where
  "upd_proc p f s = s\<lparr>proctab := (proctab s)(p := f (proctab s p))\<rparr>"

definition upd_sem :: "int \<Rightarrow> (sentry \<Rightarrow> sentry) \<Rightarrow> kstate \<Rightarrow> kstate" where
  "upd_sem i f s = s\<lparr>semaph := (semaph s)(i := f (semaph s i))\<rparr>"

lemma upd_simps [simp]:
  "proctab (upd_proc p f s) = (proctab s)(p := f (proctab s p))"
  "semaph (upd_proc p f s) = semaph s" "qtab (upd_proc p f s) = qtab s"
  "currpid (upd_proc p f s) = currpid s" "rdyhead (upd_proc p f s) = rdyhead s"
  "rdytail (upd_proc p f s) = rdytail s" "clockq (upd_proc p f s) = clockq s"
  "slnempty (upd_proc p f s) = slnempty s" "sltop (upd_proc p f s) = sltop s"
  "clkruns (upd_proc p f s) = clkruns s" "mem (upd_proc p f s) = mem s"
  "preempt (upd_proc p f s) = preempt s" "numproc (upd_proc p f s) = numproc s"
  "defclk (upd_proc p f s) = defclk s" "clkdiff (upd_proc p f s) = clkdiff s"
  "nextproc (upd_proc p f s) = nextproc s" "nextsem (upd_proc p f s) = nextsem s"
  "prescaler (upd_proc p f s) = prescaler s" "rtcScaler (upd_proc p f s) = rtcScaler s"
  "semaph (upd_sem i g s) = (semaph s)(i := g (semaph s i))"
  "proctab (upd_sem i g s) = proctab s" "qtab (upd_sem i g s) = qtab s"
  "currpid (upd_sem i g s) = currpid s" "rdyhead (upd_sem i g s) = rdyhead s"
  "rdytail (upd_sem i g s) = rdytail s" "clockq (upd_sem i g s) = clockq s"
  "slnempty (upd_sem i g s) = slnempty s" "sltop (upd_sem i g s) = sltop s"
  "clkruns (upd_sem i g s) = clkruns s" "mem (upd_sem i g s) = mem s"
  "preempt (upd_sem i g s) = preempt s" "numproc (upd_sem i g s) = numproc s"
  "defclk (upd_sem i g s) = defclk s" "clkdiff (upd_sem i g s) = clkdiff s"
  "nextproc (upd_sem i g s) = nextproc s" "nextsem (upd_sem i g s) = nextsem s"
  "prescaler (upd_sem i g s) = prescaler s" "rtcScaler (upd_sem i g s) = rtcScaler s"
  "files (upd_proc p f s) = files s" "xcalls (upd_proc p f s) = xcalls s"
  "files (upd_sem i g s) = files s" "xcalls (upd_sem i g s) = xcalls s"
  by (simp_all add: upd_proc_def upd_sem_def)

lemma pstate_same: "pstate e = st \<Longrightarrow> e\<lparr>pstate := st\<rparr> = e"
  by (cases e) simp

section \<open>Well-formed kernel states\<close>

abbreviation ispid :: "int \<Rightarrow> bool" where
  "ispid p \<equiv> 0 \<le> p \<and> p < NPROC"

abbreviation prio :: "kstate \<Rightarrow> int \<Rightarrow> int" where
  "prio s p \<equiv> pprio (proctab s p)"

abbreviation pst :: "kstate \<Rightarrow> int \<Rightarrow> pstate" where
  "pst s p \<equiv> pstate (proctab s p)"

text \<open>The list a process belongs on, by its state.\<close>

definition ploc :: "pentry \<Rightarrow> int option" where
  "ploc e = (case pstate e of
     PRREADY \<Rightarrow> Some RDYQ | PRWAIT \<Rightarrow> Some (psem e)
   | PRSLEEP \<Rightarrow> Some CLKQ | PRTRECV \<Rightarrow> Some CLKQ | _ \<Rightarrow> None)"

lemma ploc_cong: "pstate e = pstate e' \<Longrightarrow> psem e = psem e' \<Longrightarrow> ploc e = ploc e'"
  by (simp add: ploc_def cong: pstate.case_cong)

definition layout :: "kstate \<Rightarrow> bool" where
  "layout s \<longleftrightarrow> rdyhead s = qhead RDYQ \<and> rdytail s = qhead RDYQ + 1 \<and> clockq s = qhead CLKQ \<and>
     (\<forall>i. \<not> isbadsem i \<longrightarrow> sqhead (semaph s i) = qhead i \<and> sqtail (semaph s i) = qhead i + 1)"

definition pmember :: "kstate \<Rightarrow> (int \<Rightarrow> int list) \<Rightarrow> int \<Rightarrow> bool" where
  "pmember s L p \<longleftrightarrow>
     (\<forall>n. isqueue n \<longrightarrow> (p \<in> set (L n) \<longleftrightarrow> ploc (proctab s p) = Some n)) \<and>
     (pst s p = PRWAIT \<longrightarrow> \<not> isbadsem (psem (proctab s p)))"

definition pprio_ok :: "pentry \<Rightarrow> bool" where
  "pprio_ok e \<longleftrightarrow> pstate e \<noteq> PRFREE \<longrightarrow> 1 \<le> pprio e \<and> pprio e \<le> MAXINT"

definition kprocs :: "kstate \<Rightarrow> bool" where
  "kprocs s \<longleftrightarrow>
     (\<forall>p. 0 < p \<and> p < NPROC \<longrightarrow> pprio_ok (proctab s p)) \<and>
     0 \<le> nextproc s \<and> nextproc s < NPROC \<and> prio s NULLPROC = 0 \<and> pst s NULLPROC \<in> {PRCURR, PRREADY} \<and>
     ispid (currpid s) \<and> (\<forall>p. ispid p \<longrightarrow> pst s p = PRCURR \<longrightarrow> p = currpid s)"

definition kq :: "kstate \<Rightarrow> (int \<Rightarrow> int list) \<Rightarrow> int set \<Rightarrow> bool" where
  "kq s L X \<longleftrightarrow>
     layout s \<and> qfam (qtab s) L \<and> kprocs s \<and>
     (\<forall>p. ispid p \<longrightarrow> p \<notin> X \<longrightarrow> pmember s L p) \<and> (\<forall>p \<in> X. ispid p \<and> unqueued L p) \<and>
     (\<forall>p \<in> set (L RDYQ). qkey (qtab s p) = prio s p) \<and>
     sorted (map (prio s) (L RDYQ))"

definition ksem :: "kstate \<Rightarrow> (int \<Rightarrow> int list) \<Rightarrow> bool" where
  "ksem s L \<longleftrightarrow> 0 \<le> nextsem s \<and> nextsem s < NSEM \<and> (\<forall>i. \<not> isbadsem i \<longrightarrow>
     (case sstate (semaph s i) of
        SFREE \<Rightarrow> L i = []
      | SUSED \<Rightarrow> int (length (L i)) = max 0 (- semcnt (semaph s i)) \<and>
                 semcnt (semaph s i) \<le> MAXINT))"

definition kclk :: "kstate \<Rightarrow> (int \<Rightarrow> int list) \<Rightarrow> bool" where
  "kclk s L \<longleftrightarrow>
     1 \<le> prescaler s \<and> prescaler s \<le> 10 \<and> 1 \<le> rtcScaler s \<and> rtcScaler s \<le> 10 \<and>
     (slnempty s \<longleftrightarrow> L CLKQ \<noteq> []) \<and> (L CLKQ \<noteq> [] \<longrightarrow> sltop s = hd (L CLKQ)) \<and>
     (\<forall>p \<in> set (L CLKQ). 0 \<le> qkey (qtab s p)) \<and>
     sum_list (map (\<lambda>p. qkey (qtab s p)) (L CLKQ)) \<le> MAXINT"

text \<open>The running process is marked as such and no ready process has a higher priority.\<close>

definition krun :: "kstate \<Rightarrow> (int \<Rightarrow> int list) \<Rightarrow> bool" where
  "krun s L \<longleftrightarrow> 0 < preempt s \<and> preempt s \<le> QUANTUM \<and>
     pst s (currpid s) = PRCURR \<and> (\<forall>p \<in> set (L RDYQ). prio s p \<le> prio s (currpid s))"

definition kwf :: "kstate \<Rightarrow> (int \<Rightarrow> int list) \<Rightarrow> bool" where
  "kwf s L \<longleftrightarrow> kq s L {} \<and> ksem s L \<and> kclk s L"

text \<open>The kernel invariant: well formed for some lists, and the right process runs.\<close>

definition kinv :: "kstate \<Rightarrow> bool" where
  "kinv s \<longleftrightarrow> (\<exists>L. kwf s L \<and> krun s L)"

section \<open>Consequences\<close>

lemma kqD:
  assumes "kq s L X"
  shows "layout s" "qfam (qtab s) L" "kprocs s"
    "\<And>p. ispid p \<Longrightarrow> p \<notin> X \<Longrightarrow> pmember s L p"
    "\<And>p. p \<in> X \<Longrightarrow> ispid p \<and> unqueued L p"
    "\<And>p. p \<in> set (L RDYQ) \<Longrightarrow> qkey (qtab s p) = prio s p"
    "sorted (map (prio s) (L RDYQ))"
  using assms by (auto simp: kq_def)

lemma layoutD:
  assumes "layout s"
  shows "rdyhead s = qhead RDYQ" "rdytail s = qhead RDYQ + 1" "clockq s = qhead CLKQ"
    "\<not> isbadsem i \<Longrightarrow> sqhead (semaph s i) = qhead i" "\<not> isbadsem i \<Longrightarrow> sqtail (semaph s i) = qhead i + 1"
  using assms by (simp_all add: layout_def)

lemma kq_layout:
  assumes "kq s L X"
  shows "rdyhead s = qhead RDYQ" "rdytail s = qhead RDYQ + 1" "clockq s = qhead CLKQ"
    "\<not> isbadsem i \<Longrightarrow> sqhead (semaph s i) = qhead i" "\<not> isbadsem i \<Longrightarrow> sqtail (semaph s i) = qhead i + 1"
  using layoutD [OF kqD(1) [OF assms]] by simp_all

lemma kq_member:
  assumes "kq s L X" "ispid p" "p \<notin> X" "isqueue n"
  shows "p \<in> set (L n) \<longleftrightarrow> ploc (proctab s p) = Some n"
  using kqD(4) [OF assms(1-3)] assms(4) by (simp add: pmember_def)

lemma kq_mem_ispid: "kq s L X \<Longrightarrow> isqueue n \<Longrightarrow> p \<in> set (L n) \<Longrightarrow> ispid p"
  using qfam_range [OF kqD(2)] by blast

lemma kq_mem_notin: "kq s L X \<Longrightarrow> isqueue n \<Longrightarrow> p \<in> set (L n) \<Longrightarrow> p \<notin> X"
  using kqD(5) by blast

lemma kq_ploc:
  assumes "kq s L X" "isqueue n" "p \<in> set (L n)"
  shows "ploc (proctab s p) = Some n"
  using kq_member [OF assms(1) kq_mem_ispid [OF assms] kq_mem_notin [OF assms] assms(2)] assms(3)
  by simp

lemma ploc_Some:
  "ploc e = Some RDYQ \<Longrightarrow> \<not> isbadsem (psem e) \<or> pstate e \<noteq> PRWAIT \<Longrightarrow> pstate e = PRREADY"
  by (auto simp: ploc_def isbadsem_def RDYQ_def CLKQ_def split: pstate.splits)

lemma kq_waiting:
  assumes "kq s L X" "\<not> isbadsem i" "p \<in> set (L i)"
  shows "pst s p = PRWAIT" "psem (proctab s p) = i"
  using kq_ploc [OF assms(1) _ assms(3)] assms(2)
  by (auto simp: ploc_def isbadsem_def RDYQ_def CLKQ_def split: pstate.splits)

lemma kq_ready:
  assumes "kq s L X" "p \<in> set (L RDYQ)"
  shows "pst s p = PRREADY"
proof -
  have p: "ispid p" "p \<notin> X"
    using kq_mem_ispid [OF assms(1) _ assms(2)] kq_mem_notin [OF assms(1) _ assms(2)] by simp_all
  then show ?thesis
    using kqD(4) [OF assms(1) p] kq_ploc [OF assms(1) _ assms(2)]
    by (auto simp: pmember_def intro!: ploc_Some)
qed

lemma kq_asleep:
  assumes "kq s L X" "p \<in> set (L CLKQ)"
  shows "pst s p \<in> {PRSLEEP, PRTRECV}"
proof -
  have p: "ispid p" "p \<notin> X"
    using kq_mem_ispid [OF assms(1) _ assms(2)] kq_mem_notin [OF assms(1) _ assms(2)] by simp_all
  then have "pst s p = PRWAIT \<Longrightarrow> \<not> isbadsem (psem (proctab s p))"
    using kqD(4) [OF assms(1) p] by (simp add: pmember_def)
  then show ?thesis
    using kq_ploc [OF assms(1) _ assms(2)]
    by (auto simp: ploc_def isbadsem_def RDYQ_def CLKQ_def split: pstate.splits)
qed

lemma kq_sleeping_mem:
  assumes "kq s L X" "ispid p" "p \<notin> X" "pst s p \<in> {PRSLEEP, PRTRECV}"
  shows "p \<in> set (L CLKQ)"
  using kq_member [OF assms(1-3), of CLKQ] assms(4) by (auto simp: ploc_def)

lemma kq_ready_mem:
  assumes "kq s L X" "ispid p" "p \<notin> X" "pst s p = PRREADY"
  shows "p \<in> set (L RDYQ)"
  using kq_member [OF assms(1-3), of RDYQ] assms(4) by (auto simp: ploc_def)

lemma kq_unqueued:
  assumes "kq s L X" "ispid p" "p \<notin> X" "ploc (proctab s p) = None"
  shows "unqueued L p"
  using kq_member [OF assms(1-3)] assms(4) by simp

lemma ispid_NULLPROC [simp]: "ispid NULLPROC"
  by (simp add: NULLPROC_def)

lemma kq_prio_bounds:
  assumes "kq s L X" "ispid p" "pst s p \<noteq> PRFREE"
  shows "0 \<le> prio s p" "prio s p \<le> MAXINT" "MININT < prio s p"
proof -
  have "0 \<le> prio s p \<and> prio s p \<le> MAXINT"
  proof (cases "p = 0")
    case True
    then show ?thesis using kqD(3) [OF assms(1)] by (simp add: kprocs_def NULLPROC_def MAXINT_def)
  next
    case False
    then have "pprio_ok (proctab s p)"
      using kqD(3) [OF assms(1)] assms(2) by (simp add: kprocs_def)
    then show ?thesis using assms(3) by (simp add: pprio_ok_def)
  qed
  then show "0 \<le> prio s p" "prio s p \<le> MAXINT" "MININT < prio s p" by (auto simp: MININT_def)
qed

section \<open>Taking a process off its list and putting it back\<close>

text \<open>The steps every operation is made of.\<close>

lemma kq_take:
  assumes "kq s L X" "isqueue n" "p \<in> set (L n)" "L' = L(n := remove1 p (L n))"
  shows "kq (s\<lparr>qtab := snd (dequeue p (qtab s))\<rparr>) L' (insert p X)"
proof -
  let ?s = "s\<lparr>qtab := snd (dequeue p (qtab s))\<rparr>"
  note D = kqD [OF assms(1)]
  have p: "ispid p" "p \<notin> X"
    using kq_mem_ispid [OF assms(1-3)] kq_mem_notin [OF assms(1-3)] by simp_all
  have other: "p \<notin> set (L m)" if "isqueue m" "m \<noteq> n" for m
    using qfam_disjoint [OF D(2) that(1) assms(2) _ assms(3)] that(2) by auto
  have dist: "distinct (L n)" by (rule qfam_distinct [OF D(2) assms(2)])
  have mem: "x \<in> set (L' m) \<longleftrightarrow> x \<in> set (L m) \<and> x \<noteq> p" if "isqueue m" for x m
    using assms(4) dist other that by auto
  have "layout ?s" using D(1) by (simp add: layout_def)
  moreover have "qfam (qtab ?s) L'" using qfam_dequeue [OF D(2) assms(2,3)] assms(4) by simp
  moreover have "kprocs ?s" using D(3) by (simp add: kprocs_def)
  moreover have "pmember ?s L' x" if "ispid x" "x \<notin> insert p X" for x
    using D(4) [of x] that mem by (simp add: pmember_def)
  moreover have "ispid x \<and> unqueued L' x" if "x \<in> insert p X" for x
    using D(5) [of x] that mem p by auto
  moreover have "qkey (qtab ?s x) = prio ?s x" if "x \<in> set (L' RDYQ)" for x
    using D(6) [of x] that mem by simp
  moreover have "sorted (map (prio ?s) (L' RDYQ))"
    using D(7) assms(4) by (auto intro: sorted_map_remove1)
  ultimately show ?thesis unfolding kq_def by blast
qed

lemma kq_upd:
  assumes "kq s L X" "p \<in> X" "p = NULLPROC \<Longrightarrow> pprio (f (proctab s p)) = 0 \<and>
      pstate (f (proctab s p)) \<in> {PRCURR, PRREADY}"
    and "p \<noteq> NULLPROC \<Longrightarrow> pprio_ok (f (proctab s p))"
    and "pstate (f (proctab s p)) = PRCURR \<Longrightarrow> p = currpid s"
  shows "kq (upd_proc p f s) L X"
proof -
  note D = kqD [OF assms(1)]
  have p: "ispid p" "unqueued L p" using D(5) [OF assms(2)] by simp_all
  have "layout (upd_proc p f s)" using D(1) by (simp add: layout_def)
  moreover have "kprocs (upd_proc p f s)"
    using D(3) assms(3-5) p by (auto simp: kprocs_def NULLPROC_def)
  moreover have "pmember (upd_proc p f s) L x" if "ispid x" "x \<notin> X" for x
    using D(4) [OF that] assms(2) that by (auto simp: pmember_def)
  moreover have neq: "x \<noteq> p" if "x \<in> set (L RDYQ)" for x using p(2) that by auto
  moreover have "sorted (map (prio (upd_proc p f s)) (L RDYQ))"
    using D(7) neq by (simp cong: map_cong)
  moreover have "qkey (qtab s x) = prio (upd_proc p f s) x" if "x \<in> set (L RDYQ)" for x
    using D(6) [OF that] neq [OF that] by simp
  ultimately show ?thesis
    using D(2,5) unfolding kq_def by (intro conjI) simp_all
qed

lemma kq_capture:
  assumes "kq s L X" "ispid p" "p \<notin> X" "ploc (proctab s p) = None"
  shows "kq s L (insert p X)"
  using kqD [OF assms(1)] kq_unqueued [OF assms] assms(2) unfolding kq_def by auto

lemma kq_release:
  assumes "kq s L X" "p \<in> X" "ploc (proctab s p) = None"
  shows "kq s L (X - {p})"
proof -
  have "pmember s L p" using kqD(5) [OF assms(1,2)] assms(3) by (auto simp: pmember_def ploc_def)
  then show ?thesis
    using kqD [OF assms(1)] unfolding kq_def by auto
qed

lemma kq_put_ready:
  assumes "kq s L X" "p \<in> X" "pst s p = PRREADY"
  obtains q' where "insert_q p (rdyhead s) (prio s p) (qtab s) = Some (OK, q')"
    "kq (s\<lparr>qtab := q'\<rparr>) (L(RDYQ := key_insert (prio s) (prio s p) p (L RDYQ))) (X - {p})"
    "\<And>i. i \<noteq> p \<Longrightarrow> qkey (q' i) = qkey (qtab s i)"
proof -
  note D = kqD [OF assms(1)]
  let ?R = "key_insert (prio s) (prio s p) p (L RDYQ)"
  have p: "ispid p" "unqueued L p" using D(5) [OF assms(2)] by simp_all
  have mx: "prio s p \<le> MAXINT" using kq_prio_bounds(2) [OF assms(1) p(1)] assms(3) by simp
  obtain q' where q': "insert_q p (qhead RDYQ) (prio s p) (qtab s) = Some (OK, q')"
    "qfam q' (L(RDYQ := key_insert (\<lambda>x. qkey (qtab s x)) (prio s p) p (L RDYQ)))"
    "\<And>i. qkey (q' i) = (if i = p then prio s p else qkey (qtab s i))"
    by (rule qfam_insert [OF D(2), of RDYQ p "prio s p"]) (use p mx in simp_all)
  have keys: "key_insert (\<lambda>x. qkey (qtab s x)) (prio s p) p (L RDYQ) = ?R"
    by (rule key_insert_cong) (rule D(6))
  let ?L = "L(RDYQ := ?R)"
  have mem: "x \<in> set (?L n) \<longleftrightarrow> x \<in> set (L n) \<or> x = p \<and> n = RDYQ" for x n by auto
  have "layout (s\<lparr>qtab := q'\<rparr>)" using D(1) by (simp add: layout_def)
  moreover have "kprocs (s\<lparr>qtab := q'\<rparr>)" using D(3) by (simp add: kprocs_def)
  moreover have "pmember (s\<lparr>qtab := q'\<rparr>) ?L x" if "ispid x" "x \<notin> X - {p}" for x
  proof (cases "x = p")
    case True
    then show ?thesis using p(2) assms(3) by (auto simp: pmember_def ploc_def)
  next
    case False
    then show ?thesis using D(4) [of x] that by (simp add: pmember_def mem del: fun_upd_apply)
  qed
  moreover have "ispid x \<and> unqueued ?L x" if "x \<in> X - {p}" for x
    using D(5) [of x] that by auto
  moreover have "qkey (q' x) = prio s x" if "x \<in> set (?L RDYQ)" for x
    using that q'(3) D(6) [of x] by auto
  moreover have "sorted (map (prio s) (?L RDYQ))"
    using sorted_key_insert [OF D(7), of p "prio s p"] by simp
  ultimately have "kq (s\<lparr>qtab := q'\<rparr>) ?L (X - {p})"
    using q'(2) unfolding kq_def keys by simp
  then show thesis
    by (rule that [rotated]) (use q'(1,3) layoutD(1) [OF D(1)] in simp_all)
qed

text \<open>Putting a process on another list than the ready list, and taking it off.\<close>

lemma kq_put:
  assumes "kq s L X" "p \<in> X" "qfam q' (L(n := ys))" "isqueue n" "n \<noteq> RDYQ"
    and "set ys = insert p (set (L n))" "ploc (proctab s p) = Some n"
    and "\<And>i. i \<in> set (L RDYQ) \<Longrightarrow> qkey (q' i) = qkey (qtab s i)"
    and "pst s p = PRWAIT \<Longrightarrow> \<not> isbadsem n"
  shows "kq (s\<lparr>qtab := q'\<rparr>) (L(n := ys)) (X - {p})"
proof -
  note D = kqD [OF assms(1)]
  have p: "ispid p" "unqueued L p" using D(5) [OF assms(2)] by simp_all
  have mem: "x \<in> set ((L(n := ys)) m) \<longleftrightarrow> x \<in> set (L m) \<or> x = p \<and> m = n" for x m
    using assms(6) by auto
  have "layout (s\<lparr>qtab := q'\<rparr>)" "kprocs (s\<lparr>qtab := q'\<rparr>)"
    using D(1,3) by (simp_all add: layout_def kprocs_def)
  moreover have "pmember (s\<lparr>qtab := q'\<rparr>) (L(n := ys)) x" if "ispid x" "x \<notin> X - {p}" for x
  proof (cases "x = p")
    case True
    have "pst s p = PRWAIT \<Longrightarrow> \<not> isbadsem (psem (proctab s p))"
      using assms(7,9) by (simp add: ploc_def)
    then show ?thesis using True p(2) assms(7) by (auto simp: pmember_def mem simp del: fun_upd_apply)
  next
    case False
    then show ?thesis using D(4) [of x] that by (simp add: pmember_def mem del: fun_upd_apply)
  qed
  moreover have "ispid x \<and> unqueued (L(n := ys)) x" if "x \<in> X - {p}" for x
    using D(5) [of x] that by (simp add: mem del: fun_upd_apply)
  moreover have "qkey (q' x) = prio s x" if "x \<in> set ((L(n := ys)) RDYQ)" for x
    using that assms(5,8) D(6) [of x] by simp
  ultimately show ?thesis
    using assms(3,5) D(7) unfolding kq_def by simp
qed

lemma kq_remove:
  assumes "kq s L X" "qfam q' (L(n := ys))" "isqueue n" "n \<noteq> RDYQ" "p \<in> set (L n)"
    and "set ys = set (L n) - {p}" "\<And>i. i \<in> set (L RDYQ) \<Longrightarrow> qkey (q' i) = qkey (qtab s i)"
  shows "kq (s\<lparr>qtab := q'\<rparr>) (L(n := ys)) (insert p X)"
proof -
  note D = kqD [OF assms(1)]
  have p: "ispid p" "p \<notin> X"
    using kq_mem_ispid [OF assms(1,3,5)] kq_mem_notin [OF assms(1,3,5)] by simp_all
  have other: "p \<notin> set (L m)" if "isqueue m" "m \<noteq> n" for m
    using qfam_disjoint [OF D(2) that(1) assms(3) _ assms(5)] that(2) by auto
  have mem: "x \<in> set ((L(n := ys)) m) \<longleftrightarrow> x \<in> set (L m) \<and> x \<noteq> p" if "isqueue m" for x m
    using assms(6) other [OF that] by auto
  have "layout (s\<lparr>qtab := q'\<rparr>)" "kprocs (s\<lparr>qtab := q'\<rparr>)"
    using D(1,3) by (simp_all add: layout_def kprocs_def)
  moreover have "pmember (s\<lparr>qtab := q'\<rparr>) (L(n := ys)) x" if "ispid x" "x \<notin> insert p X" for x
    using D(4) [of x] that by (simp add: pmember_def mem del: fun_upd_apply)
  moreover have "ispid x \<and> unqueued (L(n := ys)) x" if "x \<in> insert p X" for x
    using D(5) [of x] that p by (auto simp: mem simp del: fun_upd_apply)
  moreover have "qkey (q' x) = prio s x" if "x \<in> set ((L(n := ys)) RDYQ)" for x
    using that assms(4,7) D(6) [of x] by simp
  ultimately show ?thesis
    using assms(2,4) D(7) unfolding kq_def by simp
qed

section \<open>Steps that leave the semaphores and the sleepers alone\<close>

definition kframe :: "kstate \<Rightarrow> (int \<Rightarrow> int list) \<Rightarrow> kstate \<Rightarrow> (int \<Rightarrow> int list) \<Rightarrow> bool" where
  "kframe s L s' L' \<longleftrightarrow>
     s' = s\<lparr>proctab := proctab s', qtab := qtab s', preempt := preempt s', currpid := currpid s'\<rparr> \<and>
     (\<forall>n. isqueue n \<longrightarrow> n \<noteq> RDYQ \<longrightarrow> L' n = L n) \<and>
     (\<forall>p \<in> set (L CLKQ). qkey (qtab s' p) = qkey (qtab s p)) \<and>
     (\<forall>p. proctab s' p = (proctab s p)\<lparr>pstate := pst s' p\<rparr> \<and>
        (pst s' p = PRFREE \<longleftrightarrow> pst s p = PRFREE))"

lemma kframe_fields:
  assumes "kframe s L s' L'"
  shows "semaph s' = semaph s" "slnempty s' = slnempty s" "sltop s' = sltop s" "mem s' = mem s"
    "clkruns s' = clkruns s" "numproc s' = numproc s" "nextproc s' = nextproc s"
    "nextsem s' = nextsem s" "defclk s' = defclk s" "clkdiff s' = clkdiff s"
    "nextqueue s' = nextqueue s" "rdyhead s' = rdyhead s" "rdytail s' = rdytail s"
    "clockq s' = clockq s" "clktime s' = clktime s" "ctr100 s' = ctr100 s"
    "prescaler s' = prescaler s" "rtcScaler s' = rtcScaler s" "xcalls s' = xcalls s" "files s' = files s"
proof -
  have e: "s' = s\<lparr>proctab := proctab s', qtab := qtab s', preempt := preempt s', currpid := currpid s'\<rparr>"
    using assms by (simp add: kframe_def)
  show "semaph s' = semaph s" "slnempty s' = slnempty s" "sltop s' = sltop s" "mem s' = mem s"
    "clkruns s' = clkruns s" "numproc s' = numproc s" "nextproc s' = nextproc s"
    "nextsem s' = nextsem s" "defclk s' = defclk s" "clkdiff s' = clkdiff s"
    "nextqueue s' = nextqueue s" "rdyhead s' = rdyhead s" "rdytail s' = rdytail s"
    "clockq s' = clockq s" "clktime s' = clktime s" "ctr100 s' = ctr100 s"
    "prescaler s' = prescaler s" "rtcScaler s' = rtcScaler s" "xcalls s' = xcalls s" "files s' = files s"
    by (subst e, simp)+
qed

lemma kframeD:
  assumes "kframe s L s' L'"
  shows "isqueue n \<Longrightarrow> n \<noteq> RDYQ \<Longrightarrow> L' n = L n" "L' CLKQ = L CLKQ"
    "p \<in> set (L CLKQ) \<Longrightarrow> qkey (qtab s' p) = qkey (qtab s p)"
    "proctab s' p = (proctab s p)\<lparr>pstate := pst s' p\<rparr>" "prio s' p = prio s p"
    "pst s' p = PRFREE \<longleftrightarrow> pst s p = PRFREE"
proof -
  have e: "proctab s' p = (proctab s p)\<lparr>pstate := pst s' p\<rparr>"
    and f: "pst s' p = PRFREE \<longleftrightarrow> pst s p = PRFREE"
    using assms unfolding kframe_def by blast+
  show "isqueue n \<Longrightarrow> n \<noteq> RDYQ \<Longrightarrow> L' n = L n" "L' CLKQ = L CLKQ"
    "p \<in> set (L CLKQ) \<Longrightarrow> qkey (qtab s' p) = qkey (qtab s p)"
    using assms by (simp_all add: kframe_def)
  show "proctab s' p = (proctab s p)\<lparr>pstate := pst s' p\<rparr>" by (rule e)
  show "pst s' p = PRFREE \<longleftrightarrow> pst s p = PRFREE" by (rule f)
  show "prio s' p = prio s p" by (subst e) simp
qed

lemmas kframe_simps = kframe_fields kframeD(2,5)

lemma kframe_trans:
  assumes "kframe s L s1 L1" "kframe s1 L1 s2 L2"
  shows "kframe s L s2 L2"
proof -
  have "s2 = s\<lparr>proctab := proctab s2, qtab := qtab s2, preempt := preempt s2, currpid := currpid s2\<rparr>"
    by (rule kstate.equality) (simp_all add: kframe_fields [OF assms(1)] kframe_fields [OF assms(2)])
  moreover have "proctab s2 p = (proctab s p)\<lparr>pstate := pst s2 p\<rparr>" for p
    by (subst kframeD(4) [OF assms(2)], subst kframeD(4) [OF assms(1)]) simp
  ultimately show ?thesis
    using kframeD(1-3) [OF assms(1)] kframeD(1-3) [OF assms(2)] kframeD(6) [OF assms(1)] kframeD(6) [OF assms(2)]
    unfolding kframe_def by auto
qed

lemma kframe_refl: "kframe s L s L"
  by (simp add: kframe_def)

lemma kframe_ksem: "kframe s L s' L' \<Longrightarrow> ksem s L \<Longrightarrow> ksem s' L'"
  unfolding ksem_def by (simp add: kframe_fields kframeD cong: sstate.case_cong)

lemma kframe_kclk:
  assumes "kframe s L s' L'" "kclk s L"
  shows "kclk s' L'"
proof -
  have "sum_list (map (\<lambda>p. qkey (qtab s' p)) (L CLKQ)) =
    sum_list (map (\<lambda>p. qkey (qtab s p)) (L CLKQ))"
    by (rule arg_cong [of _ _ sum_list], rule map_cong [OF refl]) (rule kframeD(3) [OF assms(1)])
  then have "sum_list (map (\<lambda>p. qkey (qtab s' p)) (L CLKQ)) \<le> MAXINT"
    using assms(2) by (simp add: kclk_def)
  then show ?thesis
    using assms(2) kframeD(3) [OF assms(1)] unfolding kclk_def
    by (simp add: kframe_simps [OF assms(1)])
qed

section \<open>What a process owns\<close>

text \<open>
  The calls that neither create nor end a process leave memory, streams and stacks to their
  owners, and no process table entry becomes free or taken.
\<close>

definition kown :: "kstate \<Rightarrow> kstate \<Rightarrow> bool" where
  "kown s s' \<longleftrightarrow> mem s' = mem s \<and> files s' = files s \<and> numproc s' = numproc s \<and> xcalls s' = xcalls s \<and>
     (\<forall>p. pbase (proctab s' p) = pbase (proctab s p) \<and> pstklen (proctab s' p) = pstklen (proctab s p) \<and>
        fildes (proctab s' p) = fildes (proctab s p) \<and> (pst s' p = PRFREE \<longleftrightarrow> pst s p = PRFREE))"

lemma kown_refl [simp]: "kown s s"
  by (simp add: kown_def)

lemma kown_trans: "kown s s1 \<Longrightarrow> kown s1 s2 \<Longrightarrow> kown s s2"
  by (simp add: kown_def)

lemma kown_other [simp]:
  "kown s (s'\<lparr>qtab := q\<rparr>) = kown s s'" "kown s (s'\<lparr>preempt := v\<rparr>) = kown s s'"
  "kown s (s'\<lparr>slnempty := b\<rparr>) = kown s s'" "kown s (s'\<lparr>sltop := v\<rparr>) = kown s s'"
  "kown s (s'\<lparr>defclk := v\<rparr>) = kown s s'" "kown s (s'\<lparr>clkdiff := v\<rparr>) = kown s s'"
  "kown s (s'\<lparr>clktime := v\<rparr>) = kown s s'" "kown s (s'\<lparr>ctr100 := v\<rparr>) = kown s s'"
  "kown s (s'\<lparr>prescaler := v\<rparr>) = kown s s'" "kown s (s'\<lparr>rtcScaler := v\<rparr>) = kown s s'"
  "kown s (s'\<lparr>nextsem := v\<rparr>) = kown s s'" "kown s (upd_sem i g s') = kown s s'"
  by (simp_all add: kown_def upd_sem_def)

lemma kown_upd_proc:
  assumes "\<And>e. pbase (f e) = pbase e" "\<And>e. pstklen (f e) = pstklen e" "\<And>e. fildes (f e) = fildes e"
    and "pstate (f (proctab s p)) = PRFREE \<longleftrightarrow> pst s p = PRFREE"
  shows "kown s (upd_proc p f s)"
  using assms by (simp add: kown_def upd_proc_def)

lemma kframe_kown:
  assumes "kframe s L s' L'"
  shows "kown s s'"
proof -
  have "pbase (proctab s' p) = pbase (proctab s p)" "pstklen (proctab s' p) = pstklen (proctab s p)"
    "fildes (proctab s' p) = fildes (proctab s p)" for p
    by (subst kframeD(4) [OF assms], simp)+
  then show ?thesis
    using kframe_fields [OF assms] kframeD(6) [OF assms] by (simp add: kown_def)
qed

end
