(* ===== verification/Sched.thy ===== *)
theory Sched
  imports KState
begin

text \<open>
  The scheduler: \<open>resched.c\<close>, \<open>ready.c\<close>, and the calls that only move processes
  between the states current, ready and suspended or read the process table
  (\<open>resume.c\<close>, \<open>suspend.c\<close>, \<open>chprio.c\<close>, \<open>getprio.c\<close>, \<open>getpid.c\<close>, \<open>setnok.c\<close>,
  \<open>setdev.c\<close>). \<open>dispatch\<close> is the scheduling policy on the list of ready processes;
  \<open>resched\<close> is shown to implement it. A call returns the value its caller sees and the
  state at its return; where the caller loses the processor (\<open>ctxsw\<close>) it is the state at
  the switch.
\<close>

section \<open>Definitions\<close>

definition set_pstate :: "int \<Rightarrow> pstate \<Rightarrow> kstate \<Rightarrow> kstate" where
  "set_pstate p st s = upd_proc p (pstate_update (\<lambda>_. st)) s"

definition resched :: "kstate \<Rightarrow> (int \<times> kstate) option" where
  "resched s =
     (let s = s\<lparr>preempt := QUANTUM\<rparr>;
          old = currpid s
      in if pst s old = PRCURR \<and> lastkey (qtab s) (rdytail s) < prio s old then Some (OK, s)
         else do {
           s1 \<leftarrow> (if pst s old = PRCURR
                 then do {
                   (_, q1) \<leftarrow> insert_q old (rdyhead s) (prio s old) (qtab s);
                   Some ((set_pstate old PRREADY s)\<lparr>qtab := q1\<rparr>)
                 }
                 else Some s);
           let (newpid, q2) = getlast (rdytail s1) (qtab s1);
               s2 = s1\<lparr>qtab := q2\<rparr>
           in if newpid = EMPTY then Some (EMPTY, s2)
              else Some (OK, set_pstate newpid PRCURR (s2\<lparr>currpid := newpid\<rparr>))
         })"

definition ready :: "int \<Rightarrow> bool \<Rightarrow> kstate \<Rightarrow> (int \<times> kstate) option" where
  "ready pid resch s =
     (if isbadpid pid then Some (SYSERR, s)
      else do {
        let s = set_pstate pid PRREADY s;
        (_, q1) \<leftarrow> insert_q pid (rdyhead s) (prio s pid) (qtab s);
        let s = s\<lparr>qtab := q1\<rparr>;
        (_, s) \<leftarrow> (if resch then resched s else Some (OK, s));
        Some (OK, s)
      })"

definition resume :: "int \<Rightarrow> kstate \<Rightarrow> (int \<times> kstate) option" where
  "resume pid s =
     (if isbadpid pid \<or> pst s pid \<noteq> PRSUSP then Some (SYSERR, s)
      else do {
        let prio = prio s pid;
        (_, s) \<leftarrow> ready pid True s;
        Some (prio, s)
      })"

definition chprio :: "int \<Rightarrow> int \<Rightarrow> kstate \<Rightarrow> (int \<times> kstate) option" where
  "chprio pid newprio s =
     (if isbadpid pid \<or> newprio \<le> 0 \<or> pst s pid = PRFREE then Some (SYSERR, s)
      else do {
        let oldprio = prio s pid;
        let s = upd_proc pid (pprio_update (\<lambda>_. newprio)) s;
        (_, s) \<leftarrow> (case pst s pid of
            PRREADY \<Rightarrow> do {
              let (item, q1) = dequeue pid (qtab s);
              (_, q2) \<leftarrow> insert_q item (rdyhead s) newprio q1;
              resched (s\<lparr>qtab := q2\<rparr>)
            }
          | PRCURR \<Rightarrow> resched s
          | _ \<Rightarrow> Some (OK, s));
        Some (oldprio, s)
      })"

definition getprio :: "int \<Rightarrow> kstate \<Rightarrow> int" where
  "getprio pid s = (if isbadpid pid \<or> pst s pid = PRFREE then SYSERR else prio s pid)"

definition getpid :: "kstate \<Rightarrow> int" where
  "getpid s = currpid s"

definition setnok :: "int \<Rightarrow> int \<Rightarrow> kstate \<Rightarrow> int \<times> kstate" where
  "setnok nok pid s =
     (if isbadpid pid then (SYSERR, s) else (OK, upd_proc pid (pnxtkin_update (\<lambda>_. nok)) s))"

definition setdev :: "int \<Rightarrow> int \<Rightarrow> int \<Rightarrow> kstate \<Rightarrow> int \<times> kstate" where
  "setdev pid dev1 dev2 s =
     (if isbadpid pid then (SYSERR, s)
      else (OK, upd_proc pid (pdevs0_update (\<lambda>_. dev1) \<circ> pdevs1_update (\<lambda>_. dev2)) s))"

text \<open>\<open>suspend\<close> reads the priority it returns after the process runs again: \<open>suspend_ret\<close>
  is what is left to do then.\<close>

definition suspend :: "int \<Rightarrow> kstate \<Rightarrow> (kont \<times> kstate) option" where
  "suspend pid s =
     (if isbadpid pid \<or> pid = NULLPROC \<or> pst s pid \<noteq> PRCURR \<and> pst s pid \<noteq> PRREADY
      then Some (KRet SYSERR, s)
      else if pst s pid = PRREADY
      then let s1 = set_pstate pid PRSUSP s;
               s2 = s1\<lparr>qtab := snd (dequeue pid (qtab s1))\<rparr>
           in Some (KRet (prio s2 pid), s2)
      else do {
        (_, s1) \<leftarrow> resched (set_pstate pid PRSUSP s);
        Some (KSuspend pid, s1)
      })"

definition suspend_ret :: "int \<Rightarrow> kstate \<Rightarrow> int" where
  "suspend_ret pid s = prio s pid"

text \<open>The policy: the process \<open>c\<close> with the processor, whether it may keep it, the ready list.\<close>

definition dispatch :: "(int \<Rightarrow> int) \<Rightarrow> int \<Rightarrow> bool \<Rightarrow> int list \<Rightarrow> int \<times> int list" where
  "dispatch pr c elig R =
     (if elig \<and> (\<forall>p \<in> set R. pr p < pr c) then (c, R)
      else let R' = (if elig then key_insert pr (pr c) c R else R) in (last R', butlast R'))"

section \<open>The policy\<close>

lemma sorted_le_last: "sorted (map f xs) \<Longrightarrow> x \<in> set xs \<Longrightarrow> f x \<le> f (last xs)"
  by (induction xs) (auto split: if_splits intro: last_in_set)

lemma last_key_less_iff:
  "sorted (map f xs) \<Longrightarrow> xs \<noteq> [] \<Longrightarrow> f (last xs) < k \<longleftrightarrow> (\<forall>x \<in> set xs. f x < k)"
  using sorted_le_last [of f xs] last_in_set [of xs] by fastforce

lemma dispatch_blocked [simp]: "dispatch pr c False R = (last R, butlast R)"
  by (simp add: dispatch_def Let_def)

lemma dispatch_set:
  assumes "elig \<or> R \<noteq> []"
  shows "insert (fst (dispatch pr c elig R)) (set (snd (dispatch pr c elig R))) =
    set R \<union> (if elig then {c} else {})"
proof -
  have split: "insert (last xs) (set (butlast xs)) = set xs" if "xs \<noteq> []" for xs :: "int list"
    using that by (metis append_butlast_last_id insert_is_Un list.set(1) list.set(2) set_append sup_commute)
  show ?thesis using assms split by (auto simp: dispatch_def Let_def)
qed

lemma dispatch_sorted:
  "sorted (map pr R) \<Longrightarrow> sorted (map pr (snd (dispatch pr c elig R)))"
  by (auto simp: dispatch_def Let_def map_butlast intro!: sorted_butlast sorted_key_insert)

lemma dispatch_highest:
  assumes "sorted (map pr R)" "elig \<or> R \<noteq> []" "p \<in> set R \<or> elig \<and> p = c"
  shows "pr p \<le> pr (fst (dispatch pr c elig R))"
proof (cases "elig \<and> (\<forall>p \<in> set R. pr p < pr c)")
  case True
  then show ?thesis using assms(3) by (auto simp: dispatch_def)
next
  case False
  let ?R = "if elig then key_insert pr (pr c) c R else R"
  have "sorted (map pr ?R)" using assms(1) by (simp add: sorted_key_insert)
  moreover have "p \<in> set ?R" using assms(3) by auto
  ultimately have "pr p \<le> pr (last ?R)" by (rule sorted_le_last)
  moreover have "fst (dispatch pr c elig R) = last ?R"
    using False by (auto simp: dispatch_def Let_def)
  ultimately show ?thesis by simp
qed

text \<open>Among the processes of the highest priority the processor goes around.\<close>

lemma dispatch_group:
  assumes "\<And>p. p \<in> set low \<Longrightarrow> pr p < pr c" "\<And>p. p \<in> set hi \<Longrightarrow> pr p = pr c"
  shows "dispatch pr c True (low @ hi) =
    (if hi = [] then (c, low) else (last hi, low @ c # butlast hi))"
proof (cases hi)
  case Nil
  then show ?thesis using assms(1) by (simp add: dispatch_def)
next
  case (Cons x xs)
  then have "pr x = pr c" using assms(2) by simp
  then have "key_insert pr (pr c) c (low @ hi) = low @ c # hi"
    using assms(1) Cons by (simp add: key_insert_def takeWhile_append dropWhile_append)
  moreover have "\<not> (\<forall>p \<in> set (low @ hi). pr p < pr c)" using Cons \<open>pr x = pr c\<close> by simp
  ultimately show ?thesis using Cons by (auto simp: dispatch_def Let_def butlast_append)
qed

section \<open>The state around resched\<close>

lemma kq_irrelevant [simp]:
  "kq (s\<lparr>preempt := v\<rparr>) L X = kq s L X" "kq (s\<lparr>slnempty := b\<rparr>) L X = kq s L X"
  "kq (s\<lparr>sltop := v\<rparr>) L X = kq s L X" "kq (s\<lparr>mem := m\<rparr>) L X = kq s L X"
  "kq (s\<lparr>numproc := v\<rparr>) L X = kq s L X"
  "kq (s\<lparr>nextsem := v\<rparr>) L X = kq s L X" "kq (s\<lparr>defclk := v\<rparr>) L X = kq s L X"
  "kq (s\<lparr>clkdiff := v\<rparr>) L X = kq s L X" "kq (s\<lparr>clktime := v\<rparr>) L X = kq s L X"
  "kq (s\<lparr>ctr100 := v\<rparr>) L X = kq s L X" "kq (s\<lparr>prescaler := v\<rparr>) L X = kq s L X"
  "kq (s\<lparr>rtcScaler := v\<rparr>) L X = kq s L X" "kq (s\<lparr>xcalls := xs\<rparr>) L X = kq s L X"
  "kq (s\<lparr>files := fs\<rparr>) L X = kq s L X"
  by (simp_all add: kq_def layout_def kprocs_def pmember_def)

lemma set_pstate_simps [simp]:
  "proctab (set_pstate p st s) = (proctab s)(p := (proctab s p)\<lparr>pstate := st\<rparr>)"
  "semaph (set_pstate p st s) = semaph s" "qtab (set_pstate p st s) = qtab s"
  "currpid (set_pstate p st s) = currpid s" "rdyhead (set_pstate p st s) = rdyhead s"
  "rdytail (set_pstate p st s) = rdytail s" "clockq (set_pstate p st s) = clockq s"
  "slnempty (set_pstate p st s) = slnempty s" "sltop (set_pstate p st s) = sltop s"
  "clkruns (set_pstate p st s) = clkruns s" "mem (set_pstate p st s) = mem s"
  "preempt (set_pstate p st s) = preempt s" "numproc (set_pstate p st s) = numproc s"
  "prescaler (set_pstate p st s) = prescaler s" "rtcScaler (set_pstate p st s) = rtcScaler s"
  "nextsem (set_pstate p st s) = nextsem s" "nextproc (set_pstate p st s) = nextproc s"
  by (simp_all add: set_pstate_def)

lemma kq_set_pstate:
  assumes "kq s L X" "p \<in> X" "p = NULLPROC \<Longrightarrow> st \<in> {PRCURR, PRREADY}"
    "pst s p \<noteq> PRFREE \<or> st = PRFREE" "st = PRCURR \<Longrightarrow> p = currpid s"
  shows "kq (set_pstate p st s) L X"
  unfolding set_pstate_def
proof (rule kq_upd [OF assms(1,2)])
  have "kprocs s" "ispid p" using kqD(3) [OF assms(1)] kqD(5) [OF assms(1,2)] by simp_all
  then show "p \<noteq> NULLPROC \<Longrightarrow> pprio_ok ((proctab s p)\<lparr>pstate := st\<rparr>)"
    using assms(4) by (auto simp: kprocs_def pprio_ok_def NULLPROC_def)
  show "p = NULLPROC \<Longrightarrow> pprio ((proctab s p)\<lparr>pstate := st\<rparr>) = 0 \<and>
      pstate ((proctab s p)\<lparr>pstate := st\<rparr>) \<in> {PRCURR, PRREADY}"
    using assms(3) \<open>kprocs s\<close> by (simp add: kprocs_def)
qed (use assms(5) in simp)

lemma kq_no_current:
  assumes "kq s L X" "pst s (currpid s) \<noteq> PRCURR" "ispid p"
  shows "pst s p \<noteq> PRCURR"
  using kqD(3) [OF assms(1)] assms(2,3) by (auto simp: kprocs_def)

lemma kq_currpid:
  assumes "kq s L X" "pst s (currpid s) \<noteq> PRCURR" "ispid p"
  shows "kq (s\<lparr>currpid := p\<rparr>) L X"
proof -
  have "kprocs (s\<lparr>currpid := p\<rparr>)"
    using kqD(3) [OF assms(1)] kq_no_current [OF assms(1,2)] assms(3) by (auto simp: kprocs_def)
  then show ?thesis
    using assms(1) by (simp add: kq_def layout_def pmember_def)
qed

lemma kq_switch:
  assumes "kq s L {p}" "pst s (currpid s) \<noteq> PRCURR" "pst s p = PRREADY"
  shows "kq (set_pstate p PRCURR (s\<lparr>currpid := p\<rparr>)) L {}"
proof -
  have "ispid p" using kqD(5) [OF assms(1)] by simp
  then have "kq (set_pstate p PRCURR (s\<lparr>currpid := p\<rparr>)) L {p}"
    using assms(3) by (intro kq_set_pstate kq_currpid [OF assms(1,2)]) simp_all
  then have "kq (set_pstate p PRCURR (s\<lparr>currpid := p\<rparr>)) L ({p} - {p})"
    by (rule kq_release) (simp_all add: ploc_def)
  then show ?thesis by simp
qed

lemma kq_lastkey:
  assumes "kq s L X"
  shows "lastkey (qtab s) (rdytail s) =
    (if L RDYQ = [] then MININT else prio s (last (L RDYQ)))"
  using qrep_last [OF qfam_qrep [OF kqD(2) [OF assms]], of RDYQ]
    qrepD(6) [OF qfam_qrep [OF kqD(2) [OF assms]], of RDYQ] kqD(6) [OF assms] kq_layout(2) [OF assms]
  by (simp add: lastkey_def)

lemma kq_null_ready:
  assumes "kq s L {}" "pst s (currpid s) \<noteq> PRCURR"
  shows "NULLPROC \<in> set (L RDYQ)"
  using kq_ready_mem [OF assms(1), of NULLPROC] kq_no_current [OF assms, of NULLPROC]
    kqD(3) [OF assms(1)] by (auto simp: kprocs_def)

lemma kq_keep_condition:
  assumes "kq s L X" "pst s (currpid s) = PRCURR"
  shows "lastkey (qtab s) (rdytail s) < prio s (currpid s) \<longleftrightarrow>
    (\<forall>p \<in> set (L RDYQ). prio s p < prio s (currpid s))"
proof -
  have "ispid (currpid s)" using kqD(3) [OF assms(1)] by (simp add: kprocs_def)
  then have "MININT < prio s (currpid s)" using kq_prio_bounds(3) [OF assms(1)] assms(2) by simp
  then show ?thesis
    using last_key_less_iff [OF kqD(7) [OF assms(1)]] kq_lastkey [OF assms(1)] by simp
qed

text \<open>A ready process is put on the ready list.\<close>

lemma kq_enter_ready:
  assumes "kq s L X" "p \<in> X" "pst s p \<noteq> PRFREE"
  obtains q' where "insert_q p (rdyhead s) (prio s p) (qtab s) = Some (OK, q')"
    "kq ((set_pstate p PRREADY s)\<lparr>qtab := q'\<rparr>)
       (L(RDYQ := key_insert (prio s) (prio s p) p (L RDYQ))) (X - {p})"
    "\<And>i. i \<noteq> p \<Longrightarrow> qkey (q' i) = qkey (qtab s i)"
proof -
  have k: "kq (set_pstate p PRREADY s) L X"
    by (rule kq_set_pstate [OF assms(1,2)]) (use assms(3) in simp_all)
  obtain q' where q': "insert_q p (rdyhead s) (prio s p) (qtab s) = Some (OK, q')"
    "kq ((set_pstate p PRREADY s)\<lparr>qtab := q'\<rparr>)
       (L(RDYQ := key_insert (prio (set_pstate p PRREADY s)) (prio s p) p (L RDYQ))) (X - {p})"
    "\<And>i. i \<noteq> p \<Longrightarrow> qkey (q' i) = qkey (qtab s i)"
    by (rule kq_put_ready [OF k assms(2)]) simp_all
  have "prio (set_pstate p PRREADY s) x = prio s x" for x by simp
  then show thesis
    using that [OF q'(1) _ q'(3)] q'(2) by simp
qed

text \<open>The other half of a switch: the last process of the ready list gets the processor.\<close>

definition take_last :: "kstate \<Rightarrow> kstate" where
  "take_last s =
     (let (newpid, q2) = getlast (rdytail s) (qtab s)
      in set_pstate newpid PRCURR (s\<lparr>qtab := q2, currpid := newpid\<rparr>))"

lemma kq_take_last:
  assumes "kq s L {}" "pst s (currpid s) \<noteq> PRCURR"
  shows "fst (getlast (rdytail s) (qtab s)) = last (L RDYQ)" "last (L RDYQ) \<noteq> EMPTY"
    "kq (take_last s) (L(RDYQ := butlast (L RDYQ))) {}"
    "currpid (take_last s) = last (L RDYQ)" "preempt (take_last s) = preempt s"
    "kframe s L (take_last s) (L(RDYQ := butlast (L RDYQ)))"
    "pst (take_last s) p = (if p = last (L RDYQ) then PRCURR else pst s p)"
proof -
  let ?p = "last (L RDYQ)" and ?L = "L(RDYQ := butlast (L RDYQ))"
  let ?q = "snd (dequeue ?p (qtab s))"
  have ne: "L RDYQ \<noteq> []" using kq_null_ready [OF assms] by auto
  then have R: "L RDYQ = butlast (L RDYQ) @ [?p]" and mem: "?p \<in> set (L RDYQ)" by simp_all
  have gl: "getlast (rdytail s) (qtab s) = (?p, ?q)"
    using qfam_getlast(2) [OF kqD(2) [OF assms(1)] _ R] kq_layout(2) [OF assms(1)] by simp
  then show "fst (getlast (rdytail s) (qtab s)) = ?p" by simp
  have pid: "ispid ?p" by (rule kq_mem_ispid [OF assms(1) _ mem]) simp
  then show "?p \<noteq> EMPTY" by (auto simp: EMPTY_def)
  have tl: "take_last s = set_pstate ?p PRCURR ((s\<lparr>qtab := ?q\<rparr>)\<lparr>currpid := ?p\<rparr>)"
    using gl by (simp add: take_last_def)
  have "distinct (butlast (L RDYQ) @ [?p])"
    unfolding R [symmetric] by (rule qfam_distinct [OF kqD(2) [OF assms(1)]]) simp
  then have "remove1 ?p (butlast (L RDYQ) @ [?p]) = butlast (L RDYQ)"
    by (simp add: remove1_append)
  then have "remove1 ?p (L RDYQ) = butlast (L RDYQ)" using R by metis
  then have L: "?L = L(RDYQ := remove1 ?p (L RDYQ))" by simp
  have "kq (s\<lparr>qtab := ?q\<rparr>) ?L {?p}"
    by (rule kq_take [OF assms(1) _ mem L]) simp
  then show "kq (take_last s) ?L {}"
    unfolding tl by (rule kq_switch) (use assms(2) kq_ready [OF assms(1) mem] in simp_all)
  show "currpid (take_last s) = ?p" "preempt (take_last s) = preempt s"
    "pst (take_last s) p = (if p = ?p then PRCURR else pst s p)"
    unfolding tl by (simp_all)
  show "kframe s L (take_last s) ?L"
    using kq_ready [OF assms(1) mem]
    unfolding tl kframe_def set_pstate_def upd_proc_def by (simp add: dequeue_def queue_upd)
qed

section \<open>resched implements the policy\<close>

lemma resched_keep:
  assumes "kq s L X" "pst s (currpid s) = PRCURR" "\<forall>p \<in> set (L RDYQ). prio s p < prio s (currpid s)"
  shows "resched s = Some (OK, s\<lparr>preempt := QUANTUM\<rparr>)"
  using assms(2) kq_keep_condition [OF assms(1,2)] assms(3) by (simp add: resched_def)

lemma resched_unfold:
  assumes "\<not> (pst s (currpid s) = PRCURR \<and> lastkey (qtab s) (rdytail s) < prio s (currpid s))"
    and "(if pst s (currpid s) = PRCURR
          then Option.bind (insert_q (currpid s) (rdyhead s) (prio s (currpid s)) (qtab s))
                 (\<lambda>(_, q1). Some ((set_pstate (currpid s) PRREADY (s\<lparr>preempt := QUANTUM\<rparr>))\<lparr>qtab := q1\<rparr>))
          else Some (s\<lparr>preempt := QUANTUM\<rparr>)) = Some s1"
    and "fst (getlast (rdytail s1) (qtab s1)) \<noteq> EMPTY"
  shows "resched s = Some (OK, take_last s1)"
proof -
  obtain newpid q2 where g: "getlast (rdytail s1) (qtab s1) = (newpid, q2)" by fastforce
  then have "newpid \<noteq> EMPTY" using assms(3) by simp
  then show ?thesis
    using assms(1,2) g unfolding resched_def take_last_def
    by (cases "insert_q (currpid s) (rdyhead s) (prio s (currpid s)) (qtab s)")
       (auto simp: Let_def split: prod.splits if_splits)
qed

lemma kq_self_ready:
  assumes "kq s L {}" "pst s (currpid s) = PRCURR"
  obtains s1 where
    "Option.bind (insert_q (currpid s) (rdyhead s) (prio s (currpid s)) (qtab s))
       (\<lambda>(_, q1). Some ((set_pstate (currpid s) PRREADY (s\<lparr>preempt := QUANTUM\<rparr>))\<lparr>qtab := q1\<rparr>)) = Some s1"
    "kq s1 (L(RDYQ := key_insert (prio s) (prio s (currpid s)) (currpid s) (L RDYQ))) {}"
    "kframe s L s1 (L(RDYQ := key_insert (prio s) (prio s (currpid s)) (currpid s) (L RDYQ)))"
    "currpid s1 = currpid s" "preempt s1 = QUANTUM"
    "\<And>p. pst s1 p = (if p = currpid s then PRREADY else pst s p)"
proof -
  let ?c = "currpid s"
  let ?L = "L(RDYQ := key_insert (prio s) (prio s ?c) ?c (L RDYQ))"
  have c: "ispid ?c" using kqD(3) [OF assms(1)] by (simp add: kprocs_def)
  have no: "ploc (proctab s ?c) = None" using assms(2) by (simp add: ploc_def)
  have k: "kq s L {?c}" using kq_capture [OF assms(1) c _ no] by simp
  have fr: "pst s ?c \<noteq> PRFREE" using assms(2) by simp
  obtain q' where q': "insert_q ?c (rdyhead s) (prio s ?c) (qtab s) = Some (OK, q')"
    "kq ((set_pstate ?c PRREADY s)\<lparr>qtab := q'\<rparr>) ?L ({?c} - {?c})"
    "\<And>i. i \<noteq> ?c \<Longrightarrow> qkey (q' i) = qkey (qtab s i)"
    by (rule kq_enter_ready [OF k singletonI fr]) blast
  let ?s = "(set_pstate ?c PRREADY (s\<lparr>preempt := QUANTUM\<rparr>))\<lparr>qtab := q'\<rparr>"
  have s: "?s = ((set_pstate ?c PRREADY s)\<lparr>qtab := q'\<rparr>)\<lparr>preempt := QUANTUM\<rparr>"
    by (simp add: set_pstate_def upd_proc_def)
  have notin: "?c \<notin> set (L CLKQ)" using kqD(5) [OF k] by simp
  show thesis
  proof (rule that [of ?s])
    show "kq ?s ?L {}" using q'(2) unfolding s by simp
    have "qkey (q' p) = qkey (qtab s p)" if "p \<in> set (L CLKQ)" for p
      by (rule q'(3)) (use notin that in auto)
    then show "kframe s L ?s ?L"
      using assms(2) unfolding kframe_def by (simp add: set_pstate_def upd_proc_def)
  qed (use q'(1) in simp_all)
qed

theorem resched_dispatch:
  assumes "kq s L {}"
  defines "d \<equiv> dispatch (prio s) (currpid s) (pst s (currpid s) = PRCURR) (L RDYQ)"
  obtains s' where "resched s = Some (OK, s')" "kq s' (L(RDYQ := snd d)) {}"
    "kframe s L s' (L(RDYQ := snd d))" "currpid s' = fst d" "preempt s' = QUANTUM"
    "\<And>p. pst s' p = (if p = currpid s' then PRCURR
       else if p = currpid s \<and> pst s p = PRCURR then PRREADY else pst s p)"
proof -
  let ?c = "currpid s"
  consider (keep) "pst s ?c = PRCURR" "\<forall>p \<in> set (L RDYQ). prio s p < prio s ?c"
    | (move) "pst s ?c = PRCURR" "\<not> (\<forall>p \<in> set (L RDYQ). prio s p < prio s ?c)"
    | (other) "pst s ?c \<noteq> PRCURR" by blast
  then show thesis
  proof cases
    case keep
    have d: "d = (?c, L RDYQ)" using keep by (simp add: d_def dispatch_def)
    show thesis
      by (rule that [OF resched_keep [OF assms(1) keep]])
         (use assms(1) keep d in \<open>simp_all add: kframe_def\<close>)
  next
    case move
    obtain s1 where s1: "Option.bind (insert_q ?c (rdyhead s) (prio s ?c) (qtab s))
       (\<lambda>(_, q1). Some ((set_pstate ?c PRREADY (s\<lparr>preempt := QUANTUM\<rparr>))\<lparr>qtab := q1\<rparr>)) = Some s1"
    and k1: "kq s1 (L(RDYQ := key_insert (prio s) (prio s ?c) ?c (L RDYQ))) {}"
      "kframe s L s1 (L(RDYQ := key_insert (prio s) (prio s ?c) ?c (L RDYQ)))"
      "currpid s1 = ?c" "preempt s1 = QUANTUM"
      "\<And>p. pst s1 p = (if p = ?c then PRREADY else pst s p)"
      by (rule kq_self_ready [OF assms(1) move(1)]) blast
    let ?R = "key_insert (prio s) (prio s ?c) ?c (L RDYQ)"
    let ?L1 = "L(RDYQ := ?R)"
    have d: "d = (last ?R, butlast ?R)" using move by (auto simp: d_def dispatch_def Let_def)
    have no: "pst s1 (currpid s1) \<noteq> PRCURR" using k1 by simp
    note tl = kq_take_last [OF k1(1) no]
    have r: "resched s = Some (OK, take_last s1)"
      by (rule resched_unfold) (use kq_keep_condition [OF assms(1) move(1)] move s1 tl(1,2) in simp_all)
    show thesis
    proof (rule that [OF r])
      show "kq (take_last s1) (L(RDYQ := snd d)) {}" using tl(3) d by simp
      have "kframe s1 ?L1 (take_last s1) (L(RDYQ := snd d))" using tl(6) d by simp
      then show "kframe s L (take_last s1) (L(RDYQ := snd d))" by (rule kframe_trans [OF k1(2)])
    qed (use tl(4,5,7) k1(3-5) d move(1) in simp_all)
  next
    case other
    let ?s1 = "s\<lparr>preempt := QUANTUM\<rparr>"
    have k1: "kq ?s1 L {}" "pst ?s1 (currpid ?s1) \<noteq> PRCURR" using assms(1) other by simp_all
    note tl = kq_take_last [OF k1]
    have d: "d = (last (L RDYQ), butlast (L RDYQ))" using other by (auto simp: d_def dispatch_def Let_def)
    have r: "resched s = Some (OK, take_last ?s1)"
      by (rule resched_unfold) (use other tl(1,2) in simp_all)
    have f: "kframe s L ?s1 L" by (simp add: kframe_def)
    show thesis
    proof (rule that [OF r])
      show "kq (take_last ?s1) (L(RDYQ := snd d)) {}" using tl(3) d by simp
      have "kframe ?s1 L (take_last ?s1) (L(RDYQ := snd d))" using tl(6) d by simp
      then show "kframe s L (take_last ?s1) (L(RDYQ := snd d))" by (rule kframe_trans [OF f])
    qed (use tl(4,5,7) d other in auto)
  qed
qed

text \<open>Well-formed states with the processes \<open>X\<close> taken off their lists.\<close>

definition kwfx :: "kstate \<Rightarrow> (int \<Rightarrow> int list) \<Rightarrow> int set \<Rightarrow> bool" where
  "kwfx s L X \<longleftrightarrow> kq s L X \<and> ksem s L \<and> kclk s L"

lemma kwfx_empty [simp]: "kwfx s L {} = kwf s L"
  by (simp add: kwfx_def kwf_def)

lemma kwfxD:
  assumes "kwfx s L X"
  shows "kq s L X" "ksem s L" "kclk s L"
  using assms by (simp_all add: kwfx_def)

lemma kwfD:
  assumes "kwf s L"
  shows "kq s L {}" "ksem s L" "kclk s L"
  using assms by (simp_all add: kwf_def)

text \<open>The running process keeps the processor or is moved; the choice is the best one.\<close>

lemma resched_wf:
  assumes "kwf s L"
  obtains s' L' where "resched s = Some (OK, s')" "kwf s' L'" "krun s' L'" "kframe s L s' L'"
    "currpid s' = fst (dispatch (prio s) (currpid s) (pst s (currpid s) = PRCURR) (L RDYQ))"
    "preempt s' = QUANTUM"
    "\<And>p. pst s' p = (if p = currpid s' then PRCURR
       else if p = currpid s \<and> pst s p = PRCURR then PRREADY else pst s p)"
proof -
  note W = kwfD [OF assms]
  let ?e = "pst s (currpid s) = PRCURR"
  let ?d = "dispatch (prio s) (currpid s) ?e (L RDYQ)"
  let ?L = "L(RDYQ := snd ?d)"
  obtain s' where s': "resched s = Some (OK, s')" "kq s' ?L {}"
    "kframe s L s' ?L" "currpid s' = fst ?d" "preempt s' = QUANTUM"
    "\<And>p. pst s' p = (if p = currpid s' then PRCURR
       else if p = currpid s \<and> pst s p = PRCURR then PRREADY else pst s p)"
    by (rule resched_dispatch [OF W(1)]) blast
  have ne: "?e \<or> L RDYQ \<noteq> []" using kq_null_ready [OF W(1)] by force
  have "prio s' p \<le> prio s' (currpid s')" if "p \<in> set (?L RDYQ)" for p
  proof -
    have "p \<in> set (L RDYQ) \<or> ?e \<and> p = currpid s"
      using dispatch_set [OF ne, of "prio s" "currpid s"] that by (auto split: if_splits)
    from dispatch_highest [OF kqD(7) [OF W(1)] ne this] show ?thesis
      using kframeD(5) [OF s'(3)] s'(4) by simp
  qed
  then have "krun s' ?L" using s'(5,6) by (simp add: krun_def QUANTUM_def)
  moreover have "kwf s' ?L"
    unfolding kwf_def using s'(2) kframe_ksem [OF s'(3) W(2)] kframe_kclk [OF s'(3) W(3)] by simp
  ultimately show thesis using that [OF s'(1)] s'(3-6) by blast
qed

text \<open>\<open>ready\<close> without rescheduling, then with it.\<close>

lemma ready_no_kq:
  assumes "kq s L X" "p \<in> X" "\<not> isbadpid p" "pst s p \<noteq> PRFREE"
  obtains s' where "ready p False s = Some (OK, s')"
    "kq s' (L(RDYQ := key_insert (prio s) (prio s p) p (L RDYQ))) (X - {p})"
    "kframe s L s' (L(RDYQ := key_insert (prio s) (prio s p) p (L RDYQ)))"
    "currpid s' = currpid s" "preempt s' = preempt s"
    "\<And>i. pst s' i = (if i = p then PRREADY else pst s i)"
proof -
  let ?L = "L(RDYQ := key_insert (prio s) (prio s p) p (L RDYQ))"
  obtain q' where q': "insert_q p (rdyhead s) (prio s p) (qtab s) = Some (OK, q')"
    "kq ((set_pstate p PRREADY s)\<lparr>qtab := q'\<rparr>) ?L (X - {p})"
    "\<And>i. i \<noteq> p \<Longrightarrow> qkey (q' i) = qkey (qtab s i)"
    by (rule kq_enter_ready [OF assms(1,2,4)]) blast
  let ?s = "(set_pstate p PRREADY s)\<lparr>qtab := q'\<rparr>"
  have notin: "p \<notin> set (L CLKQ)" using kqD(5) [OF assms(1,2)] by simp
  have "qkey (q' i) = qkey (qtab s i)" if "i \<in> set (L CLKQ)" for i
    by (rule q'(3)) (use notin that in auto)
  then have f: "kframe s L ?s ?L"
    using assms(4) unfolding kframe_def by (simp add: set_pstate_def upd_proc_def)
  show thesis
    by (rule that [OF _ q'(2) f]) (use assms(3) q'(1) in \<open>simp_all add: ready_def Let_def\<close>)
qed

lemma ready_no_wf:
  assumes "kwfx s L X" "p \<in> X" "\<not> isbadpid p" "pst s p \<noteq> PRFREE"
  obtains s' where "ready p False s = Some (OK, s')"
    "kwfx s' (L(RDYQ := key_insert (prio s) (prio s p) p (L RDYQ))) (X - {p})"
    "kframe s L s' (L(RDYQ := key_insert (prio s) (prio s p) p (L RDYQ)))"
    "currpid s' = currpid s" "preempt s' = preempt s"
    "\<And>i. pst s' i = (if i = p then PRREADY else pst s i)"
proof -
  note W = kwfxD [OF assms(1)]
  let ?L = "L(RDYQ := key_insert (prio s) (prio s p) p (L RDYQ))"
  obtain s' where r: "ready p False s = Some (OK, s')" "kq s' ?L (X - {p})" "kframe s L s' ?L"
    "currpid s' = currpid s" "preempt s' = preempt s"
    "\<And>i. pst s' i = (if i = p then PRREADY else pst s i)"
    by (rule ready_no_kq [OF W(1) assms(2-4)]) blast
  have "kwfx s' ?L (X - {p})"
    unfolding kwfx_def using r(2) kframe_ksem [OF r(3) W(2)] kframe_kclk [OF r(3) W(3)] by simp
  then show thesis using that [OF r(1) _ r(3-6)] by blast
qed

lemma ready_resched: "ready p True s = Option.bind (ready p False s) (\<lambda>(v, s').
    if v = OK then Option.bind (resched s') (\<lambda>(_, s''). Some (OK, s'')) else Some (v, s'))"
  by (cases "insert_q p (rdyhead s) (prio s p) (qtab s)")
     (auto simp: ready_def Let_def OK_def SYSERR_def)

lemma ready_wf:
  assumes "kwfx s L {p}" "\<not> isbadpid p" "pst s p \<noteq> PRFREE"
  obtains s' L' where "ready p True s = Some (OK, s')" "kwf s' L'" "krun s' L'" "kframe s L s' L'"
    "currpid s' = fst (dispatch (prio s) (currpid s) (pst s (currpid s) = PRCURR \<and> currpid s \<noteq> p)
       (key_insert (prio s) (prio s p) p (L RDYQ)))"
    "preempt s' = QUANTUM"
    "\<And>i. pst s' i = (if i = currpid s' then PRCURR else if i = p then PRREADY
       else if i = currpid s \<and> pst s i = PRCURR then PRREADY else pst s i)"
proof -
  let ?L = "L(RDYQ := key_insert (prio s) (prio s p) p (L RDYQ))"
  obtain s1 where s1: "ready p False s = Some (OK, s1)" "kwfx s1 ?L ({p} - {p})" "kframe s L s1 ?L"
    "currpid s1 = currpid s" "\<And>i. pst s1 i = (if i = p then PRREADY else pst s i)"
    by (rule ready_no_wf [OF assms(1) singletonI assms(2,3)]) blast
  have w: "kwf s1 ?L" using s1(2) by simp
  obtain s2 L2 where s2: "resched s1 = Some (OK, s2)" "kwf s2 L2" "krun s2 L2" "kframe s1 ?L s2 L2"
    "currpid s2 = fst (dispatch (prio s1) (currpid s1) (pst s1 (currpid s1) = PRCURR) (?L RDYQ))"
    "preempt s2 = QUANTUM"
    "\<And>i. pst s2 i = (if i = currpid s2 then PRCURR
       else if i = currpid s1 \<and> pst s1 i = PRCURR then PRREADY else pst s1 i)"
    by (rule resched_wf [OF w]) blast
  have pr: "prio s1 = prio s" using kframeD(5) [OF s1(3)] by blast
  show thesis
  proof (rule that [OF _ s2(2,3) kframe_trans [OF s1(3) s2(4)] _ s2(6)])
    show "ready p True s = Some (OK, s2)" by (simp add: ready_resched s1(1) s2(1))
    show "currpid s2 = fst (dispatch (prio s) (currpid s) (pst s (currpid s) = PRCURR \<and> currpid s \<noteq> p)
       (key_insert (prio s) (prio s p) p (L RDYQ)))"
      using s2(5) pr s1(4,5) by (cases "currpid s = p") simp_all
    show "pst s2 i = (if i = currpid s2 then PRCURR else if i = p then PRREADY
       else if i = currpid s \<and> pst s i = PRCURR then PRREADY else pst s i)" for i
      using s2(7) [of i] s1(4,5) by auto
  qed
qed

section \<open>Round robin\<close>

text \<open>\<open>n\<close> time slices run out one after the other.\<close>

fun slices :: "nat \<Rightarrow> kstate \<Rightarrow> kstate option" where
  "slices 0 s = Some s"
| "slices (Suc n) s = Option.bind (resched s) (\<lambda>(_, s'). slices n s')"

lemma resched_group:
  assumes "kq s L {}" "pst s (currpid s) = PRCURR" "L RDYQ = low @ hi"
    and "\<And>p. p \<in> set low \<Longrightarrow> prio s p < prio s (currpid s)"
    and "\<And>p. p \<in> set hi \<Longrightarrow> prio s p = prio s (currpid s)" "hi \<noteq> []"
  obtains s' where "resched s = Some (OK, s')" "kq s' (L(RDYQ := low @ currpid s # butlast hi)) {}"
    "currpid s' = last hi" "pst s' (currpid s') = PRCURR" "prio s' = prio s"
proof -
  have d: "dispatch (prio s) (currpid s) (pst s (currpid s) = PRCURR) (L RDYQ) =
      (last hi, low @ currpid s # butlast hi)"
    using dispatch_group [of low "prio s" "currpid s" hi] assms(2-6) by simp
  obtain s' where r: "resched s = Some (OK, s')" "kq s' (L(RDYQ := low @ currpid s # butlast hi)) {}"
    "kframe s L s' (L(RDYQ := low @ currpid s # butlast hi))" "currpid s' = last hi"
    "\<And>p. pst s' p = (if p = currpid s' then PRCURR
       else if p = currpid s \<and> pst s p = PRCURR then PRREADY else pst s p)"
    by (rule resched_dispatch [OF assms(1), unfolded d fst_conv snd_conv]) blast
  have "prio s' = prio s" using kframeD(5) [OF r(3)] by blast
  then show thesis by (intro that [OF r(1,2,4)]) (use r(5) in simp_all)
qed

lemma slices_reach:
  assumes "kq s L {}" "pst s (currpid s) = PRCURR" "L RDYQ = low @ hi"
    and "\<And>p. p \<in> set low \<Longrightarrow> prio s p < prio s (currpid s)"
    and "\<And>p. p \<in> set hi \<Longrightarrow> prio s p = prio s (currpid s)" "k < length hi"
  shows "\<exists>s'. slices (Suc k) s = Some s' \<and> currpid s' = rev hi ! k"
  using assms
proof (induction k arbitrary: s L hi)
  case 0
  then have ne: "hi \<noteq> []" by auto
  obtain s' where "resched s = Some (OK, s')" "currpid s' = last hi"
    by (rule resched_group [OF "0.prems"(1-5) ne]) blast
  then show ?case using ne by (simp add: rev_nth last_conv_nth)
next
  case (Suc k)
  then have ne: "hi \<noteq> []" by auto
  let ?hi = "currpid s # butlast hi"
  obtain s1 where r: "resched s = Some (OK, s1)" "kq s1 (L(RDYQ := low @ ?hi)) {}"
    "currpid s1 = last hi" "pst s1 (currpid s1) = PRCURR" "prio s1 = prio s"
    by (rule resched_group [OF Suc.prems(1-5) ne]) blast
  have pr: "prio s1 p = prio s p" for p using r(5) by metis
  have v: "prio s (last hi) = prio s (currpid s)" using Suc.prems(5) ne by simp
  have "\<exists>s'. slices (Suc k) s1 = Some s' \<and> currpid s' = rev ?hi ! k"
  proof (rule Suc.IH [OF r(2,4)])
    show "(L(RDYQ := low @ ?hi)) RDYQ = low @ ?hi" by simp
    show "prio s1 p < prio s1 (currpid s1)" if "p \<in> set low" for p
      using Suc.prems(4) [OF that] r(3) pr v by simp
    show "prio s1 p = prio s1 (currpid s1)" if "p \<in> set ?hi" for p
      using Suc.prems(5) [of p] that r(3) pr v by (auto dest: in_set_butlastD)
    show "k < length ?hi" using Suc.prems(6) by simp
  qed
  moreover have "rev ?hi ! k = rev hi ! Suc k"
  proof -
    obtain ys y where "hi = ys @ [y]" using ne by (metis append_butlast_last_id)
    then show ?thesis using Suc.prems(6) by (simp add: nth_append)
  qed
  ultimately show ?case using r(1) by simp
qed

section \<open>resume, suspend, chprio\<close>

lemma kwf_capture:
  assumes "kwf s L" "ispid p" "ploc (proctab s p) = None"
  shows "kwfx s L {p}"
  using kq_capture [OF kwfD(1) [OF assms(1)] assms(2) _ assms(3)] kwfD(2,3) [OF assms(1)]
  by (simp add: kwfx_def)

lemma not_bad_ispid: "\<not> isbadpid p \<Longrightarrow> ispid p" "\<not> isbadpid p \<Longrightarrow> p \<noteq> NULLPROC"
  by (auto simp: isbadpid_def NULLPROC_def)

lemma resume_wf:
  assumes "kwf s L" "\<not> isbadpid p" "pst s p = PRSUSP"
  obtains s' L' where "resume p s = Some (prio s p, s')" "kwf s' L'" "krun s' L'" "kframe s L s' L'"
    "currpid s' = fst (dispatch (prio s) (currpid s) (pst s (currpid s) = PRCURR)
       (key_insert (prio s) (prio s p) p (L RDYQ)))"
    "\<And>i. pst s' i = (if i = currpid s' then PRCURR else if i = p then PRREADY
       else if i = currpid s \<and> pst s i = PRCURR then PRREADY else pst s i)"
proof -
  have k: "kwfx s L {p}"
    by (rule kwf_capture [OF assms(1)]) (use assms(3) not_bad_ispid(1) [OF assms(2)] in \<open>simp_all add: ploc_def\<close>)
  have fr: "pst s p \<noteq> PRFREE" using assms(3) by simp
  have e: "(pst s (currpid s) = PRCURR \<and> currpid s \<noteq> p) = (pst s (currpid s) = PRCURR)"
    using assms(3) by auto
  obtain s' L' where r: "ready p True s = Some (OK, s')" "kwf s' L'" "krun s' L'" "kframe s L s' L'"
    "currpid s' = fst (dispatch (prio s) (currpid s) (pst s (currpid s) = PRCURR)
       (key_insert (prio s) (prio s p) p (L RDYQ)))"
    "\<And>i. pst s' i = (if i = currpid s' then PRCURR else if i = p then PRREADY
       else if i = currpid s \<and> pst s i = PRCURR then PRREADY else pst s i)"
    by (rule ready_wf [OF k assms(2) fr, unfolded e]) blast
  have "resume p s = Some (prio s p, s')" using assms(2,3) r(1) by (simp add: resume_def)
  then show thesis using r(2-6) by (rule that)
qed

lemma kwf_running:
  assumes "kwf s L" "krun s L"
  shows "ispid (currpid s)" "pst s (currpid s) = PRCURR" "ploc (proctab s (currpid s)) = None"
  using kqD(3) [OF kwfD(1) [OF assms(1)]] assms(2) by (simp_all add: kprocs_def krun_def ploc_def)

text \<open>Taking a ready process off the ready list.\<close>

lemma kwf_take_ready:
  assumes "kwf s L" "p \<in> set (L RDYQ)"
  defines "s1 \<equiv> s\<lparr>qtab := snd (dequeue p (qtab s))\<rparr>" and "L1 \<equiv> L(RDYQ := remove1 p (L RDYQ))"
  shows "kwfx s1 L1 {p}" "kframe s L s1 L1"
proof -
  have f: "kframe s L s1 L1"
    by (simp add: kframe_def s1_def L1_def dequeue_def queue_upd)
  have "kq s1 L1 {p}"
    unfolding s1_def by (rule kq_take [OF kwfD(1) [OF assms(1)] _ assms(2)]) (simp_all add: L1_def)
  then show "kwfx s1 L1 {p}"
    using kframe_ksem [OF f] kframe_kclk [OF f] kwfD(2,3) [OF assms(1)] by (simp add: kwfx_def)
  show "kframe s L s1 L1" by (rule f)
qed

lemma kwfx_set_pstate:
  assumes "kwfx s L X" "p \<in> X" "p \<noteq> NULLPROC" "pst s p \<noteq> PRFREE" "st \<noteq> PRCURR" "st \<noteq> PRFREE"
  shows "kwfx (set_pstate p st s) L X" "kframe s L (set_pstate p st s) L"
proof -
  show f: "kframe s L (set_pstate p st s) L"
    using assms(4,6) by (simp add: kframe_def set_pstate_def upd_proc_def)
  have "kq (set_pstate p st s) L X"
    by (rule kq_set_pstate [OF kwfxD(1) [OF assms(1)] assms(2)]) (use assms in simp_all)
  then show "kwfx (set_pstate p st s) L X"
    using kframe_ksem [OF f] kframe_kclk [OF f] kwfxD(2,3) [OF assms(1)] by (simp add: kwfx_def)
qed

lemma kwfx_release:
  assumes "kwfx s L {p}" "ploc (proctab s p) = None"
  shows "kwf s L"
  using kq_release [OF kwfxD(1) [OF assms(1)] singletonI assms(2)] kwfxD(2,3) [OF assms(1)]
  by (simp add: kwf_def)

lemma suspend_ready_wf:
  assumes "kwf s L" "krun s L" "\<not> isbadpid p" "pst s p = PRREADY"
  obtains s' where "suspend p s = Some (KRet (prio s p), s')" "kwf s' (L(RDYQ := remove1 p (L RDYQ)))"
    "krun s' (L(RDYQ := remove1 p (L RDYQ)))" "kframe s L s' (L(RDYQ := remove1 p (L RDYQ)))"
    "currpid s' = currpid s" "\<And>i. pst s' i = (if i = p then PRSUSP else pst s i)"
proof -
  have mem: "p \<in> set (L RDYQ)"
    using kq_ready_mem [OF kwfD(1) [OF assms(1)]] assms(3,4) not_bad_ispid by simp
  let ?L = "L(RDYQ := remove1 p (L RDYQ))"
  let ?s1 = "s\<lparr>qtab := snd (dequeue p (qtab s))\<rparr>"
  let ?s = "set_pstate p PRSUSP ?s1"
  note t = kwf_take_ready [OF assms(1) mem]
  have "kwfx ?s ?L {p}" "kframe ?s1 ?L ?s ?L"
    by (rule kwfx_set_pstate [OF t(1)]; use assms(3,4) not_bad_ispid(2) in simp)+
  then have w: "kwf ?s ?L" and f: "kframe s L ?s ?L"
    using kwfx_release [of ?s ?L p] kframe_trans [OF t(2)] by (simp_all add: ploc_def)
  show thesis
  proof (rule that [OF _ w _ f])
    show "suspend p s = Some (KRet (prio s p), ?s)"
      using assms(3,4) by (simp add: suspend_def Let_def isbadpid_def NULLPROC_def set_pstate_def upd_proc_def)
    have "currpid s \<noteq> p" using kwf_running(2) [OF assms(1,2)] assms(4) by auto
    then show "krun ?s ?L"
      using assms(2) set_remove1_subset [of p "L RDYQ"] by (auto simp: krun_def)
  qed simp_all
qed

lemma suspend_self_wf:
  assumes "kwf s L" "krun s L" "currpid s \<noteq> NULLPROC"
  obtains s' L' where "suspend (currpid s) s = Some (KSuspend (currpid s), s')" "kwf s' L'" "krun s' L'"
    "kframe s L s' L'" "currpid s' = last (L RDYQ)"
    "\<And>i. pst s' i = (if i = currpid s' then PRCURR else if i = currpid s then PRSUSP else pst s i)"
proof -
  note c = kwf_running [OF assms(1,2)]
  let ?c = "currpid s" and ?s1 = "set_pstate (currpid s) PRSUSP s"
  have k: "kwfx s L {?c}" by (rule kwf_capture [OF assms(1) c(1,3)])
  have k1: "kwfx ?s1 L {?c}" "kframe s L ?s1 L"
    by (rule kwfx_set_pstate [OF k]; use assms(3) c(2) in simp)+
  have w: "kwf ?s1 L" by (rule kwfx_release [OF k1(1)]) (simp add: ploc_def)
  obtain s2 L2 where s2: "resched ?s1 = Some (OK, s2)" "kwf s2 L2" "krun s2 L2" "kframe ?s1 L s2 L2"
    "currpid s2 = fst (dispatch (prio ?s1) (currpid ?s1) (pst ?s1 (currpid ?s1) = PRCURR) (L RDYQ))"
    "\<And>i. pst s2 i = (if i = currpid s2 then PRCURR
       else if i = currpid ?s1 \<and> pst ?s1 i = PRCURR then PRREADY else pst ?s1 i)"
    by (rule resched_wf [OF w]) blast
  show thesis
  proof (rule that [OF _ s2(2,3) kframe_trans [OF k1(2) s2(4)]])
    show "suspend ?c s = Some (KSuspend ?c, s2)"
      using s2(1) c(1,2) assms(3) by (auto simp: suspend_def isbadpid_def NULLPROC_def)
    show "currpid s2 = last (L RDYQ)" using s2(5) by simp
    show "pst s2 i = (if i = currpid s2 then PRCURR else if i = ?c then PRSUSP else pst s i)" for i
      using s2(6) [of i] by simp
  qed
qed

lemma kwfx_upd:
  assumes "kwfx s L X" "p \<in> X" "p \<noteq> NULLPROC" "pprio_ok (f (proctab s p))"
    and "pstate (f (proctab s p)) = PRCURR \<Longrightarrow> p = currpid s"
  shows "kwfx (upd_proc p f s) L X"
  using kq_upd [OF kwfxD(1) [OF assms(1)] assms(2), of f] kwfxD(2,3) [OF assms(1)] assms(3-5)
  by (simp add: kwfx_def ksem_def kclk_def cong: sstate.case_cong)

text \<open>Fields of a process that no invariant mentions.\<close>

lemma kwfx_other_fields:
  assumes "\<And>e. pstate (f e) = pstate e" "\<And>e. pprio (f e) = pprio e" "\<And>e. psem (f e) = psem e"
  shows "kwfx (upd_proc p f s) L X = kwfx s L X" "krun (upd_proc p f s) L = krun s L"
proof -
  have st: "pst (upd_proc p f s) i = pst s i" "prio (upd_proc p f s) i = prio s i"
    "psem (proctab (upd_proc p f s) i) = psem (proctab s i)" for i by (simp_all add: assms)
  have "ploc (proctab (upd_proc p f s) i) = ploc (proctab s i)" for i
    by (rule ploc_cong) (rule st)+
  then have "pmember (upd_proc p f s) L i = pmember s L i" for i
    unfolding pmember_def st by simp
  moreover have "pprio_ok (proctab (upd_proc p f s) i) = pprio_ok (proctab s i)" for i
    unfolding pprio_ok_def st by simp
  ultimately show "kwfx (upd_proc p f s) L X = kwfx s L X"
    unfolding kwfx_def kq_def ksem_def kclk_def layout_def kprocs_def st
    by (simp cong: sstate.case_cong)
  show "krun (upd_proc p f s) L = krun s L"
    unfolding krun_def st by simp
qed

lemma kwf_pprio_ok:
  assumes "kwf s L" "\<not> isbadpid p"
  shows "pprio_ok (proctab s p)"
  using kqD(3) [OF kwfD(1) [OF assms(1)]] assms(2) by (simp add: kprocs_def isbadpid_def)

lemma chprio_ready_wf:
  assumes "kwf s L" "\<not> isbadpid p" "pst s p = PRREADY" "0 < v" "v \<le> MAXINT"
  defines "s1 \<equiv> upd_proc p (pprio_update (\<lambda>_. v)) s"
  obtains s' L' where "chprio p v s = Some (prio s p, s')" "kwf s' L'" "krun s' L'"
    "kframe s1 L s' L'"
proof -
  have mem: "p \<in> set (L RDYQ)"
    using kq_ready_mem [OF kwfD(1) [OF assms(1)]] assms(2,3) not_bad_ispid by simp
  let ?s0 = "s\<lparr>qtab := snd (dequeue p (qtab s))\<rparr>"
  let ?L0 = "L(RDYQ := remove1 p (L RDYQ))"
  let ?s2 = "upd_proc p (pprio_update (\<lambda>_. v)) ?s0"
  have k0: "kwfx ?s0 ?L0 {p}" by (rule kwf_take_ready [OF assms(1) mem])
  have k2: "kwfx ?s2 ?L0 {p}"
    by (rule kwfx_upd [OF k0]) (use assms(2-5) not_bad_ispid(2) in \<open>simp_all add: pprio_ok_def\<close>)
  have fr: "pst ?s2 p \<noteq> PRFREE" using assms(3) by simp
  have f2: "kframe s1 L ?s2 ?L0"
    unfolding kframe_def s1_def by (simp add: upd_proc_def dequeue_def queue_upd)
  obtain s' L' where r: "ready p True ?s2 = Some (OK, s')" "kwf s' L'" "krun s' L'"
    "kframe ?s2 ?L0 s' L'"
    by (rule ready_wf [OF k2 assms(2) fr]) blast
  have same: "(set_pstate p PRREADY ?s2)\<lparr>qtab := q2\<rparr> = s1\<lparr>qtab := q2\<rparr>" for q2
    using assms(3) by (simp add: s1_def set_pstate_def upd_proc_def pstate_same)
  obtain v1 q2 v2 where q2: "insert_q p (rdyhead s) v (snd (dequeue p (qtab s))) = Some (v1, q2)"
    "resched (s1\<lparr>qtab := q2\<rparr>) = Some (v2, s')"
    using r(1) assms(2)
    by (auto simp: ready_def Let_def same split: Option.bind_splits prod.splits)
  have "dequeue p (qtab s) = (p, snd (dequeue p (qtab s)))" by (simp add: dequeue_def Let_def)
  moreover have "pst s1 p = PRREADY" "qtab s1 = qtab s" "rdyhead s1 = rdyhead s"
    using assms(3) by (simp_all add: s1_def)
  ultimately have "chprio p v s = Some (prio s p, s')"
    using q2 assms(2-4) unfolding chprio_def s1_def by (auto split: prod.splits)
  then show thesis using r(2,3) kframe_trans [OF f2 r(4)] by (rule that)
qed

lemma chprio_current_wf:
  assumes "kwf s L" "krun s L" "p = currpid s" "p \<noteq> NULLPROC" "0 < v" "v \<le> MAXINT"
  defines "s1 \<equiv> upd_proc p (pprio_update (\<lambda>_. v)) s"
  obtains s' L' where "chprio p v s = Some (prio s p, s')" "kwf s' L'" "krun s' L'"
    "kframe s1 L s' L'"
proof -
  note c = kwf_running [OF assms(1,2)]
  have k: "kwfx s L {p}" using kwf_capture [OF assms(1) c(1,3)] assms(3) by simp
  have "kwfx s1 L {p}"
    unfolding s1_def by (rule kwfx_upd [OF k]) (use assms(3-6) in \<open>simp_all add: pprio_ok_def\<close>)
  then have w: "kwf s1 L"
    by (rule kwfx_release) (use c(2) assms(3) in \<open>simp add: s1_def ploc_def\<close>)
  obtain s' L' where r: "resched s1 = Some (OK, s')" "kwf s' L'" "krun s' L'" "kframe s1 L s' L'"
    by (rule resched_wf [OF w]) blast
  have "\<not> isbadpid p" using c(1) assms(3,4) by (auto simp: isbadpid_def NULLPROC_def)
  then have "chprio p v s = Some (prio s p, s')"
    using r(1) c(2) assms(3,5) by (simp add: chprio_def s1_def)
  then show thesis using r(2-4) by (rule that)
qed

lemma chprio_blocked_wf:
  assumes "kwf s L" "krun s L" "\<not> isbadpid p" "pst s p \<notin> {PRREADY, PRCURR, PRFREE}" "0 < v" "v \<le> MAXINT"
  defines "s1 \<equiv> upd_proc p (pprio_update (\<lambda>_. v)) s"
  shows "chprio p v s = Some (prio s p, s1)" "kwf s1 L" "krun s1 L"
proof -
  have cur: "p \<noteq> currpid s" using assms(4) kwf_running [OF assms(1,2)] by auto
  have rdy: "p \<notin> set (L RDYQ)" using kq_ready [OF kwfD(1) [OF assms(1)]] assms(4) by auto
  have "pst s p \<notin> {PRREADY, PRCURR, PRFREE} \<Longrightarrow> (case pst s p of PRREADY \<Rightarrow> x | PRCURR \<Rightarrow> y | _ \<Rightarrow> z) = z"
    for x y z :: "(int \<times> kstate) option" by (cases "pst s p") auto
  then show "chprio p v s = Some (prio s p, s1)"
    using assms(3-5) by (simp add: chprio_def s1_def)
  show "krun s1 L"
    using assms(2) cur rdy by (auto simp: krun_def s1_def)
  have ok: "pprio_ok (proctab s1 p)" using assms(5,6) by (simp add: s1_def pprio_ok_def)
  note D = kqD [OF kwfD(1) [OF assms(1)]]
  have "map (prio s1) (L RDYQ) = map (prio s) (L RDYQ)" using rdy by (simp add: s1_def)
  then have "sorted (map (prio s1) (L RDYQ))" using D(7) by metis
  moreover have "qtab s1 = qtab s" by (simp add: s1_def)
  moreover have "kprocs s1"
    using D(3) ok assms(3) by (auto simp: kprocs_def s1_def isbadpid_def NULLPROC_def)
  moreover have "pmember s1 L i" if "ispid i" for i
  proof -
    have "ploc (proctab s1 i) = ploc (proctab s i)" by (rule ploc_cong) (simp_all add: s1_def)
    then show ?thesis using D(4) [OF that] by (auto simp: pmember_def s1_def)
  qed
  moreover have "layout s1" using D(1) by (simp add: layout_def s1_def)
  moreover have "qkey (qtab s1 i) = prio s1 i" if "i \<in> set (L RDYQ)" for i
    using D(6) [OF that] that rdy by (auto simp: s1_def)
  ultimately have "kq s1 L {}" using D(2) unfolding kq_def by simp
  then show "kwf s1 L"
    using kwfD(2,3) [OF assms(1)]
    by (simp add: kwf_def ksem_def kclk_def s1_def cong: sstate.case_cong)
qed

section \<open>The contract of a kernel call\<close>

text \<open>
  From a state that satisfies the kernel invariant a call returns, and the invariant holds
  again: the lists are intact and the process that runs is the right one; what the processes
  own is untouched. \<open>pre\<close> is what the call needs of its arguments.
\<close>

locale kcall =
  fixes call :: "kstate \<Rightarrow> ('v \<times> kstate) option"
    and pre :: "kstate \<Rightarrow> bool"
  assumes kinv_call: "kwf s L \<Longrightarrow> krun s L \<Longrightarrow> pre s \<Longrightarrow>
    \<exists>v s' L'. call s = Some (v, s') \<and> kwf s' L' \<and> krun s' L' \<and> kown s s'"
begin

lemma call_returns: "kinv s \<Longrightarrow> pre s \<Longrightarrow> call s \<noteq> None"
  unfolding kinv_def using kinv_call by fastforce

lemma call_inv: "kinv s \<Longrightarrow> pre s \<Longrightarrow> call s = Some (v, s') \<Longrightarrow> kinv s'"
  unfolding kinv_def using kinv_call by fastforce

lemma call_own: "kinv s \<Longrightarrow> pre s \<Longrightarrow> call s = Some (v, s') \<Longrightarrow> kown s s'"
  unfolding kinv_def using kinv_call by fastforce

end

lemma kinvI: "kwf s L \<Longrightarrow> krun s L \<Longrightarrow> kinv s"
  by (auto simp: kinv_def)

interpretation resume_call: kcall "resume p" "\<lambda>_. True"
proof
  fix s L assume s: "kwf s L" "krun s L"
  show "\<exists>v s' L'. resume p s = Some (v, s') \<and> kwf s' L' \<and> krun s' L' \<and> kown s s'"
  proof (cases "isbadpid p \<or> pst s p \<noteq> PRSUSP")
    case True
    then show ?thesis using s by (auto simp: resume_def)
  next
    case False
    then have "\<not> isbadpid p" "pst s p = PRSUSP" by simp_all
    then show ?thesis by (rule resume_wf [OF s(1)]) (blast intro: kframe_kown)
  qed
qed

interpretation suspend_call: kcall "suspend p" "\<lambda>_. True"
proof
  fix s L assume s: "kwf s L" "krun s L"
  consider (bad) "isbadpid p \<or> p = NULLPROC \<or> pst s p \<noteq> PRCURR \<and> pst s p \<noteq> PRREADY"
    | (rdy) "\<not> isbadpid p" "pst s p = PRREADY"
    | (self) "p = currpid s" "currpid s \<noteq> NULLPROC"
    using kqD(3) [OF kwfD(1) [OF s(1)]] by (fastforce simp: kprocs_def isbadpid_def)
  then show "\<exists>v s' L'. suspend p s = Some (v, s') \<and> kwf s' L' \<and> krun s' L' \<and> kown s s'"
  proof cases
    case bad
    then show ?thesis using s by (auto simp: suspend_def)
  next
    case rdy
    then show ?thesis by (rule suspend_ready_wf [OF s]) (blast intro: kframe_kown)
  next
    case self
    from suspend_self_wf [OF s self(2)] show ?thesis using self(1) kframe_kown by metis
  qed
qed

interpretation chprio_call: kcall "chprio p v" "\<lambda>_. v \<le> MAXINT"
proof
  fix s L assume s: "kwf s L" "krun s L" and v: "v \<le> MAXINT"
  have own1: "kown s (upd_proc p (pprio_update (\<lambda>_. v)) s)" by (rule kown_upd_proc) simp_all
  have own: "kown s s'" if "kframe (upd_proc p (pprio_update (\<lambda>_. v)) s) L s' L'" for s' L'
    by (rule kown_trans [OF own1 kframe_kown [OF that]])
  consider (bad) "isbadpid p \<or> v \<le> 0 \<or> pst s p = PRFREE"
    | (rdy) "\<not> isbadpid p" "pst s p = PRREADY" "0 < v"
    | (self) "p = currpid s" "p \<noteq> NULLPROC" "0 < v"
    | (blocked) "\<not> isbadpid p" "pst s p \<notin> {PRREADY, PRCURR, PRFREE}" "0 < v"
    using kqD(3) [OF kwfD(1) [OF s(1)]] by (fastforce simp: kprocs_def isbadpid_def NULLPROC_def)
  then show "\<exists>w s' L'. chprio p v s = Some (w, s') \<and> kwf s' L' \<and> krun s' L' \<and> kown s s'"
  proof cases
    case bad
    then show ?thesis using s by (auto simp: chprio_def)
  next
    case rdy
    then show ?thesis by (rule chprio_ready_wf [OF s(1) _ _ _ v]) (blast intro: own)
  next
    case self
    then show ?thesis by (rule chprio_current_wf [OF s _ _ _ v]) (blast intro: own)
  next
    case blocked
    from chprio_blocked_wf [OF s blocked v] show ?thesis using own1 by blast
  qed
qed

text \<open>The calls that cannot fail to return, as calls.\<close>

lemma kown_setnok: "kown s (snd (setnok nok p s))"
  by (simp add: setnok_def kown_upd_proc)

lemma kown_setdev: "kown s (snd (setdev p d1 d2 s))"
  by (simp add: setdev_def kown_upd_proc)

interpretation setnok_call: kcall "\<lambda>s. Some (setnok nok p s)" "\<lambda>_. True"
proof
  fix s L assume "kwf s L" "krun s L"
  then have "kwf (snd (setnok nok p s)) L" "krun (snd (setnok nok p s)) L"
    by (simp_all add: setnok_def kwfx_other_fields kwfx_empty [symmetric] del: kwfx_empty)
  then show "\<exists>v s' L'. Some (setnok nok p s) = Some (v, s') \<and> kwf s' L' \<and> krun s' L' \<and> kown s s'"
    using kown_setnok by (metis option.inject prod.collapse)
qed

interpretation setdev_call: kcall "\<lambda>s. Some (setdev p d1 d2 s)" "\<lambda>_. True"
proof
  fix s L assume "kwf s L" "krun s L"
  then have "kwf (snd (setdev p d1 d2 s)) L" "krun (snd (setdev p d1 d2 s)) L"
    by (simp_all add: setdev_def kwfx_other_fields kwfx_empty [symmetric] del: kwfx_empty)
  then show "\<exists>v s' L'. Some (setdev p d1 d2 s) = Some (v, s') \<and> kwf s' L' \<and> krun s' L' \<and> kown s s'"
    using kown_setdev by (metis option.inject prod.collapse)
qed

end
