(* ===== verification/Sema.thy ===== *)
theory Sema
  imports Sched
begin

text \<open>
  Counting semaphores: \<open>screate.c\<close>, \<open>sdelete.c\<close>, \<open>wait.c\<close>, \<open>signal.c\<close>,
  \<open>signaln.c\<close>, \<open>sreset.c\<close>, \<open>scount.c\<close>. The invariant \<open>ksem\<close> says that a semaphore with
  count \<open>- n\<close> has exactly \<open>n\<close> processes waiting on it and one with a count of zero or more
  none; every operation keeps it, and the operations act on the queue as on a first-in
  first-out list.
\<close>

section \<open>Definitions\<close>

definition set_semcnt :: "int \<Rightarrow> int \<Rightarrow> kstate \<Rightarrow> kstate" where
  "set_semcnt sem v s = upd_sem sem (semcnt_update (\<lambda>_. v)) s"

definition set_sstate :: "int \<Rightarrow> sstate \<Rightarrow> kstate \<Rightarrow> kstate" where
  "set_sstate sem v s = upd_sem sem (sstate_update (\<lambda>_. v)) s"

fun newsem_scan :: "nat \<Rightarrow> kstate \<Rightarrow> int \<times> kstate" where
  "newsem_scan 0 s = (SYSERR, s)"
| "newsem_scan (Suc n) s =
     (let sem = nextsem s;
          nx = nextsem s - 1;
          s1 = s\<lparr>nextsem := (if nx < 0 then NSEM - 1 else nx)\<rparr>
      in if sstate (semaph s1 sem) = SFREE then (sem, set_sstate sem SUSED s1)
         else newsem_scan n s1)"

definition newsem :: "kstate \<Rightarrow> int \<times> kstate" where
  "newsem s = newsem_scan (nat NSEM) s"

definition screate :: "int \<Rightarrow> kstate \<Rightarrow> int \<times> kstate" where
  "screate count s =
     (if count < 0 then (SYSERR, s)
      else let (sem, s1) = newsem s
           in if sem = SYSERR then (SYSERR, s1) else (sem, set_semcnt sem count s1))"

definition scount :: "int \<Rightarrow> kstate \<Rightarrow> int" where
  "scount sem s =
     (if isbadsem sem \<or> sstate (semaph s sem) = SFREE then SYSERR else semcnt (semaph s sem))"

definition wait :: "int \<Rightarrow> kstate \<Rightarrow> (int \<times> kstate) option" where
  "wait sem s =
     (if isbadsem sem \<or> sstate (semaph s sem) = SFREE then Some (SYSERR, s)
      else do {
        cnt \<leftarrow> sub16 (semcnt (semaph s sem)) 1;
        let s1 = set_semcnt sem cnt s;
        if cnt < 0
        then let s2 = upd_proc (currpid s1) (pstate_update (\<lambda>_. PRWAIT) \<circ> psem_update (\<lambda>_. sem)) s1;
                 (_, q1) = enqueue (currpid s2) (sqtail (semaph s2 sem)) (qtab s2)
             in do {
               (_, s3) \<leftarrow> resched (s2\<lparr>qtab := q1\<rparr>);
               Some (OK, s3)
             }
        else Some (OK, s1)
      })"

text \<open>One increment of the count, with the release of the first waiting process.\<close>

definition signal_one :: "bool \<Rightarrow> int \<Rightarrow> kstate \<Rightarrow> kstate option" where
  "signal_one resch sem s =
     do {
       let cnt = semcnt (semaph s sem);
       cnt' \<leftarrow> add16 cnt 1;
       let s1 = set_semcnt sem cnt' s;
       if cnt < 0
       then let (pid, q1) = getfirst (sqhead (semaph s1 sem)) (qtab s1)
            in do { (_, s2) \<leftarrow> ready pid resch (s1\<lparr>qtab := q1\<rparr>); Some s2 }
       else Some s1
     }"

definition signal :: "int \<Rightarrow> kstate \<Rightarrow> (int \<times> kstate) option" where
  "signal sem s =
     (if isbadsem sem \<or> sstate (semaph s sem) = SFREE then Some (SYSERR, s)
      else do { s1 \<leftarrow> signal_one True sem s; Some (OK, s1) })"

fun signal_times :: "nat \<Rightarrow> int \<Rightarrow> kstate \<Rightarrow> kstate option" where
  "signal_times 0 sem s = Some s"
| "signal_times (Suc n) sem s = Option.bind (signal_one False sem s) (signal_times n sem)"

definition signaln :: "int \<Rightarrow> int \<Rightarrow> kstate \<Rightarrow> (int \<times> kstate) option" where
  "signaln sem count s =
     (if isbadsem sem \<or> sstate (semaph s sem) = SFREE \<or> count \<le> 0 then Some (SYSERR, s)
      else do {
        s1 \<leftarrow> signal_times (nat count) sem s;
        (_, s2) \<leftarrow> resched s1;
        Some (OK, s2)
      })"

text \<open>The loop of sreset and sdelete: every process of a list is made ready.\<close>

partial_function (option) release_all :: "int \<Rightarrow> kstate \<Rightarrow> kstate option" where
  "release_all slist s =
     (let (pid, q1) = getfirst slist (qtab s); s1 = s\<lparr>qtab := q1\<rparr>
      in if pid = EMPTY then Some s1
         else Option.bind (ready pid False s1) (\<lambda>(_, s2). release_all slist s2))"

definition sreset :: "int \<Rightarrow> int \<Rightarrow> kstate \<Rightarrow> (int \<times> kstate) option" where
  "sreset sem count s =
     (if isbadsem sem \<or> count < 0 \<or> sstate (semaph s sem) = SFREE then Some (SYSERR, s)
      else do {
        s1 \<leftarrow> release_all (sqhead (semaph s sem)) s;
        (_, s2) \<leftarrow> resched (set_semcnt sem count s1);
        Some (OK, s2)
      })"

definition sdelete :: "int \<Rightarrow> kstate \<Rightarrow> (int \<times> kstate) option" where
  "sdelete sem s =
     (if isbadsem sem \<or> sstate (semaph s sem) = SFREE then Some (SYSERR, s)
      else
        let s1 = set_sstate sem SFREE s
        in if nonempty (qtab s1) (sqhead (semaph s1 sem))
           then do {
             s2 \<leftarrow> release_all (sqhead (semaph s1 sem)) s1;
             (_, s3) \<leftarrow> resched s2;
             Some (OK, s3)
           }
           else Some (OK, s1))"

section \<open>Changing a semaphore\<close>

text \<open>The count of one semaphore agrees with its queue.\<close>

definition sem_ok :: "sentry \<Rightarrow> int list \<Rightarrow> bool" where
  "sem_ok e xs \<longleftrightarrow> (case sstate e of SFREE \<Rightarrow> xs = []
     | SUSED \<Rightarrow> int (length xs) = max 0 (- semcnt e) \<and> semcnt e \<le> MAXINT)"

lemma ksem_alt:
  "ksem s L \<longleftrightarrow> 0 \<le> nextsem s \<and> nextsem s < NSEM \<and> (\<forall>i. \<not> isbadsem i \<longrightarrow> sem_ok (semaph s i) (L i))"
  by (simp add: ksem_def sem_ok_def)

lemma kwf_irrelevant [simp]:
  "kwf (s\<lparr>preempt := v\<rparr>) L = kwf s L" "kwf (s\<lparr>mem := m\<rparr>) L = kwf s L"
  "kwf (s\<lparr>numproc := v\<rparr>) L = kwf s L" "kwf (s\<lparr>xcalls := xs\<rparr>) L = kwf s L"
  "kwf (s\<lparr>defclk := v\<rparr>) L = kwf s L" "kwf (s\<lparr>clkdiff := v\<rparr>) L = kwf s L"
  "kwf (s\<lparr>clktime := v\<rparr>) L = kwf s L" "kwf (s\<lparr>ctr100 := v\<rparr>) L = kwf s L"
  "kwf (s\<lparr>files := fs\<rparr>) L = kwf s L"
  by (simp_all add: kwf_def kclk_def ksem_alt)

lemma sem_okD: "sem_ok e xs \<Longrightarrow> sstate e = SUSED \<Longrightarrow>
    int (length xs) = max 0 (- semcnt e) \<and> semcnt e \<le> MAXINT"
  by (simp add: sem_ok_def)

lemma kwf_sem_ok: "kwf s L \<Longrightarrow> \<not> isbadsem i \<Longrightarrow> sem_ok (semaph s i) (L i)"
  using kwfD(2) by (auto simp: ksem_alt)

lemma kq_upd_sem:
  assumes "kq s L X" "sqhead (f (semaph s i)) = sqhead (semaph s i)"
    "sqtail (f (semaph s i)) = sqtail (semaph s i)"
  shows "kq (upd_sem i f s) L X"
  using assms by (simp add: kq_def layout_def kprocs_def pmember_def upd_sem_def)

lemma kclk_upd_sem [simp]: "kclk (upd_sem i f s) L = kclk s L"
  by (simp add: kclk_def)

lemma krun_upd_sem [simp]: "krun (upd_sem i f s) L = krun s L"
  by (simp add: krun_def)

text \<open>One semaphore and its list change together.\<close>

lemma ksem_change:
  assumes "ksem s L" "\<And>j. \<not> isbadsem j \<Longrightarrow> j \<noteq> i \<Longrightarrow> semaph s' j = semaph s j \<and> L' j = L j"
    and "sem_ok (semaph s' i) (L' i)" "nextsem s' = nextsem s"
  shows "ksem s' L'"
  using assms unfolding ksem_alt by metis

lemma kclk_cong:
  assumes "kclk s L" "slnempty s' = slnempty s" "sltop s' = sltop s" "L' CLKQ = L CLKQ"
    "prescaler s' = prescaler s" "rtcScaler s' = rtcScaler s"
    "\<And>p. p \<in> set (L CLKQ) \<Longrightarrow> qkey (qtab s' p) = qkey (qtab s p)"
  shows "kclk s' L'"
proof -
  have "sum_list (map (\<lambda>p. qkey (qtab s' p)) (L CLKQ)) = sum_list (map (\<lambda>p. qkey (qtab s p)) (L CLKQ))"
    by (rule arg_cong [of _ _ sum_list], rule map_cong [OF refl]) (rule assms(7))
  then show ?thesis using assms unfolding kclk_def by simp
qed

text \<open>Queues of a family are no longer than the process table.\<close>

lemma qfam_length:
  assumes "qfam q L" "isqueue n"
  shows "int (length (L n)) \<le> NPROC"
proof -
  have "card (set (L n)) \<le> card {0..<NPROC}"
    by (rule card_mono) (use qfam_range [OF assms] in auto)
  then show ?thesis using distinct_card [OF qfam_distinct [OF assms]] by (simp add: NPROC_def)
qed

section \<open>wait\<close>

lemma set_semcnt_simps [simp]:
  "semaph (set_semcnt i v s) = (semaph s)(i := (semaph s i)\<lparr>semcnt := v\<rparr>)"
  "proctab (set_semcnt i v s) = proctab s" "qtab (set_semcnt i v s) = qtab s"
  "currpid (set_semcnt i v s) = currpid s" "nextsem (set_semcnt i v s) = nextsem s"
  "slnempty (set_semcnt i v s) = slnempty s" "sltop (set_semcnt i v s) = sltop s"
  "rdyhead (set_semcnt i v s) = rdyhead s" "rdytail (set_semcnt i v s) = rdytail s"
  "preempt (set_semcnt i v s) = preempt s" "prescaler (set_semcnt i v s) = prescaler s"
  "rtcScaler (set_semcnt i v s) = rtcScaler s"
  by (simp_all add: set_semcnt_def)

lemma kq_set_semcnt: "kq s L X \<Longrightarrow> kq (set_semcnt i v s) L X"
  unfolding set_semcnt_def by (rule kq_upd_sem) simp_all

lemma kframe_set_semcnt:
  assumes "kframe s L s' L'" "semaph s' = semaph s" "\<not> isbadsem i"
  shows "kframe (set_semcnt i v s) (L(i := xs)) (set_semcnt i v s') (L'(i := xs))"
proof -
  have "set_semcnt i v s' = (set_semcnt i v s)\<lparr>proctab := proctab s', qtab := qtab s',
      preempt := preempt s', currpid := currpid s'\<rparr>"
    by (rule kstate.equality)
       (simp_all add: set_semcnt_def upd_sem_def kframe_fields [OF assms(1)])
  then show ?thesis
    using kframeD(1-3) [OF assms(1)] kframeD(4,6) [OF assms(1)] assms(3)
    unfolding kframe_def by simp
qed

lemma kown_set_semcnt [simp]: "kown s (set_semcnt i v s') = kown s s'" "kown s (set_sstate i st s') = kown s s'"
  by (simp_all add: set_semcnt_def set_sstate_def)

lemma krun_set_semcnt [simp]: "krun (set_semcnt i v s) L = krun s L"
  by (simp add: set_semcnt_def)

lemma wait_free_wf:
  assumes "kwf s L" "krun s L" "\<not> isbadsem i" "sstate (semaph s i) = SUSED" "0 < semcnt (semaph s i)"
  defines "s1 \<equiv> set_semcnt i (semcnt (semaph s i) - 1) s"
  shows "wait i s = Some (OK, s1)" "kwf s1 L" "krun s1 L"
proof -
  note W = kwfD [OF assms(1)]
  have ok: "int (length (L i)) = max 0 (- semcnt (semaph s i))" "semcnt (semaph s i) \<le> MAXINT"
    using sem_okD [OF kwf_sem_ok [OF assms(1,3)] assms(4)] by simp_all
  show "wait i s = Some (OK, s1)"
    using assms(3-5) ok(2) by (simp add: wait_def s1_def MININT_def)
  have "ksem s1 L"
    by (rule ksem_change [OF W(2), of i]) (use ok assms(4,5) in \<open>simp_all add: s1_def sem_ok_def\<close>)
  moreover have "kclk s1 L" by (rule kclk_cong [OF W(3)]) (simp_all add: s1_def)
  moreover have "kq s1 L {}" unfolding s1_def by (rule kq_set_semcnt [OF W(1)])
  ultimately show "kwf s1 L" by (simp add: kwf_def)
  show "krun s1 L" using assms(2) by (simp add: s1_def)
qed

text \<open>The state in which a waiting process gives up the processor.\<close>

definition wait_block :: "int \<Rightarrow> kstate \<Rightarrow> kstate" where
  "wait_block i s =
     (let s1 = set_semcnt i (semcnt (semaph s i) - 1) s;
          s2 = upd_proc (currpid s) (pstate_update (\<lambda>_. PRWAIT) \<circ> psem_update (\<lambda>_. i)) s1
      in s2\<lparr>qtab := snd (enqueue (currpid s) (qhead i + 1) (qtab s))\<rparr>)"

lemma enqueue_qkey [simp]: "qkey (snd (enqueue p t q) i) = qkey (q i)"
  by (simp add: enqueue_def Let_def queue_upd)

lemma kwf_wait_block:
  assumes "kwf s L" "krun s L" "\<not> isbadsem i" "sstate (semaph s i) = SUSED"
    "semcnt (semaph s i) \<le> 0" "currpid s \<noteq> NULLPROC"
  shows "kwf (wait_block i s) (L(i := L i @ [currpid s]))"
proof -
  let ?c = "currpid s"
  let ?f = "pstate_update (\<lambda>_. PRWAIT) \<circ> psem_update (\<lambda>_. i)"
  let ?q = "snd (enqueue ?c (qhead i + 1) (qtab s))"
  let ?s1 = "set_semcnt i (semcnt (semaph s i) - 1) s"
  let ?s2 = "upd_proc ?c ?f ?s1"
  let ?L = "L(i := L i @ [?c])"
  note W = kwfD [OF assms(1)] and c = kwf_running [OF assms(1,2)]
  have k: "kwfx s L {?c}" by (rule kwf_capture [OF assms(1) c(1,3)])
  have "\<not> isbadpid ?c" using c(1) assms(6) by (auto simp: isbadpid_def NULLPROC_def)
  then have pr: "pprio_ok (proctab s ?c)" by (rule kwf_pprio_ok [OF assms(1)])
  have k2: "kq ?s2 L {?c}"
  proof (rule kq_upd)
    show "kq ?s1 L {?c}" by (rule kq_set_semcnt [OF kwfxD(1) [OF k]])
    show "pprio_ok (?f (proctab ?s1 ?c))" using pr c(2) by (simp add: pprio_ok_def)
  qed (use assms(6) in simp_all)
  have q: "qfam ?q ?L"
    by (rule qfam_enqueue [OF kqD(2) [OF W(1)]]) (use assms(3) c(1) kqD(5) [OF kwfxD(1) [OF k]] in simp_all)
  have "kq (?s2\<lparr>qtab := ?q\<rparr>) ?L ({?c} - {?c})"
    by (rule kq_put [OF k2 singletonI q]) (use assms(3) in \<open>simp_all add: ploc_def\<close>)
  then have "kq (wait_block i s) ?L {}" by (simp add: wait_block_def Let_def)
  moreover have "ksem (wait_block i s) ?L"
  proof (rule ksem_change [OF W(2), of i])
    have "int (length (L i)) = max 0 (- semcnt (semaph s i))" "semcnt (semaph s i) \<le> MAXINT"
      using sem_okD [OF kwf_sem_ok [OF assms(1,3)] assms(4)] by simp_all
    then show "sem_ok (semaph (wait_block i s) i) (?L i)"
      using assms(4,5) by (simp add: wait_block_def Let_def sem_ok_def)
  qed (simp_all add: wait_block_def Let_def)
  moreover have "kclk (wait_block i s) ?L"
    by (rule kclk_cong [OF W(3)]) (use assms(3) in \<open>simp_all add: wait_block_def Let_def\<close>)
  ultimately show ?thesis by (simp add: kwf_def)
qed

lemma wait_block_wf:
  assumes "kwf s L" "krun s L" "\<not> isbadsem i" "sstate (semaph s i) = SUSED"
    "semcnt (semaph s i) \<le> 0" "currpid s \<noteq> NULLPROC"
  obtains s' L' where "wait i s = Some (OK, s')" "kwf s' L'" "krun s' L'"
    "L' i = L i @ [currpid s]" "\<And>j. \<not> isbadsem j \<Longrightarrow> j \<noteq> i \<Longrightarrow> L' j = L j" "L' CLKQ = L CLKQ"
    "currpid s' = last (L RDYQ)" "semaph s' = semaph (set_semcnt i (semcnt (semaph s i) - 1) s)"
    "\<And>p. pst s' p = (if p = currpid s' then PRCURR else if p = currpid s then PRWAIT else pst s p)"
    "kown s s'"
proof -
  let ?s = "wait_block i s" and ?c = "currpid s"
  let ?L = "L(i := L i @ [?c])"
  have len: "int (length (L i)) = - semcnt (semaph s i)"
    using sem_okD [OF kwf_sem_ok [OF assms(1,3)] assms(4)] assms(5) by simp
  have "int (length (L i)) \<le> NPROC"
    by (rule qfam_length [OF kqD(2) [OF kwfD(1) [OF assms(1)]]]) (use assms(3) in simp)
  then have no_ov: "int16 (semcnt (semaph s i) - 1)"
    using len assms(5) by (simp add: NPROC_def MININT_def MAXINT_def)
  have tail: "sqtail (semaph s i) = qhead i + 1"
    using kq_layout(5) [OF kwfD(1) [OF assms(1)] assms(3)] by simp
  obtain s' L' where r: "resched ?s = Some (OK, s')" "kwf s' L'" "krun s' L'" "kframe ?s ?L s' L'"
    "currpid s' = fst (dispatch (prio ?s) (currpid ?s) (pst ?s (currpid ?s) = PRCURR) (?L RDYQ))"
    "\<And>p. pst s' p = (if p = currpid s' then PRCURR
       else if p = currpid ?s \<and> pst ?s p = PRCURR then PRREADY else pst ?s p)"
    by (rule resched_wf [OF kwf_wait_block [OF assms]]) blast
  have c: "pst ?s ?c = PRWAIT" "currpid ?s = ?c" "semaph ?s = semaph (set_semcnt i (semcnt (semaph s i) - 1) s)"
    "\<And>p. p \<noteq> ?c \<Longrightarrow> pst ?s p = pst s p"
    by (simp_all add: wait_block_def Let_def)
  show thesis
  proof (rule that [OF _ r(2,3)])
    show "wait i s = Some (OK, s')"
      using assms(3-5) no_ov r(1) tail by (auto simp: wait_def wait_block_def Let_def split: prod.splits)
    show "L' i = L i @ [?c]" "\<And>j. \<not> isbadsem j \<Longrightarrow> j \<noteq> i \<Longrightarrow> L' j = L j" "L' CLKQ = L CLKQ"
      using kframeD(1) [OF r(4)] assms(3) by simp_all
    show "currpid s' = last (L RDYQ)" using r(5) c assms(3) by simp
    show "semaph s' = semaph (set_semcnt i (semcnt (semaph s i) - 1) s)"
      using kframe_fields(1) [OF r(4)] c by simp
    show "pst s' p = (if p = currpid s' then PRCURR else if p = ?c then PRWAIT else pst s p)" for p
      using r(6) [of p] c by simp
    have "kown s ?s"
      using kwf_running(2) [OF assms(1,2)]
      by (auto simp: wait_block_def Let_def kown_def set_semcnt_def upd_sem_def upd_proc_def)
    then show "kown s s'" by (rule kown_trans [OF _ kframe_kown [OF r(4)]])
  qed
qed

section \<open>signal and signaln\<close>

lemma kwf_not_null:
  assumes "kq s L X" "ispid p" "pst s p \<notin> {PRCURR, PRREADY}"
  shows "\<not> isbadpid p"
  using kqD(3) [OF assms(1)] assms(2,3) by (auto simp: kprocs_def isbadpid_def NULLPROC_def)

lemma dequeue_qkey [simp]: "qkey (snd (dequeue p q) i) = qkey (q i)"
  by (simp add: dequeue_def Let_def queue_upd)

text \<open>The first process of a semaphore's list is taken off and the count goes up.\<close>

lemma signal_take:
  assumes "kwf s L" "\<not> isbadsem i" "sstate (semaph s i) = SUSED" "L i = p # xs"
  defines "s1 \<equiv> set_semcnt i (semcnt (semaph s i) + 1) s"
  shows "getfirst (sqhead (semaph s i)) (qtab s) = (p, snd (dequeue p (qtab s)))"
    "kwfx (s1\<lparr>qtab := snd (dequeue p (qtab s))\<rparr>) (L(i := xs)) {p}"
    "kframe s1 (L(i := xs)) (s1\<lparr>qtab := snd (dequeue p (qtab s))\<rparr>) (L(i := xs))"
    "\<not> isbadpid p" "pst s p = PRWAIT" "semcnt (semaph s i) < 0"
proof -
  note W = kwfD [OF assms(1)]
  let ?q = "snd (dequeue p (qtab s))"
  have mem: "p \<in> set (L i)" using assms(4) by simp
  have ok: "int (length (L i)) = max 0 (- semcnt (semaph s i))"
    using sem_okD [OF kwf_sem_ok [OF assms(1,2)] assms(3)] by simp
  then show neg: "semcnt (semaph s i) < 0" using assms(4) by (simp split: if_splits)
  show w: "pst s p = PRWAIT" by (rule kq_waiting [OF W(1) assms(2) mem])
  then show "\<not> isbadpid p"
    using kwf_not_null [OF W(1)] kq_mem_ispid [OF W(1) _ mem] assms(2) by simp
  have hd: "sqhead (semaph s1 i) = qhead i"
    using kq_layout(4) [OF W(1) assms(2)] by (simp add: s1_def)
  have g: "getfirst (qhead i) (qtab s) = (p, ?q)" "qfam ?q (L(i := xs))"
    using qfam_getfirst(2) [OF kqD(2) [OF W(1)] _ assms(4)] assms(2) by simp_all
  show "getfirst (sqhead (semaph s i)) (qtab s) = (p, ?q)" using g(1) hd by (simp add: s1_def)
  have d: "distinct (L i)" by (rule qfam_distinct [OF kqD(2) [OF W(1)]]) (use assms(2) in simp)
  have "kq s1 L {}" unfolding s1_def by (rule kq_set_semcnt [OF W(1)])
  then have "kq (s1\<lparr>qtab := ?q\<rparr>) (L(i := xs)) {p}"
    by (rule kq_remove [OF _ g(2)]) (use assms(2,4) d in \<open>auto simp: s1_def\<close>)
  moreover have "ksem (s1\<lparr>qtab := ?q\<rparr>) (L(i := xs))"
    by (rule ksem_change [OF W(2), of i]) (use ok assms(3,4) neg in \<open>simp_all add: s1_def sem_ok_def MAXINT_def\<close>)
  moreover have "kclk (s1\<lparr>qtab := ?q\<rparr>) (L(i := xs))"
    by (rule kclk_cong [OF W(3)]) (use assms(2) in \<open>simp_all add: s1_def\<close>)
  ultimately show "kwfx (s1\<lparr>qtab := ?q\<rparr>) (L(i := xs)) {p}" by (simp add: kwfx_def)
  show "kframe s1 (L(i := xs)) (s1\<lparr>qtab := ?q\<rparr>) (L(i := xs))"
    by (simp add: kframe_def s1_def)
qed

lemma signal_one_wf:
  assumes "kwf s L" "\<not> isbadsem i" "sstate (semaph s i) = SUSED" "semcnt (semaph s i) < MAXINT"
  defines "s1 \<equiv> set_semcnt i (semcnt (semaph s i) + 1) s"
  obtains s' L' where "signal_one False i s = Some s'" "kwf s' L'" "kframe s1 (L(i := tl (L i))) s' L'"
    "currpid s' = currpid s" "preempt s' = preempt s"
    "\<And>p. pst s' p = (if L i \<noteq> [] \<and> p = hd (L i) then PRREADY else pst s p)"
    "set (L' RDYQ) = set (take 1 (L i)) \<union> set (L RDYQ)"
proof (cases "L i")
  case Nil
  note W = kwfD [OF assms(1)]
  have ok: "int (length (L i)) = max 0 (- semcnt (semaph s i))"
    using sem_okD [OF kwf_sem_ok [OF assms(1,2)] assms(3)] by simp
  then have nn: "0 \<le> semcnt (semaph s i)" using Nil by (simp split: if_splits)
  have "ksem s1 L"
    by (rule ksem_change [OF W(2), of i]) (use Nil nn assms(3,4) in \<open>simp_all add: s1_def sem_ok_def\<close>)
  moreover have "kclk s1 L" by (rule kclk_cong [OF W(3)]) (simp_all add: s1_def)
  moreover have "kq s1 L {}" unfolding s1_def by (rule kq_set_semcnt [OF W(1)])
  ultimately have w: "kwf s1 L" by (simp add: kwf_def)
  have eq: "signal_one False i s = Some s1"
    using nn assms(4) by (simp add: signal_one_def s1_def MININT_def MAXINT_def)
  have same: "L(i := tl (L i)) = L" using Nil by (simp add: fun_upd_idem)
  show thesis
    by (rule that [OF eq w]) (use Nil same in \<open>simp_all add: kframe_refl s1_def\<close>)
next
  case (Cons p xs)
  note t = signal_take [OF assms(1-3) Cons, folded s1_def]
  let ?s1 = "s1\<lparr>qtab := snd (dequeue p (qtab s))\<rparr>"
  have fr: "pst ?s1 p \<noteq> PRFREE" using t(5) by (simp add: s1_def)
  obtain s' where r: "ready p False ?s1 = Some (OK, s')"
    "kwfx s' ((L(i := xs))(RDYQ := key_insert (prio ?s1) (prio ?s1 p) p ((L(i := xs)) RDYQ))) ({p} - {p})"
    "kframe ?s1 (L(i := xs)) s' ((L(i := xs))(RDYQ := key_insert (prio ?s1) (prio ?s1 p) p ((L(i := xs)) RDYQ)))"
    "currpid s' = currpid ?s1" "preempt s' = preempt ?s1"
    "\<And>x. pst s' x = (if x = p then PRREADY else pst ?s1 x)"
    by (rule ready_no_wf [OF t(2) singletonI t(4) fr]) blast
  have "int16 (semcnt (semaph s i) + 1)"
    using t(6) kwf_sem_ok [OF assms(1,2)] assms(3) qfam_length [OF kqD(2) [OF kwfD(1) [OF assms(1)]], of i] assms(2)
    by (simp add: sem_ok_def NPROC_def MININT_def MAXINT_def)
  then have eq: "signal_one False i s = Some s'"
    using t(1,6) r(1) by (simp add: signal_one_def s1_def [symmetric])
  have w: "kwf s' ((L(i := xs))(RDYQ := key_insert (prio ?s1) (prio ?s1 p) p ((L(i := xs)) RDYQ)))"
    using r(2) by simp
  have f: "kframe s1 (L(i := tl (L i))) s'
      ((L(i := xs))(RDYQ := key_insert (prio ?s1) (prio ?s1 p) p ((L(i := xs)) RDYQ)))"
    using kframe_trans [OF t(3) r(3)] Cons by simp
  show thesis
    by (rule that [OF eq w f]) (use Cons r(4-6) assms(2) in \<open>simp_all add: s1_def\<close>)
qed

lemma signal_times_wf:
  assumes "kwf s L" "\<not> isbadsem i" "sstate (semaph s i) = SUSED" "semcnt (semaph s i) + int n \<le> MAXINT"
  shows "\<exists>s' L'. signal_times n i s = Some s' \<and> kwf s' L' \<and>
    kframe (set_semcnt i (semcnt (semaph s i) + int n) s) (L(i := drop n (L i))) s' L' \<and>
    currpid s' = currpid s \<and> preempt s' = preempt s \<and>
    (\<forall>p. pst s' p = (if p \<in> set (take n (L i)) then PRREADY else pst s p)) \<and>
    set (L' RDYQ) = set (take n (L i)) \<union> set (L RDYQ)"
  using assms
proof (induction n arbitrary: s L)
  case 0
  have "set_semcnt i (semcnt (semaph s i)) s = s"
    by (simp add: set_semcnt_def upd_sem_def)
  then show ?case using "0.prems"(1) by (auto simp: kframe_refl fun_upd_idem intro!: exI [of _ L])
next
  case (Suc n)
  let ?s0 = "set_semcnt i (semcnt (semaph s i) + 1) s" and ?L0 = "L(i := tl (L i))"
  have less: "semcnt (semaph s i) < MAXINT" using Suc.prems(4) by simp
  obtain s1 L1 where r: "signal_one False i s = Some s1" "kwf s1 L1" "kframe ?s0 ?L0 s1 L1"
    "currpid s1 = currpid s" "preempt s1 = preempt s"
    "\<And>p. pst s1 p = (if L i \<noteq> [] \<and> p = hd (L i) then PRREADY else pst s p)"
    "set (L1 RDYQ) = set (take 1 (L i)) \<union> set (L RDYQ)"
    by (rule signal_one_wf [OF Suc.prems(1-3) less]) blast
  have i: "semaph s1 = semaph ?s0" "L1 i = tl (L i)"
    using kframe_fields(1) [OF r(3)] kframeD(1) [OF r(3), of i] Suc.prems(2) by simp_all
  have pre: "sstate (semaph s1 i) = SUSED" "semcnt (semaph s1 i) + int n \<le> MAXINT"
    using i(1) Suc.prems(3,4) by simp_all
  obtain s2 L2 where q: "signal_times n i s1 = Some s2" "kwf s2 L2"
    "kframe (set_semcnt i (semcnt (semaph s1 i) + int n) s1) (L1(i := drop n (L1 i))) s2 L2"
    "currpid s2 = currpid s1" "preempt s2 = preempt s1"
    "\<And>p. pst s2 p = (if p \<in> set (take n (L1 i)) then PRREADY else pst s1 p)"
    "set (L2 RDYQ) = set (take n (L1 i)) \<union> set (L1 RDYQ)"
    using Suc.IH [OF r(2) Suc.prems(2) pre] by blast
  let ?k = "semcnt (semaph s i) + int (Suc n)"
  have cnt: "semcnt (semaph s1 i) + int n = ?k" using i(1) by simp
  have step: "kframe (set_semcnt i ?k s) (L(i := drop (Suc n) (L i)))
      (set_semcnt i ?k s1) (L1(i := drop n (L1 i)))"
  proof -
    have "kframe (set_semcnt i ?k ?s0) (?L0(i := drop n (tl (L i)))) (set_semcnt i ?k s1) (L1(i := drop n (tl (L i))))"
      by (rule kframe_set_semcnt [OF r(3) i(1) Suc.prems(2)])
    moreover have "set_semcnt i ?k ?s0 = set_semcnt i ?k s"
      by (simp add: set_semcnt_def upd_sem_def)
    ultimately show ?thesis using i(2) by (simp add: drop_Suc)
  qed
  have tk: "set (take (Suc n) (L i)) = set (take 1 (L i)) \<union> set (take n (L1 i))"
    using i(2) by (cases "L i") simp_all
  have "pst s2 p = (if p \<in> set (take (Suc n) (L i)) then PRREADY else pst s p)" for p
    using q(6) [of p] r(6) [of p] i(2) by (cases "L i") auto
  moreover have "signal_times (Suc n) i s = Some s2" using r(1) q(1) by simp
  moreover have "kframe (set_semcnt i ?k s) (L(i := drop (Suc n) (L i))) s2 L2"
    using kframe_trans [OF step] q(3) cnt by simp
  moreover have "set (L2 RDYQ) = set (take (Suc n) (L i)) \<union> set (L RDYQ)"
    using q(7) r(7) tk by auto
  ultimately show ?case using q(2,4,5) r(4,5) by metis
qed

lemma signal_wf:
  assumes "kwf s L" "krun s L" "\<not> isbadsem i" "sstate (semaph s i) = SUSED" "semcnt (semaph s i) < MAXINT"
  obtains s' L' where "signal i s = Some (OK, s')" "kwf s' L'" "krun s' L'"
    "kframe (set_semcnt i (semcnt (semaph s i) + 1) s) (L(i := tl (L i))) s' L'"
    "\<And>p. pst s' p = (if p = currpid s' then PRCURR else if L i \<noteq> [] \<and> p = hd (L i) then PRREADY
       else if p = currpid s then PRREADY else pst s p)"
    "L i = [] \<Longrightarrow> currpid s' = currpid s"
proof (cases "L i")
  case Nil
  obtain s' L' where r: "signal_one False i s = Some s'" "kwf s' L'"
    "kframe (set_semcnt i (semcnt (semaph s i) + 1) s) (L(i := tl (L i))) s' L'"
    "currpid s' = currpid s" "preempt s' = preempt s"
    "\<And>p. pst s' p = (if L i \<noteq> [] \<and> p = hd (L i) then PRREADY else pst s p)"
    "set (L' RDYQ) = set (take 1 (L i)) \<union> set (L RDYQ)"
    by (rule signal_one_wf [OF assms(1,3-5)]) blast
  have "0 \<le> semcnt (semaph s i)"
    using sem_okD [OF kwf_sem_ok [OF assms(1,3)] assms(4)] Nil by auto
  then have "signal_one True i s = signal_one False i s" by (simp add: signal_one_def)
  then have eq: "signal i s = Some (OK, s')" using r(1) assms(3,4) by (simp add: signal_def)
  have "prio s' p = prio s p" for p using kframeD(5) [OF r(3), of p] by simp
  then have k: "krun s' L'" using assms(2) r(4-7) Nil by (simp add: krun_def)
  show thesis
    by (rule that [OF eq r(2) k r(3)]) (use r(4,6) Nil kwf_running [OF assms(1,2)] in auto)
next
  case (Cons p xs)
  note t = signal_take [OF assms(1,3,4) Cons]
  let ?s0 = "set_semcnt i (semcnt (semaph s i) + 1) s"
  let ?s1 = "?s0\<lparr>qtab := snd (dequeue p (qtab s))\<rparr>"
  have fr: "pst ?s1 p \<noteq> PRFREE" using t(5) by simp
  obtain s' L' where r: "ready p True ?s1 = Some (OK, s')" "kwf s' L'" "krun s' L'"
    "kframe ?s1 (L(i := xs)) s' L'"
    "\<And>x. pst s' x = (if x = currpid s' then PRCURR else if x = p then PRREADY
       else if x = currpid ?s1 \<and> pst ?s1 x = PRCURR then PRREADY else pst ?s1 x)"
    by (rule ready_wf [OF t(2) t(4) fr]) blast
  have "int16 (semcnt (semaph s i) + 1)"
    using t(6) kwf_sem_ok [OF assms(1,3)] assms(4) qfam_length [OF kqD(2) [OF kwfD(1) [OF assms(1)]], of i] assms(3)
    by (simp add: sem_ok_def NPROC_def MININT_def MAXINT_def)
  then have eq: "signal i s = Some (OK, s')"
    using t(1,6) r(1) assms(3,4) by (simp add: signal_def signal_one_def)
  have f: "kframe ?s0 (L(i := tl (L i))) s' L'"
    using kframe_trans [OF t(3) r(4)] Cons by simp
  show thesis
    by (rule that [OF eq r(2,3) f]) (use r(5) Cons kwf_running(2) [OF assms(1,2)] in auto)
qed

lemma signaln_wf:
  assumes "kwf s L" "\<not> isbadsem i" "sstate (semaph s i) = SUSED" "0 < n"
    "semcnt (semaph s i) + n \<le> MAXINT"
  obtains s' L' where "signaln i n s = Some (OK, s')" "kwf s' L'" "krun s' L'"
    "kframe (set_semcnt i (semcnt (semaph s i) + n) s) (L(i := drop (nat n) (L i))) s' L'"
    "\<And>p. pst s' p = (if p = currpid s' then PRCURR
       else if p \<in> set (take (nat n) (L i)) then PRREADY
       else if p = currpid s \<and> pst s p = PRCURR then PRREADY else pst s p)"
proof -
  have pre: "semcnt (semaph s i) + int (nat n) \<le> MAXINT" using assms(4,5) by simp
  obtain s1 L1 where r: "signal_times (nat n) i s = Some s1" "kwf s1 L1"
    "kframe (set_semcnt i (semcnt (semaph s i) + int (nat n)) s) (L(i := drop (nat n) (L i))) s1 L1"
    "currpid s1 = currpid s"
    "\<And>p. pst s1 p = (if p \<in> set (take (nat n) (L i)) then PRREADY else pst s p)"
    using signal_times_wf [OF assms(1-3) pre] by blast
  obtain s2 L2 where q: "resched s1 = Some (OK, s2)" "kwf s2 L2" "krun s2 L2" "kframe s1 L1 s2 L2"
    "\<And>p. pst s2 p = (if p = currpid s2 then PRCURR
       else if p = currpid s1 \<and> pst s1 p = PRCURR then PRREADY else pst s1 p)"
    by (rule resched_wf [OF r(2)]) blast
  have f: "kframe (set_semcnt i (semcnt (semaph s i) + n) s) (L(i := drop (nat n) (L i))) s2 L2"
    using kframe_trans [OF r(3) q(4)] assms(4) by simp
  show thesis
    by (rule that [OF _ q(2,3) f])
       (use r(1,4,5) q(1,5) assms(2-4) in \<open>auto simp: signaln_def\<close>)
qed

section \<open>sreset and sdelete\<close>

lemma release_all_wf:
  assumes "kq s L {}" "\<not> isbadsem i"
  shows "\<exists>s' L'. release_all (qhead i) s = Some s' \<and> kq s' L' {} \<and>
    kframe s (L(i := [])) s' L' \<and> currpid s' = currpid s \<and> preempt s' = preempt s \<and>
    (\<forall>p. pst s' p = (if p \<in> set (L i) then PRREADY else pst s p))"
  using assms(1)
proof (induction "L i" arbitrary: s L)
  case Nil
  have "getfirst (qhead i) (qtab s) = (EMPTY, qtab s)"
    using qfam_getfirst(1) [OF kqD(2) [OF Nil.prems]] Nil(1) assms(2) by simp
  moreover have "L(i := []) = L" using Nil(1) by (simp add: fun_upd_idem)
  ultimately show ?case
    using Nil by (subst release_all.simps) (auto simp: kframe_refl intro!: exI [of _ L])
next
  case (Cons p xs)
  let ?q = "snd (dequeue p (qtab s))" and ?L = "L(i := xs)"
  have Li: "L i = p # xs" using Cons(2) by simp
  have g: "getfirst (qhead i) (qtab s) = (p, ?q)" "qfam ?q ?L"
    using qfam_getfirst(2) [OF kqD(2) [OF Cons.prems] _ Li] assms(2) by simp_all
  have mem: "p \<in> set (L i)" using Li by simp
  have d: "distinct (L i)" by (rule qfam_distinct [OF kqD(2) [OF Cons.prems]]) (use assms(2) in simp)
  have w: "pst s p = PRWAIT" by (rule kq_waiting [OF Cons.prems assms(2) mem])
  have bad: "\<not> isbadpid p"
    using kwf_not_null [OF Cons.prems] kq_mem_ispid [OF Cons.prems _ mem] w assms(2) by simp
  then have ne: "p \<noteq> EMPTY" by auto
  have k: "kq (s\<lparr>qtab := ?q\<rparr>) ?L {p}"
    by (rule kq_remove [OF Cons.prems g(2)]) (use assms(2) Li d in auto)
  have fr: "pst (s\<lparr>qtab := ?q\<rparr>) p \<noteq> PRFREE" using w by simp
  let ?s = "s\<lparr>qtab := ?q\<rparr>"
  let ?L1 = "?L(RDYQ := key_insert (prio ?s) (prio ?s p) p (?L RDYQ))"
  obtain s1 where r: "ready p False ?s = Some (OK, s1)" "kq s1 ?L1 ({p} - {p})"
    "kframe ?s ?L s1 ?L1" "currpid s1 = currpid ?s" "preempt s1 = preempt ?s"
    "\<And>x. pst s1 x = (if x = p then PRREADY else pst ?s x)"
    by (rule ready_no_kq [OF k singletonI bad fr]) blast
  have xs: "xs = ?L1 i" and k1: "kq s1 ?L1 {}" using assms(2) r(2) by simp_all
  obtain s2 L2 where q: "release_all (qhead i) s1 = Some s2" "kq s2 L2 {}"
    "kframe s1 (?L1(i := [])) s2 L2" "currpid s2 = currpid s1" "preempt s2 = preempt s1"
    "\<And>x. pst s2 x = (if x \<in> set (?L1 i) then PRREADY else pst s1 x)"
    using Cons(1) [OF xs k1] by blast
  have "release_all (qhead i) s = Some s2"
    using g(1) ne r(1) q(1) by (subst release_all.simps) simp
  moreover have "kframe s (L(i := [])) s2 L2"
  proof -
    have "kframe s (L(i := [])) (s\<lparr>qtab := ?q\<rparr>) (L(i := []))" by (simp add: kframe_def)
    moreover have "kframe (s\<lparr>qtab := ?q\<rparr>) (L(i := [])) s1 (?L1(i := []))"
      using r(3) assms(2) unfolding kframe_def by simp
    ultimately show ?thesis using q(3) by (blast intro: kframe_trans)
  qed
  moreover have "pst s2 x = (if x \<in> set (L i) then PRREADY else pst s x)" for x
    using q(6) [of x] r(6) [of x] Li assms(2) by auto
  moreover have "currpid s2 = currpid s" "preempt s2 = preempt s" using q(4,5) r(4,5) by simp_all
  ultimately show ?case using q(2) by blast
qed

text \<open>A semaphore entry is rewritten and its queue is empty.\<close>

lemma kwf_after_release:
  assumes "kwf s L" "\<not> isbadsem i" "kq s1 L1 {}" "kframe s (L(i := [])) s1 L1"
    and "semaph s2 = (semaph s1)(i := e)" "sem_ok e []" "sqhead e = sqhead (semaph s i)"
    "sqtail e = sqtail (semaph s i)" "s2 = upd_sem i (\<lambda>_. e) s1"
  shows "kwf s2 L1"
proof -
  note W = kwfD [OF assms(1)] and f = kframe_fields [OF assms(4)]
  have Li: "L1 i = []" and Lj: "\<And>j. \<not> isbadsem j \<Longrightarrow> j \<noteq> i \<Longrightarrow> L1 j = L j" and Lc: "L1 CLKQ = L CLKQ"
    using kframeD(1) [OF assms(4)] assms(2) by simp_all
  have "kq s2 L1 {}"
    unfolding assms(9) by (rule kq_upd_sem [OF assms(3)]) (simp_all add: assms(7,8) f)
  moreover have "ksem s2 L1"
    by (rule ksem_change [OF W(2), of i]) (use Li Lj f assms(5,6,9) in simp_all)
  moreover have "kclk s2 L1"
    by (rule kclk_cong [OF W(3)])
       (use kframeD(3) [OF assms(4)] f Lc assms(2,9) in simp_all)
  ultimately show ?thesis by (simp add: kwf_def)
qed

lemma sreset_wf:
  assumes "kwf s L" "\<not> isbadsem i" "sstate (semaph s i) = SUSED" "0 \<le> v" "v \<le> MAXINT"
  obtains s' L' where "sreset i v s = Some (OK, s')" "kwf s' L'" "krun s' L'"
    "L' i = []" "\<And>j. \<not> isbadsem j \<Longrightarrow> j \<noteq> i \<Longrightarrow> L' j = L j" "semaph s' = semaph (set_semcnt i v s)"
    "\<And>p. pst s' p = (if p = currpid s' then PRCURR else if p \<in> set (L i) then PRREADY
       else if p = currpid s \<and> pst s p = PRCURR then PRREADY else pst s p)"
    "kown s s'"
proof -
  obtain s1 L1 where r: "release_all (qhead i) s = Some s1" "kq s1 L1 {}"
    "kframe s (L(i := [])) s1 L1" "currpid s1 = currpid s"
    "\<And>p. pst s1 p = (if p \<in> set (L i) then PRREADY else pst s p)"
    using release_all_wf [OF kwfD(1) [OF assms(1)] assms(2)] by blast
  let ?s2 = "set_semcnt i v s1"
  have w: "kwf ?s2 L1"
    by (rule kwf_after_release [OF assms(1,2) r(2,3), of _ "(semaph s1 i)\<lparr>semcnt := v\<rparr>"])
       (use kframe_fields(1) [OF r(3)] assms(3-5) in \<open>simp_all add: sem_ok_def set_semcnt_def upd_sem_def\<close>)
  obtain s3 L3 where q: "resched ?s2 = Some (OK, s3)" "kwf s3 L3" "krun s3 L3" "kframe ?s2 L1 s3 L3"
    "\<And>p. pst s3 p = (if p = currpid s3 then PRCURR
       else if p = currpid ?s2 \<and> pst ?s2 p = PRCURR then PRREADY else pst ?s2 p)"
    by (rule resched_wf [OF w]) blast
  have hd: "sqhead (semaph s i) = qhead i" by (rule kq_layout(4) [OF kwfD(1) [OF assms(1)] assms(2)])
  show thesis
  proof (rule that [OF _ q(2,3)])
    show "sreset i v s = Some (OK, s3)" using assms(2-4) hd r(1) q(1) by (simp add: sreset_def)
    show "kown s s3"
      using kframe_kown [OF r(3)] kframe_kown [OF q(4)] by (simp add: kown_def set_semcnt_def)
    show "L3 i = []" using kframeD(1) [OF q(4), of i] kframeD(1) [OF r(3), of i] assms(2) by simp
    show "L3 j = L j" if "\<not> isbadsem j" "j \<noteq> i" for j
      using kframeD(1) [OF q(4), of j] kframeD(1) [OF r(3), of j] that by simp
    show "semaph s3 = semaph (set_semcnt i v s)"
      using kframe_fields(1) [OF q(4)] kframe_fields(1) [OF r(3)] by simp
    show "pst s3 p = (if p = currpid s3 then PRCURR else if p \<in> set (L i) then PRREADY
       else if p = currpid s \<and> pst s p = PRCURR then PRREADY else pst s p)" for p
      using q(5) [of p] r(4,5) by auto
  qed
qed

lemma kwf_set_sfree:
  assumes "kwf s L" "krun s L" "\<not> isbadsem i" "L i = []"
  shows "kwf (set_sstate i SFREE s) L" "krun (set_sstate i SFREE s) L"
proof -
  note W = kwfD [OF assms(1)]
  have "kq (set_sstate i SFREE s) L {}"
    unfolding set_sstate_def by (rule kq_upd_sem [OF W(1)]) simp_all
  moreover have "ksem (set_sstate i SFREE s) L"
    by (rule ksem_change [OF W(2), of i]) (simp_all add: set_sstate_def sem_ok_def assms(4))
  ultimately show "kwf (set_sstate i SFREE s) L" using W(3) by (simp add: kwf_def set_sstate_def)
  show "krun (set_sstate i SFREE s) L" using assms(2) by (simp add: set_sstate_def)
qed

lemma sdelete_wf:
  assumes "kwf s L" "krun s L" "\<not> isbadsem i" "sstate (semaph s i) = SUSED"
  obtains s' L' where "sdelete i s = Some (OK, s')" "kwf s' L'" "krun s' L'"
    "L' i = []" "\<And>j. \<not> isbadsem j \<Longrightarrow> j \<noteq> i \<Longrightarrow> L' j = L j" "semaph s' = semaph (set_sstate i SFREE s)"
    "\<And>p. pst s' p = (if p = currpid s' then PRCURR else if p \<in> set (L i) then PRREADY
       else if p = currpid s \<and> pst s p = PRCURR then PRREADY else pst s p)"
    "kown s s'"
proof (cases "L i = []")
  case True
  have hd: "sqhead (semaph s i) = qhead i" by (rule kq_layout(4) [OF kwfD(1) [OF assms(1)] assms(3)])
  have "\<not> nonempty (qtab s) (qhead i)"
    using qrep_first [OF qfam_qrep [OF kqD(2) [OF kwfD(1) [OF assms(1)]]], of i] True assms(3)
      NPROC_le_qhead [of i] by (simp add: nonempty_def)
  then have eq: "sdelete i s = Some (OK, set_sstate i SFREE s)"
    using assms(3,4) hd by (simp add: sdelete_def set_sstate_def)
  note k = kwf_set_sfree [OF assms(1-3) True]
  show thesis
    by (rule that [OF eq k]) (use True kwf_running [OF assms(1,2)] in \<open>auto simp: set_sstate_def kown_def\<close>)
next
  case False
  let ?s0 = "set_sstate i SFREE s"
  have hd: "sqhead (semaph s i) = qhead i" by (rule kq_layout(4) [OF kwfD(1) [OF assms(1)] assms(3)])
  have k0: "kq ?s0 L {}"
    unfolding set_sstate_def by (rule kq_upd_sem [OF kwfD(1) [OF assms(1)]]) simp_all
  obtain p xs where Li: "L i = p # xs" using False by (cases "L i") auto
  have "p < NPROC" using qfam_range [OF kqD(2) [OF k0], of i p] Li assms(3) by simp
  then have ne: "nonempty (qtab s) (qhead i)"
    using qrep_first [OF qfam_qrep [OF kqD(2) [OF k0]], of i] Li assms(3)
    by (simp add: nonempty_def set_sstate_def)
  obtain s1 L1 where r: "release_all (qhead i) ?s0 = Some s1" "kq s1 L1 {}"
    "kframe ?s0 (L(i := [])) s1 L1" "currpid s1 = currpid ?s0"
    "\<And>p. pst s1 p = (if p \<in> set (L i) then PRREADY else pst ?s0 p)"
    using release_all_wf [OF k0 assms(3)] by blast
  have Ln: "L1 n = (L(i := [])) n" if "isqueue n" "n \<noteq> RDYQ" for n
    by (rule kframeD(1) [OF r(3) that])
  have "ksem s1 L1"
    by (rule ksem_change [OF kwfD(2) [OF assms(1)], of i])
       (use Ln assms(3) kframe_fields [OF r(3)] in \<open>simp_all add: set_sstate_def sem_ok_def\<close>)
  moreover have "kclk s1 L1"
    by (rule kclk_cong [OF kwfD(3) [OF assms(1)]])
       (use Ln [of CLKQ] assms(3) kframe_fields [OF r(3)] kframeD(3) [OF r(3)] in
         \<open>simp_all add: set_sstate_def\<close>)
  ultimately have w: "kwf s1 L1" using r(2) by (simp add: kwf_def)
  obtain s3 L3 where q: "resched s1 = Some (OK, s3)" "kwf s3 L3" "krun s3 L3" "kframe s1 L1 s3 L3"
    "\<And>p. pst s3 p = (if p = currpid s3 then PRCURR
       else if p = currpid s1 \<and> pst s1 p = PRCURR then PRREADY else pst s1 p)"
    by (rule resched_wf [OF w]) blast
  show thesis
  proof (rule that [OF _ q(2,3)])
    show "sdelete i s = Some (OK, s3)"
      using assms(3,4) hd ne r(1) q(1) by (simp add: sdelete_def set_sstate_def)
    show "kown s s3"
      using kframe_kown [OF r(3)] kframe_kown [OF q(4)] by (simp add: kown_def set_sstate_def)
    show "L3 i = []" using kframeD(1) [OF q(4), of i] kframeD(1) [OF r(3), of i] assms(3) by simp
    show "L3 j = L j" if "\<not> isbadsem j" "j \<noteq> i" for j
      using kframeD(1) [OF q(4), of j] kframeD(1) [OF r(3), of j] that by simp
    show "semaph s3 = semaph (set_sstate i SFREE s)"
      using kframe_fields(1) [OF q(4)] kframe_fields(1) [OF r(3)] by simp
    show "pst s3 p = (if p = currpid s3 then PRCURR else if p \<in> set (L i) then PRREADY
       else if p = currpid s \<and> pst s p = PRCURR then PRREADY else pst s p)" for p
      using q(5) [of p] r(4,5) by (auto simp: set_sstate_def)
  qed
qed

section \<open>screate\<close>

text \<open>The scan looks at the entries below \<open>nextsem\<close>, cyclically.\<close>

lemma newsem_scan_spec:
  assumes "0 \<le> nextsem s" "nextsem s < NSEM"
  shows "\<exists>m r. 0 \<le> m \<and> m < NSEM \<and>
    (newsem_scan n s = (SYSERR, s\<lparr>nextsem := m\<rparr>) \<and>
       (\<forall>k < n. sstate (semaph s ((nextsem s - int k) mod NSEM)) \<noteq> SFREE) \<or>
     newsem_scan n s = (r, set_sstate r SUSED (s\<lparr>nextsem := m\<rparr>)) \<and>
       \<not> isbadsem r \<and> sstate (semaph s r) = SFREE)"
  using assms
proof (induction n arbitrary: s)
  case 0
  then show ?case by auto
next
  case (Suc n)
  let ?m = "if nextsem s - 1 < 0 then NSEM - 1 else nextsem s - 1"
  let ?s = "s\<lparr>nextsem := ?m\<rparr>"
  have m: "0 \<le> ?m" "?m < NSEM" using Suc.prems by (auto simp: NSEM_def)
  have md: "?m = (nextsem s - 1) mod NSEM"
  proof (cases "nextsem s = 0")
    case True
    then show ?thesis by (simp add: NSEM_def)
  next
    case False
    then show ?thesis using Suc.prems by (simp add: mod_pos_pos_trivial)
  qed
  show ?case
  proof (cases "sstate (semaph s (nextsem s)) = SFREE")
    case True
    then have "newsem_scan (Suc n) s = (nextsem s, set_sstate (nextsem s) SUSED ?s)"
      by (simp add: Let_def)
    moreover have "\<not> isbadsem (nextsem s)" using Suc.prems by (simp add: isbadsem_def)
    ultimately show ?thesis using True m by blast
  next
    case False
    then have step: "newsem_scan (Suc n) s = newsem_scan n ?s" by (simp add: Let_def)
    have shift: "(?m - int k) mod NSEM = (nextsem s - int (Suc k)) mod NSEM" for k
      unfolding md by (simp add: mod_simps algebra_simps)
    have zero: "nextsem s mod NSEM = nextsem s" using Suc.prems by simp
    obtain m' r where "0 \<le> m'" "m' < NSEM" and
      or: "newsem_scan n ?s = (SYSERR, ?s\<lparr>nextsem := m'\<rparr>) \<and>
         (\<forall>k < n. sstate (semaph ?s ((nextsem ?s - int k) mod NSEM)) \<noteq> SFREE) \<or>
       newsem_scan n ?s = (r, set_sstate r SUSED (?s\<lparr>nextsem := m'\<rparr>)) \<and>
         \<not> isbadsem r \<and> sstate (semaph ?s r) = SFREE"
      using Suc.IH [of ?s] m by auto
    from or show ?thesis
    proof
      assume a: "newsem_scan n ?s = (SYSERR, ?s\<lparr>nextsem := m'\<rparr>) \<and>
         (\<forall>k < n. sstate (semaph ?s ((nextsem ?s - int k) mod NSEM)) \<noteq> SFREE)"
      have "sstate (semaph s ((nextsem s - int k) mod NSEM)) \<noteq> SFREE" if "k < Suc n" for k
      proof (cases k)
        case 0
        then show ?thesis using False zero by simp
      next
        case (Suc j)
        then have "sstate (semaph s ((?m - int j) mod NSEM)) \<noteq> SFREE" using a that by simp
        then show ?thesis using shift [of j] Suc by metis
      qed
      then show ?thesis using a step \<open>0 \<le> m'\<close> \<open>m' < NSEM\<close> by auto
    next
      assume "newsem_scan n ?s = (r, set_sstate r SUSED (?s\<lparr>nextsem := m'\<rparr>)) \<and>
         \<not> isbadsem r \<and> sstate (semaph ?s r) = SFREE"
      then show ?thesis using step \<open>0 \<le> m'\<close> \<open>m' < NSEM\<close> by auto
    qed
  qed
qed

lemma newsem_cases:
  assumes "0 \<le> nextsem s" "nextsem s < NSEM"
  obtains (none) m where "0 \<le> m" "m < NSEM" "newsem s = (SYSERR, s\<lparr>nextsem := m\<rparr>)"
      "\<And>j. \<not> isbadsem j \<Longrightarrow> sstate (semaph s j) = SUSED"
    | (some) m r where "0 \<le> m" "m < NSEM" "newsem s = (r, set_sstate r SUSED (s\<lparr>nextsem := m\<rparr>))"
      "\<not> isbadsem r" "sstate (semaph s r) = SFREE"
proof -
  obtain m r where m: "0 \<le> m" "m < NSEM" and
    or: "newsem s = (SYSERR, s\<lparr>nextsem := m\<rparr>) \<and>
       (\<forall>k < nat NSEM. sstate (semaph s ((nextsem s - int k) mod NSEM)) \<noteq> SFREE) \<or>
     newsem s = (r, set_sstate r SUSED (s\<lparr>nextsem := m\<rparr>)) \<and>
       \<not> isbadsem r \<and> sstate (semaph s r) = SFREE"
    using newsem_scan_spec [OF assms, of "nat NSEM"] unfolding newsem_def by blast
  from or show thesis
  proof
    assume a: "newsem s = (SYSERR, s\<lparr>nextsem := m\<rparr>) \<and>
       (\<forall>k < nat NSEM. sstate (semaph s ((nextsem s - int k) mod NSEM)) \<noteq> SFREE)"
    have "sstate (semaph s j) = SUSED" if "\<not> isbadsem j" for j
    proof -
      obtain k where "k < nat NSEM" "(nextsem s - int k) mod NSEM = j"
        using mod_cover [of j NSEM] \<open>\<not> isbadsem j\<close> by (auto simp: isbadsem_def)
      then have "sstate (semaph s j) \<noteq> SFREE" using a by metis
      then show ?thesis by (cases "sstate (semaph s j)") simp_all
    qed
    then show thesis using none m a by blast
  qed (use some m in blast)
qed

lemma screate_wf:
  assumes "kwf s L" "krun s L" "v \<le> MAXINT"
  shows "kwf (snd (screate v s)) L \<and> krun (snd (screate v s)) L"
proof (cases "v < 0")
  case True
  then show ?thesis using assms by (simp add: screate_def)
next
  case False
  note W = kwfD [OF assms(1)]
  have nx: "0 \<le> nextsem s" "nextsem s < NSEM" using W(2) by (simp_all add: ksem_def)
  show ?thesis
  proof (rule newsem_cases [OF nx])
    fix m assume m: "0 \<le> m" "m < NSEM" "newsem s = (SYSERR, s\<lparr>nextsem := m\<rparr>)"
    have "ksem (s\<lparr>nextsem := m\<rparr>) L" using W(2) m(1,2) by (simp add: ksem_alt)
    then show ?thesis
      using W(1,3) m(3) False assms(2) by (simp add: screate_def kwf_def kclk_def krun_def)
  next
    fix m r assume m: "0 \<le> m" "m < NSEM" "newsem s = (r, set_sstate r SUSED (s\<lparr>nextsem := m\<rparr>))"
      and r: "\<not> isbadsem r" "sstate (semaph s r) = SFREE"
    let ?s = "set_semcnt r v (set_sstate r SUSED (s\<lparr>nextsem := m\<rparr>))"
    have "r \<noteq> SYSERR" using r(1) by (auto simp: isbadsem_def SYSERR_def)
    then have eq: "screate v s = (r, ?s)" using False m(3) by (simp add: screate_def)
    have "L r = []" using kwf_sem_ok [OF assms(1) r(1)] r(2) by (simp add: sem_ok_def)
    then have "sem_ok (semaph ?s r) (L r)"
      using False assms(3) by (simp add: sem_ok_def set_sstate_def)
    then have "ksem ?s L"
      using W(2) m(1,2) unfolding ksem_alt by (simp add: set_sstate_def set_semcnt_def upd_sem_def)
    moreover have "kq ?s L {}"
      unfolding set_semcnt_def set_sstate_def
      by (rule kq_upd_sem, rule kq_upd_sem) (use W(1) in simp_all)
    moreover have "kclk ?s L" using W(3) by (simp add: kclk_def set_sstate_def)
    ultimately show ?thesis
      using assms(2) eq by (simp add: kwf_def krun_def set_sstate_def)
  qed
qed

section \<open>What a semaphore is\<close>

text \<open>
  The abstract semaphore: a count and the queue of the processes that wait, nothing for an
  entry that is free. \<open>P\<close> takes one unit for a process, \<open>V\<close> gives \<open>n\<close> units back.
\<close>

type_synonym asem = "(int \<times> int list) option"

definition sem_abs :: "kstate \<Rightarrow> (int \<Rightarrow> int list) \<Rightarrow> int \<Rightarrow> asem" where
  "sem_abs s L i =
     (if isbadsem i \<or> sstate (semaph s i) = SFREE then None else Some (semcnt (semaph s i), L i))"

definition sem_P :: "int \<Rightarrow> int \<times> int list \<Rightarrow> int \<times> int list" where
  "sem_P p = (\<lambda>(c, q). (c - 1, if c \<le> 0 then q @ [p] else q))"

definition sem_V :: "int \<Rightarrow> int \<times> int list \<Rightarrow> int \<times> int list" where
  "sem_V n = (\<lambda>(c, q). (c + n, drop (nat n) q))"

lemma sem_abs_Some:
  "sem_abs s L i = Some (c, q) \<longleftrightarrow>
     \<not> isbadsem i \<and> sstate (semaph s i) = SUSED \<and> c = semcnt (semaph s i) \<and> q = L i"
  by (cases "sstate (semaph s i)") (auto simp: sem_abs_def)

lemma sem_abs_eqI:
  assumes "\<And>j. \<not> isbadsem j \<Longrightarrow> j \<noteq> i \<Longrightarrow> semaph s' j = semaph s j \<and> L' j = L j"
    and "sem_abs s' L' i = x"
  shows "sem_abs s' L' = (sem_abs s L)(i := x)"
proof
  show "sem_abs s' L' j = ((sem_abs s L)(i := x)) j" for j
    using assms(1) [of j] assms(2) by (cases "isbadsem j") (auto simp: sem_abs_def)
qed

text \<open>The invariant on counts and queues.\<close>

lemma sem_abs_count:
  "kwf s L \<Longrightarrow> sem_abs s L i = Some (c, q) \<Longrightarrow> int (length q) = max 0 (- c) \<and> c \<le> MAXINT"
  using sem_okD [OF kwf_sem_ok] by (simp add: sem_abs_Some)

lemma wait_abs:
  assumes "kwf s L" "krun s L" "currpid s \<noteq> NULLPROC" "sem_abs s L i = Some cq"
  obtains s' L' where "wait i s = Some (OK, s')" "kwf s' L'" "krun s' L'"
    "sem_abs s' L' = (sem_abs s L)(i := Some (sem_P (currpid s) cq))"
    "currpid s' = (if fst cq \<le> 0 then last (L RDYQ) else currpid s)"
proof -
  obtain c q where cq: "cq = (c, q)" by (cases cq)
  then have a: "\<not> isbadsem i" "sstate (semaph s i) = SUSED" "c = semcnt (semaph s i)" "q = L i"
    using assms(4) by (simp_all add: sem_abs_Some)
  show thesis
  proof (cases "c \<le> 0")
    case True
    obtain s' L' where r: "wait i s = Some (OK, s')" "kwf s' L'" "krun s' L'"
      "L' i = L i @ [currpid s]" "\<And>j. \<not> isbadsem j \<Longrightarrow> j \<noteq> i \<Longrightarrow> L' j = L j"
      "currpid s' = last (L RDYQ)" "semaph s' = semaph (set_semcnt i (semcnt (semaph s i) - 1) s)"
      by (rule wait_block_wf [OF assms(1,2) a(1,2) _ assms(3)]) (use True a(3) in blast)+
    have "sem_abs s' L' = (sem_abs s L)(i := Some (sem_P (currpid s) cq))"
      by (rule sem_abs_eqI) (use r a cq True in \<open>simp_all add: sem_abs_Some sem_P_def\<close>)
    then show thesis using that [OF r(1-3)] r(6) True cq by simp
  next
    case False
    then have pos: "0 < semcnt (semaph s i)" using a(3) by simp
    note r = wait_free_wf [OF assms(1,2) a(1,2) pos]
    have "sem_abs (set_semcnt i (semcnt (semaph s i) - 1) s) L =
        (sem_abs s L)(i := Some (sem_P (currpid s) cq))"
      by (rule sem_abs_eqI) (use a cq False in \<open>simp_all add: sem_abs_Some sem_P_def\<close>)
    then show thesis using that [OF r] False cq by simp
  qed
qed

lemma signaln_abs:
  assumes "kwf s L" "sem_abs s L i = Some cq" "0 < n" "fst cq + n \<le> MAXINT"
  obtains s' L' where "signaln i n s = Some (OK, s')" "kwf s' L'" "krun s' L'"
    "sem_abs s' L' = (sem_abs s L)(i := Some (sem_V n cq))"
    "\<And>p. pst s' p = (if p = currpid s' then PRCURR
       else if p \<in> set (take (nat n) (snd cq)) then PRREADY
       else if p = currpid s \<and> pst s p = PRCURR then PRREADY else pst s p)"
proof -
  obtain c q where cq: "cq = (c, q)" by (cases cq)
  then have a: "\<not> isbadsem i" "sstate (semaph s i) = SUSED" "c = semcnt (semaph s i)" "q = L i"
    using assms(2) by (simp_all add: sem_abs_Some)
  have le: "semcnt (semaph s i) + n \<le> MAXINT" using assms(4) cq a(3) by simp
  obtain s' L' where r: "signaln i n s = Some (OK, s')" "kwf s' L'" "krun s' L'"
    "kframe (set_semcnt i (semcnt (semaph s i) + n) s) (L(i := drop (nat n) (L i))) s' L'"
    "\<And>p. pst s' p = (if p = currpid s' then PRCURR
       else if p \<in> set (take (nat n) (L i)) then PRREADY
       else if p = currpid s \<and> pst s p = PRCURR then PRREADY else pst s p)"
    by (rule signaln_wf [OF assms(1) a(1,2) assms(3) le]) blast
  have "sem_abs s' L' = (sem_abs s L)(i := Some (sem_V n cq))"
    by (rule sem_abs_eqI)
       (use kframeD(1) [OF r(4)] kframe_fields(1) [OF r(4)] a cq in \<open>simp_all add: sem_abs_Some sem_V_def\<close>)
  then show thesis using that [OF r(1-3)] r(5) cq a(4) by simp
qed

lemma signal_abs:
  assumes "kwf s L" "krun s L" "sem_abs s L i = Some cq" "fst cq < MAXINT"
  obtains s' L' where "signal i s = Some (OK, s')" "kwf s' L'" "krun s' L'"
    "sem_abs s' L' = (sem_abs s L)(i := Some (sem_V 1 cq))"
    "\<And>p. pst s' p = (if p = currpid s' then PRCURR
       else if snd cq \<noteq> [] \<and> p = hd (snd cq) \<or> p = currpid s then PRREADY else pst s p)"
proof -
  obtain c q where cq: "cq = (c, q)" by (cases cq)
  then have a: "\<not> isbadsem i" "sstate (semaph s i) = SUSED" "c = semcnt (semaph s i)" "q = L i"
    using assms(3) by (simp_all add: sem_abs_Some)
  have le: "semcnt (semaph s i) < MAXINT" using assms(4) cq a(3) by simp
  obtain s' L' where r: "signal i s = Some (OK, s')" "kwf s' L'" "krun s' L'"
    "kframe (set_semcnt i (semcnt (semaph s i) + 1) s) (L(i := tl (L i))) s' L'"
    "\<And>p. pst s' p = (if p = currpid s' then PRCURR else if L i \<noteq> [] \<and> p = hd (L i) then PRREADY
       else if p = currpid s then PRREADY else pst s p)"
    by (rule signal_wf [OF assms(1,2) a(1,2) le]) blast
  have "sem_abs s' L' = (sem_abs s L)(i := Some (sem_V 1 cq))"
    by (rule sem_abs_eqI)
       (use kframeD(1) [OF r(4)] kframe_fields(1) [OF r(4)] a cq in
         \<open>simp_all add: sem_abs_Some sem_V_def drop_Suc\<close>)
  then show thesis using that [OF r(1-3)] r(5) cq a(4) by simp
qed

lemma sreset_abs:
  assumes "kwf s L" "sem_abs s L i = Some cq" "0 \<le> v" "v \<le> MAXINT"
  obtains s' L' where "sreset i v s = Some (OK, s')" "kwf s' L'" "krun s' L'"
    "sem_abs s' L' = (sem_abs s L)(i := Some (v, []))"
    "\<And>p. pst s' p = (if p = currpid s' then PRCURR else if p \<in> set (snd cq) then PRREADY
       else if p = currpid s \<and> pst s p = PRCURR then PRREADY else pst s p)"
proof -
  obtain c q where cq: "cq = (c, q)" by (cases cq)
  then have a: "\<not> isbadsem i" "sstate (semaph s i) = SUSED" "q = L i"
    using assms(2) by (simp_all add: sem_abs_Some)
  obtain s' L' where r: "sreset i v s = Some (OK, s')" "kwf s' L'" "krun s' L'"
    "L' i = []" "\<And>j. \<not> isbadsem j \<Longrightarrow> j \<noteq> i \<Longrightarrow> L' j = L j" "semaph s' = semaph (set_semcnt i v s)"
    "\<And>p. pst s' p = (if p = currpid s' then PRCURR else if p \<in> set (L i) then PRREADY
       else if p = currpid s \<and> pst s p = PRCURR then PRREADY else pst s p)"
    by (rule sreset_wf [OF assms(1) a(1,2) assms(3,4)]) blast
  have "sem_abs s' L' = (sem_abs s L)(i := Some (v, []))"
    by (rule sem_abs_eqI) (use r a in \<open>simp_all add: sem_abs_Some\<close>)
  then show thesis using that [OF r(1-3)] r(7) cq a(3) by simp
qed

lemma sdelete_abs:
  assumes "kwf s L" "krun s L" "sem_abs s L i = Some cq"
  obtains s' L' where "sdelete i s = Some (OK, s')" "kwf s' L'" "krun s' L'"
    "sem_abs s' L' = (sem_abs s L)(i := None)"
    "\<And>p. pst s' p = (if p = currpid s' then PRCURR else if p \<in> set (snd cq) then PRREADY
       else if p = currpid s \<and> pst s p = PRCURR then PRREADY else pst s p)"
proof -
  obtain c q where cq: "cq = (c, q)" by (cases cq)
  then have a: "\<not> isbadsem i" "sstate (semaph s i) = SUSED" "q = L i"
    using assms(3) by (simp_all add: sem_abs_Some)
  obtain s' L' where r: "sdelete i s = Some (OK, s')" "kwf s' L'" "krun s' L'"
    "L' i = []" "\<And>j. \<not> isbadsem j \<Longrightarrow> j \<noteq> i \<Longrightarrow> L' j = L j" "semaph s' = semaph (set_sstate i SFREE s)"
    "\<And>p. pst s' p = (if p = currpid s' then PRCURR else if p \<in> set (L i) then PRREADY
       else if p = currpid s \<and> pst s p = PRCURR then PRREADY else pst s p)"
    by (rule sdelete_wf [OF assms(1,2) a(1,2)]) blast
  have "sem_abs s' L' = (sem_abs s L)(i := None)"
    by (rule sem_abs_eqI) (use r a in \<open>simp_all add: sem_abs_def set_sstate_def\<close>)
  then show thesis using that [OF r(1-3)] r(7) cq a(3) by simp
qed

lemma screate_abs:
  assumes "kwf s L" "0 \<le> v"
  obtains (full) s' where "screate v s = (SYSERR, s')" "\<And>i. \<not> isbadsem i \<Longrightarrow> sem_abs s L i \<noteq> None"
      "sem_abs s' L = sem_abs s L"
    | (new) i s' where "screate v s = (i, s')" "\<not> isbadsem i" "sem_abs s L i = None"
      "sem_abs s' L = (sem_abs s L)(i := Some (v, []))"
proof -
  have nx: "0 \<le> nextsem s" "nextsem s < NSEM" using kwfD(2) [OF assms(1)] by (simp_all add: ksem_def)
  show thesis
  proof (rule newsem_cases [OF nx])
    fix m assume m: "newsem s = (SYSERR, s\<lparr>nextsem := m\<rparr>)"
      "\<And>j. \<not> isbadsem j \<Longrightarrow> sstate (semaph s j) = SUSED"
    have "screate v s = (SYSERR, s\<lparr>nextsem := m\<rparr>)" using m(1) assms(2) by (simp add: screate_def)
    then show thesis by (rule full) (use m(2) in \<open>auto simp: sem_abs_def\<close>)
  next
    fix m r assume m: "newsem s = (r, set_sstate r SUSED (s\<lparr>nextsem := m\<rparr>))"
      and r: "\<not> isbadsem r" "sstate (semaph s r) = SFREE"
    let ?s = "set_semcnt r v (set_sstate r SUSED (s\<lparr>nextsem := m\<rparr>))"
    have "r \<noteq> SYSERR" using r(1) by (auto simp: isbadsem_def SYSERR_def)
    then have eq: "screate v s = (r, ?s)" using assms(2) m by (simp add: screate_def)
    have "L r = []" using kwf_sem_ok [OF assms(1) r(1)] r(2) by (simp add: sem_ok_def)
    then have "sem_abs ?s L = (sem_abs s L)(r := Some (v, []))"
      by (intro sem_abs_eqI) (use r in \<open>simp_all add: sem_abs_Some set_sstate_def\<close>)
    then show thesis using new [OF eq r(1)] r(2) by (simp add: sem_abs_def)
  qed
qed

section \<open>The calls keep the contract\<close>

interpretation wait_call: kcall "wait i" "\<lambda>s. currpid s \<noteq> NULLPROC"
proof
  fix s L assume s: "kwf s L" "krun s L" and c: "currpid s \<noteq> NULLPROC"
  consider (bad) "isbadsem i \<or> sstate (semaph s i) = SFREE"
    | (free) "\<not> isbadsem i" "sstate (semaph s i) = SUSED" "0 < semcnt (semaph s i)"
    | (block) "\<not> isbadsem i" "sstate (semaph s i) = SUSED" "semcnt (semaph s i) \<le> 0"
    by (cases "sstate (semaph s i)"; cases "0 < semcnt (semaph s i)") auto
  then show "\<exists>v s' L'. wait i s = Some (v, s') \<and> kwf s' L' \<and> krun s' L' \<and> kown s s'"
  proof cases
    case bad
    then show ?thesis using s by (auto simp: wait_def)
  next
    case free
    from wait_free_wf [OF s free] show ?thesis by fastforce
  next
    case block
    from wait_block_wf [OF s block c] show ?thesis by metis
  qed
qed

interpretation signal_call: kcall "signal i" "\<lambda>s. semcnt (semaph s i) < MAXINT"
proof
  fix s L assume s: "kwf s L" "krun s L" and c: "semcnt (semaph s i) < MAXINT"
  have own: "kown s s'" if "kframe (set_semcnt i x s) L1 s' L'" for x L1 s' L'
    using kframe_kown [OF that] by (simp add: kown_def set_semcnt_def upd_sem_def)
  show "\<exists>v s' L'. signal i s = Some (v, s') \<and> kwf s' L' \<and> krun s' L' \<and> kown s s'"
  proof (cases "isbadsem i \<or> sstate (semaph s i) = SFREE")
    case True
    then show ?thesis using s by (auto simp: signal_def)
  next
    case False
    then have "\<not> isbadsem i" "sstate (semaph s i) = SUSED"
      by (auto intro: sstate.exhaust [of "sstate (semaph s i)"])
    from signal_wf [OF s this c] show ?thesis using own by metis
  qed
qed

interpretation signaln_call: kcall "signaln i n" "\<lambda>s. semcnt (semaph s i) + n \<le> MAXINT"
proof
  fix s L assume s: "kwf s L" "krun s L" and c: "semcnt (semaph s i) + n \<le> MAXINT"
  have own: "kown s s'" if "kframe (set_semcnt i x s) L1 s' L'" for x L1 s' L'
    using kframe_kown [OF that] by (simp add: kown_def set_semcnt_def upd_sem_def)
  show "\<exists>v s' L'. signaln i n s = Some (v, s') \<and> kwf s' L' \<and> krun s' L' \<and> kown s s'"
  proof (cases "isbadsem i \<or> sstate (semaph s i) = SFREE \<or> n \<le> 0")
    case True
    then show ?thesis using s by (auto simp: signaln_def)
  next
    case False
    then have "\<not> isbadsem i" "sstate (semaph s i) = SUSED" "0 < n"
      by (auto intro: sstate.exhaust [of "sstate (semaph s i)"])
    from signaln_wf [OF s(1) this c] show ?thesis using own by metis
  qed
qed

interpretation sreset_call: kcall "sreset i v" "\<lambda>_. v \<le> MAXINT"
proof
  fix s L assume s: "kwf s L" "krun s L" and c: "v \<le> MAXINT"
  show "\<exists>w s' L'. sreset i v s = Some (w, s') \<and> kwf s' L' \<and> krun s' L' \<and> kown s s'"
  proof (cases "isbadsem i \<or> v < 0 \<or> sstate (semaph s i) = SFREE")
    case True
    then show ?thesis using s by (auto simp: sreset_def)
  next
    case False
    then have "\<not> isbadsem i" "sstate (semaph s i) = SUSED" "0 \<le> v"
      by (auto intro: sstate.exhaust [of "sstate (semaph s i)"])
    from sreset_wf [OF s(1) this c] show ?thesis by metis
  qed
qed

interpretation sdelete_call: kcall "sdelete i" "\<lambda>_. True"
proof
  fix s L assume s: "kwf s L" "krun s L"
  show "\<exists>w s' L'. sdelete i s = Some (w, s') \<and> kwf s' L' \<and> krun s' L' \<and> kown s s'"
  proof (cases "isbadsem i \<or> sstate (semaph s i) = SFREE")
    case True
    then show ?thesis using s by (auto simp: sdelete_def)
  next
    case False
    then have "\<not> isbadsem i" "sstate (semaph s i) = SUSED"
      by (auto intro: sstate.exhaust [of "sstate (semaph s i)"])
    from sdelete_wf [OF s this] show ?thesis by metis
  qed
qed

lemma kown_newsem_scan: "kown s0 (snd (newsem_scan n s)) = kown s0 s"
  by (induction n s rule: newsem_scan.induct) (simp_all add: Let_def)

lemma kown_screate: "kown s (snd (screate v s))"
  using kown_newsem_scan [of s "nat NSEM" s]
  by (cases "newsem_scan (nat NSEM) s") (simp add: screate_def newsem_def)

interpretation screate_call: kcall "\<lambda>s. Some (screate v s)" "\<lambda>_. v \<le> MAXINT"
  by unfold_locales (metis prod.collapse screate_wf kown_screate)

end
