(* ===== verification/Clock.thy ===== *)
theory Clock
  imports Sema
begin

text \<open>
  Real time: \<open>sleep.c\<close>, \<open>sleep10.c\<close>, \<open>unsleep.c\<close>, \<open>wakeup.c\<close>, \<open>ssclock.c\<close> and the
  clock interrupt of \<open>platform/stk500/clkint.c\<close>. The sleepers are a delta list: each key is
  the number of ticks after the process before it. \<open>sleepers\<close> gives the absolute delays, and
  the operations are stated on those: \<open>sleep10\<close> inserts a delay, \<open>unsleep\<close> deletes one, a
  tick takes one off each and makes those that reach zero ready.
\<close>

section \<open>Definitions\<close>

text \<open>The part of sleep10 and recvtim that puts the running process on the clock queue.\<close>

definition clock_insert :: "int \<Rightarrow> pstate \<Rightarrow> kstate \<Rightarrow> kstate option" where
  "clock_insert n st s =
     do {
       (_, q1) \<leftarrow> insertd (currpid s) (clockq s) n (qtab s);
       let s1 = s\<lparr>qtab := q1, slnempty := True, sltop := qnext (q1 (clockq s))\<rparr>;
       Some (set_pstate (currpid s1) st s1)
     }"

definition sleep10 :: "int \<Rightarrow> kstate \<Rightarrow> (int \<times> kstate) option" where
  "sleep10 n s =
     (if n < 0 \<or> \<not> clkruns s then Some (SYSERR, s)
      else do {
        s1 \<leftarrow> (if n = 0 then Some s else clock_insert n PRSLEEP s);
        (_, s2) \<leftarrow> resched s1;
        Some (OK, s2)
      })"

text \<open>The loop of sleep from its test on; the process is back in it after \<open>KSleep\<close>.\<close>

definition sleep_loop :: "int \<Rightarrow> kstate \<Rightarrow> (kont \<times> kstate) option" where
  "sleep_loop n s =
     (if n \<ge> 1000
      then do { t \<leftarrow> chk16 (1000 * TICK); (_, s1) \<leftarrow> sleep10 t s; Some (KSleep (n - 1000), s1) }
      else if n > 0
      then do { t \<leftarrow> chk16 (TICK * n); (_, s1) \<leftarrow> sleep10 t s; Some (KRet OK, s1) }
      else Some (KRet OK, s))"

definition sleep :: "int \<Rightarrow> kstate \<Rightarrow> (kont \<times> kstate) option" where
  "sleep n s =
     (if n < 0 \<or> \<not> clkruns s then Some (KRet SYSERR, s)
      else if n = 0 then do { (_, s1) \<leftarrow> resched s; Some (KRet OK, s1) }
      else sleep_loop n s)"

definition unsleep :: "int \<Rightarrow> kstate \<Rightarrow> (int \<times> kstate) option" where
  "unsleep pid s =
     (if isbadpid pid \<or> pst s pid \<noteq> PRSLEEP \<and> pst s pid \<noteq> PRTRECV then Some (SYSERR, s)
      else do {
        q1 \<leftarrow> delta_remove pid (qtab s);
        let s1 = s\<lparr>qtab := q1\<rparr>;
        let nxt = qnext (q1 (clockq s1));
        Some (OK, if nxt < NPROC then s1\<lparr>sltop := nxt\<rparr> else s1\<lparr>slnempty := False\<rparr>)
      })"

partial_function (option) wakeup_loop :: "kstate \<Rightarrow> kstate option" where
  "wakeup_loop s =
     (if nonempty (qtab s) (clockq s) \<and> firstkey (qtab s) (clockq s) \<le> 0
      then let (pid, q1) = getfirst (clockq s) (qtab s)
           in Option.bind (ready pid False (s\<lparr>qtab := q1\<rparr>)) (\<lambda>(_, s1). wakeup_loop s1)
      else Some s)"

definition set_slnempty :: "kstate \<Rightarrow> kstate" where
  "set_slnempty s =
     (if nonempty (qtab s) (clockq s)
      then s\<lparr>slnempty := True, sltop := qnext (qtab s (clockq s))\<rparr>
      else s\<lparr>slnempty := False\<rparr>)"

definition wakeup :: "kstate \<Rightarrow> kstate option" where
  "wakeup s =
     do {
       s1 \<leftarrow> wakeup_loop s;
       (_, s2) \<leftarrow> resched (set_slnempty s1);
       Some s2
     }"

text \<open>The interrupt: up to the call of wakeup, and the accounting of the time slice, which
  an interrupted process that loses the processor in wakeup only does when it is back.\<close>

definition clkint_preempt :: "kstate \<Rightarrow> kstate option" where
  "clkint_preempt s =
     do {
       p \<leftarrow> sub16 (preempt s) 1;
       let s1 = s\<lparr>preempt := p\<rparr>;
       if p \<le> 0 then do { (_, s2) \<leftarrow> resched s1; Some s2 } else Some s1
     }"

definition clkint_tick :: "kstate \<Rightarrow> (kont \<times> kstate) option" where
  "clkint_tick s =
     (if slnempty s
      then do {
        k \<leftarrow> sub16 (qkey (qtab s (sltop s))) 1;
        let s1 = s\<lparr>qtab := set_qkey (sltop s) k (qtab s)\<rparr>;
        if k \<le> 0 then do { s2 \<leftarrow> wakeup s1; Some (KClkint, s2) }
        else do { s2 \<leftarrow> clkint_preempt s1; Some (KRet OK, s2) }
      }
      else do { s2 \<leftarrow> clkint_preempt s; Some (KRet OK, s2) })"

definition clkint :: "kstate \<Rightarrow> (kont \<times> kstate) option" where
  "clkint s =
     do {
       let s1 = s\<lparr>ctr100 := u32 (ctr100 s + 1)\<rparr>;
       pre \<leftarrow> sub16 (prescaler s1) 1;
       let s2 = s1\<lparr>prescaler := pre\<rparr>;
       if pre > 0 then Some (KRet OK, s2)
       else do {
         let s3 = s2\<lparr>prescaler := 10\<rparr>;
         rtc \<leftarrow> sub16 (rtcScaler s3) 1;
         let s4 = s3\<lparr>rtcScaler := rtc\<rparr>;
         s5 \<leftarrow> (if rtc = 0
               then do { t \<leftarrow> add32 (clktime s4) 1; Some (s4\<lparr>clktime := t, rtcScaler := 10\<rparr>) }
               else Some s4);
         if defclk s5 \<noteq> 0 then Some (KRet OK, s5\<lparr>clkdiff := u16 (clkdiff s5 + 1)\<rparr>)
         else clkint_tick s5
       }
     }"

definition stopclk :: "kstate \<Rightarrow> kstate" where
  "stopclk s = s\<lparr>defclk := u8 (defclk s + 1)\<rparr>"

partial_function (option) makeup_loop :: "int \<Rightarrow> int \<Rightarrow> qarr \<Rightarrow> qarr option" where
  "makeup_loop makeup next q =
     (if next < NPROC \<and> qkey (q next) < makeup
      then Option.bind (sub16 makeup (qkey (q next)))
             (\<lambda>m. makeup_loop m (qnext (q next)) (set_qkey next 0 q))
      else if next < NPROC
      then Option.bind (sub16 (qkey (q next)) makeup) (\<lambda>k. Some (set_qkey next k q))
      else Some q)"

definition strtclk_ret :: "kstate \<Rightarrow> kstate option" where
  "strtclk_ret s =
     (if preempt s \<le> 0 then do { (_, s1) \<leftarrow> resched s; Some s1 } else Some s)"

definition strtclk :: "kstate \<Rightarrow> (kont \<times> kstate) option" where
  "strtclk s =
     (if defclk s \<le> 0 then Some (KRet OK, s)
      else let s1 = s\<lparr>defclk := defclk s - 1\<rparr> in
        if defclk s1 > 0 then Some (KRet OK, s1)
        else do {
          let makeup = s16 (clkdiff s1);
          p \<leftarrow> sub16 (preempt s1) makeup;
          let s2 = s1\<lparr>preempt := p, clkdiff := 0\<rparr>;
          if slnempty s2
          then do {
            q1 \<leftarrow> makeup_loop makeup (firstid (qtab s2) (clockq s2)) (qtab s2);
            s3 \<leftarrow> wakeup (s2\<lparr>qtab := q1\<rparr>);
            Some (KStrtclk, s3)
          }
          else do { s3 \<leftarrow> strtclk_ret s2; Some (KRet OK, s3) }
        })"

text \<open>The sleepers with the number of ticks each still has to wait.\<close>

definition sleepers :: "kstate \<Rightarrow> (int \<Rightarrow> int list) \<Rightarrow> (int \<times> int) list" where
  "sleepers s L = delays (\<lambda>p. qkey (qtab s p)) 0 (L CLKQ)"

section \<open>Putting the running process to sleep\<close>

lemma kclkD:
  assumes "kclk s L"
  shows "slnempty s \<longleftrightarrow> L CLKQ \<noteq> []" "L CLKQ \<noteq> [] \<Longrightarrow> sltop s = hd (L CLKQ)"
    "\<And>p. p \<in> set (L CLKQ) \<Longrightarrow> 0 \<le> qkey (qtab s p)"
    "sum_list (map (\<lambda>p. qkey (qtab s p)) (L CLKQ)) \<le> MAXINT"
    "\<And>p. p \<in> set (L CLKQ) \<Longrightarrow> qkey (qtab s p) \<le> MAXINT"
proof -
  show a: "slnempty s \<longleftrightarrow> L CLKQ \<noteq> []" "L CLKQ \<noteq> [] \<Longrightarrow> sltop s = hd (L CLKQ)"
    "\<And>p. p \<in> set (L CLKQ) \<Longrightarrow> 0 \<le> qkey (qtab s p)"
    "sum_list (map (\<lambda>p. qkey (qtab s p)) (L CLKQ)) \<le> MAXINT"
    using assms by (simp_all add: kclk_def)
  show "qkey (qtab s p) \<le> MAXINT" if "p \<in> set (L CLKQ)" for p
    using sum_list_map_le [of "L CLKQ" "\<lambda>p. qkey (qtab s p)", OF a(3) that] a(4) by simp
qed

lemma delta_insert_keys:
  assumes "delta_split kf k xs = (l, k', r)" "distinct xs" "p \<notin> set xs" "0 \<le> k"
    and "\<And>x. x \<in> set xs \<Longrightarrow> 0 \<le> kf x"
    and "kf' p = k'" "r \<noteq> [] \<Longrightarrow> kf' (hd r) = kf (hd r) - k'"
    and "\<And>x. x \<in> set xs \<Longrightarrow> r = [] \<or> x \<noteq> hd r \<Longrightarrow> kf' x = kf x"
  shows "\<And>x. x \<in> set (l @ p # r) \<Longrightarrow> 0 \<le> kf' x"
    "sum_list (map kf' (l @ p # r)) = (if r = [] then k else sum_list (map kf xs))"
proof -
  note parts = delta_split_parts [OF assms(1)]
  have l: "kf' x = kf x" if "x \<in> set l" for x
    using that parts assms(2) by (intro assms(8)) (cases r; auto)+
  have t: "kf' x = kf x" if "x \<in> set (tl r)" for x
    using that parts assms(2) by (intro assms(8)) (cases r; auto)+
  have ml: "map kf' l = map kf l" "map kf' (tl r) = map kf (tl r)" using l t by simp_all
  have "0 \<le> k'" using parts assms(4) by blast
  then show "0 \<le> kf' x" if "x \<in> set (l @ p # r)" for x
  proof (cases r)
    case Nil
    then show ?thesis using that l assms(5,6) parts \<open>0 \<le> k'\<close> by auto
  next
    case (Cons y ys)
    then have "0 \<le> kf' y" using parts assms(7) by simp
    then show ?thesis using that l t assms(5,6) parts \<open>0 \<le> k'\<close> Cons by auto
  qed
  show "sum_list (map kf' (l @ p # r)) = (if r = [] then k else sum_list (map kf xs))"
    using ml parts assms(6,7) by (cases r) (simp_all del: map_eq_conv)
qed

lemma clock_insert_wf:
  assumes "kwf s L" "krun s L" "currpid s \<noteq> NULLPROC" "0 \<le> n" "n \<le> MAXINT" "st \<in> {PRSLEEP, PRTRECV}"
  obtains s1 ys where "clock_insert n st s = Some s1" "kwf s1 (L(CLKQ := ys))"
    "sleepers s1 (L(CLKQ := ys)) = time_insert n (currpid s) (sleepers s L)"
    "proctab s1 = (proctab s)(currpid s := (proctab s (currpid s))\<lparr>pstate := st\<rparr>)"
    "semaph s1 = semaph s" "currpid s1 = currpid s" "mem s1 = mem s" "clkruns s1 = clkruns s"
    "kown s s1"
proof -
  let ?c = "currpid s" and ?k = "\<lambda>x. qkey (qtab s x)"
  note W = kwfD [OF assms(1)] and c = kwf_running [OF assms(1,2)]
  note K = kclkD [OF W(3)]
  have k: "kwfx s L {?c}" by (rule kwf_capture [OF assms(1) c(1,3)])
  have unq: "unqueued L ?c" using kqD(5) [OF kwfxD(1) [OF k]] by simp
  obtain l k' r where sp: "delta_split ?k n (L CLKQ) = (l, k', r)" by (metis prod_cases3)
  note parts = delta_split_parts [OF sp]
  obtain q' where q': "insertd ?c (qhead CLKQ) n (qtab s) = Some (OK, q')"
    "qfam q' (L(CLKQ := l @ ?c # r))"
    "qkey (q' ?c) = k'" "r \<noteq> [] \<Longrightarrow> qkey (q' (hd r)) = qkey (qtab s (hd r)) - k'"
    "\<And>i. i \<noteq> ?c \<Longrightarrow> r = [] \<or> i \<noteq> hd r \<Longrightarrow> qkey (q' i) = qkey (qtab s i)"
    by (rule qfam_insertd [OF kqD(2) [OF W(1)] _ unq _ _ assms(4,5) _ sp])
       (use c(1) K(3,5) in auto)
  let ?L = "L(CLKQ := l @ ?c # r)"
  let ?s = "(set_pstate ?c st s)\<lparr>qtab := q', slnempty := True, sltop := qnext (q' (clockq s))\<rparr>"
  have dist: "distinct (L CLKQ)" by (rule qfam_distinct [OF kqD(2) [OF W(1)]]) simp
  have notin: "?c \<notin> set (L CLKQ)" using unq by simp
  have kk: "qkey (q' x) = ?k x" if "x \<in> set (L CLKQ)" "r = [] \<or> x \<noteq> hd r" for x
    by (rule q'(5)) (use that notin in auto)
  have rdy: "qkey (q' x) = ?k x" if "x \<in> set (L RDYQ)" for x
  proof (rule q'(5))
    show "x \<noteq> ?c" using unq that by auto
    show "r = [] \<or> x \<noteq> hd r"
    proof (cases r)
      case (Cons y ys)
      then have "y \<in> set (L CLKQ)" using parts by simp
      then have "y \<notin> set (L RDYQ)"
        using qfam_disjoint [OF kqD(2) [OF W(1)], of CLKQ RDYQ y] by auto
      then show ?thesis using that Cons by auto
    qed simp
  qed
  have cp: "kq (set_pstate ?c st s) L {?c}"
    by (rule kq_set_pstate [OF kwfxD(1) [OF k]]) (use assms(3,6) c(2) in auto)
  have "kq ((set_pstate ?c st s)\<lparr>qtab := q'\<rparr>) ?L ({?c} - {?c})"
    by (rule kq_put [OF cp singletonI q'(2)])
       (use parts assms(6) rdy in \<open>auto simp: ploc_def\<close>)
  then have kq: "kq ?s ?L {}" by simp
  have top: "qnext (q' (clockq s)) = hd (l @ ?c # r)"
    using qrep_first [OF qfam_qrep [OF q'(2)], of CLKQ] kq_layout(3) [OF W(1)]
    by (cases l) simp_all
  note keys = delta_insert_keys [OF sp dist notin assms(4) K(3), of "\<lambda>x. qkey (q' x)", OF _ q'(3,4) kk]
  have "sum_list (map (\<lambda>x. qkey (q' x)) (l @ ?c # r)) \<le> MAXINT"
    using keys(2) assms(5) K(4) by (simp del: map_append split: if_splits)
  then have clk: "kclk ?s ?L" using keys(1) top W(3) by (simp add: kclk_def)
  have sem: "ksem ?s ?L"
    using W(2) unfolding ksem_alt by simp
  have sl: "sleepers ?s ?L = time_insert n ?c (sleepers s L)"
    unfolding sleepers_def
    using delays_insert [OF sp dist notin, of "\<lambda>x. qkey (q' x)", OF q'(3,4) kk] by simp
  have w: "kwf ?s ?L" using kq clk sem by (simp add: kwf_def)
  have eq: "clock_insert n st s = Some ?s"
    using q'(1) kq_layout(3) [OF W(1)] by (simp add: clock_insert_def set_pstate_def upd_proc_def)
  have "kown s ?s" using c(2) assms(6) by (auto simp: set_pstate_def intro!: kown_upd_proc)
  then show thesis by (intro that [OF eq w sl]) simp_all
qed

lemma sleep10_wf:
  assumes "kwf s L" "krun s L" "currpid s \<noteq> NULLPROC" "0 < n" "n \<le> MAXINT" "clkruns s"
  obtains s' L' where "sleep10 n s = Some (OK, s')" "kwf s' L'" "krun s' L'"
    "sleepers s' L' = time_insert n (currpid s) (sleepers s L)" "currpid s' = last (L RDYQ)"
    "\<And>p. pst s' p = (if p = currpid s' then PRCURR else if p = currpid s then PRSLEEP else pst s p)"
    "kown s s'"
proof -
  have pre: "0 \<le> n" "PRSLEEP \<in> {PRSLEEP, PRTRECV}" using assms(4) by simp_all
  obtain s1 ys where c: "clock_insert n PRSLEEP s = Some s1" "kwf s1 (L(CLKQ := ys))"
    "sleepers s1 (L(CLKQ := ys)) = time_insert n (currpid s) (sleepers s L)"
    "proctab s1 = (proctab s)(currpid s := (proctab s (currpid s))\<lparr>pstate := PRSLEEP\<rparr>)"
    "currpid s1 = currpid s" "kown s s1"
    by (rule clock_insert_wf [OF assms(1-3) pre(1) assms(5) pre(2)]) blast
  obtain s2 L2 where r: "resched s1 = Some (OK, s2)" "kwf s2 L2" "krun s2 L2"
    "kframe s1 (L(CLKQ := ys)) s2 L2"
    "currpid s2 = fst (dispatch (prio s1) (currpid s1) (pst s1 (currpid s1) = PRCURR) ((L(CLKQ := ys)) RDYQ))"
    "\<And>p. pst s2 p = (if p = currpid s2 then PRCURR
       else if p = currpid s1 \<and> pst s1 p = PRCURR then PRREADY else pst s1 p)"
    by (rule resched_wf [OF c(2)]) blast
  show thesis
  proof (rule that [OF _ r(2,3)])
    show "sleep10 n s = Some (OK, s2)"
      using assms(4,6) c(1) r(1) by (simp add: sleep10_def)
    have "delays (\<lambda>p. qkey (qtab s2 p)) 0 (L2 CLKQ) = delays (\<lambda>p. qkey (qtab s1 p)) 0 (L2 CLKQ)"
      by (rule delays_cong) (use kframeD(2,3) [OF r(4)] in simp)
    then show "sleepers s2 L2 = time_insert n (currpid s) (sleepers s L)"
      using c(3) kframeD(2) [OF r(4)] by (simp add: sleepers_def)
    show "currpid s2 = last (L RDYQ)" using r(5) c(4,5) by simp
    show "kown s s2" by (rule kown_trans [OF c(6) kframe_kown [OF r(4)]])
    show "pst s2 p = (if p = currpid s2 then PRCURR else if p = currpid s then PRSLEEP else pst s p)" for p
      using r(6) [of p] c(4,5) by simp
  qed
qed

section \<open>Taking a sleeper off the clock queue\<close>

lemma delta_remove_keys:
  assumes "distinct (l @ p # r)" "\<And>x. x \<in> set (l @ p # r) \<Longrightarrow> (0::int) \<le> kf x"
    and "r \<noteq> [] \<Longrightarrow> kf' (hd r) = kf (hd r) + kf p"
    and "\<And>x. r = [] \<or> x \<noteq> hd r \<Longrightarrow> kf' x = kf x"
  shows "\<And>x. x \<in> set (l @ r) \<Longrightarrow> 0 \<le> kf' x"
    "sum_list (map kf' (l @ r)) \<le> sum_list (map kf (l @ p # r))"
proof -
  have ml: "map kf' l = map kf l" "map kf' (tl r) = map kf (tl r)"
  proof -
    have "kf' x = kf x" if "x \<in> set l \<union> set (tl r)" for x
      using that assms(1) by (intro assms(4)) (cases r; auto)
    then show "map kf' l = map kf l" "map kf' (tl r) = map kf (tl r)" by simp_all
  qed
  show "0 \<le> kf' x" if "x \<in> set (l @ r)" for x
  proof (cases "r \<noteq> [] \<and> x = hd r")
    case True
    then have "0 \<le> kf (hd r)" "0 \<le> kf p" using assms(2) by simp_all
    then show ?thesis using True assms(3) by simp
  next
    case False
    then have "kf' x = kf x" by (intro assms(4)) blast
    then show ?thesis using that assms(2) [of x] by auto
  qed
  show "sum_list (map kf' (l @ r)) \<le> sum_list (map kf (l @ p # r))"
    using ml assms(2) [of p] assms(3) by (cases r) (simp_all del: map_eq_conv)
qed

lemma unsleep_wf:
  assumes "kwf s L" "\<not> isbadpid p" "pst s p \<in> {PRSLEEP, PRTRECV}"
  obtains s1 ys where "unsleep p s = Some (OK, s1)" "kwfx s1 (L(CLKQ := ys)) {p}"
    "sleepers s1 (L(CLKQ := ys)) = filter (\<lambda>d. fst d \<noteq> p) (sleepers s L)"
    "proctab s1 = proctab s" "semaph s1 = semaph s" "currpid s1 = currpid s" "mem s1 = mem s"
    "preempt s1 = preempt s" "kown s s1"
proof -
  let ?k = "\<lambda>x. qkey (qtab s x)"
  note W = kwfD [OF assms(1)] and K = kclkD [OF kwfD(3) [OF assms(1)]]
  have mem: "p \<in> set (L CLKQ)"
    using kq_sleeping_mem [OF W(1) _ _ assms(3)] not_bad_ispid(1) [OF assms(2)] by simp
  then obtain l r where lr: "L CLKQ = l @ p # r" by (auto simp: in_set_conv_decomp)
  have dist: "distinct (l @ p # r)" using qfam_distinct [OF kqD(2) [OF W(1)], of CLKQ] lr by simp
  have nn: "0 \<le> ?k x" if "x \<in> set (l @ p # r)" for x using K(3) that lr by simp
  have sum: "?k p + ?k (hd r) \<le> MAXINT" if "r \<noteq> []"
  proof -
    from that obtain y ys where r: "r = y # ys" by (cases r) auto
    have "0 \<le> sum_list (map ?k l)" "0 \<le> sum_list (map ?k ys)"
      by (rule sum_list_nonneg; use nn r in auto)+
    then show ?thesis using K(4) lr r by simp
  qed
  have ov: "r \<noteq> [] \<Longrightarrow> int16 (?k p + ?k (hd r))"
    using sum nn [of p] nn [of "hd r"] by (cases r) (auto simp: MININT_def)
  have low: "MININT \<le> ?k x" if "x \<in> set (L CLKQ)" for x
    using nn [of x] that lr by (simp add: MININT_def)
  obtain q' where q': "delta_remove p (qtab s) = Some q'" "qfam q' (L(CLKQ := l @ r))"
    "r \<noteq> [] \<Longrightarrow> qkey (q' (hd r)) = ?k (hd r) + ?k p"
    "\<And>i. r = [] \<or> i \<noteq> hd r \<Longrightarrow> qkey (q' i) = ?k i"
    by (rule qfam_delta_remove [OF kqD(2) [OF W(1)] _ lr low ov]) auto
  let ?L = "L(CLKQ := l @ r)"
  let ?nx = "qnext (q' (clockq s))"
  let ?s = "if ?nx < NPROC then s\<lparr>qtab := q', sltop := ?nx\<rparr> else s\<lparr>qtab := q', slnempty := False\<rparr>"
  have rdy: "qkey (q' x) = ?k x" if "x \<in> set (L RDYQ)" for x
  proof (rule q'(4))
    have "x \<notin> set (L CLKQ)" using qfam_disjoint [OF kqD(2) [OF W(1)], of RDYQ CLKQ x] that by auto
    then show "r = [] \<or> x \<noteq> hd r" using lr by (cases r) auto
  qed
  have k0: "kq (s\<lparr>qtab := q'\<rparr>) ?L {p}"
    by (rule kq_remove [OF W(1) q'(2)]) (use lr dist rdy in auto)
  have kq: "kq ?s ?L {p}"
  proof (cases "?nx < NPROC")
    case True
    then have "?s = (s\<lparr>qtab := q'\<rparr>)\<lparr>sltop := ?nx\<rparr>" by simp
    then show ?thesis using k0 by (simp only: kq_irrelevant)
  next
    case False
    then have "?s = (s\<lparr>qtab := q'\<rparr>)\<lparr>slnempty := False\<rparr>" by simp
    then show ?thesis using k0 by (simp only: kq_irrelevant)
  qed
  have first: "?nx = (case l @ r of [] \<Rightarrow> qhead CLKQ + 1 | x # _ \<Rightarrow> x)"
    using qrep_first [OF qfam_qrep [OF q'(2)], of CLKQ] kq_layout(3) [OF W(1)] by simp
  have lt: "?nx < NPROC \<longleftrightarrow> l @ r \<noteq> []"
  proof (cases "l @ r")
    case Nil
    then show ?thesis using first NPROC_le_qhead [of CLKQ] by simp
  next
    case (Cons x xs)
    then have "x \<in> set (?L CLKQ)" by simp
    then have "x < NPROC" using qfam_range [OF q'(2), of CLKQ x] by simp
    then show ?thesis using first Cons by simp
  qed
  note keys = delta_remove_keys [OF dist, of ?k "\<lambda>x. qkey (q' x)", OF nn q'(3,4)]
  have "sum_list (map (\<lambda>x. qkey (q' x)) (l @ r)) \<le> MAXINT"
    using keys(2) K(4) lr by simp
  then have clk: "kclk ?s ?L"
    using keys(1) first lt K(1) lr W(3) by (auto simp: kclk_def split: list.splits)
  have sem: "ksem ?s ?L" using W(2) unfolding ksem_alt by simp
  have sl: "sleepers ?s ?L = filter (\<lambda>d. fst d \<noteq> p) (sleepers s L)"
    unfolding sleepers_def
    using delays_remove [OF dist, of "\<lambda>x. qkey (q' x)" ?k 0, OF q'(3,4)] lr by simp
  have eq: "unsleep p s = Some (OK, ?s)"
    using assms(2,3) q'(1) by (auto simp: unsleep_def Let_def)
  show thesis
    by (rule that [OF eq _ sl]) (use kq clk sem in \<open>simp_all add: kwfx_def\<close>)
qed

section \<open>wakeup\<close>

text \<open>The sleepers whose time has come are the ones before the first positive key.\<close>

abbreviation due :: "kstate \<Rightarrow> int \<Rightarrow> bool" where
  "due s p \<equiv> qkey (qtab s p) \<le> 0"

lemma clock_head:
  assumes "kq s L X"
  shows "nonempty (qtab s) (clockq s) \<longleftrightarrow> L CLKQ \<noteq> []"
    "L CLKQ = x # xs \<Longrightarrow> firstkey (qtab s) (clockq s) = qkey (qtab s x)"
    "L CLKQ = x # xs \<Longrightarrow> qnext (qtab s (clockq s)) = x"
proof -
  have f: "qnext (qtab s (clockq s)) = (case L CLKQ of [] \<Rightarrow> qhead CLKQ + 1 | x # _ \<Rightarrow> x)"
    using qrep_first [OF qfam_qrep [OF kqD(2) [OF assms]], of CLKQ] kq_layout(3) [OF assms] by simp
  then show n: "L CLKQ = x # xs \<Longrightarrow> qnext (qtab s (clockq s)) = x" for x xs by simp
  then show "L CLKQ = x # xs \<Longrightarrow> firstkey (qtab s) (clockq s) = qkey (qtab s x)"
    by (simp add: firstkey_def)
  show "nonempty (qtab s) (clockq s) \<longleftrightarrow> L CLKQ \<noteq> []"
  proof (cases "L CLKQ")
    case Nil
    then show ?thesis using f NPROC_le_qhead [of CLKQ] by (simp add: nonempty_def)
  next
    case (Cons y ys)
    then have "y < NPROC" using qfam_range [OF kqD(2) [OF assms], of CLKQ y] by simp
    then show ?thesis using f Cons by (simp add: nonempty_def)
  qed
qed

lemma wakeup_loop_wf:
  assumes "kq s L {}"
  shows "\<exists>s' L'. wakeup_loop s = Some s' \<and> kq s' L' {} \<and>
    kframe s (L(CLKQ := dropWhile (due s) (L CLKQ))) s' L' \<and>
    currpid s' = currpid s \<and> preempt s' = preempt s \<and>
    (\<forall>p. pst s' p = (if p \<in> set (takeWhile (due s) (L CLKQ)) then PRREADY else pst s p))"
  using assms
proof (induction "L CLKQ" arbitrary: s L)
  case Nil
  then have "wakeup_loop s = Some s"
    using clock_head(1) [OF Nil.prems] by (subst wakeup_loop.simps) simp
  moreover have "L(CLKQ := []) = L" using Nil(1) by (simp add: fun_upd_idem)
  ultimately show ?case
    using Nil by (auto simp: kframe_refl simp flip: Nil(1) intro!: exI [of _ L])
next
  case (Cons p xs)
  have Lc: "L CLKQ = p # xs" using Cons(2) by simp
  note ch = clock_head [OF Cons.prems]
  show ?case
  proof (cases "due s p")
    case False
    then have "wakeup_loop s = Some s"
      using ch(2) [OF Lc] by (subst wakeup_loop.simps) simp
    moreover have "L(CLKQ := p # xs) = L" using Lc by (simp add: fun_upd_idem)
    ultimately show ?thesis using Cons.prems False by (auto simp: Lc kframe_refl intro!: exI [of _ L])
  next
    case True
    let ?q = "snd (dequeue p (qtab s))" and ?L = "L(CLKQ := xs)"
    have g: "getfirst (clockq s) (qtab s) = (p, ?q)" "qfam ?q ?L"
      using qfam_getfirst(2) [OF kqD(2) [OF Cons.prems] _ Lc] kq_layout(3) [OF Cons.prems] by simp_all
    have mem: "p \<in> set (L CLKQ)" using Lc by simp
    have d: "distinct (L CLKQ)" by (rule qfam_distinct [OF kqD(2) [OF Cons.prems]]) simp
    have w: "pst s p \<in> {PRSLEEP, PRTRECV}" by (rule kq_asleep [OF Cons.prems mem])
    have bad: "\<not> isbadpid p"
      by (rule kwf_not_null [OF Cons.prems kq_mem_ispid [OF Cons.prems _ mem]]) (use w in auto)
    let ?s = "s\<lparr>qtab := ?q\<rparr>"
    have k: "kq ?s ?L {p}"
      by (rule kq_remove [OF Cons.prems g(2)]) (use Lc d in auto)
    have fr: "pst ?s p \<noteq> PRFREE" using w by auto
    let ?L1 = "?L(RDYQ := key_insert (prio ?s) (prio ?s p) p (?L RDYQ))"
    obtain s1 where r: "ready p False ?s = Some (OK, s1)" "kq s1 ?L1 ({p} - {p})"
      "kframe ?s ?L s1 ?L1" "currpid s1 = currpid ?s" "preempt s1 = preempt ?s"
      "\<And>x. pst s1 x = (if x = p then PRREADY else pst ?s x)"
      by (rule ready_no_kq [OF k singletonI bad fr]) blast
    have xs: "xs = ?L1 CLKQ" and k1: "kq s1 ?L1 {}" using r(2) by simp_all
    have due: "due s1 x = due s x" if "x \<in> set xs" for x
      using kframeD(3) [OF r(3), of x] that by simp
    have tw: "takeWhile (due s1) xs = takeWhile (due s) xs" "dropWhile (due s1) xs = dropWhile (due s) xs"
      by (rule takeWhile_cong dropWhile_cong; use due in simp)+
    obtain s2 L2 where q: "wakeup_loop s1 = Some s2" "kq s2 L2 {}"
      "kframe s1 (?L1(CLKQ := dropWhile (due s1) (?L1 CLKQ))) s2 L2"
      "currpid s2 = currpid s1" "preempt s2 = preempt s1"
      "\<And>x. pst s2 x = (if x \<in> set (takeWhile (due s1) (?L1 CLKQ)) then PRREADY else pst s1 x)"
      using Cons(1) [OF xs k1] by blast
    have "wakeup_loop s = Some s2"
      using ch(1) ch(2) [OF Lc] True g(1) r(1) q(1) Lc by (subst wakeup_loop.simps) simp
    moreover have "kframe s (L(CLKQ := dropWhile (due s) (L CLKQ))) s2 L2"
    proof -
      let ?D = "dropWhile (due s) xs"
      have sub: "set ?D \<subseteq> set xs" by (auto dest: set_dropWhileD)
      have "kframe s (L(CLKQ := ?D)) ?s (L(CLKQ := ?D))" by (simp add: kframe_def)
      moreover have "kframe ?s (L(CLKQ := ?D)) s1 (?L1(CLKQ := ?D))"
        using r(3) sub unfolding kframe_def by auto
      moreover have "kframe s1 (?L1(CLKQ := ?D)) s2 L2" using q(3) tw by simp
      ultimately show ?thesis using True Lc by (simp del: fun_upd_apply) (blast intro: kframe_trans)
    qed
    moreover have "pst s2 x = (if x \<in> set (takeWhile (due s) (L CLKQ)) then PRREADY else pst s x)" for x
      using q(6) [of x] r(6) [of x] tw(1) Lc True by auto
    moreover have "currpid s2 = currpid s" "preempt s2 = preempt s" using q(4,5) r(4,5) by simp_all
    ultimately show ?thesis using q(2) by blast
  qed
qed

lemma dropWhile_pos_head:
  "xs \<noteq> [] \<Longrightarrow> dropWhile P xs = y # ys \<Longrightarrow> \<not> P y"
  by (metis hd_dropWhile list.distinct(1) list.sel(1))

lemma dropWhile_subset_tl:
  "set (dropWhile P xs) \<subseteq> set (tl xs) \<union> (if xs \<noteq> [] \<and> \<not> P (hd xs) then {hd xs} else {})"
  by (cases xs) (auto dest: set_dropWhileD)

lemma wakeup_wf:
  assumes "kq s L {}" "ksem s L" "\<And>p. p \<in> set (tl (L CLKQ)) \<Longrightarrow> 0 \<le> qkey (qtab s p)"
    and "sum_list (map (\<lambda>p. qkey (qtab s p)) (dropWhile (due s) (L CLKQ))) \<le> MAXINT"
    and "1 \<le> prescaler s" "prescaler s \<le> 10" "1 \<le> rtcScaler s" "rtcScaler s \<le> 10"
  obtains s' L' where "wakeup s = Some s'" "kwf s' L'" "krun s' L'"
    "L' CLKQ = dropWhile (due s) (L CLKQ)"
    "\<And>p. p \<in> set (L' CLKQ) \<Longrightarrow> qkey (qtab s' p) = qkey (qtab s p)"
    "\<And>p. pst s' p = (if p = currpid s' then PRCURR
       else if p \<in> set (takeWhile (due s) (L CLKQ)) then PRREADY
       else if p = currpid s \<and> pst s p = PRCURR then PRREADY else pst s p)"
    "semaph s' = semaph s" "kown s s'" "\<And>p. proctab s' p = (proctab s p)\<lparr>pstate := pst s' p\<rparr>"
proof -
  let ?D = "dropWhile (due s) (L CLKQ)"
  obtain s1 L1 where w: "wakeup_loop s = Some s1" "kq s1 L1 {}" "kframe s (L(CLKQ := ?D)) s1 L1"
    "currpid s1 = currpid s" "preempt s1 = preempt s"
    "\<And>p. pst s1 p = (if p \<in> set (takeWhile (due s) (L CLKQ)) then PRREADY else pst s p)"
    using wakeup_loop_wf [OF assms(1)] by blast
  let ?s1 = "set_slnempty s1"
  note f = kframe_fields [OF w(3)]
  have Lc: "L1 CLKQ = ?D" using kframeD(2) [OF w(3)] by simp
  have ch: "nonempty (qtab s1) (clockq s1) \<longleftrightarrow> ?D \<noteq> []"
    "\<And>x xs. ?D = x # xs \<Longrightarrow> qnext (qtab s1 (clockq s1)) = x"
    using clock_head [OF w(2)] Lc by simp_all
  have keys: "qkey (qtab s1 p) = qkey (qtab s p)" if "p \<in> set ?D" for p
    using kframeD(3) [OF w(3), of p] that by simp
  have pos: "0 \<le> qkey (qtab s p)" if "p \<in> set ?D" for p
  proof (cases "p \<in> set (tl (L CLKQ))")
    case False
    then have "\<not> due s p" using that dropWhile_subset_tl [of "due s" "L CLKQ"] by (auto split: if_splits)
    then show ?thesis by simp
  qed (rule assms(3))
  have "sum_list (map (\<lambda>p. qkey (qtab s1 p)) ?D) = sum_list (map (\<lambda>p. qkey (qtab s p)) ?D)"
    by (rule arg_cong [of _ _ sum_list], rule map_cong [OF refl]) (rule keys)
  then have "kclk ?s1 L1"
    using Lc ch pos keys assms(4-8) f by (cases ?D) (auto simp: kclk_def set_slnempty_def)
  moreover have "ksem ?s1 L1"
    using assms(2) kframeD(1) [OF w(3)] f unfolding ksem_alt by (simp add: set_slnempty_def)
  moreover have "kq ?s1 L1 {}"
  proof (cases "nonempty (qtab s1) (clockq s1)")
    case True
    then have "?s1 = (s1\<lparr>slnempty := True\<rparr>)\<lparr>sltop := qnext (qtab s1 (clockq s1))\<rparr>"
      by (simp add: set_slnempty_def)
    then show ?thesis using w(2) by (simp only: kq_irrelevant)
  next
    case False
    then show ?thesis using w(2) by (simp add: set_slnempty_def)
  qed
  ultimately have k1: "kwf ?s1 L1" by (simp add: kwf_def)
  have same: "pst ?s1 p = pst s1 p" "currpid ?s1 = currpid s1" "qtab ?s1 = qtab s1"
    "semaph ?s1 = semaph s1" "mem ?s1 = mem s1" for p by (simp_all add: set_slnempty_def)
  obtain s2 L2 where r: "resched ?s1 = Some (OK, s2)" "kwf s2 L2" "krun s2 L2" "kframe ?s1 L1 s2 L2"
    "\<And>p. pst s2 p = (if p = currpid s2 then PRCURR
       else if p = currpid ?s1 \<and> pst ?s1 p = PRCURR then PRREADY else pst ?s1 p)"
    by (rule resched_wf [OF k1]) blast
  show thesis
  proof (rule that [OF _ r(2,3)])
    show "wakeup s = Some s2" using w(1) r(1) by (simp add: wakeup_def)
    show L2: "L2 CLKQ = ?D" using kframeD(2) [OF r(4)] Lc by simp
    show "qkey (qtab s2 p) = qkey (qtab s p)" if "p \<in> set (L2 CLKQ)" for p
      using kframeD(3) [OF r(4), of p] keys [of p] that L2 Lc same(3) by simp
    show "semaph s2 = semaph s" using kframe_fields [OF r(4)] f same by simp
    have "kown s1 ?s1" by (simp add: set_slnempty_def)
    then show "kown s s2"
      using kframe_kown [OF w(3)] kframe_kown [OF r(4)] by (blast intro: kown_trans)
    have "proctab ?s1 = proctab s1" by (simp add: set_slnempty_def)
    then show "proctab s2 p = (proctab s p)\<lparr>pstate := pst s2 p\<rparr>" for p
    proof -
      obtain v where "proctab s1 p = (proctab s p)\<lparr>pstate := v\<rparr>" using kframeD(4) [OF w(3), of p] by blast
      then have "(proctab ?s1 p)\<lparr>pstate := pst s2 p\<rparr> = (proctab s p)\<lparr>pstate := pst s2 p\<rparr>"
        using \<open>proctab ?s1 = proctab s1\<close> by simp
      then show ?thesis using kframeD(4) [OF r(4), of p] by (simp only:)
    qed
    show "pst s2 p = (if p = currpid s2 then PRCURR
       else if p \<in> set (takeWhile (due s) (L CLKQ)) then PRREADY
       else if p = currpid s \<and> pst s p = PRCURR then PRREADY else pst s p)" for p
      using r(5) [of p] w(4,6) same(1,2) by auto
  qed
qed

section \<open>The clock interrupt\<close>

lemma delays_dropWhile:
  "(\<And>x. x \<in> set xs \<Longrightarrow> 0 \<le> kf x) \<Longrightarrow>
    delays kf t (dropWhile (\<lambda>x. kf x \<le> 0) xs) = filter (\<lambda>d. t < snd d) (delays kf t xs)"
proof (induction xs)
  case (Cons x xs)
  show ?case
  proof (cases "kf x \<le> 0")
    case True
    then have "kf x = 0" using Cons.prems [of x] by simp
    then show ?thesis using Cons by simp
  next
    case False
    have "filter (\<lambda>d. t < snd d) (delays kf (t + kf x) xs) = delays kf (t + kf x) xs"
    proof (rule filter_True, rule ballI)
      fix d assume "d \<in> set (delays kf (t + kf x) xs)"
      then have "t + kf x \<le> snd d" by (intro delays_ge [of xs kf]) (use Cons.prems in auto)
      then show "t < snd d" using False by simp
    qed
    then show ?thesis using False by simp
  qed
qed simp

lemma delays_tick:
  assumes "distinct (x # ys)" "1 \<le> kf x" "\<And>y. y \<in> set ys \<Longrightarrow> 0 \<le> kf y" "kf' x = kf x - 1"
    and "\<And>y. y \<in> set ys \<Longrightarrow> kf' y = kf y"
  shows "delays kf' 0 (dropWhile (\<lambda>p. kf' p \<le> 0) (x # ys)) =
    map (\<lambda>(p, t). (p, t - 1)) (filter (\<lambda>d. 1 < snd d) (delays kf 0 (x # ys)))"
proof -
  have nn: "0 \<le> kf' y" if "y \<in> set (x # ys)" for y using that assms by auto
  have eq: "delays kf u ys = delays kf' u ys" for u by (rule delays_cong) (simp add: assms(5))
  have "delays kf' 0 (x # ys) = map (\<lambda>(p, t). (p, t - 1)) (delays kf 0 (x # ys))"
    using delays_shift [of kf' "kf x" "- 1" ys] assms(4) eq by (simp add: split_def)
  moreover have "delays kf' 0 (dropWhile (\<lambda>p. kf' p \<le> 0) (x # ys)) =
      filter (\<lambda>d. 0 < snd d) (delays kf' 0 (x # ys))"
    by (rule delays_dropWhile) (rule nn)
  moreover have "((\<lambda>d. 0 < snd d) \<circ> (\<lambda>(p, t). (p, t - 1))) = (\<lambda>d :: int \<times> int. 1 < snd d)"
    by (auto simp: fun_eq_iff)
  ultimately show ?thesis by (simp only: filter_map)
qed

text \<open>Rewriting keys of sleepers.\<close>

lemma kq_clock_keys:
  assumes "kq s L X" "\<And>i. qnext (q' i) = qnext (qtab s i)" "\<And>i. qprev (q' i) = qprev (qtab s i)"
    "\<And>i. i \<notin> set (L CLKQ) \<Longrightarrow> qkey (q' i) = qkey (qtab s i)"
  shows "kq (s\<lparr>qtab := q'\<rparr>) L X"
proof -
  note D = kqD [OF assms(1)]
  have "i \<notin> set (L CLKQ)" if "NPROC \<le> i" for i
    using qfam_range [OF D(2), of CLKQ i] that by auto
  then have "qfam q' L" by (intro qfam_links [OF D(2) assms(2,3)]) (simp add: assms(4))
  moreover have "qkey (q' p) = prio s p" if "p \<in> set (L RDYQ)" for p
  proof -
    have "p \<notin> set (L CLKQ)" using qfam_disjoint [OF D(2), of RDYQ CLKQ p] that by auto
    then show ?thesis using assms(4) D(6) [OF that] by simp
  qed
  ultimately show ?thesis
    using assms(1) by (simp add: kq_def layout_def kprocs_def pmember_def)
qed

lemma clkint_preempt_wf:
  assumes "kwf s L" "krun s L"
  obtains s' L' where "clkint_preempt s = Some s'" "kwf s' L'" "krun s' L'" "kframe s L s' L'"
    "preempt s = 1 \<Longrightarrow> currpid s' = fst (dispatch (prio s) (currpid s) True (L RDYQ))"
    "preempt s > 1 \<Longrightarrow> s' = s\<lparr>preempt := preempt s - 1\<rparr>"
    "\<And>p. pst s' p = (if p = currpid s' then PRCURR else if p = currpid s then PRREADY else pst s p)"
proof -
  let ?s = "s\<lparr>preempt := preempt s - 1\<rparr>"
  have p: "0 < preempt s" "preempt s \<le> QUANTUM" using assms(2) by (simp_all add: krun_def)
  then have sub: "sub16 (preempt s) 1 = Some (preempt s - 1)"
    by (simp add: QUANTUM_def MININT_def MAXINT_def)
  have w: "kwf ?s L" using assms(1) by (simp add: kwf_def ksem_alt kclk_def)
  have f: "kframe s L ?s L" by (simp add: kframe_def)
  show thesis
  proof (cases "preempt s = 1")
    case True
    obtain s2 L2 where r: "resched ?s = Some (OK, s2)" "kwf s2 L2" "krun s2 L2" "kframe ?s L s2 L2"
      "currpid s2 = fst (dispatch (prio ?s) (currpid ?s) (pst ?s (currpid ?s) = PRCURR) (L RDYQ))"
      "\<And>p. pst s2 p = (if p = currpid s2 then PRCURR
         else if p = currpid ?s \<and> pst ?s p = PRCURR then PRREADY else pst ?s p)"
      by (rule resched_wf [OF w]) blast
    have eq: "clkint_preempt s = Some s2" using sub r(1) True by (simp add: clkint_preempt_def)
    show thesis
      by (rule that [OF eq r(2,3) kframe_trans [OF f r(4)]])
         (use r(5,6) kwf_running(2) [OF assms] True in auto)
  next
    case False
    then have "krun ?s L" using assms(2) p by (simp add: krun_def)
    moreover have "clkint_preempt s = Some ?s" using sub False p by (simp add: clkint_preempt_def)
    moreover have "pst ?s p = (if p = currpid ?s then PRCURR else if p = currpid s then PRREADY else pst s p)"
      for p using kwf_running(2) [OF assms] by simp
    ultimately show thesis using that w f False by blast
  qed
qed

lemma sum_list_dropWhile_le:
  "(\<And>x. x \<in> set xs \<Longrightarrow> (0::int) \<le> f x) \<Longrightarrow> sum_list (map f (dropWhile P xs)) \<le> sum_list (map f xs)"
proof (induction xs)
  case (Cons x xs)
  then have "0 \<le> f x" "sum_list (map f (dropWhile P xs)) \<le> sum_list (map f xs)" by simp_all
  then show ?case by simp
qed simp

lemma mem_takeWhile_iff:
  "distinct xs \<Longrightarrow> p \<in> set (takeWhile P xs) \<longleftrightarrow> p \<in> set xs \<and> p \<notin> set (dropWhile P xs)"
proof -
  assume "distinct xs"
  then have "distinct (takeWhile P xs @ dropWhile P xs)" by simp
  then have "set (takeWhile P xs) \<inter> set (dropWhile P xs) = {}" by (simp only: distinct_append)
  moreover have "set xs = set (takeWhile P xs) \<union> set (dropWhile P xs)"
    by (metis set_append takeWhile_dropWhile_id)
  ultimately show ?thesis by auto
qed

lemma sleepers_cong:
  "L' CLKQ = L CLKQ \<Longrightarrow> (\<And>p. p \<in> set (L CLKQ) \<Longrightarrow> qkey (qtab s' p) = qkey (qtab s p)) \<Longrightarrow>
    sleepers s' L' = sleepers s L"
  unfolding sleepers_def by (simp only:) (rule delays_cong, simp)

lemma kframe_sleepers: "kframe s L s' L' \<Longrightarrow> sleepers s' L' = sleepers s L"
  by (rule sleepers_cong) (auto dest: kframeD)

text \<open>
  A tick takes one from the first key only. It takes that much off every delay, unless the first sleeper has no delay at all, which
  \<open>recvtim(0)\<close> makes: then that tick wakes it and leaves the delays of the others.
\<close>

definition tick_step :: "kstate \<Rightarrow> (int \<Rightarrow> int list) \<Rightarrow> int" where
  "tick_step s L = (if \<exists>d \<in> set (sleepers s L). snd d = 0 then 0 else 1)"

lemma tick_step_head:
  assumes "L CLKQ = x # ys" "\<And>y. y \<in> set (x # ys) \<Longrightarrow> 0 \<le> qkey (qtab s y)"
  shows "tick_step s L = (if qkey (qtab s x) = 0 then 0 else 1)"
proof (cases "qkey (qtab s x) = 0")
  case True
  then show ?thesis using assms(1) by (simp add: tick_step_def sleepers_def)
next
  case False
  then have k: "0 < qkey (qtab s x)" using assms(2) [of x] by simp
  have "snd d \<noteq> 0" if "d \<in> set (sleepers s L)" for d
  proof -
    have "d = (x, qkey (qtab s x)) \<or> d \<in> set (delays (\<lambda>p. qkey (qtab s p)) (qkey (qtab s x)) ys)"
      using that assms(1) by (simp add: sleepers_def)
    then show ?thesis
      using k delays_ge [of ys "\<lambda>p. qkey (qtab s p)" d "qkey (qtab s x)"] assms(2) by fastforce
  qed
  then show ?thesis using False by (simp add: tick_step_def)
qed

lemma clkint_tick_wf:
  assumes "kwf s L" "krun s L"
  obtains k s' L' where "clkint_tick s = Some (k, s')" "kwf s' L'" "krun s' L'"
    "sleepers s' L' = map (\<lambda>(p, t). (p, t - tick_step s L)) (filter (\<lambda>d. tick_step s L < snd d) (sleepers s L))"
    "\<And>p. pst s' p = (if p = currpid s' then PRCURR
       else if p \<in> set (L CLKQ) \<and> p \<notin> set (L' CLKQ) \<or> p = currpid s then PRREADY else pst s p)"
    "kown s s'" "\<And>p. proctab s' p = (proctab s p)\<lparr>pstate := pst s' p\<rparr>"
proof (cases "L CLKQ")
  case Nil
  then have ne: "\<not> slnempty s" using kclkD(1) [OF kwfD(3) [OF assms(1)]] by simp
  obtain s' L' where r: "clkint_preempt s = Some s'" "kwf s' L'" "krun s' L'" "kframe s L s' L'"
    "\<And>p. pst s' p = (if p = currpid s' then PRCURR else if p = currpid s then PRREADY else pst s p)"
    by (rule clkint_preempt_wf [OF assms]) blast
  have sl: "sleepers s' L' = []" using kframe_sleepers [OF r(4)] Nil by (simp add: sleepers_def)
  show thesis
    by (rule that [OF _ r(2,3)])
       (use ne r(1,5) sl Nil kframe_kown [OF r(4)] kframeD(4) [OF r(4)] in \<open>simp_all add: clkint_tick_def sleepers_def\<close>)
next
  case (Cons x ys)
  note W = kwfD [OF assms(1)] and K = kclkD [OF kwfD(3) [OF assms(1)]]
  let ?k = "qkey (qtab s x) - 1"
  let ?s1 = "s\<lparr>qtab := set_qkey x ?k (qtab s)\<rparr>"
  have x: "slnempty s" "sltop s = x" using K(1,2) Cons by simp_all
  have kx: "0 \<le> qkey (qtab s x)" "qkey (qtab s x) \<le> MAXINT" using K(3,5) Cons by simp_all
  then have sub: "sub16 (qkey (qtab s x)) 1 = Some ?k" by (simp add: MININT_def)
  have own: "kown s s'" if "kown ?s1 s'" for s'
    by (rule kown_trans [OF _ that]) simp
  have dist: "distinct (x # ys)" using qfam_distinct [OF kqD(2) [OF W(1)], of CLKQ] Cons by simp
  have same: "qkey (qtab ?s1 y) = qkey (qtab s y)" if "y \<noteq> x" for y using that by (simp add: queue_upd)
  have top: "qkey (qtab ?s1 x) = ?k" by (simp add: queue_upd)
  have ynx: "y \<noteq> x" if "y \<in> set ys" for y using that dist by auto
  have k1: "kq ?s1 L {}"
    by (rule kq_clock_keys [OF W(1)]) (use Cons in \<open>auto simp: queue_upd\<close>)
  have s1: "ksem ?s1 L" using W(2) by (simp add: ksem_alt)
  have "map (\<lambda>p. qkey (qtab ?s1 p)) ys = map (\<lambda>p. qkey (qtab s p)) ys"
    using same ynx by (intro map_cong) auto
  then have ys: "sum_list (map (\<lambda>p. qkey (qtab ?s1 p)) ys) = sum_list (map (\<lambda>p. qkey (qtab s p)) ys)"
    by (simp only:)
  then have sum: "sum_list (map (\<lambda>p. qkey (qtab ?s1 p)) (L CLKQ)) \<le> MAXINT"
    using K(4) Cons top by simp
  have step: "tick_step s L = (if qkey (qtab s x) = 0 then 0 else 1)"
    by (rule tick_step_head [of L x ys]) (use K(3) Cons in auto)
  have tick: "delays (\<lambda>p. qkey (qtab ?s1 p)) 0 (dropWhile (due ?s1) (L CLKQ)) =
      map (\<lambda>(p, t). (p, t - 1)) (filter (\<lambda>d. 1 < snd d) (sleepers s L))"
    if "1 \<le> qkey (qtab s x)"
    unfolding sleepers_def Cons
    by (rule delays_tick [OF dist, of "\<lambda>p. qkey (qtab s p)"])
       (use that K(3) Cons same ynx top in auto)
  have zero: "delays (\<lambda>p. qkey (qtab ?s1 p)) 0 (dropWhile (due ?s1) (L CLKQ)) = filter (\<lambda>d. 0 < snd d) (sleepers s L)"
    if "qkey (qtab s x) = 0"
  proof -
    have "delays (\<lambda>p. qkey (qtab ?s1 p)) 0 (dropWhile (due ?s1) ys) = filter (\<lambda>d. 0 < snd d) (delays (\<lambda>p. qkey (qtab ?s1 p)) 0 ys)"
      by (rule delays_dropWhile) (use K(3) Cons same ynx in auto)
    moreover have "delays (\<lambda>p. qkey (qtab ?s1 p)) 0 ys = delays (\<lambda>p. qkey (qtab s p)) 0 ys"
      by (rule delays_cong) (use same ynx in auto)
    ultimately show ?thesis using that Cons top by (simp add: sleepers_def)
  qed
  show thesis
  proof (cases "?k \<le> 0")
    case False
    then have w1: "kwf ?s1 L"
      unfolding kwf_def using k1 s1 W(3) sum Cons top same K(3)
      by (auto simp: kclk_def queue_upd)
    have r1: "krun ?s1 L" using assms(2) by (simp add: krun_def)
    obtain s' L' where r: "clkint_preempt ?s1 = Some s'" "kwf s' L'" "krun s' L'" "kframe ?s1 L s' L'"
      "\<And>p. pst s' p = (if p = currpid s' then PRCURR else if p = currpid ?s1 then PRREADY else pst ?s1 p)"
      by (rule clkint_preempt_wf [OF w1 r1]) blast
    have "dropWhile (due ?s1) (L CLKQ) = L CLKQ" using False Cons top by simp
    then have sl: "sleepers s' L' = map (\<lambda>(p, t). (p, t - tick_step s L)) (filter (\<lambda>d. tick_step s L < snd d) (sleepers s L))"
      using kframe_sleepers [OF r(4)] tick False step by (simp add: sleepers_def)
    show thesis
      by (rule that [OF _ r(2,3) sl])
         (use x sub False r(1,5) kframeD(2) [OF r(4)] own [OF kframe_kown [OF r(4)]] kframeD(4) [OF r(4)] in
           \<open>simp_all add: clkint_tick_def\<close>)
  next
    case True
    have dw: "dropWhile (due ?s1) (L CLKQ) = dropWhile (due ?s1) ys" using True Cons top by simp
    have "sum_list (map (\<lambda>p. qkey (qtab ?s1 p)) (dropWhile (due ?s1) ys))
        \<le> sum_list (map (\<lambda>p. qkey (qtab ?s1 p)) ys)"
      by (rule sum_list_dropWhile_le) (use same ynx K(3) Cons in auto)
    also have "\<dots> \<le> MAXINT" using ys K(4) kx(1) Cons by simp
    finally have le: "sum_list (map (\<lambda>p. qkey (qtab ?s1 p)) (dropWhile (due ?s1) (L CLKQ))) \<le> MAXINT"
      unfolding dw .
    have tl: "0 \<le> qkey (qtab ?s1 p)" if "p \<in> set (tl (L CLKQ))" for p
      using that Cons same [of p] ynx [of p] K(3) [of p] by simp
    obtain s' L' where r: "wakeup ?s1 = Some s'" "kwf s' L'" "krun s' L'"
      "L' CLKQ = dropWhile (due ?s1) (L CLKQ)"
      "\<And>p. p \<in> set (L' CLKQ) \<Longrightarrow> qkey (qtab s' p) = qkey (qtab ?s1 p)"
      "\<And>p. pst s' p = (if p = currpid s' then PRCURR
         else if p \<in> set (takeWhile (due ?s1) (L CLKQ)) then PRREADY
         else if p = currpid ?s1 \<and> pst ?s1 p = PRCURR then PRREADY else pst ?s1 p)"
      "kown ?s1 s'" "\<And>p. proctab s' p = (proctab ?s1 p)\<lparr>pstate := pst s' p\<rparr>"
      by (rule wakeup_wf [OF k1 s1 tl le]) (use W(3) in \<open>auto simp: kclk_def\<close>)
    have "sleepers s' L' = delays (\<lambda>p. qkey (qtab ?s1 p)) 0 (dropWhile (due ?s1) (L CLKQ))"
      unfolding sleepers_def r(4) by (rule delays_cong) (use r(4,5) in simp)
    then have sl: "sleepers s' L' = map (\<lambda>(p, t). (p, t - tick_step s L)) (filter (\<lambda>d. tick_step s L < snd d) (sleepers s L))"
      using tick zero step kx(1) by (cases "qkey (qtab s x) = 0") (simp_all add: case_prod_beta)
    have tw: "p \<in> set (takeWhile (due ?s1) (L CLKQ)) \<longleftrightarrow> p \<in> set (L CLKQ) \<and> p \<notin> set (L' CLKQ)" for p
      unfolding r(4) by (rule mem_takeWhile_iff) (use dist Cons in simp)
    have ps: "pst s' p = (if p = currpid s' then PRCURR
       else if p \<in> set (L CLKQ) \<and> p \<notin> set (L' CLKQ) \<or> p = currpid s then PRREADY else pst s p)" for p
      using r(6) [of p] tw [of p] kwf_running(2) [OF assms] by auto
    show thesis
      by (rule that [OF _ r(2,3) sl ps])
         (use x sub True r(1) own [OF r(7)] r(8) in \<open>simp_all add: clkint_tick_def\<close>)
  qed
qed

section \<open>Deferred ticks\<close>

text \<open>What the loop of strtclk does to the keys, and to the delays.\<close>

fun makeup_keys :: "(int \<Rightarrow> int) \<Rightarrow> int \<Rightarrow> int list \<Rightarrow> int \<Rightarrow> int" where
  "makeup_keys kf m [] = kf"
| "makeup_keys kf m (x # xs) =
     (if kf x < m then makeup_keys (kf(x := 0)) (m - kf x) xs else kf(x := kf x - m))"

lemma makeup_keys_other: "y \<notin> set xs \<Longrightarrow> makeup_keys kf m xs y = kf y"
  by (induction kf m xs rule: makeup_keys.induct) auto

lemma makeup_keys_bounds:
  "distinct xs \<Longrightarrow> 0 \<le> m \<Longrightarrow> (\<And>x. x \<in> set xs \<Longrightarrow> 0 \<le> kf x) \<Longrightarrow> y \<in> set xs \<Longrightarrow>
    0 \<le> makeup_keys kf m xs y \<and> makeup_keys kf m xs y \<le> kf y"
proof (induction kf m xs rule: makeup_keys.induct)
  case (2 kf m x xs)
  show ?case
  proof (cases "kf x < m")
    case True
    have pre: "0 \<le> m - kf x" "\<And>z. z \<in> set xs \<Longrightarrow> 0 \<le> (kf(x := 0)) z"
      using True 2(4) by auto
    show ?thesis
    proof (cases "y = x")
      case eq: True
      then have "makeup_keys (kf(x := 0)) (m - kf x) xs y = 0"
        using makeup_keys_other [of x xs "kf(x := 0)"] 2(2) by simp
      then show ?thesis using True eq 2(4) [of x] by simp
    next
      case False
      have "0 \<le> makeup_keys (kf(x := 0)) (m - kf x) xs y \<and>
          makeup_keys (kf(x := 0)) (m - kf x) xs y \<le> (kf(x := 0)) y"
        by (rule "2.IH" [OF True]) (use 2(2,5) False pre in auto)
      then show ?thesis using True False by simp
    qed
  next
    case False
    then show ?thesis using 2(3-5) by auto
  qed
qed simp

lemma makeup_keys_delays:
  "distinct xs \<Longrightarrow> 0 \<le> m \<Longrightarrow> (\<And>x. x \<in> set xs \<Longrightarrow> 0 \<le> kf x) \<Longrightarrow>
    delays (makeup_keys kf m xs) u xs = map (\<lambda>(p, t). (p, max u (t - m))) (delays kf u xs)"
proof (induction kf m xs rule: makeup_keys.induct)
  case (2 kf m x xs)
  have notin: "x \<notin> set xs" using 2(2) by simp
  show ?case
  proof (cases "kf x < m")
    case True
    let ?kf = "kf(x := 0)"
    have pre: "0 \<le> m - kf x" "\<And>z. z \<in> set xs \<Longrightarrow> 0 \<le> ?kf z" using True 2(4) by auto
    have "delays (makeup_keys ?kf (m - kf x) xs) u xs =
        map (\<lambda>(p, t). (p, max u (t - (m - kf x)))) (delays ?kf u xs)"
      by (rule "2.IH" [OF True]) (use 2(2) pre in auto)
    also have "delays ?kf u xs = delays kf u xs" by (rule delays_cong) (use notin in auto)
    also have "map (\<lambda>(p, t). (p, max u (t - (m - kf x)))) (delays kf u xs) =
        map (\<lambda>(p, t). (p, max u (t - m))) (delays kf (u + kf x) xs)"
      by (simp add: delays_shift [of kf u "kf x" xs] split_def comp_def algebra_simps)
    finally have "delays (makeup_keys ?kf (m - kf x) xs) u xs =
        map (\<lambda>(p, t). (p, max u (t - m))) (delays kf (u + kf x) xs)" .
    moreover have "makeup_keys ?kf (m - kf x) xs x = 0"
      using makeup_keys_other [OF notin, of ?kf] by simp
    ultimately show ?thesis using True by simp
  next
    case False
    let ?kf = "kf(x := kf x - m)"
    have "delays ?kf (u + kf x - m) xs = delays kf (u + kf x - m) xs"
      by (rule delays_cong) (use notin in auto)
    also have "\<dots> = map (\<lambda>(p, t). (p, t - m)) (delays kf (u + kf x) xs)"
      using delays_shift [of kf "u + kf x" "- m" xs] by simp
    also have "\<dots> = map (\<lambda>(p, t). (p, max u (t - m))) (delays kf (u + kf x) xs)"
    proof (rule map_cong [OF refl])
      fix d assume "d \<in> set (delays kf (u + kf x) xs)"
      then have "u + kf x \<le> snd d" by (intro delays_ge [of xs kf]) (use 2(4) in auto)
      then have "u \<le> snd d - m" using False by simp
      then show "(case d of (p, t) \<Rightarrow> (p, t - m)) = (case d of (p, t) \<Rightarrow> (p, max u (t - m)))"
        by (auto simp: split_def max_def)
    qed
    finally show ?thesis using False by (simp add: algebra_simps fun_upd_def)
  qed
qed simp

lemma makeup_loop_list:
  assumes "linked q (xs @ [e])" "NPROC \<le> e" "distinct xs" "set xs \<subseteq> {0..<NPROC}" "0 \<le> m" "m \<le> MAXINT"
    and "\<And>x. x \<in> set xs \<Longrightarrow> 0 \<le> qkey (q x) \<and> qkey (q x) \<le> MAXINT"
  shows "\<exists>q'. makeup_loop m (hd (xs @ [e])) q = Some q' \<and> (\<forall>i. qnext (q' i) = qnext (q i)) \<and>
    (\<forall>i. qprev (q' i) = qprev (q i)) \<and> (\<forall>i. qkey (q' i) = makeup_keys (\<lambda>x. qkey (q x)) m xs i)"
  using assms
proof (induction xs arbitrary: q m)
  case Nil
  then show ?case by (simp add: makeup_loop.simps)
next
  case (Cons x xs)
  let ?k = "qkey (q x)"
  have x: "x < NPROC" "x \<notin> set xs" "0 \<le> ?k" "?k \<le> MAXINT" using Cons.prems by simp_all
  have nx: "qnext (q x) = hd (xs @ [e])" using Cons.prems(1) by (cases xs) simp_all
  show ?case
  proof (cases "?k < m")
    case True
    let ?q = "set_qkey x 0 q"
    have "linked ?q (xs @ [e])"
      by (rule linked_cong [of q]) (use Cons.prems(1) in \<open>cases xs; simp_all add: queue_upd\<close>)+
    moreover have "0 \<le> m - ?k" "m - ?k \<le> MAXINT" using True x Cons.prems(6) by simp_all
    moreover have "0 \<le> qkey (?q y) \<and> qkey (?q y) \<le> MAXINT" if "y \<in> set xs" for y
      using Cons.prems(7) [of y] that x(2) by (auto simp: queue_upd)
    ultimately obtain q' where q': "makeup_loop (m - ?k) (hd (xs @ [e])) ?q = Some q'"
      "\<forall>i. qnext (q' i) = qnext (?q i)" "\<forall>i. qprev (q' i) = qprev (?q i)"
      "\<forall>i. qkey (q' i) = makeup_keys (\<lambda>y. qkey (?q y)) (m - ?k) xs i"
      using Cons.IH [of ?q "m - ?k"] Cons.prems(2-4) by auto
    have "(\<lambda>y. qkey (?q y)) = (\<lambda>y. qkey (q y))(x := 0)" by (auto simp: queue_upd)
    moreover have "sub16 m ?k = Some (m - ?k)"
      using True x Cons.prems(6) by (simp add: MININT_def)
    then have "makeup_loop m x q = Some q'"
      using True x(1) nx q'(1) by (subst makeup_loop.simps) simp
    ultimately show ?thesis using q'(2-4) True by (auto simp: queue_upd)
  next
    case False
    let ?q = "set_qkey x (?k - m) q"
    have "sub16 ?k m = Some (?k - m)" using False x Cons.prems(5) by (simp add: MININT_def)
    then have "makeup_loop m x q = Some ?q"
      using False x(1) by (subst makeup_loop.simps) simp
    then show ?thesis using False by (auto simp: queue_upd)
  qed
qed

lemma makeup_wf:
  assumes "kwf s L" "0 \<le> m" "m \<le> MAXINT"
  obtains q' where "makeup_loop m (firstid (qtab s) (clockq s)) (qtab s) = Some q'"
    "kq (s\<lparr>qtab := q'\<rparr>) L {}"
    "\<And>p. p \<in> set (L CLKQ) \<Longrightarrow> 0 \<le> qkey (q' p) \<and> qkey (q' p) \<le> qkey (qtab s p)"
    "delays (\<lambda>p. qkey (q' p)) 0 (L CLKQ) = map (\<lambda>(p, t). (p, max 0 (t - m))) (sleepers s L)"
proof -
  note W = kwfD [OF assms(1)] and K = kclkD [OF kwfD(3) [OF assms(1)]]
  note R = qrepD [OF qfam_qrep [OF kqD(2) [OF W(1)], of CLKQ]]
  let ?e = "qhead CLKQ + 1"
  have lk: "linked (qtab s) (L CLKQ @ [?e])"
    using R(8) by (cases "L CLKQ") simp_all
  have hd: "firstid (qtab s) (clockq s) = hd (L CLKQ @ [?e])"
    using R(8) kq_layout(3) [OF W(1)] by (cases "L CLKQ") (simp_all add: firstid_def)
  have e: "NPROC \<le> ?e" using NPROC_le_qhead [of CLKQ] by simp
  obtain q' where q': "makeup_loop m (hd (L CLKQ @ [?e])) (qtab s) = Some q'"
    "\<And>i. qnext (q' i) = qnext (qtab s i)" "\<And>i. qprev (q' i) = qprev (qtab s i)"
    "\<And>i. qkey (q' i) = makeup_keys (\<lambda>x. qkey (qtab s x)) m (L CLKQ) i"
    using makeup_loop_list [OF lk e R(1) R(2) assms(2,3)] K(3,5) by auto
  have "kq (s\<lparr>qtab := q'\<rparr>) L {}"
    by (rule kq_clock_keys [OF W(1) q'(2,3)]) (simp add: q'(4) makeup_keys_other)
  moreover have "0 \<le> qkey (q' p) \<and> qkey (q' p) \<le> qkey (qtab s p)" if "p \<in> set (L CLKQ)" for p
    unfolding q'(4) by (rule makeup_keys_bounds) (use R(1) assms(2) K(3) that in auto)
  moreover have "delays (\<lambda>p. qkey (q' p)) 0 (L CLKQ) = map (\<lambda>(p, t). (p, max 0 (t - m))) (sleepers s L)"
    unfolding q'(4) sleepers_def by (rule makeup_keys_delays) (use R(1) assms(2) K(3) in auto)
  ultimately show thesis using that q'(1) hd by simp
qed

lemma sum_list_map_mono:
  "(\<And>x. x \<in> set xs \<Longrightarrow> (f x :: int) \<le> g x) \<Longrightarrow> sum_list (map f xs) \<le> sum_list (map g xs)"
  by (induction xs) (auto intro: add_mono)

lemma filter_map_max:
  "filter (\<lambda>d. 0 < snd d) (map (\<lambda>(p, t). (p, max 0 (t - m))) ds) =
    map (\<lambda>(p, t). (p, t - m)) (filter (\<lambda>d. (m::int) < snd d) ds)"
  by (induction ds) auto

lemma strtclk_wakeup_wf:
  assumes "kwf s L" "0 \<le> m" "m \<le> MAXINT" "s2 = s\<lparr>defclk := d, preempt := p, clkdiff := 0\<rparr>"
  obtains q1 s' L' where "makeup_loop m (firstid (qtab s2) (clockq s2)) (qtab s2) = Some q1"
    "wakeup (s2\<lparr>qtab := q1\<rparr>) = Some s'" "kwf s' L'" "krun s' L'"
    "sleepers s' L' = map (\<lambda>(p, t). (p, t - m)) (filter (\<lambda>d. m < snd d) (sleepers s L))" "kown s s'"
proof -
  have w2: "kwf s2 L" using assms(1,4) by (simp add: kwf_def ksem_alt kclk_def)
  note W = kwfD [OF w2] and K = kclkD [OF kwfD(3) [OF w2]]
  obtain q1 where q1: "makeup_loop m (firstid (qtab s2) (clockq s2)) (qtab s2) = Some q1"
    "kq (s2\<lparr>qtab := q1\<rparr>) L {}"
    "\<And>p. p \<in> set (L CLKQ) \<Longrightarrow> 0 \<le> qkey (q1 p) \<and> qkey (q1 p) \<le> qkey (qtab s2 p)"
    "delays (\<lambda>p. qkey (q1 p)) 0 (L CLKQ) = map (\<lambda>(p, t). (p, max 0 (t - m))) (sleepers s2 L)"
    by (rule makeup_wf [OF w2 assms(2,3)]) blast
  let ?s = "s2\<lparr>qtab := q1\<rparr>"
  have "sum_list (map (\<lambda>p. qkey (q1 p)) (dropWhile (due ?s) (L CLKQ))) \<le> sum_list (map (\<lambda>p. qkey (q1 p)) (L CLKQ))"
    by (rule sum_list_dropWhile_le) (use q1(3) in blast)
  also have "\<dots> \<le> sum_list (map (\<lambda>p. qkey (qtab s2 p)) (L CLKQ))"
    by (rule sum_list_map_mono) (use q1(3) in blast)
  also have "\<dots> \<le> MAXINT" by (rule K(4))
  finally have le: "sum_list (map (\<lambda>p. qkey (qtab ?s p)) (dropWhile (due ?s) (L CLKQ))) \<le> MAXINT" by simp
  have tl: "0 \<le> qkey (qtab ?s p)" if "p \<in> set (tl (L CLKQ))" for p
    using q1(3) [of p] that by (cases "L CLKQ") simp_all
  have sem: "ksem ?s L" using W(2) by (simp add: ksem_alt)
  obtain s' L' where r: "wakeup ?s = Some s'" "kwf s' L'" "krun s' L'"
    "L' CLKQ = dropWhile (due ?s) (L CLKQ)"
    "\<And>p. p \<in> set (L' CLKQ) \<Longrightarrow> qkey (qtab s' p) = qkey (qtab ?s p)" "kown ?s s'"
    by (rule wakeup_wf [OF q1(2) sem tl le]) (use W(3) in \<open>auto simp: kclk_def\<close>)
  have r4: "L' CLKQ = dropWhile (\<lambda>p. qkey (q1 p) \<le> 0) (L CLKQ)" using r(4) by simp
  have "sleepers s' L' = delays (\<lambda>p. qkey (q1 p)) 0 (dropWhile (\<lambda>p. qkey (q1 p) \<le> 0) (L CLKQ))"
    unfolding sleepers_def r4 by (rule delays_cong) (use r(5) r4 in simp)
  also have "\<dots> = filter (\<lambda>d. 0 < snd d) (delays (\<lambda>p. qkey (q1 p)) 0 (L CLKQ))"
    by (rule delays_dropWhile) (use q1(3) in blast)
  also have "\<dots> = map (\<lambda>(p, t). (p, t - m)) (filter (\<lambda>d. m < snd d) (sleepers s2 L))"
    unfolding q1(4) by (rule filter_map_max)
  also have "sleepers s2 L = sleepers s L" by (rule sleepers_cong) (simp_all add: assms(4))
  finally have sl: "sleepers s' L' = map (\<lambda>(p, t). (p, t - m)) (filter (\<lambda>d. m < snd d) (sleepers s L))" .
  have "kown s s'" by (rule kown_trans [OF _ r(6)]) (simp add: assms(4))
  then show thesis using that q1(1) r(1-3) sl by blast
qed

lemma strtclk_last_wf:
  assumes "kwf s L" "krun s L" "defclk s = 1" "0 \<le> clkdiff s" "clkdiff s \<le> MAXINT"
  obtains k s' L' where "strtclk s = Some (k, s')" "kwf s' L'" "krun s' L'"
    "sleepers s' L' = map (\<lambda>(p, t). (p, t - clkdiff s)) (filter (\<lambda>d. clkdiff s < snd d) (sleepers s L))"
    "kown s s'"
proof -
  let ?m = "clkdiff s"
  let ?s2 = "s\<lparr>defclk := 0, preempt := preempt s - ?m, clkdiff := 0\<rparr>"
  have m: "s16 ?m = ?m" using assms(4,5) by (simp add: MININT_def)
  have pr: "0 < preempt s" "preempt s \<le> QUANTUM" using assms(2) by (simp_all add: krun_def)
  then have sub: "sub16 (preempt s) ?m = Some (preempt s - ?m)"
    using assms(4,5) by (simp add: QUANTUM_def MININT_def MAXINT_def)
  show thesis
  proof (cases "slnempty s")
    case True
    obtain q1 s' L' where r: "makeup_loop ?m (firstid (qtab ?s2) (clockq ?s2)) (qtab ?s2) = Some q1"
      "wakeup (?s2\<lparr>qtab := q1\<rparr>) = Some s'" "kwf s' L'" "krun s' L'"
      "sleepers s' L' = map (\<lambda>(p, t). (p, t - ?m)) (filter (\<lambda>d. ?m < snd d) (sleepers s L))" "kown s s'"
      by (rule strtclk_wakeup_wf [OF assms(1,4,5) refl]) blast
    show thesis
      by (rule that [OF _ r(3-6)]) (use assms(3) m sub True r(1,2) in \<open>simp add: strtclk_def\<close>)
  next
    case False
    then have Lc: "L CLKQ = []" using kclkD(1) [OF kwfD(3) [OF assms(1)]] by simp
    have w2: "kwf ?s2 L" using assms(1) by (simp add: kwf_def ksem_alt kclk_def)
    have sl: "sleepers s L = []" using Lc by (simp add: sleepers_def)
    show thesis
    proof (cases "preempt s - ?m \<le> 0")
      case True
      obtain s' L' where r: "resched ?s2 = Some (OK, s')" "kwf s' L'" "krun s' L'" "kframe ?s2 L s' L'"
        by (rule resched_wf [OF w2]) blast
      have "sleepers s' L' = []" using kframeD(2) [OF r(4)] Lc by (simp add: sleepers_def)
      moreover have "kown s s'" by (rule kown_trans [OF _ kframe_kown [OF r(4)]]) simp
      ultimately show thesis
        by (intro that [OF _ r(2,3)])
           (use assms(3) m sub False True r(1) sl in \<open>simp_all add: strtclk_def strtclk_ret_def\<close>)
    next
      case pos: False
      have "krun ?s2 L" using assms(2) pos pr assms(4) by (simp add: krun_def)
      moreover have "sleepers ?s2 L = []" using Lc by (simp add: sleepers_def)
      ultimately show thesis
        by (intro that [OF _ w2])
           (use assms(3) m sub False pos sl in \<open>simp_all add: strtclk_def strtclk_ret_def\<close>)
    qed
  qed
qed

section \<open>The calls keep the contract\<close>

lemma resched_call_wf:
  assumes "kwf s L"
  shows "\<exists>v s' L'. resched s = Some (v, s') \<and> kwf s' L' \<and> krun s' L' \<and> kown s s'"
  using resched_wf [OF assms] kframe_kown by metis

interpretation sleep10_call: kcall "sleep10 n" "\<lambda>s. n \<le> MAXINT \<and> (currpid s \<noteq> NULLPROC \<or> n = 0)"
proof
  fix s L assume s: "kwf s L" "krun s L" and pre: "n \<le> MAXINT \<and> (currpid s \<noteq> NULLPROC \<or> n = 0)"
  consider (bad) "n < 0 \<or> \<not> clkruns s" | (zero) "n = 0" "clkruns s"
    | (wait) "0 < n" "clkruns s" "currpid s \<noteq> NULLPROC" using pre by fastforce
  then show "\<exists>v s' L'. sleep10 n s = Some (v, s') \<and> kwf s' L' \<and> krun s' L' \<and> kown s s'"
  proof cases
    case bad
    then show ?thesis using s by (auto simp: sleep10_def)
  next
    case zero
    obtain v s' L' where "resched s = Some (v, s')" "kwf s' L'" "krun s' L'" "kown s s'"
      using resched_call_wf [OF s(1)] by blast
    then show ?thesis using zero by (simp add: sleep10_def) blast
  next
    case wait
    from sleep10_wf [OF s wait(3,1) _ wait(2)] pre show ?thesis by metis
  qed
qed

lemma sleep_loop_wf:
  assumes "kwf s L" "krun s L" "currpid s \<noteq> NULLPROC \<or> n \<le> 0"
  shows "\<exists>v s' L'. sleep_loop n s = Some (v, s') \<and> kwf s' L' \<and> krun s' L' \<and> kown s s'"
proof -
  have one: "\<exists>v s' L'. sleep10 t s = Some (v, s') \<and> kwf s' L' \<and> krun s' L' \<and> kown s s'"
    if "t \<le> MAXINT" "currpid s \<noteq> NULLPROC" for t
    using sleep10_call.kinv_call [OF assms(1,2)] that by blast
  consider (long) "1000 \<le> n" | (short) "0 < n" "n < 1000" | (over) "n \<le> 0" by fastforce
  then show ?thesis
  proof cases
    case long
    then have "currpid s \<noteq> NULLPROC" using assms(3) by simp
    then obtain v s' L' where "sleep10 (1000 * TICK) s = Some (v, s')" "kwf s' L'" "krun s' L'" "kown s s'"
      using one [of "1000 * TICK"] by (auto simp: TICK_def MAXINT_def)
    then show ?thesis using long
      by (simp add: sleep_loop_def chk16_def TICK_def MAXINT_def MININT_def) blast
  next
    case short
    then have "currpid s \<noteq> NULLPROC" using assms(3) by simp
    then obtain v s' L' where "sleep10 (TICK * n) s = Some (v, s')" "kwf s' L'" "krun s' L'" "kown s s'"
      using one [of "TICK * n"] short by (auto simp: TICK_def MAXINT_def)
    then show ?thesis using short
      by (simp add: sleep_loop_def chk16_def TICK_def MAXINT_def MININT_def) blast
  next
    case over
    then show ?thesis using assms by (auto simp: sleep_loop_def)
  qed
qed

interpretation sleep_loop_call: kcall "sleep_loop n" "\<lambda>s. currpid s \<noteq> NULLPROC \<or> n \<le> 0"
  by unfold_locales (rule sleep_loop_wf)

interpretation sleep_call: kcall "sleep n" "\<lambda>s. currpid s \<noteq> NULLPROC \<or> n \<le> 0"
proof
  fix s L assume s: "kwf s L" "krun s L" and pre: "currpid s \<noteq> NULLPROC \<or> n \<le> 0"
  consider (bad) "n < 0 \<or> \<not> clkruns s" | (zero) "n = 0" "clkruns s" | (wait) "0 < n" "clkruns s"
    by fastforce
  then show "\<exists>v s' L'. sleep n s = Some (v, s') \<and> kwf s' L' \<and> krun s' L' \<and> kown s s'"
  proof cases
    case bad
    then show ?thesis using s by (auto simp: sleep_def)
  next
    case zero
    obtain v s' L' where "resched s = Some (v, s')" "kwf s' L'" "krun s' L'" "kown s s'"
      using resched_call_wf [OF s(1)] by blast
    then show ?thesis using zero by (simp add: sleep_def) blast
  next
    case wait
    then show ?thesis using sleep_loop_wf [OF s pre] by (simp add: sleep_def)
  qed
qed

definition kvoid :: "kstate option \<Rightarrow> (unit \<times> kstate) option" where
  "kvoid = map_option (Pair ())"

interpretation clkint_preempt_call: kcall "\<lambda>s. kvoid (clkint_preempt s)" "\<lambda>_. True"
  by unfold_locales (metis clkint_preempt_wf kframe_kown kvoid_def option.simps(9))

lemma strtclk_ret_keep: "krun s L \<Longrightarrow> strtclk_ret s = Some s"
  by (simp add: strtclk_ret_def krun_def)

interpretation strtclk_ret_call: kcall "\<lambda>s. kvoid (strtclk_ret s)" "\<lambda>_. True"
  by unfold_locales (auto simp: strtclk_ret_keep kvoid_def)

interpretation stopclk_call: kcall "\<lambda>s. Some ((), stopclk s)" "\<lambda>_. True"
proof
  fix s L assume s: "kwf s L" "krun s L"
  then have "kwf (stopclk s) L" "krun (stopclk s) L"
    by (simp_all add: stopclk_def krun_def)
  moreover have "kown s (stopclk s)" by (simp add: stopclk_def)
  ultimately show "\<exists>v s' L'. Some ((), stopclk s) = Some (v, s') \<and> kwf s' L' \<and> krun s' L' \<and> kown s s'" by blast
qed

interpretation strtclk_call: kcall strtclk "\<lambda>s. 0 \<le> clkdiff s \<and> clkdiff s \<le> MAXINT"
proof
  fix s L assume s: "kwf s L" "krun s L" and pre: "0 \<le> clkdiff s \<and> clkdiff s \<le> MAXINT"
  consider (zero) "defclk s \<le> 0" | (one) "defclk s = 1" | (more) "1 < defclk s" by fastforce
  then show "\<exists>v s' L'. strtclk s = Some (v, s') \<and> kwf s' L' \<and> krun s' L' \<and> kown s s'"
  proof cases
    case zero
    then show ?thesis using s by (auto simp: strtclk_def)
  next
    case one
    from strtclk_last_wf [OF s one] pre show ?thesis by metis
  next
    case more
    let ?s = "s\<lparr>defclk := defclk s - 1\<rparr>"
    have "kwf ?s L" "krun ?s L" using s by (simp_all add: kwf_def ksem_alt kclk_def krun_def)
    moreover have "strtclk s = Some (KRet OK, ?s)" using more by (simp add: strtclk_def)
    moreover have "kown s ?s" by simp
    ultimately show ?thesis by blast
  qed
qed

text \<open>The interrupt as a whole, divided by ten before it reaches the scheduler.\<close>

lemma clkint_cases:
  assumes "kwf s L" "krun s L" "clktime s < 2147483647" "- 2147483648 \<le> clktime s"
  obtains (early) s1 where "clkint s = Some (KRet OK, s1)" "kwf s1 L" "krun s1 L"
      "proctab s1 = proctab s" "qtab s1 = qtab s" "preempt s1 = preempt s" "kown s s1"
    | (tick) s1 where "clkint s = clkint_tick s1" "kwf s1 L" "krun s1 L" "prescaler s = 1" "defclk s = 0"
      "proctab s1 = proctab s" "qtab s1 = qtab s" "preempt s1 = preempt s" "kown s s1"
proof -
  have b: "1 \<le> prescaler s" "prescaler s \<le> 10" "1 \<le> rtcScaler s" "rtcScaler s \<le> 10"
    using kwfD(3) [OF assms(1)] by (simp_all add: kclk_def)
  then have sub: "sub16 (prescaler s) 1 = Some (prescaler s - 1)" "sub16 (rtcScaler s) 1 = Some (rtcScaler s - 1)"
    by (simp_all add: MININT_def MAXINT_def)
  have t: "add32 (clktime s) 1 = Some (clktime s + 1)" using assms(3,4) by (simp add: add32_def)
  let ?c = "u32 (ctr100 s + 1)"
  show thesis
  proof (cases "prescaler s = 1")
    case False
    let ?s1 = "s\<lparr>ctr100 := ?c, prescaler := prescaler s - 1\<rparr>"
    have w: "kwf ?s1 L" using assms(1) b False by (simp add: kwf_def ksem_alt kclk_def)
    have r: "krun ?s1 L" using assms(2) by (simp add: krun_def)
    have eq: "clkint s = Some (KRet OK, ?s1)" using sub b False by (simp add: clkint_def)
    show thesis by (rule early [OF eq w r]) simp_all
  next
    case True
    let ?s5 = "if rtcScaler s = 1
      then s\<lparr>ctr100 := ?c, prescaler := 10, clktime := clktime s + 1, rtcScaler := 10\<rparr>
      else s\<lparr>ctr100 := ?c, prescaler := 10, rtcScaler := rtcScaler s - 1\<rparr>"
    have w5: "kwf ?s5 L" using assms(1) b by (simp add: kwf_def ksem_alt kclk_def)
    have k5: "krun ?s5 L" using assms(2) by (simp add: krun_def)
    show thesis
    proof (cases "defclk s = 0")
      case zero: True
      have eq: "clkint s = clkint_tick ?s5"
        using sub t True zero by (simp add: clkint_def)
      show thesis by (rule tick [OF eq w5 k5 True zero]) simp_all
    next
      case False
      let ?s6 = "?s5\<lparr>clkdiff := u16 (clkdiff s + 1)\<rparr>"
      have eq: "clkint s = Some (KRet OK, ?s6)"
        using sub t True False by (simp add: clkint_def)
      have w: "kwf ?s6 L" using w5 by (simp add: kwf_def ksem_alt kclk_def)
      have k: "krun ?s6 L" using k5 by (simp add: krun_def)
      show thesis by (rule early [OF eq w k]) simp_all
    qed
  qed
qed

interpretation clkint_call: kcall clkint "\<lambda>s. clktime s < 2147483647 \<and> - 2147483648 \<le> clktime s"
proof
  fix s L assume s: "kwf s L" "krun s L" and pre: "clktime s < 2147483647 \<and> - 2147483648 \<le> clktime s"
  show "\<exists>v s' L'. clkint s = Some (v, s') \<and> kwf s' L' \<and> krun s' L' \<and> kown s s'"
  proof (rule clkint_cases [OF s])
    fix s1 assume "clkint s = clkint_tick s1" "kwf s1 L" "krun s1 L" "kown s s1"
    then show ?thesis using clkint_tick_wf [of s1 L] kown_trans by metis
  qed (use pre in auto)
qed

end
