(* ===== verification/Msg.thy ===== *)
theory Msg
  imports Clock
begin

text \<open>
  Messages between processes: \<open>send.c\<close>, \<open>sendf.c\<close>, \<open>receive.c\<close>, \<open>recvclr.c\<close>,
  \<open>recvtim.c\<close>. A process table entry has room for one message. \<open>mailbox\<close> reads it as an
  option, and the operations are stated on that: \<open>send\<close> fills an empty mailbox and refuses
  a full one, the receiving calls empty it.
\<close>

section \<open>Definitions\<close>

definition put_msg :: "int \<Rightarrow> int \<Rightarrow> int \<Rightarrow> kstate \<Rightarrow> kstate" where
  "put_msg pid msg has s = upd_proc pid (pmsg_update (\<lambda>_. msg) \<circ> phasmsg_update (\<lambda>_. has)) s"

definition send :: "int \<Rightarrow> int \<Rightarrow> kstate \<Rightarrow> (int \<times> kstate) option" where
  "send pid msg s =
     (if isbadpid pid \<or> pst s pid = PRFREE \<or> phasmsg (proctab s pid) \<noteq> 0 then Some (SYSERR, s)
      else
        let s1 = put_msg pid msg 1 s
        in if pst s1 pid = PRRECV
           then do { (_, s2) \<leftarrow> ready pid True s1; Some (OK, s2) }
           else if pst s1 pid = PRTRECV
           then do {
             (_, s2) \<leftarrow> unsleep pid s1;
             (_, s3) \<leftarrow> ready pid True s2;
             Some (OK, s3)
           }
           else Some (OK, s1))"

definition sendf :: "int \<Rightarrow> int \<Rightarrow> kstate \<Rightarrow> (int \<times> kstate) option" where
  "sendf pid msg s =
     (if isbadpid pid \<or> pst s pid = PRFREE then Some (SYSERR, s)
      else do {
        has \<leftarrow> add16 (phasmsg (proctab s pid)) 1;
        let s1 = put_msg pid msg has s;
        if pst s1 pid = PRRECV
        then do { (_, s2) \<leftarrow> ready pid True s1; Some (OK, s2) }
        else Some (OK, s1)
      })"

definition clear_msg :: "int \<Rightarrow> kstate \<Rightarrow> kstate" where
  "clear_msg pid s = upd_proc pid (phasmsg_update (\<lambda>_. 0)) s"

text \<open>receive and recvtim from the point where the process has the processor again.\<close>

definition receive_ret :: "kstate \<Rightarrow> int \<times> kstate" where
  "receive_ret s = (pmsg (proctab s (currpid s)), clear_msg (currpid s) s)"

definition receive :: "kstate \<Rightarrow> (kont \<times> kstate) option" where
  "receive s =
     (if phasmsg (proctab s (currpid s)) = 0
      then do {
        (_, s1) \<leftarrow> resched (set_pstate (currpid s) PRRECV s);
        Some (KReceive, s1)
      }
      else let (msg, s1) = receive_ret s in Some (KRet msg, s1))"

definition recvclr :: "kstate \<Rightarrow> int \<times> kstate" where
  "recvclr s =
     (if phasmsg (proctab s (currpid s)) \<noteq> 0
      then (pmsg (proctab s (currpid s)), clear_msg (currpid s) s)
      else (OK, s))"

definition recvtim_ret :: "kstate \<Rightarrow> int \<times> kstate" where
  "recvtim_ret s =
     (if phasmsg (proctab s (currpid s)) \<noteq> 0
      then (pmsg (proctab s (currpid s)), clear_msg (currpid s) s)
      else (TIMEOUT, s))"

definition recvtim :: "int \<Rightarrow> kstate \<Rightarrow> (kont \<times> kstate) option" where
  "recvtim maxwait s =
     (if maxwait < 0 \<or> \<not> clkruns s then Some (KRet SYSERR, s)
      else if phasmsg (proctab s (currpid s)) = 0
      then do {
        s1 \<leftarrow> clock_insert maxwait PRTRECV s;
        (_, s2) \<leftarrow> resched s1;
        Some (KRecvtim, s2)
      }
      else let (msg, s1) = recvtim_ret s in Some (KRet msg, s1))"

definition mailbox :: "kstate \<Rightarrow> int \<Rightarrow> int option" where
  "mailbox s p = (if phasmsg (proctab s p) = 0 then None else Some (pmsg (proctab s p)))"

section \<open>Messages and the invariant\<close>

lemma put_msg_simps [simp]:
  "proctab (put_msg p m h s) = (proctab s)(p := (proctab s p)\<lparr>phasmsg := h, pmsg := m\<rparr>)"
  "currpid (put_msg p m h s) = currpid s" "qtab (put_msg p m h s) = qtab s"
  "semaph (put_msg p m h s) = semaph s" "mem (put_msg p m h s) = mem s"
  by (simp_all add: put_msg_def)

lemma put_msg_wf:
  assumes "kwf s L"
  shows "kwf (put_msg p m h s) L" "krun (put_msg p m h s) L = krun s L"
  using kwfx_other_fields(1) [of "pmsg_update (\<lambda>_. m) \<circ> phasmsg_update (\<lambda>_. h)" p s L "{}"]
    kwfx_other_fields(2) [of "pmsg_update (\<lambda>_. m) \<circ> phasmsg_update (\<lambda>_. h)" p s L] assms
  by (simp_all add: put_msg_def)

lemma clear_msg_wf:
  assumes "kwf s L"
  shows "kwf (clear_msg p s) L" "krun (clear_msg p s) L = krun s L"
  using kwfx_other_fields(1) [of "phasmsg_update (\<lambda>_. 0)" p s L "{}"]
    kwfx_other_fields(2) [of "phasmsg_update (\<lambda>_. 0)" p s L] assms
  by (simp_all add: clear_msg_def)

lemma kown_msg [simp]: "kown s (put_msg p m h s)" "kown s (clear_msg p s)"
  unfolding put_msg_def clear_msg_def by (rule kown_upd_proc; simp)+

lemma mailbox_put: "h \<noteq> 0 \<Longrightarrow> mailbox (put_msg p m h s) = (mailbox s)(p := Some m)"
  by (auto simp: mailbox_def fun_eq_iff)

lemma mailbox_clear: "mailbox (clear_msg p s) = (mailbox s)(p := None)"
  by (auto simp: mailbox_def clear_msg_def fun_eq_iff)

lemma mailbox_kframe:
  assumes "kframe s L s' L'"
  shows "mailbox s' = mailbox s"
proof
  fix p
  have "phasmsg (proctab s' p) = phasmsg (proctab s p)" "pmsg (proctab s' p) = pmsg (proctab s p)"
    by (subst kframeD(4) [OF assms], simp)+
  then show "mailbox s' p = mailbox s p" by (simp add: mailbox_def)
qed

lemma mailbox_cong: "proctab s' = proctab s \<Longrightarrow> mailbox s' = mailbox s"
  by (simp add: mailbox_def fun_eq_iff)

text \<open>A process that gives up the processor hands it to another one.\<close>

lemma kwf_successor:
  assumes "kwf s L" "krun s L" "currpid s \<noteq> NULLPROC"
  shows "L RDYQ \<noteq> []" "last (L RDYQ) \<noteq> currpid s"
proof -
  note Q = kwfD(1) [OF assms(1)] and K = kqD(3) [OF kwfD(1) [OF assms(1)]]
  have "pst s NULLPROC = PRREADY"
    using K assms(3) by (auto simp: kprocs_def NULLPROC_def)
  then have "NULLPROC \<in> set (L RDYQ)" by (intro kq_ready_mem [OF Q]) simp_all
  then show ne: "L RDYQ \<noteq> []" by auto
  have "pst s (last (L RDYQ)) = PRREADY" by (rule kq_ready [OF Q last_in_set [OF ne]])
  then show "last (L RDYQ) \<noteq> currpid s" using kwf_running(2) [OF assms(1,2)] by auto
qed

lemma ready_last_highest:
  assumes "kwf s L" "krun s L" "currpid s \<noteq> NULLPROC" "ispid q" "pst s q = PRREADY"
  shows "prio s q \<le> prio s (last (L RDYQ))"
proof -
  note Q = kwfD(1) [OF assms(1)]
  have "prio s q \<le> prio s (fst (dispatch (prio s) (currpid s) False (L RDYQ)))"
    by (rule dispatch_highest [OF kqD(7) [OF Q]])
      (use kq_ready_mem [OF Q assms(4) _ assms(5)] kwf_successor(1) [OF assms(1-3)] in auto)
  then show ?thesis by simp
qed

text \<open>A process that waits for a message is made ready. \<open>woken\<close> is all that happens to the process
  table and to the semaphores: the receiver is ready, and so is the caller, unless the scheduler
  picks it.\<close>

definition woken :: "int \<Rightarrow> kstate \<Rightarrow> kstate \<Rightarrow> bool" where
  "woken p s s' \<longleftrightarrow> semaph s' = semaph s \<and> (\<forall>q. proctab s' q = (proctab s q)\<lparr>pstate := pst s' q\<rparr>) \<and>
     (\<forall>q. pst s' q = (if q = currpid s' then PRCURR else if q = p \<or> q = currpid s then PRREADY else pst s q))"

lemma wake_receiver_wf:
  assumes "kwf s L" "\<not> isbadpid p" "pst s p = PRRECV"
  obtains s' L' where "ready p True s = Some (OK, s')" "kwf s' L'" "krun s' L'" "kframe s L s' L'"
    "pst s' p \<in> {PRREADY, PRCURR}"
    "pst s (currpid s) = PRCURR \<Longrightarrow> woken p s s'"
proof -
  have k: "kwfx s L {p}"
    by (rule kwf_capture [OF assms(1) not_bad_ispid(1) [OF assms(2)]]) (simp add: ploc_def assms(3))
  have fr: "pst s p \<noteq> PRFREE" using assms(3) by simp
  obtain s' L' where r: "ready p True s = Some (OK, s')" "kwf s' L'" "krun s' L'" "kframe s L s' L'"
    "\<And>i. pst s' i = (if i = currpid s' then PRCURR else if i = p then PRREADY
       else if i = currpid s \<and> pst s i = PRCURR then PRREADY else pst s i)"
    by (rule ready_wf [OF k assms(2) fr]) blast
  have wk: "woken p s s'" if "pst s (currpid s) = PRCURR"
    unfolding woken_def
  proof (intro conjI allI)
    show "semaph s' = semaph s" by (rule kframe_fields(1) [OF r(4)])
    show "proctab s' q = (proctab s q)\<lparr>pstate := pst s' q\<rparr>" for q by (rule kframeD(4) [OF r(4)])
    show "pst s' q = (if q = currpid s' then PRCURR else if q = p \<or> q = currpid s then PRREADY else pst s q)" for q
      using r(5) [of q] that by simp
  qed
  show thesis by (rule that [OF r(1-4)]) (use r(5) wk in auto)
qed

lemma wake_timed_wf:
  assumes "kwf s L" "\<not> isbadpid p" "pst s p \<in> {PRSLEEP, PRTRECV}"
  obtains s1 s2 L2 where "unsleep p s = Some (OK, s1)" "ready p True s1 = Some (OK, s2)"
    "kwf s2 L2" "krun s2 L2" "mailbox s2 = mailbox s" "pst s2 p \<in> {PRREADY, PRCURR}"
    "sleepers s2 L2 = filter (\<lambda>d. fst d \<noteq> p) (sleepers s L)" "kown s s2"
    "pst s (currpid s) = PRCURR \<Longrightarrow> woken p s s2"
proof -
  obtain s1 ys where u: "unsleep p s = Some (OK, s1)" "kwfx s1 (L(CLKQ := ys)) {p}"
    "sleepers s1 (L(CLKQ := ys)) = filter (\<lambda>d. fst d \<noteq> p) (sleepers s L)"
    "proctab s1 = proctab s" "kown s s1" "semaph s1 = semaph s" "currpid s1 = currpid s"
    by (rule unsleep_wf [OF assms]) blast
  have fr: "pst s1 p \<noteq> PRFREE" using assms(3) u(4) by auto
  obtain s2 L2 where r: "ready p True s1 = Some (OK, s2)" "kwf s2 L2" "krun s2 L2"
    "kframe s1 (L(CLKQ := ys)) s2 L2"
    "\<And>i. pst s2 i = (if i = currpid s2 then PRCURR else if i = p then PRREADY
       else if i = currpid s1 \<and> pst s1 i = PRCURR then PRREADY else pst s1 i)"
    by (rule ready_wf [OF u(2) assms(2) fr]) blast
  have wk: "woken p s s2" if "pst s (currpid s) = PRCURR"
    unfolding woken_def
  proof (intro conjI allI)
    show "semaph s2 = semaph s" using kframe_fields(1) [OF r(4)] u(6) by simp
    show "proctab s2 q = (proctab s q)\<lparr>pstate := pst s2 q\<rparr>" for q using kframeD(4) [OF r(4)] u(4) by simp
    show "pst s2 q = (if q = currpid s2 then PRCURR else if q = p \<or> q = currpid s then PRREADY else pst s q)" for q
      using r(5) [of q] that by (simp add: u(4,7))
  qed
  show thesis
    by (rule that [OF u(1) r(1-3)])
       (use r(5) wk mailbox_kframe [OF r(4)] mailbox_cong [OF u(4)] kframe_sleepers [OF r(4)] u(3)
         kown_trans [OF u(5) kframe_kown [OF r(4)]] in auto)
qed

lemma send_wf:
  assumes "kwf s L" "krun s L" "\<not> isbadpid p" "pst s p \<noteq> PRFREE" "phasmsg (proctab s p) = 0"
  obtains s' L' where "send p m s = Some (OK, s')" "kwf s' L'" "krun s' L'"
    "mailbox s' = (mailbox s)(p := Some m)"
    "pst s p \<in> {PRRECV, PRTRECV} \<Longrightarrow> pst s' p \<in> {PRREADY, PRCURR}"
    "pst s p \<notin> {PRRECV, PRTRECV} \<Longrightarrow> s' = put_msg p m 1 s" "kown s s'"
    "pst s p \<in> {PRRECV, PRTRECV} \<Longrightarrow> woken p (put_msg p m 1 s) s'"
proof -
  let ?s = "put_msg p m 1 s"
  note w = put_msg_wf [OF assms(1), of p m 1]
  have mb: "mailbox ?s = (mailbox s)(p := Some m)" by (rule mailbox_put) simp
  have st: "pst ?s p = pst s p" by simp
  have cur: "pst ?s (currpid ?s) = PRCURR" using kwf_running(2) [OF assms(1,2)] by auto
  have own: "kown s s'" if "kown ?s s'" for s' by (rule kown_trans [OF kown_msg(1) that])
  consider (recv) "pst s p = PRRECV" | (trecv) "pst s p = PRTRECV"
    | (other) "pst s p \<notin> {PRRECV, PRTRECV}" by blast
  then show thesis
  proof cases
    case recv
    obtain s' L' where r: "ready p True ?s = Some (OK, s')" "kwf s' L'" "krun s' L'" "kframe ?s L s' L'"
      "pst s' p \<in> {PRREADY, PRCURR}" "woken p ?s s'"
      by (rule wake_receiver_wf [OF w(1) assms(3)]) (use recv cur in simp_all)
    show thesis
      by (rule that [OF _ r(2,3)])
         (use recv assms(3-5) r(1,5,6) mb mailbox_kframe [OF r(4)] own [OF kframe_kown [OF r(4)]] in \<open>simp_all add: send_def\<close>)
  next
    case trecv
    have "pst ?s p \<in> {PRSLEEP, PRTRECV}" using trecv by simp
    then obtain s1 s2 L2 where r: "unsleep p ?s = Some (OK, s1)" "ready p True s1 = Some (OK, s2)"
      "kwf s2 L2" "krun s2 L2" "mailbox s2 = mailbox ?s" "pst s2 p \<in> {PRREADY, PRCURR}"
      "kown ?s s2" "woken p ?s s2"
      by (rule wake_timed_wf [OF w(1) assms(3)]) (use cur in blast)
    show thesis
      by (rule that [OF _ r(3,4)])
         (use trecv assms(3-5) r(1,2,5,6,8) mb own [OF r(7)] in \<open>simp_all add: send_def\<close>)
  next
    case other
    show thesis
      by (rule that [OF _ w(1)])
         (use other assms(2-5) mb w(2) in \<open>simp_all add: send_def\<close>)
  qed
qed

lemma sendf_wf:
  assumes "kwf s L" "krun s L" "\<not> isbadpid p" "pst s p \<noteq> PRFREE"
    "0 \<le> phasmsg (proctab s p)" "phasmsg (proctab s p) < MAXINT"
  obtains s' L' where "sendf p m s = Some (OK, s')" "kwf s' L'" "krun s' L'"
    "mailbox s' = (mailbox s)(p := Some m)" "kown s s'"
proof -
  let ?h = "phasmsg (proctab s p) + 1"
  let ?s = "put_msg p m ?h s"
  note w = put_msg_wf [OF assms(1), of p m ?h]
  have mb: "mailbox ?s = (mailbox s)(p := Some m)" by (rule mailbox_put) (use assms(5) in simp)
  have add: "add16 (phasmsg (proctab s p)) 1 = Some ?h"
    using assms(5,6) by (simp add: MININT_def MAXINT_def)
  show thesis
  proof (cases "pst s p = PRRECV")
    case True
    obtain s' L' where r: "ready p True ?s = Some (OK, s')" "kwf s' L'" "krun s' L'" "kframe ?s L s' L'"
      by (rule wake_receiver_wf [OF w(1) assms(3)]) (use True in simp_all)
    show thesis
      by (rule that [OF _ r(2,3)])
         (use True assms(3,4) add r(1) mb mailbox_kframe [OF r(4)]
           kown_trans [OF kown_msg(1) kframe_kown [OF r(4)]] in \<open>simp_all add: sendf_def\<close>)
  next
    case False
    show thesis
      by (rule that [OF _ w(1)])
         (use False assms(2-4) add mb w(2) in \<open>simp_all add: sendf_def\<close>)
  qed
qed

text \<open>The running process waits for a message.\<close>

lemma receive_block_wf:
  assumes "kwf s L" "krun s L" "currpid s \<noteq> NULLPROC" "mailbox s (currpid s) = None"
  obtains s' L' where "receive s = Some (KReceive, s')" "kwf s' L'" "krun s' L'"
    "currpid s' = last (L RDYQ)" "mailbox s' = mailbox s"
    "\<And>p. pst s' p = (if p = currpid s' then PRCURR else if p = currpid s then PRRECV else pst s p)"
    "kown s s'"
proof -
  note c = kwf_running [OF assms(1,2)]
  let ?s1 = "set_pstate (currpid s) PRRECV s"
  have k: "kwfx s L {currpid s}" by (rule kwf_capture [OF assms(1) c(1,3)])
  have k1: "kwfx ?s1 L {currpid s}" "kframe s L ?s1 L"
    by (rule kwfx_set_pstate [OF k]; use assms(3) c(2) in simp)+
  have w: "kwf ?s1 L" by (rule kwfx_release [OF k1(1)]) (simp add: ploc_def)
  obtain s2 L2 where s2: "resched ?s1 = Some (OK, s2)" "kwf s2 L2" "krun s2 L2" "kframe ?s1 L s2 L2"
    "currpid s2 = fst (dispatch (prio ?s1) (currpid ?s1) (pst ?s1 (currpid ?s1) = PRCURR) (L RDYQ))"
    "\<And>i. pst s2 i = (if i = currpid s2 then PRCURR
       else if i = currpid ?s1 \<and> pst ?s1 i = PRCURR then PRREADY else pst ?s1 i)"
    by (rule resched_wf [OF w]) blast
  have no: "phasmsg (proctab s (currpid s)) = 0" using assms(4) by (simp add: mailbox_def split: if_splits)
  show thesis
    by (rule that [OF _ s2(2,3)])
       (use no s2(1,5,6) mailbox_kframe [OF s2(4)] mailbox_kframe [OF k1(2)]
         kframe_kown [OF kframe_trans [OF k1(2) s2(4)]] in
         \<open>simp_all add: receive_def\<close>)
qed

lemma receive_full:
  assumes "mailbox s (currpid s) = Some m"
  shows "receive s = Some (KRet m, clear_msg (currpid s) s)" "receive_ret s = (m, clear_msg (currpid s) s)"
    "recvclr s = (m, clear_msg (currpid s) s)" "recvtim_ret s = (m, clear_msg (currpid s) s)"
  using assms
  by (auto simp: receive_def receive_ret_def recvclr_def recvtim_ret_def mailbox_def split: if_splits)

lemma recvtim_block_wf:
  assumes "kwf s L" "krun s L" "currpid s \<noteq> NULLPROC" "mailbox s (currpid s) = None"
    "0 \<le> n" "n \<le> MAXINT" "clkruns s"
  obtains s' L' where "recvtim n s = Some (KRecvtim, s')" "kwf s' L'" "krun s' L'"
    "sleepers s' L' = time_insert n (currpid s) (sleepers s L)" "currpid s' = last (L RDYQ)"
    "mailbox s' = mailbox s"
    "\<And>p. pst s' p = (if p = currpid s' then PRCURR else if p = currpid s then PRTRECV else pst s p)"
    "kown s s'" "prio s' = prio s"
proof -
  have st: "PRTRECV \<in> {PRSLEEP, PRTRECV}" by simp
  obtain s1 ys where c: "clock_insert n PRTRECV s = Some s1" "kwf s1 (L(CLKQ := ys))"
    "sleepers s1 (L(CLKQ := ys)) = time_insert n (currpid s) (sleepers s L)"
    "proctab s1 = (proctab s)(currpid s := (proctab s (currpid s))\<lparr>pstate := PRTRECV\<rparr>)"
    "currpid s1 = currpid s" "kown s s1"
    by (rule clock_insert_wf [OF assms(1-3,5,6) st]) blast
  obtain s2 L2 where r: "resched s1 = Some (OK, s2)" "kwf s2 L2" "krun s2 L2"
    "kframe s1 (L(CLKQ := ys)) s2 L2"
    "currpid s2 = fst (dispatch (prio s1) (currpid s1) (pst s1 (currpid s1) = PRCURR) ((L(CLKQ := ys)) RDYQ))"
    "\<And>p. pst s2 p = (if p = currpid s2 then PRCURR
       else if p = currpid s1 \<and> pst s1 p = PRCURR then PRREADY else pst s1 p)"
    by (rule resched_wf [OF c(2)]) blast
  have "mailbox s1 = mailbox s" by (auto simp: mailbox_def fun_eq_iff c(4))
  moreover have "phasmsg (proctab s (currpid s)) = 0"
    using assms(4) by (simp add: mailbox_def split: if_splits)
  moreover have "prio s2 = prio s"
    by (rule ext, subst kframeD(4) [OF r(4)]) (simp add: c(4))
  ultimately show thesis
    by (intro that [OF _ r(2,3)])
       (use assms(5,7) c(1,3-5) r(1,5,6) mailbox_kframe [OF r(4)] kframe_sleepers [OF r(4)]
         kown_trans [OF c(6) kframe_kown [OF r(4)]] in
         \<open>simp_all add: recvtim_def\<close>)
qed

section \<open>The calls keep the contract\<close>

interpretation send_call: kcall "send p m" "\<lambda>_. True"
proof
  fix s L assume s: "kwf s L" "krun s L"
  show "\<exists>v s' L'. send p m s = Some (v, s') \<and> kwf s' L' \<and> krun s' L' \<and> kown s s'"
  proof (cases "isbadpid p \<or> pst s p = PRFREE \<or> phasmsg (proctab s p) \<noteq> 0")
    case True
    then show ?thesis using s by (auto simp: send_def)
  next
    case False
    then have "\<not> isbadpid p" "pst s p \<noteq> PRFREE" "phasmsg (proctab s p) = 0" by simp_all
    from send_wf [OF s this, of m] show ?thesis by metis
  qed
qed

interpretation sendf_call: kcall "sendf p m"
  "\<lambda>s. 0 \<le> phasmsg (proctab s p) \<and> phasmsg (proctab s p) < MAXINT"
proof
  fix s L assume s: "kwf s L" "krun s L"
    and pre: "0 \<le> phasmsg (proctab s p) \<and> phasmsg (proctab s p) < MAXINT"
  show "\<exists>v s' L'. sendf p m s = Some (v, s') \<and> kwf s' L' \<and> krun s' L' \<and> kown s s'"
  proof (cases "isbadpid p \<or> pst s p = PRFREE")
    case True
    then show ?thesis using s by (auto simp: sendf_def)
  next
    case False
    then have "\<not> isbadpid p" "pst s p \<noteq> PRFREE" by simp_all
    from sendf_wf [OF s this, of m] pre show ?thesis by metis
  qed
qed

interpretation receive_ret_call: kcall "\<lambda>s. Some (receive_ret s)" "\<lambda>_. True"
  by unfold_locales (metis receive_ret_def clear_msg_wf kown_msg(2) kown_refl)

interpretation recvclr_call: kcall "\<lambda>s. Some (recvclr s)" "\<lambda>_. True"
  by unfold_locales (metis recvclr_def clear_msg_wf kown_msg(2) kown_refl)

interpretation recvtim_ret_call: kcall "\<lambda>s. Some (recvtim_ret s)" "\<lambda>_. True"
  by unfold_locales (metis recvtim_ret_def clear_msg_wf kown_msg(2) kown_refl)

interpretation receive_call: kcall receive "\<lambda>s. currpid s \<noteq> NULLPROC"
proof
  fix s L assume s: "kwf s L" "krun s L" and pre: "currpid s \<noteq> NULLPROC"
  show "\<exists>v s' L'. receive s = Some (v, s') \<and> kwf s' L' \<and> krun s' L' \<and> kown s s'"
  proof (cases "mailbox s (currpid s)")
    case None
    from receive_block_wf [OF s pre None] show ?thesis by metis
  next
    case (Some m)
    then show ?thesis using receive_full(1) [OF Some] clear_msg_wf [OF s(1)] s(2) by auto
  qed
qed

interpretation recvtim_call: kcall "recvtim n" "\<lambda>s. currpid s \<noteq> NULLPROC \<and> n \<le> MAXINT"
proof
  fix s L assume s: "kwf s L" "krun s L" and pre: "currpid s \<noteq> NULLPROC \<and> n \<le> MAXINT"
  consider (bad) "n < 0 \<or> \<not> clkruns s"
    | (block) "0 \<le> n" "clkruns s" "mailbox s (currpid s) = None"
    | (full) m where "0 \<le> n" "clkruns s" "mailbox s (currpid s) = Some m"
    by (cases "mailbox s (currpid s)"; fastforce)
  then show "\<exists>v s' L'. recvtim n s = Some (v, s') \<and> kwf s' L' \<and> krun s' L' \<and> kown s s'"
  proof cases
    case bad
    then show ?thesis using s by (auto simp: recvtim_def)
  next
    case block
    from recvtim_block_wf [OF s _ block(3,1) _ block(2)] pre show ?thesis by metis
  next
    case full
    have "recvtim n s = Some (KRet m, clear_msg (currpid s) s)"
      using full by (auto simp: recvtim_def recvtim_ret_def mailbox_def split: if_splits)
    then show ?thesis using clear_msg_wf [OF s(1)] s(2) by auto
  qed
qed

end
