(* ===== verification/Example.thy ===== *)
theory Example
  imports KState
begin

text \<open>
  One concrete kernel state with a process in every state a process can be in, on which the
  properties of the kernel calls are instantiated: process 1 runs at priority 20; 0 (the null
  process) and 2 are ready; 3 waits on semaphore 0, whose count is -1; 4 sleeps for three
  ticks and 7 waits for a message for two ticks more; 5 waits for a message; 6 is suspended;
  8 and 9 are free slots. Semaphore 1 has a count of 2; the others are free.
\<close>

definition ex_lists :: "int \<Rightarrow> int list" where
  "ex_lists n = (if n = 0 then [3] else if n = RDYQ then [0, 2] else if n = CLKQ then [4, 7] else [])"

definition ex_entry :: "pstate \<Rightarrow> int \<Rightarrow> pentry" where
  "ex_entry st pr = \<lparr>pstate = st, pprio = pr, pregs = (\<lambda>_. 0), psem = 0, pmsg = 0, phasmsg = 0,
     pbase = 0, pstklen = 0, plimit = 0, pname = '''', pargs = 0, parg = (\<lambda>_. 0), paddr = 0,
     pnxtkin = BADPID, pdevs0 = BADDEV, pdevs1 = BADDEV, fildes = (\<lambda>_. - 1)\<rparr>"

definition ex_procs :: "int \<Rightarrow> pentry" where
  "ex_procs p =
     (if p = 0 then ex_entry PRREADY 0 else if p = 1 then ex_entry PRCURR 20
      else if p = 2 then ex_entry PRREADY 20 else if p = 3 then ex_entry PRWAIT 30
      else if p = 4 then ex_entry PRSLEEP 25 else if p = 5 then ex_entry PRRECV 10
      else if p = 6 then ex_entry PRSUSP 40 else if p = 7 then ex_entry PRTRECV 15
      else ex_entry PRFREE 0)"

definition ex_sems :: "int \<Rightarrow> sentry" where
  "ex_sems i = \<lparr>sstate = (if i = 0 \<or> i = 1 then SUSED else SFREE),
     semcnt = (if i = 0 then - 1 else if i = 1 then 2 else 0), sqhead = qhead i, sqtail = qhead i + 1\<rparr>"

definition ex_proc_q :: "int \<Rightarrow> qent" where
  "ex_proc_q p =
     (if p = 3 then \<lparr>qkey = 0, qnext = qhead 0 + 1, qprev = qhead 0\<rparr>
      else if p = 0 then \<lparr>qkey = 0, qnext = 2, qprev = qhead RDYQ\<rparr>
      else if p = 2 then \<lparr>qkey = 20, qnext = qhead RDYQ + 1, qprev = 0\<rparr>
      else if p = 4 then \<lparr>qkey = 3, qnext = 7, qprev = qhead CLKQ\<rparr>
      else if p = 7 then \<lparr>qkey = 2, qnext = qhead CLKQ + 1, qprev = 4\<rparr>
      else \<lparr>qkey = 0, qnext = 0, qprev = 0\<rparr>)"

definition ex_q :: qarr where
  "ex_q i =
     (if i < NPROC then ex_proc_q i
      else let n = (i - NPROC) div 2; xs = ex_lists n
           in if (i - NPROC) mod 2 = 0
              then \<lparr>qkey = MININT, qnext = (case xs of [] \<Rightarrow> i + 1 | x # _ \<Rightarrow> x), qprev = EMPTY\<rparr>
              else \<lparr>qkey = MAXINT, qnext = EMPTY, qprev = (if xs = [] then i - 1 else last xs)\<rparr>)"

definition ex_mem :: memst where
  "ex_mem = \<lparr>mnext = (\<lambda>_. 0), mlen = (\<lambda>_. 0), ram = (\<lambda>_. 0), memlist = 0, heap_start = 0, heap_end = 0\<rparr>"

definition ex_state :: kstate where
  "ex_state = \<lparr>proctab = ex_procs, numproc = 7, nextproc = 9, currpid = 1, semaph = ex_sems,
     nextsem = 29, qtab = ex_q, nextqueue = NQENT, rdyhead = qhead RDYQ, rdytail = qhead RDYQ + 1,
     preempt = 10, clkruns = True, clockq = qhead CLKQ, slnempty = True, sltop = 4, defclk = 0,
     clkdiff = 0, clktime = 0, ctr100 = 0, prescaler = 10, rtcScaler = 10, mem = ex_mem,
     files = (\<lambda>_. \<lparr>sflags = 0, sput = 0, sget = 0, sfdesc = 0\<rparr>), xcalls = []\<rparr>"

lemma ex_q_head [simp]:
  "isqueue n \<Longrightarrow> ex_q (qhead n) =
     \<lparr>qkey = MININT, qnext = (case ex_lists n of [] \<Rightarrow> qhead n + 1 | x # _ \<Rightarrow> x), qprev = EMPTY\<rparr>"
  by (simp add: ex_q_def qhead_def Let_def split: list.splits)

lemma ex_q_tail [simp]:
  assumes "isqueue n"
  shows "ex_q (qhead n + 1) = \<lparr>qkey = MAXINT, qnext = EMPTY,
     qprev = (if ex_lists n = [] then qhead n else last (ex_lists n))\<rparr>"
proof -
  have "(2 * n + 1) div 2 = n" "(2 * n + 1) mod 2 = (1::int)" by presburger+
  then show ?thesis using assms by (simp add: ex_q_def qhead_def Let_def)
qed

lemma ex_q_proc [simp]: "p < NPROC \<Longrightarrow> ex_q p = ex_proc_q p"
  by (simp add: ex_q_def)

lemma ex_numbers: "RDYQ = 30" "CLKQ = 31"
  by (simp_all add: RDYQ_def CLKQ_def NSEM_def)

lemma ex_qrep: "isqueue n \<Longrightarrow> qrep ex_q (qhead n) (ex_lists n)"
proof -
  assume n: "isqueue n"
  consider "n = 0" | "n = RDYQ" | "n = CLKQ" | "ex_lists n = []"
    unfolding ex_lists_def by presburger
  then show ?thesis
  proof cases
    case 4
    then show ?thesis using n ex_q_head [OF n] ex_q_tail [OF n] by (simp add: qrep_def qhead_def)
  qed (use n ex_q_head [OF n] ex_q_tail [OF n] in
    \<open>simp_all add: qrep_def ex_lists_def ex_proc_q_def NPROC_def qhead_def ex_numbers\<close>)
qed

lemma ex_qfam: "qfam ex_q ex_lists"
  unfolding qfam_def by (intro conjI allI impI ex_qrep) (auto simp: ex_lists_def)

lemma ex_procs_simps [simp]:
  "pstate (ex_entry st pr) = st" "pprio (ex_entry st pr) = pr" "psem (ex_entry st pr) = 0"
  "phasmsg (ex_entry st pr) = 0"
  by (simp_all add: ex_entry_def)

lemma pid_cases:
  assumes "ispid p"
  shows "p \<in> {0, 1, 2, 3, 4, 5, 6, 7, 8, 9}"
  using assms by (simp add: NPROC_def) presburger

lemma ex_pmember: "ispid p \<Longrightarrow> pmember ex_state ex_lists p"
  using pid_cases [of p]
  by (auto simp: pmember_def ex_state_def ex_procs_def ploc_def ex_lists_def ex_numbers isbadsem_def NSEM_def)

lemma ex_kwf: "kwf ex_state ex_lists"
proof -
  have "layout ex_state" by (simp add: layout_def ex_state_def ex_sems_def)
  moreover have "kprocs ex_state"
  proof -
    have "pprio_ok (ex_procs p)" if "0 < p" "p < NPROC" for p
      using pid_cases [of p] that by (auto simp: ex_procs_def pprio_ok_def MAXINT_def)
    moreover have "p = 1" if "ispid p" "pstate (ex_procs p) = PRCURR" for p
      using that(2) by (simp add: ex_procs_def split: if_splits)
    moreover have "prio ex_state NULLPROC = 0" "pst ex_state NULLPROC = PRREADY"
      by (simp_all add: ex_state_def ex_procs_def NULLPROC_def)
    ultimately show ?thesis
      unfolding kprocs_def by (simp add: ex_state_def NPROC_def)
  qed
  moreover have "qkey (qtab ex_state p) = prio ex_state p" if "p \<in> set (ex_lists RDYQ)" for p
    using that by (auto simp: ex_state_def ex_lists_def ex_numbers ex_procs_def ex_proc_q_def NPROC_def)
  moreover have "sorted (map (prio ex_state) (ex_lists RDYQ))"
    by (simp add: ex_state_def ex_lists_def ex_numbers ex_procs_def)
  moreover have "qfam (qtab ex_state) ex_lists" using ex_qfam by (simp add: ex_state_def)
  ultimately have "kq ex_state ex_lists {}" unfolding kq_def using ex_pmember by simp
  moreover have "ksem ex_state ex_lists"
    by (auto simp: ksem_def ex_state_def ex_sems_def ex_lists_def ex_numbers NSEM_def isbadsem_def MAXINT_def)
  moreover have "kclk ex_state ex_lists"
    by (simp add: kclk_def ex_state_def ex_lists_def ex_numbers ex_proc_q_def NPROC_def MAXINT_def)
  ultimately show ?thesis by (simp add: kwf_def)
qed

lemma ex_krun: "krun ex_state ex_lists"
  by (simp add: krun_def ex_state_def ex_lists_def ex_procs_def QUANTUM_def ex_numbers)

lemma ex_kinv: "kinv ex_state"
  using ex_kwf ex_krun by (auto simp: kinv_def)

lemma ex_lists_simps [simp]:
  "ex_lists 0 = [3]" "ex_lists 1 = []" "ex_lists RDYQ = [0, 2]" "ex_lists CLKQ = [4, 7]"
  by (simp_all add: ex_lists_def ex_numbers)

lemma ex_fields [simp]:
  "proctab ex_state = ex_procs" "currpid ex_state = 1" "semaph ex_state = ex_sems"
  "qtab ex_state = ex_q" "preempt ex_state = 10" "clkruns ex_state" "defclk ex_state = 0"
  "clktime ex_state = 0" "clkdiff ex_state = 0"
  by (simp_all add: ex_state_def)

lemma ex_keys [simp]: "qkey (ex_q 4) = 3" "qkey (ex_q 7) = 2" "qkey (ex_q 2) = 20"
  by (simp_all add: NPROC_def ex_proc_q_def)

lemma ex_pst [simp]:
  "pstate (ex_procs 0) = PRREADY" "pstate (ex_procs 1) = PRCURR" "pstate (ex_procs 2) = PRREADY"
  "pstate (ex_procs 3) = PRWAIT" "pstate (ex_procs 4) = PRSLEEP" "pstate (ex_procs 5) = PRRECV"
  "pstate (ex_procs 6) = PRSUSP" "pstate (ex_procs 7) = PRTRECV" "pstate (ex_procs 8) = PRFREE"
  by (simp_all add: ex_procs_def)

lemma ex_prio [simp]:
  "pprio (ex_procs 0) = 0" "pprio (ex_procs 1) = 20" "pprio (ex_procs 2) = 20"
  "pprio (ex_procs 3) = 30" "pprio (ex_procs 4) = 25" "pprio (ex_procs 5) = 10"
  "pprio (ex_procs 6) = 40" "pprio (ex_procs 7) = 15"
  by (simp_all add: ex_procs_def)

lemma ex_phasmsg [simp]: "phasmsg (ex_procs p) = 0"
  by (simp add: ex_procs_def)

lemma ex_not_bad [simp]:
  "\<not> isbadpid 1" "\<not> isbadpid 2" "\<not> isbadpid 3" "\<not> isbadpid 4" "\<not> isbadpid 5" "\<not> isbadpid 6"
  "\<not> isbadpid 7" "\<not> isbadsem 0" "\<not> isbadsem 1" "\<not> isbadsem 5"
  by (simp_all add: isbadpid_def isbadsem_def NPROC_def NSEM_def)

end
