(* ===== verification/KernelProps.thy ===== *)
theory KernelProps
  imports Msg Example
begin

text \<open>
  The properties of the kernel calls, each over the calls as the components define them, with
  an instance on the state \<open>ex_state\<close>. \<open>kwf s L\<close> says that the kernel's lists hold what
  \<open>L\<close> says, \<open>krun s L\<close> that the process that runs is the right one.
\<close>

lemma ex_sem_abs [simp]:
  "sem_abs ex_state ex_lists 0 = Some (- 1, [3])" "sem_abs ex_state ex_lists 1 = Some (2, [])"
  "sem_abs ex_state ex_lists 5 = None"
  by (simp_all add: sem_abs_Some ex_sems_def) (simp add: sem_abs_def ex_sems_def)

lemma ex_sleepers [simp]: "sleepers ex_state ex_lists = [(4, 3), (7, 5)]"
  by (simp add: sleepers_def)

lemma ex_mailbox [simp]: "mailbox ex_state p = None"
  by (simp add: mailbox_def)

section \<open>Scheduling\<close>

text \<open>C1: \<open>resched\<close> returns, and the process it gives the processor to has the highest
  priority among those that may run: the ready ones and the caller, unless it has blocked. No
  priority changes, the new process has a full quantum and the kernel invariant holds.\<close>

theorem resched_highest:
  assumes "kwf s L"
  shows "\<exists>s'. resched s = Some (OK, s') \<and> kinv s' \<and> preempt s' = QUANTUM \<and> prio s' = prio s \<and>
    (\<forall>p. ispid p \<and> (pst s p = PRREADY \<or> p = currpid s \<and> pst s p = PRCURR) \<longrightarrow>
       prio s p \<le> prio s (currpid s'))"
proof -
  note Q = kwfD(1) [OF assms]
  obtain s' L' where r: "resched s = Some (OK, s')" "kwf s' L'" "krun s' L'" "kframe s L s' L'"
    "currpid s' = fst (dispatch (prio s) (currpid s) (pst s (currpid s) = PRCURR) (L RDYQ))"
    "preempt s' = QUANTUM"
    by (rule resched_wf [OF assms]) blast
  have "prio s p \<le> prio s (currpid s')"
    if p: "ispid p" "pst s p = PRREADY \<or> p = currpid s \<and> pst s p = PRCURR" for p
    unfolding r(5)
  proof (rule dispatch_highest)
    show "sorted (map (prio s) (L RDYQ))" by (rule kqD(7) [OF Q])
    show "p \<in> set (L RDYQ) \<or> pst s (currpid s) = PRCURR \<and> p = currpid s"
      using p kq_ready_mem [OF Q p(1)] by auto
    then show "pst s (currpid s) = PRCURR \<or> L RDYQ \<noteq> []" by auto
  qed
  moreover have "prio s' = prio s" using kframeD(5) [OF r(4)] by (intro ext) (metis)
  ultimately show ?thesis using r kinvI by blast
qed


theorem resched_highest_witness:
  "\<exists>s'. resched ex_state = Some (OK, s') \<and> 20 \<le> prio ex_state (currpid s')"
proof -
  have "ispid 2 \<and> pst ex_state 2 = PRREADY" "prio ex_state 2 = 20" by (simp_all add: NPROC_def)
  then show ?thesis using resched_highest [OF ex_kwf] by metis
qed

text \<open>C2: \<open>resched\<close> refines the scheduling policy \<open>dispatch\<close>, which is a function of the
  priorities, of the caller and of the ready list alone: keep the caller if it has a strictly
  higher priority than every ready process, otherwise put it on the list behind the processes
  of its own priority and take the last process of the list. The list of the q table after
  the call is the list of the policy, and the other lists are as they were.\<close>

theorem resched_refines_dispatch:
  assumes "kwf s L"
  shows "\<exists>s' L'. resched s = Some (OK, s') \<and> kwf s' L' \<and>
    (currpid s', L' RDYQ) = dispatch (prio s) (currpid s) (pst s (currpid s) = PRCURR) (L RDYQ) \<and>
    (\<forall>n. isqueue n \<and> n \<noteq> RDYQ \<longrightarrow> L' n = L n)"
proof -
  note W = kwfD [OF assms]
  let ?d = "dispatch (prio s) (currpid s) (pst s (currpid s) = PRCURR) (L RDYQ)"
  let ?L = "L(RDYQ := snd ?d)"
  obtain s' where r: "resched s = Some (OK, s')" "kq s' ?L {}" "kframe s L s' ?L" "currpid s' = fst ?d"
    by (rule resched_dispatch [OF W(1)]) blast
  have "kwf s' ?L"
    using r(2) kframe_ksem [OF r(3)] kframe_kclk [OF r(3)] W(2,3) by (simp add: kwf_def)
  then show ?thesis using r(1,4) by (intro exI [of _ s'] exI [of _ ?L]) simp
qed

theorem resched_refines_dispatch_witness:
  "\<exists>s' L'. resched ex_state = Some (OK, s') \<and> currpid s' = 2 \<and> L' RDYQ = [0, 1] \<and> kwf s' L'"
  using resched_refines_dispatch [OF ex_kwf]
  by (auto simp: dispatch_def key_insert_def)

text \<open>C3: no process starves among those of the highest priority. A ready process with the
  priority of the one that runs has the processor after at most as many calls of \<open>resched\<close>
  as there are such processes: \<open>slices\<close> is a run of calls with no other event in between.\<close>

theorem round_robin:
  assumes "kinv s" "ispid p" "pst s p = PRREADY" "prio s p = prio s (currpid s)"
  shows "\<exists>k s'. k \<le> card {r. ispid r \<and> pst s r = PRREADY \<and> prio s r = prio s (currpid s)} \<and>
    slices k s = Some s' \<and> currpid s' = p"
proof -
  obtain L where L: "kwf s L" "krun s L" using assms(1) by (auto simp: kinv_def)
  note Q = kwfD(1) [OF L(1)] and c = kwf_running [OF L]
  let ?low = "takeWhile (\<lambda>x. prio s x < prio s (currpid s)) (L RDYQ)"
  let ?hi = "dropWhile (\<lambda>x. prio s x < prio s (currpid s)) (L RDYQ)"
  let ?G = "{r. ispid r \<and> pst s r = PRREADY \<and> prio s r = prio s (currpid s)}"
  have split: "L RDYQ = ?low @ ?hi" by simp
  have pl: "p \<in> set (L RDYQ)" by (rule kq_ready_mem [OF Q assms(2) _ assms(3)]) simp
  have low: "prio s x < prio s (currpid s)" if "x \<in> set ?low" for x
    using set_takeWhileD [OF that] by simp
  have hi: "prio s x = prio s (currpid s)" if x: "x \<in> set ?hi" for x
  proof (rule antisym)
    show "prio s x \<le> prio s (currpid s)"
      using L(2) set_dropWhileD [OF x] by (simp add: krun_def)
    have "sorted (map (prio s) ?hi)" using kqD(7) [OF Q] by (metis dropWhile_eq_drop drop_map sorted_wrt_drop)
    then show "prio s (currpid s) \<le> prio s x"
      using x hd_dropWhile [of "\<lambda>x. prio s x < prio s (currpid s)" "L RDYQ"]
      by (cases ?hi) (auto simp: not_less intro: order_trans)
  qed
  have "p \<in> set ?hi" using pl low [of p] assms(4) by (metis Un_iff less_irrefl set_append split)
  then obtain k where k: "k < length ?hi" "rev ?hi ! k = p"
    by (metis in_set_conv_nth length_rev set_rev)
  obtain s' where "slices (Suc k) s = Some s'" "currpid s' = p"
    using slices_reach [OF Q c(2) split low hi k(1)] k(2) by auto
  moreover have "Suc k \<le> card ?G"
  proof -
    have sub: "set ?hi \<subseteq> ?G"
    proof
      fix x assume x: "x \<in> set ?hi"
      have xl: "x \<in> set (L RDYQ)" using x by (rule set_dropWhileD)
      have "ispid x" by (rule kq_mem_ispid [OF Q _ xl]) simp
      then show "x \<in> ?G" using hi [OF x] kq_ready [OF Q xl] by simp
    qed
    have "finite ?G" by (rule finite_subset [of _ "{0..<NPROC}"]) auto
    then have "card (set ?hi) \<le> card ?G" by (rule card_mono [OF _ sub])
    moreover have "distinct (L RDYQ)" by (rule qfam_distinct [OF kqD(2) [OF Q]]) simp
    then have "card (set ?hi) = length ?hi" by (simp add: distinct_card distinct_dropWhile)
    ultimately show ?thesis using k(1) by simp
  qed
  ultimately show ?thesis by blast
qed

theorem round_robin_witness: "\<exists>k s'. slices k ex_state = Some s' \<and> currpid s' = 2"
proof -
  have "ispid 2" "pst ex_state 2 = PRREADY" "prio ex_state 2 = prio ex_state (currpid ex_state)"
    by (simp_all add: NPROC_def)
  from round_robin [OF ex_kinv this] obtain k s' where "slices k ex_state = Some s'" "currpid s' = 2"
    by (elim exE conjE)
  then show ?thesis by (intro exI conjI)
qed

text \<open>The null process runs only when no other process could: then every other process
  is free, suspended, asleep, or waits.\<close>

theorem null_process_last:
  assumes "kinv s" "currpid s = NULLPROC" "0 < p" "p < NPROC"
  shows "pst s p \<notin> {PRREADY, PRCURR}"
proof -
  obtain L where L: "kwf s L" "krun s L" using assms(1) by (auto simp: kinv_def)
  note Q = kwfD(1) [OF L(1)] and K = kqD(3) [OF kwfD(1) [OF L(1)]]
  have "p = NULLPROC" if "pst s p = PRCURR" using K assms(2-4) that by (simp add: kprocs_def)
  then have "pst s p \<noteq> PRCURR" using assms(3) by (auto simp: NULLPROC_def)
  moreover have "pst s p \<noteq> PRREADY"
  proof
    assume r: "pst s p = PRREADY"
    then have "p \<in> set (L RDYQ)" using kq_ready_mem [OF Q] assms(3,4) by simp
    then have "prio s p \<le> 0" using L(2) K assms(2) by (auto simp: krun_def kprocs_def)
    then show False using K assms(3,4) r by (auto simp: kprocs_def pprio_ok_def)
  qed
  ultimately show ?thesis by simp
qed



section \<open>Process states\<close>

text \<open>\<open>chprio\<close> gives a process a new priority and returns the old one, whatever the
  process does at the moment; the ready list is in order of priority again, and the process
  that runs afterwards has the highest.\<close>

theorem chprio_sets:
  assumes "kinv s" "\<not> isbadpid p" "pst s p \<noteq> PRFREE" "0 < v" "v \<le> MAXINT"
  shows "\<exists>s'. chprio p v s = Some (prio s p, s') \<and> kinv s' \<and> prio s' = (prio s)(p := v)"
proof -
  obtain L where L: "kwf s L" "krun s L" using assms(1) by (auto simp: kinv_def)
  let ?s1 = "upd_proc p (pprio_update (\<lambda>_. v)) s"
  have new: "prio ?s1 = (prio s)(p := v)" by auto
  have fr: "prio s' = (prio s)(p := v)" if "kframe ?s1 L1 s' L'" for s' L1 L'
    using kframeD(5) [OF that] new by (intro ext) metis
  consider "pst s p = PRREADY" | "p = currpid s" | "pst s p \<notin> {PRREADY, PRCURR, PRFREE}"
    using kqD(3) [OF kwfD(1) [OF L(1)]] assms(2,3) by (fastforce simp: kprocs_def isbadpid_def)
  then show ?thesis
  proof cases
    case 1
    obtain s' L' where "chprio p v s = Some (prio s p, s')" "kwf s' L'" "krun s' L'" "kframe ?s1 L s' L'"
      by (rule chprio_ready_wf [OF L(1) assms(2) 1 assms(4,5)]) blast
    then show ?thesis using fr kinvI by blast
  next
    case 2
    have "p \<noteq> NULLPROC" by (rule not_bad_ispid(2) [OF assms(2)])
    then obtain s' L' where "chprio p v s = Some (prio s p, s')" "kwf s' L'" "krun s' L'"
      "kframe ?s1 L s' L'"
      by (rule chprio_current_wf [OF L 2 _ assms(4,5)]) blast
    then show ?thesis using fr kinvI by blast
  next
    case 3
    then show ?thesis using chprio_blocked_wf [OF L assms(2) 3 assms(4,5)] new kinvI by blast
  qed
qed

theorem chprio_sets_witness:
  "\<exists>s'. chprio 2 7 ex_state = Some (20, s') \<and> prio s' 2 = 7 \<and> kinv s'"
proof -
  have "pst ex_state 2 \<noteq> PRFREE" "(0::int) < 7" "7 \<le> MAXINT" by (simp_all add: MAXINT_def)
  from chprio_sets [OF ex_kinv ex_not_bad(2) this]
  obtain s' where "chprio 2 7 ex_state = Some (prio ex_state 2, s')" "kinv s'"
    "prio s' = (prio ex_state)(2 := 7)" by blast
  then show ?thesis by (intro exI [of _ s']) (simp add: fun_eq_iff)
qed

text \<open>A suspended ready process is off every list and is not scheduled; \<open>resume\<close> returns
  its priority and puts it back: the state of every process is then what it was, up to the one
  that has the processor.\<close>

theorem suspend_resume:
  assumes "kinv s" "\<not> isbadpid p" "pst s p = PRREADY"
  shows "\<exists>s1 s2. suspend p s = Some (KRet (prio s p), s1) \<and> kinv s1 \<and> pst s1 p = PRSUSP \<and>
    currpid s1 = currpid s \<and> resume p s1 = Some (prio s p, s2) \<and> kinv s2 \<and>
    (\<forall>r. r \<notin> {currpid s, currpid s2} \<longrightarrow> pst s2 r = pst s r)"
proof -
  obtain L where L: "kwf s L" "krun s L" using assms(1) by (auto simp: kinv_def)
  let ?L = "L(RDYQ := remove1 p (L RDYQ))"
  obtain s1 where a: "suspend p s = Some (KRet (prio s p), s1)" "kwf s1 ?L" "krun s1 ?L"
    "kframe s L s1 ?L" "currpid s1 = currpid s" "\<And>i. pst s1 i = (if i = p then PRSUSP else pst s i)"
    by (rule suspend_ready_wf [OF L assms(2,3)]) blast
  have sp: "pst s1 p = PRSUSP" using a(6) by simp
  obtain s2 L2 where b: "resume p s1 = Some (prio s1 p, s2)" "kwf s2 L2" "krun s2 L2"
    "\<And>i. pst s2 i = (if i = currpid s2 then PRCURR else if i = p then PRREADY
       else if i = currpid s1 \<and> pst s1 i = PRCURR then PRREADY else pst s1 i)"
    by (rule resume_wf [OF a(2) assms(2) sp]) blast
  have pr: "prio s1 p = prio s p" by (rule kframeD(5) [OF a(4)])
  show ?thesis
  proof (intro exI conjI)
    show "suspend p s = Some (KRet (prio s p), s1)" "currpid s1 = currpid s" by (rule a)+
    show "kinv s1" "kinv s2" using a(2,3) b(2,3) kinvI by blast+
    show "resume p s1 = Some (prio s p, s2)" using b(1) pr by simp
    show "\<forall>r. r \<notin> {currpid s, currpid s2} \<longrightarrow> pst s2 r = pst s r"
      using a(5,6) b(4) assms(3) by auto
  qed (rule sp)
qed

theorem suspend_resume_witness:
  "\<exists>s1 s2. suspend 2 ex_state = Some (KRet 20, s1) \<and> pst s1 2 = PRSUSP \<and> resume 2 s1 = Some (20, s2)"
proof -
  have "pst ex_state 2 = PRREADY" by simp
  from suspend_resume [OF ex_kinv ex_not_bad(2) this]
  obtain s1 s2 where "suspend 2 ex_state = Some (KRet (prio ex_state 2), s1)" "pst s1 2 = PRSUSP"
    "resume 2 s1 = Some (prio ex_state 2, s2)" by (elim exE conjE)
  then show ?thesis by (intro exI conjI) simp_all
qed

section \<open>Semaphores\<close>

text \<open>C4: \<open>wait\<close> refines the abstract operation P: the count goes down by one, and exactly
  when no unit was left the caller joins the end of the semaphore's queue and the ready process
  of highest priority runs. No other semaphore changes.\<close>

theorem wait_refines:
  assumes "kwf s L" "krun s L" "currpid s \<noteq> NULLPROC" "sem_abs s L i = Some (c, q)"
  shows "\<exists>s' L'. wait i s = Some (OK, s') \<and> kwf s' L' \<and> krun s' L' \<and>
    sem_abs s' L' = (sem_abs s L)(i \<mapsto> (c - 1, if c \<le> 0 then q @ [currpid s] else q)) \<and>
    currpid s' = (if c \<le> 0 then last (L RDYQ) else currpid s)"
proof -
  obtain s' L' where "wait i s = Some (OK, s')" "kwf s' L'" "krun s' L'"
    "sem_abs s' L' = (sem_abs s L)(i := Some (sem_P (currpid s) (c, q)))"
    "currpid s' = (if fst (c, q) \<le> 0 then last (L RDYQ) else currpid s)"
    by (rule wait_abs [OF assms]) blast
  then show ?thesis by (intro exI [of _ s'] exI [of _ L']) (simp add: sem_P_def)
qed

theorem wait_refines_witness:
  "\<exists>s' L'. wait 0 ex_state = Some (OK, s') \<and> kwf s' L' \<and>
    sem_abs s' L' 0 = Some (- 2, [3, 1]) \<and> currpid s' = 2"
proof -
  have "currpid ex_state \<noteq> NULLPROC" by (simp add: NULLPROC_def)
  from wait_refines [OF ex_kwf ex_krun this ex_sem_abs(1)]
  show ?thesis
    by (elim exE conjE) (rule exI, rule exI, rule conjI, assumption, rule conjI, assumption, simp)
qed

text \<open>C5: \<open>signal\<close> refines the abstract operation V: the count goes up by one and the process
  that has waited longest, if there is one, leaves the queue and becomes ready; the caller keeps
  the processor unless the released process has at least its priority.\<close>

theorem signal_refines:
  assumes "kwf s L" "krun s L" "sem_abs s L i = Some (c, q)" "c < MAXINT"
  shows "\<exists>s' L'. signal i s = Some (OK, s') \<and> kwf s' L' \<and> krun s' L' \<and>
    sem_abs s' L' = (sem_abs s L)(i \<mapsto> (c + 1, tl q)) \<and>
    (\<forall>p. pst s' p = (if p = currpid s' then PRCURR
       else if q \<noteq> [] \<and> p = hd q \<or> p = currpid s then PRREADY else pst s p))"
proof -
  have lt: "fst (c, q) < MAXINT" using assms(4) by simp
  obtain s' L' where "signal i s = Some (OK, s')" "kwf s' L'" "krun s' L'"
    "sem_abs s' L' = (sem_abs s L)(i := Some (sem_V 1 (c, q)))"
    "\<And>p. pst s' p = (if p = currpid s' then PRCURR
       else if snd (c, q) \<noteq> [] \<and> p = hd (snd (c, q)) \<or> p = currpid s then PRREADY else pst s p)"
    by (rule signal_abs [OF assms(1-3) lt]) blast
  then show ?thesis by (intro exI [of _ s'] exI [of _ L']) (simp add: sem_V_def drop_Suc)
qed

theorem signal_refines_witness:
  "\<exists>s' L'. signal 0 ex_state = Some (OK, s') \<and> kwf s' L' \<and> sem_abs s' L' 0 = Some (0, []) \<and>
    pst s' 3 \<in> {PRCURR, PRREADY}"
proof -
  have "(- 1 :: int) < MAXINT" by (simp add: MAXINT_def)
  from signal_refines [OF ex_kwf ex_krun ex_sem_abs(1) this]
  show ?thesis
    by (elim exE conjE) (rule exI, rule exI, rule conjI, assumption, rule conjI, assumption, simp)
qed

text \<open>\<open>signaln\<close> gives back \<open>n\<close> units at once: the first \<open>n\<close> processes of the queue
  become ready, in one scheduling decision.\<close>

theorem signaln_refines:
  assumes "kwf s L" "sem_abs s L i = Some (c, q)" "0 < n" "c + n \<le> MAXINT"
  shows "\<exists>s' L'. signaln i n s = Some (OK, s') \<and> kwf s' L' \<and> krun s' L' \<and>
    sem_abs s' L' = (sem_abs s L)(i \<mapsto> (c + n, drop (nat n) q)) \<and>
    (\<forall>p \<in> set (take (nat n) q). pst s' p \<in> {PRREADY, PRCURR}) \<and>
    (\<forall>p. p \<notin> set (take (nat n) q) \<and> p \<noteq> currpid s \<and> p \<noteq> currpid s' \<longrightarrow> pst s' p = pst s p)"
proof -
  have le: "fst (c, q) + n \<le> MAXINT" using assms(4) by simp
  obtain s' L' where "signaln i n s = Some (OK, s')" "kwf s' L'" "krun s' L'"
    "sem_abs s' L' = (sem_abs s L)(i := Some (sem_V n (c, q)))"
    "\<And>p. pst s' p = (if p = currpid s' then PRCURR
       else if p \<in> set (take (nat n) (snd (c, q))) then PRREADY
       else if p = currpid s \<and> pst s p = PRCURR then PRREADY else pst s p)"
    by (rule signaln_abs [OF assms(1-3) le]) blast
  then show ?thesis by (intro exI [of _ s'] exI [of _ L']) (auto simp: sem_V_def)
qed

theorem signaln_refines_witness:
  "\<exists>s' L'. signaln 0 5 ex_state = Some (OK, s') \<and> kwf s' L' \<and> sem_abs s' L' 0 = Some (4, [])"
proof -
  have "(0::int) < 5" "- 1 + 5 \<le> MAXINT" by (simp_all add: MAXINT_def)
  from signaln_refines [OF ex_kwf ex_sem_abs(1) this]
  show ?thesis
    by (elim exE conjE) (rule exI, rule exI, rule conjI, assumption, rule conjI, assumption, simp)
qed

text \<open>C6: \<open>sreset\<close> and \<open>sdelete\<close> release every process that waits, whatever the count, and
  leave the semaphore with the new count and an empty queue, or free.\<close>

theorem sreset_sdelete_release:
  assumes "kwf s L" "krun s L" "sem_abs s L i = Some (c, q)" "0 \<le> v" "v \<le> MAXINT"
  shows "(\<exists>s' L'. sreset i v s = Some (OK, s') \<and> kwf s' L' \<and> krun s' L' \<and>
      sem_abs s' L' = (sem_abs s L)(i \<mapsto> (v, [])) \<and> (\<forall>p \<in> set q. pst s' p \<in> {PRREADY, PRCURR})) \<and>
    (\<exists>s' L'. sdelete i s = Some (OK, s') \<and> kwf s' L' \<and> krun s' L' \<and>
      sem_abs s' L' = (sem_abs s L)(i := None) \<and> (\<forall>p \<in> set q. pst s' p \<in> {PRREADY, PRCURR}))"
proof (rule conjI)
  obtain s' L' where "sreset i v s = Some (OK, s')" "kwf s' L'" "krun s' L'"
    "sem_abs s' L' = (sem_abs s L)(i := Some (v, []))"
    "\<And>p. pst s' p = (if p = currpid s' then PRCURR else if p \<in> set (snd (c, q)) then PRREADY
       else if p = currpid s \<and> pst s p = PRCURR then PRREADY else pst s p)"
    by (rule sreset_abs [OF assms(1,3-5)]) blast
  then show "\<exists>s' L'. sreset i v s = Some (OK, s') \<and> kwf s' L' \<and> krun s' L' \<and>
      sem_abs s' L' = (sem_abs s L)(i \<mapsto> (v, [])) \<and> (\<forall>p \<in> set q. pst s' p \<in> {PRREADY, PRCURR})"
    by (intro exI [of _ s'] exI [of _ L']) auto
next
  obtain s' L' where "sdelete i s = Some (OK, s')" "kwf s' L'" "krun s' L'"
    "sem_abs s' L' = (sem_abs s L)(i := None)"
    "\<And>p. pst s' p = (if p = currpid s' then PRCURR else if p \<in> set (snd (c, q)) then PRREADY
       else if p = currpid s \<and> pst s p = PRCURR then PRREADY else pst s p)"
    by (rule sdelete_abs [OF assms(1-3)]) blast
  then show "\<exists>s' L'. sdelete i s = Some (OK, s') \<and> kwf s' L' \<and> krun s' L' \<and>
      sem_abs s' L' = (sem_abs s L)(i := None) \<and> (\<forall>p \<in> set q. pst s' p \<in> {PRREADY, PRCURR})"
    by (intro exI [of _ s'] exI [of _ L']) auto
qed

theorem sreset_sdelete_release_witness:
  "\<exists>s' L'. sreset 0 4 ex_state = Some (OK, s') \<and> kwf s' L' \<and> sem_abs s' L' 0 = Some (4, [])"
proof -
  have "(0::int) \<le> 4" "4 \<le> MAXINT" by (simp_all add: MAXINT_def)
  from sreset_sdelete_release [OF ex_kwf ex_krun ex_sem_abs(1) this]
  show ?thesis
    by (elim exE conjE) (rule exI, rule exI, rule conjI, assumption, rule conjI, assumption, simp)
qed

text \<open>\<open>screate\<close> hands out a semaphore that was free, with the count asked for and nobody
  waiting, and fails only when every entry of the table is in use; the other semaphores, and in
  the second case all of them, are as they were.\<close>

theorem screate_new:
  assumes "kwf s L" "0 \<le> v"
  shows "\<exists>i s'. screate v s = (i, s') \<and>
    (if i = SYSERR then (\<forall>j. \<not> isbadsem j \<longrightarrow> sem_abs s L j \<noteq> None) \<and> sem_abs s' L = sem_abs s L
     else \<not> isbadsem i \<and> sem_abs s L i = None \<and> sem_abs s' L = (sem_abs s L)(i \<mapsto> (v, [])))"
proof (rule screate_abs [OF assms])
  fix s' assume "screate v s = (SYSERR, s')" "\<And>i. \<not> isbadsem i \<Longrightarrow> sem_abs s L i \<noteq> None"
    "sem_abs s' L = sem_abs s L"
  then show ?thesis by auto
next
  fix i s' assume "screate v s = (i, s')" "\<not> isbadsem i" "sem_abs s L i = None"
    "sem_abs s' L = (sem_abs s L)(i := Some (v, []))"
  then show ?thesis by (auto simp: isbadsem_def SYSERR_def)
qed

theorem screate_new_witness:
  "\<exists>i s'. screate 3 ex_state = (i, s') \<and> sem_abs s' ex_lists i = Some (3, [])"
proof -
  have "(0::int) \<le> 3" by simp
  from screate_new [OF ex_kwf this] obtain i s' where r: "screate 3 ex_state = (i, s')"
    "if i = SYSERR then (\<forall>j. \<not> isbadsem j \<longrightarrow> sem_abs ex_state ex_lists j \<noteq> None) \<and>
       sem_abs s' ex_lists = sem_abs ex_state ex_lists
     else \<not> isbadsem i \<and> sem_abs ex_state ex_lists i = None \<and>
       sem_abs s' ex_lists = (sem_abs ex_state ex_lists)(i \<mapsto> (3, []))" by blast
  have "i \<noteq> SYSERR"
  proof
    assume "i = SYSERR"
    then have "\<forall>j. \<not> isbadsem j \<longrightarrow> sem_abs ex_state ex_lists j \<noteq> None" using r(2) by simp
    then show False using ex_sem_abs(3) ex_not_bad(10) by blast
  qed
  then show ?thesis using r by auto
qed


section \<open>Time\<close>

text \<open>C7: \<open>sleep10\<close> puts the caller on the list of sleepers for exactly \<open>n\<close> ticks, behind
  those with a shorter delay, without changing how long any of them still sleeps, although the
  list stores differences; the ready process of highest priority runs.\<close>

theorem sleep10_delay:
  assumes "kwf s L" "krun s L" "currpid s \<noteq> NULLPROC" "0 < n" "n \<le> MAXINT" "clkruns s"
  shows "\<exists>s' L'. sleep10 n s = Some (OK, s') \<and> kwf s' L' \<and> krun s' L' \<and>
    sleepers s' L' = time_insert n (currpid s) (sleepers s L) \<and> pst s' (currpid s) = PRSLEEP \<and>
    currpid s' = last (L RDYQ)"
proof -
  obtain s' L' where r: "sleep10 n s = Some (OK, s')" "kwf s' L'" "krun s' L'"
    "sleepers s' L' = time_insert n (currpid s) (sleepers s L)" "currpid s' = last (L RDYQ)"
    "\<And>p. pst s' p = (if p = currpid s' then PRCURR else if p = currpid s then PRSLEEP else pst s p)"
    by (rule sleep10_wf [OF assms]) blast
  have "currpid s' \<noteq> currpid s" using kwf_successor(2) [OF assms(1-3)] r(5) by simp
  then have "pst s' (currpid s) = PRSLEEP" using r(6) [of "currpid s"] by simp
  then show ?thesis using r(1-5) by (intro exI [of _ s'] exI [of _ L'] conjI)
qed

theorem sleep10_delay_witness:
  "\<exists>s' L'. sleep10 4 ex_state = Some (OK, s') \<and> kwf s' L' \<and> sleepers s' L' = [(4, 3), (1, 4), (7, 5)]"
proof -
  have "currpid ex_state \<noteq> NULLPROC" "(0::int) < 4" "4 \<le> MAXINT" "clkruns ex_state"
    by (simp_all add: NULLPROC_def MAXINT_def)
  from sleep10_delay [OF ex_kwf ex_krun this] show ?thesis
    by (elim exE conjE) (rule exI, rule exI, rule conjI, assumption, rule conjI, assumption,
      simp add: time_insert_def)
qed

text \<open>What a tick leaves of the sleepers: \<open>m\<close> ticks off the delays, and those with \<open>m\<close> or less are gone.\<close>

abbreviation after_ticks :: "int \<Rightarrow> (int \<times> int) list \<Rightarrow> (int \<times> int) list" where
  "after_ticks m ds \<equiv> map (\<lambda>(p, t). (p, t - m)) (filter (\<lambda>d. m < snd d) ds)"

lemma after_ticks_Suc: "0 \<le> k \<Longrightarrow> after_ticks 1 (after_ticks k ds) = after_ticks (k + 1) ds"
  by (induction ds) (auto simp: split_def)

lemma sleepers_fst: "map fst (sleepers s L) = L CLKQ"
  by (simp add: sleepers_def)

lemma clkint_tick_sleepers:
  assumes "kwf s L" "krun s L"
  obtains k s' L' where "clkint_tick s = Some (k, s')" "kwf s' L'" "krun s' L'"
    "sleepers s' L' = after_ticks (tick_step s L) (sleepers s L)"
    "\<And>p t. (p, t) \<in> set (sleepers s L) \<Longrightarrow>
       if t \<le> tick_step s L then pst s' p \<in> {PRREADY, PRCURR} else pst s' p = pst s p"
    "\<And>p. proctab s' p = (proctab s p)\<lparr>pstate := pst s' p\<rparr>"
proof -
  obtain k s' L' where r: "clkint_tick s = Some (k, s')" "kwf s' L'" "krun s' L'"
    "sleepers s' L' = after_ticks (tick_step s L) (sleepers s L)"
    "\<And>p. pst s' p = (if p = currpid s' then PRCURR
       else if p \<in> set (L CLKQ) \<and> p \<notin> set (L' CLKQ) \<or> p = currpid s then PRREADY else pst s p)"
    "\<And>p. proctab s' p = (proctab s p)\<lparr>pstate := pst s' p\<rparr>"
    by (rule clkint_tick_wf [OF assms]) blast
  have dist: "distinct (map fst (sleepers s L))"
    using qfam_distinct [OF kqD(2) [OF kwfD(1) [OF assms(1)]], of CLKQ] sleepers_fst by simp
  have out: "p \<notin> set (L CLKQ)" if "pst s p = PRCURR" "kwf s L" for p s L
    using kq_asleep [OF kwfD(1) [OF that(2)], of p] that(1) by auto
  have "if t \<le> tick_step s L then pst s' p \<in> {PRREADY, PRCURR} else pst s' p = pst s p"
    if p: "(p, t) \<in> set (sleepers s L)" for p t
  proof -
    have m: "p \<in> set (L CLKQ)" using p sleepers_fst [of s L] by (metis fst_conv image_eqI list.set_map)
    have iff: "p \<in> set (L' CLKQ) \<longleftrightarrow> tick_step s L < t"
    proof -
      have "p \<in> set (L' CLKQ) \<longleftrightarrow> p \<in> fst ` set (sleepers s' L')" using sleepers_fst [of s' L'] by (metis list.set_map)
      also have "\<dots> \<longleftrightarrow> (\<exists>u. (p, u) \<in> set (sleepers s L) \<and> tick_step s L < u)" unfolding r(4) by force
      finally show ?thesis using eq_key_imp_eq_value [OF dist p] p by blast
    qed
    have "p \<noteq> currpid s" using out [OF kwf_running(2) [OF assms] assms(1)] m by auto
    moreover have "p \<noteq> currpid s'" if "p \<in> set (L' CLKQ)" using out [OF kwf_running(2) [OF r(2,3)] r(2)] that by auto
    ultimately show ?thesis using r(5) [of p] m iff by auto
  qed
  then show thesis using that r(1-4,6) by blast
qed

text \<open>C8: one tick of the clock takes one tick off the delay of every sleeper and makes exactly
  those ready that had one tick left. If there are sleepers without a delay, which \<open>recvtim(0)\<close>
  makes, the tick makes just those ready and leaves the delays of the others as they were. The
  scheduler then runs the right process.\<close>

theorem tick_wakes_due:
  assumes "kwf s L" "krun s L"
  defines "m \<equiv> if \<exists>d \<in> set (sleepers s L). snd d = 0 then 0 else 1"
  shows "\<exists>k s' L'. clkint_tick s = Some (k, s') \<and> kwf s' L' \<and> krun s' L' \<and>
    sleepers s' L' = map (\<lambda>(p, t). (p, t - m)) (filter (\<lambda>d. m < snd d) (sleepers s L)) \<and>
    (\<forall>p t. (p, t) \<in> set (sleepers s L) \<longrightarrow>
       (if t \<le> m then pst s' p \<in> {PRREADY, PRCURR} else pst s' p = pst s p))"
proof -
  have m: "m = tick_step s L" by (simp add: m_def tick_step_def)
  obtain k s' L' where "clkint_tick s = Some (k, s')" "kwf s' L'" "krun s' L'"
    "sleepers s' L' = after_ticks (tick_step s L) (sleepers s L)"
    "\<And>p t. (p, t) \<in> set (sleepers s L) \<Longrightarrow>
       if t \<le> tick_step s L then pst s' p \<in> {PRREADY, PRCURR} else pst s' p = pst s p"
    by (rule clkint_tick_sleepers [OF assms(1,2)]) blast
  then show ?thesis unfolding m by blast
qed

theorem tick_wakes_due_witness:
  "\<exists>k s' L'. clkint_tick ex_state = Some (k, s') \<and> kwf s' L' \<and> sleepers s' L' = [(4, 2), (7, 4)]"
  using tick_wakes_due [OF ex_kwf ex_krun]
  by (elim exE conjE) (rule exI, rule exI, rule exI, rule conjI, assumption, rule conjI, assumption, simp)

text \<open>When the last \<open>stopclk\<close> is undone, \<open>strtclk\<close> makes up for the \<open>clkdiff\<close> ticks that
  were deferred: every delay is shorter by that many ticks, and the sleepers whose time has
  passed are awake.\<close>

theorem strtclk_makes_up:
  assumes "kwf s L" "krun s L" "defclk s = 1" "0 \<le> clkdiff s" "clkdiff s \<le> MAXINT"
  shows "\<exists>k s' L'. strtclk s = Some (k, s') \<and> kwf s' L' \<and> krun s' L' \<and>
    sleepers s' L' = map (\<lambda>(p, t). (p, t - clkdiff s)) (filter (\<lambda>d. clkdiff s < snd d) (sleepers s L))"
  by (rule strtclk_last_wf [OF assms]) blast

theorem strtclk_makes_up_witness:
  "\<exists>k s' L'. strtclk (ex_state\<lparr>defclk := 1, clkdiff := 4\<rparr>) = Some (k, s') \<and> kwf s' L' \<and>
     sleepers s' L' = [(7, 1)]"
proof -
  let ?s = "ex_state\<lparr>defclk := 1, clkdiff := 4\<rparr>"
  have "kwf ?s ex_lists" using ex_kwf by simp
  moreover have "krun ?s ex_lists" using ex_krun by (simp add: krun_def)
  moreover have "defclk ?s = 1" "0 \<le> clkdiff ?s" "clkdiff ?s \<le> MAXINT" by (simp_all add: MAXINT_def)
  ultimately have "\<exists>k s' L'. strtclk ?s = Some (k, s') \<and> kwf s' L' \<and> krun s' L' \<and>
      sleepers s' L' = map (\<lambda>(p, t). (p, t - clkdiff ?s)) (filter (\<lambda>d. clkdiff ?s < snd d) (sleepers ?s ex_lists))"
    by (rule strtclk_makes_up)
  moreover have "sleepers ?s ex_lists = [(4, 3), (7, 5)]" by (simp add: sleepers_def)
  ultimately show ?thesis
    by (elim exE conjE) (rule exI, rule exI, rule exI, rule conjI, assumption, rule conjI, assumption, simp)
qed

section \<open>Messages\<close>

text \<open>C9: a message is delivered once and is never overwritten. \<open>send\<close> to a process whose
  mailbox is empty fills that mailbox and no other and wakes a receiver, also one that had set a
  time limit; while the message is there a second \<open>send\<close> is refused and changes nothing.\<close>

theorem send_delivers_once:
  assumes "kinv s" "\<not> isbadpid p" "pst s p \<noteq> PRFREE" "mailbox s p = None"
  shows "\<exists>s'. send p m s = Some (OK, s') \<and> kinv s' \<and> mailbox s' = (mailbox s)(p \<mapsto> m) \<and>
    (pst s p \<in> {PRRECV, PRTRECV} \<longrightarrow> pst s' p \<in> {PRREADY, PRCURR}) \<and>
    send p m' s' = Some (SYSERR, s')"
proof -
  obtain L where L: "kwf s L" "krun s L" using assms(1) by (auto simp: kinv_def)
  have no: "phasmsg (proctab s p) = 0" using assms(4) by (simp add: mailbox_def split: if_splits)
  obtain s' L' where r: "send p m s = Some (OK, s')" "kwf s' L'" "krun s' L'"
    "mailbox s' = (mailbox s)(p := Some m)"
    "pst s p \<in> {PRRECV, PRTRECV} \<Longrightarrow> pst s' p \<in> {PRREADY, PRCURR}"
    by (rule send_wf [OF L assms(2,3) no]) blast
  have "mailbox s' p \<noteq> None" using r(4) by simp
  then have "phasmsg (proctab s' p) \<noteq> 0" by (auto simp: mailbox_def)
  then have "send p m' s' = Some (SYSERR, s')" by (simp add: send_def)
  then show ?thesis using r kinvI by blast
qed

theorem send_delivers_once_witness:
  "\<exists>s'. send 7 42 ex_state = Some (OK, s') \<and> mailbox s' 7 = Some 42 \<and> pst s' 7 \<in> {PRREADY, PRCURR} \<and>
    send 7 43 s' = Some (SYSERR, s')"
proof -
  have "pst ex_state 7 \<noteq> PRFREE" by simp
  from send_delivers_once [OF ex_kinv ex_not_bad(7) this ex_mailbox, of 42 43] show ?thesis
    by (elim exE conjE) (rule exI, rule conjI, assumption, simp)
qed

text \<open>C10: \<open>receive\<close> blocks exactly when the mailbox is empty: the caller then waits in state
  PRRECV; otherwise it returns the message and the mailbox is empty.\<close>

theorem receive_blocks_iff_empty:
  assumes "kinv s" "currpid s \<noteq> NULLPROC"
  shows "\<exists>k s'. receive s = Some (k, s') \<and> kinv s' \<and>
    (case mailbox s (currpid s) of
       None \<Rightarrow> k = KReceive \<and> pst s' (currpid s) = PRRECV \<and> mailbox s' = mailbox s
     | Some m \<Rightarrow> k = KRet m \<and> currpid s' = currpid s \<and> mailbox s' = (mailbox s)(currpid s := None))"
proof -
  obtain L where L: "kwf s L" "krun s L" using assms(1) by (auto simp: kinv_def)
  show ?thesis
  proof (cases "mailbox s (currpid s)")
    case (Some m)
    have "kinv (clear_msg (currpid s) s)" using clear_msg_wf L kinvI by metis
    then show ?thesis using receive_full(1) [OF Some] Some
      by (simp add: mailbox_clear) (simp add: clear_msg_def)
  next
    case None
    obtain s' L' where r: "receive s = Some (KReceive, s')" "kwf s' L'" "krun s' L'"
      "currpid s' = last (L RDYQ)" "mailbox s' = mailbox s"
      "\<And>p. pst s' p = (if p = currpid s' then PRCURR else if p = currpid s then PRRECV else pst s p)"
      by (rule receive_block_wf [OF L assms(2) None]) blast
    have "currpid s \<noteq> currpid s'" using kwf_successor(2) [OF L assms(2)] r(4) by simp
    then have "pst s' (currpid s) = PRRECV" using r(6) by simp
    then show ?thesis using r(1,5) kinvI [OF r(2,3)] None by simp
  qed
qed

theorem receive_blocks_iff_empty_witness:
  "\<exists>s'. receive ex_state = Some (KReceive, s') \<and> kinv s' \<and> pst s' 1 = PRRECV"
proof -
  have "currpid ex_state \<noteq> NULLPROC" by (simp add: NULLPROC_def)
  from receive_blocks_iff_empty [OF ex_kinv this] show ?thesis by auto
qed

text \<open>Ticks with no call of a process between them.\<close>

fun ticks :: "nat \<Rightarrow> kstate \<Rightarrow> kstate option" where
  "ticks 0 s = Some s"
| "ticks (Suc n) s = do { s' \<leftarrow> ticks n s; (_, s'') \<leftarrow> clkint_tick s'; Some s'' }"

lemma ticks_wait:
  assumes "kwf s L" "krun s L" "\<forall>d \<in> set (sleepers s L). 1 \<le> snd d" "(p, n) \<in> set (sleepers s L)" "int k < n"
  shows "\<exists>s' L'. ticks k s = Some s' \<and> kwf s' L' \<and> krun s' L' \<and> sleepers s' L' = after_ticks (int k) (sleepers s L) \<and>
    pst s' p = pst s p \<and> mailbox s' = mailbox s \<and> prio s' = prio s"
  using assms(5)
proof (induction k)
  case 0
  have "filter (\<lambda>d. 0 < snd d) (sleepers s L) = sleepers s L" using assms(3) by (intro filter_True) fastforce
  then have "sleepers s L = after_ticks (int 0) (sleepers s L)" by (simp add: case_prod_beta)
  then show ?case using assms(1,2) by (intro exI [of _ s] exI [of _ L]) simp
next
  case (Suc k)
  then obtain s1 L1 where r: "ticks k s = Some s1" "kwf s1 L1" "krun s1 L1" "sleepers s1 L1 = after_ticks (int k) (sleepers s L)"
    "pst s1 p = pst s p" "mailbox s1 = mailbox s" "prio s1 = prio s" by auto
  have step: "tick_step s1 L1 = 1" using r(4) by (auto simp: tick_step_def)
  obtain c s' L' where t: "clkint_tick s1 = Some (c, s')" "kwf s' L'" "krun s' L'" "sleepers s' L' = after_ticks 1 (sleepers s1 L1)"
    "\<And>p t. (p, t) \<in> set (sleepers s1 L1) \<Longrightarrow> if t \<le> 1 then pst s' p \<in> {PRREADY, PRCURR} else pst s' p = pst s1 p"
    "\<And>p. proctab s' p = (proctab s1 p)\<lparr>pstate := pst s' p\<rparr>"
    by (rule clkint_tick_sleepers [OF r(2,3), unfolded step]) blast
  have "(p, n - int k) \<in> set (sleepers s1 L1)" using assms(4) Suc.prems unfolding r(4) by force
  then have "pst s' p = pst s1 p" using t(5) Suc.prems by fastforce
  moreover have "mailbox s' = mailbox s1" "prio s' = prio s1"
    by (rule ext, subst mailbox_def, subst (1 2) t(6), simp add: mailbox_def) (rule ext, subst t(6), simp)
  moreover have "sleepers s' L' = after_ticks (int (Suc k)) (sleepers s L)"
    unfolding t(4) r(4) by (simp only: after_ticks_Suc of_nat_0_le_iff of_nat_Suc add.commute)
  ultimately show ?case using r t(1-3) by (intro exI [of _ s'] exI [of _ L']) simp
qed

text \<open>C11: \<open>recvtim(n)\<close> on an empty mailbox waits \<open>n\<close> ticks and no longer. While no other process
  makes a call, and no sleeper is without a delay, the caller is in state PRTRECV for \<open>n - 1\<close>
  ticks, and the tick \<open>n\<close> makes it ready; it then has no message, and when it runs, which is
  at once if it has the highest priority, \<open>recvtim\<close> returns \<open>TIMEOUT\<close>.\<close>

theorem recvtim_times_out:
  assumes "kwf s L" "krun s L" "currpid s \<noteq> NULLPROC" "mailbox s (currpid s) = None"
    and "0 < n" "n \<le> MAXINT" "clkruns s" "\<forall>d \<in> set (sleepers s L). 1 \<le> snd d"
  defines "p \<equiv> currpid s"
  shows "\<exists>s1 s2. recvtim n s = Some (KRecvtim, s1) \<and> pst s1 p = PRTRECV \<and>
    (\<forall>k. int k < n \<longrightarrow> (\<exists>s'. ticks k s1 = Some s' \<and> pst s' p = PRTRECV)) \<and>
    ticks (nat n) s1 = Some s2 \<and> kinv s2 \<and> pst s2 p \<in> {PRREADY, PRCURR} \<and> mailbox s2 p = None \<and>
    (currpid s2 = p \<longrightarrow> recvtim_ret s2 = (TIMEOUT, s2)) \<and>
    ((\<forall>q. ispid q \<and> q \<noteq> p \<longrightarrow> prio s q < prio s p) \<longrightarrow> currpid s2 = p)"
proof -
  obtain s1 L1 where w: "recvtim n s = Some (KRecvtim, s1)" "kwf s1 L1" "krun s1 L1"
    "sleepers s1 L1 = time_insert n (currpid s) (sleepers s L)" "currpid s1 = last (L RDYQ)" "mailbox s1 = mailbox s"
    "\<And>p. pst s1 p = (if p = currpid s1 then PRCURR else if p = currpid s then PRTRECV else pst s p)"
    "prio s1 = prio s"
    by (rule recvtim_block_wf [OF assms(1-4) _ assms(6,7)]) (use assms(5) in auto)
  have p1: "pst s1 p = PRTRECV"
    using w(5,7) kwf_successor(2) [OF assms(1-3)] by (simp add: p_def)
  have pn: "(p, n) \<in> set (sleepers s1 L1)" unfolding w(4) by (simp add: time_insert_def p_def)
  have pos: "\<forall>d \<in> set (sleepers s1 L1). 1 \<le> snd d"
    using assms(5,8) set_takeWhileD set_dropWhileD unfolding w(4) by (fastforce simp: time_insert_def)
  note tk = ticks_wait [OF w(2,3) pos pn]
  have wait: "\<exists>s'. ticks k s1 = Some s' \<and> pst s' p = PRTRECV" if "int k < n" for k
    using tk [OF that] p1 by auto
  define j where "j = nat n - 1"
  have j: "nat n = Suc j" "int j = n - 1" using assms(5) by (simp_all add: j_def)
  obtain s' L' where r: "ticks j s1 = Some s'" "kwf s' L'" "krun s' L'" "sleepers s' L' = after_ticks (int j) (sleepers s1 L1)"
    "mailbox s' = mailbox s1" "prio s' = prio s1" using tk [of j] j(2) by auto
  have step: "tick_step s' L' = 1" using r(4) by (auto simp: tick_step_def)
  obtain c s2 L2 where t: "clkint_tick s' = Some (c, s2)" "kwf s2 L2" "krun s2 L2"
    "\<And>p t. (p, t) \<in> set (sleepers s' L') \<Longrightarrow> if t \<le> 1 then pst s2 p \<in> {PRREADY, PRCURR} else pst s2 p = pst s' p"
    "\<And>p. proctab s2 p = (proctab s' p)\<lparr>pstate := pst s2 p\<rparr>"
    by (rule clkint_tick_sleepers [OF r(2,3), unfolded step]) blast
  have "(p, 1) \<in> set (sleepers s' L')" using pn j(2) unfolding r(4) by force
  then have p2: "pst s2 p \<in> {PRREADY, PRCURR}" using t(4) by fastforce
  have same: "mailbox s2 = mailbox s'" "prio s2 = prio s'"
    by (rule ext, subst mailbox_def, subst (1 2) t(5), simp add: mailbox_def) (rule ext, subst t(5), simp)
  have mb: "mailbox s2 p = None" using same r(5) w(6) assms(4) by (simp add: p_def)
  then have "recvtim_ret s2 = (TIMEOUT, s2)" if "currpid s2 = p"
    using that by (auto simp: recvtim_ret_def mailbox_def split: if_splits)
  moreover have "currpid s2 = p" if top: "\<forall>q. ispid q \<and> q \<noteq> p \<longrightarrow> prio s q < prio s p"
  proof (rule ccontr)
    assume ne: "currpid s2 \<noteq> p"
    have pid: "ispid p" using kwf_running(1) [OF assms(1,2)] by (simp add: p_def)
    have "pst s2 p = PRREADY" using p2 ne kqD(3) [OF kwfD(1) [OF t(2)]] pid by (auto simp: kprocs_def)
    then have "p \<in> set (L2 RDYQ)" by (intro kq_ready_mem [OF kwfD(1) [OF t(2)]]) (use pid in simp_all)
    then have "prio s2 p \<le> prio s2 (currpid s2)" using t(3) by (simp add: krun_def)
    moreover have "prio s2 q = prio s q" for q using fun_cong [of "prio s2" "prio s" q] same(2) r(6) w(8) by simp
    ultimately have "prio s p \<le> prio s (currpid s2)" by simp
    then show False using top ne kwf_running(1) [OF t(2,3)] by fastforce
  qed
  ultimately show ?thesis
    using w(1) p1 wait r(1) t(1) p2 mb kinvI [OF t(2,3)] j(1) by (intro exI [of _ s1] exI [of _ s2]) simp
qed

theorem recvtim_times_out_witness:
  "\<exists>s1 s2. recvtim 3 ex_state = Some (KRecvtim, s1) \<and> ticks 3 s1 = Some s2 \<and> pst s2 1 \<in> {PRREADY, PRCURR}"
proof -
  have "currpid ex_state \<noteq> NULLPROC" "(0::int) < 3" "3 \<le> MAXINT" "clkruns ex_state" "\<forall>d \<in> set (sleepers ex_state ex_lists). 1 \<le> snd d"
    by (simp_all add: NULLPROC_def MAXINT_def)
  from recvtim_times_out [OF ex_kwf ex_krun this(1) ex_mailbox this(2-5)] show ?thesis by auto
qed

text \<open>
  A sleeper without a delay absorbs a tick, so that the others sleep longer than they asked for.
\<close>

lemma no_delay_absorbs_tick:
  assumes "kwf s L" "krun s L" "(q, 0) \<in> set (sleepers s L)" "(p, t) \<in> set (sleepers s L)" "0 < t"
  shows "\<exists>k s' L'. clkint_tick s = Some (k, s') \<and> kwf s' L' \<and> (p, t) \<in> set (sleepers s' L')"
proof -
  have "tick_step s L = 0" using assms(3) by (force simp: tick_step_def)
  then obtain k s' L' where r: "clkint_tick s = Some (k, s')" "kwf s' L'" "sleepers s' L' = after_ticks 0 (sleepers s L)"
    using clkint_tick_sleepers [OF assms(1,2)] by metis
  have "(p, t) \<in> set (sleepers s' L')" using assms(4,5) unfolding r(3) by force
  then show ?thesis using r(1,2) by blast
qed

end
