(* ===== verification/MemProps.thy ===== *)
theory MemProps
  imports Memory
begin

text \<open>
  The properties of the memory manager, with instances on a heap of two free blocks.
  \<open>memwf m bs\<close> says that the free list of \<open>m\<close> is \<open>bs\<close>: blocks in order of address, aligned,
  within the heap, no two of them adjacent.
\<close>

definition ex_heap :: memst where
  "ex_heap = \<lparr>mnext = (\<lambda>a. if a = 100 then 1000 else if a = 1000 then 2000 else 0),
     mlen = (\<lambda>a. if a = 1000 then 16 else if a = 2000 then 400 else 0),
     ram = (\<lambda>_. 0), memlist = 100, heap_start = 1000, heap_end = 3000\<rparr>"

definition ex_blocks :: "fblock list" where
  "ex_blocks = [(1000, 16), (2000, 400)]"

lemma ex_memwf: "memwf ex_heap ex_blocks"
  by (simp add: memwf_def ex_heap_def ex_blocks_def NULLBLK_def)

lemma ex_bytes: "bytes ex_blocks = {1000..<1016} \<union> {2000..<2400}"
  by (auto simp: ex_blocks_def)

lemma ex_memgood: "memgood ex_heap ({1000..<1016} \<union> {2000..<2400})"
  using ex_memwf ex_bytes by (auto simp: memgood_def)

lemma roundmb_small: "roundmb 18 = 20" "roundmb 16 = 16" "roundmb 100 = 100" "roundmb 10 = 12"
  by (simp_all add: roundmb_eq)

section \<open>The heap\<close>

lemma alloc_first_None_iff: "alloc_first n bs = None \<longleftrightarrow> (\<forall>(a, l) \<in> set bs. l < n)"
  by (induction n bs rule: alloc_first.induct) auto

lemma alloc_first_first:
  "alloc_first n bs = Some (p, bs') \<Longrightarrow> blocks_ok lo hi bs \<Longrightarrow>
    (\<exists>l \<ge> n. (p, l) \<in> set bs) \<and> (\<forall>(a, l) \<in> set bs. a < p \<longrightarrow> l < n)"
proof (induction n bs arbitrary: lo bs' rule: alloc_first.induct)
  case (2 n a l bs)
  show ?case
  proof (cases "n \<le> l")
    case True
    then have "p = a" using "2.prems"(1) by (auto split: if_splits)
    moreover have "a < a'" if "(a', l') \<in> set bs" for a' l'
      using "2.prems"(2) blocks_ok_addr [of "a + l" hi bs a' l'] that by auto
    ultimately show ?thesis using True by fastforce
  next
    case False
    then obtain bs1 where r: "alloc_first n bs = Some (p, bs1)"
      using "2.prems"(1) by (auto split: if_splits)
    have "blocks_ok (a + l) hi bs" using "2.prems"(2) by simp
    from "2.IH" [OF _ _ r this] False show ?thesis by auto
  qed
qed simp

text \<open>C13: \<open>getmem\<close> is first fit. It fails, and changes nothing, exactly when no free block is
  large enough; otherwise it returns the address of the first block that is, and precisely the
  rounded size is no longer free.\<close>

theorem getmem_first_fit:
  assumes "memwf m bs" "0 < n" "n \<le> 65532"
  shows "if \<forall>(a, l) \<in> set bs. l < roundmb n then getmem n m = Some (SYSPTR, m)
    else \<exists>p m' bs'. getmem n m = Some (p, m') \<and> memwf m' bs' \<and>
      (\<exists>l \<ge> roundmb n. (p, l) \<in> set bs) \<and> (\<forall>(a, l) \<in> set bs. a < p \<longrightarrow> l < roundmb n) \<and>
      {p..<p + roundmb n} \<subseteq> bytes bs \<and> bytes bs' = bytes bs - {p..<p + roundmb n}"
proof (cases "alloc_first (roundmb n) bs")
  case None
  then show ?thesis using getmem_none [OF assms None] alloc_first_None_iff by auto
next
  case (Some r)
  obtain p bs' where r: "alloc_first (roundmb n) bs = Some (p, bs')" using Some by (cases r) auto
  note R = roundmb_props [OF assms(2,3)] and ok = memwfD(2) [OF assms(1)]
  obtain m' where "getmem n m = Some (p, m')" "memwf m' bs'"
    by (rule getmem_some [OF assms r]) blast
  moreover have "\<not> (\<forall>(a, l) \<in> set bs. l < roundmb n)" using r alloc_first_None_iff [of "roundmb n" bs] by auto
  ultimately show ?thesis
    using alloc_first_first [OF r ok] alloc_first_spec [OF r ok R(1,2)] by auto
qed

theorem getmem_first_fit_witness:
  "\<exists>m' bs'. getmem 18 ex_heap = Some (2000, m') \<and> memwf m' bs'"
proof -
  have a: "(0::int) < 18" "(18::int) \<le> 65532" by simp_all
  have ne: "\<not> (\<forall>(a, l) \<in> set ex_blocks. l < roundmb 18)" by (simp add: ex_blocks_def roundmb_small)
  from getmem_first_fit [OF ex_memwf a, unfolded if_not_P [OF ne]]
  obtain p m' bs' where r: "getmem 18 ex_heap = Some (p, m')" "memwf m' bs'"
    "\<exists>l \<ge> roundmb 18. (p, l) \<in> set ex_blocks" by (elim exE conjE) blast
  have "p = 2000" using r(3) by (auto simp: ex_blocks_def roundmb_small)
  then show ?thesis using r by blast
qed

text \<open>C14: \<open>freemem\<close> takes back an aligned block of the heap that is in use: it returns
  \<open>OK\<close>, exactly the block's bytes become free again, and the free list is well formed, hence
  ordered, without overlaps and with every two adjacent blocks merged.\<close>

theorem freemem_returns_block:
  assumes "memwf m bs" "0 < n" "n \<le> 65532" "heap_start m \<le> b" "b mod 4 = 0" "b + roundmb n \<le> heap_end m"
    and "{b..<b + roundmb n} \<inter> bytes bs = {}"
  shows "\<exists>m' bs'. freemem b n m = Some (OK, m') \<and> memwf m' bs' \<and>
    bytes bs' = bytes bs \<union> {b..<b + roundmb n} \<and> ram m' = ram m"
proof -
  note R = roundmb_props [OF assms(2,3)]
  obtain m' where m': "freemem b n m = Some (OK, m')" "memwf m' (release_block b (roundmb n) bs)"
    "ram m' = ram m"
    by (rule freemem_ok [OF assms]) blast
  have "heap_start m - 1 < b" using assms(4) by simp
  then show ?thesis
    using release_block_spec [OF memwfD(2) [OF assms(1)] _ R(1) assms(5) R(2) assms(6,7)] m' by blast
qed

theorem freemem_returns_block_witness:
  "\<exists>m' bs'. freemem 1016 16 ex_heap = Some (OK, m') \<and> memwf m' bs' \<and>
    bytes bs' = {1000..<1032} \<union> {2000..<2400}"
proof -
  have "memwf ex_heap ex_blocks" "(0::int) < 16" "(16::int) \<le> 65532" "heap_start ex_heap \<le> 1016"
    "(1016::int) mod 4 = 0" "1016 + roundmb 16 \<le> heap_end ex_heap"
    "{1016..<1016 + roundmb 16} \<inter> bytes ex_blocks = {}"
    by (rule ex_memwf) (auto simp: ex_bytes ex_heap_def roundmb_small)
  from freemem_returns_block [OF this] obtain m' bs' where
    "freemem 1016 16 ex_heap = Some (OK, m')" "memwf m' bs'"
    "bytes bs' = bytes ex_blocks \<union> {1016..<1016 + roundmb 16}" by (elim exE conjE)
  moreover have "bytes ex_blocks \<union> {1016..<1016 + roundmb 16} = {1000..<1032} \<union> {2000..<2400}"
    by (auto simp: ex_bytes roundmb_small)
  ultimately show ?thesis by auto
qed

text \<open>A block that overlaps free memory, freed twice for example, is refused: \<open>SYSERR\<close>, and
  nothing changes. The block must not reach beyond the address space, where the sum in the
  code wraps.\<close>

theorem freemem_refuses_free_bytes:
  assumes "memwf m bs" "0 < n" "n \<le> 65532" "heap_start m \<le> b" "b \<le> heap_end m" "b + roundmb n < 65536"
    and "{b..<b + roundmb n} \<inter> bytes bs \<noteq> {}"
  shows "freemem b n m = Some (SYSERR, m)"
  by (rule freemem_rejected [OF assms])

theorem freemem_refuses_free_bytes_witness: "freemem 1008 16 ex_heap = Some (SYSERR, ex_heap)"
proof (rule freemem_refuses_free_bytes [OF ex_memwf])
  have "(1008::int) \<in> {1008..<1008 + roundmb 16} \<inter> bytes ex_blocks"
    by (simp add: ex_bytes roundmb_small)
  then show "{1008..<1008 + roundmb 16} \<inter> bytes ex_blocks \<noteq> {}" by blast
qed (simp_all add: ex_heap_def roundmb_small)

text \<open>\<open>getstk\<close> cuts a stack off the upper end of the last free block that is large enough,
  stores its size in its top word, and returns the address of that word; it fails, and changes
  nothing, exactly when no block is large enough.\<close>

lemma alloc_last_None_iff: "alloc_last n bs = None \<longleftrightarrow> (\<forall>(a, l) \<in> set bs. l < n)"
  by (induction n bs rule: alloc_last.induct) (auto split: option.splits)

lemma alloc_last_last:
  "alloc_last n bs = Some (p, bs') \<Longrightarrow> blocks_ok lo hi bs \<Longrightarrow>
    \<exists>a l. (a, l) \<in> set bs \<and> n \<le> l \<and> p = a + l - n \<and> (\<forall>(a', l') \<in> set bs. a < a' \<longrightarrow> l' < n)"
proof (induction n bs arbitrary: lo p bs' rule: alloc_last.induct)
  case (2 n a l bs)
  have ok: "blocks_ok (a + l) hi bs" "0 < l" using "2.prems"(2) by simp_all
  have above: "a < a'" if "(a', l') \<in> set bs" for a' l'
    using blocks_ok_addr [OF ok(1) that] ok(2) by simp
  show ?case
  proof (cases "alloc_last n bs")
    case (Some r)
    obtain p1 bs1 where r: "alloc_last n bs = Some (p1, bs1)" using Some by (cases r) auto
    with "2.prems"(1) have "p1 = p" by simp
    then obtain a1 l1 where "(a1, l1) \<in> set bs" "n \<le> l1" "p = a1 + l1 - n"
      "\<forall>(a', l') \<in> set bs. a1 < a' \<longrightarrow> l' < n"
      using "2.IH" [OF r ok(1)] by blast
    then show ?thesis using above [of a1 l1] by fastforce
  next
    case None
    then have "n \<le> l" "p = a + l - n" using "2.prems"(1) by (simp_all split: if_splits)
    then show ?thesis using None alloc_last_None_iff [of n bs] by fastforce
  qed
qed simp

theorem getstk_last_fit:
  assumes "memwf m bs" "0 < n" "n \<le> 65532"
  shows "if \<forall>(a, l) \<in> set bs. l < roundmb n then getstk n m = Some (SYSPTR, m)
    else \<exists>a l m' bs'. (a, l) \<in> set bs \<and> roundmb n \<le> l \<and> (\<forall>(a', l') \<in> set bs. a < a' \<longrightarrow> l' < roundmb n) \<and>
      getstk n m = Some (a + l - 2, m') \<and> get_word m' (a + l - 2) = roundmb n \<and> memwf m' bs' \<and>
      bytes bs' = bytes bs - {a + l - roundmb n..<a + l}"
proof (cases "alloc_last (roundmb n) bs")
  case None
  then show ?thesis using getstk_none [OF assms None] alloc_last_None_iff by auto
next
  case (Some r)
  obtain p bs' where r: "alloc_last (roundmb n) bs = Some (p, bs')" using Some by (cases r) auto
  note R = roundmb_props [OF assms(2,3)] and ok = memwfD(2) [OF assms(1)]
  obtain m' where m': "getstk n m = Some (p + roundmb n - 2, m')" "memwf m' bs'"
    "ram m' = ram (set_word (p + roundmb n - 2) (roundmb n) m)"
    by (rule getstk_some [OF assms r]) blast
  obtain a l where al: "(a, l) \<in> set bs" "roundmb n \<le> l" "p = a + l - roundmb n"
    "\<forall>(a', l') \<in> set bs. a < a' \<longrightarrow> l' < roundmb n"
    using alloc_last_last [OF r ok] by blast
  have "0 \<le> a + l - 2" "a + l - 2 < 65536"
    using blocks_ok_addr [OF ok al(1)] memwfD(3,4,6) [OF assms(1)] by simp_all
  then have "get_word (set_word (a + l - 2) (roundmb n) m) (a + l - 2) = roundmb n"
    using R(1,5) by (simp add: get_set_word)
  then have "get_word m' (a + l - 2) = roundmb n" using m'(3) al(3) by (simp add: get_word_def)
  moreover have "\<not> (\<forall>(a, l) \<in> set bs. l < roundmb n)" using al(1,2) by fastforce
  ultimately show ?thesis
    using al m'(1,2) alloc_last_spec [OF r ok R(1,2)] by auto
qed

theorem getstk_last_fit_witness:
  "\<exists>m'. getstk 100 ex_heap = Some (2398, m') \<and> get_word m' 2398 = 100"
proof -
  have a: "(0::int) < 100" "(100::int) \<le> 65532" by simp_all
  have ne: "\<not> (\<forall>(a, l) \<in> set ex_blocks. l < roundmb 100)" by (simp add: ex_blocks_def roundmb_small)
  from getstk_last_fit [OF ex_memwf a, unfolded if_not_P [OF ne]]
  obtain a l m' where r: "(a, l) \<in> set ex_blocks" "roundmb 100 \<le> l"
    "getstk 100 ex_heap = Some (a + l - 2, m')" "get_word m' (a + l - 2) = roundmb 100"
    by (elim exE conjE)
  then have "a = 2000" "l = 400" by (auto simp: ex_blocks_def roundmb_small)
  then show ?thesis using r(3,4) by (simp add: roundmb_small)
qed

section \<open>malloc\<close>

text \<open>\<open>free\<close> finds the size that \<open>malloc\<close> stored before the block: a block that \<open>malloc\<close>
  returned and that is freed again leaves the free memory as it was.\<close>

theorem malloc_free:
  assumes "memgood m F" "0 < n" "n \<le> 65500" "wrap_malloc n m = Some (p, m1)"
  shows "\<exists>m2 F1. memgood m1 F1 \<and> F1 \<subset> F \<and> wrap_free p m1 = Some m2 \<and> memgood m2 F"
proof -
  let ?n = "roundmb n + 2"
  have R: "0 < roundmb n" "roundmb n < n + 4" "roundmb n mod 4 = 0"
    using roundmb_props [of n] assms(2,3) by simp_all
  then have n: "0 < ?n" "?n \<le> 65532" "u16 ?n = ?n" "size_ok ?n"
    using assms(3) by (simp_all add: size_ok_def)
  have "getmem ?n m \<noteq> Some (SYSPTR, m)"
    using assms(4) n(3) by (auto simp: wrap_malloc_def sizeof_int_def)
  then obtain q m0 where q: "getmem ?n m = Some (q, m0)" "heap_area q ?n \<subseteq> F"
    "memgood m0 (F - heap_area q ?n)" "heap_fine q ?n m0" "q \<noteq> SYSPTR"
    using heap.take_cases [OF assms(1) n(4)] by blast
  obtain bs0 where "memwf m0 bs0" using q(3) by (auto simp: memgood_def)
  from memwfD(3,4,6) [OF this] have hb: "0 < heap_start m0" "heap_end m0 < 65535" by simp_all
  have qr: "0 < q" "q + roundmb ?n < 65535" using q(4) hb by (simp_all add: heap_fine_def)
  have rr: "0 < roundmb ?n" "?n \<le> roundmb ?n" by (rule roundmb_props [OF n(1,2)])+
  have p: "p = q + 2" "m1 = set_word q ?n m0"
    using assms(4) q(1,5) n(3) qr rr R(1) by (simp_all add: wrap_malloc_def sizeof_int_def)
  have g1: "memgood m1 (F - heap_area q ?n)"
    using q(3) p(2) by simp
  have w: "get_word m1 q = ?n" using get_set_word [of q ?n m0] qr rr n(3) p(2) by simp
  have f: "heap_fine q ?n m1" using q(4) p(2) by (simp add: heap_fine_def)
  obtain m2 where m2: "freemem q ?n m1 = Some (OK, m2)" "memgood m2 (F - heap_area q ?n \<union> heap_area q ?n)"
    using heap.give_ok [OF g1 n(4) f] by blast
  have "wrap_free p m1 = Some m2"
    using m2(1) w p(1) qr rr by (simp add: wrap_free_def sizeof_int_def)
  moreover have "q \<in> heap_area q ?n" using rr by (simp add: heap_area_def)
  then have "F - heap_area q ?n \<subset> F" using q(2) by blast
  moreover have "F - heap_area q ?n \<union> heap_area q ?n = F" using q(2) by blast
  ultimately show ?thesis using g1 m2(2) by (intro exI [of _ m2] exI [of _ "F - heap_area q ?n"]) simp
qed

theorem malloc_free_witness:
  "\<exists>p m1 m2. wrap_malloc 10 ex_heap = Some (p, m1) \<and> wrap_free p m1 = Some m2 \<and>
    memgood m2 ({1000..<1016} \<union> {2000..<2400})"
proof -
  have "alloc_first (roundmb 14) ex_blocks = Some (1000, [(2000, 400)])"
    by (simp add: ex_blocks_def roundmb_eq)
  then obtain m where "getmem 14 ex_heap = Some (1000, m)"
    by (rule getmem_some [OF ex_memwf, rotated 2]) auto
  then have w: "wrap_malloc 10 ex_heap = Some (1002, set_word 1000 14 m)"
    by (simp add: wrap_malloc_def roundmb_small sizeof_int_def SYSPTR_def)
  have "(0::int) < 10" "(10::int) \<le> 65500" by simp_all
  from malloc_free [OF ex_memgood this w] show ?thesis using w by blast
qed

section \<open>Runs\<close>

text \<open>C15: whatever sequence of \<open>getmem\<close>, \<open>getstk\<close> and returns of what is in use the program
  performs, the areas in use are pairwise disjoint and disjoint from the free bytes, and
  together with them they are the memory there was in the beginning: nothing is lost or given
  out twice. Every further request returns.\<close>

theorem allocation_runs_safe:
  assumes "memwf m bs" "arena.astep\<^sup>*\<^sup>* (m, []) (m', live)"
  shows "\<exists>bs'. memwf m' bs' \<and>
    bytes bs' \<union> (\<Union>(p, r) \<in> set live. arena_area p r) = bytes bs \<and>
    (\<forall>(p, r) \<in> set live. arena_area p r \<inter> bytes bs' = {}) \<and>
    (\<forall>i j. i < j \<and> j < length live \<longrightarrow>
       arena_area (fst (live ! i)) (snd (live ! i)) \<inter> arena_area (fst (live ! j)) (snd (live ! j)) = {}) \<and>
    (\<forall>r. size_ok (snd r) \<longrightarrow> (\<exists>p m2. arena_take r m' = Some (p, m2)))"
proof -
  have "arena.uses m (bytes bs) []"
    using assms(1) by (auto simp: arena.uses_def memgood_def)
  from arena.run_uses [OF assms(2) this] obtain F where F: "arena.uses m' F live"
    "arena.covered F live = arena.covered (bytes bs) []" by blast
  obtain bs' where bs': "memwf m' bs'" "bytes bs' = F" using F(1) by (auto simp: arena.uses_def memgood_def)
  show ?thesis
  proof (intro exI [of _ bs'] conjI)
    show "bytes bs' \<union> (\<Union>(p, r) \<in> set live. arena_area p r) = bytes bs"
      using F(2) bs'(2) by (simp add: arena.covered_def)
    show "\<forall>(p, r) \<in> set live. arena_area p r \<inter> bytes bs' = {}"
      using F(1) bs'(2) by (auto simp: arena.uses_def)
    show "\<forall>i j. i < j \<and> j < length live \<longrightarrow>
       arena_area (fst (live ! i)) (snd (live ! i)) \<inter> arena_area (fst (live ! j)) (snd (live ! j)) = {}"
      using arena.uses_disjoint [OF F(1)] by blast
    show "\<forall>r. size_ok (snd r) \<longrightarrow> (\<exists>p m2. arena_take r m' = Some (p, m2))"
      using arena.take_total [OF F(1)] by blast
  qed (rule bs'(1))
qed

lemma ex_run:
  "\<exists>m'. arena.astep\<^sup>*\<^sup>* (ex_heap, []) (m', [(2398, (True, 100)), (2000, (False, 18))])"
proof -
  have a: "(0::int) < 18" "(18::int) \<le> 65532" "(0::int) < 100" "(100::int) \<le> 65532" by simp_all
  have "alloc_first (roundmb 18) ex_blocks = Some (2000, [(1000, 16), (2020, 380)])"
    by (simp add: ex_blocks_def roundmb_small)
  from getmem_some [OF ex_memwf a(1,2) this]
  obtain m1 where m1: "getmem 18 ex_heap = Some (2000, m1)" "memwf m1 [(1000, 16), (2020, 380)]" by blast
  have "alloc_last (roundmb 100) [(1000, 16), (2020, 380)] = Some (2300, [(1000, 16), (2020, 280)])"
    by (simp add: roundmb_small)
  from getstk_some [OF m1(2) a(3,4) this]
  obtain m2 where m2: "getstk 100 m1 = Some (2398, m2)" by (auto simp: roundmb_small)
  have "arena.astep (ex_heap, []) (m1, [(2000, (False, 18))])"
    using arena.take_step [of "(False, 18)" ex_heap 2000 m1 "[]"] m1(1)
    by (simp add: arena_take_def size_ok_def SYSPTR_def)
  moreover have "arena.astep (m1, [(2000, (False, 18))]) (m2, [(2398, (True, 100)), (2000, (False, 18))])"
    using arena.take_step [of "(True, 100)" m1 2398 m2 "[(2000, (False, 18))]"] m2
    by (simp add: arena_take_def size_ok_def SYSPTR_def)
  ultimately show ?thesis by (meson converse_rtranclp_into_rtranclp r_into_rtranclp)
qed

theorem allocation_runs_safe_witness:
  "\<exists>m'. arena.astep\<^sup>*\<^sup>* (ex_heap, []) (m', [(2398, (True, 100)), (2000, (False, 18))]) \<and>
    (\<exists>bs'. memwf m' bs' \<and> bytes bs' \<inter> stk_area 2398 100 = {} \<and> bytes bs' \<inter> heap_area 2000 18 = {})"
proof -
  obtain m' where run: "arena.astep\<^sup>*\<^sup>* (ex_heap, []) (m', [(2398, (True, 100)), (2000, (False, 18))])"
    using ex_run by blast
  from allocation_runs_safe [OF ex_memwf run] obtain bs' where "memwf m' bs'"
    "\<forall>(p, r) \<in> set [(2398, (True, 100)), (2000, (False, 18))]. arena_area p r \<inter> bytes bs' = {}"
    by (elim exE conjE)
  then have "memwf m' bs' \<and> bytes bs' \<inter> stk_area 2398 100 = {} \<and> bytes bs' \<inter> heap_area 2000 18 = {}"
    by (auto simp: arena_area_def)
  then show ?thesis using run by blast
qed

end
