(* ===== verification/Dev.thy ===== *)
theory Dev
  imports Prelude "HOL-Library.Word"
begin

text \<open>
  The device switch (\<open>open.c\<close>, \<open>close.c\<close>, \<open>read.c\<close>, \<open>write.c\<close>, \<open>getc.c\<close>, \<open>putc.c\<close>,
  \<open>control.c\<close>, \<open>seek.c\<close>, \<open>init.c\<close>), the mode argument of \<open>open\<close> (\<open>ckmode.c\<close>) and the block
  operations (\<open>blkcopy.c\<close>, \<open>blkequ.c\<close>). A row of \<open>devtab\<close> is a record of the driver's routines
  over the state of the drivers; the table itself is built from the configuration.
\<close>

unbundle bit_operations_syntax

section \<open>The device switch\<close>

text \<open>Two terminals are configured (\<open>HelloWorld/avr-Configuration\<close>).\<close>

definition NDEVS :: int where "NDEVS = 2"
definition CONSOLE :: int where "CONSOLE = 0"

definition isbaddev :: "int \<Rightarrow> bool" where
  "isbaddev f \<longleftrightarrow> f < 0 \<or> f \<ge> NDEVS"

record 'd devsw =
  dvinit :: "'d \<Rightarrow> int \<times> 'd"
  dvopen :: "string \<Rightarrow> string \<Rightarrow> 'd \<Rightarrow> int \<times> 'd"
  dvclose :: "'d \<Rightarrow> int \<times> 'd"
  dvread :: "int \<Rightarrow> int \<Rightarrow> 'd \<Rightarrow> int \<times> 'd"
  dvwrite :: "int \<Rightarrow> int \<Rightarrow> 'd \<Rightarrow> int \<times> 'd"
  dvseek :: "int \<Rightarrow> 'd \<Rightarrow> int \<times> 'd"
  dvgetc :: "'d \<Rightarrow> int \<times> 'd"
  dvputc :: "int \<Rightarrow> 'd \<Rightarrow> int \<times> 'd"
  dvcntl :: "int \<Rightarrow> int \<Rightarrow> int \<Rightarrow> 'd \<Rightarrow> int \<times> 'd"

type_synonym 'd devtab = "int \<Rightarrow> 'd devsw"

definition ioerr :: "'d \<Rightarrow> int \<times> 'd" where
  "ioerr d = (SYSERR, d)"

definition ionull :: "'d \<Rightarrow> int \<times> 'd" where
  "ionull d = (OK, d)"

definition dev_init :: "'d devtab \<Rightarrow> int \<Rightarrow> 'd \<Rightarrow> int \<times> 'd" where
  "dev_init devtab descrp d =
     (if isbaddev descrp then (SYSERR, d) else dvinit (devtab descrp) d)"

definition dev_open :: "'d devtab \<Rightarrow> int \<Rightarrow> string \<Rightarrow> string \<Rightarrow> 'd \<Rightarrow> int \<times> 'd" where
  "dev_open devtab descrp nam mode d =
     (if isbaddev descrp then (SYSERR, d) else dvopen (devtab descrp) nam mode d)"

definition dev_close :: "'d devtab \<Rightarrow> int \<Rightarrow> 'd \<Rightarrow> int \<times> 'd" where
  "dev_close devtab descrp d =
     (if isbaddev descrp then (SYSERR, d) else dvclose (devtab descrp) d)"

definition dev_read :: "'d devtab \<Rightarrow> int \<Rightarrow> int \<Rightarrow> int \<Rightarrow> 'd \<Rightarrow> int \<times> 'd" where
  "dev_read devtab descrp buff count d =
     (if isbaddev descrp then (SYSERR, d) else dvread (devtab descrp) buff count d)"

definition dev_write :: "'d devtab \<Rightarrow> int \<Rightarrow> int \<Rightarrow> int \<Rightarrow> 'd \<Rightarrow> int \<times> 'd" where
  "dev_write devtab descrp buff count d =
     (if isbaddev descrp then (SYSERR, d) else dvwrite (devtab descrp) buff count d)"

definition dev_seek :: "'d devtab \<Rightarrow> int \<Rightarrow> int \<Rightarrow> 'd \<Rightarrow> int \<times> 'd" where
  "dev_seek devtab descrp pos d =
     (if isbaddev descrp then (SYSERR, d) else dvseek (devtab descrp) pos d)"

definition dev_control :: "'d devtab \<Rightarrow> int \<Rightarrow> int \<Rightarrow> int \<Rightarrow> int \<Rightarrow> 'd \<Rightarrow> int \<times> 'd" where
  "dev_control devtab descrp op addr data d =
     (if isbaddev descrp then (SYSERR, d) else dvcntl (devtab descrp) op addr data d)"

definition dev_getc :: "'d devtab \<Rightarrow> int \<Rightarrow> 'd \<Rightarrow> int \<times> 'd" where
  "dev_getc devtab descrp d =
     (if isbaddev descrp then (SYSERR, d) else dvgetc (devtab descrp) d)"

definition dev_putc :: "'d devtab \<Rightarrow> int \<Rightarrow> int \<Rightarrow> 'd \<Rightarrow> int \<times> 'd" where
  "dev_putc devtab descrp ch d =
     (if isbaddev descrp then (SYSERR, d) else dvputc (devtab descrp) ch d)"

text \<open>\<open>remove\<close> and \<open>rename\<close> ask the name system, which is not configured, for the device.\<close>

definition FLREMOVE :: int where "FLREMOVE = 3001"
definition FLRENAME :: int where "FLRENAME = 3003"

definition dev_remove ::
  "'d devtab \<Rightarrow> (string \<Rightarrow> int \<times> int) \<Rightarrow> string \<Rightarrow> int \<Rightarrow> 'd \<Rightarrow> int \<times> 'd" where
  "dev_remove devtab nammap name key d =
     (let (dev, fullnam) = nammap name
      in if dev = SYSERR then (SYSERR, d) else dvcntl (devtab dev) FLREMOVE fullnam key d)"

definition dev_rename ::
  "'d devtab \<Rightarrow> (string \<Rightarrow> int \<times> int) \<Rightarrow> string \<Rightarrow> string \<Rightarrow> 'd \<Rightarrow> int \<times> 'd" where
  "dev_rename devtab nammap old new d =
     (let (dev, fullold) = nammap old; (dev2, fullnew) = nammap new
      in if dev = SYSERR \<or> dev2 = SYSERR \<or> dev \<noteq> dev2 then (SYSERR, d)
         else dvcntl (devtab dev) FLRENAME fullold fullnew d)"

section \<open>The mode argument\<close>

definition FLREAD :: int where "FLREAD = 1"
definition FLWRITE :: int where "FLWRITE = 2"
definition FLRW :: int where "FLRW = 3"
definition FLNEW :: int where "FLNEW = 8"
definition FLOLD :: int where "FLOLD = 16"

fun ckmode_loop :: "int \<Rightarrow> string \<Rightarrow> int" where
  "ckmode_loop mbits [] =
     (if mbits AND FLREAD = mbits AND FLWRITE then mbits OR FLRW else mbits)"
| "ckmode_loop mbits (ch # mode) =
     (if ch = CHR ''r''
      then if mbits AND FLREAD \<noteq> 0 then SYSERR else ckmode_loop (mbits OR FLREAD) mode
      else if ch = CHR ''w''
      then if mbits AND FLWRITE \<noteq> 0 then SYSERR else ckmode_loop (mbits OR FLWRITE) mode
      else if ch = CHR ''o''
      then if mbits AND FLOLD \<noteq> 0 \<or> mbits AND FLNEW \<noteq> 0 then SYSERR
           else ckmode_loop (mbits OR FLOLD) mode
      else if ch = CHR ''n''
      then if mbits AND FLOLD \<noteq> 0 \<or> mbits AND FLNEW \<noteq> 0 then SYSERR
           else ckmode_loop (mbits OR FLNEW) mode
      else SYSERR)"

definition ckmode :: "string \<Rightarrow> int" where
  "ckmode mode = ckmode_loop 0 mode"

text \<open>The bits as four flags.\<close>

definition mode_bits :: "bool \<Rightarrow> bool \<Rightarrow> bool \<Rightarrow> bool \<Rightarrow> int" where
  "mode_bits r w n old = (if r then 1 else 0) + (if w then 2 else 0) + (if n then 8 else 0) + (if old then 16 else 0)"

lemma mode_bits_ops:
  "mode_bits r w n old AND FLREAD = (if r then 1 else 0)"
  "mode_bits r w n old AND FLWRITE = (if w then 2 else 0)"
  "mode_bits r w n old AND FLNEW = (if n then 8 else 0)"
  "mode_bits r w n old AND FLOLD = (if old then 16 else 0)"
  "mode_bits r w n old OR FLREAD = mode_bits True w n old"
  "mode_bits r w n old OR FLWRITE = mode_bits r True n old"
  "mode_bits r w n old OR FLRW = mode_bits True True n old"
  "mode_bits r w n old OR FLNEW = mode_bits r w True old"
  "mode_bits r w n old OR FLOLD = mode_bits r w n True"
  by (cases r; cases w; cases n; cases old;
      simp add: mode_bits_def FLREAD_def FLWRITE_def FLRW_def FLNEW_def FLOLD_def)+

lemma mode_bits_not_SYSERR [simp]: "mode_bits r w n old \<noteq> SYSERR"
  by (simp add: mode_bits_def SYSERR_def)

text \<open>A mode that is accepted, starting from the flags already seen.\<close>

definition mode_legal :: "bool \<Rightarrow> bool \<Rightarrow> bool \<Rightarrow> string \<Rightarrow> bool" where
  "mode_legal r w e mode \<longleftrightarrow> set mode \<subseteq> {CHR ''r'', CHR ''w'', CHR ''o'', CHR ''n''} \<and>
     count_list mode (CHR ''r'') + (if r then 1 else 0) \<le> 1 \<and>
     count_list mode (CHR ''w'') + (if w then 1 else 0) \<le> 1 \<and>
     count_list mode (CHR ''o'') + count_list mode (CHR ''n'') + (if e then 1 else 0) \<le> 1"

lemma mode_legal_Cons:
  "mode_legal r w e (c # mode) \<longleftrightarrow>
     (c = CHR ''r'' \<and> \<not> r \<and> mode_legal True w e mode) \<or> (c = CHR ''w'' \<and> \<not> w \<and> mode_legal r True e mode) \<or>
     ((c = CHR ''o'' \<or> c = CHR ''n'') \<and> \<not> e \<and> mode_legal r w True mode)"
  by (auto simp: mode_legal_def)

lemma mode_legal_Nil [simp]: "mode_legal r w e []"
  by (simp add: mode_legal_def)

lemma ckmode_loop_bits:
  "ckmode_loop (mode_bits r w n old) mode =
     (if mode_legal r w (n \<or> old) mode
      then let r' = (r \<or> CHR ''r'' \<in> set mode); w' = (w \<or> CHR ''w'' \<in> set mode)
           in mode_bits (r' \<or> \<not> w') (w' \<or> \<not> r')
                (n \<or> CHR ''n'' \<in> set mode) (old \<or> CHR ''o'' \<in> set mode)
      else SYSERR)"
proof (induction mode arbitrary: r w n old)
  case Nil
  show ?case by (cases r; cases w) (simp_all add: mode_bits_ops)
next
  case (Cons c mode)
  consider "c = CHR ''r''" | "c = CHR ''w''" | "c = CHR ''o''" | "c = CHR ''n''"
    | "c \<notin> {CHR ''r'', CHR ''w'', CHR ''o'', CHR ''n''}" by blast
  then show ?case
    by cases (simp_all add: mode_bits_ops Cons.IH mode_legal_Cons Let_def)
qed

section \<open>Blocks of memory\<close>

text \<open>On the bytes of memory, from the lower address up.\<close>

fun copy_loop :: "nat \<Rightarrow> int \<Rightarrow> int \<Rightarrow> (int \<Rightarrow> int) \<Rightarrow> int \<Rightarrow> int" where
  "copy_loop 0 dst src r = r"
| "copy_loop (Suc n) dst src r = copy_loop n (dst + 1) (src + 1) (r(dst := r src))"

definition blkcopy :: "int \<Rightarrow> int \<Rightarrow> int \<Rightarrow> (int \<Rightarrow> int) \<Rightarrow> (int \<times> (int \<Rightarrow> int)) option" where
  "blkcopy dst src nbytes r =
     do { _ \<leftarrow> sub16 nbytes 1; Some (OK, copy_loop (nat nbytes) dst src r) }"

fun equ_loop :: "nat \<Rightarrow> int \<Rightarrow> int \<Rightarrow> (int \<Rightarrow> int) \<Rightarrow> bool" where
  "equ_loop 0 a b r = True"
| "equ_loop (Suc n) a b r = (if r a \<noteq> r b then False else equ_loop n (a + 1) (b + 1) r)"

definition blkequ :: "int \<Rightarrow> int \<Rightarrow> int \<Rightarrow> (int \<Rightarrow> int) \<Rightarrow> bool option" where
  "blkequ a b nbytes r = do { _ \<leftarrow> sub16 nbytes 1; Some (equ_loop (nat nbytes) a b r) }"

lemma copy_loop_below: "x < dst \<Longrightarrow> copy_loop n dst src r x = r x"
  by (induction n arbitrary: dst src r) auto

lemma copy_loop_nth:
  assumes "dst \<le> src \<or> src + int n \<le> dst"
  shows "copy_loop n dst src r x = (if dst \<le> x \<and> x < dst + int n then r (src + (x - dst)) else r x)"
  using assms
proof (induction n arbitrary: dst src r)
  case (Suc n)
  have IH: "copy_loop n (dst + 1) (src + 1) (r(dst := r src)) x =
      (if dst + 1 \<le> x \<and> x < dst + 1 + int n then (r(dst := r src)) (src + 1 + (x - (dst + 1)))
       else (r(dst := r src)) x)"
    by (rule Suc.IH) (use Suc.prems in auto)
  have "src + (x - dst) \<noteq> dst" if "dst + 1 \<le> x" "x < dst + 1 + int n"
    using Suc.prems that by auto
  then show ?case using IH by auto
qed auto

lemma equ_loop_iff: "equ_loop n a b r \<longleftrightarrow> (\<forall>i < n. r (a + int i) = r (b + int i))"
proof (induction n arbitrary: a b)
  case (Suc n)
  have "(\<forall>i < Suc n. r (a + int i) = r (b + int i)) \<longleftrightarrow>
      r a = r b \<and> (\<forall>i < n. r (a + 1 + int i) = r (b + 1 + int i))"
    by (auto simp: less_Suc_eq_0_disj algebra_simps)
  then show ?case using Suc.IH by auto
qed simp

end
