(* ===== verification/Procs.thy ===== *)
theory Procs
  imports Msg Dev Example
begin

text \<open>
  Creating and ending processes: \<open>create.c\<close>, \<open>kill.c\<close>, \<open>userret.c\<close>, \<open>xdone.c\<close>,
  \<open>panic.c\<close>, with the stdio streams a process is given (\<open>fopen.c\<close>, \<open>fclose.c\<close>) and the
  initialisation of the kernel (\<open>sysinit\<close>, \<open>clkinit\<close>). What a process owns (its stack and
  its two streams) is taken from the allocator of \<open>Memory\<close>, and the proofs go through its
  contract.
\<close>

section \<open>Streams\<close>

text \<open>Addresses that the linker chooses.\<close>

record image =
  a_putc :: int
  a_getc :: int
  a_kprint :: int
  a_initret :: int
  a_parg :: "int \<Rightarrow> int"

text \<open>\<open>(FILE *) FDFREE\<close>, the number of descriptors of a process, the size of a \<open>FILE\<close> and the
  bits of its flags.\<close>

definition FDFREE :: int where "FDFREE = 65535"
definition NFILE :: nat where "NFILE = 20"
definition sizeof_FILE :: int where "sizeof_FILE = 14"
definition SRD :: int where "SRD = 1"
definition SWR :: int where "SWR = 2"
definition SMALLOC :: int where "SMALLOC = 128"

text \<open>\<open>calloc\<close> of the C library takes its memory from \<open>__wrap_malloc\<close>. The bytes of a
  \<open>FILE\<close> are the record at its address in \<open>files\<close>.\<close>

definition calloc_file :: "kstate \<Rightarrow> (int \<times> kstate) option" where
  "calloc_file s = do {
     (p, m1) \<leftarrow> wrap_malloc sizeof_FILE (mem s);
     Some (p, s\<lparr>mem := m1, files := (files s)(p := \<lparr>sflags = 0, sput = 0, sget = 0, sfdesc = 0\<rparr>)\<rparr>)
   }"

definition set_fildes :: "int \<Rightarrow> int \<Rightarrow> int \<Rightarrow> kstate \<Rightarrow> kstate" where
  "set_fildes pid i f s = upd_proc pid (fildes_update (\<lambda>d. d(i := f))) s"

text \<open>A free standard slot of the running process becomes an alias of the stream.\<close>

definition alias_slot :: "int \<Rightarrow> int \<Rightarrow> kstate \<Rightarrow> kstate" where
  "alias_slot i f s =
     (if fildes (proctab s (currpid s)) i = FDFREE then set_fildes (currpid s) i f s else s)"

definition wrap_fdevopen :: "int \<Rightarrow> int \<Rightarrow> kstate \<Rightarrow> (int \<times> kstate) option" where
  "wrap_fdevopen put get s =
     (if put = 0 \<and> get = 0 then Some (SYSPTR, s)
      else do {
        (f, s1) \<leftarrow> calloc_file s;
        if f = 0 then Some (SYSPTR, s1)
        else
          (let flags = SMALLOC;
               (flags, s2) = (if get \<noteq> 0 then (flags OR SRD, alias_slot 0 f s1) else (flags, s1));
               (flags, s3) = (if put \<noteq> 0 then (flags OR SWR, alias_slot 2 f (alias_slot 1 f s2))
                              else (flags, s2))
           in Some (f, s3\<lparr>files := (files s3)(f := \<lparr>sflags = flags, sput = put, sget = get, sfdesc = 0\<rparr>)\<rparr>))
      })"

definition fdopen :: "image \<Rightarrow> int \<Rightarrow> string \<Rightarrow> kstate \<Rightarrow> (int \<times> kstate) option" where
  "fdopen img fdes mode s =
     (let flmode = ckmode mode
      in if flmode AND FLRW = 0 \<and> flmode AND FLREAD = 0 \<and> flmode AND FLWRITE = 0
         then Some (SYSPTR, s)
         else do {
           (f, s1) \<leftarrow> (if flmode AND FLRW \<noteq> 0 then wrap_fdevopen (a_putc img) (a_getc img) s
                      else if flmode AND FLREAD \<noteq> 0 then wrap_fdevopen 0 (a_getc img) s
                      else wrap_fdevopen (a_putc img) 0 s);
           if f = SYSPTR then None
           else Some (f, s1\<lparr>files := (files s1)(f := (files s1 f)\<lparr>sfdesc := fdes\<rparr>)\<rparr>)
         })"

definition fileno :: "int \<Rightarrow> kstate \<Rightarrow> int" where
  "fileno f s = sfdesc (files s f)"

text \<open>\<open>close\<close> on the configured devices: both are terminals, and their close routine is
  \<open>ionull\<close>.\<close>

definition close_dev :: "int \<Rightarrow> kstate \<Rightarrow> int \<times> kstate" where
  "close_dev descrp s = (if isbaddev descrp then (SYSERR, s) else ionull s)"

definition drop_alias :: "int \<Rightarrow> int \<Rightarrow> kstate \<Rightarrow> kstate" where
  "drop_alias i f s =
     (if fildes (proctab s (currpid s)) i = f then set_fildes (currpid s) i FDFREE s else s)"

definition fclose :: "int \<Rightarrow> kstate \<Rightarrow> (int \<times> kstate) option" where
  "fclose f s =
     (if sflags (files s f) AND SMALLOC = 0 then Some (OK, s)
      else do {
        let s1 = drop_alias 2 f (drop_alias 1 f (drop_alias 0 f s));
        let (_, s2) = close_dev (sfdesc (files s1 f)) s1;
        m \<leftarrow> wrap_free f (mem s2);
        Some (OK, s2\<lparr>mem := m\<rparr>)
      })"

section \<open>create\<close>

fun newpid_scan :: "nat \<Rightarrow> kstate \<Rightarrow> int \<times> kstate" where
  "newpid_scan 0 s = (SYSERR, s)"
| "newpid_scan (Suc n) s =
     (let pid = nextproc s;
          s1 = s\<lparr>nextproc := (if pid \<le> 0 then NPROC - 1 else pid - 1)\<rparr>
      in if pst s1 pid = PRFREE then (pid, s1) else newpid_scan n s1)"

definition newpid :: "kstate \<Rightarrow> int \<times> kstate" where
  "newpid s = newpid_scan (nat NPROC) s"

definition lobyte :: "int \<Rightarrow> int" where "lobyte x = u8 x"
definition hibyte :: "int \<Rightarrow> int" where "hibyte x = u8 (x div 256)"

definition PNREGS :: int where "PNREGS = 38"
definition SSP_L :: int where "SSP_L = 32"
definition SSP_H :: int where "SSP_H = 33"
definition SPC_L :: int where "SPC_L = 34"
definition SPC_H :: int where "SPC_H = 35"
definition SSREG :: int where "SSREG = 37"
definition INITREG :: int where "INITREG = 0"
definition INITPS :: int where "INITPS = 128"
definition PNMLEN :: nat where "PNMLEN = 16"
definition MAXARG :: nat where "MAXARG = 6"

text \<open>The registers of a new process, in the order of the assignments; the arguments of its
  procedure are the number of arguments and the address of \<open>parg\<close>.\<close>

definition init_regs :: "int \<Rightarrow> int \<Rightarrow> int \<Rightarrow> int \<Rightarrow> (int \<Rightarrow> int) \<Rightarrow> int \<Rightarrow> int" where
  "init_regs procaddr nargs pargp sp regs =
     (\<lambda>i. if 0 \<le> i \<and> i < PNREGS then INITREG else regs i)
       (SPC_L := lobyte procaddr, SPC_H := hibyte procaddr, SSREG := INITPS,
        24 := lobyte nargs, 25 := hibyte nargs, 22 := lobyte pargp, 23 := hibyte pargp,
        SSP_L := lobyte sp, SSP_H := hibyte sp)"

definition init_entry :: "image \<Rightarrow> int \<Rightarrow> int \<Rightarrow> int \<Rightarrow> int \<Rightarrow> string \<Rightarrow> int list \<Rightarrow> int \<Rightarrow> pentry \<Rightarrow> pentry" where
  "init_entry img procaddr saddr ssize priority nam args pid e =
     e\<lparr>fildes := (\<lambda>i. if 3 \<le> i \<and> i < int NFILE then FDFREE else fildes e i),
       pstate := PRSUSP, pname := take PNMLEN nam, pprio := priority, pbase := saddr,
       pstklen := ssize, psem := 0, phasmsg := 0, plimit := u16 (saddr - ssize + sizeof_int),
       pargs := int (length args), paddr := procaddr, pnxtkin := BADPID,
       pdevs0 := BADDEV, pdevs1 := BADDEV,
       parg := (\<lambda>i. if 0 \<le> i \<and> i < int (length args) then args ! nat i
                    else if i = int (length args) then 0 else parg e i),
       pregs := init_regs procaddr (int (length args)) (a_parg img pid) (u16 (saddr - 5)) (pregs e)\<rparr>"

text \<open>The bottom of the stack: the marker, the return address, the procedure.\<close>

definition init_stack :: "image \<Rightarrow> int \<Rightarrow> int \<Rightarrow> memst \<Rightarrow> memst" where
  "init_stack img procaddr saddr m =
     set_ram (u16 (saddr - 4)) (hibyte procaddr) (set_ram (u16 (saddr - 3)) (lobyte procaddr)
       (set_ram (u16 (saddr - 2)) (hibyte (a_initret img)) (set_ram (u16 (saddr - 1)) (lobyte (a_initret img))
         (set_ram saddr MAGIC m))))"

text \<open>The streams of the new process: \<open>fdopen\<close> runs in the process that calls create.\<close>

definition init_streams :: "image \<Rightarrow> int \<Rightarrow> kstate \<Rightarrow> kstate option" where
  "init_streams img pid s = do {
     (f0, s1) \<leftarrow> fdopen img CONSOLE ''r'' s;
     let s2 = set_fildes pid 0 f0 s1;
     (f1, s3) \<leftarrow> fdopen img CONSOLE ''w'' s2;
     let s4 = set_fildes pid 1 f1 s3;
     Some (set_fildes pid 2 (a_kprint img) s4)
   }"

definition create ::
  "image \<Rightarrow> int \<Rightarrow> int \<Rightarrow> int \<Rightarrow> string \<Rightarrow> int list \<Rightarrow> kstate \<Rightarrow> (int \<times> kstate) option" where
  "create img procaddr ssize priority nam args s = do {
     let ssize = s16 (roundmb ssize);
     (saddr, m1) \<leftarrow> getstk (u16 ssize) (mem s);
     let s1 = s\<lparr>mem := m1\<rparr>;
     if saddr = SYSPTR then Some (SYSERR, s1)
     else
       (let (pid, s2) = (if ssize < MINSTK then (SYSERR, s1) else newpid s1)
        in if ssize < MINSTK \<or> pid = SYSERR \<or> priority < 1
           then do {
             (_, m2) \<leftarrow> freestk saddr (u16 ssize) (mem s2);
             Some (SYSERR, s2\<lparr>mem := m2\<rparr>)
           }
           else do {
             np \<leftarrow> add16 (numproc s2) 1;
             s3 \<leftarrow> init_streams img pid (s2\<lparr>numproc := np\<rparr>);
             if length args \<ge> MAXARG then None
             else
               (let s4 = upd_proc pid (init_entry img procaddr saddr ssize priority nam args pid) s3
                in Some (pid, s4\<lparr>mem := init_stack img procaddr saddr (mem s4)\<rparr>))
           })
   }"

section \<open>kill\<close>

definition xdone :: "kstate \<Rightarrow> kstate" where
  "xdone s = s\<lparr>xcalls := xcalls s @ [Xdone]\<rparr>"

text \<open>\<open>panic\<close> prints and never returns: it has no value.\<close>

definition panic :: "kstate \<Rightarrow> kstate option" where
  "panic s = None"

fun close_streams :: "nat \<Rightarrow> int \<Rightarrow> int \<Rightarrow> kstate \<Rightarrow> kstate option" where
  "close_streams 0 pid dev s = Some s"
| "close_streams (Suc n) pid dev s =
     (let f = fildes (proctab s pid) dev
      in if f = FDFREE then Some s
         else do { (_, s1) \<leftarrow> fclose f s; close_streams n pid (dev + 1) s1 })"

text \<open>kill from the return of send on; then what is left of it when the process that was
  killed runs again.\<close>

definition kill_rest :: "int \<Rightarrow> kstate \<Rightarrow> (kont \<times> kstate) option" where
  "kill_rest pid s = do {
     (_, m) \<leftarrow> freestk (pbase (proctab s pid)) (u16 (pstklen (proctab s pid))) (mem s);
     let s1 = s\<lparr>mem := m\<rparr>;
     case pst s1 pid of
       PRCURR \<Rightarrow> do { (_, s2) \<leftarrow> resched (set_pstate pid PRFREE s1); Some (KKilled, s2) }
     | PRWAIT \<Rightarrow> do {
         let i = psem (proctab s1 pid);
         c \<leftarrow> add16 (semcnt (semaph s1 i)) 1;
         let s2 = set_semcnt i c s1;
         let s3 = s2\<lparr>qtab := snd (dequeue pid (qtab s2))\<rparr>;
         Some (KRet OK, set_pstate pid PRFREE s3)
       }
     | PRREADY \<Rightarrow> Some (KRet OK, set_pstate pid PRFREE (s1\<lparr>qtab := snd (dequeue pid (qtab s1))\<rparr>))
     | PRSLEEP \<Rightarrow> do { (_, s2) \<leftarrow> unsleep pid s1; Some (KRet OK, set_pstate pid PRFREE s2) }
     | PRTRECV \<Rightarrow> do { (_, s2) \<leftarrow> unsleep pid s1; Some (KRet OK, set_pstate pid PRFREE s2) }
     | _ \<Rightarrow> Some (KRet OK, set_pstate pid PRFREE s1)
   }"

definition kill_panic :: "kstate \<Rightarrow> kstate option" where
  "kill_panic s = panic s"

definition kill :: "int \<Rightarrow> kstate \<Rightarrow> (kont \<times> kstate) option" where
  "kill pid s =
     (if isbadpid pid \<or> pst s pid = PRFREE then Some (KRet SYSERR, s)
      else do {
        np \<leftarrow> sub16 (numproc s) 1;
        let s1 = s\<lparr>numproc := np\<rparr>;
        let s2 = (if np = 0 then xdone s1 else s1);
        let s3 = (if \<not> isbaddev (pdevs0 (proctab s2 pid)) then snd (close_dev (pdevs0 (proctab s2 pid)) s2) else s2);
        let s4 = (if \<not> isbaddev (pdevs1 (proctab s3 pid)) then snd (close_dev (pdevs1 (proctab s3 pid)) s3) else s3);
        s5 \<leftarrow> close_streams NFILE pid 0 s4;
        (_, s6) \<leftarrow> send (pnxtkin (proctab s5 pid)) pid s5;
        if currpid s6 \<noteq> currpid s then Some (KKill pid, s6) else kill_rest pid s6
      })"

definition userret :: "kstate \<Rightarrow> (kont \<times> kstate) option" where
  "userret s = kill (getpid s) s"

section \<open>newpid\<close>

lemma scan_positions:
  "map (\<lambda>k. (x - int k) mod N) [0..<Suc n] =
     x mod N # map (\<lambda>k. ((x - 1) mod N - int k) mod N) [0..<n]"
proof -
  have "[0..<Suc n] = 0 # map Suc [0..<n]" by (simp add: upt_conv_Cons map_Suc_upt del: upt_Suc)
  then show ?thesis by (simp add: mod_simps algebra_simps)
qed

lemma newpid_scan_find:
  assumes "0 \<le> nextproc s" "nextproc s < NPROC"
  shows "newpid_scan n s =
    (case find (\<lambda>p. pst s p = PRFREE) (map (\<lambda>k. (nextproc s - int k) mod NPROC) [0..<n]) of
       None \<Rightarrow> (SYSERR, s\<lparr>nextproc := (nextproc s - int n) mod NPROC\<rparr>)
     | Some p \<Rightarrow> (p, s\<lparr>nextproc := (p - 1) mod NPROC\<rparr>))"
  using assms
proof (induction n arbitrary: s)
  case 0
  then show ?case by simp
next
  case (Suc n)
  have m: "(if nextproc s \<le> 0 then NPROC - 1 else nextproc s - 1) = (nextproc s - 1) mod NPROC"
  proof (cases "nextproc s = 0")
    case True
    then show ?thesis by (simp add: NPROC_def)
  next
    case False
    then show ?thesis using Suc.prems by simp
  qed
  have z: "nextproc s mod NPROC = nextproc s" using Suc.prems by simp
  let ?s = "s\<lparr>nextproc := (nextproc s - 1) mod NPROC\<rparr>"
  have step: "newpid_scan (Suc n) s =
      (if pst s (nextproc s) = PRFREE then (nextproc s, ?s) else newpid_scan n ?s)"
    unfolding newpid_scan.simps Let_def m by simp
  have IH: "newpid_scan n ?s =
    (case find (\<lambda>p. pst s p = PRFREE)
       (map (\<lambda>k. ((nextproc s - 1) mod NPROC - int k) mod NPROC) [0..<n]) of
       None \<Rightarrow> (SYSERR, s\<lparr>nextproc := ((nextproc s - 1) mod NPROC - int n) mod NPROC\<rparr>)
     | Some p \<Rightarrow> (p, s\<lparr>nextproc := (p - 1) mod NPROC\<rparr>))"
    using Suc.IH [of ?s] by (simp cong: option.case_cong)
  have sh: "((nextproc s - 1) mod NPROC - int n) mod NPROC = (nextproc s - int (Suc n)) mod NPROC"
    by (simp add: mod_simps algebra_simps)
  show ?case
    unfolding scan_positions z step IH sh by simp
qed

lemma newpid_cases:
  assumes "0 \<le> nextproc s" "nextproc s < NPROC"
  obtains (none) m where "0 \<le> m" "m < NPROC" "newpid s = (SYSERR, s\<lparr>nextproc := m\<rparr>)"
      "\<And>p. ispid p \<Longrightarrow> pst s p \<noteq> PRFREE"
    | (some) m p where "0 \<le> m" "m < NPROC" "newpid s = (p, s\<lparr>nextproc := m\<rparr>)"
      "ispid p" "pst s p = PRFREE"
proof -
  let ?xs = "map (\<lambda>k. (nextproc s - int k) mod NPROC) [0..<nat NPROC]"
  have cover: "p \<in> set ?xs" if "ispid p" for p
    using mod_cover [of p NPROC "nextproc s"] that by force
  have rng: "0 \<le> x mod NPROC" "x mod NPROC < NPROC" for x by simp_all
  show thesis
  proof (cases "find (\<lambda>p. pst s p = PRFREE) ?xs")
    case None
    then have "newpid s = (SYSERR, s\<lparr>nextproc := (nextproc s - int (nat NPROC)) mod NPROC\<rparr>)"
      unfolding newpid_def newpid_scan_find [OF assms] None by simp
    moreover have "pst s p \<noteq> PRFREE" if "ispid p" for p
      using None cover [OF that] unfolding find_None_iff by blast
    ultimately show thesis by (rule none [OF rng])
  next
    case (Some p)
    then have "pst s p = PRFREE" "p \<in> set ?xs" by (auto simp: find_Some_iff)
    moreover have "newpid s = (p, s\<lparr>nextproc := (p - 1) mod NPROC\<rparr>)"
      unfolding newpid_def newpid_scan_find [OF assms] Some by simp
    moreover have "ispid p" using \<open>p \<in> set ?xs\<close> rng by auto
    ultimately show thesis using some [OF rng] by blast
  qed
qed

section \<open>What the streams of a process are\<close>

text \<open>The block of memory of a stream: the length word that \<open>malloc\<close> adds comes first.\<close>

definition stream_block :: "int \<Rightarrow> int \<times> bool \<times> int" where
  "stream_block f = (f - 2, (False, 18))"

definition block_area :: "int \<times> bool \<times> int \<Rightarrow> int set" where
  "block_area b = arena_area (fst b) (snd b)"

lemma block_area_simps [simp]:
  "block_area (a, (True, n)) = stk_area a n" "block_area (a, (False, n)) = heap_area a n" "block_area (stream_block f) = heap_area (f - 2) 18"
  by (simp_all add: block_area_def stream_block_def arena_area_def)

definition stream_ok :: "kstate \<Rightarrow> int \<Rightarrow> bool" where
  "stream_ok s f \<longleftrightarrow> get_word (mem s) (f - 2) = 18 \<and> sflags (files s f) AND SMALLOC \<noteq> 0"

definition std_free :: "(int \<Rightarrow> int) \<Rightarrow> bool" where
  "std_free d \<longleftrightarrow> d 0 = FDFREE \<or> d 1 = FDFREE \<or> d 2 = FDFREE"

lemma roundmb_FILE [simp]: "roundmb sizeof_FILE = 16"
  by (simp add: roundmb_eq sizeof_FILE_def)

lemma fildes_upd: "fildes_update g e = e\<lparr>fildes := g (fildes e)\<rparr>"
  by (cases e) simp

lemma fildes_upd_same: "g (fildes e) = fildes e \<Longrightarrow> fildes_update g e = e"
  by (cases e) simp

lemma set_fildes_simps [simp]:
  "proctab (set_fildes p i f s) = (proctab s)(p := (proctab s p)\<lparr>fildes := (fildes (proctab s p))(i := f)\<rparr>)"
  "currpid (set_fildes p i f s) = currpid s" "mem (set_fildes p i f s) = mem s"
  "files (set_fildes p i f s) = files s" "numproc (set_fildes p i f s) = numproc s"
  by (simp_all add: set_fildes_def fildes_upd [of "\<lambda>d. d(i := f)"])

lemma upd_proc_id: "(\<And>e. g e = e) \<Longrightarrow> upd_proc p g s = s"
  by (simp add: upd_proc_def)

lemma upd_proc_comp: "upd_proc p g (upd_proc p f s) = upd_proc p (g \<circ> f) s"
  by (simp add: upd_proc_def)

text \<open>Opening a stream: memory for it, and perhaps aliases in the free standard slots of the
  running process. \<open>std_alias\<close> is what becomes of the descriptors of that process.\<close>

definition std_alias :: "int \<Rightarrow> (int \<Rightarrow> int) \<Rightarrow> int \<Rightarrow> int" where
  "std_alias f d = (\<lambda>i. if i \<in> {0, 1, 2} \<and> d i = FDFREE then f else d i)"

lemma std_alias_filled [simp]: "f \<noteq> FDFREE \<Longrightarrow> std_alias f' (std_alias f d) = std_alias f d"
  by (simp add: std_alias_def fun_eq_iff)

lemma alias_slot_upd:
  obtains g where "alias_slot i f s = upd_proc (currpid s) (fildes_update g) s"
    "fildes (proctab s (currpid s)) i \<noteq> FDFREE \<Longrightarrow> g = id"
    "g = (if fildes (proctab s (currpid s)) i = FDFREE then (\<lambda>d. d(i := f)) else id)"
proof (cases "fildes (proctab s (currpid s)) i = FDFREE")
  case True
  show thesis
    by (rule that [of "\<lambda>d. d(i := f)"]) (simp_all add: alias_slot_def True set_fildes_def)
next
  case False
  show thesis
    by (rule that [of id]) (simp_all add: alias_slot_def False upd_proc_id)
qed

lemma alias_slots_upd:
  obtains g where "alias_slot 2 f (alias_slot 1 f (alias_slot 0 f s)) =
      upd_proc (currpid s) (fildes_update g) s"
    "\<not> std_free (fildes (proctab s (currpid s))) \<Longrightarrow> g = id"
    "g (fildes (proctab s (currpid s))) = std_alias f (fildes (proctab s (currpid s)))"
proof -
  let ?d = "fildes (proctab s (currpid s))"
  obtain g0 where g0: "alias_slot 0 f s = upd_proc (currpid s) (fildes_update g0) s"
    "fildes (proctab s (currpid s)) 0 \<noteq> FDFREE \<Longrightarrow> g0 = id"
    "g0 = (if fildes (proctab s (currpid s)) 0 = FDFREE then (\<lambda>d. d(0 := f)) else id)" by (rule alias_slot_upd [of 0 f s]) blast
  let ?s0 = "upd_proc (currpid s) (fildes_update g0) s"
  obtain g1 where g1: "alias_slot 1 f ?s0 = upd_proc (currpid ?s0) (fildes_update g1) ?s0"
    "fildes (proctab ?s0 (currpid ?s0)) 1 \<noteq> FDFREE \<Longrightarrow> g1 = id"
    "g1 = (if fildes (proctab ?s0 (currpid ?s0)) 1 = FDFREE then (\<lambda>d. d(1 := f)) else id)" by (rule alias_slot_upd [of 1 f ?s0]) blast
  let ?s1 = "upd_proc (currpid ?s0) (fildes_update g1) ?s0"
  obtain g2 where g2: "alias_slot 2 f ?s1 = upd_proc (currpid ?s1) (fildes_update g2) ?s1"
    "fildes (proctab ?s1 (currpid ?s1)) 2 \<noteq> FDFREE \<Longrightarrow> g2 = id"
    "g2 = (if fildes (proctab ?s1 (currpid ?s1)) 2 = FDFREE then (\<lambda>d. d(2 := f)) else id)" by (rule alias_slot_upd [of 2 f ?s1]) blast
  show thesis
  proof (rule that [of "g2 \<circ> g1 \<circ> g0"])
    have "alias_slot 2 f (alias_slot 1 f (alias_slot 0 f s)) = alias_slot 2 f ?s1"
      by (simp only: g0(1) g1(1))
    also have "\<dots> = upd_proc (currpid s) (fildes_update g2) ?s1" using g2(1) by simp
    also have "\<dots> = upd_proc (currpid s) (fildes_update (g2 \<circ> g1 \<circ> g0)) s"
      by (simp add: upd_proc_def o_assoc)
    finally show "alias_slot 2 f (alias_slot 1 f (alias_slot 0 f s)) =
        upd_proc (currpid s) (fildes_update (g2 \<circ> g1 \<circ> g0)) s" .
    show "g2 \<circ> g1 \<circ> g0 = id" if "\<not> std_free (fildes (proctab s (currpid s)))"
      using that g0(2) g1(2) g2(2) by (simp add: std_free_def)
    define d1 where "d1 = g0 ?d"
    define d2 where "d2 = g1 d1"
    have d: "d1 = (if ?d 0 = FDFREE then ?d(0 := f) else ?d)" "d2 = (if d1 1 = FDFREE then d1(1 := f) else d1)"
      "g2 d2 = (if d2 2 = FDFREE then d2(2 := f) else d2)"
      using g0(3) g1(3) g2(3) by (simp_all add: d1_def d2_def)
    have "g2 d2 = std_alias f ?d"
      unfolding d(3) unfolding d(2) unfolding d(1) by (auto simp: std_alias_def fun_eq_iff)
    then show "(g2 \<circ> g1 \<circ> g0) ?d = std_alias f ?d" by (simp add: d1_def d2_def)
  qed
qed

lemma ckmode_rw [simp]: "ckmode ''r'' = 1" "ckmode ''w'' = 2"
  by (simp_all add: ckmode_def FLREAD_def FLWRITE_def)

definition new_stream :: "image \<Rightarrow> int \<Rightarrow> sfile" where
  "new_stream img fdes = \<lparr>sflags = 131, sput = a_putc img, sget = a_getc img, sfdesc = fdes\<rparr>"

lemma fdopen_console:
  assumes "arena.uses (mem s) F live" "a_putc img \<noteq> 0" "a_getc img \<noteq> 0" "mode \<in> {''r'', ''w''}"
  obtains (none) "fdopen img fdes mode s = None" "wrap_malloc sizeof_FILE (mem s) = None"
    | (some) f g m' F' where
      "fdopen img fdes mode s = Some (f, upd_proc (currpid s) (fildes_update g)
         (s\<lparr>mem := m', files := (files s)(f := new_stream img fdes)\<rparr>))"
      "\<not> std_free (fildes (proctab s (currpid s))) \<Longrightarrow> g = id"
      "g (fildes (proctab s (currpid s))) = std_alias f (fildes (proctab s (currpid s)))"
      "arena.uses m' F' (stream_block f # live)" "get_word m' (f - 2) = 18" "mbound m' = mbound (mem s)"
      "heap_start (mem s) + 2 \<le> f" "f < heap_end (mem s)"
      "\<And>a. a \<notin> F \<Longrightarrow> ram m' a = ram (mem s) a" "F' \<subseteq> F" "f - 2 \<notin> F'" "f - 1 \<notin> F'"
      "wrap_malloc sizeof_FILE (mem s) = Some (f, m')"
      "F' = F - block_area (stream_block f)"
proof -
  have rw: "(1::int) AND FLRW \<noteq> 0" "(2::int) AND FLRW \<noteq> 0" by (simp_all add: FLRW_def)
  then have eq: "fdopen img fdes mode s = do {
      (f, s1) \<leftarrow> wrap_fdevopen (a_putc img) (a_getc img) s;
      if f = SYSPTR then None else Some (f, s1\<lparr>files := (files s1)(f := (files s1 f)\<lparr>sfdesc := fdes\<rparr>)\<rparr>)
    }"
    using assms(4) by (auto simp: fdopen_def)
  have sz: "0 < sizeof_FILE" "sizeof_FILE \<le> 65500" by (simp_all add: sizeof_FILE_def)
  note B = arena_bounds [OF assms(1)]
  from assms(1) sz show thesis
  proof (cases rule: malloc_uses)
    case none
    show thesis
      by (rule that(1)) (simp_all add: eq wrap_fdevopen_def calloc_file_def assms(2) none)
  next
    case (some f m')
    let ?z = "\<lparr>sflags = 0, sput = 0, sget = 0, sfdesc = 0\<rparr>"
    let ?s1 = "s\<lparr>mem := m', files := (files s)(f := ?z)\<rparr>"
    obtain g where g: "alias_slot 2 f (alias_slot 1 f (alias_slot 0 f ?s1)) =
        upd_proc (currpid ?s1) (fildes_update g) ?s1"
      "\<not> std_free (fildes (proctab ?s1 (currpid ?s1))) \<Longrightarrow> g = id"
      "g (fildes (proctab ?s1 (currpid ?s1))) = std_alias f (fildes (proctab ?s1 (currpid ?s1)))" by (rule alias_slots_upd [of f ?s1]) blast
    have f: "f \<noteq> 0" "f \<noteq> SYSPTR" using some(5,6) B by (simp_all add: SYSPTR_def)
    have ar: "f - 2 \<in> heap_area (f - 2) 18" "f - 1 \<in> heap_area (f - 2) 18"
      by (simp_all add: heap_area_def roundmb_eq)
    have fl: "(SMALLOC OR SRD) OR SWR = 131" by (simp add: SMALLOC_def SRD_def SWR_def)
    have "fdopen img fdes mode s = Some (f, upd_proc (currpid s) (fildes_update g)
         (s\<lparr>mem := m', files := (files s)(f := new_stream img fdes)\<rparr>))"
      using g(1) f by (simp add: eq wrap_fdevopen_def calloc_file_def assms(2,3) some(1) fl new_stream_def upd_proc_def)
    then show thesis
      by (rule that(2) [where F' = "F - heap_area (f - 2) 18"]) (use g(2,3) some ar in \<open>auto simp: stream_block_def\<close>)
  qed
qed

lemma get_word_cong: "ram m (a) = ram m' a \<Longrightarrow> ram m (u16 (a + 1)) = ram m' (u16 (a + 1)) \<Longrightarrow>
    get_word m a = get_word m' a"
  by (simp add: get_word_def)

text \<open>There is memory for the two streams of a process.\<close>

definition stream_room :: "memst \<Rightarrow> bool" where
  "stream_room m \<longleftrightarrow> (do { (_, m1) \<leftarrow> wrap_malloc sizeof_FILE m; wrap_malloc sizeof_FILE m1 }) \<noteq> None"

lemma init_streams_cases:
  assumes "arena.uses (mem s) F live" "a_putc img \<noteq> 0" "a_getc img \<noteq> 0" "pid \<noteq> currpid s"
  obtains (none) "init_streams img pid s = None" "\<not> stream_room (mem s)"
    | (some) f0 f1 g m' F' where
      "init_streams img pid s = Some (upd_proc pid
         (fildes_update (\<lambda>d. d(0 := f0, 1 := f1, 2 := a_kprint img))) (upd_proc (currpid s) (fildes_update g)
         (s\<lparr>mem := m', files := (files s)(f0 := new_stream img CONSOLE, f1 := new_stream img CONSOLE)\<rparr>)))"
      "\<not> std_free (fildes (proctab s (currpid s))) \<Longrightarrow> g = id"
      "g (fildes (proctab s (currpid s))) = std_alias f0 (fildes (proctab s (currpid s)))"
      "arena.uses m' F' (stream_block f1 # stream_block f0 # live)"
      "get_word m' (f0 - 2) = 18" "get_word m' (f1 - 2) = 18" "mbound m' = mbound (mem s)"
      "heap_start (mem s) + 2 \<le> f0" "f0 < heap_end (mem s)"
      "heap_start (mem s) + 2 \<le> f1" "f1 < heap_end (mem s)"
      "\<And>a. a \<notin> F \<Longrightarrow> ram m' a = ram (mem s) a"
      "F' = F - block_area (stream_block f0) - block_area (stream_block f1)"
proof -
  have md: "''r'' \<in> {''r'', ''w''}" "''w'' \<in> {''r'', ''w''}" by simp_all
  note B = arena_bounds [OF assms(1)]
  from assms(1-3) md(1) show thesis
  proof (cases rule: fdopen_console [where fdes = CONSOLE])
    case none
    then show thesis by (intro that(1)) (simp_all add: init_streams_def stream_room_def)
  next
    case a: (some f0 g0 m1 F1)
    let ?s1 = "upd_proc (currpid s) (fildes_update g0) (s\<lparr>mem := m1, files := (files s)(f0 := new_stream img CONSOLE)\<rparr>)"
    let ?s2 = "set_fildes pid 0 f0 ?s1"
    have u: "arena.uses (mem ?s2) F1 (stream_block f0 # live)" using a(4) by simp
    from u assms(2,3) md(2) show thesis
    proof (cases rule: fdopen_console [where fdes = CONSOLE])
      case none
      then show thesis by (intro that(1)) (simp_all add: init_streams_def stream_room_def a(1,13))
    next
      case b: (some f1 g1 m2 F2)
      have bd: "heap_start m1 = heap_start (mem s)" "heap_end m1 = heap_end (mem s)"
        using a(6) by (simp_all add: mbound_def)
      have w: "get_word m2 (f0 - 2) = 18"
      proof -
        have "u16 (f0 - 2 + 1) = f0 - 1" using a(7,8) B by simp
        then have "get_word m2 (f0 - 2) = get_word m1 (f0 - 2)"
          using b(9) a(10-12) by (intro get_word_cong) simp_all
        then show ?thesis using a(5) by simp
      qed
      have fu: "set_fildes p i f t = upd_proc p (fildes_update (\<lambda>d. d(i := f))) t" for p i f t
        by (simp add: set_fildes_def)
      show thesis
      proof (rule that(2) [of f0 f1 "g1 \<circ> g0" m2 F2])
        show "init_streams img pid s = Some (upd_proc pid
         (fildes_update (\<lambda>d. d(0 := f0, 1 := f1, 2 := a_kprint img))) (upd_proc (currpid s) (fildes_update (g1 \<circ> g0))
         (s\<lparr>mem := m2, files := (files s)(f0 := new_stream img CONSOLE, f1 := new_stream img CONSOLE)\<rparr>)))"
          using assms(4)
          by (simp add: init_streams_def a(1) b(1)) (simp add: fu upd_proc_def fun_upd_twist comp_def)
        show "g1 \<circ> g0 = id" if "\<not> std_free (fildes (proctab s (currpid s)))"
          using a(2) b(2) that assms(4) by simp
        have ff: "f0 \<noteq> FDFREE" using a(7,8) B by (simp add: FDFREE_def)
        show "(g1 \<circ> g0) (fildes (proctab s (currpid s))) = std_alias f0 (fildes (proctab s (currpid s)))"
          using a(3) b(3) assms(4) ff by simp
        show "ram m2 x = ram (mem s) x" if "x \<notin> F" for x
          using a(9,10) b(9) that by fastforce
        show "F2 = F - block_area (stream_block f0) - block_area (stream_block f1)"
          unfolding b(14) a(14) ..
      qed (use a b w bd in simp_all)
    qed
  qed
qed

end
