(* ===== verification/ProcMem.thy ===== *)
theory ProcMem
  imports Procs "HOL-Library.Multiset"
begin

text \<open>
  What the processes own, and \<open>create\<close>. \<open>kmem\<close> accounts for the memory in use: every
  process owns its stack and the blocks of its two streams; a process that is being killed
  (\<open>D\<close>) has already lost its streams; \<open>U\<close> are the blocks that were allocated by direct calls
  of the memory manager. All of them are disjoint, by the contract of the allocator.
\<close>

section \<open>The memory of the processes\<close>

type_synonym block = "int \<times> bool \<times> int"

definition owners :: "kstate \<Rightarrow> int set" where
  "owners s = {p. 0 < p \<and> p < NPROC \<and> pst s p \<noteq> PRFREE}"

definition stack_block :: "pentry \<Rightarrow> block" where
  "stack_block e = (pbase e, (True, pstklen e))"

definition pblocks :: "kstate \<Rightarrow> int set \<Rightarrow> int \<Rightarrow> block multiset" where
  "pblocks s D p = {#stack_block (proctab s p)#} +
     (if p \<in> D then {#}
      else {#stream_block (fildes (proctab s p) 0), stream_block (fildes (proctab s p) 1)#})"

definition stdio :: "image \<Rightarrow> kstate \<Rightarrow> int \<Rightarrow> bool" where
  "stdio img s p \<longleftrightarrow> fildes (proctab s p) 2 = a_kprint img \<and> fildes (proctab s p) 3 = FDFREE \<and>
     stream_ok s (fildes (proctab s p) 0) \<and> stream_ok s (fildes (proctab s p) 1)"

definition image_ok :: "image \<Rightarrow> kstate \<Rightarrow> bool" where
  "image_ok img s \<longleftrightarrow> a_putc img \<noteq> 0 \<and> a_getc img \<noteq> 0 \<and> a_kprint img \<noteq> FDFREE \<and>
     sflags (files s (a_kprint img)) AND SMALLOC = 0 \<and>
     \<not> (heap_start (mem s) \<le> a_kprint img \<and> a_kprint img < heap_end (mem s))"

definition kmem :: "image \<Rightarrow> kstate \<Rightarrow> int set \<Rightarrow> block multiset \<Rightarrow> block list \<Rightarrow> int set \<Rightarrow> bool" where
  "kmem img s D U live F \<longleftrightarrow>
     arena.uses (mem s) F live \<and> mset live = U + (\<Sum>p \<in> owners s. pblocks s D p) \<and>
     (\<forall>p \<in> owners s - D. stdio img s p) \<and> D \<subseteq> owners s \<and> image_ok img s"

text \<open>The number of user processes that are alive.\<close>

definition knum :: "kstate \<Rightarrow> int set \<Rightarrow> bool" where
  "knum s D \<longleftrightarrow> numproc s = int (card (owners s - D))"

lemma kmemD:
  assumes "kmem img s D U live F"
  shows "arena.uses (mem s) F live" "mset live = U + (\<Sum>p \<in> owners s. pblocks s D p)"
    "p \<in> owners s \<Longrightarrow> p \<notin> D \<Longrightarrow> stdio img s p" "D \<subseteq> owners s" "image_ok img s"
  using assms by (simp_all add: kmem_def)

lemma finite_owners [simp]: "finite (owners s)"
  by (rule finite_subset [of _ "{0..NPROC}"]) (auto simp: owners_def)

lemma card_owners: "int (card (owners s - D)) < NPROC"
proof -
  have "owners s - D \<subseteq> {1..<NPROC}" by (auto simp: owners_def)
  then have "card (owners s - D) \<le> card {1..<NPROC}" by (intro card_mono) simp_all
  then show ?thesis by (simp add: NPROC_def)
qed

text \<open>Calls that leave the memory to its owners.\<close>

lemma kown_owners: "kown s s' \<Longrightarrow> owners s' = owners s"
  by (simp add: kown_def owners_def)

lemma kown_kmem:
  assumes "kown s s'"
  shows "kmem img s' D U live F = kmem img s D U live F" "knum s' D = knum s D"
proof -
  have "pblocks s' D p = pblocks s D p" "stdio img s' p = stdio img s p" for p
    using assms by (simp_all add: kown_def pblocks_def stack_block_def stdio_def stream_ok_def)
  moreover have "image_ok img s' = image_ok img s" using assms by (simp add: kown_def image_ok_def)
  ultimately show "kmem img s' D U live F = kmem img s D U live F"
    using assms kown_owners [OF assms] by (simp add: kmem_def kown_def)
  show "knum s' D = knum s D"
    using assms kown_owners [OF assms] by (simp add: knum_def kown_def)
qed

text \<open>A stream in use: where its block is.\<close>

lemma stream_block_range:
  assumes "arena.uses m F live" "stream_block f \<in> set live"
  shows "f - 2 \<in> arena_area (f - 2) (False, 18)" "f - 1 \<in> arena_area (f - 2) (False, 18)"
    "heap_start m + 2 \<le> f" "f < heap_end m" "u16 (f - 2 + 1) = f - 1" "f \<noteq> FDFREE"
    "f - 2 \<notin> F" "f - 1 \<notin> F"
proof -
  have mem: "(f - 2, (False, 18)) \<in> set live" using assms(2) by (simp add: stream_block_def)
  have b: "heap_start m \<le> f - 2" "f - 2 + 20 \<le> heap_end m"
    using arena.uses_req [OF assms(1) mem] by (simp_all add: arena_fine_def heap_fine_def roundmb_eq)
  show a: "f - 2 \<in> arena_area (f - 2) (False, 18)" "f - 1 \<in> arena_area (f - 2) (False, 18)"
    by (simp_all add: arena_area_def heap_area_def roundmb_eq)
  show "heap_start m + 2 \<le> f" "f < heap_end m" "u16 (f - 2 + 1) = f - 1" "f \<noteq> FDFREE"
    using b arena_bounds [OF assms(1)] by (simp_all add: FDFREE_def)
  have "arena_area (f - 2) (False, 18) \<inter> F = {}"
    using assms(1) mem unfolding arena.uses_def by auto
  then show "f - 2 \<notin> F" "f - 1 \<notin> F" using a by auto
qed

lemma kmem_blocks:
  assumes "kmem img s D U live F" "p \<in> owners s"
  shows "stack_block (proctab s p) \<in> set live"
    "p \<notin> D \<Longrightarrow> stream_block (fildes (proctab s p) 0) \<in> set live"
    "p \<notin> D \<Longrightarrow> stream_block (fildes (proctab s p) 1) \<in> set live"
proof -
  have "pblocks s D p \<subseteq># (\<Sum>p \<in> owners s. pblocks s D p)"
    by (simp add: sum.remove [OF finite_owners assms(2)])
  then have "pblocks s D p \<subseteq># mset live"
    unfolding kmemD(2) [OF assms(1)] by (simp add: subset_mset.add_increasing)
  then have *: "b \<in> set live" if "b \<in># pblocks s D p" for b
    using mset_subset_eqD that by fastforce
  show "stack_block (proctab s p) \<in> set live" by (rule *) (simp add: pblocks_def)
  show "stream_block (fildes (proctab s p) 0) \<in> set live" if "p \<notin> D"
    by (rule *) (simp add: pblocks_def that)
  show "stream_block (fildes (proctab s p) 1) \<in> set live" if "p \<notin> D"
    by (rule *) (simp add: pblocks_def that)
qed

lemma kmem_std_free:
  assumes "kmem img s D U live F" "p \<in> owners s" "p \<notin> D"
  shows "\<not> std_free (fildes (proctab s p))"
  using stream_block_range(6) [OF kmemD(1) [OF assms(1)] kmem_blocks(2) [OF assms(1-3)]]
    stream_block_range(6) [OF kmemD(1) [OF assms(1)] kmem_blocks(3) [OF assms(1-3)]]
    kmemD(3) [OF assms] kmemD(5) [OF assms(1)]
  by (simp add: std_free_def stdio_def image_ok_def)

text \<open>A step that writes outside the blocks in use leaves the streams in use as they are.\<close>

lemma stdio_kept:
  assumes "stdio img s p" "fildes (proctab s' p) = fildes (proctab s p)"
    and "\<And>f. f \<in> {fildes (proctab s p) 0, fildes (proctab s p) 1} \<Longrightarrow>
      files s' f = files s f \<and> get_word (mem s') (f - 2) = get_word (mem s) (f - 2)"
  shows "stdio img s' p"
  using assms by (simp add: stdio_def stream_ok_def)

section \<open>create\<close>

lemma kwf_nextproc:
  assumes "0 \<le> m" "m < NPROC"
  shows "kwf s L \<Longrightarrow> kwf (s\<lparr>nextproc := m\<rparr>) L" "krun (s\<lparr>nextproc := m\<rparr>) L = krun s L"
  using assms
  by (auto simp: kwf_def kq_def layout_def kprocs_def pmember_def ksem_alt kclk_def krun_def)

lemma krun_other [simp]:
  "krun (s\<lparr>mem := m\<rparr>) L = krun s L" "krun (s\<lparr>files := fs\<rparr>) L = krun s L"
  "krun (s\<lparr>numproc := v\<rparr>) L = krun s L" "krun (s\<lparr>xcalls := xs\<rparr>) L = krun s L"
  by (simp_all add: krun_def)

text \<open>A free process table entry is filled in.\<close>

lemma kwf_new_entry:
  assumes "kwf s L" "krun s L" "ispid p" "p \<noteq> NULLPROC" "pst s p = PRFREE"
    and "pstate (f (proctab s p)) = PRSUSP" "1 \<le> pprio (f (proctab s p))" "pprio (f (proctab s p)) \<le> MAXINT"
  shows "kwf (upd_proc p f s) L" "krun (upd_proc p f s) L"
proof -
  have k: "kwfx s L {p}" by (rule kwf_capture [OF assms(1,3)]) (simp add: ploc_def assms(5))
  have "kwfx (upd_proc p f s) L {p}"
    by (rule kwfx_upd [OF k]) (use assms(4,6-8) in \<open>simp_all add: pprio_ok_def\<close>)
  then show "kwf (upd_proc p f s) L"
    by (rule kwfx_release) (simp add: ploc_def assms(6))
  have "currpid s \<noteq> p" using assms(2,5) by (auto simp: krun_def)
  moreover have "p \<notin> set (L RDYQ)" using kq_ready [OF kwfD(1) [OF assms(1)]] assms(5) by auto
  ultimately show "krun (upd_proc p f s) L" using assms(2) by (auto simp: krun_def)
qed

lemma kwf_fildes:
  "kwf (upd_proc p (fildes_update g) s) L = kwf s L" "krun (upd_proc p (fildes_update g) s) L = krun s L"
  using kwfx_other_fields(1) [of "fildes_update g" p s L "{}"]
    kwfx_other_fields(2) [of "fildes_update g" p s L] by simp_all

lemma roundmb_range: "0 \<le> roundmb n" "roundmb n \<le> 65532" "roundmb n mod 4 = 0"
proof -
  let ?y = "u16 (sizeof_mblock - 1 + n)"
  have y: "0 \<le> ?y" "?y < 65536" using u16_range by blast+
  have e: "roundmb n = ?y - ?y mod 4" by (simp add: roundmb_def Let_def sizeof_mblock_def)
  then have "roundmb n = ?y div 4 * 4" by (simp add: minus_mod_eq_div_mult)
  moreover have "?y div 4 \<le> 16383" using y(2) by simp
  moreover have "0 \<le> ?y div 4" using y(1) by simp
  ultimately show "0 \<le> roundmb n" "roundmb n \<le> 65532" "roundmb n mod 4 = 0" by simp_all
qed

lemma u16_s16_roundmb: "u16 (s16 (roundmb n)) = roundmb n"
  using roundmb_range(1,2) [of n] by (simp add: u16_def s16_def mod_simps)

text \<open>The stack comes out of the free memory, or nothing changes.\<close>

lemma getstk_cases:
  assumes "arena.uses m F live"
  obtains (no) "getstk (u16 (s16 (roundmb n))) m = Some (SYSPTR, m)"
    | (yes) a m' F' where "getstk (u16 (s16 (roundmb n))) m = Some (a, m')" "a \<noteq> SYSPTR"
      "arena.uses m' F' ((a, (True, u16 (s16 (roundmb n)))) # live)" "F' \<subseteq> F" "mbound m' = mbound m"
      "size_ok (u16 (s16 (roundmb n)))"
      "\<forall>x. x \<notin> F \<longrightarrow> ram m' x = ram m x" "stk_area a (u16 (s16 (roundmb n))) \<subseteq> F"
      "F' = F - stk_area a (u16 (s16 (roundmb n)))"
proof (cases "roundmb n = 0")
  case True
  have e: "u16 (s16 (roundmb n)) = 0" by (rule trans [OF u16_s16_roundmb True])
  show thesis by (rule no) (simp only: e getstk_def simp_thms if_True)
next
  case False
  let ?n = "roundmb n"
  have sz: "size_ok ?n" using False roundmb_range(1,2) [of n] by (simp add: size_ok_def)
  have g: "memgood m F" using assms by (simp add: arena.uses_def)
  show thesis
  proof (cases "getstk ?n m = Some (SYSPTR, m)")
    case True
    then show thesis by (intro no) (simp add: u16_s16_roundmb)
  next
    case False
    then obtain a m' where a: "getstk ?n m = Some (a, m')" "a \<noteq> SYSPTR" "stk_area a ?n \<subseteq> F"
      "mbound m' = mbound m" "\<forall>x. x \<notin> stk_area a ?n \<longrightarrow> ram m' x = ram m x"
      using stk.take_cases [OF g sz] by blast
    have t: "arena_take (True, ?n) m = Some (a, m')" using a(1) by (simp add: arena_take_def)
    have "arena.uses m' (F - arena_area a (True, ?n)) ((a, (True, ?n)) # live)"
      by (rule arena.take_uses(1) [OF assms _ t a(2)]) (simp add: sz)
    then show thesis
      by (intro yes [of a m' "F - arena_area a (True, ?n)"])
        (use a sz in \<open>auto simp: u16_s16_roundmb arena_area_def\<close>)
  qed
qed

lemma freestk_uses:
  assumes "arena.uses m F live" "(a, (True, n)) \<in> set live"
  obtains m' where "freestk a n m = Some (OK, m')"
    "arena.uses m' (F \<union> stk_area a n) (remove1 (a, (True, n)) live)" "mbound m' = mbound m" "ram m' = ram m"
proof -
  obtain m' where "arena_give a (True, n) m = Some (OK, m')"
    "arena.uses m' (F \<union> arena_area a (True, n)) (remove1 (a, (True, n)) live)"
    "mbound m' = mbound m" "ram m' = ram m"
    by (rule arena.give_uses [OF assms])
  then show thesis using that by (simp add: arena_give_def arena_area_def)
qed

text \<open>The memory of the owners after a step of the allocator elsewhere.\<close>

lemma kmem_step:
  assumes k: "kmem img s D U live F"
    and p: "proctab s' = proctab s" "files s' = files s"
    and m: "mbound (mem s') = mbound (mem s)" "arena.uses (mem s') F' live'"
      "\<forall>x. x \<notin> F \<longrightarrow> ram (mem s') x = ram (mem s) x"
    and l: "mset live' + U = mset live + U'"
  shows "kmem img s' D U' live' F'"
proof -
  have o: "owners s' = owners s" "pblocks s' D = pblocks s D"
    using p(1) by (simp_all add: owners_def pblocks_def fun_eq_iff)
  have "mset live' + U = U + (\<Sum>p \<in> owners s. pblocks s D p) + U'" using l kmemD(2) [OF k] by simp
  then have "mset live' = U' + (\<Sum>p \<in> owners s. pblocks s D p)" by (simp add: ac_simps)
  moreover have "stdio img s' q" if q: "q \<in> owners s" "q \<notin> D" for q
  proof (rule stdio_kept [OF kmemD(3) [OF k q]])
    fix f assume "f \<in> {fildes (proctab s q) 0, fildes (proctab s q) 1}"
    then have "stream_block f \<in> set live" using kmem_blocks(2,3) [OF k q] by auto
    note r = stream_block_range(5,7,8) [OF kmemD(1) [OF k] this]
    have "get_word (mem s') (f - 2) = get_word (mem s) (f - 2)"
      by (rule get_word_cong) (use r m(3) in simp_all)
    then show "files s' f = files s f \<and> get_word (mem s') (f - 2) = get_word (mem s) (f - 2)"
      using p(2) by simp
  qed (simp add: p(1))
  moreover have "image_ok img s'"
    using kmemD(5) [OF k] p(2) m(1) by (simp add: image_ok_def mbound_def)
  ultimately show ?thesis
    using kmemD(4) [OF k] m(2) by (simp add: kmem_def o)
qed

lemma init_stack_simps [simp]:
  "arena.uses (init_stack img procaddr a m) F live = arena.uses m F live"
  "mbound (init_stack img procaddr a m) = mbound m"
  by (simp_all add: init_stack_def mbound_def)

lemma init_stack_ram:
  assumes "4 \<le> a" "a < 65536" "x < a - 4 \<or> a < x"
  shows "ram (init_stack img procaddr a m) x = ram m x"
proof -
  have "u16 (a - 4) = a - 4" "u16 (a - 3) = a - 3" "u16 (a - 2) = a - 2" "u16 (a - 1) = a - 1"
    using assms(1,2) by simp_all
  then show ?thesis using assms(3) by (auto simp: init_stack_def)
qed

lemma init_entry_simps [simp]:
  "pstate (init_entry img procaddr a ssize priority nam args pid e) = PRSUSP"
  "pprio (init_entry img procaddr a ssize priority nam args pid e) = priority"
  "pbase (init_entry img procaddr a ssize priority nam args pid e) = a"
  "pstklen (init_entry img procaddr a ssize priority nam args pid e) = ssize"
  "fildes (init_entry img procaddr a ssize priority nam args pid e) 0 = fildes e 0"
  "fildes (init_entry img procaddr a ssize priority nam args pid e) 1 = fildes e 1"
  "fildes (init_entry img procaddr a ssize priority nam args pid e) 2 = fildes e 2"
  "fildes (init_entry img procaddr a ssize priority nam args pid e) 3 = FDFREE"
  "phasmsg (init_entry img procaddr a ssize priority nam args pid e) = 0"
  "paddr (init_entry img procaddr a ssize priority nam args pid e) = procaddr"
  by (simp_all add: init_entry_def NFILE_def)

text \<open>The memory of the owners when a process with its stack and two streams is added.\<close>

lemma kmem_new_process:
  assumes k: "kmem img s D U live F" and fr: "pst s pid = PRFREE" "ispid pid" "pid \<noteq> NULLPROC"
    and pt: "\<And>q. q \<noteq> pid \<Longrightarrow> q \<noteq> c \<Longrightarrow> proctab s' q = proctab s q"
      "proctab s' c = (proctab s c)\<lparr>fildes := g (fildes (proctab s c))\<rparr>" "c \<noteq> pid"
      "\<not> std_free (fildes (proctab s c)) \<Longrightarrow> g = id"
    and new: "pst s' pid \<noteq> PRFREE" "stack_block (proctab s' pid) = (a, (True, n))"
      "fildes (proctab s' pid) 0 = f0" "fildes (proctab s' pid) 1 = f1"
      "fildes (proctab s' pid) 2 = a_kprint img" "fildes (proctab s' pid) 3 = FDFREE"
    and fs: "files s' = (files s)(f0 := fs0, f1 := fs1)" "sflags fs0 AND SMALLOC \<noteq> 0" "sflags fs1 AND SMALLOC \<noteq> 0"
    and m: "mbound (mem s') = mbound (mem s)"
      "arena.uses (mem s') F' (stream_block f1 # stream_block f0 # (a, (True, n)) # live)"
      "get_word (mem s') (f0 - 2) = 18" "get_word (mem s') (f1 - 2) = 18"
      "\<And>x. x \<notin> F \<Longrightarrow> x \<notin> stk_area a n \<Longrightarrow> ram (mem s') x = ram (mem s) x"
  shows "kmem img s' D U (stream_block f1 # stream_block f0 # (a, (True, n)) # live) F' \<and>
     owners s' = insert pid (owners s) \<and> pid \<notin> owners s"
proof -
  let ?live = "stream_block f1 # stream_block f0 # (a, (True, n)) # live"
  note K = kmemD [OF k]
  have pid: "pid \<notin> owners s" "pid \<notin> D" using fr(1) K(4) by (auto simp: owners_def)
  have same: "proctab s' q = proctab s q" if "q \<in> owners s" "q \<notin> D" for q
  proof (cases "q = c")
    case True
    then have "g = id" using kmem_std_free [OF k that] pt(4) by simp
    then show ?thesis using pt(2) True by simp
  next
    case False
    moreover have "q \<noteq> pid" using that(1) pid(1) by auto
    ultimately show ?thesis by (intro pt(1))
  qed
  have st: "pst s' q = pst s q" "stack_block (proctab s' q) = stack_block (proctab s q)" if "q \<noteq> pid" for q
    using pt(1,2) that by (cases "q = c"; simp add: stack_block_def)+
  have "pst s' q \<noteq> PRFREE \<longleftrightarrow> q = pid \<or> pst s q \<noteq> PRFREE" for q
    using st(1) [of q] new(1) by (cases "q = pid") simp_all
  then have o: "owners s' = insert pid (owners s)"
    using fr(2,3) by (auto simp: owners_def NULLPROC_def)
  have pb: "pblocks s' D q = pblocks s D q" if "q \<in> owners s" for q
    using same [OF that] st(2) [of q] that pid by (cases "q \<in> D") (auto simp: pblocks_def)
  have pbn: "pblocks s' D pid = {#(a, (True, n)), stream_block f0, stream_block f1#}"
    using new pid(2) by (simp add: pblocks_def)
  have "(\<Sum>p \<in> owners s'. pblocks s' D p) = pblocks s' D pid + (\<Sum>p \<in> owners s. pblocks s D p)"
    unfolding o using pid(1) pb by simp
  then have ml: "mset ?live = U + (\<Sum>p \<in> owners s'. pblocks s' D p)"
    using K(2) pbn by (simp add: ac_simps)
  note dist = arena_distinct [OF m(2)]
  have old: "stdio img s' q" if q: "q \<in> owners s" "q \<notin> D" for q
  proof (rule stdio_kept [OF K(3) [OF q]])
    fix f assume "f \<in> {fildes (proctab s q) 0, fildes (proctab s q) 1}"
    then have b: "stream_block f \<in> set live" using kmem_blocks(2,3) [OF k q] by auto
    then have ne: "f \<noteq> f0" "f \<noteq> f1" using dist by auto
    have bm: "(f - 2, (False, 18)) \<in> set ?live" using b by (simp add: stream_block_def)
    have "arena_area a (True, n) \<inter> arena_area (f - 2) (False, 18) = {}"
      by (rule arena.uses_apart [OF m(2) _ bm]) simp_all
    then have "f - 2 \<notin> stk_area a n" "f - 1 \<notin> stk_area a n"
      using stream_block_range(1,2) [OF K(1) b] by (auto simp: arena_area_def)
    moreover note r = stream_block_range(5,7,8) [OF K(1) b]
    ultimately have "get_word (mem s') (f - 2) = get_word (mem s) (f - 2)"
      by (intro get_word_cong) (simp_all add: m(5))
    then show "files s' f = files s f \<and> get_word (mem s') (f - 2) = get_word (mem s) (f - 2)"
      using fs(1) ne by simp
  qed (simp add: same [OF q])
  have "stdio img s' pid"
    using new(3-6) m(3,4) fs by (simp add: stdio_def stream_ok_def)
  then have sd: "\<forall>q \<in> owners s' - D. stdio img s' q" using old o by auto
  have hb: "heap_start (mem s') = heap_start (mem s)" "heap_end (mem s') = heap_end (mem s)"
    using m(1) by (simp_all add: mbound_def)
  have "f0 \<noteq> a_kprint img" "f1 \<noteq> a_kprint img"
    using stream_block_range(3,4) [OF m(2), of f0] stream_block_range(3,4) [OF m(2), of f1] K(5) hb
    by (auto simp: image_ok_def)
  then have im: "image_ok img s'" using K(5) hb fs(1) by (simp add: image_ok_def)
  show ?thesis
    using m(2) ml sd im K(4) o pid(1) by (auto simp: kmem_def)
qed

text \<open>A process that has not run, as \<open>create\<close> leaves it: its process table entry, the registers
  from which \<open>ctxsw\<close> starts it (a 16-bit value is in two of them, the low byte first), the bottom
  of its stack (a 16-bit value was pushed low byte first, so that the high byte is below it) and
  its two streams.\<close>

definition reg_word :: "pentry \<Rightarrow> int \<Rightarrow> int" where
  "reg_word e i = pregs e i + 256 * pregs e (i + 1)"

definition pushed :: "memst \<Rightarrow> int \<Rightarrow> int" where
  "pushed m a = ram m a + 256 * ram m (a - 1)"

definition fresh_entry :: "image \<Rightarrow> int \<Rightarrow> int \<Rightarrow> string \<Rightarrow> int list \<Rightarrow> pentry \<Rightarrow> bool" where
  "fresh_entry img f n nam args e \<longleftrightarrow> pstklen e = n \<and> plimit e = u16 (pbase e - n + 2) \<and> psem e = 0 \<and>
     phasmsg e = 0 \<and> pnxtkin e = BADPID \<and> pdevs0 e = BADDEV \<and> pdevs1 e = BADDEV \<and>
     paddr e = f \<and> pname e = take PNMLEN nam \<and>
     pargs e = int (length args) \<and> (\<forall>i < length args. parg e (int i) = args ! i) \<and> parg e (pargs e) = 0 \<and>
     fildes e 0 \<noteq> fildes e 1 \<and> fildes e 2 = a_kprint img \<and>
     (\<forall>i. 3 \<le> i \<and> i < int NFILE \<longrightarrow> fildes e i = FDFREE)"

definition start_regs :: "image \<Rightarrow> int \<Rightarrow> int list \<Rightarrow> int \<Rightarrow> pentry \<Rightarrow> bool" where
  "start_regs img f args p e \<longleftrightarrow> reg_word e SPC_L = u16 f \<and> reg_word e SSP_L = pbase e - 5 \<and>
     reg_word e 24 = int (length args) \<and> reg_word e 22 = u16 (a_parg img p) \<and> pregs e SSREG = INITPS \<and>
     (\<forall>i. 0 \<le> i \<and> i < PNREGS \<and> i \<notin> {22..25} \<union> {SSP_L, SSP_H, SPC_L, SPC_H, SSREG} \<longrightarrow> pregs e i = INITREG)"

definition start_stack :: "image \<Rightarrow> int \<Rightarrow> int \<Rightarrow> memst \<Rightarrow> bool" where
  "start_stack img f a m \<longleftrightarrow> ram m a = MAGIC \<and> pushed m (a - 1) = u16 (a_initret img) \<and> pushed m (a - 3) = u16 f"

definition fresh :: "image \<Rightarrow> int \<Rightarrow> int \<Rightarrow> string \<Rightarrow> int list \<Rightarrow> int \<Rightarrow> kstate \<Rightarrow> bool" where
  "fresh img f n nam args p s \<longleftrightarrow> fresh_entry img f n nam args (proctab s p) \<and>
     start_regs img f args p (proctab s p) \<and> start_stack img f (pbase (proctab s p)) (mem s) \<and>
     files s (fildes (proctab s p) 0) = new_stream img CONSOLE \<and>
     files s (fildes (proctab s p) 1) = new_stream img CONSOLE"

text \<open>What \<open>create\<close> leaves alone when it makes the process \<open>p\<close>: the entries of the others, but for
  the standard slots of the running process that were free (they are aliases of the first stream
  now), the other streams, the queues, the semaphores, and the memory in use.\<close>

definition created_beside :: "kstate \<Rightarrow> kstate \<Rightarrow> int \<Rightarrow> int set \<Rightarrow> bool" where
  "created_beside s s' p F \<longleftrightarrow>
     (\<forall>q. q \<noteq> p \<and> q \<noteq> currpid s \<longrightarrow> proctab s' q = proctab s q) \<and>
     proctab s' (currpid s) = (proctab s (currpid s))\<lparr>fildes :=
       std_alias (fildes (proctab s' p) 0) (fildes (proctab s (currpid s)))\<rparr> \<and>
     (\<forall>f. f \<notin> {fildes (proctab s' p) 0, fildes (proctab s' p) 1} \<longrightarrow> files s' f = files s f) \<and>
     qtab s' = qtab s \<and> semaph s' = semaph s \<and> numproc s' = numproc s + 1 \<and>
     (\<forall>x. x \<notin> F \<longrightarrow> ram (mem s') x = ram (mem s) x)"

text \<open>The memory of the new process: its stack and its two streams.\<close>

definition own_blocks :: "pentry \<Rightarrow> block list" where
  "own_blocks e = [stream_block (fildes e 1), stream_block (fildes e 0), stack_block e]"

definition blocks_area :: "block list \<Rightarrow> int set" where
  "blocks_area bs = (\<Union>b \<in> set bs. block_area b)"

lemma created_beside_entry:
  assumes "created_beside s s' p F" "q \<noteq> p"
  shows "proctab s' q = (proctab s q)\<lparr>fildes := fildes (proctab s' q)\<rparr>" "pst s' q = pst s q"
proof -
  show *: "proctab s' q = (proctab s q)\<lparr>fildes := fildes (proctab s' q)\<rparr>"
    using assms by (cases "q = currpid s") (simp_all add: created_beside_def)
  show "pst s' q = pst s q" by (subst *) simp
qed

lemma two_bytes: "lobyte x + 256 * hibyte x = u16 x"
proof -
  have "x mod (256 * 256) = 256 * (x div 256 mod 256) + x mod 256" by (rule zmod_zmult2_eq) simp
  then show ?thesis by (simp add: lobyte_def hibyte_def u8_def u16_def)
qed

lemma init_entry_fresh:
  assumes "length args < MAXARG" "fildes e 0 \<noteq> fildes e 1" "fildes e 2 = a_kprint img"
  shows "fresh_entry img f n nam args (init_entry img f a n pri nam args pid e)"
  using assms by (simp add: fresh_entry_def init_entry_def sizeof_int_def)

lemma init_entry_regs:
  assumes "length args < MAXARG" "5 \<le> a" "a < 65536"
  shows "start_regs img f args p (init_entry img f a n pri nam args p e)"
proof -
  have n: "u16 (int (length args)) = int (length args)" "u16 (u16 (a - 5)) = a - 5"
    using assms by (simp_all add: u16_def MAXARG_def)
  show ?thesis
    by (auto simp: start_regs_def reg_word_def init_entry_def init_regs_def two_bytes n PNREGS_def SSP_L_def
        SSP_H_def SPC_L_def SPC_H_def SSREG_def)
qed

lemma init_stack_start:
  assumes "4 \<le> a" "a < 65536"
  shows "start_stack img f a (init_stack img f a m)"
proof -
  have "u16 (a - 4) = a - 4" "u16 (a - 3) = a - 3" "u16 (a - 2) = a - 2" "u16 (a - 1) = a - 1"
    using assms by simp_all
  then show ?thesis by (simp add: start_stack_def pushed_def init_stack_def two_bytes)
qed

lemma create_entry:
  fixes procaddr :: int and nam :: string and args :: "int list"
  assumes w: "kwf s L" "krun s L" and k: "kmem img s D U live F"
    and pid: "ispid pid" "pid \<noteq> NULLPROC" "pst s pid = PRFREE"
    and pr: "1 \<le> priority" "priority \<le> MAXINT" and sz: "MINSTK \<le> ssize" "ssize \<le> MAXINT"
    and st: "arena.uses m1 F1 ((a, (True, ssize)) # live)" "mbound m1 = mbound (mem s)" "F1 \<subseteq> F"
      "\<forall>x. x \<notin> F \<longrightarrow> ram m1 x = ram (mem s) x" "F1 = F - stk_area a ssize" "stk_area a ssize \<subseteq> F"
    and r: "init_streams img pid (s\<lparr>mem := m1, numproc := numproc s + 1\<rparr>) = Some s3" "length args < MAXARG"
  defines "s4 \<equiv> upd_proc pid (init_entry img procaddr a ssize priority nam args pid) s3"
  defines "s' \<equiv> s4\<lparr>mem := init_stack img procaddr a (mem s4)\<rparr>"
  shows "kwf s' L" "krun s' L" "kmem img s' D U (own_blocks (proctab s' pid) @ live) (F - blocks_area (own_blocks (proctab s' pid)))" "currpid s' = currpid s"
    "knum s D \<Longrightarrow> knum s' D" "pst s' pid = PRSUSP" "prio s' pid = priority"
    "fresh img procaddr ssize nam args pid s'" "created_beside s s' pid F"
proof -
  let ?s1 = "s\<lparr>mem := m1, numproc := numproc s + 1\<rparr>"
  have cur: "pid \<noteq> currpid ?s1" using w(2) pid(3) by (auto simp: krun_def)
  have im: "a_putc img \<noteq> 0" "a_getc img \<noteq> 0" using kmemD(5) [OF k] by (simp_all add: image_ok_def)
  have u: "arena.uses (mem ?s1) F1 ((a, (True, ssize)) # live)" using st(1) by simp
  from init_streams_cases [OF u im cur] r(1) obtain f0 f1 g m' F' where
    s3: "s3 = upd_proc pid (fildes_update (\<lambda>d. d(0 := f0, 1 := f1, 2 := a_kprint img)))
         (upd_proc (currpid s) (fildes_update g)
         (?s1\<lparr>mem := m', files := (files s)(f0 := new_stream img CONSOLE, f1 := new_stream img CONSOLE)\<rparr>))"
    and g: "\<not> std_free (fildes (proctab s (currpid s))) \<Longrightarrow> g = id"
      "g (fildes (proctab s (currpid s))) = std_alias f0 (fildes (proctab s (currpid s)))"
    and m': "arena.uses m' F' (stream_block f1 # stream_block f0 # (a, (True, ssize)) # live)"
      "get_word m' (f0 - 2) = 18" "get_word m' (f1 - 2) = 18" "mbound m' = mbound m1"
      "heap_start m1 + 2 \<le> f0" "f0 < heap_end m1" "heap_start m1 + 2 \<le> f1" "f1 < heap_end m1"
      "F' = F1 - block_area (stream_block f0) - block_area (stream_block f1)"
    and ram': "\<And>x. x \<notin> F1 \<Longrightarrow> ram m' x = ram m1 x"
    by (cases) (auto simp: st(2))
  let ?b = "s\<lparr>numproc := numproc s + 1, mem := m',
      files := (files s)(f0 := new_stream img CONSOLE, f1 := new_stream img CONSOLE)\<rparr>"
  let ?f = "init_entry img procaddr a ssize priority nam args pid \<circ>
      fildes_update (\<lambda>d. d(0 := f0, 1 := f1, 2 := a_kprint img))"
  let ?e = "init_entry img procaddr a ssize priority nam args pid
      (fildes_update (\<lambda>d. d(0 := f0, 1 := f1, 2 := a_kprint img)) (proctab s pid))"
  have s4: "s4 = upd_proc pid ?f (upd_proc (currpid s) (fildes_update g) ?b)"
    unfolding s4_def s3 by (simp add: upd_proc_comp)
  have wb: "kwf (upd_proc (currpid s) (fildes_update g) ?b) L" "krun (upd_proc (currpid s) (fildes_update g) ?b) L"
    using w unfolding kwf_fildes by simp_all
  have w4: "kwf s4 L" "krun s4 L"
    unfolding s4 by (rule kwf_new_entry [OF wb]; use pid pr cur in simp)+
  then show "kwf s' L" "krun s' L" by (simp_all add: s'_def)
  have sc: "currpid s4 = currpid s" by (simp add: s4)
  then show "currpid s' = currpid s" by (simp add: s'_def)
  have pt: "proctab s' q = (if q = pid then ?e else if q = currpid s
      then (proctab s q)\<lparr>fildes := g (fildes (proctab s q))\<rparr> else proctab s q)" for q
    using cur by (simp add: s'_def s4 fildes_upd [of g])
  then show "pst s' pid = PRSUSP" "prio s' pid = priority" by simp_all
  have ms: "mem s' = init_stack img procaddr a m'" "files s' = (files s)(f0 := new_stream img CONSOLE, f1 := new_stream img CONSOLE)"
    "numproc s' = numproc s + 1"
    by (simp_all add: s'_def s4)
  note B = arena_bounds [OF kmemD(1) [OF k]]
  have sk: "arena_fine a (True, ssize) m'" "size_ok ssize"
    using arena.uses_req [OF m'(1), of a "(True, ssize)"] by simp_all
  have mb: "mbound m' = mbound (mem s)" using m'(4) st(2) by simp
  then have hb: "heap_start m' = heap_start (mem s)" "heap_end m' = heap_end (mem s)"
    by (simp_all add: mbound_def)
  have rs: "ssize \<le> roundmb ssize" using sk(2) roundmb_props [of ssize] by (simp add: size_ok_def)
  have a: "4 \<le> a" "a < 65536" "stk_area a ssize = {a + 2 - roundmb ssize..<a + 2}"
    using sk(1) hb B rs sz(1) by (simp_all add: arena_fine_def stk_fine_def stk_area_def MINSTK_def)
  have ae: "5 \<le> a" using sk(1) hb B rs sz(1) by (simp add: arena_fine_def stk_fine_def MINSTK_def)
  have ne: "f0 \<noteq> f1" using arena_distinct [OF m'(1)] by auto
  have en: "proctab s' pid = ?e" using pt [of pid] by simp
  have fd: "fildes (proctab s' pid) 0 = f0" "fildes (proctab s' pid) 1 = f1" "pbase (proctab s' pid) = a"
    by (simp_all add: en)
  have "fresh_entry img procaddr ssize nam args (proctab s' pid)" unfolding en
    by (rule init_entry_fresh [OF r(2)]) (simp_all add: ne)
  moreover have "start_regs img procaddr args pid (proctab s' pid)" unfolding en
    by (rule init_entry_regs [OF r(2) ae a(2)])
  moreover have "start_stack img procaddr (pbase (proctab s' pid)) (mem s')"
    unfolding fd ms by (rule init_stack_start [OF a(1,2)])
  ultimately show "fresh img procaddr ssize nam args pid s'"
    by (simp add: fresh_def fd ms ne)
  have in_stk: "x \<in> stk_area a ssize" if "a - 4 \<le> x" "x \<le> a" for x
    using that rs sz(1) by (simp add: a(3) MINSTK_def)
  have rm: "ram (mem s') x = ram m' x" if "x \<notin> stk_area a ssize" for x
  proof -
    have "x < a - 4 \<or> a < x" using that in_stk [of x] by linarith
    then show ?thesis unfolding ms by (rule init_stack_ram [OF a(1,2)])
  qed
  have st4: "f0 - 2 \<notin> stk_area a ssize \<and> f0 - 1 \<notin> stk_area a ssize \<and> u16 (f0 - 2 + 1) = f0 - 1"
    "f1 - 2 \<notin> stk_area a ssize \<and> f1 - 1 \<notin> stk_area a ssize \<and> u16 (f1 - 2 + 1) = f1 - 1"
  proof -
    have "f - 2 \<notin> stk_area a ssize \<and> f - 1 \<notin> stk_area a ssize \<and> u16 (f - 2 + 1) = f - 1"
      if "f \<in> {f0, f1}" for f
    proof -
      have mem: "stream_block f \<in> set (stream_block f1 # stream_block f0 # (a, (True, ssize)) # live)"
        using that by auto
      have "arena_area a (True, ssize) \<inter> arena_area (f - 2) (False, 18) = {}"
        by (rule arena.uses_apart [OF m'(1)]) (use that in \<open>auto simp: stream_block_def\<close>)
      then show ?thesis using stream_block_range(1,2,5) [OF m'(1) mem] by (auto simp: arena_area_def)
    qed
    then show "f0 - 2 \<notin> stk_area a ssize \<and> f0 - 1 \<notin> stk_area a ssize \<and> u16 (f0 - 2 + 1) = f0 - 1"
      "f1 - 2 \<notin> stk_area a ssize \<and> f1 - 1 \<notin> stk_area a ssize \<and> u16 (f1 - 2 + 1) = f1 - 1" by blast+
  qed
  have rk: "ram (mem s') x = ram (mem s) x" if "x \<notin> F" for x
  proof -
    have "x \<notin> F1" "x \<notin> stk_area a ssize" using that st(3,6) by auto
    then show ?thesis using rm [of x] ram' [of x] st(4) that by simp
  qed
  have "qtab s' = qtab s" "semaph s' = semaph s" by (simp_all add: s'_def s4)
  moreover have "proctab s' q = proctab s q" if "q \<noteq> pid" "q \<noteq> currpid s" for q using pt [of q] that by simp
  moreover have "proctab s' (currpid s) = (proctab s (currpid s))\<lparr>fildes :=
       std_alias (fildes (proctab s' pid) 0) (fildes (proctab s (currpid s)))\<rparr>"
    unfolding fd using pt [of "currpid s"] cur g(2) by simp
  ultimately show "created_beside s s' pid F"
    using ms(3) rk by (simp add: created_beside_def fd ms(2))
  from st4 have gw: "get_word (mem s') (f0 - 2) = 18" "get_word (mem s') (f1 - 2) = 18"
    using get_word_cong [of "mem s'" "f0 - 2" m'] get_word_cong [of "mem s'" "f1 - 2" m'] m'(2,3) rm
    by simp_all
  have ns: "sflags (new_stream img CONSOLE) AND SMALLOC \<noteq> 0" by (simp add: new_stream_def SMALLOC_def)
  have "kmem img s' D U (stream_block f1 # stream_block f0 # (a, (True, ssize)) # live) F' \<and>
      owners s' = insert pid (owners s) \<and> pid \<notin> owners s"
  proof (rule kmem_new_process [OF k pid(3,1,2), where c = "currpid s" and g = g])
    show "proctab s' q = proctab s q" if "q \<noteq> pid" "q \<noteq> currpid s" for q using pt [of q] that by simp
    show "proctab s' (currpid s) = (proctab s (currpid s))\<lparr>fildes := g (fildes (proctab s (currpid s)))\<rparr>"
      using pt [of "currpid s"] cur by simp
    show "currpid s \<noteq> pid" using cur by simp
    show "ram (mem s') x = ram (mem s) x" if "x \<notin> F" "x \<notin> stk_area a ssize" for x
      using rk that by simp
    show "mbound (mem s') = mbound (mem s)" using mb by (simp add: ms)
    show "arena.uses (mem s') F' (stream_block f1 # stream_block f0 # (a, (True, ssize)) # live)"
      using m'(1) by (simp add: ms)
  qed (use g(1) pt [of pid] ms gw ns in \<open>simp_all add: stack_block_def fildes_upd [of "\<lambda>d. d(0 := f0, 1 := f1, 2 := a_kprint img)"]\<close>)
  then have o: "owners s' = insert pid (owners s)" "pid \<notin> owners s"
    and km: "kmem img s' D U (stream_block f1 # stream_block f0 # (a, (True, ssize)) # live) F'" by simp_all
  have ob: "own_blocks (proctab s' pid) = [stream_block f1, stream_block f0, (a, (True, ssize))]"
    by (simp add: own_blocks_def fd stack_block_def en)
  have "F - blocks_area (own_blocks (proctab s' pid)) = F'"
    unfolding m'(9) st(5) ob blocks_area_def by auto
  then show "kmem img s' D U (own_blocks (proctab s' pid) @ live) (F - blocks_area (own_blocks (proctab s' pid)))"
    using km by (simp add: ob)
  have "owners s' - D = insert pid (owners s - D)" using o kmemD(4) [OF k] by auto
  then show "knum s D \<Longrightarrow> knum s' D" using o(2) ms(3) by (simp add: knum_def)
qed

text \<open>The failures after the stack has been taken: it goes back.\<close>

lemma create_fail:
  assumes w: "kwf s L" "krun s L" and k: "kmem img s D U live F"
    and st: "arena.uses m1 F1 ((a, (True, n)) # live)" "mbound m1 = mbound (mem s)"
      "\<forall>x. x \<notin> F \<longrightarrow> ram m1 x = ram (mem s) x" "stk_area a n \<subseteq> F" "F1 = F - stk_area a n"
    and m: "0 \<le> m" "m < NPROC"
  obtains m2 where "freestk a n m1 = Some (OK, m2)"
    "kwf (s\<lparr>mem := m2, nextproc := m\<rparr>) L" "krun (s\<lparr>mem := m2, nextproc := m\<rparr>) L"
    "kmem img (s\<lparr>mem := m2, nextproc := m\<rparr>) D U live F" "knum (s\<lparr>mem := m2, nextproc := m\<rparr>) D = knum s D"
    "\<forall>x. x \<notin> F \<longrightarrow> ram m2 x = ram (mem s) x"
proof -
  have "(a, (True, n)) \<in> set ((a, (True, n)) # live)" by simp
  from freestk_uses [OF st(1) this] obtain m2 where m2: "freestk a n m1 = Some (OK, m2)"
    "arena.uses m2 (F1 \<union> stk_area a n) live" "mbound m2 = mbound m1" "ram m2 = ram m1" by auto
  have F: "F1 \<union> stk_area a n = F" using st(4,5) by auto
  show thesis
  proof (rule that [OF m2(1)])
    show "kmem img (s\<lparr>mem := m2, nextproc := m\<rparr>) D U live F"
      by (rule kmem_step [OF k]) (use m2 [unfolded F] st(2,3) in simp_all)
    show "kwf (s\<lparr>mem := m2, nextproc := m\<rparr>) L" "krun (s\<lparr>mem := m2, nextproc := m\<rparr>) L"
      using kwf_nextproc [OF m, of "s\<lparr>mem := m2\<rparr>" L] w by simp_all
    show "knum (s\<lparr>mem := m2, nextproc := m\<rparr>) D = knum s D" by (simp add: knum_def owners_def)
    show "\<forall>x. x \<notin> F \<longrightarrow> ram m2 x = ram (mem s) x" using m2(4) st(3) by simp
  qed
qed

text \<open>The branches of create, one equation each.\<close>

lemma create_branches:
  defines "sz n \<equiv> s16 (roundmb n)"
  shows "getstk (u16 (sz n)) (mem s) = Some (SYSPTR, m) \<Longrightarrow>
      create img f n pri nam args s = Some (SYSERR, s\<lparr>mem := m\<rparr>)"
    and "getstk (u16 (sz n)) (mem s) = Some (a, m1) \<Longrightarrow> a \<noteq> SYSPTR \<Longrightarrow> sz n < MINSTK \<Longrightarrow>
      create img f n pri nam args s =
        do { (_, m2) \<leftarrow> freestk a (u16 (sz n)) m1; Some (SYSERR, s\<lparr>mem := m2, nextproc := nextproc s\<rparr>) }"
    and "getstk (u16 (sz n)) (mem s) = Some (a, m1) \<Longrightarrow> a \<noteq> SYSPTR \<Longrightarrow> \<not> sz n < MINSTK \<Longrightarrow>
      newpid (s\<lparr>mem := m1\<rparr>) = (p, s\<lparr>mem := m1, nextproc := k\<rparr>) \<Longrightarrow> p = SYSERR \<or> pri < 1 \<Longrightarrow>
      create img f n pri nam args s =
        do { (_, m2) \<leftarrow> freestk a (u16 (sz n)) m1; Some (SYSERR, s\<lparr>mem := m2, nextproc := k\<rparr>) }"
    and "getstk (u16 (sz n)) (mem s) = Some (a, m1) \<Longrightarrow> a \<noteq> SYSPTR \<Longrightarrow> \<not> sz n < MINSTK \<Longrightarrow>
      newpid (s\<lparr>mem := m1\<rparr>) = (p, s\<lparr>mem := m1, nextproc := k\<rparr>) \<Longrightarrow> p \<noteq> SYSERR \<Longrightarrow> \<not> pri < 1 \<Longrightarrow>
      create img f n pri nam args s = do {
        np \<leftarrow> add16 (numproc s) 1;
        s3 \<leftarrow> init_streams img p (s\<lparr>nextproc := k, mem := m1, numproc := np\<rparr>);
        if length args \<ge> MAXARG then None
        else let s4 = upd_proc p (init_entry img f a (sz n) pri nam args p) s3
             in Some (p, s4\<lparr>mem := init_stack img f a (mem s4)\<rparr>)
      }"
proof -
  have c: "t\<lparr>mem := x, nextproc := y\<rparr> = t\<lparr>nextproc := y, mem := x\<rparr>" for t :: kstate and x y by simp
  show "getstk (u16 (sz n)) (mem s) = Some (SYSPTR, m) \<Longrightarrow>
      create img f n pri nam args s = Some (SYSERR, s\<lparr>mem := m\<rparr>)"
    unfolding sz_def by (simp add: create_def)
  assume g: "getstk (u16 (sz n)) (mem s) = Some (a, m1)" "a \<noteq> SYSPTR"
  then show "sz n < MINSTK \<Longrightarrow> create img f n pri nam args s =
        do { (_, m2) \<leftarrow> freestk a (u16 (sz n)) m1; Some (SYSERR, s\<lparr>mem := m2, nextproc := nextproc s\<rparr>) }"
    unfolding sz_def by (simp add: create_def)
  assume p: "\<not> sz n < MINSTK" "newpid (s\<lparr>mem := m1\<rparr>) = (p, s\<lparr>mem := m1, nextproc := k\<rparr>)"
  then show "p = SYSERR \<or> pri < 1 \<Longrightarrow> create img f n pri nam args s =
        do { (_, m2) \<leftarrow> freestk a (u16 (sz n)) m1; Some (SYSERR, s\<lparr>mem := m2, nextproc := k\<rparr>) }"
    using g unfolding sz_def by (simp add: create_def c)
  show "p \<noteq> SYSERR \<Longrightarrow> \<not> pri < 1 \<Longrightarrow> create img f n pri nam args s = do {
        np \<leftarrow> add16 (numproc s) 1;
        s3 \<leftarrow> init_streams img p (s\<lparr>nextproc := k, mem := m1, numproc := np\<rparr>);
        if length args \<ge> MAXARG then None
        else let s4 = upd_proc p (init_entry img f a (sz n) pri nam args p) s3
             in Some (p, s4\<lparr>mem := init_stack img f a (mem s4)\<rparr>)
      }"
    using g p unfolding sz_def by (simp add: create_def c)
qed

text \<open>create as a whole: it has no value, it fails and changes nothing but the slot at which
  the next search begins, or it makes a suspended process.\<close>

lemma create_with_pid:
  fixes f :: int and nam :: string and args :: "int list"
  assumes w: "kwf s L" "krun s L" and k: "kmem img s D U live F" and pr: "1 \<le> pri" "pri \<le> MAXINT"
    and st: "arena.uses m1 F1 ((a, (True, n)) # live)" "mbound m1 = mbound (mem s)" "F1 \<subseteq> F"
      "\<forall>x. x \<notin> F \<longrightarrow> ram m1 x = ram (mem s) x" "F1 = F - stk_area a n" "stk_area a n \<subseteq> F" and n: "MINSTK \<le> n" "n \<le> MAXINT"
    and pid: "ispid pid" "pid \<noteq> NULLPROC" "pst s pid = PRFREE" and nx: "0 \<le> nx" "nx < NPROC"
    and s3: "init_streams img pid (s\<lparr>nextproc := nx, mem := m1, numproc := numproc s + 1\<rparr>) = Some s3"
      "length args < MAXARG"
  defines "s4 \<equiv> upd_proc pid (init_entry img f a n pri nam args pid) s3"
  defines "s' \<equiv> s4\<lparr>mem := init_stack img f a (mem s4)\<rparr>"
  shows "kwf s' L" "krun s' L" "kmem img s' D U (own_blocks (proctab s' pid) @ live) (F - blocks_area (own_blocks (proctab s' pid)))" "currpid s' = currpid s"
    "knum s D \<Longrightarrow> knum s' D" "pst s' pid = PRSUSP" "prio s' pid = pri" "fresh img f n nam args pid s'"
    "created_beside s s' pid F"
proof -
  let ?s = "s\<lparr>nextproc := nx\<rparr>"
  have w2: "kwf ?s L" "krun ?s L" using kwf_nextproc [OF nx] w by simp_all
  have k2: "kmem img ?s D U live F" by (rule kmem_step [OF k]) (use kmemD(1) [OF k] in simp_all)
  have e: "mbound m1 = mbound (mem ?s)" "\<forall>x. x \<notin> F \<longrightarrow> ram m1 x = ram (mem ?s) x" "pst ?s pid = PRFREE"
    using st(2,4) pid(3) by simp_all
  have s3': "init_streams img pid (?s\<lparr>mem := m1, numproc := numproc ?s + 1\<rparr>) = Some s3"
    using s3(1) by simp
  note c = create_entry [OF w2 k2 pid(1,2) e(3) pr n st(1) e(1) st(3) e(2) st(5,6) s3' s3(2),
      where procaddr = f and nam = nam, folded s4_def, folded s'_def]
  have "knum ?s D = knum s D" by (simp add: knum_def owners_def)
  then show "kwf s' L" "krun s' L" "kmem img s' D U (own_blocks (proctab s' pid) @ live) (F - blocks_area (own_blocks (proctab s' pid)))" "currpid s' = currpid s"
    "knum s D \<Longrightarrow> knum s' D" "pst s' pid = PRSUSP" "prio s' pid = pri" "fresh img f n nam args pid s'"
    using c(1-8) by simp_all
  show "created_beside s s' pid F" using c(9) by (simp add: created_beside_def)
qed

text \<open>What \<open>create\<close> needs: memory for the stack, a free process table entry, a priority, memory
  for the streams, no more arguments than \<open>parg\<close> has room for.\<close>

definition create_refused :: "int \<Rightarrow> int \<Rightarrow> kstate \<Rightarrow> bool" where
  "create_refused n pri s \<longleftrightarrow> s16 (roundmb n) < MINSTK \<or> pri < 1 \<or> (\<forall>p. ispid p \<longrightarrow> pst s p \<noteq> PRFREE) \<or>
     (\<exists>m. getstk (u16 (s16 (roundmb n))) (mem s) = Some (SYSPTR, m))"

definition create_undefined :: "int \<Rightarrow> int list \<Rightarrow> kstate \<Rightarrow> bool" where
  "create_undefined n args s \<longleftrightarrow> MAXARG \<le> length args \<or>
     (\<exists>a m. getstk (u16 (s16 (roundmb n))) (mem s) = Some (a, m) \<and> \<not> stream_room m)"

text \<open>The branch in which a process table entry is filled in.\<close>

lemma create_enter:
  assumes w: "kwf s L" "krun s L" and k: "kmem img s D U live F" "knum s D" and pr: "pri \<le> MAXINT"
    and yes: "getstk (u16 (s16 (roundmb n))) (mem s) = Some (a, m1)" "a \<noteq> SYSPTR"
      "arena.uses m1 F1 ((a, (True, u16 (s16 (roundmb n)))) # live)" "F1 \<subseteq> F" "mbound m1 = mbound (mem s)"
      "size_ok (u16 (s16 (roundmb n)))" "\<forall>x. x \<notin> F \<longrightarrow> ram m1 x = ram (mem s) x"
      "stk_area a (u16 (s16 (roundmb n))) \<subseteq> F" "F1 = F - stk_area a (u16 (s16 (roundmb n)))"
    and big: "\<not> s16 (roundmb n) < MINSTK"
    and some: "0 \<le> m" "m < NPROC" "newpid (s\<lparr>mem := m1\<rparr>) = (p, s\<lparr>mem := m1\<rparr>\<lparr>nextproc := m\<rparr>)" "ispid p"
    and fr: "pst s p = PRFREE" and p: "p \<noteq> NULLPROC" "p \<noteq> SYSERR" and pri: "\<not> pri < 1"
  obtains (none) "create img f n pri nam args s = None" "create_undefined n args s"
    | (new) s' where "create img f n pri nam args s = Some (p, s')"
      "\<not> isbadpid p" "pst s p = PRFREE" "kwf s' L" "krun s' L"
      "kmem img s' D U (own_blocks (proctab s' p) @ live) (F - blocks_area (own_blocks (proctab s' p)))" "knum s' D"
      "currpid s' = currpid s" "pst s' p = PRSUSP" "prio s' p = pri" "fresh img f (s16 (roundmb n)) nam args p s'"
      "created_beside s s' p F"
      "1 \<le> pri" "MINSTK \<le> s16 (roundmb n)"
proof -
  let ?n = "s16 (roundmb n)"
  let ?s = "s\<lparr>nextproc := m, mem := m1, numproc := numproc s + 1\<rparr>"
  have np: "add16 (numproc s) 1 = Some (numproc s + 1)"
    using card_owners [of s D] k(2) by (simp add: knum_def NPROC_def MININT_def MAXINT_def)
  have eq: "create img f n pri nam args s = do {
        s3 \<leftarrow> init_streams img p ?s;
        if length args \<ge> MAXARG then None
        else let s4 = upd_proc p (init_entry img f a ?n pri nam args p) s3
             in Some (p, s4\<lparr>mem := init_stack img f a (mem s4)\<rparr>)
      }"
    using create_branches(4) [OF yes(1,2) big _ p(2) pri, of m] some(3) by (simp add: np)
  have u: "u16 ?n = ?n" "?n \<le> MAXINT"
    using big s16_range [of "roundmb n"] by (simp_all add: MINSTK_def MAXINT_def)
  have run: "p \<noteq> currpid ?s" using kwf_running(2) [OF w] fr by auto
  have img: "a_putc img \<noteq> 0" "a_getc img \<noteq> 0" using kmemD(5) [OF k(1)] by (simp_all add: image_ok_def)
  have us: "arena.uses (mem ?s) F1 ((a, (True, u16 ?n)) # live)" using yes(3) by simp
  show thesis
  proof (cases "init_streams img p ?s")
    case None
    have "\<not> stream_room m1" by (rule init_streams_cases [OF us img run]) (use None in simp_all)
    then show thesis using None yes(1) by (intro that(1)) (auto simp: eq create_undefined_def)
  next
    case s3: (Some s3)
    show thesis
    proof (cases "length args \<ge> MAXARG")
      case True
      then show thesis by (intro that(1)) (simp_all add: eq s3 create_undefined_def)
    next
      case False
      then have cr: "create img f n pri nam args s =
          (let s4 = upd_proc p (init_entry img f a ?n pri nam args p) s3
           in Some (p, s4\<lparr>mem := init_stack img f a (mem s4)\<rparr>))"
        using eq s3 by simp
      have nb: "\<not> isbadpid p" using some(4) p by (simp add: isbadpid_def NULLPROC_def)
      have pr': "1 \<le> pri" "MINSTK \<le> ?n" "length args < MAXARG" using pri big False by simp_all
      note c = create_with_pid [OF w k(1) pr'(1) pr yes(3) [unfolded u(1)] yes(5,4,7)
        yes(9,8) [unfolded u(1)] pr'(2) u(2) some(4) p(1) fr some(1,2) s3 pr'(3),
        where f = f and nam = nam]
      show thesis
        by (rule new [OF cr [unfolded Let_def] nb fr c(1-3) c(5) [OF k(2)] c(4,6-9) pr'(1,2)])
    qed
  qed
qed

lemma create_cases:
  assumes w: "kwf s L" "krun s L" and k: "kmem img s D U live F" "knum s D" and pr: "pri \<le> MAXINT"
  obtains (none) "create img f n pri nam args s = None" "\<not> create_refused n pri s" "create_undefined n args s"
    | (err) m j where "create img f n pri nam args s = Some (SYSERR, s\<lparr>mem := m, nextproc := j\<rparr>)"
      "kwf (s\<lparr>mem := m, nextproc := j\<rparr>) L" "krun (s\<lparr>mem := m, nextproc := j\<rparr>) L"
      "kmem img (s\<lparr>mem := m, nextproc := j\<rparr>) D U live F" "knum (s\<lparr>mem := m, nextproc := j\<rparr>) D"
      "\<forall>x. x \<notin> F \<longrightarrow> ram m x = ram (mem s) x" "create_refused n pri s"
    | (new) pid s' where "create img f n pri nam args s = Some (pid, s')"
      "\<not> isbadpid pid" "pst s pid = PRFREE" "kwf s' L" "krun s' L"
      "kmem img s' D U (own_blocks (proctab s' pid) @ live) (F - blocks_area (own_blocks (proctab s' pid)))" "knum s' D"
      "currpid s' = currpid s" "pst s' pid = PRSUSP" "prio s' pid = pri"
      "fresh img f (s16 (roundmb n)) nam args pid s'" "created_beside s s' pid F"
      "1 \<le> pri" "MINSTK \<le> s16 (roundmb n)" "\<not> create_refused n pri s"
proof -
  let ?n = "s16 (roundmb n)"
  note K = kmemD [OF k(1)]
  have P: "kprocs s" by (rule kqD(3) [OF kwfD(1) [OF w(1)]])
  have nx: "0 \<le> nextproc s" "nextproc s < NPROC" using P by (simp_all add: kprocs_def)
  from K(1) show thesis
  proof (cases rule: getstk_cases [where n = n])
    case no
    have "create_refused n pri s" using no by (auto simp: create_refused_def)
    then show thesis
      using err [where m = "mem s" and j = "nextproc s"] create_branches(1) [OF no] w k by simp
  next
    case (yes a m1 F1)
    note fail = create_fail [OF w k(1) yes(3,5,7,8,9)]
    have give_back: "thesis" if "create_refused n pri s" "0 \<le> j" "j < NPROC"
      "create img f n pri nam args s = do { (_, m2) \<leftarrow> freestk a (u16 ?n) m1; Some (SYSERR, s\<lparr>mem := m2, nextproc := j\<rparr>) }"
      for j
    proof -
      note j = that
      obtain m2 where m2: "freestk a (u16 ?n) m1 = Some (OK, m2)"
        "kwf (s\<lparr>mem := m2, nextproc := j\<rparr>) L" "krun (s\<lparr>mem := m2, nextproc := j\<rparr>) L"
        "kmem img (s\<lparr>mem := m2, nextproc := j\<rparr>) D U live F"
        "knum (s\<lparr>mem := m2, nextproc := j\<rparr>) D = knum s D" "\<forall>x. x \<notin> F \<longrightarrow> ram m2 x = ram (mem s) x"
        by (rule fail [OF j(2,3)])
      have "create img f n pri nam args s = Some (SYSERR, s\<lparr>mem := m2, nextproc := j\<rparr>)"
        using j(4) m2(1) by simp
      then show thesis using m2(2-6) j(1) k(2) by (intro err [where m = m2 and j = j]) simp_all
    qed
    show thesis
    proof (cases "?n < MINSTK")
      case True
      then show thesis using give_back [OF _ nx create_branches(2) [OF yes(1,2) True]] by (simp add: create_refused_def)
    next
      case big: False
      have nx1: "0 \<le> nextproc (s\<lparr>mem := m1\<rparr>)" "nextproc (s\<lparr>mem := m1\<rparr>) < NPROC" using nx by simp_all
      from nx1 show thesis
      proof (cases rule: newpid_cases)
        case (none m)
        have "create_refused n pri s" using none(4) by (auto simp: create_refused_def)
        then show thesis by (rule give_back [OF _ none(1,2) create_branches(3) [OF yes(1,2) big none(3)]]) simp
      next
        case (some m p)
        then have fr: "pst s p = PRFREE" by simp
        have p: "p \<noteq> NULLPROC" "p \<noteq> SYSERR" using some(4) fr P by (auto simp: kprocs_def SYSERR_def)
        show thesis
        proof (cases "pri < 1")
          case True
          then have "create_refused n pri s" by (simp add: create_refused_def)
          then show thesis
            by (rule give_back [OF _ some(1,2) create_branches(3) [OF yes(1,2) big some(3)]]) (simp add: True)
        next
          case False
          have nr: "\<not> create_refused n pri s" using False big yes(1,2) some(4) fr by (auto simp: create_refused_def)
          show thesis
            by (rule create_enter [OF w k pr yes big some(1,2,3) some(4) fr p False])
              (use that(1,3) nr in blast)+
        qed
      qed
    qed
  qed
qed

end
