(* ===== verification/Kill.thy ===== *)
theory Kill
  imports ProcMem
begin

text \<open>
  \<open>kill\<close>: the streams of the process are closed, its next of kin is told, its stack goes
  back to the free memory and its process table entry becomes free, from whatever state the
  process is in. Between the message to the next of kin and the rest another process may run;
  until then the process belongs to the set \<open>D\<close> of those that are being killed.
\<close>

section \<open>Closing the streams\<close>

text \<open>What the loop does to the descriptors of the running process.\<close>

definition drop_std :: "int \<Rightarrow> (int \<Rightarrow> int) \<Rightarrow> int \<Rightarrow> int" where
  "drop_std f d = (\<lambda>i. if i \<in> {0, 1, 2} \<and> d i = f then FDFREE else d i)"

lemma drop_aliases:
  "drop_alias 2 f (drop_alias 1 f (drop_alias 0 f s)) =
     upd_proc (currpid s) (fildes_update (drop_std f)) s"
proof -
  have a: "drop_alias i f t = upd_proc (currpid t)
      (fildes_update (\<lambda>d j. if j = i \<and> d j = f then FDFREE else d j)) t" for i t
  proof (cases "fildes (proctab t (currpid t)) i = f")
    case True
    have "(\<lambda>d. d(i := FDFREE)) (fildes (proctab t (currpid t))) =
        (\<lambda>j. if j = i \<and> fildes (proctab t (currpid t)) j = f then FDFREE else fildes (proctab t (currpid t)) j)"
      using True by auto
    then show ?thesis
      using True by (simp add: drop_alias_def set_fildes_def upd_proc_def
          fildes_upd [of "\<lambda>d. d(i := FDFREE)"]
          fildes_upd [of "\<lambda>d j. if j = i \<and> d j = f then FDFREE else d j"])
  next
    case False
    then have "(\<lambda>j. if j = i \<and> fildes (proctab t (currpid t)) j = f then FDFREE else fildes (proctab t (currpid t)) j) =
        fildes (proctab t (currpid t))" by auto
    then show ?thesis
      using False by (simp add: drop_alias_def upd_proc_def
          fildes_upd [of "\<lambda>d j. if j = i \<and> d j = f then FDFREE else d j"])
  qed
  have "(\<lambda>d j. if j = 2 \<and> d j = f then FDFREE else d j) \<circ> (\<lambda>d j. if j = 1 \<and> d j = f then FDFREE else d j) \<circ>
      (\<lambda>d j. if j = 0 \<and> d j = f then FDFREE else d j) = drop_std f"
    by (auto simp: fun_eq_iff drop_std_def)
  then have c: "fildes_update (\<lambda>d j. if j = 2 \<and> d j = f then FDFREE else d j) \<circ>
      fildes_update (\<lambda>d j. if j = 1 \<and> d j = f then FDFREE else d j) \<circ>
      fildes_update (\<lambda>d j. if j = 0 \<and> d j = f then FDFREE else d j) = fildes_update (drop_std f)"
    by (simp add: fun_eq_iff comp_def)
  show ?thesis
    by (simp add: a upd_proc_comp flip: c) (simp add: o_assoc)
qed

lemma close_dev_id [simp]: "snd (close_dev d s) = s" "(if b then snd (close_dev d s) else s) = s"
  by (simp_all add: close_dev_def ionull_def)

lemma fclose_stream:
  assumes "arena.uses (mem s) F live" "stream_block f \<in> set live" "stream_ok s f"
  obtains m' where
    "fclose f s = Some (OK, upd_proc (currpid s) (fildes_update (drop_std f)) (s\<lparr>mem := m'\<rparr>))"
    "arena.uses m' (F \<union> block_area (stream_block f)) (remove1 (stream_block f) live)"
    "ram m' = ram (mem s)" "mbound m' = mbound (mem s)"
proof -
  have b: "(f - 2, (False, 18)) \<in> set live" "get_word (mem s) (f - 2) = 18"
    using assms(2,3) by (simp_all add: stream_block_def stream_ok_def)
  obtain m' where m': "wrap_free f (mem s) = Some m'"
    "arena.uses m' (F \<union> heap_area (f - 2) 18) (remove1 (f - 2, (False, 18)) live)" "ram m' = ram (mem s)" "mbound m' = mbound (mem s)"
    by (rule free_uses [OF assms(1) b])
  show thesis
  proof (rule that [OF _ _ m'(3,4)])
    show "fclose f s = Some (OK, upd_proc (currpid s) (fildes_update (drop_std f)) (s\<lparr>mem := m'\<rparr>))"
      using assms(3) m'(1)
      by (simp add: fclose_def drop_aliases stream_ok_def close_dev_def ionull_def Let_def upd_proc_def)
    show "arena.uses m' (F \<union> block_area (stream_block f)) (remove1 (stream_block f) live)"
      using m'(2) by (simp add: stream_block_def)
  qed
qed

lemma drop_std_other:
  "d 0 \<noteq> f \<Longrightarrow> d 1 \<noteq> f \<Longrightarrow> d 2 \<noteq> f \<Longrightarrow> drop_std f d = d"
  by (auto simp: drop_std_def fun_eq_iff)

text \<open>The streams of a process: two different ones, neither the console's.\<close>

lemma kmem_streams:
  assumes k: "kmem img s D U live F" and p: "p \<in> owners s" "p \<notin> D"
  defines "f0 \<equiv> fildes (proctab s p) 0" and "f1 \<equiv> fildes (proctab s p) 1"
  shows "f0 \<noteq> f1" "f0 \<noteq> FDFREE" "f1 \<noteq> FDFREE" "a_kprint img \<noteq> f0" "a_kprint img \<noteq> f1"
    "stream_block f0 \<in> set live" "stream_block f1 \<in> set live" "stream_ok s f0" "stream_ok s f1"
    "fildes (proctab s p) 2 = a_kprint img" "fildes (proctab s p) 3 = FDFREE"
proof -
  note K = kmemD [OF k]
  note B = kmem_blocks(2,3) [OF k p, folded f0_def f1_def]
  show "stream_block f0 \<in> set live" "stream_block f1 \<in> set live" by (rule B)+
  show "f0 \<noteq> FDFREE" "f1 \<noteq> FDFREE" by (rule stream_block_range(6) [OF K(1)], rule B)+
  show "a_kprint img \<noteq> f0" "a_kprint img \<noteq> f1"
    using stream_block_range(3,4) [OF K(1) B(1)] stream_block_range(3,4) [OF K(1) B(2)] K(5)
    by (auto simp: image_ok_def)
  show "fildes (proctab s p) 2 = a_kprint img" "fildes (proctab s p) 3 = FDFREE"
    "stream_ok s f0" "stream_ok s f1"
    using K(3) [OF p] by (simp_all add: stdio_def f0_def f1_def)
  have "pblocks s D p \<subseteq># mset live"
    unfolding K(2) sum.remove [OF finite_owners p(1)] by (simp add: subset_mset.add_increasing)
  then have "count (pblocks s D p) (stream_block f0) \<le> count (mset live) (stream_block f0)"
    by (rule mset_subset_eq_count)
  also have "\<dots> \<le> 1"
    using arena_distinct [OF K(1)] distinct_count_atmost_1 by (metis order_refl zero_le_one)
  finally show "f0 \<noteq> f1" using p(2) by (auto simp: pblocks_def f0_def f1_def)
qed

lemma close_streams_step:
  "fildes (proctab s p) i = f \<Longrightarrow> f \<noteq> FDFREE \<Longrightarrow> fclose f s = Some (v, s1) \<Longrightarrow>
     close_streams (Suc n) p i s = close_streams n p (i + 1) s1"
  "fildes (proctab s p) i = FDFREE \<Longrightarrow> close_streams (Suc n) p i s = Some s"
  by (simp_all add: Let_def)

text \<open>The two streams of a process that is not yet being killed; the third slot is the
  console's, which is not allocated, and the fourth is free and ends the loop.\<close>

lemma close_streams_process:
  assumes k: "kmem img s D U live F" and p: "p \<in> owners s" "p \<notin> D"
  defines "f0 \<equiv> fildes (proctab s p) 0" and "f1 \<equiv> fildes (proctab s p) 1"
  obtains m' where
    "close_streams NFILE p 0 s = Some (upd_proc (currpid s)
       (fildes_update (drop_std f1 \<circ> drop_std f0)) (s\<lparr>mem := m'\<rparr>))"
    "arena.uses m' (F \<union> block_area (stream_block f0) \<union> block_area (stream_block f1))
       (remove1 (stream_block f1) (remove1 (stream_block f0) live))"
    "ram m' = ram (mem s)" "mbound m' = mbound (mem s)"
proof -
  note K = kmemD [OF k]
  note S = kmem_streams [OF k p, folded f0_def f1_def]
  have kp: "a_kprint img \<noteq> FDFREE" "sflags (files s (a_kprint img)) AND SMALLOC = 0"
    using K(5) by (simp_all add: image_ok_def)
  have dr: "(drop_std f0 (fildes (proctab s p))) 1 = f1"
    "drop_std f1 (drop_std f0 (fildes (proctab s p))) 2 = a_kprint img"
    "drop_std f1 (drop_std f0 (fildes (proctab s p))) 3 = FDFREE"
    using S by (auto simp: drop_std_def f0_def [symmetric] f1_def [symmetric])
  obtain m1 where c0: "fclose f0 s = Some (OK, upd_proc (currpid s) (fildes_update (drop_std f0)) (s\<lparr>mem := m1\<rparr>))"
    and m1: "arena.uses m1 (F \<union> block_area (stream_block f0)) (remove1 (stream_block f0) live)" "ram m1 = ram (mem s)" "mbound m1 = mbound (mem s)"
    by (rule fclose_stream [OF K(1) S(6,8)])
  let ?s1 = "upd_proc (currpid s) (fildes_update (drop_std f0)) (s\<lparr>mem := m1\<rparr>)"
  have u1: "arena.uses (mem ?s1) (F \<union> block_area (stream_block f0)) (remove1 (stream_block f0) live)" using m1(1) by simp
  have b1: "stream_block f1 \<in> set (remove1 (stream_block f0) live)"
    using S(1,7) arena_distinct [OF K(1)] by (simp add: stream_block_def)
  have o1: "stream_ok ?s1 f1" using S(9) m1(2) by (simp add: stream_ok_def get_word_def)
  obtain m2 where c1: "fclose f1 ?s1 = Some (OK, upd_proc (currpid ?s1) (fildes_update (drop_std f1)) (?s1\<lparr>mem := m2\<rparr>))"
    and m2: "arena.uses m2 (F \<union> block_area (stream_block f0) \<union> block_area (stream_block f1))
        (remove1 (stream_block f1) (remove1 (stream_block f0) live))"
      "ram m2 = ram (mem ?s1)" "mbound m2 = mbound (mem ?s1)"
    by (rule fclose_stream [OF u1 b1 o1])
  let ?s2 = "upd_proc (currpid s) (fildes_update (drop_std f1 \<circ> drop_std f0)) (s\<lparr>mem := m2\<rparr>)"
  have s2: "upd_proc (currpid ?s1) (fildes_update (drop_std f1)) (?s1\<lparr>mem := m2\<rparr>) = ?s2"
    by (simp add: upd_proc_def)
  have f1': "fildes (proctab ?s1 p) 1 = f1" using dr(1) by (cases "p = currpid s") (auto simp: f1_def)
  have f2': "fildes (proctab ?s2 p) 2 = a_kprint img" "fildes (proctab ?s2 p) 3 = FDFREE"
    using dr(2,3) S(10,11) by (cases "p = currpid s"; simp)+
  have c2: "fclose (a_kprint img) ?s2 = Some (OK, ?s2)" using kp(2) by (simp add: fclose_def)
  have f0': "fildes (proctab s p) 0 = f0" by (simp add: f0_def)
  note c1' = c1 [unfolded s2]
  have n: "NFILE = Suc (Suc (Suc (Suc 16)))" by (simp add: NFILE_def)
  have "close_streams NFILE p 0 s = close_streams (Suc (Suc (Suc 16))) p 1 ?s1"
    unfolding n close_streams_step(1) [OF f0' S(2) c0] by (simp only: add_0)
  also have "\<dots> = close_streams (Suc (Suc 16)) p 2 ?s2"
    unfolding close_streams_step(1) [OF f1' S(3) c1'] by (simp only: one_add_one)
  also have "\<dots> = close_streams (Suc 16) p (2 + 1) ?s2"
    by (rule close_streams_step(1) [OF f2'(1) kp(1) c2])
  also have "\<dots> = Some ?s2"
    by (rule close_streams_step(2)) (use f2'(2) in simp)
  finally have "close_streams NFILE p 0 s = Some ?s2" .
  then show thesis by (rule that [OF _ m2(1)]) (use m1 m2 in simp_all)
qed

section \<open>The process begins to die\<close>

text \<open>After its streams are closed the process counts no more, and owns only its stack.\<close>

lemma mset_remove_two:
  "mset xs = A + ({#b#} + {#c, d#}) \<Longrightarrow> mset (remove1 d (remove1 c xs)) = A + {#b#}"
  by (simp add: ac_simps)

lemma kmem_streams_apart:
  assumes "kmem img s D U live F" "q \<in> owners s" "p \<in> owners s" "q \<notin> D" "q \<noteq> p" "p \<notin> D"
    and "f \<in> {fildes (proctab s q) 0, fildes (proctab s q) 1}"
      "f' \<in> {fildes (proctab s p) 0, fildes (proctab s p) 1}"
  shows "f \<noteq> f'"
proof
  assume e: "f = f'"
  note K = kmemD [OF assms(1)]
  let ?b = "stream_block f"
  have "pblocks s D q + pblocks s D p \<subseteq># mset live"
    unfolding K(2) sum.remove [OF finite_owners assms(2)]
    using sum.remove [of "owners s - {q}" p "pblocks s D"] assms(3,5)
    by (simp add: subset_mset.add_increasing add.assoc [symmetric])
  then have "count (pblocks s D q + pblocks s D p) ?b \<le> count (mset live) ?b"
    by (rule mset_subset_eq_count)
  also have "\<dots> \<le> 1"
    using arena_distinct [OF K(1)] distinct_count_atmost_1 by (metis order_refl zero_le_one)
  finally have "count (pblocks s D q) ?b + count (pblocks s D p) ?b \<le> 1" by simp
  moreover have "?b \<in># pblocks s D q" "?b \<in># pblocks s D p"
    using assms(4,6-8) e by (auto simp: pblocks_def)
  then have "0 < count (pblocks s D q) ?b" "0 < count (pblocks s D p) ?b" by simp_all
  ultimately show False by linarith
qed

lemma kmem_dying:
  assumes k: "kmem img s D U live F" and p: "p \<in> owners s" "p \<notin> D"
  defines "f0 \<equiv> fildes (proctab s p) 0" and "f1 \<equiv> fildes (proctab s p) 1"
  obtains s' m' where "close_streams NFILE p 0 s = Some s'"
    "s' = upd_proc (currpid s) (fildes_update (drop_std f1 \<circ> drop_std f0)) (s\<lparr>mem := m'\<rparr>)"
    "kmem img s' (insert p D) U (remove1 (stream_block f1) (remove1 (stream_block f0) live))
       (F \<union> block_area (stream_block f0) \<union> block_area (stream_block f1))"
proof -
  let ?f0 = "fildes (proctab s p) 0" and ?f1 = "fildes (proctab s p) 1" and ?c = "currpid s"
  note K = kmemD [OF k] and S = kmem_streams [OF k p]
  let ?F = "F \<union> block_area (stream_block ?f0) \<union> block_area (stream_block ?f1)"
  obtain m' where c: "close_streams NFILE p 0 s = Some (upd_proc ?c
       (fildes_update (drop_std ?f1 \<circ> drop_std ?f0)) (s\<lparr>mem := m'\<rparr>))" (is "_ = Some ?s")
    and m': "arena.uses m' ?F (remove1 (stream_block ?f1) (remove1 (stream_block ?f0) live))"
      "ram m' = ram (mem s)" "mbound m' = mbound (mem s)"
    by (rule close_streams_process [OF k p])
  let ?live = "remove1 (stream_block ?f1) (remove1 (stream_block ?f0) live)"
  have same: "proctab ?s q = proctab s q" if q: "q \<in> owners s" "q \<notin> insert p D" for q
  proof (cases "q = ?c")
    case True
    note T = kmem_streams [OF k q(1)]
    have nq: "q \<notin> D" "q \<noteq> p" using q(2) by auto
    have ap: "f \<noteq> f'" if "f \<in> {fildes (proctab s q) 0, fildes (proctab s q) 1}" "f' \<in> {?f0, ?f1}" for f f'
      by (rule kmem_streams_apart [OF k q(1) p(1) nq p(2) that])
    have "drop_std f (fildes (proctab s q)) = fildes (proctab s q)" if f: "f \<in> {?f0, ?f1}" for f
    proof (rule drop_std_other)
      show "fildes (proctab s q) 0 \<noteq> f" by (rule ap [OF _ f]) simp
      show "fildes (proctab s q) 1 \<noteq> f" by (rule ap [OF _ f]) simp
      show "fildes (proctab s q) 2 \<noteq> f" using T(10) [OF nq(1)] S(4,5) f by auto
    qed
    then have "(drop_std ?f1 \<circ> drop_std ?f0) (fildes (proctab s q)) = fildes (proctab s q)" by simp
    then show ?thesis using fildes_upd_same True by simp
  qed simp
  have o: "owners ?s = owners s"
    by (auto simp: owners_def)
  have pb: "pblocks ?s (insert p D) q = pblocks s D q" if "q \<in> owners s" "q \<noteq> p" for q
  proof (cases "q \<in> D")
    case True
    then show ?thesis by (simp add: pblocks_def stack_block_def)
  next
    case False
    have "proctab ?s q = proctab s q" by (rule same [OF that(1)]) (use False that in simp)
    then show ?thesis unfolding pblocks_def using False that(2) by (simp only: insert_iff simp_thms if_False)
  qed
  have pbp: "pblocks ?s (insert p D) p = {#stack_block (proctab s p)#}"
    by (simp add: pblocks_def stack_block_def)
  have "mset live = U + (\<Sum>q \<in> owners s - {p}. pblocks s D q) + ({#stack_block (proctab s p)#} +
      {#stream_block ?f0, stream_block ?f1#})"
    unfolding K(2) sum.remove [OF finite_owners p(1)] using p(2) by (simp add: pblocks_def ac_simps)
  from mset_remove_two [OF this] have "mset ?live =
      U + (\<Sum>q \<in> owners s - {p}. pblocks s D q) + {#stack_block (proctab s p)#}" .
  also have "(\<Sum>q \<in> owners s - {p}. pblocks s D q) = (\<Sum>q \<in> owners s - {p}. pblocks ?s (insert p D) q)"
    by (rule sum.cong) (use pb in auto)
  finally have ml: "mset ?live = U + (\<Sum>q \<in> owners ?s. pblocks ?s (insert p D) q)"
    unfolding o sum.remove [OF finite_owners p(1)] pbp by (simp add: ac_simps)
  have "stdio img ?s q" if q: "q \<in> owners s" "q \<notin> insert p D" for q
  proof (rule stdio_kept [where s = s])
    show "stdio img s q" using K(3) q by simp
    show "fildes (proctab ?s q) = fildes (proctab s q)" by (simp only: same [OF q])
  qed (use m'(2) in \<open>simp add: get_word_def\<close>)
  then have "kmem img ?s (insert p D) U ?live ?F"
    using m' K(4,5) ml p(1) o by (auto simp: kmem_def image_ok_def mbound_def)
  then show thesis unfolding f0_def f1_def by (rule that [OF c [folded f0_def f1_def] refl, unfolded f0_def f1_def])
qed

section \<open>The process is gone\<close>

text \<open>A process that is off every list is taken out of the process table.\<close>

lemma kwf_set_free:
  assumes "kwfx s L {p}" "p \<noteq> NULLPROC"
  shows "kwf (set_pstate p PRFREE s) L"
proof -
  have "kq (set_pstate p PRFREE s) L {p}"
    by (rule kq_set_pstate [OF kwfxD(1) [OF assms(1)]]) (use assms(2) in simp_all)
  then have "kwfx (set_pstate p PRFREE s) L {p}"
    using kwfxD(2,3) [OF assms(1)] by (simp add: kwfx_def ksem_alt kclk_def)
  then show ?thesis by (rule kwfx_release) (simp add: ploc_def)
qed

lemma kown_set_pstate: "kown s s' \<Longrightarrow> kown (set_pstate p st s) (set_pstate p st s')"
  by (auto simp: kown_def set_pstate_def upd_proc_def)

lemma kmem_exit:
  assumes k: "kmem img s D U live F" and p: "p \<in> owners s" "p \<in> D"
    and m: "arena.uses m' F' (remove1 (stack_block (proctab s p)) live)" "ram m' = ram (mem s)"
      "mbound m' = mbound (mem s)"
    and s': "kown (set_pstate p PRFREE (s\<lparr>mem := m'\<rparr>)) s'"
  shows "kmem img s' (D - {p}) U (remove1 (stack_block (proctab s p)) live) F'"
    "knum s' (D - {p}) = knum s D"
proof -
  let ?s = "set_pstate p PRFREE (s\<lparr>mem := m'\<rparr>)"
  let ?live = "remove1 (stack_block (proctab s p)) live"
  note K = kmemD [OF k]
  have o: "owners ?s = owners s - {p}" by (auto simp: owners_def)
  have "pblocks ?s (D - {p}) q = pblocks s D q" if "q \<in> owners s - {p}" for q
    using that by (auto simp: pblocks_def)
  then have "(\<Sum>q \<in> owners ?s. pblocks ?s (D - {p}) q) = (\<Sum>q \<in> owners s - {p}. pblocks s D q)"
    unfolding o by simp
  moreover have "mset live = U + (\<Sum>q \<in> owners s - {p}. pblocks s D q) + {#stack_block (proctab s p)#}"
    unfolding K(2) sum.remove [OF finite_owners p(1)] using p(2) by (simp add: pblocks_def ac_simps)
  ultimately have "mset ?live = U + (\<Sum>q \<in> owners ?s. pblocks ?s (D - {p}) q)" by simp
  moreover have "stdio img ?s q" if "q \<in> owners s" "q \<notin> D" for q
    by (rule stdio_kept [where s = s]) (use K(3) [of q] that p m(2) in \<open>auto simp: get_word_def set_pstate_def\<close>)
  ultimately have "kmem img ?s (D - {p}) U ?live F'"
    using m K(4,5) o by (auto simp: kmem_def image_ok_def mbound_def set_pstate_def)
  then show "kmem img s' (D - {p}) U ?live F'" by (simp add: kown_kmem [OF s'])
  have "owners ?s - (D - {p}) = owners s - D" using o p(2) by auto
  then have "knum ?s (D - {p}) = knum s D" by (simp add: knum_def set_pstate_def)
  then show "knum s' (D - {p}) = knum s D" by (simp add: kown_kmem [OF s'])
qed

text \<open>What each state needs before the entry is freed.\<close>

lemma kwf_take_waiting:
  assumes "kwf s L" "ispid p" "pst s p = PRWAIT"
  defines "i \<equiv> psem (proctab s p)"
  defines "s1 \<equiv> set_semcnt i (semcnt (semaph s i) + 1) s"
  shows "kwfx (s1\<lparr>qtab := snd (dequeue p (qtab s1))\<rparr>) (L(i := remove1 p (L i))) {p}"
    "\<not> isbadsem i" "p \<in> set (L i)" "semcnt (semaph s i) < 0" "MININT < semcnt (semaph s i)"
proof -
  note W = kwfD [OF assms(1)]
  have pm: "pmember s L p" using kqD(4) [OF W(1) assms(2)] by simp
  then show i: "\<not> isbadsem i" using assms(3) by (simp add: pmember_def i_def)
  show mem: "p \<in> set (L i)"
    using kq_member [OF W(1) assms(2), of i] assms(3) i by (simp add: ploc_def i_def)
  have ok: "sem_ok (semaph s i) (L i)" by (rule kwf_sem_ok [OF assms(1) i])
  then have su: "sstate (semaph s i) = SUSED"
    using mem by (cases "sstate (semaph s i)") (simp_all add: sem_ok_def)
  have cnt: "int (length (L i)) = max 0 (- semcnt (semaph s i))" using sem_okD [OF ok su] by simp
  have len: "0 < length (L i)" "length (remove1 p (L i)) = length (L i) - 1"
    using mem by (auto simp: length_remove1)
  have "0 < max 0 (- semcnt (semaph s i))" unfolding cnt [symmetric] using len(1) by simp
  then show neg: "semcnt (semaph s i) < 0" by (simp add: max_def split: if_splits)
  have "int (length (L i)) \<le> NPROC"
    by (rule qfam_length [OF kqD(2) [OF W(1)]]) (use i in simp)
  then show "MININT < semcnt (semaph s i)" using cnt neg by (simp add: NPROC_def MININT_def)
  have "kq s1 L {}" unfolding s1_def by (rule kq_set_semcnt [OF W(1)])
  then have "kq (s1\<lparr>qtab := snd (dequeue p (qtab s1))\<rparr>) (L(i := remove1 p (L i))) {p}"
    by (rule kq_take [where n = i]) (use i mem in simp_all)
  moreover have "ksem (s1\<lparr>qtab := snd (dequeue p (qtab s1))\<rparr>) (L(i := remove1 p (L i)))"
    by (rule ksem_change [OF W(2), of i])
      (use su cnt neg len in \<open>simp_all add: s1_def sem_ok_def MAXINT_def of_nat_diff\<close>)
  moreover have "kclk (s1\<lparr>qtab := snd (dequeue p (qtab s1))\<rparr>) (L(i := remove1 p (L i)))"
    by (rule kclk_cong [OF W(3)]) (use i in \<open>simp_all add: s1_def isbadsem_def CLKQ_def NSEM_def\<close>)
  ultimately show "kwfx (s1\<lparr>qtab := snd (dequeue p (qtab s1))\<rparr>) (L(i := remove1 p (L i))) {p}"
    by (simp add: kwfx_def)
qed

text \<open>The end of a process that does not run.\<close>

definition kill_effect :: "int \<Rightarrow> kstate \<Rightarrow> kstate \<Rightarrow> bool" where
  "kill_effect p s s' \<longleftrightarrow> currpid s' = currpid s \<and> pst s' p = PRFREE \<and>
     proctab s' = (proctab s)(p := (proctab s p)\<lparr>pstate := PRFREE\<rparr>) \<and>
     (\<forall>i. semcnt (semaph s' i) = semcnt (semaph s i) +
        (if pst s p = PRWAIT \<and> i = psem (proctab s p) then 1 else 0))"

lemma kill_rest_other:
  assumes w: "kwf s L" "krun s L" and p: "\<not> isbadpid p" "p \<noteq> currpid s"
    and m: "freestk (pbase (proctab s p)) (u16 (pstklen (proctab s p))) (mem s) = Some (v, m')"
  obtains s' L' where "kill_rest p s = Some (KRet OK, s')" "kwf s' L'" "krun s' L'"
    "kown (set_pstate p PRFREE (s\<lparr>mem := m'\<rparr>)) s'" "kill_effect p s s'"
    "\<And>n. isqueue n \<Longrightarrow> n \<noteq> CLKQ \<Longrightarrow> L' n = remove1 p (L n)"
proof -
  let ?s = "s\<lparr>mem := m'\<rparr>"
  note P = not_bad_ispid [OF p(1)]
  have w': "kwf ?s L" using w(1) by simp
  have nc: "pst s p \<noteq> PRCURR"
    using kqD(3) [OF kwfD(1) [OF w(1)]] P(1) p(2) by (auto simp: kprocs_def)
  have run: "krun t L2" if "set (L2 RDYQ) \<subseteq> set (L RDYQ)" "preempt t = preempt s" "currpid t = currpid s"
      "\<And>q. q \<noteq> p \<Longrightarrow> proctab t q = proctab s q" "p \<notin> set (L2 RDYQ)" for t L2
  proof -
    have "prio t q = prio s q" if "q \<in> set (L2 RDYQ)" for q using that \<open>p \<notin> set (L2 RDYQ)\<close> \<open>\<And>q. q \<noteq> p \<Longrightarrow> proctab t q = proctab s q\<close> by metis
    then show ?thesis using w(2) that p(2) by (auto simp: krun_def)
  qed
  have dst: "distinct (L n)" if "isqueue n" for n
    by (rule qfam_distinct [OF kqD(2) [OF kwfD(1) [OF w(1)]] that])
  have at: "p \<in> set (L n) \<longleftrightarrow> ploc (proctab s p) = Some n" if "isqueue n" for n
    using kq_member [OF kwfD(1) [OF w(1)] P(1) _ that] by simp
  consider (ready) "pst s p = PRREADY" | (wait) "pst s p = PRWAIT" | (sleep) "pst s p \<in> {PRSLEEP, PRTRECV}"
    | (off) "pst s p \<in> {PRRECV, PRSUSP, PRFREE}" using nc by (cases "pst s p") auto
  then show thesis
  proof cases
    case ready
    have mem: "p \<in> set (L RDYQ)" using at ready by (simp add: ploc_def)
    let ?t = "?s\<lparr>qtab := snd (dequeue p (qtab ?s))\<rparr>" and ?L = "L(RDYQ := remove1 p (L RDYQ))"
    have k: "kwf (set_pstate p PRFREE ?t) ?L"
      by (rule kwf_set_free [OF kwf_take_ready(1) [OF w' mem] P(2)])
    have r: "krun (set_pstate p PRFREE ?t) ?L"
      by (rule run) (use dst [of RDYQ] set_remove1_subset in \<open>auto simp: set_pstate_def\<close>)
    have rm: "?L n = remove1 p (L n)" if "isqueue n" for n
      using at [OF that] ready by (simp add: ploc_def remove1_idem)
    show thesis
      by (rule that [OF _ k r]) (use m ready rm in \<open>auto simp: kill_rest_def kill_effect_def set_pstate_def upd_proc_def kown_def\<close>)
  next
    case wait
    let ?i = "psem (proctab s p)"
    let ?t = "set_semcnt ?i (semcnt (semaph s ?i) + 1) ?s"
    let ?u = "?t\<lparr>qtab := snd (dequeue p (qtab ?t))\<rparr>" and ?L = "L(?i := remove1 p (L ?i))"
    have t: "kwfx ?u ?L {p}" "\<not> isbadsem ?i" "p \<in> set (L ?i)" "semcnt (semaph s ?i) < 0" "MININT < semcnt (semaph s ?i)"
      using kwf_take_waiting [OF w' P(1)] wait by simp_all
    have k: "kwf (set_pstate p PRFREE ?u) ?L" by (rule kwf_set_free [OF t(1) P(2)])
    have nr: "?i \<noteq> RDYQ" using t(2) by (auto simp: isbadsem_def RDYQ_def)
    have r: "krun (set_pstate p PRFREE ?u) ?L"
      by (rule run) (use nr at [of RDYQ] wait in \<open>auto simp: set_pstate_def ploc_def\<close>)
    have rm: "?L n = remove1 p (L n)" if "isqueue n" for n
      using at [OF that] wait by (simp add: ploc_def remove1_idem)
    have add: "add16 (semcnt (semaph s ?i)) 1 = Some (semcnt (semaph s ?i) + 1)"
      using t(4,5) by (simp add: MININT_def MAXINT_def)
    show thesis
      by (rule that [OF _ k r]) (use m wait rm add in \<open>auto simp: kill_rest_def kill_effect_def set_pstate_def
          set_semcnt_def upd_sem_def upd_proc_def kown_def Let_def\<close>)
  next
    case sleep
    have sl: "pst ?s p \<in> {PRSLEEP, PRTRECV}" using sleep by simp
    obtain s1 ys where u: "unsleep p ?s = Some (OK, s1)" "kwfx s1 (L(CLKQ := ys)) {p}" "proctab s1 = proctab ?s"
      "semaph s1 = semaph ?s" "currpid s1 = currpid ?s" "preempt s1 = preempt ?s" "kown ?s s1" "mem s1 = mem ?s"
      by (rule unsleep_wf [OF w' p(1) sl]) blast
    let ?t = "set_pstate p PRFREE s1" and ?L = "L(CLKQ := ys)"
    have k: "kwf ?t ?L" by (rule kwf_set_free [OF u(2) P(2)])
    have r: "krun ?t ?L"
      by (rule run) (use u at [of RDYQ] sleep in \<open>auto simp: ploc_def\<close>)
    have rm: "?L n = remove1 p (L n)" if "isqueue n" "n \<noteq> CLKQ" for n
      using at [OF that(1)] that sleep by (auto simp: ploc_def remove1_idem)
    show thesis
      by (rule that [OF _ k r kown_set_pstate [OF u(7)]])
        (use m sleep rm u in \<open>auto simp: kill_rest_def kill_effect_def\<close>)
  next
    case off
    have lo: "ploc (proctab s p) = None" using off by (auto simp: ploc_def)
    have "kwfx ?s L {p}" by (rule kwf_capture [OF w' P(1)]) (simp add: lo)
    then have k: "kwf (set_pstate p PRFREE ?s) L" by (rule kwf_set_free [OF _ P(2)])
    have r: "krun (set_pstate p PRFREE ?s) L"
      by (rule run) (use at [of RDYQ] lo in auto)
    have rm: "L n = remove1 p (L n)" if "isqueue n" for n
      using at [OF that] lo by (simp add: remove1_idem)
    show thesis
      by (rule that [OF _ k r]) (use m off rm in \<open>auto simp: kill_rest_def kill_effect_def\<close>)
  qed
qed

text \<open>The end of the running process: the processor goes to another, and does not come back.\<close>

lemma kill_rest_self:
  assumes w: "kwf s L" "krun s L" and p: "p = currpid s" "p \<noteq> NULLPROC"
    and m: "freestk (pbase (proctab s p)) (u16 (pstklen (proctab s p))) (mem s) = Some (v, m')"
  obtains s' L' where "kill_rest p s = Some (KKilled, s')" "kwf s' L'" "krun s' L'"
    "kown (set_pstate p PRFREE (s\<lparr>mem := m'\<rparr>)) s'" "pst s' p = PRFREE" "currpid s' = last (L RDYQ)"
    "currpid s' \<noteq> p" "mailbox s' = mailbox s" "semaph s' = semaph s"
    "\<And>i. pst s' i = (if i = currpid s' then PRCURR else if i = p then PRFREE else pst s i)"
proof -
  let ?s = "s\<lparr>mem := m'\<rparr>" and ?t = "set_pstate p PRFREE (s\<lparr>mem := m'\<rparr>)"
  note c = kwf_running [OF w]
  have w': "kwf ?s L" using w(1) by simp
  have "kwfx ?s L {p}" by (rule kwf_capture [OF w']) (use c p(1) in simp_all)
  then have k: "kwf ?t L" by (rule kwf_set_free [OF _ p(2)])
  obtain s' L' where r: "resched ?t = Some (OK, s')" "kwf s' L'" "krun s' L'" "kframe ?t L s' L'"
    "currpid s' = fst (dispatch (prio ?t) (currpid ?t) (pst ?t (currpid ?t) = PRCURR) (L RDYQ))"
    "\<And>i. pst s' i = (if i = currpid s' then PRCURR
       else if i = currpid ?t \<and> pst ?t i = PRCURR then PRREADY else pst ?t i)"
    by (rule resched_wf [OF k]) blast
  have fr: "pst s' p = PRFREE" using kframeD(6) [OF r(4), of p] by simp
  have st: "pst s' i = (if i = currpid s' then PRCURR else if i = p then PRFREE else pst s i)" for i
    using r(6) [of i] p(1) by simp
  have ne: "currpid s' \<noteq> p" using fr r(3) by (auto simp: krun_def)
  have nx: "currpid s' = last (L RDYQ)" using r(5) p(1) by simp
  have eq: "kill_rest p s = Some (KKilled, s')"
    using m c(2) p(1) r(1) by (simp add: kill_rest_def)
  have mb: "mailbox s' = mailbox s"
    using mailbox_kframe [OF r(4)] by (auto simp: mailbox_def fun_eq_iff)
  have "semaph s' = semaph s" using kframe_fields(1) [OF r(4)] by simp
  then show thesis by (rule that [OF eq r(2,3) kframe_kown [OF r(4)] fr nx ne mb _ st])
qed

text \<open>Both, with the memory: the stack is free again.\<close>

lemma kill_rest_wf:
  assumes w: "kwf s L" "krun s L" and k: "kmem img s D U live F" and p: "p \<in> D"
  obtains v s' L' where "kill_rest p s = Some (v, s')" "kwf s' L'" "krun s' L'"
    "kmem img s' (D - {p}) U (remove1 (stack_block (proctab s p)) live) (F \<union> block_area (stack_block (proctab s p)))"
    "knum s' (D - {p}) = knum s D"
    "p = currpid s \<Longrightarrow> v = KKilled \<and> currpid s' = last (L RDYQ) \<and> semaph s' = semaph s \<and>
       (\<forall>i. pst s' i = (if i = currpid s' then PRCURR else if i = p then PRFREE else pst s i))"
    "p \<noteq> currpid s \<Longrightarrow> v = KRet OK \<and> kill_effect p s s' \<and>
       (\<forall>n. isqueue n \<longrightarrow> n \<noteq> CLKQ \<longrightarrow> L' n = remove1 p (L n))"
    "owners s' = owners s - {p}" "mailbox s' = mailbox s"
proof -
  let ?e = "proctab s p"
  have o: "p \<in> owners s" using kmemD(4) [OF k] p by blast
  then have P: "\<not> isbadpid p" "p \<noteq> NULLPROC" by (simp_all add: owners_def isbadpid_def NULLPROC_def)
  note b = kmem_blocks(1) [OF k o]
  have sz: "size_ok (pstklen ?e)"
    using arena.uses_req [OF kmemD(1) [OF k] b [unfolded stack_block_def]] by simp
  then have u: "u16 (pstklen ?e) = pstklen ?e" by (simp add: size_ok_def)
  obtain m' where m': "freestk (pbase ?e) (u16 (pstklen ?e)) (mem s) = Some (OK, m')"
    "arena.uses m' (F \<union> block_area (stack_block ?e)) (remove1 (stack_block ?e) live)" "mbound m' = mbound (mem s)" "ram m' = ram (mem s)"
    using freestk_uses [OF kmemD(1) [OF k] b [unfolded stack_block_def]] unfolding u stack_block_def block_area_simps by blast
  note ex = kmem_exit [OF k o p m'(2,4,3)]
  have ow: "owners s' = owners s - {p}" if "kown (set_pstate p PRFREE (s\<lparr>mem := m'\<rparr>)) s'" for s'
    using kown_owners [OF that] by (auto simp: owners_def)
  show thesis
  proof (cases "p = currpid s")
    case True
    obtain s' L' where r: "kill_rest p s = Some (KKilled, s')" "kwf s' L'" "krun s' L'"
      "kown (set_pstate p PRFREE (s\<lparr>mem := m'\<rparr>)) s'" "currpid s' = last (L RDYQ)"
      "mailbox s' = mailbox s" "semaph s' = semaph s" "\<And>i. pst s' i = (if i = currpid s' then PRCURR else if i = p then PRFREE else pst s i)"
      by (rule kill_rest_self [OF w True P(2) m'(1)]) blast
    show thesis by (rule that [OF r(1-3) ex [OF r(4)]]) (use True r(5-8) ow [OF r(4)] in auto)
  next
    case False
    obtain s' L' where r: "kill_rest p s = Some (KRet OK, s')" "kwf s' L'" "krun s' L'"
      "kown (set_pstate p PRFREE (s\<lparr>mem := m'\<rparr>)) s'" "kill_effect p s s'"
      "\<And>n. isqueue n \<Longrightarrow> n \<noteq> CLKQ \<Longrightarrow> L' n = remove1 p (L n)"
      by (rule kill_rest_other [OF w P(1) False m'(1)]) blast
    have "mailbox s' = mailbox s"
      using r(5) by (auto simp: kill_effect_def mailbox_def fun_eq_iff)
    then show thesis using False r(5,6) ow [OF r(4)] by (intro that [OF r(1-3) ex [OF r(4)]]) auto
  qed
qed

section \<open>kill\<close>

lemma kill_unfold:
  assumes "\<not> isbadpid p" "pst s p \<noteq> PRFREE"
  shows "kill p s = do {
      np \<leftarrow> sub16 (numproc s) 1;
      s5 \<leftarrow> close_streams NFILE p 0 (if np = 0 then xdone (s\<lparr>numproc := np\<rparr>) else s\<lparr>numproc := np\<rparr>);
      (_, s6) \<leftarrow> send (pnxtkin (proctab s5 p)) p s5;
      if currpid s6 \<noteq> currpid s then Some (KKill p, s6) else kill_rest p s6
    }"
  using assms by (simp add: kill_def Let_def)

text \<open>kill up to and including the message to the next of kin. \<open>kill_closed\<close> is the state in which
  the message is sent: the streams of the process are closed, and it counts no more.\<close>

definition kill_closed :: "int \<Rightarrow> kstate \<Rightarrow> memst \<Rightarrow> kstate" where
  "kill_closed p s m = upd_proc (currpid s) (fildes_update (drop_std (fildes (proctab s p) 1) \<circ>
     drop_std (fildes (proctab s p) 0))) (s\<lparr>numproc := numproc s - 1,
       xcalls := xcalls s @ (if numproc s = 1 then [Xdone] else []), mem := m\<rparr>)"

lemma kill_closed_simps [simp]:
  "currpid (kill_closed p s m) = currpid s" "mem (kill_closed p s m) = m"
  "semaph (kill_closed p s m) = semaph s" "pst (kill_closed p s m) q = pst s q"
  "prio (kill_closed p s m) q = prio s q" "stack_block (proctab (kill_closed p s m) q) = stack_block (proctab s q)"
  "pnxtkin (proctab (kill_closed p s m) q) = pnxtkin (proctab s q)"
  "phasmsg (proctab (kill_closed p s m) q) = phasmsg (proctab s q)"
  "mailbox (kill_closed p s m) = mailbox s" "owners (kill_closed p s m) = owners s"
  by (auto simp: kill_closed_def mailbox_def stack_block_def owners_def fun_eq_iff)

text \<open>The message: \<open>n\<close> is the next of kin of the process.\<close>

definition kill_told :: "int \<Rightarrow> int \<Rightarrow> kstate \<Rightarrow> kstate \<Rightarrow> bool" where
  "kill_told n p s s' \<longleftrightarrow>
     (if \<not> isbadpid n \<and> pst s n \<noteq> PRFREE \<and> mailbox s n = None
      then mailbox s' = (mailbox s)(n \<mapsto> p) \<and>
        (if pst s n \<in> {PRRECV, PRTRECV} then woken n (put_msg n p 1 s) s' else s' = put_msg n p 1 s)
      else s' = s)"

text \<open>The blocks and the bytes of the streams of a process.\<close>

definition drop_streams :: "pentry \<Rightarrow> block list \<Rightarrow> block list" where
  "drop_streams e live = remove1 (stream_block (fildes e 1)) (remove1 (stream_block (fildes e 0)) live)"

definition streams_area :: "pentry \<Rightarrow> int set" where
  "streams_area e = block_area (stream_block (fildes e 0)) \<union> block_area (stream_block (fildes e 1))"

lemma send_told:
  assumes "kwf s L" "krun s L"
  obtains v s' L' where "send n p s = Some (v, s')" "kwf s' L'" "krun s' L'" "kown s s'" "kill_told n p s s'"
proof (cases "\<not> isbadpid n \<and> pst s n \<noteq> PRFREE \<and> mailbox s n = None")
  case True
  then have T: "\<not> isbadpid n" "pst s n \<noteq> PRFREE" "phasmsg (proctab s n) = 0"
    by (simp_all add: mailbox_def split: if_splits)
  obtain s' L' where r: "send n p s = Some (OK, s')" "kwf s' L'" "krun s' L'" "kown s s'"
    "mailbox s' = (mailbox s)(n := Some p)" "pst s n \<notin> {PRRECV, PRTRECV} \<Longrightarrow> s' = put_msg n p 1 s"
    "pst s n \<in> {PRRECV, PRTRECV} \<Longrightarrow> woken n (put_msg n p 1 s) s'"
    by (rule send_wf [OF assms T, of p]) blast
  have "kill_told n p s s'" using True r(5-7) by (simp add: kill_told_def)
  then show thesis using that r(1-4) by blast
next
  case False
  then have "isbadpid n \<or> pst s n = PRFREE \<or> phasmsg (proctab s n) \<noteq> 0" by (auto simp: mailbox_def)
  then have "send n p s = Some (SYSERR, s)" by (simp add: send_def)
  moreover have "kill_told n p s s" using False by (auto simp: kill_told_def)
  ultimately show thesis using that assms by auto
qed

lemma kill_start:
  assumes w: "kwf s L" "krun s L" and k: "kmem img s D U live F" "knum s D"
    and p: "\<not> isbadpid p" "pst s p \<noteq> PRFREE" "p \<notin> D"
  obtains m s3 L3 where
    "kill p s = (if currpid s3 \<noteq> currpid s then Some (KKill p, s3) else kill_rest p s3)"
    "kown (kill_closed p s m) s3" "kill_told (pnxtkin (proctab s p)) p (kill_closed p s m) s3"
    "kwf s3 L3" "krun s3 L3"
    "kmem img s3 (insert p D) U (drop_streams (proctab s p) live) (F \<union> streams_area (proctab s p))"
    "knum s3 (insert p D)"
proof -
  let ?n = "pnxtkin (proctab s p)"
  have o: "p \<in> owners s" using p(1,2) by (simp add: owners_def isbadpid_iff)
  have "owners s - D \<noteq> {}" using o p(3) by blast
  then have np: "1 \<le> numproc s" "numproc s < NPROC"
    using k(2) card_owners [of s D] by (simp_all add: knum_def Suc_le_eq card_gt_0_iff)
  then have sub: "sub16 (numproc s) 1 = Some (numproc s - 1)" by (simp add: NPROC_def MININT_def MAXINT_def)
  let ?s1 = "s\<lparr>numproc := numproc s - 1, xcalls := xcalls s @ (if numproc s = 1 then [Xdone] else [])\<rparr>"
  have k1: "kmem img ?s1 D U live F" by (rule kmem_step [OF k(1)]) (use kmemD(1) [OF k(1)] in simp_all)
  have o1: "p \<in> owners ?s1" using o by (simp add: owners_def)
  obtain s2 m where c: "close_streams NFILE p 0 ?s1 = Some s2" and s2: "s2 = kill_closed p s m"
    and k2: "kmem img s2 (insert p D) U (drop_streams (proctab s p) live) (F \<union> streams_area (proctab s p))"
    by (rule kmem_dying [OF k1 o1 p(3)]) (simp add: kill_closed_def drop_streams_def streams_area_def Un_assoc)
  have w2: "kwf s2 L" "krun s2 L" unfolding s2 kill_closed_def kwf_fildes using w by simp_all
  obtain v s3 L3 where r: "send ?n p s2 = Some (v, s3)" "kwf s3 L3" "krun s3 L3" "kown s2 s3" "kill_told ?n p s2 s3"
    by (rule send_told [OF w2])
  have "knum s2 (insert p D)"
  proof -
    have "card (owners s - D) = Suc (card (owners s - insert p D))"
    proof -
      have "owners s - D = insert p (owners s - insert p D)" using o p(3) by auto
      moreover have "card (insert p (owners s - insert p D)) = Suc (card (owners s - insert p D))"
        by (rule card_insert_disjoint) simp_all
      ultimately show ?thesis by (simp only:)
    qed
    moreover have "numproc s2 = numproc s - 1" by (simp add: s2 kill_closed_def)
    ultimately show ?thesis using k(2) by (simp add: knum_def s2)
  qed
  then have k3: "kmem img s3 (insert p D) U (drop_streams (proctab s p) live) (F \<union> streams_area (proctab s p))"
    "knum s3 (insert p D)"
    using k2 by (simp_all add: kown_kmem [OF r(4)])
  have x: "(if numproc s - 1 = 0 then xdone (s\<lparr>numproc := numproc s - 1\<rparr>) else s\<lparr>numproc := numproc s - 1\<rparr>) = ?s1"
    by (simp add: xdone_def)
  note c' = c [folded x]
  have nk: "pnxtkin (proctab s2 p) = ?n" by (simp add: s2)
  have "kill p s = (if currpid s3 \<noteq> currpid s then Some (KKill p, s3) else kill_rest p s3)"
    using kill_unfold [OF p(1,2)] by (simp only: sub c' nk r(1) Option.bind.bind_lunit prod.case)
  then show thesis
    by (rule that [OF _ r(4) [unfolded s2] r(5) [unfolded s2] r(2,3) k3])
qed

end
