(* ===== verification/Boot.thy ===== *)
theory Boot
  imports Kill
begin

text \<open>
  The start of the system (\<open>platform/stk500/initialize.c\<close>, \<open>clkinit.c\<close>): the tables are
  initialised, the null process is made from the running program, the lists are laid out one
  after the other in the q table. The state that results satisfies the kernel invariant. The
  initialisation of the hardware registers and of the devices is left out.
\<close>

section \<open>sysinit and clkinit\<close>

definition new_list :: "kstate \<Rightarrow> int \<times> kstate" where
  "new_list s = (let (h, nq, q) = newqueue (nextqueue s, qtab s)
     in (h, s\<lparr>nextqueue := nq, qtab := q\<rparr>))"

definition init_sem :: "int \<Rightarrow> kstate \<Rightarrow> kstate" where
  "init_sem i s =
     (let s1 = upd_sem i (sstate_update (\<lambda>_. SFREE)) s;
          (h, s2) = new_list s1
      in upd_sem i (sqhead_update (\<lambda>_. h) \<circ> sqtail_update (\<lambda>_. 1 + h)) s2)"

definition null_entry :: "int \<Rightarrow> int \<Rightarrow> pentry \<Rightarrow> pentry" where
  "null_entry ramend main e =
     e\<lparr>pstate := PRCURR, pname := ''nullp'', plimit := u16 (ramend + 1 - NULLSTK), pbase := ramend,
       paddr := main, pargs := 0, pprio := 0,
       pregs := (pregs e)(SSP_L := lobyte (u16 (ramend + 1 - NULLSTK)), SSP_H := hibyte (u16 (ramend + 1 - NULLSTK)))\<rparr>"

definition sysinit :: "int \<Rightarrow> int \<Rightarrow> int \<Rightarrow> kstate \<Rightarrow> kstate" where
  "sysinit ramend bss_end main s =
     (let s1 = s\<lparr>numproc := 0, nextproc := NPROC - 1, nextsem := NSEM - 1, nextqueue := NPROC,
          mem := meminit ramend bss_end (mem s)\<rparr>;
          s2 = s1\<lparr>proctab := (\<lambda>i. if 0 \<le> i \<and> i < NPROC then (proctab s i)\<lparr>pstate := PRFREE\<rparr> else proctab s i)\<rparr>;
          s3 = upd_proc NULLPROC (null_entry ramend main) s2;
          s4 = s3\<lparr>mem := set_ram ramend MAGIC (mem s3), currpid := NULLPROC\<rparr>;
          s5 = fold init_sem (map int [0..<nat NSEM]) s4;
          (h, s6) = new_list s5
      in s6\<lparr>rdyhead := h, rdytail := 1 + h\<rparr>)"

definition clkinit :: "kstate \<Rightarrow> int \<times> kstate" where
  "clkinit s =
     (let s1 = s\<lparr>preempt := QUANTUM\<rparr>;
          (clmutex, s2) = screate 1 s1;
          s3 = s2\<lparr>clktime := 0, ctr100 := 0, slnempty := False, clkdiff := 0, defclk := 0, clkruns := True\<rparr>;
          (h, s4) = new_list s3
      in (clmutex, s4\<lparr>clockq := h\<rparr>))"

text \<open>The two in the order of \<open>nulluser\<close>. \<open>prescaler\<close> and \<open>rtcScaler\<close> have their initial
  values from the declarations in \<open>clkint.c\<close>.\<close>

definition boot :: "int \<Rightarrow> int \<Rightarrow> int \<Rightarrow> kstate \<Rightarrow> kstate" where
  "boot ramend bss_end main s =
     snd (clkinit (sysinit ramend bss_end main (s\<lparr>prescaler := 10, rtcScaler := 10\<rparr>)))"

section \<open>The lists\<close>

text \<open>The first \<open>n\<close> lists exist and are empty, and the next one begins after them.\<close>

definition lists_made :: "kstate \<Rightarrow> int \<Rightarrow> bool" where
  "lists_made s n \<longleftrightarrow> nextqueue s = qhead n \<and> (\<forall>i. 0 \<le> i \<and> i < n \<longrightarrow> qrep (qtab s) (qhead i) [])"

lemma qrep_Nil_cong:
  "qrep q h [] \<Longrightarrow> q' h = q h \<Longrightarrow> q' (h + 1) = q (h + 1) \<Longrightarrow> qrep q' h []"
  by (simp add: qrep_def)

lemma new_list_made:
  assumes "lists_made s n" "0 \<le> n" "new_list s = (h, s')"
  shows "h = qhead n" "lists_made s' (n + 1)" "s' = s\<lparr>nextqueue := nextqueue s', qtab := qtab s'\<rparr>"
proof -
  obtain nq q where r: "newqueue (nextqueue s, qtab s) = (h, nq, q)" "s' = s\<lparr>nextqueue := nq, qtab := q\<rparr>"
    using assms(3) by (auto simp: new_list_def Let_def split: prod.splits)
  have ge: "NPROC \<le> nextqueue s" using assms(1,2) by (simp add: lists_made_def qhead_def)
  note N = newqueue_qrep [OF r(1) ge]
  show h: "h = qhead n" using N(1) assms(1) by (simp add: lists_made_def)
  have "qrep q (qhead i) []" if "0 \<le> i" "i < n + 1" for i
  proof (cases "i = n")
    case True
    then show ?thesis using N(3) h by simp
  next
    case False
    then have i: "i < n" using that by simp
    then have "qhead i \<notin> heads h" "qhead i + 1 \<notin> heads h" unfolding h by (auto simp: qhead_def heads_def)
    then have e: "q (qhead i) = qtab s (qhead i)" "q (qhead i + 1) = qtab s (qhead i + 1)"
      using N(4) [of "qhead i"] N(4) [of "qhead i + 1"] by blast+
    have "qrep (qtab s) (qhead i) []" using assms(1) that(1) i unfolding lists_made_def by blast
    then show ?thesis by (rule qrep_Nil_cong) (rule e)+
  qed
  then show "lists_made s' (n + 1)"
    using N(2) r(2) assms(1) by (simp add: lists_made_def qhead_def)
  show "s' = s\<lparr>nextqueue := nextqueue s', qtab := qtab s'\<rparr>" using r(2) by simp
qed

lemma init_sems_made:
  assumes "lists_made s 0"
  defines "t n \<equiv> fold init_sem (map int [0..<n]) s"
  shows "lists_made (t n) (int n)"
    "\<forall>i. 0 \<le> i \<and> i < int n \<longrightarrow> sstate (semaph (t n) i) = SFREE \<and>
       sqhead (semaph (t n) i) = qhead i \<and> sqtail (semaph (t n) i) = qhead i + 1"
    "t n = s\<lparr>nextqueue := nextqueue (t n), qtab := qtab (t n), semaph := semaph (t n)\<rparr>"
proof (induction n)
  case 0
  { case 1 show ?case using assms(1) by (simp add: t_def) }
  { case 2 show ?case by auto }
  { case 3 show ?case by (simp add: t_def) }
next
  case (Suc n)
  let ?u = "upd_sem (int n) (sstate_update (\<lambda>_. SFREE)) (t n)"
  have st: "t (Suc n) = init_sem (int n) (t n)" by (simp add: t_def)
  obtain h s' where r: "new_list ?u = (h, s')" by (rule prod.exhaust)
  have "lists_made ?u (int n)" using Suc.IH(1) by (simp add: lists_made_def upd_sem_def)
  from new_list_made [OF this _ r] have N: "h = qhead (int n)" "lists_made s' (int n + 1)"
    "s' = ?u\<lparr>nextqueue := nextqueue s', qtab := qtab s'\<rparr>" by simp_all
  have e: "t (Suc n) = upd_sem (int n) (sqhead_update (\<lambda>_. h) \<circ> sqtail_update (\<lambda>_. 1 + h)) s'"
    unfolding st init_sem_def by (simp add: r)
  have sm: "semaph s' = semaph ?u" by (subst N(3)) simp
  { case 1 show ?case using N(2) by (simp add: e lists_made_def upd_sem_def add.commute) }
  { case 2 show ?case using Suc.IH(2) N(1) by (auto simp: e sm) }
  { case 3 show ?case
      unfolding e by (subst N(3), subst Suc.IH(3)) (simp add: upd_sem_def sm) }
qed

section \<open>The state after the initialisation\<close>

definition no_lists :: "int \<Rightarrow> int list" where
  "no_lists n = []"

text \<open>\<open>meminit\<close> makes one free block.\<close>

lemma meminit_memwf:
  assumes "0 < memlist m" "memlist m < roundmb (heap_start m)"
    and "0 < truncmb (u16 (ramend - NULLSTK - bss_end))"
    and "roundmb (heap_start m) + truncmb (u16 (ramend - NULLSTK - bss_end)) < 65535"
  defines "m' \<equiv> meminit ramend bss_end m"
  shows "memwf m' [(roundmb (heap_start m), truncmb (u16 (ramend - NULLSTK - bss_end)))]"
    "heap_start m' = roundmb (heap_start m)"
    "heap_end m' = roundmb (heap_start m) + truncmb (u16 (ramend - NULLSTK - bss_end))"
proof -
  let ?p = "roundmb (heap_start m)" and ?l = "truncmb (u16 (ramend - NULLSTK - bss_end))"
  have md: "?p mod 4 = 0" "0 \<le> ?p" by (rule roundmb_range)+
  have ml: "?l mod 4 = 0"
    by (simp add: truncmb_def Let_def sizeof_mblock_def minus_mod_eq_div_mult)
  have u: "u16 (?p + ?l) = ?p + ?l" using assms(3,4) md by simp
  show "heap_start m' = ?p" "heap_end m' = ?p + ?l"
    by (simp_all add: m'_def meminit_def Let_def u)
  show "memwf m' [(?p, ?l)]"
    using assms(1-4) md ml by (simp add: m'_def memwf_def meminit_def Let_def u set_mnext_def set_mlen_def NULLBLK_def)
qed

lemma sysinit_spec:
  fixes s :: kstate and ramend bss_end main :: int
  defines "s' \<equiv> sysinit ramend bss_end main s"
  shows "lists_made s' (NSEM + 1)" "rdyhead s' = qhead RDYQ" "rdytail s' = qhead RDYQ + 1"
    "\<And>i. \<not> isbadsem i \<Longrightarrow> sstate (semaph s' i) = SFREE \<and> sqhead (semaph s' i) = qhead i \<and>
       sqtail (semaph s' i) = qhead i + 1"
    "proctab s' p = (if p = NULLPROC then null_entry ramend main ((proctab s p)\<lparr>pstate := PRFREE\<rparr>)
       else if ispid p then (proctab s p)\<lparr>pstate := PRFREE\<rparr> else proctab s p)"
    "numproc s' = 0" "nextproc s' = NPROC - 1" "nextsem s' = NSEM - 1" "currpid s' = NULLPROC"
    "mem s' = set_ram ramend MAGIC (meminit ramend bss_end (mem s))" "files s' = files s"
    "prescaler s' = prescaler s" "rtcScaler s' = rtcScaler s" "xcalls s' = xcalls s"
proof -
  let ?s2 = "s\<lparr>numproc := 0, nextproc := NPROC - 1, nextsem := NSEM - 1, nextqueue := NPROC,
      mem := meminit ramend bss_end (mem s),
      proctab := (\<lambda>i. if 0 \<le> i \<and> i < NPROC then (proctab s i)\<lparr>pstate := PRFREE\<rparr> else proctab s i)\<rparr>"
  let ?s4 = "(upd_proc NULLPROC (null_entry ramend main) ?s2)
      \<lparr>mem := set_ram ramend MAGIC (meminit ramend bss_end (mem s)), currpid := NULLPROC\<rparr>"
  let ?s5 = "fold init_sem (map int [0..<nat NSEM]) ?s4"
  have m0: "lists_made ?s4 0" by (auto simp: lists_made_def qhead_def upd_proc_def)
  note M = init_sems_made [OF m0, where n = "nat NSEM"]
  have n: "int (nat NSEM) = NSEM" by simp
  obtain h s6 where r: "new_list ?s5 = (h, s6)" by (rule prod.exhaust)
  have N: "h = qhead NSEM" "lists_made s6 (NSEM + 1)"
    and s6: "s6 = ?s5\<lparr>nextqueue := nextqueue s6, qtab := qtab s6\<rparr>"
    using new_list_made [OF M(1) _ r] by simp_all
  have s': "s' = s6\<lparr>rdyhead := h, rdytail := 1 + h\<rparr>"
    unfolding s'_def sysinit_def Let_def by (simp add: r)
  show "lists_made s' (NSEM + 1)" using N(2) by (simp add: s' lists_made_def)
  show "rdyhead s' = qhead RDYQ" "rdytail s' = qhead RDYQ + 1" using N(1) by (simp_all add: s' RDYQ_def)
  have sm: "semaph s' = semaph ?s5" by (subst s', subst s6) simp
  show "sstate (semaph s' i) = SFREE \<and> sqhead (semaph s' i) = qhead i \<and>
       sqtail (semaph s' i) = qhead i + 1" if "\<not> isbadsem i" for i
    using M(2) that unfolding sm n by (simp add: isbadsem_def)
  have f: "proctab s' = proctab ?s4" "numproc s' = numproc ?s4" "nextproc s' = nextproc ?s4" "nextsem s' = nextsem ?s4"
    "currpid s' = currpid ?s4" "mem s' = mem ?s4" "files s' = files ?s4" "prescaler s' = prescaler ?s4"
    "rtcScaler s' = rtcScaler ?s4" "xcalls s' = xcalls ?s4"
    by (subst s', subst s6, subst M(3), simp)+
  show "proctab s' p = (if p = NULLPROC then null_entry ramend main ((proctab s p)\<lparr>pstate := PRFREE\<rparr>)
       else if ispid p then (proctab s p)\<lparr>pstate := PRFREE\<rparr> else proctab s p)"
    unfolding f by (simp add: NULLPROC_def)
  show "numproc s' = 0" "nextproc s' = NPROC - 1" "nextsem s' = NSEM - 1" "currpid s' = NULLPROC"
    "mem s' = set_ram ramend MAGIC (meminit ramend bss_end (mem s))" "files s' = files s"
    "prescaler s' = prescaler s" "rtcScaler s' = rtcScaler s" "xcalls s' = xcalls s"
    unfolding f by (simp_all add: upd_proc_def)
qed

lemma clkinit_spec:
  assumes "lists_made s (NSEM + 1)" "nextsem s = NSEM - 1" "sstate (semaph s (NSEM - 1)) = SFREE"
  obtains s' where "clkinit s = (NSEM - 1, s')" "lists_made s' (NSEM + 2)" "clockq s' = qhead CLKQ"
    "semaph s' = (semaph s)(NSEM - 1 := (semaph s (NSEM - 1))\<lparr>sstate := SUSED, semcnt := 1\<rparr>)"
    "s' = s\<lparr>preempt := QUANTUM, nextsem := NSEM - 2, semaph := semaph s', clktime := 0, ctr100 := 0,
       slnempty := False, clkdiff := 0, defclk := 0, clkruns := True, nextqueue := nextqueue s',
       qtab := qtab s', clockq := clockq s'\<rparr>"
proof -
  let ?s1 = "s\<lparr>preempt := QUANTUM\<rparr>"
  let ?s2 = "set_semcnt (NSEM - 1) 1 (set_sstate (NSEM - 1) SUSED (?s1\<lparr>nextsem := NSEM - 2\<rparr>))"
  let ?s3 = "?s2\<lparr>clktime := 0, ctr100 := 0, slnempty := False, clkdiff := 0, defclk := 0, clkruns := True\<rparr>"
  have n: "nat NSEM = Suc 29" by (simp add: NSEM_def)
  have nw: "newsem ?s1 = (NSEM - 1, set_sstate (NSEM - 1) SUSED (?s1\<lparr>nextsem := NSEM - 2\<rparr>))"
    unfolding newsem_def n newsem_scan.simps using assms(2,3) by (simp add: NSEM_def)
  have sc: "screate 1 ?s1 = (NSEM - 1, ?s2)"
    by (simp add: screate_def nw NSEM_def SYSERR_def)
  obtain h s4 where r: "new_list ?s3 = (h, s4)" by (rule prod.exhaust)
  have "lists_made ?s3 (NSEM + 1)" using assms(1) by (simp add: lists_made_def set_semcnt_def set_sstate_def upd_sem_def)
  from new_list_made [OF this _ r] have N: "h = qhead (NSEM + 1)" "lists_made s4 (NSEM + 1 + 1)"
    "s4 = ?s3\<lparr>nextqueue := nextqueue s4, qtab := qtab s4\<rparr>" by simp_all
  have two: "NSEM + 1 + 1 = NSEM + 2" by simp
  have sm: "semaph s4 = (semaph s)(NSEM - 1 := (semaph s (NSEM - 1))\<lparr>sstate := SUSED, semcnt := 1\<rparr>)"
    by (subst N(3)) (simp add: set_semcnt_def set_sstate_def)
  show thesis
  proof (rule that)
    show "clkinit s = (NSEM - 1, s4\<lparr>clockq := h\<rparr>)" by (simp add: clkinit_def sc r)
    show "lists_made (s4\<lparr>clockq := h\<rparr>) (NSEM + 2)" using N(2) unfolding two by (simp add: lists_made_def)
    show "clockq (s4\<lparr>clockq := h\<rparr>) = qhead CLKQ" using N(1) by (simp add: CLKQ_def)
    show "semaph (s4\<lparr>clockq := h\<rparr>) = (semaph s)(NSEM - 1 := (semaph s (NSEM - 1))\<lparr>sstate := SUSED, semcnt := 1\<rparr>)"
      using sm by simp
    show "s4\<lparr>clockq := h\<rparr> = s\<lparr>preempt := QUANTUM, nextsem := NSEM - 2, semaph := semaph (s4\<lparr>clockq := h\<rparr>), clktime := 0, ctr100 := 0,
       slnempty := False, clkdiff := 0, defclk := 0, clkruns := True, nextqueue := nextqueue (s4\<lparr>clockq := h\<rparr>),
       qtab := qtab (s4\<lparr>clockq := h\<rparr>), clockq := clockq (s4\<lparr>clockq := h\<rparr>)\<rparr>"
      by (subst N(3)) (simp add: sm set_semcnt_def set_sstate_def upd_sem_def)
  qed
qed

text \<open>The booted system is well formed and the null process runs.\<close>

lemma boot_kwf:
  fixes s :: kstate and ramend bss_end main :: int
  defines "s' \<equiv> boot ramend bss_end main s"
  shows "kwf s' no_lists" "krun s' no_lists" "currpid s' = NULLPROC" "owners s' = {}" "numproc s' = 0"
    "mem s' = set_ram ramend MAGIC (meminit ramend bss_end (mem s))" "files s' = files s"
    "xcalls s' = xcalls s" "pst s' NULLPROC = PRCURR" "clktime s' = 0"
    "phasmsg (proctab s' p) = phasmsg (proctab s p)"
proof -
  let ?s = "s\<lparr>prescaler := 10, rtcScaler := 10\<rparr>"
  let ?t = "sysinit ramend bss_end main ?s"
  note S = sysinit_spec [where s = ?s and ramend = ramend and bss_end = bss_end and main = main]
  have fr: "sstate (semaph ?t (NSEM - 1)) = SFREE" using S(4) by (simp add: isbadsem_def NSEM_def)
  obtain c where c: "clkinit ?t = (NSEM - 1, c)" "lists_made c (NSEM + 2)" "clockq c = qhead CLKQ"
    and sm: "semaph c = (semaph ?t)(NSEM - 1 := (semaph ?t (NSEM - 1))\<lparr>sstate := SUSED, semcnt := 1\<rparr>)"
    and ce: "c = ?t\<lparr>preempt := QUANTUM, nextsem := NSEM - 2, semaph := semaph c, clktime := 0, ctr100 := 0,
       slnempty := False, clkdiff := 0, defclk := 0, clkruns := True, nextqueue := nextqueue c,
       qtab := qtab c, clockq := clockq c\<rparr>"
    by (rule clkinit_spec [OF S(1) S(8) fr])
  have s': "s' = c" by (simp add: s'_def boot_def c(1))
  have f: "proctab c = proctab ?t" "numproc c = 0" "nextproc c = NPROC - 1" "nextsem c = NSEM - 2" "currpid c = NULLPROC"
    "mem c = set_ram ramend MAGIC (meminit ramend bss_end (mem s))" "files c = files s" "prescaler c = 10"
    "rtcScaler c = 10" "xcalls c = xcalls s" "rdyhead c = qhead RDYQ" "rdytail c = qhead RDYQ + 1"
    "preempt c = QUANTUM" "slnempty c = False" "clktime c = 0"
    by (subst ce, simp add: S)+
  have pt: "pst c p = (if p = NULLPROC then PRCURR else if ispid p then PRFREE else pst s p)" for p
    using S(5) [of p] unfolding f by (simp add: null_entry_def)
  have pr: "prio c NULLPROC = 0" using S(5) [of NULLPROC] unfolding f by (simp add: null_entry_def)
  have sq: "sqhead (semaph c i) = qhead i" "sqtail (semaph c i) = qhead i + 1" if "\<not> isbadsem i" for i
    using S(4) [OF that] by (cases "i = NSEM - 1"; simp add: sm)+
  have "layout c" using f c(3) sq by (simp add: layout_def)
  moreover have "qfam (qtab c) no_lists"
    using c(2) by (auto simp: qfam_def lists_made_def no_lists_def CLKQ_def)
  moreover have "kprocs c"
  proof -
    have "pprio_ok (proctab c p)" if "0 < p" "p < NPROC" for p
      using pt [of p] that by (simp add: pprio_ok_def NULLPROC_def)
    moreover have "p = NULLPROC" if "ispid p" "pst c p = PRCURR" for p
      using pt [of p] that by (simp split: if_splits)
    ultimately show ?thesis using pt [of NULLPROC] pr f by (simp add: kprocs_def NPROC_def NULLPROC_def)
  qed
  moreover have "pmember c no_lists p" if "ispid p" for p
  proof -
    have "pst c p \<in> {PRCURR, PRFREE}" using pt [of p] that by simp
    then show ?thesis by (auto simp: pmember_def no_lists_def ploc_def)
  qed
  ultimately have "kq c no_lists {}" by (simp add: kq_def no_lists_def)
  moreover have "ksem c no_lists"
    unfolding ksem_alt using S(4) f(4) by (auto simp: sm sem_ok_def no_lists_def NSEM_def MAXINT_def)
  moreover have "kclk c no_lists" using f by (simp add: kclk_def no_lists_def MAXINT_def)
  ultimately show "kwf s' no_lists" by (simp add: s' kwf_def)
  show "krun s' no_lists" using f pt [of NULLPROC] by (simp add: s' krun_def no_lists_def QUANTUM_def)
  show "currpid s' = NULLPROC" "numproc s' = 0"
    "mem s' = set_ram ramend MAGIC (meminit ramend bss_end (mem s))" "files s' = files s"
    "xcalls s' = xcalls s" "clktime s' = 0" "pst s' NULLPROC = PRCURR"
    using f pt by (simp_all add: s')
  show "owners s' = {}" using pt by (auto simp: s' owners_def NULLPROC_def)
  show "phasmsg (proctab s' p) = phasmsg (proctab s p)"
    using S(5) [of p] unfolding s' f by (simp add: null_entry_def)
qed

text \<open>The memory of the booted system: no process owns anything, and what is free is one block.\<close>

lemma boot_kmem:
  fixes s :: kstate and ramend bss_end main :: int
  defines "s' \<equiv> boot ramend bss_end main s" and "a \<equiv> roundmb (heap_start (mem s))"
    and "n \<equiv> truncmb (u16 (ramend - NULLSTK - bss_end))"
  assumes "0 < memlist (mem s)" "memlist (mem s) < a" "0 < n" "a + n < 65535"
    and "a_putc img \<noteq> 0" "a_getc img \<noteq> 0" "a_kprint img \<noteq> FDFREE"
    and "sflags (files s (a_kprint img)) AND SMALLOC = 0" "\<not> (a \<le> a_kprint img \<and> a_kprint img < a + n)"
  shows "kmem img s' {} {#} [] {a..<a + n}" "knum s' {}"
proof -
  note B = boot_kwf [where s = s and ramend = ramend and bss_end = bss_end and main = main, folded s'_def]
  note M = meminit_memwf [OF assms(4) assms(5) [unfolded a_def] assms(6,7) [unfolded a_def n_def],
      folded a_def n_def]
  have "arena.uses (mem s') {a..<a + n} []"
    using M(1) unfolding B(6) by (auto simp: arena.uses_def memgood_def)
  moreover have "heap_start (mem s') = a" "heap_end (mem s') = a + n"
    unfolding B(6) using M(2,3) by simp_all
  ultimately show "kmem img s' {} {#} [] {a..<a + n}"
    using assms(8-12) B(4,7) by (simp add: kmem_def image_ok_def)
  show "knum s' {}" using B(4,5) by (simp add: knum_def)
qed

end
