(* ===== verification/System.thy ===== *)
theory System
  imports Boot
begin

text \<open>
  The kernel calls together: the processes of a running system call the kernel one after the
  other, lose the processor inside calls and go on where they were when they have it again,
  and the clock interrupts them. A state of the system is the kernel's, and for every process
  what it still has to do in the kernel. The invariant of the kernel and the account of its
  memory hold in every state that can be reached from the boot.
\<close>

section \<open>Calls\<close>

text \<open>The calls of a user process that leave the ownership of memory alone.\<close>

datatype scall =
    CGetpid | CGetprio int | CScount int | CSetnok int int | CSetdev int int int
  | CResume int | CSuspend int | CChprio int int
  | CWait int | CSignal int | CSignaln int int | CSreset int int | CSdelete int | CScreate int
  | CSleep int | CSleep10 int | CStopclk | CStrtclk
  | CSend int int | CSendf int int | CReceive | CRecvclr | CRecvtim int

definition rets :: "(int \<times> kstate) option \<Rightarrow> (kont \<times> kstate) option" where
  "rets r = map_option (\<lambda>(v, s). (KRet v, s)) r"

fun exec :: "scall \<Rightarrow> kstate \<Rightarrow> (kont \<times> kstate) option" where
  "exec CGetpid s = Some (KRet (getpid s), s)"
| "exec (CGetprio p) s = Some (KRet (getprio p s), s)"
| "exec (CScount i) s = Some (KRet (scount i s), s)"
| "exec (CSetnok nok p) s = rets (Some (setnok nok p s))"
| "exec (CSetdev p d1 d2) s = rets (Some (setdev p d1 d2 s))"
| "exec (CResume p) s = rets (resume p s)"
| "exec (CSuspend p) s = suspend p s"
| "exec (CChprio p v) s = rets (chprio p v s)"
| "exec (CWait i) s = rets (wait i s)"
| "exec (CSignal i) s = rets (signal i s)"
| "exec (CSignaln i n) s = rets (signaln i n s)"
| "exec (CSreset i v) s = rets (sreset i v s)"
| "exec (CSdelete i) s = rets (sdelete i s)"
| "exec (CScreate v) s = rets (Some (screate v s))"
| "exec (CSleep n) s = sleep n s"
| "exec (CSleep10 n) s = rets (sleep10 n s)"
| "exec CStopclk s = Some (KRet OK, stopclk s)"
| "exec CStrtclk s = strtclk s"
| "exec (CSend p m) s = rets (send p m s)"
| "exec (CSendf p m) s = rets (sendf p m s)"
| "exec CReceive s = receive s"
| "exec CRecvclr s = rets (Some (recvclr s))"
| "exec (CRecvtim n) s = recvtim n s"

text \<open>What the kernel expects of its callers: the null process makes no call that may block,
  no count overflows, no argument is beyond an \<open>int\<close>.\<close>

fun call_pre :: "scall \<Rightarrow> kstate \<Rightarrow> bool" where
  "call_pre (CChprio p v) s \<longleftrightarrow> v \<le> MAXINT"
| "call_pre (CWait i) s \<longleftrightarrow> currpid s \<noteq> NULLPROC"
| "call_pre (CSignal i) s \<longleftrightarrow> semcnt (semaph s i) < MAXINT"
| "call_pre (CSignaln i n) s \<longleftrightarrow> semcnt (semaph s i) + n \<le> MAXINT"
| "call_pre (CSreset i v) s \<longleftrightarrow> v \<le> MAXINT"
| "call_pre (CScreate v) s \<longleftrightarrow> v \<le> MAXINT"
| "call_pre (CSleep n) s \<longleftrightarrow> currpid s \<noteq> NULLPROC \<or> n \<le> 0"
| "call_pre (CSleep10 n) s \<longleftrightarrow> n \<le> MAXINT \<and> (currpid s \<noteq> NULLPROC \<or> n = 0)"
| "call_pre CStrtclk s \<longleftrightarrow> 0 \<le> clkdiff s \<and> clkdiff s \<le> MAXINT"
| "call_pre (CSendf p m) s \<longleftrightarrow> 0 \<le> phasmsg (proctab s p) \<and> phasmsg (proctab s p) < MAXINT"
| "call_pre CReceive s \<longleftrightarrow> currpid s \<noteq> NULLPROC"
| "call_pre (CRecvtim n) s \<longleftrightarrow> currpid s \<noteq> NULLPROC \<and> n \<le> MAXINT"
| "call_pre _ s \<longleftrightarrow> True"

text \<open>What a process does that has the processor again inside a call.\<close>

fun continue_call :: "kont \<Rightarrow> kstate \<Rightarrow> (kont \<times> kstate) option" where
  "continue_call (KRet v) s = Some (KRet v, s)"
| "continue_call (KSuspend p) s = Some (KRet (suspend_ret p s), s)"
| "continue_call KReceive s = rets (Some (receive_ret s))"
| "continue_call KRecvtim s = rets (Some (recvtim_ret s))"
| "continue_call (KSleep n) s = sleep_loop n s"
| "continue_call (KKill p) s = kill_rest p s"
| "continue_call KKilled s = do { s1 \<leftarrow> kill_panic s; Some (KRet OK, s1) }"
| "continue_call KClkint s = do { s1 \<leftarrow> clkint_preempt s; Some (KRet OK, s1) }"
| "continue_call KStrtclk s = do { s1 \<leftarrow> strtclk_ret s; Some (KRet OK, s1) }"

lemma rets_call:
  "\<exists>v s' L'. r = Some (v, s') \<and> kwf s' L' \<and> krun s' L' \<and> kown s s' \<Longrightarrow>
   \<exists>v s' L'. rets r = Some (v, s') \<and> kwf s' L' \<and> krun s' L' \<and> kown s s'"
  by (auto simp: rets_def)

text \<open>Every call keeps the kernel's contract.\<close>

interpretation system_call: kcall "exec c" "call_pre c"
proof
  fix s L assume s: "kwf s L" "krun s L" and pre: "call_pre c s"
  show "\<exists>v s' L'. exec c s = Some (v, s') \<and> kwf s' L' \<and> krun s' L' \<and> kown s s'"
  proof (cases c)
    case (CSetnok nok p)
    show ?thesis
      unfolding CSetnok exec.simps by (rule rets_call, rule setnok_call.kinv_call [OF s]) (use pre CSetnok in simp)
  next
    case (CSetdev p d1 d2)
    show ?thesis
      unfolding CSetdev exec.simps by (rule rets_call, rule setdev_call.kinv_call [OF s]) (use pre CSetdev in simp)
  next
    case (CResume p)
    show ?thesis
      unfolding CResume exec.simps by (rule rets_call, rule resume_call.kinv_call [OF s]) (use pre CResume in simp)
  next
    case (CSuspend p)
    then show ?thesis using pre suspend_call.kinv_call [OF s] by (simp)
  next
    case (CChprio p v)
    show ?thesis
      unfolding CChprio exec.simps by (rule rets_call, rule chprio_call.kinv_call [OF s]) (use pre CChprio in simp)
  next
    case (CWait i)
    show ?thesis
      unfolding CWait exec.simps by (rule rets_call, rule wait_call.kinv_call [OF s]) (use pre CWait in simp)
  next
    case (CSignal i)
    show ?thesis
      unfolding CSignal exec.simps by (rule rets_call, rule signal_call.kinv_call [OF s]) (use pre CSignal in simp)
  next
    case (CSignaln i n)
    show ?thesis
      unfolding CSignaln exec.simps by (rule rets_call, rule signaln_call.kinv_call [OF s]) (use pre CSignaln in simp)
  next
    case (CSreset i v)
    show ?thesis
      unfolding CSreset exec.simps by (rule rets_call, rule sreset_call.kinv_call [OF s]) (use pre CSreset in simp)
  next
    case (CSdelete i)
    show ?thesis
      unfolding CSdelete exec.simps by (rule rets_call, rule sdelete_call.kinv_call [OF s]) (use pre CSdelete in simp)
  next
    case (CScreate v)
    show ?thesis
      unfolding CScreate exec.simps by (rule rets_call, rule screate_call.kinv_call [OF s]) (use pre CScreate in simp)
  next
    case (CSleep n)
    then show ?thesis using pre sleep_call.kinv_call [OF s] by (simp)
  next
    case (CSleep10 n)
    show ?thesis
      unfolding CSleep10 exec.simps by (rule rets_call, rule sleep10_call.kinv_call [OF s]) (use pre CSleep10 in simp)
  next
    case CStrtclk
    then show ?thesis using pre strtclk_call.kinv_call [OF s] by (simp)
  next
    case (CSend p m)
    show ?thesis
      unfolding CSend exec.simps by (rule rets_call, rule send_call.kinv_call [OF s]) (use pre CSend in simp)
  next
    case (CSendf p m)
    show ?thesis
      unfolding CSendf exec.simps by (rule rets_call, rule sendf_call.kinv_call [OF s]) (use pre CSendf in simp)
  next
    case CReceive
    then show ?thesis using pre receive_call.kinv_call [OF s] by (simp)
  next
    case CRecvclr
    show ?thesis
      unfolding CRecvclr exec.simps by (rule rets_call, rule recvclr_call.kinv_call [OF s]) (use pre CRecvclr in simp)
  next
    case (CRecvtim n)
    then show ?thesis using pre recvtim_call.kinv_call [OF s] by (simp)
  next
    case CStopclk
    have "kwf (stopclk s) L" "krun (stopclk s) L" "kown s (stopclk s)"
      using stopclk_call.kinv_call [OF s TrueI] s by (simp_all add: stopclk_def krun_def)
    then show ?thesis using CStopclk by auto
  qed (use s in auto)
qed

text \<open>Only \<open>kill\<close> leaves a process in the middle of killing, and the null process never
  sleeps.\<close>

fun kont_ok :: "int \<Rightarrow> int set \<Rightarrow> kont \<Rightarrow> bool" where
  "kont_ok p D (KKill q) \<longleftrightarrow> q \<in> D"
| "kont_ok p D KKilled \<longleftrightarrow> False"
| "kont_ok p D (KSleep n) \<longleftrightarrow> p \<noteq> NULLPROC \<or> n \<le> 0"
| "kont_ok p D _ \<longleftrightarrow> True"

fun kills :: "kont \<Rightarrow> int option" where
  "kills (KKill q) = Some q"
| "kills _ = None"

lemma sleep_loop_kont:
  "sleep_loop n s = Some (k, s') \<Longrightarrow> currpid s \<noteq> NULLPROC \<or> n \<le> 0 \<Longrightarrow>
    kont_ok (currpid s) D k \<and> kills k = None"
  by (auto simp: sleep_loop_def Option.bind_eq_Some_conv split: if_splits)

lemma exec_kont:
  assumes "exec c s = Some (k, s')" "call_pre c s"
  shows "kont_ok (currpid s) D k" "kills k = None"
proof -
  have "kont_ok (currpid s) D k \<and> kills k = None"
  proof (cases c)
    case (CSleep n)
    then show ?thesis
      using assms sleep_loop_kont [of n s k s' D] by (auto simp: sleep_def Option.bind_eq_Some_conv split: if_splits)
  qed (use assms in \<open>auto simp: rets_def suspend_def strtclk_def receive_def recvtim_def Let_def
      Option.bind_eq_Some_conv split: if_splits prod.splits\<close>)
  then show "kont_ok (currpid s) D k" "kills k = None" by simp_all
qed

lemma continue_kont:
  assumes "continue_call c s = Some (k, s')" "kills c = None" "kont_ok (currpid s) D c"
  shows "kont_ok (currpid s) D k" "kills k = None"
proof -
  have "kont_ok (currpid s) D k \<and> kills k = None"
    using assms sleep_loop_kont [of _ s k s' D]
    by (cases c) (auto simp: rets_def Option.bind_eq_Some_conv split: prod.splits)
  then show "kont_ok (currpid s) D k" "kills k = None" by simp_all
qed

text \<open>An interrupt returns to the process, or stops inside.\<close>

definition yields :: "kont set \<Rightarrow> (kont \<times> kstate) option \<Rightarrow> bool" where
  "yields K r \<longleftrightarrow> (\<forall>k s. r = Some (k, s) \<longrightarrow> k \<in> K)"

lemma yields_intros [intro]:
  "k \<in> K \<Longrightarrow> yields K (Some (k, s))"
  "(\<And>x. yields K (f x)) \<Longrightarrow> yields K (Option.bind r f)"
  "yields K a \<Longrightarrow> yields K b \<Longrightarrow> yields K (if c then a else b)"
  by (cases r; auto simp: yields_def)+

lemma clkint_kont: "clkint s = Some (k, s') \<Longrightarrow> k \<in> {KRet OK, KClkint}"
proof -
  have t: "yields {KRet OK, KClkint} (clkint_tick s)" for s
    unfolding clkint_tick_def Let_def split_def by (intro yields_intros) simp_all
  have "yields {KRet OK, KClkint} (clkint s)"
    unfolding clkint_def Let_def by (intro yields_intros t) simp_all
  then show "clkint s = Some (k, s') \<Longrightarrow> k \<in> {KRet OK, KClkint}" by (simp add: yields_def)
qed

interpretation continue_call: kcall "continue_call c" "\<lambda>s. kills c = None \<and> kont_ok (currpid s) {} c"
proof
  fix s L assume s: "kwf s L" "krun s L" and c: "kills c = None \<and> kont_ok (currpid s) {} c"
  show "\<exists>v s' L'. continue_call c s = Some (v, s') \<and> kwf s' L' \<and> krun s' L' \<and> kown s s'"
  proof (cases c)
    case KReceive
    show ?thesis
      unfolding KReceive continue_call.simps by (rule rets_call, rule receive_ret_call.kinv_call [OF s]) simp
  next
    case KRecvtim
    show ?thesis
      unfolding KRecvtim continue_call.simps by (rule rets_call, rule recvtim_ret_call.kinv_call [OF s]) simp
  next
    case (KSleep n)
    then show ?thesis using c sleep_loop_call.kinv_call [OF s, of n] by simp
  next
    case KClkint
    then show ?thesis using clkint_preempt_call.kinv_call [OF s] by (auto simp: kvoid_def)
  next
    case KStrtclk
    then show ?thesis using strtclk_ret_call.kinv_call [OF s] by (auto simp: kvoid_def)
  qed (use s c in auto)
qed

section \<open>The system\<close>

record sys =
  kern :: kstate
  konts :: "int \<Rightarrow> kont"
  dying :: "int set"
  ublk :: "block multiset"

abbreviation running :: "sys \<Rightarrow> int" where
  "running S \<equiv> currpid (kern S)"

abbreviation in_user :: "sys \<Rightarrow> bool" where
  "in_user S \<equiv> \<exists>v. konts S (running S) = KRet v"

definition after :: "sys \<Rightarrow> kont \<Rightarrow> kstate \<Rightarrow> sys" where
  "after S k s = S\<lparr>kern := s, konts := (konts S)(running S := k)\<rparr>"

text \<open>A process may write to the blocks that were allocated by direct calls and to its own stack.\<close>

definition writable :: "sys \<Rightarrow> int set" where
  "writable S = (\<Union>(a, r) \<in> set_mset (ublk S). arena_area a r) \<union>
     (if running S = NULLPROC then {}
      else case stack_block (proctab (kern S) (running S)) of (a, r) \<Rightarrow> arena_area a r)"

text \<open>The steps. A process is not killed a second time while it is dying.\<close>

inductive kstep :: "image \<Rightarrow> sys \<Rightarrow> sys \<Rightarrow> bool" for img where
  call: "in_user S \<Longrightarrow> call_pre c (kern S) \<Longrightarrow> exec c (kern S) = Some (k, s') \<Longrightarrow>
    kstep img S (after S k s')"
| create: "in_user S \<Longrightarrow> pri \<le> MAXINT \<Longrightarrow> create img f n pri nam args (kern S) = Some (p, s') \<Longrightarrow>
    kstep img S (after (if p = SYSERR then S else S\<lparr>konts := (konts S)(p := KRet 0)\<rparr>) (KRet p) s')"
| kill: "in_user S \<Longrightarrow> p \<notin> dying S \<Longrightarrow> kill p (kern S) = Some (k, s') \<Longrightarrow>
    kstep img S ((after S k s')\<lparr>dying := (if k = KKill p then insert p (dying S) else dying S)\<rparr>)"
| finish_kill: "konts S (running S) = KKill p \<Longrightarrow> continue_call (KKill p) (kern S) = Some (k, s') \<Longrightarrow>
    kstep img S ((after S k s')\<lparr>dying := dying S - {p}\<rparr>)"
| finish_call: "kills (konts S (running S)) = None \<Longrightarrow>
    continue_call (konts S (running S)) (kern S) = Some (k, s') \<Longrightarrow> kstep img S (after S k s')"
| tick: "in_user S \<Longrightarrow> clktime (kern S) < 2147483647 \<Longrightarrow> - 2147483648 \<le> clktime (kern S) \<Longrightarrow>
    clkint (kern S) = Some (k, s') \<Longrightarrow> kstep img S (after S k s')"
| get: "in_user S \<Longrightarrow> size_ok (snd r) \<Longrightarrow> arena_take r (mem (kern S)) = Some (a, m) \<Longrightarrow> a \<noteq> SYSPTR \<Longrightarrow>
    kstep img S ((after S (KRet a) (kern S\<lparr>mem := m\<rparr>))\<lparr>ublk := add_mset (a, r) (ublk S)\<rparr>)"
| no_get: "in_user S \<Longrightarrow> size_ok (snd r) \<Longrightarrow> arena_take r (mem (kern S)) = Some (SYSPTR, m) \<Longrightarrow>
    kstep img S (after S (KRet SYSPTR) (kern S\<lparr>mem := m\<rparr>))"
| give: "in_user S \<Longrightarrow> (a, r) \<in># ublk S \<Longrightarrow> arena_give a r (mem (kern S)) = Some (v, m) \<Longrightarrow>
    kstep img S ((after S (KRet v) (kern S\<lparr>mem := m\<rparr>))\<lparr>ublk := ublk S - {#(a, r)#}\<rparr>)"
| store: "in_user S \<Longrightarrow> a \<in> writable S \<Longrightarrow>
    kstep img S (S\<lparr>kern := (kern S)\<lparr>mem := set_ram a v (mem (kern S))\<rparr>\<rparr>)"

inductive_cases kstepE: "kstep img S S'"

definition konts_ok :: "(int \<Rightarrow> kont) \<Rightarrow> int set \<Rightarrow> int set \<Rightarrow> bool" where
  "konts_ok K P D \<longleftrightarrow> (\<forall>p \<in> P. kont_ok p D (K p)) \<and>
     (\<forall>p \<in> P. \<forall>q \<in> P. \<forall>x. K p = KKill x \<longrightarrow> K q = KKill x \<longrightarrow> p = q)"

definition sysinv :: "image \<Rightarrow> sys \<Rightarrow> bool" where
  "sysinv img S \<longleftrightarrow>
     (\<exists>L live F. kwf (kern S) L \<and> krun (kern S) L \<and> kmem img (kern S) (dying S) (ublk S) live F) \<and>
     knum (kern S) (dying S) \<and> konts_ok (konts S) (insert NULLPROC (owners (kern S))) (dying S)"

section \<open>The steps keep the invariant\<close>

lemma kills_Some: "kills k = Some q \<longleftrightarrow> k = KKill q"
  by (cases k) simp_all

lemma kont_ok_mono: "kont_ok p D k \<Longrightarrow> (\<And>q. kills k = Some q \<Longrightarrow> q \<in> D') \<Longrightarrow> kont_ok p D' k"
  by (cases k) simp_all

lemma konts_okD:
  assumes "konts_ok K P D"
  shows "p \<in> P \<Longrightarrow> kont_ok p D (K p)" "p \<in> P \<Longrightarrow> K p = KKill x \<Longrightarrow> x \<in> D"
    "p \<in> P \<Longrightarrow> q \<in> P \<Longrightarrow> K p = KKill x \<Longrightarrow> K q = KKill x \<Longrightarrow> p = q"
proof -
  show k: "kont_ok p D (K p)" if "p \<in> P" for p using assms that by (simp add: konts_ok_def)
  show "x \<in> D" if "p \<in> P" "K p = KKill x" using k [OF that(1)] that(2) by simp
  show "p = q" if "p \<in> P" "q \<in> P" "K p = KKill x" "K q = KKill x"
    using assms that unfolding konts_ok_def by blast
qed

lemma konts_plain:
  assumes "konts_ok K P D" "P' \<subseteq> insert r P" "kont_ok r D k" "kills k = None"
  shows "konts_ok (K(r := k)) P' D"
  unfolding konts_ok_def
proof (intro conjI ballI allI impI)
  show "kont_ok p D ((K(r := k)) p)" if "p \<in> P'" for p
    using konts_okD(1) [OF assms(1), of p] assms(2,3) that by auto
  show "p = q" if "p \<in> P'" "q \<in> P'" "(K(r := k)) p = KKill x" "(K(r := k)) q = KKill x" for p q x
    using konts_okD(3) [OF assms(1), of p q x] assms(2,4) that by (auto split: if_splits)
qed

lemma konts_begin:
  assumes "konts_ok K P D" "P' \<subseteq> P" "x \<notin> D"
  shows "konts_ok (K(r := KKill x)) P' (insert x D)"
  unfolding konts_ok_def
proof (intro conjI ballI allI impI)
  show "kont_ok p (insert x D) ((K(r := KKill x)) p)" if "p \<in> P'" for p
    using kont_ok_mono [OF konts_okD(1) [OF assms(1), of p]] konts_okD(2) [OF assms(1), of p] assms(2) that
    by (auto simp: kills_Some)
  show "p = q" if "p \<in> P'" "q \<in> P'" "(K(r := KKill x)) p = KKill y" "(K(r := KKill x)) q = KKill y" for p q y
    using konts_okD(2) [OF assms(1), of _ y] konts_okD(3) [OF assms(1), of p q y] assms(2,3) that
    by (auto split: if_splits)
qed

lemma konts_end:
  assumes "konts_ok K P D" "P' \<subseteq> P" "K r = KKill x" "r \<in> P" "k = KRet v \<or> k = KKilled \<and> r \<notin> P'"
  shows "konts_ok (K(r := k)) P' (D - {x})"
  unfolding konts_ok_def
proof (intro conjI ballI allI impI)
  have ne: "K p \<noteq> KKill x" if "p \<in> P" "p \<noteq> r" for p
    using konts_okD(3) [OF assms(1) that(1) assms(4) _ assms(3)] that(2) by blast
  show "kont_ok p (D - {x}) ((K(r := k)) p)" if "p \<in> P'" for p
    using kont_ok_mono [OF konts_okD(1) [OF assms(1), of p], of "D - {x}"] konts_okD(2) [OF assms(1), of p]
      ne [of p] assms(2,5) that by (auto simp: kills_Some)
  show "p = q" if "p \<in> P'" "q \<in> P'" "(K(r := k)) p = KKill y" "(K(r := k)) q = KKill y" for p q y
    using konts_okD(3) [OF assms(1), of p q y] assms(2,5) that by (auto split: if_splits)
qed

lemma running_owner: "kwf s L \<Longrightarrow> krun s L \<Longrightarrow> currpid s \<in> insert NULLPROC (owners s)"
  using kwf_running [of s L] by (auto simp: owners_def NULLPROC_def)

text \<open>Steps that leave the ownership of memory alone.\<close>

lemma sysinv_call:
  assumes I: "sysinv img S" and c: "kcall c pre" "pre (kern S)" "c (kern S) = Some (k, s')"
    and k: "kont_ok (running S) (dying S) k" "kills k = None"
  shows "sysinv img (after S k s')"
proof -
  obtain L live F where s: "kwf (kern S) L" "krun (kern S) L"
    and m: "kmem img (kern S) (dying S) (ublk S) live F" using I by (auto simp: sysinv_def)
  obtain L' where s': "kwf s' L'" "krun s' L'" and o: "kown (kern S) s'"
    using kcall.kinv_call [OF c(1) s c(2)] c(3) by auto
  have "konts_ok (konts (after S k s')) (insert NULLPROC (owners s')) (dying S)"
    unfolding after_def kown_owners [OF o] using I
    by (auto simp: sysinv_def intro!: konts_plain k)
  then show ?thesis
    using s' m I kown_kmem [OF o] unfolding sysinv_def after_def by auto
qed

text \<open>Killing.\<close>

lemma kill_rest_result:
  assumes "kwf s L" "krun s L" "kmem img s D U live F" "p \<in> D" "kill_rest p s = Some (k, s')"
  obtains L' live' F' where "kwf s' L'" "krun s' L'" "kmem img s' (D - {p}) U live' F'"
    "knum s' (D - {p}) = knum s D" "p = currpid s \<Longrightarrow> k = KKilled" "p \<noteq> currpid s \<Longrightarrow> k = KRet OK"
    "owners s' = owners s - {p}"
proof (rule kill_rest_wf [OF assms(1-4)], goal_cases)
  case (1 v s1 L')
  then show ?case using assms(5) that by simp
qed

lemma sysinv_kill:
  assumes I: "sysinv img S" and p: "p \<notin> dying S" and c: "kill p (kern S) = Some (k, s')"
  shows "sysinv img ((after S k s')\<lparr>dying := (if k = KKill p then insert p (dying S) else dying S)\<rparr>)"
proof (cases "isbadpid p \<or> pst (kern S) p = PRFREE")
  case True
  then have e: "k = KRet SYSERR" "s' = kern S" using c by (auto simp: kill_def)
  then show ?thesis
    using I unfolding sysinv_def after_def by (auto intro!: konts_plain)
next
  case False
  obtain L live F where s: "kwf (kern S) L" "krun (kern S) L"
    and m: "kmem img (kern S) (dying S) (ublk S) live F" using I by (auto simp: sysinv_def)
  have n: "knum (kern S) (dying S)" using I by (simp add: sysinv_def)
  let ?P = "insert NULLPROC (owners (kern S))"
  have K: "konts_ok (konts S) ?P (dying S)" using I by (simp add: sysinv_def)
  have np: "\<not> isbadpid p" "pst (kern S) p \<noteq> PRFREE" using False by simp_all
  obtain m' s3 L3 where
    r: "kill p (kern S) = (if currpid s3 \<noteq> running S then Some (KKill p, s3) else kill_rest p s3)"
    and own: "kown (kill_closed p (kern S) m') s3"
    and s3: "kwf s3 L3" "krun s3 L3" "kmem img s3 (insert p (dying S)) (ublk S)
      (drop_streams (proctab (kern S) p) live) (F \<union> streams_area (proctab (kern S) p))"
      "knum s3 (insert p (dying S))"
    by (rule kill_start [OF s m n np p]) blast
  have o3: "owners s3 = owners (kern S)" by (simp add: kown_owners [OF own])
  show ?thesis
  proof (cases "currpid s3 = running S")
    case False
    then have e: "k = KKill p" "s' = s3" using c r by simp_all
    have "konts_ok ((konts S)(running S := KKill p)) ?P (insert p (dying S))"
      by (rule konts_begin [OF K subset_refl p])
    then show ?thesis using e s3 o3 unfolding sysinv_def after_def by auto
  next
    case True
    have pin: "p \<in> insert p (dying S)" by simp
    have r3: "kill_rest p s3 = Some (k, s')" using c r True by simp
    obtain L4 live4 F4 where r4: "kwf s' L4" "krun s' L4"
      "kmem img s' (insert p (dying S) - {p}) (ublk S) live4 F4"
      "knum s' (insert p (dying S) - {p}) = knum s3 (insert p (dying S))"
      "p = currpid s3 \<Longrightarrow> k = KKilled" "p \<noteq> currpid s3 \<Longrightarrow> k = KRet OK"
      "owners s' = owners s3 - {p}"
      by (rule kill_rest_result [OF s3(1-3) pin r3]) blast
    have D: "insert p (dying S) - {p} = dying S" using p by simp
    have p0: "p \<noteq> NULLPROC" using \<open>\<not> (isbadpid p \<or> _)\<close> by (auto simp: isbadpid_def NULLPROC_def)
    have "konts_ok ((konts S)(running S := k)) (insert NULLPROC (owners s')) (dying S)"
    proof (cases "p = currpid s3")
      case True
      have "konts_ok (konts S) (insert NULLPROC (owners s')) (dying S)"
        using K r4(7) o3 unfolding konts_ok_def by auto
      moreover have "running S \<notin> insert NULLPROC (owners s')"
        using True \<open>currpid s3 = running S\<close> p0 r4(7) by auto
      ultimately show ?thesis unfolding konts_ok_def by auto
    next
      case False
      then show ?thesis using r4(6,7) o3 by (intro konts_plain [OF K]) auto
    qed
    moreover have "k \<noteq> KKill p" using r4(5,6) by (cases "p = currpid s3") auto
    ultimately show ?thesis
      using r4(1-4) s3(4) unfolding D sysinv_def after_def by auto
  qed
qed

lemma sysinv_finish_kill:
  assumes I: "sysinv img S" and p: "konts S (running S) = KKill p"
    and c: "kill_rest p (kern S) = Some (k, s')"
  shows "sysinv img ((after S k s')\<lparr>dying := dying S - {p}\<rparr>)"
proof -
  obtain L live F where s: "kwf (kern S) L" "krun (kern S) L"
    and m: "kmem img (kern S) (dying S) (ublk S) live F" using I by (auto simp: sysinv_def)
  let ?P = "insert NULLPROC (owners (kern S))"
  have K: "konts_ok (konts S) ?P (dying S)" using I by (simp add: sysinv_def)
  have run: "running S \<in> ?P" by (rule running_owner [OF s])
  have pD: "p \<in> dying S" by (rule konts_okD(2) [OF K run p])
  obtain L4 live4 F4 where r4: "kwf s' L4" "krun s' L4"
    "kmem img s' (dying S - {p}) (ublk S) live4 F4" "knum s' (dying S - {p}) = knum (kern S) (dying S)"
    "p = running S \<Longrightarrow> k = KKilled" "p \<noteq> running S \<Longrightarrow> k = KRet OK"
    "owners s' = owners (kern S) - {p}"
    by (rule kill_rest_result [OF s m pD c]) blast
  have "p \<noteq> NULLPROC" using pD kmemD(4) [OF m] by (auto simp: owners_def NULLPROC_def)
  then have "konts_ok ((konts S)(running S := k)) (insert NULLPROC (owners s')) (dying S - {p})"
    using r4(5-7) by (intro konts_end [OF K _ p run, of _ k OK]) auto
  then show ?thesis using r4(1-4) I unfolding sysinv_def after_def by auto
qed

text \<open>A new process.\<close>

lemma create_result:
  assumes "kwf s L" "krun s L" "kmem img s D U live F" "knum s D" "pri \<le> MAXINT"
    and "create img f n pri nam args s = Some (p, s')"
  obtains live' F' where "kwf s' L" "krun s' L" "kmem img s' D U live' F'" "knum s' D"
    "currpid s' = currpid s" "owners s' = (if p = SYSERR then owners s else insert p (owners s))"
proof (rule create_cases [OF assms(1-5), of f n nam args], goal_cases)
  case 1
  then show ?case using assms(6) by simp
next
  case (2 m j)
  moreover have "owners (s\<lparr>mem := m, nextproc := j\<rparr>) = owners s" by (simp add: owners_def)
  ultimately show ?case using assms(6) that [of live F] by simp
next
  case (3 q s1)
  have e: "q = p" "s1 = s'" using 3(2) assms(6) by auto
  have "p \<noteq> SYSERR" "0 < p" "p < NPROC" using 3(3) e by (auto simp: isbadpid_def SYSERR_def)
  moreover have "owners s' = insert p (owners s)"
  proof (rule set_eqI)
    fix x
    show "x \<in> owners s' \<longleftrightarrow> x \<in> insert p (owners s)"
      using 3(10) created_beside_entry(2) [OF 3(13), of x] calculation e by (cases "x = p") (auto simp: owners_def)
  qed
  ultimately show ?case using 3(5-9) e that by simp
qed

lemma sysinv_create:
  assumes I: "sysinv img S" and c: "create img f n pri nam args (kern S) = Some (p, s')" and pr: "pri \<le> MAXINT"
  shows "sysinv img (after (if p = SYSERR then S else S\<lparr>konts := (konts S)(p := KRet 0)\<rparr>) (KRet p) s')"
proof -
  obtain L live F where s: "kwf (kern S) L" "krun (kern S) L"
    and m: "kmem img (kern S) (dying S) (ublk S) live F" using I by (auto simp: sysinv_def)
  have n: "knum (kern S) (dying S)" using I by (simp add: sysinv_def)
  let ?P = "insert NULLPROC (owners (kern S))"
  have K: "konts_ok (konts S) ?P (dying S)" using I by (simp add: sysinv_def)
  obtain live' F' where r: "kwf s' L" "krun s' L" "kmem img s' (dying S) (ublk S) live' F'"
    "knum s' (dying S)" "owners s' = (if p = SYSERR then owners (kern S) else insert p (owners (kern S)))"
    by (rule create_result [OF s m n pr c]) blast
  let ?K = "if p = SYSERR then konts S else (konts S)(p := KRet 0)"
  have "konts_ok ?K (insert NULLPROC (owners s')) (dying S)"
    using K konts_plain [OF K, of _ p "KRet 0"] r(5) by (cases "p = SYSERR") (simp_all add: insert_commute)
  then have "konts_ok (?K(running S := KRet p)) (insert NULLPROC (owners s')) (dying S)"
    by (rule konts_plain) auto
  then show ?thesis using r(1-4) by (auto simp: sysinv_def after_def)
qed

section \<open>Memory\<close>

lemma sysinv_mem:
  assumes I: "sysinv img S" and m: "\<And>live F. kmem img (kern S) (dying S) (ublk S) live F \<Longrightarrow>
    \<exists>live' F'. kmem img (kern S\<lparr>mem := m\<rparr>) (dying S) U' live' F'"
  shows "sysinv img (S\<lparr>kern := kern S\<lparr>mem := m\<rparr>, ublk := U'\<rparr>)"
    "sysinv img ((after S (KRet v) (kern S\<lparr>mem := m\<rparr>))\<lparr>ublk := U'\<rparr>)"
proof -
  obtain L live F where s: "kwf (kern S) L" "krun (kern S) L"
    and k: "kmem img (kern S) (dying S) (ublk S) live F" using I by (auto simp: sysinv_def)
  have w: "kwf (kern S\<lparr>mem := m\<rparr>) L" "krun (kern S\<lparr>mem := m\<rparr>) L" using s by simp_all
  have o: "owners (kern S\<lparr>mem := m\<rparr>) = owners (kern S)" "knum (kern S\<lparr>mem := m\<rparr>) = knum (kern S)"
    by (simp_all add: owners_def knum_def fun_eq_iff)
  have K: "konts_ok (konts S) (insert NULLPROC (owners (kern S))) (dying S)"
    using I by (simp add: sysinv_def)
  show "sysinv img (S\<lparr>kern := kern S\<lparr>mem := m\<rparr>, ublk := U'\<rparr>)"
    using w m [OF k] o K I by (auto simp: sysinv_def)
  have "konts_ok ((konts S)(running S := KRet v)) (insert NULLPROC (owners (kern S))) (dying S)"
    by (rule konts_plain [OF K]) auto
  then show "sysinv img ((after S (KRet v) (kern S\<lparr>mem := m\<rparr>))\<lparr>ublk := U'\<rparr>)"
    using w m [OF k] o I by (auto simp: sysinv_def after_def)
qed

lemma kmem_take:
  assumes k: "kmem img s D U live F" and r: "size_ok (snd r)" "arena_take r (mem s) = Some (a, m)" "a \<noteq> SYSPTR"
  shows "\<exists>live' F'. kmem img (s\<lparr>mem := m\<rparr>) D (add_mset (a, r) U) live' F'"
proof -
  note T = arena.take_uses [OF kmemD(1) [OF k] r]
  have "arena_area a r \<subseteq> F"
    using arena.take_cases [of "mem s" F r] kmemD(1) [OF k] r by (auto simp: arena.uses_def)
  then have "kmem img (s\<lparr>mem := m\<rparr>) D (add_mset (a, r) U) ((a, r) # live) (F - arena_area a r)"
    by (intro kmem_step [OF k]) (use T in auto)
  then show ?thesis by blast
qed

lemma kmem_user: "kmem img s D U live F \<Longrightarrow> b \<in># U \<Longrightarrow> b \<in> set live"
  using kmemD(2) [of img s D U live F] by (metis set_mset_mset union_iff)

lemma kmem_give:
  assumes k: "kmem img s D U live F" and b: "(a, r) \<in># U" "arena_give a r (mem s) = Some (v, m)"
  shows "\<exists>live' F'. kmem img (s\<lparr>mem := m\<rparr>) D (U - {#(a, r)#}) live' F'" "v = OK"
proof -
  have live: "(a, r) \<in> set live"
    by (rule kmem_user [OF k b(1)])
  obtain F' where m: "arena.uses m F' (remove1 (a, r) live)" "mbound m = mbound (mem s)"
    "ram m = ram (mem s)" "v = OK"
    by (rule arena.give_uses [OF kmemD(1) [OF k] live]) (use b(2) in auto)
  have "kmem img (s\<lparr>mem := m\<rparr>) D (U - {#(a, r)#}) (remove1 (a, r) live) F'"
    by (rule kmem_step [OF k]) (use m b(1) live in \<open>auto simp: multiset_eq_iff\<close>)
  then show "\<exists>live' F'. kmem img (s\<lparr>mem := m\<rparr>) D (U - {#(a, r)#}) live' F'" by blast
  show "v = OK" by (rule m(4))
qed

text \<open>The blocks that back the streams are nobody else's.\<close>

lemma kmem_apart:
  assumes k: "kmem img s D U live F" and q: "q \<in> owners s" "q \<notin> D"
    and f: "f \<in> {fildes (proctab s q) 0, fildes (proctab s q) 1}"
    and b: "b \<in># U \<or> (\<exists>p \<in> owners s. b = stack_block (proctab s p))"
  shows "arena_area (fst b) (snd b) \<inter> arena_area (f - 2) (False, 18) = {}"
proof -
  have live: "stream_block f \<in> set live" "b \<in> set live"
    using kmem_blocks [OF k] kmem_user [OF k, of b] f q b by auto
  have "b \<noteq> stream_block f"
  proof
    assume e: "b = stream_block f"
    then have U: "b \<in># U" using b by (auto simp: stack_block_def stream_block_def)
    have "stream_block f \<in># pblocks s D q" using f q(2) by (auto simp: pblocks_def)
    then have "b \<in># (\<Sum>p \<in> owners s. pblocks s D p)"
      using e q(1) by (auto simp: sum.remove [OF finite_owners q(1)])
    then have "2 \<le> count (mset live) b"
      using U kmemD(2) [OF k] by (simp add: numeral_2_eq_2 count_greater_eq_Suc_zero_iff [symmetric] del: count_greater_eq_Suc_zero_iff)
    moreover have "count (mset live) b \<le> 1"
      using arena_distinct [OF kmemD(1) [OF k]] distinct_count_atmost_1 by (metis order_refl zero_le_one)
    ultimately show False by simp
  qed
  then show ?thesis
    using arena.uses_apart [OF kmemD(1) [OF k], of "fst b" "snd b" "f - 2" "(False, 18)"] live
    by (auto simp: stream_block_def)
qed

lemma kmem_store:
  assumes k: "kmem img s D U live F"
    and a: "\<exists>b. (b \<in># U \<or> (\<exists>p \<in> owners s. b = stack_block (proctab s p))) \<and> a \<in> arena_area (fst b) (snd b)"
  shows "kmem img (s\<lparr>mem := set_ram a v (mem s)\<rparr>) D U live F"
proof -
  let ?s = "s\<lparr>mem := set_ram a v (mem s)\<rparr>"
  obtain b where b: "b \<in># U \<or> (\<exists>p \<in> owners s. b = stack_block (proctab s p))"
    "a \<in> arena_area (fst b) (snd b)" using a by blast
  have "stdio img ?s q" if q: "q \<in> owners s" "q \<notin> D" for q
  proof (rule stdio_kept [OF kmemD(3) [OF k q]])
    fix f assume f: "f \<in> {fildes (proctab s q) 0, fildes (proctab s q) 1}"
    then have "stream_block f \<in> set live" using kmem_blocks(2,3) [OF k q] by auto
    note r = stream_block_range(1,2,5) [OF kmemD(1) [OF k] this]
    have "a \<noteq> f - 2" "a \<noteq> f - 1" using kmem_apart [OF k q f b(1)] b(2) r(1,2) by auto
    then have "get_word (mem ?s) (f - 2) = get_word (mem s) (f - 2)"
      using r(3) by (intro get_word_cong) simp_all
    then show "files ?s f = files s f \<and> get_word (mem ?s) (f - 2) = get_word (mem s) (f - 2)" by simp
  qed simp
  moreover have "image_ok img ?s" using kmemD(5) [OF k] by (simp add: image_ok_def)
  moreover have "owners ?s = owners s" "pblocks ?s D = pblocks s D"
    by (simp_all add: owners_def pblocks_def fun_eq_iff)
  ultimately show ?thesis using kmemD [OF k] by (simp add: kmem_def)
qed

lemma writable_block:
  assumes "a \<in> writable S" "kwf (kern S) L" "krun (kern S) L"
  shows "\<exists>b. (b \<in># ublk S \<or> (\<exists>p \<in> owners (kern S). b = stack_block (proctab (kern S) p))) \<and>
    a \<in> arena_area (fst b) (snd b)"
proof (cases "\<exists>b \<in> set_mset (ublk S). a \<in> arena_area (fst b) (snd b)")
  case True
  then show ?thesis by blast
next
  case False
  then have r: "running S \<noteq> NULLPROC" "a \<in> arena_area (fst b) (snd b)"
    if "b = stack_block (proctab (kern S) (running S))" for b
    using assms(1) that by (auto simp: writable_def stack_block_def split: if_splits)
  then show ?thesis using running_owner [OF assms(2,3)] by blast
qed

section \<open>The invariant holds in every state that can be reached\<close>

theorem kstep_inv: "kstep img S S' \<Longrightarrow> sysinv img S \<Longrightarrow> sysinv img S'"
proof (induction rule: kstep.induct)
  case (call S c k s')
  show ?case
    by (rule sysinv_call [OF call(4) system_call.kcall_axioms call(2,3) exec_kont [OF call(3,2)]])
next
  case (create S pri f n nam args p s')
  show ?case by (rule sysinv_create [OF create(4,3,2)])
next
  case (kill S p k s')
  show ?case by (rule sysinv_kill [OF kill(4,2,3)])
next
  case (finish_kill S p k s')
  show ?case by (rule sysinv_finish_kill [OF finish_kill(3,1)]) (use finish_kill(2) in simp)
next
  case (finish_call S k s')
  obtain L where s: "kwf (kern S) L" "krun (kern S) L" using finish_call(3) by (auto simp: sysinv_def)
  have K: "konts_ok (konts S) (insert NULLPROC (owners (kern S))) (dying S)"
    using finish_call(3) by (simp add: sysinv_def)
  have "kont_ok (running S) (dying S) (konts S (running S))"
    by (rule konts_okD(1) [OF K running_owner [OF s]])
  then have k: "kont_ok (running S) D (konts S (running S))" for D
    by (rule kont_ok_mono) (simp add: finish_call(1))
  show ?case
    by (rule sysinv_call [OF finish_call(3) continue_call.kcall_axioms _ finish_call(2)
        continue_kont [OF finish_call(2,1) k]]) (use finish_call(1) k in simp)
next
  case (tick S k s')
  have "kont_ok (running S) (dying S) k" "kills k = None"
    using clkint_kont [OF tick(4)] by auto
  then show ?case
    by (intro sysinv_call [OF tick(5) clkint_call.kcall_axioms _ tick(4)]) (use tick in simp_all)
next
  case (get S r a m)
  show ?case by (rule sysinv_mem(2) [OF get(5)]) (rule kmem_take [OF _ get(2-4)])
next
  case (no_get S r m)
  have "sysinv img ((after S (KRet SYSPTR) (kern S\<lparr>mem := m\<rparr>))\<lparr>ublk := ublk S\<rparr>)"
  proof (rule sysinv_mem(2) [OF no_get(4)])
    fix live F assume k: "kmem img (kern S) (dying S) (ublk S) live F"
    then have "m = mem (kern S)" using arena.take_fails [OF kmemD(1) [OF k] no_get(2,3)] by simp
    then show "\<exists>live' F'. kmem img (kern S\<lparr>mem := m\<rparr>) (dying S) (ublk S) live' F'" using k by auto
  qed
  then show ?case by (simp add: after_def)
next
  case (give S a r v m)
  show ?case by (rule sysinv_mem(2) [OF give(4)]) (rule kmem_give [OF _ give(2,3)])
next
  case (store S a v)
  obtain L where s: "kwf (kern S) L" "krun (kern S) L" using store(3) by (auto simp: sysinv_def)
  have "sysinv img (S\<lparr>kern := kern S\<lparr>mem := set_ram a v (mem (kern S))\<rparr>, ublk := ublk S\<rparr>)"
    by (rule sysinv_mem(1) [OF store(3)]) (use kmem_store writable_block [OF store(2) s] in blast)
  then show ?case by simp
qed

abbreviation ksteps :: "image \<Rightarrow> sys \<Rightarrow> sys \<Rightarrow> bool" where
  "ksteps img \<equiv> (kstep img)\<^sup>*\<^sup>*"

lemma ksteps_inv: "ksteps img S S' \<Longrightarrow> sysinv img S \<Longrightarrow> sysinv img S'"
  by (induction rule: rtranclp_induct) (auto intro: kstep_inv)

section \<open>What the invariant says\<close>

lemma sysinv_kinv: "sysinv img S \<Longrightarrow> kinv (kern S)"
  by (auto simp: sysinv_def kinv_def)

text \<open>Whatever the running process does next, the kernel has an answer.\<close>

lemma sysinv_continue:
  assumes "sysinv img S"
  shows "continue_call (konts S (running S)) (kern S) \<noteq> None"
proof -
  obtain L live F where s: "kwf (kern S) L" "krun (kern S) L"
    and m: "kmem img (kern S) (dying S) (ublk S) live F" using assms by (auto simp: sysinv_def)
  have K: "konts_ok (konts S) (insert NULLPROC (owners (kern S))) (dying S)"
    using assms by (simp add: sysinv_def)
  note run = running_owner [OF s]
  show ?thesis
  proof (cases "kills (konts S (running S))")
    case None
    have "kont_ok (running S) {} (konts S (running S))"
      by (rule kont_ok_mono [OF konts_okD(1) [OF K run]]) (use None in simp)
    then show ?thesis by (intro continue_call.call_returns [OF kinvI [OF s]]) (simp add: None)
  next
    case (Some p)
    then have p: "konts S (running S) = KKill p" by (simp add: kills_Some)
    obtain v s' where "kill_rest p (kern S) = Some (v, s')"
      by (rule kill_rest_wf [OF s m konts_okD(2) [OF K run p]]) blast
    then show ?thesis by (simp add: p)
  qed
qed

lemma sysinv_kill_returns:
  assumes "sysinv img S" "p \<notin> dying S"
  shows "kill p (kern S) \<noteq> None"
proof (cases "isbadpid p \<or> pst (kern S) p = PRFREE")
  case True
  then show ?thesis by (auto simp: kill_def)
next
  case False
  obtain L live F where s: "kwf (kern S) L" "krun (kern S) L" and n: "knum (kern S) (dying S)"
    and m: "kmem img (kern S) (dying S) (ublk S) live F" using assms by (auto simp: sysinv_def)
  obtain s3 L3 live3 F3 where k3: "kill p (kern S) = (if currpid s3 \<noteq> running S then Some (KKill p, s3) else kill_rest p s3)"
    "kwf s3 L3" "krun s3 L3" "kmem img s3 (insert p (dying S)) (ublk S) live3 F3"
    by (rule kill_start [OF s m n, of p]) (use False assms in auto)
  have pin: "p \<in> insert p (dying S)" by simp
  obtain v' s' where "kill_rest p s3 = Some (v', s')"
    by (rule kill_rest_wf [OF k3(2-4) pin]) blast
  then show ?thesis using k3(1) by simp
qed

text \<open>Stacks are disjoint from each other and from what the processes allocated.\<close>

lemma sysinv_stacks:
  assumes I: "sysinv img S" and p: "p \<in> owners (kern S)"
  shows "q \<in> owners (kern S) \<Longrightarrow> p \<noteq> q \<Longrightarrow>
      stk_area (pbase (proctab (kern S) p)) (pstklen (proctab (kern S) p)) \<inter>
      stk_area (pbase (proctab (kern S) q)) (pstklen (proctab (kern S) q)) = {}"
    and "(a, r) \<in># ublk S \<Longrightarrow>
      stk_area (pbase (proctab (kern S) p)) (pstklen (proctab (kern S) p)) \<inter> arena_area a r = {}"
proof -
  let ?s = "kern S"
  obtain live F where k: "kmem img ?s (dying S) (ublk S) live F" using I by (auto simp: sysinv_def)
  note u = kmemD(1) [OF k]
  let ?b = "\<lambda>p. stack_block (proctab ?s p)"
  have one: "count (mset live) b \<le> 1" for b
    using arena_distinct [OF u] distinct_count_atmost_1 by (metis order_refl zero_le_one)
  have own: "?b x \<in># pblocks ?s (dying S) x" for x by (simp add: pblocks_def)
  show "stk_area (pbase (proctab ?s p)) (pstklen (proctab ?s p)) \<inter>
      stk_area (pbase (proctab ?s q)) (pstklen (proctab ?s q)) = {}" if q: "q \<in> owners ?s" "p \<noteq> q"
  proof -
    have "?b p \<noteq> ?b q"
    proof
      assume e: "?b p = ?b q"
      have "(\<Sum>x \<in> owners ?s. pblocks ?s (dying S) x) = pblocks ?s (dying S) p +
          (pblocks ?s (dying S) q + (\<Sum>x \<in> owners ?s - {p} - {q}. pblocks ?s (dying S) x))"
        using p q by (simp add: sum.remove)
      then have "count (pblocks ?s (dying S) p) (?b p) + count (pblocks ?s (dying S) q) (?b p) \<le> 1"
        using one [of "?b p"] kmemD(2) [OF k] by simp
      moreover have "0 < count (pblocks ?s (dying S) p) (?b p)" "0 < count (pblocks ?s (dying S) q) (?b p)"
        using own [of p] own [of q] by (simp_all add: e)
      ultimately show False by linarith
    qed
    then show ?thesis
      using arena.uses_apart [OF u, of "fst (?b p)" "snd (?b p)" "fst (?b q)" "snd (?b q)"]
        kmem_blocks(1) [OF k p] kmem_blocks(1) [OF k q(1)]
      by (simp add: stack_block_def arena_area_def)
  qed
  show "stk_area (pbase (proctab ?s p)) (pstklen (proctab ?s p)) \<inter> arena_area a r = {}"
    if b: "(a, r) \<in># ublk S"
  proof -
    have "?b p \<noteq> (a, r)"
    proof
      assume e: "?b p = (a, r)"
      have "count (ublk S) (?b p) + count (pblocks ?s (dying S) p) (?b p) \<le> 1"
        using one [of "?b p"] kmemD(2) [OF k] sum.remove [OF finite_owners p, of "pblocks ?s (dying S)"] by simp
      moreover have "0 < count (ublk S) (?b p)" "0 < count (pblocks ?s (dying S) p) (?b p)"
        using own [of p] b e by simp_all
      ultimately show False by linarith
    qed
    then show ?thesis
      using arena.uses_apart [OF u, of "fst (?b p)" "snd (?b p)" a r]
        kmem_blocks(1) [OF k p] kmem_user [OF k b]
      by (simp add: stack_block_def arena_area_def)
  qed
qed

end
