(* ===== verification/ProcProps.thy ===== *)
theory ProcProps
  imports System
begin

text \<open>
  The properties of \<open>create\<close> and \<open>kill\<close>, and those of the running system. The instances start
  from the booted system.
\<close>

section \<open>Room in the free memory\<close>

text \<open>There is a free block of \<open>k\<close> bytes.\<close>

definition big :: "int \<Rightarrow> fblock list \<Rightarrow> bool" where
  "big k bs \<longleftrightarrow> (\<exists>b \<in> set bs. k \<le> snd b)"

definition room :: "memst \<Rightarrow> int \<Rightarrow> bool" where
  "room m k \<longleftrightarrow> (\<exists>bs. memwf m bs \<and> big k bs)"

lemma big_Cons [simp]: "\<not> big k []" "big k ((a, l) # bs) \<longleftrightarrow> k \<le> l \<or> big k bs"
  by (auto simp: big_def)

lemma big_mono: "big k bs \<Longrightarrow> j \<le> k \<Longrightarrow> big j bs"
  unfolding big_def by (meson order_trans)

lemma alloc_first_room:
  assumes "0 < n" "0 < k"
  shows "big (n + k) bs \<Longrightarrow> \<exists>p bs'. alloc_first n bs = Some (p, bs') \<and> big k bs'"
proof (induction bs)
  case (Cons b bs)
  then show ?case using assms big_mono [of "n + k" bs k] by (cases b) auto
qed simp

lemma alloc_last_room:
  assumes "0 < n" "0 < k"
  shows "big (n + k) bs \<Longrightarrow> \<exists>p bs'. alloc_last n bs = Some (p, bs') \<and> big k bs'"
proof (induction bs)
  case (Cons b bs)
  obtain a l where b: "b = (a, l)" by (rule prod.exhaust)
  show ?case
  proof (cases "alloc_last n bs")
    case None
    then show ?thesis using Cons assms b by auto
  next
    case (Some r)
    then show ?thesis using Cons assms b by (cases r) auto
  qed
qed simp

lemma in_heap:
  assumes "memwf m bs" "{p..<p + n} \<subseteq> bytes bs" "0 < n"
  shows "heap_start m \<le> p" "p + n \<le> heap_end m" "p \<noteq> SYSPTR" "p + n - 2 \<noteq> SYSPTR"
proof -
  have "p \<in> bytes bs" "p + n - 1 \<in> bytes bs" using assms(2,3) by auto
  from this [THEN blocks_ok_above [OF memwfD(2) [OF assms(1)]]]
  show "heap_start m \<le> p" "p + n \<le> heap_end m" by simp_all
  then show "p \<noteq> SYSPTR" "p + n - 2 \<noteq> SYSPTR"
    using memwfD(6) [OF assms(1)] assms(3) by (simp_all add: SYSPTR_def)
qed

lemma getmem_room:
  assumes "room m (roundmb n + k)" "0 < n" "n \<le> 65532" "0 < k"
  shows "\<exists>p m'. getmem n m = Some (p, m') \<and> p \<noteq> SYSPTR \<and> room m' k"
proof -
  note R = roundmb_props [OF assms(2,3)]
  obtain bs where bs: "memwf m bs" "big (roundmb n + k) bs" using assms(1) by (auto simp: room_def)
  obtain p bs' where a: "alloc_first (roundmb n) bs = Some (p, bs')" "big k bs'"
    using alloc_first_room [OF R(1) assms(4) bs(2)] by blast
  obtain m' where "getmem n m = Some (p, m')" "memwf m' bs'"
    by (rule getmem_some [OF bs(1) assms(2,3) a(1)]) blast
  moreover have "p \<noteq> SYSPTR"
    using alloc_first_spec [OF a(1) memwfD(2) [OF bs(1)] R(1,2)] R(1) in_heap(3) [OF bs(1)] by blast
  ultimately show ?thesis using a(2) by (auto simp: room_def)
qed

lemma getstk_room:
  assumes "room m (roundmb n + k)" "0 < n" "n \<le> 65532" "0 < k"
  shows "\<exists>p m'. getstk n m = Some (p, m') \<and> p \<noteq> SYSPTR \<and> room m' k"
proof -
  note R = roundmb_props [OF assms(2,3)]
  obtain bs where bs: "memwf m bs" "big (roundmb n + k) bs" using assms(1) by (auto simp: room_def)
  obtain p bs' where a: "alloc_last (roundmb n) bs = Some (p, bs')" "big k bs'"
    using alloc_last_room [OF R(1) assms(4) bs(2)] by blast
  obtain m' where "getstk n m = Some (p + roundmb n - 2, m')" "memwf m' bs'"
    by (rule getstk_some [OF bs(1) assms(2,3) a(1)]) blast
  moreover have "p + roundmb n - 2 \<noteq> SYSPTR"
    using alloc_last_spec [OF a(1) memwfD(2) [OF bs(1)] R(1,2)] R(1) in_heap(4) [OF bs(1)] by blast
  ultimately show ?thesis using a(2) by (auto simp: room_def)
qed

lemma room_ram [simp]: "room (set_ram a v m) k = room m k" "room (set_word a v m) k = room m k"
  by (simp_all add: room_def)

lemma malloc_room:
  assumes "room m (20 + k)" "0 < k"
  shows "\<exists>p m'. wrap_malloc sizeof_FILE m = Some (p, m') \<and> room m' k"
proof -
  have e: "roundmb 18 = 20" by (simp add: roundmb_eq)
  obtain p m' where "getmem 18 m = Some (p, m')" "p \<noteq> SYSPTR" "room m' k"
    using getmem_room [of m 18 k] assms by (auto simp: e)
  then show ?thesis by (simp add: wrap_malloc_def sizeof_int_def)
qed

lemma stream_room:
  assumes "room m 41"
  shows "stream_room m"
proof -
  obtain p m1 where a: "wrap_malloc sizeof_FILE m = Some (p, m1)" "room m1 21"
    using malloc_room [of m 21] assms by auto
  obtain q m2 where "wrap_malloc sizeof_FILE m1 = Some (q, m2)"
    using malloc_room [of m1 1] a(2) by auto
  then show ?thesis by (simp add: stream_room_def a(1))
qed

section \<open>The booted system\<close>

text \<open>The system when \<open>nulluser\<close> has initialised it.\<close>

definition boot_sys :: "int \<Rightarrow> int \<Rightarrow> int \<Rightarrow> kstate \<Rightarrow> sys" where
  "boot_sys ramend bss_end main s = \<lparr>kern = boot ramend bss_end main s, konts = (\<lambda>_. KRet 0),
     dying = {}, ublk = {#}\<rparr>"

text \<open>What the memory layout of the program must satisfy for the free memory to be sound: it is
  above the list head, it fits, and the console's stream is not in it.\<close>

definition layout_ok :: "image \<Rightarrow> int \<Rightarrow> int \<Rightarrow> kstate \<Rightarrow> bool" where
  "layout_ok img ramend bss_end s \<longleftrightarrow>
     (let a = roundmb (heap_start (mem s)); n = truncmb (u16 (ramend - NULLSTK - bss_end))
      in 0 < memlist (mem s) \<and> memlist (mem s) < a \<and> 0 < n \<and> a + n < 65535 \<and>
        a_putc img \<noteq> 0 \<and> a_getc img \<noteq> 0 \<and> a_kprint img \<noteq> FDFREE \<and>
        sflags (files s (a_kprint img)) AND SMALLOC = 0 \<and> \<not> (a \<le> a_kprint img \<and> a_kprint img < a + n))"

lemma layout_kmem:
  assumes "layout_ok img ramend bss_end s"
  shows "\<exists>F. kmem img (boot ramend bss_end main s) {} {#} [] F" "knum (boot ramend bss_end main s) {}"
proof -
  note M = assms [unfolded layout_ok_def Let_def]
  have "kmem img (boot ramend bss_end main s) {} {#} [] {roundmb (heap_start (mem s))..<
      roundmb (heap_start (mem s)) + truncmb (u16 (ramend - NULLSTK - bss_end))}"
    "knum (boot ramend bss_end main s) {}"
    by (rule boot_kmem [where img = img]; use M in simp)+
  then show "\<exists>F. kmem img (boot ramend bss_end main s) {} {#} [] F" "knum (boot ramend bss_end main s) {}"
    by blast+
qed

lemma boot_sysinv:
  assumes "layout_ok img ramend bss_end s"
  shows "sysinv img (boot_sys ramend bss_end main s)"
proof -
  have "konts_ok (\<lambda>_. KRet 0) (insert NULLPROC P) {}" for P by (simp add: konts_ok_def)
  then show ?thesis
    using boot_kwf(1,2) layout_kmem [OF assms] unfolding sysinv_def boot_sys_def by simp blast
qed

lemma boot_reach:
  assumes "layout_ok img ramend bss_end s" "ksteps img (boot_sys ramend bss_end main s) S"
  shows "sysinv img S"
  by (rule ksteps_inv [OF assms(2) boot_sysinv [OF assms(1)]])

section \<open>Instances\<close>

text \<open>A boot with the heap from 1000 to 4148, and a process in it.\<close>

definition ex_image :: image where
  "ex_image = \<lparr>a_putc = 500, a_getc = 502, a_kprint = 900, a_initret = 504, a_parg = (\<lambda>p. 600 + 20 * p)\<rparr>"

definition ex_raw :: kstate where
  "ex_raw = ex_state\<lparr>mem := ex_mem\<lparr>memlist := 900, heap_start := 1000\<rparr>\<rparr>"

abbreviation ex_boot :: kstate where
  "ex_boot \<equiv> boot 4351 1000 300 ex_raw"

lemma ex_layout: "layout_ok ex_image 4351 1000 ex_raw"
  by (simp add: layout_ok_def ex_raw_def ex_image_def ex_state_def ex_mem_def roundmb_eq truncmb_def
      NULLSTK_def u16_def sizeof_mblock_def FDFREE_def SMALLOC_def)

lemma ex_boot_kmem: "\<exists>F. kmem ex_image ex_boot {} {#} [] F" "knum ex_boot {}"
  by (rule layout_kmem [OF ex_layout])+

lemma ex_boot_room: "room (mem ex_boot) 3000"
proof -
  have M: "memwf (meminit 4351 1000 (mem ex_raw)) [(1000, 3148)]"
    using meminit_memwf(1) [of "mem ex_raw" 4351 1000]
    by (simp add: ex_raw_def ex_state_def ex_mem_def roundmb_eq truncmb_def NULLSTK_def u16_def sizeof_mblock_def)
  then show ?thesis unfolding boot_kwf(6) by (auto simp: room_def intro!: exI [of _ "[(1000, 3148)]"])
qed

lemma ex_boot_free: "\<exists>p. ispid p \<and> pst ex_boot p = PRFREE"
proof -
  have "owners ex_boot = {}" by (rule boot_kwf(4))
  then have "pst ex_boot 1 = PRFREE" by (auto simp: owners_def NPROC_def)
  then show ?thesis by (intro exI [of _ 1]) (simp add: NPROC_def)
qed

lemma ex_boot_fits: "room (mem ex_boot) (roundmb 300 + 41)"
proof -
  have r: "roundmb 300 = 300" by (simp add: roundmb_eq)
  obtain bs where "memwf (mem ex_boot) bs" "big 3000 bs" using ex_boot_room by (auto simp: room_def)
  then show ?thesis unfolding room_def r using big_mono by fastforce
qed

section \<open>create\<close>

lemma create_ok:
  assumes "kwf s L" "krun s L" "kmem img s D U live F" "knum s D"
    and "1 \<le> pri" "pri \<le> MAXINT" "MINSTK \<le> n" "n \<le> 32000" "length args < MAXARG"
    and "\<exists>p. ispid p \<and> pst s p = PRFREE" "room (mem s) (roundmb n + 41)"
  shows "\<exists>p s'. create img f n pri nam args s = Some (p, s') \<and> \<not> isbadpid p \<and> pst s p = PRFREE \<and>
    pst s' p = PRSUSP \<and> prio s' p = pri \<and> fresh img f (roundmb n) nam args p s' \<and>
    created_beside s s' p F \<and> currpid s' = currpid s \<and> kinv s' \<and> knum s' D \<and>
    kmem img s' D U (own_blocks (proctab s' p) @ live) (F - blocks_area (own_blocks (proctab s' p)))"
proof -
  have n: "0 < n" "n \<le> 65532" using assms(7,8) by (simp_all add: MINSTK_def)
  note R = roundmb_props [OF n]
  have m: "0 < roundmb n" "roundmb n \<le> 65532" "roundmb n < 32768" "roundmb n mod 4 = 0" using R assms(8) by simp_all
  then have s16: "s16 (roundmb n) = roundmb n" by (simp add: s16_def)
  have "\<exists>a m'. getstk (roundmb n) (mem s) = Some (a, m') \<and> a \<noteq> SYSPTR \<and> room m' 41"
    by (rule getstk_room) (use m assms(11) in \<open>simp_all add: roundmb_idem\<close>)
  then obtain a m' where st: "getstk (u16 (s16 (roundmb n))) (mem s) = Some (a, m')" "a \<noteq> SYSPTR" "room m' 41"
    using m by (auto simp: s16)
  have ok: "\<not> create_refused n pri s" "\<not> create_undefined n args s"
    using st stream_room [OF st(3)] assms(5,7,9,10) R(3)
    by (auto simp: create_refused_def create_undefined_def s16)
  show ?thesis
  proof (rule create_cases [OF assms(1-4,6), of f n nam args], goal_cases)
    case 1
    then show ?case using ok by simp
  next
    case (2 m j)
    then show ?case using ok by simp
  next
    case (3 p s')
    then show ?case using kinvI [OF 3(4,5)] by (auto simp: s16)
  qed
qed

lemma ex_create:
  "\<exists>p s live F. create ex_image 300 300 20 ''shell'' [7, 8] ex_boot = Some (p, s) \<and> \<not> isbadpid p \<and>
    pst ex_boot p = PRFREE \<and> pst s p = PRSUSP \<and> kinv s \<and> fresh ex_image 300 (roundmb 300) ''shell'' [7, 8] p s \<and>
    prio s p = 20 \<and> currpid s = NULLPROC \<and> kmem ex_image s {} {#} live F \<and> knum s {} \<and> owners s = {p}"
proof -
  obtain F where k: "kmem ex_image ex_boot {} {#} [] F" using ex_boot_kmem(1) by blast
  from create_ok [OF boot_kwf(1,2) k ex_boot_kmem(2) _ _ _ _ _ ex_boot_free ex_boot_fits,
      of 20 "[7, 8]" 300 "''shell''"]
  obtain p s live F' where c: "create ex_image 300 300 20 ''shell'' [7, 8] ex_boot = Some (p, s)"
    "\<not> isbadpid p" "pst ex_boot p = PRFREE" "pst s p = PRSUSP" "prio s p = 20"
    "fresh ex_image 300 (roundmb 300) ''shell'' [7, 8] p s" "currpid s = NULLPROC" "kinv s"
    "kmem ex_image s {} {#} live F'" "knum s {}"
    and b: "created_beside ex_boot s p F"
    using boot_kwf(3) by (auto simp: MINSTK_def MAXINT_def MAXARG_def)
  have "q \<in> owners s \<longleftrightarrow> q = p" for q
  proof (cases "q = p")
    case True
    then show ?thesis using c(2,4) by (simp add: owners_def isbadpid_def)
  next
    case False
    then have "pst s q = pst ex_boot q" by (rule created_beside_entry(2) [OF b])
    moreover have "owners ex_boot = {}" by (rule boot_kwf(4))
    ultimately show ?thesis using False by (auto simp: owners_def)
  qed
  then have "owners s = {p}" by blast
  then show ?thesis using c by blast
qed

text \<open>The same as a run of the system.\<close>

lemma ex_run_create:
  "\<exists>p S. ksteps ex_image (boot_sys 4351 1000 300 ex_raw) S \<and> owners (kern S) = {p} \<and> dying S = {}"
proof -
  obtain p s where c: "create ex_image 300 300 20 ''shell'' [7, 8] ex_boot = Some (p, s)" "owners s = {p}"
    using ex_create by blast
  let ?B = "boot_sys 4351 1000 300 ex_raw"
  let ?S = "after (if p = SYSERR then ?B else ?B\<lparr>konts := (konts ?B)(p := KRet 0)\<rparr>) (KRet p) s"
  have "kstep ex_image ?B ?S"
    by (rule kstep.create [where pri = 20 and f = 300 and n = 300 and nam = "''shell''" and args = "[7, 8]"])
      (use c(1) in \<open>simp_all add: boot_sys_def MAXINT_def\<close>)
  moreover have "kern ?S = s" "dying ?S = {}" by (simp_all add: after_def boot_sys_def)
  ultimately show ?thesis using c(2) by (metis r_into_rtranclp)
qed

text \<open>C16: \<open>create\<close> makes a suspended process when it can: its entry, its registers, the bottom of
  its stack and its two streams are those of a process that has not run; its stack and its
  streams come out of the free memory, and that is all that does; no other entry of the process
  table changes, but for the free standard slots of the caller, which become aliases of the
  first stream.\<close>

theorem create_makes_process:
  assumes "kwf s L" "krun s L" "kmem img s D U live F" "knum s D"
    and "1 \<le> pri" "pri \<le> MAXINT" "MINSTK \<le> n" "n \<le> 32000" "length args < MAXARG"
    and "\<exists>p. ispid p \<and> pst s p = PRFREE" "room (mem s) (roundmb n + 41)"
  shows "\<exists>p s'. create img f n pri nam args s = Some (p, s') \<and> \<not> isbadpid p \<and> pst s p = PRFREE \<and>
    pst s' p = PRSUSP \<and> prio s' p = pri \<and> fresh img f (roundmb n) nam args p s' \<and>
    created_beside s s' p F \<and> currpid s' = currpid s \<and> kinv s' \<and> knum s' D \<and>
    kmem img s' D U (own_blocks (proctab s' p) @ live) (F - blocks_area (own_blocks (proctab s' p)))"
  by (rule create_ok [OF assms])

theorem create_makes_process_witness:
  "\<exists>p s'. create ex_image 300 300 20 ''shell'' [7, 8] ex_boot = Some (p, s') \<and> pst s' p = PRSUSP \<and>
    prio s' p = 20 \<and> pargs (proctab s' p) = 2 \<and> reg_word (proctab s' p) SPC_L = 300"
proof -
  obtain F where k: "kmem ex_image ex_boot {} {#} [] F" using ex_boot_kmem(1) by blast
  from create_makes_process [OF boot_kwf(1,2) k ex_boot_kmem(2) _ _ _ _ _ ex_boot_free ex_boot_fits,
      of 20 "[7, 8]" 300 "''shell''"]
  show ?thesis
    by (auto simp: MINSTK_def MAXINT_def MAXARG_def fresh_def fresh_entry_def start_regs_def u16_def)
qed

text \<open>C17: a refused \<open>create\<close> changes nothing but the slot at which the next search for a process
  begins and the links of the free list: the blocks in use and the free bytes are those from
  before, so that the stack, when it had been taken, is free again.\<close>

theorem create_refuses:
  assumes "kwf s L" "krun s L" "kmem img s D U live F" "knum s D" "pri \<le> MAXINT"
    and "create_refused n pri s"
  shows "\<exists>m j. create img f n pri nam args s = Some (SYSERR, s\<lparr>mem := m, nextproc := j\<rparr>) \<and>
    kmem img (s\<lparr>mem := m, nextproc := j\<rparr>) D U live F \<and> (\<forall>x. x \<notin> F \<longrightarrow> ram m x = ram (mem s) x) \<and>
    kinv (s\<lparr>mem := m, nextproc := j\<rparr>)"
proof (rule create_cases [OF assms(1-5), of f n nam args], goal_cases)
  case (2 m j)
  then show ?case using kinvI [OF 2(2,3)] by blast
qed (use assms(6) in auto)

theorem create_refuses_witness:
  "\<exists>m j F. create ex_image 300 100 20 ''small'' [] ex_boot = Some (SYSERR, ex_boot\<lparr>mem := m, nextproc := j\<rparr>) \<and>
    memgood m F \<and> memgood (mem ex_boot) F"
proof -
  obtain F where k: "kmem ex_image ex_boot {} {#} [] F" using ex_boot_kmem(1) by blast
  have "create_refused 100 20 ex_boot"
    by (simp add: create_refused_def roundmb_eq s16_def MINSTK_def)
  from create_refuses [OF boot_kwf(1,2) k ex_boot_kmem(2) _ this, of 300 "''small''" "[]"]
  show ?thesis using kmemD(1) [OF k] kmemD(1) by (fastforce simp: MAXINT_def arena.uses_def)
qed

section \<open>kill\<close>

text \<open>The end of the process \<open>p\<close>, from a state \<open>t\<close> in which it has lost its streams: its stack is
  free, its entry is free, it is on no queue and counts in no semaphore, and nothing else of the
  process table changes. When it is the running process the scheduler picks a ready one of the
  highest priority.\<close>

definition kill_ended ::
  "image \<Rightarrow> int \<Rightarrow> kstate \<Rightarrow> int set \<Rightarrow> block multiset \<Rightarrow> block list \<Rightarrow> int set \<Rightarrow> kont \<Rightarrow> kstate \<Rightarrow> bool" where
  "kill_ended img p t D U live F k s' \<longleftrightarrow> kinv s' \<and>
     kmem img s' (D - {p}) U (remove1 (stack_block (proctab t p)) live) (F \<union> block_area (stack_block (proctab t p))) \<and>
     knum s' (D - {p}) = knum t D \<and> owners s' = owners t - {p} \<and> mailbox s' = mailbox t \<and>
     (if p = currpid t
      then k = KKilled \<and> semaph s' = semaph t \<and> pst t (currpid s') = PRREADY \<and>
        (\<forall>q. ispid q \<longrightarrow> pst t q = PRREADY \<longrightarrow> prio t q \<le> prio t (currpid s')) \<and>
        (\<forall>q. pst s' q = (if q = currpid s' then PRCURR else if q = p then PRFREE else pst t q))
      else k = KRet OK \<and> kill_effect p t s')"

lemma kill_rest_ended:
  assumes "kinv t" "kmem img t D U live F" "p \<in> D"
  shows "\<exists>k s'. kill_rest p t = Some (k, s') \<and> kill_ended img p t D U live F k s'"
proof -
  obtain L where w: "kwf t L" "krun t L" using assms(1) by (auto simp: kinv_def)
  have p: "p \<noteq> NULLPROC" using kmemD(4) [OF assms(2)] assms(3) by (auto simp: owners_def NULLPROC_def)
  show ?thesis
  proof (rule kill_rest_wf [OF w assms(2,3)], goal_cases)
    case (1 k s' L')
    have "pst t (currpid s') = PRREADY \<and> (\<forall>q. ispid q \<longrightarrow> pst t q = PRREADY \<longrightarrow> prio t q \<le> prio t (currpid s'))"
      if c: "p = currpid t"
    proof -
      have l: "currpid s' = last (L RDYQ)" using 1(6) [OF c] by blast
      have n: "currpid t \<noteq> NULLPROC" using p c by simp
      note ne = kwf_successor(1) [OF w n]
      have "pst t (last (L RDYQ)) = PRREADY" by (rule kq_ready [OF kwfD(1) [OF w(1)] last_in_set [OF ne]])
      then show ?thesis using ready_last_highest [OF w n] l by simp
    qed
    then have "kill_ended img p t D U live F k s'"
      unfolding kill_ended_def using 1(4-9) kinvI [OF 1(2,3)] by simp
    then show ?case using 1(1) by blast
  qed
qed

text \<open>C18: \<open>kill\<close> of any live process, by itself or by another. The streams of the process are
  closed and their memory is free; then its next of kin, when it is a live process whose mailbox
  is empty, gets the identifier of the process as its message, and is made ready when it waits for
  one. When the scheduler lets the caller go on, the process ends at once; when it picks another
  process, the process ends when the caller runs again, whatever the state is then: its stack is
  free again as well, and it is gone from the process table, from its queue and from the count of
  its semaphore.\<close>

theorem kill_removes:
  assumes "kwf s L" "krun s L" "kmem img s D U live F" "knum s D"
    and "\<not> isbadpid p" "pst s p \<noteq> PRFREE" "p \<notin> D"
  shows "\<exists>k s' m s3. kill p s = Some (k, s') \<and> kinv s' \<and>
    kill_told (pnxtkin (proctab s p)) p (kill_closed p s m) s3 \<and>
    kmem img s3 (insert p D) U (drop_streams (proctab s p) live) (F \<union> streams_area (proctab s p)) \<and>
    knum s3 (insert p D) \<and> stack_block (proctab s3 p) = stack_block (proctab s p) \<and>
    (if k = KKill p
     then s' = s3 \<and> currpid s3 \<noteq> currpid s \<and>
       (\<forall>t E V l G. kinv t \<and> kmem img t E V l G \<and> p \<in> E \<longrightarrow>
          (\<exists>k' t'. continue_call (KKill p) t = Some (k', t') \<and> kill_ended img p t E V l G k' t'))
     else currpid s3 = currpid s \<and>
       kill_ended img p s3 (insert p D) U (drop_streams (proctab s p) live) (F \<union> streams_area (proctab s p)) k s')"
proof -
  obtain m s3 L3 where k: "kill p s = (if currpid s3 \<noteq> currpid s then Some (KKill p, s3) else kill_rest p s3)"
    and own: "kown (kill_closed p s m) s3"
    and told: "kill_told (pnxtkin (proctab s p)) p (kill_closed p s m) s3" and w3: "kwf s3 L3" "krun s3 L3"
    and k3: "kmem img s3 (insert p D) U (drop_streams (proctab s p) live) (F \<union> streams_area (proctab s p))"
      "knum s3 (insert p D)"
    by (rule kill_start [OF assms]) blast
  have sb: "stack_block (proctab s3 p) = stack_block (proctab s p)"
    using own kill_closed_simps(6) [of p s m p] by (simp add: kown_def stack_block_def)
  have pin: "p \<in> insert p D" by simp
  note rest = kill_rest_ended [OF kinvI [OF w3] k3(1) pin]
  have later: "\<forall>t E V l G. kinv t \<and> kmem img t E V l G \<and> p \<in> E \<longrightarrow>
      (\<exists>k' t'. continue_call (KKill p) t = Some (k', t') \<and> kill_ended img p t E V l G k' t')"
    using kill_rest_ended by simp
  show ?thesis
  proof (cases "currpid s3 = currpid s")
    case True
    from rest obtain k' s' where r: "kill_rest p s3 = Some (k', s')" "kill_ended img p s3 (insert p D) U
      (drop_streams (proctab s p) live) (F \<union> streams_area (proctab s p)) k' s'" by blast
    have "k' \<noteq> KKill p" "kinv s'" using r(2) by (auto simp: kill_ended_def split: if_splits)
    then show ?thesis using k r True told k3 sb by auto
  next
    case False
    then show ?thesis using k told k3 sb later kinvI [OF w3] by auto
  qed
qed

text \<open>The process of the example has no next of kin; it dies with both its streams and its stack.\<close>

theorem kill_removes_witness:
  "\<exists>p s s'. create ex_image 300 300 20 ''shell'' [7, 8] ex_boot = Some (p, s) \<and>
    kill p s = Some (KRet OK, s') \<and> owners s' = {} \<and> mailbox s' = mailbox s"
proof -
  obtain p s live F where c: "create ex_image 300 300 20 ''shell'' [7, 8] ex_boot = Some (p, s)"
    "\<not> isbadpid p" "pst s p = PRSUSP" "kinv s" "fresh ex_image 300 (roundmb 300) ''shell'' [7, 8] p s"
    "currpid s = NULLPROC" "owners s = {p}" and k: "kmem ex_image s {} {#} live F" "knum s {}"
    using ex_create by blast
  obtain L where w: "kwf s L" "krun s L" using c(4) by (auto simp: kinv_def)
  have np: "isbadpid (pnxtkin (proctab s p))"
    using c(5) by (simp add: fresh_def fresh_entry_def isbadpid_def BADPID_def)
  have pf: "pst s p \<noteq> PRFREE" using c(3) by simp
  from kill_removes [OF w k c(2) pf] obtain k' s' m s3 where
    r: "kill p s = Some (k', s')" "s3 = kill_closed p s m"
      "if k' = KKill p then currpid s3 \<noteq> currpid s else kill_ended ex_image p s3 {p} {#}
        (drop_streams (proctab s p) live) (F \<union> streams_area (proctab s p)) k' s'"
    using np by (auto simp: kill_told_def split: if_splits)
  have ne: "p \<noteq> currpid s" using c(2,6) by (auto simp: isbadpid_def NULLPROC_def)
  have "kill_ended ex_image p s3 {p} {#} (drop_streams (proctab s p) live) (F \<union> streams_area (proctab s p)) k' s'"
    using r(2,3) by (simp split: if_splits)
  then have "k' = KRet OK" "owners s' = {}" "mailbox s' = mailbox s"
    using ne c(7) by (simp_all add: kill_ended_def r(2))
  then show ?thesis using c(1) r(1) by blast
qed

section \<open>The running system\<close>



text \<open>C20: The kernel never gets stuck. Whatever process runs, the call it is in goes on; no
  process comes back from having killed itself (the \<open>panic\<close> at the end of \<open>kill\<close> is not
  reached); and every call a process may make, every kill of a process that is not already
  dying and every clock interrupt has a result.\<close>

theorem no_panic:
  assumes "layout_ok img ramend bss_end s" "ksteps img (boot_sys ramend bss_end main s) S"
  shows "konts S (running S) \<noteq> KKilled \<and> continue_call (konts S (running S)) (kern S) \<noteq> None \<and>
    (\<forall>c. call_pre c (kern S) \<longrightarrow> exec c (kern S) \<noteq> None) \<and> (\<forall>p. p \<notin> dying S \<longrightarrow> kill p (kern S) \<noteq> None) \<and>
    (- 2147483648 \<le> clktime (kern S) \<longrightarrow> clktime (kern S) < 2147483647 \<longrightarrow> clkint (kern S) \<noteq> None)"
proof -
  note I = boot_reach [OF assms]
  obtain L where s: "kwf (kern S) L" "krun (kern S) L" using I by (auto simp: sysinv_def)
  have K: "konts_ok (konts S) (insert NULLPROC (owners (kern S))) (dying S)"
    using I by (simp add: sysinv_def)
  have "konts S (running S) \<noteq> KKilled" using konts_okD(1) [OF K running_owner [OF s]] by auto
  then show ?thesis
    using sysinv_continue [OF I] sysinv_kill_returns [OF I] system_call.call_returns [OF kinvI [OF s]]
      clkint_call.call_returns [OF kinvI [OF s]] by blast
qed

theorem no_panic_witness:
  "\<exists>p. \<exists>S :: sys. owners (kern S) = {p} \<and> kill p (kern S) \<noteq> None \<and> exec (CSleep 0) (kern S) \<noteq> None"
proof -
  obtain p S where S: "ksteps ex_image (boot_sys 4351 1000 300 ex_raw) S" "owners (kern S) = {p}" "dying S = {}"
    using ex_run_create by blast
  have "call_pre (CSleep 0) (kern S)" by simp
  then have "kill p (kern S) \<noteq> None \<and> exec (CSleep 0) (kern S) \<noteq> None"
    using no_panic [OF ex_layout S(1)] S(3) by blast
  then show ?thesis using S(2) by blast
qed



end
