(* ===== verification/Calendar.thy ===== *)
theory Calendar
  imports Prelude "HOL-Library.Signed_Division"
begin

text \<open>
  Dates (\<open>src/lib/Time\<close>): leap years, the number of days since 1970 of a broken-down time, the
  parse of a time in seconds, and the normalization of a broken-down time. The fields of
  \<open>struct tm\<close> are \<open>int16_t\<close>: an assignment keeps the low 16 bits, as the machine does, so every
  function is total; the results are stated for ranges in which nothing wraps. An index outside
  a table of twelve months has no value (\<open>None\<close>). \<open>sdiv\<close> and \<open>smod\<close> are the division of C.
\<close>

section \<open>Definitions\<close>

record tm =
  tm_sec :: int
  tm_min :: int
  tm_hour :: int
  tm_mday :: int
  tm_mon :: int
  tm_year :: int
  tm_wday :: int
  tm_yday :: int
  tm_isdst :: int
  tm_gmtoff :: int
  tm_zone :: string

definition SECPERDY :: int where "SECPERDY = 86400"
definition SECPERHR :: int where "SECPERHR = 3600"
definition SECPERMN :: int where "SECPERMN = 60"
definition ZONE_PST :: int where "ZONE_PST = 8"
definition THURSDAY :: int where "THURSDAY = 4"
definition SUNDAY :: int where "SUNDAY = 0"

definition days_in_month :: "int list" where
  "days_in_month = [31, 28, 31, 30, 31, 30, 31, 31, 30, 31, 30, 31]"

definition mon_name :: "string list" where
  "mon_name = [''Jan'', ''Feb'', ''Mar'', ''Apr'', ''May'', ''Jun'',
     ''Jul'', ''Aug'', ''Sep'', ''Oct'', ''Nov'', ''Dec'']"

definition day_name :: "string list" where
  "day_name = [''Sun'', ''Mon'', ''Tue'', ''Wed'', ''Thu'', ''Fri'', ''Sat'']"

unbundle bit_operations_syntax

definition isleap :: "int \<Rightarrow> bool" where
  "isleap year \<longleftrightarrow>
     (let yy = year sdiv 100
      in year AND 3 = 0 \<and> (yy * 100 \<noteq> year \<or> yy AND 3 = 0))"

definition days_in_year :: "int \<Rightarrow> int" where
  "days_in_year year = (if isleap year then 366 else 365)"

text \<open>The length of month \<open>mon\<close> (from 0) of a year: \<open>days_in_month[mon]\<close> and the leap day.\<close>

definition month_length :: "int \<Rightarrow> int \<Rightarrow> int option" where
  "month_length year mon =
     (if 0 \<le> mon \<and> mon < 12
      then Some (days_in_month ! nat mon + (if mon = 1 \<and> isleap year then 1 else 0)) else None)"

definition day_of_year :: "int \<Rightarrow> int \<Rightarrow> int \<Rightarrow> int option" where
  "day_of_year year month day =
     (if month \<le> 12
      then Some (fold (\<lambda>i d. let d = s16 (d + days_in_month ! i)
                             in if isleap year \<and> i = 1 then s16 (d + 1) else d) [0..<nat month] day)
      else None)"

text \<open>\<open>_day_of_epoch\<close>: the day number and, for \<open>norm\<close>, the structure with \<open>tm_yday\<close> and
  \<open>tm_wday\<close> set.\<close>

definition day_of_epoch :: "tm \<Rightarrow> bool \<Rightarrow> (int \<times> tm) option" where
  "day_of_epoch t norm =
     (if tm_mon t > 12 then None
      else
        (let day = s16 (tm_mday t - 1);
             year0 = s16 (1900 + tm_year t);
             day = fold (\<lambda>i d. s16 (d + days_in_month ! i)) [0..<nat (tm_mon t)] day;
             day = (if tm_mon t > 1 \<and> isleap year0 then s16 (day + 1) else day);
             t = (if norm then t\<lparr>tm_yday := day\<rparr> else t);
             day = (if year0 > 1970 then fold (\<lambda>y d. s16 (d + days_in_year y)) [1970..year0 - 1] day
                    else if year0 < 1970 then fold (\<lambda>y d. s16 (d - days_in_year y)) (rev [year0..1969]) day
                    else day);
             t = (if norm
                  then let w = s16 (day + THURSDAY) smod 7
                       in t\<lparr>tm_wday := (if w < 0 then w + 7 else w)\<rparr>
                  else t)
         in Some (day, t)))"

definition getUTC :: "tm \<Rightarrow> int option" where
  "getUTC t = map_option (\<lambda>(day, _).
     let time = tm_sec t + tm_min t * SECPERMN + tm_hour t * SECPERHR + day * SECPERDY
     in if tm_gmtoff t = 0 then time else time - tm_gmtoff t) (day_of_epoch t False)"

subsection \<open>Parsing a time\<close>

function year_up :: "int \<Rightarrow> int \<Rightarrow> int \<times> int" where
  "year_up day y = (if day \<ge> days_in_year y then year_up (day - days_in_year y) (y + 1) else (day, y))"
  by pat_completeness auto
termination by (relation "measure (\<lambda>(d, y). nat d)") (auto simp: days_in_year_def split: if_splits)

function year_down :: "int \<Rightarrow> int \<Rightarrow> int \<times> int" where
  "year_down day y = (if day < 0 then year_down (day + days_in_year (y - 1)) (y - 1) else (day, y))"
  by pat_completeness auto
termination by (relation "measure (\<lambda>(d, y). nat (- d))") (auto simp: days_in_year_def)

function month_up :: "int \<Rightarrow> int \<Rightarrow> int \<Rightarrow> (int \<times> int) option" where
  "month_up year day mon =
     (case month_length year mon of
        None \<Rightarrow> None
      | Some l \<Rightarrow> if day \<ge> l then month_up year (day - l) (mon + 1) else Some (day, mon))"
  by pat_completeness auto
termination
  by (relation "measure (\<lambda>(y, d, m). nat (12 - m))") (auto simp: month_length_def split: if_splits)

definition isDST :: "tm \<Rightarrow> int \<Rightarrow> bool" where
  "isDST t Jan1 =
     (if tm_mon t = 11 \<or> tm_mon t = 0 \<or> tm_mon t = 1 \<or> tm_year t + 1900 < 2006 then False
      else if tm_mon t > 2 \<and> tm_mon t < 10 then True
      else
        (let Mar1 = (Jan1 + days_in_month ! 0 + days_in_month ! 1 + (if isleap (tm_year t) then 1 else 0)) smod 7;
             firstDay_DST = (if Mar1 = SUNDAY then 8 else 15 - Mar1);
             Nov1 = fold (\<lambda>i d. d + days_in_month ! i) [0..<10] Jan1;
             Nov1 = (if isleap (tm_year t) then Nov1 + 1 else Nov1);
             Nov1 = Nov1 smod 7;
             lastDay_DST = (if Nov1 = SUNDAY then 1 else 8 - Nov1)
         in if tm_mon t = 2 \<and> (tm_mday t < firstDay_DST \<or> tm_mday t = firstDay_DST \<and> tm_hour t < 2) then False
            else if tm_mon t = 10 \<and> (tm_mday t > lastDay_DST \<or> tm_mday t = lastDay_DST \<and> tm_hour t \<ge> 1) then False
            else True))"

definition ut2ltim :: "int \<Rightarrow> int" where
  "ut2ltim x = x - ZONE_PST * SECPERHR"

definition ltim2dst :: "int \<Rightarrow> int" where
  "ltim2dst x = x + SECPERHR"

text \<open>The end of \<open>parseTime\<close>: daylight saving time.\<close>

definition parse_dst :: "tm \<Rightarrow> tm" where
  "parse_dst t =
     (let leapyrs = (tm_year t - 69) sdiv 4;
          Jan1 = (4 + (tm_year t - 70) + leapyrs) smod 7
      in if isDST t Jan1
         then
           (let t = t\<lparr>tm_isdst := 1, tm_gmtoff := ltim2dst (ut2ltim 0), tm_zone := ''PDT'', tm_hour := tm_hour t + 1\<rparr>
            in if tm_hour t > 23
               then
                 (let t = t\<lparr>tm_hour := 0, tm_mday := tm_mday t + 1\<rparr>
                  in if tm_mday t > days_in_month ! nat (tm_mon t)
                     then t\<lparr>tm_mon := tm_mon t + 1, tm_yday := tm_yday t + 1,
                            tm_wday := (tm_wday t + 1) smod 7, tm_mday := 1\<rparr>
                     else t)
               else t)
         else t)"

definition parse_fields :: "int \<Rightarrow> tm \<Rightarrow> tm option" where
  "parse_fields u t =
     (let day = s16 (u sdiv SECPERDY);
          left = u smod SECPERDY;
          (left, day) = (if left < 0 then (left + SECPERDY, s16 (day - 1)) else (left, day));
          t = t\<lparr>tm_hour := left sdiv SECPERHR\<rparr>;
          left = left smod SECPERHR;
          t = t\<lparr>tm_min := left sdiv SECPERMN\<rparr>;
          left = left smod SECPERMN;
          t = t\<lparr>tm_sec := left\<rparr>;
          w = s16 (4 + day) smod 7;
          t = t\<lparr>tm_wday := (if w < 0 then w + 7 else w)\<rparr>;
          (day, y) = (if day \<ge> 0 then year_up day 1970 else year_down day 1970);
          t = t\<lparr>tm_year := s16 (y - 1900), tm_yday := day\<rparr>
      in case month_up (tm_year t + 1900) day 0 of
           None \<Rightarrow> None
         | Some (day, mon) \<Rightarrow> Some (t\<lparr>tm_mon := mon, tm_mday := day + 1\<rparr>))"

definition parseTime :: "int \<Rightarrow> bool \<Rightarrow> tm \<Rightarrow> tm option" where
  "parseTime time local t =
     (let u = (if local then ut2ltim time else time);
          t = (if local then t\<lparr>tm_isdst := - 1, tm_gmtoff := ut2ltim 0, tm_zone := ''PST''\<rparr>
               else t\<lparr>tm_isdst := 0, tm_gmtoff := 0, tm_zone := ''UTC''\<rparr>)
      in map_option (\<lambda>t. if local then parse_dst t else t) (parse_fields u t))"

definition gmtime_r :: "int \<Rightarrow> tm \<Rightarrow> tm option" where
  "gmtime_r utc t = parseTime utc False t"

definition localtime_r :: "int \<Rightarrow> tm \<Rightarrow> tm option" where
  "localtime_r utc t = parseTime utc True t"

text \<open>\<open>gmtime\<close> and \<open>localtime\<close> parse into the static \<open>system_time\<close>: the state is that structure.\<close>

definition gmtime :: "int \<Rightarrow> tm \<Rightarrow> tm option" where
  "gmtime gmt system_time = parseTime gmt False system_time"

definition localtime :: "int \<Rightarrow> tm \<Rightarrow> tm option" where
  "localtime gmt system_time = parseTime gmt True system_time"

subsection \<open>Normalization\<close>

text \<open>The common step: the part of \<open>x\<close> outside \<open>0..<k\<close> is carried.\<close>

definition norm_sec :: "tm \<Rightarrow> tm" where
  "norm_sec t =
     (if tm_sec t < 0 \<or> tm_sec t > 60
      then
        (let tmp = tm_sec t sdiv 60;
             t = t\<lparr>tm_sec := s16 (tm_sec t - 60 * tmp), tm_min := s16 (tm_min t + tmp)\<rparr>
         in if tm_sec t < 0 then t\<lparr>tm_sec := s16 (tm_sec t + 60), tm_min := s16 (tm_min t - 1)\<rparr> else t)
      else t)"

definition norm_min :: "tm \<Rightarrow> tm" where
  "norm_min t =
     (if tm_min t < 0 \<or> tm_min t > 59
      then
        (let tmp = tm_min t sdiv 60;
             t = t\<lparr>tm_min := s16 (tm_min t - 60 * tmp), tm_hour := s16 (tm_hour t + tmp)\<rparr>
         in if tm_min t < 0 then t\<lparr>tm_min := s16 (tm_min t + 60), tm_hour := s16 (tm_hour t - 1)\<rparr> else t)
      else t)"

definition norm_midnight :: "tm \<Rightarrow> tm" where
  "norm_midnight t =
     (if tm_hour t = 24 \<and> tm_min t = 0 \<and> tm_sec t = 0
      then
        (let t = t\<lparr>tm_hour := 0, tm_mday := s16 (tm_mday t + 1)\<rparr>
         in if tm_mon t \<ge> 0 \<and> tm_mon t \<le> 11 \<and>
               tm_mday t > days_in_month ! nat (tm_mon t) + (if tm_mon t = 1 \<and> isleap (s16 (1900 + tm_year t)) then 1 else 0)
            then
              (let t = t\<lparr>tm_mon := tm_mon t + 1, tm_mday := 1\<rparr>
               in if tm_mon t = 12 then t\<lparr>tm_year := s16 (tm_year t + 1), tm_mon := 0\<rparr> else t)
            else t)
      else t)"

definition norm_hour :: "tm \<Rightarrow> tm" where
  "norm_hour t =
     (if tm_hour t < 0 \<or> tm_hour t > 23
      then
        (let tmp = tm_hour t sdiv 24;
             t = t\<lparr>tm_hour := s16 (tm_hour t - 24 * tmp), tm_mday := s16 (tm_mday t + tmp)\<rparr>
         in if tm_hour t < 0 then t\<lparr>tm_hour := s16 (tm_hour t + 24), tm_mday := s16 (tm_mday t - 1)\<rparr> else t)
      else t)"

definition norm_mon :: "tm \<Rightarrow> tm" where
  "norm_mon t =
     (if tm_mon t < 0 \<or> tm_mon t > 11
      then
        (let tmp = tm_mon t sdiv 12;
             t = t\<lparr>tm_mon := s16 (tm_mon t - 12 * tmp), tm_year := s16 (tm_year t + tmp)\<rparr>
         in if tm_mon t < 0 then t\<lparr>tm_mon := s16 (tm_mon t + 12), tm_year := s16 (tm_year t - 1)\<rparr> else t)
      else t)"

text \<open>The loops on the day of the month, on (month, day) of a year and on (year, day).\<close>

function back_to_january :: "int \<Rightarrow> int \<Rightarrow> int \<Rightarrow> (int \<times> int) option" where
  "back_to_january year mon mday =
     (if mon > 0
      then case month_length (s16 (1900 + year)) (mon - 1) of
             None \<Rightarrow> None
           | Some l \<Rightarrow> back_to_january year (mon - 1) (s16 (mday + l))
      else Some (mon, mday))"
  by pat_completeness auto
termination by (relation "measure (\<lambda>(y, m, d). nat m)") auto

function years_back :: "int \<Rightarrow> int \<Rightarrow> int \<times> int" where
  "years_back year mday =
     (if mday < 1
      then years_back (s16 (year - 1)) (mday + days_in_year (s16 (1900 + s16 (year - 1))))
      else (year, mday))"
  by pat_completeness auto
termination by (relation "measure (\<lambda>(y, d). nat (1 - d))") (auto simp: days_in_year_def)

function years_on :: "int \<Rightarrow> int \<Rightarrow> int \<times> int" where
  "years_on year mday =
     (if mday > days_in_year (s16 (1900 + year))
      then years_on (s16 (year + 1)) (mday - days_in_year (s16 (1900 + year)))
      else (year, mday))"
  by pat_completeness auto
termination by (relation "measure (\<lambda>(y, d). nat d)") (auto simp: days_in_year_def split: if_splits)

lemma month_length_pos: "month_length y m = Some l \<Longrightarrow> 28 \<le> l \<and> l \<le> 31 \<and> 0 \<le> m \<and> m < 12"
proof -
  assume a: "month_length y m = Some l"
  then have "0 \<le> m" "m < 12" by (simp_all add: month_length_def split: if_splits)
  then have m: "m \<in> {0, 1, 2, 3, 4, 5, 6, 7, 8, 9, 10, 11}" by simp presburger
  show ?thesis using a m by (auto simp: month_length_def days_in_month_def split: if_splits)
qed

function months_back :: "int \<Rightarrow> int \<Rightarrow> int \<Rightarrow> (int \<times> int \<times> int) option" where
  "months_back year mon mday =
     (if mday < 1
      then
        (let (mon, year) = (if mon - 1 < 0 then (mon - 1 + 12, s16 (year - 1)) else (mon - 1, year))
         in case month_length (s16 (1900 + year)) mon of
              None \<Rightarrow> None
            | Some l \<Rightarrow> months_back year mon (mday + l))
      else Some (year, mon, mday))"
  by pat_completeness auto
termination
  by (relation "measure (\<lambda>(y, m, d). nat (1 - d))") (auto dest: month_length_pos split: if_splits)

function months_on :: "int \<Rightarrow> int \<Rightarrow> int \<Rightarrow> (int \<times> int \<times> int) option" where
  "months_on year mon mday =
     (case month_length (s16 (1900 + year)) mon of
        None \<Rightarrow> None
      | Some l \<Rightarrow>
          if mday > l
          then
            (let (mon, year) = (if mon + 1 > 11 then (mon + 1 - 12, s16 (year + 1)) else (mon + 1, year))
             in months_on year mon (mday - l))
          else Some (year, mon, mday))"
  by pat_completeness auto
termination
  by (relation "measure (\<lambda>(y, m, d). nat d)") (auto dest: month_length_pos split: if_splits)

definition norm_mday :: "tm \<Rightarrow> tm option" where
  "norm_mday t = do {
     (year, mon, mday) \<leftarrow>
       (if s16 \<bar>tm_mday t\<bar> > 366
        then do {
          (mon, mday) \<leftarrow> back_to_january (tm_year t) (tm_mon t) (tm_mday t);
          let (year, mday) = years_back (tm_year t) mday;
          let (year, mday) = years_on year mday;
          Some (year, mon, mday)
        }
        else Some (tm_year t, tm_mon t, tm_mday t));
     (year, mon, mday) \<leftarrow> months_back year mon mday;
     (year, mon, mday) \<leftarrow> months_on year mon mday;
     Some (t\<lparr>tm_year := year, tm_mon := mon, tm_mday := mday\<rparr>)
   }"

definition normalizeTm :: "tm \<Rightarrow> tm option" where
  "normalizeTm t = do {
     t1 \<leftarrow> norm_mday (norm_mon (norm_hour (norm_midnight (norm_min (norm_sec t)))));
     (_, t2) \<leftarrow> day_of_epoch t1 True;
     Some t2
   }"

definition mktime :: "tm \<Rightarrow> (int \<times> tm) option" where
  "mktime t = do {
     t1 \<leftarrow> normalizeTm t;
     (day, t2) \<leftarrow> day_of_epoch t1 True;
     let time = tm_sec t2 + tm_min t2 * SECPERMN + tm_hour t2 * SECPERHR + day * SECPERDY;
     Some (if tm_gmtoff t2 = 0 then time else time - tm_gmtoff t2, t2)
   }"

section \<open>Leap years and the reference calendar\<close>

lemma and3: "(x :: int) AND 3 = x mod 4"
  using take_bit_eq_mask [of 2 x] by (simp add: mask_eq_exp_minus_1 take_bit_eq_mod)

text \<open>The bit tricks compute the Gregorian rule.\<close>

lemma isleap_iff: "isleap y \<longleftrightarrow> 4 dvd y \<and> (100 dvd y \<longrightarrow> 400 dvd y)"
proof -
  have k: "(100 * k) sdiv 100 = k" for k :: int by (simp add: signed_divide_int_def abs_mult sgn_mult sgn_mult_abs)
  have "y sdiv 100 * 100 = y \<longleftrightarrow> 100 dvd y"
  proof
    assume "y sdiv 100 * 100 = y"
    then show "100 dvd y" by (intro dvdI [of _ _ "y sdiv 100"]) simp
  next
    assume "100 dvd y"
    then obtain k where "y = 100 * k" by (rule dvdE)
    then show "y sdiv 100 * 100 = y" by (simp add: k)
  qed
  moreover have "4 dvd y sdiv 100 \<longleftrightarrow> 400 dvd y" if "100 dvd y"
  proof -
    obtain j where "y = 100 * j" using \<open>100 dvd y\<close> by (rule dvdE)
    then show ?thesis by (auto simp: k)
  qed
  ultimately show ?thesis unfolding isleap_def Let_def and3 dvd_eq_mod_eq_0 [symmetric] by auto
qed

text \<open>The days from 1 January 1970 to 1 January of a year, and from there to a month.\<close>

definition days_to_year :: "int \<Rightarrow> int" where
  "days_to_year y = 365 * (y - 1970) + (y - 1) div 4 - (y - 1) div 100 + (y - 1) div 400 - 477"

definition days_to_month :: "int \<Rightarrow> int \<Rightarrow> int" where
  "days_to_month y m = sum_list (take (nat m) days_in_month) + (if 1 < m \<and> isleap y then 1 else 0)"

definition daynum :: "int \<Rightarrow> int \<Rightarrow> int \<Rightarrow> int" where
  "daynum y m d = days_to_year y + days_to_month y m + (d - 1)"

lemma div_pred:
  fixes y k :: int
  assumes "0 < k"
  shows "(y - 1) div k = y div k - (if k dvd y then 1 else 0)"
proof (cases "k dvd y")
  case True
  then obtain q where "y = k * q" by (rule dvdE)
  then have "y - 1 = k * (q - 1) + (k - 1)" by (simp add: algebra_simps)
  from int_div_pos_eq [OF this] assms have "(y - 1) div k = q - 1" by simp
  then show ?thesis using \<open>y = k * q\<close> assms by simp
next
  case False
  then have "0 < y mod k" using assms by (simp add: order.strict_iff_order dvd_eq_mod_eq_0)
  moreover have "y - 1 = k * (y div k) + (y mod k - 1)" by simp
  ultimately have "(y - 1) div k = y div k"
    using int_div_pos_eq [of "y - 1" k "y div k" "y mod k - 1"] assms pos_mod_bound [of k y] by linarith
  then show ?thesis using False by simp
qed

lemma days_to_year_Suc: "days_to_year (y + 1) = days_to_year y + days_in_year y"
proof -
  have "400 dvd y \<Longrightarrow> 100 dvd y" "100 dvd y \<Longrightarrow> 4 dvd y"
    by (rule dvd_trans [of 100 400]; simp) (rule dvd_trans [of 4 100]; simp)
  then show ?thesis
    by (auto simp: days_to_year_def days_in_year_def isleap_iff div_pred)
qed

lemma days_to_year_1970 [simp]: "days_to_year 1970 = 0"
  by (simp add: days_to_year_def)

lemma days_in_year_bounds: "365 \<le> days_in_year y" "days_in_year y \<le> 366"
  by (simp_all add: days_in_year_def)

lemma month_cases:
  fixes m :: int
  assumes "0 \<le> m" "m < 12"
  shows "m \<in> {0, 1, 2, 3, 4, 5, 6, 7, 8, 9, 10, 11}"
  using assms by simp presburger

lemma days_to_month_Suc:
  "month_length y m = Some l \<Longrightarrow> days_to_month y (m + 1) = days_to_month y m + l"
  using month_cases [of m]
  by (auto simp: month_length_def days_to_month_def days_in_month_def split: if_splits)

lemma days_to_month_ends [simp]: "days_to_month y 0 = 0" "days_to_month y 12 = days_in_year y"
  by (simp_all add: days_to_month_def days_in_month_def days_in_year_def)

lemma sum_upto_years:
  "1970 \<le> y \<Longrightarrow> sum_list (map days_in_year [1970..y - 1]) = days_to_year y"
proof (induction y rule: int_ge_induct)
  case (step y)
  have "[1970..y] = [1970..y - 1] @ [y]" using step.hyps upto_rec2 by simp
  then show ?case using step.IH days_to_year_Suc [of y] by simp
qed simp

lemma sum_downto_years:
  "y \<le> 1970 \<Longrightarrow> sum_list (map days_in_year (rev [y..1969])) = - days_to_year y"
proof (induction y rule: int_le_induct)
  case (step y)
  have "[y - 1..1969] = (y - 1) # [y..1969]" using step.hyps upto_rec1 [of "y - 1" 1969] by simp
  then show ?case using step.IH days_to_year_Suc [of "y - 1"] by simp
qed simp

section \<open>The loops\<close>

lemma s16_s16: "s16 (s16 a + b) = s16 (a + b)" "s16 (s16 a - b) = s16 (a - b)" "s16 (s16 a) = s16 a"
  "s16 (b + s16 a) = s16 (b + a)"
  by (simp_all add: s16_def mod_simps) (simp_all add: algebra_simps mod_simps)

lemma fold_s16:
  "fold (\<lambda>x d. s16 (d + f x)) xs (s16 d) = s16 (d + sum_list (map f xs))"
  "fold (\<lambda>x d. s16 (d - f x)) xs (s16 d) = s16 (d - sum_list (map f xs))"
  by (induction xs arbitrary: d) (simp_all add: s16_s16 algebra_simps)

declare year_up.simps [simp del] year_down.simps [simp del] month_up.simps [simp del]
declare back_to_january.simps [simp del] years_back.simps [simp del] years_on.simps [simp del]
declare months_back.simps [simp del] months_on.simps [simp del]

lemma year_up_spec:
  "year_up d y = (d', y') \<Longrightarrow> 0 \<le> d \<Longrightarrow>
    0 \<le> d' \<and> d' < days_in_year y' \<and> days_to_year y' + d' = days_to_year y + d \<and>
    y \<le> y' \<and> 365 * (y' - y) \<le> d"
proof (induction d y rule: year_up.induct)
  case (1 d y)
  show ?case
  proof (cases "days_in_year y \<le> d")
    case True
    have "year_up (d - days_in_year y) (y + 1) = (d', y')"
      using "1.prems"(1) True by (simp add: year_up.simps [of d y])
    from "1.IH" [OF True this] True show ?thesis
      using days_to_year_Suc [of y] days_in_year_bounds [of y] by simp
  next
    case False
    then show ?thesis using "1.prems" by (simp add: year_up.simps [of d y])
  qed
qed

lemma year_down_spec:
  "year_down d y = (d', y') \<Longrightarrow> d < days_in_year y \<Longrightarrow>
    0 \<le> d' \<and> d' < days_in_year y' \<and> days_to_year y' + d' = days_to_year y + d \<and>
    (0 \<le> d \<longrightarrow> y' = y) \<and> (d < 0 \<longrightarrow> y' < y \<and> 365 * (y - y') \<le> 364 - d)"
proof (induction d y rule: year_down.induct)
  case (1 d y)
  show ?case
  proof (cases "d < 0")
    case True
    have "year_down (d + days_in_year (y - 1)) (y - 1) = (d', y')"
      using "1.prems"(1) True by (simp add: year_down.simps [of d y])
    from "1.IH" [OF True this] True show ?thesis
      using days_to_year_Suc [of "y - 1"] days_in_year_bounds [of "y - 1"] by auto
  next
    case False
    then show ?thesis using "1.prems" by (simp add: year_down.simps [of d y])
  qed
qed

lemma month_up_spec:
  "0 \<le> d \<Longrightarrow> 0 \<le> m \<Longrightarrow> m < 12 \<Longrightarrow> d + days_to_month y m < days_in_year y \<Longrightarrow>
    \<exists>d' m' l. month_up y d m = Some (d', m') \<and> 0 \<le> d' \<and> month_length y m' = Some l \<and> d' < l \<and>
      0 \<le> m' \<and> m' < 12 \<and> days_to_month y m' + d' = days_to_month y m + d"
proof (induction y d m rule: month_up.induct)
  case (1 y d m)
  obtain l where l: "month_length y m = Some l" using "1.prems"(2,3) by (simp add: month_length_def)
  note s = days_to_month_Suc [OF l]
  show ?case
  proof (cases "l \<le> d")
    case True
    have "m + 1 \<noteq> 12" using s True "1.prems"(4) days_to_month_ends(2) [of y] by auto
    then have "\<exists>d' m' l'. month_up y (d - l) (m + 1) = Some (d', m') \<and> 0 \<le> d' \<and> month_length y m' = Some l' \<and>
        d' < l' \<and> 0 \<le> m' \<and> m' < 12 \<and> days_to_month y m' + d' = days_to_month y (m + 1) + (d - l)"
      using "1.prems" s True by (intro "1.IH" [OF l True]) auto
    then show ?thesis using l True s by (simp add: month_up.simps [of y d m])
  next
    case False
    then show ?thesis using l "1.prems" by (simp add: month_up.simps [of y d m])
  qed
qed

section \<open>The day number\<close>

lemma smod7: "(let w = x smod 7 in if w < 0 then w + 7 else w) = x mod (7 :: int)"
  by (simp add: Let_def smod_int_alt_def sgn_if) presburger

lemma map_nth_upt: "n \<le> length xs \<Longrightarrow> map (\<lambda>i. xs ! i) [0..<n] = take n xs"
  by (rule nth_equalityI) simp_all

lemma months_fold:
  "m \<le> 12 \<Longrightarrow> fold (\<lambda>i d. s16 (d + days_in_month ! i)) [0..<nat m] (s16 d) =
     s16 (d + sum_list (take (nat m) days_in_month))"
  using map_nth_upt [of "nat m" days_in_month] by (simp add: fold_s16 days_in_month_def)

lemma years_fold:
  "(if 1970 < y then fold (\<lambda>y d. s16 (d + days_in_year y)) [1970..y - 1] (s16 d)
    else if y < 1970 then fold (\<lambda>y d. s16 (d - days_in_year y)) (rev [y..1969]) (s16 d)
    else s16 d) = s16 (d + days_to_year y)"
  using sum_upto_years [of y] sum_downto_years [of y] by (cases "y = 1970") (auto simp: fold_s16)

lemma day_of_epoch_eq:
  assumes "tm_mon t \<le> 12"
  defines "y \<equiv> s16 (1900 + tm_year t)"
  shows "day_of_epoch t norm = Some (s16 (daynum y (tm_mon t) (tm_mday t)),
     if norm then t\<lparr>tm_yday := s16 (days_to_month y (tm_mon t) + tm_mday t - 1),
       tm_wday := s16 (daynum y (tm_mon t) (tm_mday t) + THURSDAY) mod 7\<rparr> else t)"
proof -
  let ?S = "sum_list (take (nat (tm_mon t)) days_in_month)"
  let ?D = "tm_mday t - 1 + ?S"
  have m: "(if tm_mon t > 1 \<and> isleap y then s16 (s16 ?D + 1) else s16 ?D) =
      s16 (days_to_month y (tm_mon t) + tm_mday t - 1)"
    by (simp add: days_to_month_def s16_s16 algebra_simps)
  have n: "\<not> 12 < tm_mon t" using assms(1) by simp
  have e: "daynum y (tm_mon t) (tm_mday t) = days_to_month y (tm_mon t) + tm_mday t - 1 + days_to_year y"
    by (simp add: daynum_def)
  show ?thesis
    unfolding day_of_epoch_def if_not_P [OF n] Let_def y_def [symmetric] months_fold [OF assms(1)]
    unfolding m unfolding years_fold unfolding smod7 [unfolded Let_def] e s16_s16
    by (cases norm) simp_all
qed

section \<open>Parsing and its inverse\<close>

text \<open>A normalized date, and the second it stands for.\<close>

definition date_ok :: "tm \<Rightarrow> bool" where
  "date_ok t \<longleftrightarrow> (\<exists>l. month_length (1900 + tm_year t) (tm_mon t) = Some l \<and> 1 \<le> tm_mday t \<and> tm_mday t \<le> l)"

definition time_ok :: "tm \<Rightarrow> bool" where
  "time_ok t \<longleftrightarrow> 0 \<le> tm_sec t \<and> tm_sec t < 60 \<and> 0 \<le> tm_min t \<and> tm_min t < 60 \<and> 0 \<le> tm_hour t \<and> tm_hour t < 24"

definition day_no :: "tm \<Rightarrow> int" where
  "day_no t = daynum (1900 + tm_year t) (tm_mon t) (tm_mday t)"

definition instant :: "tm \<Rightarrow> int" where
  "instant t = day_no t * 86400 + tm_hour t * 3600 + tm_min t * 60 + tm_sec t"

lemma day_time:
  "(let left = u smod SECPERDY; day = s16 (u sdiv SECPERDY)
    in if left < 0 then (left + SECPERDY, s16 (day - 1)) else (left, day)) = (u mod 86400, s16 (u div 86400))"
proof (cases "0 \<le> u \<or> 86400 dvd u")
  case True
  then have "u smod 86400 = u mod 86400" "u sdiv 86400 = u div 86400"
    by (auto simp: signed_divide_int_eq_divide_int signed_modulo_int_eq_modulo_int sgn_if)
  then show ?thesis by (simp add: SECPERDY_def Let_def)
next
  case False
  then have "u smod 86400 = u mod 86400 - 86400" "u sdiv 86400 = u div 86400 + 1"
    by (auto simp: signed_divide_int_eq_divide_int signed_modulo_int_eq_modulo_int sgn_if)
  moreover have "u mod 86400 < 86400" by simp
  ultimately show ?thesis by (simp add: SECPERDY_def Let_def s16_s16)
qed

lemma pos_sdiv: "0 \<le> x \<Longrightarrow> 0 < k \<Longrightarrow> x sdiv k = x div k" "0 \<le> x \<Longrightarrow> 0 < k \<Longrightarrow> x smod k = x mod (k :: int)"
  by (auto simp: signed_divide_int_def smod_int_alt_def sgn_if)

lemma years_parse:
  assumes "int16 d"
  obtains d' y where "(if d \<ge> 0 then year_up d 1970 else year_down d 1970) = (d', y)"
    "0 \<le> d'" "d' < days_in_year y" "days_to_year y + d' = d" "1800 \<le> y" "y \<le> 2100"
proof -
  obtain d' y where r: "(if d \<ge> 0 then year_up d 1970 else year_down d 1970) = (d', y)" by (rule prod.exhaust)
  show thesis
  proof (cases "d \<ge> 0")
    case True
    then have "year_up d 1970 = (d', y)" using r by simp
    from year_up_spec [OF this True] show thesis
      using assms by (intro that [OF r]) (simp_all add: MAXINT_def)
  next
    case False
    then have "year_down d 1970 = (d', y)" using r by simp
    from year_down_spec [OF this] False show thesis
      using assms days_in_year_bounds [of 1970] by (intro that [OF r]) (simp_all add: MININT_def)
  qed
qed

lemma split_seconds:
  fixes x :: int
  assumes "0 \<le> x" "x < 86400"
  shows "x div 3600 * 3600 + x mod 3600 div 60 * 60 + x mod 3600 mod 60 = x"
    "0 \<le> x div 3600" "x div 3600 < 24" "0 \<le> x mod 3600 div 60" "x mod 3600 div 60 < 60"
proof -
  let ?r = "x mod 3600"
  have "x div 3600 * 3600 + ?r = x" "?r div 60 * 60 + ?r mod 60 = ?r" by (rule div_mult_mod_eq)+
  moreover have "0 \<le> ?r" "?r < 3600" "0 \<le> ?r mod 60" "?r mod 60 < 60" by simp_all
  ultimately show "x div 3600 * 3600 + ?r div 60 * 60 + ?r mod 60 = x"
    "0 \<le> x div 3600" "x div 3600 < 24" "0 \<le> ?r div 60" "?r div 60 < 60"
    using assms by linarith+
qed

lemma parse_fields_eq:
  assumes "(let left = u smod SECPERDY; day = s16 (u sdiv SECPERDY)
      in if left < 0 then (left + SECPERDY, s16 (day - 1)) else (left, day)) = (l, d)"
    and "l sdiv SECPERHR = h" "l smod SECPERHR = r" "r sdiv SECPERMN = mi" "r smod SECPERMN = se"
    and "s16 (4 + d) = w" "(if d \<ge> 0 then year_up d 1970 else year_down d 1970) = (d', y)"
    and "s16 (y - 1900) = y'" "month_up (y' + 1900) d' 0 = Some (d'', m)"
  shows "parse_fields u t = Some (t\<lparr>tm_hour := h, tm_min := mi, tm_sec := se, tm_wday := w mod 7,
     tm_year := y', tm_yday := d', tm_mon := m, tm_mday := d'' + 1\<rparr>)"
proof -
  have a: "s16 (u sdiv SECPERDY) = day \<Longrightarrow> (if u smod SECPERDY < 0 then (u smod SECPERDY + SECPERDY, s16 (day - 1))
     else (u smod SECPERDY, day)) = (l, d)" for day
    using assms(1) by (simp add: Let_def)
  show ?thesis
    unfolding parse_fields_def Let_def a [OF refl] prod.case assms(2-7) assms(8,9)
      smod7 [unfolded Let_def]
    by (simp add: assms(8,9))
qed

lemma parse_fields_ok:
  assumes "MININT \<le> u div 86400" "u div 86400 < MAXINT - 4"
  obtains t' where "parse_fields u t = Some t'" "date_ok t'" "time_ok t'" "instant t' = u"
    "tm_wday t' = (4 + u div 86400) mod 7" "tm_yday t' = day_no t' - days_to_year (1900 + tm_year t')"
    "tm_isdst t' = tm_isdst t" "tm_gmtoff t' = tm_gmtoff t" "tm_zone t' = tm_zone t"
    "- 100 \<le> tm_year t'" "tm_year t' \<le> 200"
proof -
  let ?d = "u div 86400" and ?l = "u mod 86400"
  have l: "0 \<le> ?l" "?l < 86400" by simp_all
  have d: "s16 ?d = ?d" "s16 (4 + ?d) = 4 + ?d" "int16 ?d" using assms by (simp_all add: MININT_def MAXINT_def)
  obtain d' y where y: "(if ?d \<ge> 0 then year_up ?d 1970 else year_down ?d 1970) = (d', y)"
    "0 \<le> d'" "d' < days_in_year y" "days_to_year y + d' = ?d" "1800 \<le> y" "y \<le> 2100"
    by (rule years_parse [OF d(3)])
  have sy: "s16 (y - 1900) + 1900 = y" using y(5,6) by (simp add: MININT_def MAXINT_def)
  obtain d'' m k where m: "month_up y d' 0 = Some (d'', m)" "0 \<le> d''" "month_length y m = Some k" "d'' < k"
    "0 \<le> m" "m < 12" "days_to_month y m + d'' = d'"
    using month_up_spec [of d' 0 y] y(2,3) by auto
  obtain h mi se where hms: "h = ?l div 3600" "mi = ?l mod 3600 div 60" "se = ?l mod 3600 mod 60" by blast
  have time: "h * 3600 + mi * 60 + se = ?l" "0 \<le> h" "h < 24" "0 \<le> mi" "mi < 60" "0 \<le> se" "se < 60"
    unfolding hms by (rule split_seconds [OF l])+ simp_all
  let ?t = "t\<lparr>tm_hour := h, tm_min := mi, tm_sec := se,
     tm_wday := (4 + ?d) mod 7, tm_year := y - 1900, tm_yday := d', tm_mon := m, tm_mday := d'' + 1\<rparr>"
  have r: "0 \<le> ?l mod 3600" by simp
  have e: "?l sdiv SECPERHR = h" "?l smod SECPERHR = ?l mod 3600"
    "(?l mod 3600) sdiv SECPERMN = mi" "(?l mod 3600) smod SECPERMN = se"
    unfolding hms SECPERHR_def SECPERMN_def by (rule pos_sdiv [OF l(1)] pos_sdiv [OF r], simp)+
  have ys: "s16 (y - 1900) = y - 1900" and mu: "month_up (y - 1900 + 1900) d' 0 = Some (d'', m)"
    using sy m(1) by simp_all
  note day = day_time [of u, unfolded d(1)]
  have eq: "parse_fields u t = Some ?t" by (rule parse_fields_eq [OF day e d(2) y(1) ys mu])
  have dd: "days_to_year y + (days_to_month y m + d'') = ?d" using y(4) m(7) by simp
  have "(days_to_year y + (days_to_month y m + d'')) * 86400 + h * 3600 + mi * 60 + se = u"
    unfolding dd using div_mult_mod_eq [of u 86400] time(1) by linarith
  then show thesis
    by (intro that [OF eq]) (use time(2-7) m(2-7) y(5,6) in
      \<open>simp_all add: date_ok_def time_ok_def instant_def day_no_def daynum_def\<close>)
qed

lemma days_to_month_bounds:
  "month_length y m = Some l \<Longrightarrow> 0 \<le> days_to_month y m \<and> days_to_month y m + l \<le> 366"
  using month_cases [of m]
  by (auto simp: month_length_def days_to_month_def days_in_month_def split: if_splits)

text \<open>\<open>getUTC\<close> is the inverse of the parse, as far as the day number has room in 16 bits.\<close>

lemma getUTC_instant:
  assumes "date_ok t" "int16 (1900 + tm_year t)" "int16 (day_no t)"
  shows "getUTC t = Some (instant t - tm_gmtoff t)"
proof -
  have "tm_mon t \<le> 12" using assms(1) by (auto simp: date_ok_def month_length_def split: if_splits)
  from day_of_epoch_eq [OF this, of False] have "day_of_epoch t False = Some (day_no t, t)"
    using assms(2,3) by (simp add: day_no_def)
  then show ?thesis
    by (simp add: getUTC_def instant_def SECPERDY_def SECPERHR_def SECPERMN_def Let_def)
qed

text \<open>Daylight saving time moves the clock, not the instant.\<close>

lemma isDST_months: "isDST t j \<Longrightarrow> tm_mon t \<noteq> 11 \<and> tm_mon t \<noteq> 0 \<and> tm_mon t \<noteq> 1"
  by (auto simp: isDST_def)

definition same_instant :: "tm \<Rightarrow> tm \<Rightarrow> bool" where
  "same_instant t t' \<longleftrightarrow> date_ok t' \<and> time_ok t' \<and> tm_year t' = tm_year t \<and>
     instant t' - tm_gmtoff t' = instant t - tm_gmtoff t \<and> day_no t \<le> day_no t' \<and> day_no t' \<le> day_no t + 1"

lemma clock_forward:
  fixes d :: int and z :: string
  assumes "date_ok t" "time_ok t" "2 \<le> tm_mon t" "tm_mon t \<le> 10"
  defines "t1 \<equiv> t\<lparr>tm_isdst := d, tm_gmtoff := tm_gmtoff t + 3600, tm_zone := z, tm_hour := tm_hour t + 1\<rparr>"
  shows "tm_hour t1 \<le> 23 \<Longrightarrow> same_instant t t1"
    and "tm_hour t1 > 23 \<Longrightarrow> \<not> tm_mday t + 1 > days_in_month ! nat (tm_mon t) \<Longrightarrow>
      same_instant t (t1\<lparr>tm_hour := 0, tm_mday := tm_mday t + 1\<rparr>)"
    and "tm_hour t1 > 23 \<Longrightarrow> tm_mday t + 1 > days_in_month ! nat (tm_mon t) \<Longrightarrow>
      same_instant t (t1\<lparr>tm_hour := 0, tm_mon := tm_mon t + 1, tm_yday := yd, tm_wday := wd, tm_mday := 1\<rparr>)"
proof -
  obtain l where l: "month_length (1900 + tm_year t) (tm_mon t) = Some l" "1 \<le> tm_mday t" "tm_mday t \<le> l"
    using assms(1) by (auto simp: date_ok_def)
  then have len: "l = days_in_month ! nat (tm_mon t)" using assms(3,4) by (simp add: month_length_def)
  have "\<exists>l'. month_length (1900 + tm_year t) (tm_mon t + 1) = Some l'"
    using assms(3,4) by (simp add: month_length_def)
  then obtain l' where l': "month_length (1900 + tm_year t) (tm_mon t + 1) = Some l'" "28 \<le> l'"
    using month_length_pos by blast
  note S = days_to_month_Suc [OF l(1)]
  show "tm_hour t1 \<le> 23 \<Longrightarrow> same_instant t t1"
    using assms(1,2) by (simp add: same_instant_def t1_def date_ok_def time_ok_def instant_def day_no_def)
  show "tm_hour t1 > 23 \<Longrightarrow> \<not> tm_mday t + 1 > days_in_month ! nat (tm_mon t) \<Longrightarrow>
      same_instant t (t1\<lparr>tm_hour := 0, tm_mday := tm_mday t + 1\<rparr>)"
    using l assms(2) by (simp add: len same_instant_def t1_def date_ok_def time_ok_def instant_def day_no_def daynum_def)
  show "tm_hour t1 > 23 \<Longrightarrow> tm_mday t + 1 > days_in_month ! nat (tm_mon t) \<Longrightarrow>
      same_instant t (t1\<lparr>tm_hour := 0, tm_mon := tm_mon t + 1, tm_yday := yd, tm_wday := wd, tm_mday := 1\<rparr>)"
    using l l' assms(2) S
    by (simp add: len same_instant_def t1_def date_ok_def time_ok_def instant_def day_no_def daynum_def)
qed

lemma parse_dst_ok:
  assumes "date_ok t" "time_ok t" "tm_gmtoff t = - 28800"
  shows "same_instant t (parse_dst t)"
proof -
  let ?J = "(4 + (tm_year t - 70) + (tm_year t - 69) sdiv 4) smod 7"
  show ?thesis
  proof (cases "isDST t ?J")
    case False
    then show ?thesis using assms by (simp add: parse_dst_def Let_def same_instant_def)
  next
    case True
    have "0 \<le> tm_mon t" "tm_mon t < 12"
      using assms(1) by (auto simp: date_ok_def month_length_def split: if_splits)
    then have m: "2 \<le> tm_mon t" "tm_mon t \<le> 10" using isDST_months [OF True] by auto
    have g: "ltim2dst (ut2ltim 0) = tm_gmtoff t + 3600"
      by (simp add: assms(3) ltim2dst_def ut2ltim_def ZONE_PST_def SECPERHR_def)
    show ?thesis
      using True clock_forward [OF assms(1,2) m]
      by (auto simp: parse_dst_def Let_def g)
  qed
qed

end
