(* ===== verification/Normalize.thy ===== *)
theory Normalize
  imports Calendar
begin

text \<open>
  \<open>normalizeTm\<close> and \<open>mktime\<close>: the result is a normalized date of the same instant. \<open>inst\<close> gives the
  instant of a structure that need not be normalized: months beyond December count as months of
  a later year.
\<close>

definition abs_day :: "int \<Rightarrow> int \<Rightarrow> int \<Rightarrow> int" where
  "abs_day y m d = daynum (y + m div 12) (m mod 12) d"

definition inst :: "tm \<Rightarrow> int" where
  "inst t = abs_day (1900 + tm_year t) (tm_mon t) (tm_mday t) * 86400 +
     (tm_hour t * 3600 + tm_min t * 60 + tm_sec t)"

lemma abs_day_add: "abs_day y m (d + e) = abs_day y m d + e"
  by (simp add: abs_day_def daynum_def)

lemma abs_day_carry: "abs_day (y + m div 12) (m mod 12) d = abs_day y m d"
  by (simp add: abs_day_def)

lemma abs_day_norm: "0 \<le> m \<Longrightarrow> m < 12 \<Longrightarrow> abs_day y m d = daynum y m d"
  by (simp add: abs_day_def)

lemma abs_day_next:
  assumes "month_length y m = Some l"
  shows "abs_day y (m + 1) d = abs_day y m (d + l)"
proof -
  have m: "0 \<le> m" "m < 12" using month_length_pos [OF assms] by simp_all
  note S = days_to_month_Suc [OF assms]
  show ?thesis
  proof (cases "m = 11")
    case True
    then show ?thesis
      using S days_to_year_Suc [of y] days_to_month_ends(2) [of y] by (simp add: abs_day_def daynum_def)
  next
    case False
    then have "(m + 1) div 12 = 0" "(m + 1) mod 12 = m + 1" using m by simp_all
    then show ?thesis using m S by (simp add: abs_day_def daynum_def)
  qed
qed

lemma inst_instant: "date_ok t \<Longrightarrow> inst t = instant t"
  using month_length_pos by (fastforce simp: inst_def instant_def day_no_def date_ok_def abs_day_norm)

section \<open>Seconds, minutes, hours, months\<close>

text \<open>The division with the correction for negative numbers is division with a remainder that
  is not negative.\<close>

lemma carry:
  fixes x y k :: int
  assumes "0 < k" "k \<le> 60" "\<bar>x\<bar> \<le> 32000" "\<bar>y + x div k\<bar> \<le> 32000"
  defines "a \<equiv> s16 (x - k * (x sdiv k))" and "b \<equiv> s16 (y + x sdiv k)"
  shows "(if a < 0 then s16 (a + k) else a) = x mod k" "(if a < 0 then s16 (b - 1) else b) = y + x div k"
proof -
  have r: "0 \<le> x mod k" "x mod k < k" using assms(1) by simp_all
  have sa: "s16 (x mod k) = x mod k" "s16 (x mod k - k) = x mod k - k"
    "s16 (y + x div k) = y + x div k" "s16 (y + (x div k + 1)) = y + x div k + 1" "s16 (x mod k - k + k) = x mod k"
    "s16 (y + x div k + 1 - 1) = y + x div k"
    using assms(2) abs_le_D1 [OF assms(4)] abs_le_D2 [OF assms(4)] r by (simp_all add: MININT_def MAXINT_def)
  have "x - k * (x sdiv k) = x mod k \<and> x sdiv k = x div k \<or> x - k * (x sdiv k) = x mod k - k \<and> x sdiv k = x div k + 1"
    using assms(1) by (simp add: signed_divide_int_eq_divide_int minus_mult_div_eq_mod algebra_simps) blast
  then consider "x - k * (x sdiv k) = x mod k" "x sdiv k = x div k"
    | "x - k * (x sdiv k) = x mod k - k" "x sdiv k = x div k + 1" by blast
  then have "(if a < 0 then s16 (a + k) else a) = x mod k \<and> (if a < 0 then s16 (b - 1) else b) = y + x div k"
  proof cases
    case 1
    have "a = x mod k" unfolding a_def 1(1) by (rule sa)
    moreover have "b = y + x div k" unfolding b_def 1(2) by (rule sa)
    ultimately show ?thesis using r by simp
  next
    case 2
    have "a = x mod k - k" unfolding a_def 2(1) by (rule sa)
    moreover have "b = y + x div k + 1" unfolding b_def 2(2) add.assoc by (simp only: sa(4) add.assoc)
    ultimately show ?thesis using r sa(5,6) by simp
  qed
  then show "(if a < 0 then s16 (a + k) else a) = x mod k" "(if a < 0 then s16 (b - 1) else b) = y + x div k"
    by simp_all
qed

text \<open>A date within the bounds in which nothing wraps.\<close>

definition small :: "tm \<Rightarrow> bool" where
  "small t \<longleftrightarrow> \<bar>tm_sec t\<bar> \<le> 30000 \<and> \<bar>tm_min t\<bar> \<le> 30000 \<and> \<bar>tm_hour t\<bar> \<le> 30000 \<and>
     \<bar>tm_mday t\<bar> \<le> 30000 \<and> \<bar>tm_mon t\<bar> \<le> 30000 \<and> \<bar>tm_year t\<bar> \<le> 25000"

lemma div_bound:
  fixes x k :: int
  assumes "0 < k"
  shows "\<bar>x div k\<bar> * k \<le> \<bar>x\<bar> + k"
proof -
  have "x div k * k = x - x mod k" by (simp add: minus_mod_eq_div_mult)
  then have "\<bar>x div k\<bar> * k = \<bar>x - x mod k\<bar>" using assms by (metis abs_mult abs_of_pos)
  moreover have "0 \<le> x mod k" "x mod k < k" using assms by simp_all
  ultimately show ?thesis by linarith
qed

lemma norm_sec_eq:
  assumes "\<bar>tm_sec t\<bar> \<le> 32000" "\<bar>tm_min t\<bar> \<le> 30000"
  obtains s m where "norm_sec t = t\<lparr>tm_sec := s, tm_min := m\<rparr>" "0 \<le> s" "s \<le> 60"
    "m * 60 + s = tm_min t * 60 + tm_sec t" "\<bar>m\<bar> \<le> 30600" "s < 60 \<or> tm_sec t = 60"
proof (cases "tm_sec t < 0 \<or> tm_sec t > 60")
  case True
  have b: "\<bar>tm_min t + tm_sec t div 60\<bar> \<le> 30600"
    using div_bound [of 60 "tm_sec t"] assms by linarith
  have "norm_sec t = t\<lparr>tm_sec := tm_sec t mod 60, tm_min := tm_min t + tm_sec t div 60\<rparr>"
    using True carry [of 60 "tm_sec t" "tm_min t"] assms b by (auto simp: norm_sec_def Let_def split: if_splits)
  then show thesis
    by (rule that) (use b div_mult_mod_eq [of "tm_sec t" 60] in \<open>simp_all add: algebra_simps\<close>)
next
  case False
  then have "norm_sec t = t\<lparr>tm_sec := tm_sec t, tm_min := tm_min t\<rparr>" by (simp add: norm_sec_def)
  then show thesis by (rule that) (use False assms in \<open>simp_all, linarith\<close>)
qed

lemma norm_min_eq:
  assumes "\<bar>tm_min t\<bar> \<le> 30600" "\<bar>tm_hour t\<bar> \<le> 30000"
  obtains m h where "norm_min t = t\<lparr>tm_min := m, tm_hour := h\<rparr>" "0 \<le> m" "m < 60"
    "h * 60 + m = tm_hour t * 60 + tm_min t" "\<bar>h\<bar> \<le> 30600"
proof (cases "tm_min t < 0 \<or> tm_min t > 59")
  case True
  have b: "\<bar>tm_hour t + tm_min t div 60\<bar> \<le> 30600"
    using div_bound [of 60 "tm_min t"] assms by linarith
  have "norm_min t = t\<lparr>tm_min := tm_min t mod 60, tm_hour := tm_hour t + tm_min t div 60\<rparr>"
    using True carry [of 60 "tm_min t" "tm_hour t"] assms b by (auto simp: norm_min_def Let_def split: if_splits)
  then show thesis
    by (rule that) (use b div_mult_mod_eq [of "tm_min t" 60] in \<open>simp_all add: algebra_simps\<close>)
next
  case False
  then have "norm_min t = t\<lparr>tm_min := tm_min t, tm_hour := tm_hour t\<rparr>" by (simp add: norm_min_def)
  then show thesis by (rule that) (use False assms in simp_all)
qed

lemma norm_hour_eq:
  assumes "\<bar>tm_hour t\<bar> \<le> 30600" "\<bar>tm_mday t\<bar> \<le> 30001"
  obtains h d where "norm_hour t = t\<lparr>tm_hour := h, tm_mday := d\<rparr>" "0 \<le> h" "h < 24"
    "d * 24 + h = tm_mday t * 24 + tm_hour t" "\<bar>d\<bar> \<le> 31300"
proof (cases "tm_hour t < 0 \<or> tm_hour t > 23")
  case True
  have b: "\<bar>tm_mday t + tm_hour t div 24\<bar> \<le> 31300"
    using div_bound [of 24 "tm_hour t"] assms by linarith
  have "norm_hour t = t\<lparr>tm_hour := tm_hour t mod 24, tm_mday := tm_mday t + tm_hour t div 24\<rparr>"
    using True carry [of 24 "tm_hour t" "tm_mday t"] assms b by (auto simp: norm_hour_def Let_def split: if_splits)
  then show thesis
    by (rule that) (use b div_mult_mod_eq [of "tm_hour t" 24] in \<open>simp_all add: algebra_simps\<close>)
next
  case False
  then have "norm_hour t = t\<lparr>tm_hour := tm_hour t, tm_mday := tm_mday t\<rparr>" by (simp add: norm_hour_def)
  then show thesis by (rule that) (use False assms in simp_all)
qed

lemma norm_mon_eq:
  assumes "\<bar>tm_mon t\<bar> \<le> 30000" "\<bar>tm_year t\<bar> \<le> 25001"
  shows "norm_mon t = t\<lparr>tm_mon := tm_mon t mod 12, tm_year := tm_year t + tm_mon t div 12\<rparr>"
    "\<bar>tm_year t + tm_mon t div 12\<bar> \<le> 27600"
proof -
  show b: "\<bar>tm_year t + tm_mon t div 12\<bar> \<le> 27600" using div_bound [of 12 "tm_mon t"] assms by linarith
  show "norm_mon t = t\<lparr>tm_mon := tm_mon t mod 12, tm_year := tm_year t + tm_mon t div 12\<rparr>"
  proof (cases "tm_mon t < 0 \<or> tm_mon t > 11")
    case True
    then show ?thesis
      using carry [of 12 "tm_mon t" "tm_year t"] assms b by (auto simp: norm_mon_def Let_def split: if_splits)
  next
    case False
    then have "tm_mon t mod 12 = tm_mon t" "tm_mon t div 12 = 0" by simp_all
    then show ?thesis using False by (simp add: norm_mon_def)
  qed
qed

text \<open>Midnight written as 24:00:00. The code sets the day to 1 when it leaves the month, which is
  right when the day was in the month.\<close>

text \<open>The day of the month does not lie behind the end of its month.\<close>

definition mday_in :: "tm \<Rightarrow> bool" where
  "mday_in t \<longleftrightarrow> (\<forall>l. month_length (1900 + tm_year t) (tm_mon t) = Some l \<longrightarrow> tm_mday t \<le> l)"

lemma norm_midnight_eq:
  assumes "\<bar>tm_mday t\<bar> \<le> 30000" "\<bar>tm_mon t\<bar> \<le> 30000" "\<bar>tm_year t\<bar> \<le> 25000" "\<bar>tm_hour t\<bar> \<le> 30600"
    and "tm_hour t = 24 \<and> tm_min t = 0 \<and> tm_sec t = 0 \<Longrightarrow> mday_in t"
  obtains h d m y where "norm_midnight t = t\<lparr>tm_hour := h, tm_mday := d, tm_mon := m, tm_year := y\<rparr>"
    "abs_day (1900 + y) m d * 24 + h = abs_day (1900 + tm_year t) (tm_mon t) (tm_mday t) * 24 + tm_hour t"
    "\<bar>d\<bar> \<le> 30001" "\<bar>m\<bar> \<le> 30000" "\<bar>y\<bar> \<le> 25001" "\<bar>h\<bar> \<le> 30600"
proof (cases "tm_hour t = 24 \<and> tm_min t = 0 \<and> tm_sec t = 0")
  case False
  then have "norm_midnight t = t\<lparr>tm_hour := tm_hour t, tm_mday := tm_mday t, tm_mon := tm_mon t, tm_year := tm_year t\<rparr>"
    unfolding norm_midnight_def if_not_P [OF False] by simp
  then show thesis by (rule that) (use assms in simp_all)
next
  case True
  then have d: "mday_in t" using assms(5) by simp
  have s: "s16 (tm_mday t + 1) = tm_mday t + 1" "s16 (1900 + tm_year t) = 1900 + tm_year t" "s16 (tm_year t + 1) = tm_year t + 1"
    using assms(1,3) by (auto simp: abs_le_iff MININT_def MAXINT_def)
  have day: "abs_day (1900 + tm_year t) (tm_mon t) (tm_mday t + 1) = abs_day (1900 + tm_year t) (tm_mon t) (tm_mday t) + 1"
    by (rule abs_day_add)
  show thesis
  proof (cases "0 \<le> tm_mon t \<and> tm_mon t \<le> 11 \<and> tm_mday t + 1 > days_in_month ! nat (tm_mon t) +
      (if tm_mon t = 1 \<and> isleap (1900 + tm_year t) then 1 else 0)")
    case False
    then have "norm_midnight t = t\<lparr>tm_hour := 0, tm_mday := tm_mday t + 1, tm_mon := tm_mon t, tm_year := tm_year t\<rparr>"
      using True by (auto simp: norm_midnight_def Let_def s)
    then show thesis by (rule that) (use assms True day in \<open>simp_all add: abs_le_iff\<close>)
  next
    case over: True
    obtain l where l: "month_length (1900 + tm_year t) (tm_mon t) = Some l" "l < tm_mday t + 1"
      using over by (auto simp: month_length_def)
    then have last: "tm_mday t = l" using d by (simp add: mday_in_def)
    have nx: "abs_day (1900 + tm_year t) (tm_mon t + 1) 1 = abs_day (1900 + tm_year t) (tm_mon t) (tm_mday t) + 1"
      using abs_day_next [OF l(1), of 1] last abs_day_add [of "1900 + tm_year t" "tm_mon t" l 1] by (simp add: add.commute)
    show thesis
    proof (cases "tm_mon t = 11")
      case True
      have e: "norm_midnight t = t\<lparr>tm_hour := 0, tm_mday := 1, tm_mon := 0, tm_year := tm_year t + 1\<rparr>"
        using over True \<open>tm_hour t = 24 \<and> tm_min t = 0 \<and> tm_sec t = 0\<close> by (simp add: norm_midnight_def Let_def s)
      have "abs_day (1900 + (tm_year t + 1)) 0 1 = abs_day (1900 + tm_year t) (tm_mon t + 1) 1"
        using True by (simp add: abs_day_def)
      then show thesis
        by (intro that [OF e]) (use assms nx True \<open>tm_hour t = 24 \<and> _ \<and> _\<close> in \<open>simp_all add: abs_le_iff\<close>)
    next
      case False
      have "norm_midnight t = t\<lparr>tm_hour := 0, tm_mday := 1, tm_mon := tm_mon t + 1, tm_year := tm_year t\<rparr>"
        using over False \<open>tm_hour t = 24 \<and> tm_min t = 0 \<and> tm_sec t = 0\<close> by (simp add: norm_midnight_def Let_def s)
      then show thesis
        by (rule that) (use assms nx over \<open>tm_hour t = 24 \<and> _ \<and> _\<close> in \<open>simp_all add: abs_le_iff\<close>)
    qed
  qed
qed

section \<open>Days\<close>

lemma back_to_january_eq:
  "0 \<le> m \<Longrightarrow> m < 12 \<Longrightarrow> \<bar>y\<bar> \<le> 28000 \<Longrightarrow> \<bar>d\<bar> \<le> 31300 + 31 * (11 - m) \<Longrightarrow>
    \<exists>d'. back_to_january y m d = Some (0, d') \<and> abs_day (1900 + y) 0 d' = abs_day (1900 + y) m d \<and> \<bar>d'\<bar> \<le> 31700"
proof (induction y m d rule: back_to_january.induct)
  case (1 y m d)
  show ?case
  proof (cases "0 < m")
    case False
    then have m: "m = 0" using "1.prems" by simp
    show ?thesis unfolding m by (subst back_to_january.simps) (use "1.prems" m in simp)
  next
    case True
    obtain l where l: "month_length (1900 + y) (m - 1) = Some l"
      using "1.prems" True by (simp add: month_length_def)
    note lb = month_length_pos [OF l]
    have s: "s16 (1900 + y) = 1900 + y" "s16 (d + l) = d + l"
      using "1.prems" lb True by (auto simp: abs_le_iff MININT_def MAXINT_def)
    have "\<exists>d'. back_to_january y (m - 1) (s16 (d + l)) = Some (0, d') \<and>
        abs_day (1900 + y) 0 d' = abs_day (1900 + y) (m - 1) (s16 (d + l)) \<and> \<bar>d'\<bar> \<le> 31700"
      by (rule "1.IH" [OF True]) (use "1.prems" l lb True in \<open>simp_all add: s abs_le_iff\<close>)
    then show ?thesis
      using True l abs_day_next [OF l, of d] by (auto simp: back_to_january.simps [of y m d] s)
  qed
qed

lemma abs_day_year: "abs_day (y + 1) 0 d = abs_day y 0 (d + days_in_year y)"
  using days_to_year_Suc [of y] by (simp add: abs_day_def daynum_def)

lemma years_back_eq:
  "years_back y d = (y', d') \<Longrightarrow> - 32000 \<le> d \<Longrightarrow> d \<le> 32000 \<Longrightarrow> - 29000 \<le> y + d div 300 \<Longrightarrow> y \<le> 29000 \<Longrightarrow>
    abs_day (1900 + y') 0 d' = abs_day (1900 + y) 0 d \<and> 1 \<le> d' \<and> d' \<le> max d 366 \<and> - 29200 \<le> y' \<and> y' \<le> y"
proof (induction y d rule: years_back.induct)
  case (1 y d)
  show ?case
  proof (cases "d < 1")
    case False
    then have "y' = y" "d' = d" using "1.prems"(1) by (simp_all add: years_back.simps [of y d])
    moreover have "d div 300 \<le> 106" using "1.prems"(3) by linarith
    ultimately show ?thesis using "1.prems" False by simp
  next
    case True
    then have "d div 300 \<le> 0" by linarith
    then have s: "s16 (y - 1) = y - 1" "s16 (1900 + (y - 1)) = 1900 + (y - 1)"
      using "1.prems"(4,5) by (simp_all add: MININT_def MAXINT_def)
    let ?l = "days_in_year (1900 + (y - 1))"
    note lb = days_in_year_bounds [of "1900 + (y - 1)"]
    have q: "d div 300 + 1 \<le> (d + ?l) div 300" using lb by linarith
    have r: "years_back (y - 1) (d + ?l) = (y', d')"
      using "1.prems"(1) True s by (simp add: years_back.simps [of y d])
    have "abs_day (1900 + y') 0 d' = abs_day (1900 + (y - 1)) 0 (d + ?l) \<and> 1 \<le> d' \<and> d' \<le> max (d + ?l) 366 \<and>
        - 29200 \<le> y' \<and> y' \<le> y - 1"
      using "1.IH" [OF True, unfolded s, OF r] "1.prems"(2-5) lb q True by linarith
    then show ?thesis
      using abs_day_year [of "1900 + (y - 1)" d] lb True by auto
  qed
qed

lemma years_on_eq:
  "years_on y d = (y', d') \<Longrightarrow> 1 \<le> d \<Longrightarrow> d \<le> 32000 \<Longrightarrow> - 29200 \<le> y \<Longrightarrow> y + d div 300 \<le> 29200 \<Longrightarrow>
    abs_day (1900 + y') 0 d' = abs_day (1900 + y) 0 d \<and> 1 \<le> d' \<and> d' \<le> days_in_year (1900 + y') \<and>
    - 29200 \<le> y' \<and> y' \<le> 29200"
proof (induction y d rule: years_on.induct)
  case (1 y d)
  have "0 \<le> d div 300" using "1.prems"(2) by simp
  then have s: "s16 (y + 1) = y + 1" "s16 (1900 + y) = 1900 + y"
    using "1.prems"(4,5) by (simp_all add: MININT_def MAXINT_def)
  let ?l = "days_in_year (1900 + y)"
  note lb = days_in_year_bounds [of "1900 + y"]
  show ?case
  proof (cases "d > ?l")
    case False
    then have "y' = y" "d' = d" using "1.prems"(1) s by (simp_all add: years_on.simps [of y d])
    then show ?thesis using "1.prems" False \<open>0 \<le> d div 300\<close> by simp
  next
    case True
    have q: "(d - ?l) div 300 + 1 \<le> d div 300" using lb by linarith
    have r: "years_on (y + 1) (d - ?l) = (y', d')"
      using "1.prems"(1) True s by (simp add: years_on.simps [of y d])
    have "abs_day (1900 + y') 0 d' = abs_day (1900 + (y + 1)) 0 (d - ?l) \<and> 1 \<le> d' \<and>
        d' \<le> days_in_year (1900 + y') \<and> - 29200 \<le> y' \<and> y' \<le> 29200"
      using "1.IH" [unfolded s, OF True r] "1.prems"(2-5) lb q True by linarith
    moreover have "abs_day (1900 + (y + 1)) 0 (d - ?l) = abs_day (1900 + y) 0 d"
      using abs_day_year [of "1900 + y" "d - ?l"] by (simp add: add.assoc)
    ultimately show ?thesis by simp
  qed
qed

lemma prev_month:
  fixes m y :: int
  assumes "0 \<le> m" "m < 12"
  defines "m' \<equiv> (if m - 1 < 0 then m - 1 + 12 else m - 1)" and "y' \<equiv> (if m - 1 < 0 then y - 1 else y)"
  shows "0 \<le> m'" "m' < 12" "12 * y' + m' = 12 * y + m - 1" "abs_day (c + y') (m' + 1) d = abs_day (c + y) m d"
proof -
  show "0 \<le> m'" "m' < 12" "12 * y' + m' = 12 * y + m - 1" using assms(1,2) by (auto simp: m'_def y'_def)
  show "abs_day (c + y') (m' + 1) d = abs_day (c + y) m d"
  proof (cases "m = 0")
    case True
    then show ?thesis by (simp add: m'_def y'_def abs_day_def)
  next
    case False
    then show ?thesis using assms(1,2) by (auto simp: m'_def y'_def)
  qed
qed

lemma months_back_eq:
  "0 \<le> m \<Longrightarrow> m < 12 \<Longrightarrow> - 400 \<le> d \<Longrightarrow> d \<le> 400 \<Longrightarrow> - 351600 \<le> 12 * y + m + d div 28 \<Longrightarrow> y \<le> 29300 \<Longrightarrow>
    \<exists>y' m' d'. months_back y m d = Some (y', m', d') \<and> abs_day (1900 + y') m' d' = abs_day (1900 + y) m d \<and>
      1 \<le> d' \<and> d' \<le> 400 \<and> 0 \<le> m' \<and> m' < 12 \<and> - 29400 \<le> y' \<and> y' \<le> 29300"
proof (induction y m d rule: months_back.induct)
  case (1 y m d)
  have yb: "- 29400 \<le> y" using "1.prems"(1-5) by linarith
  show ?case
  proof (cases "d < 1")
    case False
    then show ?thesis using "1.prems" yb by (simp add: months_back.simps [of y m d])
  next
    case True
    define m' where "m' = (if m - 1 < 0 then m - 1 + 12 else m - 1)"
    define y' where "y' = (if m - 1 < 0 then y - 1 else y)"
    have s: "s16 (y - 1) = y - 1" "s16 (1900 + y') = 1900 + y'"
      using yb "1.prems"(6) by (simp_all add: y'_def MININT_def MAXINT_def)
    have pair: "(if m - 1 < 0 then (m - 1 + 12, s16 (y - 1)) else (m - 1, y)) = (m', y')"
      by (simp add: m'_def y'_def s(1))
    have P: "0 \<le> m'" "m' < 12" "12 * y' + m' = 12 * y + m - 1"
      "abs_day (1900 + y') (m' + 1) d = abs_day (1900 + y) m d"
      unfolding m'_def y'_def by (rule prev_month [OF "1.prems"(1,2)])+
    have "\<exists>l. month_length (1900 + y') m' = Some l" using P by (simp add: month_length_def)
    then obtain l where l: "month_length (1900 + y') m' = Some l" by blast
    note lb = month_length_pos [OF l]
    have q: "d div 28 + 1 \<le> (d + l) div 28" using lb by linarith
    have "\<exists>ya ma da. months_back y' m' (d + l) = Some (ya, ma, da) \<and> abs_day (1900 + ya) ma da = abs_day (1900 + y') m' (d + l) \<and>
        1 \<le> da \<and> da \<le> 400 \<and> 0 \<le> ma \<and> ma < 12 \<and> - 29400 \<le> ya \<and> ya \<le> 29300"
    proof (rule "1.IH" [OF True pair [symmetric] refl])
      show "month_length (s16 (1900 + y')) m' = Some l" using l s(2) by simp
      show "y' \<le> 29300" using "1.prems"(6) by (simp add: y'_def)
    qed (use P lb q True "1.prems" in linarith)+
    moreover have "months_back y m d = months_back y' m' (d + l)"
      unfolding months_back.simps [of y m d] pair using True l s(2) by simp
    moreover have "abs_day (1900 + y') m' (d + l) = abs_day (1900 + y) m d"
      using abs_day_next [OF l, of d] P(4) by simp
    ultimately show ?thesis by simp
  qed
qed

lemma next_month:
  fixes m y :: int
  assumes "0 \<le> m" "m < 12"
  defines "m' \<equiv> (if m + 1 > 11 then m + 1 - 12 else m + 1)" and "y' \<equiv> (if m + 1 > 11 then y + 1 else y)"
  shows "0 \<le> m'" "m' < 12" "12 * y' + m' = 12 * y + m + 1" "abs_day (c + y') m' d = abs_day (c + y) (m + 1) d"
proof -
  show "0 \<le> m'" "m' < 12" "12 * y' + m' = 12 * y + m + 1" using assms(1,2) by (auto simp: m'_def y'_def)
  show "abs_day (c + y') m' d = abs_day (c + y) (m + 1) d"
  proof (cases "m = 11")
    case True
    then show ?thesis by (simp add: m'_def y'_def abs_day_def add.assoc)
  next
    case False
    then show ?thesis using assms(1,2) by (auto simp: m'_def y'_def)
  qed
qed

lemma months_on_eq:
  "0 \<le> m \<Longrightarrow> m < 12 \<Longrightarrow> 1 \<le> d \<Longrightarrow> d \<le> 400 \<Longrightarrow> 12 * y + m + d div 28 \<le> 352600 \<Longrightarrow> - 29400 \<le> y \<Longrightarrow>
    \<exists>y' m' d' l. months_on y m d = Some (y', m', d') \<and> abs_day (1900 + y') m' d' = abs_day (1900 + y) m d \<and>
      1 \<le> d' \<and> month_length (1900 + y') m' = Some l \<and> d' \<le> l \<and> - 29400 \<le> y' \<and> y' \<le> 29400"
proof (induction y m d rule: months_on.induct)
  case (1 y m d)
  have yb: "y \<le> 29400" using "1.prems"(1-5) by linarith
  have s: "s16 (1900 + y) = 1900 + y" "s16 (y + 1) = y + 1"
    using yb "1.prems"(6) by (simp_all add: MININT_def MAXINT_def)
  have "\<exists>l. month_length (1900 + y) m = Some l" using "1.prems" by (simp add: month_length_def)
  then obtain l where l: "month_length (1900 + y) m = Some l" by blast
  have l': "month_length (s16 (1900 + y)) m = Some l" using l s(1) by simp
  note lb = month_length_pos [OF l]
  show ?case
  proof (cases "d > l")
    case False
    then show ?thesis using "1.prems" yb l s(1) by (simp add: months_on.simps [of y m d])
  next
    case True
    define m' where "m' = (if m + 1 > 11 then m + 1 - 12 else m + 1)"
    define y' where "y' = (if m + 1 > 11 then y + 1 else y)"
    have pair: "(if m + 1 > 11 then (m + 1 - 12, s16 (y + 1)) else (m + 1, y)) = (m', y')"
      by (simp add: m'_def y'_def s(2))
    have P: "0 \<le> m'" "m' < 12" "12 * y' + m' = 12 * y + m + 1"
      "abs_day (1900 + y') m' (d - l) = abs_day (1900 + y) (m + 1) (d - l)"
      unfolding m'_def y'_def by (rule next_month [OF "1.prems"(1,2)])+
    have q: "(d - l) div 28 + 1 \<le> d div 28" using lb by linarith
    have "\<exists>ya ma da k. months_on y' m' (d - l) = Some (ya, ma, da) \<and> abs_day (1900 + ya) ma da = abs_day (1900 + y') m' (d - l) \<and>
        1 \<le> da \<and> month_length (1900 + ya) ma = Some k \<and> da \<le> k \<and> - 29400 \<le> ya \<and> ya \<le> 29400"
    proof (rule "1.IH" [OF l' True pair [symmetric] refl])
      show "- 29400 \<le> y'" using "1.prems"(6) by (simp add: y'_def)
    qed (use P lb q True "1.prems" in linarith)+
    moreover have "months_on y m d = months_on y' m' (d - l)"
      unfolding months_on.simps [of y m d] pair using True l' by simp
    moreover have "abs_day (1900 + y') m' (d - l) = abs_day (1900 + y) m d"
      using abs_day_next [OF l, of "d - l"] P(4) by simp
    ultimately show ?thesis by simp
  qed
qed

lemma norm_mday_eq:
  assumes "0 \<le> tm_mon t" "tm_mon t < 12" "\<bar>tm_mday t\<bar> \<le> 31300" "\<bar>tm_year t\<bar> \<le> 27600"
  obtains t' where "norm_mday t = Some t'" "date_ok t'"
    "t' = t\<lparr>tm_year := tm_year t', tm_mon := tm_mon t', tm_mday := tm_mday t'\<rparr>"
    "day_no t' = abs_day (1900 + tm_year t) (tm_mon t) (tm_mday t)" "\<bar>tm_year t'\<bar> \<le> 29400"
proof -
  let ?A = "abs_day (1900 + tm_year t) (tm_mon t) (tm_mday t)"
  have "\<exists>y m d. (if s16 \<bar>tm_mday t\<bar> > 366
        then do {
          (mon, mday) \<leftarrow> back_to_january (tm_year t) (tm_mon t) (tm_mday t);
          let (year, mday) = years_back (tm_year t) mday;
          let (year, mday) = years_on year mday;
          Some (year, mon, mday)
        }
        else Some (tm_year t, tm_mon t, tm_mday t)) = Some (y, m, d) \<and> abs_day (1900 + y) m d = ?A \<and>
      0 \<le> m \<and> m < 12 \<and> - 366 \<le> d \<and> d \<le> 366 \<and> - 29200 \<le> y \<and> y \<le> 29200"
  proof (cases "s16 \<bar>tm_mday t\<bar> > 366")
    case False
    have "s16 \<bar>tm_mday t\<bar> = \<bar>tm_mday t\<bar>" using assms(3) by (simp add: MININT_def MAXINT_def)
    then show ?thesis using False assms by (auto simp: abs_le_iff)
  next
    case True
    obtain d where d: "back_to_january (tm_year t) (tm_mon t) (tm_mday t) = Some (0, d)"
      "abs_day (1900 + tm_year t) 0 d = ?A" "\<bar>d\<bar> \<le> 31700"
      using back_to_january_eq [OF assms(1,2), of "tm_year t" "tm_mday t"] assms by auto
    obtain y1 d1 where r1: "years_back (tm_year t) d = (y1, d1)" by (rule prod.exhaust)
    have "- 106 \<le> d div 300" using d(3) by linarith
    then have b: "abs_day (1900 + y1) 0 d1 = ?A" "1 \<le> d1" "d1 \<le> max d 366" "- 29200 \<le> y1" "y1 \<le> tm_year t"
      using years_back_eq [OF r1] d(2,3) assms(4) by (auto simp: abs_le_iff)
    have d1: "d1 \<le> 31700" using b(3) d(3) by linarith
    obtain y2 d2 where r2: "years_on y1 d1 = (y2, d2)" by (rule prod.exhaust)
    have "d1 div 300 \<le> 106" using d1 by linarith
    then have "abs_day (1900 + y2) 0 d2 = ?A" "1 \<le> d2" "d2 \<le> 366" "- 29200 \<le> y2" "y2 \<le> 29200"
      using years_on_eq [OF r2 b(2)] b d1 assms(4) days_in_year_bounds [of "1900 + y2"] by (auto simp: abs_le_iff)
    then show ?thesis using True by (simp add: d(1) r1 r2)
  qed
  then obtain y m d where e: "(if s16 \<bar>tm_mday t\<bar> > 366
        then do {
          (mon, mday) \<leftarrow> back_to_january (tm_year t) (tm_mon t) (tm_mday t);
          let (year, mday) = years_back (tm_year t) mday;
          let (year, mday) = years_on year mday;
          Some (year, mon, mday)
        }
        else Some (tm_year t, tm_mon t, tm_mday t)) = Some (y, m, d)"
    and r: "abs_day (1900 + y) m d = ?A" "0 \<le> m" "m < 12" "- 366 \<le> d" "d \<le> 366" "- 29200 \<le> y" "y \<le> 29200"
    by blast
  have "- 14 \<le> d div 28" "d div 28 \<le> 13" using r by linarith+
  then obtain y3 m3 d3 where m1: "months_back y m d = Some (y3, m3, d3)" "abs_day (1900 + y3) m3 d3 = ?A"
    "1 \<le> d3" "d3 \<le> 400" "0 \<le> m3" "m3 < 12" "- 29400 \<le> y3" "y3 \<le> 29300"
    using months_back_eq [OF r(2,3), of d y] r by auto
  have "d3 div 28 \<le> 14" using m1(4) by linarith
  then obtain y4 m4 d4 l where m2: "months_on y3 m3 d3 = Some (y4, m4, d4)" "abs_day (1900 + y4) m4 d4 = ?A"
    "1 \<le> d4" "month_length (1900 + y4) m4 = Some l" "d4 \<le> l" "- 29400 \<le> y4" "y4 \<le> 29400"
    using months_on_eq [OF m1(5,6), of d3 y3] m1 by auto
  have eq: "norm_mday t = Some (t\<lparr>tm_year := y4, tm_mon := m4, tm_mday := d4\<rparr>)"
    unfolding norm_mday_def e by (simp add: m1(1) m2(1))
  show thesis
    by (rule that [OF eq])
      (use m2 month_length_pos [OF m2(4)] in \<open>simp_all add: date_ok_def day_no_def abs_day_norm abs_le_iff\<close>)
qed

section \<open>The whole\<close>

lemma normalizeTm_ok:
  assumes "small t" "tm_hour t * 3600 + tm_min t * 60 + tm_sec t = 86400 \<Longrightarrow> mday_in t"
  obtains t' where "normalizeTm t = Some t'" "date_ok t'" "0 \<le> tm_sec t'" "tm_sec t' \<le> 60"
    "0 \<le> tm_min t'" "tm_min t' < 60" "0 \<le> tm_hour t'" "tm_hour t' < 24" "instant t' = inst t"
    "tm_gmtoff t' = tm_gmtoff t" "\<bar>tm_year t'\<bar> \<le> 29400"
    "tm_yday t' = s16 (day_no t' - days_to_year (1900 + tm_year t'))"
    "tm_wday t' = s16 (day_no t' + THURSDAY) mod 7" "tm_sec t' < 60 \<or> tm_sec t = 60"
proof -
  note S = assms(1) [unfolded small_def]
  have b1: "\<bar>tm_sec t\<bar> \<le> 32000" "\<bar>tm_min t\<bar> \<le> 30000" using S by simp_all
  obtain s m where t1: "norm_sec t = t\<lparr>tm_sec := s, tm_min := m\<rparr>" "0 \<le> s" "s \<le> 60"
    "m * 60 + s = tm_min t * 60 + tm_sec t" "\<bar>m\<bar> \<le> 30600"
    "s < 60 \<or> tm_sec t = 60" by (rule norm_sec_eq [OF b1])
  let ?t1 = "t\<lparr>tm_sec := s, tm_min := m\<rparr>"
  have b2: "\<bar>tm_min ?t1\<bar> \<le> 30600" "\<bar>tm_hour ?t1\<bar> \<le> 30000" using S t1(5) by simp_all
  obtain m' h where t2: "norm_min ?t1 = ?t1\<lparr>tm_min := m', tm_hour := h\<rparr>" "0 \<le> m'" "m' < 60"
    "h * 60 + m' = tm_hour ?t1 * 60 + tm_min ?t1" "\<bar>h\<bar> \<le> 30600" by (rule norm_min_eq [OF b2])
  let ?t2 = "?t1\<lparr>tm_min := m', tm_hour := h\<rparr>"
  have tot: "h * 3600 + m' * 60 + s = tm_hour t * 3600 + tm_min t * 60 + tm_sec t"
    using t1(4) t2(4) by simp
  have mid: "tm_hour ?t2 = 24 \<and> tm_min ?t2 = 0 \<and> tm_sec ?t2 = 0 \<Longrightarrow> mday_in ?t2"
    using assms(2) tot by (simp add: mday_in_def)
  have b3: "\<bar>tm_mday ?t2\<bar> \<le> 30000" "\<bar>tm_mon ?t2\<bar> \<le> 30000" "\<bar>tm_year ?t2\<bar> \<le> 25000" "\<bar>tm_hour ?t2\<bar> \<le> 30600"
    using S t2(5) by simp_all
  obtain h3 d3 m3 y3 where t3: "norm_midnight ?t2 = ?t2\<lparr>tm_hour := h3, tm_mday := d3, tm_mon := m3, tm_year := y3\<rparr>"
    "abs_day (1900 + y3) m3 d3 * 24 + h3 = abs_day (1900 + tm_year ?t2) (tm_mon ?t2) (tm_mday ?t2) * 24 + tm_hour ?t2"
    "\<bar>d3\<bar> \<le> 30001" "\<bar>m3\<bar> \<le> 30000" "\<bar>y3\<bar> \<le> 25001" "\<bar>h3\<bar> \<le> 30600"
    by (rule norm_midnight_eq [OF b3 mid])
  let ?t3 = "?t2\<lparr>tm_hour := h3, tm_mday := d3, tm_mon := m3, tm_year := y3\<rparr>"
  have b4: "\<bar>tm_hour ?t3\<bar> \<le> 30600" "\<bar>tm_mday ?t3\<bar> \<le> 30001" using t3 by simp_all
  obtain h4 d4 where t4: "norm_hour ?t3 = ?t3\<lparr>tm_hour := h4, tm_mday := d4\<rparr>" "0 \<le> h4" "h4 < 24"
    "d4 * 24 + h4 = tm_mday ?t3 * 24 + tm_hour ?t3" "\<bar>d4\<bar> \<le> 31300" by (rule norm_hour_eq [OF b4])
  let ?t4 = "?t3\<lparr>tm_hour := h4, tm_mday := d4\<rparr>"
  have b5: "\<bar>tm_mon ?t4\<bar> \<le> 30000" "\<bar>tm_year ?t4\<bar> \<le> 25001" using t3 by simp_all
  note t5 = norm_mon_eq [OF b5]
  let ?t5 = "?t4\<lparr>tm_mon := m3 mod 12, tm_year := y3 + m3 div 12\<rparr>"
  have e5: "norm_mon ?t4 = ?t5" using t5(1) by simp
  have b6: "0 \<le> tm_mon ?t5" "tm_mon ?t5 < 12" "\<bar>tm_mday ?t5\<bar> \<le> 31300" "\<bar>tm_year ?t5\<bar> \<le> 27600"
    using t4(5) t5(2) by simp_all
  obtain t6 where t6: "norm_mday ?t5 = Some t6" "date_ok t6"
    "t6 = ?t5\<lparr>tm_year := tm_year t6, tm_mon := tm_mon t6, tm_mday := tm_mday t6\<rparr>"
    "day_no t6 = abs_day (1900 + tm_year ?t5) (tm_mon ?t5) (tm_mday ?t5)" "\<bar>tm_year t6\<bar> \<le> 29400"
    by (rule norm_mday_eq [OF b6])
  have f6: "tm_sec t6 = s" "tm_min t6 = m'" "tm_hour t6 = h4" "tm_gmtoff t6 = tm_gmtoff t" by (subst t6(3), simp)+
  have y6: "s16 (1900 + tm_year t6) = 1900 + tm_year t6" using t6(5) by (simp add: abs_le_iff MININT_def MAXINT_def)
  have mon6: "tm_mon t6 \<le> 12" using t6(2) month_length_pos by (fastforce simp: date_ok_def)
  let ?t7 = "t6\<lparr>tm_yday := s16 (days_to_month (1900 + tm_year t6) (tm_mon t6) + tm_mday t6 - 1),
    tm_wday := s16 (s16 (day_no t6) + THURSDAY) mod 7\<rparr>"
  have n7: "normalizeTm t = Some ?t7"
    using day_of_epoch_eq [OF mon6, of True]
    unfolding normalizeTm_def t1(1) t2(1) t3(1) t4(1) e5 t6(1)
    by (simp add: y6 day_no_def s16_s16)
  have "day_no t6 * 24 + h4 = abs_day (1900 + tm_year t) (tm_mon t) (tm_mday t) * 24 + h"
  proof -
    have "day_no t6 = abs_day (1900 + y3) m3 d4"
      using t6(4) abs_day_carry [of "1900 + y3" m3 d4] by (simp add: add.assoc)
    moreover have "abs_day (1900 + y3) m3 d4 = abs_day (1900 + y3) m3 d3 + (d4 - d3)"
      using abs_day_add [of "1900 + y3" m3 d3 "d4 - d3"] by simp
    ultimately show ?thesis using t4(4) t3(2) by simp
  qed
  then have i7: "instant ?t7 = inst t"
    using tot f6 by (simp add: instant_def inst_def day_no_def)
  show thesis
    by (rule that [OF n7]) (use i7 f6 t1(2,3,6) t2(2,3) t4(2,3) t6(2,5) in
      \<open>simp_all add: date_ok_def day_no_def daynum_def s16_s16 algebra_simps\<close>)
qed

lemma day_no_range:
  assumes "0 \<le> tm_sec t" "tm_sec t \<le> 60" "0 \<le> tm_min t" "tm_min t < 60" "0 \<le> tm_hour t" "tm_hour t < 24"
    and "- 32000 * 86400 \<le> instant t" "instant t < 32000 * 86400"
  shows "- 32001 \<le> day_no t" "day_no t \<le> 32000"
  using assms by (simp_all add: instant_def)

lemma mktime_ok:
  assumes "small t" "tm_hour t * 3600 + tm_min t * 60 + tm_sec t = 86400 \<Longrightarrow> mday_in t"
    and "- 32000 * 86400 \<le> inst t" "inst t < 32000 * 86400"
  obtains t' where "mktime t = Some (inst t - tm_gmtoff t, t')" "normalizeTm t = Some t'" "date_ok t'"
    "tm_yday t' = day_no t' - days_to_year (1900 + tm_year t')" "tm_wday t' = (day_no t' + 4) mod 7"
    "instant t' = inst t" "0 \<le> tm_sec t'" "tm_sec t' \<le> 60"
    "0 \<le> tm_min t'" "tm_min t' < 60" "0 \<le> tm_hour t'" "tm_hour t' < 24" "tm_gmtoff t' = tm_gmtoff t"
    "tm_sec t' < 60 \<or> tm_sec t = 60"
proof -
  obtain t' where n: "normalizeTm t = Some t'" "date_ok t'" "0 \<le> tm_sec t'" "tm_sec t' \<le> 60"
    "0 \<le> tm_min t'" "tm_min t' < 60" "0 \<le> tm_hour t'" "tm_hour t' < 24" "instant t' = inst t"
    "tm_gmtoff t' = tm_gmtoff t" "\<bar>tm_year t'\<bar> \<le> 29400"
    "tm_yday t' = s16 (day_no t' - days_to_year (1900 + tm_year t'))"
    "tm_wday t' = s16 (day_no t' + THURSDAY) mod 7" "tm_sec t' < 60 \<or> tm_sec t = 60"
    by (rule normalizeTm_ok [OF assms(1,2)])
  have r: "- 32001 \<le> day_no t'" "day_no t' \<le> 32000"
    using day_no_range [OF n(3-8)] n(9) assms(3,4) by simp_all
  obtain l where l: "month_length (1900 + tm_year t') (tm_mon t') = Some l" "1 \<le> tm_mday t'" "tm_mday t' \<le> l"
    using n(2) by (auto simp: date_ok_def)
  have yd: "0 \<le> day_no t' - days_to_year (1900 + tm_year t')" "day_no t' - days_to_year (1900 + tm_year t') \<le> 366"
    using days_to_month_bounds [OF l(1)] l(2,3) by (simp_all add: day_no_def daynum_def)
  have s: "s16 (1900 + tm_year t') = 1900 + tm_year t'" "s16 (day_no t') = day_no t'"
    "s16 (day_no t' + THURSDAY) = day_no t' + 4"
    "s16 (day_no t' - days_to_year (1900 + tm_year t')) = day_no t' - days_to_year (1900 + tm_year t')"
    using r n(11) yd by (simp_all add: abs_le_iff MININT_def MAXINT_def THURSDAY_def)
  have mon: "tm_mon t' \<le> 12" using month_length_pos [OF l(1)] by simp
  have wd: "tm_yday t' = day_no t' - days_to_year (1900 + tm_year t')" "tm_wday t' = (day_no t' + 4) mod 7"
    using n(12,13) s(3,4) by simp_all
  have same: "t'\<lparr>tm_yday := tm_yday t', tm_wday := tm_wday t'\<rparr> = t'" by simp
  have "day_of_epoch t' True = Some (day_no t', t')"
    using day_of_epoch_eq [OF mon, of True] wd same s
    by (simp add: day_no_def daynum_def THURSDAY_def algebra_simps)
  then have "mktime t = Some (inst t - tm_gmtoff t, t')"
    using n(9,10) by (simp add: mktime_def n(1) instant_def SECPERDY_def SECPERHR_def SECPERMN_def Let_def)
  from that [OF this n(1,2) wd] n show thesis by simp
qed

end
