(* ===== verification/TimeProps.thy ===== *)
theory TimeProps
  imports Normalize
begin

text \<open>
  The properties of the calendar, and instances of the places where the code departs from it.
\<close>

section \<open>Leap years\<close>

text \<open>\<open>isleap\<close>, which avoids the division by 4 and 400, is the Gregorian rule: for every
  year, and \<open>days_to_year\<close>, the sum of the lengths of the years since 1970 that
  \<open>_day_of_epoch\<close> adds up, is the closed formula with one leap day every four years but those
  of three in four centuries.\<close>

theorem isleap_gregorian:
  shows "isleap y = (if 100 dvd y then 400 dvd y else 4 dvd y) \<and>
    day_of_epoch \<lparr>tm_sec = 0, tm_min = 0, tm_hour = 0, tm_mday = 1, tm_mon = 0, tm_year = s16 (y - 1900), tm_wday = 0,
      tm_yday = 0, tm_isdst = 0, tm_gmtoff = 0, tm_zone = ''UTC''\<rparr> False =
    Some (s16 (365 * (s16 y - 1970) + (s16 y - 1) div 4 - (s16 y - 1) div 100 + (s16 y - 1) div 400 - 477),
      \<lparr>tm_sec = 0, tm_min = 0, tm_hour = 0, tm_mday = 1, tm_mon = 0, tm_year = s16 (y - 1900), tm_wday = 0,
      tm_yday = 0, tm_isdst = 0, tm_gmtoff = 0, tm_zone = ''UTC''\<rparr>)"
proof -
  have "s16 (1900 + s16 (y - 1900)) = s16 y" by (simp add: s16_s16)
  moreover have "400 dvd y \<Longrightarrow> 4 dvd y" using dvd_trans [of 4 400 y] by simp
  ultimately show ?thesis
    by (auto simp: isleap_iff day_of_epoch_eq daynum_def days_to_year_def)
qed

section \<open>Parsing a time\<close>

definition tm0 :: tm where
  "tm0 = \<lparr>tm_sec = 0, tm_min = 0, tm_hour = 0, tm_mday = 0, tm_mon = 0, tm_year = 0, tm_wday = 0,
     tm_yday = 0, tm_isdst = 0, tm_gmtoff = 0, tm_zone = ''''\<rparr>"

lemma parse_local:
  assumes "MININT \<le> (time - 28800) div 86400" "(time - 28800) div 86400 < MAXINT - 4"
  obtains t' where "parseTime time True t = Some t'" "date_ok t'" "time_ok t'" "instant t' - tm_gmtoff t' = time"
    "- 100 \<le> tm_year t'" "tm_year t' \<le> 200" "int16 (day_no t')"
proof -
  let ?t = "t\<lparr>tm_isdst := - 1, tm_gmtoff := ut2ltim 0, tm_zone := ''PST''\<rparr>"
  obtain t1 where p: "parse_fields (time - 28800) ?t = Some t1" "date_ok t1" "time_ok t1" "instant t1 = time - 28800"
    "tm_gmtoff t1 = - 28800" "- 100 \<le> tm_year t1" "tm_year t1 \<le> 200"
    by (rule parse_fields_ok [OF assms, of ?t]) (simp add: ut2ltim_def ZONE_PST_def SECPERHR_def)
  have d: "day_no t1 = (time - 28800) div 86400"
  proof -
    have "time - 28800 = 86400 * day_no t1 + (tm_hour t1 * 3600 + tm_min t1 * 60 + tm_sec t1)"
      using p(4) by (simp add: instant_def)
    from int_div_pos_eq [OF this] show ?thesis using p(3) by (simp add: time_ok_def)
  qed
  have "same_instant t1 (parse_dst t1)" by (rule parse_dst_ok [OF p(2,3,5)])
  then have S: "date_ok (parse_dst t1)" "time_ok (parse_dst t1)" "tm_year (parse_dst t1) = tm_year t1"
    "instant (parse_dst t1) - tm_gmtoff (parse_dst t1) = time" "day_no t1 \<le> day_no (parse_dst t1)"
    "day_no (parse_dst t1) \<le> day_no t1 + 1"
    using p(4,5) by (simp_all add: same_instant_def)
  have e: "parseTime time True t = Some (parse_dst t1)"
    using p(1) by (simp add: parseTime_def Let_def ut2ltim_def ZONE_PST_def SECPERHR_def)
  show thesis
    by (rule that [OF e S(1,2,4)]) (use p(6,7) S(3,5,6) d assms in simp_all)
qed

text \<open>C34: \<open>parseTime\<close> is correct for the times from 1880 to 2059 that the bounds leave (the day
  number of the code has 16 bits, see \<open>day_number_wraps\<close>): it never reads outside the table of
  months, its result is a normalized date and time, and \<open>getUTC\<close> gives the time back: in UTC, and
  in local time with daylight saving time. In local time that is because \<open>getUTC\<close> subtracts the
  \<open>tm_gmtoff\<close> that \<open>parseTime\<close> has set; the comment on \<open>getUTC\<close> says that it ignores that member
  (\<open>gmtoff_counts\<close>).\<close>

theorem getUTC_parseTime:
  assumes "- 2831000000 \<le> time" "time < 2830723200"
  shows "\<exists>t'. parseTime time local t = Some t' \<and> date_ok t' \<and> time_ok t' \<and> getUTC t' = Some time \<and>
    (\<not> local \<longrightarrow> tm_wday t' = (4 + time div 86400) mod 7 \<and> tm_yday t' = day_no t' - days_to_year (1900 + tm_year t'))"
proof (cases local)
  case True
  have "MININT \<le> (time - 28800) div 86400" "(time - 28800) div 86400 < MAXINT - 4"
    using assms by (simp_all add: MININT_def MAXINT_def)
  then obtain t' where "parseTime time True t = Some t'" "date_ok t'" "time_ok t'" "instant t' - tm_gmtoff t' = time"
    "- 100 \<le> tm_year t'" "tm_year t' \<le> 200" "int16 (day_no t')" by (rule parse_local)
  then show ?thesis
    using getUTC_instant [of t'] True by (simp add: MININT_def MAXINT_def)
next
  case False
  let ?t = "t\<lparr>tm_isdst := 0, tm_gmtoff := 0, tm_zone := ''UTC''\<rparr>"
  have b: "MININT \<le> time div 86400" "time div 86400 < MAXINT - 4"
    using assms by (simp_all add: MININT_def MAXINT_def)
  obtain t' where p: "parse_fields time ?t = Some t'" "date_ok t'" "time_ok t'" "instant t' = time"
    "tm_gmtoff t' = 0" "- 100 \<le> tm_year t'" "tm_year t' \<le> 200" "tm_wday t' = (4 + time div 86400) mod 7"
    "tm_yday t' = day_no t' - days_to_year (1900 + tm_year t')"
    by (rule parse_fields_ok [OF b, of ?t]) simp
  have "day_no t' = time div 86400"
  proof -
    have "time = 86400 * day_no t' + (tm_hour t' * 3600 + tm_min t' * 60 + tm_sec t')"
      using p(4) by (simp add: instant_def)
    from int_div_pos_eq [OF this] show ?thesis using p(3) by (simp add: time_ok_def)
  qed
  then show ?thesis
    using getUTC_instant [of t'] p b False by (simp add: parseTime_def MININT_def MAXINT_def)
qed

theorem getUTC_parseTime_witness:
  "\<exists>t'. parseTime 1425985229 True tm0 = Some t' \<and> getUTC t' = Some 1425985229"
  using getUTC_parseTime [of 1425985229 True tm0] by auto

section \<open>Normalization\<close>

text \<open>C35: \<open>mktime\<close> accepts fields outside their ranges: seconds, minutes, hours, days and months
  up to 30000 in size and years up to 25000 (\<open>small\<close>) are carried, the date that results is
  normalized with its day of the week and of the year, and stands for the same instant. The
  seconds are in 0..60: 60 is left as it is (\<open>second_60_stays\<close>). The value is the instant less the
  offset \<open>tm_gmtoff\<close> that the structure had, although the comment on \<open>mktime\<close> says that it is
  ignored (\<open>gmtoff_counts\<close>). The exception is midnight written as 24:00:00, which has to be on a
  day of its month; and the day number has to fit in 16 bits.\<close>

theorem mktime_normalizes:
  assumes "small t" "tm_hour t * 3600 + tm_min t * 60 + tm_sec t = 86400 \<Longrightarrow> mday_in t"
    and "- 32000 * 86400 \<le> inst t" "inst t < 32000 * 86400"
  shows "\<exists>t'. mktime t = Some (inst t - tm_gmtoff t, t') \<and> normalizeTm t = Some t' \<and> date_ok t' \<and>
    tm_yday t' = day_no t' - days_to_year (1900 + tm_year t') \<and> tm_wday t' = (day_no t' + 4) mod 7 \<and>
    instant t' = inst t \<and> tm_sec t' \<in> {0..60} \<and> tm_min t' \<in> {0..<60} \<and> tm_hour t' \<in> {0..<24}"
  by (rule mktime_ok [OF assms]) auto

definition ex_tm :: tm where
  "ex_tm = tm0\<lparr>tm_sec := 3629, tm_min := - 60, tm_hour := 11, tm_mday := 69, tm_year := 115\<rparr>"

theorem mktime_normalizes_witness:
  "\<exists>t'. mktime ex_tm = Some (1425985229, t') \<and> tm_wday t' = 2"
proof -
  have i: "inst ex_tm = 1425985229" "small ex_tm" "tm_gmtoff ex_tm = 0"
    by (simp_all add: inst_def abs_day_def daynum_def days_to_year_def days_to_month_def ex_tm_def tm0_def small_def)
  have h: "tm_hour ex_tm * 3600 + tm_min ex_tm * 60 + tm_sec ex_tm = 86400 \<Longrightarrow> mday_in ex_tm"
    by (simp add: ex_tm_def tm0_def)
  obtain t' where t: "mktime ex_tm = Some (1425985229, t')" "tm_wday t' = (day_no t' + 4) mod 7"
    "instant t' = 1425985229" "tm_sec t' \<in> {0..60}" "tm_min t' \<in> {0..<60}" "tm_hour t' \<in> {0..<24}"
    using mktime_normalizes [OF i(2) h] by (auto simp: i(1,3))
  then have "day_no t' = 16504" by (auto simp: instant_def)
  then show ?thesis using t(1,2) by simp
qed

section \<open>Departures\<close>

text \<open>The comments on \<open>getUTC\<close> and \<open>mktime\<close> say that they ignore \<open>tm_gmtoff\<close> and \<open>tm_zone\<close>. Both
  subtract \<open>tm_gmtoff\<close>: with an offset of -8 hours, 1 January 2015 00:00 is 08:00 in UTC.\<close>

lemma gmtoff_counts:
  "getUTC (tm0\<lparr>tm_mday := 1, tm_year := 115\<rparr>) = Some 1420070400"
  "getUTC (tm0\<lparr>tm_mday := 1, tm_year := 115, tm_gmtoff := - 28800\<rparr>) = Some (1420070400 + 28800)"
  "map_option fst (mktime (tm0\<lparr>tm_mday := 1, tm_year := 115, tm_gmtoff := - 28800\<rparr>)) = Some (1420070400 + 28800)"
  by code_simp+

text \<open>\<open>time.h\<close> documents seconds from 0 to 59; normalization leaves 60.\<close>

lemma second_60_stays:
  "map_option (\<lambda>(v, t). (tm_sec t, tm_min t)) (mktime (tm0\<lparr>tm_mday := 1, tm_year := 115, tm_sec := 60\<rparr>)) = Some (60, 0)"
  by code_simp

text \<open>A day beyond the month and 24:00:00: the code sets the day to 1 and forgets the rest. 40
  January 2000, 24:00 becomes 1 February instead of 10 February.\<close>

lemma midnight_forgets_days:
  "map_option (\<lambda>t. (tm_mon t, tm_mday t, tm_hour t))
     (normalizeTm (tm0\<lparr>tm_year := 100, tm_mon := 0, tm_mday := 40, tm_hour := 24\<rparr>)) = Some (1, 1, 0)"
  by code_simp

text \<open>The day number has 16 bits: 18 September 2059 is parsed as a day of 1880.\<close>

lemma day_number_wraps: "map_option tm_year (parseTime (32768 * 86400) False tm0) = Some (- 20)"
  by code_simp

text \<open>At 00:30 of 2 July 2015, Pacific daylight saving time, the day of the month moves on and the
  day of the week (Thursday, 4) does not.\<close>

lemma dst_weekday: "map_option (\<lambda>t. (tm_mon t, tm_mday t, tm_hour t, tm_wday t))
     (parseTime 1435822200 True tm0) = Some (6, 2, 0, 3)"
  by code_simp

end
