(* ===== verification/Ports.thy ===== *)
theory Ports
  imports Sema
begin

text \<open>
  Self-initializing marks (\<open>mark.c\<close>), ports (\<open>ports.h\<close>, \<open>pinit.c\<close>, \<open>pcreate.c\<close>, \<open>psend.c\<close>,
  \<open>preceive.c\<close>, \<open>pcount.c\<close>, \<open>preset.c\<close>, \<open>pdelete.c\<close>, \<open>ptclear.c\<close>) and buffer pools
  (\<open>bufpool.h\<close>, \<open>poolinit.c\<close>, \<open>mkpool.c\<close>, \<open>getbuf.c\<close>, \<open>freebuf.c\<close>). The nodes of the message
  queues and the free buffers are linked through words of the RAM of the memory manager. A call
  that blocks in a semaphore stops with a \<open>pkont\<close>, from which \<open>pcontinue\<close> takes it up when the
  process has the processor again.
\<close>

section \<open>State\<close>

datatype ptstate = PTFREE | PTLIMBO | PTALLOC

record pt =
  ptstate :: ptstate
  ptssem :: int
  ptrsem :: int
  ptmaxcnt :: int
  ptseq :: int
  pthead :: int
  pttail :: int

record bpool =
  bpsize :: int
  bpnext :: int
  bpsem :: int

text \<open>\<open>mval\<close> is what the marker at an address holds, \<open>ptmark\<close> and \<open>bpmark\<close> are the addresses of
  the two markers.\<close>

record portst =
  kern :: kstate
  mval :: "int \<Rightarrow> int"
  marks :: "int \<Rightarrow> int"
  nmarks :: int
  mkmutex :: int
  ptmark :: int
  bpmark :: int
  ptfree :: int
  ports :: "int \<Rightarrow> pt"
  ptnextp :: int
  bptab :: "int \<Rightarrow> bpool"
  nbpools :: int

datatype pkont =
    PRet int
  | PMarkPorts int
  | PSend int int int
  | PReceive int int
  | PClear int bool nat
  | PMarkPool "(int \<times> int) option"
  | PGetbuf int

definition NULLPTR :: int where "NULLPTR = 0"
definition NPORTS :: int where "NPORTS = 5"
definition MAXMSGS :: int where "MAXMSGS = 15"
definition MAXMARK :: int where "MAXMARK = 20"
definition NBPOOLS :: int where "NBPOOLS = 5"
definition BPMAXB :: int where "BPMAXB = 2048"
definition BPMINB :: int where "BPMINB = 2"
definition BPMAXN :: int where "BPMAXN = 100"
definition sizeof_ptnode :: int where "sizeof_ptnode = 4"

definition isbadport :: "int \<Rightarrow> bool" where
  "isbadport p \<longleftrightarrow> p < 0 \<or> p \<ge> NPORTS"

definition upd_port :: "int \<Rightarrow> (pt \<Rightarrow> pt) \<Rightarrow> portst \<Rightarrow> portst" where
  "upd_port p f S = S\<lparr>ports := (ports S)(p := f (ports S p))\<rparr>"

definition upd_pool :: "int \<Rightarrow> (bpool \<Rightarrow> bpool) \<Rightarrow> portst \<Rightarrow> portst" where
  "upd_pool p f S = S\<lparr>bptab := (bptab S)(p := f (bptab S p))\<rparr>"

text \<open>Words of the RAM.\<close>

definition word_at :: "portst \<Rightarrow> int \<Rightarrow> int" where
  "word_at S a = get_word (mem (kern S)) a"

definition put_word :: "int \<Rightarrow> int \<Rightarrow> portst \<Rightarrow> portst" where
  "put_word a v S = S\<lparr>kern := (kern S)\<lparr>mem := set_word a v (mem (kern S))\<rparr>\<rparr>"

text \<open>A node of a message queue: the message, then the address of the next node.\<close>

abbreviation ptmsg :: "portst \<Rightarrow> int \<Rightarrow> int" where
  "ptmsg S a \<equiv> s16 (word_at S a)"

abbreviation ptnext :: "portst \<Rightarrow> int \<Rightarrow> int" where
  "ptnext S a \<equiv> word_at S (u16 (a + 2))"

definition set_ptmsg :: "int \<Rightarrow> int \<Rightarrow> portst \<Rightarrow> portst" where
  "set_ptmsg a v = put_word a (u16 v)"

definition set_ptnext :: "int \<Rightarrow> int \<Rightarrow> portst \<Rightarrow> portst" where
  "set_ptnext a v = put_word (u16 (a + 2)) v"

text \<open>A kernel call: its value and what has become of the kernel; did the process lose the
  processor in it?\<close>

definition kcall_in :: "portst \<Rightarrow> (int \<times> kstate) option \<Rightarrow> (int \<times> portst) option" where
  "kcall_in S r = map_option (\<lambda>(v, k). (v, S\<lparr>kern := k\<rparr>)) r"

definition lost :: "portst \<Rightarrow> portst \<Rightarrow> bool" where
  "lost S S' \<longleftrightarrow> currpid (kern S') \<noteq> currpid (kern S)"

section \<open>Marks\<close>

definition mkinit :: "portst \<Rightarrow> portst" where
  "mkinit S = (let (m, k) = screate 1 (kern S) in S\<lparr>kern := k, mkmutex := m, nmarks := 0\<rparr>)"

definition unmarked :: "int \<Rightarrow> portst \<Rightarrow> bool" where
  "unmarked loc S \<longleftrightarrow> mval S loc < 0 \<or> mval S loc \<ge> nmarks S \<or> marks S (mval S loc) \<noteq> loc"

definition mark_rest :: "int \<Rightarrow> portst \<Rightarrow> (int \<times> portst) option" where
  "mark_rest loc S =
     (let S1 = S\<lparr>mval := (mval S)(loc := nmarks S), marks := (marks S)(nmarks S := loc), nmarks := nmarks S + 1\<rparr>
      in do { (_, S2) \<leftarrow> kcall_in S1 (signal (mkmutex S1) (kern S1)); Some (OK, S2) })"

text \<open>\<open>None\<close> as the value: the process lost the processor in \<open>wait\<close>, and goes on with \<open>mark_rest\<close>.\<close>

definition mark :: "int \<Rightarrow> portst \<Rightarrow> (int option \<times> portst) option" where
  "mark loc S =
     (if mval S loc \<ge> 0 \<and> mval S loc < nmarks S \<and> marks S (mval S loc) = loc then Some (Some 0, S)
      else if nmarks S \<ge> MAXMARK then Some (Some SYSERR, S)
      else do {
        (_, S1) \<leftarrow> kcall_in S (wait (mkmutex S) (kern S));
        if lost S S1 then Some (None, S1)
        else do { (v, S2) \<leftarrow> mark_rest loc S1; Some (Some v, S2) }
      })"

section \<open>Ports\<close>

fun link_nodes :: "nat \<Rightarrow> int \<Rightarrow> portst \<Rightarrow> portst" where
  "link_nodes 0 prev S = set_ptnext prev NULLPTR S"
| "link_nodes (Suc n) prev S =
     link_nodes n (u16 (prev + sizeof_ptnode)) (set_ptnext prev (u16 (prev + sizeof_ptnode)) S)"

text \<open>\<open>pinit\<close> panics when there is no memory: no value.\<close>

definition pinit :: "int \<Rightarrow> portst \<Rightarrow> (int \<times> portst) option" where
  "pinit maxmsgs S = do {
     (a, m) \<leftarrow> getmem (u16 (maxmsgs * sizeof_ptnode)) (mem (kern S));
     let S1 = S\<lparr>kern := (kern S)\<lparr>mem := m\<rparr>, ptfree := a\<rparr>;
     if a = SYSPTR then None
     else
       (let S2 = S1\<lparr>ports := (\<lambda>i. if 0 \<le> i \<and> i < NPORTS then (ports S1 i)\<lparr>ptstate := PTFREE\<rparr> else ports S1 i),
              ptnextp := NPORTS - 1\<rparr>
        in Some (OK, link_nodes (nat (maxmsgs - 1)) a S2))
   }"

fun pcreate_scan :: "nat \<Rightarrow> int \<Rightarrow> portst \<Rightarrow> int \<times> portst" where
  "pcreate_scan 0 count S = (SYSERR, S)"
| "pcreate_scan (Suc n) count S =
     (let p = ptnextp S;
          S1 = S\<lparr>ptnextp := (if p \<le> 0 then NPORTS - 1 else p - 1)\<rparr>
      in if ptstate (ports S1 p) = PTFREE
         then
           (let S2 = upd_port p (ptstate_update (\<lambda>_. PTALLOC)) S1;
                (ss, k1) = screate count (kern S2);
                S3 = upd_port p (ptssem_update (\<lambda>_. ss)) (S2\<lparr>kern := k1\<rparr>);
                (rs, k2) = screate 0 (kern S3);
                S4 = upd_port p (ptrsem_update (\<lambda>_. rs)) (S3\<lparr>kern := k2\<rparr>)
            in (p, upd_port p (\<lambda>e. e\<lparr>pthead := NULLPTR, pttail := NULLPTR, ptseq := s16 (ptseq e + 1), ptmaxcnt := count\<rparr>) S4))
         else pcreate_scan n count S1)"

definition pcreate_marked :: "int \<Rightarrow> int \<Rightarrow> portst \<Rightarrow> (pkont \<times> portst) option" where
  "pcreate_marked status count S = do {
     (_, S1) \<leftarrow> (if status = OK then pinit MAXMSGS S else Some (OK, S));
     (let (p, S2) = pcreate_scan (nat NPORTS) count S1 in Some (PRet p, S2))
   }"

definition pcreate :: "int \<Rightarrow> portst \<Rightarrow> (pkont \<times> portst) option" where
  "pcreate count S =
     (if count < 0 then Some (PRet SYSERR, S)
      else do {
        (v, S1) \<leftarrow> mark (ptmark S) S;
        case v of None \<Rightarrow> Some (PMarkPorts count, S1) | Some status \<Rightarrow> pcreate_marked status count S1
      })"

definition badport :: "int \<Rightarrow> portst \<Rightarrow> bool" where
  "badport p S \<longleftrightarrow> isbadport p \<or> unmarked (ptmark S) S \<or> ptstate (ports S p) \<noteq> PTALLOC"

text \<open>\<open>psend\<close> and \<open>preceive\<close> from the return of \<open>wait\<close>; no free node is a panic.\<close>

definition psend_rest :: "int \<Rightarrow> int \<Rightarrow> int \<Rightarrow> portst \<Rightarrow> (pkont \<times> portst) option" where
  "psend_rest p seq msg S =
     (if ptstate (ports S p) \<noteq> PTALLOC \<or> ptseq (ports S p) \<noteq> seq then Some (PRet SYSERR, S)
      else if ptfree S = NULLPTR then None
      else
        (let f = ptfree S;
             S1 = S\<lparr>ptfree := ptnext S f\<rparr>;
             S2 = set_ptmsg f msg (set_ptnext f NULLPTR S1);
             S3 = (if pttail (ports S2 p) = NULLPTR then upd_port p (pttail_update (\<lambda>_. f) \<circ> pthead_update (\<lambda>_. f)) S2
                   else upd_port p (pttail_update (\<lambda>_. f)) (set_ptnext (pttail (ports S2 p)) f S2))
         in do { (_, S4) \<leftarrow> kcall_in S3 (signal (ptrsem (ports S3 p)) (kern S3)); Some (PRet OK, S4) }))"

definition psend :: "int \<Rightarrow> int \<Rightarrow> portst \<Rightarrow> (pkont \<times> portst) option" where
  "psend p msg S =
     (if badport p S then Some (PRet SYSERR, S)
      else do {
        let seq = ptseq (ports S p);
        (v, S1) \<leftarrow> kcall_in S (wait (ptssem (ports S p)) (kern S));
        if v = SYSERR then Some (PRet SYSERR, S1)
        else if lost S S1 then Some (PSend p seq msg, S1)
        else psend_rest p seq msg S1
      })"

definition preceive_rest :: "int \<Rightarrow> int \<Rightarrow> portst \<Rightarrow> (pkont \<times> portst) option" where
  "preceive_rest p seq S =
     (if ptstate (ports S p) \<noteq> PTALLOC \<or> ptseq (ports S p) \<noteq> seq then Some (PRet SYSERR, S)
      else
        (let nxt = pthead (ports S p);
             msg = ptmsg S nxt;
             S1 = (if pthead (ports S p) = pttail (ports S p)
                   then upd_port p (pttail_update (\<lambda>_. NULLPTR) \<circ> pthead_update (\<lambda>_. NULLPTR)) S
                   else upd_port p (pthead_update (\<lambda>_. ptnext S nxt)) S);
             S2 = (set_ptnext nxt (ptfree S1) S1)\<lparr>ptfree := nxt\<rparr>
         in do { (_, S3) \<leftarrow> kcall_in S2 (signal (ptssem (ports S2 p)) (kern S2)); Some (PRet msg, S3) }))"

definition preceive :: "int \<Rightarrow> portst \<Rightarrow> (pkont \<times> portst) option" where
  "preceive p S =
     (if badport p S then Some (PRet SYSERR, S)
      else do {
        let seq = ptseq (ports S p);
        (v, S1) \<leftarrow> kcall_in S (wait (ptrsem (ports S p)) (kern S));
        if v = SYSERR then Some (PRet SYSERR, S1)
        else if lost S S1 then Some (PReceive p seq, S1)
        else preceive_rest p seq S1
      })"

definition pcount :: "int \<Rightarrow> portst \<Rightarrow> int" where
  "pcount p S =
     (if badport p S then SYSERR
      else
        (let count = scount (ptrsem (ports S p)) (kern S); scnt = scount (ptssem (ports S p)) (kern S)
         in if scnt < 0 then s16 (count - scnt) else count))"


text \<open>Clearing a port: every message is given to \<open>dispose\<close>, the nodes go back to the free list,
  and the two semaphores are reset (\<open>preset\<close>) or deleted (\<open>pdelete\<close>). The process may lose the
  processor at each of the two: \<open>PClear\<close> with the number of semaphores that are still to be done.\<close>

partial_function (option) dispose_loop :: "(int \<Rightarrow> portst \<Rightarrow> portst) \<Rightarrow> int \<Rightarrow> portst \<Rightarrow> portst option" where
  "dispose_loop dispose p S =
     (if p = NULLPTR then Some S
      else (let S1 = dispose (ptmsg S p) S in dispose_loop dispose (ptnext S1 p) S1))"

fun ptclear_sems :: "nat \<Rightarrow> int \<Rightarrow> bool \<Rightarrow> portst \<Rightarrow> (pkont \<times> portst) option" where
  "ptclear_sems 0 p alloc S =
     Some (PRet OK, upd_port p (ptstate_update (\<lambda>_. if alloc then PTALLOC else PTFREE)) S)"
| "ptclear_sems (Suc n) p alloc S = do {
     (_, S1) \<leftarrow> kcall_in S
       (if n = 0 then (if alloc then sreset (ptrsem (ports S p)) 0 (kern S) else sdelete (ptrsem (ports S p)) (kern S))
        else (if alloc then sreset (ptssem (ports S p)) (ptmaxcnt (ports S p)) (kern S)
              else sdelete (ptssem (ports S p)) (kern S)));
     if lost S S1 then Some (PClear p alloc n, S1) else ptclear_sems n p alloc S1
   }"

definition ptclear :: "int \<Rightarrow> bool \<Rightarrow> (int \<Rightarrow> portst \<Rightarrow> portst) \<Rightarrow> portst \<Rightarrow> (pkont \<times> portst) option" where
  "ptclear p alloc dispose S = do {
     let S1 = upd_port p (\<lambda>e. e\<lparr>ptstate := PTLIMBO, ptseq := s16 (ptseq e + 1)\<rparr>) S;
     let h = pthead (ports S1 p);
     S3 \<leftarrow> (if h \<noteq> NULLPTR then do {
              S2 \<leftarrow> dispose_loop dispose h S1;
              Some ((set_ptnext (pttail (ports S2 p)) (ptfree S2) S2)\<lparr>ptfree := pthead (ports S2 p)\<rparr>)
            } else Some S1);
     let S4 = (if alloc then upd_port p (\<lambda>e. e\<lparr>pttail := NULLPTR, pthead := NULLPTR\<rparr>) S3 else S3);
     ptclear_sems 2 p alloc S4
   }"

definition pdelete :: "int \<Rightarrow> (int \<Rightarrow> portst \<Rightarrow> portst) \<Rightarrow> portst \<Rightarrow> (pkont \<times> portst) option" where
  "pdelete p dispose S = (if badport p S then Some (PRet SYSERR, S) else ptclear p False dispose S)"

definition preset :: "int \<Rightarrow> (int \<Rightarrow> portst \<Rightarrow> portst) \<Rightarrow> portst \<Rightarrow> (pkont \<times> portst) option" where
  "preset p dispose S = (if badport p S then Some (PRet SYSERR, S) else ptclear p True dispose S)"

section \<open>Buffer pools\<close>

definition poolinit_marked :: "int \<Rightarrow> portst \<Rightarrow> int \<times> portst" where
  "poolinit_marked status S = (if status = OK then (OK, S\<lparr>nbpools := 0\<rparr>) else (SYSERR, S))"

definition poolinit :: "portst \<Rightarrow> (pkont \<times> portst) option" where
  "poolinit S = do {
     (v, S1) \<leftarrow> mark (bpmark S) S;
     case v of
       None \<Rightarrow> Some (PMarkPool None, S1)
     | Some status \<Rightarrow> (let (r, S2) = poolinit_marked status S1 in Some (PRet r, S2))
   }"

fun link_bufs :: "nat \<Rightarrow> int \<Rightarrow> int \<Rightarrow> portst \<Rightarrow> portst" where
  "link_bufs 0 bufsiz wher S = put_word wher NULLPTR S"
| "link_bufs (Suc n) bufsiz wher S =
     link_bufs n bufsiz (u16 (wher + bufsiz)) (put_word wher (u16 (wher + bufsiz)) S)"

text \<open>The search for the largest block when there is no memory, whose outcome is only printed.\<close>

partial_function (option) probe :: "int \<Rightarrow> portst \<Rightarrow> portst option" where
  "probe i S = do {
     (a, m) \<leftarrow> getmem (u16 i) (mem (kern S));
     let S1 = S\<lparr>kern := (kern S)\<lparr>mem := m\<rparr>\<rparr>;
     if a = SYSPTR then Some S1
     else do {
       (_, m2) \<leftarrow> freemem a (u16 i) m;
       probe (i + 2) (S1\<lparr>kern := (kern S1)\<lparr>mem := m2\<rparr>\<rparr>)
     }
   }"

definition mkpool_rest :: "int \<Rightarrow> int \<Rightarrow> portst \<Rightarrow> (int \<times> portst) option" where
  "mkpool_rest bufsiz numbufs S =
     (if bufsiz < BPMINB \<or> bufsiz > BPMAXB \<or> numbufs < 1 \<or> numbufs > BPMAXN \<or> nbpools S \<ge> NBPOOLS
      then Some (SYSERR, S)
      else do {
        (a, m) \<leftarrow> getmem (u16 ((bufsiz + sizeof_int) * numbufs)) (mem (kern S));
        let S1 = S\<lparr>kern := (kern S)\<lparr>mem := m\<rparr>\<rparr>;
        if a = SYSPTR then do { S2 \<leftarrow> probe 2 S1; Some (SYSERR, S2) }
        else
          (let poolid = nbpools S1;
               S2 = S1\<lparr>nbpools := poolid + 1\<rparr>;
               (sem, k) = screate numbufs (kern S2);
               S3 = upd_pool poolid (\<lambda>b. b\<lparr>bpnext := a, bpsize := bufsiz, bpsem := sem\<rparr>) (S2\<lparr>kern := k\<rparr>)
           in Some (poolid, link_bufs (nat (numbufs - 1)) (bufsiz + sizeof_int) a S3))
      })"

definition mkpool :: "int \<Rightarrow> int \<Rightarrow> portst \<Rightarrow> (pkont \<times> portst) option" where
  "mkpool bufsiz numbufs S =
     (if unmarked (bpmark S) S then do {
        (k, S1) \<leftarrow> poolinit S;
        case k of
          PRet _ \<Rightarrow> do { (v, S2) \<leftarrow> mkpool_rest bufsiz numbufs S1; Some (PRet v, S2) }
        | _ \<Rightarrow> Some (PMarkPool (Some (bufsiz, numbufs)), S1)
      }
      else do { (v, S2) \<leftarrow> mkpool_rest bufsiz numbufs S; Some (PRet v, S2) })"

text \<open>\<open>getbuf\<close> from the return of \<open>wait\<close>: it does not look at what \<open>wait\<close> returned.\<close>

definition getbuf_rest :: "int \<Rightarrow> portst \<Rightarrow> int \<times> portst" where
  "getbuf_rest poolid S =
     (let buf = bpnext (bptab S poolid);
          S1 = upd_pool poolid (bpnext_update (\<lambda>_. word_at S buf)) S
      in (u16 (buf + sizeof_int), put_word buf (u16 poolid) S1))"

definition getbuf :: "int \<Rightarrow> portst \<Rightarrow> (pkont \<times> portst) option" where
  "getbuf poolid S =
     (if unmarked (bpmark S) S \<or> poolid < 0 \<or> poolid \<ge> nbpools S then Some (PRet SYSPTR, S)
      else do {
        (_, S1) \<leftarrow> kcall_in S (wait (bpsem (bptab S poolid)) (kern S));
        if lost S S1 then Some (PGetbuf poolid, S1)
        else (let (v, S2) = getbuf_rest poolid S1 in Some (PRet v, S2))
      })"

definition freebuf :: "int \<Rightarrow> portst \<Rightarrow> (int \<times> portst) option" where
  "freebuf b S =
     (if unmarked (bpmark S) S then Some (SYSERR, S)
      else
        (let buf = u16 (b - sizeof_int); poolid = s16 (word_at S buf)
         in if poolid < 0 \<or> poolid \<ge> nbpools S then Some (SYSERR, S)
            else
              (let S1 = put_word buf (bpnext (bptab S poolid)) S;
                   S2 = upd_pool poolid (bpnext_update (\<lambda>_. buf)) S1
               in do { (_, S3) \<leftarrow> kcall_in S2 (signal (bpsem (bptab S2 poolid)) (kern S2)); Some (OK, S3) })))"

section \<open>Going on after a wait\<close>

definition pcontinue :: "pkont \<Rightarrow> portst \<Rightarrow> (pkont \<times> portst) option" where
  "pcontinue k S =
     (case k of
        PRet v \<Rightarrow> Some (PRet v, S)
      | PMarkPorts count \<Rightarrow> do { (v, S1) \<leftarrow> mark_rest (ptmark S) S; pcreate_marked v count S1 }
      | PSend p seq msg \<Rightarrow> psend_rest p seq msg S
      | PReceive p seq \<Rightarrow> preceive_rest p seq S
      | PClear p alloc n \<Rightarrow> ptclear_sems n p alloc S
      | PMarkPool mk \<Rightarrow> do {
          (v, S1) \<leftarrow> mark_rest (bpmark S) S;
          let (r, S2) = poolinit_marked v S1;
          case mk of
            None \<Rightarrow> Some (PRet r, S2)
          | Some (bufsiz, numbufs) \<Rightarrow> do { (w, S3) \<leftarrow> mkpool_rest bufsiz numbufs S2; Some (PRet w, S3) }
        }
      | PGetbuf poolid \<Rightarrow> (let (v, S2) = getbuf_rest poolid S in Some (PRet v, S2)))"

end
