(* ===== verification/PortLists.thy ===== *)
theory PortLists
  imports Ports "HOL-Library.Multiset"
begin

text \<open>
  Linked lists of words in the RAM (the messages of a port, the free nodes, the free buffers of a
  pool), the invariant of the ports over them, and what the operations of \<open>Ports\<close> do to the lists:
  a port is a queue of messages, and no node is ever lost or in two lists.
\<close>

section \<open>Linked lists\<close>

fun wlist :: "(int \<Rightarrow> int) \<Rightarrow> int \<Rightarrow> int list \<Rightarrow> bool" where
  "wlist nx a [] \<longleftrightarrow> a = NULLPTR"
| "wlist nx a (x # xs) \<longleftrightarrow> a = x \<and> x \<noteq> NULLPTR \<and> wlist nx (nx x) xs"

lemma wlist_cong: "(\<And>x. x \<in> set xs \<Longrightarrow> nx x = nx' x) \<Longrightarrow> wlist nx a xs = wlist nx' a xs"
  by (induction xs arbitrary: a) auto

lemma wlist_upd: "x \<notin> set xs \<Longrightarrow> wlist (nx(x := v)) a xs = wlist nx a xs"
  by (rule wlist_cong) auto

lemma wlist_null [simp]: "wlist nx NULLPTR xs \<longleftrightarrow> xs = []"
  by (cases xs) (auto simp: NULLPTR_def)

lemma wlist_hd: "wlist nx a xs \<Longrightarrow> a \<noteq> NULLPTR \<Longrightarrow> xs \<noteq> [] \<and> hd xs = a \<and> wlist nx (nx a) (tl xs)"
  by (cases xs) auto

lemma wlist_empty: "wlist nx a xs \<Longrightarrow> xs = [] \<longleftrightarrow> a = NULLPTR"
  by (cases xs) auto

text \<open>The last node of a list is made to point to another list.\<close>

lemma wlist_append:
  assumes "wlist nx a xs" "wlist nx b ys" "xs \<noteq> []" "distinct xs" "last xs \<notin> set ys"
  shows "wlist (nx(last xs := b)) a (xs @ ys)"
  using assms
proof (induction xs arbitrary: a)
  case (Cons x xs)
  show ?case
  proof (cases "xs = []")
    case True
    then show ?thesis using Cons.prems by (simp add: wlist_upd [unfolded fun_upd_def])
  next
    case False
    then have "x \<noteq> last xs" using Cons.prems(4) by auto
    then show ?thesis using Cons False by simp
  qed
qed simp

section \<open>Words and nodes\<close>

text \<open>Areas of \<open>sz\<close> bytes that do not overlap.\<close>

definition areas :: "int \<Rightarrow> int set \<Rightarrow> bool" where
  "areas sz N \<longleftrightarrow> (\<forall>x\<in>N. 0 < x \<and> x + sz \<le> 65536 \<and> (\<forall>y\<in>N. x \<noteq> y \<longrightarrow> x + sz \<le> y \<or> y + sz \<le> x))"

lemma areasD: "areas sz N \<Longrightarrow> x \<in> N \<Longrightarrow> 0 < x \<and> x + sz \<le> 65536"
  by (simp add: areas_def)

lemma areas_apart: "areas sz N \<Longrightarrow> x \<in> N \<Longrightarrow> y \<in> N \<Longrightarrow> x \<noteq> y \<Longrightarrow> x + sz \<le> y \<or> y + sz \<le> x"
  unfolding areas_def by blast

lemma get_set_word_other:
  assumes "a + 1 < b \<or> b + 1 < a" "0 \<le> a" "0 \<le> b" "a + 1 < 65536" "b + 1 < 65536"
  shows "get_word (set_word a v m) b = get_word m b"
  using assms by (auto simp: get_word_def set_word_def set_ram_def)

lemma word_at_put:
  assumes "0 \<le> a" "a + 1 < 65536"
  shows "word_at (put_word a v S) a = u16 v"
  using assms get_set_word [of a v] by (simp add: word_at_def put_word_def)

lemma word_at_put_other:
  assumes "a + 1 < b \<or> b + 1 < a" "0 \<le> a" "0 \<le> b" "a + 1 < 65536" "b + 1 < 65536"
  shows "word_at (put_word a v S) b = word_at S b"
  using get_set_word_other [OF assms] by (simp add: word_at_def put_word_def)

text \<open>In a set of nodes an assignment to a field changes that field of that node only.\<close>

lemma node_fields:
  assumes "areas sizeof_ptnode N" "x \<in> N" "y \<in> N"
  shows "ptnext (set_ptnext x v S) y = (if y = x then u16 v else ptnext S y)"
    "ptmsg (set_ptnext x v S) y = ptmsg S y"
    "ptnext (set_ptmsg x v S) y = ptnext S y"
    "ptmsg (set_ptmsg x v S) y = (if y = x then s16 v else ptmsg S y)"
proof -
  have b: "0 < x" "x + 4 \<le> 65536" "0 < y" "y + 4 \<le> 65536" "x \<noteq> y \<Longrightarrow> x + 4 \<le> y \<or> y + 4 \<le> x"
    using areasD [OF assms(1)] areas_apart [OF assms] assms(2,3) by (auto simp: sizeof_ptnode_def)
  have u: "u16 (x + 2) = x + 2" "u16 (y + 2) = y + 2" using b by simp_all
  have s: "s16 (u16 w) = s16 w" for w by (simp add: s16_def u16_def mod_simps)
  show "ptnext (set_ptnext x v S) y = (if y = x then u16 v else ptnext S y)"
    unfolding set_ptnext_def u using b by (auto simp: word_at_put word_at_put_other)
  show "ptmsg (set_ptnext x v S) y = ptmsg S y"
  proof (cases "x = y")
    case True
    then show ?thesis unfolding set_ptnext_def u using b by (simp add: word_at_put_other)
  next
    case False
    then show ?thesis unfolding set_ptnext_def u using b(1-4) b(5) [OF False] by (subst word_at_put_other) auto
  qed
  show "ptnext (set_ptmsg x v S) y = ptnext S y"
  proof (cases "x = y")
    case True
    then show ?thesis unfolding set_ptmsg_def u using b by (simp add: word_at_put_other)
  next
    case False
    then show ?thesis unfolding set_ptmsg_def u using b(1-4) b(5) [OF False] by (subst word_at_put_other) auto
  qed
  show "ptmsg (set_ptmsg x v S) y = (if y = x then s16 v else ptmsg S y)"
  proof (cases "x = y")
    case True
    have "u16 (u16 v) = u16 v" by (simp add: u16_def)
    then show ?thesis unfolding set_ptmsg_def using True b by (simp add: word_at_put s)
  next
    case False
    then show ?thesis unfolding set_ptmsg_def u using b(1-4) b(5) [OF False] by (subst word_at_put_other) auto
  qed
qed

lemma put_word_simps [simp]:
  "ports (put_word a v S) = ports S" "ptfree (put_word a v S) = ptfree S"
  "kern (put_word a v S) = (kern S)\<lparr>mem := set_word a v (mem (kern S))\<rparr>"
  "bptab (put_word a v S) = bptab S" "nbpools (put_word a v S) = nbpools S"
  "marks (put_word a v S) = marks S" "nmarks (put_word a v S) = nmarks S" "mval (put_word a v S) = mval S"
  "ptmark (put_word a v S) = ptmark S" "bpmark (put_word a v S) = bpmark S"
  by (simp_all add: put_word_def)

lemma set_pt_simps [simp]:
  "ports (set_ptnext a v S) = ports S" "ptfree (set_ptnext a v S) = ptfree S"
  "ports (set_ptmsg a v S) = ports S" "ptfree (set_ptmsg a v S) = ptfree S"
  by (simp_all add: set_ptnext_def set_ptmsg_def)

lemma word_at_upd [simp]:
  "word_at (upd_port p f S) = word_at S" "word_at (upd_pool p g S) = word_at S"
  "word_at (S\<lparr>ptfree := v\<rparr>) = word_at S" "word_at (S\<lparr>nbpools := n\<rparr>) = word_at S"
  by (simp_all add: word_at_def upd_port_def upd_pool_def fun_eq_iff)

lemma upd_port_simps [simp]:
  "ports (upd_port p f S) = (ports S)(p := f (ports S p))" "ptfree (upd_port p f S) = ptfree S"
  "kern (upd_port p f S) = kern S"
  by (simp_all add: upd_port_def)

section \<open>The invariant of the ports\<close>

definition all_nodes :: "(int \<Rightarrow> int list) \<Rightarrow> int list \<Rightarrow> int list" where
  "all_nodes q fr = fr @ concat (map q [0..NPORTS - 1])"

definition port_list :: "(int \<Rightarrow> int) \<Rightarrow> pt \<Rightarrow> int list \<Rightarrow> bool" where
  "port_list nx e xs \<longleftrightarrow>
     (if ptstate e \<noteq> PTALLOC then xs = []
      else wlist nx (pthead e) xs \<and> pttail e = (if xs = [] then NULLPTR else last xs))"

definition ports_ok :: "portst \<Rightarrow> (int \<Rightarrow> int list) \<Rightarrow> int list \<Rightarrow> bool" where
  "ports_ok S q fr \<longleftrightarrow> distinct (all_nodes q fr) \<and> areas sizeof_ptnode (set (all_nodes q fr)) \<and>
     wlist (ptnext S) (ptfree S) fr \<and> (\<forall>p. \<not> isbadport p \<longrightarrow> port_list (ptnext S) (ports S p) (q p))"

text \<open>The messages of a port, in order.\<close>

definition messages :: "portst \<Rightarrow> (int \<Rightarrow> int list) \<Rightarrow> int \<Rightarrow> int list" where
  "messages S q p = map (ptmsg S) (q p)"

lemma ports_list: "[0..NPORTS - 1] = [0, 1, 2, 3, 4]"
  by (simp add: NPORTS_def upto.simps)

lemma isbadport_iff: "\<not> isbadport p \<longleftrightarrow> p \<in> {0, 1, 2, 3, 4}"
  by (auto simp: isbadport_def NPORTS_def)

lemma all_nodes_mset:
  assumes "\<not> isbadport p"
  shows "mset (all_nodes (q(p := xs)) fr) + mset (q p) = mset (all_nodes q fr) + mset xs"
  using assms unfolding isbadport_iff all_nodes_def ports_list by auto

lemma in_all_nodes:
  "x \<in> set fr \<Longrightarrow> x \<in> set (all_nodes q fr)"
  "\<not> isbadport p \<Longrightarrow> x \<in> set (q p) \<Longrightarrow> x \<in> set (all_nodes q fr)"
  by (auto simp: all_nodes_def isbadport_def NPORTS_def)

lemma other_lists:
  assumes "distinct (all_nodes q fr)" "\<not> isbadport p"
  shows "set fr \<inter> set (q p) = {}" "distinct fr" "distinct (q p)"
    "\<not> isbadport r \<Longrightarrow> r \<noteq> p \<Longrightarrow> set (q r) \<inter> set (q p) = {}"
  using assms unfolding isbadport_iff all_nodes_def ports_list by auto

lemma ports_ok_cong:
  assumes "ports_ok S q fr" "ports S' = ports S" "ptfree S' = ptfree S" "mem (kern S') = mem (kern S)"
  shows "ports_ok S' q fr" "messages S' q = messages S q"
  using assms by (simp_all add: ports_ok_def messages_def word_at_def fun_eq_iff)

section \<open>Adding a message\<close>

definition append_node :: "int \<Rightarrow> int \<Rightarrow> portst \<Rightarrow> portst" where
  "append_node p f S =
     (if pttail (ports S p) = NULLPTR then upd_port p (pttail_update (\<lambda>_. f) \<circ> pthead_update (\<lambda>_. f)) S
      else upd_port p (pttail_update (\<lambda>_. f)) (set_ptnext (pttail (ports S p)) f S))"

definition fill_node :: "int \<Rightarrow> portst \<Rightarrow> portst" where
  "fill_node msg S = set_ptmsg (ptfree S) msg (set_ptnext (ptfree S) NULLPTR (S\<lparr>ptfree := ptnext S (ptfree S)\<rparr>))"

lemma psend_rest_steps:
  assumes "ptstate (ports S p) = PTALLOC" "ptseq (ports S p) = seq" "ptfree S \<noteq> NULLPTR"
  shows "psend_rest p seq msg S =
    (let S3 = append_node p (ptfree S) (fill_node msg S)
     in do { (_, S4) \<leftarrow> kcall_in S3 (signal (ptrsem (ports S3 p)) (kern S3)); Some (PRet OK, S4) })"
  using assms by (simp add: psend_rest_def append_node_def fill_node_def Let_def)

lemma all_nodes_move:
  assumes "\<not> isbadport p" "fr \<noteq> []"
  shows "mset (all_nodes (q(p := q p @ [hd fr])) (tl fr)) = mset (all_nodes q fr)"
proof -
  have "mset (all_nodes (q(p := q p @ [hd fr])) (tl fr)) + mset (q p) =
      mset (all_nodes q (tl fr)) + mset (q p @ [hd fr])"
    by (rule all_nodes_mset [OF assms(1)])
  moreover have "mset (all_nodes q fr) = add_mset (hd fr) (mset (all_nodes q (tl fr)))"
    using assms(2) by (cases fr) (simp_all add: all_nodes_def)
  ultimately show ?thesis by simp
qed

lemma fields_cong:
  assumes "\<forall>x\<in>N. nx x = nx' x" "set xs \<subseteq> N"
  shows "port_list nx e xs = port_list nx' e xs" "wlist nx a xs = wlist nx' a xs"
proof -
  have "wlist nx a xs = wlist nx' a xs" for a by (rule wlist_cong) (use assms in auto)
  then show "port_list nx e xs = port_list nx' e xs" "wlist nx a xs = wlist nx' a xs"
    by (simp_all add: port_list_def)
qed

lemma port_list_upd: "x \<notin> set xs \<Longrightarrow> port_list (nx(x := v)) e xs = port_list nx e xs"
  using wlist_upd [of x xs nx v "pthead e"] by (simp add: port_list_def)

lemma append_node_ok:
  fixes S q fr p msg r
  assumes ok: "ports_ok S q fr" and p: "\<not> isbadport p" "ptstate (ports S p) = PTALLOC" and fr: "fr \<noteq> []"
  defines "S3 \<equiv> append_node p (ptfree S) (fill_node msg S)"
  shows "ports_ok S3 (q(p := q p @ [hd fr])) (tl fr)"
    "messages S3 (q(p := q p @ [hd fr])) p = messages S q p @ [s16 msg]"
    "\<not> isbadport r \<Longrightarrow> r \<noteq> p \<Longrightarrow> messages S3 (q(p := q p @ [hd fr])) r = messages S q r"
proof -
  let ?N = "set (all_nodes q fr)" and ?q = "q(p := q p @ [hd fr])" and ?f = "hd fr"
  have D: "distinct (all_nodes q fr)" and A: "areas sizeof_ptnode ?N" and F: "wlist (ptnext S) (ptfree S) fr"
    and Q: "\<And>r. \<not> isbadport r \<Longrightarrow> port_list (ptnext S) (ports S r) (q r)"
    using ok by (simp_all add: ports_ok_def)
  note O = other_lists [OF D p(1)]
  have f: "ptfree S = ?f" "?f \<noteq> NULLPTR" "wlist (ptnext S) (ptnext S ?f) (tl fr)"
    using F fr by (cases fr; simp)+
  have fN: "?f \<in> ?N" using fr by (simp add: all_nodes_def)
  have uf: "u16 ?f = ?f" "u16 NULLPTR = NULLPTR" using areasD [OF A fN] by (simp_all add: sizeof_ptnode_def NULLPTR_def)
  have fq: "?f \<notin> set (q r)" if "\<not> isbadport r" for r using other_lists(1) [OF D that] hd_in_set [OF fr] by blast
  have ft: "?f \<notin> set (tl fr)" using O(2) fr by (cases fr) auto
  have same: "mset (all_nodes ?q (tl fr)) = mset (all_nodes q fr)" by (rule all_nodes_move [OF p(1) fr])
  have setN: "set (all_nodes ?q (tl fr)) = ?N" using same by (metis set_mset_mset)
  have D': "distinct (all_nodes ?q (tl fr))" using same D by (metis mset_eq_imp_distinct_iff)
  have inN: "set fr \<subseteq> ?N" "\<not> isbadport r \<Longrightarrow> set (q r) \<subseteq> ?N" for r
    using in_all_nodes by (blast, blast)
  have P: "wlist (ptnext S) (pthead (ports S p)) (q p)" "pttail (ports S p) = (if q p = [] then NULLPTR else last (q p))"
    using Q [OF p(1)] p(2) by (simp_all add: port_list_def)
  have lastN: "q p \<noteq> [] \<Longrightarrow> last (q p) \<in> ?N" using inN(2) [OF p(1)] by auto
  have last0: "q p \<noteq> [] \<Longrightarrow> last (q p) \<noteq> NULLPTR" using areasD [OF A lastN] by (auto simp: NULLPTR_def)
  let ?nx = "(ptnext S)(?f := NULLPTR)"
  let ?nx' = "if q p = [] then ?nx else ?nx(last (q p) := ?f)"
  note N = node_fields [OF A]
  have fill: "ptnext (fill_node msg S) y = ?nx y" "ptmsg (fill_node msg S) y = (if y = ?f then s16 msg else ptmsg S y)"
    if "y \<in> ?N" for y
    using that fN f uf by (simp_all add: fill_node_def N)
  have ptn: "ports (fill_node msg S) = ports S" by (simp add: fill_node_def)
  have nx: "ptnext S3 y = ?nx' y" if "y \<in> ?N" for y
    using that P(2) last0 lastN uf f
    by (cases "q p = []") (simp_all add: S3_def append_node_def ptn fill N)
  have msgs: "ptmsg S3 y = (if y = ?f then s16 msg else ptmsg S y)" if "y \<in> ?N" for y
    using that P(2) last0 lastN f
    by (cases "q p = []") (simp_all add: S3_def append_node_def ptn fill N)
  have nxc: "\<forall>y\<in>?N. ptnext S3 y = ?nx' y" using nx by blast
  have prt: "ports S3 r = (if r = p then (ports S p)\<lparr>pttail := ?f, pthead := (if q p = [] then ?f else pthead (ports S p))\<rparr>
       else ports S r)" for r
    using P(2) last0 f by (cases "q p = []") (simp_all add: S3_def append_node_def ptn)
  have free: "ptfree S3 = ptnext S ?f" using f by (simp add: S3_def append_node_def fill_node_def)
  have l: "q p \<noteq> [] \<Longrightarrow> last (q p) \<notin> set (tl fr)" using O(1) fr by (cases fr) auto
  show "ports_ok S3 ?q (tl fr)"
    unfolding ports_ok_def setN
  proof (intro conjI allI impI D' A)
    have "wlist ?nx' (ptnext S ?f) (tl fr)"
      using f(3) ft l by (auto simp: wlist_upd)
    then show "wlist (ptnext S3) (ptfree S3) (tl fr)"
      unfolding free using fields_cong(2) [OF nxc, of "tl fr"] inN(1) fr by (cases fr) auto
  next
    fix r assume r: "\<not> isbadport r"
    show "port_list (ptnext S3) (ports S3 r) (?q r)"
    proof (cases "r = p")
      case True
      have "wlist ?nx' (pthead (ports S3 p)) (q p @ [?f])"
      proof (cases "q p = []")
        case True
        then show ?thesis using f(2) by (simp add: prt)
      next
        case False
        have "wlist (?nx(last (q p) := ?f)) (pthead (ports S p)) (q p @ [?f])"
        proof (rule wlist_append)
          show "wlist ?nx (pthead (ports S p)) (q p)" using P(1) fq [OF p(1)] by (simp add: wlist_upd)
          show "wlist ?nx ?f [?f]" using f(2) by simp
          show "last (q p) \<notin> set [?f]" using False fq [OF p(1)] by (auto dest: last_in_set)
        qed (use False O in auto)
        then show ?thesis using False by (simp add: prt)
      qed
      moreover have "set (q p @ [?f]) \<subseteq> ?N" using inN(2) [OF p(1)] fN by simp
      ultimately show ?thesis
        using True p(2) fields_cong(2) [OF nxc, of "q p @ [?f]"] by (simp add: port_list_def prt)
    next
      case False
      have lr: "q p \<noteq> [] \<Longrightarrow> last (q p) \<notin> set (q r)" using O(4) [OF r False] last_in_set [of "q p"] by blast
      have "port_list ?nx' (ports S r) (q r)"
        using Q [OF r] fq [OF r] lr by (simp add: port_list_upd)
      then show ?thesis using False fields_cong(1) [OF nxc inN(2) [OF r]] by (simp add: prt)
    qed
  qed
  have m: "map (ptmsg S3) (q r) = map (ptmsg S) (q r)" if "\<not> isbadport r" for r
    using msgs inN(2) [OF that] fq [OF that] by auto
  show "messages S3 ?q p = messages S q p @ [s16 msg]"
    using m [OF p(1)] msgs [OF fN] by (simp add: messages_def)
  show "messages S3 ?q r = messages S q r" if "\<not> isbadport r" "r \<noteq> p"
    using m [OF that(1)] that(2) by (simp add: messages_def)
qed

section \<open>Taking a message\<close>

definition take_node :: "int \<Rightarrow> portst \<Rightarrow> portst" where
  "take_node p S =
     (let nxt = pthead (ports S p);
          S1 = (if pthead (ports S p) = pttail (ports S p)
                then upd_port p (pttail_update (\<lambda>_. NULLPTR) \<circ> pthead_update (\<lambda>_. NULLPTR)) S
                else upd_port p (pthead_update (\<lambda>_. ptnext S nxt)) S)
      in (set_ptnext nxt (ptfree S1) S1)\<lparr>ptfree := nxt\<rparr>)"

lemma preceive_rest_steps:
  assumes "ptstate (ports S p) = PTALLOC" "ptseq (ports S p) = seq"
  shows "preceive_rest p seq S =
    (let S2 = take_node p S
     in do { (_, S3) \<leftarrow> kcall_in S2 (signal (ptssem (ports S2 p)) (kern S2)); Some (PRet (ptmsg S (pthead (ports S p))), S3) })"
  using assms by (simp add: preceive_rest_def take_node_def Let_def)

lemma all_nodes_back:
  assumes "\<not> isbadport p" "q p = n # ns"
  shows "mset (all_nodes (q(p := ns)) (n # fr)) = mset (all_nodes q fr)"
proof -
  have "mset (all_nodes (q(p := ns)) (n # fr)) + mset (q p) = mset (all_nodes q (n # fr)) + mset ns"
    by (rule all_nodes_mset [OF assms(1)])
  then show ?thesis using assms(2) by (simp add: all_nodes_def)
qed

lemma take_node_ok:
  fixes S q fr p r n ns
  assumes ok: "ports_ok S q fr" and p: "\<not> isbadport p" "ptstate (ports S p) = PTALLOC" and ne: "q p = n # ns"
  defines "S2 \<equiv> take_node p S"
  shows "ports_ok S2 (q(p := ns)) (n # fr)" "messages S2 (q(p := ns)) p = tl (messages S q p)"
    "ptmsg S (pthead (ports S p)) = hd (messages S q p)"
    "\<not> isbadport r \<Longrightarrow> r \<noteq> p \<Longrightarrow> messages S2 (q(p := ns)) r = messages S q r"
proof -
  let ?N = "set (all_nodes q fr)" and ?q = "q(p := ns)"
  have D: "distinct (all_nodes q fr)" and A: "areas sizeof_ptnode ?N" and F: "wlist (ptnext S) (ptfree S) fr"
    and Q: "\<And>r. \<not> isbadport r \<Longrightarrow> port_list (ptnext S) (ports S r) (q r)"
    using ok by (simp_all add: ports_ok_def)
  note O = other_lists [OF D p(1)]
  have P: "pthead (ports S p) = n" "n \<noteq> NULLPTR" "wlist (ptnext S) (ptnext S n) ns" "pttail (ports S p) = last (n # ns)"
    using Q [OF p(1)] p(2) ne by (simp_all add: port_list_def)
  have inN: "set fr \<subseteq> ?N" "\<not> isbadport r \<Longrightarrow> set (q r) \<subseteq> ?N" for r
    using in_all_nodes by (blast, blast)
  have nN: "n \<in> ?N" and nsN: "set ns \<subseteq> ?N" using inN(2) [OF p(1)] ne by auto
  have nfr: "n \<notin> set fr" and nns: "n \<notin> set ns" using O ne by auto
  have nr: "n \<notin> set (q r)" if "\<not> isbadport r" "r \<noteq> p" for r using O(4) [OF that] ne by auto
  have uf: "u16 (ptfree S) = ptfree S"
  proof (cases "ptfree S = NULLPTR")
    case True
    then show ?thesis by (simp add: NULLPTR_def)
  next
    case False
    then have "ptfree S \<in> ?N" using wlist_hd [OF F False] inN(1) by (auto dest: hd_in_set)
    from areasD [OF A this] show ?thesis by (simp add: sizeof_ptnode_def)
  qed
  have same: "mset (all_nodes ?q (n # fr)) = mset (all_nodes q fr)" by (rule all_nodes_back) (simp_all add: p(1) ne)
  have setN: "set (all_nodes ?q (n # fr)) = ?N" using same by (metis set_mset_mset)
  have D': "distinct (all_nodes ?q (n # fr))" using same D by (metis mset_eq_imp_distinct_iff)
  note N = node_fields [OF A nN]
  have one: "n = last (n # ns) \<longleftrightarrow> ns = []" using nns by auto
  have nx: "\<forall>y\<in>?N. ptnext S2 y = ((ptnext S)(n := ptfree S)) y"
    using N uf P one by (auto simp: S2_def take_node_def Let_def)
  have msgs: "ptmsg S2 y = ptmsg S y" if "y \<in> ?N" for y
    using N(2) [OF that] P one by (auto simp: S2_def take_node_def Let_def)
  have prt: "ports S2 r = (if r = p then (if ns = [] then (ports S p)\<lparr>pttail := NULLPTR, pthead := NULLPTR\<rparr>
       else (ports S p)\<lparr>pthead := ptnext S n\<rparr>) else ports S r)" for r
    using P one by (auto simp: S2_def take_node_def Let_def)
  have free: "ptfree S2 = n" using P by (simp add: S2_def take_node_def Let_def)
  show "ports_ok S2 ?q (n # fr)"
    unfolding ports_ok_def setN
  proof (intro conjI allI impI D' A)
    have "wlist ((ptnext S)(n := ptfree S)) (ptfree S) fr" using F nfr by (simp add: wlist_upd)
    then have l: "wlist ((ptnext S)(n := ptfree S)) n (n # fr)" using P(2) by simp
    have "set (n # fr) \<subseteq> ?N" using inN(1) nN by simp
    from l show "wlist (ptnext S2) (ptfree S2) (n # fr)"
      unfolding free fields_cong(2) [OF nx \<open>set (n # fr) \<subseteq> ?N\<close>] .
  next
    fix r assume r: "\<not> isbadport r"
    show "port_list (ptnext S2) (ports S2 r) (?q r)"
    proof (cases "r = p")
      case True
      have "wlist ((ptnext S)(n := ptfree S)) (ptnext S n) ns" using P(3) nns by (simp add: wlist_upd)
      then have "wlist (ptnext S2) (ptnext S n) ns" unfolding fields_cong(2) [OF nx nsN] .
      then show ?thesis using True p(2) P(4) by (auto simp: port_list_def prt)
    next
      case False
      have "port_list ((ptnext S)(n := ptfree S)) (ports S r) (q r)"
        using Q [OF r] nr [OF r False] by (simp add: port_list_upd)
      then have "port_list (ptnext S2) (ports S r) (q r)" unfolding fields_cong(1) [OF nx inN(2) [OF r]] .
      then show ?thesis using False by (simp add: prt)
    qed
  qed
  have m: "map (ptmsg S2) xs = map (ptmsg S) xs" if "set xs \<subseteq> ?N" for xs using msgs that by auto
  show "messages S2 ?q p = tl (messages S q p)" using m [OF nsN] ne by (simp add: messages_def)
  show "ptmsg S (pthead (ports S p)) = hd (messages S q p)" using P(1) ne by (simp add: messages_def)
  show "messages S2 ?q r = messages S q r" if "\<not> isbadport r" "r \<noteq> p"
    using m [OF inN(2) [OF that(1)]] that(2) by (simp add: messages_def)
qed

section \<open>Clearing a port\<close>

lemma dispose_loop_wlist:
  assumes "wlist (ptnext S) a xs" "\<And>m T. mem (kern (dispose m T)) = mem (kern T)"
  shows "dispose_loop dispose a S = Some (fold dispose (map (ptmsg S) xs) S)"
  using assms(1)
proof (induction xs arbitrary: a S)
  case Nil
  then show ?case by (simp add: dispose_loop.simps)
next
  case (Cons x xs)
  let ?S = "dispose (ptmsg S x) S"
  have same: "word_at ?S = word_at S" using assms(2) [of "ptmsg S x" S] by (simp add: word_at_def fun_eq_iff)
  then have "wlist (ptnext ?S) (ptnext S x) xs" using Cons.prems by simp
  from Cons.IH [OF this] show ?case using Cons.prems same
    by (subst dispose_loop.simps) (simp add: Let_def)
qed

definition splice :: "int \<Rightarrow> portst \<Rightarrow> portst" where
  "splice p S = (if pthead (ports S p) = NULLPTR then S
     else (set_ptnext (pttail (ports S p)) (ptfree S) S)\<lparr>ptfree := pthead (ports S p)\<rparr>)"

lemma all_nodes_clear:
  assumes "\<not> isbadport p"
  shows "mset (all_nodes (q(p := [])) (q p @ fr)) = mset (all_nodes q fr)"
proof -
  have "mset (all_nodes (q(p := [])) (q p @ fr)) + mset (q p) = mset (all_nodes q (q p @ fr)) + mset []"
    by (rule all_nodes_mset [OF assms])
  then show ?thesis by (simp add: all_nodes_def union_commute)
qed

text \<open>The nodes of the port go to the front of the free list.\<close>

lemma splice_ok:
  fixes S q fr p r f
  assumes ok: "ports_ok S q fr" and p: "\<not> isbadport p" "ptstate (ports S p) = PTALLOC"
  defines "S2 \<equiv> splice p S"
  shows "port_list (\<lambda>_. 0) (f (ports S p)) [] \<Longrightarrow> ports_ok (upd_port p f S2) (q(p := [])) (q p @ fr)"
    "\<not> isbadport r \<Longrightarrow> r \<noteq> p \<Longrightarrow> messages S2 q r = messages S q r"
proof -
  let ?N = "set (all_nodes q fr)" and ?q = "q(p := [])"
  have D: "distinct (all_nodes q fr)" and A: "areas sizeof_ptnode ?N" and F: "wlist (ptnext S) (ptfree S) fr"
    and Q: "\<And>r. \<not> isbadport r \<Longrightarrow> port_list (ptnext S) (ports S r) (q r)"
    using ok by (simp_all add: ports_ok_def)
  note O = other_lists [OF D p(1)]
  have P: "wlist (ptnext S) (pthead (ports S p)) (q p)" "pttail (ports S p) = (if q p = [] then NULLPTR else last (q p))"
    using Q [OF p(1)] p(2) by (simp_all add: port_list_def)
  have inN: "set fr \<subseteq> ?N" "\<not> isbadport r \<Longrightarrow> set (q r) \<subseteq> ?N" for r
    using in_all_nodes by (blast, blast)
  have same: "mset (all_nodes ?q (q p @ fr)) = mset (all_nodes q fr)" by (rule all_nodes_clear [OF p(1)])
  have setN: "set (all_nodes ?q (q p @ fr)) = ?N" using same by (metis set_mset_mset)
  have D': "distinct (all_nodes ?q (q p @ fr))" using same D by (metis mset_eq_imp_distinct_iff)
  have uf: "u16 (ptfree S) = ptfree S"
  proof (cases "ptfree S = NULLPTR")
    case True
    then show ?thesis by (simp add: NULLPTR_def)
  next
    case False
    then have "ptfree S \<in> ?N" using wlist_hd [OF F False] inN(1) by (auto dest: hd_in_set)
    from areasD [OF A this] show ?thesis by (simp add: sizeof_ptnode_def)
  qed
  let ?nx = "if q p = [] then ptnext S else (ptnext S)(last (q p) := ptfree S)"
  have lastN: "q p \<noteq> [] \<Longrightarrow> last (q p) \<in> ?N" using inN(2) [OF p(1)] last_in_set [of "q p"] by blast
  have e: "pthead (ports S p) = NULLPTR \<longleftrightarrow> q p = []" using wlist_empty [OF P(1)] by simp
  have nx: "\<forall>y\<in>?N. ptnext S2 y = ?nx y"
    using node_fields(1) [OF A lastN] uf P(2) e by (cases "q p = []") (simp_all add: S2_def splice_def)
  have ms: "\<forall>y\<in>?N. ptmsg S2 y = ptmsg S y"
    using node_fields(2) [OF A lastN] P(2) e by (cases "q p = []") (simp_all add: S2_def splice_def)
  have prt: "ports S2 = ports S" by (simp add: S2_def splice_def)
  have free: "ptfree S2 = (if q p = [] then ptfree S else pthead (ports S p))"
    using e by (simp add: S2_def splice_def)
  have sub: "set (q p @ fr) \<subseteq> ?N" using inN p(1) by auto
  have lfr: "q p \<noteq> [] \<Longrightarrow> last (q p) \<notin> set fr" using O(1) last_in_set [of "q p"] by blast
  have "wlist ?nx (ptfree S2) (q p @ fr)"
  proof (cases "q p = []")
    case True
    then show ?thesis using F free by simp
  next
    case False
    have "wlist ((ptnext S)(last (q p) := ptfree S)) (pthead (ports S p)) (q p @ fr)"
      by (rule wlist_append [OF P(1) F False O(3) lfr [OF False]])
    then show ?thesis using False free by simp
  qed
  then have fl: "wlist (ptnext S2) (ptfree S2) (q p @ fr)" unfolding fields_cong(2) [OF nx sub] .
  have rest: "port_list (ptnext S2) (ports S r) (q r)" if r: "\<not> isbadport r" "r \<noteq> p" for r
  proof -
    have "q p \<noteq> [] \<Longrightarrow> last (q p) \<notin> set (q r)" using O(4) [OF r] last_in_set [of "q p"] by blast
    then have "port_list ?nx (ports S r) (q r)" using Q [OF r(1)] by (simp add: port_list_upd)
    then show ?thesis unfolding fields_cong(1) [OF nx inN(2) [OF r(1)]] .
  qed
  show "ports_ok (upd_port p f S2) ?q (q p @ fr)" if g: "port_list (\<lambda>_. 0) (f (ports S p)) []"
    unfolding ports_ok_def setN upd_port_simps word_at_upd
  proof (intro conjI allI impI D' A fl)
    fix r assume "\<not> isbadport r"
    then show "port_list (ptnext S2) (((ports S2)(p := f (ports S2 p))) r) (?q r)"
      using rest [of r] g by (cases "r = p") (simp_all add: prt port_list_def split: if_splits)
  qed
  show "messages S2 q r = messages S q r" if "\<not> isbadport r" "r \<noteq> p"
    using ms inN(2) [OF that(1)] by (auto simp: messages_def)
qed

end
