(* ===== verification/PortProps.thy ===== *)
theory PortProps
  imports PortLists Example
begin

text \<open>
  The properties of the ports and the buffer pools: a port is a bounded queue of messages, the
  nodes of the messages are neither lost nor shared, clearing a port hands every message over and
  returns its nodes, a buffer that is given back is the next one to be handed out.
\<close>

section \<open>Ports as queues\<close>

text \<open>The contents of the ports and the number of free nodes.\<close>

definition port_abs :: "portst \<Rightarrow> (int \<Rightarrow> int list) \<Rightarrow> nat \<Rightarrow> bool" where
  "port_abs S Q n \<longleftrightarrow> (\<exists>q fr. ports_ok S q fr \<and> length fr = n \<and> (\<forall>p. \<not> isbadport p \<longrightarrow> messages S q p = Q p))"

lemma port_absI:
  "ports_ok S q fr \<Longrightarrow> length fr = n \<Longrightarrow> (\<And>p. \<not> isbadport p \<Longrightarrow> messages S q p = Q p) \<Longrightarrow> port_abs S Q n"
  unfolding port_abs_def by blast

lemma port_abs_kern:
  assumes "port_abs S Q n" "mem k = mem (kern S)"
  shows "port_abs (S\<lparr>kern := k\<rparr>) Q n"
proof -
  obtain q fr where q: "ports_ok S q fr" "length fr = n" "\<And>p. \<not> isbadport p \<Longrightarrow> messages S q p = Q p"
    using assms(1) unfolding port_abs_def by blast
  have "ports_ok (S\<lparr>kern := k\<rparr>) q fr" "messages (S\<lparr>kern := k\<rparr>) q = messages S q"
    by (rule ports_ok_cong [OF q(1)]; simp add: assms(2))+
  then show ?thesis using q by (auto intro: port_absI)
qed


lemma kinv_mem [simp]: "kinv (s\<lparr>mem := m\<rparr>) = kinv s"
  by (simp add: kinv_def krun_def)







section \<open>Clearing a port\<close>

text \<open>What clearing relies on: \<open>dispose\<close> leaves the ports, their nodes and the kernel alone.\<close>

definition dispose_ok :: "(int \<Rightarrow> portst \<Rightarrow> portst) \<Rightarrow> bool" where
  "dispose_ok d \<longleftrightarrow> (\<forall>m T. ports (d m T) = ports T \<and> ptfree (d m T) = ptfree T \<and> kern (d m T) = kern T)"

lemma dispose_fold:
  "dispose_ok d \<Longrightarrow> ports (fold d ms S) = ports S \<and> ptfree (fold d ms S) = ptfree S \<and> kern (fold d ms S) = kern S"
  by (induction ms arbitrary: S) (simp_all add: dispose_ok_def)

definition limbo :: "pt \<Rightarrow> pt" where
  "limbo e = e\<lparr>ptstate := PTLIMBO, ptseq := s16 (ptseq e + 1)\<rparr>"

definition cleared :: "bool \<Rightarrow> pt \<Rightarrow> pt" where
  "cleared alloc e = (if alloc then (limbo e)\<lparr>pttail := NULLPTR, pthead := NULLPTR\<rparr> else limbo e)"

lemma cleared_simps [simp]:
  "ptstate (cleared alloc e) = PTLIMBO" "ptseq (cleared alloc e) = s16 (ptseq e + 1)"
  "ptmaxcnt (cleared alloc e) = ptmaxcnt e"
  by (simp_all add: cleared_def limbo_def)

lemma splice_upd:
  assumes "pthead (f (ports S p)) = pthead (ports S p)" "pttail (f (ports S p)) = pttail (ports S p)"
  shows "splice p (upd_port p f S) = upd_port p f (splice p S)"
  using assms by (simp add: splice_def upd_port_def set_ptnext_def put_word_def)

lemma upd_port_twice: "upd_port p g (upd_port p f S) = upd_port p (g \<circ> f) S"
  by (simp add: upd_port_def)

lemma ptclear_start:
  assumes "ports_ok S q fr" "\<not> isbadport p" "ptstate (ports S p) = PTALLOC" "dispose_ok d"
  obtains T where "T = fold d (messages S q p) (upd_port p limbo S)"
    "ptclear p alloc d S = ptclear_sems 2 p alloc (upd_port p (\<lambda>_. cleared alloc (ports S p)) (splice p (T\<lparr>ports := ports S\<rparr>)))"
proof -
  define S1 where "S1 = upd_port p limbo S"
  let ?T = "fold d (messages S q p) S1"
  note F = dispose_fold [OF assms(4), of "messages S q p" S1]
  have l: "wlist (ptnext S1) (pthead (ports S1 p)) (q p)" "pthead (ports S p) = pthead (ports S1 p)"
    "messages S q p = map (ptmsg S1) (q p)"
    using assms(1-3) by (simp_all add: S1_def ports_ok_def port_list_def limbo_def messages_def)
  have loop: "dispose_loop d (pthead (ports S1 p)) S1 = Some ?T"
    unfolding l(3) by (rule dispose_loop_wlist [OF l(1)]) (use assms(4) in \<open>simp add: dispose_ok_def\<close>)
  have e: "q p = [] \<Longrightarrow> ?T = S1" by (simp add: messages_def)
  have h: "pthead (ports S1 p) = NULLPTR \<longleftrightarrow> q p = []" using wlist_empty [OF l(1)] by simp
  have T: "?T = upd_port p limbo (?T\<lparr>ports := ports S\<rparr>)" using F by (simp add: upd_port_def S1_def)
  have sp: "splice p ?T = upd_port p limbo (splice p (?T\<lparr>ports := ports S\<rparr>))"
    by (subst T, rule splice_upd) (simp_all add: limbo_def)
  have st: "(if pthead (ports S1 p) \<noteq> NULLPTR then do {
              S2 \<leftarrow> dispose_loop d (pthead (ports S1 p)) S1;
              Some ((set_ptnext (pttail (ports S2 p)) (ptfree S2) S2)\<lparr>ptfree := pthead (ports S2 p)\<rparr>)
            } else Some S1) = Some (splice p ?T)"
    using loop e h F by (simp add: splice_def)
  have fin: "(if alloc then upd_port p (\<lambda>e. e\<lparr>pttail := NULLPTR, pthead := NULLPTR\<rparr>) (splice p ?T) else splice p ?T) =
      upd_port p (\<lambda>_. cleared alloc (ports S p)) (splice p (?T\<lparr>ports := ports S\<rparr>))"
    unfolding sp by (simp add: upd_port_def cleared_def splice_def)
  show thesis
    by (rule that [of ?T]) (simp_all add: S1_def [symmetric] ptclear_def Let_def st fin limbo_def [abs_def, symmetric] cong: if_cong)
qed

lemma splice_ports [simp]: "ports (splice p S) = ports S"
  by (simp add: splice_def)

lemma port_abs_clear:
  assumes "port_abs S Q n" "\<not> isbadport p" "ptstate (ports S p) = PTALLOC" "dispose_ok d"
  obtains S1 where "ptclear p alloc d S = ptclear_sems 2 p alloc S1" "port_abs S1 (Q(p := [])) (n + length (Q p))"
    "ports S1 p = cleared alloc (ports S p)" "\<And>r. r \<noteq> p \<Longrightarrow> ports S1 r = ports S r"
    "kern S1 = (kern S)\<lparr>mem := mem (kern S1)\<rparr>"
    "S1 = upd_port p (\<lambda>_. cleared alloc (ports S p)) (splice p ((fold d (Q p) (upd_port p limbo S))\<lparr>ports := ports S\<rparr>))"
proof -
  obtain q fr where q: "ports_ok S q fr" "length fr = n" "\<And>p. \<not> isbadport p \<Longrightarrow> messages S q p = Q p"
    using assms(1) unfolding port_abs_def by blast
  obtain T where T: "T = fold d (messages S q p) (upd_port p limbo S)" and
    e: "ptclear p alloc d S = ptclear_sems 2 p alloc (upd_port p (\<lambda>_. cleared alloc (ports S p)) (splice p (T\<lparr>ports := ports S\<rparr>)))"
    by (rule ptclear_start [OF q(1) assms(2-4)])
  let ?T = "T\<lparr>ports := ports S\<rparr>"
  note F = dispose_fold [OF assms(4), of "messages S q p" "upd_port p limbo S"]
  have ok: "ports_ok ?T q fr" "messages ?T q = messages S q"
    by (rule ports_ok_cong [OF q(1)]; use F T in simp)+
  have a: "ptstate (ports ?T p) = PTALLOC" using assms(3) by simp
  note P = splice_ok(1) [OF ok(1) assms(2) a, where f = "\<lambda>_. cleared alloc (ports S p)"]
    splice_ok(2) [OF ok(1) assms(2) a]
  have pl: "port_list (\<lambda>_. 0) (cleared alloc (ports S p)) []" by (simp add: port_list_def)
  have len: "length (q p) = length (Q p)" using q(3) [OF assms(2), symmetric] by (simp add: messages_def)
  let ?S1 = "upd_port p (\<lambda>_. cleared alloc (ports S p)) (splice p ?T)"
  have "messages ?S1 (q(p := [])) r = (Q(p := [])) r" if "\<not> isbadport r" for r
  proof (cases "r = p")
    case False
    then have "messages ?S1 (q(p := [])) r = messages (splice p ?T) q r" by (simp add: messages_def)
    also have "\<dots> = Q r" using P(2) [OF that False] ok(2) q(3) [OF that] by simp
    finally show ?thesis using False by simp
  qed (simp add: messages_def)
  then have abs: "port_abs ?S1 (Q(p := [])) (n + length (Q p))"
    by (rule port_absI [OF P(1) [OF pl], rotated]) (use q(2) len in simp_all)
  have k: "kern ?S1 = (kern S)\<lparr>mem := mem (kern ?S1)\<rparr>" using F T by (simp add: splice_def set_ptnext_def)
  show thesis
    by (rule that [OF e abs _ _ k]) (simp_all add: T q(3) [OF assms(2)])
qed

lemma port_abs_ports:
  assumes "port_abs S Q n" "Q p = []" "\<not> isbadport p" "port_list (\<lambda>_. 0) (f (ports S p)) []"
  shows "port_abs (upd_port p f S) Q n"
proof -
  obtain q fr where q: "ports_ok S q fr" "length fr = n" "\<And>p. \<not> isbadport p \<Longrightarrow> messages S q p = Q p"
    using assms(1) unfolding port_abs_def by blast
  have e: "q p = []" using q(3) [OF assms(3)] assms(2) by (simp add: messages_def)
  have "ports_ok (upd_port p f S) q fr"
    using q(1) e assms(4) unfolding ports_ok_def by (auto simp: port_list_def split: if_splits)
  then show ?thesis using q(2,3) by (auto intro!: port_absI simp: messages_def)
qed

lemma ptclear_sems_abs:
  assumes "port_abs S Q n" "kinv (kern S)" "Q p = []" "\<not> isbadport p" "ptstate (ports S p) = PTLIMBO"
    "alloc \<longrightarrow> pthead (ports S p) = NULLPTR \<and> pttail (ports S p) = NULLPTR" "ptmaxcnt (ports S p) \<le> MAXINT"
  shows "\<exists>k S'. ptclear_sems m p alloc S = Some (k, S') \<and> port_abs S' Q n \<and> kinv (kern S') \<and>
    ptseq (ports S' p) = ptseq (ports S p) \<and>
    (k = PRet OK \<and> ptstate (ports S' p) = (if alloc then PTALLOC else PTFREE) \<or>
     (\<exists>i < m. k = PClear p alloc i) \<and> ptstate (ports S' p) = PTLIMBO)"
  using assms
proof (induction m arbitrary: S)
  case 0
  have "port_abs (upd_port p (ptstate_update (\<lambda>_. if alloc then PTALLOC else PTFREE)) S) Q n"
    by (rule port_abs_ports [OF 0(1,3,4)]) (use 0(6) in \<open>simp add: port_list_def\<close>)
  then show ?case using 0 by simp
next
  case (Suc m)
  let ?call = "if m = 0 then (if alloc then sreset (ptrsem (ports S p)) 0 else sdelete (ptrsem (ports S p)))
        else (if alloc then sreset (ptssem (ports S p)) (ptmaxcnt (ports S p))
              else sdelete (ptssem (ports S p)))"
  obtain L where L: "kwf (kern S) L" "krun (kern S) L" using Suc.prems(2) unfolding kinv_def by blast
  have "\<exists>v k L'. ?call (kern S) = Some (v, k) \<and> kwf k L' \<and> krun k L' \<and> kown (kern S) k"
    using sreset_call.kinv_call [OF L] sdelete_call.kinv_call [OF L] Suc.prems(7) by (simp add: MAXINT_def)
  then obtain v k L' where c: "?call (kern S) = Some (v, k)" "kwf k L'" "krun k L'" "kown (kern S) k" by blast
  have step: "ptclear_sems (Suc m) p alloc S =
     (if lost S (S\<lparr>kern := k\<rparr>) then Some (PClear p alloc m, S\<lparr>kern := k\<rparr>) else ptclear_sems m p alloc (S\<lparr>kern := k\<rparr>))"
    using c(1) by (simp add: kcall_in_def split: if_splits)
  have abs: "port_abs (S\<lparr>kern := k\<rparr>) Q n" by (rule port_abs_kern [OF Suc.prems(1)]) (use c(4) in \<open>simp add: kown_def\<close>)
  have ki: "kinv k" using c unfolding kinv_def by blast
  show ?case
  proof (cases "lost S (S\<lparr>kern := k\<rparr>)")
    case True
    then show ?thesis unfolding step using abs ki Suc.prems(5) by auto
  next
    case False
    obtain k' S' where I: "ptclear_sems m p alloc (S\<lparr>kern := k\<rparr>) = Some (k', S')" "port_abs S' Q n" "kinv (kern S')"
      "ptseq (ports S' p) = ptseq (ports S p)"
      "k' = PRet OK \<and> ptstate (ports S' p) = (if alloc then PTALLOC else PTFREE) \<or>
       (\<exists>i < m. k' = PClear p alloc i) \<and> ptstate (ports S' p) = PTLIMBO"
      using Suc.IH [OF abs] ki Suc.prems by auto
    then show ?thesis unfolding step using False less_SucI by (metis (full_types))
  qed
qed

lemma ptclear_abs:
  assumes "port_abs S Q n" "kinv (kern S)" "\<not> isbadport p" "ptstate (ports S p) = PTALLOC" "dispose_ok d"
    "ptmaxcnt (ports S p) \<le> MAXINT" "int16 (ptseq (ports S p))"
  shows "\<exists>k S'. ptclear p alloc d S = Some (k, S') \<and> port_abs S' (Q(p := [])) (n + length (Q p)) \<and> kinv (kern S') \<and>
    (k = PRet OK \<and> ptstate (ports S' p) = (if alloc then PTALLOC else PTFREE) \<or> (\<exists>i < 2. k = PClear p alloc i)) \<and>
    ptseq (ports S' p) \<noteq> ptseq (ports S p)"
proof -
  obtain S1 where S1: "ptclear p alloc d S = ptclear_sems 2 p alloc S1" "port_abs S1 (Q(p := [])) (n + length (Q p))"
    "ports S1 p = cleared alloc (ports S p)" "kern S1 = (kern S)\<lparr>mem := mem (kern S1)\<rparr>"
    by (rule port_abs_clear [OF assms(1,3,4,5), of alloc])
  have k: "kinv (kern S1)" by (subst S1(4)) (simp add: assms(2))
  have sq: "s16 (ptseq (ports S p) + 1) \<noteq> ptseq (ports S p)"
    using assms(7) by (cases "ptseq (ports S p) = MAXINT") (simp_all add: s16_def MAXINT_def MININT_def)
  have hd: "alloc \<longrightarrow> pthead (ports S1 p) = NULLPTR \<and> pttail (ports S1 p) = NULLPTR"
    by (simp add: S1(3) cleared_def)
  have st: "ptstate (ports S1 p) = PTLIMBO" "ptmaxcnt (ports S1 p) \<le> MAXINT" by (simp_all add: S1(3) assms(6))
  from ptclear_sems_abs [OF S1(2) k _ assms(3) st(1) hd st(2), of 2] sq show ?thesis
    unfolding S1(1) by (auto simp: S1(3))
qed

section \<open>The properties of the ports\<close>


text \<open>Two nodes, at 100 and 104; the first is in port 0, which holds the message 7.\<close>

definition ex_ports :: portst where
  "ex_ports = \<lparr>kern = ex_state\<lparr>mem := set_word 106 0 (set_word 104 0 (set_word 102 0 (set_word 100 7 ex_mem)))\<rparr>,
     mval = (\<lambda>_. 0), marks = (\<lambda>_. 5), nmarks = 1, mkmutex = 1, ptmark = 5, bpmark = 5, ptfree = 104,
     ports = (\<lambda>p. \<lparr>ptstate = (if p = 0 then PTALLOC else PTFREE), ptssem = 0, ptrsem = 1, ptmaxcnt = 2, ptseq = 3,
       pthead = 100, pttail = 100\<rparr>), ptnextp = 4, bptab = (\<lambda>_. \<lparr>bpsize = 8, bpnext = 104, bpsem = 1\<rparr>), nbpools = 1\<rparr>"

lemma ex_words: "word_at ex_ports 100 = 7" "word_at ex_ports 102 = 0" "word_at ex_ports 104 = 0" "word_at ex_ports 106 = 0"
  by (simp_all add: ex_ports_def word_at_def get_word_def set_word_def set_ram_def u8_def)

lemma ex_port_fields: "ptseq (ports ex_ports 0) = 3" "ptmaxcnt (ports ex_ports 0) = 2"
  "semcnt (semaph (kern ex_ports) (ptrsem (ports ex_ports 0))) = 2"
  "semcnt (semaph (kern ex_ports) (ptssem (ports ex_ports 0))) = - 1"
  by (simp_all add: ex_ports_def ex_state_def ex_sems_def)

lemma ex_port: "ports ex_ports r = \<lparr>ptstate = (if r = 0 then PTALLOC else PTFREE), ptssem = 0, ptrsem = 1, ptmaxcnt = 2,
    ptseq = 3, pthead = 100, pttail = 100\<rparr>" "ptfree ex_ports = 104"
  by (simp_all add: ex_ports_def)

lemma ex_ports_ok: "ports_ok ex_ports ((\<lambda>_. [])(0 := [100])) [104]"
  by (simp add: ports_ok_def all_nodes_def ports_list areas_def sizeof_ptnode_def port_list_def ex_port ex_words NULLPTR_def)

lemma ex_port_abs: "port_abs ex_ports ((\<lambda>_. [])(0 := [7])) 1" "\<not> isbadport 0" "ptstate (ports ex_ports 0) = PTALLOC"
  "kinv (kern ex_ports)"
proof -
  show "port_abs ex_ports ((\<lambda>_. [])(0 := [7])) 1"
    by (rule port_absI [OF ex_ports_ok]) (simp_all add: messages_def ex_words s16_def)
  show "\<not> isbadport 0" "ptstate (ports ex_ports 0) = PTALLOC" by (simp_all add: isbadport_def NPORTS_def ex_port)
  show "kinv (kern ex_ports)" using ex_kinv by (simp add: ex_ports_def)
qed


text \<open>\<open>preset\<close> and \<open>pdelete\<close> empty a port: its nodes go back to the free ones, every other port
  keeps its messages, and even when the caller loses the processor to a process it has released
  the port is already empty. A process that was waiting in the port finds another sequence number
  and is refused.\<close>

theorem port_cleared:
  assumes "port_abs S Q n" "kinv (kern S)" "\<not> badport p S" "dispose_ok d"
    "ptmaxcnt (ports S p) \<le> MAXINT" "int16 (ptseq (ports S p))"
  shows "\<exists>k S'. (if reset then preset p d S else pdelete p d S) = Some (k, S') \<and>
      port_abs S' (Q(p := [])) (n + length (Q p)) \<and> kinv (kern S') \<and>
      (k = PRet OK \<and> ptstate (ports S' p) = (if reset then PTALLOC else PTFREE) \<or> (\<exists>i<2. k = PClear p reset i)) \<and>
      psend_rest p (ptseq (ports S p)) msg S' = Some (PRet SYSERR, S') \<and>
      preceive_rest p (ptseq (ports S p)) S' = Some (PRet SYSERR, S')"
proof -
  have p: "\<not> isbadport p" "ptstate (ports S p) = PTALLOC" using assms(3) by (simp_all add: badport_def)
  have "(if reset then preset p d S else pdelete p d S) = ptclear p reset d S"
    using assms(3) by (cases reset) (simp_all add: preset_def pdelete_def)
  then show ?thesis
    using ptclear_abs [OF assms(1,2) p assms(4-6), of reset] by (fastforce simp: psend_rest_def preceive_rest_def)
qed

theorem port_cleared_witness:
  "\<exists>k S'. preset 0 (\<lambda>_ T. T) ex_ports = Some (k, S') \<and> port_abs S' (\<lambda>_. []) 2 \<and> psend_rest 0 3 9 S' = Some (PRet SYSERR, S')"
proof -
  have "\<not> badport 0 ex_ports" using ex_port_abs by (simp add: badport_def unmarked_def ex_ports_def)
  moreover have "((\<lambda>_. [])(0 := [7 :: int]))(0 := []) = (\<lambda>_ :: int. [])" by auto
  moreover have "dispose_ok (\<lambda>_ T. T)" by (simp add: dispose_ok_def)
  moreover have "ptmaxcnt (ports ex_ports 0) \<le> MAXINT" "int16 (ptseq (ports ex_ports 0))" "(2::nat) = 1 + length [7::int]"
    by (simp_all add: ex_port_fields MAXINT_def MININT_def)
  ultimately show ?thesis
    using port_cleared [OF ex_port_abs(1,4), of 0 "\<lambda>_ T. T" True 9] by (auto simp: ex_port_fields numeral_2_eq_2)
qed

section \<open>Buffer pools\<close>

text \<open>The free buffers of a pool, each with the word before it that links it or names its pool.\<close>

definition pool_ok :: "portst \<Rightarrow> int \<Rightarrow> int list \<Rightarrow> bool" where
  "pool_ok S j bs \<longleftrightarrow> distinct bs \<and> areas (bpsize (bptab S j) + sizeof_int) (set bs) \<and>
     2 \<le> bpsize (bptab S j) \<and> wlist (word_at S) (bpnext (bptab S j)) bs"

lemma area_words:
  assumes "areas sz N" "4 \<le> sz" "x \<in> N" "y \<in> N"
  shows "word_at (put_word x v S) y = (if y = x then u16 v else word_at S y)"
proof -
  have b: "0 < x" "x + sz \<le> 65536" "0 < y" "y + sz \<le> 65536" "x \<noteq> y \<Longrightarrow> x + sz \<le> y \<or> y + sz \<le> x"
    using areasD [OF assms(1)] areas_apart [OF assms(1,3,4)] assms(3,4) by auto
  show ?thesis
  proof (cases "y = x")
    case True
    then show ?thesis using b assms(2) by (simp add: word_at_put)
  next
    case False
    then show ?thesis using b assms(2) by (subst word_at_put_other) auto
  qed
qed

text \<open>The chain that \<open>mkpool\<close> writes.\<close>

lemma link_bufs_wlist:
  assumes "4 \<le> sz" "0 < a" "a + sz * int (Suc n) \<le> 65536"
  shows "wlist (word_at (link_bufs n sz a S)) a (map (\<lambda>i. a + sz * int i) [0..<Suc n]) \<and>
    (\<forall>y. 0 < y \<and> y + 2 \<le> a \<longrightarrow> word_at (link_bufs n sz a S) y = word_at S y)"
  using assms(2,3)
proof (induction n arbitrary: a S)
  case 0
  have o: "word_at (put_word a NULLPTR S) y = word_at S y" if "0 < y" "y + 2 \<le> a" for y
    by (rule word_at_put_other) (use that 0 assms(1) in auto)
  show ?case using 0 assms(1) o by (simp add: word_at_put NULLPTR_def)
next
  case (Suc n)
  have r: "a + sz + sz * int (Suc n) \<le> 65536" using Suc.prems by (simp add: algebra_simps)
  have "0 \<le> sz * int (Suc n)" "0 \<le> sz * int n" using assms(1) by simp_all
  moreover have "sz * int (Suc n) = sz * int n + sz" by (simp add: algebra_simps)
  ultimately have lim: "a + sz < 65536" using r Suc.prems assms(1) by linarith
  then have u: "u16 (a + sz) = a + sz" using Suc.prems assms(1) by simp
  let ?S = "put_word a (a + sz) S"
  have pos: "0 < a + sz" using Suc.prems assms(1) by simp
  note I = Suc.IH [OF pos r, of ?S]
  have o: "word_at ?S y = word_at S y" if "0 < y" "y + 2 \<le> a" for y
    by (rule word_at_put_other) (use that lim assms(1) in auto)
  have w: "word_at (link_bufs n sz (a + sz) ?S) a = a + sz"
  proof -
    have "word_at (link_bufs n sz (a + sz) ?S) a = word_at ?S a" using I Suc.prems assms(1) by auto
    also have "\<dots> = a + sz" using u Suc.prems lim assms(1) by (simp add: word_at_put)
    finally show ?thesis .
  qed
  have m: "map (\<lambda>i. a + sz * int i) [0..<Suc (Suc n)] = a # map (\<lambda>i. a + sz + sz * int i) [0..<Suc n]"
    by (subst upt_conv_Cons; simp add: map_Suc_upt [symmetric] algebra_simps del: upt_Suc map_Suc_upt)
  show ?case unfolding link_bufs.simps u m using I w o Suc.prems assms(1) by (auto simp: NULLPTR_def simp del: upt_Suc)
qed

text \<open>A buffer that \<open>getbuf\<close> hands out is the first of the free ones, it carries the number of
  its pool in the word before it, and \<open>freebuf\<close> finds the pool there and puts the buffer back in
  front: the pool is as before and no other word of a buffer has changed.\<close>

theorem getbuf_freebuf:
  assumes "pool_ok S j (b # bs)" "0 \<le> j" "j < nbpools S" "nbpools S \<le> NBPOOLS" "\<not> unmarked (bpmark S) S"
    "kinv (kern S)" "semcnt (semaph (kern S) (bpsem (bptab S j))) < MAXINT"
  shows "fst (getbuf_rest j S) = b + 2 \<and> pool_ok (snd (getbuf_rest j S)) j bs \<and>
    (\<exists>S'. freebuf (b + 2) (snd (getbuf_rest j S)) = Some (OK, S') \<and> pool_ok S' j (b # bs) \<and> kinv (kern S') \<and>
       (\<forall>y. 0 < y \<and> y < 65535 \<and> (y + 1 < b \<or> b + 1 < y) \<longrightarrow> word_at S' y = word_at S y))"
proof -
  let ?sz = "bpsize (bptab S j) + sizeof_int"
  have P: "distinct (b # bs)" "areas ?sz (set (b # bs))" "4 \<le> ?sz" "b \<noteq> NULLPTR"
    "bpnext (bptab S j) = b" "wlist (word_at S) (word_at S b) bs"
    using assms(1) by (simp_all add: pool_ok_def sizeof_int_def)
  have b: "0 < b" "b + 4 \<le> 65536" using areasD [OF P(2), of b] P(3) by auto
  let ?S1 = "snd (getbuf_rest j S)"
  have S1: "?S1 = put_word b (u16 j) (upd_pool j (bpnext_update (\<lambda>_. word_at S b)) S)" "fst (getbuf_rest j S) = b + 2"
    using b by (simp_all add: getbuf_rest_def Let_def P(5) sizeof_int_def)
  have pl: "bptab ?S1 j = (bptab S j)\<lparr>bpnext := word_at S b\<rparr>" by (simp add: S1 upd_pool_def)
  have sub: "areas ?sz (set bs)" using P(2) unfolding areas_def by simp
  have w1: "word_at ?S1 y = word_at S y" if "y \<in> set bs" for y
    using area_words [OF P(2,3), of b y] that P(1) by (auto simp: S1)
  have ok1: "pool_ok ?S1 j bs"
    using P sub assms(1) wlist_cong [of bs "word_at ?S1" "word_at S"] w1 by (auto simp: pool_ok_def pl)
  have jw: "word_at ?S1 b = j"
    using b assms(2-4) by (simp add: S1 word_at_put NBPOOLS_def)
  let ?S2 = "upd_pool j (bpnext_update (\<lambda>_. b)) (put_word b (word_at S b) ?S1)"
  have um: "\<not> unmarked (bpmark ?S1) ?S1" "nbpools ?S1 = nbpools S"
    using assms(5) by (simp_all add: S1 unmarked_def upd_pool_def)
  have ub: "u16 (b + 2 - sizeof_int) = b" "s16 j = j" using b assms(2-4) by (simp_all add: sizeof_int_def NBPOOLS_def MININT_def MAXINT_def)
  have fb: "freebuf (b + 2) ?S1 = do { (_, S3) \<leftarrow> kcall_in ?S2 (signal (bpsem (bptab ?S2 j)) (kern ?S2)); Some (OK, S3) }"
    using assms(2,3) um by (simp add: freebuf_def Let_def ub jw pl)
  have k: "kinv (kern ?S2)" using assms(6) by (simp add: S1 upd_pool_def)
  have c: "semcnt (semaph (kern ?S2) (bpsem (bptab ?S2 j))) < MAXINT" using assms(7) by (simp add: S1 upd_pool_def)
  obtain L where L: "kwf (kern ?S2) L" "krun (kern ?S2) L" using k unfolding kinv_def by blast
  obtain v s L' where g: "signal (bpsem (bptab ?S2 j)) (kern ?S2) = Some (v, s)" "kwf s L'" "krun s L'" "kown (kern ?S2) s"
    using signal_call.kinv_call [OF L c] by blast
  let ?S' = "?S2\<lparr>kern := s\<rparr>"
  have mem: "word_at ?S' = word_at (put_word b (word_at S b) ?S1)"
    using g(4) by (simp add: word_at_def kown_def upd_pool_def fun_eq_iff)
  have u: "u16 (word_at S b) = word_at S b"
  proof (cases bs)
    case Nil
    then show ?thesis using P(6) by (simp add: NULLPTR_def)
  next
    case (Cons x xs)
    then have "word_at S b = x" "x \<in> set (b # bs)" using P(6) by auto
    then show ?thesis using areasD [OF P(2), of x] P(3) by simp
  qed
  have w2: "word_at ?S' y = word_at S y" if "y \<in> set (b # bs)" for y
    using area_words [OF P(2,3) _ that, of b "word_at S b" ?S1] w1 that u unfolding mem by auto
  have "wlist (word_at S) b (b # bs)" using P(4,6) by simp
  then have "wlist (word_at ?S') b (b # bs)"
    using wlist_cong [of "b # bs" "word_at ?S'" "word_at S" b, OF w2] by blast
  moreover have "bptab ?S' j = (bptab S j)\<lparr>bpnext := b\<rparr>" by (simp add: upd_pool_def S1)
  ultimately have "pool_ok ?S' j (b # bs)" using assms(1) by (simp add: pool_ok_def del: wlist.simps)
  moreover have "word_at ?S' y = word_at S y" if "0 < y" "y < 65535" "y + 1 < b \<or> b + 1 < y" for y
  proof -
    have "b + 1 < y \<or> y + 1 < b" using that by blast
    then show ?thesis unfolding mem unfolding S1(1) using that(1,2) b by (simp add: word_at_put_other)
  qed
  moreover have "kinv s" using g unfolding kinv_def by blast
  ultimately have "freebuf (b + 2) ?S1 = Some (OK, ?S') \<and> pool_ok ?S' j (b # bs) \<and> kinv (kern ?S') \<and>
       (\<forall>y. 0 < y \<and> y < 65535 \<and> (y + 1 < b \<or> b + 1 < y) \<longrightarrow> word_at ?S' y = word_at S y)"
    unfolding fb by (simp add: g(1) kcall_in_def)
  then show ?thesis using S1(2) ok1 by blast
qed

text \<open>Pool 0 of \<open>ex_ports\<close> with three buffers of 8 bytes, as \<open>mkpool\<close> links them.\<close>

definition ex_pool :: portst where
  "ex_pool = link_bufs 2 10 104 ex_ports"

theorem getbuf_freebuf_witness:
  "fst (getbuf_rest 0 ex_pool) = 106 \<and> (\<exists>S'. freebuf 106 (snd (getbuf_rest 0 ex_pool)) = Some (OK, S') \<and> pool_ok S' 0 [104, 114, 124])"
proof -
  have "wlist (word_at ex_pool) 104 (map (\<lambda>i. 104 + 10 * int i) [0..<Suc 2])"
    using link_bufs_wlist [of 10 104 2 ex_ports] by (simp add: ex_pool_def del: upt_Suc)
  moreover have "map (\<lambda>i. 104 + 10 * int i) [0..<Suc 2] = [104, 114, 124]" by (simp add: upt_conv_Cons numeral_2_eq_2)
  ultimately have l: "wlist (word_at ex_pool) 104 [104, 114, 124]" by simp
  have f: "bptab ex_pool 0 = \<lparr>bpsize = 8, bpnext = 104, bpsem = 1\<rparr>" "nbpools ex_pool = 1" "bpmark ex_pool = 5"
    "mval ex_pool 5 = 0" "nmarks ex_pool = 1" "marks ex_pool 0 = 5"
    by (simp_all add: ex_pool_def ex_ports_def numeral_2_eq_2)
  have k: "kern ex_pool = ex_state\<lparr>mem := mem (kern ex_pool)\<rparr>"
    by (simp add: ex_pool_def ex_ports_def numeral_2_eq_2)
  have "pool_ok ex_pool 0 [104, 114, 124]" using l by (simp add: pool_ok_def f areas_def sizeof_int_def)
  moreover have "\<not> unmarked (bpmark ex_pool) ex_pool" by (simp add: unmarked_def f)
  moreover have "kinv (kern ex_pool)" using ex_kinv by (subst k) simp
  moreover have "semcnt (semaph (kern ex_pool) (bpsem (bptab ex_pool 0))) < MAXINT"
    by (subst k) (simp add: f ex_state_def ex_sems_def MAXINT_def)
  ultimately show ?thesis
    using getbuf_freebuf [of ex_pool 0 104 "[114, 124]"] by (simp add: f NBPOOLS_def) blast
qed

end
