(* ===== verification/Tty.thy ===== *)
theory Tty
  imports Msg "HOL-Library.Word"
begin

text \<open>
  The terminal driver (\<open>src/sys/tty\<close>): the input interrupt with its line editor (\<open>ttyiin.c\<close>), the
  output interrupt (\<open>ttyoin.c\<close>), the calls of the device switch (\<open>ttyread.c\<close>, \<open>ttywrite.c\<close>,
  \<open>ttygetc.c\<close>, \<open>ttyputc.c\<close>, \<open>ttycntl.c\<close>, \<open>ttyopen.c\<close>, \<open>ttyinit.c\<close>) on the control block of
  \<open>tty.h\<close>. Characters are \<open>char\<close>, which is signed on the AVR. What the USART receives is an
  argument of the interrupt; what is written into its data register is recorded. A call that
  loses the processor in a semaphore stops with a \<open>tkont\<close>, from which \<open>tcontinue\<close> takes it up.
\<close>

unbundle bit_operations_syntax

section \<open>State\<close>

definition s8 :: "int \<Rightarrow> int" where
  "s8 x = (x + 128) mod 256 - 128"

definition IBUFLEN :: int where "IBUFLEN = 512"
definition OBUFLEN :: int where "OBUFLEN = 512"
definition EBUFLEN :: int where "EBUFLEN = 50"
definition OBMINSP :: int where "OBMINSP = 40"
definition IOCHERR :: int where "IOCHERR = 128"
definition Ntty :: int where "Ntty = 2"
definition CONSOLE :: int where "CONSOLE = 0"

definition BACKSP :: int where "BACKSP = 8"
definition BELL :: int where "BELL = 7"
definition BLANK :: int where "BLANK = 32"
definition EOFC :: int where "EOFC = 4"
definition KILLCH :: int where "KILLCH = 21"
definition NEWLINE :: int where "NEWLINE = 10"
definition RETURN :: int where "RETURN = 13"
definition STOPCH :: int where "STOPCH = 19"
definition STRTCH :: int where "STRTCH = 17"
definition INTRCH :: int where "INTRCH = 2"
definition DELCH :: int where "DELCH = 127"
definition UPARROW :: int where "UPARROW = 94"

datatype imode = IMRAW | IMCOOKED | IMCBREAK

record tty =
  ihead :: int
  itail :: int
  ibuff :: "int \<Rightarrow> int"
  isem :: int
  icnt :: int
  ohead :: int
  otail :: int
  obuff :: "int \<Rightarrow> int"
  osem :: int
  ocnt :: int
  odsend :: int
  ehead :: int
  etail :: int
  ebuff :: "int \<Rightarrow> int"
  imode :: imode
  iecho :: bool
  ieback :: bool
  evis :: bool
  ecrlf :: bool
  icrlf :: bool
  ierase :: bool
  ierasec :: int
  ikill :: bool
  ikillc :: int
  iintr :: bool
  iintrc :: int
  iintpid :: int
  ieof :: bool
  ieofc :: int
  icursor :: int
  oflow :: bool
  oheld :: bool
  ostop :: int
  ostart :: int
  ocrlf :: bool
  ifullc :: int
  unit :: int

text \<open>\<open>udrie\<close> is the bit UDRIE0 of UCSRB of a USART (its output interrupt is on), \<open>sent\<close> what has
  been written into its data register.\<close>

record ttyst =
  kern :: kstate
  tty :: "int \<Rightarrow> tty"
  udrie :: "int \<Rightarrow> bool"
  sent :: "int \<Rightarrow> int list"

datatype tkont =
    TRet int "int list"
  | TEcho int int
  | TGetc int
  | TNextc int
  | TRead int nat int int "int list"
  | TOstart int "int list"
  | TWrite int "int list" "int list"

definition upd_tty :: "int \<Rightarrow> (tty \<Rightarrow> tty) \<Rightarrow> ttyst \<Rightarrow> ttyst" where
  "upd_tty n f T = T\<lparr>tty := (tty T)(n := f (tty T n))\<rparr>"

definition set_udrie :: "int \<Rightarrow> bool \<Rightarrow> ttyst \<Rightarrow> ttyst" where
  "set_udrie u b T = T\<lparr>udrie := (udrie T)(u := b)\<rparr>"

definition ttyostart :: "int \<Rightarrow> ttyst \<Rightarrow> ttyst" where
  "ttyostart n T = set_udrie (unit (tty T n)) True T"

definition set_udr :: "int \<Rightarrow> int \<Rightarrow> ttyst \<Rightarrow> ttyst" where
  "set_udr u c T = T\<lparr>sent := (sent T)(u := sent T u @ [u8 c])\<rparr>"

definition kcall_in :: "ttyst \<Rightarrow> (int \<times> kstate) option \<Rightarrow> ttyst option" where
  "kcall_in T r = map_option (\<lambda>(v, k). T\<lparr>kern := k\<rparr>) r"

definition lost :: "ttyst \<Rightarrow> ttyst \<Rightarrow> bool" where
  "lost T T' \<longleftrightarrow> currpid (kern T') \<noteq> currpid (kern T)"

definition wrap :: "int \<Rightarrow> int \<Rightarrow> int" where
  "wrap len i = (if i \<ge> len then 0 else i)"

section \<open>Input interrupt\<close>

definition eputc :: "int \<Rightarrow> int \<Rightarrow> ttyst \<Rightarrow> ttyst" where
  "eputc n ch T = ttyostart n (upd_tty n (\<lambda>t. t\<lparr>ebuff := (ebuff t)(ehead t := s8 ch),
     ehead := wrap EBUFLEN (ehead t + 1)\<rparr>) T)"

definition echoch :: "int \<Rightarrow> int \<Rightarrow> ttyst \<Rightarrow> ttyst" where
  "echoch n c T =
     (let ch = s8 c; t = tty T n
      in if ch = NEWLINE \<or> ch = RETURN
         then (if ecrlf t then eputc n NEWLINE (eputc n RETURN T) else T)
         else if (ch < BLANK \<or> ch = DELCH) \<and> evis t
         then eputc n (ch + 64) (eputc n UPARROW T)
         else eputc n ch T)"

definition rubout :: "int \<Rightarrow> ttyst \<Rightarrow> ttyst" where
  "rubout n T =
     (let T1 = eputc n BACKSP T
      in if ieback (tty T1 n) then eputc n BACKSP (eputc n BLANK T1) else T1)"

definition erase1 :: "int \<Rightarrow> ttyst \<Rightarrow> ttyst" where
  "erase1 n T =
     (let T1 = upd_tty n (\<lambda>t. t\<lparr>ihead := (if ihead t - 1 < 0 then ihead t - 1 + IBUFLEN else ihead t - 1)\<rparr>) T;
          t = tty T1 n; ch = ibuff t (ihead t)
      in if iecho t
         then (if ch < BLANK \<or> ch = DELCH
               then rubout n (if evis t then rubout n T1 else T1)
               else rubout n T1)
         else ttyostart n T1)"

definition put_in :: "int \<Rightarrow> int \<Rightarrow> ttyst \<Rightarrow> ttyst" where
  "put_in n c T = upd_tty n (\<lambda>t. t\<lparr>ibuff := (ibuff t)(ihead t := s8 c), ihead := wrap IBUFLEN (ihead t + 1)\<rparr>) T"

definition add_icnt :: "int \<Rightarrow> int \<Rightarrow> ttyst \<Rightarrow> ttyst" where
  "add_icnt n d T = upd_tty n (\<lambda>t. t\<lparr>icnt := icnt t + d\<rparr>) T"

definition signal_in :: "int \<Rightarrow> ttyst \<Rightarrow> ttyst option" where
  "signal_in n T = kcall_in T (signal (isem (tty T n)) (kern T))"

definition iin_raw :: "int \<Rightarrow> int \<Rightarrow> ttyst \<Rightarrow> ttyst option" where
  "iin_raw n c T = (if icnt (tty T n) \<ge> IBUFLEN then Some T else signal_in n (add_icnt n 1 (put_in n c T)))"

definition iin_cbreak :: "int \<Rightarrow> int \<Rightarrow> int \<Rightarrow> ttyst \<Rightarrow> ttyst option" where
  "iin_cbreak n ch cerr T =
     (if icnt (tty T n) \<ge> IBUFLEN then Some (eputc n (ifullc (tty T n)) T)
      else
        (let T1 = put_in n (ch OR cerr) T;
             T2 = (if iecho (tty T1 n) then echoch n ch T1 else T1)
         in if icnt (tty T2 n) < IBUFLEN then signal_in n (add_icnt n 1 T2) else Some T2))"

definition iin_line :: "int \<Rightarrow> int \<Rightarrow> int \<Rightarrow> ttyst \<Rightarrow> ttyst option" where
  "iin_line n ch cerr T =
     (let T1 = (if iecho (tty T n)
                then (let T0 = echoch n ch T in if ch = ieofc (tty T0 n) then echoch n NEWLINE T0 else T0)
                else T);
          T2 = put_in n (ch OR cerr) T1;
          ct = icursor (tty T2 n) + 1;
          T3 = upd_tty n (\<lambda>t. t\<lparr>icursor := 0, icnt := icnt t + ct\<rparr>) T2
      in kcall_in T3 (signaln (isem (tty T3 n)) ct (kern T3)))"

definition iin_cooked :: "int \<Rightarrow> int \<Rightarrow> int \<Rightarrow> ttyst \<Rightarrow> ttyst option" where
  "iin_cooked n ch cerr T =
     (let t = tty T n
      in if ch = ikillc t \<and> ikill t
         then Some (eputc n NEWLINE (eputc n RETURN (upd_tty n (\<lambda>t. t\<lparr>
                ihead := (if ihead t - icursor t < 0 then ihead t - icursor t + IBUFLEN else ihead t - icursor t),
                icursor := 0\<rparr>) T)))
         else if ch = ierasec t \<and> ierase t
         then Some (if icursor t > 0 then erase1 n (upd_tty n (\<lambda>t. t\<lparr>icursor := icursor t - 1\<rparr>) T) else T)
         else if ch = NEWLINE \<or> ch = RETURN \<or> (ieof t \<and> ch = ieofc t) then iin_line n ch cerr T
         else
           (let ct = (if icnt t < 0 then 0 else icnt t)
            in if ct + icursor t \<ge> IBUFLEN - 1 then Some (eputc n (ifullc t) T)
               else
                 (let T1 = (if iecho t then echoch n ch T else T);
                      T2 = upd_tty n (\<lambda>t. t\<lparr>icursor := icursor t + 1\<rparr>) T1
                  in Some (put_in n (ch OR cerr) T2))))"

text \<open>\<open>status\<close> and \<open>c\<close> are what the registers UCSRA and UDR of the USART hold.\<close>

definition ttyiin :: "int \<Rightarrow> int \<Rightarrow> int \<Rightarrow> ttyst \<Rightarrow> (tkont \<times> ttyst) option" where
  "ttyiin n status c T =
     (let cerr = (if status AND 28 \<noteq> 0 then IOCHERR else 0); t = tty T n; fin = map_option (\<lambda>T. (TRet 0 [], T))
      in if imode t = IMRAW then fin (iin_raw n (c OR cerr) T)
         else
           (let ch = (if c = RETURN \<and> icrlf t then NEWLINE else c)
            in if iintr t \<and> ch = iintrc t
               then do {
                 T1 \<leftarrow> kcall_in T (send (iintpid t) INTRMSG (kern T));
                 if lost T T1 then Some (TEcho n ch, T1) else Some (TRet 0 [], eputc n ch T1)
               }
               else if oflow t \<and> ch = ostart t
               then Some (TRet 0 [], set_udrie (unit t) True (upd_tty n (oheld_update (\<lambda>_. False)) T))
               else if oflow t \<and> ch = ostop t
               then Some (TRet 0 [], upd_tty n (oheld_update (\<lambda>_. True)) T)
               else
                 (let T1 = (if oflow t then T else upd_tty n (oheld_update (\<lambda>_. False)) T)
                  in fin (if imode t = IMCBREAK then iin_cbreak n ch cerr T1 else iin_cooked n ch cerr T1))))"

section \<open>Output interrupt\<close>

definition ttyoin :: "int \<Rightarrow> ttyst \<Rightarrow> ttyst option" where
  "ttyoin n T =
     (let t = tty T n
      in if ehead t \<noteq> etail t
         then Some (upd_tty n (\<lambda>t. t\<lparr>etail := wrap EBUFLEN (etail t + 1)\<rparr>) (set_udr (unit t) (ebuff t (etail t)) T))
         else if oheld t then Some (set_udrie (unit t) False T)
         else if ocnt t > 0
         then
           (let T1 = upd_tty n (\<lambda>t. t\<lparr>otail := wrap OBUFLEN (otail t + 1), ocnt := ocnt t - 1\<rparr>)
                      (set_udr (unit t) (obuff t (otail t)) T)
            in if ocnt t > OBMINSP then kcall_in T1 (signal (osem t) (kern T1))
               else if odsend t + 1 = OBMINSP
               then (let T2 = upd_tty n (\<lambda>t. t\<lparr>odsend := 0\<rparr>) T1 in kcall_in T2 (signaln (osem t) OBMINSP (kern T2)))
               else Some (upd_tty n (\<lambda>t. t\<lparr>odsend := odsend t + 1\<rparr>) T1))
         else Some (set_udrie (unit t) False T))"

section \<open>Reading\<close>

definition take_in :: "int \<Rightarrow> ttyst \<Rightarrow> ttyst" where
  "take_in n T = upd_tty n (\<lambda>t. t\<lparr>itail := wrap IBUFLEN (itail t + 1), icnt := icnt t - 1\<rparr>) T"

definition head_in :: "int \<Rightarrow> ttyst \<Rightarrow> int" where
  "head_in n T = ibuff (tty T n) (itail (tty T n))"

definition is_eof :: "int \<Rightarrow> int \<Rightarrow> ttyst \<Rightarrow> bool" where
  "is_eof n ch T \<longleftrightarrow> ieofc (tty T n) = ch \<and> ieof (tty T n)"

definition getc_rest :: "int \<Rightarrow> ttyst \<Rightarrow> int \<times> ttyst" where
  "getc_rest n T =
     (let ch = u8 (head_in n T); T1 = take_in n T
      in (if is_eof n ch T1 then EOF else ch, T1))"

definition ttygetc :: "int \<Rightarrow> ttyst \<Rightarrow> (tkont \<times> ttyst) option" where
  "ttygetc n T = do {
     T1 \<leftarrow> kcall_in T (wait (isem (tty T n)) (kern T));
     if lost T T1 then Some (TGetc n, T1)
     else (let (v, T2) = getc_rest n T1 in Some (TRet v [], T2))
   }"

text \<open>The characters that are there: \<open>Inl\<close> when the call returns, \<open>Inr\<close> when the loop has come
  to its end.\<close>

fun read_now :: "nat \<Rightarrow> int \<Rightarrow> int \<Rightarrow> int \<Rightarrow> int list \<Rightarrow> ttyst \<Rightarrow> ((tkont \<times> ttyst) + (int \<times> int list \<times> ttyst)) option" where
  "read_now 0 n avail nread acc T = Some (Inr (nread, acc, T))"
| "read_now (Suc k) n avail nread acc T =
     (let ch = head_in n T
      in if is_eof n ch T
         then do { T1 \<leftarrow> kcall_in T (sreset (isem (tty T n)) (avail - nread) (kern T)); Some (Inl (TRet nread acc, T1)) }
         else
           (let acc = acc @ [u8 ch]; T1 = take_in n T; nread = nread + 1
            in if ch = NEWLINE \<or> ch = RETURN
               then (let T2 = upd_tty n (\<lambda>t. t\<lparr>icnt := avail - nread\<rparr>) T1
                     in do { T3 \<leftarrow> kcall_in T2 (sreset (isem (tty T2 n)) (avail - nread) (kern T2));
                             Some (Inl (TRet nread acc, T3)) })
               else read_now k n avail nread acc T1))"

definition read_first :: "nat \<Rightarrow> int \<Rightarrow> int \<Rightarrow> ttyst \<Rightarrow> ((tkont \<times> ttyst) + (int \<times> int list \<times> ttyst)) option" where
  "read_first donow n avail T =
     (let ch = head_in n T; T1 = take_in n T
      in if is_eof n ch T1
         then do { T2 \<leftarrow> kcall_in T1 (sreset (isem (tty T1 n)) (avail - 1) (kern T1)); Some (Inl (TRet EOF [], T2)) }
         else read_now (donow - 1) n avail 1 [u8 ch] T1)"

text \<open>A character that was waited for.\<close>

definition read_char :: "int \<Rightarrow> int \<Rightarrow> int \<Rightarrow> int list \<Rightarrow> ttyst \<Rightarrow> ((tkont \<times> ttyst) + (int list \<times> ttyst)) option" where
  "read_char n donow nread acc T =
     (let ch = head_in n T
      in if is_eof n ch T
         then (if nread = 0 \<and> donow = 0 then Some (Inl (TRet EOF [], take_in n T))
               else do { T1 \<leftarrow> signal_in n T; Some (Inl (TRet (donow + nread) acc, T1)) })
         else
           (let acc = acc @ [u8 ch]; nread = nread + 1; T1 = take_in n T
            in if ch = NEWLINE \<or> ch = RETURN then Some (Inl (TRet (donow + nread) acc, T1)) else Some (Inr (acc, T1))))"

fun read_later :: "nat \<Rightarrow> int \<Rightarrow> int \<Rightarrow> int \<Rightarrow> int list \<Rightarrow> ttyst \<Rightarrow> (tkont \<times> ttyst) option" where
  "read_later 0 n donow nread acc T = Some (TRet (donow + nread) acc, T)"
| "read_later (Suc k) n donow nread acc T = do {
     T1 \<leftarrow> kcall_in T (wait (isem (tty T n)) (kern T));
     if lost T T1 then Some (TRead n k donow nread acc, T1)
     else do {
       r \<leftarrow> read_char n donow nread acc T1;
       case r of Inl res \<Rightarrow> Some res | Inr (acc, T2) \<Rightarrow> read_later k n donow (nread + 1) acc T2
     }
   }"

definition read_got :: "nat \<Rightarrow> int \<Rightarrow> int \<Rightarrow> int \<Rightarrow> int list \<Rightarrow> ttyst \<Rightarrow> (tkont \<times> ttyst) option" where
  "read_got k n donow nread acc T = do {
     r \<leftarrow> read_char n donow nread acc T;
     case r of Inl res \<Rightarrow> Some res | Inr (acc, T2) \<Rightarrow> read_later k n donow (nread + 1) acc T2
   }"

definition ttyread :: "int \<Rightarrow> int \<Rightarrow> ttyst \<Rightarrow> (tkont \<times> ttyst) option" where
  "ttyread n count T =
     (let avail = icnt (tty T n)
      in if count < 0 then Some (TRet SYSERR [], T)
         else if count = 0 \<and> avail = 0 then Some (TRet 0 [], T)
         else
           (let count = (if count = 0 then avail else count);
                (donow, dolater) = (if count < avail then (count, 0) else (avail, count - avail))
            in if donow > 0
               then do {
                 r \<leftarrow> read_first (nat donow) n avail T;
                 case r of
                   Inl res \<Rightarrow> Some res
                 | Inr (nread, acc, T1) \<Rightarrow> do {
                     T2 \<leftarrow> kcall_in T1 (sreset (isem (tty T1 n)) (avail - nread) (kern T1));
                     if lost T1 T2 then Some (TRead n (nat dolater) nread (- 1) acc, T2)
                     else read_later (nat dolater) n nread 0 acc T2
                   }
               }
               else read_later (nat dolater) n 0 0 [] T))"

section \<open>Writing\<close>

definition putc_rest :: "int \<Rightarrow> int \<Rightarrow> ttyst \<Rightarrow> ttyst" where
  "putc_rest n ch T = ttyostart n (upd_tty n (\<lambda>t. t\<lparr>obuff := (obuff t)(ohead t := s8 ch), ocnt := ocnt t + 1,
     ohead := wrap OBUFLEN (ohead t + 1)\<rparr>) T)"

text \<open>\<open>ttyputc\<close> of the characters of a list, one after the other: \<open>pend\<close> is what is left of the
  current one, which may be a newline with its carriage return.\<close>

definition expand :: "int \<Rightarrow> int \<Rightarrow> ttyst \<Rightarrow> int list" where
  "expand n ch T = (if ch = NEWLINE \<and> ocrlf (tty T n) then [RETURN, ch] else [ch])"

function (sequential) write_loop :: "int \<Rightarrow> int list \<Rightarrow> int list \<Rightarrow> ttyst \<Rightarrow> (tkont \<times> ttyst) option" where
  "write_loop n [] [] T = Some (TRet OK [], T)"
| "write_loop n [] (ch # cs) T = write_loop n (expand n ch T) cs T"
| "write_loop n (ch # pend) cs T = do {
     T1 \<leftarrow> kcall_in T (wait (osem (tty T n)) (kern T));
     if lost T T1 then Some (TWrite n (ch # pend) cs, T1)
     else write_loop n pend cs (putc_rest n ch T1)
   }"
  by pat_completeness auto
termination
  by (relation "measures [\<lambda>(n, pend, cs, T). length cs, \<lambda>(n, pend, cs, T). length pend]") auto

definition write_got :: "int \<Rightarrow> int list \<Rightarrow> int list \<Rightarrow> ttyst \<Rightarrow> (tkont \<times> ttyst) option" where
  "write_got n pend cs T =
     (case pend of [] \<Rightarrow> write_loop n [] cs T | ch # pend \<Rightarrow> write_loop n pend cs (putc_rest n ch T))"

definition ttyputc :: "int \<Rightarrow> int \<Rightarrow> ttyst \<Rightarrow> (tkont \<times> ttyst) option" where
  "ttyputc n ch T = write_loop n (expand n (u8 ch) T) [] T"

text \<open>The copy of as many characters as there is room for: what is left of \<open>avail\<close>, the place of
  the next character, the characters that were not copied.\<close>

fun writcopy_loop :: "bool \<Rightarrow> int \<Rightarrow> int \<Rightarrow> int list \<Rightarrow> (int \<Rightarrow> int) \<Rightarrow> int \<times> int \<times> int list \<times> (int \<Rightarrow> int)" where
  "writcopy_loop cr avail qh [] b = (avail - 1, qh, [], b)"
| "writcopy_loop cr avail qh (c # cs) b =
     (if avail > 1
      then
        (let (avail, qh, b) =
               (if s8 c = NEWLINE \<and> cr then (avail - 2, wrap OBUFLEN (qh + 1), b(qh := RETURN))
                else (avail - 1, qh, b))
         in writcopy_loop cr avail (wrap OBUFLEN (qh + 1)) cs (b(qh := s8 c)))
      else (avail - 1, qh, c # cs, b))"

definition ttywrite :: "int \<Rightarrow> int list \<Rightarrow> ttyst \<Rightarrow> (tkont \<times> ttyst) option" where
  "ttywrite n buff T =
     (if buff = [] then Some (TRet OK [], T)
      else
        (let t = tty T n;
             (avail, qh, left, b) = writcopy_loop (ocrlf t) (OBUFLEN - ocnt t) (ohead t) buff (obuff t);
             T1 = upd_tty n (\<lambda>t. t\<lparr>obuff := b, ohead := qh, ocnt := OBUFLEN - (avail + 1)\<rparr>) T
         in do {
           T2 \<leftarrow> kcall_in T1 (sreset (osem t) (avail + 1) (kern T1));
           if lost T1 T2 then Some (TOstart n left, T2)
           else write_loop n [] left (ttyostart n T2)
         }))"

section \<open>Control\<close>

definition ttyopen :: "int \<Rightarrow> string \<Rightarrow> int" where
  "ttyopen dvnum nam = (if nam = [] then dvnum else SYSERR)"

definition nextc_rest :: "int \<Rightarrow> ttyst \<Rightarrow> (tkont \<times> ttyst) option" where
  "nextc_rest n T = do { T1 \<leftarrow> signal_in n T; Some (TRet (head_in n T) [], T1) }"

definition ttycntl :: "int \<Rightarrow> int \<Rightarrow> ttyst \<Rightarrow> (tkont \<times> ttyst) option" where
  "ttycntl n func T =
     (let ok = (\<lambda>f. Some (TRet OK [], upd_tty n f T))
      in if func = 3
         then do {
           T1 \<leftarrow> kcall_in T (wait (isem (tty T n)) (kern T));
           if lost T T1 then Some (TNextc n, T1) else nextc_rest n T1
         }
         else if func = 4 then ok (\<lambda>t. t\<lparr>imode := IMRAW\<rparr>)
         else if func = 5 then ok (\<lambda>t. t\<lparr>imode := IMCOOKED\<rparr>)
         else if func = 6 then ok (\<lambda>t. t\<lparr>imode := IMCBREAK\<rparr>)
         else if func = 9 then ok (\<lambda>t. t\<lparr>iecho := True\<rparr>)
         else if func = 10 then ok (\<lambda>t. t\<lparr>iecho := False\<rparr>)
         else if func = 15 then ok (\<lambda>t. t\<lparr>ecrlf := False\<rparr>)
         else if func = 14 then ok (\<lambda>t. t\<lparr>ecrlf := True\<rparr>)
         else if func = 8 then Some (TRet (icnt (tty T n)) [], T)
         else if func = 11 then ok (\<lambda>t. t\<lparr>iintr := True, iintpid := getpid (kern T)\<rparr>)
         else if func = 13 then ok (\<lambda>t. t\<lparr>iintr := False\<rparr>)
         else Some (TRet SYSERR [], T))"

definition ttyinit :: "int \<Rightarrow> int \<Rightarrow> ttyst \<Rightarrow> int \<times> ttyst" where
  "ttyinit dvminor dvnum T =
     (let isconsole = (dvnum = CONSOLE);
          (is, k1) = screate 0 (kern T);
          (os, k2) = screate OBUFLEN k1;
          T1 = upd_tty dvminor (\<lambda>t. t\<lparr>unit := dvminor, ihead := 0, itail := 0, isem := is, icnt := 0, osem := os,
            ocnt := 0, odsend := 0, ohead := 0, otail := 0, ehead := 0, etail := 0,
            imode := (if isconsole then IMCOOKED else IMRAW), iecho := isconsole, evis := isconsole,
            ierase := isconsole, ieback := isconsole, ierasec := DELCH, ecrlf := isconsole, icrlf := isconsole,
            ocrlf := isconsole, oflow := isconsole, ieof := isconsole, ikill := isconsole, iintr := False,
            iintrc := INTRCH, iintpid := BADPID, ikillc := KILLCH, ieofc := EOFC, oheld := False,
            ostart := STRTCH, ostop := STOPCH, icursor := 0, ifullc := BELL\<rparr>) (T\<lparr>kern := k2\<rparr>)
      in (OK, set_udrie dvminor False T1))"

section \<open>Going on after a wait\<close>

definition tcontinue :: "tkont \<Rightarrow> ttyst \<Rightarrow> (tkont \<times> ttyst) option" where
  "tcontinue k T =
     (case k of
        TRet v acc \<Rightarrow> Some (TRet v acc, T)
      | TEcho n ch \<Rightarrow> Some (TRet 0 [], eputc n ch T)
      | TGetc n \<Rightarrow> (let (v, T1) = getc_rest n T in Some (TRet v [], T1))
      | TNextc n \<Rightarrow> nextc_rest n T
      | TRead n k donow nread acc \<Rightarrow>
          (if nread < 0 then read_later k n donow 0 acc T else read_got k n donow nread acc T)
      | TOstart n left \<Rightarrow> write_loop n [] left (ttyostart n T)
      | TWrite n pend cs \<Rightarrow> write_got n pend cs T)"

end
