(* ===== verification/TtyProps.thy ===== *)
theory TtyProps
  imports Tty Example
begin

text \<open>
  The terminal driver as queues: the input buffer is the lines that are complete and the line that
  is being edited, the output and echo buffers are queues of characters. The input interrupt is a
  line editor on the first two, the output interrupt sends the echo queue and then the output
  queue.
\<close>

section \<open>Circular buffers\<close>

definition ring :: "int \<Rightarrow> (int \<Rightarrow> int) \<Rightarrow> int \<Rightarrow> nat \<Rightarrow> int list" where
  "ring len b i n = map (\<lambda>k. b ((i + int k) mod len)) [0..<n]"

lemma length_ring [simp]: "length (ring len b i n) = n"
  by (simp add: ring_def)

lemma ring_0 [simp]: "ring len b i 0 = []"
  by (simp add: ring_def)

lemma ring_start: "i mod len = j mod len \<Longrightarrow> ring len b i n = ring len b j n"
  unfolding ring_def by (rule map_cong [OF refl]) (metis mod_add_left_eq)

lemma ring_append: "ring len b i (m + n) = ring len b i m @ ring len b (i + int m) n"
proof (rule nth_equalityI)
  fix k assume "k < length (ring len b i (m + n))"
  then show "ring len b i (m + n) ! k = (ring len b i m @ ring len b (i + int m) n) ! k"
    by (cases "k < m") (auto simp: ring_def nth_append add.assoc)
qed simp

lemma ring_Suc: "ring len b i (Suc n) = b (i mod len) # ring len b (i + 1) n"
  using ring_append [of len b i 1 n] by (simp add: ring_def)

lemma ring_snoc: "ring len b i (Suc n) = ring len b i n @ [b ((i + int n) mod len)]"
  by (simp add: ring_def)

text \<open>A character behind the others does not touch them while there is room.\<close>

lemma ring_put:
  assumes "int n < len"
  shows "ring len (b((i + int n) mod len := c)) i n = ring len b i n"
proof -
  have "(i + int k) mod len \<noteq> (i + int n) mod len" if "k < n" for k
  proof
    assume "(i + int k) mod len = (i + int n) mod len"
    then have "len dvd int n - int k" by (metis add_diff_cancel_left mod_eq_dvd_iff)
    then show False using that assms zdvd_imp_le [of len "int n - int k"] by simp
  qed
  then show ?thesis by (simp add: ring_def)
qed

lemma ring_put_snoc:
  "int n < len \<Longrightarrow> ring len (b((i + int n) mod len := c)) i (Suc n) = ring len b i n @ [c]"
  by (simp add: ring_snoc ring_put)

lemma wrap_mod: "0 \<le> i \<Longrightarrow> i < len \<Longrightarrow> wrap len (i + 1) = (i + 1) mod len"
  by (cases "i + 1 = len") (simp_all add: wrap_def)

section \<open>The queues of a terminal\<close>

definition ready :: "tty \<Rightarrow> int list" where
  "ready t = ring IBUFLEN (ibuff t) (itail t) (nat (icnt t))"

definition line :: "tty \<Rightarrow> int list" where
  "line t = ring IBUFLEN (ibuff t) (itail t + icnt t) (nat (icursor t))"

definition in_ok :: "tty \<Rightarrow> bool" where
  "in_ok t \<longleftrightarrow> 0 \<le> itail t \<and> itail t < IBUFLEN \<and> 0 \<le> icnt t \<and> 0 \<le> icursor t \<and> icnt t + icursor t \<le> IBUFLEN \<and>
     ihead t = (itail t + icnt t + icursor t) mod IBUFLEN"

definition outq :: "tty \<Rightarrow> int list" where
  "outq t = ring OBUFLEN (obuff t) (otail t) (nat (ocnt t))"

definition echoq :: "tty \<Rightarrow> int list" where
  "echoq t = ring EBUFLEN (ebuff t) (etail t) (nat ((ehead t - etail t) mod EBUFLEN))"

definition out_ok :: "tty \<Rightarrow> bool" where
  "out_ok t \<longleftrightarrow> 0 \<le> otail t \<and> otail t < OBUFLEN \<and> 0 \<le> ocnt t \<and> ocnt t \<le> OBUFLEN \<and>
     ohead t = (otail t + ocnt t) mod OBUFLEN \<and> 0 \<le> ehead t \<and> ehead t < EBUFLEN \<and> 0 \<le> etail t \<and> etail t < EBUFLEN"

lemma BUFLEN_pos [simp]: "0 < IBUFLEN" "0 < OBUFLEN" "0 < EBUFLEN"
  by (simp_all add: IBUFLEN_def OBUFLEN_def EBUFLEN_def)

lemma in_ok_all:
  assumes "in_ok t"
  shows "ring IBUFLEN (ibuff t) (itail t) (nat (icnt t + icursor t)) = ready t @ line t"
  using assms ring_append [of IBUFLEN "ibuff t" "itail t" "nat (icnt t)" "nat (icursor t)"]
  by (simp add: ready_def line_def in_ok_def nat_add_distrib)

lemma in_lengths: "in_ok t \<Longrightarrow> int (length (ready t)) = icnt t \<and> int (length (line t)) = icursor t"
  by (simp add: ready_def line_def in_ok_def)

section \<open>Echo\<close>

text \<open>Echoing changes the echo queue and starts the output.\<close>

definition echoed :: "int \<Rightarrow> ttyst \<Rightarrow> ttyst \<Rightarrow> bool" where
  "echoed n T T' \<longleftrightarrow> (\<exists>b h. tty T' = (tty T)(n := (tty T n)\<lparr>ebuff := b, ehead := h\<rparr>)) \<and> kern T' = kern T \<and> sent T' = sent T"

lemma tty_upds [simp]:
  "tty (upd_tty n f T) = (tty T)(n := f (tty T n))" "kern (upd_tty n f T) = kern T" "sent (upd_tty n f T) = sent T"
  "tty (set_udrie u v T) = tty T" "kern (set_udrie u v T) = kern T" "sent (set_udrie u v T) = sent T"
  "tty (ttyostart n T) = tty T" "kern (ttyostart n T) = kern T" "sent (ttyostart n T) = sent T"
  "udrie (upd_tty n f T) = udrie T" "udrie (set_udrie u v T) = (udrie T)(u := v)"
  "tty (set_udr u c T) = tty T" "kern (set_udr u c T) = kern T" "udrie (set_udr u c T) = udrie T"
  "sent (set_udr u c T) = (sent T)(u := sent T u @ [u8 c])"
  by (simp_all add: upd_tty_def set_udrie_def ttyostart_def set_udr_def)

lemma echoed_refl [intro]: "echoed n T T"
proof -
  have "tty T n = (tty T n)\<lparr>ebuff := ebuff (tty T n), ehead := ehead (tty T n)\<rparr>" by simp
  then have "tty T = (tty T)(n := (tty T n)\<lparr>ebuff := ebuff (tty T n), ehead := ehead (tty T n)\<rparr>)" by simp
  then show ?thesis unfolding echoed_def by blast
qed

lemma echoed_trans:
  assumes "echoed n T T1" "echoed n T1 T2"
  shows "echoed n T T2"
proof -
  obtain b h where 1: "tty T1 = (tty T)(n := (tty T n)\<lparr>ebuff := b, ehead := h\<rparr>)" "kern T1 = kern T" "sent T1 = sent T"
    using assms(1) unfolding echoed_def by blast
  obtain b' h' where 2: "tty T2 = (tty T1)(n := (tty T1 n)\<lparr>ebuff := b', ehead := h'\<rparr>)" "kern T2 = kern T1" "sent T2 = sent T1"
    using assms(2) unfolding echoed_def by blast
  have "tty T2 = (tty T)(n := (tty T n)\<lparr>ebuff := b', ehead := h'\<rparr>)" unfolding 2(1) 1(1) by (simp add: fun_eq_iff)
  then show ?thesis unfolding echoed_def using 1 2 by auto
qed

lemma echoed_eputc: "echoed n T0 T \<Longrightarrow> echoed n T0 (eputc n ch T)"
  by (rule echoed_trans, assumption) (auto simp: echoed_def eputc_def fun_eq_iff)

lemma echoed_echoch: "echoed n T0 T \<Longrightarrow> echoed n T0 (echoch n ch T)"
  by (simp add: echoch_def Let_def echoed_eputc)

lemma echoed_rubout: "echoed n T0 T \<Longrightarrow> echoed n T0 (rubout n T)"
  by (simp add: rubout_def Let_def echoed_eputc)

lemma echoed_ostart: "echoed n T0 T \<Longrightarrow> echoed n T0 (ttyostart n T)"
  by (simp add: echoed_def)

lemmas echoed_intros = echoed_refl echoed_eputc echoed_echoch echoed_rubout echoed_ostart

lemma echoed_fields:
  assumes "echoed n T T'"
  shows "ready (tty T' n) = ready (tty T n)" "line (tty T' n) = line (tty T n)" "in_ok (tty T' n) = in_ok (tty T n)"
    "ihead (tty T' n) = ihead (tty T n)" "ibuff (tty T' n) = ibuff (tty T n)" "itail (tty T' n) = itail (tty T n)"
    "icnt (tty T' n) = icnt (tty T n)" "icursor (tty T' n) = icursor (tty T n)" "isem (tty T' n) = isem (tty T n)"
    "kern T' = kern T" "ieofc (tty T' n) = ieofc (tty T n)" "m \<noteq> n \<Longrightarrow> tty T' m = tty T m"
    "ieof (tty T' n) = ieof (tty T n)" "ifullc (tty T' n) = ifullc (tty T n)"
  using assms by (auto simp: echoed_def ready_def line_def in_ok_def)

section \<open>The line editor\<close>

text \<open>What a key does to the complete lines and the line that is being edited.\<close>

definition edit :: "tty \<Rightarrow> int \<Rightarrow> int \<Rightarrow> int list \<times> int list \<Rightarrow> int list \<times> int list" where
  "edit t ch c = (\<lambda>(rdy, ln).
     if ch = ikillc t \<and> ikill t then (rdy, [])
     else if ch = ierasec t \<and> ierase t then (rdy, butlast ln)
     else if ch = NEWLINE \<or> ch = RETURN \<or> (ieof t \<and> ch = ieofc t) then (rdy @ ln @ [s8 c], [])
     else if int (length rdy + length ln) \<ge> IBUFLEN - 1 then (rdy, ln)
     else (rdy, ln @ [s8 c]))"

lemma put_in_ring:
  fixes t c
  assumes "in_ok t" "icnt t + icursor t < IBUFLEN"
  defines "t' \<equiv> t\<lparr>ibuff := (ibuff t)(ihead t := s8 c), ihead := wrap IBUFLEN (ihead t + 1)\<rparr>"
  shows "ring IBUFLEN (ibuff t') (itail t) (nat (icnt t + icursor t + 1)) = ready t @ line t @ [s8 c]"
    "ihead t' = (itail t + (icnt t + icursor t + 1)) mod IBUFLEN"
proof -
  let ?n = "nat (icnt t + icursor t)"
  have n: "int ?n = icnt t + icursor t" "nat (icnt t + icursor t + 1) = Suc ?n"
    using assms(1) by (simp_all add: in_ok_def Suc_nat_eq_nat_zadd1 add.commute)
  have h: "ihead t = (itail t + int ?n) mod IBUFLEN" using assms(1) n by (simp add: in_ok_def algebra_simps)
  show "ring IBUFLEN (ibuff t') (itail t) (nat (icnt t + icursor t + 1)) = ready t @ line t @ [s8 c]"
    unfolding n(2) using ring_put_snoc [of ?n IBUFLEN "ibuff t" "itail t" "s8 c"] assms(2) n(1) in_ok_all [OF assms(1)]
    by (simp add: t'_def h)
  have "0 \<le> ihead t" "ihead t < IBUFLEN" unfolding h by simp_all
  then have "ihead t' = ((itail t + (icnt t + icursor t)) mod IBUFLEN + 1) mod IBUFLEN"
    using h n(1) by (simp add: t'_def wrap_mod)
  then show "ihead t' = (itail t + (icnt t + icursor t + 1)) mod IBUFLEN" by (simp add: mod_simps algebra_simps)
qed

lemma ring_split:
  assumes "ring len b i (nat (x + y)) = us @ vs" "int (length us) = x" "int (length vs) = y"
  shows "ring len b i (nat x) = us" "ring len b (i + x) (nat y) = vs"
proof -
  have n: "nat (x + y) = nat x + nat y" "int (nat x) = x" "length us = nat x" using assms by auto
  have "ring len b i (nat x) @ ring len b (i + x) (nat y) = us @ vs"
    using assms(1) ring_append [of len b i "nat x" "nat y"] n by simp
  then show "ring len b i (nat x) = us" "ring len b (i + x) (nat y) = vs"
    using n(3) by (simp_all add: append_eq_append_conv)
qed

lemma put_char:
  fixes t c
  assumes "in_ok t" "icnt t + icursor t < IBUFLEN"
  defines "t' \<equiv> t\<lparr>ibuff := (ibuff t)(ihead t := s8 c), ihead := wrap IBUFLEN (ihead t + 1)\<rparr>"
  shows "in_ok (t'\<lparr>icursor := icursor t + 1\<rparr>)" "ready (t'\<lparr>icursor := icursor t + 1\<rparr>) = ready t"
    "line (t'\<lparr>icursor := icursor t + 1\<rparr>) = line t @ [s8 c]"
    "in_ok (t'\<lparr>icursor := 0, icnt := icnt t + (icursor t + 1)\<rparr>)"
    "ready (t'\<lparr>icursor := 0, icnt := icnt t + (icursor t + 1)\<rparr>) = ready t @ line t @ [s8 c]"
    "line (t'\<lparr>icursor := 0, icnt := icnt t + (icursor t + 1)\<rparr>) = []"
proof -
  note P = put_in_ring [OF assms(1,2), of c, folded t'_def]
  have i: "itail t' = itail t" by (simp add: t'_def)
  have L: "int (length (ready t)) = icnt t" "int (length (line t @ [s8 c])) = icursor t + 1" using in_lengths [OF assms(1)] by simp_all
  have e: "icnt t + icursor t + 1 = icnt t + (icursor t + 1)" by simp
  note R = ring_split [OF P(1) [unfolded e] L]
  show "in_ok (t'\<lparr>icursor := icursor t + 1\<rparr>)" "in_ok (t'\<lparr>icursor := 0, icnt := icnt t + (icursor t + 1)\<rparr>)"
    using assms(1,2) P(2) by (simp_all add: in_ok_def i algebra_simps) (simp_all add: t'_def)
  show "ready (t'\<lparr>icursor := icursor t + 1\<rparr>) = ready t" "line (t'\<lparr>icursor := icursor t + 1\<rparr>) = line t @ [s8 c]"
    using R by (simp_all add: ready_def line_def i) (simp_all add: t'_def ready_def line_def)
  show "ready (t'\<lparr>icursor := 0, icnt := icnt t + (icursor t + 1)\<rparr>) = ready t @ line t @ [s8 c]"
    using P(1) by (simp add: ready_def i e)
  show "line (t'\<lparr>icursor := 0, icnt := icnt t + (icursor t + 1)\<rparr>) = []" by (simp add: line_def)
qed

text \<open>Going back in the line.\<close>

lemma go_back:
  assumes "in_ok t" "0 \<le> k" "k \<le> icursor t"
  defines "t' \<equiv> t\<lparr>ihead := (if ihead t - k < 0 then ihead t - k + IBUFLEN else ihead t - k), icursor := icursor t - k\<rparr>"
  shows "in_ok t'" "ready t' = ready t" "line t' = take (length (line t) - nat k) (line t)"
proof -
  have I: "0 \<le> itail t" "0 \<le> icnt t" "icnt t + icursor t \<le> IBUFLEN" "ihead t = (itail t + icnt t + icursor t) mod IBUFLEN"
    using assms(1) by (simp_all add: in_ok_def)
  have b: "0 \<le> ihead t" "ihead t < IBUFLEN" unfolding I(4) by simp_all
  have k: "k \<le> IBUFLEN" using assms(3) I by simp
  have "ihead t' = (ihead t - k) mod IBUFLEN"
  proof (cases "ihead t - k < 0")
    case True
    have "(ihead t - k) mod IBUFLEN = (ihead t - k + IBUFLEN) mod IBUFLEN" by simp
    also have "\<dots> = ihead t - k + IBUFLEN" using True b k by (intro mod_pos_pos_trivial) simp_all
    finally show ?thesis using True by (simp add: t'_def)
  next
    case False
    then show ?thesis using b assms(2) by (simp add: t'_def)
  qed
  also have "\<dots> = (itail t + icnt t + (icursor t - k)) mod IBUFLEN" unfolding I(4) by (simp add: mod_simps algebra_simps)
  finally show "in_ok t'" using assms(1-3) by (simp add: in_ok_def t'_def)
  show "ready t' = ready t" by (simp add: t'_def ready_def)
  have "nat (icursor t) = nat (icursor t - k) + nat k" using assms(2,3) by (simp add: nat_add_distrib [symmetric])
  then have "line t = line t' @ ring IBUFLEN (ibuff t) (itail t + icnt t + int (nat (icursor t - k))) (nat k)"
    using ring_append [of IBUFLEN "ibuff t" "itail t + icnt t" "nat (icursor t - k)" "nat k"] by (simp add: line_def t'_def)
  then show "line t' = take (length (line t) - nat k) (line t)" by simp
qed

lemma kcall_signaln:
  assumes "kinv (kern T)" "semcnt (semaph (kern T) i) + n \<le> MAXINT"
  shows "\<exists>k. kcall_in T (signaln i n (kern T)) = Some (T\<lparr>kern := k\<rparr>) \<and> kinv k"
proof -
  obtain L where L: "kwf (kern T) L" "krun (kern T) L" using assms(1) unfolding kinv_def by blast
  from signaln_call.kinv_call [OF L assms(2)] show ?thesis unfolding kinv_def by (auto simp: kcall_in_def)
qed

lemma kern_upd [simp]: "tty (T\<lparr>kern := k\<rparr>) = tty T"
  by simp

lemma erase1_edit:
  assumes "in_ok (tty T n)" "0 < icursor (tty T n)"
  defines "T' \<equiv> erase1 n (upd_tty n (\<lambda>t. t\<lparr>icursor := icursor t - 1\<rparr>) T)"
  shows "in_ok (tty T' n)" "ready (tty T' n) = ready (tty T n)" "line (tty T' n) = butlast (line (tty T n))" "kern T' = kern T"
    "m \<noteq> n \<Longrightarrow> tty T' m = tty T m"
proof -
  let ?t = "tty T n"
  let ?T1 = "upd_tty n (\<lambda>t. t\<lparr>ihead := (if ihead t - 1 < 0 then ihead t - 1 + IBUFLEN else ihead t - 1)\<rparr>)
      (upd_tty n (\<lambda>t. t\<lparr>icursor := icursor t - 1\<rparr>) T)"
  have "echoed n ?T1 T'" unfolding T'_def erase1_def Let_def by (auto intro!: echoed_intros)
  note E = echoed_fields [OF this]
  have t: "tty ?T1 n = ?t\<lparr>ihead := (if ihead ?t - 1 < 0 then ihead ?t - 1 + IBUFLEN else ihead ?t - 1), icursor := icursor ?t - 1\<rparr>"
    by simp
  note G = go_back [OF assms(1), of 1]
  show "in_ok (tty T' n)" "ready (tty T' n) = ready (tty T n)" "line (tty T' n) = butlast (line (tty T n))"
    unfolding E t using G assms(2) by (simp_all add: butlast_conv_take)
  show "kern T' = kern T" "m \<noteq> n \<Longrightarrow> tty T' m = tty T m" using E by simp_all
qed

text \<open>Does the key end the line, and has the end of the line room in the buffer and in the semaphore?\<close>

definition ends_line :: "tty \<Rightarrow> int \<Rightarrow> bool" where
  "ends_line t ch \<longleftrightarrow> \<not> (ch = ikillc t \<and> ikill t) \<and> \<not> (ch = ierasec t \<and> ierase t) \<and>
     (ch = NEWLINE \<or> ch = RETURN \<or> (ieof t \<and> ch = ieofc t))"

definition line_fits :: "int \<Rightarrow> ttyst \<Rightarrow> bool" where
  "line_fits n T \<longleftrightarrow> icnt (tty T n) + icursor (tty T n) < IBUFLEN \<and>
     semcnt (semaph (kern T) (isem (tty T n))) + icursor (tty T n) + 1 \<le> MAXINT"

lemma cooked_edit:
  assumes "in_ok (tty T n)" "kinv (kern T)" "ends_line (tty T n) ch \<Longrightarrow> line_fits n T"
  shows "\<exists>T'. iin_cooked n ch cerr T = Some T' \<and> in_ok (tty T' n) \<and> kinv (kern T') \<and>
    (ready (tty T' n), line (tty T' n)) = edit (tty T n) ch (ch OR cerr) (ready (tty T n), line (tty T n))"
proof -
  let ?t = "tty T n"
  have L: "int (length (ready ?t)) = icnt ?t" "int (length (line ?t)) = icursor ?t" using in_lengths [OF assms(1)] by auto
  consider (kill) "ch = ikillc ?t" "ikill ?t"
    | (erase) "\<not> (ch = ikillc ?t \<and> ikill ?t)" "ch = ierasec ?t" "ierase ?t"
    | (newl) "\<not> (ch = ikillc ?t \<and> ikill ?t)" "\<not> (ch = ierasec ?t \<and> ierase ?t)"
        "ch = NEWLINE \<or> ch = RETURN \<or> (ieof ?t \<and> ch = ieofc ?t)"
    | (full) "\<not> (ch = ikillc ?t \<and> ikill ?t)" "\<not> (ch = ierasec ?t \<and> ierase ?t)"
        "\<not> (ch = NEWLINE \<or> ch = RETURN \<or> (ieof ?t \<and> ch = ieofc ?t))" "icnt ?t + icursor ?t \<ge> IBUFLEN - 1"
    | (char) "\<not> (ch = ikillc ?t \<and> ikill ?t)" "\<not> (ch = ierasec ?t \<and> ierase ?t)"
        "\<not> (ch = NEWLINE \<or> ch = RETURN \<or> (ieof ?t \<and> ch = ieofc ?t))" "\<not> icnt ?t + icursor ?t \<ge> IBUFLEN - 1"
    by blast
  then show ?thesis
  proof cases
    case kill
    let ?T1 = "upd_tty n (\<lambda>t. t\<lparr>ihead := (if ihead t - icursor t < 0 then ihead t - icursor t + IBUFLEN else ihead t - icursor t),
                icursor := 0\<rparr>) T"
    have r: "iin_cooked n ch cerr T = Some (eputc n NEWLINE (eputc n RETURN ?T1))" using kill by (simp add: iin_cooked_def Let_def)
    have E: "echoed n ?T1 (eputc n NEWLINE (eputc n RETURN ?T1))" by (intro echoed_intros)
    have "0 \<le> icursor ?t" using assms(1) by (simp add: in_ok_def)
    from go_back [OF assms(1) this order_refl] have "in_ok (tty ?T1 n)" "ready (tty ?T1 n) = ready ?t" "line (tty ?T1 n) = []"
      using L by simp_all
    then show ?thesis unfolding r using kill assms(2) echoed_fields [OF E] by (auto simp: edit_def)
  next
    case erase
    show ?thesis
    proof (cases "0 < icursor ?t")
      case True
      note R = erase1_edit [OF assms(1) True]
      have r: "iin_cooked n ch cerr T = Some (erase1 n (upd_tty n (\<lambda>t. t\<lparr>icursor := icursor t - 1\<rparr>) T))"
        using erase True by (auto simp: iin_cooked_def Let_def)
      show ?thesis unfolding r using R erase assms(2) by (auto simp: edit_def)
    next
      case False
      then have "line ?t = []" by (simp add: line_def)
      moreover have "iin_cooked n ch cerr T = Some T" using erase False by (auto simp: iin_cooked_def Let_def)
      ultimately show ?thesis using erase assms by (auto simp: edit_def)
    qed
  next
    case newl
    define T1 where "T1 = (if iecho ?t then (let T0 = echoch n ch T in if ch = ieofc (tty T0 n) then echoch n NEWLINE T0 else T0) else T)"
    have E: "echoed n T T1" unfolding T1_def Let_def by (auto intro!: echoed_intros)
    note F = echoed_fields [OF E]
    have fits: "icnt ?t + icursor ?t < IBUFLEN" "semcnt (semaph (kern T) (isem ?t)) + icursor ?t + 1 \<le> MAXINT"
      using assms(3) newl by (auto simp: ends_line_def line_fits_def)
    let ?T2 = "put_in n (ch OR cerr) T1"
    let ?T3 = "upd_tty n (\<lambda>t. t\<lparr>icursor := 0, icnt := icnt t + (icursor (tty ?T2 n) + 1)\<rparr>) ?T2"
    have r: "iin_cooked n ch cerr T = kcall_in ?T3 (signaln (isem (tty ?T3 n)) (icursor (tty ?T2 n) + 1) (kern ?T3))"
      using newl by (simp only: iin_cooked_def iin_line_def Let_def T1_def if_False if_True simp_thms)
    have s: "isem (tty ?T3 n) = isem ?t" "icursor (tty ?T2 n) = icursor ?t" "kern ?T3 = kern T"
      using F by (simp_all add: put_in_def)
    have ok: "in_ok (tty T1 n)" "icnt (tty T1 n) + icursor (tty T1 n) < IBUFLEN" using F assms(1) fits by simp_all
    note P = put_char(4-6) [OF ok, of "ch OR cerr"]
    obtain k where k: "kcall_in ?T3 (signaln (isem (tty ?T3 n)) (icursor (tty ?T2 n) + 1) (kern ?T3)) = Some (?T3\<lparr>kern := k\<rparr>)" "kinv k"
      using kcall_signaln [of ?T3 "isem ?t" "icursor ?t + 1"] assms(2) fits(2) s by (auto simp: algebra_simps)
    have t3: "tty ?T3 n = (tty T1 n)\<lparr>ibuff := (ibuff (tty T1 n))(ihead (tty T1 n) := s8 (ch OR cerr)),
        ihead := wrap IBUFLEN (ihead (tty T1 n) + 1), icursor := 0, icnt := icnt (tty T1 n) + (icursor (tty T1 n) + 1)\<rparr>"
      by (simp add: put_in_def)
    have e: "edit ?t ch (ch OR cerr) (ready ?t, line ?t) = (ready ?t @ line ?t @ [s8 (ch OR cerr)], [])"
      using newl(3) by (simp only: edit_def prod.case newl(1,2) if_False if_True)
    have "in_ok (tty ?T3 n)" "ready (tty ?T3 n) = ready ?t @ line ?t @ [s8 (ch OR cerr)]" "line (tty ?T3 n) = []"
      unfolding t3 using P F(1,2) by simp_all
    then show ?thesis unfolding r k(1) e using k(2) by simp
  next
    case full
    have z: "(if icnt ?t < 0 then 0 else icnt ?t) = icnt ?t" using assms(1) by (simp add: in_ok_def)
    have r: "iin_cooked n ch cerr T = Some (eputc n (ifullc ?t) T)" 
      by (simp only: iin_cooked_def Let_def z full if_False if_True)
    have "echoed n T (eputc n (ifullc ?t) T)" by (intro echoed_intros)
    have "int (length (ready ?t) + length (line ?t)) \<ge> IBUFLEN - 1" using full L by simp
    then have "edit ?t ch (ch OR cerr) (ready ?t, line ?t) = (ready ?t, line ?t)"
      by (simp only: edit_def prod.case full(1-3) if_False if_True)
    then show ?thesis unfolding r using assms echoed_fields [OF \<open>echoed n T (eputc n (ifullc ?t) T)\<close>] by simp
  next
    case char
    have z: "(if icnt ?t < 0 then 0 else icnt ?t) = icnt ?t" using assms(1) by (simp add: in_ok_def)
    define T1 where "T1 = (if iecho ?t then echoch n ch T else T)"
    have E: "echoed n T T1" unfolding T1_def by (auto intro!: echoed_intros)
    note F = echoed_fields [OF E]
    have r: "iin_cooked n ch cerr T = Some (put_in n (ch OR cerr) (upd_tty n (\<lambda>t. t\<lparr>icursor := icursor t + 1\<rparr>) T1))"
      by (simp only: iin_cooked_def Let_def T1_def z char if_False)
    have ok: "in_ok (tty T1 n)" "icnt (tty T1 n) + icursor (tty T1 n) < IBUFLEN" using F assms(1) char(4) by simp_all
    note P = put_char(1-3) [OF ok, of "ch OR cerr"]
    have t: "tty (put_in n (ch OR cerr) (upd_tty n (\<lambda>t. t\<lparr>icursor := icursor t + 1\<rparr>) T1)) n =
      (tty T1 n)\<lparr>ibuff := (ibuff (tty T1 n))(ihead (tty T1 n) := s8 (ch OR cerr)),
        ihead := wrap IBUFLEN (ihead (tty T1 n) + 1), icursor := icursor (tty T1 n) + 1\<rparr>"
      by (simp add: put_in_def)
    have k: "kern (put_in n (ch OR cerr) (upd_tty n (\<lambda>t. t\<lparr>icursor := icursor t + 1\<rparr>) T1)) = kern T"
      using F by (simp add: put_in_def)
    have "\<not> int (length (ready ?t) + length (line ?t)) \<ge> IBUFLEN - 1" using char L by simp
    then have "edit ?t ch (ch OR cerr) (ready ?t, line ?t) = (ready ?t, line ?t @ [s8 (ch OR cerr)])"
      by (simp only: edit_def prod.case char(1-3) if_False)
    then show ?thesis unfolding r using P F k t assms(2) by simp
  qed
qed

section \<open>Output\<close>

lemma ring_first:
  assumes "0 < n" "0 \<le> i" "i < len"
  shows "ring len b i n = b i # ring len b (wrap len (i + 1)) (n - 1)"
proof -
  obtain m where m: "n = Suc m" using assms(1) by (cases n) auto
  have "ring len b (i + 1) m = ring len b (wrap len (i + 1)) m"
    by (rule ring_start) (use assms in \<open>simp add: wrap_mod\<close>)
  then show ?thesis using assms unfolding m by (simp add: ring_Suc)
qed

lemma putc_rest_out:
  assumes "out_ok (tty T n)" "ocnt (tty T n) < OBUFLEN"
  shows "out_ok (tty (putc_rest n ch T) n)" "outq (tty (putc_rest n ch T) n) = outq (tty T n) @ [s8 ch]"
    "echoq (tty (putc_rest n ch T) n) = echoq (tty T n)"
proof -
  let ?t = "tty T n"
  have O: "0 \<le> otail ?t" "otail ?t < OBUFLEN" "0 \<le> ocnt ?t" "ohead ?t = (otail ?t + ocnt ?t) mod OBUFLEN"
    using assms(1) by (simp_all add: out_ok_def)
  have h: "0 \<le> ohead ?t" "ohead ?t < OBUFLEN" unfolding O(4) by simp_all
  have n: "nat (ocnt ?t + 1) = Suc (nat (ocnt ?t))" using O(3) by simp
  have "wrap OBUFLEN (ohead ?t + 1) = (otail ?t + (ocnt ?t + 1)) mod OBUFLEN"
    using wrap_mod [OF h] O(4) by (simp add: mod_simps algebra_simps)
  then show "out_ok (tty (putc_rest n ch T) n)"
    using assms by (simp add: out_ok_def putc_rest_def)
  show "outq (tty (putc_rest n ch T) n) = outq ?t @ [s8 ch]"
    using ring_put_snoc [of "nat (ocnt ?t)" OBUFLEN "obuff ?t" "otail ?t" "s8 ch"] O(3) assms(2)
    by (simp add: outq_def putc_rest_def n O(4))
  show "echoq (tty (putc_rest n ch T) n) = echoq ?t" by (simp add: echoq_def putc_rest_def)
qed

lemma echo_first:
  assumes "out_ok t" "ehead t \<noteq> etail t"
  defines "t' \<equiv> t\<lparr>etail := wrap EBUFLEN (etail t + 1)\<rparr>"
  shows "echoq t = ebuff t (etail t) # echoq t'" "out_ok t'" "outq t' = outq t"
proof -
  have E: "0 \<le> ehead t" "ehead t < EBUFLEN" "0 \<le> etail t" "etail t < EBUFLEN" using assms(1) by (simp_all add: out_ok_def)
  have pos: "0 < (ehead t - etail t) mod EBUFLEN"
  proof (rule ccontr)
    assume "\<not> 0 < (ehead t - etail t) mod EBUFLEN"
    moreover have "0 \<le> (ehead t - etail t) mod EBUFLEN" by simp
    ultimately have "(ehead t - etail t) mod EBUFLEN = 0" by linarith
    then have "EBUFLEN dvd ehead t - etail t" by presburger
    then show False using E assms(2) by (smt (verit) zdvd_imp_le dvd_minus_iff)
  qed
  have w: "wrap EBUFLEN (etail t + 1) = (etail t + 1) mod EBUFLEN" by (rule wrap_mod [OF E(3,4)])
  have "(ehead t - wrap EBUFLEN (etail t + 1)) mod EBUFLEN = ((ehead t - etail t) mod EBUFLEN - 1) mod EBUFLEN"
    unfolding w by (simp add: mod_simps algebra_simps)
  also have "\<dots> = (ehead t - etail t) mod EBUFLEN - 1"
  proof (rule mod_pos_pos_trivial)
    have "(ehead t - etail t) mod EBUFLEN < EBUFLEN" by simp
    then show "(ehead t - etail t) mod EBUFLEN - 1 < EBUFLEN" by linarith
  qed (use pos in simp)
  finally have n: "nat ((ehead t - wrap EBUFLEN (etail t + 1)) mod EBUFLEN) = nat ((ehead t - etail t) mod EBUFLEN) - 1"
    using pos by simp
  show "echoq t = ebuff t (etail t) # echoq t'"
    unfolding echoq_def using pos ring_first [of "nat ((ehead t - etail t) mod EBUFLEN)" "etail t" EBUFLEN "ebuff t"] E
    by (simp add: t'_def n)
  have "0 \<le> wrap EBUFLEN (etail t + 1)" "wrap EBUFLEN (etail t + 1) < EBUFLEN" unfolding w by simp_all
  then show "out_ok t'" using assms(1) by (simp add: out_ok_def t'_def)
  show "outq t' = outq t" by (simp add: outq_def t'_def)
qed

lemma out_first:
  assumes "out_ok t" "0 < ocnt t"
  defines "t' \<equiv> t\<lparr>otail := wrap OBUFLEN (otail t + 1), ocnt := ocnt t - 1\<rparr>"
  shows "outq t = obuff t (otail t) # outq t'" "out_ok t'" "echoq t' = echoq t"
proof -
  have O: "0 \<le> otail t" "otail t < OBUFLEN" using assms(1) by (simp_all add: out_ok_def)
  have w: "wrap OBUFLEN (otail t + 1) = (otail t + 1) mod OBUFLEN" by (rule wrap_mod [OF O])
  show "outq t = obuff t (otail t) # outq t'"
    using ring_first [of "nat (ocnt t)" "otail t" OBUFLEN "obuff t"] O assms(2)
    by (simp add: outq_def t'_def nat_diff_distrib)
  have "(wrap OBUFLEN (otail t + 1) + (ocnt t - 1)) mod OBUFLEN = (otail t + 1 + (ocnt t - 1)) mod OBUFLEN"
    unfolding w by (rule mod_add_left_eq)
  then have "ohead t = (wrap OBUFLEN (otail t + 1) + (ocnt t - 1)) mod OBUFLEN"
    using assms(1) by (simp add: out_ok_def)
  moreover have "0 \<le> wrap OBUFLEN (otail t + 1)" "wrap OBUFLEN (otail t + 1) < OBUFLEN" unfolding w by simp_all
  ultimately show "out_ok t'" using assms(1,2) by (simp add: out_ok_def t'_def)
  show "echoq t' = echoq t" by (simp add: echoq_def t'_def)
qed

lemma echoq_empty: "out_ok t \<Longrightarrow> echoq t = [] \<longleftrightarrow> ehead t = etail t"
  using echo_first(1) [of t] by (cases "ehead t = etail t") (simp_all add: echoq_def)

lemma outq_empty: "out_ok t \<Longrightarrow> outq t = [] \<longleftrightarrow> \<not> 0 < ocnt t"
  using out_first(1) [of t] by (cases "0 < ocnt t") (simp_all add: outq_def)

lemma kcall_signal:
  assumes "kinv (kern T)" "semcnt (semaph (kern T) i) < MAXINT"
  shows "\<exists>k. kcall_in T (signal i (kern T)) = Some (T\<lparr>kern := k\<rparr>) \<and> kinv k"
proof -
  obtain L where L: "kwf (kern T) L" "krun (kern T) L" using assms(1) unfolding kinv_def by blast
  from signal_call.kinv_call [OF L assms(2)] show ?thesis unfolding kinv_def by (auto simp: kcall_in_def)
qed

text \<open>What the output interrupt sends, and what it leaves.\<close>

definition emit :: "bool \<Rightarrow> int list \<times> int list \<Rightarrow> int list \<times> int list \<times> int list" where
  "emit held = (\<lambda>(es, xs). case es of e # es' \<Rightarrow> ([u8 e], es', xs)
     | [] \<Rightarrow> (case xs of [] \<Rightarrow> ([], [], []) | x # xs' \<Rightarrow> if held then ([], [], xs) else ([u8 x], [], xs')))"

lemma ttyoin_emit:
  assumes "out_ok (tty T n)" "kinv (kern T)" "semcnt (semaph (kern T) (osem (tty T n))) + OBMINSP \<le> MAXINT"
  shows "\<exists>T'. ttyoin n T = Some T' \<and> out_ok (tty T' n) \<and> kinv (kern T') \<and>
    emit (oheld (tty T n)) (echoq (tty T n), outq (tty T n)) =
      (drop (length (sent T (unit (tty T n)))) (sent T' (unit (tty T n))), echoq (tty T' n), outq (tty T' n)) \<and>
    take (length (sent T (unit (tty T n)))) (sent T' (unit (tty T n))) = sent T (unit (tty T n))"
proof -
  let ?t = "tty T n"
  have c: "semcnt (semaph (kern T) (osem ?t)) < MAXINT" using assms(3) by (simp add: OBMINSP_def)
  consider (echo) "ehead ?t \<noteq> etail ?t" | (held) "ehead ?t = etail ?t" "oheld ?t"
    | (char) "ehead ?t = etail ?t" "\<not> oheld ?t" "0 < ocnt ?t" | (none) "ehead ?t = etail ?t" "\<not> oheld ?t" "\<not> 0 < ocnt ?t" by blast
  then show ?thesis
  proof cases
    case echo
    show ?thesis using echo_first [OF assms(1) echo] echo assms(2) by (simp add: ttyoin_def Let_def emit_def)
  next
    case held
    then have "echoq ?t = []" using echoq_empty [OF assms(1)] by simp
    then show ?thesis using held assms by (auto simp: ttyoin_def Let_def emit_def split: list.splits)
  next
    case none
    then have "echoq ?t = []" "outq ?t = []" using echoq_empty [OF assms(1)] outq_empty [OF assms(1)] by simp_all
    then show ?thesis using none assms by (auto simp: ttyoin_def Let_def emit_def)
  next
    case char
    let ?t' = "?t\<lparr>otail := wrap OBUFLEN (otail ?t + 1), ocnt := ocnt ?t - 1\<rparr>"
    let ?T1 = "upd_tty n (\<lambda>t. t\<lparr>otail := wrap OBUFLEN (otail t + 1), ocnt := ocnt t - 1\<rparr>)
                      (set_udr (unit ?t) (obuff ?t (otail ?t)) T)"
    have e: "echoq ?t = []" using echoq_empty [OF assms(1)] char by simp
    note F = out_first [OF assms(1) char(3)]
    have same: "out_ok (?t'\<lparr>odsend := d\<rparr>) = out_ok ?t'" "echoq (?t'\<lparr>odsend := d\<rparr>) = echoq ?t'" "outq (?t'\<lparr>odsend := d\<rparr>) = outq ?t'" for d
      by (simp_all add: out_ok_def echoq_def outq_def)
    have goal: "emit (oheld ?t) (echoq ?t, outq ?t) = ([u8 (obuff ?t (otail ?t))], echoq ?t', outq ?t')"
      using F(1,3) e char(2) by (simp add: emit_def)
    obtain T' d where T': "ttyoin n T = Some T'" "kinv (kern T')" "tty T' n = ?t'\<lparr>odsend := d\<rparr>" "sent T' = sent ?T1"
    proof (cases "ocnt ?t > OBMINSP")
      case True
      obtain k where k: "kcall_in ?T1 (signal (osem ?t) (kern ?T1)) = Some (?T1\<lparr>kern := k\<rparr>)" "kinv k"
        using kcall_signal [of ?T1 "osem ?t"] assms(2) c by auto
      have "ttyoin n T = Some (?T1\<lparr>kern := k\<rparr>)" using char True k(1) by (simp add: ttyoin_def Let_def)
      then show thesis by (rule that [of _ "odsend ?t"]) (use k(2) in simp_all)
    next
      case False
      show thesis
      proof (cases "odsend ?t + 1 = OBMINSP")
        case True
        let ?T2 = "upd_tty n (\<lambda>t. t\<lparr>odsend := 0\<rparr>) ?T1"
        obtain k where k: "kcall_in ?T2 (signaln (osem ?t) OBMINSP (kern ?T2)) = Some (?T2\<lparr>kern := k\<rparr>)" "kinv k"
          using kcall_signaln [of ?T2 "osem ?t" OBMINSP] assms(2,3) by auto
        have "ttyoin n T = Some (?T2\<lparr>kern := k\<rparr>)" using char False True k(1) by (simp add: ttyoin_def Let_def)
        then show thesis by (rule that [of _ 0]) (use k(2) in simp_all)
      next
        case False': False
        have "ttyoin n T = Some (upd_tty n (\<lambda>t. t\<lparr>odsend := odsend t + 1\<rparr>) ?T1)"
          using char False False' by (simp add: ttyoin_def Let_def)
        then show thesis by (rule that [of _ "odsend ?t + 1"]) (use assms(2) in simp_all)
      qed
    qed
    show ?thesis unfolding goal using T' F(2) same by simp
  qed
qed

section \<open>The copy of a block of characters\<close>

definition expanded :: "bool \<Rightarrow> int list \<Rightarrow> int list" where
  "expanded cr cs = concat (map (\<lambda>c. if s8 c = NEWLINE \<and> cr then [RETURN, s8 c] else [s8 c]) cs)"

lemma writcopy_loop_ring:
  assumes "0 \<le> m" "m \<le> OBUFLEN" "writcopy_loop cr (OBUFLEN - m) ((i + m) mod OBUFLEN) cs b = (a, h, left, b')"
  shows "\<exists>done. cs = done @ left \<and> (let w = expanded cr done; m' = m + int (length w) in
    m' \<le> OBUFLEN \<and> a + 1 = OBUFLEN - m' \<and> h = (i + m') mod OBUFLEN \<and>
    ring OBUFLEN b' i (nat m') = ring OBUFLEN b i (nat m) @ w \<and> (left \<noteq> [] \<longrightarrow> OBUFLEN - 1 \<le> m'))"
  using assms
proof (induction cs arbitrary: m b)
  case Nil
  then show ?case by (intro exI [of _ "[]"]) (auto simp: expanded_def Let_def)
next
  case (Cons c cs)
  show ?case
  proof (cases "OBUFLEN - m > 1")
    case False
    then show ?thesis using Cons.prems by (intro exI [of _ "[]"]) (auto simp: expanded_def Let_def)
  next
    case True
    have h: "wrap OBUFLEN ((i + m) mod OBUFLEN + 1) = (i + (m + 1)) mod OBUFLEN" for m
      using wrap_mod [of "(i + m) mod OBUFLEN" OBUFLEN] by (simp add: mod_simps algebra_simps)
    have put: "ring OBUFLEN (b((i + m) mod OBUFLEN := x)) i (nat (m + 1)) = ring OBUFLEN b i (nat m) @ [x]"
      if "0 \<le> m" "m < OBUFLEN" for b m x
      using ring_put_snoc [of "nat m" OBUFLEN b i x] that by (simp add: nat_add_distrib)
    define k where "k = (if s8 c = NEWLINE \<and> cr then 1 else 0 :: int)"
    define b1 where "b1 = (if s8 c = NEWLINE \<and> cr then b((i + m) mod OBUFLEN := RETURN) else b)"
    define b2 where "b2 = b1((i + (m + k)) mod OBUFLEN := s8 c)"
    have m: "0 \<le> m + k" "m + k < OBUFLEN" "0 \<le> m + k + 1" "m + k + 1 \<le> OBUFLEN"
      using True Cons.prems(1) by (simp_all add: k_def)
    have st: "writcopy_loop cr (OBUFLEN - m) ((i + m) mod OBUFLEN) (c # cs) b =
        writcopy_loop cr (OBUFLEN - (m + k + 1)) ((i + (m + k + 1)) mod OBUFLEN) cs b2"
      using True h [of m] h [of "m + 1"] by (auto simp: k_def b1_def b2_def Let_def algebra_simps)
    have r: "ring OBUFLEN b2 i (nat (m + k + 1)) = ring OBUFLEN b i (nat m) @ expanded cr [c]"
    proof (cases "s8 c = NEWLINE \<and> cr")
      case True
      then have "ring OBUFLEN b1 i (nat (m + k)) = ring OBUFLEN b i (nat m) @ [RETURN]"
        using put [of m b RETURN] Cons.prems(1) m by (simp add: b1_def k_def)
      then show ?thesis using put [OF m(1,2), of b1 "s8 c"] True by (simp add: b2_def expanded_def)
    next
      case False
      then show ?thesis using put [OF m(1,2), of b1 "s8 c"] by (auto simp: b2_def b1_def k_def expanded_def)
    qed
    have len: "int (length (expanded cr [c])) = k + 1" by (simp add: expanded_def k_def)
    obtain d where d: "cs = d @ left" "let w = expanded cr d; m' = m + k + 1 + int (length w) in
      m' \<le> OBUFLEN \<and> a + 1 = OBUFLEN - m' \<and> h = (i + m') mod OBUFLEN \<and>
      ring OBUFLEN b' i (nat m') = ring OBUFLEN b2 i (nat (m + k + 1)) @ w \<and> (left \<noteq> [] \<longrightarrow> OBUFLEN - 1 \<le> m')"
      using Cons.IH [OF m(3,4) Cons.prems(3) [unfolded st]] by blast
    have ex: "expanded cr (c # d) = expanded cr [c] @ expanded cr d" by (simp add: expanded_def)
    have l2: "m + int (length (expanded cr (c # d))) = m + k + 1 + int (length (expanded cr d))"
      unfolding ex using len by simp
    show ?thesis
      by (rule exI [of _ "c # d"]) (use d r in \<open>simp only: Let_def l2, simp add: ex\<close>)
  qed
qed

section \<open>The properties of the terminal driver\<close>

lemma ready_first:
  assumes "in_ok t" "ready t \<noteq> []"
  shows "ready t = ibuff t (itail t) # ready (t\<lparr>itail := wrap IBUFLEN (itail t + 1), icnt := icnt t - 1\<rparr>)"
    "line (t\<lparr>itail := wrap IBUFLEN (itail t + 1), icnt := icnt t - 1\<rparr>) = line t"
proof -
  have c: "0 < icnt t" using assms(2) by (cases "0 < icnt t") (simp_all add: ready_def)
  have I: "0 \<le> itail t" "itail t < IBUFLEN" using assms(1) by (simp_all add: in_ok_def)
  show "ready t = ibuff t (itail t) # ready (t\<lparr>itail := wrap IBUFLEN (itail t + 1), icnt := icnt t - 1\<rparr>)"
    using ring_first [of "nat (icnt t)" "itail t" IBUFLEN "ibuff t"] c I by (simp add: ready_def nat_diff_distrib)
  have "(wrap IBUFLEN (itail t + 1) + (icnt t - 1)) mod IBUFLEN = (itail t + 1 + (icnt t - 1)) mod IBUFLEN"
    unfolding wrap_mod [OF I] by (rule mod_add_left_eq)
  then have "(wrap IBUFLEN (itail t + 1) + (icnt t - 1)) mod IBUFLEN = (itail t + icnt t) mod IBUFLEN" by simp
  then have "ring IBUFLEN (ibuff t) (wrap IBUFLEN (itail t + 1) + (icnt t - 1)) (nat (icursor t)) =
      ring IBUFLEN (ibuff t) (itail t + icnt t) (nat (icursor t))" by (rule ring_start)
  then show "line (t\<lparr>itail := wrap IBUFLEN (itail t + 1), icnt := icnt t - 1\<rparr>) = line t" by (simp add: line_def)
qed

text \<open>C37: in cooked mode the input interrupt is a line editor: a key that is not one of the flow
  control or interrupt characters changes the complete lines and the line under the cursor as
  \<open>edit\<close> says (kill, erase, end of line, a full buffer, an ordinary character), whatever is
  echoed, and the indices of the circular buffer stay consistent. An end of line must have room
  (\<open>line_fits\<close>: fewer than \<open>IBUFLEN\<close> characters in the buffer, and a count of the semaphore
  that the new characters do not make overflow); the other keys need no room. What happens to an
  end of line in a full buffer is \<open>newline_overruns\<close>. The first complete character is
  what \<open>ttygetc\<close> then takes, and it takes no other.\<close>

theorem line_editor:
  assumes "in_ok (tty T n)" "kinv (kern T)" "imode (tty T n) = IMCOOKED"
    "ch = (if c = RETURN \<and> icrlf (tty T n) then NEWLINE else c)"
    "ends_line (tty T n) ch \<Longrightarrow> line_fits n T" "\<not> (iintr (tty T n) \<and> ch = iintrc (tty T n))"
    "\<not> (oflow (tty T n) \<and> ch \<in> {ostart (tty T n), ostop (tty T n)})"
    "cerr = (if status AND 28 \<noteq> 0 then IOCHERR else 0)"
  shows "\<exists>T'. ttyiin n status c T = Some (TRet 0 [], T') \<and> in_ok (tty T' n) \<and> kinv (kern T') \<and>
    (ready (tty T' n), line (tty T' n)) = edit (tty T n) ch (ch OR cerr) (ready (tty T n), line (tty T n)) \<and>
    (ready (tty T' n) \<noteq> [] \<longrightarrow> ready (tty (snd (getc_rest n T')) n) = tl (ready (tty T' n)) \<and>
       line (tty (snd (getc_rest n T')) n) = line (tty T' n) \<and>
       fst (getc_rest n T') \<in> {u8 (hd (ready (tty T' n))), EOF})"
proof -
  let ?T = "if oflow (tty T n) then T else upd_tty n (oheld_update (\<lambda>_. False)) T"
  obtain b where b: "tty ?T n = (tty T n)\<lparr>oheld := b\<rparr>" "kern ?T = kern T"
  proof (cases "oflow (tty T n)")
    case True
    then show thesis by (intro that [of "oheld (tty T n)"]) simp_all
  next
    case False
    then show thesis by (intro that [of False]) simp_all
  qed
  have t: "in_ok (tty ?T n) = in_ok (tty T n)" "ready (tty ?T n) = ready (tty T n)" "line (tty ?T n) = line (tty T n)"
    "icnt (tty ?T n) = icnt (tty T n)" "icursor (tty ?T n) = icursor (tty T n)" "isem (tty ?T n) = isem (tty T n)"
    "edit (tty ?T n) = edit (tty T n)" "ends_line (tty ?T n) = ends_line (tty T n)" "line_fits n ?T = line_fits n T"
    unfolding b by (simp_all add: in_ok_def ready_def line_def edit_def [abs_def] ends_line_def [abs_def] line_fits_def b cong: if_cong)
  have "\<exists>T'. iin_cooked n ch cerr ?T = Some T' \<and> in_ok (tty T' n) \<and> kinv (kern T') \<and>
    (ready (tty T' n), line (tty T' n)) = edit (tty ?T n) ch (ch OR cerr) (ready (tty ?T n), line (tty ?T n))"
    by (rule cooked_edit) (use t b(2) assms(1,2,5) in \<open>simp_all only:\<close>)
  then obtain T' where T': "iin_cooked n ch cerr ?T = Some T'" "in_ok (tty T' n)" "kinv (kern T')"
    "(ready (tty T' n), line (tty T' n)) = edit (tty T n) ch (ch OR cerr) (ready (tty T n), line (tty T n))"
    unfolding t by blast
  have r: "ttyiin n status c T = Some (TRet 0 [], T')"
    unfolding ttyiin_def Let_def assms(4,8) [symmetric] using T'(1) assms(3,6,7)
    by (cases "oflow (tty T n)"; cases "iintr (tty T n)") simp_all
  have g: "ready (tty T' n) \<noteq> [] \<longrightarrow> ready (tty (snd (getc_rest n T')) n) = tl (ready (tty T' n)) \<and>
       line (tty (snd (getc_rest n T')) n) = line (tty T' n) \<and> fst (getc_rest n T') \<in> {u8 (hd (ready (tty T' n))), EOF}"
    using ready_first [OF T'(2)] by (auto simp: getc_rest_def Let_def take_in_def head_in_def)
  show ?thesis using r T'(2-4) g by blast
qed

text \<open>A full buffer: the end of the line is put over the oldest character, and the count is larger
  than the buffer.\<close>

lemma newline_overruns:
  assumes "in_ok (tty T n)" "kinv (kern T)" "ends_line (tty T n) ch" "icnt (tty T n) + icursor (tty T n) = IBUFLEN"
    "semcnt (semaph (kern T) (isem (tty T n))) + icursor (tty T n) + 1 \<le> MAXINT"
  shows "\<exists>T'. iin_cooked n ch cerr T = Some T' \<and> icnt (tty T' n) = IBUFLEN + 1 \<and>
    ibuff (tty T' n) (itail (tty T n)) = s8 (ch OR cerr)"
proof -
  let ?t = "tty T n"
  define T1 where "T1 = (if iecho ?t then (let T0 = echoch n ch T in if ch = ieofc (tty T0 n) then echoch n NEWLINE T0 else T0) else T)"
  have E: "echoed n T T1" unfolding T1_def Let_def by (auto intro!: echoed_intros)
  note F = echoed_fields [OF E]
  let ?T2 = "put_in n (ch OR cerr) T1"
  let ?T3 = "upd_tty n (\<lambda>t. t\<lparr>icursor := 0, icnt := icnt t + (icursor (tty ?T2 n) + 1)\<rparr>) ?T2"
  have r: "iin_cooked n ch cerr T = kcall_in ?T3 (signaln (isem (tty ?T3 n)) (icursor (tty ?T2 n) + 1) (kern ?T3))"
    using assms(3) unfolding ends_line_def by (simp only: iin_cooked_def iin_line_def Let_def T1_def if_False if_True simp_thms)
  have i: "0 \<le> itail ?t" "itail ?t < IBUFLEN" "ihead ?t = (itail ?t + icnt ?t + icursor ?t) mod IBUFLEN"
    using assms(1) by (simp_all add: in_ok_def)
  have "ihead ?t = (itail ?t + IBUFLEN) mod IBUFLEN" unfolding i(3) using assms(4) by (simp only: add.assoc)
  then have h: "ihead ?t = itail ?t" using i(1,2) by simp
  have s: "isem (tty ?T3 n) = isem ?t" "icursor (tty ?T2 n) = icursor ?t" "kern ?T3 = kern T"
    "icnt (tty ?T3 n) = IBUFLEN + 1" "ibuff (tty ?T3 n) (itail ?t) = s8 (ch OR cerr)"
    using F assms(4) h by (simp_all add: put_in_def)
  have "0 < icursor ?t + 1" using assms(1) by (simp add: in_ok_def)
  then obtain k where "kcall_in ?T3 (signaln (isem (tty ?T3 n)) (icursor (tty ?T2 n) + 1) (kern ?T3)) = Some (?T3\<lparr>kern := k\<rparr>)"
    using kcall_signaln [of ?T3 "isem ?t" "icursor ?t + 1"] assms(2,5) s by (auto simp: algebra_simps)
  then show ?thesis unfolding r using s by auto
qed

text \<open>A terminal whose line is \<open>hi\<close>, with one character left in its output queue.\<close>

definition ex_tty :: ttyst where
  "ex_tty = \<lparr>kern = ex_state, tty = (\<lambda>_. \<lparr>ihead = 2, itail = 0, ibuff = (\<lambda>_. 0)(0 := 104, 1 := 105), isem = 1, icnt = 0,
     ohead = 1, otail = 0, obuff = (\<lambda>_. 120), osem = 1, ocnt = 1, odsend = 0, ehead = 0, etail = 0, ebuff = (\<lambda>_. 0),
     imode = IMCOOKED, iecho = True, ieback = True, evis = True, ecrlf = True, icrlf = True, ierase = True, ierasec = DELCH,
     ikill = True, ikillc = KILLCH, iintr = False, iintrc = INTRCH, iintpid = BADPID, ieof = True, ieofc = EOFC, icursor = 2,
     oflow = True, oheld = False, ostop = STOPCH, ostart = STRTCH, ocrlf = True, ifullc = BELL, unit = 0\<rparr>),
     udrie = (\<lambda>_. False), sent = (\<lambda>_. [])\<rparr>"

lemma ex_tty_simps [simp]:
  "in_ok (tty ex_tty n)" "out_ok (tty ex_tty n)" "kern ex_tty = ex_state" "imode (tty ex_tty n) = IMCOOKED"
  "icnt (tty ex_tty n) = 0" "icursor (tty ex_tty n) = 2" "isem (tty ex_tty n) = 1" "osem (tty ex_tty n) = 1"
  "iintr (tty ex_tty n) = False" "ocnt (tty ex_tty n) = 1" "oheld (tty ex_tty n) = False" "unit (tty ex_tty n) = 0"
  "sent ex_tty 0 = []" "ohead (tty ex_tty n) = 1" "otail (tty ex_tty n) = 0"
  "ready (tty ex_tty n) = []" "line (tty ex_tty n) = [104, 105]" "outq (tty ex_tty n) = [120]" "echoq (tty ex_tty n) = []"
  "kinv ex_state" "semcnt (semaph ex_state 1) = 2" "semcnt (ex_sems 1) = 2"
  using ex_kinv
  by (simp_all add: ex_tty_def in_ok_def out_ok_def ready_def line_def outq_def echoq_def ring_def IBUFLEN_def OBUFLEN_def
      EBUFLEN_def upt_rec numeral_2_eq_2 ex_state_def ex_sems_def)

theorem line_editor_witness:
  "\<exists>T'. ttyiin 0 0 RETURN ex_tty = Some (TRet 0 [], T') \<and> ready (tty T' 0) = [104, 105, 10] \<and> line (tty T' 0) = []"
proof -
  have e: "edit (tty ex_tty 0) NEWLINE (NEWLINE OR 0) ([], [104, 105]) = ([104, 105, 10], [])"
    by (simp add: edit_def ex_tty_def NEWLINE_def KILLCH_def DELCH_def s8_def)
  have h: "NEWLINE = (if RETURN = RETURN \<and> icrlf (tty ex_tty 0) then NEWLINE else RETURN)"
    "\<not> (iintr (tty ex_tty 0) \<and> NEWLINE = iintrc (tty ex_tty 0))"
    "\<not> (oflow (tty ex_tty 0) \<and> NEWLINE \<in> {ostart (tty ex_tty 0), ostop (tty ex_tty 0)})"
    "0 = (if (0::int) AND 28 \<noteq> 0 then IOCHERR else 0)"
    by (simp_all add: ex_tty_def NEWLINE_def STRTCH_def STOPCH_def)
  have s: "line_fits 0 ex_tty" "kinv (kern ex_tty)"
    by (simp_all add: line_fits_def IBUFLEN_def MAXINT_def)
  show ?thesis
    using line_editor [OF ex_tty_simps(1) s(2) ex_tty_simps(4) h(1) s(1) h(2-4)] unfolding ex_tty_simps e by blast
qed

text \<open>C38: output is in order. A character that \<open>ttyputc\<close> stores, past its wait, goes behind those
  that are waiting; the interrupt sends the first character of the echo queue, or when that is
  empty and output is not held the first of the output queue, and nothing else; it takes from the
  queue what it sends and leaves the rest as it was.\<close>

theorem output_in_order:
  assumes "out_ok (tty T n)" "kinv (kern T)" "semcnt (semaph (kern T) (osem (tty T n))) + OBMINSP \<le> MAXINT"
    "ocnt (tty T n) < OBUFLEN"
  shows "out_ok (tty (putc_rest n ch T) n) \<and> outq (tty (putc_rest n ch T) n) = outq (tty T n) @ [s8 ch] \<and>
      echoq (tty (putc_rest n ch T) n) = echoq (tty T n) \<and>
    (\<exists>T' out. ttyoin n T = Some T' \<and> out_ok (tty T' n) \<and> kinv (kern T') \<and>
      sent T' (unit (tty T n)) = sent T (unit (tty T n)) @ out \<and>
      (out, echoq (tty T' n), outq (tty T' n)) = emit (oheld (tty T n)) (echoq (tty T n), outq (tty T n)))"
proof -
  obtain T' where T': "ttyoin n T = Some T'" "out_ok (tty T' n)" "kinv (kern T')"
    "emit (oheld (tty T n)) (echoq (tty T n), outq (tty T n)) =
      (drop (length (sent T (unit (tty T n)))) (sent T' (unit (tty T n))), echoq (tty T' n), outq (tty T' n))"
    "take (length (sent T (unit (tty T n)))) (sent T' (unit (tty T n))) = sent T (unit (tty T n))"
    using ttyoin_emit [OF assms(1-3)] by blast
  have "sent T' (unit (tty T n)) = sent T (unit (tty T n)) @ drop (length (sent T (unit (tty T n)))) (sent T' (unit (tty T n)))"
    by (metis T'(5) append_take_drop_id)
  then show ?thesis using putc_rest_out [OF assms(1,4)] T'(1-4) by auto
qed

theorem output_in_order_witness:
  "outq (tty (putc_rest 0 121 ex_tty) 0) = [120, 121] \<and> (\<exists>T'. ttyoin 0 ex_tty = Some T' \<and> sent T' 0 = [120] \<and> outq (tty T' 0) = [])"
  using output_in_order [of ex_tty 0 121] by (auto simp: OBMINSP_def MAXINT_def OBUFLEN_def emit_def s8_def u8_def)

text \<open>C39: \<open>writcopy\<close> never writes past the free room of the output buffer: what it copies is a
  prefix of the characters, with a carriage return before every newline, it goes behind the output
  queue, the new queue is at most as long as the buffer, and characters are left over only when the
  buffer has room for at most one more.\<close>

theorem writcopy_fits:
  assumes "out_ok t" "writcopy_loop (ocrlf t) (OBUFLEN - ocnt t) (ohead t) cs (obuff t) = (avail, h, left, b)"
    "t' = t\<lparr>obuff := b, ohead := h, ocnt := OBUFLEN - (avail + 1)\<rparr>"
  shows "\<exists>copied. cs = copied @ left \<and> out_ok t' \<and> outq t' = outq t @ expanded (ocrlf t) copied \<and>
    ocnt t' \<le> OBUFLEN \<and> (left = [] \<or> OBUFLEN - 1 \<le> ocnt t')"
proof -
  have O: "0 \<le> ocnt t" "ocnt t \<le> OBUFLEN" "ohead t = (otail t + ocnt t) mod OBUFLEN" using assms(1) by (simp_all add: out_ok_def)
  obtain d where d: "cs = d @ left" "let w = expanded (ocrlf t) d; m' = ocnt t + int (length w) in
    m' \<le> OBUFLEN \<and> avail + 1 = OBUFLEN - m' \<and> h = (otail t + m') mod OBUFLEN \<and>
    ring OBUFLEN b (otail t) (nat m') = ring OBUFLEN (obuff t) (otail t) (nat (ocnt t)) @ w \<and> (left \<noteq> [] \<longrightarrow> OBUFLEN - 1 \<le> m')"
    using writcopy_loop_ring [OF O(1,2) assms(2) [unfolded O(3)]] by blast
  have c: "ocnt t' = ocnt t + int (length (expanded (ocrlf t) d))" using d(2) by (simp add: assms(3) Let_def)
  have "out_ok t'" using assms(1) d(2) c by (simp add: out_ok_def assms(3) Let_def)
  moreover have "outq t' = outq t @ expanded (ocrlf t) d" using d(2) c by (simp add: outq_def assms(3) Let_def)
  ultimately show ?thesis using d c by (auto simp: Let_def)
qed

theorem writcopy_fits_witness:
  "\<exists>avail h left b. writcopy_loop (ocrlf (tty ex_tty 0)) (OBUFLEN - 1) 1 [65, 10] (obuff (tty ex_tty 0)) = (avail, h, left, b) \<and>
    ring OBUFLEN b 0 4 = [120, 65, 13, 10]"
proof -
  obtain avail h left b where r: "writcopy_loop (ocrlf (tty ex_tty 0)) (OBUFLEN - 1) 1 [65, 10] (obuff (tty ex_tty 0)) = (avail, h, left, b)"
    using prod_cases4 by blast
  have l: "left = []" "avail = 507"
    using r by (simp_all add: ex_tty_def OBUFLEN_def NEWLINE_def s8_def wrap_def)
  show ?thesis
    using writcopy_fits [of "tty ex_tty 0" "[65, 10]" avail h left b] r l
    by (simp add: outq_def expanded_def s8_def NEWLINE_def RETURN_def OBUFLEN_def) (simp add: ex_tty_def ring_def)
qed

end
