(* ===== verification/Frame.thy ===== *)
theory Frame
  imports Memory "HOL-Library.Word"
begin

text \<open>
  IEEE 802.15.4 frames (\<open>src/sys/ieee802_15_4/frame802154.c\<close>, \<open>frame802154.h\<close>): the fixed length
  prototype of a frame, and its variable length form in the frame buffer of the radio. Octets are
  numbers below 256; a bit field is a number within its width, and the fields of a \<open>uint16_t\<close> lie
  from the least significant bit on, as avr-gcc lays them out. The receive buffer is the memory
  from TRXFBST on.
\<close>

section \<open>Frames\<close>

definition MAX_FRAME_LENGTH :: int where "MAX_FRAME_LENGTH = 127"
definition FTR_LEN :: int where "FTR_LEN = 2"
definition MAX_DATA_LENGTH :: int where "MAX_DATA_LENGTH = 124"
definition FRAME_TYPE_BEACON :: int where "FRAME_TYPE_BEACON = 0"
definition FRAME_TYPE_DATA :: int where "FRAME_TYPE_DATA = 1"
definition FRAME_TYPE_ACK :: int where "FRAME_TYPE_ACK = 2"
definition FRAME_TYPE_MAC_COMMAND :: int where "FRAME_TYPE_MAC_COMMAND = 3"
definition ADDRESS_NONE :: int where "ADDRESS_NONE = 0"
definition ADDRESS_SHORT :: int where "ADDRESS_SHORT = 2"
definition ADDRESS_EXTENDED :: int where "ADDRESS_EXTENDED = 3"
definition FRAME_VERSION_2006 :: int where "FRAME_VERSION_2006 = 1"
definition sizeof_frame :: int where "sizeof_frame = 165"

record fcf =
  frameType :: int
  frameSecurity :: int
  framePending :: int
  frameAckRequested :: int
  framePanIDCompress :: int
  frameReserved :: int
  frameDestinationAddressMode :: int
  frameVersion :: int
  frameSourceAddressMode :: int

record scf =
  securityLevel :: int
  keyIdMode :: int
  reservedBits :: int

record aux_hdr =
  scf :: scf
  frameCounter :: int
  key :: "int list"

record frame =
  fcf :: fcf
  seqno :: int
  dest_pid :: int
  dest_addr :: "int list"
  src_pid :: int
  src_addr :: "int list"
  aux_hdr :: aux_hdr
  header_len :: int
  data_len :: int
  data :: "int list"
  crc :: int

section \<open>Fields as octets\<close>

definition le16 :: "int \<Rightarrow> int list" where
  "le16 x = [x mod 256, x div 256 mod 256]"

definition of_le16 :: "int list \<Rightarrow> int" where
  "of_le16 bs = bs ! 0 + 256 * bs ! 1"

definition le32 :: "int \<Rightarrow> int list" where
  "le32 x = [x mod 256, x div 256 mod 256, x div 65536 mod 256, x div 16777216 mod 256]"

definition of_le32 :: "int list \<Rightarrow> int" where
  "of_le32 bs = bs ! 0 + 256 * bs ! 1 + 65536 * bs ! 2 + 16777216 * bs ! 3"

definition fcf_word :: "fcf \<Rightarrow> int" where
  "fcf_word f = frameType f + 8 * frameSecurity f + 16 * framePending f + 32 * frameAckRequested f +
     64 * framePanIDCompress f + 128 * frameReserved f + 1024 * frameDestinationAddressMode f +
     4096 * frameVersion f + 16384 * frameSourceAddressMode f"

definition word_fcf :: "int \<Rightarrow> fcf" where
  "word_fcf w = \<lparr>frameType = w mod 8, frameSecurity = w div 8 mod 2, framePending = w div 16 mod 2,
     frameAckRequested = w div 32 mod 2, framePanIDCompress = w div 64 mod 2, frameReserved = w div 128 mod 8,
     frameDestinationAddressMode = w div 1024 mod 4, frameVersion = w div 4096 mod 4,
     frameSourceAddressMode = w div 16384 mod 4\<rparr>"

definition scf_octet :: "scf \<Rightarrow> int" where
  "scf_octet s = securityLevel s + 8 * keyIdMode s + 32 * reservedBits s"

definition octet_scf :: "int \<Rightarrow> scf" where
  "octet_scf w = \<lparr>securityLevel = w mod 8, keyIdMode = w div 8 mod 4, reservedBits = w div 32 mod 8\<rparr>"

section \<open>The transmit buffer\<close>

text \<open>\<open>to\<close> is what has been written so far.\<close>

fun copyOctets :: "int list \<Rightarrow> int list \<Rightarrow> nat \<Rightarrow> int list" where
  "copyOctets to src 0 = to"
| "copyOctets to src (Suc n) = copyOctets (to @ [hd src]) (tl src) n"

definition addr_octets :: "int \<Rightarrow> nat" where
  "addr_octets mode = (if mode = ADDRESS_SHORT then 2 else if mode = ADDRESS_EXTENDED then 8 else 0)"

definition key_octets :: "int \<Rightarrow> nat" where
  "key_octets m = (if m = 1 then 1 else if m = 2 then 5 else if m = 3 then 9 else 0)"

text \<open>More data than the prototype can hold would be read from behind it: no value.\<close>

definition packTXFrame :: "frame \<Rightarrow> int list option" where
  "packTXFrame p =
     (let f = fcf p;
          q = [u8 (header_len p + data_len p + FTR_LEN)];
          q = copyOctets q (le16 (fcf_word f)) 2;
          q = copyOctets q [seqno p] 1;
          q = (if frameDestinationAddressMode f \<noteq> ADDRESS_NONE then copyOctets q (le16 (dest_pid p)) 2 else q);
          q = copyOctets q (dest_addr p) (addr_octets (frameDestinationAddressMode f));
          q = (if framePanIDCompress f = 0 then copyOctets q (le16 (src_pid p)) 2 else q);
          q = copyOctets q (src_addr p) (addr_octets (frameSourceAddressMode f));
          q = (if frameSecurity f = 1
               then
                 (let q = copyOctets q [scf_octet (scf (aux_hdr p))] 1;
                      q = copyOctets q (le32 (frameCounter (aux_hdr p))) 4
                  in copyOctets q (key (aux_hdr p)) (key_octets (keyIdMode (scf (aux_hdr p)))))
               else q)
      in if data_len p > MAX_DATA_LENGTH then None else Some (q @ take (nat (data_len p)) (data p)))"

section \<open>The receive buffer\<close>

text \<open>What was copied and where the copy stopped.\<close>

fun copyRXOctets :: "(int \<Rightarrow> int) \<Rightarrow> int \<Rightarrow> nat \<Rightarrow> int list \<times> int" where
  "copyRXOctets buf q 0 = ([], q)"
| "copyRXOctets buf q (Suc n) = (let (xs, r) = copyRXOctets buf (q + 1) n in (buf q # xs, r))"

text \<open>A short address is stored in the first two octets, and the others are cleared.\<close>

definition unpack_addr :: "(int \<Rightarrow> int) \<Rightarrow> int \<Rightarrow> int \<Rightarrow> int list \<Rightarrow> int list \<times> int" where
  "unpack_addr buf mode q old =
     (if mode = ADDRESS_SHORT then (let (a, q) = copyRXOctets buf q 2 in (a @ replicate 6 0, q))
      else if mode = ADDRESS_EXTENDED then copyRXOctets buf q 8
      else (old, q))"

definition unpack_aux :: "(int \<Rightarrow> int) \<Rightarrow> int \<Rightarrow> aux_hdr \<Rightarrow> aux_hdr \<times> int" where
  "unpack_aux buf q a =
     (let (s, q) = copyRXOctets buf q 1;
          (c, q) = copyRXOctets buf q 4;
          sc = octet_scf (hd s);
          (k, q) = copyRXOctets buf q (key_octets (keyIdMode sc))
      in (\<lparr>scf = sc, frameCounter = of_le32 c, key = k @ drop (length k) (key a)\<rparr>, q))"

text \<open>\<open>rxlen\<close> is the register TST_RX_LENGTH. A payload longer than the array of the prototype is
  written behind it: no value.\<close>

definition unpackRXFrame :: "(int \<Rightarrow> int) \<Rightarrow> int \<Rightarrow> frame \<Rightarrow> frame option" where
  "unpackRXFrame buf rxlen p =
     (let (w, q) = copyRXOctets buf 0 2;
          f = word_fcf (of_le16 w);
          (s, q) = copyRXOctets buf q 1;
          (dp, q) = (if frameDestinationAddressMode f \<noteq> ADDRESS_NONE
                     then (let (b, q) = copyRXOctets buf q 2 in (of_le16 b, q)) else (dest_pid p, q));
          (da, q) = unpack_addr buf (frameDestinationAddressMode f) q (dest_addr p);
          (sp, q) = (if framePanIDCompress f = 0
                     then (let (b, q) = copyRXOctets buf q 2 in (of_le16 b, q)) else (src_pid p, q));
          (sa, q) = unpack_addr buf (frameSourceAddressMode f) q (src_addr p);
          (aux, q) = (if frameSecurity f = 1 then unpack_aux buf q (aux_hdr p) else (aux_hdr p, q));
          hl = u8 q;
          dl = u8 (rxlen - hl - FTR_LEN)
      in if dl > MAX_DATA_LENGTH then None
         else
           (let (d, q) = copyRXOctets buf q (nat dl)
            in Some \<lparr>fcf = f, seqno = hd s, dest_pid = dp, dest_addr = da, src_pid = sp, src_addr = sa, aux_hdr = aux,
                 header_len = hl, data_len = dl, data = d @ drop (nat dl) (data p), crc = 256 * buf q + buf (q + 1)\<rparr>))"

section \<open>Lengths and headers\<close>

definition hdr_length :: "frame \<Rightarrow> int" where
  "hdr_length p =
     (let f = fcf p;
          ret = 3;
          ret = (if frameDestinationAddressMode f \<noteq> ADDRESS_NONE then ret + 2 else ret);
          ret = (if frameDestinationAddressMode f = ADDRESS_SHORT then ret + 2
                 else if frameDestinationAddressMode f = ADDRESS_EXTENDED then ret + 8 else ret);
          ret = (if framePanIDCompress f = 0 then ret + 2 else ret);
          ret = (if frameSourceAddressMode f = ADDRESS_SHORT then ret + 2
                 else if frameSourceAddressMode f = ADDRESS_EXTENDED then ret + 8 else ret)
      in if frameSecurity f = 1
         then (let ret = ret + 5; m = keyIdMode (scf (aux_hdr p))
               in if m = 1 then ret + 1 else if m = 2 then ret + 5 else if m = 3 then ret + 9 else ret)
         else ret)"

definition getFrameHdrLength :: "frame \<Rightarrow> int \<times> frame" where
  "getFrameHdrLength p = (hdr_length p, p\<lparr>header_len := hdr_length p\<rparr>)"

text \<open>The MAC attributes the header takes its source from, and the frames that were allocated.\<close>

record macst =
  macBSN :: int
  macShortAddress :: int
  macPANId :: int
  heap :: memst
  frames :: "int \<Rightarrow> frame"

definition set_saddr :: "int \<Rightarrow> int list \<Rightarrow> int list" where
  "set_saddr a bs = le16 a @ drop 2 bs"

definition radio_createDataHdr :: "int \<Rightarrow> int \<Rightarrow> int \<Rightarrow> int \<Rightarrow> int \<Rightarrow> macst \<Rightarrow> macst" where
  "radio_createDataHdr pkt daddr dpanID saddr spanID M =
     (let p = frames M pkt;
          p = p\<lparr>fcf := (fcf p)\<lparr>frameType := FRAME_TYPE_DATA, frameSecurity := 0, frameAckRequested := 0, framePending := 0,
                frameVersion := FRAME_VERSION_2006, frameDestinationAddressMode := ADDRESS_SHORT,
                framePanIDCompress := 0, frameSourceAddressMode := ADDRESS_SHORT\<rparr>,
              seqno := macBSN M, dest_pid := dpanID, dest_addr := set_saddr daddr (dest_addr p), src_pid := spanID,
              src_addr := set_saddr saddr (src_addr p)\<rparr>
      in M\<lparr>macBSN := u8 (macBSN M + 1), frames := (frames M)(pkt := snd (getFrameHdrLength p))\<rparr>)"

definition makeMACCommandHdr :: "int \<Rightarrow> int" where
  "makeMACCommandHdr p = p"

text \<open>Only data frames are made; what \<open>malloc\<close> returned is not looked at.\<close>

definition frame802154_create :: "int \<Rightarrow> macst \<Rightarrow> (int \<times> macst) option" where
  "frame802154_create type M =
     (if type = FRAME_TYPE_DATA
      then do {
        (p, m) \<leftarrow> wrap_malloc sizeof_frame (heap M);
        Some (p, radio_createDataHdr p 65535 65535 (macShortAddress M) (macPANId M) (M\<lparr>heap := m\<rparr>))
      }
      else Some (0, M))"

section \<open>Round trips of the fields\<close>

definition fcf_ok :: "fcf \<Rightarrow> bool" where
  "fcf_ok f \<longleftrightarrow> frameType f \<in> {0..<8} \<and> frameSecurity f \<in> {0..<2} \<and> framePending f \<in> {0..<2} \<and>
     frameAckRequested f \<in> {0..<2} \<and> framePanIDCompress f \<in> {0..<2} \<and> frameReserved f \<in> {0..<8} \<and>
     frameDestinationAddressMode f \<in> {0..<4} \<and> frameVersion f \<in> {0..<4} \<and> frameSourceAddressMode f \<in> {0..<4}"

lemma digits:
  fixes a b n m :: int
  assumes "0 \<le> a" "a < n" "0 < n"
  shows "(a + n * b) mod n = a" "(a + n * b) div n = b"
  using assms by simp_all

lemma word_fcf_word [simp]:
  assumes "fcf_ok f"
  shows "word_fcf (fcf_word f) = f"
proof -
  obtain t s p a c r d v m where f: "f = \<lparr>frameType = t, frameSecurity = s, framePending = p, frameAckRequested = a,
    framePanIDCompress = c, frameReserved = r, frameDestinationAddressMode = d, frameVersion = v, frameSourceAddressMode = m\<rparr>"
    by (cases f) auto
  have R: "0 \<le> t" "t < 8" "0 \<le> s" "s < 2" "0 \<le> p" "p < 2" "0 \<le> a" "a < 2" "0 \<le> c" "c < 2" "0 \<le> r" "r < 8"
    "0 \<le> d" "d < 4" "0 \<le> v" "v < 4" "0 \<le> m" "m < 4" using assms by (simp_all add: f fcf_ok_def)
  have e: "fcf_word f = t + 8 * (s + 2 * (p + 2 * (a + 2 * (c + 2 * (r + 8 * (d + 4 * (v + 4 * m)))))))"
    by (simp add: f fcf_word_def)
  let ?w = "fcf_word f"
  have d1: "?w mod 8 = t" "?w div 8 = s + 2 * (p + 2 * (a + 2 * (c + 2 * (r + 8 * (d + 4 * (v + 4 * m))))))"
    unfolding e by (rule digits; use R in simp)+
  have q: "?w div 16 = ?w div 8 div 2" "?w div 32 = ?w div 16 div 2" "?w div 64 = ?w div 32 div 2" "?w div 128 = ?w div 64 div 2"
    "?w div 1024 = ?w div 128 div 8" "?w div 4096 = ?w div 1024 div 4" "?w div 16384 = ?w div 4096 div 4"
    by (simp_all add: zdiv_zmult2_eq [symmetric])
  have d2: "?w div 8 mod 2 = s" "?w div 16 = p + 2 * (a + 2 * (c + 2 * (r + 8 * (d + 4 * (v + 4 * m)))))"
    unfolding q(1) d1 by (rule digits; use R in simp)+
  have d3: "?w div 16 mod 2 = p" "?w div 32 = a + 2 * (c + 2 * (r + 8 * (d + 4 * (v + 4 * m))))"
    unfolding q(2) d2(2) by (rule digits; use R in simp)+
  have d4: "?w div 32 mod 2 = a" "?w div 64 = c + 2 * (r + 8 * (d + 4 * (v + 4 * m)))"
    unfolding q(3) d3(2) by (rule digits; use R in simp)+
  have d5: "?w div 64 mod 2 = c" "?w div 128 = r + 8 * (d + 4 * (v + 4 * m))"
    unfolding q(4) d4(2) by (rule digits; use R in simp)+
  have d6: "?w div 128 mod 8 = r" "?w div 1024 = d + 4 * (v + 4 * m)"
    unfolding q(5) d5(2) by (rule digits; use R in simp)+
  have d7: "?w div 1024 mod 4 = d" "?w div 4096 = v + 4 * m"
    unfolding q(6) d6(2) by (rule digits; use R in simp)+
  have d8: "?w div 4096 mod 4 = v" "?w div 16384 = m"
    unfolding q(7) d7(2) by (rule digits; use R in simp)+
  show ?thesis unfolding word_fcf_def d1(1) d2(1) d3(1) d4(1) d5(1) d6(1) d7(1) d8 using R by (simp add: f)
qed

lemma fcf_word_range:
  assumes "fcf_ok f"
  shows "0 \<le> fcf_word f" "fcf_word f < 65536"
  using assms by (auto simp: fcf_ok_def fcf_word_def)

definition scf_ok :: "scf \<Rightarrow> bool" where
  "scf_ok s \<longleftrightarrow> securityLevel s \<in> {0..<8} \<and> keyIdMode s \<in> {0..<4} \<and> reservedBits s \<in> {0..<8}"

lemma octet_scf_octet [simp]:
  assumes "scf_ok s"
  shows "octet_scf (scf_octet s) = s"
proof -
  obtain l k r where s: "s = \<lparr>securityLevel = l, keyIdMode = k, reservedBits = r\<rparr>" by (cases s) auto
  have R: "0 \<le> l" "l < 8" "0 \<le> k" "k < 4" "0 \<le> r" "r < 8" using assms by (simp_all add: s scf_ok_def)
  have e: "scf_octet s = l + 8 * (k + 4 * r)" by (simp add: s scf_octet_def)
  let ?w = "scf_octet s"
  have d1: "?w mod 8 = l" "?w div 8 = k + 4 * r" unfolding e by (rule digits; use R in simp)+
  have q: "?w div 32 = ?w div 8 div 4" by (simp add: zdiv_zmult2_eq [symmetric])
  have d2: "?w div 8 mod 4 = k" "?w div 32 = r" unfolding q d1(2) by (rule digits; use R in simp)+
  show ?thesis unfolding octet_scf_def d1(1) d2 using R by (simp add: s)
qed

lemma of_le16_le16 [simp]: "0 \<le> x \<Longrightarrow> x < 65536 \<Longrightarrow> of_le16 (le16 x) = x"
  by (simp add: le16_def of_le16_def)

lemma four_digits:
  fixes x :: int
  assumes "x = a + 256 * y" "y = b + 256 * z" "z = c + 256 * d"
  shows "a + 256 * b + 65536 * c + 16777216 * d = x"
  using assms by simp

lemma of_le32_le32 [simp]:
  assumes "0 \<le> x" "x < 4294967296"
  shows "of_le32 (le32 x) = x"
proof -
  have e: "x div 256 div 256 = x div 65536" "x div 65536 div 256 = x div 16777216"
    by (simp_all add: zdiv_zmult2_eq [symmetric])
  have d: "x = x mod 256 + 256 * (x div 256)" "x div 256 = x div 256 mod 256 + 256 * (x div 65536)"
    "x div 65536 = x div 65536 mod 256 + 256 * (x div 16777216)"
    by (simp_all only: e [symmetric] mod_mult_div_eq)
  have m: "x div 16777216 mod 256 = x div 16777216" using assms by (intro mod_pos_pos_trivial) auto
  have n: "[a, b, c, d] ! 0 = a" "[a, b, c, d] ! 1 = b" "[a, b, c, d] ! 2 = c" "[a, b, c, d] ! 3 = d" for a b c d :: int
    by simp_all
  show ?thesis unfolding of_le32_def le32_def n m by (rule four_digits [OF d])
qed

lemma length_le [simp]: "length (le16 x) = 2" "length (le32 x) = 4"
  by (simp_all add: le16_def le32_def)

section \<open>Packing and unpacking\<close>

lemma copyOctets_append: "n \<le> length src \<Longrightarrow> copyOctets to src n = to @ take n src"
  by (induction to src n rule: copyOctets.induct) (auto simp: take_Suc neq_Nil_conv Suc_le_length_iff)

text \<open>The memory holds a list of octets.\<close>

definition holds :: "(int \<Rightarrow> int) \<Rightarrow> int \<Rightarrow> int list \<Rightarrow> bool" where
  "holds buf q xs \<longleftrightarrow> (\<forall>i < length xs. buf (q + int i) = xs ! i)"

lemma holds_Nil [simp]: "holds buf q []"
  by (simp add: holds_def)

lemma holds_Cons [simp]: "holds buf q (x # xs) \<longleftrightarrow> buf q = x \<and> holds buf (q + 1) xs"
  unfolding holds_def by (auto simp: nth_Cons less_Suc_eq_0_disj algebra_simps split: nat.splits)

lemma holds_append [simp]: "holds buf q (xs @ ys) \<longleftrightarrow> holds buf q xs \<and> holds buf (q + int (length xs)) ys"
  by (induction xs arbitrary: q) (auto simp: algebra_simps)

lemma copyRXOctets_holds:
  "holds buf q xs \<Longrightarrow> n = length xs \<Longrightarrow> copyRXOctets buf q n = (xs, q + int n)"
  by (induction xs arbitrary: q n) (auto simp: algebra_simps)

lemma copyRXOctets_end: "snd (copyRXOctets buf q n) = q + int n"
  by (induction n arbitrary: q) (simp_all add: split_beta)

text \<open>A frame within the limits of its fields, and the octets of its header and of the whole.\<close>

definition octets :: "int list \<Rightarrow> bool" where
  "octets xs \<longleftrightarrow> set xs \<subseteq> {0..<256}"

definition frame_ok :: "frame \<Rightarrow> bool" where
  "frame_ok p \<longleftrightarrow> fcf_ok (fcf p) \<and> seqno p \<in> {0..<256} \<and> dest_pid p \<in> {0..<65536} \<and> src_pid p \<in> {0..<65536} \<and>
     length (dest_addr p) = 8 \<and> length (src_addr p) = 8 \<and> scf_ok (scf (aux_hdr p)) \<and>
     frameCounter (aux_hdr p) \<in> {0..<4294967296} \<and> length (key (aux_hdr p)) = 9 \<and> 0 \<le> data_len p \<and>
     length (data p) = 124 \<and> header_len p = hdr_length p \<and> header_len p + data_len p + FTR_LEN \<le> MAX_FRAME_LENGTH"

definition aux_octets :: "aux_hdr \<Rightarrow> int list" where
  "aux_octets a = scf_octet (scf a) # le32 (frameCounter a) @ take (key_octets (keyIdMode (scf a))) (key a)"

definition header_octets :: "frame \<Rightarrow> int list" where
  "header_octets p =
     (let f = fcf p in
      le16 (fcf_word f) @ [seqno p] @
      (if frameDestinationAddressMode f \<noteq> ADDRESS_NONE then le16 (dest_pid p) else []) @
      take (addr_octets (frameDestinationAddressMode f)) (dest_addr p) @
      (if framePanIDCompress f = 0 then le16 (src_pid p) else []) @
      take (addr_octets (frameSourceAddressMode f)) (src_addr p) @
      (if frameSecurity f = 1 then aux_octets (aux_hdr p) else []))"

lemma addr_octets_le: "addr_octets m \<le> 8" "key_octets m \<le> 9"
  by (simp_all add: addr_octets_def key_octets_def)

lemma packTXFrame_octets:
  assumes "frame_ok p"
  shows "packTXFrame p = Some (u8 (header_len p + data_len p + FTR_LEN) # header_octets p @ take (nat (data_len p)) (data p))"
proof -
  have L: "length (dest_addr p) = 8" "length (src_addr p) = 8" "length (key (aux_hdr p)) = 9"
    using assms by (simp_all add: frame_ok_def)
  have h: "3 \<le> hdr_length p" by (simp add: hdr_length_def Let_def)
  then have d: "\<not> data_len p > MAX_DATA_LENGTH"
    using assms by (simp add: frame_ok_def MAX_FRAME_LENGTH_def FTR_LEN_def MAX_DATA_LENGTH_def)
  show ?thesis
    unfolding packTXFrame_def header_octets_def aux_octets_def Let_def
    using addr_octets_le L d by (simp add: copyOctets_append)
qed

lemma length_header_octets:
  assumes "frame_ok p"
  shows "int (length (header_octets p)) = hdr_length p"
proof -
  have L: "length (dest_addr p) = 8" "length (src_addr p) = 8" "length (key (aux_hdr p)) = 9"
    using assms by (simp_all add: frame_ok_def)
  show ?thesis
    unfolding header_octets_def hdr_length_def aux_octets_def Let_def
    by (simp add: L addr_octets_def key_octets_def ADDRESS_NONE_def ADDRESS_SHORT_def ADDRESS_EXTENDED_def)
qed

text \<open>What reception makes of a frame whose fields that are not sent were those of \<open>p0\<close>.\<close>

definition received_addr :: "int \<Rightarrow> int list \<Rightarrow> int list \<Rightarrow> int list" where
  "received_addr mode a old = (if mode = ADDRESS_SHORT then take 2 a @ replicate 6 0 else if mode = ADDRESS_EXTENDED then a else old)"

definition received :: "frame \<Rightarrow> int \<Rightarrow> frame \<Rightarrow> frame" where
  "received p fcs p0 =
     (let f = fcf p; a = aux_hdr p; n = key_octets (keyIdMode (scf a)) in
      \<lparr>fcf = f, seqno = seqno p,
       dest_pid = (if frameDestinationAddressMode f \<noteq> ADDRESS_NONE then dest_pid p else dest_pid p0),
       dest_addr = received_addr (frameDestinationAddressMode f) (dest_addr p) (dest_addr p0),
       src_pid = (if framePanIDCompress f = 0 then src_pid p else src_pid p0),
       src_addr = received_addr (frameSourceAddressMode f) (src_addr p) (src_addr p0),
       aux_hdr = (if frameSecurity f = 1 then a\<lparr>key := take n (key a) @ drop n (key (aux_hdr p0))\<rparr> else aux_hdr p0),
       header_len = header_len p, data_len = data_len p,
       data = take (nat (data_len p)) (data p) @ drop (nat (data_len p)) (data p0), crc = fcs\<rparr>)"

lemma unpack_addr_holds:
  assumes "holds buf q (take (addr_octets m) a)" "length a = 8"
  shows "unpack_addr buf m q old = (received_addr m a old, q + int (addr_octets m))"
proof -
  have c: "copyRXOctets buf q (addr_octets m) = (take (addr_octets m) a, q + int (addr_octets m))"
    by (rule copyRXOctets_holds [OF assms(1)]) (simp add: assms(2) addr_octets_le)
  show ?thesis
    using c assms(2) unfolding unpack_addr_def received_addr_def addr_octets_def
    by (simp split: if_splits add: ADDRESS_SHORT_def ADDRESS_EXTENDED_def)
qed

lemma unpack_aux_holds:
  assumes "holds buf q (aux_octets a)" "scf_ok (scf a)" "frameCounter a \<in> {0..<4294967296}" "length (key a) = 9"
  defines "n \<equiv> key_octets (keyIdMode (scf a))"
  shows "unpack_aux buf q b = (a\<lparr>key := take n (key a) @ drop n (key b)\<rparr>, q + int (length (aux_octets a)))"
proof -
  have H: "holds buf q [scf_octet (scf a)]" "holds buf (q + 1) (le32 (frameCounter a))" "holds buf (q + 5) (take n (key a))"
    using assms(1) by (simp_all add: aux_octets_def n_def add.commute)
  have c: "copyRXOctets buf q 1 = ([scf_octet (scf a)], q + 1)" "copyRXOctets buf (q + 1) 4 = (le32 (frameCounter a), q + 5)"
    "copyRXOctets buf (q + 5) n = (take n (key a), q + 5 + int n)"
    using copyRXOctets_holds [OF H(1), of 1] copyRXOctets_holds [OF H(2), of 4] copyRXOctets_holds [OF H(3), of n] assms(4)
    by (simp_all add: n_def addr_octets_le algebra_simps)
  have l: "length (take n (key a)) = n" using assms(4) by (simp add: n_def addr_octets_le)
  have la: "int (length (aux_octets a)) = 5 + int n" using assms(4) by (simp add: aux_octets_def n_def addr_octets_le)
  show ?thesis
    unfolding unpack_aux_def c prod.case Let_def list.sel octet_scf_octet [OF assms(2)] n_def [symmetric] l la
    using assms(3) by (cases a) simp
qed

lemma unpack_received:
  assumes "frame_ok p" "holds buf 0 (header_octets p @ take (nat (data_len p)) (data p) @ [hi, lo])"
    "rxlen = header_len p + data_len p + FTR_LEN"
  shows "unpackRXFrame buf rxlen p0 = Some (received p (256 * hi + lo) p0)"
proof -
  let ?f = "fcf p" and ?dm = "frameDestinationAddressMode (fcf p)" and ?sm = "frameSourceAddressMode (fcf p)"
  have K: "fcf_ok ?f" "dest_pid p \<in> {0..<65536}" "src_pid p \<in> {0..<65536}" "length (dest_addr p) = 8" "length (src_addr p) = 8"
    "scf_ok (scf (aux_hdr p))" "frameCounter (aux_hdr p) \<in> {0..<4294967296}" "length (key (aux_hdr p)) = 9" "0 \<le> data_len p"
    "length (data p) = 124" "header_len p = hdr_length p" "header_len p + data_len p + FTR_LEN \<le> MAX_FRAME_LENGTH"
    using assms(1) by (simp_all add: frame_ok_def)
  have hl: "3 \<le> hdr_length p" by (simp add: hdr_length_def Let_def)
  have dl: "data_len p \<le> MAX_DATA_LENGTH" "hdr_length p + data_len p \<le> 125"
    using K(11,12) hl by (simp_all add: MAX_FRAME_LENGTH_def FTR_LEN_def MAX_DATA_LENGTH_def)
  define q1 where "q1 = (3::int)"
  define q2 where "q2 = q1 + (if ?dm \<noteq> ADDRESS_NONE then 2 else 0)"
  define q3 where "q3 = q2 + int (addr_octets ?dm)"
  define q4 where "q4 = q3 + (if framePanIDCompress ?f = 0 then 2 else 0)"
  define q5 where "q5 = q4 + int (addr_octets ?sm)"
  define q6 where "q6 = q5 + (if frameSecurity ?f = 1 then int (length (aux_octets (aux_hdr p))) else 0)"
  have lens: "length (take (addr_octets ?dm) (dest_addr p)) = addr_octets ?dm" "length (take (addr_octets ?sm) (src_addr p)) = addr_octets ?sm"
    "length (take (nat (data_len p)) (data p)) = nat (data_len p)"
    using K dl by (simp_all add: addr_octets_le MAX_DATA_LENGTH_def)
  have H: "holds buf 0 (le16 (fcf_word ?f))" "holds buf 2 [seqno p]"
    "holds buf q1 (if ?dm \<noteq> ADDRESS_NONE then le16 (dest_pid p) else [])"
    "holds buf q2 (take (addr_octets ?dm) (dest_addr p))"
    "holds buf q3 (if framePanIDCompress ?f = 0 then le16 (src_pid p) else [])"
    "holds buf q4 (take (addr_octets ?sm) (src_addr p))"
    "holds buf q5 (if frameSecurity ?f = 1 then aux_octets (aux_hdr p) else [])"
    "holds buf q6 (take (nat (data_len p)) (data p) @ [hi, lo])"
    using assms(2) lens unfolding header_octets_def Let_def q6_def q5_def q4_def q3_def q2_def q1_def
    by (auto simp: algebra_simps split: if_splits)
  have q6: "q6 = hdr_length p"
    using length_header_octets [OF assms(1)] lens unfolding header_octets_def Let_def q6_def q5_def q4_def q3_def q2_def q1_def
    by (simp split: if_splits)
  have c1: "copyRXOctets buf 0 2 = (le16 (fcf_word ?f), 2)" "copyRXOctets buf 2 1 = ([seqno p], q1)"
    using copyRXOctets_holds [OF H(1), of 2] copyRXOctets_holds [OF H(2), of 1] by (simp_all add: q1_def)
  have c2: "(if ?dm \<noteq> ADDRESS_NONE then (let (b, q) = copyRXOctets buf q1 2 in (of_le16 b, q)) else (dest_pid p0, q1)) =
      (if ?dm \<noteq> ADDRESS_NONE then dest_pid p else dest_pid p0, q2)"
    using copyRXOctets_holds [OF H(3), of 2] K(2) by (simp add: q2_def)
  have c3: "unpack_addr buf ?dm q2 (dest_addr p0) = (received_addr ?dm (dest_addr p) (dest_addr p0), q3)"
    using unpack_addr_holds [OF H(4) K(4)] by (simp add: q3_def)
  have c4: "(if framePanIDCompress ?f = 0 then (let (b, q) = copyRXOctets buf q3 2 in (of_le16 b, q)) else (src_pid p0, q3)) =
      (if framePanIDCompress ?f = 0 then src_pid p else src_pid p0, q4)"
    using copyRXOctets_holds [OF H(5), of 2] K(3) by (simp add: q4_def)
  have c5: "unpack_addr buf ?sm q4 (src_addr p0) = (received_addr ?sm (src_addr p) (src_addr p0), q5)"
    using unpack_addr_holds [OF H(6) K(5)] by (simp add: q5_def)
  let ?n = "key_octets (keyIdMode (scf (aux_hdr p)))"
  have c6: "(if frameSecurity ?f = 1 then unpack_aux buf q5 (aux_hdr p0) else (aux_hdr p0, q5)) =
     (if frameSecurity ?f = 1 then (aux_hdr p)\<lparr>key := take ?n (key (aux_hdr p)) @ drop ?n (key (aux_hdr p0))\<rparr> else aux_hdr p0, q6)"
  proof (cases "frameSecurity ?f = 1")
    case True
    then have "holds buf q5 (aux_octets (aux_hdr p))" using H(7) by simp
    from unpack_aux_holds [OF this K(6-8)] True show ?thesis by (simp add: q6_def)
  next
    case False
    then show ?thesis by (simp add: q6_def)
  qed
  have u: "u8 q6 = header_len p" "u8 (rxlen - header_len p - FTR_LEN) = data_len p"
    using q6 K(9,11) dl hl by (simp_all add: u8_def assms(3))
  have c7: "copyRXOctets buf q6 (nat (data_len p)) = (take (nat (data_len p)) (data p), q6 + data_len p)"
    using copyRXOctets_holds [of buf q6 "take (nat (data_len p)) (data p)" "nat (data_len p)"] H(8) lens(3) K(9) by simp
  have e: "buf (q6 + data_len p) = hi" "buf (q6 + data_len p + 1) = lo" using H(8) lens(3) K(9) by simp_all
  have w: "word_fcf (of_le16 (le16 (fcf_word ?f))) = ?f" using fcf_word_range [OF K(1)] K(1) by simp
  show ?thesis
    unfolding unpackRXFrame_def c1 prod.case Let_def w c2 [unfolded Let_def] c3 c4 [unfolded Let_def] c5 c6 u c7 e list.sel
    using dl(1) by (simp add: received_def Let_def)
qed

section \<open>The property\<close>

text \<open>C40: a frame survives the way through the radio: what \<open>packTXFrame\<close> writes into the transmit
  buffer, received with its length and its check sum, is unpacked into the same frame. Every field
  that the addressing modes, the PAN compression and the security level send comes back, with the
  header and data lengths recovered, and the octets that were not sent stay as they were.\<close>

theorem unpack_pack:
  assumes "frame_ok p" "packTXFrame p = Some (len # bs)" "holds buf 0 (bs @ [hi, lo])"
  shows "unpackRXFrame buf len p0 = Some (received p (256 * hi + lo) p0) \<and> int (length bs) = header_len p + data_len p \<and>
    len = header_len p + data_len p + FTR_LEN"
proof -
  have P: "bs = header_octets p @ take (nat (data_len p)) (data p)" "len = u8 (header_len p + data_len p + FTR_LEN)"
    using packTXFrame_octets [OF assms(1)] assms(2) by simp_all
  have K: "0 \<le> data_len p" "length (data p) = 124" "header_len p = hdr_length p" "header_len p + data_len p + FTR_LEN \<le> MAX_FRAME_LENGTH"
    "3 \<le> hdr_length p"
    using assms(1) by (simp_all add: frame_ok_def) (simp add: hdr_length_def Let_def)
  have l: "len = header_len p + data_len p + FTR_LEN"
    using P(2) K by (simp add: u8_def MAX_FRAME_LENGTH_def FTR_LEN_def)
  have "int (length bs) = header_len p + data_len p"
    using P(1) K length_header_octets [OF assms(1)] by (simp add: MAX_FRAME_LENGTH_def FTR_LEN_def)
  then show ?thesis using unpack_received [OF assms(1) _ l, of buf hi lo p0] assms(3) P(1) l by simp
qed

definition ex_frame :: frame where
  "ex_frame = \<lparr>fcf = \<lparr>frameType = 1, frameSecurity = 1, framePending = 0, frameAckRequested = 1, framePanIDCompress = 0,
      frameReserved = 0, frameDestinationAddressMode = 2, frameVersion = 1, frameSourceAddressMode = 3\<rparr>,
     seqno = 200, dest_pid = 4660, dest_addr = [1, 2, 0, 0, 0, 0, 0, 0], src_pid = 43981, src_addr = [10, 11, 12, 13, 14, 15, 16, 17],
     aux_hdr = \<lparr>scf = \<lparr>securityLevel = 5, keyIdMode = 1, reservedBits = 0\<rparr>, frameCounter = 70000, key = replicate 9 7\<rparr>,
     header_len = 23, data_len = 3, data = [104, 105, 33] @ replicate 121 0, crc = 0\<rparr>"

theorem unpack_pack_witness:
  "\<exists>len bs. packTXFrame ex_frame = Some (len # bs) \<and>
     unpackRXFrame (\<lambda>i. (bs @ [18, 52]) ! nat i) len ex_frame = Some (received ex_frame 4660 ex_frame)"
proof -
  have ok: "frame_ok ex_frame"
    by (simp add: frame_ok_def ex_frame_def fcf_ok_def scf_ok_def hdr_length_def Let_def ADDRESS_NONE_def ADDRESS_SHORT_def
        ADDRESS_EXTENDED_def FTR_LEN_def MAX_FRAME_LENGTH_def)
  obtain len bs where p: "packTXFrame ex_frame = Some (len # bs)" using packTXFrame_octets [OF ok] by blast
  have "holds (\<lambda>i. (bs @ [18, 52]) ! nat i) 0 (bs @ [18, 52])" by (simp only: holds_def add_0 nat_int) simp
  from unpack_pack [OF ok p this, of ex_frame]
  have "unpackRXFrame (\<lambda>i. (bs @ [18, 52]) ! nat i) len ex_frame = Some (received ex_frame (256 * 18 + 52) ex_frame)" by (elim conjE)
  moreover have "256 * 18 + 52 = (4660 :: int)" by simp
  ultimately show ?thesis using p by (simp only:) blast
qed

text \<open>A frame that claims to be shorter than its header: the length of its payload wraps around and
  reception would write far behind the prototype.\<close>

theorem short_frame_overflows:
  assumes "fcf_ok f" "frameDestinationAddressMode f = ADDRESS_EXTENDED" "frameSourceAddressMode f = ADDRESS_EXTENDED"
    "frameSecurity f = 0" "framePanIDCompress f = 0" "holds buf 0 (le16 (fcf_word f))" "3 \<le> rxlen" "rxlen < 25"
  shows "unpackRXFrame buf rxlen p = None"
proof -
  have c: "copyRXOctets buf 0 2 = (le16 (fcf_word f), 2)" using copyRXOctets_holds [OF assms(6), of 2] by simp
  have w: "word_fcf (of_le16 (le16 (fcf_word f))) = f" using fcf_word_range [OF assms(1)] assms(1) by simp
  have s: "copyRXOctets buf 2 1 = ([buf 2], 3)" "copyRXOctets buf 3 2 = ([buf 3, buf 4], 5)" "copyRXOctets buf 13 2 = ([buf 13, buf 14], 15)"
    using copyRXOctets_holds [of buf 2 "[buf 2]" 1] copyRXOctets_holds [of buf 3 "[buf 3, buf 4]" 2]
      copyRXOctets_holds [of buf 13 "[buf 13, buf 14]" 2] by simp_all
  obtain a1 a2 where x: "copyRXOctets buf 5 8 = (a1, 13)" "copyRXOctets buf 15 8 = (a2, 23)"
    using copyRXOctets_end [of buf 5 8] copyRXOctets_end [of buf 15 8] by (cases "copyRXOctets buf 5 8"; cases "copyRXOctets buf 15 8") simp
  have "(rxlen - 25) mod 256 = rxlen + 231"
    using assms(7,8) mod_pos_pos_trivial [of "rxlen + 231" 256] mod_add_self2 [of "rxlen - 25" 256] by (simp add: algebra_simps)
  then have d: "u8 (rxlen - 23 - FTR_LEN) > MAX_DATA_LENGTH"
    using assms(7) by (simp add: u8_def FTR_LEN_def MAX_DATA_LENGTH_def)
  have n: "ADDRESS_EXTENDED \<noteq> ADDRESS_SHORT" "ADDRESS_EXTENDED \<noteq> ADDRESS_NONE" "(0::int) \<noteq> 1"
    by (simp_all add: ADDRESS_EXTENDED_def ADDRESS_SHORT_def ADDRESS_NONE_def)
  have u: "u8 23 = 23" by (simp add: u8_def)
  show ?thesis
    unfolding unpackRXFrame_def Let_def unpack_addr_def
    by (simp only: c prod.case w assms(2-5) s n u x d if_False if_True simp_thms)
qed

end
