(* ===== verification/Stdio.thy ===== *)
theory Stdio
  imports Prelude "HOL-Library.Char_ord"
begin

text \<open>
  Formatted output. \<open>vfprintf\<close> of the C library (the conversions d u x X c s and the percent sign,
  with the flag 0, a width and the size l, which are those the sources use) gives the characters
  that are passed to the function of the stream, and \<open>kprintf\<close> (\<open>src/lib/libc/kprintf.c\<close>) sends
  them to the console. An argument that does not fit its conversion is undefined behaviour: no
  value.
\<close>

section \<open>Numbers\<close>

abbreviation NL :: char where "NL \<equiv> CHR 0x0A"
abbreviation CR :: char where "CR \<equiv> CHR 0x0D"

definition digit :: "nat \<Rightarrow> char" where
  "digit d = (if d < 10 then char_of (48 + d) else char_of (87 + d))"

definition digit_X :: "char \<Rightarrow> char" where
  "digit_X c = (if CHR ''a'' \<le> c \<and> c \<le> CHR ''f'' then char_of (of_char c - 32 :: nat) else c)"

text \<open>The digits of a number in the base \<open>b\<close>.\<close>

fun digits :: "nat \<Rightarrow> nat \<Rightarrow> string" where
  "digits b n = (if b < 2 \<or> n < b then [digit n] else digits b (n div b) @ [digit (n mod b)])"

declare digits.simps [simp del]

definition show_int :: "int \<Rightarrow> string" where
  "show_int i = (if i < 0 then CHR ''-'' # digits 10 (nat (- i)) else digits 10 (nat i))"

section \<open>Formats\<close>

text \<open>What is passed for a variable argument: an int, a long, a string.\<close>

datatype arg = IntArg int | LongArg int | StrArg string

definition isdigit :: "char \<Rightarrow> bool" where
  "isdigit c \<longleftrightarrow> CHR ''0'' \<le> c \<and> c \<le> CHR ''9''"

definition digit_val :: "char \<Rightarrow> nat" where
  "digit_val c = of_char c - 48"

fun number :: "nat \<Rightarrow> string \<Rightarrow> nat \<times> string" where
  "number n [] = (n, [])"
| "number n (c # cs) = (if isdigit c then number (10 * n + digit_val c) cs else (n, c # cs))"

lemma number_length: "length (snd (number n cs)) \<le> length cs"
  by (induction n cs rule: number.induct) (auto intro: le_SucI)

text \<open>The flag 0, the width, the size l and the character of a conversion, and what follows it.\<close>

definition conversion :: "string \<Rightarrow> (bool \<times> nat \<times> bool \<times> char \<times> string) option" where
  "conversion fmt =
     (let zero = (fmt \<noteq> [] \<and> hd fmt = CHR ''0'');
          (w, fmt) = number 0 (if zero then tl fmt else fmt);
          long = (fmt \<noteq> [] \<and> hd fmt = CHR ''l'')
      in case (if long then tl fmt else fmt) of [] \<Rightarrow> None | c # cs \<Rightarrow> Some (zero, w, long, c, cs))"

lemma tl_ConsD: "tl xs = c # cs \<Longrightarrow> length xs = length cs + 2"
  by (cases xs) auto

lemma conversion_length: "conversion fmt = Some (z, w, l, c, rest) \<Longrightarrow> length rest < length fmt"
  using number_length [of 0 "if fmt \<noteq> [] \<and> hd fmt = CHR ''0'' then tl fmt else fmt"]
  by (auto simp: conversion_def Let_def split_beta dest!: tl_ConsD split: if_splits list.splits)

definition signed :: "arg \<Rightarrow> int option" where
  "signed a = (case a of IntArg i \<Rightarrow> Some (s16 i) | LongArg i \<Rightarrow> Some ((i + 2147483648) mod 4294967296 - 2147483648) | StrArg _ \<Rightarrow> None)"

definition unsigned :: "arg \<Rightarrow> nat option" where
  "unsigned a = (case a of IntArg i \<Rightarrow> Some (nat (u16 i)) | LongArg i \<Rightarrow> Some (nat (u32 i)) | StrArg _ \<Rightarrow> None)"

definition is_long :: "arg \<Rightarrow> bool" where
  "is_long a = (case a of LongArg _ \<Rightarrow> True | _ \<Rightarrow> False)"

text \<open>One converted argument, before it is padded to the width.\<close>

definition converted :: "bool \<Rightarrow> char \<Rightarrow> arg \<Rightarrow> string option" where
  "converted long c a =
     (if c = CHR ''s'' then (case a of StrArg s \<Rightarrow> Some s | _ \<Rightarrow> None)
      else if long \<noteq> is_long a then None
      else if c = CHR ''d'' then map_option show_int (signed a)
      else if c = CHR ''u'' then map_option (digits 10) (unsigned a)
      else if c = CHR ''x'' then map_option (digits 16) (unsigned a)
      else if c = CHR ''X'' then map_option (\<lambda>n. map digit_X (digits 16 n)) (unsigned a)
      else if c = CHR ''c'' then map_option (\<lambda>n. [char_of (n mod 256)]) (unsigned a)
      else None)"

text \<open>Zeros are put between the sign and the digits, and only before numbers.\<close>

definition padded :: "bool \<Rightarrow> nat \<Rightarrow> char \<Rightarrow> string \<Rightarrow> string" where
  "padded zero w c s =
     (if zero \<and> c \<notin> {CHR ''s'', CHR ''c''}
      then (if s \<noteq> [] \<and> hd s = CHR ''-'' then hd s # replicate (w - length s) (CHR ''0'') @ tl s
            else replicate (w - length s) (CHR ''0'') @ s)
      else replicate (w - length s) (CHR '' '') @ s)"

function vfprintf :: "string \<Rightarrow> arg list \<Rightarrow> string option" where
  "vfprintf [] as = Some []"
| "vfprintf (f # fs) as =
     (if f \<noteq> CHR ''%'' then map_option (Cons f) (vfprintf fs as)
      else
        (case conversion fs of
           None \<Rightarrow> None
         | Some (zero, w, long, c, rest) \<Rightarrow>
             if c = CHR ''%'' then map_option (Cons c) (vfprintf rest as)
             else
               (case as of
                  [] \<Rightarrow> None
                | a # as \<Rightarrow> do {
                    s \<leftarrow> converted long c a;
                    t \<leftarrow> vfprintf rest as;
                    Some (padded zero w c s @ t)
                  })))"
  by pat_completeness auto
termination
  by (relation "measure (\<lambda>(fmt, as). length fmt)") (auto dest: conversion_length)

section \<open>The console\<close>

text \<open>The bytes sent to the console. A newline is preceded by a carriage return, and a null
  character is refused.\<close>

definition kputc :: "char \<Rightarrow> string \<Rightarrow> int \<times> string" where
  "kputc c out =
     (if c = CHR 0x00 then (EOF, out)
      else (0, (if c = NL then out @ [CR] else out) @ [c]))"

definition kputs :: "string \<Rightarrow> string \<Rightarrow> string" where
  "kputs s out = fold (\<lambda>c out. snd (kputc c out)) s out"

definition kprintf :: "string \<Rightarrow> arg list \<Rightarrow> string \<Rightarrow> string option" where
  "kprintf fmt as out = map_option (\<lambda>s. kputs s out) (vfprintf fmt as)"

section \<open>Formatted input\<close>

text \<open>\<open>vfscanf\<close> for the conversions s and d with a width: the values that were assigned, up to the
  first text that does not match.\<close>

definition isspace :: "char \<Rightarrow> bool" where
  "isspace c \<longleftrightarrow> c = CHR '' '' \<or> CHR 0x09 \<le> c \<and> c \<le> CR"

definition skip_space :: "string \<Rightarrow> string" where
  "skip_space s = dropWhile isspace s"

definition scan_s :: "nat \<Rightarrow> string \<Rightarrow> (string \<times> string) option" where
  "scan_s w inp =
     (let inp = skip_space inp;
          s = takeWhile (\<lambda>c. \<not> isspace c) (if w = 0 then inp else take w inp)
      in if s = [] then None else Some (s, drop (length s) inp))"

definition scan_d :: "nat \<Rightarrow> string \<Rightarrow> (int \<times> string) option" where
  "scan_d w inp =
     (let inp = skip_space inp;
          pre = (if w = 0 then inp else take w inp);
          post = (if w = 0 then [] else drop w inp);
          neg = (pre \<noteq> [] \<and> hd pre = CHR ''-'');
          pre = (if pre \<noteq> [] \<and> hd pre \<in> {CHR ''-'', CHR ''+''} then tl pre else pre);
          (n, rest) = number 0 pre
      in if pre = [] \<or> \<not> isdigit (hd pre) then None else Some (if neg then - int n else int n, rest @ post))"

function vfscanf :: "string \<Rightarrow> string \<Rightarrow> arg list" where
  "vfscanf [] inp = []"
| "vfscanf (f # fs) inp =
     (if isspace f then vfscanf fs (skip_space inp)
      else if f \<noteq> CHR ''%'' then (if inp \<noteq> [] \<and> hd inp = f then vfscanf fs (tl inp) else [])
      else
        (case conversion fs of
           None \<Rightarrow> []
         | Some (zero, w, long, c, rest) \<Rightarrow>
             if c = CHR ''s'' then (case scan_s w inp of None \<Rightarrow> [] | Some (s, inp) \<Rightarrow> StrArg s # vfscanf rest inp)
             else if c = CHR ''d'' then (case scan_d w inp of None \<Rightarrow> [] | Some (i, inp) \<Rightarrow> IntArg (s16 i) # vfscanf rest inp)
             else []))"
  by pat_completeness auto
termination
  by (relation "measure (\<lambda>(fmt, inp). length fmt)") (auto dest: conversion_length)

section \<open>Numbers are read as they are printed\<close>

lemma of_char_digit: "d < 10 \<Longrightarrow> of_char (digit d) = 48 + d"
  by (simp add: digit_def)

lemma digit_10:
  assumes "d < 10"
  shows "isdigit (digit d)" "digit_val (digit d) = d" "\<not> isspace (digit d)" "digit d \<noteq> CHR ''-''" "digit d \<noteq> CHR ''+''"
proof -
  note o = of_char_digit [OF assms]
  have n: "digit d \<noteq> c" if "of_char c < (48 :: nat)" for c using o that by auto
  show "isdigit (digit d)" "digit_val (digit d) = d"
    using o assms by (simp_all add: isdigit_def digit_val_def less_eq_char_def)
  show "\<not> isspace (digit d)" using o n [of "CHR '' ''"] by (simp add: isspace_def less_eq_char_def)
  show "digit d \<noteq> CHR ''-''" "digit d \<noteq> CHR ''+''" by (rule n, simp)+
qed

lemma digits_not_Nil [simp]: "digits b n \<noteq> []"
  by (subst digits.simps) simp

lemma digits_isdigit: "c \<in> set (digits 10 n) \<Longrightarrow> \<exists>d < 10. c = digit d"
proof (induction n rule: less_induct)
  case (less n)
  show ?case
  proof (cases "n < 10")
    case True
    then show ?thesis using less.prems by (auto simp: digits.simps)
  next
    case False
    then have "digits 10 n = digits 10 (n div 10) @ [digit (n mod 10)]" by (subst digits.simps) simp
    moreover have "n mod 10 < 10" by simp
    ultimately show ?thesis using less.prems less.IH [of "n div 10"] False by (auto intro: exI [of _ "n mod 10"])
  qed
qed

lemma number_digits: "number m (digits 10 n @ cs) = number (m * 10 ^ length (digits 10 n) + n) cs"
proof (induction n arbitrary: m cs rule: less_induct)
  case (less n)
  show ?case
  proof (cases "n < 10")
    case True
    then have "digits 10 n = [digit n]" by (simp add: digits.simps)
    then show ?thesis using digit_10 [OF True] by (simp add: mult.commute)
  next
    case False
    then have d: "digits 10 n = digits 10 (n div 10) @ [digit (n mod 10)]" by (subst digits.simps) simp
    have "number m (digits 10 n @ cs) = number (m * 10 ^ length (digits 10 (n div 10)) + n div 10) (digit (n mod 10) # cs)"
      unfolding d append_assoc using less.IH [of "n div 10"] False by simp
    also have "\<dots> = number (10 * (m * 10 ^ length (digits 10 (n div 10)) + n div 10) + n mod 10) cs"
      using digit_10 [of "n mod 10"] by simp
    also have "10 * (m * 10 ^ length (digits 10 (n div 10)) + n div 10) + n mod 10 = m * 10 ^ length (digits 10 n) + n"
      unfolding d by simp
    finally show ?thesis .
  qed
qed

lemma length_digits: "n < 10 ^ k \<Longrightarrow> 0 < k \<Longrightarrow> length (digits 10 n) \<le> k"
proof (induction k arbitrary: n)
  case (Suc k)
  show ?case
  proof (cases "n < 10")
    case True
    then show ?thesis by (simp add: digits.simps)
  next
    case False
    then have "0 < k" using Suc.prems by (cases k) auto
    moreover have "n div 10 < 10 ^ k" using Suc.prems by (simp add: less_mult_imp_div_less mult.commute)
    ultimately have "length (digits 10 (n div 10)) \<le> k" by (rule Suc.IH [rotated])
    moreover have "digits 10 n = digits 10 (n div 10) @ [digit (n mod 10)]" using False by (subst digits.simps) simp
    ultimately show ?thesis by simp
  qed
qed simp

lemma number_zeros: "number 0 (replicate k (CHR ''0'') @ cs) = number 0 cs"
  by (induction k) (simp_all add: isdigit_def digit_val_def)

lemma skip_space_digits: "skip_space (digits 10 n @ cs) = digits 10 n @ cs"
proof -
  obtain c ds where d: "digits 10 n = c # ds" by (cases "digits 10 n") auto
  then have "\<not> isspace c" using digits_isdigit [of c n] digit_10 by auto
  then show ?thesis by (simp add: skip_space_def d)
qed

lemma hd_digits: "isdigit (hd (digits 10 n))" "hd (digits 10 n) \<noteq> CHR ''-''" "hd (digits 10 n) \<noteq> CHR ''+''"
proof -
  obtain d where "d < 10" "hd (digits 10 n) = digit d" using digits_isdigit [of "hd (digits 10 n)" n] by auto
  then show "isdigit (hd (digits 10 n))" "hd (digits 10 n) \<noteq> CHR ''-''" "hd (digits 10 n) \<noteq> CHR ''+''"
    using digit_10 [of d] by simp_all
qed

lemma zero_chars: "isdigit (CHR ''0'')" "\<not> isspace (CHR ''0'')" "isspace (CHR '' '')"
  by (simp_all add: isdigit_def isspace_def less_eq_char_def)

lemma scan_d_zeros:
  assumes "n < 10 ^ w" "0 < w"
  shows "scan_d w (padded True w (CHR ''d'') (digits 10 n) @ cs) = Some (int n, cs)"
proof -
  define z where "z = replicate (w - length (digits 10 n)) (CHR ''0'')"
  have p: "padded True w (CHR ''d'') (digits 10 n) = z @ digits 10 n" using hd_digits by (simp add: padded_def z_def)
  have l: "length (z @ digits 10 n) = w" using length_digits [OF assms] by (simp add: z_def)
  have h: "hd (z @ digits 10 n) = CHR ''0'' \<or> hd (z @ digits 10 n) = hd (digits 10 n)"
    by (cases "w - length (digits 10 n)") (auto simp: z_def)
  have s: "skip_space (z @ digits 10 n @ cs) = z @ digits 10 n @ cs"
    using skip_space_digits zero_chars by (cases "w - length (digits 10 n)") (auto simp: z_def skip_space_def)
  have c: "isdigit (hd (z @ digits 10 n))" "hd (z @ digits 10 n) \<noteq> CHR ''-''" "hd (z @ digits 10 n) \<noteq> CHR ''+''"
    using h hd_digits [of n] zero_chars by auto
  have n: "number 0 (z @ digits 10 n) = (n, [])"
    using number_digits [of 0 n "[]"] number_zeros by (simp add: z_def)
  have t: "take w (z @ digits 10 n @ cs) = z @ digits 10 n" "drop w (z @ digits 10 n @ cs) = cs"
    using l by (metis append_assoc append_eq_conv_conj)+
  show ?thesis
    unfolding scan_d_def p append_assoc s Let_def using assms(2) c n by (simp del: take_append drop_append add: t)
qed

lemma skip_space_blanks: "skip_space (padded False w (CHR ''d'') (digits 10 n)) = digits 10 n"
  using skip_space_digits [of n "[]"] zero_chars by (simp add: padded_def skip_space_def dropWhile_append)

lemma scan_d_digits:
  assumes "n < 10 ^ w" "0 < w"
  shows "scan_d w (digits 10 n) = Some (int n, [])"
proof -
  have s: "skip_space (digits 10 n) = digits 10 n" using skip_space_digits [of n "[]"] by simp
  have l: "take w (digits 10 n) = digits 10 n" "drop w (digits 10 n) = []" using length_digits [OF assms] by simp_all
  show ?thesis
    unfolding scan_d_def s Let_def using assms(2) hd_digits [of n] number_digits [of 0 n "[]"] by (simp add: l)
qed

lemma show_int_digits: "0 \<le> i \<Longrightarrow> show_int i = digits 10 (nat i)"
  by (simp add: show_int_def)

end
