(* ===== verification/FrameDump.thy ===== *)
theory FrameDump
  imports Frame Stdio
begin

text \<open>
  The dumps of a frame on the console (\<open>frameRAWHeaderDump\<close>, \<open>frameHeaderDump\<close> and \<open>frameDump\<close> of
  \<open>frame802154.c\<close>). The output is passed through. A raw frame is the memory from its first octet
  on.
\<close>

section \<open>Addresses and keys\<close>

text \<open>An extended address is printed from its last octet to its first one.\<close>

definition eaddr_args :: "(int \<Rightarrow> int) \<Rightarrow> int \<Rightarrow> arg list" where
  "eaddr_args buf p = map (\<lambda>i. IntArg (buf (p + i))) [7, 6, 5, 4, 3, 2, 1, 0]"

definition eaddr_fmt :: string where
  "eaddr_fmt = ''Extended Address = <%02x%02x%02x%02x%02x%02x%02x%02x>'' @ [NL]"

fun dump_keys :: "(int \<Rightarrow> int) \<Rightarrow> int \<Rightarrow> nat \<Rightarrow> string \<Rightarrow> (string \<times> int) option" where
  "dump_keys buf p 0 out = Some (out, p)"
| "dump_keys buf p (Suc n) out = do {
     out \<leftarrow> kprintf ''%02x '' [IntArg (buf p)] out;
     dump_keys buf (p + 1) n out
   }"

section \<open>The raw header\<close>

definition raw_addr :: "(int \<Rightarrow> int) \<Rightarrow> int \<Rightarrow> int \<Rightarrow> string \<Rightarrow> (string \<times> int) option" where
  "raw_addr buf mode p out =
     (if mode = ADDRESS_SHORT
      then do {
        out \<leftarrow> kprintf (''Short Address = <%02x%02x>'' @ [NL]) [IntArg (buf (p + 1)), IntArg (buf p)] out;
        Some (out, p + 2)
      }
      else if mode = ADDRESS_EXTENDED
      then do {
        out \<leftarrow> kprintf eaddr_fmt (eaddr_args buf p) out;
        Some (out, p + 8)
      }
      else do {
        out \<leftarrow> kprintf [NL] [] out;
        Some (out, p)
      })"

text \<open>The mode of the key is read where it lies in the prototype (23 octets from the start), not
  behind the addresses of the raw frame.\<close>

definition raw_aux :: "(int \<Rightarrow> int) \<Rightarrow> int \<Rightarrow> string \<Rightarrow> string option" where
  "raw_aux buf p out =
     (let sc = octet_scf (buf 23) in do {
        out \<leftarrow> kprintf ''Security Control Field = <%02x> '' [IntArg (buf p)] out;
        let p = p + 1;
        out \<leftarrow> kprintf (''Frame Counter = <%02x%02x%02x%02x>'' @ [NL]) (map (\<lambda>i. IntArg (buf (p + i))) [3, 2, 1, 0]) out;
        let p = p + 4;
        out \<leftarrow> kprintf ''Keys = < '' [] out;
        (out, p) \<leftarrow> dump_keys buf p (key_octets (keyIdMode sc)) out;
        kprintf (''>'' @ [NL]) [] out
      })"

definition frameRAWHeaderDump :: "string \<Rightarrow> (int \<Rightarrow> int) \<Rightarrow> string \<Rightarrow> string option" where
  "frameRAWHeaderDump routine buf out =
     (let f = word_fcf (buf 0 + 256 * buf 1) in do {
        out \<leftarrow> kprintf ''frame_Dump (%s):'' [StrArg routine] out;
        out \<leftarrow> kprintf '' FCF = <%02x%02x> '' [IntArg (buf 1), IntArg (buf 0)] out;
        out \<leftarrow> kprintf (''Seq = %02x'' @ [NL]) [IntArg (buf 2)] out;
        (out, p) \<leftarrow> (if frameDestinationAddressMode f \<noteq> 0
                    then do {
                      out \<leftarrow> kprintf ''Destination PAN Id = <%02x%02x> '' [IntArg (buf 4), IntArg (buf 3)] out;
                      Some (out, 5)
                    } else Some (out, 3));
        (out, p) \<leftarrow> raw_addr buf (frameDestinationAddressMode f) p out;
        (out, p) \<leftarrow> (if framePanIDCompress f = 0
                    then do {
                      out \<leftarrow> kprintf ''Source PAN Id = <%02x%02x> '' [IntArg (buf (p + 1)), IntArg (buf p)] out;
                      Some (out, p + 2)
                    }
                    else do {
                      out \<leftarrow> kprintf ''Source '' [] out;
                      Some (out, p)
                    });
        (out, p) \<leftarrow> raw_addr buf (frameSourceAddressMode f) p out;
        if frameSecurity f \<noteq> 0 then raw_aux buf p out else Some out
      })"

section \<open>Data\<close>

definition printable :: "int \<Rightarrow> bool" where
  "printable ch \<longleftrightarrow> 32 \<le> ch \<and> ch \<le> 126"

text \<open>The octets of a row, with blanks behind the end of the data, and the row in characters.\<close>

fun dump_row :: "(int \<Rightarrow> int) \<Rightarrow> int \<Rightarrow> int \<Rightarrow> nat \<Rightarrow> string \<Rightarrow> (int list \<times> string) option" where
  "dump_row buf p len 0 out = Some ([], out)"
| "dump_row buf p len (Suc n) out =
     (if p < len
      then do {
        out \<leftarrow> kprintf ''%02X '' [IntArg (buf p)] out;
        (ch, out) \<leftarrow> dump_row buf (p + 1) len n out;
        Some (buf p # ch, out)
      }
      else do {
        out \<leftarrow> kprintf ''   '' [] out;
        (ch, out) \<leftarrow> dump_row buf (p + 1) len n out;
        Some (32 # ch, out)
      })"

fun dump_chars :: "int list \<Rightarrow> string \<Rightarrow> string option" where
  "dump_chars [] out = Some out"
| "dump_chars (c # cs) out = do {
     out \<leftarrow> (if printable c then kprintf ''%c'' [IntArg c] out else kprintf ''.'' [] out);
     dump_chars cs out
   }"

function dump_rows :: "(int \<Rightarrow> int) \<Rightarrow> int \<Rightarrow> int \<Rightarrow> string \<Rightarrow> string option" where
  "dump_rows buf i len out =
     (if i < len
      then do {
        out \<leftarrow> kprintf ''%04X '' [IntArg i] out;
        (ch, out) \<leftarrow> dump_row buf i len 16 out;
        out \<leftarrow> kprintf [CHR 0x09, CHR ''/''] [] out;
        out \<leftarrow> dump_chars ch out;
        out \<leftarrow> kprintf [CHR ''/'', NL] [] out;
        dump_rows buf (i + 16) len out
      }
      else Some out)"
  by pat_completeness auto
termination
  by (relation "measure (\<lambda>(buf, i, len, out). nat (len - i))") auto

definition frameDump :: "string \<Rightarrow> (int \<Rightarrow> int) \<Rightarrow> int \<Rightarrow> string \<Rightarrow> string option" where
  "frameDump routine buf len out = do {
     out \<leftarrow> kprintf (''%s:'' @ [NL]) [StrArg routine] out;
     dump_rows buf 0 len out
   }"

section \<open>The header of a prototype\<close>

definition dump_addr :: "int \<Rightarrow> int list \<Rightarrow> string \<Rightarrow> string option" where
  "dump_addr mode a out =
     (if mode = ADDRESS_SHORT then kprintf (''Short Address = <%04x>'' @ [NL]) [IntArg (a ! 0 + 256 * a ! 1)] out
      else if mode = ADDRESS_EXTENDED then kprintf eaddr_fmt (eaddr_args (\<lambda>i. a ! nat i) 0) out
      else kprintf [NL] [] out)"

text \<open>The security control field is one octet, but an int is printed: \<open>upper\<close> is the octet that
  lies above it among the arguments.\<close>

definition frameHeaderDump :: "string \<Rightarrow> frame \<Rightarrow> int \<Rightarrow> string \<Rightarrow> string option" where
  "frameHeaderDump routine p upper out =
     (let f = fcf p; a = aux_hdr p in do {
        out \<leftarrow> kprintf ''frame_Dump (%s):'' [StrArg routine] out;
        out \<leftarrow> kprintf '' packet length = %d'' [IntArg (header_len p + data_len p + 2)] out;
        out \<leftarrow> kprintf '' FCF = <%04x> '' [IntArg (fcf_word f)] out;
        out \<leftarrow> kprintf (''Seq = %02x'' @ [NL]) [IntArg (seqno p)] out;
        out \<leftarrow> (if frameDestinationAddressMode f \<noteq> 0
               then kprintf ''Destination PAN Id = <%04x> '' [IntArg (dest_pid p)] out else Some out);
        out \<leftarrow> dump_addr (frameDestinationAddressMode f) (dest_addr p) out;
        out \<leftarrow> (if framePanIDCompress f = 0 then kprintf ''Source PAN Id = <%04x> '' [IntArg (src_pid p)] out
               else kprintf ''Source '' [] out);
        out \<leftarrow> dump_addr (frameSourceAddressMode f) (src_addr p) out;
        out \<leftarrow> (if frameSecurity f \<noteq> 0
               then do {
                 out \<leftarrow> kprintf ''Security Control Field = <%02x> '' [IntArg (scf_octet (scf a) + 256 * upper)] out;
                 out \<leftarrow> kprintf (''Frame Counter = <%04lx>'' @ [NL]) [LongArg (frameCounter a)] out;
                 out \<leftarrow> kprintf ''Keys = < '' [] out;
                 (out, q) \<leftarrow> dump_keys (\<lambda>i. key a ! nat i) 0 (key_octets (keyIdMode (scf a))) out;
                 kprintf (''>'' @ [NL]) [] out
               } else Some out);
        out \<leftarrow> (if data_len p > MAX_DATA_LENGTH then None else frameDump ''data'' (\<lambda>i. data p ! nat i) (data_len p) out);
        kprintf (''CRC = <%04x>'' @ [NL]) [IntArg (crc p)] out
      })"

end
