(* ===== verification/Stamp.thy ===== *)
theory Stamp
  imports TimeProps Stdio
begin

text \<open>
  Time stamps in text (\<open>src/lib/Time/scanTime.c\<close>, \<open>ascdate\<close> of \<open>ascdatetime.c\<close>): the stamp that the
  clock keeps in the EEPROM over a reset. It is printed and scanned with the same format.
\<close>

section \<open>Definitions\<close>

definition scan_str :: string where
  "scan_str = ''%3s %3s %02d %02d:%02d:%02d UTC %4d''"

text \<open>What is left of a variable when \<open>sscanf\<close> has assigned its values.\<close>

definition int_of :: "arg list \<Rightarrow> nat \<Rightarrow> int \<Rightarrow> int" where
  "int_of vals k old = (if k < length vals then (case vals ! k of IntArg i \<Rightarrow> i | _ \<Rightarrow> old) else old)"

definition str_of :: "arg list \<Rightarrow> nat \<Rightarrow> string" where
  "str_of vals k = (case vals ! k of StrArg s \<Rightarrow> s | _ \<Rightarrow> [])"

text \<open>The search for the first name that agrees in three characters ends at the end of the names.\<close>

fun find_name :: "string \<Rightarrow> string list \<Rightarrow> int" where
  "find_name s [] = 0"
| "find_name s (n # ns) = (if take 3 s = take 3 n then 0 else 1 + find_name s ns)"

definition scanTimestamp :: "string \<Rightarrow> tm \<Rightarrow> int \<times> tm" where
  "scanTimestamp ds t =
     (let vals = vfscanf scan_str ds;
          t = t\<lparr>tm_mday := int_of vals 2 (tm_mday t), tm_hour := int_of vals 3 (tm_hour t),
                tm_min := int_of vals 4 (tm_min t), tm_sec := int_of vals 5 (tm_sec t)\<rparr>
      in if length vals \<noteq> 7 then (- 1, t)
         else
           (let t = t\<lparr>tm_wday := find_name (str_of vals 0) day_name\<rparr>;
                t = t\<lparr>tm_mon := find_name (str_of vals 1) (take 11 mon_name)\<rparr>
            in if tm_wday t = 8 \<or> tm_mon t = 12 then (- 1, t)
               else (1, t\<lparr>tm_year := s16 (int_of vals 6 0 - 1900), tm_gmtoff := 0, tm_isdst := 1\<rparr>)))"

text \<open>The stamp, and the time structure that was normalized on the way.\<close>

definition makeTimestamp :: "tm \<Rightarrow> (string \<times> tm) option" where
  "makeTimestamp t = do {
     t \<leftarrow> (if tm_gmtoff t \<noteq> 0
           then normalizeTm (t\<lparr>tm_sec := s16 (tm_sec t - tm_gmtoff t), tm_gmtoff := 0\<rparr>) else Some t);
     s \<leftarrow> (if tm_wday t \<notin> {0..<7} \<or> tm_mon t \<notin> {0..<12} then None
           else vfprintf scan_str [StrArg (day_name ! nat (tm_wday t)), StrArg (mon_name ! nat (tm_mon t)),
             IntArg (tm_mday t), IntArg (tm_hour t), IntArg (tm_min t), IntArg (tm_sec t), IntArg (tm_year t + 1900)]);
     Some (s, t)
   }"

definition ascdate :: "int \<Rightarrow> tm \<Rightarrow> string option" where
  "ascdate t64 t = do {
     t \<leftarrow> parseTime t64 True t;
     (if tm_wday t \<notin> {0..<7} \<or> tm_mon t \<notin> {0..<12} then None
      else vfprintf ''%3s %3s %d %4d %2d:%02d:%02d %3s'' [StrArg (day_name ! nat (tm_wday t)), StrArg (mon_name ! nat (tm_mon t)),
        IntArg (tm_mday t), IntArg (tm_year t + 1900), IntArg (tm_hour t), IntArg (tm_min t), IntArg (tm_sec t), StrArg (tm_zone t)])
   }"

section \<open>A stamp is read as it was printed\<close>

definition field2 :: "int \<Rightarrow> string" where
  "field2 i = padded True 2 (CHR ''d'') (digits 10 (nat i))"

definition stamp_ok :: "tm \<Rightarrow> bool" where
  "stamp_ok t \<longleftrightarrow> tm_wday t \<in> {0..<7} \<and> tm_mon t \<in> {0..<12} \<and> tm_mday t \<in> {0..<100} \<and> tm_hour t \<in> {0..<100} \<and>
     tm_min t \<in> {0..<100} \<and> tm_sec t \<in> {0..<100} \<and> tm_year t + 1900 \<in> {0..<10000}"

definition stamp :: "tm \<Rightarrow> string" where
  "stamp t = day_name ! nat (tm_wday t) @ '' '' @ mon_name ! nat (tm_mon t) @ '' '' @ field2 (tm_mday t) @ '' '' @
     field2 (tm_hour t) @ '':'' @ field2 (tm_min t) @ '':'' @ field2 (tm_sec t) @ '' UTC '' @
     padded False 4 (CHR ''d'') (digits 10 (nat (tm_year t + 1900)))"

lemma conversions:
  "conversion (CHR ''3'' # CHR ''s'' # cs) = Some (False, 3, False, CHR ''s'', cs)"
  "conversion (CHR ''0'' # CHR ''2'' # CHR ''d'' # cs) = Some (True, 2, False, CHR ''d'', cs)"
  "conversion (CHR ''4'' # CHR ''d'' # cs) = Some (False, 4, False, CHR ''d'', cs)"
  by (simp_all add: conversion_def isdigit_def digit_val_def less_eq_char_def)

lemma names3:
  "0 \<le> w \<Longrightarrow> w < 7 \<Longrightarrow> length (day_name ! nat w) = 3 \<and> (\<forall>c \<in> set (day_name ! nat w). \<not> isspace c) \<and>
     find_name (day_name ! nat w) day_name = w"
  "0 \<le> m \<Longrightarrow> m < 12 \<Longrightarrow> length (mon_name ! nat m) = 3 \<and> (\<forall>c \<in> set (mon_name ! nat m). \<not> isspace c) \<and>
     find_name (mon_name ! nat m) (take 11 mon_name) = m"
proof -
  assume "0 \<le> w" "w < 7"
  then have "w \<in> {0, 1, 2, 3, 4, 5, 6}" by auto
  then show "length (day_name ! nat w) = 3 \<and> (\<forall>c \<in> set (day_name ! nat w). \<not> isspace c) \<and> find_name (day_name ! nat w) day_name = w"
    by (auto simp: day_name_def isspace_def less_eq_char_def)
next
  assume "0 \<le> m" "m < 12"
  then have "m \<in> {0, 1, 2, 3, 4, 5, 6, 7, 8, 9, 10, 11}" by simp presburger
  then show "length (mon_name ! nat m) = 3 \<and> (\<forall>c \<in> set (mon_name ! nat m). \<not> isspace c) \<and>
     find_name (mon_name ! nat m) (take 11 mon_name) = m"
    by (elim insertE emptyE) (simp_all add: mon_name_def isspace_def less_eq_char_def)
qed

lemma converted_d: "0 \<le> i \<Longrightarrow> i < 32768 \<Longrightarrow> converted False (CHR ''d'') (IntArg i) = Some (digits 10 (nat i))"
  by (simp add: converted_def is_long_def signed_def show_int_digits MININT_def MAXINT_def)

lemma print_stamp:
  assumes "stamp_ok t"
  shows "vfprintf scan_str [StrArg (day_name ! nat (tm_wday t)), StrArg (mon_name ! nat (tm_mon t)),
       IntArg (tm_mday t), IntArg (tm_hour t), IntArg (tm_min t), IntArg (tm_sec t), IntArg (tm_year t + 1900)] = Some (stamp t)"
proof -
  have c: "converted False (CHR ''d'') (IntArg (tm_mday t)) = Some (digits 10 (nat (tm_mday t)))"
    "converted False (CHR ''d'') (IntArg (tm_hour t)) = Some (digits 10 (nat (tm_hour t)))"
    "converted False (CHR ''d'') (IntArg (tm_min t)) = Some (digits 10 (nat (tm_min t)))"
    "converted False (CHR ''d'') (IntArg (tm_sec t)) = Some (digits 10 (nat (tm_sec t)))"
    "converted False (CHR ''d'') (IntArg (tm_year t + 1900)) = Some (digits 10 (nat (tm_year t + 1900)))"
    by (rule converted_d; use assms in \<open>simp add: stamp_ok_def\<close>)+
  have s: "converted False (CHR ''s'') (StrArg s) = Some s" for s by (simp add: converted_def)
  have p: "padded False 3 (CHR ''s'') (day_name ! nat (tm_wday t)) = day_name ! nat (tm_wday t)"
    "padded False 3 (CHR ''s'') (mon_name ! nat (tm_mon t)) = mon_name ! nat (tm_mon t)"
    using names3(1) [of "tm_wday t"] names3(2) [of "tm_mon t"] assms by (simp_all add: padded_def stamp_ok_def)
  show ?thesis
    by (simp add: scan_str_def conversions c s p stamp_def field2_def)
qed

lemma scan_s_name: "length s = 3 \<Longrightarrow> \<forall>c \<in> set s. \<not> isspace c \<Longrightarrow> scan_s 3 (s @ cs) = Some (s, cs)"
proof -
  assume "length s = 3" "\<forall>c \<in> set s. \<not> isspace c"
  moreover obtain a b c where "s = [a, b, c]" using \<open>length s = 3\<close> by (auto simp: numeral_3_eq_3 length_Suc_conv)
  ultimately show ?thesis by (simp add: scan_s_def skip_space_def)
qed

lemma skip_name: "length s = 3 \<Longrightarrow> \<forall>c \<in> set s. \<not> isspace c \<Longrightarrow> skip_space (s @ cs) = s @ cs"
  by (cases s) (simp_all add: skip_space_def)

lemma scan_field2: "0 \<le> i \<Longrightarrow> i < 100 \<Longrightarrow> scan_d 2 (field2 i @ cs) = Some (i, cs)"
  using scan_d_zeros [of "nat i" 2 cs] by (simp add: field2_def)

lemma skip_field2: "skip_space (field2 i @ cs) = field2 i @ cs"
proof (cases "2 - length (digits 10 (nat i))")
  case 0
  then show ?thesis using hd_digits [of "nat i"] skip_space_digits by (simp add: field2_def padded_def)
next
  case (Suc k)
  then show ?thesis using hd_digits [of "nat i"] zero_chars by (simp add: field2_def padded_def skip_space_def)
qed

lemma skip_blank: "skip_space (CHR '' '' # cs) = skip_space cs"
  by (simp add: skip_space_def isspace_def)

lemma not_space:
  "isspace (CHR '' '')" "\<not> isspace (CHR ''%'')" "\<not> isspace (CHR '':'')" "\<not> isspace (CHR ''U'')" "\<not> isspace (CHR ''T'')"
  "\<not> isspace (CHR ''C'')"
  by (simp_all add: isspace_def less_eq_char_def)

lemma skip_U: "skip_space (CHR ''U'' # cs) = CHR ''U'' # cs"
  by (simp add: skip_space_def not_space)

lemma scan_stamp:
  assumes "stamp_ok t"
  shows "vfscanf scan_str (stamp t) = [StrArg (day_name ! nat (tm_wday t)), StrArg (mon_name ! nat (tm_mon t)),
       IntArg (tm_mday t), IntArg (tm_hour t), IntArg (tm_min t), IntArg (tm_sec t), IntArg (tm_year t + 1900)]"
proof -
  have d: "length (day_name ! nat (tm_wday t)) = 3" "\<forall>c \<in> set (day_name ! nat (tm_wday t)). \<not> isspace c"
    and m: "length (mon_name ! nat (tm_mon t)) = 3" "\<forall>c \<in> set (mon_name ! nat (tm_mon t)). \<not> isspace c"
    using names3(1) [of "tm_wday t"] names3(2) [of "tm_mon t"] assms by (simp_all add: stamp_ok_def)
  have f: "scan_d 2 (field2 (tm_mday t) @ cs) = Some (tm_mday t, cs)" "scan_d 2 (field2 (tm_hour t) @ cs) = Some (tm_hour t, cs)"
    "scan_d 2 (field2 (tm_min t) @ cs) = Some (tm_min t, cs)" "scan_d 2 (field2 (tm_sec t) @ cs) = Some (tm_sec t, cs)" for cs
    by (rule scan_field2; use assms in \<open>simp add: stamp_ok_def\<close>)+
  have y: "scan_d 4 (digits 10 (nat (tm_year t + 1900))) = Some (tm_year t + 1900, [])"
    using scan_d_digits [of "nat (tm_year t + 1900)" 4] assms by (simp add: stamp_ok_def nat_less_iff)
  have s: "s16 (tm_mday t) = tm_mday t" "s16 (tm_hour t) = tm_hour t" "s16 (tm_min t) = tm_min t" "s16 (tm_sec t) = tm_sec t"
    "s16 (tm_year t + 1900) = tm_year t + 1900"
    using assms by (simp_all add: stamp_ok_def MININT_def MAXINT_def)
  show ?thesis
    by (simp add: scan_str_def stamp_def conversions not_space skip_blank scan_s_name [OF d] scan_s_name [OF m] skip_name [OF m]
        skip_name [OF d] skip_field2 f skip_U skip_space_blanks y s)
qed

lemma scan_make:
  assumes "stamp_ok t" "tm_gmtoff t = 0"
  shows "makeTimestamp t = Some (stamp t, t)"
    "scanTimestamp (stamp t) t0 = (1, t0\<lparr>tm_mday := tm_mday t, tm_hour := tm_hour t, tm_min := tm_min t, tm_sec := tm_sec t,
       tm_wday := tm_wday t, tm_mon := tm_mon t, tm_year := tm_year t, tm_gmtoff := 0, tm_isdst := 1\<rparr>)"
proof -
  show "makeTimestamp t = Some (stamp t, t)"
    using print_stamp [OF assms(1)] assms by (simp add: makeTimestamp_def stamp_ok_def)
  have "find_name (day_name ! nat (tm_wday t)) day_name = tm_wday t" "find_name (mon_name ! nat (tm_mon t)) (take 11 mon_name) = tm_mon t"
    using names3(1) [of "tm_wday t"] names3(2) [of "tm_mon t"] assms by (simp_all add: stamp_ok_def)
  moreover have "s16 (tm_year t) = tm_year t" "tm_wday t < 7" "tm_mon t < 12" using assms by (simp_all add: stamp_ok_def MININT_def MAXINT_def)
  ultimately show "scanTimestamp (stamp t) t0 = (1, t0\<lparr>tm_mday := tm_mday t, tm_hour := tm_hour t, tm_min := tm_min t, tm_sec := tm_sec t,
       tm_wday := tm_wday t, tm_mon := tm_mon t, tm_year := tm_year t, tm_gmtoff := 0, tm_isdst := 1\<rparr>)"
    unfolding scanTimestamp_def scan_stamp [OF assms(1)] Let_def
    by (simp add: int_of_def str_of_def)
qed

section \<open>The property\<close>

lemma year_bounds:
  assumes "0 \<le> days_to_month y m" "days_to_month y m \<le> 366" "1 \<le> d" "d \<le> 31" "\<bar>daynum y m d\<bar> \<le> 40000"
  shows "1800 \<le> y \<and> y \<le> 2100"
proof -
  have "days_to_year y \<le> 40000" "- 40400 \<le> days_to_year y" using assms by (simp_all add: daynum_def abs_le_iff)
  moreover have "\<bar>4 * ((y - 1) div 4) - (y - 1)\<bar> \<le> 3" "\<bar>100 * ((y - 1) div 100) - (y - 1)\<bar> \<le> 99" "\<bar>400 * ((y - 1) div 400) - (y - 1)\<bar> \<le> 399"
    by (simp_all add: minus_mod_eq_mult_div [symmetric])
  ultimately show ?thesis unfolding days_to_year_def abs_le_iff by simp
qed

text \<open>A normalized time in UTC is kept by its stamp.\<close>

lemma stamp_instant:
  assumes "date_ok t" "time_ok t" "tm_gmtoff t = 0" "tm_wday t \<in> {0..<7}" "\<bar>instant t\<bar> < 32000 * 86400"
  shows "\<exists>s t2 t3. makeTimestamp t = Some (s, t) \<and> scanTimestamp s t0 = (1, t2) \<and> mktime t2 = Some (instant t, t3)"
proof -
  obtain l where l: "month_length (1900 + tm_year t) (tm_mon t) = Some l" "1 \<le> tm_mday t" "tm_mday t \<le> l"
    using assms(1) by (auto simp: date_ok_def)
  have m: "0 \<le> tm_mon t" "tm_mon t < 12" "tm_mday t \<le> 31" using month_length_pos [OF l(1)] l by simp_all
  have d: "\<bar>day_no t\<bar> \<le> 40000" using assms(2,5) unfolding instant_def time_ok_def by linarith
  have y: "1800 \<le> 1900 + tm_year t \<and> 1900 + tm_year t \<le> 2100"
    by (rule year_bounds [of _ "tm_mon t" "tm_mday t"]) (use days_to_month_bounds [OF l(1)] month_length_pos [OF l(1)] l(2) m d in \<open>simp_all add: day_no_def\<close>)
  have ok: "stamp_ok t" using assms(2,4) m l(2) y by (simp add: stamp_ok_def time_ok_def)
  define t2 where "t2 = t0\<lparr>tm_mday := tm_mday t, tm_hour := tm_hour t, tm_min := tm_min t, tm_sec := tm_sec t,
       tm_wday := tm_wday t, tm_mon := tm_mon t, tm_year := tm_year t, tm_gmtoff := 0, tm_isdst := 1\<rparr>"
  have "inst t2 = instant t" using m by (simp add: inst_def instant_def t2_def abs_day_norm day_no_def)
  moreover have "small t2" using assms(2) m l(2) y by (simp add: small_def t2_def time_ok_def abs_le_iff)
  moreover have "tm_hour t2 * 3600 + tm_min t2 * 60 + tm_sec t2 < 86400" using assms(2) by (simp add: t2_def time_ok_def)
  moreover have "- 32000 * 86400 \<le> instant t" "instant t < 32000 * 86400" using assms(5) by simp_all
  ultimately obtain t3 where "mktime t2 = Some (instant t - tm_gmtoff t2, t3)"
    using mktime_ok [of t2 thesis] by (simp only: less_irrefl)
  then show ?thesis using scan_make [OF ok assms(3)] by (auto simp: t2_def)
qed

lemma parse_dst_gmtoff: "tm_gmtoff (parse_dst t) = tm_gmtoff t \<or> tm_gmtoff (parse_dst t) = - 25200"
  by (simp add: parse_dst_def Let_def ltim2dst_def ut2ltim_def ZONE_PST_def SECPERHR_def)

lemma parse_fields_gmtoff: "parse_fields u t = Some t' \<Longrightarrow> tm_gmtoff t' = tm_gmtoff t"
  by (auto simp: parse_fields_def Let_def split_beta split: option.splits prod.splits)

lemma local_gmtoff:
  assumes "parseTime time True t = Some t'"
  shows "tm_gmtoff t' = - 28800 \<or> tm_gmtoff t' = - 25200"
proof -
  obtain t1 where "parse_fields (ut2ltim time) (t\<lparr>tm_isdst := - 1, tm_gmtoff := ut2ltim 0, tm_zone := ''PST''\<rparr>) = Some t1"
    "t' = parse_dst t1" using assms by (auto simp: parseTime_def)
  then show ?thesis using parse_fields_gmtoff [of _ _ t1] parse_dst_gmtoff [of t1]
    by (simp add: ut2ltim_def ZONE_PST_def SECPERHR_def)
qed

text \<open>A stamp of the clock keeps the instant: a time that is parsed (in UTC or in local time),
  printed by \<open>makeTimestamp\<close>, read back by \<open>scanTimestamp\<close> into any structure, and made a time again
  by \<open>mktime\<close>, is the same time, from 1882 on to 2057.\<close>

theorem stamp_keeps_instant:
  assumes "\<bar>time\<bar> < 2760000000"
  shows "\<exists>t1 s t2 t3 t4. parseTime time local t = Some t1 \<and> makeTimestamp t1 = Some (s, t2) \<and>
    scanTimestamp s t0 = (1, t3) \<and> mktime t3 = Some (time, t4)"
proof (cases local)
  case False
  let ?t = "t\<lparr>tm_isdst := 0, tm_gmtoff := 0, tm_zone := ''UTC''\<rparr>"
  have b: "MININT \<le> time div 86400" "time div 86400 < MAXINT - 4" using assms by (simp_all add: MININT_def MAXINT_def)
  obtain t1 where p: "parse_fields time ?t = Some t1" "date_ok t1" "time_ok t1" "instant t1 = time"
    "tm_gmtoff t1 = 0" "tm_wday t1 = (4 + time div 86400) mod 7"
    by (rule parse_fields_ok [OF b, of ?t]) simp
  from stamp_instant [OF p(2,3,5), of t0] show ?thesis
    using p(1,4,6) assms False by (simp add: parseTime_def) blast
next
  case True
  have "MININT \<le> (time - 28800) div 86400" "(time - 28800) div 86400 < MAXINT - 4"
    using assms by (simp_all add: MININT_def MAXINT_def)
  then obtain t1 where p: "parseTime time True t = Some t1" "date_ok t1" "time_ok t1" "instant t1 - tm_gmtoff t1 = time"
    "- 100 \<le> tm_year t1" "tm_year t1 \<le> 200" by (rule parse_local)
  note g = local_gmtoff [OF p(1)]
  let ?t = "t1\<lparr>tm_sec := tm_sec t1 - tm_gmtoff t1, tm_gmtoff := 0\<rparr>"
  obtain l where l: "month_length (1900 + tm_year t1) (tm_mon t1) = Some l" "1 \<le> tm_mday t1" "tm_mday t1 \<le> l"
    using p(2) by (auto simp: date_ok_def)
  have m: "0 \<le> tm_mon t1" "tm_mon t1 < 12" "tm_mday t1 \<le> 31" using month_length_pos [OF l(1)] l by simp_all
  have "inst ?t = time" using p(4) m by (simp add: inst_def instant_def abs_day_norm day_no_def)
  moreover have "small ?t" using p(3,5,6) g m l(2) by (auto simp: small_def time_ok_def abs_le_iff)
  moreover have "tm_hour ?t * 3600 + tm_min ?t * 60 + tm_sec ?t = 86400 \<Longrightarrow> mday_in ?t"
    using l by (simp add: mday_in_def)
  moreover have "- 32000 * 86400 \<le> time" "time < 32000 * 86400" using assms by simp_all
  ultimately obtain t2 where n: "normalizeTm ?t = Some t2" "date_ok t2" "tm_wday t2 = (day_no t2 + 4) mod 7" "instant t2 = time"
    "0 \<le> tm_sec t2" "tm_sec t2 \<le> 60" "0 \<le> tm_min t2" "tm_min t2 < 60" "0 \<le> tm_hour t2" "tm_hour t2 < 24"
    "tm_gmtoff t2 = tm_gmtoff ?t" "tm_sec t2 < 60 \<or> tm_sec ?t = 60"
    using mktime_ok [of ?t thesis] by (simp only:)
  have t2: "time_ok t2" "tm_gmtoff t2 = 0" using n(5-12) g p(3) by (auto simp: time_ok_def)
  have "makeTimestamp t1 = makeTimestamp t2"
    using n(1) t2(2) g p(3) by (auto simp: makeTimestamp_def time_ok_def MININT_def MAXINT_def)
  then show ?thesis using stamp_instant [OF n(2) t2, of t0] n(3,4) assms p(1) True by simp blast
qed

theorem stamp_keeps_instant_witness:
  "\<exists>t1 s t2 t3 t4. parseTime 1425985229 True tm0 = Some t1 \<and> makeTimestamp t1 = Some (s, t2) \<and>
    scanTimestamp s tm0 = (1, t3) \<and> mktime t3 = Some (1425985229, t4)"
  using stamp_keeps_instant [of 1425985229 True tm0 tm0] by simp

end
