(* ===== verification/Mib.thy ===== *)
theory Mib
  imports Memory Stdio
begin

text \<open>
  The management information base of the radio (\<open>src/sys/ieee802_15_4/mib.c\<close>, \<open>mib.h\<close>): the table of
  attributes, its index by attribute identifier, which is built in allocated memory at the first
  search, and the table of the primitives. The variable an entry points to is given by its name,
  and \<open>mib_func\<close>, which is \<open>mib_Function\<close> in every entry, and the unused link are left out.
\<close>

section \<open>The table\<close>

record mib_info =
  mib_name :: string
  mib_prefix :: string
  mib_objectID :: int
  mib_vartype :: int
  mib_writable :: bool
  mib_param :: string

definition mib_entry :: "string \<Rightarrow> string \<Rightarrow> int \<Rightarrow> int \<Rightarrow> bool \<Rightarrow> string \<Rightarrow> mib_info" where
  "mib_entry n p i s w v =
     \<lparr>mib_name = n, mib_prefix = p, mib_objectID = i, mib_vartype = s, mib_writable = w, mib_param = v\<rparr>"

definition mib :: "mib_info list" where
  "mib = [
     mib_entry ''CurrentChannel'' ''phy.'' 0 1 True ''phyCurrentChannel'',
     mib_entry ''ChannelsSupported'' ''phy.'' 1 4 False ''phyChannelsSupported'',
     mib_entry ''TransmitPower'' ''phy.'' 2 1 True ''phyTransmitPower'',
     mib_entry ''CCAMode'' ''phy.'' 3 1 True ''phyCCAMode'',
     mib_entry ''CurrentPage'' ''phy.'' 4 1 False ''phyCurrentPage'',
     mib_entry ''AckWaitDuration'' ''mac.'' 64 4 True ''macAckWaitDuration'',
     mib_entry ''AssociationPermit'' ''mac.'' 65 1 True ''macAssociationPermit'',
     mib_entry ''AutoRequest'' ''mac.'' 66 1 True ''macAutoRequest'',
     mib_entry ''BeaconPayload'' ''mac.'' 69 2 True ''macBeaconPayload'',
     mib_entry ''BeaconPayloadLength'' ''mac.'' 70 1 True ''macBeaconPayloadLength'',
     mib_entry ''BSN'' ''mac.'' 73 1 True ''macBSN'',
     mib_entry ''CoordExtendedAddress'' ''mac.'' 74 8 True ''macCoordExtendedAddress'',
     mib_entry ''CoordShortAddress'' ''mac.'' 75 2 True ''macCoordShortAddress'',
     mib_entry ''DSN'' ''mac.'' 76 1 True ''macDSN'',
     mib_entry ''GTSPermit'' ''mac.'' 77 1 True ''macGTSPermit'',
     mib_entry ''MaxCSMAbackoffs'' ''mac.'' 79 4 True ''macAckWaitDuration'',
     mib_entry ''MinBE'' ''mac.'' 79 1 True ''macMinBE'',
     mib_entry ''PANId'' ''mac.'' 80 2 True ''macPANId'',
     mib_entry ''RxOnWhenIdle'' ''mac.'' 82 1 True ''macRxOnWhenIdle'',
     mib_entry ''ShortAddress'' ''mac.'' 83 2 True ''macShortAddress'',
     mib_entry ''TransactionPersistenceTime'' ''mac.'' 85 2 True ''macTransactionPersistenceTime'',
     mib_entry ''MaxBE'' ''mac.'' 87 1 True ''macMaxBE'',
     mib_entry ''MaxFrameRetries'' ''mac.'' 89 1 True ''macMaxFrameRetries'',
     mib_entry ''ResponseWaitTime'' ''mac.'' 90 1 True ''macResponseWaitTime'',
     mib_entry ''TimestampSupported'' ''mac.'' 92 1 True ''macTimestampSupported'',
     mib_entry ''SecurityEnabled'' ''mac.'' 93 1 True ''macSecurityEnabled'']"

definition mib_Function :: "string \<Rightarrow> int" where
  "mib_Function v = 0"

definition MIN_PHY_IDENTIFIER :: int where "MIN_PHY_IDENTIFIER = 0"
definition MAX_PHY_IDENTIFIER :: int where "MAX_PHY_IDENTIFIER = 7"
definition MIN_MAC_IDENTIFIER :: int where "MIN_MAC_IDENTIFIER = 64"
definition MAX_MAC_IDENTIFIER :: int where "MAX_MAC_IDENTIFIER = 94"
definition MACMaxCSMAbackoffs :: int where "MACMaxCSMAbackoffs = 78"

definition valid_id :: "int \<Rightarrow> bool" where
  "valid_id a \<longleftrightarrow> (MIN_PHY_IDENTIFIER \<le> a \<and> a \<le> MAX_PHY_IDENTIFIER) \<or> (MIN_MAC_IDENTIFIER \<le> a \<and> a \<le> MAX_MAC_IDENTIFIER)"

section \<open>The index\<close>

record mibst =
  mibTableInitialized :: int
  mibPhyIndex :: int
  mibMacIndex :: int
  mheap :: memst

fun memset :: "int \<Rightarrow> int \<Rightarrow> nat \<Rightarrow> memst \<Rightarrow> memst" where
  "memset p v 0 m = m"
| "memset p v (Suc n) m = memset (p + 1) v n (set_ram p v m)"

fun fill_index :: "int \<Rightarrow> int \<Rightarrow> int \<Rightarrow> mib_info list \<Rightarrow> memst \<Rightarrow> memst" where
  "fill_index phy mac i [] m = m"
| "fill_index phy mac i (e # es) m =
     fill_index phy mac (i + 1) es
       (if mib_objectID e < MIN_MAC_IDENTIFIER then set_ram (phy + mib_objectID e) (u8 i) m
        else set_ram (mac + (mib_objectID e - MIN_MAC_IDENTIFIER)) (u8 i) m)"

definition init_index :: "mibst \<Rightarrow> mibst option" where
  "init_index s = do {
     (p, m) \<leftarrow> wrap_malloc (MAX_PHY_IDENTIFIER - MIN_PHY_IDENTIFIER + 1) (mheap s);
     (q, m) \<leftarrow> wrap_malloc (MAX_MAC_IDENTIFIER - MIN_MAC_IDENTIFIER + 1) m;
     let m = memset p 255 (nat (MAX_PHY_IDENTIFIER - MIN_PHY_IDENTIFIER + 1)) m;
     let m = memset q 255 (nat (MAX_MAC_IDENTIFIER - MIN_MAC_IDENTIFIER + 1)) m;
     Some \<lparr>mibTableInitialized = 1, mibPhyIndex = p, mibMacIndex = q, mheap = fill_index p q 0 mib m\<rparr>
   }"

definition getMibID :: "int \<Rightarrow> mibst \<Rightarrow> (int \<times> mibst) option" where
  "getMibID a s = do {
     s \<leftarrow> (if mibTableInitialized s = 0 then init_index s else Some s);
     (if valid_id a
      then
        (let index = (if a < MIN_MAC_IDENTIFIER then ram (mheap s) (mibPhyIndex s + a)
                      else ram (mheap s) (mibMacIndex s + (a - MIN_MAC_IDENTIFIER)))
         in Some (if index = 255 then SYSERR else index, s))
      else Some (SYSERR, s))
   }"

text \<open>The entry of the table, or no entry for the null pointer.\<close>

definition get_MibEntry :: "int \<Rightarrow> mibst \<Rightarrow> (mib_info option \<times> mibst) option" where
  "get_MibEntry a s = do {
     (index, s) \<leftarrow> getMibID a s;
     Some (if index \<noteq> SYSERR then Some (mib ! nat index) else None, s)
   }"

text \<open>The request prints the name of the attribute to the output of the process.\<close>

definition MLME_GET_request :: "int \<Rightarrow> mibst \<Rightarrow> string \<Rightarrow> (int \<times> mibst \<times> string) option" where
  "MLME_GET_request pib s out = do {
     (i, s) \<leftarrow> getMibID pib s;
     (if i = SYSERR then Some (SYSERR, s, out)
      else do {
        t \<leftarrow> vfprintf (''GET: %s pib=0x%02X'' @ [NL]) [StrArg (mib_name (mib ! nat i)), IntArg pib];
        Some (OK, s, out @ t)
      })
   }"

section \<open>The address of the node\<close>

text \<open>The octets of the address in the registers of the radio and in \<open>macLongAddrBuf\<close>.\<close>

record macaddr =
  macExtAddress :: int
  IEEE_ADDR :: "int list"
  macLongAddrBuf :: "int list"

definition mac_init :: "int \<Rightarrow> macaddr" where
  "mac_init macLongAddr =
     (let buf = map (\<lambda>k. macLongAddr div 2 ^ (8 * k) mod 256) [0..<8]
      in \<lparr>macExtAddress = macLongAddr, IEEE_ADDR = buf, macLongAddrBuf = buf\<rparr>)"

section \<open>Primitives\<close>

datatype primitive =
  NOFUNCTION_error
  | ASSOCIATE_request
  | ASSOCIATE_indication
  | ASSOCIATE_response
  | ASSOCIATE_confirm
  | DISASSOCIATE_request
  | DISASSOCIATE_indication
  | DISASSOCIATE_confirm
  | BEACON_NOTIFY_indication
  | GET_request
  | GET_confirm
  | GTS_request
  | GTS_indication
  | GTS_confirm
  | ORPHAN_indication
  | ORPHAN_response
  | RESET_request
  | RESET_confirm
  | RX_ENABLE_request
  | RX_ENABLE_confirm
  | SCAN_request
  | SCAN_confirm
  | COMM_STATUS_indication
  | SET_request
  | SET_confirm
  | START_request
  | START_confirm
  | SYNC_request
  | SYNC_LOSS_indication
  | POLL_request
  | POLL_confirm

text \<open>None of the primitives does anything but return.\<close>

fun call_primitive :: "primitive \<Rightarrow> int" where
  "call_primitive NOFUNCTION_error = SYSERR"
| "call_primitive ASSOCIATE_request = 1"
| "call_primitive ASSOCIATE_indication = 0"
| "call_primitive ASSOCIATE_response = 0"
| "call_primitive ASSOCIATE_confirm = 1"
| "call_primitive DISASSOCIATE_request = 1"
| "call_primitive DISASSOCIATE_indication = 1"
| "call_primitive DISASSOCIATE_confirm = 1"
| "call_primitive BEACON_NOTIFY_indication = 1"
| "call_primitive GET_request = 1"
| "call_primitive GET_confirm = 1"
| "call_primitive GTS_request = 0"
| "call_primitive GTS_indication = 0"
| "call_primitive GTS_confirm = 0"
| "call_primitive ORPHAN_indication = 0"
| "call_primitive ORPHAN_response = 0"
| "call_primitive RESET_request = 0"
| "call_primitive RESET_confirm = 0"
| "call_primitive RX_ENABLE_request = 0"
| "call_primitive RX_ENABLE_confirm = 0"
| "call_primitive SCAN_request = 0"
| "call_primitive SCAN_confirm = 0"
| "call_primitive COMM_STATUS_indication = 0"
| "call_primitive SET_request = 0"
| "call_primitive SET_confirm = 0"
| "call_primitive START_request = 0"
| "call_primitive START_confirm = 0"
| "call_primitive SYNC_request = 0"
| "call_primitive SYNC_LOSS_indication = 0"
| "call_primitive POLL_request = 0"
| "call_primitive POLL_confirm = 0"

record sap_info =
  sap_request :: primitive
  sap_indication :: primitive
  sap_response :: primitive
  sap_confirm :: primitive

definition sap_entry :: "primitive \<Rightarrow> primitive \<Rightarrow> primitive \<Rightarrow> primitive \<Rightarrow> sap_info" where
  "sap_entry q i p c = \<lparr>sap_request = q, sap_indication = i, sap_response = p, sap_confirm = c\<rparr>"

definition sapFuncTab :: "sap_info list" where
  "sapFuncTab = [
     sap_entry ASSOCIATE_request ASSOCIATE_indication ASSOCIATE_response ASSOCIATE_confirm,
     sap_entry DISASSOCIATE_request DISASSOCIATE_indication NOFUNCTION_error DISASSOCIATE_confirm,
     sap_entry NOFUNCTION_error BEACON_NOTIFY_indication NOFUNCTION_error NOFUNCTION_error,
     sap_entry GET_request NOFUNCTION_error NOFUNCTION_error GET_confirm,
     sap_entry GTS_request GTS_indication NOFUNCTION_error GTS_confirm,
     sap_entry NOFUNCTION_error ORPHAN_indication ORPHAN_response NOFUNCTION_error,
     sap_entry RESET_request NOFUNCTION_error NOFUNCTION_error RESET_confirm,
     sap_entry RX_ENABLE_request NOFUNCTION_error NOFUNCTION_error RX_ENABLE_confirm,
     sap_entry SCAN_request NOFUNCTION_error NOFUNCTION_error SCAN_confirm,
     sap_entry NOFUNCTION_error COMM_STATUS_indication NOFUNCTION_error NOFUNCTION_error,
     sap_entry SET_request NOFUNCTION_error NOFUNCTION_error SET_confirm,
     sap_entry START_request NOFUNCTION_error NOFUNCTION_error START_confirm,
     sap_entry SYNC_request NOFUNCTION_error NOFUNCTION_error NOFUNCTION_error,
     sap_entry NOFUNCTION_error SYNC_LOSS_indication NOFUNCTION_error NOFUNCTION_error,
     sap_entry POLL_request NOFUNCTION_error NOFUNCTION_error POLL_confirm]"

text \<open>The operations SAP_REQUEST, SAP_INDICATION, SAP_RESPONSE and SAP_CONFIRM are 0 to 3. A function outside
  the table has no value.\<close>

definition SAP_function :: "int \<Rightarrow> int \<Rightarrow> int option" where
  "SAP_function op func =
     (if func < 0 \<or> func \<ge> int (length sapFuncTab) then None
      else
        (let psap = sapFuncTab ! nat func
         in if op = 0 then Some (call_primitive (sap_request psap))
            else if op = 1 then Some (call_primitive (sap_indication psap))
            else if op = 2 then Some (call_primitive (sap_response psap))
            else if op = 3 then Some (call_primitive (sap_confirm psap))
            else Some SYSERR))"

section \<open>The search\<close>

text \<open>What a search should find: the last entry of the table that has the identifier.\<close>

fun last_entry :: "int \<Rightarrow> int \<Rightarrow> mib_info list \<Rightarrow> int \<Rightarrow> int" where
  "last_entry a i [] d = d"
| "last_entry a i (e # es) d = last_entry a (i + 1) es (if mib_objectID e = a then i else d)"

definition slot :: "int \<Rightarrow> int \<Rightarrow> int \<Rightarrow> int" where
  "slot phy mac a = (if a < MIN_MAC_IDENTIFIER then phy + a else mac + (a - MIN_MAC_IDENTIFIER))"

lemma slot_inj:
  assumes "valid_id a" "valid_id b" "a \<noteq> b" "phy + 8 \<le> mac \<or> mac + 31 \<le> phy"
  shows "slot phy mac a \<noteq> slot phy mac b"
  using assms
  by (auto simp: valid_id_def slot_def MIN_MAC_IDENTIFIER_def MAX_MAC_IDENTIFIER_def MIN_PHY_IDENTIFIER_def MAX_PHY_IDENTIFIER_def)

lemma ram_set_ram: "ram (set_ram a v m) b = (if a = b then v else ram m b)"
  by (simp add: set_ram_def)

lemma memset_ram: "ram (memset p v n m) x = (if p \<le> x \<and> x < p + int n then v else ram m x)"
  by (induction p v n m rule: memset.induct) (auto simp: ram_set_ram)

lemma fill_index_slot:
  "fill_index phy mac i (e # es) m = fill_index phy mac (i + 1) es (set_ram (slot phy mac (mib_objectID e)) (u8 i) m)"
  by (simp add: slot_def)

lemma fill_index_ram:
  assumes "phy + 8 \<le> mac \<or> mac + 31 \<le> phy" "valid_id a"
  shows "\<forall>e \<in> set es. valid_id (mib_objectID e) \<Longrightarrow> 0 \<le> i \<Longrightarrow> i + int (length es) < 256 \<Longrightarrow>
    ram (fill_index phy mac i es m) (slot phy mac a) = last_entry a i es (ram m (slot phy mac a))"
proof (induction es arbitrary: i m)
  case (Cons e es)
  have "ram (set_ram (slot phy mac (mib_objectID e)) (u8 i) m) (slot phy mac a) =
      (if mib_objectID e = a then i else ram m (slot phy mac a))"
    using slot_inj [OF _ assms(2) _ assms(1), of "mib_objectID e"] Cons.prems
    by (auto simp: ram_set_ram u8_def)
  then show ?case
    using Cons.IH [of "i + 1"] Cons.prems unfolding fill_index_slot by simp
qed simp

lemma mib_valid: "\<forall>e \<in> set mib. valid_id (mib_objectID e)" "length mib = 26"
  by (simp_all add: mib_def mib_entry_def valid_id_def MIN_MAC_IDENTIFIER_def MAX_MAC_IDENTIFIER_def MIN_PHY_IDENTIFIER_def
      MAX_PHY_IDENTIFIER_def)

lemma last_entry_bounds: "0 \<le> i \<Longrightarrow> last_entry a i es d = d \<or> (i \<le> last_entry a i es d \<and> last_entry a i es d < i + int (length es))"
proof (induction es arbitrary: i d)
  case (Cons e es)
  show ?case using Cons.IH [of "i + 1" "if mib_objectID e = a then i else d"] Cons.prems by auto
qed simp

definition index_ok :: "mibst \<Rightarrow> bool" where
  "index_ok s \<longleftrightarrow> mibTableInitialized s \<noteq> 0 \<and>
     (\<forall>a. valid_id a \<longrightarrow> ram (mheap s) (slot (mibPhyIndex s) (mibMacIndex s) a) = last_entry a 0 mib 255)"

lemma malloc_takes:
  assumes "arena.uses m F live" "0 < n" "n \<le> 65500" "wrap_malloc n m = Some (p, m')"
  shows "\<exists>live'. arena.uses m' (F - heap_area (p - 2) (roundmb n + 2)) live' \<and> heap_area (p - 2) (roundmb n + 2) \<subseteq> F"
  using assms(4) by (cases rule: malloc_uses [OF assms(1-3)]) auto

lemma init_index_ok:
  assumes "arena.uses (mheap s) F live" "init_index s = Some s'"
  shows "index_ok s'"
proof -
  obtain p m q m' where w: "wrap_malloc 8 (mheap s) = Some (p, m)" "wrap_malloc 31 m = Some (q, m')"
    and s': "s' = \<lparr>mibTableInitialized = 1, mibPhyIndex = p, mibMacIndex = q, mheap = fill_index p q 0 mib (memset q 255 31 (memset p 255 8 m'))\<rparr>"
    using assms(2)
    by (auto simp: init_index_def MIN_MAC_IDENTIFIER_def MAX_MAC_IDENTIFIER_def MIN_PHY_IDENTIFIER_def MAX_PHY_IDENTIFIER_def
        split: Option.bind_splits)
  have r: "roundmb 8 = 8" "roundmb 10 = 12" "roundmb 31 = 32" "roundmb 34 = 36" by (simp_all add: roundmb_def sizeof_mblock_def u16_def)
  obtain live' where u: "arena.uses m (F - heap_area (p - 2) 10) live'" using malloc_takes [OF assms(1) _ _ w(1)] by (auto simp: r)
  then have "heap_area (q - 2) 34 \<subseteq> F - heap_area (p - 2) 10" using malloc_takes [OF u _ _ w(2)] by (auto simp: r)
  then have apart: "{q - 2..<q - 2 + 36} \<inter> {p - 2..<p - 2 + 12} = {}" unfolding heap_area_def r by blast
  have d: "p + 8 \<le> q \<or> q + 31 \<le> p"
  proof (rule ccontr)
    assume "\<not> (p + 8 \<le> q \<or> q + 31 \<le> p)"
    then have "max p q \<in> {q - 2..<q - 2 + 36} \<inter> {p - 2..<p - 2 + 12}" by auto
    then show False unfolding apart by simp
  qed
  have "ram (fill_index p q 0 mib (memset q 255 31 (memset p 255 8 m'))) (slot p q a) = last_entry a 0 mib 255" if "valid_id a" for a
  proof -
    have "ram (memset q 255 31 (memset p 255 8 m')) (slot p q a) = 255"
      using that by (auto simp: memset_ram slot_def valid_id_def MIN_MAC_IDENTIFIER_def MAX_MAC_IDENTIFIER_def
          MIN_PHY_IDENTIFIER_def MAX_PHY_IDENTIFIER_def)
    then show ?thesis using fill_index_ram [OF d that mib_valid(1), of 0] mib_valid(2) by simp
  qed
  then show ?thesis by (simp add: index_ok_def s')
qed

text \<open>\<open>getMibID\<close> finds for every attribute the last entry of the table with its identifier, and
  SYSERR when there is none: at the first search, which builds the index in two areas from the heap, and
  at every later one.\<close>

theorem getMibID_finds:
  assumes "index_ok s \<or> mibTableInitialized s = 0 \<and> arena.uses (mheap s) F live" "getMibID a s = Some (i, s')"
  shows "index_ok s' \<and> i = (if valid_id a \<and> last_entry a 0 mib 255 \<noteq> 255 then last_entry a 0 mib 255 else SYSERR)"
proof -
  obtain s1 where s1: "(if mibTableInitialized s = 0 then init_index s else Some s) = Some s1" using assms(2)
    by (auto simp: getMibID_def split: Option.bind_splits)
  have ok: "index_ok s1"
    using assms(1) s1 init_index_ok by (auto simp: index_ok_def split: if_splits)
  have "getMibID a s = Some (if valid_id a then (if ram (mheap s1) (slot (mibPhyIndex s1) (mibMacIndex s1) a) = 255 then SYSERR
      else ram (mheap s1) (slot (mibPhyIndex s1) (mibMacIndex s1) a), s1) else (SYSERR, s1))"
    unfolding getMibID_def s1 slot_def Option.bind.bind_lunit by (simp add: Let_def)
  then show ?thesis using assms(2) ok by (auto simp: index_ok_def split: if_splits)
qed

lemma csma_backoffs_not_found: "last_entry MACMaxCSMAbackoffs 0 mib 255 = 255" "last_entry 79 0 mib 255 = 16"
  "mib_objectID (mib ! 15) = 79" "mib_name (mib ! 15) = ''MaxCSMAbackoffs''" "mib_param (mib ! 15) = ''macAckWaitDuration''"
  by (simp_all add: mib_def mib_entry_def MACMaxCSMAbackoffs_def)

definition ex_mib :: "memst \<Rightarrow> mibst" where
  "ex_mib m = \<lparr>mibTableInitialized = 1, mibPhyIndex = 0, mibMacIndex = 1000,
     mheap = m\<lparr>ram := (\<lambda>x. last_entry (if x < 1000 then x else x - 1000 + 64) 0 mib 255)\<rparr>\<rparr>"

theorem getMibID_finds_witness:
  "\<forall>m. index_ok (ex_mib m) \<and> getMibID 79 (ex_mib m) = Some (16, ex_mib m) \<and> (16 :: int) = last_entry 79 0 mib 255"
proof
  fix m
  have ok: "index_ok (ex_mib m)"
    by (auto simp: index_ok_def ex_mib_def slot_def valid_id_def MIN_MAC_IDENTIFIER_def MAX_MAC_IDENTIFIER_def
        MIN_PHY_IDENTIFIER_def MAX_PHY_IDENTIFIER_def)
  have "mibTableInitialized (ex_mib m) \<noteq> 0" by (simp add: ex_mib_def)
  then have "\<exists>i. getMibID 79 (ex_mib m) = Some (i, ex_mib m)" by (simp add: getMibID_def Let_def)
  then obtain i s' where g: "getMibID 79 (ex_mib m) = Some (i, s')" "s' = ex_mib m" by blast
  have v: "valid_id 79" by (simp add: valid_id_def MIN_MAC_IDENTIFIER_def MAX_MAC_IDENTIFIER_def)
  have "i = 16" using getMibID_finds [OF disjI1 [OF ok] g(1)] v csma_backoffs_not_found(2) by simp
  then show "index_ok (ex_mib m) \<and> getMibID 79 (ex_mib m) = Some (16, ex_mib m) \<and> (16 :: int) = last_entry 79 0 mib 255"
    using ok g csma_backoffs_not_found(2) by simp
qed

end
