(* ===== verification/Names.thy ===== *)
theory Names
  imports Prelude
begin

text \<open>
  The syntactic name space (\<open>src/sys/net/mount.c\<close>, \<open>unmount.c\<close>, \<open>namrepl.c\<close>, \<open>nammap.c\<close>, \<open>naminit.c\<close>,
  \<open>namopen.c\<close>, \<open>src/sys/h/name.h\<close>): a table of prefixes, each with a replacement and a device. A name is
  replaced until its device is not the name space itself. The devices are those of the configuration
  and are arguments: \<open>ns\<close> is NAMESPACE. \<open>nametab\<close> is the part of the table that is in use, so that its
  length is \<open>nnames\<close>.
\<close>

section \<open>Definitions\<close>

definition NAMPLEN :: nat where "NAMPLEN = 32"
definition NAMRLEN :: nat where "NAMRLEN = 32"
definition NAMLEN :: nat where "NAMLEN = 80"
definition NNAMES :: nat where "NNAMES = 14"

record nament =
  npre :: string
  nrepl :: string
  ndev :: int

type_synonym nam = "nament list"

text \<open>A null pointer stands for the empty string.\<close>

definition str_or_null :: "string option \<Rightarrow> string" where
  "str_or_null p = (case p of None \<Rightarrow> [] | Some s \<Rightarrow> s)"

fun mount_replace :: "string \<Rightarrow> int \<Rightarrow> string \<Rightarrow> nam \<Rightarrow> nam option" where
  "mount_replace p d r [] = None"
| "mount_replace p d r (e # es) =
     (if p = npre e then Some (e\<lparr>nrepl := r, ndev := d\<rparr> # es) else map_option (Cons e) (mount_replace p d r es))"

text \<open>A new prefix goes before the last one, which is the one that is tried when no other matches.\<close>

definition mount :: "string option \<Rightarrow> int \<Rightarrow> string option \<Rightarrow> nam \<Rightarrow> int \<times> nam" where
  "mount prefix dev replace nt =
     (let p = str_or_null prefix; r = str_or_null replace
      in if length p \<ge> NAMPLEN \<or> length r \<ge> NAMRLEN then (SYSERR, nt)
         else
           (case mount_replace p dev r nt of
              Some nt' \<Rightarrow> (OK, nt')
            | None \<Rightarrow>
                if length nt \<ge> NNAMES then (SYSERR, nt)
                else
                  (let e = \<lparr>npre = p, nrepl = r, ndev = dev\<rparr>
                   in (OK, if nt = [] then [e] else butlast nt @ [e, last nt]))))"

fun unmount_remove :: "string \<Rightarrow> nam \<Rightarrow> nam option" where
  "unmount_remove p [] = None"
| "unmount_remove p (e # es) = (if p = npre e then Some es else map_option (Cons e) (unmount_remove p es))"

definition unmount :: "string option \<Rightarrow> nam \<Rightarrow> int \<times> nam" where
  "unmount prefix nt =
     (if length (str_or_null prefix) \<ge> NAMPLEN then (SYSERR, nt)
      else case unmount_remove (str_or_null prefix) nt of Some nt' \<Rightarrow> (OK, nt') | None \<Rightarrow> (SYSERR, nt))"

fun namrepl :: "string \<Rightarrow> nam \<Rightarrow> int \<times> string" where
  "namrepl name [] = (SYSERR, [])"
| "namrepl name (e # es) =
     (if take (length (npre e)) name = npre e
      then (if length (nrepl e) + length name - length (npre e) \<ge> NAMLEN then (SYSERR, [])
            else (ndev e, nrepl e @ drop (length (npre e)) name))
      else namrepl name es)"

partial_function (option) nammap :: "int \<Rightarrow> string \<Rightarrow> nam \<Rightarrow> (int \<times> string) option" where
  "nammap ns name nt =
     (let (dev, newname) = namrepl name nt
      in if dev = ns then nammap ns newname nt else Some (dev, newname))"

definition naminit :: "int \<Rightarrow> int \<Rightarrow> int \<Rightarrow> nam" where
  "naminit ns rfilsys console =
     fold (\<lambda>(p, d, r) nt. snd (mount (Some p) d (Some r) nt))
       [('''', ns, ''Xinu/storage/''), (''Xinu/'', rfilsys, ''/Users/Shared/xinu7/''), (''/dev/console'', console, ''''),
        (''/dev/null'', rfilsys, ''/dev/null''), (''/dev/'', SYSERR, ''''), (''/'', rfilsys, ''/''), (''~/'', ns, ''Xinu/'')] []"

text \<open>\<open>open\<close> of the device the name is mapped to is an argument.\<close>

definition namopen :: "int \<Rightarrow> (int \<Rightarrow> string \<Rightarrow> string \<Rightarrow> 'a) \<Rightarrow> 'a \<Rightarrow> string \<Rightarrow> string \<Rightarrow> nam \<Rightarrow> 'a option" where
  "namopen ns dopen err filenam mode nt =
     map_option (\<lambda>(dev, newname). if dev = SYSERR then err else dopen dev newname mode) (nammap ns filenam nt)"

section \<open>Mounted names\<close>

lemma mount_replace_pre: "mount_replace p d r nt = Some nt' \<Longrightarrow> map npre nt' = map npre nt"
  by (induction nt arbitrary: nt') (auto split: if_splits)

lemma mount_replace_None: "mount_replace p d r nt = None \<longleftrightarrow> p \<notin> npre ` set nt"
  by (induction nt) auto

lemma unmount_remove_None: "unmount_remove p nt = None \<longleftrightarrow> p \<notin> npre ` set nt"
  by (induction nt) auto

text \<open>The table is well formed: no prefix occurs twice, and every string fits into its array.\<close>

definition names_ok :: "nam \<Rightarrow> bool" where
  "names_ok nt \<longleftrightarrow> length nt \<le> NNAMES \<and> distinct (map npre nt) \<and>
     (\<forall>e \<in> set nt. length (npre e) < NAMPLEN \<and> length (nrepl e) < NAMRLEN)"

lemma mount_replace_set:
  "mount_replace p d r nt = Some nt' \<Longrightarrow> e \<in> set nt' \<Longrightarrow> e \<in> set nt \<or> (npre e = p \<and> nrepl e = r \<and> ndev e = d)"
  by (induction nt arbitrary: nt') (auto split: if_splits)

lemma mount_ok:
  assumes "names_ok nt"
  shows "names_ok (snd (mount p d r nt))"
proof (cases "length (str_or_null p) \<ge> NAMPLEN \<or> length (str_or_null r) \<ge> NAMRLEN")
  case True
  then show ?thesis using assms by (simp add: mount_def Let_def)
next
  case False
  show ?thesis
  proof (cases "mount_replace (str_or_null p) d (str_or_null r) nt")
    case (Some nt')
    have "names_ok nt'"
      using assms mount_replace_pre [OF Some] mount_replace_set [OF Some] False arg_cong [OF mount_replace_pre [OF Some], of length]
      unfolding names_ok_def by (metis length_map not_le)
    then show ?thesis using False Some by (simp add: mount_def Let_def)
  next
    case None
    then have n: "str_or_null p \<notin> npre ` set nt" by (simp add: mount_replace_None)
    show ?thesis
    proof (cases "nt = []")
      case True
      then show ?thesis using False by (simp add: mount_def Let_def names_ok_def NNAMES_def)
    next
      case ne: False
      obtain xs x where nt: "nt = xs @ [x]" using ne by (cases nt rule: rev_cases) auto
      show ?thesis using False None n assms by (auto simp: mount_def Let_def names_ok_def nt)
    qed
  qed
qed

lemma unmount_remove_ok:
  "unmount_remove p nt = Some nt' \<Longrightarrow> distinct (map npre nt) \<Longrightarrow>
    set nt' \<subseteq> set nt \<and> length nt = length nt' + 1 \<and> distinct (map npre nt') \<and> p \<notin> npre ` set nt'"
proof (induction nt arbitrary: nt')
  case (Cons e nt)
  show ?case
  proof (cases "p = npre e")
    case False
    then obtain z where z: "unmount_remove p nt = Some z" "nt' = e # z" using Cons.prems(1) by auto
    then have "set z \<subseteq> set nt" "length nt = length z + 1" "distinct (map npre z)" "p \<notin> npre ` set z"
      using Cons.IH [of z] Cons.prems(2) by simp_all
    then show ?thesis using z(2) Cons.prems(2) False by auto
  qed (use Cons.prems in auto)
qed simp

lemma unmount_ok:
  assumes "names_ok nt"
  shows "names_ok (snd (unmount p nt))"
  using assms unmount_remove_ok [of "str_or_null p" nt]
  by (auto simp: unmount_def names_ok_def split: option.splits)

lemma naminit_table:
  "naminit ns rf con = [\<lparr>npre = ''Xinu/'', nrepl = ''/Users/Shared/xinu7/'', ndev = rf\<rparr>, \<lparr>npre = ''/dev/console'', nrepl = '''', ndev = con\<rparr>,
     \<lparr>npre = ''/dev/null'', nrepl = ''/dev/null'', ndev = rf\<rparr>, \<lparr>npre = ''/dev/'', nrepl = '''', ndev = SYSERR\<rparr>,
     \<lparr>npre = ''/'', nrepl = ''/'', ndev = rf\<rparr>, \<lparr>npre = ''~/'', nrepl = ''Xinu/'', ndev = ns\<rparr>,
     \<lparr>npre = '''', nrepl = ''Xinu/storage/'', ndev = ns\<rparr>]"
  by (simp add: naminit_def mount_def str_or_null_def NAMPLEN_def NAMRLEN_def NNAMES_def)

text \<open>A prefix that has just been mounted is the one that is used for every name that begins with it and
  with no other prefix.\<close>

lemma namrepl_first:
  "e \<in> set nt \<Longrightarrow> take (length (npre e)) name = npre e \<Longrightarrow>
    \<forall>e' \<in> set nt. take (length (npre e')) name = npre e' \<longrightarrow> e' = e \<Longrightarrow>
    length (nrepl e) + length name - length (npre e) < NAMLEN \<Longrightarrow>
    namrepl name nt = (ndev e, nrepl e @ drop (length (npre e)) name)"
proof (induction nt)
  case (Cons a nt)
  show ?case
  proof (cases "take (length (npre a)) name = npre a")
    case True
    then have "a = e" using Cons.prems(3) by simp
    then show ?thesis using Cons.prems(2,4) by simp
  next
    case False
    then have "e \<in> set nt" using Cons.prems(1,2) by auto
    moreover have "\<forall>e' \<in> set nt. take (length (npre e')) name = npre e' \<longrightarrow> e' = e"
      using Cons.prems(3) by (meson list.set_intros(2))
    ultimately have "namrepl name nt = (ndev e, nrepl e @ drop (length (npre e)) name)"
      by (rule Cons.IH [OF _ Cons.prems(2) _ Cons.prems(4)])
    then show ?thesis using False by simp
  qed
qed simp

section \<open>Mapping ends\<close>

lemma nammap_stops: "fst (namrepl name nt) \<noteq> ns \<Longrightarrow> nammap ns name nt = Some (namrepl name nt)"
  by (subst nammap.simps) (simp add: case_prod_beta)

lemma nammap_goes_on: "namrepl name nt = (ns, new) \<Longrightarrow> nammap ns name nt = nammap ns new nt"
  by (subst nammap.simps) simp

lemma namrepl_cases:
  "namrepl name nt = (SYSERR, []) \<or> (\<exists>e \<in> set nt. take (length (npre e)) name = npre e \<and>
     namrepl name nt = (ndev e, nrepl e @ drop (length (npre e)) name) \<and> length (nrepl e @ drop (length (npre e)) name) < NAMLEN)"
proof (induction nt)
  case (Cons e nt)
  show ?case
  proof (cases "take (length (npre e)) name = npre e")
    case True
    then have "length (npre e) \<le> length name" by (metis length_take min.cobounded1)
    then show ?thesis using True by auto
  qed (use Cons.IH in auto)
qed simp

lemma xinu_stops:
  assumes "rf \<noteq> ns" "SYSERR \<noteq> ns" "take 5 name = ''Xinu/''"
  shows "fst (namrepl name (naminit ns rf con)) \<noteq> ns"
proof -
  obtain es where e: "naminit ns rf con = \<lparr>npre = ''Xinu/'', nrepl = ''/Users/Shared/xinu7/'', ndev = rf\<rparr> # es"
    by (simp add: naminit_table)
  have l: "length ''Xinu/'' = 5" by simp
  show ?thesis unfolding e namrepl.simps nament.simps l using assms by (simp only: if_True refl if_split fst_conv) simp
qed

text \<open>C12: mapping a name ends: in the name space of the system every name, of any length, is mapped
  to a device other than the name space itself (or to SYSERR, with an empty name, when it grows too long).\<close>

theorem nammap_returns:
  assumes "rf \<noteq> ns" "con \<noteq> ns" "SYSERR \<noteq> ns"
  shows "\<exists>dev new. nammap ns name (naminit ns rf con) = Some (dev, new) \<and> dev \<noteq> ns \<and> length new < NAMLEN"
proof -
  have len: "length (snd (namrepl x nt)) < NAMLEN" for x nt
    using namrepl_cases [of x nt] by (auto simp: NAMLEN_def)
  have stop: "\<exists>dev new. nammap ns x (naminit ns rf con) = Some (dev, new) \<and> dev \<noteq> ns \<and> length new < NAMLEN"
    if "fst (namrepl x (naminit ns rf con)) \<noteq> ns" for x
    using nammap_stops [OF that] that len [of x "naminit ns rf con"] by (cases "namrepl x (naminit ns rf con)") simp
  show ?thesis
  proof (cases "fst (namrepl name (naminit ns rf con)) = ns")
    case False
    then show ?thesis by (rule stop)
  next
    case True
    then obtain new where n: "namrepl name (naminit ns rf con) = (ns, new)" by (cases "namrepl name (naminit ns rf con)") simp
    then have "take 5 new = ''Xinu/''"
      using namrepl_cases [of name "naminit ns rf con"] assms by (auto simp: naminit_table)
    then show ?thesis using stop [OF xinu_stops [OF assms(1,3)]] nammap_goes_on [OF n] by simp
  qed
qed

theorem nammap_returns_witness:
  "\<exists>dev new. nammap 1 ''~/notes'' (naminit 1 2 0) = Some (dev, new) \<and> dev \<noteq> 1 \<and> length new < NAMLEN"
  by (rule nammap_returns) (simp_all add: SYSERR_def)

text \<open>A prefix that is mounted on itself makes the mapping run forever.\<close>

lemma self_mount_loops: "nammap ns ''x'' [\<lparr>npre = ''x'', nrepl = ''x'', ndev = ns\<rparr>] = None"
proof (cases "nammap ns ''x'' [\<lparr>npre = ''x'', nrepl = ''x'', ndev = ns\<rparr>]")
  case (Some y)
  have "nammap a n nt = Some y \<Longrightarrow> a = ns \<and> n = ''x'' \<and> nt = [\<lparr>npre = ''x'', nrepl = ''x'', ndev = ns\<rparr>] \<Longrightarrow> False" for a n nt y
    by (induction rule: nammap.raw_induct [rotated, consumes 1]) (auto simp: NAMLEN_def)
  then show ?thesis using Some by blast
qed

end
