(* ===== verification/Lexan.thy ===== *)
theory Lexan
  imports Stdio
begin

text \<open>
  The division of a command line into tokens (\<open>src/sys/shell/lexan.c\<close>, with the part of \<open>struct shvars\<close>
  in \<open>src/sys/h/shell.h\<close> that it fills). The tokens are copied into the area \<open>shargst\<close>; a token is the
  offset of its copy there and its first character. What is written behind the end of the area falls on
  other variables: such a run has no value. A line is the string from the pointer \<open>p\<close> on, its end the null
  character.
\<close>

section \<open>Definitions\<close>

definition SHBUFLEN :: nat where "SHBUFLEN = 80"
definition SHARGLEN :: nat where "SHARGLEN = 82"
definition SHMAXTOK :: nat where "SHMAXTOK = 16"

abbreviation NULLCH :: char where "NULLCH \<equiv> CHR 0x00"
abbreviation DQUOTE :: char where "DQUOTE \<equiv> CHR 0x22"
abbreviation SQUOTE :: char where "SQUOTE \<equiv> CHR 0x27"

text \<open>\<open>to\<close> is the offset of the pointer of that name; \<open>shtok\<close> and \<open>shtktyp\<close> are the entries written so far.\<close>

record shvars =
  shargst :: string
  shto :: nat
  shtok :: "nat list"
  shtktyp :: string

definition cur :: "string \<Rightarrow> char" where
  "cur p = (case p of [] \<Rightarrow> NULLCH | c # _ \<Rightarrow> c)"

definition eol :: "char \<Rightarrow> bool" where
  "eol c \<longleftrightarrow> c = NULLCH \<or> c = NL"

definition is_quote :: "char \<Rightarrow> bool" where
  "is_quote c \<longleftrightarrow> c = DQUOTE \<or> c = SQUOTE"

definition is_oper :: "char \<Rightarrow> bool" where
  "is_oper c \<longleftrightarrow> c = CHR ''>'' \<or> c = CHR ''<'' \<or> c = CHR ''&''"

definition ends_word :: "char \<Rightarrow> bool" where
  "ends_word c \<longleftrightarrow> eol c \<or> is_oper c \<or> c = CHR '' '' \<or> is_quote c"

definition put_to :: "char \<Rightarrow> shvars \<Rightarrow> shvars option" where
  "put_to c S = (if shto S < SHARGLEN then Some (S\<lparr>shargst := (shargst S)[shto S := c], shto := shto S + 1\<rparr>) else None)"

definition start_token :: "char \<Rightarrow> shvars \<Rightarrow> shvars" where
  "start_token ch S = S\<lparr>shtok := shtok S @ [shto S], shtktyp := shtktyp S @ [ch]\<rparr>"

fun lex_quoted :: "char \<Rightarrow> string \<Rightarrow> shvars \<Rightarrow> (char \<times> string \<times> shvars) option" where
  "lex_quoted quote [] S = Some (NULLCH, [], S)"
| "lex_quoted quote (ch # p) S =
     (if ch = quote \<or> eol ch then Some (ch, p, S) else do { S \<leftarrow> put_to ch S; lex_quoted quote p S })"

fun lex_word :: "string \<Rightarrow> shvars \<Rightarrow> (string \<times> shvars) option" where
  "lex_word [] S = Some ([], S)"
| "lex_word (ch # p) S = (if ends_word ch then Some (ch # p, S) else do { S \<leftarrow> put_to ch S; lex_word p S })"

lemma lex_quoted_length: "lex_quoted q p S = Some (c, p', S') \<Longrightarrow> length p' \<le> length p"
  by (induction q p S rule: lex_quoted.induct) (auto split: if_splits bind_splits)

lemma lex_word_length: "lex_word p S = Some (p', S') \<Longrightarrow> length p' \<le> length p"
  by (induction p S rule: lex_word.induct) (auto split: if_splits bind_splits)

definition lex_token :: "string \<Rightarrow> shvars \<Rightarrow> (bool \<times> string \<times> shvars) option" where
  "lex_token p S =
     (let ch = cur p; S = start_token ch S
      in if is_quote ch then do {
           (c, p, S) \<leftarrow> lex_quoted ch (tl p) S;
           if c \<noteq> ch then Some (False, p, S) else do { S \<leftarrow> put_to NULLCH S; Some (True, p, S) }
         }
         else do {
           S \<leftarrow> put_to ch S;
           (p, S) \<leftarrow> (if is_oper ch then Some (tl p, S) else lex_word (tl p) S);
           S \<leftarrow> put_to NULLCH S;
           Some (True, p, S)
         })"

lemma lex_token_length: "lex_token p S = Some (b, p', S') \<Longrightarrow> \<not> eol (cur p) \<Longrightarrow> length p' < length p"
  by (cases p) (auto simp: lex_token_def cur_def eol_def Let_def less_Suc_eq_le
    dest: lex_quoted_length lex_word_length split: if_splits bind_splits prod.splits)

lemma length_dropWhile_less: "n < length (dropWhile P xs) \<Longrightarrow> n < length xs"
  using length_dropWhile_le less_le_trans by blast

function lexan_loop :: "string \<Rightarrow> shvars \<Rightarrow> (int \<times> shvars) option" where
  "lexan_loop p S =
     (if eol (cur p) \<or> length (shtok S) \<ge> SHMAXTOK \<or> eol (cur (dropWhile (\<lambda>c. c = CHR '' '') p))
      then Some (int (length (shtok S)), S)
      else case lex_token (dropWhile (\<lambda>c. c = CHR '' '') p) S of
        None \<Rightarrow> None
      | Some (ok, p, S) \<Rightarrow> if ok then lexan_loop p S else Some (SYSERR, S))"
  by pat_completeness auto
termination
  by (relation "measure (\<lambda>(p, S). length p)") (auto dest!: lex_token_length intro: length_dropWhile_less)

declare lexan_loop.simps [simp del]

definition lexan :: "string \<Rightarrow> shvars \<Rightarrow> (int \<times> shvars) option" where
  "lexan line S = lexan_loop line (S\<lparr>shto := 0, shtok := [], shtktyp := []\<rparr>)"

text \<open>The string at an offset of the area.\<close>

definition arg_at :: "shvars \<Rightarrow> nat \<Rightarrow> string" where
  "arg_at S a = takeWhile (\<lambda>c. c \<noteq> NULLCH) (drop a (shargst S))"

section \<open>The tokens of a line\<close>

text \<open>What the tokens of a line are, without the area: at most \<open>n\<close> of them, each with the character that gives its
  kind; no value for a quote that is not closed.\<close>

definition next_token :: "string \<Rightarrow> ((char \<times> string) \<times> string) option" where
  "next_token p =
     (case p of
        [] \<Rightarrow> None
      | c # cs \<Rightarrow>
          if is_quote c then
            (let s = takeWhile (\<lambda>d. d \<noteq> c \<and> \<not> eol d) cs; r = dropWhile (\<lambda>d. d \<noteq> c \<and> \<not> eol d) cs
             in if cur r = c then Some ((c, s), tl r) else None)
          else if is_oper c then Some ((c, [c]), cs)
          else Some ((c, c # takeWhile (\<lambda>d. \<not> ends_word d) cs), dropWhile (\<lambda>d. \<not> ends_word d) cs))"

fun tokens_of :: "nat \<Rightarrow> string \<Rightarrow> (char \<times> string) list option" where
  "tokens_of 0 line = Some []"
| "tokens_of (Suc n) line =
     (let p = dropWhile (\<lambda>c. c = CHR '' '') line
      in if eol (cur p) then Some []
         else case next_token p of None \<Rightarrow> None | Some (t, r) \<Rightarrow> map_option (Cons t) (tokens_of n r))"

text \<open>The octets the tokens take in the area: every string with its null character.\<close>

definition area_size :: "(char \<times> string) list \<Rightarrow> nat" where
  "area_size ts = (\<Sum>t \<leftarrow> ts. length (snd t) + 1)"

text \<open>A token as it is typed, and a line of tokens with a blank between them.\<close>

definition typed :: "char \<times> string \<Rightarrow> string" where
  "typed t = (if is_quote (fst t) then fst t # snd t @ [fst t] else snd t)"

fun typed_line :: "(char \<times> string) list \<Rightarrow> string" where
  "typed_line [] = []"
| "typed_line [t] = typed t"
| "typed_line (t # ts) = typed t @ CHR '' '' # typed_line ts"

definition wf_token :: "char \<times> string \<Rightarrow> bool" where
  "wf_token t \<longleftrightarrow>
     (if is_quote (fst t) then \<forall>d \<in> set (snd t). d \<noteq> fst t \<and> \<not> eol d
      else if is_oper (fst t) then snd t = [fst t]
      else snd t \<noteq> [] \<and> hd (snd t) = fst t \<and> (\<forall>d \<in> set (snd t). \<not> ends_word d))"


section \<open>The area\<close>

definition puts_to :: "string \<Rightarrow> shvars \<Rightarrow> shvars" where
  "puts_to w S = S\<lparr>shargst := take (shto S) (shargst S) @ w @ drop (shto S + length w) (shargst S), shto := shto S + length w\<rparr>"

lemma puts_to_Nil [simp]: "puts_to [] S = S"
  by (simp add: puts_to_def)

lemma put_to_eq:
  "length (shargst S) = SHARGLEN \<Longrightarrow> put_to c S = (if shto S < SHARGLEN then Some (puts_to [c] S) else None)"
  by (simp add: put_to_def puts_to_def upd_conv_take_nth_drop)

lemma puts_to_append:
  "shto S + length v \<le> length (shargst S) \<Longrightarrow> puts_to w (puts_to v S) = puts_to (v @ w) S"
  by (simp add: puts_to_def min_absorb2 add.commute add.left_commute)

lemma length_puts_to [simp]:
  "shto S + length w \<le> length (shargst S) \<Longrightarrow> length (shargst (puts_to w S)) = length (shargst S)"
  by (simp add: puts_to_def)

lemma shto_puts_to [simp]: "shto (puts_to w S) = shto S + length w"
  by (simp add: puts_to_def)

lemma put_puts_to:
  assumes "length (shargst S) = SHARGLEN" "shto S + length w \<le> SHARGLEN"
  shows "put_to c (puts_to w S) = (if shto S + length w < SHARGLEN then Some (puts_to (w @ [c]) S) else None)"
  using assms by (simp add: put_to_eq puts_to_append)

lemma lex_quoted_eq:
  assumes "length (shargst S) = SHARGLEN" "shto S \<le> SHARGLEN"
  shows "lex_quoted q p S =
    (let w = takeWhile (\<lambda>d. d \<noteq> q \<and> \<not> eol d) p; r = dropWhile (\<lambda>d. d \<noteq> q \<and> \<not> eol d) p
     in if shto S + length w \<le> SHARGLEN then Some (cur r, tl r, puts_to w S) else None)"
  using assms
proof (induction q p S rule: lex_quoted.induct)
  case (2 q c p S)
  have "puts_to w (puts_to [c] S) = puts_to (c # w) S" if "shto S < SHARGLEN" for w
    using puts_to_append [of S "[c]" w] that 2 by simp
  then show ?case using 2 by (auto simp: put_to_eq Let_def cur_def)
qed (simp add: cur_def)

lemma lex_word_eq:
  assumes "length (shargst S) = SHARGLEN" "shto S \<le> SHARGLEN"
  shows "lex_word p S =
    (let w = takeWhile (\<lambda>d. \<not> ends_word d) p
     in if shto S + length w \<le> SHARGLEN then Some (dropWhile (\<lambda>d. \<not> ends_word d) p, puts_to w S) else None)"
  using assms
proof (induction p S rule: lex_word.induct)
  case (2 c p S)
  have "puts_to w (puts_to [c] S) = puts_to (c # w) S" if "shto S < SHARGLEN" for w
    using puts_to_append [of S "[c]" w] that 2 by simp
  then show ?case using 2 by (auto simp: put_to_eq Let_def)
qed simp

text \<open>The area holds the tokens \<open>ts\<close>.\<close>

definition holds :: "(char \<times> string) list \<Rightarrow> shvars \<Rightarrow> bool" where
  "holds ts S \<longleftrightarrow> length (shargst S) = SHARGLEN \<and> shto S = area_size ts \<and> area_size ts \<le> SHARGLEN \<and>
     shtktyp S = map fst ts \<and> shtok S = map (\<lambda>i. area_size (take i ts)) [0..<length ts] \<and>
     take (shto S) (shargst S) = concat (map (\<lambda>t. snd t @ [NULLCH]) ts)"

lemma area_size_Nil [simp]: "area_size [] = 0"
  by (simp add: area_size_def)

lemma area_size_Cons [simp]: "area_size (t # ts) = length (snd t) + 1 + area_size ts"
  by (simp add: area_size_def)

lemma area_size_append [simp]: "area_size (ts @ us) = area_size ts + area_size us"
  by (simp add: area_size_def)

lemma holds_snoc:
  assumes "holds ts S" "area_size (ts @ [t]) \<le> SHARGLEN"
  shows "holds (ts @ [t]) (puts_to (snd t @ [NULLCH]) (start_token (fst t) S))"
  using assms by (auto simp: holds_def puts_to_def start_token_def)

lemma start_token_simps [simp]:
  "shargst (start_token c S) = shargst S" "shto (start_token c S) = shto S"
  by (simp_all add: start_token_def)

lemma lex_token_next:
  assumes h: "holds ts S" and t: "next_token p = Some (t, r)"
  shows "lex_token p S =
    (if area_size (ts @ [t]) \<le> SHARGLEN then Some (True, r, puts_to (snd t @ [NULLCH]) (start_token (fst t) S)) else None)"
proof -
  obtain c cs where p: "p = c # cs" using t by (cases p) (auto simp: next_token_def)
  let ?S = "start_token c S"
  have S: "length (shargst ?S) = SHARGLEN" "shto ?S \<le> SHARGLEN" "shto ?S = area_size ts" "length (shargst S) = SHARGLEN"
    using h by (simp_all add: holds_def)
  consider (quote) "is_quote c" | (oper) "\<not> is_quote c" "is_oper c" | (word) "\<not> is_quote c" "\<not> is_oper c" by blast
  then show ?thesis
  proof cases
    case quote
    then show ?thesis using t S lex_quoted_eq [OF S(1,2), of c cs]
      by (auto simp: lex_token_def p cur_def [of "c # cs"] next_token_def Let_def put_puts_to split: if_splits)
  next
    case oper
    have "puts_to [NULLCH] (puts_to [c] ?S) = puts_to [c, NULLCH] ?S" if "shto ?S < SHARGLEN"
      using puts_to_append [of ?S "[c]" "[NULLCH]"] that S by simp
    then show ?thesis using oper t S
      by (auto simp: lex_token_def p cur_def next_token_def Let_def put_to_eq put_puts_to split: if_splits)
  next
    case word
    have "puts_to w (puts_to v ?S) = puts_to (v @ w) ?S" if "shto ?S + length v \<le> SHARGLEN" for v w
      using puts_to_append [of ?S v w] that S by simp
    then show ?thesis using word t S lex_word_eq [of "puts_to [c] ?S" cs]
      by (auto simp: lex_token_def p cur_def next_token_def Let_def put_to_eq put_puts_to split: if_splits)
  qed
qed

lemma lex_token_open:
  assumes h: "holds ts S" and t: "next_token p = None" "\<not> eol (cur p)"
  shows "lex_token p S = None \<or> (\<exists>p' S'. lex_token p S = Some (False, p', S'))"
proof -
  obtain c cs where p: "p = c # cs" using t by (cases p) (auto simp: cur_def eol_def)
  let ?S = "start_token c S"
  have S: "length (shargst ?S) = SHARGLEN" "shto ?S \<le> SHARGLEN" using h by (simp_all add: holds_def)
  have "is_quote c" using t p by (auto simp: next_token_def split: if_splits)
  then show ?thesis using t lex_quoted_eq [OF S, of c cs]
    by (auto simp: lex_token_def p cur_def [of "c # cs"] next_token_def Let_def split: if_splits)
qed

lemma lexan_loop_holds:
  assumes "holds ts S" "length ts + n = SHMAXTOK"
  shows "case tokens_of n p of
      None \<Rightarrow> lexan_loop p S = None \<or> (\<exists>S'. lexan_loop p S = Some (SYSERR, S'))
    | Some us \<Rightarrow> if area_size (ts @ us) \<le> SHARGLEN
               then \<exists>S'. lexan_loop p S = Some (int (length (ts @ us)), S') \<and> holds (ts @ us) S' else lexan_loop p S = None"
  using assms
proof (induction n p arbitrary: ts S rule: tokens_of.induct)
  case (1 p)
  then have "length (shtok S) = SHMAXTOK" by (simp add: holds_def)
  then show ?case using 1 by (simp add: lexan_loop.simps [of p S]) (simp add: holds_def)
next
  case (2 n p)
  let ?p = "dropWhile (\<lambda>c. c = CHR '' '') p"
  have n: "length (shtok S) = length ts" "length ts < SHMAXTOK" using 2 by (simp_all add: holds_def)
  have e: "eol (cur p) \<Longrightarrow> eol (cur ?p)" by (cases p) (auto simp: cur_def eol_def)
  show ?case
  proof (cases "eol (cur ?p)")
    case True
    then show ?thesis using 2 n by (simp add: lexan_loop.simps [of p S] Let_def) (simp add: holds_def)
  next
    case False
    then have u: "lexan_loop p S = (case lex_token ?p S of None \<Rightarrow> None | Some (ok, p, S) \<Rightarrow> if ok then lexan_loop p S else Some (SYSERR, S))"
      using n e by (auto simp: lexan_loop.simps [of p S])
    show ?thesis
    proof (cases "next_token ?p")
      case None
      then show ?thesis using lex_token_open [OF "2.prems"(1) None False] u False by auto
    next
      case (Some tr)
      obtain t r where tr: "tr = (t, r)" by (cases tr)
      let ?S = "puts_to (snd t @ [NULLCH]) (start_token (fst t) S)"
      have l: "lex_token ?p S = (if area_size (ts @ [t]) \<le> SHARGLEN then Some (True, r, ?S) else None)"
        using lex_token_next [OF "2.prems"(1), of ?p t r] Some tr by simp
      show ?thesis
      proof (cases "area_size (ts @ [t]) \<le> SHARGLEN")
        case True
        then have "holds (ts @ [t]) ?S" by (rule holds_snoc [OF "2.prems"(1)])
        from "2.IH" [OF refl False Some tr [symmetric] this] show ?thesis
          using "2.prems" True u l Some tr False by (auto split: option.splits if_splits)
      next
        case f: False
        then show ?thesis using u l Some tr False by (auto split: option.splits)
      qed
    qed
  qed
qed


section \<open>Lines of tokens\<close>

lemma takeWhile_all: "(\<forall>d \<in> set s. P d) \<Longrightarrow> r = [] \<or> \<not> P (hd r) \<Longrightarrow> takeWhile P (s @ r) = s"
  by (induction s) (cases r, auto)

lemma dropWhile_all: "(\<forall>d \<in> set s. P d) \<Longrightarrow> r = [] \<or> \<not> P (hd r) \<Longrightarrow> dropWhile P (s @ r) = r"
  by (induction s) (cases r, auto)

lemma char_kinds [simp]:
  "is_quote c \<Longrightarrow> \<not> eol c" "is_quote c \<Longrightarrow> c \<noteq> CHR '' ''" "is_oper c \<Longrightarrow> \<not> eol c" "is_oper c \<Longrightarrow> c \<noteq> CHR '' ''"
  by (auto simp: is_quote_def is_oper_def eol_def)

lemma not_ends_word: "\<not> ends_word c \<Longrightarrow> \<not> eol c \<and> \<not> is_quote c \<and> \<not> is_oper c \<and> c \<noteq> CHR '' ''"
  by (simp add: ends_word_def)

lemma next_token_typed:
  assumes "wf_token t" "r = [] \<or> hd r = CHR '' ''"
  shows "next_token (typed t @ r) = Some (t, r)"
proof -
  obtain c s where t: "t = (c, s)" by (cases t)
  consider (quote) "is_quote c" | (oper) "\<not> is_quote c" "is_oper c" | (word) "\<not> is_quote c" "\<not> is_oper c" by blast
  then show ?thesis
  proof cases
    case quote
    have w: "\<forall>d \<in> set s. d \<noteq> c \<and> \<not> eol d" using assms(1) quote by (simp add: t wf_token_def)
    then show ?thesis using quote
      by (simp add: t typed_def next_token_def Let_def takeWhile_all [OF w] dropWhile_all [OF w] cur_def)
  next
    case oper
    then show ?thesis using assms(1) by (simp add: t typed_def next_token_def wf_token_def)
  next
    case word
    then obtain s' where s: "s = c # s'" "\<forall>d \<in> set s'. \<not> ends_word d"
      using assms(1) by (cases s) (auto simp: t wf_token_def)
    have r: "r = [] \<or> \<not> \<not> ends_word (hd r)" using assms(2) by (auto simp: ends_word_def)
    show ?thesis using word s(1)
      by (simp add: t typed_def next_token_def takeWhile_all [OF s(2) r] dropWhile_all [OF s(2) r])
  qed
qed

lemma typed_head:
  assumes "wf_token t"
  shows "typed t \<noteq> []" "hd (typed t) \<noteq> CHR '' ''" "\<not> eol (hd (typed t))"
proof -
  have "typed t \<noteq> [] \<and> hd (typed t) \<noteq> CHR '' '' \<and> \<not> eol (hd (typed t))"
  proof (cases "is_quote (fst t)")
    case False
    then have t: "typed t = snd t" by (simp add: typed_def)
    show ?thesis
    proof (cases "is_oper (fst t)")
      case f: False
      then have "snd t \<noteq> []" "\<not> ends_word (hd (snd t))" using assms False hd_in_set [of "snd t"] by (simp_all add: wf_token_def)
      then show ?thesis using not_ends_word [of "hd (snd t)"] by (simp add: t)
    qed (use assms False t in \<open>simp add: wf_token_def\<close>)
  qed (simp add: typed_def)
  then show "typed t \<noteq> []" "hd (typed t) \<noteq> CHR '' ''" "\<not> eol (hd (typed t))" by simp_all
qed

lemma dropWhile_head: "s \<noteq> [] \<Longrightarrow> \<not> P (hd s) \<Longrightarrow> dropWhile P (s @ r) = s @ r"
  by (cases s) auto

lemma tokens_of_typed:
  assumes "list_all wf_token ts" "length ts \<le> n"
  shows "tokens_of n (typed_line ts) = Some ts" "tokens_of n (CHR '' '' # typed_line ts) = Some ts"
proof -
  have "tokens_of n (typed_line ts) = Some ts \<and> tokens_of n (CHR '' '' # typed_line ts) = Some ts"
    using assms
  proof (induction ts arbitrary: n rule: typed_line.induct)
    case 1
    then show ?case by (cases n) (simp_all add: cur_def eol_def)
  next
    case (2 t)
    then obtain k where n: "n = Suc k" by (cases n) auto
    have w: "wf_token t" using 2 by simp
    note h = typed_head [OF w]
    have c: "cur (typed t) = hd (typed t)" using h(1) by (cases "typed t") (simp_all add: cur_def)
    have d: "dropWhile (\<lambda>c. c = CHR '' '') (typed t) = typed t" using dropWhile_head [OF h(1), of "\<lambda>c. c = CHR '' ''" "[]"] h(2) by simp
    have t: "next_token (typed t) = Some (t, [])" using next_token_typed [OF w, of "[]"] by simp
    have e: "tokens_of k [] = Some []" by (cases k) (simp_all add: cur_def eol_def)
    show ?case using h(3) by (simp add: n d c t e Let_def)
  next
    case (3 t t' ts)
    then obtain k where n: "n = Suc k" by (cases n) auto
    have w: "wf_token t" using 3 by simp
    note h = typed_head [OF w]
    let ?r = "CHR '' '' # typed_line (t' # ts)"
    have c: "cur (typed t @ ?r) = hd (typed t)" using h(1) by (cases "typed t") (simp_all add: cur_def)
    have d: "dropWhile (\<lambda>c. c = CHR '' '') (typed t @ ?r) = typed t @ ?r" using dropWhile_head [OF h(1), of "\<lambda>c. c = CHR '' ''" ?r] h(2) by simp
    have t: "next_token (typed t @ ?r) = Some (t, ?r)" using next_token_typed [OF w, of ?r] by simp
    have e: "tokens_of k ?r = Some (t' # ts)" using "3.IH" [of k] "3.prems" n by simp
    show ?case using h(3) by (simp add: n d c t e Let_def)
  qed
  then show "tokens_of n (typed_line ts) = Some ts" "tokens_of n (CHR '' '' # typed_line ts) = Some ts" by simp_all
qed

lemma wf_token_chars:
  assumes "wf_token t"
  shows "NULLCH \<notin> set (snd t)"
proof
  assume n: "NULLCH \<in> set (snd t)"
  have "eol NULLCH" "ends_word NULLCH" "\<not> is_oper NULLCH" by (simp_all add: eol_def ends_word_def is_oper_def)
  then show False using assms n unfolding wf_token_def by (metis empty_iff empty_set set_ConsD)
qed

lemma arg_at_holds:
  assumes h: "holds ts S" and k: "k < length ts" "NULLCH \<notin> set (snd (ts ! k))"
  shows "arg_at S (shtok S ! k) = snd (ts ! k)"
proof -
  let ?f = "\<lambda>t. snd t @ [NULLCH]"
  have len: "length (concat (map ?f us)) = area_size us" for us :: "(char \<times> string) list"
    by (induction us) simp_all
  have a: "take (area_size ts) (shargst S) = concat (map ?f ts)" using h unfolding holds_def by metis
  have s: "ts = take k ts @ ts ! k # drop (Suc k) ts" using k(1) by (simp add: id_take_nth_drop)
  have "drop (area_size (take k ts)) (concat (map ?f ts)) = ?f (ts ! k) @ concat (map ?f (drop (Suc k) ts))"
    by (subst (2) s) (simp add: len)
  moreover have "area_size (take k ts) \<le> area_size ts" by (subst (2) s) simp
  ultimately have "drop (area_size (take k ts)) (shargst S) =
      snd (ts ! k) @ NULLCH # concat (map ?f (drop (Suc k) ts)) @ drop (area_size ts) (shargst S)"
    using append_take_drop_id [of "area_size ts" "shargst S"] a len [of ts]
    by (metis (no_types, lifting) append.assoc append_Cons append_Nil diff_is_0_eq drop_0 drop_append)
  moreover have "shtok S ! k = area_size (take k ts)" using h k(1) by (simp add: holds_def)
  moreover have "takeWhile (\<lambda>c. c \<noteq> NULLCH) (snd (ts ! k) @ NULLCH # us) = snd (ts ! k)" for us
    by (rule takeWhile_all) (use k(2) in auto)
  ultimately show ?thesis by (simp add: arg_at_def)
qed

lemma area_size_line: "list_all wf_token ts \<Longrightarrow> area_size ts \<le> length (typed_line ts) + 1"
  by (induction ts rule: typed_line.induct) (auto simp: typed_def)

lemma lexan_holds:
  assumes "list_all wf_token ts" "length ts \<le> SHMAXTOK" "length (shargst S) = SHARGLEN"
  shows "if area_size ts \<le> SHARGLEN then \<exists>S'. lexan (typed_line ts) S = Some (int (length ts), S') \<and> holds ts S'
      else lexan (typed_line ts) S = None"
proof -
  let ?S = "S\<lparr>shto := 0, shtok := [], shtktyp := []\<rparr>"
  have h: "holds [] ?S" using assms(3) by (simp add: holds_def)
  have "tokens_of SHMAXTOK (typed_line ts) = Some ts" by (rule tokens_of_typed) (use assms in simp_all)
  then show ?thesis
    using lexan_loop_holds [OF h, of SHMAXTOK "typed_line ts"] by (auto simp: lexan_def split: if_splits)
qed

text \<open>C29: \<open>lexan\<close> gives back the tokens of a line: at most 16 tokens, typed with a blank between them, are
  copied one behind the other into the area, each with its first character as its kind, as long as the area takes
  them; if it does not, \<open>lexan\<close> writes behind its end.\<close>

theorem lexan_splits:
  assumes "list_all wf_token ts" "length ts \<le> SHMAXTOK" "length (shargst S) = SHARGLEN"
  shows "if area_size ts \<le> SHARGLEN
    then \<exists>S'. lexan (typed_line ts) S = Some (int (length ts), S') \<and> shtktyp S' = map fst ts \<and>
      length (shtok S') = length ts \<and> (\<forall>k < length ts. arg_at S' (shtok S' ! k) = snd (ts ! k))
    else lexan (typed_line ts) S = None"
proof (cases "area_size ts \<le> SHARGLEN")
  case True
  then obtain S' where S': "lexan (typed_line ts) S = Some (int (length ts), S')" "holds ts S'"
    using lexan_holds [OF assms] by auto
  have "\<forall>k < length ts. arg_at S' (shtok S' ! k) = snd (ts ! k)"
    using arg_at_holds [OF S'(2)] wf_token_chars assms(1) by (simp add: list_all_iff)
  moreover have "shtktyp S' = map fst ts" "length (shtok S') = length ts" using S'(2) by (simp_all add: holds_def)
  ultimately show ?thesis using True S'(1) by auto
qed (use lexan_holds [OF assms] in simp)

theorem lexan_splits_witness:
  "\<exists>S'. lexan ''ls > \"a b\" &'' \<lparr>shargst = replicate 82 NULLCH, shto = 0, shtok = [], shtktyp = []\<rparr> = Some (4, S') \<and>
     arg_at S' (shtok S' ! 2) = ''a b''"
proof -
  let ?S = "\<lparr>shargst = replicate 82 NULLCH, shto = 0, shtok = [], shtktyp = []\<rparr>"
  let ?ts = "[(CHR ''l'', ''ls''), (CHR ''>'', ''>''), (DQUOTE, ''a b''), (CHR ''&'', ''&'')]"
  have w: "list_all wf_token ?ts"
    by (simp add: wf_token_def is_quote_def is_oper_def ends_word_def eol_def)
  have l: "typed_line ?ts = ''ls > \"a b\" &''" by (simp add: typed_def is_quote_def)
  have "length (shargst ?S) = SHARGLEN" "length ?ts \<le> SHMAXTOK" "area_size ?ts \<le> SHARGLEN"
    by (simp_all add: SHARGLEN_def SHMAXTOK_def)
  then obtain S' where "lexan ''ls > \"a b\" &'' ?S = Some (int (length ?ts), S')"
      "\<forall>k < length ?ts. arg_at S' (shtok S' ! k) = snd (?ts ! k)"
    using lexan_splits [OF w, of ?S] unfolding l by auto
  then show ?thesis by (auto dest: spec [of _ 2])
qed

text \<open>The area is smaller than a line can need: the shell reads lines of up to 79 characters, and tokens need not
  be apart.\<close>

lemma lexan_overflow:
  assumes "length (shargst S) = SHARGLEN"
  shows "lexan (replicate 15 (CHR ''>'') @ replicate 64 (CHR ''a'')) S = None"
proof -
  let ?S = "S\<lparr>shto := 0, shtok := [], shtktyp := []\<rparr>"
  have h: "holds [] ?S" using assms by (simp add: holds_def)
  have "tokens_of SHMAXTOK (replicate 15 (CHR ''>'') @ replicate 64 (CHR ''a'')) =
      Some (replicate 15 (CHR ''>'', ''>'') @ [(CHR ''a'', replicate 64 (CHR ''a''))])"
    by code_simp
  then show ?thesis
    using lexan_loop_holds [OF h, of SHMAXTOK "replicate 15 (CHR ''>'') @ replicate 64 (CHR ''a'')"]
    by (simp add: lexan_def SHARGLEN_def area_size_def sum_list_replicate)
qed

text \<open>Lines of 66 characters and less always have room.\<close>

lemma next_token_size: "next_token p = Some (t, r) \<Longrightarrow> length (snd t) + length r \<le> length p"
proof (cases p)
  case (Cons c cs)
  assume n: "next_token p = Some (t, r)"
  have l: "length (takeWhile P cs) + length (dropWhile P cs) = length cs" for P
    by (metis length_append takeWhile_dropWhile_id)
  show ?thesis using n Cons l [of "\<lambda>d. d \<noteq> c \<and> \<not> eol d"] l [of "\<lambda>d. \<not> ends_word d"]
    by (auto simp: next_token_def Let_def split: if_splits)
qed (simp add: next_token_def)

lemma tokens_of_size: "tokens_of n p = Some ts \<Longrightarrow> area_size ts \<le> length p + n"
proof (induction n p arbitrary: ts rule: tokens_of.induct)
  case (2 n p)
  let ?p = "dropWhile (\<lambda>c. c = CHR '' '') p"
  show ?case
  proof (cases "eol (cur ?p)")
    case False
    then obtain t r us where t: "next_token ?p = Some (t, r)" "tokens_of n r = Some us" "ts = t # us"
      using "2.prems" by (auto simp: Let_def split: option.splits)
    have "area_size us \<le> length r + n" using "2.IH" [OF refl False t(1) refl t(2)] .
    then show ?thesis using next_token_size [OF t(1)] length_dropWhile_le [of "\<lambda>c. c = CHR '' ''" p] t(3) by simp
  qed (use 2 in simp)
qed simp

lemma lexan_short:
  assumes "length (shargst S) = SHARGLEN" "tokens_of SHMAXTOK line = Some ts" "length line \<le> 66"
  shows "\<exists>S'. lexan line S = Some (int (length ts), S') \<and> holds ts S'"
proof -
  have h: "holds [] (S\<lparr>shto := 0, shtok := [], shtktyp := []\<rparr>)" using assms(1) by (simp add: holds_def)
  have "area_size ts \<le> SHARGLEN" using tokens_of_size [OF assms(2)] assms(3) by (simp add: SHARGLEN_def SHMAXTOK_def)
  then show ?thesis using lexan_loop_holds [OF h, of SHMAXTOK line] assms(2) by (auto simp: lexan_def)
qed

end
