(* ===== verification/Shell.thy ===== *)
theory Shell
  imports Lexan Procs
begin

text \<open>
  The shell (\<open>src/sys/shell/shell.c\<close>, \<open>addarg.c\<close>, \<open>x_echo.c\<close>, \<open>x_kill.c\<close>, \<open>src/sys/h/cmd.h\<close>): what it makes of a line,
  from the tokens through the redirections to the command, and the process it creates for a command that is not
  built in. The prompt, the time of the last line, which nothing but \<open>rwhod\<close> reads, and the length of the arguments,
  which nothing reads, are left out. The procedure of a command is its address.
\<close>

section \<open>A line\<close>

record cmdent =
  cmdnam :: string
  cbuiltin :: bool
  cproc :: int

text \<open>The commands that are configured; \<open>proc\<close> gives the procedures.\<close>

definition cmd_table :: "(string \<Rightarrow> int) \<Rightarrow> cmdent list" where
  "cmd_table proc = map (\<lambda>(nam, builtin). \<lparr>cmdnam = nam, cbuiltin = builtin, cproc = proc nam\<rparr>)
     [(''bpool'', False), (''date'', False), (''devs'', False), (''net'', False), (''echo'', False), (''exit'', True),
      (''help'', False), (''kill'', True), (''mem'', False), (''ps'', False), (''time'', False), (''ping'', False),
      (''pingd'', False), (''name'', False), (''set'', False), (''?'', False)]"

text \<open>What happens to a line: nothing, an error message, a call of a builtin command with so many arguments, or a
  process with the files for input and output and a flag for the background. Tokens are given by their pointers.\<close>

datatype shaction =
    Again
  | Syntax_error
  | Not_found string
  | Call_builtin nat int
  | Run nat int "nat option" "nat option" bool

text \<open>A redirection and its file are taken out of the first \<open>n + 2\<close> tokens.\<close>

definition close_gap :: "nat \<Rightarrow> nat \<Rightarrow> 'a list \<Rightarrow> 'a list" where
  "close_gap i n xs = fold (\<lambda>j xs. xs[j := xs ! (j + 2)]) [i..<n] xs"

definition drop_tokens :: "nat \<Rightarrow> nat \<Rightarrow> shvars \<Rightarrow> shvars" where
  "drop_tokens i n S = S\<lparr>shtktyp := close_gap i n (shtktyp S), shtok := close_gap i n (shtok S)\<rparr>"

function scan_redirect ::
  "nat \<Rightarrow> int \<Rightarrow> nat option \<Rightarrow> nat option \<Rightarrow> shvars \<Rightarrow> int \<times> nat option \<times> nat option \<times> shvars" where
  "scan_redirect i ntokens outnam innam S =
     (if \<not> int i < ntokens then (ntokens, outnam, innam, S)
      else
        (let ch = shtktyp S ! i
         in if ch = CHR ''&'' then (- 1, outnam, innam, S)
            else if ch = CHR ''>'' then
              (if outnam \<noteq> None \<or> int i \<ge> ntokens - 1 then (- 1, outnam, innam, S)
               else scan_redirect i (ntokens - 2) (Some (shtok S ! (i + 1))) innam (drop_tokens i (nat (ntokens - 2)) S))
            else if ch = CHR ''<'' then
              (if innam \<noteq> None \<or> int i \<ge> ntokens - 1 then (- 1, outnam, innam, S)
               else scan_redirect i (ntokens - 2) outnam (Some (shtok S ! (i + 1))) (drop_tokens i (nat (ntokens - 2)) S))
            else scan_redirect (i + 1) ntokens outnam innam S))"
  by pat_completeness auto
termination
  by (relation "measure (\<lambda>(i, n, out, inn, S). nat n - i)") auto

declare scan_redirect.simps [simp del]

fun find_command :: "string \<Rightarrow> nat \<Rightarrow> cmdent list \<Rightarrow> nat" where
  "find_command nam com [] = com"
| "find_command nam com (e # es) = (if cmdnam e = nam then com else find_command nam (com + 1) es)"

definition shell_line :: "cmdent list \<Rightarrow> string \<Rightarrow> shvars \<Rightarrow> (shaction \<times> shvars) option" where
  "shell_line cmds line S = do {
     (ntokens, S) \<leftarrow> lexan line S;
     if ntokens = SYSERR then Some (Syntax_error, S)
     else if ntokens = 0 then Some (Again, S)
     else
       (let backgnd = (shtktyp S ! nat (ntokens - 1) = CHR ''&'');
            (n, outnam, innam, S) = scan_redirect 0 (if backgnd then ntokens - 1 else ntokens) None None S
        in if n \<le> 0 then Some (Syntax_error, S)
           else
             (let nam = arg_at S (shtok S ! 0); com = find_command nam 0 cmds
              in if com \<ge> length cmds then Some (Not_found nam, S)
                 else if cbuiltin (cmds ! com)
                 then Some (if innam \<noteq> None \<or> outnam \<noteq> None \<or> backgnd then Syntax_error else Call_builtin com n, S)
                 else Some (Run com n innam outnam backgnd, S)))
   }"

section \<open>The process of a command\<close>

definition SHCMDSTK :: int where "SHCMDSTK = 300"
definition SHCMDPRI :: int where "SHCMDPRI = 20"

text \<open>The arguments go behind those the process has. The array has \<open>MAXARG\<close> elements and the last one is for the
  null that ends it: with more the entry is overwritten, and there is no value.\<close>

definition addarg :: "int \<Rightarrow> nat \<Rightarrow> int list \<Rightarrow> kstate \<Rightarrow> (int \<times> kstate) option" where
  "addarg pid nargs toks s =
     (if isbadpid pid \<or> pst s pid \<noteq> PRSUSP then Some (SYSERR, s)
      else
        (let n = pargs (proctab s pid); n' = n + int nargs
         in if n' \<ge> int MAXARG then None
            else Some (OK, upd_proc pid (\<lambda>e. e\<lparr>
              parg := (\<lambda>i. if n \<le> i \<and> i < n' then toks ! nat (i - n) else if i = n' then 0 else parg e i),
              pargs := n', pregs := (pregs e)(24 := lobyte n', 25 := hibyte n')\<rparr>) s)))"

definition reopen :: "image \<Rightarrow> int \<Rightarrow> int \<Rightarrow> int \<Rightarrow> string \<Rightarrow> kstate \<Rightarrow> kstate option" where
  "reopen img child k fd mode s =
     (if fd = CONSOLE then Some s
      else do {
        (_, s) \<leftarrow> fclose (fildes (proctab s child) k) s;
        (f, s) \<leftarrow> fdopen img fd mode s;
        Some (set_fildes child k f s)
      })"

text \<open>The process, suspended, with its arguments, devices and streams; SYSERR if it cannot be created. The descriptors
  are those of the files that were opened, or that of the stream of the shell.\<close>

definition make_child ::
  "image \<Rightarrow> int \<Rightarrow> string \<Rightarrow> int list \<Rightarrow> int \<Rightarrow> int \<Rightarrow> kstate \<Rightarrow> (int \<times> kstate) option" where
  "make_child img procaddr nam toks stdIN stdOUT s = do {
     (child, s) \<leftarrow> create img procaddr SHCMDSTK SHCMDPRI nam [] s;
     if child = SYSERR then Some (SYSERR, snd (close_dev stdIN (snd (close_dev stdOUT s))))
     else do {
       (_, s) \<leftarrow> addarg child (length toks) toks s;
       let s = snd (setdev child stdIN stdOUT s);
       s \<leftarrow> reopen img child 0 stdIN ''r'' s;
       s \<leftarrow> reopen img child 1 stdOUT ''rw'' s;
       Some (child, s)
     }
   }"

text \<open>Then it is started; the shell waits for its end, or for an interrupt, unless it runs in the background.\<close>

definition start_child :: "int \<Rightarrow> bool \<Rightarrow> kstate \<Rightarrow> kstate option" where
  "start_child child backgnd s =
     (if backgnd then map_option snd (resume child s)
      else map_option snd (resume child (snd (recvclr (snd (setnok (getpid s) child s))))))"

definition child_message :: "int \<Rightarrow> int \<Rightarrow> kstate \<Rightarrow> kstate" where
  "child_message child msg s = (if msg = INTRMSG then snd (setnok BADPID child s) else s)"

section \<open>Commands\<close>

text \<open>\<open>echo\<close>: what it writes on the console; it is put together in 80 characters.\<close>

definition echo_text :: "string list \<Rightarrow> string" where
  "echo_text args = (case tl args of [] \<Rightarrow> [] | a # as \<Rightarrow> a @ concat (map (Cons (CHR '' '')) as)) @ [NL]"

definition x_echo :: "string list \<Rightarrow> string option" where
  "x_echo args = (if length (echo_text args) < 80 then Some (echo_text args) else None)"

definition x_kill :: "string list \<Rightarrow> kstate \<Rightarrow> (kont \<times> kstate) option" where
  "x_kill args s =
     (if length args \<noteq> 2 then Some (KRet SYSERR, s)
      else kill (case scan_d 0 (args ! 1) of None \<Rightarrow> 0 | Some (i, _) \<Rightarrow> s16 i) s)"

section \<open>Redirections\<close>

text \<open>What a line of tokens means: its arguments and the files it names, each at most once and wherever they stand;
  no value for a missing file, for a second one and for an ampersand within the line.\<close>

fun redirect :: "(char \<times> 'a) list \<Rightarrow> ('a list \<times> 'a option \<times> 'a option) option" where
  "redirect [] = Some ([], None, None)"
| "redirect (t # ts) =
     (if fst t = CHR ''&'' then None
      else if fst t = CHR ''>'' then
        (case ts of [] \<Rightarrow> None | f # ts \<Rightarrow> do {
          (args, out, inn) \<leftarrow> redirect ts;
          if out \<noteq> None then None else Some (args, Some (snd f), inn)
        })
      else if fst t = CHR ''<'' then
        (case ts of [] \<Rightarrow> None | f # ts \<Rightarrow> do {
          (args, out, inn) \<leftarrow> redirect ts;
          if inn \<noteq> None then None else Some (args, out, Some (snd f))
        })
      else map_option (\<lambda>(args, out, inn). (snd t # args, out, inn)) (redirect ts))"

lemma redirect_map:
  "redirect (map (\<lambda>(c, x). (c, f x)) ts) =
     map_option (\<lambda>(args, out, inn). (map f args, map_option f out, map_option f inn)) (redirect ts)"
proof (induction ts rule: redirect.induct)
  case (2 t ts)
  obtain c x where t: "t = (c, x)" by (cases t)
  show ?case
  proof (cases "c = CHR ''>'' \<or> c = CHR ''<''")
    case True
    show ?thesis
    proof (cases ts)
      case (Cons u us)
      have "redirect (map (\<lambda>(c, x). (c, f x)) us) = map_option (\<lambda>(args, out, inn). (map f args, map_option f out, map_option f inn)) (redirect us)"
        using "2.IH" True t Cons by (cases u) auto
      then show ?thesis using True t Cons by (cases u; cases "redirect us") (auto split: if_splits)
    qed (use t in auto)
  next
    case False
    then show ?thesis using 2 t by (cases "c = CHR ''&''"; cases "redirect ts") auto
  qed
qed simp

lemma close_gap_eq:
  "i \<le> n \<Longrightarrow> n + 2 \<le> length xs \<Longrightarrow> close_gap i n xs = take i xs @ drop (i + 2) (take (n + 2) xs) @ drop n xs"
proof (induction n rule: dec_induct)
  case base
  then show ?case by (simp add: close_gap_def)
next
  case (step n)
  let ?ys = "take i xs @ drop (i + 2) (take (n + 2) xs)"
  have l: "length ?ys = n" using step by simp
  have c: "close_gap i (Suc n) xs = (?ys @ drop n xs)[n := (?ys @ drop n xs) ! (n + 2)]"
    using step by (simp add: close_gap_def)
  have d: "drop n xs = xs ! n # drop (Suc n) xs" using step by (simp add: Cons_nth_drop_Suc)
  have "take (Suc n + 2) xs = take (n + 2) xs @ [xs ! (n + 2)]"
    using take_Suc_conv_app_nth [of "n + 2" xs] step by simp
  then have t: "drop (i + 2) (take (Suc n + 2) xs) = drop (i + 2) (take (n + 2) xs) @ [xs ! (n + 2)]"
    using step by (simp only: drop_append) simp
  have "(?ys @ drop n xs) ! (n + 2) = drop n xs ! 2" using l by (metis nth_append_length_plus)
  also have "\<dots> = xs ! (n + 2)" using step by simp
  finally have "close_gap i (Suc n) xs = ?ys @ (drop n xs)[0 := xs ! (n + 2)]"
    using c l list_update_append [of ?ys "drop n xs" n "xs ! (n + 2)"] by simp
  then show ?case unfolding t by (simp add: d)
qed

lemma take_close_gap:
  "i \<le> n \<Longrightarrow> n + 2 \<le> length xs \<Longrightarrow> take n (close_gap i n xs) = take i xs @ drop (i + 2) (take (n + 2) xs)"
  "i \<le> n \<Longrightarrow> n + 2 \<le> length xs \<Longrightarrow> n \<le> length (close_gap i n xs)"
  by (simp_all add: close_gap_eq)

definition live :: "nat \<Rightarrow> shvars \<Rightarrow> (char \<times> nat) list" where
  "live n S = zip (take n (shtktyp S)) (take n (shtok S))"

definition has :: "nat \<Rightarrow> shvars \<Rightarrow> bool" where
  "has n S \<longleftrightarrow> n \<le> length (shtktyp S) \<and> n \<le> length (shtok S)"

lemma length_live [simp]: "has n S \<Longrightarrow> length (live n S) = n"
  by (simp add: live_def has_def)

lemma live_nth: "has n S \<Longrightarrow> k < n \<Longrightarrow> live n S ! k = (shtktyp S ! k, shtok S ! k)"
  by (simp add: live_def has_def)

lemma live_drop_tokens:
  assumes "has (n + 2) S" "i \<le> n"
  shows "has n (drop_tokens i n S)" "live n (drop_tokens i n S) = take i (live (n + 2) S) @ drop (i + 2) (live (n + 2) S)"
  using assms take_close_gap [of i n "shtktyp S"] take_close_gap [of i n "shtok S"]
  by (simp_all add: has_def live_def drop_tokens_def take_zip drop_zip zip_append min_absorb1)

lemma shargst_drop_tokens [simp]: "shargst (drop_tokens i n S) = shargst S"
  by (simp add: drop_tokens_def)

text \<open>One file, from what was found before and what is found behind.\<close>

definition clash :: "'a option \<Rightarrow> 'a option \<Rightarrow> bool" where
  "clash x y \<longleftrightarrow> x \<noteq> None \<and> y \<noteq> None"

definition one_of :: "'a option \<Rightarrow> 'a option \<Rightarrow> 'a option" where
  "one_of x y = (case x of None \<Rightarrow> y | Some _ \<Rightarrow> x)"

definition scanned :: "nat \<Rightarrow> nat option \<Rightarrow> nat option \<Rightarrow> (char \<times> nat) list \<Rightarrow> string \<Rightarrow> (nat list \<times> nat option \<times> nat option) option
    \<Rightarrow> int \<times> nat option \<times> nat option \<times> shvars \<Rightarrow> bool" where
  "scanned i out inn seen area r R \<longleftrightarrow>
     (case r of
        None \<Rightarrow> fst R = - 1
      | Some (args, out', inn') \<Rightarrow>
          if clash out out' \<or> clash inn inn' then fst R = - 1
          else fst R = int (i + length args) \<and> fst (snd R) = one_of out out' \<and> fst (snd (snd R)) = one_of inn inn' \<and>
            shargst (snd (snd (snd R))) = area \<and>
            take (i + length args) (shtok (snd (snd (snd R)))) = map snd seen @ args)"


lemma scan_redirect_eq:
  assumes "has n S" "i \<le> n"
  shows "scanned i out inn (take i (live n S)) (shargst S) (redirect (drop i (live n S))) (scan_redirect i (int n) out inn S)"
  using assms
proof (induction "n - i" arbitrary: n i out inn S rule: less_induct)
  case less
  let ?L = "live n S" and ?R = "scan_redirect i (int n) out inn S"
  show ?case
  proof (cases "i = n")
    case True
    have "map snd ?L = take n (shtok S)" using less.prems by (simp add: live_def has_def)
    then show ?thesis using True less.prems
      by (simp add: scanned_def clash_def one_of_def scan_redirect.simps [of n] split: option.splits)
  next
    case False
    then have i: "i < n" using less.prems by simp
    define c x where "c = shtktyp S ! i" and "x = shtok S ! i"
    have d: "drop i ?L = (c, x) # drop (Suc i) ?L"
      using Cons_nth_drop_Suc [of i ?L] live_nth [OF less.prems(1) i] less.prems i by (simp add: c_def x_def)
    consider (amp) "c = CHR ''&''" | (redir) "c = CHR ''>'' \<or> c = CHR ''<''" | (arg) "c \<notin> set ''&<>''" by auto
    then show ?thesis
    proof cases
      case amp
      then show ?thesis using i d by (simp add: scan_redirect.simps [of i] scanned_def c_def)
    next
      case redir
      show ?thesis
      proof (cases "n = Suc i")
        case True
        then have "drop (Suc i) ?L = []" using less.prems by simp
        then show ?thesis using redir i d True by (auto simp: scan_redirect.simps [of i] scanned_def c_def)
      next
        case False
        define k where "k = n - 2"
        have k: "n = k + 2" "i \<le> k" using i False unfolding k_def by linarith+
        define f where "f = shtok S ! (i + 1)"
        define M where "M = drop (i + 2) ?L"
        let ?S = "drop_tokens i k S"
        have d2: "drop (Suc i) ?L = (shtktyp S ! Suc i, f) # M"
          using Cons_nth_drop_Suc [of "Suc i" ?L] live_nth [OF less.prems(1), of "Suc i"] less.prems i False
          by (simp add: f_def M_def)
        have h: "has k ?S" "live k ?S = take i ?L @ M"
          unfolding M_def using live_drop_tokens [of k S i] less.prems k by simp_all
        have t: "take i (live k ?S) = take i ?L" "drop i (live k ?S) = M" using h(2) less.prems by simp_all
        have IH: "scanned i out' inn' (take i ?L) (shargst S) (redirect M) (scan_redirect i (int k) out' inn' ?S)" for out' inn'
          using less.hyps [of k i ?S out' inn'] h(1) k t by simp
        have r: "?R = (if c = CHR ''>'' then (if out \<noteq> None then (- 1, out, inn, S) else scan_redirect i (int k) (Some f) inn ?S)
            else (if inn \<noteq> None then (- 1, out, inn, S) else scan_redirect i (int k) out (Some f) ?S))"
          using redir k i by (subst scan_redirect.simps) (auto simp: c_def f_def)
        show ?thesis
        proof (cases "redirect M")
          case None
          then show ?thesis using IH [of "Some f" inn] IH [of out "Some f"] redir by (auto simp: r d d2 scanned_def)
        next
          case (Some q)
          obtain args o' n' where q: "q = (args, o', n')" by (cases q)
          show ?thesis
          proof (cases "c = CHR ''>''")
            case True
            then show ?thesis using IH [of "Some f" inn] r unfolding d d2
              by (cases out; cases o'; cases "clash inn n'") (simp_all add: Some q scanned_def clash_def one_of_def)
          next
            case False
            then have "c = CHR ''<''" using redir by simp
            then show ?thesis using IH [of out "Some f"] r unfolding d d2
              by (cases inn; cases n'; cases "clash out o'") (simp_all add: Some q scanned_def clash_def one_of_def)
          qed
        qed
      qed
    next
      case arg
      have "?R = scan_redirect (i + 1) (int n) out inn S" using arg i by (simp add: scan_redirect.simps [of i] c_def)
      moreover have "scanned (i + 1) out inn (take (i + 1) ?L) (shargst S) (redirect (drop (i + 1) ?L)) (scan_redirect (i + 1) (int n) out inn S)"
        using less.hyps [of n "i + 1" S out inn] less.prems i by simp
      moreover have "take (i + 1) ?L = take i ?L @ [(c, x)]"
        using take_Suc_conv_app_nth [of i ?L] live_nth [OF less.prems(1) i] less.prems i by (simp add: c_def x_def)
      ultimately show ?thesis using arg
        by (auto simp: d scanned_def split: option.splits)
    qed
  qed
qed


section \<open>Lines\<close>

lemma find_command_eq:
  "find_command nam com cmds \<ge> com + length cmds \<longleftrightarrow> nam \<notin> cmdnam ` set cmds"
proof (induction nam com cmds rule: find_command.induct)
  case (2 nam com e es)
  then show ?case by (auto simp: not_le)
qed simp

lemma live_holds:
  assumes "holds ts S" "n \<le> length ts"
  shows "has n S" "live n S = take n (zip (map fst ts) (shtok S))"
  using assms by (simp_all add: holds_def live_def has_def take_zip)

text \<open>C28: what the shell makes of a line of tokens: its words, without the redirections that may stand anywhere
  behind the first, are the command and its arguments; a second file in the same direction, a redirection without a file, an
  ampersand that is not the last token, and redirection or background for a builtin command are syntax errors.\<close>

theorem shell_divides:
  assumes w: "list_all wf_token ts" "ts \<noteq> []" "length ts \<le> SHMAXTOK" "area_size ts \<le> SHARGLEN"
    and S: "length (shargst S) = SHARGLEN"
    and b: "bg \<longleftrightarrow> fst (last ts) = CHR ''&''"
  shows "\<exists>A S'. shell_line cmds (typed_line ts) S = Some (A, S') \<and>
    (case redirect (if bg then butlast ts else ts) of
       None \<Rightarrow> A = Syntax_error
     | Some (args, out, inn) \<Rightarrow>
         if args = [] then A = Syntax_error
         else let com = find_command (hd args) 0 cmds; n = length args
           in if hd args \<notin> cmdnam ` set cmds then A = Not_found (hd args)
              else if cbuiltin (cmds ! com)
              then A = (if out = None \<and> inn = None \<and> \<not> bg then Call_builtin com (int n) else Syntax_error)
              else \<exists>o' i'. A = Run com (int n) i' o' bg \<and> map_option (arg_at S') o' = out \<and>
                map_option (arg_at S') i' = inn \<and> map (arg_at S') (take n (shtok S')) = args)"
proof -
  let ?L = "if bg then butlast ts else ts" and ?n = "if bg then length ts - 1 else length ts"
  obtain S1 where S1: "lexan (typed_line ts) S = Some (int (length ts), S1)" "holds ts S1"
    using lexan_holds [OF w(1,3) S] w(4) by auto
  have len: "length (shtok S1) = length ts" "shtktyp S1 = map fst ts" using S1(2) by (simp_all add: holds_def)
  have pos: "length ts > 0" using w(2) by simp
  have bg: "shtktyp S1 ! (length ts - 1) = CHR ''&'' \<longleftrightarrow> bg" using pos b by (simp add: len last_conv_nth)
  have hv: "has ?n S1" "live ?n S1 = take ?n (zip (map fst ts) (shtok S1))"
    using live_holds [OF S1(2), of ?n] by simp_all
  have str: "arg_at S1 (shtok S1 ! k) = snd (ts ! k)" if "k < length ts" for k
    using arg_at_holds [OF S1(2) that] wf_token_chars w(1) that by (simp add: list_all_iff)
  have "map (\<lambda>(c, x). (c, arg_at S1 x)) (zip (map fst ts) (shtok S1)) = ts"
    by (rule nth_equalityI) (use len str in \<open>simp_all add: prod_eq_iff\<close>)
  then have "map (\<lambda>(c, x). (c, arg_at S1 x)) (live ?n S1) = take ?n ts"
    unfolding hv(2) by (simp only: take_map [symmetric])
  moreover have "take ?n ts = ?L" by (simp add: butlast_conv_take)
  ultimately have red: "redirect ?L = map_option (\<lambda>(args, out, inn). (map (arg_at S1) args, map_option (arg_at S1) out, map_option (arg_at S1) inn)) (redirect (live ?n S1))"
    using redirect_map [of "arg_at S1" "live ?n S1"] by simp
  obtain n out inn S2 where R: "scan_redirect 0 (int ?n) None None S1 = (n, out, inn, S2)" by (metis prod_cases4)
  have sc: "scanned 0 None None [] (shargst S1) (redirect (live ?n S1)) (n, out, inn, S2)"
    using scan_redirect_eq [OF hv(1), of 0 None None] R by simp
  have line: "shell_line cmds (typed_line ts) S =
      (if n \<le> 0 then Some (Syntax_error, S2)
       else let nam = arg_at S2 (shtok S2 ! 0); com = find_command nam 0 cmds
         in if com \<ge> length cmds then Some (Not_found nam, S2)
            else if cbuiltin (cmds ! com)
            then Some (if inn \<noteq> None \<or> out \<noteq> None \<or> bg then Syntax_error else Call_builtin com n, S2)
            else Some (Run com n inn out bg, S2))"
  proof -
    have "nat (int (length ts) - 1) = length ts - 1" by simp
    moreover have "int ?n = (if bg then int (length ts) - 1 else int (length ts))" using pos by (cases "length ts") simp_all
    ultimately show ?thesis using R pos bg by (simp add: shell_line_def S1(1) SYSERR_def)
  qed
  show ?thesis
  proof (cases "redirect (live ?n S1)")
    case None
    then have "n = - 1" using sc by (simp add: scanned_def)
    then show ?thesis using line red None by simp
  next
    case (Some q)
    obtain args o' i' where q: "q = (args, o', i')" by (cases q)
    have r: "n = int (length args)" "out = o'" "inn = i'" "shargst S2 = shargst S1" "take (length args) (shtok S2) = args"
      using sc by (simp_all add: scanned_def Some q clash_def one_of_def)
    have a: "arg_at S2 = arg_at S1" by (rule ext) (simp add: arg_at_def r(4))
    show ?thesis
    proof (cases "args = []")
      case True
      then show ?thesis using line red Some q r by simp
    next
      case False
      then have "shtok S2 ! 0 = hd args" using r(5) by (metis hd_conv_nth length_greater_0_conv nth_take)
      then have nam: "arg_at S2 (shtok S2 ! 0) = hd (map (arg_at S1) args)" using a False by (simp add: hd_map)
      have f: "find_command nam' 0 cmds \<ge> length cmds \<longleftrightarrow> nam' \<notin> cmdnam ` set cmds" for nam'
        using find_command_eq [of 0 cmds nam'] by simp
      define nm com where "nm = hd (map (arg_at S1) args)" and "com = find_command nm 0 cmds"
      have l: "shell_line cmds (typed_line ts) S =
          (if com \<ge> length cmds then Some (Not_found nm, S2)
           else if cbuiltin (cmds ! com)
           then Some (if i' \<noteq> None \<or> o' \<noteq> None \<or> bg then Syntax_error else Call_builtin com (int (length args)), S2)
           else Some (Run com (int (length args)) i' o' bg, S2))"
        using False unfolding line nam Let_def nm_def com_def r by simp
      have "length cmds \<le> com \<longleftrightarrow> nm \<notin> cmdnam ` set cmds" using f by (simp add: com_def)
      then show ?thesis using False r(5) a unfolding red Some q l
        by (auto simp: nm_def [symmetric] com_def [symmetric] Let_def)
    qed
  qed
qed


theorem shell_divides_witness:
  "\<exists>o' S'. shell_line (cmd_table (\<lambda>_. 0)) ''ps > log \"a b\" &''
       \<lparr>shargst = replicate 82 NULLCH, shto = 0, shtok = [], shtktyp = []\<rparr> = Some (Run 9 2 None (Some o') True, S') \<and>
     arg_at S' o' = ''log'' \<and> map (arg_at S') (take 2 (shtok S')) = [''ps'', ''a b'']"
proof -
  let ?S = "\<lparr>shargst = replicate 82 NULLCH, shto = 0, shtok = [], shtktyp = []\<rparr>"
  let ?ts = "[(CHR ''p'', ''ps''), (CHR ''>'', ''>''), (CHR ''l'', ''log''), (DQUOTE, ''a b''), (CHR ''&'', ''&'')]"
  have w: "list_all wf_token ?ts" by (simp add: wf_token_def is_quote_def is_oper_def ends_word_def eol_def)
  have l: "typed_line ?ts = ''ps > log \"a b\" &''" by (simp add: typed_def is_quote_def)
  have "length (shargst ?S) = SHARGLEN" "length ?ts \<le> SHMAXTOK" "area_size ?ts \<le> SHARGLEN" "?ts \<noteq> []"
      "True \<longleftrightarrow> fst (last ?ts) = CHR ''&''"
    by (simp_all add: SHARGLEN_def SHMAXTOK_def)
  from shell_divides [OF w this(4,2,3,1,5), of "cmd_table (\<lambda>_. 0)"] obtain A S' where
    A: "shell_line (cmd_table (\<lambda>_. 0)) (typed_line ?ts) ?S = Some (A, S')"
    and c: "case redirect (if True then butlast ?ts else ?ts) of
       None \<Rightarrow> A = Syntax_error
     | Some (args, out, inn) \<Rightarrow>
         if args = [] then A = Syntax_error
         else let com = find_command (hd args) 0 (cmd_table (\<lambda>_. 0)); n = length args
           in if hd args \<notin> cmdnam ` set (cmd_table (\<lambda>_. 0)) then A = Not_found (hd args)
              else if cbuiltin (cmd_table (\<lambda>_. 0) ! com)
              then A = (if out = None \<and> inn = None \<and> \<not> True then Call_builtin com (int n) else Syntax_error)
              else \<exists>o' i'. A = Run com (int n) i' o' True \<and> map_option (arg_at S') o' = out \<and>
                map_option (arg_at S') i' = inn \<and> map (arg_at S') (take n (shtok S')) = args" by blast
  have "\<exists>o'. A = Run 9 2 None (Some o') True \<and> arg_at S' o' = ''log'' \<and> map (arg_at S') (take 2 (shtok S')) = [''ps'', ''a b'']"
    using c by (auto simp: cmd_table_def Let_def numeral_2_eq_2)
  then show ?thesis using A unfolding l by auto
qed

text \<open>A process entry has room for five arguments, a line has up to sixteen.\<close>

lemma addarg_too_many:
  assumes "\<not> isbadpid pid" "pst s pid = PRSUSP" "pargs (proctab s pid) = 0"
  shows "addarg pid (length toks) toks s = None \<longleftrightarrow> length toks \<ge> 6"
  using assms by (simp add: addarg_def MAXARG_def Let_def)

end
