(* ===== verification/NetUtil.thy ===== *)
theory NetUtil
  imports Stdio
begin

text \<open>
  Pieces of the network code (\<open>src/sys/net\<close>): checksums (\<open>cksum.c\<close>, \<open>netutil.c\<close>), byte order
  (\<open>netutil.c\<close>), addresses (\<open>netnum.c\<close>, \<open>dot2ip.c\<close>, \<open>dgparse.c\<close>), the table of Ethernet addresses
  (\<open>arpinit.c\<close>, \<open>arpfind.c\<close>) and the queues of the datagram ports (\<open>udpnxtp.c\<close>, \<open>src/sys/sys/nqalloc.c\<close>).
  A block of memory is the list of its octets. On the AVR \<open>net_calc_checksum\<close>, \<open>hton16\<close> and \<open>hton32\<close>
  are assembly; modelled is the C code beside it.
\<close>

section \<open>Checksums\<close>

text \<open>\<open>cksum\<close> on 16 bit words. The sum is an \<open>unsigned long\<close>, and the result a \<open>short\<close>.\<close>

definition cksum :: "int list \<Rightarrow> int" where
  "cksum buf =
     (let sum = fold (\<lambda>w s. u32 (s + w)) buf 0;
          sum = sum div 65536 + sum mod 65536;
          sum = u32 (sum + sum div 65536)
      in s16 (- 1 - sum))"

definition add_carry :: "int \<Rightarrow> int \<Rightarrow> int" where
  "add_carry c w = (let s = u16 (c + w) in if s < w then u16 (s + 1) else s)"

fun sum_octets :: "nat \<Rightarrow> nat \<Rightarrow> int \<Rightarrow> int list \<Rightarrow> int" where
  "sum_octets skip pos c [] = c"
| "sum_octets skip pos c [b] = add_carry c (256 * b)"
| "sum_octets skip pos c (h # l # bs) =
     sum_octets skip (pos + 2) (if pos = skip then c else add_carry c (256 * h + l)) bs"

definition net_calc_checksum :: "int \<Rightarrow> int list \<Rightarrow> nat \<Rightarrow> int" where
  "net_calc_checksum checksum data skip = (if length data < 1 then checksum else sum_octets skip 0 checksum data)"

definition hton16 :: "int \<Rightarrow> int" where
  "hton16 h = h mod 256 * 256 + h div 256"

definition hton32 :: "int \<Rightarrow> int" where
  "hton32 h = h mod 256 * 16777216 + h div 256 mod 256 * 65536 + h div 65536 mod 256 * 256 + h div 16777216"

section \<open>Addresses\<close>

definition IPLEN :: nat where "IPLEN = 4"
definition IPTMASK :: int where "IPTMASK = 192"
definition IPATYP :: int where "IPATYP = 0"
definition IPBTYP :: int where "IPBTYP = 128"
definition IPCTYP :: int where "IPCTYP = 192"

text \<open>The two leading bits select the class; \<open>char\<close> is unsigned on the target.\<close>

definition netnum :: "int list \<Rightarrow> int \<times> int list" where
  "netnum address =
     (let n = take IPLEN address; c = hd n div 64 * 64;
          n = (if c = IPATYP then n[1 := 0] else n);
          n = (if c = IPATYP \<or> c = IPBTYP then n[2 := 0] else n);
          n = (if c = IPATYP \<or> c = IPBTYP \<or> c = IPCTYP then n[3 := 0] else n)
      in (OK, n))"

definition dot2ip :: "int \<Rightarrow> int \<Rightarrow> int \<Rightarrow> int \<Rightarrow> int list" where
  "dot2ip a b c d = [u8 a, u8 b, u8 c, u8 d]"

text \<open>A number in a specification, and the character behind it (null at the end) with what follows.
  The number is an \<open>int\<close>: more than fits has no value.\<close>

fun dg_number :: "int \<Rightarrow> string \<Rightarrow> (int \<times> char \<times> string) option" where
  "dg_number n [] = Some (n, CHR 0x00, [])"
| "dg_number n (c # cs) =
     (if isdigit c then do { n \<leftarrow> add16 (10 * n) (int (digit_val c)); dg_number n cs } else Some (n, c, cs))"

text \<open>The control block of a datagram device.\<close>

datatype dgstate = DG_FREE | DG_USED

record dgblk =
  dg_dnum :: int
  dg_state :: dgstate
  dg_lport :: int
  dg_fport :: int
  dg_faddr :: "int list"
  dg_xport :: int
  dg_netq :: int
  dg_mode :: int

function dg_parse_ip :: "nat \<Rightarrow> string \<Rightarrow> int list \<Rightarrow> (bool \<times> int list \<times> char \<times> string) option" where
  "dg_parse_ip i s addr =
     (if i \<ge> 4 then Some (True, addr, CHR 0x00, s)
      else do {
        (byte, ch, s) \<leftarrow> dg_number 0 s;
        (if byte > 256 \<or> i < 3 \<and> ch \<noteq> CHR ''.'' then Some (False, addr, ch, s)
         else if i = 3 then Some (True, addr[i := u8 byte], ch, s)
         else dg_parse_ip (i + 1) s (addr[i := u8 byte]))
      })"
  by pat_completeness auto
termination
  by (relation "measure (\<lambda>(i, s, addr). 4 - i)") auto

text \<open>\<open>ANYFPORT\<close> is the null pointer.\<close>

definition dgparse :: "string option \<Rightarrow> dgblk \<Rightarrow> (int \<times> dgblk) option" where
  "dgparse fspec d =
     (case fspec of
        None \<Rightarrow> Some (OK, d\<lparr>dg_fport := 0\<rparr>)
      | Some s \<Rightarrow> do {
          (ok, addr, ch, s) \<leftarrow> dg_parse_ip 0 s (dg_faddr d);
          let d = d\<lparr>dg_faddr := addr\<rparr>;
          (if \<not> ok \<or> ch \<noteq> CHR '':'' then Some (SYSERR, d)
           else do {
             (i, ch, s) \<leftarrow> dg_number 0 s;
             Some (if i = 0 \<or> ch \<noteq> CHR 0x00 then (SYSERR, d) else (OK, d\<lparr>dg_fport := i\<rparr>))
           })
        })"

section \<open>Ethernet addresses\<close>

datatype arstate = AR_FREE | AR_ALLOC | AR_RGATE | AR_RSLVD

definition AR_TAB :: int where "AR_TAB = 20"
definition EPADLEN :: nat where "EPADLEN = 6"

record arpent =
  arp_state :: arstate
  arp_Ead :: "int list"
  arp_Iad :: "int list"
  arp_dev :: int

record arpblk =
  arptab :: "int \<Rightarrow> arpent"
  atabsiz :: int
  atabnxt :: int
  arpsem :: int
  rarpsem :: int
  arppid :: int
  rarppid :: int
  arpwant :: "int list"

text \<open>The two semaphores are those that \<open>screate\<close> gave.\<close>

definition arpinit :: "int \<Rightarrow> int \<Rightarrow> arpblk \<Rightarrow> arpblk" where
  "arpinit s1 s2 A = A\<lparr>atabsiz := 0, atabnxt := 0, arpsem := s1, rarpsem := s2, arppid := BADPID, rarppid := BADPID,
     arptab := (\<lambda>i. if 0 \<le> i \<and> i < AR_TAB
                   then (arptab A i)\<lparr>arp_state := AR_FREE, arp_Ead := replicate EPADLEN 0, arp_dev := - 1\<rparr> else arptab A i)\<rparr>"

fun arp_scan :: "nat \<Rightarrow> int \<Rightarrow> int list \<Rightarrow> arpblk \<Rightarrow> int option" where
  "arp_scan 0 i a A = None"
| "arp_scan (Suc n) i a A =
     (if arp_Iad (arptab A i) = a \<and> arp_state (arptab A i) \<noteq> AR_FREE then Some i else arp_scan n (i + 1) a A)"

definition arpfind :: "int list \<Rightarrow> arpblk \<Rightarrow> int \<times> arpblk" where
  "arpfind faddr A =
     (case arp_scan (nat (atabsiz A)) 0 faddr A of
        Some i \<Rightarrow> (i, A)
      | None \<Rightarrow>
          (let A = (if atabsiz A < AR_TAB then A\<lparr>atabsiz := atabsiz A + 1\<rparr> else A);
               i = atabnxt A;
               A = A\<lparr>atabnxt := i + 1\<rparr>;
               A = (if atabnxt A \<ge> AR_TAB then A\<lparr>atabnxt := 0\<rparr> else A)
           in (i, A\<lparr>arptab := (arptab A)(i := (arptab A i)\<lparr>arp_state := AR_ALLOC, arp_Iad := faddr,
                arp_Ead := replicate EPADLEN 0, arp_dev := - 1\<rparr>)\<rparr>)))"

section \<open>Datagram ports\<close>

record netq =
  valid :: bool
  uport :: int
  qpid :: int
  xport :: int

record netinfo =
  netpool :: int
  netqs :: "netq list"
  mnvalid :: bool
  mavalid :: bool
  myname :: string
  myaddr :: "int list"
  mynet :: "int list"
  gateway :: "int list"
  nxtprt :: int
  nmutex :: int
  npacket :: int
  ndrop :: int
  nover :: int

definition port_in_use :: "int \<Rightarrow> netinfo \<Rightarrow> bool" where
  "port_in_use p N \<longleftrightarrow> (\<exists>e \<in> set (netqs N). valid e \<and> uport e = p)"

partial_function (option) udpnxtp :: "netinfo \<Rightarrow> (int \<times> netinfo) option" where
  "udpnxtp N =
     (let p = nxtprt N
      in Option.bind (add16 p 1) (\<lambda>n.
        if port_in_use p N then udpnxtp (N\<lparr>nxtprt := n\<rparr>) else Some (p, N\<lparr>nxtprt := n\<rparr>)))"

fun nqalloc_scan :: "nat \<Rightarrow> netq list \<Rightarrow> netq list option \<times> int" where
  "nqalloc_scan i [] = (None, SYSERR)"
| "nqalloc_scan i (e # es) =
     (if \<not> valid e then (Some (e\<lparr>valid := True, uport := - 1, qpid := BADPID\<rparr> # es), int i)
      else let (r, k) = nqalloc_scan (i + 1) es in (map_option (Cons e) r, k))"

definition nqalloc :: "netinfo \<Rightarrow> int \<times> netinfo" where
  "nqalloc N =
     (case nqalloc_scan 0 (netqs N) of (None, k) \<Rightarrow> (k, N) | (Some qs, k) \<Rightarrow> (k, N\<lparr>netqs := qs\<rparr>))"

section \<open>One's complement sums\<close>

text \<open>The sum with end around carry: zero only for zero, and a residue from 1 to 65535 otherwise.\<close>

definition oc :: "int \<Rightarrow> int" where
  "oc x = (if x = 0 then 0 else (x - 1) mod 65535 + 1)"

lemma oc_range: "0 \<le> oc x" "oc x \<le> 65535"
  using pos_mod_bound [of 65535 "x - 1"] by (auto simp: oc_def)

lemma oc_small: "0 \<le> x \<Longrightarrow> x \<le> 65535 \<Longrightarrow> oc x = x"
  by (simp add: oc_def)

lemma mod_once:
  fixes x n :: int
  assumes "n \<le> x" "x < 2 * n"
  shows "x mod n = x - n"
proof -
  have "x mod n = (x - n) mod n" by simp
  also have "\<dots> = x - n" by (rule mod_pos_pos_trivial) (use assms in simp_all)
  finally show ?thesis .
qed

lemma oc_oc_add:
  assumes "0 \<le> x" "0 \<le> y"
  shows "oc (oc x + y) = oc (x + y)"
proof (cases "x = 0")
  case False
  have e: "oc x = (x - 1) mod 65535 + 1" using False by (simp add: oc_def)
  have p: "0 < oc x" unfolding e by (simp add: add_nonneg_pos)
  have "oc (oc x + y) = ((x - 1) mod 65535 + y) mod 65535 + 1" using p assms by (simp add: oc_def [of "oc x + y"]) (simp add: e)
  also have "((x - 1) mod 65535 + y) mod 65535 = (x - 1 + y) mod 65535" by (rule mod_add_left_eq)
  finally show ?thesis using False assms by (simp add: oc_def [of "x + y"] algebra_simps)
qed (simp add: oc_def)

lemma add_carry_oc:
  assumes "0 \<le> c" "c \<le> 65535" "0 \<le> w" "w \<le> 65535"
  shows "add_carry c w = oc (c + w)"
proof (cases "c + w < 65536")
  case True
  then show ?thesis using assms by (simp add: add_carry_def Let_def oc_small u16_def)
next
  case False
  have m: "(c + w) mod 65536 = c + w - 65536" by (rule mod_once) (use assms False in simp_all)
  have n: "(c + w - 1) mod 65535 = c + w - 1 - 65535" by (rule mod_once) (use assms False in simp_all)
  show ?thesis using assms False by (simp add: add_carry_def Let_def oc_def u16_def m n)
qed

text \<open>The sum of the 16 bit words of a block, most significant octet first, without the word at \<open>skip\<close>.\<close>

fun words_sum :: "nat \<Rightarrow> nat \<Rightarrow> int list \<Rightarrow> int" where
  "words_sum skip pos [] = 0"
| "words_sum skip pos [b] = 256 * b"
| "words_sum skip pos (h # l # bs) = (if pos = skip then 0 else 256 * h + l) + words_sum skip (pos + 2) bs"

definition octet_list :: "int list \<Rightarrow> bool" where
  "octet_list bs \<longleftrightarrow> set bs \<subseteq> {0..<256}"

lemma words_sum_nonneg: "octet_list bs \<Longrightarrow> 0 \<le> words_sum skip pos bs"
  by (induction skip pos bs rule: words_sum.induct) (auto simp: octet_list_def)

lemma sum_octets_oc:
  "octet_list bs \<Longrightarrow> 0 \<le> x \<Longrightarrow> sum_octets skip pos (oc x) bs = oc (x + words_sum skip pos bs)"
proof (induction skip pos "oc x" bs arbitrary: x rule: sum_octets.induct)
  case (2 skip pos b)
  then have "0 \<le> 256 * b" "256 * b \<le> 65535" by (auto simp: octet_list_def)
  then show ?case using 2 oc_range [of x] by (simp add: add_carry_oc oc_oc_add)
next
  case (3 skip pos h l bs)
  have w: "0 \<le> 256 * h + l" "256 * h + l \<le> 65535" "octet_list bs" using "3.prems" by (auto simp: octet_list_def)
  have c: "add_carry (oc x) (256 * h + l) = oc (x + (256 * h + l))" using w oc_range [of x] "3.prems" by (simp add: add_carry_oc oc_oc_add)
  show ?case
  proof (cases "pos = skip")
    case True
    then show ?thesis using "3.hyps" [of x] "3.prems" w(3) by simp
  next
    case False
    then show ?thesis using "3.hyps" [of "x + (256 * h + l)"] "3.prems" w by (simp add: c add.assoc)
  qed
qed simp

lemma net_calc_checksum_oc:
  assumes "octet_list bs" "0 \<le> c" "c \<le> 65535"
  shows "net_calc_checksum c bs skip = oc (c + words_sum skip 0 bs)"
  using sum_octets_oc [OF assms(1,2), of skip 0] assms(2,3) by (cases bs) (simp_all add: net_calc_checksum_def oc_small)

lemma words_sum_outside:
  "skip < pos \<or> pos + length bs \<le> skip \<Longrightarrow> skip' < pos \<or> pos + length bs \<le> skip' \<Longrightarrow>
    words_sum skip pos bs = words_sum skip' pos bs"
  by (induction skip pos bs rule: words_sum.induct) auto

lemma words_sum_insert:
  "even k \<Longrightarrow> k + 1 < length bs \<Longrightarrow> pos + length bs \<le> skip2 \<Longrightarrow>
    words_sum skip2 pos (bs[k := h, k + 1 := l]) = words_sum (pos + k) pos bs + (256 * h + l)"
proof (induction skip2 pos bs arbitrary: k rule: words_sum.induct)
  case (3 skip2 pos h' l' bs)
  show ?case
  proof (cases k)
    case 0
    have "words_sum (pos + k) (pos + 2) bs = words_sum skip2 (pos + 2) bs"
      by (rule words_sum_outside) (use "3.prems" 0 in auto)
    then show ?thesis using 3 0 by simp
  next
    case (Suc k')
    then obtain j where j: "k = Suc (Suc j)" using "3.prems"(1) by (cases k') auto
    then show ?thesis using "3.IH" [of j] "3.prems" by simp
  qed
qed auto

lemma fold_u32: "fold (\<lambda>w s. u32 (s + w)) ws (u32 c) = u32 (c + sum_list ws)"
proof (induction ws arbitrary: c)
  case (Cons w ws)
  have "u32 (u32 c + w) = u32 (c + w)" by (simp add: u32_def mod_add_left_eq)
  then show ?case using Cons.IH [of "c + w"] by (simp add: add.assoc)
qed simp

lemma cksum_oc:
  assumes "set ws \<subseteq> {0..<65536}" "length ws < 65536"
  shows "cksum ws = s16 (- 1 - oc (sum_list ws))"
proof -
  have b: "0 \<le> sum_list ws" "sum_list ws \<le> 65535 * int (length ws)" using assms(1) by (induction ws) auto
  define S where "S = sum_list ws"
  define s1 where "s1 = S div 65536 + S mod 65536"
  have S: "0 \<le> S" "S < 65536 * 65536" using b assms(2) unfolding S_def by linarith+
  have sum: "fold (\<lambda>w s. u32 (s + w)) ws 0 = S"
    using fold_u32 [of ws 0] S by (simp add: S_def [symmetric] u32_def)
  have q: "0 \<le> S div 65536" "S div 65536 < 65536" "0 \<le> S mod 65536" "S mod 65536 < 65536"
  proof -
    show "S div 65536 < 65536" using S(2) by linarith
  qed (use S in simp_all)
  have r: "0 \<le> s1" "s1 \<le> 131070" using q by (simp_all add: s1_def)
  have e: "S = 65535 * (S div 65536) + s1" unfolding s1_def using div_mult_mod_eq [of S 65536] by linarith
  have c: "cksum ws = s16 (- 1 - (s1 + s1 div 65536))"
  proof -
    have "s1 div 65536 \<le> 1" "0 \<le> s1 div 65536" using r by linarith+
    then have "u32 (s1 + s1 div 65536) = s1 + s1 div 65536" using r by (simp add: u32_def)
    then show ?thesis unfolding cksum_def sum Let_def s1_def [symmetric] by simp
  qed
  have m: "(S - 1) mod 65535 = (s1 - 1) mod 65535"
    by (subst e) (metis (no_types) add_diff_eq mod_mult_self4)
  show ?thesis
  proof (cases "s1 < 65536")
    case True
    then have "oc S = s1"
    proof (cases "s1 = 0")
      case True
      then have "S = 0" using e q by (simp add: s1_def)
      then show ?thesis using True by (simp add: oc_def)
    next
      case False
      then have "S \<noteq> 0" using e q r by auto
      then show ?thesis using False r True \<open>s1 < 65536\<close> by (simp add: oc_def m)
    qed
    moreover have "s1 div 65536 = 0" using True r by simp
    ultimately show ?thesis using c by (simp add: S_def)
  next
    case False
    have "s1 div 65536 = 1" using False r by linarith
    moreover have "(s1 - 1) mod 65535 = s1 - 1 - 65535" by (rule mod_once) (use False r in simp_all)
    moreover have "S \<noteq> 0" using False e q by auto
    ultimately have "oc S = s1 - 65535" "cksum ws = s16 (- 1 - (s1 + 1))" using c m by (simp_all add: oc_def)
    moreover have "s16 (- 1 - (s1 + 1)) = s16 (- 1 - (s1 - 65535))"
      using mod_add_self2 [of "- 1 - (s1 + 1) + 32768" 65536] by (simp add: s16_def algebra_simps)
    ultimately show ?thesis by (simp add: S_def)
  qed
qed

lemma octet_list_update: "octet_list bs \<Longrightarrow> 0 \<le> v \<Longrightarrow> v < 256 \<Longrightarrow> octet_list (bs[k := v])"
  by (auto simp: octet_list_def dest!: set_update_subset_insert [THEN subsetD])

lemma oc_complement:
  assumes "0 \<le> x"
  shows "oc (x + (65535 - oc x)) = 65535"
proof (cases "x = 0")
  case False
  have "oc x = (x - 1) mod 65535 + 1" using False by (simp add: oc_def)
  then have "x + (65535 - oc x) - 1 = 65534 + (x - 1) div 65535 * 65535"
    using div_mult_mod_eq [of "x - 1" 65535] by linarith
  then have "(x + (65535 - oc x) - 1) mod 65535 = 65534" by (simp only: mod_mult_self1) simp
  moreover have "x + (65535 - oc x) \<noteq> 0" using oc_range [of x] assms False by simp
  ultimately show ?thesis by (simp add: oc_def [of "x + (65535 - oc x)"])
qed (simp add: oc_def)

lemma hton16_octets:
  assumes "0 \<le> h" "h < 65536"
  shows "hton16 h mod 256 = h div 256" "hton16 h div 256 = h mod 256" "hton16 (hton16 h) = h"
proof -
  have "0 \<le> h div 256" "h div 256 < 256" using assms by simp_all
  then show "hton16 h mod 256 = h div 256" "hton16 h div 256 = h mod 256" by (simp_all add: hton16_def)
  then show "hton16 (hton16 h) = h" by (simp add: hton16_def)
qed

lemma checksum_fills:
  assumes "octet_list bs" "even k" "k + 1 < length bs" "0 \<le> c" "c \<le> 65535" "ck = u16 (- 1 - net_calc_checksum c bs k)"
    "bs' = bs[k := hton16 ck mod 256, k + 1 := hton16 ck div 256]"
  shows "net_calc_checksum c bs' (length bs) = 65535" "0 \<le> ck" "ck < 65536"
proof -
  let ?s = "c + words_sum k 0 bs"
  have n: "net_calc_checksum c bs k = oc ?s" by (rule net_calc_checksum_oc [OF assms(1,4,5)])
  show c: "0 \<le> ck" "ck < 65536" unfolding assms(6) using u16_range by simp_all
  have ck: "ck = 65535 - oc ?s"
    using oc_range [of ?s] mod_add_self2 [of "- 1 - oc ?s" 65536] unfolding assms(6) n u16_def by simp
  have b: "bs' = bs[k := ck div 256, k + 1 := ck mod 256]" using hton16_octets [OF c] assms(7) by simp
  have o: "octet_list bs'" using assms(1) c unfolding b by (intro octet_list_update) simp_all
  have w: "c + words_sum (length bs) 0 bs' = ?s + ck"
    using words_sum_insert [OF assms(2,3), of 0 "length bs" "ck div 256" "ck mod 256"] unfolding b by simp
  have "net_calc_checksum c bs' (length bs) = oc (?s + ck)"
    by (simp only: net_calc_checksum_oc [OF o assms(4,5)] w)
  moreover have "0 \<le> ?s" using words_sum_nonneg [OF assms(1), of k 0] assms(4) by simp
  ultimately show "net_calc_checksum c bs' (length bs) = 65535" unfolding ck using oc_complement by simp
qed

text \<open>The receiver accepts what the sender has summed up: when a block of any length gets the
  complement of its checksum, most significant octet first, in the word that was skipped, then the checksum over
  all of it is 0xFFFF. On the way, \<open>net_calc_checksum\<close> is the one's complement sum of the words.\<close>

theorem checksum_verifies:
  assumes "octet_list bs" "even skip" "skip + 1 < length bs" "ck = u16 (- 1 - net_calc_checksum 0 bs skip)"
    "bs' = bs[skip := hton16 ck mod 256, skip + 1 := hton16 ck div 256]"
  shows "net_calc_checksum 0 bs skip = oc (words_sum skip 0 bs) \<and> net_calc_checksum 0 bs' (length bs) = 65535"
  using net_calc_checksum_oc [OF assms(1), of 0 skip] checksum_fills(1) [OF assms(1-3) _ _ assms(4,5)] by simp

text \<open>The header of a datagram.\<close>

definition ex_header :: "int list" where
  "ex_header = [69, 0, 0, 115, 0, 0, 64, 0, 64, 17, 0, 0, 192, 168, 0, 1, 192, 168, 0, 199]"

theorem checksum_verifies_witness:
  "net_calc_checksum 0 (ex_header[10 := 184, 11 := 97]) 20 = 65535"
proof -
  have s: "net_calc_checksum 0 ex_header 10 = 18334"
    by (simp add: net_calc_checksum_def ex_header_def add_carry_def Let_def u16_def)
  have p: "octet_list ex_header" "even (10 :: nat)" "10 + 1 < length ex_header" "length ex_header = 20"
    by (simp_all add: octet_list_def ex_header_def)
  have ck: "47201 = u16 (- 1 - net_calc_checksum 0 ex_header 10)" by (simp add: s u16_def)
  have b: "ex_header[10 := 184, 11 := 97] = ex_header[10 := hton16 47201 mod 256, 10 + 1 := hton16 47201 div 256]"
    by (simp add: hton16_def ex_header_def)
  show ?thesis using checksum_verifies [OF p(1-3) ck b] p(4) by (simp only:)
qed

text \<open>Class A addresses from 64 on keep their host part; a part of a dotted address may be 256.\<close>

lemma netnum_class_a: "netnum [10, 1, 2, 3] = (OK, [10, 0, 0, 0])" "netnum [100, 1, 2, 3] = (OK, [100, 1, 2, 3])"
  by (simp_all add: netnum_def IPLEN_def IPATYP_def IPBTYP_def IPCTYP_def Let_def)

lemma dgparse_256:
  "dg_faddr d = [9, 9, 9, 9] \<Longrightarrow> dgparse (Some ''256.1.2.3:7'') d = Some (OK, d\<lparr>dg_faddr := [0, 1, 2, 3], dg_fport := 7\<rparr>)"
proof -
  assume a: "dg_faddr d = [9, 9, 9, 9]"
  have n: "dg_number 0 ''7'' = Some (7, CHR 0x00, [])" by code_simp
  have "dg_parse_ip 0 ''256.1.2.3:7'' [9, 9, 9, 9] = Some (True, [0, 1, 2, 3], CHR '':'', ''7'')"
    by code_simp
  then show ?thesis by (simp add: dgparse_def a n Let_def del: dg_parse_ip.simps dg_number.simps)
qed

end
