(* ===== verification/Packet.thy ===== *)
theory Packet
  imports NetUtil Dev
begin

text \<open>
  Packets: the octets of a buffer, and the fields of the headers that are overlaid on it (\<open>src/sys/h/ether.h\<close>,
  \<open>arp.h\<close>, \<open>ip.h\<close>, \<open>udp.h\<close>, \<open>icmp.h\<close>). The structures have no padding on the AVR, and a 16 bit field is stored with
  its low octet first. Reading or writing behind the end of the buffer has no value.

  The state of the network is \<open>Net\<close>, \<open>Arp\<close>, the device number and the address of the Ethernet interface and the identifier of the next
  datagram, and the calls of the kernel that are made: of the routines of buffers, ports, messages and semaphores,
  which theories \<open>Ports\<close>, \<open>Msg\<close> and \<open>Sema\<close> model, and of the Ethernet driver, which is not in the repository.
\<close>

section \<open>Fields\<close>

type_synonym packet = "int list"

definition get_bytes :: "nat \<Rightarrow> nat \<Rightarrow> packet \<Rightarrow> int list option" where
  "get_bytes off n p = (if off + n \<le> length p then Some (take n (drop off p)) else None)"

definition put_bytes :: "nat \<Rightarrow> int list \<Rightarrow> packet \<Rightarrow> packet option" where
  "put_bytes off bs p =
     (if off + length bs \<le> length p then Some (take off p @ bs @ drop (off + length bs) p) else None)"

definition octets16 :: "int \<Rightarrow> int list" where
  "octets16 v = [v mod 256, v div 256 mod 256]"

definition int_of_octets :: "int list \<Rightarrow> int" where
  "int_of_octets bs = bs ! 0 + 256 * bs ! 1"

definition get8 :: "nat \<Rightarrow> packet \<Rightarrow> int option" where
  "get8 off p = map_option hd (get_bytes off 1 p)"

definition put8 :: "nat \<Rightarrow> int \<Rightarrow> packet \<Rightarrow> packet option" where
  "put8 off v p = put_bytes off [u8 v] p"

definition get16 :: "nat \<Rightarrow> packet \<Rightarrow> int option" where
  "get16 off p = map_option int_of_octets (get_bytes off 2 p)"

definition put16 :: "nat \<Rightarrow> int \<Rightarrow> packet \<Rightarrow> packet option" where
  "put16 off v p = put_bytes off (octets16 v) p"

definition copy_bytes :: "nat \<Rightarrow> nat \<Rightarrow> nat \<Rightarrow> packet \<Rightarrow> packet option" where
  "copy_bytes to from n p = do { bs \<leftarrow> get_bytes from n p; put_bytes to bs p }"

text \<open>Offsets in a packet: the Ethernet header, ARP, IP, UDP, ICMP.\<close>

definition E_DEST :: nat where "E_DEST = 0"
definition E_SRC :: nat where "E_SRC = 6"
definition E_PTYPE :: nat where "E_PTYPE = 12"
definition EHLEN :: nat where "EHLEN = 14"

definition AR_HRD_OFF :: nat where "AR_HRD_OFF = 14"
definition AR_PROT_OFF :: nat where "AR_PROT_OFF = 16"
definition AR_HLEN_OFF :: nat where "AR_HLEN_OFF = 18"
definition AR_PLEN_OFF :: nat where "AR_PLEN_OFF = 19"
definition AR_OP :: nat where "AR_OP = 20"
definition AR_SHA :: nat where "AR_SHA = 22"
definition AR_SPA :: nat where "AR_SPA = 28"
definition AR_THA :: nat where "AR_THA = 32"
definition AR_TPA :: nat where "AR_TPA = 38"

definition I_VERLEN :: nat where "I_VERLEN = 14"
definition I_SVCTYP :: nat where "I_SVCTYP = 15"
definition I_PACLEN :: nat where "I_PACLEN = 16"
definition I_ID :: nat where "I_ID = 18"
definition I_FRAGOFF :: nat where "I_FRAGOFF = 20"
definition I_TIM2LIV :: nat where "I_TIM2LIV = 22"
definition I_PROTO :: nat where "I_PROTO = 23"
definition I_CKSUM :: nat where "I_CKSUM = 24"
definition I_SRC :: nat where "I_SRC = 26"
definition I_DEST :: nat where "I_DEST = 30"
definition I_DATA :: nat where "I_DATA = 34"
definition IPHLEN :: nat where "IPHLEN = 20"
definition IPCKOFF :: nat where "IPCKOFF = 10"

definition U_SPORT :: nat where "U_SPORT = 34"
definition U_DPORT :: nat where "U_DPORT = 36"
definition U_UDPLEN :: nat where "U_UDPLEN = 38"
definition U_UCKSUM :: nat where "U_UCKSUM = 40"
definition U_DATA :: nat where "U_DATA = 42"
definition UHLEN :: nat where "UHLEN = 8"
definition UCKOFF :: nat where "UCKOFF = 6"

definition IC_TYP :: nat where "IC_TYP = 34"
definition IC_CKSUM :: nat where "IC_CKSUM = 36"
definition ICCKOFF :: nat where "ICCKOFF = 2"

lemmas field_offsets =
  E_DEST_def E_SRC_def E_PTYPE_def EHLEN_def AR_HRD_OFF_def AR_PROT_OFF_def AR_HLEN_OFF_def AR_PLEN_OFF_def AR_OP_def
  AR_SHA_def AR_SPA_def AR_THA_def AR_TPA_def I_VERLEN_def I_SVCTYP_def I_PACLEN_def I_ID_def I_FRAGOFF_def
  I_TIM2LIV_def I_PROTO_def I_CKSUM_def I_SRC_def I_DEST_def I_DATA_def IPHLEN_def IPCKOFF_def U_SPORT_def U_DPORT_def
  U_UDPLEN_def U_UCKSUM_def U_DATA_def UHLEN_def UCKOFF_def IC_TYP_def IC_CKSUM_def ICCKOFF_def

section \<open>The state of the network\<close>

datatype netcall =
    Freebuf packet
  | Psend int packet
  | Send int int
  | Write int packet nat
  | Wait int
  | Signal int
  | Recvclr

record netst =
  net :: netinfo
  arp :: arpblk
  ether :: int
  etpaddr :: "int list"
  ipackid :: int
  calls :: "netcall list"

definition do_call :: "netcall \<Rightarrow> netst \<Rightarrow> netst" where
  "do_call c s = s\<lparr>calls := calls s @ [c]\<rparr>"

definition set_arpent :: "int \<Rightarrow> (arpent \<Rightarrow> arpent) \<Rightarrow> netst \<Rightarrow> netst" where
  "set_arpent i f s = s\<lparr>arp := (arp s)\<lparr>arptab := (arptab (arp s))(i := f (arptab (arp s) i))\<rparr>\<rparr>"

text \<open>The counters of packets wrap.\<close>

definition count_drop :: "netst \<Rightarrow> netst" where
  "count_drop s = s\<lparr>net := (net s)\<lparr>ndrop := s16 (ndrop (net s) + 1)\<rparr>\<rparr>"

definition count_over :: "netst \<Rightarrow> netst" where
  "count_over s = s\<lparr>net := (net s)\<lparr>nover := s16 (nover (net s) + 1)\<rparr>\<rparr>"

definition count_packet :: "netst \<Rightarrow> netst" where
  "count_packet s = s\<lparr>net := (net s)\<lparr>npacket := s16 (npacket (net s) + 1)\<rparr>\<rparr>"

section \<open>Reading what was written\<close>

lemma get_put_same: "put_bytes off bs p = Some q \<Longrightarrow> n = length bs \<Longrightarrow> get_bytes off n q = Some bs"
  by (auto simp: put_bytes_def get_bytes_def split: if_splits)

lemma put_bytes_length: "put_bytes off bs p = Some q \<Longrightarrow> length q = length p"
  by (auto simp: put_bytes_def split: if_splits)

lemma put_bytes_nth:
  "put_bytes off bs p = Some q \<Longrightarrow> k < length p \<Longrightarrow>
    q ! k = (if off \<le> k \<and> k < off + length bs then bs ! (k - off) else p ! k)"
  by (auto simp: put_bytes_def nth_append split: if_splits)

lemma get_put_other:
  assumes "put_bytes off bs p = Some q" "off + length bs \<le> o' \<or> o' + n \<le> off"
  shows "get_bytes o' n q = get_bytes o' n p"
proof (cases "o' + n \<le> length p")
  case True
  have l: "length q = length p" by (rule put_bytes_length [OF assms(1)])
  have "take n (drop o' q) = take n (drop o' p)"
  proof (rule nth_equalityI)
    fix i assume "i < length (take n (drop o' q))"
    then have i: "i < n" "o' + i < length p" using l by auto
    have "q ! (o' + i) = p ! (o' + i)"
      using put_bytes_nth [OF assms(1) i(2)] assms(2) i(1) by auto
    then show "take n (drop o' q) ! i = take n (drop o' p) ! i"
      using i l by simp
  qed (simp add: l)
  then show ?thesis by (simp add: get_bytes_def l)
qed (simp add: get_bytes_def put_bytes_length [OF assms(1)])

text \<open>The same for writes that are known to fit, and the octets of a field.\<close>

definition over :: "nat \<Rightarrow> int list \<Rightarrow> packet \<Rightarrow> packet" where
  "over off bs p = map (\<lambda>k. if off \<le> k \<and> k < off + length bs then bs ! (k - off) else p ! k) [0..<length p]"

definition fld :: "nat \<Rightarrow> nat \<Rightarrow> packet \<Rightarrow> int list" where
  "fld off n p = take n (drop off p)"

lemma length_over [simp]: "length (over off bs p) = length p"
  by (simp add: over_def)

lemma put_bytes_over: "off + length bs \<le> length p \<Longrightarrow> put_bytes off bs p = Some (over off bs p)"
  by (simp add: put_bytes_def) (rule nth_equalityI, auto simp: over_def nth_append)

lemma get_fld: "off + n \<le> length p \<Longrightarrow> get_bytes off n p = Some (fld off n p)"
  by (simp add: get_bytes_def fld_def)

lemma length_fld [simp]: "off + n \<le> length p \<Longrightarrow> length (fld off n p) = n"
  by (simp add: fld_def)

lemma fld_over_same: "off + n \<le> length p \<Longrightarrow> length bs = n \<Longrightarrow> fld off n (over off bs p) = bs"
  by (rule nth_equalityI) (auto simp: fld_def over_def)

lemma fld_over_other:
  assumes "off + length bs \<le> o' \<or> o' + n \<le> off"
  shows "fld o' n (over off bs p) = fld o' n p"
proof (rule nth_equalityI)
  fix i assume "i < length (fld o' n (over off bs p))"
  then show "fld o' n (over off bs p) ! i = fld o' n p ! i"
    using assms by (auto simp: fld_def over_def)
qed (simp add: fld_def)

lemma over_octets: "octet_list p \<Longrightarrow> octet_list bs \<Longrightarrow> octet_list (over off bs p)"
  by (auto simp: octet_list_def over_def subset_iff dest: nth_mem)

lemmas flds = put_bytes_over get_fld fld_over_same fld_over_other

lemma octets16_of: "0 \<le> v \<Longrightarrow> v < 65536 \<Longrightarrow> int_of_octets (octets16 v) = v"
proof -
  assume "0 \<le> v" "v < 65536"
  then have "v div 256 mod 256 = v div 256" by (intro mod_pos_pos_trivial) auto
  then show ?thesis by (simp add: int_of_octets_def octets16_def)
qed

lemma length_octets16 [simp]: "length (octets16 v) = 2"
  by (simp add: octets16_def)

end
