(* ===== verification/Arp.thy ===== *)
theory Arp
  imports Packet
begin

text \<open>
  Address resolution and routing (\<open>mkarp.c\<close>, \<open>arp_in.c\<close>, \<open>rarp_in.c\<close>, \<open>sndrarp.c\<close>, \<open>getaddr.c\<close>, \<open>getnet.c\<close>,
  \<open>getpath.c\<close>, \<open>route.c\<close>). Where a process waits for an answer, the argument \<open>env\<close> gives what the other
  processes do meanwhile: the state it finds, and the result of \<open>recvtim\<close>, for every time it waits. A wait for a
  semaphore is a call: the state is the one in which it returns. The argument \<open>bufs\<close> gives the buffers that
  \<open>getbuf\<close> hands out, \<open>None\<close> when it returns SYSERR.
\<close>

section \<open>Definitions\<close>

definition EBCAST :: "int list" where "EBCAST = replicate 6 255"
definition EMINPAK :: nat where "EMINPAK = 64"
definition EP_IP :: int where "EP_IP = 2048"
definition EP_ARP :: int where "EP_ARP = 2054"
definition EP_RARP :: int where "EP_RARP = 32821"
definition AR_HRD :: int where "AR_HRD = 1"
definition AR_PROT :: int where "AR_PROT = 2048"
definition AR_HLEN :: nat where "AR_HLEN = 6"
definition AR_PLEN :: nat where "AR_PLEN = 4"
definition AR_RTRY :: nat where "AR_RTRY = 2"
definition AR_REQ :: int where "AR_REQ = 1"
definition AR_RPLY :: int where "AR_RPLY = 2"
definition AR_RREQ :: int where "AR_RREQ = 3"
definition AR_RRLY :: int where "AR_RRLY = 4"

type_synonym env = "nat \<Rightarrow> netst \<Rightarrow> int \<times> netst"
type_synonym bufs = "nat \<Rightarrow> packet option"

definition fill_arp :: "int \<Rightarrow> int \<Rightarrow> int list \<Rightarrow> int list \<Rightarrow> netst \<Rightarrow> packet \<Rightarrow> packet option" where
  "fill_arp typ op spaddr tpaddr s p = do {
     p \<leftarrow> put_bytes E_DEST EBCAST p;
     p \<leftarrow> put16 E_PTYPE (hton16 typ) p;
     p \<leftarrow> put16 AR_HRD_OFF (hton16 AR_HRD) p;
     p \<leftarrow> put16 AR_PROT_OFF (hton16 AR_PROT) p;
     p \<leftarrow> put8 AR_HLEN_OFF (int AR_HLEN) p;
     p \<leftarrow> put8 AR_PLEN_OFF (int AR_PLEN) p;
     p \<leftarrow> put16 AR_OP (hton16 op) p;
     p \<leftarrow> put_bytes AR_SHA (etpaddr s) p;
     p \<leftarrow> put_bytes AR_SPA spaddr p;
     p \<leftarrow> put_bytes AR_THA (etpaddr s) p;
     put_bytes AR_TPA tpaddr p
   }"

text \<open>No packet if there is no buffer.\<close>

definition mkarp :: "int \<Rightarrow> int \<Rightarrow> int list \<Rightarrow> int list \<Rightarrow> packet option \<Rightarrow> netst \<Rightarrow> packet option option" where
  "mkarp typ op spaddr tpaddr buf s =
     (case buf of None \<Rightarrow> Some None | Some p \<Rightarrow> map_option Some (fill_arp typ op spaddr tpaddr s p))"

definition getaddr :: "netst \<Rightarrow> int \<times> int list" where
  "getaddr s = (if \<not> mavalid (net s) then (SYSERR, replicate IPLEN 0) else (OK, myaddr (net s)))"

definition getnet :: "netst \<Rightarrow> int \<times> int list" where
  "getnet s = (if \<not> mavalid (net s) \<and> fst (getaddr s) = SYSERR then (SYSERR, snd (getaddr s)) else (OK, mynet (net s)))"

text \<open>The entry of the sender is made or completed, whatever the packet is.\<close>

definition learn :: "int \<Rightarrow> int list \<Rightarrow> int list \<Rightarrow> netst \<Rightarrow> netst" where
  "learn device spa sha s =
     (let (i, A) = arpfind spa (arp s); s = s\<lparr>arp := A\<rparr>
      in if arp_state (arptab A i) \<noteq> AR_RSLVD
         then set_arpent i (\<lambda>e. e\<lparr>arp_Ead := sha, arp_dev := device, arp_state := AR_RSLVD\<rparr>) s else s)"

definition arp_answer :: "netst \<Rightarrow> packet \<Rightarrow> packet option" where
  "arp_answer s p = do {
     p \<leftarrow> put16 AR_OP (hton16 AR_RPLY) p;
     p \<leftarrow> copy_bytes AR_TPA AR_SPA IPLEN p;
     p \<leftarrow> copy_bytes AR_THA E_SRC EPADLEN p;
     p \<leftarrow> copy_bytes E_DEST AR_THA EPADLEN p;
     p \<leftarrow> put_bytes AR_SHA (etpaddr s) p;
     put_bytes AR_SPA (myaddr (net s)) p
   }"

definition arp_in :: "packet \<Rightarrow> int \<Rightarrow> netst \<Rightarrow> (int \<times> netst) option" where
  "arp_in p device s = do {
     spa \<leftarrow> get_bytes AR_SPA IPLEN p;
     sha \<leftarrow> get_bytes AR_SHA EPADLEN p;
     op \<leftarrow> get16 AR_OP p;
     let s = learn device spa sha s;
     let arop = hton16 op;
     if arop = AR_REQ then do {
       tpa \<leftarrow> get_bytes AR_TPA IPLEN p;
       if tpa \<noteq> myaddr (net s) then Some (OK, do_call (Freebuf p) s)
       else do { q \<leftarrow> arp_answer s p; Some (OK, do_call (Write device q EMINPAK) s) }
     }
     else if arop = AR_RPLY then
       (let pid = arppid (arp s)
        in Some (OK, do_call (Freebuf p)
             (if \<not> isbadpid pid \<and> arpwant (arp s) = spa
              then do_call (Send pid OK) (s\<lparr>arp := (arp s)\<lparr>arppid := BADPID\<rparr>\<rparr>) else s)))
     else Some (SYSERR, do_call (Freebuf p) (count_drop s))
   }"

definition rarp_in :: "packet \<Rightarrow> int \<Rightarrow> netst \<Rightarrow> (int \<times> netst) option" where
  "rarp_in p device s = do {
     op \<leftarrow> get16 AR_OP p;
     if hton16 op = AR_RRLY then do {
       tha \<leftarrow> get_bytes AR_THA EPADLEN p;
       tpa \<leftarrow> get_bytes AR_TPA IPLEN p;
       let s = (if tha = etpaddr s then
                  (let s = s\<lparr>net := (net s)\<lparr>myaddr := tpa, mynet := snd (netnum tpa), mavalid := True\<rparr>\<rparr>; pid = rarppid (arp s)
                   in if \<not> isbadpid pid then do_call (Send pid OK) (s\<lparr>arp := (arp s)\<lparr>rarppid := BADPID\<rparr>\<rparr>) else s)
                else s);
       Some (OK, do_call (Freebuf p) s)
     }
     else Some (SYSERR, do_call (Freebuf p) s)
   }"

text \<open>The last tries \<open>n\<close> of a reverse request, from the time \<open>k\<close>; without an answer the kernel panics. \<open>junk\<close> is what
  the protocol addresses hold.\<close>

fun sndrarp_loop :: "nat \<Rightarrow> nat \<Rightarrow> env \<Rightarrow> bufs \<Rightarrow> int \<Rightarrow> int list \<Rightarrow> netst \<Rightarrow> (int \<times> netst) option" where
  "sndrarp_loop 0 k env bufs mypid junk s = None"
| "sndrarp_loop (Suc n) k env bufs mypid junk s = do {
     mp \<leftarrow> mkarp EP_RARP AR_RREQ junk junk (bufs k) s;
     case mp of
       None \<Rightarrow> None
     | Some p \<Rightarrow>
         (let s = do_call Recvclr (s\<lparr>arp := (arp s)\<lparr>rarppid := mypid\<rparr>\<rparr>);
              (resp, s) = env k (do_call (Write (ether s) p EMINPAK) s)
          in if resp \<noteq> TIMEOUT then Some (OK, s) else sndrarp_loop n (k + 1) env bufs mypid junk s)
   }"

definition sndrarp :: "env \<Rightarrow> bufs \<Rightarrow> int \<Rightarrow> int list \<Rightarrow> netst \<Rightarrow> (int \<times> netst) option" where
  "sndrarp env bufs mypid junk s = sndrarp_loop AR_RTRY 0 env bufs mypid junk s"

fun arp_tries ::
  "nat \<Rightarrow> nat \<Rightarrow> env \<Rightarrow> bufs \<Rightarrow> int \<Rightarrow> int list \<Rightarrow> int list \<Rightarrow> netst \<Rightarrow> netst option" where
  "arp_tries 0 k env bufs mypid self faddr s = Some s"
| "arp_tries (Suc n) k env bufs mypid self faddr s = do {
     mp \<leftarrow> mkarp EP_ARP AR_REQ self faddr (bufs k) s;
     case mp of
       None \<Rightarrow> None
     | Some p \<Rightarrow>
         (let s = do_call Recvclr (s\<lparr>arp := (arp s)\<lparr>arpwant := faddr, arppid := mypid\<rparr>\<rparr>);
              (r, s) = env k (do_call (Write (ether s) p EMINPAK) s)
          in if r = OK then Some s else arp_tries n (k + 1) env bufs mypid self faddr s)
   }"

definition getpath :: "nat \<Rightarrow> env \<Rightarrow> bufs \<Rightarrow> int \<Rightarrow> int list \<Rightarrow> netst \<Rightarrow> (int \<times> netst) option" where
  "getpath k env bufs mypid faddr s =
     (let s = do_call (Wait (arpsem (arp s))) s; (i, A) = arpfind faddr (arp s); s = s\<lparr>arp := A\<rparr>
      in if arp_state (arptab A i) \<noteq> AR_ALLOC then Some (i, do_call (Signal (arpsem (arp s))) s)
         else do {
           s \<leftarrow> arp_tries AR_RTRY k env bufs mypid (snd (getaddr s)) faddr s;
           Some (i, do_call (Signal (arpsem (arp s))) (s\<lparr>arp := (arp s)\<lparr>arppid := BADPID\<rparr>\<rparr>))
         })"

definition isLocalMulticast :: "int list \<Rightarrow> bool" where
  "isLocalMulticast destnet \<longleftrightarrow> destnet = [224, 0, 0, 0]"

text \<open>The result of the driver is the argument \<open>wres\<close>. Without a path even to the gateway the kernel panics.\<close>

definition route ::
  "env \<Rightarrow> bufs \<Rightarrow> int \<Rightarrow> int \<Rightarrow> int list \<Rightarrow> packet \<Rightarrow> nat \<Rightarrow> netst \<Rightarrow> (int \<times> netst) option" where
  "route env bufs mypid wres faddr p totlen s =
     (let mynet = snd (getnet s); destnet = snd (netnum faddr); s = do_call (Wait (nmutex (net s))) s
      in do {
        (dev, ead, s) \<leftarrow>
          (if mynet = faddr \<or> isLocalMulticast destnet then Some (ether s, EBCAST, s)
           else do {
             (i, s) \<leftarrow> getpath 0 env bufs mypid (if destnet \<noteq> mynet then gateway (net s) else faddr) s;
             (i, s) \<leftarrow>
               (if arp_state (arptab (arp s) i) \<noteq> AR_RSLVD
                then do {
                  (i, s) \<leftarrow> getpath AR_RTRY env bufs mypid (gateway (net s)) (set_arpent i (\<lambda>e. e\<lparr>arp_state := AR_RGATE\<rparr>) s);
                  if arp_state (arptab (arp s) i) \<noteq> AR_RSLVD then None else Some (i, s)
                }
                else Some (i, s));
             Some (arp_dev (arptab (arp s) i), arp_Ead (arptab (arp s) i), s)
           });
        p \<leftarrow> put_bytes E_DEST ead p;
        Some (wres, do_call (Signal (nmutex (net s))) (do_call (Write dev p totlen) s))
      })"

section \<open>The cache\<close>

abbreviation found :: "int list \<Rightarrow> arpblk \<Rightarrow> int option" where
  "found a A \<equiv> arp_scan (nat (atabsiz A)) 0 a A"

text \<open>The entries in use, the oldest first.\<close>

definition arp_order :: "arpblk \<Rightarrow> int list" where
  "arp_order A = (if atabsiz A < AR_TAB then map int [0..<nat (atabsiz A)]
     else map int ([nat (atabnxt A)..<nat AR_TAB] @ [0..<nat (atabnxt A)]))"

definition arp_list :: "arpblk \<Rightarrow> arpent list" where
  "arp_list A = map (arptab A) (arp_order A)"

definition arp_ok :: "arpblk \<Rightarrow> bool" where
  "arp_ok A \<longleftrightarrow> 0 \<le> atabsiz A \<and> atabsiz A \<le> AR_TAB \<and> 0 \<le> atabnxt A \<and> atabnxt A < AR_TAB \<and>
     (atabsiz A < AR_TAB \<longrightarrow> atabnxt A = atabsiz A) \<and>
     (\<forall>i. 0 \<le> i \<and> i < atabsiz A \<longrightarrow> arp_state (arptab A i) \<noteq> AR_FREE) \<and> distinct (map arp_Iad (arp_list A))"

lemma arp_scan_Some:
  "arp_scan n i a A = Some k \<Longrightarrow> i \<le> k \<and> k < i + int n \<and> arp_Iad (arptab A k) = a \<and> arp_state (arptab A k) \<noteq> AR_FREE"
  by (induction n i a A rule: arp_scan.induct) (auto split: if_splits)

lemma arp_scan_None:
  "arp_scan n i a A = None \<Longrightarrow> i \<le> k \<Longrightarrow> k < i + int n \<Longrightarrow> arp_state (arptab A k) \<noteq> AR_FREE \<Longrightarrow> arp_Iad (arptab A k) \<noteq> a"
proof (induction n i a A rule: arp_scan.induct)
  case (2 n i a A)
  then show ?case by (cases "i = k") (auto split: if_splits)
qed simp

lemma set_arp_order: "arp_ok A \<Longrightarrow> set (arp_order A) = {0..<atabsiz A}"
proof -
  assume ok: "arp_ok A"
  have im: "int ` {a..<b} = {int a..<int b}" for a b by (simp add: image_int_atLeastLessThan)
  show ?thesis using ok by (auto simp: arp_order_def arp_ok_def im image_Un)
qed

lemma distinct_arp_order: "arp_ok A \<Longrightarrow> distinct (arp_order A)"
  by (auto simp: arp_order_def distinct_map inj_on_def)

definition new_arpent :: "int list \<Rightarrow> arpent \<Rightarrow> arpent" where
  "new_arpent a e = e\<lparr>arp_state := AR_ALLOC, arp_Iad := a, arp_Ead := replicate EPADLEN 0, arp_dev := - 1\<rparr>"

lemma arpfind_new:
  assumes "found a A = None" "arp_ok A"
  shows "arpfind a A = (atabnxt A, A\<lparr>atabsiz := min AR_TAB (atabsiz A + 1), atabnxt := (atabnxt A + 1) mod AR_TAB,
    arptab := (arptab A)(atabnxt A := new_arpent a (arptab A (atabnxt A)))\<rparr>)"
proof -
  have m: "(atabnxt A + 1) mod AR_TAB = (if atabnxt A + 1 \<ge> AR_TAB then 0 else atabnxt A + 1)"
  proof (cases "atabnxt A + 1 \<ge> AR_TAB")
    case True
    then have "atabnxt A + 1 = AR_TAB" using assms(2) by (simp add: arp_ok_def)
    then show ?thesis by simp
  qed (use assms(2) in \<open>simp add: arp_ok_def\<close>)
  show ?thesis using assms unfolding m by (auto simp: arpfind_def Let_def new_arpent_def arp_ok_def)
qed

lemma arpfind_newD:
  assumes "found a A = None" "arp_ok A" "arpfind a A = (i, A')"
  shows "i = atabnxt A \<and> A' = A\<lparr>atabsiz := min AR_TAB (atabsiz A + 1), atabnxt := (atabnxt A + 1) mod AR_TAB,
    arptab := (arptab A)(atabnxt A := new_arpent a (arptab A (atabnxt A)))\<rparr>"
  using arpfind_new [OF assms(1,2)] assms(3) by (metis prod.inject)

lemma arp_order_new:
  assumes "arp_ok A"
  shows "arp_order (A\<lparr>atabsiz := min AR_TAB (atabsiz A + 1), atabnxt := (atabnxt A + 1) mod AR_TAB, arptab := T\<rparr>) =
    (if atabsiz A < AR_TAB then arp_order A else tl (arp_order A)) @ [atabnxt A]"
proof -
  note ok = assms [unfolded arp_ok_def]
  define n x where "n = nat (atabsiz A)" and "x = nat (atabnxt A)"
  have nx: "atabsiz A = int n" "atabnxt A = int x" "n \<le> 20" "x < 20" "n < 20 \<Longrightarrow> x = n"
    using ok by (auto simp: n_def x_def AR_TAB_def)
  consider (room) "n < 19" | (last) "n = 19" | (full) "n = 20" "x < 19" | (turn) "n = 20" "x = 19" using nx by linarith
  then show ?thesis
  proof cases
    case room
    then have "(int x + 1) mod AR_TAB = int x + 1" "nat (int n + 1) = Suc n" using nx by (simp_all add: AR_TAB_def)
    then show ?thesis using room nx by (simp add: arp_order_def AR_TAB_def)
  next
    case last
    then have "(int x + 1) mod AR_TAB = 0" "nat 20 = Suc 19" using nx by (simp_all add: AR_TAB_def)
    moreover have "[0..<Suc 19] = [0..<19] @ [19 :: nat]" by code_simp
    ultimately show ?thesis using last nx by (simp add: arp_order_def AR_TAB_def del: upt_Suc)
  next
    case full
    then have "(int x + 1) mod AR_TAB = int x + 1" "nat (int x + 1) = Suc x" "nat 20 = 20" by (simp_all add: AR_TAB_def)
    moreover have "[x..<20] = x # [Suc x..<20]" using full by (simp add: upt_conv_Cons)
    ultimately show ?thesis using full nx by (simp add: arp_order_def AR_TAB_def)
  next
    case turn
    then have "(int x + 1) mod AR_TAB = 0" "nat 20 = Suc 19" by (simp_all add: AR_TAB_def)
    moreover have "[0..<Suc 19] = [0..<19] @ [19 :: nat]" "[19..<Suc 19] = [19 :: nat]" by code_simp+
    ultimately show ?thesis using turn nx by (simp add: arp_order_def AR_TAB_def del: upt_Suc)
  qed
qed

lemma arp_list_new:
  assumes ok: "arp_ok A" and new: "found a A = None" and f: "arpfind a A = (i, A')"
  shows "arp_list A' = (if atabsiz A < AR_TAB then arp_list A else tl (arp_list A)) @ [new_arpent a (arptab A i)]"
    "i = atabnxt A" "0 \<le> i" "i < atabsiz A'"
proof -
  have A': "i = atabnxt A" "A' = A\<lparr>atabsiz := min AR_TAB (atabsiz A + 1), atabnxt := (atabnxt A + 1) mod AR_TAB,
      arptab := (arptab A)(atabnxt A := new_arpent a (arptab A (atabnxt A)))\<rparr>"
    using arpfind_newD [OF new ok f] by blast+
  then show "i = atabnxt A" "0 \<le> i" "i < atabsiz A'" using ok by (auto simp: arp_ok_def)
  have o: "arp_order A' = (if atabsiz A < AR_TAB then arp_order A else tl (arp_order A)) @ [atabnxt A]"
    unfolding A' by (rule arp_order_new [OF ok])
  have fresh: "atabnxt A \<notin> set (if atabsiz A < AR_TAB then arp_order A else tl (arp_order A))"
  proof (cases "atabsiz A < AR_TAB")
    case True
    then show ?thesis using set_arp_order [OF ok] ok by (simp add: arp_ok_def)
  next
    case False
    then have "hd (arp_order A) = atabnxt A" "arp_order A \<noteq> []"
      using False ok upt_conv_Cons [of "nat (atabnxt A)" 20] by (auto simp: arp_order_def arp_ok_def AR_TAB_def)
    then show ?thesis using distinct_arp_order [OF ok] False by (cases "arp_order A") auto
  qed
  define xs where "xs = (if atabsiz A < AR_TAB then arp_order A else tl (arp_order A))"
  have "map (arptab A') xs = map (arptab A) xs"
    using fresh unfolding A' xs_def [symmetric] by (intro map_cong refl) auto
  moreover have "map (arptab A) xs = (if atabsiz A < AR_TAB then arp_list A else tl (arp_list A))"
    by (simp add: xs_def arp_list_def map_tl)
  ultimately show "arp_list A' = (if atabsiz A < AR_TAB then arp_list A else tl (arp_list A)) @ [new_arpent a (arptab A i)]"
    unfolding arp_list_def o xs_def [symmetric] by (simp add: A')
qed

lemma arp_list_known:
  assumes ok: "arp_ok A"
  shows "(\<exists>k. found a A = Some k) \<longleftrightarrow> a \<in> arp_Iad ` set (arp_list A)"
proof -
  have im: "arp_Iad ` set (arp_list A) = (\<lambda>k. arp_Iad (arptab A k)) ` {0..<atabsiz A}"
    using set_arp_order [OF ok] by (simp add: arp_list_def image_image)
  show ?thesis
  proof (cases "found a A")
    case None
    have "\<forall>k \<in> {0..<atabsiz A}. arp_Iad (arptab A k) \<noteq> a"
      using arp_scan_None [OF None] ok by (simp add: arp_ok_def)
    then show ?thesis using None unfolding im by auto
  next
    case (Some k)
    have "0 \<le> k" "k < atabsiz A" "arp_Iad (arptab A k) = a" using arp_scan_Some [OF Some] ok by (simp_all add: arp_ok_def)
    then have "a \<in> (\<lambda>k. arp_Iad (arptab A k)) ` {0..<atabsiz A}" by (auto intro: image_eqI [of _ _ k])
    then show ?thesis using Some unfolding im by simp
  qed
qed

lemma arpfind_ok:
  assumes ok: "arp_ok A" and f: "arpfind a A = (i, A')"
  shows "arp_ok A'"
proof (cases "found a A")
  case (Some k)
  then show ?thesis using f ok by (simp add: arpfind_def)
next
  case None
  note n = arp_list_new [OF ok None f]
  have A': "A' = A\<lparr>atabsiz := min AR_TAB (atabsiz A + 1), atabnxt := (atabnxt A + 1) mod AR_TAB,
      arptab := (arptab A)(atabnxt A := new_arpent a (arptab A (atabnxt A)))\<rparr>"
    using arpfind_newD [OF None ok f] by blast
  have "a \<notin> arp_Iad ` set (arp_list A)" using arp_list_known [OF ok, of a] None by simp
  moreover have "set (tl (arp_list A)) \<subseteq> set (arp_list A)" by (cases "arp_list A") auto
  ultimately have "distinct (map arp_Iad (arp_list A'))"
    unfolding n(1) using ok by (auto simp: arp_ok_def new_arpent_def map_tl distinct_tl)
  moreover have "0 \<le> (atabnxt A + 1) mod AR_TAB" "(atabnxt A + 1) mod AR_TAB < AR_TAB" by (simp_all add: AR_TAB_def)
  moreover have "atabsiz A + 1 < AR_TAB \<Longrightarrow> (atabnxt A + 1) mod AR_TAB = atabsiz A + 1"
    using ok by (simp add: arp_ok_def)
  ultimately show ?thesis using ok unfolding A' by (auto simp: arp_ok_def new_arpent_def)
qed

text \<open>A host of the witnesses.\<close>

lemma arpinit_ok: "arp_ok (arpinit s1 s2 A)"
  by (simp add: arp_ok_def arpinit_def arp_list_def arp_order_def AR_TAB_def)

definition ex_net :: "int list \<Rightarrow> netinfo" where
  "ex_net addr = \<lparr>netpool = 0, netqs = [\<lparr>valid = True, uport = 7, qpid = BADPID, xport = 4\<rparr>, \<lparr>valid = False, uport = - 1, qpid = BADPID, xport = 5\<rparr>],
     mnvalid = False, mavalid = True, myname = [], myaddr = addr, mynet = snd (netnum addr), gateway = [192, 168, 1, 1],
     nxtprt = 2001, nmutex = 1, npacket = 0, ndrop = 0, nover = 0\<rparr>"

definition ex_host :: "int list \<Rightarrow> int list \<Rightarrow> netst" where
  "ex_host ea addr = \<lparr>net = ex_net addr,
     arp = arpinit 2 3 \<lparr>arptab = (\<lambda>_. \<lparr>arp_state = AR_FREE, arp_Ead = [], arp_Iad = [], arp_dev = 0\<rparr>), atabsiz = 0, atabnxt = 0,
       arpsem = 0, rarpsem = 0, arppid = BADPID, rarppid = BADPID, arpwant = []\<rparr>,
     ether = 1, etpaddr = ea, ipackid = 1, calls = []\<rparr>"

lemma ex_host_simps [simp]:
  shows "net (ex_host ea addr) = ex_net addr" "etpaddr (ex_host ea addr) = ea" "ether (ex_host ea addr) = 1"
    "myaddr (ex_net addr) = addr" "found a (arp (ex_host ea addr)) = None" "arp_ok (arp (ex_host ea addr))"
  by (simp_all add: ex_host_def ex_net_def arpinit_ok) (simp add: arpinit_def)

text \<open>C27: the table of Ethernet addresses is a cache of 20 entries that gives up the oldest: \<open>arpfind\<close> finds the
  entry of an address that is in it and changes nothing, and otherwise enters the address, unresolved, behind the
  others, for which a full table gives up its first entry. Every address has one entry.\<close>

theorem arpfind_is_cache:
  assumes ok: "arp_ok A" and f: "arpfind a A = (i, A')"
  shows "arp_ok A' \<and> 0 \<le> i \<and> i < atabsiz A' \<and> arp_Iad (arptab A' i) = a \<and>
    arp_list A' = (if a \<in> arp_Iad ` set (arp_list A) then arp_list A
      else (if length (arp_list A) < 20 then arp_list A else tl (arp_list A)) @ [new_arpent a (arptab A i)])"
proof (cases "found a A")
  case (Some k)
  then have "i = k" "A' = A" using f by (simp_all add: arpfind_def)
  then show ?thesis using arp_scan_Some [OF Some] arp_list_known [OF ok, of a] ok Some by (auto simp: arp_ok_def)
next
  case None
  note n = arp_list_new [OF ok None f]
  have "length (arp_list A) = nat (atabsiz A)"
    using ok by (auto simp: arp_list_def arp_order_def arp_ok_def AR_TAB_def)
  then have "length (arp_list A) < 20 \<longleftrightarrow> atabsiz A < AR_TAB" using ok by (auto simp: arp_ok_def AR_TAB_def)
  moreover have "arp_Iad (arptab A' i) = a" using arpfind_newD [OF None ok f] by (simp add: new_arpent_def)
  ultimately show ?thesis using n arpfind_ok [OF ok f] arp_list_known [OF ok, of a] None by auto
qed


theorem arpfind_is_cache_witness:
  "\<exists>i A'. arpfind [192, 168, 1, 7] (arp (ex_host [2, 0, 0, 0, 0, 5] [192, 168, 1, 5])) = (i, A') \<and> arp_ok A' \<and>
    arp_Iad (arptab A' i) = [192, 168, 1, 7] \<and> length (arp_list A') = 1"
proof -
  let ?A = "arp (ex_host [2, 0, 0, 0, 0, 5] [192, 168, 1, 5])"
  obtain i A' where f: "arpfind [192, 168, 1, 7] ?A = (i, A')" by (cases "arpfind [192, 168, 1, 7] ?A")
  have "arp_list ?A = []" by (simp add: ex_host_def arpinit_def arp_list_def arp_order_def AR_TAB_def)
  then show ?thesis using arpfind_is_cache [OF _ f] f by auto
qed

section \<open>Learning addresses\<close>

definition entry_of :: "int list \<Rightarrow> arpblk \<Rightarrow> arpent" where
  "entry_of a A = arptab A (fst (arpfind a A))"

text \<open>What is known of an address: nothing unless its entry is resolved.\<close>

definition resolved :: "int list \<Rightarrow> arpblk \<Rightarrow> (int list \<times> int) option" where
  "resolved a A =
     (case found a A of
        Some i \<Rightarrow> if arp_state (arptab A i) = AR_RSLVD then Some (arp_Ead (arptab A i), arp_dev (arptab A i)) else None
      | None \<Rightarrow> None)"

lemma arp_scan_cong:
  assumes "\<And>k. i \<le> k \<Longrightarrow> k < i + int n \<Longrightarrow> arp_Iad (arptab A k) = arp_Iad (arptab B k)"
    "\<And>k. i \<le> k \<Longrightarrow> k < i + int n \<Longrightarrow> (arp_state (arptab A k) = AR_FREE) = (arp_state (arptab B k) = AR_FREE)"
  shows "arp_scan n i a A = arp_scan n i a B"
  using assms
proof (induction n arbitrary: i)
  case (Suc n)
  have "arp_scan n (i + 1) a A = arp_scan n (i + 1) a B" by (rule Suc.IH) (use Suc.prems in simp_all)
  then show ?case using Suc.prems [of i] by simp
qed simp

lemma arp_scan_found:
  assumes ok: "arp_ok A" and k: "0 \<le> k" "k < atabsiz A" "arp_Iad (arptab A k) = a"
  shows "found a A = Some k"
proof (cases "found a A")
  case None
  then show ?thesis using arp_scan_None [OF None, of k] ok k by (simp add: arp_ok_def)
next
  case (Some j)
  have j: "0 \<le> j" "j < atabsiz A" "arp_Iad (arptab A j) = a" using arp_scan_Some [OF Some] ok by (simp_all add: arp_ok_def)
  have "inj_on (\<lambda>k. arp_Iad (arptab A k)) {0..<atabsiz A}"
    using ok set_arp_order [OF ok] by (simp add: arp_ok_def arp_list_def distinct_map comp_def)
  then have "j = k" using j k by (auto dest: inj_onD [of _ _ j k])
  then show ?thesis using Some by simp
qed

lemma arpfind_known:
  assumes "arp_ok A" "arpfind a A = (i, A')"
  shows "arp_ok A'" "0 \<le> i" "i < atabsiz A'" "arp_Iad (arptab A' i) = a" "found a A' = Some i"
proof -
  show ok: "arp_ok A'" by (rule arpfind_ok [OF assms])
  show i: "0 \<le> i" "i < atabsiz A'" "arp_Iad (arptab A' i) = a"
  proof (atomize (full), cases "found a A")
    case (Some k)
    then have "i = k" "A' = A" using assms(2) by (simp_all add: arpfind_def)
    then show "0 \<le> i \<and> i < atabsiz A' \<and> arp_Iad (arptab A' i) = a" using arp_scan_Some [OF Some] assms(1) by (simp add: arp_ok_def)
  next
    case None
    then show "0 \<le> i \<and> i < atabsiz A' \<and> arp_Iad (arptab A' i) = a"
      using arp_list_new [OF assms(1) None assms(2)] arpfind_newD [OF None assms] by (simp add: new_arpent_def)
  qed
  show "found a A' = Some i" by (rule arp_scan_found [OF ok i])
qed

lemma arp_list_update:
  assumes "arp_Iad e = arp_Iad (arptab A i)"
  shows "map arp_Iad (arp_list (A\<lparr>arptab := (arptab A)(i := e)\<rparr>)) = map arp_Iad (arp_list A)"
  using assms by (simp add: arp_list_def arp_order_def)

lemma arp_ok_update:
  "arp_ok A \<Longrightarrow> arp_Iad e = arp_Iad (arptab A i) \<Longrightarrow> arp_state e \<noteq> AR_FREE \<Longrightarrow> arp_ok (A\<lparr>arptab := (arptab A)(i := e)\<rparr>)"
  using arp_list_update [of e A i] by (simp add: arp_ok_def)

lemma arp_ok_fields [simp]:
  "arp_ok (A\<lparr>arppid := p\<rparr>) = arp_ok A" "arp_ok (A\<lparr>arpwant := w\<rparr>) = arp_ok A" "arp_ok (A\<lparr>rarppid := p\<rparr>) = arp_ok A"
  by (simp_all add: arp_ok_def arp_list_def arp_order_def)

lemma arp_scan_fields [simp]:
  "arp_scan n i a (A\<lparr>arppid := p\<rparr>) = arp_scan n i a A" "arp_scan n i a (A\<lparr>arpwant := w\<rparr>) = arp_scan n i a A"
  "arp_scan n i a (A\<lparr>rarppid := p\<rparr>) = arp_scan n i a A"
  by (induction n arbitrary: i) simp_all

text \<open>After a packet of \<open>spa\<close> its entry is resolved: to the address in the packet, unless it was before.\<close>

lemma learn_resolves:
  assumes ok: "arp_ok (arp s)"
  shows "arp_ok (arp (learn device spa sha s))"
    "resolved spa (arp (learn device spa sha s)) = (case resolved spa (arp s) of None \<Rightarrow> Some (sha, device) | Some r \<Rightarrow> Some r)"
    "net (learn device spa sha s) = net s" "calls (learn device spa sha s) = calls s"
    "etpaddr (learn device spa sha s) = etpaddr s" "ether (learn device spa sha s) = ether s"
    "arppid (arp (learn device spa sha s)) = arppid (arp s)" "arpwant (arp (learn device spa sha s)) = arpwant (arp s)"
    "found spa (arp s) = Some j \<Longrightarrow> found spa (arp (learn device spa sha s)) = Some j"
proof -
  obtain i A where f: "arpfind spa (arp s) = (i, A)" by (cases "arpfind spa (arp s)")
  note k = arpfind_known [OF ok f]
  let ?e = "(arptab A i)\<lparr>arp_Ead := sha, arp_dev := device, arp_state := AR_RSLVD\<rparr>"
  let ?B = "A\<lparr>arptab := (arptab A)(i := ?e)\<rparr>"
  have l: "learn device spa sha s = s\<lparr>arp := (if arp_state (arptab A i) \<noteq> AR_RSLVD then ?B else A)\<rparr>"
    by (simp add: learn_def f Let_def set_arpent_def)
  have B: "arp_ok ?B" by (rule arp_ok_update [OF k(1)]) simp_all
  have sc: "found spa ?B = Some i" using arp_scan_found [OF B, of i spa] k by simp
  show "arp_ok (arp (learn device spa sha s))" using B k(1) by (simp add: l)
  show "net (learn device spa sha s) = net s" "calls (learn device spa sha s) = calls s"
    "etpaddr (learn device spa sha s) = etpaddr s" "ether (learn device spa sha s) = ether s" by (simp_all add: l)
  have p: "arppid A = arppid (arp s) \<and> arpwant A = arpwant (arp s)"
    using f by (auto simp: arpfind_def Let_def split: option.splits)
  then show "arppid (arp (learn device spa sha s)) = arppid (arp s)" "arpwant (arp (learn device spa sha s)) = arpwant (arp s)"
    by (simp_all add: l)
  show "found spa (arp (learn device spa sha s)) = Some j" if "found spa (arp s) = Some j"
  proof -
    have "i = j" "A = arp s" using f that by (simp_all add: arpfind_def)
    then show ?thesis using sc that by (simp add: l)
  qed
  show "resolved spa (arp (learn device spa sha s)) = (case resolved spa (arp s) of None \<Rightarrow> Some (sha, device) | Some r \<Rightarrow> Some r)"
  proof (cases "found spa (arp s)")
    case (Some j)
    then have "i = j" "A = arp s" using f by (simp_all add: arpfind_def)
    then show ?thesis using Some sc k by (simp add: l resolved_def)
  next
    case None
    then have "arp_state (arptab A i) = AR_ALLOC" using arpfind_newD [OF None ok f] by (simp add: new_arpent_def)
    then show ?thesis using None sc by (simp add: l resolved_def)
  qed
qed


section \<open>Requests and answers\<close>

text \<open>An ARP packet with the operation, the sender and the target.\<close>

definition arp_packet :: "int \<Rightarrow> int list \<Rightarrow> int list \<Rightarrow> int list \<Rightarrow> int list \<Rightarrow> packet \<Rightarrow> bool" where
  "arp_packet op sha spa tha tpa p \<longleftrightarrow> 64 \<le> length p \<and> fld AR_OP 2 p = octets16 (hton16 op) \<and> fld AR_SHA 6 p = sha \<and>
     fld AR_SPA 4 p = spa \<and> fld AR_THA 6 p = tha \<and> fld AR_TPA 4 p = tpa"

definition good_host :: "netst \<Rightarrow> bool" where
  "good_host s \<longleftrightarrow> length (etpaddr s) = 6 \<and> length (myaddr (net s)) = 4 \<and> mavalid (net s) \<and> arp_ok (arp s)"

text \<open>The Ethernet driver, which is not in the repository, puts the address of the interface into the packet.\<close>

definition eth_driver :: "int list \<Rightarrow> (packet \<Rightarrow> packet) \<Rightarrow> bool" where
  "eth_driver ea drv \<longleftrightarrow>
     (\<forall>p. 64 \<le> length p \<longrightarrow> length (drv p) = length p \<and> fld E_SRC 6 (drv p) = ea \<and> fld E_DEST 6 (drv p) = fld E_DEST 6 p \<and>
       (\<forall>off n. 12 \<le> off \<longrightarrow> fld off n (drv p) = fld off n p))"

lemma length_EBCAST [simp]: "length EBCAST = 6"
  by (simp add: EBCAST_def)

lemma fill_arp_fields:
  assumes "64 \<le> length buf" "length (etpaddr s) = 6" "length spa = 4" "length tpa = 4"
  shows "\<exists>p. fill_arp typ op spa tpa s buf = Some p \<and> arp_packet op (etpaddr s) spa (etpaddr s) tpa p \<and>
    fld E_DEST 6 p = EBCAST \<and> fld E_PTYPE 2 p = octets16 (hton16 typ) \<and> length p = length buf"
  using assms by (simp add: fill_arp_def put16_def put8_def arp_packet_def flds field_offsets)

lemma arp_answer_fields:
  assumes p: "arp_packet op sha spa tha tpa p" and s: "length (etpaddr s) = 6" "length (myaddr (net s)) = 4"
    and src: "fld E_SRC 6 p = src"
  shows "\<exists>q. arp_answer s p = Some q \<and> arp_packet AR_RPLY (etpaddr s) (myaddr (net s)) src spa q \<and> fld E_DEST 6 q = src \<and>
    length q = length p"
proof -
  have l: "64 \<le> length p" and f: "fld 28 4 p = spa" "fld 6 6 p = src" using p src by (simp_all add: arp_packet_def field_offsets)
  have n: "length spa = 4" "length src = 6" using l unfolding f [symmetric] by simp_all
  show ?thesis using l f n s
    by (simp add: arp_answer_def put16_def copy_bytes_def arp_packet_def flds field_offsets IPLEN_def EPADLEN_def)
qed


lemma arp_packet_op:
  "arp_packet op sha spa tha tpa p \<Longrightarrow> 0 \<le> op \<Longrightarrow> op < 256 \<Longrightarrow> get16 AR_OP p = Some (256 * op)"
  by (simp add: get16_def arp_packet_def field_offsets get_fld int_of_octets_def octets16_def hton16_def)

lemma arp_packet_gets:
  assumes "arp_packet op sha spa tha tpa p"
  shows "get_bytes AR_SPA IPLEN p = Some spa" "get_bytes AR_SHA EPADLEN p = Some sha" "get_bytes AR_TPA IPLEN p = Some tpa"
  using assms by (simp_all add: arp_packet_def field_offsets get_fld IPLEN_def EPADLEN_def)

lemma arp_in_request:
  assumes p: "arp_packet AR_REQ sha spa tha (myaddr (net s)) p" "fld E_SRC 6 p = src" and s: "good_host s"
  shows "\<exists>q. arp_in p dev s = Some (OK, do_call (Write dev q EMINPAK) (learn dev spa sha s)) \<and>
    arp_packet AR_RPLY (etpaddr s) (myaddr (net s)) src spa q \<and> fld E_DEST 6 q = src \<and> length q = length p"
proof -
  have ok: "arp_ok (arp s)" using s by (simp add: good_host_def)
  note l = learn_resolves(3,5) [OF ok, of dev spa sha]
  have op: "get16 AR_OP p = Some (256 * AR_REQ)" by (rule arp_packet_op [OF p(1)]) (simp_all add: AR_REQ_def)
  have "hton16 (256 * AR_REQ) = AR_REQ" by (simp add: hton16_def AR_REQ_def)
  moreover have "\<exists>q. arp_answer (learn dev spa sha s) p = Some q \<and> arp_packet AR_RPLY (etpaddr s) (myaddr (net s)) src spa q \<and>
      fld E_DEST 6 q = src \<and> length q = length p"
    using arp_answer_fields [OF p(1), of "learn dev spa sha s" src] p(2) s l by (simp add: good_host_def)
  ultimately show ?thesis using arp_packet_gets [OF p(1)] op l by (auto simp: arp_in_def)
qed

lemma arp_in_reply:
  fixes dev :: int
  assumes p: "arp_packet AR_RPLY sha spa tha tpa p" and ok: "arp_ok (arp s)"
    and w: "\<not> isbadpid (arppid (arp s))" "arpwant (arp s) = spa"
  defines "s1 \<equiv> learn dev spa sha s"
  shows "arp_in p dev s = Some (OK, do_call (Freebuf p) (do_call (Send (arppid (arp s)) OK) (s1\<lparr>arp := (arp s1)\<lparr>arppid := BADPID\<rparr>\<rparr>)))"
proof -
  note l = learn_resolves(7,8) [OF ok, of dev spa sha, folded s1_def]
  have op: "get16 AR_OP p = Some (256 * AR_RPLY)" by (rule arp_packet_op [OF p]) (simp_all add: AR_RPLY_def)
  have "hton16 (256 * AR_RPLY) = AR_RPLY" "AR_RPLY \<noteq> AR_REQ" by (simp_all add: hton16_def AR_RPLY_def AR_REQ_def)
  then show ?thesis using arp_packet_gets [OF p] op l w by (simp add: arp_in_def Let_def s1_def [symmetric])
qed

text \<open>The network with one other host \<open>b\<close>: while a process waits for an answer the last packet is received there,
  and the answer is received by the input process of this host. The message arrives if it was sent.\<close>

definition call_packet :: "netst \<Rightarrow> packet" where
  "call_packet s = (case last (calls s) of Write _ p _ \<Rightarrow> p | _ \<Rightarrow> [])"

definition peer :: "netst \<Rightarrow> int \<Rightarrow> (packet \<Rightarrow> packet) \<Rightarrow> (packet \<Rightarrow> packet) \<Rightarrow> env" where
  "peer b dev drva drvb k s =
     (case arp_in (drva (call_packet s)) dev b of
        None \<Rightarrow> (TIMEOUT, s)
      | Some (_, b') \<Rightarrow>
          (case arp_in (drvb (call_packet b')) (ether s) s of
             None \<Rightarrow> (TIMEOUT, s)
           | Some (_, s') \<Rightarrow> (if Send (arppid (arp s)) OK \<in> set (drop (length (calls s)) (calls s')) then OK else TIMEOUT, s')))"

lemma resolved_fields [simp]:
  "resolved a (A\<lparr>arppid := p\<rparr>) = resolved a A" "resolved a (A\<lparr>arpwant := w\<rparr>) = resolved a A"
  by (simp_all add: resolved_def split: option.split)

lemma eth_driver_arp:
  "eth_driver ea drv \<Longrightarrow> arp_packet op sha spa tha tpa p \<Longrightarrow> arp_packet op sha spa tha tpa (drv p) \<and> fld E_SRC 6 (drv p) = ea"
  by (simp add: eth_driver_def arp_packet_def field_offsets)

lemma peer_answers:
  assumes a: "good_host a" "\<not> isbadpid (arppid (arp a))" "arpwant (arp a) = myaddr (net b)"
    and b: "good_host b"
    and drv: "eth_driver (etpaddr a) drva" "eth_driver (etpaddr b) drvb"
    and p: "arp_packet AR_REQ (etpaddr a) (myaddr (net a)) tha (myaddr (net b)) (call_packet a)"
  shows "\<exists>a'. peer b dev drva drvb k a = (OK, a') \<and> good_host a' \<and> net a' = net a \<and> ether a' = ether a \<and> etpaddr a' = etpaddr a \<and>
    resolved (myaddr (net b)) (arp a') =
      (case resolved (myaddr (net b)) (arp a) of None \<Rightarrow> Some (etpaddr b, ether a) | Some r \<Rightarrow> Some r) \<and>
    (\<forall>j. found (myaddr (net b)) (arp a) = Some j \<longrightarrow> found (myaddr (net b)) (arp a') = Some j)"
proof -
  note p1 = eth_driver_arp [OF drv(1) p]
  obtain q where q: "arp_in (drva (call_packet a)) dev b =
        Some (OK, do_call (Write dev q EMINPAK) (learn dev (myaddr (net a)) (etpaddr a) b))"
      "arp_packet AR_RPLY (etpaddr b) (myaddr (net b)) (etpaddr a) (myaddr (net a)) q"
    using arp_in_request [OF conjunct1 [OF p1] conjunct2 [OF p1] b] by blast
  let ?b = "do_call (Write dev q EMINPAK) (learn dev (myaddr (net a)) (etpaddr a) b)"
  have c: "call_packet ?b = q" by (simp add: call_packet_def do_call_def)
  have q1: "arp_packet AR_RPLY (etpaddr b) (myaddr (net b)) (etpaddr a) (myaddr (net a)) (drvb q)"
    using eth_driver_arp [OF drv(2) q(2)] by simp
  have ok: "arp_ok (arp a)" using a(1) by (simp add: good_host_def)
  let ?s1 = "learn (ether a) (myaddr (net b)) (etpaddr b) a"
  let ?a' = "do_call (Freebuf (drvb q)) (do_call (Send (arppid (arp a)) OK) (?s1\<lparr>arp := (arp ?s1)\<lparr>arppid := BADPID\<rparr>\<rparr>))"
  note l = learn_resolves [OF ok, where device = "ether a" and spa = "myaddr (net b)" and sha = "etpaddr b"]
  have r: "arp_in (drvb q) (ether a) a = Some (OK, ?a')" by (rule arp_in_reply [OF q1 ok a(2,3)])
  have "peer b dev drva drvb k a = (OK, ?a')" using r by (simp add: peer_def q(1) c) (simp add: do_call_def l)
  moreover have "good_host ?a'" using a(1) l by (simp add: good_host_def do_call_def)
  moreover have "net ?a' = net a" "ether ?a' = ether a" "etpaddr ?a' = etpaddr a" using l by (simp_all add: do_call_def)
  moreover have "found (myaddr (net b)) (arp ?a') = Some j" if "found (myaddr (net b)) (arp a) = Some j" for j
    using l(9) [OF that] by (simp add: do_call_def)
  moreover have "resolved (myaddr (net b)) (arp ?a') = resolved (myaddr (net b)) (arp ?s1)" by (simp add: do_call_def)
  ultimately show ?thesis using l(2) by (intro exI [of _ ?a']) simp
qed

text \<open>C23: an address is resolved by the exchange of a request and an answer: \<open>getpath\<close> of an address that is not
  in the cache broadcasts a request; the input process of the host with this address answers it; the input
  process of the asking host receives the answer and wakes it, and the entry it returns holds the Ethernet address of the other
  host.\<close>

theorem getpath_resolves:
  assumes a: "good_host a" and b: "good_host b" and new: "found (myaddr (net b)) (arp a) = None"
    and drv: "eth_driver (etpaddr a) drva" "eth_driver (etpaddr b) drvb"
    and buf: "bufs 0 = Some buf" "64 \<le> length buf" and pid: "\<not> isbadpid mypid"
  shows "\<exists>i a'. getpath 0 (peer b dev drva drvb) bufs mypid (myaddr (net b)) a = Some (i, a') \<and>
    arp_state (arptab (arp a') i) = AR_RSLVD \<and> arp_Ead (arptab (arp a') i) = etpaddr b \<and>
    arp_dev (arptab (arp a') i) = ether a \<and> arp_Iad (arptab (arp a') i) = myaddr (net b) \<and> good_host a'"
proof -
  let ?w = "myaddr (net b)" and ?s0 = "do_call (Wait (arpsem (arp a))) a"
  have ok: "arp_ok (arp a)" using a by (simp add: good_host_def)
  obtain i A where f: "arpfind ?w (arp a) = (i, A)" by (cases "arpfind ?w (arp a)")
  note A = arpfind_newD [OF new ok f] and k = arpfind_known [OF ok f]
  have st: "arp_state (arptab A i) = AR_ALLOC" using A by (simp add: new_arpent_def)
  let ?s1 = "?s0\<lparr>arp := A\<rparr>"
  let ?s2 = "do_call Recvclr (?s1\<lparr>arp := A\<lparr>arpwant := ?w, arppid := mypid\<rparr>\<rparr>)"
  have len: "length (etpaddr a) = 6" "length (myaddr (net a)) = 4" "length ?w = 4" "mavalid (net a)"
    using a b by (simp_all add: good_host_def)
  have s1: "etpaddr ?s1 = etpaddr a" "net ?s1 = net a" "ether ?s2 = ether a" "net ?s2 = net a" "etpaddr ?s2 = etpaddr a"
    by (simp_all add: do_call_def)
  obtain p where p: "fill_arp EP_ARP AR_REQ (myaddr (net a)) ?w ?s1 buf = Some p"
      "arp_packet AR_REQ (etpaddr a) (myaddr (net a)) (etpaddr a) ?w p"
    using fill_arp_fields [OF buf(2), of ?s1 "myaddr (net a)" ?w EP_ARP AR_REQ] len s1 by auto
  let ?s3 = "do_call (Write (ether a) p EMINPAK) ?s2"
  have "good_host ?s3" using a k(1) by (simp add: good_host_def do_call_def)
  moreover have "call_packet ?s3 = p" by (simp add: call_packet_def do_call_def)
  moreover have "arppid (arp ?s3) = mypid" "arpwant (arp ?s3) = ?w" "etpaddr ?s3 = etpaddr a" "net ?s3 = net a" "ether ?s3 = ether a"
    "found ?w (arp ?s3) = Some i" "resolved ?w (arp ?s3) = None"
    using k(5) st by (simp_all add: do_call_def resolved_def)
  ultimately obtain a' where a': "peer b dev drva drvb 0 ?s3 = (OK, a')" "good_host a'" "resolved ?w (arp a') = Some (etpaddr b, ether a)"
      "found ?w (arp a') = Some i"
    using peer_answers [of ?s3 b drva drvb "etpaddr a" dev 0] b drv pid p(2) by auto
  have t: "arp_tries AR_RTRY 0 (peer b dev drva drvb) bufs mypid (myaddr (net a)) ?w ?s1 = Some a'"
    using a'(1) s1 buf(1) p(1) by (simp add: AR_RTRY_def numeral_2_eq_2 mkarp_def Let_def)
  let ?a' = "do_call (Signal (arpsem (arp a'))) (a'\<lparr>arp := (arp a')\<lparr>arppid := BADPID\<rparr>\<rparr>)"
  have g: "getpath 0 (peer b dev drva drvb) bufs mypid ?w a = Some (i, ?a')"
    using f st t len by (simp add: getpath_def getaddr_def do_call_def)
  have "arp_ok (arp a')" using a'(2) by (simp add: good_host_def)
  then have "arp_Iad (arptab (arp a') i) = ?w" using arp_scan_Some [OF a'(4)] by simp
  moreover have "arp_state (arptab (arp a') i) = AR_RSLVD \<and> arp_Ead (arptab (arp a') i) = etpaddr b \<and> arp_dev (arptab (arp a') i) = ether a"
    using a'(3,4) by (simp add: resolved_def split: if_splits)
  moreover have "good_host ?a'" using a'(2) by (simp add: good_host_def do_call_def)
  ultimately show ?thesis using g by (intro exI [of _ i] exI [of _ ?a']) (simp add: do_call_def)
qed

lemma eth_driver_over: "length ea = 6 \<Longrightarrow> eth_driver ea (over E_SRC ea)"
  by (simp add: eth_driver_def field_offsets flds)

theorem getpath_resolves_witness:
  "\<exists>i a'. getpath 0 (peer (ex_host [2, 0, 0, 0, 0, 7] [192, 168, 1, 7]) 1 (over E_SRC [2, 0, 0, 0, 0, 5]) (over E_SRC [2, 0, 0, 0, 0, 7]))
      (\<lambda>_. Some (replicate 576 0)) 3 [192, 168, 1, 7] (ex_host [2, 0, 0, 0, 0, 5] [192, 168, 1, 5]) = Some (i, a') \<and>
    arp_Ead (arptab (arp a') i) = [2, 0, 0, 0, 0, 7]"
proof -
  let ?a = "ex_host [2, 0, 0, 0, 0, 5] [192, 168, 1, 5]" and ?b = "ex_host [2, 0, 0, 0, 0, 7] [192, 168, 1, 7]"
  have g: "good_host ?a" "good_host ?b" by (simp_all add: good_host_def) (simp_all add: ex_net_def)
  have d: "eth_driver (etpaddr ?a) (over E_SRC [2, 0, 0, 0, 0, 5])" "eth_driver (etpaddr ?b) (over E_SRC [2, 0, 0, 0, 0, 7])"
    by (simp_all add: eth_driver_over)
  have n: "found (myaddr (net ?b)) (arp ?a) = None" by simp
  have "\<not> isbadpid 3" by (simp add: isbadpid_def NPROC_def)
  then show ?thesis
    using getpath_resolves [OF g n d, where buf = "replicate 576 0" and bufs = "\<lambda>_. Some (replicate 576 0)" and mypid = 3 and dev = 1]
    by auto
qed

end
