(* ===== verification/IpUdp.thy ===== *)
theory IpUdp
  imports Arp
begin

text \<open>
  Datagrams: \<open>ipsend.c\<close>, \<open>udpsend.c\<close>, \<open>ip_in.c\<close>, \<open>icmp_in.c\<close>, and a packet's way through the input and the output
  process (\<open>netin.c\<close>, \<open>netout.c\<close>) with \<open>netinit.c\<close>. The buffer is as long as the packets of the configuration. A queue
  is \<open>cnt port\<close> long.
\<close>

section \<open>Sending\<close>

definition IVERLEN :: int where "IVERLEN = 69"
definition ISVCTYP :: int where "ISVCTYP = 0"
definition IFRAGOFF :: int where "IFRAGOFF = 0"
definition ITIM2LIV :: int where "ITIM2LIV = 64"
definition IPRO_ICMP :: int where "IPRO_ICMP = 1"
definition IPRO_UDP :: int where "IPRO_UDP = 17"

definition ip_header :: "int list \<Rightarrow> int \<Rightarrow> int list \<Rightarrow> int \<Rightarrow> packet \<Rightarrow> packet option" where
  "ip_header src ident faddr datalen p = do {
     p \<leftarrow> put16 E_PTYPE (hton16 EP_IP) p;
     p \<leftarrow> put8 I_VERLEN IVERLEN p;
     p \<leftarrow> put8 I_SVCTYP ISVCTYP p;
     p \<leftarrow> put16 I_PACLEN (hton16 (u16 (datalen + int IPHLEN))) p;
     p \<leftarrow> put16 I_ID (hton16 (u16 ident)) p;
     p \<leftarrow> put16 I_FRAGOFF (hton16 IFRAGOFF) p;
     p \<leftarrow> put8 I_TIM2LIV ITIM2LIV p;
     p \<leftarrow> put_bytes I_SRC src p;
     p \<leftarrow> put_bytes I_DEST faddr p;
     h \<leftarrow> get_bytes EHLEN IPHLEN p;
     put16 I_CKSUM (hton16 (u16 (- 1 - net_calc_checksum 0 h IPCKOFF))) p
   }"

definition ipsend ::
  "env \<Rightarrow> bufs \<Rightarrow> int \<Rightarrow> int \<Rightarrow> int list \<Rightarrow> packet \<Rightarrow> int \<Rightarrow> netst \<Rightarrow> (int \<times> netst) option" where
  "ipsend env bufs mypid wres faddr p datalen s = do {
     p \<leftarrow> ip_header (snd (getaddr s)) (ipackid s) faddr datalen p;
     route env bufs mypid wres faddr p (EHLEN + IPHLEN + nat datalen) (s\<lparr>ipackid := s16 (ipackid s + 1)\<rparr>)
   }"

definition udp_calc_checksum :: "int list \<Rightarrow> int list \<Rightarrow> int list \<Rightarrow> int" where
  "udp_calc_checksum self faddr dat =
     (let checksum = u16 (IPRO_UDP + int (length dat));
          checksum = net_calc_checksum checksum self 4;
          checksum = net_calc_checksum checksum faddr 4
      in u16 (- 1 - net_calc_checksum checksum dat UCKOFF))"

definition udp_header :: "int list \<Rightarrow> int list \<Rightarrow> int \<Rightarrow> int \<Rightarrow> nat \<Rightarrow> packet \<Rightarrow> packet option" where
  "udp_header self faddr fport lport datalen p = do {
     p \<leftarrow> put8 I_PROTO IPRO_UDP p;
     p \<leftarrow> put16 U_SPORT (hton16 (u16 lport)) p;
     p \<leftarrow> put16 U_DPORT (hton16 (u16 fport)) p;
     p \<leftarrow> put16 U_UDPLEN (hton16 (u16 (int (UHLEN + datalen)))) p;
     p \<leftarrow> (if odd datalen then put8 (U_DATA + datalen) 0 p else Some p);
     dat \<leftarrow> get_bytes I_DATA (UHLEN + datalen) p;
     put16 U_UCKSUM (hton16 (udp_calc_checksum self faddr dat)) p
   }"

definition udpsend ::
  "env \<Rightarrow> bufs \<Rightarrow> int \<Rightarrow> int \<Rightarrow> int list \<Rightarrow> int \<Rightarrow> int \<Rightarrow> packet \<Rightarrow> nat \<Rightarrow> netst \<Rightarrow> (int \<times> netst) option" where
  "udpsend env bufs mypid wres faddr fport lport p datalen s = do {
     p \<leftarrow> udp_header (myaddr (net s)) faddr fport lport datalen p;
     ipsend env bufs mypid wres faddr p (int (UHLEN + datalen)) s
   }"

section \<open>Receiving\<close>

definition ICRPECH :: int where "ICRPECH = 0"
definition ICRQECH :: int where "ICRQECH = 8"
definition NETQLEN :: int where "NETQLEN = 3"
definition NETFQ :: int where "NETFQ = 3"

text \<open>The length is a signed number; what lies outside of the buffer has no value.\<close>

definition icmp_reply :: "packet \<Rightarrow> packet option" where
  "icmp_reply p = do {
     p \<leftarrow> put8 IC_TYP ICRPECH p;
     p \<leftarrow> copy_bytes I_DEST I_SRC IPLEN p;
     paclen \<leftarrow> get16 I_PACLEN p;
     let len = s16 (hton16 paclen - int IPHLEN);
     p \<leftarrow> (if odd len then (if len < - int I_DATA then None else put8 (nat (int I_DATA + len)) 0 p) else Some p);
     dat \<leftarrow> get_bytes I_DATA (nat (u16 (if odd len then len + 1 else len))) p;
     put16 IC_CKSUM (hton16 (u16 (- 1 - net_calc_checksum 0 dat ICCKOFF))) p
   }"

definition icmp_in :: "(int \<Rightarrow> int) \<Rightarrow> packet \<Rightarrow> int \<Rightarrow> int \<Rightarrow> netst \<Rightarrow> (int \<times> netst) option" where
  "icmp_in cnt p icmpp lim s = do {
     typ \<leftarrow> get8 IC_TYP p;
     if \<not> mavalid (net s) \<or> typ \<noteq> ICRQECH then Some (OK, do_call (Freebuf p) s)
     else do {
       p \<leftarrow> icmp_reply p;
       Some (OK, do_call (if cnt icmpp < lim then Psend icmpp p else Freebuf p) s)
     }
   }"

definition set_netq :: "nat \<Rightarrow> (netq \<Rightarrow> netq) \<Rightarrow> netst \<Rightarrow> netst" where
  "set_netq i f s = s\<lparr>net := (net s)\<lparr>netqs := (netqs (net s))[i := f (netqs (net s) ! i)]\<rparr>\<rparr>"

text \<open>The first queue of the port, in use or not.\<close>

fun netq_of :: "int \<Rightarrow> nat \<Rightarrow> netq list \<Rightarrow> nat option" where
  "netq_of dport i [] = None"
| "netq_of dport i (q # qs) = (if uport q = dport then Some i else netq_of dport (i + 1) qs)"

definition udp_in :: "(int \<Rightarrow> int) \<Rightarrow> packet \<Rightarrow> nat \<Rightarrow> netst \<Rightarrow> int \<times> netst" where
  "udp_in cnt p i s =
     (let q = netqs (net s) ! i
      in if cnt (xport q) \<ge> NETQLEN then (SYSERR, do_call (Freebuf p) (count_over (count_drop s)))
         else let s = do_call (Psend (xport q) p) s; to = qpid q
           in (OK, if \<not> isbadpid to then do_call (Send to OK) (set_netq i (\<lambda>q. q\<lparr>qpid := BADPID\<rparr>) s) else s))"

definition ip_in :: "(int \<Rightarrow> int) \<Rightarrow> packet \<Rightarrow> int \<Rightarrow> int \<Rightarrow> netst \<Rightarrow> (int \<times> netst) option" where
  "ip_in cnt p out_port lim s = do {
     proto \<leftarrow> get8 I_PROTO p;
     if proto = IPRO_ICMP then icmp_in cnt p out_port lim s
     else if proto = IPRO_UDP then do {
       d \<leftarrow> get16 U_DPORT p;
       Some (case netq_of (s16 (hton16 d)) 0 (netqs (net s)) of
               Some i \<Rightarrow> udp_in cnt p i s
             | None \<Rightarrow> (OK, do_call (Freebuf p) (count_drop s)))
     }
     else Some (OK, do_call (Freebuf p) (count_drop s))
   }"

section \<open>The processes\<close>

text \<open>What the input process does with a packet of \<open>len\<close> octets (SYSERR when the read failed), before it takes a new
  buffer; a packet of an unknown type leaves it the buffer.\<close>

definition netin_packet :: "(int \<Rightarrow> int) \<Rightarrow> int \<Rightarrow> packet \<Rightarrow> int \<Rightarrow> netst \<Rightarrow> netst option" where
  "netin_packet cnt out_port p len s =
     (let s = count_packet s
      in if len = SYSERR then Some (count_drop s)
         else do {
           typ \<leftarrow> get16 E_PTYPE p;
           if hton16 typ = EP_ARP then map_option snd (arp_in p (ether s) s)
           else if hton16 typ = EP_RARP then map_option snd (rarp_in p (ether s) s)
           else if hton16 typ = EP_IP then map_option snd (ip_in cnt p out_port NETFQ s)
           else Some (count_drop s)
         })"

text \<open>What the output process does with a packet of its port. A packet of another protocol is neither sent nor
  released.\<close>

definition netout_packet :: "env \<Rightarrow> bufs \<Rightarrow> int \<Rightarrow> int \<Rightarrow> packet \<Rightarrow> netst \<Rightarrow> netst option" where
  "netout_packet env bufs mypid wres p s = do {
     proto \<leftarrow> get8 I_PROTO p;
     if proto = IPRO_ICMP then do {
       addr \<leftarrow> get_bytes I_DEST IPLEN p;
       paclen \<leftarrow> get16 I_PACLEN p;
       map_option snd (ipsend env bufs mypid wres addr p (s16 (hton16 paclen - int IPHLEN)) s)
     }
     else Some s
   }"

text \<open>The pool, the ports and the semaphore are those that \<open>mkpool\<close>, \<open>pcreate\<close> and \<open>screate\<close> gave; \<open>clkruns\<close> is
  checked before.\<close>

definition ULPORT :: int where "ULPORT = 2001"

definition netinit :: "bool \<Rightarrow> int \<Rightarrow> int list \<Rightarrow> int \<Rightarrow> int list \<Rightarrow> int list \<Rightarrow> netinfo \<Rightarrow> netinfo option" where
  "netinit clkruns pool ports sem gw request N =
     (if \<not> clkruns then None
      else Some (N\<lparr>netpool := pool, netqs := map2 (\<lambda>q p. q\<lparr>valid := False, uport := - 1, xport := p\<rparr>) (netqs N) ports,
        mnvalid := False, mavalid := False, gateway := gw, myaddr := request, mynet := snd (netnum request),
        nxtprt := ULPORT, nmutex := sem, npacket := 0, ndrop := 0, nover := 0,
        myname := ''Xinu.local.'' @ drop 11 (myname N)\<rparr>))"

section \<open>Fields that are written\<close>

lemma over_two: "k + 1 < length bs \<Longrightarrow> over k [h, l] bs = bs[k := h, k + 1 := l]"
  by (rule nth_equalityI) (auto simp: over_def nth_list_update nth_Cons split: nat.splits)

text \<open>A field within a part of the packet.\<close>

lemma fld_over_inside:
  assumes "o' \<le> off" "off + length bs \<le> o' + n" "o' + n \<le> length p"
  shows "fld o' n (over off bs p) = over (off - o') bs (fld o' n p)"
  using assms by (intro nth_equalityI) (auto simp: fld_def over_def add.commute)

lemma octets16_hton16:
  assumes "0 \<le> v" "v < 65536"
  shows "octets16 (hton16 v) = [v div 256, v mod 256]" "hton16 (int_of_octets [v div 256, v mod 256]) = v"
proof -
  have d: "0 \<le> v div 256" "v div 256 < 256" using assms by simp_all
  show "octets16 (hton16 v) = [v div 256, v mod 256]" using hton16_octets [OF assms] by (simp add: octets16_def)
  have "(v div 256 + 256 * (v mod 256)) mod 256 = v div 256" "(v div 256 + 256 * (v mod 256)) div 256 = v mod 256" using d by simp_all
  then show "hton16 (int_of_octets [v div 256, v mod 256]) = v" by (simp add: hton16_def int_of_octets_def)
qed

lemma octet_list_octets16 [simp]: "octet_list (octets16 v)"
  by (simp add: octet_list_def octets16_def)

lemma octet_list_fld: "octet_list p \<Longrightarrow> octet_list (fld off n p)"
  by (auto simp: octet_list_def fld_def dest: in_set_takeD in_set_dropD)

text \<open>The header of a datagram.\<close>

definition ip_packet :: "int list \<Rightarrow> int list \<Rightarrow> int \<Rightarrow> packet \<Rightarrow> bool" where
  "ip_packet src dst paclen p \<longleftrightarrow> fld E_PTYPE 2 p = octets16 (hton16 EP_IP) \<and>
     fld I_PACLEN 2 p = octets16 (hton16 paclen) \<and> fld I_SRC 4 p = src \<and> fld I_DEST 4 p = dst \<and>
     net_calc_checksum 0 (fld EHLEN IPHLEN p) IPHLEN = 65535"

lemma put8_over: "off < length p \<Longrightarrow> put8 off v p = Some (over off [u8 v] p)"
  by (simp add: put8_def put_bytes_over)

lemma put16_over: "off + 2 \<le> length p \<Longrightarrow> put16 off v p = Some (over off (octets16 v) p)"
  by (simp add: put16_def put_bytes_over)

lemma octet_list_u8 [simp]: "octet_list [u8 v]"
  by (simp add: octet_list_def u8_def)

lemma checksum_over:
  assumes p: "octet_list p" "off + n \<le> length p" and k: "even k" "k + 1 < n" and c: "0 \<le> c" "c \<le> 65535"
  shows "net_calc_checksum c (fld off n (over (off + k) (octets16 (hton16 (u16 (- 1 - net_calc_checksum c (fld off n p) k)))) p)) n = 65535"
proof -
  let ?b = "fld off n p" and ?ck = "u16 (- 1 - net_calc_checksum c (fld off n p) k)"
  have l: "length ?b = n" using p(2) by simp
  have o: "octet_list ?b" by (rule octet_list_fld [OF p(1)])
  note f = checksum_fills [OF o k(1) _ c refl refl]
  have ck: "0 \<le> ?ck" "?ck < 65536" using f(2,3) k l by simp_all
  have "fld off n (over (off + k) (octets16 (hton16 ?ck)) p) = over k (octets16 (hton16 ?ck)) ?b"
    using fld_over_inside [of off "off + k" "octets16 (hton16 ?ck)" n p] k p(2) by simp
  also have "\<dots> = ?b[k := ?ck div 256, k + 1 := ?ck mod 256]"
    unfolding octets16_hton16(1) [OF ck] by (rule over_two) (use k l in simp)
  also have "\<dots> = ?b[k := hton16 ?ck mod 256, k + 1 := hton16 ?ck div 256]" by (simp only: hton16_octets [OF ck])
  finally show ?thesis using f(1) k l by simp
qed


lemma ip_header_fields:
  assumes p: "34 \<le> length p" "octet_list p" and a: "length src = 4" "octet_list src" "length dst = 4" "octet_list dst"
  shows "\<exists>q. ip_header src ident dst n p = Some q \<and> length q = length p \<and> octet_list q \<and> ip_packet src dst (u16 (n + 20)) q \<and>
    fld I_PROTO 1 q = fld I_PROTO 1 p \<and> (\<forall>off n. 34 \<le> off \<longrightarrow> fld off n q = fld off n p)"
proof -
  define P where "P = over 30 dst (over 26 src (over 22 [u8 ITIM2LIV] (over 20 (octets16 (hton16 IFRAGOFF))
    (over 18 (octets16 (hton16 (u16 ident))) (over 16 (octets16 (hton16 (u16 (n + int IPHLEN))))
      (over 15 [u8 ISVCTYP] (over 14 [u8 IVERLEN] (over 12 (octets16 (hton16 EP_IP)) p))))))))"
  define ck where "ck = u16 (- 1 - net_calc_checksum 0 (fld 14 20 P) 10)"
  have l: "length P = length p" by (simp add: P_def)
  have o: "octet_list P" unfolding P_def by (intro over_octets octet_list_octets16 octet_list_u8 p(2) a(2,4))
  have q: "ip_header src ident dst n p = Some (over 24 (octets16 (hton16 ck)) P)"
    using p(1) a(1,3) unfolding P_def ck_def
    by (simp add: ip_header_def field_offsets put8_over put16_over put_bytes_over get_fld)
  define Q where "Q = over 24 (octets16 (hton16 ck)) P"
  have f: "fld o' m Q = fld o' m P" if "o' + m \<le> 24 \<or> 26 \<le> o'" for o' m
    unfolding Q_def using that by (intro fld_over_other) auto
  have g: "fld o' m P = fld o' m p" if "34 \<le> o' \<or> o' = 23 \<and> m = 1" for o' m
    using that a(1,3) unfolding P_def by (elim disjE conjE) (simp_all add: fld_over_other)
  have "net_calc_checksum 0 (fld 14 20 Q) 20 = 65535"
    using checksum_over [OF o, of 14 20 10 0] p(1) l unfolding Q_def ck_def by simp
  moreover have "fld 12 2 Q = octets16 (hton16 EP_IP)" "fld 16 2 Q = octets16 (hton16 (u16 (n + int IPHLEN)))" "fld 26 4 Q = src" "fld 30 4 Q = dst"
    using p(1) a(1,3) by (simp_all add: f P_def flds)
  ultimately have "ip_packet src dst (u16 (n + 20)) Q" by (simp add: ip_packet_def field_offsets)
  moreover have "octet_list Q" "length Q = length p" unfolding Q_def by (simp_all add: over_octets o l)
  moreover have "fld I_PROTO 1 Q = fld I_PROTO 1 p" using f [of 23 1] g [of 23 1] by (simp add: field_offsets)
  moreover have "fld off m Q = fld off m p" if "34 \<le> off" for off m using f [of off m] g [of off m] that by simp
  ultimately show ?thesis using q unfolding Q_def [symmetric] by blast
qed


definition pseudo_sum :: "int list \<Rightarrow> int list \<Rightarrow> nat \<Rightarrow> int" where
  "pseudo_sum src dst len = net_calc_checksum (net_calc_checksum (u16 (IPRO_UDP + int len)) src 4) dst 4"

definition udp_packet :: "int list \<Rightarrow> int list \<Rightarrow> int \<Rightarrow> int \<Rightarrow> int list \<Rightarrow> packet \<Rightarrow> bool" where
  "udp_packet src dst sport dport dat p \<longleftrightarrow> U_DATA + length dat \<le> length p \<and> fld I_PROTO 1 p = [IPRO_UDP] \<and>
     fld U_SPORT 2 p = octets16 (hton16 (u16 sport)) \<and> fld U_DPORT 2 p = octets16 (hton16 (u16 dport)) \<and>
     fld U_UDPLEN 2 p = octets16 (hton16 (int (UHLEN + length dat))) \<and> fld U_DATA (length dat) p = dat \<and>
     net_calc_checksum (pseudo_sum src dst (UHLEN + length dat)) (fld I_DATA (UHLEN + length dat) p) (UHLEN + length dat) = 65535"

lemma pseudo_sum_range:
  assumes "octet_list src" "octet_list dst"
  shows "0 \<le> pseudo_sum src dst len" "pseudo_sum src dst len \<le> 65535"
proof -
  have r: "0 \<le> u16 (IPRO_UDP + int len)" "u16 (IPRO_UDP + int len) \<le> 65535" using u16_range [of "IPRO_UDP + int len"] by simp_all
  let ?c = "net_calc_checksum (u16 (IPRO_UDP + int len)) src 4"
  have c: "0 \<le> ?c" "?c \<le> 65535" unfolding net_calc_checksum_oc [OF assms(1) r] by (rule oc_range)+
  show "0 \<le> pseudo_sum src dst len" "pseudo_sum src dst len \<le> 65535"
    unfolding pseudo_sum_def net_calc_checksum_oc [OF assms(2) c] by (rule oc_range)+
qed

lemma udp_header_fields:
  assumes p: "octet_list p" "42 + n \<le> length p" "odd n \<longrightarrow> 43 + n \<le> length p" "n < 60000"
    and a: "octet_list src" "octet_list dst"
  shows "\<exists>q. udp_header src dst dport sport n p = Some q \<and> length q = length p \<and> octet_list q \<and>
    udp_packet src dst sport dport (fld U_DATA n p) q"
proof -
  define P where "P = over 38 (octets16 (hton16 (u16 (int (UHLEN + n))))) (over 36 (octets16 (hton16 (u16 dport)))
    (over 34 (octets16 (hton16 (u16 sport))) (over 23 [u8 IPRO_UDP] p)))"
  define R where "R = (if odd n then over (42 + n) [u8 0] P else P)"
  define ck where "ck = u16 (- 1 - net_calc_checksum (pseudo_sum src dst (UHLEN + n)) (fld 34 (8 + n) R) 6)"
  define Q where "Q = over 40 (octets16 (hton16 ck)) R"
  have l: "length P = length p" "length R = length p" "length Q = length p" by (simp_all add: P_def R_def Q_def)
  have "octet_list P" unfolding P_def by (intro over_octets octet_list_octets16 octet_list_u8 p(1))
  then have o: "octet_list R" "octet_list Q" unfolding R_def Q_def by (auto intro: over_octets octet_list_octets16 octet_list_u8)
  have u: "udp_calc_checksum src dst (fld 34 (8 + n) R) = ck"
    using p(2) l by (simp add: udp_calc_checksum_def ck_def pseudo_sum_def UCKOFF_def UHLEN_def Let_def)
  have "(if odd n then put8 (U_DATA + n) 0 P else Some P) = Some R"
    using p(3) l(1) put8_over [of "42 + n" P 0] unfolding R_def U_DATA_def by auto
  moreover have "get_bytes I_DATA (UHLEN + n) R = Some (fld 34 (8 + n) R)"
    using p(2) l unfolding I_DATA_def UHLEN_def by (intro get_fld) simp
  moreover have "put16 U_UCKSUM (hton16 ck) R = Some Q" using p(2) l unfolding U_UCKSUM_def Q_def by (simp add: put16_over)
  moreover have "put8 I_PROTO IPRO_UDP p \<bind> (\<lambda>p. put16 U_SPORT (hton16 (u16 sport)) p \<bind> (\<lambda>p. put16 U_DPORT (hton16 (u16 dport)) p \<bind>
      (\<lambda>p. put16 U_UDPLEN (hton16 (u16 (int (UHLEN + n)))) p \<bind> k))) = k P" for k :: "packet \<Rightarrow> packet option"
    using p(2) by (simp add: put8_over put16_over P_def field_offsets)
  ultimately have q: "udp_header src dst dport sport n p = Some Q"
    by (simp add: udp_header_def u)
  have f: "fld o' m Q = fld o' m P" if "o' + m \<le> 40 \<or> 42 \<le> o' \<and> o' + m \<le> 42 + n" for o' m
    using that unfolding Q_def R_def by (auto simp: fld_over_other)
  have "net_calc_checksum (pseudo_sum src dst (UHLEN + n)) (fld 34 (8 + n) Q) (8 + n) = 65535"
    using checksum_over [OF o(1), of 34 "8 + n" 6 "pseudo_sum src dst (UHLEN + n)"] pseudo_sum_range [OF a] p(2) l
    unfolding Q_def ck_def by simp
  moreover have "fld 42 n Q = fld 42 n p" by (simp add: f P_def fld_over_other)
  moreover have "fld 34 2 Q = octets16 (hton16 (u16 sport))" "fld 36 2 Q = octets16 (hton16 (u16 dport))"
    "fld 38 2 Q = octets16 (hton16 (u16 (int (UHLEN + n))))" "fld 23 1 Q = [u8 IPRO_UDP]"
    using p(2) by (simp_all add: f P_def flds)
  moreover have "u16 (int (UHLEN + n)) = int (UHLEN + n)" using p(4) by (simp add: UHLEN_def)
  ultimately have "udp_packet src dst sport dport (fld U_DATA n p) Q"
    using p(2) l by (simp add: udp_packet_def field_offsets IPRO_UDP_def u8_def)
  then show ?thesis using q o(2) l(3) by blast
qed


lemma packet_cong:
  assumes "\<And>off n. 12 \<le> off \<Longrightarrow> fld off n q = fld off n p"
  shows "ip_packet src dst paclen q = ip_packet src dst paclen p"
    "length q = length p \<Longrightarrow> udp_packet src dst sport dport dat q = udp_packet src dst sport dport dat p"
  using assms by (simp_all add: ip_packet_def udp_packet_def field_offsets)

section \<open>Sending to a neighbour\<close>

definition neighbour :: "netst \<Rightarrow> int list \<Rightarrow> int list \<Rightarrow> int \<Rightarrow> bool" where
  "neighbour s faddr ead dev \<longleftrightarrow> good_host s \<and> length faddr = 4 \<and> octet_list faddr \<and> octet_list (myaddr (net s)) \<and>
     snd (netnum faddr) = mynet (net s) \<and> faddr \<noteq> mynet (net s) \<and> \<not> isLocalMulticast (mynet (net s)) \<and>
     resolved faddr (arp s) = Some (ead, dev) \<and> length ead = 6 \<and> octet_list ead"

lemma getpath_resolved:
  assumes "resolved faddr (arp s) = Some (ead, dev)"
  shows "\<exists>i. getpath k env bufs mypid faddr s = Some (i, do_call (Signal (arpsem (arp s))) (do_call (Wait (arpsem (arp s))) s)) \<and>
    arp_state (arptab (arp s) i) = AR_RSLVD \<and> arp_Ead (arptab (arp s) i) = ead \<and> arp_dev (arptab (arp s) i) = dev"
proof -
  obtain i where i: "found faddr (arp s) = Some i" "arp_state (arptab (arp s) i) = AR_RSLVD" "arp_Ead (arptab (arp s) i) = ead"
      "arp_dev (arptab (arp s) i) = dev"
    using assms by (auto simp: resolved_def split: option.splits if_splits)
  then have "arpfind faddr (arp s) = (i, arp s)" by (simp add: arpfind_def)
  then show ?thesis using i by (simp add: getpath_def do_call_def)
qed

lemma route_neighbour:
  assumes n: "neighbour s faddr ead dev" and p: "6 \<le> length p"
  shows "\<exists>s'. route env bufs mypid wres faddr p totlen s = Some (wres, s') \<and> net s' = net s \<and> arp s' = arp s \<and> etpaddr s' = etpaddr s \<and>
    calls s' = calls s @ [Wait (nmutex (net s)), Wait (arpsem (arp s)), Signal (arpsem (arp s)),
      Write dev (over E_DEST ead p) totlen, Signal (nmutex (net s))]"
proof -
  let ?s = "do_call (Wait (nmutex (net s))) s"
  have r: "resolved faddr (arp ?s) = Some (ead, dev)" using n by (simp add: neighbour_def do_call_def)
  obtain i where i: "getpath 0 env bufs mypid faddr ?s = Some (i, do_call (Signal (arpsem (arp ?s))) (do_call (Wait (arpsem (arp ?s))) ?s))"
      "arp_state (arptab (arp ?s) i) = AR_RSLVD" "arp_Ead (arptab (arp ?s) i) = ead" "arp_dev (arptab (arp ?s) i) = dev"
    using getpath_resolved [OF r, of 0 env bufs mypid] by auto
  have m: "snd (getnet s) = mynet (net s)" using n by (simp add: neighbour_def good_host_def getnet_def)
  have d: "length ead = 6" "snd (netnum faddr) = mynet (net s)" "faddr \<noteq> mynet (net s)" "\<not> isLocalMulticast (mynet (net s))"
    using n by (simp_all add: neighbour_def)
  have w: "put_bytes E_DEST ead p = Some (over E_DEST ead p)" using d(1) p by (simp add: put_bytes_over E_DEST_def)
  show ?thesis using i d w by (simp add: route_def m Let_def) (simp add: do_call_def)
qed

lemma udpsend_neighbour:
  assumes n: "neighbour s faddr ead dev" and p: "octet_list p" "42 + n \<le> length p" "odd n \<longrightarrow> 43 + n \<le> length p" "n < 60000"
  shows "\<exists>s' q. udpsend env bufs mypid wres faddr fport lport p n s = Some (wres, s') \<and>
    net s' = net s \<and> arp s' = arp s \<and> etpaddr s' = etpaddr s \<and>
    calls s' = calls s @ [Wait (nmutex (net s)), Wait (arpsem (arp s)), Signal (arpsem (arp s)), Write dev q (42 + n), Signal (nmutex (net s))] \<and>
    length q = length p \<and> octet_list q \<and> fld E_DEST 6 q = ead \<and> ip_packet (myaddr (net s)) faddr (int (28 + n)) q \<and>
    udp_packet (myaddr (net s)) faddr lport fport (fld U_DATA n p) q"
proof -
  let ?me = "myaddr (net s)"
  have h: "length ?me = 4" "octet_list ?me" "length faddr = 4" "octet_list faddr" "mavalid (net s)" "length ead = 6" "octet_list ead"
    using n by (simp_all add: neighbour_def good_host_def)
  obtain q1 where q1: "udp_header ?me faddr fport lport n p = Some q1" "length q1 = length p" "octet_list q1"
      "udp_packet ?me faddr lport fport (fld U_DATA n p) q1"
    using udp_header_fields [OF p h(2,4)] by blast
  have l1: "34 \<le> length q1" using q1(2) p(2) by simp
  obtain q2 where q2: "ip_header ?me (ipackid s) faddr (int (UHLEN + n)) q1 = Some q2" "length q2 = length q1" "octet_list q2"
      "ip_packet ?me faddr (u16 (int (UHLEN + n) + 20)) q2" "fld I_PROTO 1 q2 = fld I_PROTO 1 q1"
      "\<forall>off n. 34 \<le> off \<longrightarrow> fld off n q2 = fld off n q1"
    using ip_header_fields [OF l1 q1(3) h(1-4), of "ipackid s" "int (UHLEN + n)"] by blast
  let ?s = "s\<lparr>ipackid := s16 (ipackid s + 1)\<rparr>" and ?q = "over E_DEST ead q2"
  have "neighbour ?s faddr ead dev" using n by (simp add: neighbour_def good_host_def)
  then obtain s' where s': "route env bufs mypid wres faddr q2 (42 + n) ?s = Some (wres, s')" "net s' = net s" "arp s' = arp s" "etpaddr s' = etpaddr s"
      "calls s' = calls s @ [Wait (nmutex (net s)), Wait (arpsem (arp s)), Signal (arpsem (arp s)), Write dev ?q (42 + n), Signal (nmutex (net s))]"
    using route_neighbour [of ?s faddr ead dev q2 env bufs mypid wres "42 + n"] q2(2) l1 by auto
  have f: "fld o' m ?q = fld o' m q2" if "12 \<le> o'" for o' m using that h(6) by (intro fld_over_other) (simp add: E_DEST_def)
  have tot: "EHLEN + IPHLEN + nat (int UHLEN + int n) = 42 + n" by (simp add: EHLEN_def IPHLEN_def UHLEN_def)
  have len: "u16 (int (UHLEN + n) + 20) = int (28 + n)" using p(4) by (simp add: UHLEN_def)
  have "udpsend env bufs mypid wres faddr fport lport p n s = Some (wres, s')"
    using q1(1) q2(1) s'(1) h(5) by (simp add: udpsend_def ipsend_def getaddr_def tot)
  moreover have "ip_packet ?me faddr (int (28 + n)) ?q" using q2(4) packet_cong(1) [OF f] unfolding len by simp
  moreover have "udp_packet ?me faddr lport fport (fld U_DATA n p) ?q"
  proof -
    have "udp_packet ?me faddr lport fport (fld U_DATA n p) q2"
      using q1(4) q2(2,5,6) by (simp add: udp_packet_def U_SPORT_def U_DPORT_def U_UDPLEN_def U_DATA_def I_DATA_def)
    then show ?thesis using packet_cong(2) [of ?q q2, OF f] by simp
  qed
  moreover have "fld E_DEST 6 ?q = ead" using h(6) l1 q2(2) by (simp add: E_DEST_def fld_over_same)
  moreover have "octet_list ?q" by (rule over_octets [OF q2(3) h(7)])
  ultimately show ?thesis using s'(2-5) q2(2) q1(2) by auto
qed

end
