(* ===== verification/Dgram.thy ===== *)
theory Dgram
  imports IpUdp
begin

unbundle bit_operations_syntax

text \<open>
  The datagram devices (\<open>dginit.c\<close>, \<open>dgalloc.c\<close>, \<open>dgmopen.c\<close>, \<open>dgclose.c\<close>, \<open>dgcntl.c\<close>, \<open>dgmcntl.c\<close>, \<open>dgread.c\<close>,
  \<open>dgwrite.c\<close>, \<open>src/sys/h/dgram.h\<close>). A device is its control block; \<open>dgtab\<close> is the list of them. Where a process
  waits, \<open>env\<close> gives what the others do, and \<open>recv\<close> the message that \<open>preceive\<close> returns and the state it finds.
\<close>

section \<open>Opening and closing\<close>

definition DG_NMODE :: int where "DG_NMODE = 1"
definition DG_DMODE :: int where "DG_DMODE = 2"
definition DG_TMODE :: int where "DG_TMODE = 32"
definition DG_SETMODE :: int where "DG_SETMODE = 1"
definition DG_CLEAR :: int where "DG_CLEAR = 2"
definition NC_SETGW :: int where "NC_SETGW = 1"
definition ANYLPORT :: int where "ANYLPORT = 0"
definition XGHLEN :: int where "XGHLEN = 8"
definition EMAXPAK :: nat where "EMAXPAK = 590"
definition UMAXLEN :: int where "UMAXLEN = int EMAXPAK - int IPHLEN - int EHLEN - int UHLEN"

definition dginit :: "int \<Rightarrow> dgblk \<Rightarrow> int \<times> dgblk" where
  "dginit dvnum d = (OK, d\<lparr>dg_dnum := dvnum, dg_state := DG_FREE\<rparr>)"

fun dgalloc :: "nat \<Rightarrow> dgblk list \<Rightarrow> (nat \<times> dgblk list) option" where
  "dgalloc i [] = None"
| "dgalloc i (d # ds) =
     (if dg_state d = DG_FREE then Some (i, d\<lparr>dg_state := DG_USED\<rparr> # ds)
      else map_option (\<lambda>(k, ds). (k, d # ds)) (dgalloc (i + 1) ds))"

definition dgfree :: "nat \<Rightarrow> dgblk list \<Rightarrow> dgblk list" where
  "dgfree slot ds = ds[slot := (ds ! slot)\<lparr>dg_state := DG_FREE\<rparr>]"

definition dgm_bind :: "nat \<Rightarrow> nat \<Rightarrow> int \<Rightarrow> dgblk list \<Rightarrow> netinfo \<Rightarrow> int \<times> dgblk list \<times> netinfo" where
  "dgm_bind slot nq locport ds N =
     (let q = netqs N ! nq;
          d = (ds ! slot)\<lparr>dg_lport := locport, dg_xport := xport q, dg_netq := int nq, dg_mode := DG_NMODE\<rparr>
      in (dg_dnum d, ds[slot := d], N\<lparr>netqs := (netqs N)[nq := q\<lparr>uport := locport\<rparr>]\<rparr>))"

definition dgmopen :: "string option \<Rightarrow> int \<Rightarrow> dgblk list \<Rightarrow> netinfo \<Rightarrow> (int \<times> dgblk list \<times> netinfo) option" where
  "dgmopen forport locport ds N =
     (case dgalloc 0 ds of
        None \<Rightarrow> Some (SYSERR, ds, N)
      | Some (slot, ds) \<Rightarrow> do {
          (lport, N) \<leftarrow> (if locport = ANYLPORT then udpnxtp N else Some (locport, N));
          if locport \<noteq> ANYLPORT \<and> port_in_use locport N then Some (SYSERR, dgfree slot ds, N)
          else do {
            (r, d) \<leftarrow> dgparse forport (ds ! slot);
            let ds = ds[slot := d];
            if r = SYSERR then Some (SYSERR, dgfree slot ds, N)
            else
              (let (nq, N) = nqalloc N
               in Some (if nq = SYSERR then (SYSERR, dgfree slot ds, N) else dgm_bind slot (nat nq) lport ds N))
          }
        })"

definition dgclose :: "dgblk \<Rightarrow> netinfo \<Rightarrow> int \<times> dgblk \<times> netinfo" where
  "dgclose d N =
     (let nq = nat (dg_netq d)
      in (OK, d\<lparr>dg_state := DG_FREE\<rparr>,
          N\<lparr>netqs := (netqs N)[nq := (netqs N ! nq)\<lparr>valid := False, uport := - 1, qpid := BADPID\<rparr>]\<rparr>))"

text \<open>The port to be cleared, if it is to be.\<close>

definition dgcntl :: "dgblk \<Rightarrow> int \<Rightarrow> int \<Rightarrow> int \<times> dgblk \<times> int option" where
  "dgcntl d func arg =
     (if func = DG_SETMODE then (OK, d\<lparr>dg_mode := arg\<rparr>, None)
      else if func = DG_CLEAR then (OK, d, Some (dg_xport d))
      else (SYSERR, d, None))"

definition dgmcntl :: "int \<Rightarrow> int list \<Rightarrow> netinfo \<Rightarrow> int \<times> netinfo" where
  "dgmcntl func addr N = (if func = NC_SETGW then (OK, N\<lparr>gateway := addr\<rparr>) else (SYSERR, N))"

section \<open>Reading and writing\<close>

record xgram =
  xg_faddr :: "int list"
  xg_fport :: int
  xg_lport :: int
  xg_data :: "int list"

text \<open>What is stored at the reader's: a datagram with its header, the data alone, or nothing.\<close>

datatype dgdata = Gram xgram | Data "int list" | Nothing

definition dgread_packet :: "dgblk \<Rightarrow> int \<Rightarrow> packet \<Rightarrow> netst \<Rightarrow> (int \<times> dgdata \<times> netst) option" where
  "dgread_packet d len p s = do {
     ulen \<leftarrow> get16 U_UDPLEN p;
     let datalen = s16 (hton16 ulen - int UHLEN);
     if dg_mode d AND DG_NMODE \<noteq> 0 then do {
       need \<leftarrow> add16 datalen XGHLEN;
       if need > len then Some (SYSERR, Nothing, do_call (Freebuf p) s)
       else do {
         src \<leftarrow> get_bytes I_SRC IPLEN p;
         sport \<leftarrow> get16 U_SPORT p;
         dat \<leftarrow> get_bytes U_DATA (nat datalen) p;
         Some (datalen, Gram \<lparr>xg_faddr = src, xg_fport = s16 (hton16 sport), xg_lport = dg_lport d, xg_data = dat\<rparr>,
               do_call (Freebuf p) s)
       }
     }
     else do {
       let datalen = (if datalen > len then len else datalen);
       dat \<leftarrow> get_bytes U_DATA (nat datalen) p;
       Some (datalen, Data dat, do_call (Freebuf p) s)
     }
   }"

definition dgread ::
  "(int \<Rightarrow> int) \<Rightarrow> env \<Rightarrow> (netst \<Rightarrow> packet \<times> netst) \<Rightarrow> int \<Rightarrow> dgblk \<Rightarrow> int \<Rightarrow> netst \<Rightarrow> (int \<times> dgdata \<times> netst) option" where
  "dgread cnt env recv mypid d len s =
     (let nq = nat (dg_netq d);
          (r, s) =
            (if dg_mode d AND DG_TMODE = 0 then (OK, s)
             else if \<not> isbadpid (qpid (netqs (net s) ! nq)) then (SYSERR, s)
             else if cnt (dg_xport d) > 0 then (OK, s)
             else let (r, s) = env 0 (set_netq nq (\<lambda>q. q\<lparr>qpid := mypid\<rparr>) s)
                  in if r = TIMEOUT then (TIMEOUT, set_netq nq (\<lambda>q. q\<lparr>qpid := BADPID\<rparr>) s) else (OK, s))
      in if r \<noteq> OK then Some (r, Nothing, s) else let (p, s) = recv s in dgread_packet d len p s)"

definition put_data :: "int list \<Rightarrow> packet \<Rightarrow> packet option" where
  "put_data dat p = put_bytes U_DATA dat p"

text \<open>The data has at least \<open>len\<close> octets; in data mode the buffer of the caller is the data.\<close>

definition dgwrite ::
  "env \<Rightarrow> bufs \<Rightarrow> int \<Rightarrow> int \<Rightarrow> dgblk \<Rightarrow> packet \<Rightarrow> xgram \<Rightarrow> int \<Rightarrow> netst \<Rightarrow> (int \<times> netst) option" where
  "dgwrite env bufs mypid wres d p buff len s =
     (if len < 0 \<or> len > UMAXLEN then Some (SYSERR, s)
      else if dg_mode d AND DG_NMODE \<noteq> 0
      then do {
        p \<leftarrow> put_data (take (nat len) (xg_data buff)) p;
        if dg_fport d = 0 then udpsend env bufs mypid wres (xg_faddr buff) (xg_fport buff) (dg_lport d) p (nat len) s
        else udpsend env bufs mypid wres (dg_faddr d) (dg_fport d) (dg_lport d) p (nat len) s
      }
      else if dg_fport d = 0 then Some (SYSERR, do_call (Freebuf p) s)
      else do {
        p \<leftarrow> put_data (take (nat len) (xg_data buff)) p;
        udpsend env bufs mypid wres (dg_faddr d) (dg_fport d) (dg_lport d) p (nat len) s
      })"

section \<open>From one host to another\<close>

lemma get16_octets:
  assumes "fld off 2 p = octets16 (hton16 v)" "off + 2 \<le> length p" "0 \<le> v" "v < 65536"
  shows "\<exists>x. get16 off p = Some x \<and> hton16 x = v"
  using assms octets16_hton16 [OF assms(3,4)] by (simp add: get16_def get_fld)

lemma s16_u16: "int16 x \<Longrightarrow> s16 (u16 x) = x"
proof -
  assume x: "int16 x"
  have "(x mod 65536 + 32768) mod 65536 = (x + 32768) mod 65536" by (simp add: mod_simps)
  then have "s16 (u16 x) = s16 x" by (simp add: s16_def u16_def)
  then show ?thesis using x by simp
qed

lemma udp_packet_gets:
  assumes u: "udp_packet src dst sport dport dat p" and n: "length dat < 32000"
  shows "get8 I_PROTO p = Some IPRO_UDP" "get_bytes U_DATA (length dat) p = Some dat"
    "\<exists>x. get16 U_SPORT p = Some x \<and> hton16 x = u16 sport" "\<exists>x. get16 U_DPORT p = Some x \<and> hton16 x = u16 dport"
    "\<exists>x. get16 U_UDPLEN p = Some x \<and> hton16 x = int (UHLEN + length dat)"
proof -
  have l: "42 + length dat \<le> length p" using u by (simp add: udp_packet_def U_DATA_def)
  show "get8 I_PROTO p = Some IPRO_UDP" using u l by (simp add: udp_packet_def get8_def get_fld I_PROTO_def)
  show "get_bytes U_DATA (length dat) p = Some dat" using u l by (simp add: udp_packet_def get_fld U_DATA_def)
  show "\<exists>x. get16 U_SPORT p = Some x \<and> hton16 x = u16 sport"
    by (rule get16_octets) (use u l u16_range [of sport] in \<open>auto simp: udp_packet_def U_SPORT_def\<close>)
  show "\<exists>x. get16 U_DPORT p = Some x \<and> hton16 x = u16 dport"
    by (rule get16_octets) (use u l u16_range [of dport] in \<open>auto simp: udp_packet_def U_DPORT_def\<close>)
  show "\<exists>x. get16 U_UDPLEN p = Some x \<and> hton16 x = int (UHLEN + length dat)"
    by (rule get16_octets) (use u l n in \<open>auto simp: udp_packet_def U_UDPLEN_def UHLEN_def\<close>)
qed

text \<open>A datagram for a queue with room is put into its port.\<close>

lemma netin_udp:
  assumes u: "udp_packet src dst sport dport dat p" "length dat < 32000" and i: "ip_packet src dst paclen p"
    and q: "int16 dport" "netq_of dport 0 (netqs (net s)) = Some k" "cnt (xport (netqs (net s) ! k)) < NETQLEN" and len: "len \<noteq> SYSERR"
  shows "\<exists>s'. netin_packet cnt out p len s = Some s' \<and> Psend (xport (netqs (net s) ! k)) p \<in> set (calls s')"
proof -
  let ?s = "count_packet s"
  have n: "netqs (net ?s) = netqs (net s)" by (simp add: count_packet_def)
  have l: "42 \<le> length p" using u by (simp add: udp_packet_def U_DATA_def)
  obtain t where t: "get16 E_PTYPE p = Some t" "hton16 t = EP_IP"
    using get16_octets [of E_PTYPE p EP_IP] i l by (auto simp: ip_packet_def E_PTYPE_def EP_IP_def)
  obtain d where d: "get16 U_DPORT p = Some d" "hton16 d = u16 dport" using udp_packet_gets(4) [OF u] by blast
  have "ip_in cnt p out NETFQ ?s = Some (udp_in cnt p k ?s)"
    using udp_packet_gets(1) [OF u] d q(1,2) n by (simp add: ip_in_def IPRO_ICMP_def IPRO_UDP_def s16_u16)
  moreover have "Psend (xport (netqs (net s) ! k)) p \<in> set (calls (snd (udp_in cnt p k ?s)))"
    using q(3) n by (simp add: udp_in_def Let_def do_call_def set_netq_def)
  ultimately show ?thesis
    using t len by (simp add: netin_packet_def Let_def EP_ARP_def EP_RARP_def EP_IP_def)
qed

text \<open>A reader in datagram mode gets its data, and where it came from.\<close>

lemma dgread_udp:
  assumes u: "udp_packet src dst sport dport dat p" "length dat < 32000" and i: "ip_packet src dst paclen p"
    and m: "dg_mode d AND DG_NMODE \<noteq> 0" "int16 sport" "int (length dat) + XGHLEN \<le> len"
  shows "dgread_packet d len p s = Some (int (length dat),
    Gram \<lparr>xg_faddr = src, xg_fport = sport, xg_lport = dg_lport d, xg_data = dat\<rparr>, do_call (Freebuf p) s)"
proof -
  have l: "42 \<le> length p" using u by (simp add: udp_packet_def U_DATA_def)
  obtain x where x: "get16 U_UDPLEN p = Some x" "hton16 x = int (UHLEN + length dat)" using udp_packet_gets(5) [OF u] by blast
  obtain y where y: "get16 U_SPORT p = Some y" "hton16 y = u16 sport" using udp_packet_gets(3) [OF u] by blast
  have a: "add16 (int (length dat)) XGHLEN = Some (int (length dat) + XGHLEN)"
    using u(2) by (simp add: XGHLEN_def MININT_def MAXINT_def)
  have "s16 (hton16 x - int UHLEN) = int (length dat)" using u(2) x(2) by (simp add: MININT_def MAXINT_def)
  moreover have "get_bytes I_SRC IPLEN p = Some src" using i l by (simp add: ip_packet_def get_fld I_SRC_def IPLEN_def)
  ultimately show ?thesis
    using x(1) y m a udp_packet_gets(2) [OF u] by (simp add: dgread_packet_def s16_u16)
qed

text \<open>C22: datagrams reach the host and the port they are sent to. What a process writes to a datagram device leaves
  through the Ethernet interface of a neighbour with the checksums of the headers in order; the input process of
  the other host puts it into the port of the device that is bound to the destination, as long as there is room;
  and its reader gets the same data with the address and the port of the sender.\<close>

theorem datagram_delivered:
  assumes nb: "neighbour a (myaddr (net b)) ead dev" and drv: "eth_driver (etpaddr a) drv"
    and dst: "(if dg_fport da = 0 then (xg_faddr buff, xg_fport buff) else (dg_faddr da, dg_fport da)) = (myaddr (net b), port)"
    and mode: "dg_mode da AND DG_NMODE \<noteq> 0" "dg_mode db AND DG_NMODE \<noteq> 0"
    and data: "octet_list (xg_data buff)" "n \<le> length (xg_data buff)" "int n \<le> UMAXLEN" "int n + XGHLEN \<le> len"
    and buf: "length buf = EMAXPAK" "octet_list buf"
    and ports: "int16 port" "int16 (dg_lport da)" "netq_of port 0 (netqs (net b)) = Some k"
      "xport (netqs (net b) ! k) = dg_xport db" "cnt (dg_xport db) < NETQLEN"
  shows "\<exists>a' q b' b''. dgwrite env bufs mypid wres da buf buff (int n) a = Some (wres, a') \<and>
    Write dev q (42 + n) \<in> set (calls a') \<and> fld E_DEST 6 q = ead \<and>
    ip_packet (myaddr (net a)) (myaddr (net b)) (int (28 + n)) q \<and>
    udp_packet (myaddr (net a)) (myaddr (net b)) (dg_lport da) port (take n (xg_data buff)) q \<and>
    netin_packet cnt out (drv q) (int (42 + n)) b = Some b' \<and> Psend (dg_xport db) (drv q) \<in> set (calls b') \<and>
    dgread_packet db len (drv q) b' = Some (int n,
      Gram \<lparr>xg_faddr = myaddr (net a), xg_fport = dg_lport da, xg_lport = dg_lport db, xg_data = take n (xg_data buff)\<rparr>, b'')"
proof -
  let ?dat = "take n (xg_data buff)" and ?src = "myaddr (net a)" and ?dst = "myaddr (net b)"
  have n: "n \<le> 548" using data(3) by (simp add: UMAXLEN_def EMAXPAK_def IPHLEN_def EHLEN_def UHLEN_def)
  have ld: "length ?dat = n" using data(2) by simp
  let ?p = "over U_DATA ?dat buf"
  have p: "put_data ?dat buf = Some ?p" using n ld buf(1) by (simp add: put_data_def put_bytes_over U_DATA_def EMAXPAK_def)
  have od: "octet_list ?dat" using data(1) by (auto simp: octet_list_def dest: in_set_takeD)
  have o: "octet_list ?p" by (rule over_octets [OF buf(2) od])
  have f: "fld U_DATA n ?p = ?dat" using n ld buf(1) by (simp add: fld_over_same U_DATA_def EMAXPAK_def)
  have "odd n \<longrightarrow> n \<le> 547" using n by presburger
  then have lp: "42 + n \<le> length ?p" "odd n \<longrightarrow> 43 + n \<le> length ?p" "n < 60000" using n buf(1) by (simp_all add: EMAXPAK_def)
  obtain a' q where u: "udpsend env bufs mypid wres ?dst port (dg_lport da) ?p n a = Some (wres, a')"
      "calls a' = calls a @ [Wait (nmutex (net a)), Wait (arpsem (arp a)), Signal (arpsem (arp a)), Write dev q (42 + n), Signal (nmutex (net a))]"
      "length q = length ?p" "fld E_DEST 6 q = ead" "ip_packet ?src ?dst (int (28 + n)) q"
      "udp_packet ?src ?dst (dg_lport da) port ?dat q"
    using udpsend_neighbour [OF nb o lp, of env bufs mypid wres port "dg_lport da"] unfolding f by blast
  have wr: "Write dev q (42 + n) \<in> set (calls a')" by (simp add: u(2))
  have w: "dgwrite env bufs mypid wres da buf buff (int n) a = Some (wres, a')"
    using data(3) mode(1) dst p u(1) by (auto simp: dgwrite_def split: if_splits)
  have e: "fld off m (drv q) = fld off m q" if "12 \<le> off" for off m
    using drv u(3) buf(1) that by (simp add: eth_driver_def EMAXPAK_def)
  have el: "length (drv q) = length q" using drv u(3) buf(1) by (simp add: eth_driver_def EMAXPAK_def)
  have r: "ip_packet ?src ?dst (int (28 + n)) (drv q)" "udp_packet ?src ?dst (dg_lport da) port ?dat (drv q)"
    using packet_cong [of "drv q" q, OF e] el u(5,6) by simp_all
  have s: "length ?dat < 32000" "int (42 + n) \<noteq> SYSERR" using n ld by (simp_all add: SYSERR_def)
  have c: "cnt (xport (netqs (net b) ! k)) < NETQLEN" using ports(4,5) by simp
  obtain b' where b': "netin_packet cnt out (drv q) (int (42 + n)) b = Some b'" "Psend (dg_xport db) (drv q) \<in> set (calls b')"
    using netin_udp [OF r(2) s(1) r(1) ports(1,3), where cnt = cnt, OF c s(2)] ports(4) by auto
  have l: "int (length ?dat) + XGHLEN \<le> len" using ld data(4) by simp
  show ?thesis using w wr u(4-6) b' dgread_udp [OF r(2) s(1) r(1) mode(2) ports(2) l, of b'] unfolding ld by blast
qed


definition ex_dg :: "int \<Rightarrow> dgblk" where
  "ex_dg port = \<lparr>dg_dnum = 5, dg_state = DG_USED, dg_lport = port, dg_fport = 0, dg_faddr = [], dg_xport = 4, dg_netq = 0, dg_mode = DG_NMODE\<rparr>"

definition ex_neighbour :: netst where
  "ex_neighbour = learn 1 [192, 168, 1, 7] [2, 0, 0, 0, 0, 7] (ex_host [2, 0, 0, 0, 0, 5] [192, 168, 1, 5])"

lemma ex_neighbour_simps:
  "neighbour ex_neighbour [192, 168, 1, 7] [2, 0, 0, 0, 0, 7] 1" "etpaddr ex_neighbour = [2, 0, 0, 0, 0, 5]"
  "net ex_neighbour = ex_net [192, 168, 1, 5]"
proof -
  let ?a = "ex_host [2, 0, 0, 0, 0, 5] [192, 168, 1, 5]"
  have ok: "arp_ok (arp ?a)" by simp
  note l = learn_resolves [OF ok, where device = 1 and spa = "[192, 168, 1, 7]" and sha = "[2, 0, 0, 0, 0, 7]"]
  have n: "snd (netnum [192, 168, 1, x]) = [192, 168, 1, 0]" for x
    by (simp add: netnum_def IPLEN_def IPATYP_def IPBTYP_def IPCTYP_def Let_def)
  have r: "resolved [192, 168, 1, 7] (arp ?a) = None" by (simp add: resolved_def)
  show "neighbour ex_neighbour [192, 168, 1, 7] [2, 0, 0, 0, 0, 7] 1"
    using l r by (simp add: neighbour_def good_host_def ex_neighbour_def n ex_net_def octet_list_def isLocalMulticast_def)
  show "etpaddr ex_neighbour = [2, 0, 0, 0, 0, 5]" "net ex_neighbour = ex_net [192, 168, 1, 5]"
    using l by (simp_all add: ex_neighbour_def)
qed

theorem datagram_delivered_witness:
  "\<exists>q b' b''. dgread_packet (ex_dg 7) 600 (over E_SRC [2, 0, 0, 0, 0, 5] q) b' =
     Some (3, Gram \<lparr>xg_faddr = [192, 168, 1, 5], xg_fport = 2001, xg_lport = 7, xg_data = [72, 105, 33]\<rparr>, b'')"
proof -
  let ?b = "ex_host [2, 0, 0, 0, 0, 7] [192, 168, 1, 7]"
  let ?g = "\<lparr>xg_faddr = [192, 168, 1, 7], xg_fport = 7, xg_lport = 0, xg_data = [72, 105, 33]\<rparr>"
  have nb: "neighbour ex_neighbour (myaddr (net ?b)) [2, 0, 0, 0, 0, 7] 1" using ex_neighbour_simps by simp
  have drv: "eth_driver (etpaddr ex_neighbour) (over E_SRC [2, 0, 0, 0, 0, 5])"
    using ex_neighbour_simps by (simp add: eth_driver_over)
  have d: "(if dg_fport (ex_dg 2001) = 0 then (xg_faddr ?g, xg_fport ?g) else (dg_faddr (ex_dg 2001), dg_fport (ex_dg 2001))) = (myaddr (net ?b), 7)"
    by (simp add: ex_dg_def)
  have m: "dg_mode (ex_dg 2001) AND DG_NMODE \<noteq> 0" "dg_mode (ex_dg 7) AND DG_NMODE \<noteq> 0" by (simp_all add: ex_dg_def DG_NMODE_def)
  have x: "octet_list (xg_data ?g)" "3 \<le> length (xg_data ?g)" "int 3 \<le> UMAXLEN" "int 3 + XGHLEN \<le> 600"
    by (simp_all add: octet_list_def UMAXLEN_def EMAXPAK_def IPHLEN_def EHLEN_def UHLEN_def XGHLEN_def)
  have bf: "length (replicate 590 0) = EMAXPAK" "octet_list (replicate 590 0)" by (simp_all add: EMAXPAK_def octet_list_def)
  have pt: "int16 7" "int16 (dg_lport (ex_dg 2001))" "netq_of 7 0 (netqs (net ?b)) = Some 0"
    "xport (netqs (net ?b) ! 0) = dg_xport (ex_dg 7)" "0 < NETQLEN"
    by (simp_all add: ex_dg_def ex_net_def NETQLEN_def MININT_def MAXINT_def)
  show ?thesis
    using datagram_delivered [OF nb drv d m x bf pt(1-4), where cnt = "\<lambda>_. 0" and env = "\<lambda>_ s. (0, s)" and bufs = "\<lambda>_. None" and
      mypid = 3 and wres = 1 and out = 6] pt(5) ex_neighbour_simps(3) by (auto simp: ex_dg_def)
qed

end
