(* ===== verification/DgramProps.thy ===== *)
theory DgramProps
  imports Dgram
begin

text \<open>
  The ports of the datagram devices: every port is bound to one queue, a fresh port is found, opening and closing a
  device. The echo of the Internet control messages. What the receiving side does not check.
\<close>

section \<open>Ports\<close>

definition ports_in_use :: "netinfo \<Rightarrow> int set" where
  "ports_in_use N = uport ` {q \<in> set (netqs N). valid q}"

lemma port_in_use_iff: "port_in_use p N \<longleftrightarrow> p \<in> ports_in_use N"
  by (auto simp: port_in_use_def ports_in_use_def)

lemma finite_ports [simp]: "finite (ports_in_use N)"
  by (simp add: ports_in_use_def)

lemma card_ports: "card (ports_in_use N) \<le> length (netqs N)"
proof -
  have "card (ports_in_use N) \<le> card {q \<in> set (netqs N). valid q}" unfolding ports_in_use_def by (rule card_image_le) simp
  also have "\<dots> \<le> card (set (netqs N))" by (rule card_mono) auto
  finally show ?thesis using card_length [of "netqs N"] by simp
qed

lemma udpnxtp_finds:
  assumes "nxtprt N + int (card (ports_in_use N \<inter> {nxtprt N..})) < MAXINT" "MININT \<le> nxtprt N"
  shows "\<exists>p. udpnxtp N = Some (p, N\<lparr>nxtprt := p + 1\<rparr>) \<and> nxtprt N \<le> p \<and>
    p \<le> nxtprt N + int (card (ports_in_use N \<inter> {nxtprt N..})) \<and> p \<notin> ports_in_use N"
  using assms
proof (induction "card (ports_in_use N \<inter> {nxtprt N..})" arbitrary: N rule: less_induct)
  case less
  let ?p = "nxtprt N" and ?U = "\<lambda>N. ports_in_use N \<inter> {nxtprt N..}"
  have a: "add16 ?p 1 = Some (?p + 1)" using less.prems by (simp add: MININT_def MAXINT_def)
  show ?case
  proof (cases "?p \<in> ports_in_use N")
    case False
    then show ?thesis using a by (subst udpnxtp.simps) (auto simp: port_in_use_iff Let_def)
  next
    case True
    let ?N = "N\<lparr>nxtprt := ?p + 1\<rparr>"
    have u: "ports_in_use ?N = ports_in_use N" by (simp add: ports_in_use_def)
    have "?U N = insert ?p (?U ?N)" using True by (auto simp: u)
    moreover have "?p \<notin> ?U ?N" "finite (?U ?N)" by simp_all
    ultimately have c: "card (?U N) = Suc (card (?U ?N))" by simp
    obtain p where "udpnxtp ?N = Some (p, ?N\<lparr>nxtprt := p + 1\<rparr>)" "?p + 1 \<le> p" "p \<le> ?p + 1 + int (card (?U ?N))" "p \<notin> ports_in_use N"
      using less.hyps [of ?N] less.prems c unfolding u by auto
    then show ?thesis using a True c by (subst udpnxtp.simps) (auto simp: port_in_use_iff Let_def)
  qed
qed

text \<open>The search for a free local port ends: after at most one step for every queue it finds a port that no
  queue in use has.\<close>

theorem udpnxtp_returns:
  assumes "nxtprt N + int (length (netqs N)) < MAXINT" "MININT \<le> nxtprt N"
  shows "\<exists>p. udpnxtp N = Some (p, N\<lparr>nxtprt := p + 1\<rparr>) \<and> nxtprt N \<le> p \<and> p \<le> nxtprt N + int (length (netqs N)) \<and> \<not> port_in_use p N"
proof -
  have "card (ports_in_use N \<inter> {nxtprt N..}) \<le> length (netqs N)"
    using card_mono [of "ports_in_use N" "ports_in_use N \<inter> {nxtprt N..}"] card_ports [of N] by simp
  then show ?thesis using udpnxtp_finds [of N] assms by (auto simp: port_in_use_iff)
qed

theorem udpnxtp_returns_witness:
  "\<exists>p. udpnxtp (ex_net [192, 168, 1, 5]) = Some (p, (ex_net [192, 168, 1, 5])\<lparr>nxtprt := p + 1\<rparr>)"
  using udpnxtp_returns [of "ex_net [192, 168, 1, 5]"] by (auto simp: ex_net_def MAXINT_def MININT_def)

text \<open>Every port that is in use has one queue.\<close>

definition ports_unique :: "netinfo \<Rightarrow> bool" where
  "ports_unique N \<longleftrightarrow> distinct (map uport (filter valid (netqs N)))"

lemma nqalloc_scan_eq:
  "nqalloc_scan i qs = (r, k) \<Longrightarrow>
    (if \<forall>q \<in> set qs. valid q then r = None \<and> k = SYSERR
     else \<exists>n. n < length qs \<and> k = int (i + n) \<and> \<not> valid (qs ! n) \<and> r = Some (qs[n := (qs ! n)\<lparr>valid := True, uport := - 1, qpid := BADPID\<rparr>]))"
proof (induction i qs arbitrary: r k rule: nqalloc_scan.induct)
  case (2 i e es)
  show ?case
  proof (cases "valid e")
    case False
    then show ?thesis using "2.prems" by (auto intro!: exI [of _ 0])
  next
    case True
    obtain r' k' where r': "nqalloc_scan (i + 1) es = (r', k')" by (cases "nqalloc_scan (i + 1) es")
    have rk: "r = map_option (Cons e) r'" "k = k'" using "2.prems" True r' by simp_all
    have h: "if \<forall>q \<in> set es. valid q then r' = None \<and> k' = SYSERR
        else \<exists>n. n < length es \<and> k' = int (i + 1 + n) \<and> \<not> valid (es ! n) \<and> r' = Some (es[n := (es ! n)\<lparr>valid := True, uport := - 1, qpid := BADPID\<rparr>])"
      using "2.IH" [OF _ r'] True by blast
    show ?thesis
    proof (cases "\<forall>q \<in> set es. valid q")
      case t: True
      then show ?thesis using h True rk by simp
    next
      case False
      then obtain n where n: "n < length es" "k' = int (i + 1 + n)" "\<not> valid (es ! n)"
          "r' = Some (es[n := (es ! n)\<lparr>valid := True, uport := - 1, qpid := BADPID\<rparr>])"
        using h unfolding if_not_P [OF False] by blast
      have "\<not> (\<forall>q \<in> set (e # es). valid q)" using False by simp
      then show ?thesis using n rk by (simp del: list.set) (rule exI [of _ "Suc n"], simp)
    qed
  qed
qed simp

lemma nqalloc_eq:
  assumes "nqalloc N = (k, N')"
  shows "if \<forall>q \<in> set (netqs N). valid q then k = SYSERR \<and> N' = N
    else \<exists>n. n < length (netqs N) \<and> k = int n \<and> \<not> valid (netqs N ! n) \<and>
      N' = N\<lparr>netqs := (netqs N)[n := (netqs N ! n)\<lparr>valid := True, uport := - 1, qpid := BADPID\<rparr>]\<rparr>"
proof -
  obtain r j where s: "nqalloc_scan 0 (netqs N) = (r, j)" by (cases "nqalloc_scan 0 (netqs N)")
  show ?thesis using nqalloc_scan_eq [OF s] assms s by (auto simp: nqalloc_def split: if_splits)
qed

lemma filter_valid_update:
  "n < length qs \<Longrightarrow> \<not> valid (qs ! n) \<Longrightarrow> valid q \<Longrightarrow>
    \<exists>xs ys. map uport (filter valid qs) = xs @ ys \<and> map uport (filter valid (qs[n := q])) = xs @ uport q # ys"
proof (induction qs arbitrary: n)
  case (Cons a qs)
  show ?case
  proof (cases n)
    case 0
    then show ?thesis using Cons.prems by (auto intro: exI [of _ "[]"])
  next
    case (Suc m)
    then obtain xs ys where "map uport (filter valid qs) = xs @ ys" "map uport (filter valid (qs[m := q])) = xs @ uport q # ys"
      using Cons.IH [of m] Cons.prems by auto
    then show ?thesis using Suc by (intro exI [of _ "if valid a then uport a # xs else xs"] exI [of _ ys]) simp
  qed
qed simp

lemma ports_unique_bind:
  assumes "ports_unique N" "n < length (netqs N)" "\<not> valid (netqs N ! n)" "valid q" "uport q \<notin> ports_in_use N"
  shows "ports_unique (N\<lparr>netqs := (netqs N)[n := q]\<rparr>)"
proof -
  obtain xs ys where e: "map uport (filter valid (netqs N)) = xs @ ys" "map uport (filter valid ((netqs N)[n := q])) = xs @ uport q # ys"
    using filter_valid_update [OF assms(2-4)] by blast
  have "ports_in_use N = set (map uport (filter valid (netqs N)))" by (simp add: ports_in_use_def)
  then have "uport q \<notin> set (xs @ ys)" using assms(5) e(1) by metis
  then show ?thesis using assms(1) e by (simp add: ports_unique_def)
qed


lemma dgalloc_None: "dgalloc i ds = None \<longleftrightarrow> (\<forall>d \<in> set ds. dg_state d \<noteq> DG_FREE)"
  by (induction i ds rule: dgalloc.induct) auto

lemma dgalloc_Some:
  "dgalloc i ds = Some (k, ds') \<Longrightarrow>
    \<exists>n. n < length ds \<and> k = i + n \<and> dg_state (ds ! n) = DG_FREE \<and> ds' = ds[n := (ds ! n)\<lparr>dg_state := DG_USED\<rparr>]"
proof (induction i ds arbitrary: k ds' rule: dgalloc.induct)
  case (2 i d ds)
  show ?case
  proof (cases "dg_state d = DG_FREE")
    case True
    then show ?thesis using "2.prems" by (intro exI [of _ 0]) auto
  next
    case False
    then obtain ds'' where "dgalloc (i + 1) ds = Some (k, ds'')" "ds' = d # ds''" using "2.prems" by auto
    then obtain n where "n < length ds" "k = i + 1 + n" "dg_state (ds ! n) = DG_FREE" "ds'' = ds[n := (ds ! n)\<lparr>dg_state := DG_USED\<rparr>]"
      using "2.IH" [OF False] by blast
    then show ?thesis using \<open>ds' = d # ds''\<close> by (intro exI [of _ "Suc n"]) simp
  qed
qed simp

lemma dgparse_fields:
  "dgparse f d = Some (r, d') \<Longrightarrow> dg_state d' = dg_state d \<and> dg_dnum d' = dg_dnum d"
  by (auto simp: dgparse_def Let_def split: option.splits prod.splits if_splits bind_splits)

lemma dgfree_states:
  "slot < length ds \<Longrightarrow> dg_state (ds ! slot) = DG_FREE \<Longrightarrow>
    map dg_state (dgfree slot (ds[slot := d])) = map dg_state ds"
  by (simp add: dgfree_def map_update) (metis list_update_id map_update nth_map)

text \<open>What an open does to the tables when it succeeds: the slot, the queue, the local port.\<close>

definition opened :: "int \<Rightarrow> dgblk list \<Rightarrow> netinfo \<Rightarrow> int \<Rightarrow> dgblk list \<Rightarrow> netinfo \<Rightarrow> bool" where
  "opened locport ds N r ds' N' \<longleftrightarrow>
     (\<exists>slot k d. slot < length ds \<and> dg_state (ds ! slot) = DG_FREE \<and> k < length (netqs N) \<and> \<not> valid (netqs N ! k) \<and>
       ds' = ds[slot := d] \<and> dg_state d = DG_USED \<and> dg_dnum d = r \<and> dg_dnum (ds ! slot) = r \<and> dg_netq d = int k \<and>
       dg_xport d = xport (netqs N ! k) \<and> dg_mode d = DG_NMODE \<and> dg_lport d \<notin> ports_in_use N \<and>
       (locport \<noteq> ANYLPORT \<longrightarrow> dg_lport d = locport) \<and>
       netqs N' = (netqs N)[k := (netqs N ! k)\<lparr>valid := True, qpid := BADPID, uport := dg_lport d\<rparr>])"

definition refused :: "string option \<Rightarrow> int \<Rightarrow> dgblk list \<Rightarrow> netinfo \<Rightarrow> int \<Rightarrow> dgblk list \<Rightarrow> netinfo \<Rightarrow> bool" where
  "refused forport locport ds N r ds' N' \<longleftrightarrow> r = SYSERR \<and> netqs N' = netqs N \<and> map dg_state ds' = map dg_state ds \<and>
     ((\<forall>d \<in> set ds. dg_state d \<noteq> DG_FREE) \<or> locport \<noteq> ANYLPORT \<and> port_in_use locport N \<or>
      (\<exists>d d'. dgparse forport d = Some (SYSERR, d')) \<or> (\<forall>q \<in> set (netqs N). valid q))"

lemma dgm_bind_opened:
  assumes N: "ports_unique N" "netqs N1 = netqs N" and slot: "slot < length ds" "dg_state (ds ! slot) = DG_FREE"
    and d: "dg_state d = DG_USED" "dg_dnum d = dg_dnum (ds ! slot)" and p: "lport \<notin> ports_in_use N" "locport \<noteq> ANYLPORT \<longrightarrow> lport = locport"
    and k: "k < length (netqs N)" "\<not> valid (netqs N ! k)"
    and N2: "N2 = N1\<lparr>netqs := (netqs N1)[k := (netqs N1 ! k)\<lparr>valid := True, uport := - 1, qpid := BADPID\<rparr>]\<rparr>"
    and b: "dgm_bind slot k lport (ds[slot := d]) N2 = (r, ds', N')"
  shows "opened locport ds N r ds' N' \<and> ports_unique N'"
proof -
  let ?q = "(netqs N ! k)\<lparr>valid := True, qpid := BADPID, uport := lport\<rparr>"
  let ?d = "d\<lparr>dg_lport := lport, dg_xport := xport (netqs N ! k), dg_netq := int k, dg_mode := DG_NMODE\<rparr>"
  have e: "r = dg_dnum d" "ds' = ds[slot := ?d]" "netqs N' = (netqs N)[k := ?q]"
    using b slot(1) k(1) N(2) unfolding N2 dgm_bind_def by (auto simp: Let_def)
  have "ports_unique (N\<lparr>netqs := (netqs N)[k := ?q]\<rparr>)" by (rule ports_unique_bind [OF N(1) k]) (use p(1) in simp_all)
  then have "ports_unique N'" using e(3) by (simp add: ports_unique_def)
  moreover have "opened locport ds N r ds' N'"
    unfolding opened_def using slot k d p e by (intro exI [of _ slot] exI [of _ k] exI [of _ ?d]) simp
  ultimately show ?thesis by simp
qed

text \<open>C24: a port is bound to one queue: \<open>dgmopen\<close> gives a free device a queue that was not in use and a local port no
  other queue has, the one that was asked for or a fresh one; where there is no device, no queue, the port is in use or the
  foreign address is not well formed, nothing stays allocated.\<close>

theorem dgmopen_binds:
  assumes N: "ports_unique N" "nxtprt N + int (length (netqs N)) < MAXINT" "MININT \<le> nxtprt N"
    and spec: "\<forall>d. dgparse forport d \<noteq> None"
  shows "\<exists>r ds' N'. dgmopen forport locport ds N = Some (r, ds', N') \<and> ports_unique N' \<and>
    (opened locport ds N r ds' N' \<or> refused forport locport ds N r ds' N')"
proof (cases "dgalloc 0 ds")
  case None
  then have "dgmopen forport locport ds N = Some (SYSERR, ds, N)" by (simp add: dgmopen_def)
  moreover have "\<forall>d \<in> set ds. dg_state d \<noteq> DG_FREE" using None dgalloc_None [of 0 ds] by blast
  ultimately show ?thesis using N(1) by (simp add: refused_def)
next
  case (Some sd)
  then obtain slot ds1 where s: "dgalloc 0 ds = Some (slot, ds1)" by (cases sd) auto
  then have slot: "slot < length ds" "dg_state (ds ! slot) = DG_FREE" "ds1 = ds[slot := (ds ! slot)\<lparr>dg_state := DG_USED\<rparr>]"
    using dgalloc_Some [OF s] by auto
  let ?d0 = "(ds ! slot)\<lparr>dg_state := DG_USED\<rparr>"
  obtain lport N1 where l: "(if locport = ANYLPORT then udpnxtp N else Some (locport, N)) = Some (lport, N1)" "netqs N1 = netqs N"
      "locport \<noteq> ANYLPORT \<longrightarrow> lport = locport \<and> N1 = N" "locport = ANYLPORT \<longrightarrow> lport \<notin> ports_in_use N"
  proof (cases "locport = ANYLPORT")
    case True
    have "nxtprt N + int (card (ports_in_use N \<inter> {nxtprt N..})) < MAXINT"
      using card_mono [of "ports_in_use N" "ports_in_use N \<inter> {nxtprt N..}"] card_ports [of N] N(2) by simp
    then obtain p where "udpnxtp N = Some (p, N\<lparr>nxtprt := p + 1\<rparr>)" "p \<notin> ports_in_use N" using udpnxtp_finds [OF _ N(3)] by blast
    then show ?thesis using that [of p "N\<lparr>nxtprt := p + 1\<rparr>"] True by simp
  qed (use that [of locport N] in simp)
  have pu: "ports_unique N1" "ports_in_use N1 = ports_in_use N" using N(1) l(2) by (simp_all add: ports_unique_def ports_in_use_def)
  have m: "dgmopen forport locport ds N =
      (if locport \<noteq> ANYLPORT \<and> port_in_use locport N1 then Some (SYSERR, dgfree slot ds1, N1)
       else do {
         (r, d) \<leftarrow> dgparse forport (ds1 ! slot);
         let ds = ds1[slot := d];
         if r = SYSERR then Some (SYSERR, dgfree slot ds, N1)
         else (let (nq, N) = nqalloc N1
               in Some (if nq = SYSERR then (SYSERR, dgfree slot ds, N) else dgm_bind slot (nat nq) lport ds N))
       })" by (simp add: dgmopen_def s l(1))
  show ?thesis
  proof (cases "locport \<noteq> ANYLPORT \<and> port_in_use locport N1")
    case True
    then show ?thesis using m l(2,3) pu slot dgfree_states [OF slot(1,2)] by (auto simp: refused_def)
  next
    case False
    then have fresh: "lport \<notin> ports_in_use N" using l(3,4) pu(2) by (auto simp: port_in_use_iff)
    obtain r d where p: "dgparse forport ?d0 = Some (r, d)" using spec by fastforce
    have d: "dg_state d = DG_USED" "dg_dnum d = dg_dnum (ds ! slot)" using dgparse_fields [OF p] by simp_all
    have p1: "dgparse forport (ds1 ! slot) = Some (r, d)" "ds1[slot := d] = ds[slot := d]" using p slot by simp_all
    obtain nq N2 where nq: "nqalloc N1 = (nq, N2)" by (cases "nqalloc N1")
    note q = nqalloc_eq [OF nq]
    show ?thesis
    proof (cases "r = SYSERR \<or> (\<forall>q \<in> set (netqs N1). valid q)")
      case True
      then have "dgmopen forport locport ds N = Some (SYSERR, dgfree slot (ds[slot := d]), N1)"
        using m False p1 nq q by (auto simp: Let_def split: if_splits)
      then show ?thesis using True p l(2) pu(1) dgfree_states [OF slot(1,2)] by (auto simp: refused_def)
    next
      case f: False
      then obtain k where k: "k < length (netqs N)" "nq = int k" "\<not> valid (netqs N ! k)"
          "N2 = N1\<lparr>netqs := (netqs N1)[k := (netqs N1 ! k)\<lparr>valid := True, uport := - 1, qpid := BADPID\<rparr>]\<rparr>"
        using q l(2) by (auto split: if_splits)
      obtain r' ds' N' where b: "dgm_bind slot k lport (ds[slot := d]) N2 = (r', ds', N')" by (metis prod_cases3)
      have "dgmopen forport locport ds N = Some (r', ds', N')"
        using m False f p1 nq k(2) b by (simp add: SYSERR_def)
      then show ?thesis
        using dgm_bind_opened [OF N(1) l(2) slot(1,2) d fresh _ k(1,3,4) b, of locport] l(3) by auto
    qed
  qed
qed

theorem dgmopen_binds_witness:
  "\<exists>r ds' N'. dgmopen None 9 [(ex_dg 0)\<lparr>dg_state := DG_FREE\<rparr>] (ex_net [192, 168, 1, 5]) = Some (r, ds', N') \<and> ports_unique N'"
proof -
  have "ports_unique (ex_net [192, 168, 1, 5])" by (simp add: ports_unique_def ex_net_def)
  moreover have "nxtprt (ex_net [192, 168, 1, 5]) + int (length (netqs (ex_net [192, 168, 1, 5]))) < MAXINT"
      "MININT \<le> nxtprt (ex_net [192, 168, 1, 5])" by (simp_all add: ex_net_def MAXINT_def MININT_def)
  moreover have "\<forall>d. dgparse None d \<noteq> None" by (simp add: dgparse_def)
  ultimately show ?thesis using dgmopen_binds by blast
qed

end
