(* ===== verification/Echo.thy ===== *)
theory Echo
  imports Dgram
begin

text \<open>
  The echo of the Internet control messages (\<open>ping\<close>): the input process makes the answer in the buffer of the request
  (\<open>icmp_in.c\<close>), and the output process sends it (\<open>netout.c\<close>, \<open>ipsend.c\<close>, \<open>route.c\<close>). What the code does not check of
  the packets it receives.
\<close>

section \<open>Odd lengths\<close>

lemma sum_octets_pad:
  "odd (length bs) \<Longrightarrow> pos + length bs \<le> skip \<Longrightarrow> pos + length bs \<le> skip' \<Longrightarrow>
    sum_octets skip' pos c (bs @ [0]) = sum_octets skip pos c bs"
  by (induction skip pos c bs rule: sum_octets.induct) auto

lemma checksum_pad: "odd (length bs) \<Longrightarrow> net_calc_checksum c (bs @ [0]) (length bs + 1) = net_calc_checksum c bs (length bs)"
  using sum_octets_pad [of bs 0 "length bs" "length bs + 1" c] by (cases bs) (simp_all add: net_calc_checksum_def)

lemma fld_snoc: "off + m < length p \<Longrightarrow> fld off (Suc m) p = fld off m p @ [p ! (off + m)]"
  by (simp add: fld_def take_Suc_conv_app_nth)

section \<open>Echo\<close>

text \<open>A message of the type with the octets \<open>rest\<close> behind its checksum, in a buffer with room for an octet behind it.\<close>

definition icmp_packet :: "int \<Rightarrow> int \<Rightarrow> int list \<Rightarrow> packet \<Rightarrow> bool" where
  "icmp_packet typ code rest p \<longleftrightarrow> I_DATA + 5 + length rest \<le> length p \<and> fld I_PROTO 1 p = [IPRO_ICMP] \<and>
     fld IC_TYP 1 p = [typ] \<and> fld (IC_TYP + 1) 1 p = [code] \<and> fld (I_DATA + 4) (length rest) p = rest"

lemma icmp_reply_fields:
  assumes p: "octet_list p" "icmp_packet typ code rest p" "ip_packet src dst (int (24 + length rest)) p" and n: "length rest < 32000"
  shows "\<exists>q. icmp_reply p = Some q \<and> octet_list q \<and> length q = length p \<and> icmp_packet ICRPECH code rest q \<and> fld I_DEST 4 q = src \<and>
    fld I_PACLEN 2 q = octets16 (hton16 (int (24 + length rest))) \<and>
    net_calc_checksum 0 (fld I_DATA (4 + length rest) q) (4 + length rest) = 65535"
proof -
  let ?m = "4 + length rest"
  define P where "P = over 30 src (over 34 [u8 ICRPECH] p)"
  define R where "R = (if odd ?m then over (34 + ?m) [u8 0] P else P)"
  define k where "k = (if odd ?m then ?m + 1 else ?m)"
  define ck where "ck = u16 (- 1 - net_calc_checksum 0 (fld 34 k R) 2)"
  define Q where "Q = over 36 (octets16 (hton16 ck)) R"
  have l: "length P = length p" "length R = length p" "length Q = length p" by (simp_all add: P_def R_def Q_def)
  have lp: "39 + length rest \<le> length p" using p(2) by (simp add: icmp_packet_def I_DATA_def)
  have src: "fld 26 4 p = src" using p(3) by (simp add: ip_packet_def field_offsets)
  then have ls: "length src = 4" using lp length_fld [of 26 4 p] by simp
  have os: "octet_list src" unfolding src [symmetric] by (rule octet_list_fld [OF p(1)])
  have "octet_list P" unfolding P_def by (intro over_octets os octet_list_u8 p(1))
  then have o: "octet_list R" "octet_list Q" unfolding R_def Q_def by (auto intro: over_octets octet_list_octets16 octet_list_u8)
  obtain x where x: "get16 I_PACLEN P = Some x" "hton16 x = int (24 + length rest)"
    using get16_octets [of I_PACLEN P "int (24 + length rest)"] p(3) lp l(1) n ls
    by (auto simp: P_def ip_packet_def field_offsets fld_over_other)
  have len: "s16 (hton16 x - int IPHLEN) = int ?m" using x(2) n by (simp add: IPHLEN_def MININT_def MAXINT_def)
  have k_odd: "nat (u16 (int ?m + 1)) = k" if "odd (length rest)" using n that by (simp add: k_def nat_add_distrib)
  have k_even: "nat (u16 (int ?m)) = k" if "even (length rest)" using n that by (simp add: k_def nat_add_distrib)
  have kl: "34 + k \<le> length p" "even k" "4 \<le> k" using lp by (auto simp: k_def)
  have pad: "put8 (nat (int I_DATA + int ?m)) 0 P = Some R" if "odd (length rest)"
    using that lp l(1) put8_over [of "34 + ?m" P 0] by (auto simp: R_def I_DATA_def nat_add_distrib)
  have "get_bytes I_DATA k R = Some (fld 34 k R)" using kl l by (simp add: I_DATA_def get_fld)
  moreover have "put16 IC_CKSUM (hton16 ck) R = Some Q" using lp l by (simp add: put16_over IC_CKSUM_def Q_def)
  moreover have "put8 IC_TYP ICRPECH p \<bind> (\<lambda>p. copy_bytes I_DEST I_SRC IPLEN p \<bind> f) = f P" for f :: "packet \<Rightarrow> packet option"
    using lp src ls by (simp add: put8_over copy_bytes_def flds field_offsets IPLEN_def P_def)
  ultimately have w: "icmp_reply p = (do {
       p \<leftarrow> (if odd (length rest) then (if int ?m < - int I_DATA then None else put8 (nat (int I_DATA + int ?m)) 0 P) else Some P);
       dat \<leftarrow> get_bytes I_DATA (nat (u16 (if odd (length rest) then int ?m + 1 else int ?m))) p;
       put16 IC_CKSUM (hton16 (u16 (- 1 - net_calc_checksum 0 dat 2))) p
     })" "get_bytes I_DATA k R = Some (fld 34 k R)" "put16 IC_CKSUM (hton16 ck) R = Some Q"
    using x(1) by (simp_all add: icmp_reply_def len ICCKOFF_def Let_def del: of_nat_add)
  have q: "icmp_reply p = Some Q"
  proof (cases "odd (length rest)")
    case True
    then show ?thesis unfolding w(1) using pad k_odd w(2,3) by (simp add: ck_def del: of_nat_add)
  next
    case False
    then have "R = P" by (simp add: R_def)
    then show ?thesis unfolding w(1) using False k_even w(2,3) by (simp add: ck_def del: of_nat_add)
  qed
  have f: "fld o' m Q = fld o' m P" if "o' + m \<le> 36 \<or> 38 \<le> o' \<and> o' + m \<le> 34 + ?m" for o' m
    using that unfolding Q_def R_def by (auto simp: fld_over_other)
  have c: "net_calc_checksum 0 (fld 34 k Q) k = 65535"
    using checksum_over [OF o(1), of 34 k 2 0] kl l unfolding Q_def ck_def by simp
  have "net_calc_checksum 0 (fld I_DATA ?m Q) ?m = 65535"
  proof (cases "odd ?m")
    case True
    then have "fld (34 + ?m) 1 R = [0]" using lp l by (simp add: R_def fld_over_same u8_def)
    then have "fld (34 + ?m) 1 Q = [0]" unfolding Q_def by (simp add: fld_over_other)
    then have "fld 34 k Q = fld 34 ?m Q @ [0]"
      using True fld_snoc [of 34 ?m Q] fld_snoc [of "34 + ?m" 0 Q] lp l by (simp add: k_def fld_def)
    then show ?thesis using c True checksum_pad [of "fld 34 ?m Q" 0] lp l by (simp add: k_def I_DATA_def)
  qed (use c in \<open>simp add: k_def I_DATA_def\<close>)
  moreover have "icmp_packet ICRPECH code rest Q"
    using p(2) lp l ls by (simp add: icmp_packet_def field_offsets f P_def flds u8_def ICRPECH_def)
  moreover have "fld I_DEST 4 Q = src" using lp ls by (simp add: field_offsets f P_def flds)
  moreover have "fld I_PACLEN 2 Q = octets16 (hton16 (int (24 + length rest)))"
    using p(3) ls by (simp add: ip_packet_def field_offsets f P_def flds)
  ultimately show ?thesis using q o(2) l(3) by blast
qed

lemma icmp_packet_cong:
  assumes "\<And>off n. 12 \<le> off \<Longrightarrow> fld off n q = fld off n p" "length q = length p"
  shows "icmp_packet typ code rest q = icmp_packet typ code rest p"
  using assms by (simp add: icmp_packet_def field_offsets)

text \<open>The input process puts the answer into the port of the output process.\<close>

lemma netin_echo:
  assumes p: "octet_list p" "icmp_packet ICRQECH code rest p" "ip_packet src dst (int (24 + length rest)) p" and n: "length rest < 32000"
    and s: "mavalid (net s)" "cnt out < NETFQ" and len: "len \<noteq> SYSERR"
  shows "\<exists>q. netin_packet cnt out p len s = Some (do_call (Psend out q) (count_packet s)) \<and> octet_list q \<and> length q = length p \<and>
    icmp_packet ICRPECH code rest q \<and> fld I_DEST 4 q = src \<and> fld I_PACLEN 2 q = octets16 (hton16 (int (24 + length rest))) \<and>
    net_calc_checksum 0 (fld I_DATA (4 + length rest) q) (4 + length rest) = 65535"
proof -
  have lp: "39 + length rest \<le> length p" using p(2) by (simp add: icmp_packet_def I_DATA_def)
  obtain q where q: "icmp_reply p = Some q" "octet_list q" "length q = length p" "icmp_packet ICRPECH code rest q" "fld I_DEST 4 q = src"
      "fld I_PACLEN 2 q = octets16 (hton16 (int (24 + length rest)))"
      "net_calc_checksum 0 (fld I_DATA (4 + length rest) q) (4 + length rest) = 65535"
    using icmp_reply_fields [OF p n] by blast
  obtain t where t: "get16 E_PTYPE p = Some t" "hton16 t = EP_IP"
    using get16_octets [of E_PTYPE p EP_IP] p(3) lp by (auto simp: ip_packet_def E_PTYPE_def EP_IP_def)
  have "get8 I_PROTO p = Some IPRO_ICMP" "get8 IC_TYP p = Some ICRQECH"
    using p(2) lp by (simp_all add: icmp_packet_def get8_def get_fld field_offsets)
  then have "ip_in cnt p out NETFQ (count_packet s) = Some (OK, do_call (Psend out q) (count_packet s))"
    using q(1) s by (simp add: ip_in_def icmp_in_def count_packet_def)
  then show ?thesis using t len q by (intro exI [of _ q]) (simp add: netin_packet_def Let_def EP_ARP_def EP_RARP_def EP_IP_def)
qed

text \<open>The output process sends it to the host its destination names.\<close>

lemma netout_echo:
  assumes p: "octet_list p" "icmp_packet typ code rest p" "fld I_DEST 4 p = dst" "fld I_PACLEN 2 p = octets16 (hton16 (int (24 + length rest)))"
    and n: "length rest < 32000" and nb: "neighbour s dst ead dev"
  shows "\<exists>s' q. netout_packet env bufs mypid wres p s = Some s' \<and>
    Write dev q (38 + length rest) \<in> set (calls s') \<and>
    fld E_DEST 6 q = ead \<and> ip_packet (myaddr (net s)) dst (int (24 + length rest)) q \<and> icmp_packet typ code rest q \<and>
    fld I_DATA (4 + length rest) q = fld I_DATA (4 + length rest) p"
proof -
  let ?me = "myaddr (net s)" and ?n = "int (4 + length rest)"
  have lp: "39 + length rest \<le> length p" using p(2) by (simp add: icmp_packet_def I_DATA_def)
  have h: "length ?me = 4" "octet_list ?me" "length dst = 4" "octet_list dst" "mavalid (net s)" "length ead = 6" "octet_list ead"
    using nb by (simp_all add: neighbour_def good_host_def)
  obtain x where x: "get16 I_PACLEN p = Some x" "hton16 x = int (24 + length rest)"
    using get16_octets [OF p(4)] lp n by (auto simp: I_PACLEN_def)
  have l1: "34 \<le> length p" using lp by simp
  obtain q2 where q2: "ip_header ?me (ipackid s) dst ?n p = Some q2" "length q2 = length p" "octet_list q2"
      "ip_packet ?me dst (u16 (?n + 20)) q2" "fld I_PROTO 1 q2 = fld I_PROTO 1 p" "\<forall>off n. 34 \<le> off \<longrightarrow> fld off n q2 = fld off n p"
    using ip_header_fields [OF l1 p(1) h(1-4), of "ipackid s" ?n] by blast
  let ?s = "s\<lparr>ipackid := s16 (ipackid s + 1)\<rparr>" and ?q = "over E_DEST ead q2"
  have "neighbour ?s dst ead dev" using nb by (simp add: neighbour_def good_host_def)
  then obtain s' where s': "route env bufs mypid wres dst q2 (38 + length rest) ?s = Some (wres, s')"
      "calls s' = calls s @ [Wait (nmutex (net s)), Wait (arpsem (arp s)), Signal (arpsem (arp s)), Write dev ?q (38 + length rest), Signal (nmutex (net s))]"
    using route_neighbour [of ?s dst ead dev q2 env bufs mypid wres "38 + length rest"] q2(2) l1 by auto
  have f: "fld o' m ?q = fld o' m q2" if "12 \<le> o'" for o' m using that h(6) by (intro fld_over_other) (simp add: E_DEST_def)
  have tot: "EHLEN + IPHLEN + nat (4 + int (length rest)) = 38 + length rest" by (simp add: EHLEN_def IPHLEN_def nat_add_distrib)
  have len: "s16 (hton16 x - int IPHLEN) = 4 + int (length rest)" using x(2) n by (simp add: IPHLEN_def MININT_def MAXINT_def)
  have "get8 I_PROTO p = Some IPRO_ICMP" "get_bytes I_DEST IPLEN p = Some dst"
    using p(2,3) lp by (simp_all add: icmp_packet_def get8_def get_fld field_offsets IPLEN_def)
  then have "netout_packet env bufs mypid wres p s = Some s'"
    using x(1) len q2(1) s'(1) h(5) by (simp add: netout_packet_def ipsend_def getaddr_def tot)
  moreover have "ip_packet ?me dst (int (24 + length rest)) ?q"
    using q2(4) packet_cong(1) [OF f] n by simp
  moreover have "icmp_packet typ code rest q2" using p(2) q2(2,5,6) by (simp add: icmp_packet_def I_DATA_def IC_TYP_def)
  then have "icmp_packet typ code rest ?q" using icmp_packet_cong [of ?q q2, OF f] by simp
  moreover have "fld E_DEST 6 ?q = ead" using h(6) l1 q2(2) by (simp add: E_DEST_def fld_over_same)
  moreover have "fld I_DATA (4 + length rest) ?q = fld I_DATA (4 + length rest) p" using f q2(6) by (simp add: I_DATA_def)
  ultimately show ?thesis using s'(2) by auto
qed

text \<open>C25: a host answers to a ping: an echo request that the input process receives comes back to the host it came from,
  with the same identifier, number and data and with the checksums of both headers in order, as long as the queue to the
  output process has room.\<close>

theorem ping_answered:
  assumes p: "octet_list p" "icmp_packet ICRQECH code rest p" "ip_packet src dst (int (24 + length rest)) p" "length rest < 32000"
    and nb: "neighbour s src ead dev" and cnt: "cnt out < NETFQ" and len: "len \<noteq> SYSERR"
  shows "\<exists>q s' s'' r. netin_packet cnt out p len s = Some s' \<and> calls s' = calls s @ [Psend out q] \<and>
    netout_packet env bufs mypid wres q s' = Some s'' \<and> Write dev r (38 + length rest) \<in> set (calls s'') \<and> fld E_DEST 6 r = ead \<and>
    ip_packet (myaddr (net s)) src (int (24 + length rest)) r \<and> icmp_packet ICRPECH code rest r \<and>
    net_calc_checksum 0 (fld I_DATA (4 + length rest) r) (4 + length rest) = 65535"
proof -
  have "mavalid (net s)" using nb by (simp add: neighbour_def good_host_def)
  then obtain q where q: "netin_packet cnt out p len s = Some (do_call (Psend out q) (count_packet s))" "octet_list q"
      "icmp_packet ICRPECH code rest q" "fld I_DEST 4 q = src" "fld I_PACLEN 2 q = octets16 (hton16 (int (24 + length rest)))"
      "net_calc_checksum 0 (fld I_DATA (4 + length rest) q) (4 + length rest) = 65535"
    using netin_echo [of p code rest src dst s cnt out len] p cnt len by blast
  let ?s = "do_call (Psend out q) (count_packet s)"
  have nb': "neighbour ?s src ead dev" "myaddr (net ?s) = myaddr (net s)" "calls ?s = calls s @ [Psend out q]"
    using nb by (simp_all add: neighbour_def good_host_def do_call_def count_packet_def)
  obtain s2 r where r: "netout_packet env bufs mypid wres q ?s = Some s2" "Write dev r (38 + length rest) \<in> set (calls s2)"
      "fld E_DEST 6 r = ead" "ip_packet (myaddr (net s)) src (int (24 + length rest)) r" "icmp_packet ICRPECH code rest r"
      "fld I_DATA (4 + length rest) r = fld I_DATA (4 + length rest) q"
    using netout_echo [OF q(2-5) p(4) nb'(1), of env bufs mypid wres] unfolding nb'(2) by blast
  show ?thesis using q(1,6) nb'(3) r by metis
qed

definition ex_ping :: packet where
  "ex_ping = [2, 0, 0, 0, 0, 5, 2, 0, 0, 0, 0, 7, 8, 0, 69, 0, 0, 31, 0, 1, 0, 0, 64, 1, 247, 128, 192, 168, 1, 7, 192, 168, 1, 5,
     8, 0, 0, 0, 0, 9, 0, 1, 72, 105, 33] @ replicate 545 0"

theorem ping_answered_witness:
  "\<exists>q s' s'' r. netin_packet (\<lambda>_. 0) 6 ex_ping 60 ex_neighbour = Some s' \<and>
     netout_packet (\<lambda>k s. (TIMEOUT, s)) (\<lambda>_. None) 3 1 q s' = Some s'' \<and> Write 1 r 45 \<in> set (calls s'') \<and>
     icmp_packet ICRPECH 0 [0, 9, 0, 1, 72, 105, 33] r"
proof -
  have o: "octet_list ex_ping" by (simp add: ex_ping_def octet_list_def)
  have l: "length ex_ping = 590" by (simp add: ex_ping_def)
  have i: "icmp_packet ICRQECH 0 [0, 9, 0, 1, 72, 105, 33] ex_ping"
    by (simp add: icmp_packet_def ex_ping_def fld_def field_offsets ICRQECH_def IPRO_ICMP_def)
  have p: "ip_packet [192, 168, 1, 7] [192, 168, 1, 5] (int (24 + length [0, 9, 0, 1, 72, 105, 33 :: int])) ex_ping"
    by (simp add: ip_packet_def ex_ping_def fld_def field_offsets net_calc_checksum_def add_carry_def octets16_def hton16_def EP_IP_def u16_def)
  show ?thesis
    using ping_answered [OF o i p _ ex_neighbour_simps(1), of "\<lambda>_. 0" 6 60 "\<lambda>k s. (TIMEOUT, s)" "\<lambda>_. None" 3 1]
    by (auto simp: NETFQ_def SYSERR_def)
qed

section \<open>What is not checked\<close>

text \<open>A closed queue has the port -1, and \<open>ip_in\<close> does not ask whether a queue is in use: a datagram for port 65535 goes
  into the port of a closed queue, which nobody reads.\<close>

lemma closed_queue_receives: "netq_of (s16 65535) 0 (netqs (ex_net addr)) = Some 1 \<and> \<not> valid (netqs (ex_net addr) ! 1)"
  by (simp add: ex_net_def s16_def)

text \<open>The length in the header of a packet is not compared with its size: the checksum of the answer reads behind the buffer,
  and so does a reader of a datagram.\<close>

lemma icmp_length_unchecked: "icmp_in (\<lambda>_. 0) (ex_ping[16 := 7, 17 := 208]) 6 NETFQ ex_neighbour = None"
proof -
  have "mavalid (net ex_neighbour)" by (simp add: ex_neighbour_simps(3) ex_net_def)
  then show ?thesis
    by (simp add: icmp_in_def ex_ping_def icmp_reply_def get8_def put8_def get16_def put_bytes_def get_bytes_def copy_bytes_def
      field_offsets ICRQECH_def IPLEN_def int_of_octets_def hton16_def s16_def u16_def)
qed

lemma datagram_length_unchecked:
  "dgread_packet ((ex_dg 7)\<lparr>dg_mode := DG_DMODE\<rparr>) 2000 (ex_ping[38 := 7, 39 := 208]) s = None"
  by (simp add: dgread_packet_def ex_dg_def ex_ping_def get16_def get_bytes_def field_offsets int_of_octets_def hton16_def s16_def
    DG_NMODE_def DG_DMODE_def)

end
