(* ===== verification/NetTypes.thy ===== *)
theory NetTypes
  imports Echo
begin

text \<open>
  The types of the network: every packet is a buffer full of octets, every address has its length, the table of
  Ethernet addresses its bounds, and the counters are integers of 16 bits. The input process keeps them, whatever it
  receives, and gets stuck only on an echo request that lies about its length.
\<close>

definition octets_of :: "nat \<Rightarrow> int list \<Rightarrow> bool" where
  "octets_of n bs \<longleftrightarrow> length bs = n \<and> octet_list bs"

abbreviation packet_typed :: "packet \<Rightarrow> bool" where
  "packet_typed \<equiv> octets_of EMAXPAK"

fun call_typed :: "netcall \<Rightarrow> bool" where
  "call_typed (Freebuf p) = packet_typed p"
| "call_typed (Psend k p) = packet_typed p"
| "call_typed (Write d p n) = (packet_typed p \<and> n \<le> EMAXPAK)"
| "call_typed c = True"

definition arp_typed :: "arpblk \<Rightarrow> bool" where
  "arp_typed A \<longleftrightarrow> arp_ok A \<and> (\<forall>i. 0 \<le> i \<and> i < AR_TAB \<longrightarrow> octets_of EPADLEN (arp_Ead (arptab A i)))"

definition net_typed :: "netst \<Rightarrow> bool" where
  "net_typed s \<longleftrightarrow> arp_typed (arp s) \<and> octets_of EPADLEN (etpaddr s) \<and> octets_of IPLEN (myaddr (net s)) \<and> octets_of IPLEN (mynet (net s)) \<and>
     octets_of IPLEN (gateway (net s)) \<and> int16 (npacket (net s)) \<and> int16 (ndrop (net s)) \<and> int16 (nover (net s)) \<and>
     list_all call_typed (calls s)"

named_theorems typed

lemma get_bytes_typed: "get_bytes off n p = Some bs \<Longrightarrow> packet_typed p \<Longrightarrow> octets_of n bs"
  by (auto simp: get_bytes_def octets_of_def octet_list_def split: if_splits dest: in_set_takeD in_set_dropD)

lemma put_bytes_typed:
  assumes "put_bytes off bs p = Some q" "packet_typed p" "octet_list bs"
  shows "packet_typed q"
proof -
  have "off + length bs \<le> length p" using assms(1) by (simp add: put_bytes_def split: if_splits)
  then have "q = over off bs p" using assms(1) put_bytes_over by simp
  then show ?thesis using assms(2,3) over_octets [of p bs off] by (simp add: octets_of_def)
qed

lemma put_fields_typed:
  "put8 off v p = Some q \<Longrightarrow> packet_typed p \<Longrightarrow> packet_typed q"
  "put16 off v p = Some q \<Longrightarrow> packet_typed p \<Longrightarrow> packet_typed q"
  by (auto simp: put8_def put16_def intro: put_bytes_typed)

lemma copy_bytes_typed:
  assumes "copy_bytes to from n p = Some q" "packet_typed p"
  shows "packet_typed q"
proof -
  obtain bs where "get_bytes from n p = Some bs" "put_bytes to bs p = Some q"
    using assms(1) by (auto simp: copy_bytes_def split: bind_splits)
  moreover from get_bytes_typed [OF this(1) assms(2)] have "octet_list bs" by (simp add: octets_of_def)
  ultimately show ?thesis using put_bytes_typed assms(2) by blast
qed

lemma netnum_typed: "octets_of IPLEN a \<Longrightarrow> octets_of IPLEN (snd (netnum a))"
  by (simp add: netnum_def Let_def octets_of_def octet_list_update)

lemma do_call_typed [typed]: "net_typed (do_call c s) \<longleftrightarrow> net_typed s \<and> call_typed c"
  by (auto simp: net_typed_def do_call_def)

lemma count_typed: "net_typed s \<Longrightarrow> net_typed (count_drop s)" "net_typed s \<Longrightarrow> net_typed (count_over s)"
    "net_typed s \<Longrightarrow> net_typed (count_packet s)"
  using s16_range by (simp_all add: net_typed_def count_drop_def count_over_def count_packet_def)

lemma set_netq_typed [typed]: "net_typed (set_netq i f s) \<longleftrightarrow> net_typed s"
  by (simp add: net_typed_def set_netq_def)

lemma arp_pids_typed [typed]:
  "net_typed (s\<lparr>arp := (arp s)\<lparr>arppid := p\<rparr>\<rparr>) \<longleftrightarrow> net_typed s" "net_typed (s\<lparr>arp := (arp s)\<lparr>rarppid := p\<rparr>\<rparr>) \<longleftrightarrow> net_typed s"
  by (simp_all add: net_typed_def arp_typed_def)

lemma learn_typed:
  assumes "net_typed s" "octets_of EPADLEN sha"
  shows "net_typed (learn device spa sha s)"
proof -
  have ok: "arp_ok (arp s)" using assms(1) by (simp add: net_typed_def arp_typed_def)
  obtain i A where f: "arpfind spa (arp s) = (i, A)" by (cases "arpfind spa (arp s)")
  let ?T = "\<lambda>A. \<forall>k. 0 \<le> k \<and> k < AR_TAB \<longrightarrow> octets_of EPADLEN (arp_Ead (arptab A k))"
  have "?T (arp s)" "octets_of EPADLEN (replicate EPADLEN 0)"
    using assms(1) by (auto simp: net_typed_def arp_typed_def octets_of_def octet_list_def)
  then have "?T A" using f by (auto simp: arpfind_def Let_def split: option.splits if_splits)
  then have "?T (arp (learn device spa sha s))" using f assms(2) by (simp add: learn_def set_arpent_def Let_def)
  then show ?thesis using assms(1) learn_resolves [OF ok] by (simp add: net_typed_def arp_typed_def)
qed

lemma getters_exist: "packet_typed p \<Longrightarrow> off + n \<le> EMAXPAK \<Longrightarrow> get_bytes off n p = Some (fld off n p)"
  by (simp add: get_fld octets_of_def)

lemma arp_answer_typed:
  assumes "net_typed s" "packet_typed p"
  shows "\<exists>q. arp_answer s p = Some q \<and> packet_typed q"
proof -
  have l: "length p = 590" and e: "length (etpaddr s) = 6" "length (myaddr (net s)) = 4"
    using assms by (simp_all add: octets_of_def net_typed_def EMAXPAK_def EPADLEN_def IPLEN_def)
  obtain q where q: "arp_answer s p = Some q"
    using l e by (simp add: arp_answer_def put16_def copy_bytes_def flds field_offsets IPLEN_def EPADLEN_def)
  have o: "octet_list (etpaddr s)" "octet_list (myaddr (net s))" using assms by (simp_all add: net_typed_def octets_of_def)
  have "packet_typed q"
    using q assms(2) o unfolding arp_answer_def
    by (auto split: bind_splits) (meson put_fields_typed(2) copy_bytes_typed put_bytes_typed)
  then show ?thesis using q by blast
qed

lemma arp_in_typed:
  assumes "net_typed s" "packet_typed p"
  shows "\<exists>r s'. arp_in p device s = Some (r, s') \<and> net_typed s'"
proof -
  have g: "get_bytes AR_SPA IPLEN p = Some (fld AR_SPA IPLEN p)" "get_bytes AR_SHA EPADLEN p = Some (fld AR_SHA EPADLEN p)"
      "get_bytes AR_TPA IPLEN p = Some (fld AR_TPA IPLEN p)" "get16 AR_OP p = Some (int_of_octets (fld AR_OP 2 p))"
    using assms(2) by (simp_all add: get16_def getters_exist field_offsets IPLEN_def EPADLEN_def EMAXPAK_def)
  let ?s = "learn device (fld AR_SPA IPLEN p) (fld AR_SHA EPADLEN p) s"
  have s: "net_typed ?s" by (rule learn_typed [OF assms(1) get_bytes_typed [OF g(2) assms(2)]])
  obtain q where q: "arp_answer ?s p = Some q" "packet_typed q" using arp_answer_typed [OF s assms(2)] by blast
  have "EMINPAK \<le> EMAXPAK" by (simp add: EMINPAK_def EMAXPAK_def)
  then show ?thesis using g s q assms(2) by (simp add: arp_in_def Let_def typed count_typed)
qed

lemma rarp_in_typed:
  assumes "net_typed s" "packet_typed p"
  shows "\<exists>r s'. rarp_in p device s = Some (r, s') \<and> net_typed s'"
proof -
  have g: "get_bytes AR_THA EPADLEN p = Some (fld AR_THA EPADLEN p)" "get_bytes AR_TPA IPLEN p = Some (fld AR_TPA IPLEN p)"
      "get16 AR_OP p = Some (int_of_octets (fld AR_OP 2 p))"
    using assms(2) by (simp_all add: get16_def getters_exist field_offsets IPLEN_def EPADLEN_def EMAXPAK_def)
  have a: "octets_of IPLEN (fld AR_TPA IPLEN p)" by (rule get_bytes_typed [OF g(2) assms(2)])
  let ?s = "s\<lparr>net := (net s)\<lparr>myaddr := fld AR_TPA IPLEN p, mynet := snd (netnum (fld AR_TPA IPLEN p)), mavalid := True\<rparr>\<rparr>"
  have "net_typed ?s" using assms(1) a netnum_typed [OF a] by (simp add: net_typed_def)
  moreover from this have "net_typed (?s\<lparr>arp := (arp ?s)\<lparr>rarppid := BADPID\<rparr>\<rparr>)" by (simp only: typed)
  ultimately show ?thesis using g assms by (auto simp: rarp_in_def Let_def do_call_typed)
qed

text \<open>An echo request whose length fits into the buffer.\<close>

definition bad_ping :: "packet \<Rightarrow> bool" where
  "bad_ping p \<longleftrightarrow> get8 I_PROTO p = Some IPRO_ICMP \<and> get8 IC_TYP p = Some ICRQECH \<and>
     (\<forall>x. get16 I_PACLEN p = Some x \<longrightarrow> s16 (hton16 x - int IPHLEN) \<notin> {0..<int (EMAXPAK - I_DATA)})"

lemma icmp_reply_typed:
  assumes "packet_typed p" "icmp_reply p = Some q"
  shows "packet_typed q"
  using assms unfolding icmp_reply_def Let_def
  by (auto split: bind_splits if_splits) (meson put_fields_typed copy_bytes_typed)+

lemma icmp_reply_exists:
  assumes p: "packet_typed p" and x: "get16 I_PACLEN p = Some x" and n: "s16 (hton16 x - int IPHLEN) \<in> {0..<int (EMAXPAK - I_DATA)}"
  shows "icmp_reply p \<noteq> None"
proof -
  have l: "length p = 590" using p by (simp add: octets_of_def EMAXPAK_def)
  obtain m where m: "s16 (hton16 x - int IPHLEN) = int m" "m < 556"
    using n by (auto simp: EMAXPAK_def I_DATA_def dest: zero_le_imp_eq_int)
  let ?q = "over I_DEST (fld I_SRC IPLEN p) (over IC_TYP [u8 ICRPECH] p)"
  have w: "put8 IC_TYP ICRPECH p \<bind> (\<lambda>p. copy_bytes I_DEST I_SRC IPLEN p \<bind> f) = f ?q" for f :: "packet \<Rightarrow> packet option"
    using l by (simp add: put8_over copy_bytes_def flds field_offsets IPLEN_def)
  have x': "get16 I_PACLEN ?q = Some x" using x l by (simp add: get16_def flds field_offsets IPLEN_def)
  have o: "\<not> int m < - int I_DATA" "nat (int I_DATA + int m) = 34 + m" by (simp_all add: I_DATA_def nat_add_distrib)
  have u: "nat (u16 (int m + 1)) = m + 1" "nat (u16 (int m)) = m" using m(2) by (simp_all add: nat_add_distrib)
  have "icmp_reply p = (do {
       p \<leftarrow> (if odd m then (if int m < - int I_DATA then None else put8 (nat (int I_DATA + int m)) 0 ?q) else Some ?q);
       dat \<leftarrow> get_bytes I_DATA (nat (u16 (if odd m then int m + 1 else int m))) p;
       put16 IC_CKSUM (hton16 (u16 (- 1 - net_calc_checksum 0 dat ICCKOFF))) p
     })"
    using x' by (simp add: icmp_reply_def w m(1) Let_def)
  moreover have "odd m \<Longrightarrow> m + 1 \<le> 556" using m(2) by presburger
  ultimately show ?thesis
    using l m(2) o u by (simp add: put8_over put16_over get_fld I_DATA_def IC_CKSUM_def)
qed

lemma ip_in_typed:
  assumes "net_typed s" "packet_typed p"
  shows "case ip_in cnt p out lim s of None \<Rightarrow> bad_ping p | Some (r, s') \<Rightarrow> net_typed s'"
proof -
  have g: "get8 I_PROTO p = Some (hd (fld I_PROTO 1 p))" "get8 IC_TYP p = Some (hd (fld IC_TYP 1 p))"
      "get16 U_DPORT p = Some (int_of_octets (fld U_DPORT 2 p))"
    using assms(2) by (simp_all add: get8_def get16_def getters_exist field_offsets EMAXPAK_def)
  show ?thesis
  proof (cases "get8 I_PROTO p = Some IPRO_ICMP")
    case True
    show ?thesis
    proof (cases "icmp_reply p")
      case None
      then show ?thesis using True g(2) assms icmp_reply_exists [OF assms(2)]
        by (auto simp: ip_in_def icmp_in_def do_call_typed bad_ping_def)
    next
      case (Some q)
      then show ?thesis using True g(2) assms icmp_reply_typed [OF assms(2)]
        by (auto simp: ip_in_def icmp_in_def do_call_typed)
    qed
  next
    case False
    then show ?thesis using g(1,3) assms
      by (auto simp: ip_in_def udp_in_def Let_def do_call_typed set_netq_typed count_typed split: option.split)
  qed
qed

text \<open>C26: the input process is type safe: whatever octets come in a buffer, the state of the network keeps its types: packets
  are buffers of octets, addresses have their length, the table of Ethernet addresses stays within its
  bounds and the counters are integers of 16 bits. It gets stuck only on an echo request whose
  length does not fit into the buffer.\<close>

theorem netin_typed:
  assumes "net_typed s" "packet_typed p"
  shows "case netin_packet cnt out p len s of None \<Rightarrow> bad_ping p | Some s' \<Rightarrow> net_typed s'"
proof -
  let ?s = "count_packet s"
  have s: "net_typed ?s" by (rule count_typed(3) [OF assms(1)])
  have g: "get16 E_PTYPE p = Some (int_of_octets (fld E_PTYPE 2 p))"
    using assms(2) by (simp add: get16_def getters_exist field_offsets EMAXPAK_def)
  show ?thesis
    using g s count_typed(1) [OF s] arp_in_typed [OF s assms(2), of "ether ?s"] rarp_in_typed [OF s assms(2), of "ether ?s"]
      ip_in_typed [OF s assms(2), of cnt out NETFQ]
    by (auto simp: netin_packet_def Let_def split: option.split)
qed

theorem netin_typed_witness:
  "case netin_packet (\<lambda>_. 0) 6 ex_ping 60 ex_neighbour of None \<Rightarrow> bad_ping ex_ping | Some s' \<Rightarrow> net_typed s'"
proof -
  have "octets_of IPLEN (snd (netnum [192, 168, 1, 5]))" by (rule netnum_typed) (simp add: octets_of_def octet_list_def IPLEN_def)
  moreover have "\<forall>i. 0 \<le> i \<and> i < AR_TAB \<longrightarrow> octets_of EPADLEN (arp_Ead (arptab (arpinit s1 s2 A) i))" for s1 s2 A
    by (auto simp: arpinit_def octets_of_def octet_list_def)
  ultimately have "net_typed (ex_host [2, 0, 0, 0, 0, 5] [192, 168, 1, 5])"
    by (auto simp: net_typed_def arp_typed_def ex_host_def ex_net_def arpinit_ok octets_of_def octet_list_def EPADLEN_def IPLEN_def MININT_def MAXINT_def)
  then have "net_typed ex_neighbour" unfolding ex_neighbour_def by (rule learn_typed) (simp add: octets_of_def octet_list_def EPADLEN_def)
  moreover have "packet_typed ex_ping" by (simp add: ex_ping_def octets_of_def octet_list_def EMAXPAK_def)
  ultimately show ?thesis by (rule netin_typed)
qed

end
