(* ===== verification/OneWire.thy ===== *)
theory OneWire
  imports Prelude "HOL-Library.Word"
begin

unbundle bit_operations_syntax

text \<open>
  The search for the devices on a 1-Wire bus (\<open>APIs/1-Wire /singleGPIO/OWSearch.c\<close>, \<open>common/OWFirst.c\<close>, \<open>OWNext.c\<close>,
  \<open>OWVerify.c\<close>, \<open>OWTargetSetup.c\<close>, \<open>OWFamilySkipSetup.c\<close>, \<open>OWutil.c\<close>, and the transfer of bytes in
  \<open>singleGPIO/OW_SingleGPIO_Primatives.c\<close>). Every device has a number of 64 bits. The pulses of a reset and of a bit are made with
  the port and the timer: they are the operations of a bus, which is a parameter.
\<close>

section \<open>Definitions\<close>

record 'b ow_bus =
  OWReset :: "'b \<Rightarrow> bool \<times> 'b"
  OWReadBit :: "'b \<Rightarrow> bool \<times> 'b"
  OWWriteBit :: "bool \<Rightarrow> 'b \<Rightarrow> 'b"

text \<open>The global variables of the search.\<close>

record owst =
  ROM_NO :: "8 word list"
  LastDiscrepancy :: int
  LastFamilyDiscrepancy :: int
  LastDeviceFlag :: bool
  crc8 :: "8 word"

definition OWWriteByte :: "'b ow_bus \<Rightarrow> 8 word \<Rightarrow> 'b \<Rightarrow> 'b" where
  "OWWriteByte B val b = fold (\<lambda>i. OWWriteBit B (drop_bit i val AND 1 = 1)) [0..<8] b"

definition OWReadByte :: "'b ow_bus \<Rightarrow> 'b \<Rightarrow> 8 word \<times> 'b" where
  "OWReadByte B b =
     fold (\<lambda>i (value, b). let (r, b) = OWReadBit B b in (if r then value OR push_bit i 1 else value, b)) [0..<8] (0, b)"

definition crc8_step :: "8 word \<Rightarrow> 8 word" where
  "crc8_step c = (if c AND 1 \<noteq> 0 then drop_bit 1 c XOR 0x8C else drop_bit 1 c)"

definition calc_crc8 :: "8 word \<Rightarrow> 8 word \<Rightarrow> 8 word" where
  "calc_crc8 crc data = (crc8_step ^^ 8) (crc XOR data)"

definition search_direction :: "bool \<Rightarrow> bool \<Rightarrow> int \<Rightarrow> nat \<Rightarrow> 8 word \<Rightarrow> owst \<Rightarrow> bool" where
  "search_direction id_bit cmp_id_bit n byte rom_mask S =
     (if id_bit \<noteq> cmp_id_bit then id_bit
      else if n < LastDiscrepancy S then ROM_NO S ! byte AND rom_mask \<noteq> 0
      else n = LastDiscrepancy S)"

definition put_rom_bit :: "nat \<Rightarrow> 8 word \<Rightarrow> bool \<Rightarrow> owst \<Rightarrow> owst" where
  "put_rom_bit byte rom_mask d S =
     S\<lparr>ROM_NO := (ROM_NO S)[byte := if d then ROM_NO S ! byte OR rom_mask else ROM_NO S ! byte AND NOT rom_mask]\<rparr>"

definition note_zero :: "int \<Rightarrow> int \<Rightarrow> bool \<Rightarrow> owst \<Rightarrow> int \<times> owst" where
  "note_zero n last_zero zero S =
     (if zero then (n, if n < 9 then S\<lparr>LastFamilyDiscrepancy := n\<rparr> else S) else (last_zero, S))"

text \<open>The loop over the bits: the number of the next one, the last zero that was picked, and the byte and mask of the bit.
  The mask runs out of its byte.\<close>

definition shifts :: "8 word \<Rightarrow> nat" where
  "shifts m = (LEAST k. push_bit k m = 0)"

lemma shifts_less: "m * 2 \<noteq> 0 \<Longrightarrow> shifts (m * 2) < shifts m"
proof -
  assume m: "m * 2 \<noteq> 0"
  have ex: "push_bit 8 m = 0" by (rule bit_word_eqI) (simp add: bit_push_bit_iff)
  have z: "push_bit (shifts m) m = 0"
    unfolding shifts_def using ex by (rule LeastI [where P = "\<lambda>k. push_bit k m = 0"])
  have p: "push_bit (Suc k) m = push_bit k (m * 2)" for k by (simp add: push_bit_double)
  have "shifts m \<noteq> 0" using m z by (cases "shifts m") auto
  then obtain k where k: "shifts m = Suc k" using not0_implies_Suc by blast
  have "push_bit k (m * 2) = 0" using z unfolding k p .
  then have "shifts (m * 2) \<le> k" unfolding shifts_def by (rule Least_le)
  then show ?thesis unfolding k by simp
qed

function search_loop :: "'b ow_bus \<Rightarrow> int \<Rightarrow> int \<Rightarrow> nat \<Rightarrow> 8 word \<Rightarrow> owst \<Rightarrow> 'b \<Rightarrow> int \<times> int \<times> owst \<times> 'b" where
  "search_loop B n last_zero byte rom_mask S b =
     (let (id_bit, b) = OWReadBit B b; (cmp_id_bit, b) = OWReadBit B b
      in if id_bit \<and> cmp_id_bit then (n, last_zero, S, b)
         else
           (let d = search_direction id_bit cmp_id_bit n byte rom_mask S;
                (last_zero, S) = note_zero n last_zero (id_bit = cmp_id_bit \<and> \<not> d) S;
                S = put_rom_bit byte rom_mask d S;
                b = OWWriteBit B d b;
                rom_mask' = push_bit 1 rom_mask
            in if rom_mask' = 0 then
                 (let S = S\<lparr>crc8 := calc_crc8 (crc8 S) (ROM_NO S ! byte)\<rparr>
                  in if byte + 1 < 8 then search_loop B (n + 1) last_zero (byte + 1) 1 S b else (n + 1, last_zero, S, b))
               else if byte < 8 then search_loop B (n + 1) last_zero byte rom_mask' S b
               else (n + 1, last_zero, S, b)))"
  by pat_completeness auto
termination
  by (relation "(\<lambda>(B, n, last_zero, byte, rom_mask, S, b). 8 - byte) <*mlex*> measure (\<lambda>(B, n, last_zero, byte, rom_mask, S, b). shifts rom_mask)")
    (auto intro: wf_mlex mlex_less mlex_leq simp: shifts_less)

declare search_loop.simps [simp del]

definition reset_search :: "owst \<Rightarrow> owst" where
  "reset_search S = S\<lparr>LastDiscrepancy := 0, LastDeviceFlag := False, LastFamilyDiscrepancy := 0\<rparr>"

definition end_search :: "bool \<Rightarrow> owst \<Rightarrow> bool \<times> owst" where
  "end_search search_result S =
     (if \<not> search_result \<or> ROM_NO S ! 0 = 0 then (False, reset_search S) else (search_result, S))"

definition OWSearch :: "'b ow_bus \<Rightarrow> owst \<Rightarrow> 'b \<Rightarrow> bool \<times> owst \<times> 'b" where
  "OWSearch B S b =
     (let S = S\<lparr>crc8 := 0\<rparr>
      in if LastDeviceFlag S then (let (r, S) = end_search False S in (r, S, b))
         else
           (let (present, b) = OWReset B b
            in if \<not> present then (False, reset_search S, b)
               else
                 (let b = OWWriteByte B 0xF0 b;
                      (n, last_zero, S, b) = search_loop B 1 0 0 1 S b;
                      (r, S) =
                        (if \<not> (n < 65 \<or> crc8 S \<noteq> 0)
                         then end_search True (S\<lparr>LastDiscrepancy := last_zero, LastDeviceFlag := last_zero = 0 \<or> LastDeviceFlag S\<rparr>)
                         else end_search False S)
                  in (r, S, b))))"

definition OWFirst :: "'b ow_bus \<Rightarrow> owst \<Rightarrow> 'b \<Rightarrow> bool \<times> owst \<times> 'b" where
  "OWFirst B S b = OWSearch B (S\<lparr>LastDiscrepancy := 0, LastDeviceFlag := False, LastFamilyDiscrepancy := 0\<rparr>) b"

definition OWNext :: "'b ow_bus \<Rightarrow> owst \<Rightarrow> 'b \<Rightarrow> bool \<times> owst \<times> 'b" where
  "OWNext B S b = OWSearch B S b"

definition OWVerify :: "'b ow_bus \<Rightarrow> owst \<Rightarrow> 'b \<Rightarrow> bool \<times> owst \<times> 'b" where
  "OWVerify B S b =
     (let (found, S', b) = OWSearch B (S\<lparr>LastDiscrepancy := 64, LastDeviceFlag := False\<rparr>) b;
          rslt = (found \<and> (\<forall>i < 8. ROM_NO S ! i = ROM_NO S' ! i))
      in (rslt, S'\<lparr>ROM_NO := ROM_NO S, LastDiscrepancy := LastDiscrepancy S, LastDeviceFlag := LastDeviceFlag S,
           LastFamilyDiscrepancy := LastFamilyDiscrepancy S\<rparr>, b))"

definition OWTargetSetup :: "8 word \<Rightarrow> owst \<Rightarrow> owst" where
  "OWTargetSetup family S =
     S\<lparr>ROM_NO := family # replicate 7 0, LastDiscrepancy := 64, LastFamilyDiscrepancy := 0, LastDeviceFlag := False\<rparr>"

definition OWFamilySkipSetup :: "owst \<Rightarrow> owst" where
  "OWFamilySkipSetup S =
     (let d = LastFamilyDiscrepancy S
      in S\<lparr>LastDiscrepancy := d, LastFamilyDiscrepancy := 0, LastDeviceFlag := d = 0 \<or> LastDeviceFlag S\<rparr>)"

definition OWNextType :: "'b ow_bus \<Rightarrow> 8 word \<Rightarrow> owst \<Rightarrow> 'b \<Rightarrow> bool \<times> owst \<times> 'b" where
  "OWNextType B type S b = (let (ret, S, b) = OWNext B S b in (if ROM_NO S ! 0 \<noteq> type then False else ret, S, b))"

definition OWFirstType :: "'b ow_bus \<Rightarrow> 8 word \<Rightarrow> owst \<Rightarrow> 'b \<Rightarrow> bool \<times> owst \<times> 'b" where
  "OWFirstType B type S b = OWNextType B type (OWTargetSetup type S) b"

definition OWTouchByte :: "'b ow_bus \<Rightarrow> 8 word \<Rightarrow> 'b \<Rightarrow> 8 word \<times> 'b" where
  "OWTouchByte B sendbyte b = (if sendbyte = 0xFF then OWReadByte B b else (sendbyte, OWWriteByte B sendbyte b))"

fun OWBlock :: "'b ow_bus \<Rightarrow> 8 word list \<Rightarrow> 'b \<Rightarrow> 8 word list \<times> 'b" where
  "OWBlock B [] b = ([], b)"
| "OWBlock B (x # xs) b = (let (y, b) = OWTouchByte B x b; (ys, b) = OWBlock B xs b in (y # ys, b))"

definition OWAccessSerialNumber :: "'b ow_bus \<Rightarrow> 8 word list \<Rightarrow> owst \<Rightarrow> 'b \<Rightarrow> bool \<times> owst \<times> 'b" where
  "OWAccessSerialNumber B LaserROM S b = OWVerify B (S\<lparr>ROM_NO := take 8 LaserROM\<rparr>) b"

definition OWSerialNumber :: "'b ow_bus \<Rightarrow> 8 word list \<Rightarrow> owst \<Rightarrow> 'b \<Rightarrow> bool \<times> owst \<times> 'b" where
  "OWSerialNumber B LaserROM S b = OWAccessSerialNumber B LaserROM S (snd (OWBlock B (0x55 # take 8 LaserROM) (snd (OWReset B b))))"

end
