(* ===== verification/OneWireBus.thy ===== *)
theory OneWireBus
  imports OneWire
begin

unbundle bit_operations_syntax

text \<open>
  What the search finds. The devices of a bus are a set of numbers; the bus is their wired AND, and a device that does
  not have the bit that is written leaves the search.
\<close>

section \<open>Numbers\<close>

definition rbit :: "8 word list \<Rightarrow> nat \<Rightarrow> bool" where
  "rbit r k = bit (r ! (k div 8)) (k mod 8)"

definition agree :: "nat \<Rightarrow> 8 word list \<Rightarrow> 8 word list \<Rightarrow> bool" where
  "agree n r x \<longleftrightarrow> (\<forall>k < n. rbit r k = rbit x k)"

text \<open>The order in which the search meets the numbers: the first bit that differs decides.\<close>

definition rless :: "8 word list \<Rightarrow> 8 word list \<Rightarrow> bool" where
  "rless r x \<longleftrightarrow> (\<exists>k < 64. agree k r x \<and> \<not> rbit r k \<and> rbit x k)"

definition rom_crc :: "8 word list \<Rightarrow> 8 word" where
  "rom_crc r = fold (\<lambda>d c. calc_crc8 c d) r 0"

text \<open>The number of a device: 8 octets, with a family that is not 0 and with its checksum in order.\<close>

definition is_rom :: "8 word list \<Rightarrow> bool" where
  "is_rom r \<longleftrightarrow> length r = 8 \<and> r ! 0 \<noteq> 0 \<and> rom_crc r = 0"

lemma agree_0 [simp]: "agree 0 r x"
  by (simp add: agree_def)

lemma agree_refl [simp]: "agree n r r"
  by (simp add: agree_def)

lemma agree_Suc: "agree (Suc n) r x \<longleftrightarrow> agree n r x \<and> rbit r n = rbit x n"
  by (auto simp: agree_def less_Suc_eq)

lemma agree_sym: "agree n r x \<longleftrightarrow> agree n x r"
  by (auto simp: agree_def)

lemma agree_trans: "agree n r x \<Longrightarrow> agree n x y \<Longrightarrow> agree n r y"
  by (auto simp: agree_def)

lemma agree_le: "agree n r x \<Longrightarrow> m \<le> n \<Longrightarrow> agree m r x"
  by (auto simp: agree_def)

lemma agree_bytes:
  assumes "agree (8 * m) r x" "length r = 8" "length x = 8" "m \<le> 8"
  shows "take m r = take m x"
proof (rule nth_equalityI)
  fix i assume i: "i < length (take m r)"
  have "r ! i = x ! i"
  proof (rule bit_word_eqI)
    fix j assume "j < LENGTH(8)"
    then have "8 * i + j < 8 * m" "(8 * i + j) div 8 = i" "(8 * i + j) mod 8 = j" using i by auto
    then show "bit (r ! i) j = bit (x ! i) j" using assms(1) unfolding agree_def rbit_def by metis
  qed
  then show "take m r ! i = take m x ! i" using i by simp
qed (use assms in simp)

lemma agree_eq: "agree 64 r x \<Longrightarrow> length r = 8 \<Longrightarrow> length x = 8 \<Longrightarrow> r = x"
  using agree_bytes [of 8 r x] by simp

lemma first_difference:
  assumes "r \<noteq> x" "length r = 8" "length x = 8"
  shows "\<exists>k < 64. agree k r x \<and> rbit r k \<noteq> rbit x k"
proof -
  have "\<exists>n. n \<le> 64 \<and> \<not> agree n r x" using agree_eq assms by blast
  then obtain n where n: "n \<le> 64" "\<not> agree n r x" "\<And>m. m < n \<Longrightarrow> agree m r x"
    using exists_least_iff [of "\<lambda>n. n \<le> 64 \<and> \<not> agree n r x"] by force
  then obtain k where "n = Suc k" by (cases n) auto
  then show ?thesis using n by (intro exI [of _ k]) (auto simp: agree_Suc)
qed

lemma rless_linear: "length r = 8 \<Longrightarrow> length x = 8 \<Longrightarrow> r \<noteq> x \<Longrightarrow> rless r x \<or> rless x r"
  using first_difference [of r x] by (auto simp: rless_def agree_sym)

lemma rless_irrefl: "\<not> rless r r"
  by (simp add: rless_def)

lemma rless_trans: "rless r x \<Longrightarrow> rless x y \<Longrightarrow> rless r y"
proof -
  assume "rless r x" "rless x y"
  then obtain k m where k: "k < 64" "agree k r x" "\<not> rbit r k" "rbit x k" and m: "m < 64" "agree m x y" "\<not> rbit x m" "rbit y m"
    by (auto simp: rless_def)
  let ?n = "min k m"
  have "agree ?n r y" using k(2) m(2) by (auto simp: agree_def)
  moreover have "\<not> rbit r ?n \<and> rbit y ?n"
    using k m by (cases k m rule: linorder_cases) (auto simp: agree_def min_def)
  ultimately show "rless r y" unfolding rless_def using k(1) by (intro exI [of _ ?n]) auto
qed

text \<open>The checksum tells numbers apart that agree in all but the last bits.\<close>

lemma crc8_step_if: "crc8_step c = (if bit c 0 then drop_bit 1 c XOR 0x8C else drop_bit 1 c)"
  by (auto simp: crc8_step_def and_one_eq bit_0 even_iff_mod_2_eq_zero)

lemma crc8_step_zero: "crc8_step c = 0 \<longleftrightarrow> c = 0"
proof
  assume z: "crc8_step c = 0"
  show "c = 0"
  proof (cases "bit c 0")
    case True
    then have "drop_bit 1 c XOR 0x8C = 0" using z by (simp add: crc8_step_if)
    then have "bit (drop_bit 1 c XOR 0x8C) 7 = False" by simp
    then show ?thesis using bit_imp_le_length [of c 8] by (auto simp: bit_xor_iff bit_drop_bit_eq)
  next
    case False
    then have "drop_bit 1 c = 0" using z by (simp add: crc8_step_if)
    then have "\<not> bit (drop_bit 1 c) j" for j by simp
    then have "\<not> bit c (Suc j)" for j by (simp add: bit_drop_bit_eq)
    then have "\<not> bit c j" for j using False by (cases j) (simp_all add: bit_0)
    then show ?thesis by (intro bit_word_eqI) simp
  qed
qed (simp add: crc8_step_def)

lemma calc_crc8_zero: "calc_crc8 c d = 0 \<longleftrightarrow> c = d"
proof -
  have "(crc8_step ^^ n) c = 0 \<longleftrightarrow> c = 0" for n c by (induction n) (simp_all add: crc8_step_zero)
  moreover have "c XOR d = 0 \<longleftrightarrow> c = d" by (metis xor_self_eq xor.right_neutral xor.assoc)
  ultimately show ?thesis by (simp add: calc_crc8_def)
qed

lemma rom_crc_last: "length r = 8 \<Longrightarrow> rom_crc r = calc_crc8 (rom_crc (take 7 r)) (r ! 7)"
proof -
  assume "length r = 8"
  then have "r = take 7 r @ [r ! 7]" using take_Suc_conv_app_nth [of 7 r] by simp
  then have "rom_crc r = rom_crc (take 7 r @ [r ! 7])" by simp
  then show ?thesis by (simp add: rom_crc_def)
qed

lemma is_rom_unique:
  assumes "is_rom r" "is_rom x" "agree 56 r x"
  shows "r = x"
proof -
  have l: "length r = 8" "length x = 8" using assms(1,2) by (simp_all add: is_rom_def)
  have t: "take 7 r = take 7 x" using agree_bytes [of 7 r x] assms(3) l by simp
  then have "r ! 7 = x ! 7"
    using assms(1,2) rom_crc_last [OF l(1)] rom_crc_last [OF l(2)] by (simp add: is_rom_def calc_crc8_zero)
  then show ?thesis using t l take_Suc_conv_app_nth [of 7 r] take_Suc_conv_app_nth [of 7 x] by simp
qed

section \<open>The bus\<close>

text \<open>What is documented of the devices: after a reset, which shows whether there are any, and the search command every device
  takes part; it sends its next bit and the complement, which are read as the conjunction over all that
  take part; and those without the bit that is written leave. \<open>searching b n f D\<close>: the devices \<open>D\<close> take part, \<open>n\<close> bits
  are written, and \<open>f\<close> of the two bits have been read.\<close>

definition is_bus :: "'b ow_bus \<Rightarrow> 8 word list set \<Rightarrow> ('b \<Rightarrow> nat \<Rightarrow> nat \<Rightarrow> 8 word list set \<Rightarrow> bool) \<Rightarrow> bool" where
  "is_bus B R searching \<longleftrightarrow>
     (\<forall>b. fst (OWReset B b) = (R \<noteq> {}) \<and> searching (OWWriteByte B 0xF0 (snd (OWReset B b))) 0 0 R) \<and>
     (\<forall>b n D. n < 64 \<longrightarrow> searching b n 0 D \<longrightarrow> fst (OWReadBit B b) = (\<forall>r \<in> D. rbit r n) \<and> searching (snd (OWReadBit B b)) n 1 D) \<and>
     (\<forall>b n D. n < 64 \<longrightarrow> searching b n 1 D \<longrightarrow> fst (OWReadBit B b) = (\<forall>r \<in> D. \<not> rbit r n) \<and> searching (snd (OWReadBit B b)) n 2 D) \<and>
     (\<forall>b n D d. n < 64 \<longrightarrow> searching b n 2 D \<longrightarrow> searching (OWWriteBit B d b) (n + 1) 0 {r \<in> D. rbit r n = d})"

text \<open>The bit the search takes on the way to \<open>x\<close>, when \<open>p\<close> was found before and \<open>d\<close> is the last discrepancy; and the
  last bit below \<open>n\<close>, from 1, that is 0 in \<open>x\<close> although there are numbers with a 1.\<close>

definition turn :: "8 word list set \<Rightarrow> int \<Rightarrow> 8 word list \<Rightarrow> 8 word list \<Rightarrow> nat \<Rightarrow> bool" where
  "turn R d p x n =
     (if \<forall>r \<in> R. agree n r x \<longrightarrow> rbit r n then True
      else if \<forall>r \<in> R. agree n r x \<longrightarrow> \<not> rbit r n then False
      else if int n + 1 < d then rbit p n else int n + 1 = d)"

definition fork :: "8 word list set \<Rightarrow> 8 word list \<Rightarrow> nat \<Rightarrow> bool" where
  "fork R x n \<longleftrightarrow> \<not> rbit x n \<and> (\<exists>r \<in> R. agree n r x \<and> rbit r n)"

primrec last_fork :: "8 word list set \<Rightarrow> 8 word list \<Rightarrow> nat \<Rightarrow> int" where
  "last_fork R x 0 = 0"
| "last_fork R x (Suc n) = (if fork R x n then int n + 1 else last_fork R x n)"

lemma fork_cong: "agree (Suc n) x y \<Longrightarrow> fork R x n = fork R y n"
  unfolding fork_def agree_Suc using agree_trans agree_sym by metis

lemma turn_cong: "agree n x y \<Longrightarrow> turn R d p x n = turn R d p y n"
proof -
  assume "agree n x y"
  then have "agree n r x = agree n r y" for r using agree_trans agree_sym by blast
  then show ?thesis unfolding turn_def by (simp only:)
qed

lemma last_fork_cong: "agree n x y \<Longrightarrow> last_fork R x n = last_fork R y n"
proof (induction n)
  case (Suc n)
  then show ?case using fork_cong [OF Suc.prems] by (simp add: agree_Suc)
qed simp

section \<open>One search\<close>

lemma bit_mask: "k < 8 \<Longrightarrow> bit (2 ^ k :: 8 word) j \<longleftrightarrow> j = k"
  by (auto simp: bit_exp_iff)

lemma mask_test: "k < 8 \<Longrightarrow> (w AND 2 ^ k \<noteq> 0) = bit (w :: 8 word) k"
proof -
  assume k: "k < 8"
  have "w AND 2 ^ k = 0 \<longleftrightarrow> \<not> bit w k"
  proof
    assume "w AND 2 ^ k = 0"
    then have "\<not> bit (w AND 2 ^ k) k" by simp
    then show "\<not> bit w k" using k by (simp add: bit_and_iff bit_mask)
  next
    assume "\<not> bit w k"
    then show "w AND 2 ^ k = 0" using k by (intro bit_word_eqI) (auto simp: bit_and_iff bit_mask)
  qed
  then show ?thesis by blast
qed

definition rset :: "nat \<Rightarrow> bool \<Rightarrow> 8 word list \<Rightarrow> 8 word list" where
  "rset n d r = r[n div 8 := if d then r ! (n div 8) OR push_bit (n mod 8) 1 else r ! (n div 8) AND NOT (push_bit (n mod 8) 1)]"

lemma put_rom_bit_rset: "put_rom_bit (n div 8) (push_bit (n mod 8) 1) d S = S\<lparr>ROM_NO := rset n d (ROM_NO S)\<rparr>"
  by (simp add: put_rom_bit_def rset_def)

lemma length_rset [simp]: "length (rset n d r) = length r"
  by (simp add: rset_def)

lemma rbit_rset:
  assumes "length r = 8" "n < 64" "k < 64"
  shows "rbit (rset n d r) k = (if k = n then d else rbit r k)"
proof -
  have n: "n div 8 < 8" "n mod 8 < 8" "k mod 8 < 8" using assms by auto
  show ?thesis
  proof (cases "k div 8 = n div 8")
    case True
    then have "k = n \<longleftrightarrow> k mod 8 = n mod 8" by (metis div_mod_decomp)
    then show ?thesis using n assms(1) True
      by (auto simp: rbit_def rset_def bit_or_iff bit_and_iff bit_not_iff bit_mask)
  next
    case False
    then have "k \<noteq> n" by auto
    then show ?thesis using False by (simp add: rbit_def rset_def)
  qed
qed

lemma agree_rset: "length r = 8 \<Longrightarrow> n < 64 \<Longrightarrow> agree n (rset n d r) r"
  by (auto simp: agree_def rbit_rset)

lemma take_rset: "take (n div 8) (rset n d r) = take (n div 8) r"
  by (simp add: rset_def)

end
