(* ===== verification/OneWireProps.thy ===== *)
theory OneWireProps
  imports OneWireBus
begin

unbundle bit_operations_syntax

lemma mask_end: "k < 8 \<Longrightarrow> (2 ^ k * 2 :: 8 word) = 0 \<longleftrightarrow> k = 7"
proof -
  assume k: "k < 8"
  have "(2 ^ k * 2 :: 8 word) = 2 ^ Suc k" by simp
  also have "\<dots> = 0 \<longleftrightarrow> Suc k \<ge> 8" by (simp only: exp_eq_zero_iff) simp
  finally show ?thesis using k by auto
qed

lemma next_bit: "n mod 8 \<noteq> 7 \<Longrightarrow> (n + 1) div 8 = n div 8 \<and> (n + 1) mod 8 = n mod 8 + 1"
    "n mod 8 = 7 \<Longrightarrow> (n + 1) div 8 = n div 8 + 1 \<and> (n + 1) mod 8 = 0" for n :: nat
  by (simp_all add: div_Suc mod_Suc)

lemma is_bus_reads:
  assumes "is_bus B R searching" "n < 64"
  shows "searching b n 0 D \<Longrightarrow> OWReadBit B b = (i, b') \<Longrightarrow> i = (\<forall>r \<in> D. rbit r n) \<and> searching b' n 1 D"
    "searching b n 1 D \<Longrightarrow> OWReadBit B b = (i, b') \<Longrightarrow> i = (\<forall>r \<in> D. \<not> rbit r n) \<and> searching b' n 2 D"
    "searching b n 2 D \<Longrightarrow> searching (OWWriteBit B d b) (n + 1) 0 {r \<in> D. rbit r n = d}"
proof -
  note h = assms(1) [unfolded is_bus_def, THEN conjunct2]
  show "searching b n 0 D \<Longrightarrow> OWReadBit B b = (i, b') \<Longrightarrow> i = (\<forall>r \<in> D. rbit r n) \<and> searching b' n 1 D"
    using h [THEN conjunct1, rule_format, OF assms(2), of b D] by simp
  show "searching b n 1 D \<Longrightarrow> OWReadBit B b = (i, b') \<Longrightarrow> i = (\<forall>r \<in> D. \<not> rbit r n) \<and> searching b' n 2 D"
    using h [THEN conjunct2, THEN conjunct1, rule_format, OF assms(2), of b D] by simp
  show "searching b n 2 D \<Longrightarrow> searching (OWWriteBit B d b) (n + 1) 0 {r \<in> D. rbit r n = d}"
    by (rule h [THEN conjunct2, THEN conjunct2, rule_format, OF assms(2)])
qed

lemma search_loop_body:
  assumes "OWReadBit B b = (i, b1)" "OWReadBit B b1 = (c, b2)" "\<not> (i \<and> c)" "search_direction i c n byte m S = d"
    "note_zero n lz (i = c \<and> \<not> d) S = (lz', S1)" "put_rom_bit byte m d S1 = S2"
  shows "search_loop B n lz byte m S b =
    (let b = OWWriteBit B d b2
     in if m * 2 = 0 then
          (let S = S2\<lparr>crc8 := calc_crc8 (crc8 S2) (ROM_NO S2 ! byte)\<rparr>
           in if byte + 1 < 8 then search_loop B (n + 1) lz' (byte + 1) 1 S b else (n + 1, lz', S, b))
        else if byte < 8 then search_loop B (n + 1) lz' byte (m * 2) S2 b
        else (n + 1, lz', S2, b))"
  using assms by (subst search_loop.simps) (cases i; cases c; simp add: Let_def)

lemma search_step:
  fixes S :: owst and R :: "8 word list set" and p :: "8 word list"
  defines "d \<equiv> turn R (LastDiscrepancy S) p (ROM_NO S)"
  defines "x \<equiv> \<lambda>n. rset n (d n) (ROM_NO S)"
  assumes bus: "is_bus B R searching" and n: "n < 64" and D: "searching b n 0 {r \<in> R. agree n r (ROM_NO S)}"
    and ne: "\<exists>r \<in> R. agree n r (ROM_NO S)" and l: "length (ROM_NO S) = 8" and p: "rbit (ROM_NO S) n = rbit p n"
  shows "\<exists>S' b'. ROM_NO S' = x n \<and> LastDiscrepancy S' = LastDiscrepancy S \<and> LastDeviceFlag S' = LastDeviceFlag S \<and>
    crc8 S' = (if n mod 8 = 7 then calc_crc8 (crc8 S) (x n ! (n div 8)) else crc8 S) \<and>
    searching b' (n + 1) 0 {r \<in> R. agree (n + 1) r (x n)} \<and> (\<exists>r \<in> R. agree (n + 1) r (x n)) \<and>
    search_loop B (int n + 1) lz (n div 8) (2 ^ (n mod 8)) S b =
      (let lz = (if fork R (x n) n then int n + 1 else lz)
       in if n = 63 then (65, lz, S', b')
          else search_loop B (int (n + 1) + 1) lz ((n + 1) div 8) (2 ^ ((n + 1) mod 8)) S' b')"
proof -
  let ?D = "{r \<in> R. agree n r (ROM_NO S)}" and ?x = "x n" and ?d = "d n"
  obtain i b1 where r1: "OWReadBit B b = (i, b1)" by (cases "OWReadBit B b")
  then have i: "i = (\<forall>r \<in> ?D. rbit r n)" and s1: "searching b1 n 1 ?D" using is_bus_reads(1) [OF bus n D] by blast+
  obtain c b2 where r2: "OWReadBit B b1 = (c, b2)" by (cases "OWReadBit B b1")
  then have c: "c = (\<forall>r \<in> ?D. \<not> rbit r n)" and s2: "searching b2 n 2 ?D" using is_bus_reads(2) [OF bus n s1] by blast+
  have ic: "\<not> (i \<and> c)" using i c ne by auto
  have turn: "?d = (if i then True else if c then False else if int n + 1 < LastDiscrepancy S then rbit p n else int n + 1 = LastDiscrepancy S)"
  proof -
    have "(\<forall>r \<in> R. agree n r (ROM_NO S) \<longrightarrow> rbit r n) = i" "(\<forall>r \<in> R. agree n r (ROM_NO S) \<longrightarrow> \<not> rbit r n) = c"
      unfolding i c by blast+
    then show ?thesis unfolding d_def turn_def by (simp only:)
  qed
  have dir: "search_direction i c (int n + 1) (n div 8) (2 ^ (n mod 8)) S = ?d"
  proof -
    have m: "(ROM_NO S ! (n div 8) AND 2 ^ (n mod 8) \<noteq> 0) = rbit p n" unfolding p [symmetric] by (simp add: mask_test rbit_def)
    show ?thesis using ic unfolding turn search_direction_def m by (cases i; cases c) simp_all
  qed
  have xb: "rbit ?x k = (if k = n then ?d else rbit (ROM_NO S) k)" if "k < 64" for k
    unfolding x_def by (rule rbit_rset [OF l n that])
  have ag: "agree n r ?x = agree n r (ROM_NO S)" for r
    using agree_rset [OF l n, of ?d] agree_trans agree_sym unfolding x_def by blast
  have D': "{r \<in> ?D. rbit r n = ?d} = {r \<in> R. agree (n + 1) r ?x}" using xb [OF n] by (auto simp: agree_Suc ag)
  have ne': "\<exists>r \<in> R. agree (n + 1) r ?x"
  proof -
    have "\<exists>r \<in> ?D. rbit r n = ?d" using i c ic ne unfolding turn by (cases i; cases c) auto
    then show ?thesis using D' by blast
  qed
  have z: "(i = c \<and> \<not> ?d) = fork R ?x n"
  proof -
    have "fork R ?x n \<longleftrightarrow> \<not> ?d \<and> \<not> c" using xb [OF n] c ag by (auto simp: fork_def)
    then show ?thesis using ic unfolding turn by (cases i; cases c) simp_all
  qed
  let ?b = "OWWriteBit B ?d b2"
  have s3: "searching ?b (n + 1) 0 {r \<in> R. agree (n + 1) r ?x}" using is_bus_reads(3) [OF bus n s2, of ?d] unfolding D' .
  obtain S1 where nz: "note_zero (int n + 1) lz (fork R ?x n) S = (if fork R ?x n then int n + 1 else lz, S1)"
    and f1: "ROM_NO S1 = ROM_NO S" "LastDiscrepancy S1 = LastDiscrepancy S" "LastDeviceFlag S1 = LastDeviceFlag S" "crc8 S1 = crc8 S"
    by (rule that [of "if fork R ?x n \<and> int n + 1 < 9 then S\<lparr>LastFamilyDiscrepancy := int n + 1\<rparr> else S"]) (simp_all add: note_zero_def)
  let ?S2 = "put_rom_bit (n div 8) (2 ^ (n mod 8)) ?d S1"
  have S2: "?S2 = S1\<lparr>ROM_NO := ?x\<rparr>" using put_rom_bit_rset [of n ?d S1] f1(1) by (simp add: x_def)
  let ?S' = "if n mod 8 = 7 then ?S2\<lparr>crc8 := calc_crc8 (crc8 S) (?x ! (n div 8))\<rparr> else ?S2"
  note body = search_loop_body [OF r1 r2 ic dir nz [folded z] refl]
  have "search_loop B (int n + 1) lz (n div 8) (2 ^ (n mod 8)) S b =
      (let lz = (if fork R ?x n then int n + 1 else lz)
       in if n = 63 then (65, lz, ?S', ?b)
          else search_loop B (int (n + 1) + 1) lz ((n + 1) div 8) (2 ^ ((n + 1) mod 8)) ?S' ?b)"
  proof (cases "n mod 8 = 7")
    case True
    then have e: "(2 ^ (n mod 8) * 2 :: 8 word) = 0" using mask_end [of "n mod 8"] by simp
    have "n = 8 * (n div 8) + 7" using div_mult_mod_eq [of n 8] True by simp
    then have m: "n div 8 + 1 < 8 \<longleftrightarrow> n \<noteq> 63" using n by linarith
    show ?thesis unfolding body z Let_def S2 next_bit(2) [OF True, THEN conjunct1] next_bit(2) [OF True, THEN conjunct2]
      using e m True f1(4) by (simp del: search_loop.simps)
  next
    case False
    then have e: "(2 ^ (n mod 8) * 2 :: 8 word) \<noteq> 0" using mask_end [of "n mod 8"] by simp
    have m: "n \<noteq> 63" "n div 8 < 8" using n False by auto
    have "(2 ^ ((n + 1) mod 8) :: 8 word) = 2 ^ (n mod 8) * 2" using next_bit(1) [OF False] by simp
    then show ?thesis unfolding body z Let_def S2 next_bit(1) [OF False, THEN conjunct1]
      using e m False by simp
  qed
  moreover have "ROM_NO ?S' = ?x" "LastDiscrepancy ?S' = LastDiscrepancy S" "LastDeviceFlag ?S' = LastDeviceFlag S"
    "crc8 ?S' = (if n mod 8 = 7 then calc_crc8 (crc8 S) (?x ! (n div 8)) else crc8 S)"
    unfolding S2 using f1 by simp_all
  ultimately show ?thesis using s3 ne' by blast
qed

lemma search_loop_finds:
  assumes bus: "is_bus B R searching"
  shows "n < 64 \<Longrightarrow> searching b n 0 {r \<in> R. agree n r (ROM_NO S)} \<Longrightarrow> \<exists>r \<in> R. agree n r (ROM_NO S) \<Longrightarrow>
    length (ROM_NO S) = 8 \<Longrightarrow> \<forall>k. n \<le> k \<and> k < 64 \<longrightarrow> rbit (ROM_NO S) k = rbit p k \<Longrightarrow>
    crc8 S = rom_crc (take (n div 8) (ROM_NO S)) \<Longrightarrow> lz = last_fork R (ROM_NO S) n \<Longrightarrow>
    \<exists>S' b'. search_loop B (int n + 1) lz (n div 8) (2 ^ (n mod 8)) S b = (65, last_fork R (ROM_NO S') 64, S', b') \<and>
      LastDiscrepancy S' = LastDiscrepancy S \<and> LastDeviceFlag S' = LastDeviceFlag S \<and> crc8 S' = rom_crc (ROM_NO S') \<and>
      length (ROM_NO S') = 8 \<and> (\<exists>r \<in> R. agree 64 r (ROM_NO S')) \<and> agree n (ROM_NO S') (ROM_NO S) \<and>
      (\<forall>k. n \<le> k \<and> k < 64 \<longrightarrow> rbit (ROM_NO S') k = turn R (LastDiscrepancy S) p (ROM_NO S') k)"
proof (induction "63 - n" arbitrary: n lz S b)
  case (0 n)
  then have n: "n = 63" by simp
  let ?d = "turn R (LastDiscrepancy S) p (ROM_NO S) 63" and ?x = "rset 63 (turn R (LastDiscrepancy S) p (ROM_NO S) 63) (ROM_NO S)"
  have p: "rbit (ROM_NO S) n = rbit p n" using 0 by simp
  obtain S' b' where s: "ROM_NO S' = ?x" "LastDiscrepancy S' = LastDiscrepancy S" "LastDeviceFlag S' = LastDeviceFlag S"
      "crc8 S' = calc_crc8 (crc8 S) (?x ! 7)" "\<exists>r \<in> R. agree 64 r ?x"
      "search_loop B (int n + 1) lz (n div 8) (2 ^ (n mod 8)) S b = (65, if fork R ?x 63 then int 63 + 1 else lz, S', b')"
    using search_step [OF bus 0(2-5) p, of lz] unfolding n by (auto simp: Let_def)
  have a: "agree 63 ?x (ROM_NO S)" using agree_rset [of "ROM_NO S" 63 ?d] 0(5) by simp
  have "last_fork R ?x (Suc 63) = (if fork R ?x 63 then int 63 + 1 else lz)"
    using last_fork_cong [OF a] 0(8) n by (simp only: last_fork.simps)
  moreover have "rom_crc ?x = crc8 S'"
    using rom_crc_last [of ?x] 0(5,7) s(4) take_rset [of 63 ?d "ROM_NO S"] by (simp add: n)
  moreover have "rbit ?x k = turn R (LastDiscrepancy S) p ?x k" if "63 \<le> k" "k < 64" for k
  proof -
    have "k = 63" using that by simp
    then show ?thesis using rbit_rset [of "ROM_NO S" 63 63 ?d] 0(5) turn_cong [OF a] by simp
  qed
  ultimately show ?case using s(2,3,5,6) a 0(5) unfolding n by (intro exI [of _ S'] exI [of _ b']) (simp add: s(1))
next
  case (Suc m n)
  then have n: "n \<noteq> 63" "n + 1 < 64" "m = 63 - (n + 1)" by auto
  let ?d = "turn R (LastDiscrepancy S) p (ROM_NO S) n"
  let ?x = "rset n ?d (ROM_NO S)"
  let ?lz = "if fork R ?x n then int n + 1 else lz"
  have p: "rbit (ROM_NO S) n = rbit p n" using Suc.prems(1,5) by simp
  note l = Suc.prems(4)
  obtain S1 b1 where s: "ROM_NO S1 = ?x" "LastDiscrepancy S1 = LastDiscrepancy S" "LastDeviceFlag S1 = LastDeviceFlag S"
      "crc8 S1 = (if n mod 8 = 7 then calc_crc8 (crc8 S) (?x ! (n div 8)) else crc8 S)"
      "searching b1 (n + 1) 0 {r \<in> R. agree (n + 1) r ?x}" "\<exists>r \<in> R. agree (n + 1) r ?x"
      "search_loop B (int n + 1) lz (n div 8) (2 ^ (n mod 8)) S b =
        search_loop B (int (n + 1) + 1) ?lz ((n + 1) div 8) (2 ^ ((n + 1) mod 8)) S1 b1"
    using search_step [OF bus Suc.prems(1-4) p, of lz] n(1) unfolding Let_def by auto
  have a: "agree n ?x (ROM_NO S)" using agree_rset [of "ROM_NO S" n ?d] l Suc.prems(1) by simp
  have xb: "rbit ?x k = (if k = n then ?d else rbit (ROM_NO S) k)" if "k < 64" for k
    by (rule rbit_rset [OF l Suc.prems(1) that])
  have p': "\<forall>k. n + 1 \<le> k \<and> k < 64 \<longrightarrow> rbit (ROM_NO S1) k = rbit p k" using Suc.prems(5) xb unfolding s(1) by auto
  have c: "crc8 S1 = rom_crc (take ((n + 1) div 8) (ROM_NO S1))"
  proof (cases "n mod 8 = 7")
    case True
    have "n div 8 < length ?x" using l Suc.prems(1) by auto
    then have "take (n div 8 + 1) ?x = take (n div 8) ?x @ [?x ! (n div 8)]" by (simp add: take_Suc_conv_app_nth)
    then show ?thesis using True s(1,4) Suc.prems(6) next_bit(2) [OF True] take_rset [of n ?d "ROM_NO S"] by (simp add: rom_crc_def)
  next
    case False
    then show ?thesis using s(1,4) Suc.prems(6) next_bit(1) [OF False] take_rset [of n ?d "ROM_NO S"] by simp
  qed
  have lz: "?lz = last_fork R (ROM_NO S1) (n + 1)" using last_fork_cong [OF a] Suc.prems(7) unfolding s(1) by simp
  have l1: "length (ROM_NO S1) = 8" using s(1) l by simp
  obtain S' b' where S': "search_loop B (int (n + 1) + 1) ?lz ((n + 1) div 8) (2 ^ ((n + 1) mod 8)) S1 b1 = (65, last_fork R (ROM_NO S') 64, S', b')"
      "LastDiscrepancy S' = LastDiscrepancy S1" "LastDeviceFlag S' = LastDeviceFlag S1" "crc8 S' = rom_crc (ROM_NO S')"
      "length (ROM_NO S') = 8" "\<exists>r \<in> R. agree 64 r (ROM_NO S')" "agree (n + 1) (ROM_NO S') (ROM_NO S1)"
      "\<forall>k. n + 1 \<le> k \<and> k < 64 \<longrightarrow> rbit (ROM_NO S') k = turn R (LastDiscrepancy S1) p (ROM_NO S') k"
    using Suc.hyps(1) [OF n(3) n(2) s(5,6) [folded s(1)] l1 p' c lz] by blast
  have a': "agree n (ROM_NO S') (ROM_NO S)"
    using S'(7) a s(1) agree_le [of "n + 1" "ROM_NO S'" "ROM_NO S1" n] agree_trans by auto
  have "rbit (ROM_NO S') n = turn R (LastDiscrepancy S) p (ROM_NO S') n"
    using S'(7) xb [OF Suc.prems(1)] turn_cong [OF a'] s(1) by (simp add: agree_Suc)
  moreover have "k = n \<or> n + 1 \<le> k" if "n \<le> k" for k using that by auto
  ultimately have "\<forall>k. n \<le> k \<and> k < 64 \<longrightarrow> rbit (ROM_NO S') k = turn R (LastDiscrepancy S) p (ROM_NO S') k"
    using S'(8) s(2) by metis
  then show ?case using S' s a' by (intro exI [of _ S'] exI [of _ b']) simp
qed

lemma OWSearch_finds:
  assumes bus: "is_bus B R searching" and R: "\<forall>r \<in> R. is_rom r" "R \<noteq> {}" and S: "\<not> LastDeviceFlag S" "length (ROM_NO S) = 8"
  shows "\<exists>S' b'. OWSearch B S b = (True, S', b') \<and> ROM_NO S' \<in> R \<and> LastDiscrepancy S' = last_fork R (ROM_NO S') 64 \<and>
    LastDeviceFlag S' = (last_fork R (ROM_NO S') 64 = 0) \<and>
    (\<forall>k < 64. rbit (ROM_NO S') k = turn R (LastDiscrepancy S) (ROM_NO S) (ROM_NO S') k)"
proof -
  let ?S = "S\<lparr>crc8 := 0\<rparr>" and ?b = "OWWriteByte B 0xF0 (snd (OWReset B b))"
  have r: "fst (OWReset B b)" "searching ?b 0 0 R" using bus R(2) by (simp_all add: is_bus_def)
  have h: "searching ?b 0 0 {r \<in> R. agree 0 r (ROM_NO ?S)}" "\<exists>r \<in> R. agree 0 r (ROM_NO ?S)" using r(2) R(2) by auto
  obtain S1 b' where S1: "search_loop B 1 0 0 1 ?S ?b = (65, last_fork R (ROM_NO S1) 64, S1, b')"
      "LastDeviceFlag S1 = LastDeviceFlag S" "crc8 S1 = rom_crc (ROM_NO S1)" "length (ROM_NO S1) = 8"
      "\<exists>r \<in> R. agree 64 r (ROM_NO S1)" "\<forall>k < 64. rbit (ROM_NO S1) k = turn R (LastDiscrepancy S) (ROM_NO S) (ROM_NO S1) k"
    using search_loop_finds [OF bus, of 0 ?b ?S "ROM_NO S" 0] h S(2) by (auto simp: rom_crc_def)
  have x: "ROM_NO S1 \<in> R" using S1(4,5) agree_eq R(1) unfolding is_rom_def by metis
  then have c: "crc8 S1 = 0" "ROM_NO S1 ! 0 \<noteq> 0" using R(1) S1(3) by (simp_all add: is_rom_def)
  let ?S' = "S1\<lparr>LastDiscrepancy := last_fork R (ROM_NO S1) 64, LastDeviceFlag := last_fork R (ROM_NO S1) 64 = 0 \<or> LastDeviceFlag S1\<rparr>"
  have "OWSearch B S b = (True, ?S', b')"
    using r(1) S(1) S1(1) c by (cases "OWReset B b") (simp add: OWSearch_def Let_def end_search_def)
  then show ?thesis using x S1(2,6) S(1) by (intro exI [of _ ?S'] exI [of _ b']) simp
qed

lemma OWSearch_ends:
  "LastDeviceFlag S \<or> is_bus B {} searching \<Longrightarrow> \<exists>S' b'. OWSearch B S b = (False, S', b') \<and> ROM_NO S' = ROM_NO S"
proof (elim disjE)
  assume "is_bus B {} searching"
  then have "\<not> fst (OWReset B b)" by (simp add: is_bus_def)
  then show ?thesis by (cases "OWReset B b") (simp add: OWSearch_def Let_def end_search_def reset_search_def)
qed (simp add: OWSearch_def Let_def end_search_def reset_search_def)

section \<open>The order of the search\<close>

lemma last_fork_0: "last_fork R x n = 0 \<longleftrightarrow> (\<forall>k < n. \<not> fork R x k)"
  by (induction n) (auto simp: less_Suc_eq)

lemma last_fork_pos:
  "last_fork R x n \<noteq> 0 \<Longrightarrow> \<exists>k < n. last_fork R x n = int k + 1 \<and> fork R x k \<and> (\<forall>j < n. fork R x j \<longrightarrow> j \<le> k)"
proof (induction n)
  case (Suc n)
  show ?case
  proof (cases "fork R x n")
    case True
    then show ?thesis by (intro exI [of _ n]) auto
  next
    case False
    then obtain k where "k < n" "last_fork R x n = int k + 1" "fork R x k" "\<forall>j < n. fork R x j \<longrightarrow> j \<le> k" using Suc by auto
    then show ?thesis using False by (intro exI [of _ k]) (auto simp: less_Suc_eq)
  qed
qed simp

lemma turn_conflict:
  assumes "y \<in> R" "x \<in> R" "agree k y x" "rbit y k \<noteq> rbit x k"
  shows "turn R d p x k = (if int k + 1 < d then rbit p k else int k + 1 = d)"
  using assms by (auto simp: turn_def)

lemma turn_agrees: "y \<in> R \<Longrightarrow> agree k y x \<Longrightarrow> int k + 1 < d \<Longrightarrow> turn R d y x k = rbit y k"
  by (auto simp: turn_def)

text \<open>Behind the last discrepancy the search takes the smallest number.\<close>

lemma search_smallest:
  assumes x: "x \<in> R" "length x = 8" "\<forall>k < 64. rbit x k = turn R d p x k"
    and y: "y \<in> R" "length y = 8" "agree n y x" "d \<le> int n"
  shows "y = x \<or> rless x y"
proof (cases "y = x")
  case False
  then obtain k where k: "k < 64" "agree k y x" "rbit y k \<noteq> rbit x k" using first_difference [of y x] x(2) y(2) by blast
  have "n \<le> k" using k(2,3) y(3) by (metis agree_def not_le)
  then have "\<not> rbit x k" using turn_conflict [OF y(1) x(1) k(2,3), of d p] x(3) k(1) y(4) by simp
  then show ?thesis using k by (auto simp: rless_def agree_sym)
qed simp

text \<open>After the number \<open>p\<close> it takes the next one.\<close>

lemma search_next:
  assumes R: "\<forall>r \<in> R. length r = 8" and p: "p \<in> R" "last_fork R p 64 = d" "d \<noteq> 0"
    and x: "x \<in> R" "\<forall>k < 64. rbit x k = turn R d p x k"
  shows "rless p x" "\<forall>y \<in> R. rless p y \<longrightarrow> y = x \<or> rless x y"
proof -
  obtain k where k: "k < 64" "d = int k + 1" "fork R p k" "\<forall>j < 64. fork R p j \<longrightarrow> j \<le> k"
    using last_fork_pos [of R p 64] p(2,3) by auto
  have "n \<le> k \<Longrightarrow> agree n p x" for n
  proof (induction n)
    case (Suc n)
    then have a: "agree n p x" and n: "n < 64" "int n + 1 < d" using k(1,2) by auto
    then show ?case using turn_agrees [OF p(1) a n(2)] x(2) by (simp add: agree_Suc)
  qed simp
  then have a: "agree k p x" by simp
  obtain r where r: "r \<in> R" "agree k r p" "rbit r k" "\<not> rbit p k" using k(3) by (auto simp: fork_def)
  have "rbit x k"
  proof (rule ccontr)
    assume n: "\<not> rbit x k"
    have "turn R d p x k" using turn_conflict [OF r(1) x(1) agree_trans [OF r(2) a], of d p] r(3) n k(2) by simp
    then show False using n x(2) k(1) by blast
  qed
  then show "rless p x" using a k(1) r(4) by (auto simp: rless_def)
  show "\<forall>y \<in> R. rless p y \<longrightarrow> y = x \<or> rless x y"
  proof (intro ballI impI)
    fix y assume y: "y \<in> R" "rless p y"
    then obtain j where j: "j < 64" "agree j p y" "\<not> rbit p j" "rbit y j" by (auto simp: rless_def)
    then have "fork R p j" using y(1) by (auto simp: fork_def agree_sym)
    then have jk: "j \<le> k" using k(4) j(1) by blast
    show "y = x \<or> rless x y"
    proof (cases "j = k")
      case True
      have "agree k y p" using j(2) True agree_sym by simp
      then have "agree (Suc k) y x" using agree_trans [OF _ a] j(4) True \<open>rbit x k\<close> by (simp add: agree_Suc)
      then show ?thesis using search_smallest [OF x(1) _ x(2) y(1), of "Suc k"] R x(1) y(1) k(2) by simp
    next
      case False
      then have "agree j x y" "\<not> rbit x j" using jk a j agree_le [OF a] agree_trans agree_sym by (auto simp: agree_def)
      then show ?thesis using j by (auto simp: rless_def)
    qed
  qed
qed

lemma no_more:
  assumes "last_fork R p 64 = 0" "y \<in> R"
  shows "\<not> rless p y"
  using assms by (auto simp: last_fork_0 rless_def fork_def agree_sym)

section \<open>A bus\<close>

text \<open>The devices of a bus as a state machine: the bits of a command, least significant first, and the search.\<close>

datatype wire = Idle | Command "bool list" | Searching nat nat "8 word list list"

definition wire_bus :: "8 word list list \<Rightarrow> wire ow_bus" where
  "wire_bus roms = \<lparr>
     OWReset = (\<lambda>b. (roms \<noteq> [], Command [])),
     OWReadBit = (\<lambda>b. case b of
         Searching n f D \<Rightarrow> (if f = 0 then list_all (\<lambda>r. rbit r n) D else list_all (\<lambda>r. \<not> rbit r n) D, Searching n (f + 1) D)
       | _ \<Rightarrow> (True, b)),
     OWWriteBit = (\<lambda>d b. case b of
         Idle \<Rightarrow> Idle
       | Command bs \<Rightarrow>
           (if length bs < 7 then Command (bs @ [d])
            else if bs @ [d] = [False, False, False, False, True, True, True, True] then Searching 0 0 roms else Idle)
       | Searching n f D \<Rightarrow> Searching (n + 1) 0 (filter (\<lambda>r. rbit r n = d) D))\<rparr>"

lemma wire_command: "OWWriteByte (wire_bus roms) 0xF0 (Command []) = Searching 0 0 roms"
  by (simp add: OWWriteByte_def wire_bus_def upt_rec)

lemma wire_is_bus: "is_bus (wire_bus roms) (set roms) (\<lambda>b n f D. \<exists>L. b = Searching n f L \<and> set L = D)"
proof -
  have "fst (OWReset (wire_bus roms) b) = (set roms \<noteq> {}) \<and> snd (OWReset (wire_bus roms) b) = Command []" for b
    by (simp add: wire_bus_def)
  then show ?thesis unfolding is_bus_def by (simp add: wire_command) (auto simp: wire_bus_def list_all_iff)
qed

text \<open>Three devices, two of them thermometers.\<close>

definition ex_roms :: "8 word list list" where
  "ex_roms = [[38, 0, 0, 0, 0, 0, 1, 63], [16, 0, 0, 0, 0, 0, 2, 71], [16, 0, 0, 0, 0, 0, 1, 165]]"

definition ex_search :: owst where
  "ex_search = \<lparr>ROM_NO = replicate 8 0, LastDiscrepancy = 0, LastFamilyDiscrepancy = 0, LastDeviceFlag = False, crc8 = 0\<rparr>"

lemma eight_steps: "(f ^^ 8) x = f (f (f (f (f (f (f (f x)))))))"
  by (simp add: numeral_eq_Suc)

lemma ex_crc:
  shows "calc_crc8 0 38 = 254" "calc_crc8 254 0 = 107" "calc_crc8 107 0 = 69" "calc_crc8 69 0 = 121" "calc_crc8 121 0 = 100" "calc_crc8 100 0 = 4"
  "calc_crc8 4 1 = 63" "calc_crc8 0 16 = 157" "calc_crc8 157 0 = 236" "calc_crc8 236 0 = 74" "calc_crc8 74 0 = 56" "calc_crc8 56 0 = 124"
  "calc_crc8 124 0 = 91" "calc_crc8 91 2 = 71" "calc_crc8 91 1 = 165"
  by (simp_all add: calc_crc8_def eight_steps crc8_step_def)

lemma ex_roms_valid: "\<forall>r \<in> set ex_roms. is_rom r"
  by (simp add: ex_roms_def is_rom_def rom_crc_def ex_crc calc_crc8_zero)

section \<open>All devices\<close>

text \<open>What is found by the loop of an application (\<open>main.c\<close>): \<open>OWFirst\<close>, and then \<open>OWNext\<close> as long as a device is
  found, in at most \<open>n\<close> rounds.\<close>

primrec found_by :: "nat \<Rightarrow> 'b ow_bus \<Rightarrow> bool \<times> owst \<times> 'b \<Rightarrow> 8 word list list" where
  "found_by 0 B r = []"
| "found_by (Suc n) B r = (let (rslt, S, b) = r in if rslt then ROM_NO S # found_by n B (OWNext B S b) else [])"

lemma finds_rest:
  assumes bus: "is_bus B R searching" and R: "\<forall>r \<in> R. is_rom r" "finite R"
  shows "ROM_NO S \<in> R \<Longrightarrow> LastDiscrepancy S = last_fork R (ROM_NO S) 64 \<Longrightarrow> LastDeviceFlag S = (last_fork R (ROM_NO S) 64 = 0) \<Longrightarrow>
    \<exists>L. sorted_wrt rless (ROM_NO S # L) \<and> set L = {y \<in> R. rless (ROM_NO S) y} \<and> (\<forall>n. found_by n B (OWNext B S b) = take n L)"
proof (induction "card {y \<in> R. rless (ROM_NO S) y}" arbitrary: S b rule: less_induct)
  case less
  let ?p = "ROM_NO S"
  have l: "\<forall>r \<in> R. length r = 8" using R(1) by (simp add: is_rom_def)
  show ?case
  proof (cases "last_fork R ?p 64 = 0")
    case True
    then have e: "{y \<in> R. rless ?p y} = {}" using no_more by blast
    obtain S' b' where "OWNext B S b = (False, S', b')" using OWSearch_ends [of S B searching b] less.prems(3) True unfolding OWNext_def by auto
    then have "found_by n B (OWNext B S b) = []" for n by (cases n) simp_all
    then show ?thesis using e by (intro exI [of _ "[]"]) simp
  next
    case False
    have f: "\<not> LastDeviceFlag S" "length ?p = 8" "R \<noteq> {}" using less.prems False l by auto
    obtain S' b' where n: "OWNext B S b = (True, S', b')" "ROM_NO S' \<in> R" "LastDiscrepancy S' = last_fork R (ROM_NO S') 64"
        "LastDeviceFlag S' = (last_fork R (ROM_NO S') 64 = 0)" "\<forall>k < 64. rbit (ROM_NO S') k = turn R (LastDiscrepancy S) ?p (ROM_NO S') k"
      using OWSearch_finds [OF bus R(1) f(3,1,2), of b] unfolding OWNext_def by blast
    let ?x = "ROM_NO S'"
    have x: "rless ?p ?x" "\<forall>y \<in> R. rless ?p y \<longrightarrow> y = ?x \<or> rless ?x y"
      using search_next [OF l less.prems(1) less.prems(2) [symmetric] _ n(2,5)] less.prems(2) False by auto
    have sub: "{y \<in> R. rless ?p y} = insert ?x {y \<in> R. rless ?x y}" using x n(2) rless_trans by blast
    have "?x \<notin> {y \<in> R. rless ?x y}" using rless_irrefl by simp
    then have "card {y \<in> R. rless ?x y} < card {y \<in> R. rless ?p y}" unfolding sub using R(2) by simp
    then obtain L where L: "sorted_wrt rless (?x # L)" "set L = {y \<in> R. rless ?x y}" "\<forall>n. found_by n B (OWNext B S' b') = take n L"
      using less.hyps [OF _ n(2-4)] by blast
    have "found_by n B (OWNext B S b) = take n (?x # L)" for n using n(1) L(3) by (cases n) simp_all
    moreover have "sorted_wrt rless (?p # ?x # L)" using L(1,2) x(1) rless_trans by auto
    moreover have "set (?x # L) = {y \<in> R. rless ?p y}" using sub L(2) by simp
    ultimately show ?thesis by (intro exI [of _ "?x # L"]) simp
  qed
qed

text \<open>C32: the search finds every device once: \<open>OWFirst\<close> and then \<open>OWNext\<close>, repeated as long as they report a device, give
  the numbers of all devices on the bus in their order, and then end.\<close>

theorem search_finds_all:
  assumes bus: "is_bus B R searching" and R: "\<forall>r \<in> R. is_rom r" "finite R" and S: "length (ROM_NO S) = 8"
  shows "\<exists>L. sorted_wrt rless L \<and> distinct L \<and> set L = R \<and> (\<forall>n. found_by n B (OWFirst B S b) = take n L)"
proof -
  have "\<exists>L. sorted_wrt rless L \<and> set L = R \<and> (\<forall>n. found_by n B (OWFirst B S b) = take n L)"
  proof (cases "R = {}")
    case True
    obtain S' b' where "OWFirst B S b = (False, S', b')"
      using OWSearch_ends [of _ B searching] bus True unfolding OWFirst_def by blast
    then have "found_by n B (OWFirst B S b) = []" for n by (cases n) simp_all
    then show ?thesis using True by (intro exI [of _ "[]"]) simp
  next
    case False
    let ?S = "S\<lparr>LastDiscrepancy := 0, LastDeviceFlag := False, LastFamilyDiscrepancy := 0\<rparr>"
    obtain S' b' where n: "OWFirst B S b = (True, S', b')" "ROM_NO S' \<in> R" "LastDiscrepancy S' = last_fork R (ROM_NO S') 64"
        "LastDeviceFlag S' = (last_fork R (ROM_NO S') 64 = 0)" "\<forall>k < 64. rbit (ROM_NO S') k = turn R 0 (ROM_NO S) (ROM_NO S') k"
      using OWSearch_finds [OF bus R(1) False, of ?S b] S unfolding OWFirst_def by auto
    have l: "\<forall>r \<in> R. length r = 8" using R(1) by (simp add: is_rom_def)
    have "y = ROM_NO S' \<or> rless (ROM_NO S') y" if "y \<in> R" for y
      using search_smallest [OF n(2) _ n(5) that, of 0] l n(2) that by simp
    then have R': "R = insert (ROM_NO S') {y \<in> R. rless (ROM_NO S') y}" using n(2) by blast
    obtain L where L: "sorted_wrt rless (ROM_NO S' # L)" "set L = {y \<in> R. rless (ROM_NO S') y}" "\<forall>n. found_by n B (OWNext B S' b') = take n L"
      using finds_rest [OF bus R n(2-4)] by blast
    have "found_by n B (OWFirst B S b) = take n (ROM_NO S' # L)" for n using n(1) L(3) by (cases n) simp_all
    moreover have "set (ROM_NO S' # L) = R" using R' L(2) by auto
    ultimately show ?thesis using L(1) by blast
  qed
  moreover have "distinct L" if "sorted_wrt rless L" for L using that by (induction L) (auto simp: rless_irrefl)
  ultimately show ?thesis by blast
qed

theorem search_finds_all_witness:
  "\<exists>L. set L = set ex_roms \<and> found_by 4 (wire_bus ex_roms) (OWFirst (wire_bus ex_roms) ex_search Idle) = take 4 L"
  using search_finds_all [OF wire_is_bus ex_roms_valid, of ex_search Idle] by (auto simp: ex_search_def)

section \<open>One device\<close>

text \<open>C33: \<open>OWVerify\<close> tells whether the device with the number in \<open>ROM_NO\<close> is on the bus, and leaves the state of a search that
  goes on as it was.\<close>

theorem verify_present:
  assumes bus: "is_bus B R searching" and R: "\<forall>r \<in> R. is_rom r" and S: "length (ROM_NO S) = 8"
  shows "\<exists>c b'. OWVerify B S b = (ROM_NO S \<in> R, S\<lparr>crc8 := c\<rparr>, b')"
proof -
  let ?S = "S\<lparr>LastDiscrepancy := 64, LastDeviceFlag := False\<rparr>" and ?p = "ROM_NO S"
  obtain f S' b' where s: "OWSearch B ?S b = (f, S', b')" by (metis prod_cases3)
  have "(f \<and> (\<forall>i < 8. ?p ! i = ROM_NO S' ! i)) = (?p \<in> R)"
  proof (cases "R = {}")
    case True
    then show ?thesis using OWSearch_ends [of ?S B searching b] bus s by auto
  next
    case False
    have x: "f" "ROM_NO S' \<in> R" "\<forall>k < 64. rbit (ROM_NO S') k = turn R 64 ?p (ROM_NO S') k"
      using OWSearch_finds [OF bus R False, of ?S b] s S by auto
    have "?p = ROM_NO S'" if p: "?p \<in> R"
    proof (rule is_rom_unique)
      have "n \<le> 56 \<Longrightarrow> agree n ?p (ROM_NO S')" for n
      proof (induction n)
        case (Suc n)
        then show ?case using turn_agrees [OF p, of n "ROM_NO S'" 64] x(3) by (simp add: agree_Suc)
      qed simp
      then show "agree 56 ?p (ROM_NO S')" by simp
    qed (use R p x(2) in auto)
    moreover have "(\<forall>i < 8. ?p ! i = ROM_NO S' ! i) = (?p = ROM_NO S')"
      using R x(2) S by (auto simp: is_rom_def list_eq_iff_nth_eq)
    ultimately show ?thesis using x(1,2) by auto
  qed
  then have "OWVerify B S b = (?p \<in> R, S\<lparr>crc8 := crc8 S'\<rparr>, b')" by (simp add: OWVerify_def s)
  then show ?thesis by blast
qed

theorem verify_present_witness:
  "\<exists>c b'. OWVerify (wire_bus ex_roms) (ex_search\<lparr>ROM_NO := [16, 0, 0, 0, 0, 0, 2, 71]\<rparr>) Idle =
     (True, ex_search\<lparr>ROM_NO := [16, 0, 0, 0, 0, 0, 2, 71], crc8 := c\<rparr>, b')"
  using verify_present [OF wire_is_bus ex_roms_valid, of "ex_search\<lparr>ROM_NO := [16, 0, 0, 0, 0, 0, 2, 71]\<rparr>" Idle]
  by (simp add: ex_roms_def)

lemma target_bits: "k < 64 \<Longrightarrow> rbit (t # replicate 7 0) k = (k < 8 \<and> bit t k)"
proof -
  assume "k < 64"
  then have "k div 8 = 0 \<or> (\<exists>i. k div 8 = Suc i \<and> i < 7)" by (cases "k div 8") auto
  moreover have "k div 8 = 0 \<longleftrightarrow> k < 8" by (simp add: div_eq_0_iff)
  ultimately show ?thesis by (auto simp: rbit_def nth_Cons')
qed

text \<open>\<open>OWFirstType\<close> reports whether there is a device of a family, and finds the first one.\<close>

theorem first_of_type:
  assumes bus: "is_bus B R searching" and R: "\<forall>r \<in> R. is_rom r"
  shows "\<exists>S' b'. OWFirstType B t S b = ((\<exists>r \<in> R. r ! 0 = t), S', b') \<and>
    (\<forall>r \<in> R. r ! 0 = t \<longrightarrow> ROM_NO S' \<in> R \<and> ROM_NO S' ! 0 = t \<and> (r = ROM_NO S' \<or> rless (ROM_NO S') r))"
proof (cases "R = {}")
  case True
  obtain S' b' where "OWSearch B (OWTargetSetup t S) b = (False, S', b')"
    using OWSearch_ends [of "OWTargetSetup t S" B searching b] bus True by auto
  then show ?thesis using True by (simp add: OWFirstType_def OWNextType_def OWNext_def)
next
  case False
  let ?p = "t # replicate 7 0 :: 8 word list"
  obtain S' b' where s: "OWSearch B (OWTargetSetup t S) b = (True, S', b')" "ROM_NO S' \<in> R"
      "\<forall>k < 64. rbit (ROM_NO S') k = turn R 64 ?p (ROM_NO S') k"
    using OWSearch_finds [OF bus R False, of "OWTargetSetup t S" b] by (auto simp: OWTargetSetup_def)
  let ?x = "ROM_NO S'"
  have l: "\<forall>r \<in> R. length r = 8" using R by (simp add: is_rom_def)
  have first: "?x ! 0 = t" if r: "r \<in> R" "r ! 0 = t" for r
  proof -
    have "n \<le> 8 \<Longrightarrow> agree n r ?x" for n
    proof (induction n)
      case (Suc n)
      then have a: "agree n r ?x" and n: "n < 64" "n < 8" by auto
      have "rbit r n = rbit ?p n" using r(2) n by (simp add: target_bits) (simp add: rbit_def)
      then have "rbit r n = rbit ?x n" using turn_conflict [OF r(1) s(2) a, of 64 ?p] s(3) n by auto
      then show ?case using a by (simp add: agree_Suc)
    qed simp
    then have "take 1 r = take 1 ?x" using agree_bytes [of 1 r ?x] l r(1) s(2) by simp
    then show ?thesis using r l s(2) by (metis nth_take zero_less_one)
  qed
  have least: "r = ?x \<or> rless ?x r" if r: "r \<in> R" "r ! 0 = t" for r
  proof (cases "r = ?x")
    case False
    then obtain k where k: "k < 64" "agree k r ?x" "rbit r k \<noteq> rbit ?x k" using first_difference [of r ?x] l r(1) s(2) by auto
    have "8 \<le> k"
    proof (rule ccontr)
      assume "\<not> 8 \<le> k"
      then show False using k(3) first [OF r] r(2) by (simp add: rbit_def)
    qed
    moreover have "k < 56" using is_rom_unique [of r ?x] agree_le [OF k(2), of 56] R r(1) s(2) False by (meson not_le)
    ultimately have "\<not> rbit ?x k" using turn_conflict [OF r(1) s(2) k(2,3), of 64 ?p] s(3) k(1) target_bits [OF k(1), of t] by simp
    then show ?thesis using k by (auto simp: rless_def agree_sym)
  qed simp
  have "OWFirstType B t S b = ((\<exists>r \<in> R. r ! 0 = t), S', b')"
    using s first by (auto simp: OWFirstType_def OWNextType_def OWNext_def)
  then show ?thesis using first least s(2) by blast
qed

theorem first_of_type_witness:
  "\<exists>S' b'. OWFirstType (wire_bus ex_roms) 0x10 ex_search Idle = (True, S', b') \<and> ROM_NO S' ! 0 = 0x10"
  using first_of_type [OF wire_is_bus ex_roms_valid, of "0x10" ex_search Idle] by (auto simp: ex_roms_def)

end
