(* ===== verification/RemoteFile.thy ===== *)
theory RemoteFile
  imports Dgram Dev Names
begin

text \<open>
  Remote files (\<open>src/sys/rf\<close>, \<open>src/sys/h/rfile.h\<close>, \<open>fserver.h\<close>): a pseudo device for every open file,
  whose operations are requests to the file server. The server is reached through a device of the
  switch, a datagram device in the configuration without the wireless library; its routines are the
  argument \<open>serverdev\<close>. The request and the reply share the one buffer \<open>fpkt\<close>, as octets. The calls of
  \<open>wait\<close> and \<open>signal\<close> are recorded in their order. \<open>None\<close> is an access outside the buffer.
\<close>

unbundle bit_operations_syntax

section \<open>The file server's packets\<close>

definition FS_ERROR :: int where "FS_ERROR = - 1"
definition FS_OPEN :: int where "FS_OPEN = 0"
definition FS_CLOSE :: int where "FS_CLOSE = 1"
definition FS_READ :: int where "FS_READ = 2"
definition FS_WRITE :: int where "FS_WRITE = 3"
definition FS_UNLINK :: int where "FS_UNLINK = 4"
definition FS_RENAME :: int where "FS_RENAME = 5"
definition FS_MKDIR :: int where "FS_MKDIR = 6"
definition FS_RMDIR :: int where "FS_RMDIR = 7"
definition FS_ACCESS :: int where "FS_ACCESS = 8"
definition RDATLEN :: int where "RDATLEN = 512"
definition RNAMLEN :: nat where "RNAMLEN = 80"
definition RCLOSED :: int where "RCLOSED = - 1"

definition F_POS :: nat where "F_POS = 0"
definition F_COUNT :: nat where "F_COUNT = 4"
definition F_OP :: nat where "F_OP = 6"
definition F_NAME :: nat where "F_NAME = 8"
definition FPHLEN :: nat where "FPHLEN = 88"
definition FPPLEN :: nat where "FPPLEN = 600"

definition s32 :: "int \<Rightarrow> int" where
  "s32 x = (x + 2147483648) mod 4294967296 - 2147483648"

definition octets32 :: "int \<Rightarrow> int list" where
  "octets32 v = [v mod 256, v div 256 mod 256, v div 65536 mod 256, v div 16777216 mod 256]"

definition get32 :: "nat \<Rightarrow> packet \<Rightarrow> int option" where
  "get32 off p =
     map_option (\<lambda>bs. bs ! 0 + 256 * bs ! 1 + 65536 * bs ! 2 + 16777216 * bs ! 3) (get_bytes off 4 p)"

definition put32 :: "nat \<Rightarrow> int \<Rightarrow> packet \<Rightarrow> packet option" where
  "put32 off v p = put_bytes off (octets32 v) p"

definition str_octets :: "string \<Rightarrow> int list" where
  "str_octets s = map of_char s"

definition strncpy_octets :: "nat \<Rightarrow> string \<Rightarrow> int list" where
  "strncpy_octets n s = take n (str_octets s @ replicate n 0)"

section \<open>The state\<close>

datatype rfstate = RFREE | RUSED | ROTHER

record rfblk =
  rf_dnum :: int
  rf_name :: string
  rf_state :: rfstate
  rf_mode :: int
  rf_mutex :: int
  rf_pos :: int

datatype semcall = Wait int | Signal int

text \<open>\<open>serverdev\<close> has the routines of the device of the server: \<open>open(INTERNET, RSERVER, ANYLPORT)\<close>, \<open>control\<close>,
  \<open>write\<close> and \<open>read\<close>; the first argument of the last three is the number of the device.\<close>

record 'd serverdev =
  sv_open :: "'d \<Rightarrow> (int \<times> 'd) option"
  sv_control :: "int \<Rightarrow> int \<Rightarrow> int \<Rightarrow> 'd \<Rightarrow> (int \<times> 'd) option"
  sv_write :: "int \<Rightarrow> int list \<Rightarrow> 'd \<Rightarrow> (int \<times> 'd) option"
  sv_read :: "int \<Rightarrow> int \<Rightarrow> 'd \<Rightarrow> (int \<times> int list \<times> 'd) option"

record 'd rfinfo =
  device :: int
  rmutex :: int
  rftab :: "rfblk list"
  fpkt :: packet
  link :: 'd
  semcalls :: "semcall list"

definition rcall :: "semcall \<Rightarrow> 'd rfinfo \<Rightarrow> 'd rfinfo" where
  "rcall c s = s\<lparr>semcalls := semcalls s @ [c]\<rparr>"

definition set_rfblk :: "nat \<Rightarrow> (rfblk \<Rightarrow> rfblk) \<Rightarrow> 'd rfinfo \<Rightarrow> 'd rfinfo" where
  "set_rfblk i f s = s\<lparr>rftab := (rftab s)[i := f (rftab s ! i)]\<rparr>"

text \<open>\<open>sem\<close> and \<open>rsem\<close> are what \<open>screate\<close> returns.\<close>

definition rfinit :: "nat \<Rightarrow> int \<Rightarrow> int \<Rightarrow> int \<Rightarrow> 'd rfinfo \<Rightarrow> 'd rfinfo" where
  "rfinit dvminor dvnum sem rsem s =
     (let s = set_rfblk dvminor
                (\<lambda>b. b\<lparr>rf_dnum := dvnum, rf_name := [], rf_state := RFREE, rf_mutex := sem, rf_pos := 0\<rparr>) s
      in if dvminor = 0 then s\<lparr>device := RCLOSED, rmutex := rsem\<rparr> else s)"

fun rfalloc :: "nat \<Rightarrow> rfblk list \<Rightarrow> (nat \<times> rfblk list) option" where
  "rfalloc i [] = None"
| "rfalloc i (b # bs) =
     (if rf_state b = RFREE then Some (i, b\<lparr>rf_state := RUSED\<rparr> # bs)
      else map_option (\<lambda>(k, bs). (k, b # bs)) (rfalloc (i + 1) bs))"

section \<open>Requests\<close>

definition RMAXTRY :: nat where "RMAXTRY = 2"

fun rf_try :: "'d serverdev \<Rightarrow> nat \<Rightarrow> int \<Rightarrow> int \<Rightarrow> 'd rfinfo \<Rightarrow> (int \<times> 'd rfinfo) option" where
  "rf_try L 0 reqlen rplylen s = Some (SYSERR, s)"
| "rf_try L (Suc n) reqlen rplylen s = do {
     req \<leftarrow> get_bytes 0 (nat reqlen) (fpkt s);
     (r, d) \<leftarrow> sv_write L (device s) req (link s);
     if r = SYSERR then Some (SYSERR, s\<lparr>link := d\<rparr>)
     else do {
       (ret, dat, d) \<leftarrow> sv_read L (device s) rplylen d;
       p \<leftarrow> put_bytes 0 dat (fpkt s);
       let s = s\<lparr>link := d, fpkt := p\<rparr>;
       if ret \<noteq> SYSERR \<and> ret \<noteq> TIMEOUT then Some (ret, s) else rf_try L n reqlen rplylen s
     }
   }"

definition rf_connect :: "'d serverdev \<Rightarrow> 'd rfinfo \<Rightarrow> (bool \<times> 'd rfinfo) option" where
  "rf_connect L s =
     (if device s \<noteq> RCLOSED then Some (True, s)
      else do {
        (dev, d) \<leftarrow> sv_open L (link s);
        let s = s\<lparr>device := dev, link := d\<rparr>;
        if dev = SYSERR then Some (False, s)
        else do {
          (r, d) \<leftarrow> sv_control L dev DG_SETMODE (DG_DMODE OR DG_TMODE) d;
          Some (r \<noteq> SYSERR, s\<lparr>link := d\<rparr>)
        }
      })"

definition rfsend :: "'d serverdev \<Rightarrow> int \<Rightarrow> int \<Rightarrow> 'd rfinfo \<Rightarrow> (int \<times> 'd rfinfo) option" where
  "rfsend L reqlen rplylen s = do {
     (up, s) \<leftarrow> rf_connect L s;
     if \<not> up then Some (SYSERR, s)
     else do {
       (_, d) \<leftarrow> sv_control L (device s) DG_CLEAR 0 (link s);
       rf_try L RMAXTRY reqlen rplylen (s\<lparr>link := d\<rparr>)
     }
   }"

definition rf_header :: "int \<Rightarrow> string \<Rightarrow> int \<Rightarrow> int \<Rightarrow> packet \<Rightarrow> packet option" where
  "rf_header rop rname pos len p = do {
     p \<leftarrow> put16 F_OP (hton16 (u16 rop)) p;
     p \<leftarrow> put32 F_POS (hton32 (u32 pos)) p;
     p \<leftarrow> put16 F_COUNT (hton16 (u16 len)) p;
     put_bytes F_NAME (strncpy_octets RNAMLEN rname) p
   }"

text \<open>The operations whose request and reply are headers alone.\<close>

definition header_ops :: "int list" where
  "header_ops = [FS_CLOSE, FS_OPEN, FS_UNLINK, FS_MKDIR, FS_RMDIR, FS_ACCESS]"

text \<open>The request with its length and the length of the reply; \<open>Some None\<close> when there is too much data.\<close>

definition rf_request :: "int \<Rightarrow> int list \<Rightarrow> int \<Rightarrow> packet \<Rightarrow> (packet \<times> int \<times> int) option option" where
  "rf_request rop buff len p =
     (let full = int FPHLEN + len
      in if rop = FS_WRITE \<or> rop = FS_RENAME
         then if len > RDATLEN then Some None
              else map_option (\<lambda>p. Some (p, full, int FPHLEN)) (Option.bind (get_bytes 0 (nat len) buff) (\<lambda>dat. put_bytes FPHLEN dat p))
         else if rop \<in> set header_ops
         then if len > RDATLEN then Some None else Some (Some (p, int FPHLEN, int FPHLEN))
         else if rop = FS_READ
         then if len > RDATLEN then Some None else Some (Some (p, int FPHLEN, full))
         else if 0 \<le> full \<and> full \<le> int FPPLEN then Some (Some (p, full, full)) else None)"

text \<open>The value, the new position, and what is stored at the caller's buffer.\<close>

definition rf_reply :: "int \<Rightarrow> int \<Rightarrow> int \<Rightarrow> packet \<Rightarrow> (int \<times> int \<times> int list) option" where
  "rf_reply rop pos len p =
     (if rop = FS_READ \<or> rop = FS_WRITE
      then do {
        dat \<leftarrow> (if rop = FS_READ then get_bytes FPHLEN (nat len) p else Some []);
        npos \<leftarrow> get32 F_POS p;
        cnt \<leftarrow> get16 F_COUNT p;
        Some (s16 (hton16 cnt), s32 (hton32 npos), dat)
      }
      else Some (OK, pos, []))"

definition rfmkpac ::
  "'d serverdev \<Rightarrow> int \<Rightarrow> string \<Rightarrow> int \<Rightarrow> int list \<Rightarrow> int \<Rightarrow> 'd rfinfo \<Rightarrow> (int \<times> int \<times> int list \<times> 'd rfinfo) option" where
  "rfmkpac L rop rname rpos buff len s = do {
     let s = rcall (Wait (rmutex s)) s;
     p \<leftarrow> rf_header rop rname rpos len (fpkt s);
     req \<leftarrow> rf_request rop buff len p;
     case req of
       None \<Rightarrow> Some (SYSERR, rpos, [], rcall (Signal (rmutex s)) (s\<lparr>fpkt := p\<rparr>))
     | Some (p, reqlen, rplylen) \<Rightarrow> do {
         (r, s) \<leftarrow> rfsend L reqlen rplylen (s\<lparr>fpkt := p\<rparr>);
         op \<leftarrow> get16 F_OP (fpkt s);
         if r = SYSERR \<or> hton16 op = u16 FS_ERROR then Some (SYSERR, rpos, [], rcall (Signal (rmutex s)) s)
         else do {
           (n, pos, dat) \<leftarrow> rf_reply rop rpos len (fpkt s);
           Some (n, pos, dat, rcall (Signal (rmutex s)) s)
         }
       }
   }"

definition rfio ::
  "'d serverdev \<Rightarrow> nat \<Rightarrow> int \<Rightarrow> int list \<Rightarrow> int \<Rightarrow> 'd rfinfo \<Rightarrow> (int \<times> int list \<times> 'd rfinfo) option" where
  "rfio L i rop buff len s =
     (let mutex = rf_mutex (rftab s ! i); s = rcall (Wait mutex) s; b = rftab s ! i
      in if len < 0 \<or> rf_state b = RFREE then Some (SYSERR, [], rcall (Signal mutex) s)
         else do {
           (r, pos, dat, s) \<leftarrow> rfmkpac L rop (rf_name b) (rf_pos b) buff len s;
           Some (r, dat, rcall (Signal mutex) (set_rfblk i (\<lambda>b. b\<lparr>rf_pos := pos\<rparr>) s))
         })"

section \<open>The operations of a remote file\<close>

text \<open>
  A file is the index of its block; \<open>rfinit\<close> makes it the device of the number \<open>rf_dnum\<close>. The terminator of a name of
  80 characters is stored in the octet after the name, the lower one of the state: 1 becomes 0, which is neither
  \<open>RFREE\<close> nor \<open>RUSED\<close>.
\<close>

definition rf_setup :: "nat \<Rightarrow> string \<Rightarrow> int \<Rightarrow> 'd rfinfo \<Rightarrow> 'd rfinfo" where
  "rf_setup i nam mbits s =
     set_rfblk i (\<lambda>b. b\<lparr>rf_name := nam, rf_state := (if length nam = RNAMLEN then ROTHER else rf_state b),
       rf_mode := mbits, rf_pos := 0\<rparr>) s"

definition rfopen :: "'d serverdev \<Rightarrow> string \<Rightarrow> string \<Rightarrow> 'd rfinfo \<Rightarrow> (int \<times> 'd rfinfo) option" where
  "rfopen L nam mode s =
     (if length nam > RNAMLEN \<or> ckmode mode = SYSERR then Some (SYSERR, s)
      else case rfalloc 0 (rftab s) of
        None \<Rightarrow> Some (SYSERR, s)
      | Some (i, bs) \<Rightarrow> do {
          let s = rf_setup i nam (ckmode mode) (s\<lparr>rftab := bs\<rparr>);
          (r, _, s) \<leftarrow> rfio L i FS_OPEN [] 0 s;
          Some (if r = SYSERR then (SYSERR, set_rfblk i (\<lambda>b. b\<lparr>rf_state := RFREE\<rparr>) s)
                else (rf_dnum (rftab s ! i), s))
        })"

definition rfclose :: "'d serverdev \<Rightarrow> nat \<Rightarrow> 'd rfinfo \<Rightarrow> (int \<times> 'd rfinfo) option" where
  "rfclose L i s =
     (let b = rftab s ! i
      in if rf_state b = RFREE then Some (SYSERR, s)
         else do {
           (_, _, _, s) \<leftarrow> rfmkpac L FS_CLOSE (rf_name b) 0 [] 0 (rcall (Wait (rf_mutex b)) s);
           Some (OK, rcall (Signal (rf_mutex b)) (set_rfblk i (\<lambda>b. b\<lparr>rf_state := RFREE\<rparr>) s))
         })"

definition rfread :: "'d serverdev \<Rightarrow> nat \<Rightarrow> int \<Rightarrow> 'd rfinfo \<Rightarrow> (int \<times> int list \<times> 'd rfinfo) option" where
  "rfread L i len s = rfio L i FS_READ [] (min len RDATLEN) s"

function rfwrite_loop ::
  "'d serverdev \<Rightarrow> nat \<Rightarrow> int list \<Rightarrow> int \<Rightarrow> 'd rfinfo \<Rightarrow> (bool \<times> 'd rfinfo) option" where
  "rfwrite_loop L i buff n s =
     (if n > 0
      then do {
        (r, _, s) \<leftarrow> rfio L i FS_WRITE buff (min n RDATLEN) s;
        if r = SYSERR then Some (False, s)
        else rfwrite_loop L i (drop (nat RDATLEN) buff) (n - RDATLEN) s
      }
      else Some (True, s))"
  by pat_completeness auto
termination by (relation "measure (\<lambda>(_, _, _, n, _). nat n)") (auto simp: RDATLEN_def)

declare rfwrite_loop.simps [simp del]

definition rfwrite :: "'d serverdev \<Rightarrow> nat \<Rightarrow> int list \<Rightarrow> int \<Rightarrow> 'd rfinfo \<Rightarrow> (int \<times> 'd rfinfo) option" where
  "rfwrite L i buff len s =
     (if len < 0 then Some (SYSERR, s)
      else do { (ok, s) \<leftarrow> rfwrite_loop L i buff len s; Some (if ok then len else SYSERR, s) })"

definition rfseek :: "nat \<Rightarrow> int \<Rightarrow> 'd rfinfo \<Rightarrow> int \<times> 'd rfinfo" where
  "rfseek i offset s =
     (let mutex = rf_mutex (rftab s ! i)
      in (OK, rcall (Signal mutex) (set_rfblk i (\<lambda>b. b\<lparr>rf_pos := offset\<rparr>) (rcall (Wait mutex) s))))"

definition rfgetc :: "'d serverdev \<Rightarrow> nat \<Rightarrow> 'd rfinfo \<Rightarrow> (int \<times> 'd rfinfo) option" where
  "rfgetc L i s = do {
     (r, dat, s) \<leftarrow> rfread L i 1 s;
     Some (if r = 1 then hd dat else if r \<noteq> EOF then SYSERR else r, s)
   }"

definition rfputc :: "'d serverdev \<Rightarrow> nat \<Rightarrow> int \<Rightarrow> 'd rfinfo \<Rightarrow> (int \<times> 'd rfinfo) option" where
  "rfputc L i ch s = do {
     (r, s) \<leftarrow> rfwrite L i [u8 ch] 1 s;
     Some (if r = 1 then OK else SYSERR, s)
   }"

text \<open>The argument of a control function is a name, a number or nothing.\<close>

datatype ctlarg = CName string | CInt int | CNull

definition RFCLEAR :: int where "RFCLEAR = 1"
definition FLACCESS :: int where "FLACCESS = 3002"

definition rfcntl ::
  "'d serverdev \<Rightarrow> int \<Rightarrow> ctlarg \<Rightarrow> ctlarg \<Rightarrow> 'd rfinfo \<Rightarrow> (int \<times> 'd rfinfo) option" where
  "rfcntl L func addr addr2 s =
     (if func = RFCLEAR
      then do { (_, d) \<leftarrow> sv_control L (device s) DG_CLEAR 0 (link s); Some (OK, s\<lparr>link := d\<rparr>) }
      else if func = FLACCESS
      then case (addr, addr2) of
          (CName nam, CInt mode) \<Rightarrow> map_option (\<lambda>(r, _, _, s). (r, s)) (rfmkpac L FS_ACCESS nam 0 [] mode s)
        | _ \<Rightarrow> None
      else if func = FLREMOVE
      then case addr of
          CName nam \<Rightarrow> map_option (\<lambda>(r, _, _, s). (r, s)) (rfmkpac L FS_UNLINK nam 0 [] 0 s)
        | _ \<Rightarrow> None
      else if func = FLRENAME
      then case (addr, addr2) of
          (CName nam, CName new) \<Rightarrow>
            map_option (\<lambda>(r, _, _, s). (r, s))
              (rfmkpac L FS_RENAME nam 0 (str_octets new @ [0]) (int (length new) + 1) s)
        | _ \<Rightarrow> None
      else Some (SYSERR, s))"

section \<open>Names of files\<close>

text \<open>\<open>cntl\<close> is the control routine of a device; the names are those after the name space.\<close>

definition access ::
  "(int \<Rightarrow> int \<Rightarrow> ctlarg \<Rightarrow> ctlarg \<Rightarrow> 's \<Rightarrow> (int \<times> 's) option) \<Rightarrow> int \<Rightarrow> nam \<Rightarrow> string \<Rightarrow> int \<Rightarrow> 's \<Rightarrow> (int \<times> 's) option" where
  "access cntl ns nt name mode s = do {
     (dev, fullnam) \<leftarrow> nammap ns name nt;
     if dev = SYSERR then Some (SYSERR, s) else cntl dev FLACCESS (CName fullnam) (CInt mode) s
   }"

definition remove ::
  "(int \<Rightarrow> int \<Rightarrow> ctlarg \<Rightarrow> ctlarg \<Rightarrow> 's \<Rightarrow> (int \<times> 's) option) \<Rightarrow> int \<Rightarrow> nam \<Rightarrow> string \<Rightarrow> int \<Rightarrow> 's \<Rightarrow> (int \<times> 's) option" where
  "remove cntl ns nt name key s = do {
     (dev, fullnam) \<leftarrow> nammap ns name nt;
     if dev = SYSERR then Some (SYSERR, s) else cntl dev FLREMOVE (CName fullnam) (CInt key) s
   }"

definition rename ::
  "(int \<Rightarrow> int \<Rightarrow> ctlarg \<Rightarrow> ctlarg \<Rightarrow> 's \<Rightarrow> (int \<times> 's) option) \<Rightarrow> int \<Rightarrow> nam \<Rightarrow> string \<Rightarrow> string \<Rightarrow> 's \<Rightarrow> (int \<times> 's) option" where
  "rename cntl ns nt old new s = do {
     (dev, fullold) \<leftarrow> nammap ns old nt;
     if dev = SYSERR then Some (SYSERR, s)
     else do {
       (dev2, fullnew) \<leftarrow> nammap ns new nt;
       if dev2 = SYSERR \<or> dev \<noteq> dev2 then Some (SYSERR, s)
       else cntl dev FLRENAME (CName fullold) (CName fullnew) s
     }
   }"

end
