(* ===== verification/RemoteProps.thy ===== *)
theory RemoteProps
  imports RemoteFile
begin

text \<open>
  The operations of a remote file against a file server behind a link that loses and delays replies:
  what is written is at its position, once, and what is read is what the file holds.
\<close>

section \<open>Requests as octets\<close>

definition be2 :: "int \<Rightarrow> int list" where
  "be2 v = [v div 256, v mod 256]"

definition be4 :: "int \<Rightarrow> int list" where
  "be4 v = [v div 16777216, v div 65536 mod 256, v div 256 mod 256, v mod 256]"

definition rf_head :: "int \<Rightarrow> int \<Rightarrow> int \<Rightarrow> int list \<Rightarrow> int list" where
  "rf_head pos n op nm = be4 (u32 pos) @ be2 (u16 n) @ be2 (u16 op) @ nm"

definition rf_req :: "int \<Rightarrow> string \<Rightarrow> int \<Rightarrow> int \<Rightarrow> int list \<Rightarrow> int list" where
  "rf_req op nam pos n dat = rf_head pos n op (strncpy_octets RNAMLEN nam) @ dat"

lemma be_length [simp]: "length (be2 v) = 2" "length (be4 v) = 4" "length (octets32 v) = 4" "length (strncpy_octets k nam) = k"
  by (simp_all add: be2_def be4_def octets32_def strncpy_octets_def)

lemma rf_head_length [simp]: "length (rf_head pos n op nm) = 8 + length nm"
  by (simp add: rf_head_def)

lemma put_bytes_app:
  assumes "length a = off" "length b = length bs"
  shows "put_bytes off bs (a @ b @ c) = Some (a @ bs @ c)"
  using assms by (simp add: put_bytes_def)

lemma get_bytes_app:
  assumes "length a = off" "length b = n"
  shows "get_bytes off n (a @ b @ c) = Some b"
  using assms by (simp add: get_bytes_def)

lemma octets16_be: "octets16 (hton16 (u16 v)) = be2 (u16 v)"
  using octets16_hton16(1) [of "u16 v"] u16_range [of v] by (simp add: be2_def)

lemma u32_range: "0 \<le> u32 v \<and> u32 v < 4294967296"
  by (simp add: u32_def)

lemma digit: "0 \<le> a \<Longrightarrow> a < 256 \<Longrightarrow> (a + 256 * x) div 256 = x \<and> (a + 256 * x) mod 256 = (a::int)"
  by simp

lemma octets32_split:
  assumes "0 \<le> a" "a < 256" "0 \<le> b" "b < 256" "0 \<le> c" "c < 256" "0 \<le> d" "d < (256::int)"
  shows "octets32 (a + 256 * b + 65536 * c + 16777216 * d) = [a, b, c, d]"
    "hton32 (a + 256 * b + 65536 * c + 16777216 * d) = d + 256 * c + 65536 * b + 16777216 * a"
proof -
  define v where "v = a + 256 * b + 65536 * c + 16777216 * d"
  have h: "v = a + 256 * (b + 256 * (c + 256 * d))" by (simp add: v_def)
  have 1: "v div 256 = b + 256 * (c + 256 * d)" "v mod 256 = a" unfolding h using digit [of a "b + 256 * (c + 256 * d)"] assms by blast+
  have "v div 65536 = v div 256 div 256" by (simp add: zdiv_zmult2_eq [symmetric])
  then have 2: "v div 65536 = c + 256 * d" "v div 256 mod 256 = b" unfolding 1 using digit [of b "c + 256 * d"] assms by simp_all
  have "v div 16777216 = v div 65536 div 256" by (simp add: zdiv_zmult2_eq [symmetric])
  then have "v div 16777216 = d" "v div 65536 mod 256 = c" unfolding 2 using digit [of c d] assms by simp_all
  note digits = 1(2) 2(2) this
  show "octets32 (a + 256 * b + 65536 * c + 16777216 * d) = [a, b, c, d]"
    unfolding octets32_def v_def [symmetric] digits using assms(7,8) by simp
  show "hton32 (a + 256 * b + 65536 * c + 16777216 * d) = d + 256 * c + 65536 * b + 16777216 * a"
    unfolding hton32_def v_def [symmetric] digits by simp
qed

lemma octets32_be:
  assumes "0 \<le> v" "v < 4294967296"
  shows "octets32 (hton32 v) = be4 v" "get32 off p = Some x \<Longrightarrow> get_bytes off 4 p = Some (be4 v) \<Longrightarrow> hton32 x = v"
proof -
  define a b c d where "a = v mod 256" "b = v div 256 mod 256" "c = v div 65536 mod 256" "d = v div 16777216"
  have v: "v = a + 256 * b + 65536 * c + 16777216 * d" and r: "0 \<le> a" "a < 256" "0 \<le> b" "b < 256" "0 \<le> c" "c < 256" "0 \<le> d" "d < 256"
  proof -
    have "v = a + 256 * (v div 256)" by (simp add: a_b_c_d_def)
    moreover have "v div 65536 = v div 256 div 256" "v div 16777216 = v div 65536 div 256" by (simp_all add: zdiv_zmult2_eq [symmetric])
    then have "v div 256 = b + 256 * (v div 65536)" "v div 65536 = c + 256 * d" unfolding a_b_c_d_def by (metis mod_mult_div_eq)+
    ultimately have "v = a + 256 * (b + 256 * (c + 256 * d))" by metis
    then show "v = a + 256 * b + 65536 * c + 16777216 * d" by simp
    show "0 \<le> a" "a < 256" "0 \<le> b" "b < 256" "0 \<le> c" "c < 256" "0 \<le> d" "d < 256" using assms by (simp_all add: a_b_c_d_def)
  qed
  have e: "be4 v = [d, c, b, a]" by (simp add: be4_def a_b_c_d_def)
  have h: "hton32 v = d + 256 * c + 65536 * b + 16777216 * a" using octets32_split(2) [OF r] v by simp
  show "octets32 (hton32 v) = be4 v" unfolding h e by (rule octets32_split(1)) (use r in simp_all)
  show "hton32 x = v" if "get32 off p = Some x" "get_bytes off 4 p = Some (be4 v)"
  proof -
    have "x = d + 256 * c + 65536 * b + 16777216 * a" using that by (simp add: get32_def e)
    then show ?thesis using octets32_split(2) [OF r(7,8,5,6,3,4,1,2)] v by simp
  qed
qed

lemma rf_header_head:
  assumes "FPHLEN \<le> length p"
  shows "rf_header op nam pos n p = Some (rf_head pos n op (strncpy_octets RNAMLEN nam) @ drop FPHLEN p)"
proof -
  define a b c d e where "a = take 4 p" "b = take 2 (drop 4 p)" "c = take 2 (drop 6 p)" "d = take 80 (drop 8 p)" "e = drop FPHLEN p"
  have p: "p = a @ b @ c @ d @ e"
  proof -
    have "drop 8 p = d @ e" by (metis a_b_c_d_e_def(4,5) FPHLEN_def append_take_drop_id drop_drop numeral_plus_numeral add_num_simps add.commute)
    moreover have "drop 6 p = c @ drop 8 p" by (metis a_b_c_d_e_def(3) append_take_drop_id drop_drop numeral_plus_numeral add_num_simps add.commute)
    moreover have "drop 4 p = b @ drop 6 p" by (metis a_b_c_d_e_def(2) append_take_drop_id drop_drop numeral_plus_numeral add_num_simps add.commute)
    moreover have "p = a @ drop 4 p" by (simp add: a_b_c_d_e_def(1))
    ultimately show ?thesis by simp
  qed
  have l: "length a = 4" "length b = 2" "length c = 2" "length d = 80" using assms by (simp_all add: a_b_c_d_e_def FPHLEN_def)
  let ?op = "be2 (u16 op)" let ?n = "be2 (u16 n)" let ?pos = "be4 (u32 pos)"
  have 1: "put16 F_OP (hton16 (u16 op)) p = Some (a @ b @ ?op @ d @ e)"
    using put_bytes_app [of "a @ b" 6 c ?op "d @ e"] l by (simp add: put16_def F_OP_def octets16_be p)
  have 2: "put32 F_POS (hton32 (u32 pos)) (a @ b @ ?op @ d @ e) = Some (?pos @ b @ ?op @ d @ e)"
    using put_bytes_app [of "[]" 0 a ?pos "b @ ?op @ d @ e"] l u32_range [of pos] by (simp add: put32_def F_POS_def octets32_be)
  have 3: "put16 F_COUNT (hton16 (u16 n)) (?pos @ b @ ?op @ d @ e) = Some (?pos @ ?n @ ?op @ d @ e)"
    using put_bytes_app [of ?pos 4 b ?n "?op @ d @ e"] l by (simp add: put16_def F_COUNT_def octets16_be)
  have 4: "put_bytes F_NAME (strncpy_octets RNAMLEN nam) (?pos @ ?n @ ?op @ d @ e) = Some (?pos @ ?n @ ?op @ strncpy_octets RNAMLEN nam @ e)"
    using put_bytes_app [of "?pos @ ?n @ ?op" 8 d "strncpy_octets RNAMLEN nam" e] l by (simp add: F_NAME_def RNAMLEN_def)
  show ?thesis using 2 3 4 by (simp add: rf_header_def 1 rf_head_def a_b_c_d_e_def(5))
qed

lemma rf_head_gets:
  assumes "length nm = RNAMLEN"
  shows "get_bytes F_POS 4 (rf_head pos n op nm @ r) = Some (be4 (u32 pos))"
    "get16 F_COUNT (rf_head pos n op nm @ r) = Some (int_of_octets (be2 (u16 n)))"
    "get16 F_OP (rf_head pos n op nm @ r) = Some (int_of_octets (be2 (u16 op)))"
    "k \<le> length r \<Longrightarrow> get_bytes FPHLEN k (rf_head pos n op nm @ r) = Some (take k r)"
    "\<exists>x. get32 F_POS (rf_head pos n op nm @ r) = Some x \<and> hton32 x = u32 pos"
proof -
  let ?op = "be2 (u16 op)" let ?n = "be2 (u16 n)" let ?pos = "be4 (u32 pos)"
  show p: "get_bytes F_POS 4 (rf_head pos n op nm @ r) = Some (be4 (u32 pos))"
    using get_bytes_app [of "[]" 0 ?pos 4] by (simp add: rf_head_def F_POS_def)
  show "get16 F_COUNT (rf_head pos n op nm @ r) = Some (int_of_octets ?n)"
    using get_bytes_app [of ?pos 4 ?n 2] by (simp add: rf_head_def F_COUNT_def get16_def)
  show "get16 F_OP (rf_head pos n op nm @ r) = Some (int_of_octets ?op)"
    using get_bytes_app [of "?pos @ ?n" 6 ?op 2] by (simp add: rf_head_def F_OP_def get16_def)
  show "k \<le> length r \<Longrightarrow> get_bytes FPHLEN k (rf_head pos n op nm @ r) = Some (take k r)"
    using assms by (simp add: get_bytes_def FPHLEN_def RNAMLEN_def)
  obtain x where "get32 F_POS (rf_head pos n op nm @ r) = Some x" using p by (auto simp: get32_def)
  then show "\<exists>x. get32 F_POS (rf_head pos n op nm @ r) = Some x \<and> hton32 x = u32 pos"
    using octets32_be(2) [OF conjunct1 [OF u32_range] conjunct2 [OF u32_range] _ p] by blast
qed

lemma hton16_be: "hton16 (int_of_octets (be2 (u16 v))) = u16 v"
  using octets16_hton16(2) [of "u16 v"] u16_range [of v] by (simp add: be2_def)

section \<open>The link to the server\<close>

text \<open>
  \<open>serve\<close> is the server: the reply to a request and the files after it. A link may lose a request or its reply, or
  deliver a reply after \<open>read\<close> has given up, but not two times in a row (\<open>patience\<close> is the number of losses still to come
  without a success). \<open>quiet dev q\<close> says that the device is open and that no replies wait or are on their way but those to \<open>q\<close>;
  \<open>mtu\<close> is the length of the longest request and the longest reply that can be sent. Only for a request that may be repeated is
  the reply that arrives the reply to the last attempt.
\<close>

definition repeatable :: "('f \<Rightarrow> int list \<times> 'f) \<Rightarrow> 'f \<Rightarrow> bool" where
  "repeatable f F \<longleftrightarrow> f (snd (f F)) = f F"

locale server_link =
  fixes L :: "'d serverdev"
    and cold :: "'d \<Rightarrow> bool"
    and opened :: "int \<Rightarrow> 'd \<Rightarrow> bool"
    and quiet :: "int \<Rightarrow> int list \<Rightarrow> 'd \<Rightarrow> bool"
    and files :: "'d \<Rightarrow> 'f"
    and patience :: "'d \<Rightarrow> nat"
    and serve :: "int list \<Rightarrow> 'f \<Rightarrow> int list \<times> 'f"
    and mtu :: nat
  assumes opens: "cold d \<Longrightarrow> \<exists>dev d1 r d2. sv_open L d = Some (dev, d1) \<and> dev \<noteq> SYSERR \<and>
      sv_control L dev DG_SETMODE (DG_DMODE OR DG_TMODE) d1 = Some (r, d2) \<and> r \<noteq> SYSERR \<and> opened dev d2 \<and> files d2 = files d"
    and clears: "opened dev d \<Longrightarrow> \<exists>r d'. sv_control L dev DG_CLEAR 0 d = Some (r, d') \<and> files d' = files d \<and> quiet dev q d'"
    and sends: "quiet dev q d \<Longrightarrow> repeatable (serve q) (files d) \<Longrightarrow> octet_list q \<Longrightarrow> length q \<le> mtu \<Longrightarrow>
      octet_list (fst (serve q (files d))) \<Longrightarrow> length (fst (serve q (files d))) \<le> mtu \<Longrightarrow> 0 \<le> k \<Longrightarrow>
      \<exists>r d1 ret dat d2. sv_write L dev q d = Some (r, d1) \<and> r \<noteq> SYSERR \<and> sv_read L dev k d1 = Some (ret, dat, d2) \<and>
        (ret = TIMEOUT \<and> dat = [] \<and> quiet dev q d2 \<and> patience d2 < patience d \<and> (files d2 = files d \<or> files d2 = snd (serve q (files d))) \<or>
         opened dev d2 \<and> ret = int (length dat) \<and> dat = take (nat k) (fst (serve q (files d))) \<and> files d2 = snd (serve q (files d)))"
    and patient: "quiet dev q d \<Longrightarrow> patience d < RMAXTRY"
begin

definition ready :: "'d rfinfo \<Rightarrow> bool" where
  "ready s \<longleftrightarrow> length (fpkt s) = FPPLEN \<and> (if device s = RCLOSED then cold (link s) else opened (device s) (link s))"

text \<open>What a request leaves: the files after it, and its reply at the start of the buffer.\<close>

definition served :: "int list \<Rightarrow> int \<Rightarrow> 'd rfinfo \<Rightarrow> int \<Rightarrow> 'd rfinfo \<Rightarrow> bool" where
  "served q k s r s' \<longleftrightarrow>
     (let rep = take (nat k) (fst (serve q (files (link s))))
      in r = int (length rep) \<and> ready s' \<and> device s' \<noteq> RCLOSED \<and> files (link s') = snd (serve q (files (link s))) \<and>
         fpkt s' = rep @ drop (length rep) (fpkt s) \<and> rftab s' = rftab s \<and> rmutex s' = rmutex s \<and> semcalls s' = semcalls s)"

lemma try_served:
  assumes "patience (link s) < n" "device s \<noteq> RCLOSED" "quiet (device s) q (link s)" "repeatable (serve q) (files (link s))"
    "length (fpkt s) = FPPLEN" "take (nat m) (fpkt s) = q" "octet_list (fst (serve q (files (link s))))" "length (fst (serve q (files (link s)))) \<le> mtu"
    and q: "octet_list q" "length q \<le> mtu" "nat m \<le> FPPLEN" "0 \<le> k" "nat k \<le> FPPLEN"
  shows "\<exists>r s'. rf_try L n m k s = Some (r, s') \<and> served q k s r s'"
  using assms(1-8)
proof (induction n arbitrary: s)
  case (Suc n)
  obtain r d1 ret dat d2 where w: "sv_write L (device s) q (link s) = Some (r, d1)" "r \<noteq> SYSERR"
    and rd: "sv_read L (device s) k d1 = Some (ret, dat, d2)"
    and c: "ret = TIMEOUT \<and> dat = [] \<and> quiet (device s) q d2 \<and> patience d2 < patience (link s) \<and>
            (files d2 = files (link s) \<or> files d2 = snd (serve q (files (link s)))) \<or>
         opened (device s) d2 \<and> ret = int (length dat) \<and> dat = take (nat k) (fst (serve q (files (link s)))) \<and> files d2 = snd (serve q (files (link s)))"
    using sends [OF Suc.prems(3,4) q(1,2) Suc.prems(7,8) q(4)] by blast
  have g: "get_bytes 0 (nat m) (fpkt s) = Some q" using Suc.prems(5,6) q(3) by (simp add: get_bytes_def)
  from c show ?case
  proof
    assume l: "ret = TIMEOUT \<and> dat = [] \<and> quiet (device s) q d2 \<and> patience d2 < patience (link s) \<and>
            (files d2 = files (link s) \<or> files d2 = snd (serve q (files (link s))))"
    let ?s = "s\<lparr>link := d2\<rparr>"
    have same: "serve q (files d2) = serve q (files (link s))" using l Suc.prems(4) unfolding repeatable_def by metis
    have "\<exists>r s'. rf_try L n m k ?s = Some (r, s') \<and> served q k ?s r s'"
      by (rule Suc.IH) (use l Suc.prems same in \<open>auto simp: repeatable_def\<close>)
    then show ?thesis using g w rd l Suc.prems by (auto simp: put_bytes_def served_def same)
  next
    assume l: "opened (device s) d2 \<and> ret = int (length dat) \<and> dat = take (nat k) (fst (serve q (files (link s)))) \<and> files d2 = snd (serve q (files (link s)))"
    have "length dat \<le> FPPLEN" using l q(5) by simp
    then have p: "put_bytes 0 dat (fpkt s) = Some (dat @ drop (length dat) (fpkt s))" using Suc.prems(5) by (simp add: put_bytes_def)
    have "ret \<noteq> SYSERR" "ret \<noteq> TIMEOUT" using l by (simp_all add: SYSERR_def TIMEOUT_def)
    then show ?thesis using g w rd l p Suc.prems \<open>length dat \<le> FPPLEN\<close> by (auto simp: served_def ready_def Let_def)
  qed
qed simp

lemma send_served:
  assumes "ready s" "repeatable (serve q) (files (link s))" "take (nat m) (fpkt s) = q"
    "octet_list (fst (serve q (files (link s))))" "length (fst (serve q (files (link s)))) \<le> mtu"
    "octet_list q" "length q \<le> mtu" "nat m \<le> FPPLEN" "0 \<le> k" "nat k \<le> FPPLEN"
  shows "\<exists>r s'. rfsend L m k s = Some (r, s') \<and> served q k s r s'"
proof -
  have "\<exists>s1. rf_connect L s = Some (True, s1) \<and> device s1 \<noteq> RCLOSED \<and> opened (device s1) (link s1) \<and> files (link s1) = files (link s) \<and>
      s1 = s\<lparr>device := device s1, link := link s1\<rparr>"
  proof (cases "device s = RCLOSED")
    case True
    then show ?thesis using opens [of "link s"] assms(1)
      by (auto simp: rf_connect_def ready_def RCLOSED_def SYSERR_def)
  qed (use assms(1) in \<open>auto simp: rf_connect_def ready_def\<close>)
  then obtain s1 where c: "rf_connect L s = Some (True, s1)" "device s1 \<noteq> RCLOSED" "opened (device s1) (link s1)"
      "files (link s1) = files (link s)" "s1 = s\<lparr>device := device s1, link := link s1\<rparr>" by blast
  obtain r d' where k: "sv_control L (device s1) DG_CLEAR 0 (link s1) = Some (r, d')"
      "files d' = files (link s1)" "quiet (device s1) q d'" using clears [OF c(3)] by blast
  let ?s = "s1\<lparr>link := d'\<rparr>"
  have f: "fpkt ?s = fpkt s" "rftab ?s = rftab s" "rmutex ?s = rmutex s" "semcalls ?s = semcalls s"
    by (subst c(5); simp)+
  have "\<exists>r s'. rf_try L RMAXTRY m k ?s = Some (r, s') \<and> served q k ?s r s'"
    by (rule try_served) (use k c assms f patient [OF k(3)] in \<open>auto simp: ready_def\<close>)
  then show ?thesis using c(1) k f c(4) by (auto simp: rfsend_def served_def)
qed

end

section \<open>A file server\<close>

definition file_name :: "string \<Rightarrow> bool" where
  "file_name nam \<longleftrightarrow> length nam \<le> RNAMLEN \<and> CHR 0x00 \<notin> set nam"

definition overwrite :: "nat \<Rightarrow> int list \<Rightarrow> int list \<Rightarrow> int list" where
  "overwrite pos dat c = (if dat = [] then c else take pos (c @ replicate (pos - length c) 0) @ dat @ drop (pos + length dat) c)"

text \<open>
  What the client relies on: a read returns the octets at the position, fewer at the end of the file, with their number and
  the position after them; a write stores its octets at the position. The name in the reply and its operation, which is
  not that of an error, are the server's.
\<close>

definition serves_read :: "(int list \<Rightarrow> (string \<rightharpoonup> int list) \<Rightarrow> int list \<times> (string \<rightharpoonup> int list)) \<Rightarrow> bool" where
  "serves_read serve \<longleftrightarrow>
     (\<forall>nam pos n F c. file_name nam \<and> 0 \<le> pos \<and> pos + RDATLEN < 2147483648 \<and> 0 \<le> n \<and> n \<le> RDATLEN \<and> F nam = Some c \<longrightarrow>
        (let dat = take (nat n) (drop (nat pos) c)
         in \<exists>op nm. u16 op \<noteq> u16 FS_ERROR \<and> length nm = RNAMLEN \<and> octet_list nm \<and>
              serve (rf_req FS_READ nam pos n []) F = (rf_head (pos + int (length dat)) (int (length dat)) op nm @ dat, F)))"

definition serves_write :: "(int list \<Rightarrow> (string \<rightharpoonup> int list) \<Rightarrow> int list \<times> (string \<rightharpoonup> int list)) \<Rightarrow> bool" where
  "serves_write serve \<longleftrightarrow>
     (\<forall>nam pos dat. file_name nam \<and> 0 \<le> pos \<and> pos + RDATLEN < 2147483648 \<and> int (length dat) \<le> RDATLEN \<longrightarrow>
        (\<exists>op nm. u16 op \<noteq> u16 FS_ERROR \<and> length nm = RNAMLEN \<and> octet_list nm \<and>
          (\<forall>F c. F nam = Some c \<longrightarrow>
             serve (rf_req FS_WRITE nam pos (int (length dat)) dat) F =
               (rf_head (pos + int (length dat)) (int (length dat)) op nm, F(nam \<mapsto> overwrite (nat pos) dat c)))))"

lemma rf_head_octets [simp]: "octet_list (rf_head pos n op nm) \<longleftrightarrow> octet_list nm"
proof -
  have "octet_list (be2 (u16 v))" "octet_list (be4 (u32 v))" for v
    using u16_range [of v] u32_range [of v] by (auto simp: octet_list_def be2_def be4_def)
  then show ?thesis by (auto simp: rf_head_def octet_list_def)
qed

lemma strncpy_octets_octets [simp]: "octet_list (strncpy_octets k nam)"
proof -
  have "0 \<le> (of_char ch :: int) \<and> (of_char ch :: int) < 256" for ch
    using pos_mod_bound [of 256 "of_char ch"] pos_mod_sign [of 256 "of_char ch"] of_char_mod_256 [of ch, where 'a = int] by simp
  then show ?thesis by (auto simp: octet_list_def strncpy_octets_def str_octets_def dest!: in_set_takeD)
qed

lemma overwrite_octets: "octet_list dat \<Longrightarrow> octet_list c \<Longrightarrow> octet_list (overwrite pos dat c)"
  by (auto simp: overwrite_def octet_list_def dest: in_set_takeD in_set_dropD)

lemma octet_list_append [simp]: "octet_list (a @ b) \<longleftrightarrow> octet_list a \<and> octet_list b"
  by (auto simp: octet_list_def)

lemma octet_list_take: "octet_list a \<Longrightarrow> octet_list (take n a)"
  by (auto simp: octet_list_def dest: in_set_takeD)

lemma octet_list_drop: "octet_list a \<Longrightarrow> octet_list (drop n a)"
  by (auto simp: octet_list_def dest: in_set_dropD)

lemma overwrite_nil [simp]: "overwrite pos [] c = c"
  by (simp add: overwrite_def)

lemma overwrite_parts:
  assumes "dat \<noteq> []"
  shows "take pos (overwrite pos dat c) = take pos (c @ replicate (pos - length c) 0)" "drop pos (overwrite pos dat c) = dat @ drop (pos + length dat) c"
    "pos + length dat \<le> length (overwrite pos dat c)"
  using assms by (simp_all add: overwrite_def)

lemma overwrite_twice: "overwrite pos dat (overwrite pos dat c) = overwrite pos dat c"
proof (cases "dat = []")
  case False
  note w = overwrite_parts [OF this, of pos c]
  have "drop (pos + length dat) (overwrite pos dat c) = drop (length dat) (drop pos (overwrite pos dat c))" by (simp add: add.commute)
  then have "drop (pos + length dat) (overwrite pos dat c) = drop (pos + length dat) c" unfolding w(2) by simp
  moreover have "take pos (overwrite pos dat c @ replicate (pos - length (overwrite pos dat c)) 0) = take pos (overwrite pos dat c)"
    using w(3) by simp
  ultimately show ?thesis using False w(1) by (simp add: overwrite_def [of pos dat "overwrite pos dat c"]) (simp add: overwrite_def)
qed simp

text \<open>Two writes, one after the other, are one.\<close>

lemma overwrite_append: "overwrite (pos + length a) b (overwrite pos a c) = overwrite pos (a @ b) c"
proof (cases "a = [] \<or> b = []")
  case False
  then have ab: "a \<noteq> []" "b \<noteq> []" "a @ b \<noteq> []" by simp_all
  note w = overwrite_parts [OF ab(1), of pos c]
  let ?w = "overwrite pos a c"
  have "take (pos + length a) (?w @ replicate (pos + length a - length ?w) 0) = take pos ?w @ take (length a) (drop pos ?w)"
    using w(3) by (simp add: take_add)
  also have "\<dots> = take pos (c @ replicate (pos - length c) 0) @ a" unfolding w(1,2) by simp
  finally have t: "take (pos + length a) (?w @ replicate (pos + length a - length ?w) 0) = take pos (c @ replicate (pos - length c) 0) @ a" .
  have "drop (pos + length a + length b) ?w = drop (length a + length b) (drop pos ?w)" by (simp add: add.commute add.left_commute)
  also have "\<dots> = drop (pos + length (a @ b)) c" unfolding w(2) by (simp add: add.commute add.left_commute)
  finally have d: "drop (pos + length a + length b) ?w = drop (pos + length (a @ b)) c" .
  show ?thesis using ab t d by (simp only: overwrite_def [of "pos + length a" b] overwrite_def [of pos "a @ b"] if_False append_assoc)
qed auto

lemma rfwrite_loop_stops: "n \<le> 0 \<Longrightarrow> rfwrite_loop L i buff n s = Some (True, s)"
  by (subst rfwrite_loop.simps) simp

locale file_link = server_link L cold opened quiet files patience serve mtu
  for L :: "'d serverdev" and cold opened quiet and files :: "'d \<Rightarrow> string \<rightharpoonup> int list" and patience serve mtu +
  assumes reads: "serves_read serve" and writes: "serves_write serve"
begin

definition request_done :: "(string \<rightharpoonup> int list) \<Rightarrow> 'd rfinfo \<Rightarrow> 'd rfinfo \<Rightarrow> bool" where
  "request_done F s s' \<longleftrightarrow> ready s' \<and> files (link s') = F \<and> rftab s' = rftab s \<and> rmutex s' = rmutex s \<and>
     semcalls s' = semcalls s @ [Wait (rmutex s), Signal (rmutex s)]"

lemma mkpac_read:
  assumes r: "ready s" and f: "file_name nam" "files (link s) nam = Some c" and p: "0 \<le> pos" "pos + RDATLEN < 2147483648"
    and n: "0 \<le> len" "len \<le> RDATLEN" and m: "FPHLEN + nat len \<le> mtu" and c: "octet_list c"
  defines "dat \<equiv> take (nat len) (drop (nat pos) c)"
  shows "\<exists>out s'. rfmkpac L FS_READ nam pos buff len s = Some (int (length dat), pos + int (length dat), out, s') \<and>
    request_done (files (link s)) s s' \<and> length out = nat len \<and> take (length dat) out = dat"
proof -
  let ?q = "rf_req FS_READ nam pos len []" and ?head = "rf_head pos len FS_READ (strncpy_octets RNAMLEN nam)"
  obtain op nm where v: "u16 op \<noteq> u16 FS_ERROR" "length nm = RNAMLEN" and nmo: "octet_list nm" and v3:
    "serve ?q (files (link s)) = (rf_head (pos + int (length dat)) (int (length dat)) op nm @ dat, files (link s))"
    using reads f p n unfolding serves_read_def dat_def Let_def by blast
  note v = v v3
  have od: "octet_list dat" using c by (simp add: dat_def octet_list_take octet_list_drop)
  let ?rep = "rf_head (pos + int (length dat)) (int (length dat)) op nm"
  have l: "length (fpkt s) = 600" "length dat \<le> nat len" "nat len \<le> 512" using r n by (simp_all add: ready_def FPPLEN_def dat_def RDATLEN_def)
  let ?s = "rcall (Wait (rmutex s)) s\<lparr>fpkt := ?head @ drop FPHLEN (fpkt s)\<rparr>"
  have "\<exists>r s'. rfsend L (int FPHLEN) (int FPHLEN + len) ?s = Some (r, s') \<and> served ?q (int FPHLEN + len) ?s r s'"
    by (rule send_served) (use r l n m v nmo od in \<open>auto simp: ready_def FPHLEN_def FPPLEN_def RNAMLEN_def rf_req_def rcall_def repeatable_def RDATLEN_def\<close>)
  then obtain t s1 where t: "rfsend L (int FPHLEN) (int FPHLEN + len) ?s = Some (t, s1)" "served ?q (int FPHLEN + len) ?s t s1" by blast
  have fl: "files (link ?s) = files (link s)" by (simp add: rcall_def)
  have "take (nat (int FPHLEN + len)) (?rep @ dat) = ?rep @ dat" using l n v(2) by (simp add: FPHLEN_def RNAMLEN_def nat_add_distrib)
  then have sv: "t = int (length (?rep @ dat))" "ready s1" "files (link s1) = files (link s)" "rftab s1 = rftab s" "rmutex s1 = rmutex s"
      "semcalls s1 = semcalls s @ [Wait (rmutex s)]" "fpkt s1 = ?rep @ (dat @ drop (length (?rep @ dat)) (fpkt ?s))"
    using t(2) unfolding served_def fl v(3) by (simp_all add: Let_def rcall_def)
  let ?tail = "drop (length (?rep @ dat)) (fpkt ?s)"
  have lt: "nat len \<le> length (dat @ ?tail)" using l v(2) by (simp add: RNAMLEN_def FPHLEN_def)
  obtain x where x: "get32 F_POS (fpkt s1) = Some x" "hton32 x = u32 (pos + int (length dat))"
    using rf_head_gets(5) [OF v(2)] unfolding sv(7) by blast
  have g: "get16 F_OP (fpkt s1) = Some (int_of_octets (be2 (u16 op)))" "get16 F_COUNT (fpkt s1) = Some (int_of_octets (be2 (u16 (int (length dat)))))"
      "get_bytes FPHLEN (nat len) (fpkt s1) = Some (take (nat len) (dat @ ?tail))"
    unfolding sv(7) using rf_head_gets [OF v(2)] lt by blast+
  have ps: "s32 (u32 (pos + int (length dat))) = pos + int (length dat)" using p l by (simp add: s32_def u32_def RDATLEN_def)
  have cs: "s16 (hton16 (int_of_octets (be2 (u16 (int (length dat)))))) = int (length dat)"
    unfolding hton16_be using l by (simp add: MININT_def MAXINT_def)
  have "t \<noteq> SYSERR" by (simp add: sv(1) SYSERR_def)
  then have "rfmkpac L FS_READ nam pos buff len s =
      Some (int (length dat), pos + int (length dat), take (nat len) (dat @ ?tail), rcall (Signal (rmutex s)) s1)"
    using t(1) g x l n v(1) ps cs sv(5)
    by (simp add: rfmkpac_def rf_header_head FPHLEN_def rf_request_def header_ops_def FS_READ_def FS_WRITE_def FS_RENAME_def FS_CLOSE_def
        FS_OPEN_def FS_UNLINK_def FS_MKDIR_def FS_RMDIR_def FS_ACCESS_def rf_reply_def hton16_be rcall_def)
  moreover have "request_done (files (link s)) s (rcall (Signal (rmutex s)) s1)"
    using sv by (simp add: request_done_def rcall_def ready_def)
  moreover have "length (take (nat len) (dat @ ?tail)) = nat len" "take (length dat) (take (nat len) (dat @ ?tail)) = dat"
    using lt l by (simp_all only: length_take min_absorb2, simp)
  ultimately show ?thesis by blast
qed

lemma mkpac_write:
  assumes r: "ready s" and f: "file_name nam" "files (link s) nam = Some c" and p: "0 \<le> pos" "pos + RDATLEN < 2147483648"
    and n: "0 \<le> len" "len \<le> RDATLEN" "len \<le> int (length buff)" and m: "FPHLEN + nat len \<le> mtu" and b: "octet_list buff"
  shows "\<exists>s'. rfmkpac L FS_WRITE nam pos buff len s = Some (len, pos + len, [], s') \<and>
    request_done ((files (link s))(nam \<mapsto> overwrite (nat pos) (take (nat len) buff) c)) s s'"
proof -
  define dat where "dat = take (nat len) buff"
  have ld: "int (length dat) = len" "length dat = nat len" "nat len \<le> length buff" using n by (simp_all add: dat_def)
  let ?q = "rf_req FS_WRITE nam pos len dat" and ?head = "rf_head pos len FS_WRITE (strncpy_octets RNAMLEN nam)"
  obtain op nm where v: "u16 op \<noteq> u16 FS_ERROR" "length nm = RNAMLEN" and nmo: "octet_list nm" and v3:
    "\<And>F c. F nam = Some c \<Longrightarrow> serve ?q F = (rf_head (pos + len) len op nm, F(nam \<mapsto> overwrite (nat pos) dat c))"
    using writes [unfolded serves_write_def, rule_format, of nam pos dat] f p n ld by auto
  note v = v v3
  have od: "octet_list dat" using b by (simp add: dat_def octet_list_take)
  let ?rep = "rf_head (pos + len) len op nm" and ?F = "(files (link s))(nam \<mapsto> overwrite (nat pos) dat c)"
  have l: "length (fpkt s) = 600" "nat len \<le> 512" using r n by (simp_all add: ready_def FPPLEN_def RDATLEN_def)
  define p' where "p' = ?head @ dat @ drop (FPHLEN + nat len) (fpkt s)"
  let ?s = "rcall (Wait (rmutex s)) s\<lparr>fpkt := p'\<rparr>"
  have lp: "length p' = FPPLEN" "take (FPHLEN + nat len) p' = ?q" using l ld by (simp_all add: p'_def FPPLEN_def FPHLEN_def RNAMLEN_def rf_req_def)
  have fl: "files (link ?s) = files (link s)" by (simp add: rcall_def)
  have rep: "repeatable (serve ?q) (files (link ?s))"
    unfolding fl repeatable_def v(3) [of "files (link s)", OF f(2)] by (simp add: v(3) overwrite_twice)
  have nt: "nat (int FPHLEN + len) = FPHLEN + nat len" using n by (simp add: nat_add_distrib)
  have lq: "length ?q = FPHLEN + nat len" using ld by (simp add: rf_req_def FPHLEN_def RNAMLEN_def)
  have "\<exists>r s'. rfsend L (int FPHLEN + len) (int FPHLEN) ?s = Some (r, s') \<and> served ?q (int FPHLEN) ?s r s'"
    by (rule send_served [OF _ rep])
      (use r l m n lp lq nt v(2) nmo od v3 [of "files (link s)", OF f(2)] in
        \<open>auto simp: ready_def FPHLEN_def FPPLEN_def RNAMLEN_def rcall_def rf_req_def\<close>)
  then obtain t s1 where t: "rfsend L (int FPHLEN + len) (int FPHLEN) ?s = Some (t, s1)" "served ?q (int FPHLEN) ?s t s1" by blast
  have lr: "length ?rep = FPHLEN" using v(2) by (simp add: FPHLEN_def RNAMLEN_def)
  then have sv: "t = int FPHLEN" "ready s1" "files (link s1) = ?F" "rftab s1 = rftab s" "rmutex s1 = rmutex s"
      "semcalls s1 = semcalls s @ [Wait (rmutex s)]" "fpkt s1 = ?rep @ drop FPHLEN p'"
    using t(2) unfolding served_def fl v(3) [of "files (link s)", OF f(2)] by (simp_all add: Let_def rcall_def)
  obtain x where x: "get32 F_POS (fpkt s1) = Some x" "hton32 x = u32 (pos + len)"
    using rf_head_gets(5) [OF v(2)] unfolding sv(7) by blast
  have g: "get16 F_OP (fpkt s1) = Some (int_of_octets (be2 (u16 op)))" "get16 F_COUNT (fpkt s1) = Some (int_of_octets (be2 (u16 len)))"
    unfolding sv(7) using rf_head_gets [OF v(2)] by blast+
  have ps: "s32 (u32 (pos + len)) = pos + len" using p n by (simp add: s32_def u32_def RDATLEN_def)
  have cs: "s16 (hton16 (int_of_octets (be2 (u16 len)))) = len"
    unfolding hton16_be using l n by (simp add: MININT_def MAXINT_def)
  have b: "get_bytes 0 (nat len) buff = Some dat" using ld by (simp add: get_bytes_def dat_def)
  have pb: "put_bytes FPHLEN dat (?head @ drop FPHLEN (fpkt s)) = Some p'"
    using l ld by (simp add: put_bytes_def p'_def FPHLEN_def RNAMLEN_def add.commute)
  have h: "rf_header FS_WRITE nam pos len (fpkt s) = Some (?head @ drop FPHLEN (fpkt s))"
    by (rule rf_header_head) (simp add: l FPHLEN_def)
  have "t \<noteq> SYSERR" "FS_WRITE \<noteq> FS_READ" by (simp_all add: sv(1) SYSERR_def FS_WRITE_def FS_READ_def)
  then have "rfmkpac L FS_WRITE nam pos buff len s = Some (len, pos + len, [], rcall (Signal (rmutex s)) s1)"
    using t(1) g x n v(1) ps cs sv(5) h b pb
    by (simp add: rfmkpac_def rf_request_def rf_reply_def hton16_be rcall_def Let_def)
  moreover have "request_done ?F s (rcall (Signal (rmutex s)) s1)"
    using sv by (simp add: request_done_def rcall_def ready_def)
  ultimately show ?thesis unfolding dat_def by blast
qed

text \<open>The same through the block of the file.\<close>


definition holds :: "nat \<Rightarrow> string \<Rightarrow> int \<Rightarrow> 'd rfinfo \<Rightarrow> bool" where
  "holds i nam pos s \<longleftrightarrow> ready s \<and> i < length (rftab s) \<and> rf_state (rftab s ! i) \<noteq> RFREE \<and> rf_name (rftab s ! i) = nam \<and>
     rf_pos (rftab s ! i) = pos"

lemma io_done:
  assumes h: "holds i nam pos s" and n: "0 \<le> len"
    and m: "\<And>s1. ready s1 \<Longrightarrow> files (link s1) = files (link s) \<Longrightarrow>
      \<exists>out s'. rfmkpac L rop nam pos buff len s1 = Some (r, npos, out, s') \<and> request_done F s1 s' \<and> P out"
  shows "\<exists>out s'. rfio L i rop buff len s = Some (r, out, s') \<and> holds i nam npos s' \<and> files (link s') = F \<and> P out"
proof -
  let ?s = "rcall (Wait (rf_mutex (rftab s ! i))) s"
  have "ready ?s" "files (link ?s) = files (link s)" using h by (simp_all add: holds_def ready_def rcall_def)
  from m [OF this] obtain out s' where w: "rfmkpac L rop nam pos buff len ?s = Some (r, npos, out, s')" "request_done F ?s s'" "P out"
    by blast
  then show ?thesis
    using h n by (simp add: rfio_def holds_def Let_def rcall_def request_done_def set_rfblk_def ready_def)
qed

lemma read_holds:
  assumes h: "holds i nam pos s" and f: "file_name nam" "files (link s) nam = Some c" and p: "0 \<le> pos" "pos + RDATLEN < 2147483648"
    and n: "0 \<le> len" and m: "FPHLEN + nat (min len RDATLEN) \<le> mtu" and c: "octet_list c"
  defines "dat \<equiv> take (nat (min len RDATLEN)) (drop (nat pos) c)"
  shows "\<exists>out s'. rfread L i len s = Some (int (length dat), out, s') \<and> take (length dat) out = dat \<and>
    holds i nam (pos + int (length dat)) s' \<and> files (link s') = files (link s)"
proof -
  have "\<exists>out s'. rfio L i FS_READ [] (min len RDATLEN) s = Some (int (length dat), out, s') \<and>
      holds i nam (pos + int (length dat)) s' \<and> files (link s') = files (link s) \<and> take (length dat) out = dat"
  proof (rule io_done [OF h])
    fix s1 assume "ready s1" "files (link s1) = files (link s)"
    moreover have "0 \<le> min len RDATLEN" using n by (simp add: RDATLEN_def)
    ultimately show "\<exists>out s'. rfmkpac L FS_READ nam pos [] (min len RDATLEN) s1 = Some (int (length dat), pos + int (length dat), out, s') \<and>
        request_done (files (link s)) s1 s' \<and> take (length dat) out = dat"
      using mkpac_read [of s1 nam c pos "min len RDATLEN" "[]"] f p m c unfolding dat_def by fastforce
  qed (use n in \<open>simp add: RDATLEN_def\<close>)
  then show ?thesis by (auto simp: rfread_def)
qed

lemma write_part_holds:
  assumes h: "holds i nam pos s" and f: "file_name nam" "files (link s) nam = Some c" and p: "0 \<le> pos" "pos + RDATLEN < 2147483648"
    and n: "0 \<le> len" "len \<le> RDATLEN" "len \<le> int (length buff)" and m: "FPHLEN + nat len \<le> mtu" and b: "octet_list buff"
  shows "\<exists>s' out. rfio L i FS_WRITE buff len s = Some (len, out, s') \<and> holds i nam (pos + len) s' \<and>
    files (link s') = (files (link s))(nam \<mapsto> overwrite (nat pos) (take (nat len) buff) c)"
proof -
  have "\<exists>out s'. rfio L i FS_WRITE buff len s = Some (len, out, s') \<and> holds i nam (pos + len) s' \<and>
      files (link s') = (files (link s))(nam \<mapsto> overwrite (nat pos) (take (nat len) buff) c) \<and> True"
    by (rule io_done [OF h n(1)]) (use mkpac_write [OF _ f(1) _ p n m b] f(2) in fastforce)
  then show ?thesis by blast
qed

lemma write_holds:
  assumes "holds i nam pos s" "file_name nam" "files (link s) nam = Some c" "0 \<le> pos" "pos + int (length buff) + RDATLEN < 2147483648"
    "FPHLEN + min (length buff) (nat RDATLEN) \<le> mtu" "octet_list buff"
  shows "\<exists>s'. rfwrite_loop L i buff (int (length buff)) s = Some (True, s') \<and> holds i nam (pos + int (length buff)) s' \<and>
    files (link s') = (files (link s))(nam \<mapsto> overwrite (nat pos) buff c)"
  using assms
proof (induction "length buff" arbitrary: buff pos s c rule: less_induct)
  case less
  show ?case
  proof (cases "buff = []")
    case True
    then show ?thesis using less.prems(1,3) by (simp add: fun_upd_idem rfwrite_loop_stops)
  next
    case False
    let ?k = "min (length buff) 512"
    have k: "min (int (length buff)) RDATLEN = int ?k" "nat (int ?k) = ?k" "nat RDATLEN = 512" by (simp_all add: RDATLEN_def)
    obtain s1 out where w: "rfio L i FS_WRITE buff (int ?k) s = Some (int ?k, out, s1)" "holds i nam (pos + int ?k) s1"
      "files (link s1) = (files (link s))(nam \<mapsto> overwrite (nat pos) (take ?k buff) c)"
      using write_part_holds [OF less.prems(1-4), of "int ?k" buff] less.prems(5-7) k by (auto simp: RDATLEN_def)
    let ?b = "drop 512 buff" and ?c = "overwrite (nat pos) (take ?k buff) c"
    have b: "buff = take ?k buff @ ?b" by (cases "length buff \<le> 512") simp_all
    have "\<exists>s'. rfwrite_loop L i ?b (int (length ?b)) s1 = Some (True, s') \<and> holds i nam (pos + int ?k + int (length ?b)) s' \<and>
        files (link s') = (files (link s1))(nam \<mapsto> overwrite (nat (pos + int ?k)) ?b ?c)"
      by (rule less.hyps) (use False less.prems w b k in \<open>auto simp: RDATLEN_def of_nat_diff octet_list_drop\<close>)
    then obtain s2 where s2: "rfwrite_loop L i ?b (int (length ?b)) s1 = Some (True, s2)" "holds i nam (pos + int ?k + int (length ?b)) s2"
        "files (link s2) = (files (link s1))(nam \<mapsto> overwrite (nat (pos + int ?k)) ?b ?c)" by blast
    have "overwrite (nat (pos + int ?k)) ?b ?c = overwrite (nat pos) buff c"
      using overwrite_append [of "nat pos" "take ?k buff" ?b c] b less.prems(4) by (simp add: nat_add_distrib min.commute)
    moreover have "int ?k + int (length ?b) = int (length buff)" by simp
    moreover have "rfwrite_loop L i buff (int (length buff)) s = rfwrite_loop L i ?b (int (length ?b)) s1"
    proof -
      have "rfwrite_loop L i buff (int (length buff)) s = rfwrite_loop L i ?b (int (length buff) - 512) s1"
        using w(1) False k by (subst rfwrite_loop.simps) (simp add: SYSERR_def RDATLEN_def)
      also have "\<dots> = rfwrite_loop L i ?b (int (length ?b)) s1"
        by (cases "length buff \<le> 512") (simp_all add: rfwrite_loop_stops of_nat_diff)
      finally show ?thesis .
    qed
    ultimately show ?thesis using s2 w(3) by (simp add: add.assoc)
  qed
qed

text \<open>What is written is read back.\<close>

lemma write_read:
  assumes h: "holds i nam pos s" and f: "file_name nam" "files (link s) nam = Some c" "octet_list c"
    and p: "0 \<le> pos" "pos + int (length buff) + RDATLEN < 2147483648" "0 \<le> len" and b: "octet_list buff"
    and m: "FPHLEN + min (length buff) (nat RDATLEN) \<le> mtu" "FPHLEN + nat (min len RDATLEN) \<le> mtu"
  defines "dat \<equiv> take (nat (min len RDATLEN)) (buff @ drop (nat pos + length buff) c)"
  shows "\<exists>s1 s2 s3 out.
    rfwrite L i buff (int (length buff)) s = Some (int (length buff), s1) \<and>
    files (link s1) = (files (link s))(nam \<mapsto> overwrite (nat pos) buff c) \<and>
    rfseek i pos s1 = (OK, s2) \<and>
    rfread L i len s2 = Some (int (length dat), out, s3) \<and>
    take (length dat) out = dat \<and> files (link s3) = files (link s1)"
proof -
  obtain s1 where w: "rfwrite_loop L i buff (int (length buff)) s = Some (True, s1)" "holds i nam (pos + int (length buff)) s1"
      "files (link s1) = (files (link s))(nam \<mapsto> overwrite (nat pos) buff c)"
    using write_holds [OF h f(1,2) p(1,2) m(1) b] by blast
  define s2 where "s2 = snd (rfseek i pos s1)"
  have sk: "rfseek i pos s1 = (OK, s2)" "holds i nam pos s2" "files (link s2) = files (link s1)"
    using w(2) by (simp_all add: s2_def rfseek_def Let_def holds_def ready_def rcall_def set_rfblk_def)
  have c: "drop (nat pos) (overwrite (nat pos) buff c) = buff @ drop (nat pos + length buff) c"
    by (cases "buff = []") (simp_all add: overwrite_parts(2))
  have f2: "files (link s2) nam = Some (overwrite (nat pos) buff c)" using sk(3) w(3) by simp
  have p1: "pos + RDATLEN < 2147483648" using p by simp
  obtain out s3 where "rfread L i len s2 = Some (int (length dat), out, s3)" "take (length dat) out = dat"
      "files (link s3) = files (link s2)"
    using read_holds [OF sk(2) f(1) f2 p(1) p1 p(3) m(2) overwrite_octets [OF b f(3)]] c unfolding dat_def by auto
  then show ?thesis using w(1,3) sk by (auto simp: rfwrite_def)
qed

end

section \<open>A link that loses and delays\<close>

text \<open>
  What happens to each attempt is arbitrary (\<open>fate\<close>), save that the one after a loss is delivered. A late reply arrives when the
  client has given up, and is the first that the next \<open>read\<close> finds.
\<close>

datatype fate = Deliver | LoseRequest | LoseReply | LateReply

record 'f lossy =
  l_files :: 'f
  l_queue :: "int list list"
  l_late :: "int list list"
  l_turn :: nat
  l_lost :: bool
  l_open :: bool

definition LDEV :: int where "LDEV = 5"

definition lossy_control :: "int \<Rightarrow> int \<Rightarrow> int \<Rightarrow> 'f lossy \<Rightarrow> (int \<times> 'f lossy) option" where
  "lossy_control dev func arg d =
     (if func = DG_SETMODE then Some (OK, d)
      else if func = DG_CLEAR then Some (OK, d\<lparr>l_queue := [], l_late := []\<rparr>) else Some (SYSERR, d))"

definition lossy_write ::
  "(nat \<Rightarrow> fate) \<Rightarrow> (int list \<Rightarrow> 'f \<Rightarrow> int list \<times> 'f) \<Rightarrow> nat \<Rightarrow> int \<Rightarrow> int list \<Rightarrow> 'f lossy \<Rightarrow> (int \<times> 'f lossy) option" where
  "lossy_write fate serve mtu dev q d =
     (if length q > mtu then Some (SYSERR, d)
      else
        (let (rep, F) = serve q (l_files d); ft = (if l_lost d then Deliver else fate (l_turn d)); d = d\<lparr>l_turn := l_turn d + 1\<rparr>
         in Some (int (length q),
              (case ft of
                 Deliver \<Rightarrow> d\<lparr>l_files := F, l_queue := l_queue d @ [rep], l_lost := False\<rparr>
               | LoseRequest \<Rightarrow> d\<lparr>l_lost := True\<rparr>
               | LoseReply \<Rightarrow> d\<lparr>l_files := F, l_lost := True\<rparr>
               | LateReply \<Rightarrow> d\<lparr>l_files := F, l_late := [rep], l_lost := True\<rparr>))))"

definition lossy_read :: "int \<Rightarrow> int \<Rightarrow> 'f lossy \<Rightarrow> (int \<times> int list \<times> 'f lossy) option" where
  "lossy_read dev k d =
     (case l_queue d of
        [] \<Rightarrow> Some (TIMEOUT, [], d\<lparr>l_queue := l_late d, l_late := []\<rparr>)
      | rep # reps \<Rightarrow> (let dat = take (nat k) rep in Some (int (length dat), dat, d\<lparr>l_queue := reps\<rparr>)))"

definition lossy_dev ::
  "(nat \<Rightarrow> fate) \<Rightarrow> (int list \<Rightarrow> 'f \<Rightarrow> int list \<times> 'f) \<Rightarrow> nat \<Rightarrow> 'f lossy serverdev" where
  "lossy_dev fate serve mtu =
     \<lparr>sv_open = (\<lambda>d. Some (LDEV, d\<lparr>l_open := True\<rparr>)), sv_control = lossy_control,
      sv_write = lossy_write fate serve mtu, sv_read = lossy_read\<rparr>"

definition l_cold :: "'f lossy \<Rightarrow> bool" where
  "l_cold d \<longleftrightarrow> \<not> l_open d"

definition l_opened :: "int \<Rightarrow> 'f lossy \<Rightarrow> bool" where
  "l_opened dev d \<longleftrightarrow> dev = LDEV \<and> l_open d"

definition l_quiet :: "(int list \<Rightarrow> 'f \<Rightarrow> int list \<times> 'f) \<Rightarrow> int \<Rightarrow> int list \<Rightarrow> 'f lossy \<Rightarrow> bool" where
  "l_quiet serve dev q d \<longleftrightarrow> l_opened dev d \<and> l_late d = [] \<and> (l_queue d = [] \<or> l_lost d \<and> l_queue d = [fst (serve q (l_files d))])"

definition l_patience :: "'f lossy \<Rightarrow> nat" where
  "l_patience d = (if l_lost d then 0 else 1)"

lemmas lossy_defs = lossy_dev_def lossy_control_def lossy_write_def lossy_read_def l_cold_def l_opened_def l_quiet_def l_patience_def

lemma lossy_link: "server_link (lossy_dev fate serve mtu) l_cold l_opened (l_quiet serve) l_files l_patience serve mtu"
proof
  show "\<exists>dev d1 r d2. sv_open (lossy_dev fate serve mtu) d = Some (dev, d1) \<and> dev \<noteq> SYSERR \<and>
      sv_control (lossy_dev fate serve mtu) dev DG_SETMODE (DG_DMODE OR DG_TMODE) d1 = Some (r, d2) \<and> r \<noteq> SYSERR \<and>
      l_opened dev d2 \<and> l_files d2 = l_files d" if "l_cold d" for d
    by (simp add: lossy_defs OK_def SYSERR_def LDEV_def)
  show "\<exists>r d'. sv_control (lossy_dev fate serve mtu) dev DG_CLEAR 0 d = Some (r, d') \<and>
      l_files d' = l_files d \<and> l_quiet serve dev q d'" if "l_opened dev d" for dev d q
    using that by (simp add: lossy_defs DG_CLEAR_def DG_SETMODE_def)
  show "\<exists>r d1 ret dat d2. sv_write (lossy_dev fate serve mtu) dev q d = Some (r, d1) \<and> r \<noteq> SYSERR \<and>
      sv_read (lossy_dev fate serve mtu) dev k d1 = Some (ret, dat, d2) \<and>
        (ret = TIMEOUT \<and> dat = [] \<and> l_quiet serve dev q d2 \<and> l_patience d2 < l_patience d \<and>
           (l_files d2 = l_files d \<or> l_files d2 = snd (serve q (l_files d))) \<or>
         l_opened dev d2 \<and> ret = int (length dat) \<and> dat = take (nat k) (fst (serve q (l_files d))) \<and> l_files d2 = snd (serve q (l_files d)))"
    if "l_quiet serve dev q d" "repeatable (serve q) (l_files d)" "length q \<le> mtu" for dev q d k
    using that by (cases "l_lost d"; cases "fate (l_turn d)")
      (auto simp: lossy_defs SYSERR_def repeatable_def case_prod_beta Let_def)
  show "l_patience d < RMAXTRY" for d :: "'a lossy"
    by (simp add: l_patience_def RMAXTRY_def)
qed

interpretation lossy: server_link "lossy_dev fate serve mtu" l_cold l_opened "l_quiet serve" l_files l_patience serve mtu
  by (rule lossy_link)

text \<open>A device state that is ready for requests, and a file that is open in it.\<close>

definition linked :: "'f lossy rfinfo \<Rightarrow> bool" where
  "linked s \<longleftrightarrow> length (fpkt s) = FPPLEN \<and>
     (if device s = RCLOSED then \<not> l_open (link s) else device s = LDEV \<and> l_open (link s))"

definition open_file :: "nat \<Rightarrow> string \<Rightarrow> int \<Rightarrow> 'f lossy rfinfo \<Rightarrow> bool" where
  "open_file i nam pos s \<longleftrightarrow> linked s \<and> i < length (rftab s) \<and> rf_state (rftab s ! i) \<noteq> RFREE \<and> rf_name (rftab s ! i) = nam \<and>
     rf_pos (rftab s ! i) = pos"

lemma lossy_ready: "server_link.ready l_cold l_opened s = linked s"
  unfolding lossy.ready_def by (simp add: linked_def l_cold_def l_opened_def)

lemma lossy_files:
  assumes "serves_read serve" "serves_write serve"
  shows "file_link (lossy_dev fate serve mtu) l_cold l_opened (l_quiet serve) l_files l_patience serve mtu"
  by (intro file_link.intro lossy_link file_link_axioms.intro assms)

lemma lossy_holds:
  assumes "serves_read serve" "serves_write serve"
  shows "file_link.holds l_cold l_opened i nam pos (s :: (string \<rightharpoonup> int list) lossy rfinfo) = open_file i nam pos s"
  unfolding file_link.holds_def [OF lossy_files [OF assms]] open_file_def lossy_ready ..

section \<open>An example of a server\<close>

text \<open>A server that does no more than that, and removes files.\<close>

definition ex_reply :: "int \<Rightarrow> int \<Rightarrow> int \<Rightarrow> int list \<Rightarrow> int list" where
  "ex_reply pos n op dat = rf_head pos n op (replicate RNAMLEN 0) @ dat"

definition ex_name :: "int list \<Rightarrow> string" where
  "ex_name q = map char_of (takeWhile (\<lambda>b. b \<noteq> 0) (take RNAMLEN (drop F_NAME q)))"

definition ex_serve :: "int list \<Rightarrow> (string \<rightharpoonup> int list) \<Rightarrow> int list \<times> (string \<rightharpoonup> int list)" where
  "ex_serve q F =
     (case (get16 F_OP q, get16 F_COUNT q, get32 F_POS q, F (ex_name q)) of
        (Some op, Some n, Some pos, Some c) \<Rightarrow>
          (let op = hton16 op; n = hton16 n; pos = hton32 pos; dat = take (nat n) (drop (nat pos) c); m = int (length dat)
           in if op = FS_READ then (ex_reply (pos + m) m op dat, F)
              else if op = FS_WRITE then (ex_reply (pos + n) n op [], F(ex_name q \<mapsto> overwrite (nat pos) (drop FPHLEN q) c))
              else if op = FS_UNLINK then (ex_reply 0 0 op [], F(ex_name q := None))
              else (ex_reply 0 0 FS_ERROR [], F))
      | _ \<Rightarrow> (ex_reply 0 0 FS_ERROR [], F))"

lemma ex_name_req:
  assumes "file_name nam"
  shows "ex_name (rf_req op nam pos n dat) = nam"
proof -
  have nz: "\<forall>b \<in> set (str_octets nam). b \<noteq> 0"
  proof
    fix b assume "b \<in> set (str_octets nam)"
    then obtain ch where "ch \<in> set nam" "b = of_char ch" by (auto simp: str_octets_def)
    moreover have "of_char ch = (0::int) \<longleftrightarrow> ch = CHR 0x00"
      using of_char_eq_iff [of ch "CHR 0x00", where 'a = int] by simp
    ultimately show "b \<noteq> 0" using assms by (auto simp: file_name_def)
  qed
  have "take RNAMLEN (drop F_NAME (rf_req op nam pos n dat)) = strncpy_octets RNAMLEN nam"
    by (simp add: rf_req_def rf_head_def F_NAME_def)
  also have "\<dots> = str_octets nam @ replicate (RNAMLEN - length nam) 0"
    using assms by (simp add: strncpy_octets_def file_name_def str_octets_def)
  finally have e: "take RNAMLEN (drop F_NAME (rf_req op nam pos n dat)) = str_octets nam @ replicate (RNAMLEN - length nam) 0" .
  have "takeWhile (\<lambda>b. b \<noteq> 0) (take RNAMLEN (drop F_NAME (rf_req op nam pos n dat))) = str_octets nam"
    unfolding e by (subst takeWhile_append2) (use nz in \<open>auto simp: takeWhile_eq_Nil_iff hd_replicate\<close>)
  then show ?thesis by (simp add: ex_name_def str_octets_def comp_def)
qed

lemma ex_serve_req:
  assumes "file_name nam" "F nam = Some c" "u32 pos = pos" "u16 n = n" "u16 op = op"
  shows "ex_serve (rf_req op nam pos n dat) F =
     (let dt = take (nat n) (drop (nat pos) c); m = int (length dt)
      in if op = FS_READ then (ex_reply (pos + m) m op dt, F)
         else if op = FS_WRITE then (ex_reply (pos + n) n op [], F(nam \<mapsto> overwrite (nat pos) dat c))
         else if op = FS_UNLINK then (ex_reply 0 0 op [], F(nam := None))
         else (ex_reply 0 0 FS_ERROR [], F))"
proof -
  have nm: "length (strncpy_octets RNAMLEN nam) = RNAMLEN" by simp
  note g = rf_head_gets(2,3,5) [OF nm, of pos n op dat, folded rf_req_def]
  obtain x where x: "get32 F_POS (rf_req op nam pos n dat) = Some x" "hton32 x = pos"
    using rf_head_gets(5) [OF nm, of pos n op dat] assms(3) unfolding rf_req_def by auto
  have d: "drop FPHLEN (rf_req op nam pos n dat) = dat" by (simp add: rf_req_def FPHLEN_def RNAMLEN_def)
  have h: "hton16 (int_of_octets (be2 (u16 n))) = n" "hton16 (int_of_octets (be2 (u16 op))) = op" using assms(4,5) hton16_be by metis+
  have g: "get16 F_COUNT (rf_req op nam pos n dat) = Some (int_of_octets (be2 (u16 n)))"
    "get16 F_OP (rf_req op nam pos n dat) = Some (int_of_octets (be2 (u16 op)))"
    unfolding rf_req_def using rf_head_gets(2,3) [OF nm] by blast+
  show ?thesis unfolding ex_serve_def g x(1) ex_name_req [OF assms(1)] assms(2) d by (simp only: option.case prod.case Let_def h x(2))
qed

lemma zero_octets: "octet_list (replicate n 0)"
  by (auto simp: octet_list_def)

lemma ex_serve_reads: "serves_read ex_serve"
  unfolding serves_read_def
proof (intro allI impI, elim conjE)
  fix nam pos n c and F :: "string \<rightharpoonup> int list"
  assume a: "file_name nam" "0 \<le> pos" "pos + RDATLEN < 2147483648" "0 \<le> n" "n \<le> RDATLEN" "F nam = Some c"
  have e: "u32 pos = pos" "u16 n = n" "u16 FS_READ = FS_READ" "u16 FS_READ \<noteq> u16 FS_ERROR"
    using a by (simp_all add: u32_def RDATLEN_def FS_READ_def FS_ERROR_def u16_def)
  show "let dat = take (nat n) (drop (nat pos) c) in \<exists>op nm. u16 op \<noteq> u16 FS_ERROR \<and> length nm = RNAMLEN \<and> octet_list nm \<and>
      ex_serve (rf_req FS_READ nam pos n []) F = (rf_head (pos + int (length dat)) (int (length dat)) op nm @ dat, F)"
    unfolding Let_def ex_serve_req [of nam F c, OF a(1,6) e(1-3)] ex_reply_def
    by (rule exI [of _ FS_READ], rule exI [of _ "replicate RNAMLEN 0"]) (simp only: e(4) if_True length_replicate simp_thms zero_octets)
qed

lemma ex_serve_writes: "serves_write ex_serve"
  unfolding serves_write_def
proof (intro allI impI, elim conjE)
  fix nam pos and dat :: "int list"
  assume a: "file_name nam" "0 \<le> pos" "pos + RDATLEN < 2147483648" "int (length dat) \<le> RDATLEN"
  let ?n = "int (length dat)"
  have e: "u32 pos = pos" "u16 ?n = ?n" "u16 FS_WRITE = FS_WRITE" "u16 FS_WRITE \<noteq> u16 FS_ERROR" "FS_WRITE \<noteq> FS_READ"
    using a by (simp_all add: u32_def RDATLEN_def FS_READ_def FS_WRITE_def FS_ERROR_def u16_def)
  show "\<exists>op nm. u16 op \<noteq> u16 FS_ERROR \<and> length nm = RNAMLEN \<and> octet_list nm \<and> (\<forall>F c. F nam = Some c \<longrightarrow>
      ex_serve (rf_req FS_WRITE nam pos ?n dat) F = (rf_head (pos + ?n) ?n op nm, F(nam \<mapsto> overwrite (nat pos) dat c)))"
    by (rule exI [of _ FS_WRITE], rule exI [of _ "replicate RNAMLEN 0"])
      (auto simp only: ex_serve_req [OF a(1) _ e(1-3)] e(4,5) Let_def if_False if_True length_replicate ex_reply_def append_Nil2 refl zero_octets)
qed

interpretation ex: file_link "lossy_dev fate ex_serve mtu" l_cold l_opened "l_quiet ex_serve" l_files l_patience ex_serve mtu
  by (rule lossy_files [OF ex_serve_reads ex_serve_writes])

definition ex_rf :: "(string \<rightharpoonup> int list) lossy rfinfo" where
  "ex_rf = \<lparr>device = RCLOSED, rmutex = 9,
     rftab = [\<lparr>rf_dnum = 12, rf_name = ''log'', rf_state = RUSED, rf_mode = FLRW, rf_mutex = 8, rf_pos = 1\<rparr>], fpkt = replicate FPPLEN 0,
     link = \<lparr>l_files = [''log'' \<mapsto> [1, 2, 3, 4]], l_queue = [], l_late = [], l_turn = 0, l_lost = False, l_open = False\<rparr>, semcalls = []\<rparr>"

end
