(* ===== verification/RemoteSafe.thy ===== *)
theory RemoteSafe
  imports RemoteProps
begin

text \<open>
  The semaphores of remote files: every operation releases what it has waited for, in the inverse order, whatever the
  server answers, and the semaphore of a file is never waited for while that of the server is held. Then what the
  model shows of the limits of this code.
\<close>

section \<open>Semaphores\<close>

text \<open>The calls of complete operations: \<open>r\<close> is the semaphore of the server, \<open>M\<close> are those of the files.\<close>

inductive nested :: "int \<Rightarrow> int set \<Rightarrow> semcall list \<Rightarrow> bool" for r M where
  nested_nil: "nested r M []"
| nested_file: "nested r M cs \<Longrightarrow> m \<in> M \<Longrightarrow> nested r M (cs @ [Wait m, Signal m])"
| nested_server: "nested r M cs \<Longrightarrow> nested r M (cs @ [Wait r, Signal r])"
| nested_both: "nested r M cs \<Longrightarrow> m \<in> M \<Longrightarrow> nested r M (cs @ [Wait m, Wait r, Signal r, Signal m])"

definition rf_sems :: "'d rfinfo \<Rightarrow> int \<times> int list" where
  "rf_sems s = (rmutex s, map rf_mutex (rftab s))"

text \<open>The operations of the file \<open>i\<close>, and those on names.\<close>

inductive rf_step :: "'d serverdev \<Rightarrow> 'd rfinfo \<Rightarrow> 'd rfinfo \<Rightarrow> bool" for L where
  step_open: "rfopen L nam mode s = Some (r, s') \<Longrightarrow> rf_step L s s'"
| step_close: "i < length (rftab s) \<Longrightarrow> rfclose L i s = Some (r, s') \<Longrightarrow> rf_step L s s'"
| step_read: "i < length (rftab s) \<Longrightarrow> rfread L i len s = Some (r, dat, s') \<Longrightarrow> rf_step L s s'"
| step_write: "i < length (rftab s) \<Longrightarrow> rfwrite L i buff len s = Some (r, s') \<Longrightarrow> rf_step L s s'"
| step_seek: "i < length (rftab s) \<Longrightarrow> rfseek i off s = (r, s') \<Longrightarrow> rf_step L s s'"
| step_getc: "i < length (rftab s) \<Longrightarrow> rfgetc L i s = Some (r, s') \<Longrightarrow> rf_step L s s'"
| step_putc: "i < length (rftab s) \<Longrightarrow> rfputc L i ch s = Some (r, s') \<Longrightarrow> rf_step L s s'"
| step_cntl: "rfcntl L func a b s = Some (r, s') \<Longrightarrow> rf_step L s s'"

text \<open>What a call leaves: the same semaphores, and complete calls of them after those before.\<close>

definition rf_kept :: "'d rfinfo \<Rightarrow> 'd rfinfo \<Rightarrow> bool" where
  "rf_kept s s' \<longleftrightarrow> rf_sems s' = rf_sems s \<and>
     (nested (rmutex s) (set (map rf_mutex (rftab s))) (semcalls s) \<longrightarrow>
      nested (rmutex s) (set (map rf_mutex (rftab s))) (semcalls s'))"

lemma rf_kept_refl [simp]: "rf_kept s s"
  by (simp add: rf_kept_def)

lemma rf_kept_trans: "rf_kept s s1 \<Longrightarrow> rf_kept s1 s2 \<Longrightarrow> rf_kept s s2"
  by (auto simp: rf_kept_def rf_sems_def simp flip: set_map)

lemma rf_try_sems:
  "rf_try L n m k s = Some (r, s') \<Longrightarrow> rmutex s' = rmutex s \<and> rftab s' = rftab s \<and> semcalls s' = semcalls s"
proof (induction n arbitrary: s)
  case (Suc n)
  obtain q w d ret dat d2 p where w: "get_bytes 0 (nat m) (fpkt s) = Some q" "sv_write L (device s) q (link s) = Some (w, d)"
    "w \<noteq> SYSERR \<Longrightarrow> sv_read L (device s) k d = Some (ret, dat, d2)" "w \<noteq> SYSERR \<Longrightarrow> put_bytes 0 dat (fpkt s) = Some p"
    using Suc.prems by (auto split: bind_splits if_splits)
  let ?s = "s\<lparr>link := d2, fpkt := p\<rparr>"
  have "s' = s\<lparr>link := d\<rparr> \<or> s' = ?s \<or> rf_try L n m k ?s = Some (r, s')"
    using Suc.prems w by (cases "w = SYSERR"; cases "ret \<noteq> SYSERR \<and> ret \<noteq> TIMEOUT") (auto simp: Let_def)
  then show ?case using Suc.IH [of ?s] by auto
qed simp

lemma rf_connect_sems:
  "rf_connect L s = Some (b, s') \<Longrightarrow> rmutex s' = rmutex s \<and> rftab s' = rftab s \<and> semcalls s' = semcalls s"
  by (auto simp: rf_connect_def Let_def split: bind_splits if_splits)

lemma rfsend_sems:
  "rfsend L m k s = Some (r, s') \<Longrightarrow> rmutex s' = rmutex s \<and> rftab s' = rftab s \<and> semcalls s' = semcalls s"
  by (auto simp: rfsend_def dest!: rf_connect_sems rf_try_sems split: bind_splits if_splits)

lemma rfmkpac_sems:
  "rfmkpac L rop nam pos buff len s = Some (r, npos, out, s') \<Longrightarrow>
    rmutex s' = rmutex s \<and> rftab s' = rftab s \<and> semcalls s' = semcalls s @ [Wait (rmutex s), Signal (rmutex s)]"
  by (auto simp: rfmkpac_def Let_def rcall_def dest!: rfsend_sems split: bind_splits if_splits option.splits)

lemma map_mutex_upd:
  "rf_mutex b = rf_mutex (bs ! i) \<Longrightarrow> map rf_mutex (bs[i := b]) = map rf_mutex bs"
  by (cases "i < length bs") (auto simp: map_update intro!: nth_equalityI simp: nth_list_update)

text \<open>A call that leaves the table but for the other fields of a block, and makes the calls of one complete operation.\<close>

lemma rf_kept_by:
  assumes "rmutex s' = rmutex s" "map rf_mutex (rftab s') = map rf_mutex (rftab s)"
    "semcalls s' = semcalls s @ cs" "cs = [] \<or> cs = [Wait m, Signal m] \<or> cs = [Wait m, Wait (rmutex s), Signal (rmutex s), Signal m]"
    "m \<in> set (map rf_mutex (rftab s))"
  shows "rf_kept s s'"
  using assms nested_file [OF _ assms(5)] nested_both [OF _ assms(5)] by (auto simp: rf_kept_def rf_sems_def simp del: set_map)

lemma rfio_kept:
  assumes "rfio L i rop buff len s = Some (r, out, s')" "i < length (rftab s)"
  shows "rf_kept s s' \<and> length (rftab s') = length (rftab s)"
proof -
  let ?m = "rf_mutex (rftab s ! i)"
  have m: "?m \<in> set (map rf_mutex (rftab s))" using assms(2) by simp
  show ?thesis
  proof (cases "len < 0 \<or> rf_state (rftab s ! i) = RFREE")
    case True
    then have "s' = rcall (Signal ?m) (rcall (Wait ?m) s)" using assms(1) by (auto simp: rfio_def Let_def rcall_def)
    then show ?thesis by (auto simp: rcall_def intro!: rf_kept_by [OF _ _ _ _ m])
  next
    case False
    then obtain pos s1 where w: "rfmkpac L rop (rf_name (rftab s ! i)) (rf_pos (rftab s ! i)) buff len (rcall (Wait ?m) s) = Some (r, pos, out, s1)"
      "s' = rcall (Signal ?m) (set_rfblk i (\<lambda>b. b\<lparr>rf_pos := pos\<rparr>) s1)"
      using assms(1) by (auto simp: rfio_def Let_def rcall_def split: bind_splits)
    then show ?thesis using rfmkpac_sems [OF w(1)]
      by (auto simp: rcall_def set_rfblk_def map_mutex_upd intro!: rf_kept_by [OF _ _ _ _ m])
  qed
qed

lemma rfread_kept:
  "rfread L i len s = Some (r, out, s') \<Longrightarrow> i < length (rftab s) \<Longrightarrow> rf_kept s s'"
  using rfio_kept by (fastforce simp: rfread_def)

lemma rfwrite_loop_kept:
  "rfwrite_loop L i buff n s = Some (ok, s') \<Longrightarrow> i < length (rftab s) \<Longrightarrow> rf_kept s s'"
proof (induction L i buff n s arbitrary: ok s' rule: rfwrite_loop.induct)
  case (1 L i buff n s)
  show ?case
  proof (cases "n > 0")
    case True
    obtain r out s1 where w: "rfio L i FS_WRITE buff (min n RDATLEN) s = Some (r, out, s1)"
      using 1(2) True by (subst (asm) rfwrite_loop.simps) (auto split: bind_splits)
    note k = rfio_kept [OF w 1(3)]
    show ?thesis
    proof (cases "r = SYSERR")
      case True
      then show ?thesis using 1(2) \<open>n > 0\<close> w k by (subst (asm) rfwrite_loop.simps) simp
    next
      case False
      then have "rfwrite_loop L i (drop (nat RDATLEN) buff) (n - RDATLEN) s1 = Some (ok, s')"
        using 1(2) True w by (subst (asm) rfwrite_loop.simps) simp
      then show ?thesis using 1(1) [OF True w _ _ False] k 1(3) rf_kept_trans by fastforce
    qed
  qed (use 1(2) in \<open>simp add: rfwrite_loop_stops\<close>)
qed

lemma rfwrite_kept:
  "rfwrite L i buff len s = Some (r, s') \<Longrightarrow> i < length (rftab s) \<Longrightarrow> rf_kept s s'"
  by (auto simp: rfwrite_def dest: rfwrite_loop_kept split: bind_splits if_splits)

lemma rfclose_kept:
  assumes "rfclose L i s = Some (r, s')" "i < length (rftab s)"
  shows "rf_kept s s'"
proof (cases "rf_state (rftab s ! i) = RFREE")
  case False
  let ?m = "rf_mutex (rftab s ! i)"
  have m: "?m \<in> set (map rf_mutex (rftab s))" using assms(2) by simp
  obtain q pos out s1 where w: "rfmkpac L FS_CLOSE (rf_name (rftab s ! i)) 0 [] 0 (rcall (Wait ?m) s) = Some (q, pos, out, s1)"
    "s' = rcall (Signal ?m) (set_rfblk i (\<lambda>b. b\<lparr>rf_state := RFREE\<rparr>) s1)"
    using assms(1) False by (auto simp: rfclose_def Let_def split: bind_splits)
  then show ?thesis using rfmkpac_sems [OF w(1)]
    by (auto simp: rcall_def set_rfblk_def map_mutex_upd intro!: rf_kept_by [OF _ _ _ _ m])
qed (use assms in \<open>simp add: rfclose_def\<close>)

lemma rfseek_kept:
  assumes "rfseek i off s = (r, s')" "i < length (rftab s)"
  shows "rf_kept s s'"
proof -
  have m: "rf_mutex (rftab s ! i) \<in> set (map rf_mutex (rftab s))" using assms(2) by simp
  show ?thesis using assms(1)
    by (auto simp: rfseek_def Let_def rcall_def set_rfblk_def map_mutex_upd intro!: rf_kept_by [OF _ _ _ _ m])
qed

lemma rfcntl_kept:
  assumes "rfcntl L func a b s = Some (r, s')"
  shows "rf_kept s s'"
proof -
  have k: "rf_kept s s1" if "rfmkpac L rop nam pos buff len s = Some (q, npos, out, s1)" for rop nam pos buff len q npos out s1
    using rfmkpac_sems [OF that] nested_server by (auto simp: rf_kept_def rf_sems_def)
  show ?thesis using assms
    by (auto simp: rfcntl_def rf_kept_def rf_sems_def split: bind_splits if_splits ctlarg.splits dest!: k)
qed

lemma rfalloc_mutex: "rfalloc k bs = Some (i, bs') \<Longrightarrow> map rf_mutex bs' = map rf_mutex bs \<and> k \<le> i \<and> i < k + length bs"
  by (induction k bs arbitrary: i bs' rule: rfalloc.induct) (fastforce split: if_splits)+

lemma rfopen_kept:
  assumes "rfopen L nam mode s = Some (r, s')"
  shows "rf_kept s s'"
proof (cases "length nam > RNAMLEN \<or> ckmode mode = SYSERR \<or> rfalloc 0 (rftab s) = None")
  case False
  then obtain i bs where a: "rfalloc 0 (rftab s) = Some (i, bs)" by auto
  let ?s = "rf_setup i nam (ckmode mode) (s\<lparr>rftab := bs\<rparr>)"
  obtain q out s1 where w: "rfio L i FS_OPEN [] 0 ?s = Some (q, out, s1)"
    "s' = (if q = SYSERR then set_rfblk i (\<lambda>b. b\<lparr>rf_state := RFREE\<rparr>) s1 else s1)"
    using assms False a by (auto simp: rfopen_def Let_def split: bind_splits if_splits)
  have m: "map rf_mutex bs = map rf_mutex (rftab s)" "i < length bs"
    using rfalloc_mutex [OF a] by (auto dest: map_eq_imp_length_eq)
  then have "rf_kept s ?s" by (simp add: rf_kept_def rf_sems_def rf_setup_def set_rfblk_def map_mutex_upd)
  moreover have "rf_kept ?s s1" using rfio_kept [OF w(1)] m by (simp add: rf_setup_def set_rfblk_def)
  moreover have "rf_kept s1 s'" by (simp add: w(2) rf_kept_def rf_sems_def set_rfblk_def map_mutex_upd)
  ultimately show ?thesis using rf_kept_trans by blast
qed (use assms in \<open>auto simp: rfopen_def split: if_splits option.splits\<close>)

lemma rf_step_kept: "rf_step L s s' \<Longrightarrow> rf_kept s s'"
  by (induction rule: rf_step.induct)
    (auto simp: rfgetc_def rfputc_def split: bind_splits
      dest: rfopen_kept rfclose_kept rfread_kept rfwrite_kept rfseek_kept rfcntl_kept)

text \<open>C31. In every sequence of operations on remote files, whatever the server's device returns, each operation releases the semaphores
  it has waited for, in the inverse order, and the semaphore of a file is never waited for while that of the server is held.
\<close>

theorem remote_semaphores_nested:
  assumes "(rf_step L)\<^sup>*\<^sup>* s s'" "semcalls s = []"
  shows "nested (rmutex s) (set (map rf_mutex (rftab s))) (semcalls s')"
proof -
  from assms(1) have "rf_kept s s'"
    by (induction rule: rtranclp_induct) (auto dest: rf_step_kept intro: rf_kept_trans)
  then show ?thesis using assms(2) nested_nil by (simp add: rf_kept_def)
qed

text \<open>An instance: a write, whose first reply is late, and a removal.\<close>

theorem remote_semaphores_nested_witness:
  "nested 9 {8} (semcalls (snd (the (rfputc (lossy_dev (\<lambda>_. LateReply) ex_serve 100) 0 65 ex_rf))))"
proof -
  let ?L = "lossy_dev (\<lambda>_. LateReply) ex_serve 100"
  have o: "open_file 0 ''log'' 1 ex_rf" "file_name ''log''" "l_files (link ex_rf) ''log'' = Some [1, 2, 3, 4]"
    by (simp_all add: open_file_def linked_def ex_rf_def file_name_def RNAMLEN_def)
  obtain s1 where "rfwrite ?L 0 [65] (int (length [65 :: int])) ex_rf = Some (int (length [65 :: int]), s1)"
    using file_link.write_holds [OF lossy_files [OF ex_serve_reads ex_serve_writes, of "\<lambda>_. LateReply" 100],
        unfolded lossy_holds [OF ex_serve_reads ex_serve_writes], OF o, of "[65]"] by (auto simp: RDATLEN_def FPHLEN_def rfwrite_def octet_list_def)
  then have w: "rfputc ?L 0 65 ex_rf = Some (OK, s1)" by (simp add: rfputc_def u8_def)
  have "(rf_step ?L)\<^sup>*\<^sup>* ex_rf s1" using step_putc [OF _ w] by (auto simp: ex_rf_def)
  from remote_semaphores_nested [OF this] show ?thesis unfolding w by (simp add: ex_rf_def)
qed

section \<open>Limits of the code\<close>

text \<open>At the end of a file \<open>rfgetc\<close> returns the value of an error, not EOF.\<close>

lemma rfgetc_end_of_file:
  assumes "serves_read serve" "serves_write serve" "open_file i nam pos s" "file_name nam" "l_files (link s) nam = Some c"
    "int (length c) \<le> pos" "pos + RDATLEN < 2147483648" "FPHLEN < mtu" "octet_list c"
  shows "\<exists>s'. rfgetc (lossy_dev fate serve mtu) i s = Some (SYSERR, s')"
proof -
  have "0 \<le> pos" "drop (nat pos) c = []" using assms(6) by auto
  moreover have "FPHLEN + nat (min 1 RDATLEN) \<le> mtu" using assms(8) by (simp add: RDATLEN_def)
  ultimately show ?thesis
    using file_link.read_holds [OF lossy_files [OF assms(1,2), of fate mtu], unfolded lossy_holds [OF assms(1,2)],
        OF assms(3-5) _ assms(7) _ _ assms(9), of 1]
    by (auto simp: rfgetc_def EOF_def)
qed

text \<open>
  A request with more than 460 octets does not fit a datagram: with a datagram device as the server's, every write of more than that
  fails, although \<open>rfwrite\<close> divides the data.
\<close>

lemma large_write_refused:
  assumes L: "\<And>dev q d. sv_write L dev q d =
      dgwrite env bufs mypid wres dg p \<lparr>xg_faddr = [], xg_fport = 0, xg_lport = 0, xg_data = q\<rparr> (int (length q)) d"
    and control: "\<And>dev f a d. sv_control L dev f a d \<noteq> None"
    and s: "device s \<noteq> RCLOSED" "length (fpkt s) = FPPLEN" "i < length (rftab s)" "rf_state (rftab s ! i) \<noteq> RFREE"
    and n: "460 < length buff"
  shows "\<exists>s'. rfwrite L i buff (int (length buff)) s = Some (SYSERR, s')"
proof -
  let ?m = "min (int (length buff)) RDATLEN" let ?b = "rftab s ! i"
  let ?s = "rcall (Wait (rmutex s)) (rcall (Wait (rf_mutex ?b)) s)"
  let ?head = "rf_head (rf_pos ?b) ?m FS_WRITE (strncpy_octets RNAMLEN (rf_name ?b))"
  have m: "460 < ?m" "?m \<le> 512" "nat ?m \<le> length buff" "nat ?m \<le> 512" using n by (auto simp: RDATLEN_def)
  have l: "length (fpkt s) = 600" using s(2) by (simp add: FPPLEN_def)
  define p' where "p' = ?head @ take (nat ?m) buff @ drop (FPHLEN + nat ?m) (fpkt s)"
  have lp: "length p' = 600" using l m by (simp add: p'_def FPHLEN_def RNAMLEN_def)
  have h: "rf_header FS_WRITE (rf_name ?b) (rf_pos ?b) ?m (fpkt ?s) = Some (?head @ drop FPHLEN (fpkt s))"
    using rf_header_head [of "fpkt s"] l by (simp add: rcall_def FPHLEN_def)
  have "put_bytes FPHLEN (take (nat ?m) buff) (?head @ drop FPHLEN (fpkt s)) = Some p'"
    using l m by (simp add: put_bytes_def p'_def FPHLEN_def RNAMLEN_def add.commute)
  then have r: "rf_request FS_WRITE buff ?m (?head @ drop FPHLEN (fpkt s)) = Some (Some (p', int FPHLEN + ?m, int FPHLEN))"
    using m by (simp add: rf_request_def get_bytes_def RDATLEN_def)
  obtain q d where c: "sv_control L (device s) DG_CLEAR 0 (link s) = Some (q, d)" using control by (metis not_None_eq surj_pair)
  let ?s1 = "?s\<lparr>fpkt := p', link := d\<rparr>" let ?req = "take (FPHLEN + nat ?m) p'"
  have nt: "nat (int FPHLEN + ?m) = FPHLEN + nat ?m" using m by (simp add: nat_add_distrib)
  have g: "get_bytes 0 (FPHLEN + nat ?m) p' = Some ?req" "length ?req = FPHLEN + nat ?m"
    using lp m by (simp_all add: get_bytes_def FPHLEN_def)
  have w: "sv_write L (device s) ?req d = Some (SYSERR, d)"
    unfolding L g(2) using m by (simp add: dgwrite_def UMAXLEN_def EMAXPAK_def IPHLEN_def EHLEN_def UHLEN_def FPHLEN_def)
  have "rfsend L (int FPHLEN + ?m) (int FPHLEN) (?s\<lparr>fpkt := p'\<rparr>) = Some (SYSERR, ?s1\<lparr>link := d\<rparr>)"
    using s(1) c g(1) w nt by (simp add: rfsend_def rf_connect_def rcall_def RMAXTRY_def numeral_2_eq_2)
  moreover have "get16 F_OP p' = Some (int_of_octets (be2 (u16 FS_WRITE)))"
    unfolding p'_def by (rule rf_head_gets(3)) simp
  ultimately have "\<exists>s'. rfio L i FS_WRITE buff ?m s = Some (SYSERR, [], s')"
    using s(4) h r m by (simp add: rfio_def Let_def rfmkpac_def rcall_def)
  then show ?thesis using n by (auto simp: rfwrite_def rfwrite_loop.simps [of L i buff "int (length buff)" s])
qed

text \<open>The terminator of a name of 80 characters is stored in the state of the block.\<close>

lemma rfopen_name_overflows:
  assumes "length nam = RNAMLEN" "i < length (rftab s)"
  shows "rf_state (rftab (rf_setup i nam mode s) ! i) = ROTHER"
  using assms by (simp add: rf_setup_def set_rfblk_def)

text \<open>
  Removing a file may not be repeated: when the reply is lost the file is gone, and the answer to the second request, that there is no such
  file, is returned as an error.
\<close>

lemma lost_reply_of_remove:
  "case rfcntl (lossy_dev (\<lambda>_. LoseReply) ex_serve 100) FLREMOVE (CName ''log'') CNull ex_rf of
     Some (r, s) \<Rightarrow> r = SYSERR \<and> l_files (link s) ''log'' = None
   | None \<Rightarrow> False"
  by code_simp

text \<open>
  Requests have no number, and of a reply only the error is looked at: the late reply to a write, which comes in when the port has been cleared for
  a read, is taken for the reply to the read, with its count and its position.
\<close>

lemma stale_reply_taken:
  assumes L: "sv_control L (device s) DG_CLEAR 0 (link s) = Some (c, d1)" "\<And>q. sv_write L (device s) q d1 = Some (w, d2)" "w \<noteq> SYSERR"
      "sv_read L (device s) (int FPHLEN + len) d2 = Some (int FPHLEN, rf_head p n FS_WRITE nm, d3)"
    and s: "device s \<noteq> RCLOSED" "length (fpkt s) = FPPLEN"
    and r: "length nm = RNAMLEN" "0 \<le> p" "p < 2147483648" "0 \<le> n" "n < 32768" "0 \<le> len" "len \<le> RDATLEN"
  shows "\<exists>out s'. rfmkpac L FS_READ nam pos buff len s = Some (n, p, out, s')"
proof -
  let ?s = "rcall (Wait (rmutex s)) s"
  let ?head = "rf_head pos len FS_READ (strncpy_octets RNAMLEN nam)" let ?rep = "rf_head p n FS_WRITE nm"
  define tail where "tail = drop FPHLEN (fpkt s)"
  have l: "length (fpkt s) = 600" "length tail = 512" using s(2) by (simp_all add: FPPLEN_def FPHLEN_def tail_def)
  have h: "rf_header FS_READ nam pos len (fpkt ?s) = Some (?head @ tail)"
    using rf_header_head [of "fpkt s"] l by (simp add: rcall_def FPHLEN_def tail_def)
  have lh: "length ?head = 88" "length ?rep = 88" using r(1) by (simp_all add: RNAMLEN_def)
  have q: "get_bytes 0 FPHLEN (?head @ tail) = Some ?head" using lh by (simp add: get_bytes_def FPHLEN_def)
  have pb: "put_bytes 0 ?rep (?head @ tail) = Some (?rep @ tail)" using lh by (simp add: put_bytes_def)
  let ?t = "?s\<lparr>fpkt := ?rep @ tail, link := d3\<rparr>"
  have "rfsend L (int FPHLEN) (int FPHLEN + len) (?s\<lparr>fpkt := ?head @ tail\<rparr>) = Some (int FPHLEN, ?t)"
    using L s(1) q pb by (simp add: rfsend_def rf_connect_def rcall_def RMAXTRY_def numeral_2_eq_2 SYSERR_def TIMEOUT_def FPHLEN_def)
  moreover have "rf_request FS_READ buff len (?head @ tail) = Some (Some (?head @ tail, int FPHLEN, int FPHLEN + len))"
    using r(7) by (simp add: rf_request_def header_ops_def FS_READ_def FS_WRITE_def FS_RENAME_def FS_CLOSE_def FS_OPEN_def FS_UNLINK_def
        FS_MKDIR_def FS_RMDIR_def FS_ACCESS_def)
  moreover have "rf_reply FS_READ pos len (?rep @ tail) = Some (n, p, take (nat len) tail)"
  proof -
    obtain x where x: "get32 F_POS (?rep @ tail) = Some x" "hton32 x = u32 p" using rf_head_gets(5) [OF r(1)] by blast
    have v: "s32 (u32 p) = p" "s16 (u16 n) = n" using r(2-5) by (simp_all add: s32_def u32_def MININT_def MAXINT_def)
    have "nat len \<le> length tail" using r(7) l(2) by (simp add: RDATLEN_def)
    from rf_head_gets(4) [OF r(1) this] show ?thesis
      using x v rf_head_gets(2) [OF r(1), of p n FS_WRITE tail] by (simp add: rf_reply_def hton16_be)
  qed
  moreover have "hton16 (int_of_octets (be2 (u16 FS_WRITE))) \<noteq> u16 FS_ERROR"
    unfolding hton16_be by (simp add: FS_WRITE_def FS_ERROR_def u16_def)
  ultimately show ?thesis using h rf_head_gets(3) [OF r(1), of p n FS_WRITE tail]
    by (simp add: rfmkpac_def Let_def) (simp add: SYSERR_def FPHLEN_def)
qed

end
