(* ===== verification/RemoteNet.thy ===== *)
theory RemoteNet
  imports DgramProps RemoteProps
begin

text \<open>
  Remote files over the datagram device (\<open>rfsend.c\<close> with \<open>dgmopen.c\<close>, \<open>dgcntl.c\<close>, \<open>dgwrite.c\<close>, \<open>dgread.c\<close> and \<open>netin.c\<close>):
  \<open>net_device\<close> has the routines of the device on the state of the client's network, and the two locales hold for it. The server
  and its host, the Ethernet between the two hosts and the time that passes are arguments: a \<open>world\<close>.
\<close>

unbundle bit_operations_syntax

section \<open>The world\<close>

text \<open>
  What becomes of a request and its reply: one of them is lost, or the reply comes in \<open>k\<close> moments later. A moment passes after
  a write, one while a reader waits, and one after a reader has given up; what has not come in by the next request
  of the file system comes in before \<open>rfsend\<close> clears the port.
\<close>

datatype passage = RequestLost | ReplyLost | Arrives nat

definition in_time :: "passage \<Rightarrow> bool" where
  "in_time w \<longleftrightarrow> w = Arrives 0 \<or> w = Arrives 1"

record 'f world =
  w_server :: "int list \<Rightarrow> 'f \<Rightarrow> int list \<times> 'f"
  w_answer :: "packet \<Rightarrow> int list \<Rightarrow> packet"
  w_passage :: "nat \<Rightarrow> passage"
  w_buf :: "nat \<Rightarrow> packet"
  w_pid :: int
  w_wres :: int
  w_icmpp :: int
  w_env :: env
  w_bufs :: bufs

text \<open>
  The client's state with its datagram devices, the number of packets that have been taken from each port, the files, the number
  of requests sent so far, and the replies on their way with the moments to go.
\<close>

record 'f rnet =
  client :: netst
  dgtab :: "dgblk list"
  taken :: "int \<Rightarrow> nat"
  files_of :: 'f
  turn :: nat
  flight :: "(nat \<times> packet) list"

text \<open>The packets that were put into a port, and those that are still in it.\<close>

definition arrived :: "int \<Rightarrow> netcall list \<Rightarrow> packet list" where
  "arrived x cs = concat (map (\<lambda>c. case c of Psend y p \<Rightarrow> if y = x then [p] else [] | _ \<Rightarrow> []) cs)"

definition in_port :: "(int \<Rightarrow> nat) \<Rightarrow> int \<Rightarrow> netst \<Rightarrow> packet list" where
  "in_port tk x s = drop (tk x) (arrived x (calls s))"

fun input_all :: "'f world \<Rightarrow> (int \<Rightarrow> nat) \<Rightarrow> packet list \<Rightarrow> netst \<Rightarrow> netst option" where
  "input_all W tk [] s = Some s"
| "input_all W tk (p # ps) s =
     Option.bind (netin_packet (\<lambda>x. int (length (in_port tk x s))) (w_icmpp W) p (int (length p)) s) (input_all W tk ps)"

definition due :: "(nat \<times> packet) list \<Rightarrow> packet list" where
  "due fl = map snd (filter (\<lambda>e. fst e = 0) fl)"

definition later :: "(nat \<times> packet) list \<Rightarrow> (nat \<times> packet) list" where
  "later fl = map (\<lambda>(k, p). (k - 1, p)) (filter (\<lambda>e. fst e \<noteq> 0) fl)"

definition moment :: "'f world \<Rightarrow> 'f rnet \<Rightarrow> 'f rnet option" where
  "moment W d = do {
     s \<leftarrow> input_all W (taken d) (due (flight d)) (client d);
     Some (d\<lparr>client := s, flight := later (flight d)\<rparr>)
   }"

section \<open>The device\<close>

definition RSERVER :: string where "RSERVER = ''192.168.1.100:2001''"
definition SERVER_IP :: "int list" where "SERVER_IP = [192, 168, 1, 100]"
definition SERVER_PORT :: int where "SERVER_PORT = 2001"

definition block_of :: "int \<Rightarrow> dgblk list \<Rightarrow> dgblk option" where
  "block_of dev ds = find (\<lambda>b. dg_dnum b = dev) ds"

definition net_open :: "'f rnet \<Rightarrow> (int \<times> 'f rnet) option" where
  "net_open d = do {
     (r, ds, N) \<leftarrow> dgmopen (Some RSERVER) ANYLPORT (dgtab d) (net (client d));
     Some (r, d\<lparr>dgtab := ds, client := (client d)\<lparr>net := N\<rparr>\<rparr>)
   }"

definition net_control :: "'f world \<Rightarrow> int \<Rightarrow> int \<Rightarrow> int \<Rightarrow> 'f rnet \<Rightarrow> (int \<times> 'f rnet) option" where
  "net_control W dev func arg d = do {
     b \<leftarrow> block_of dev (dgtab d);
     let (r, b, clear) = dgcntl b func arg;
     let d = d\<lparr>dgtab := map (\<lambda>c. if dg_dnum c = dev then b else c) (dgtab d)\<rparr>;
     (case clear of
        None \<Rightarrow> Some (r, d)
      | Some x \<Rightarrow> do {
          s \<leftarrow> input_all W (taken d) (map snd (flight d)) (client d);
          Some (r, d\<lparr>client := fold (\<lambda>p. do_call (Freebuf p)) (in_port (taken d) x s) s, flight := [],
            taken := (taken d)(x := length (arrived x (calls s)))\<rparr>)
        })
   }"

text \<open>The server takes the data from the request and sends its reply to where the request came from.\<close>

definition payload :: "packet \<Rightarrow> int list option" where
  "payload p = do { n \<leftarrow> get16 U_UDPLEN p; get_bytes U_DATA (nat (hton16 n - int UHLEN)) p }"

definition sent :: "netcall list \<Rightarrow> packet list" where
  "sent cs = concat (map (\<lambda>c. case c of Write dev p n \<Rightarrow> [p] | _ \<Rightarrow> []) cs)"

definition transit :: "'f world \<Rightarrow> passage \<Rightarrow> packet list \<Rightarrow> 'f rnet \<Rightarrow> 'f rnet option" where
  "transit W w ps d =
     (case ps of
        [] \<Rightarrow> Some d
      | p # _ \<Rightarrow>
          if w = RequestLost then Some d
          else do {
            dat \<leftarrow> payload p;
            let (rep, F) = w_server W dat (files_of d);
            Some (d\<lparr>files_of := F, flight := flight d @ (case w of Arrives k \<Rightarrow> [(k, w_answer W p rep)] | _ \<Rightarrow> [])\<rparr>)
          })"

definition net_write :: "'f world \<Rightarrow> int \<Rightarrow> int list \<Rightarrow> 'f rnet \<Rightarrow> (int \<times> 'f rnet) option" where
  "net_write W dev q d = do {
     b \<leftarrow> block_of dev (dgtab d);
     (r, s) \<leftarrow> dgwrite (w_env W) (w_bufs W) (w_pid W) (w_wres W) b (w_buf W (turn d))
       \<lparr>xg_faddr = [], xg_fport = 0, xg_lport = 0, xg_data = q\<rparr> (int (length q)) (client d);
     d1 \<leftarrow> transit W (w_passage W (turn d)) (sent (drop (length (calls (client d))) (calls s))) (d\<lparr>client := s, turn := turn d + 1\<rparr>);
     d2 \<leftarrow> moment W d1;
     Some (r, d2)
   }"

text \<open>
  While the reader waits with \<open>recvtim\<close> a moment passes; it returns when the input process has sent to the reader. In data
  mode a packet has been taken from the port if there is data.
\<close>

definition waits :: "'f world \<Rightarrow> 'f rnet \<Rightarrow> env" where
  "waits W d k s =
     (case input_all W (taken d) (due (flight d)) s of
        None \<Rightarrow> (TIMEOUT, s)
      | Some s' \<Rightarrow> (if Send (w_pid W) OK \<in> set (drop (length (calls s)) (calls s')) then OK else TIMEOUT, s'))"

definition net_read :: "'f world \<Rightarrow> int \<Rightarrow> int \<Rightarrow> 'f rnet \<Rightarrow> (int \<times> int list \<times> 'f rnet) option" where
  "net_read W dev len d = do {
     b \<leftarrow> block_of dev (dgtab d);
     let x = dg_xport b;
     (r, dat, s) \<leftarrow> dgread (\<lambda>x. int (length (in_port (taken d) x (client d)))) (waits W d)
       (\<lambda>s. (hd (in_port (taken d) x s), s)) (w_pid W) b len (client d);
     let d1 = d\<lparr>client := s, flight := (if in_port (taken d) x (client d) = [] then later (flight d) else flight d),
       taken := (if dat = Nothing then taken d else (taken d)(x := taken d x + 1))\<rparr>;
     d2 \<leftarrow> (if r = TIMEOUT then moment W d1 else Some d1);
     Some (r, case dat of Data bs \<Rightarrow> bs | _ \<Rightarrow> [], d2)
   }"

definition net_device :: "'f world \<Rightarrow> 'f rnet serverdev" where
  "net_device W = \<lparr>sv_open = net_open, sv_control = net_control W, sv_write = net_write W, sv_read = net_read W\<rparr>"

section \<open>The replies of the server\<close>

definition reply_frame :: "int list \<Rightarrow> int \<Rightarrow> int list \<Rightarrow> packet \<Rightarrow> bool" where
  "reply_frame me lport rep p \<longleftrightarrow> length rep \<le> nat UMAXLEN \<and> udp_packet SERVER_IP me SERVER_PORT lport rep p \<and>
     ip_packet SERVER_IP me (int (28 + length rep)) p"

text \<open>
  What is assumed of the world: the reader is a process, the Ethernet device accepts what it is given, buffers have the
  length of a packet; of two requests in a row the reply to one comes in in time; the host of the server returns a datagram with
  the reply to the host and the port of the request.
\<close>

definition world_ok :: "'f world \<Rightarrow> bool" where
  "world_ok W \<longleftrightarrow> \<not> isbadpid (w_pid W) \<and> w_wres W \<noteq> SYSERR \<and> (\<forall>t. length (w_buf W t) = EMAXPAK \<and> octet_list (w_buf W t)) \<and>
     (\<forall>t. in_time (w_passage W t) \<or> in_time (w_passage W (t + 1))) \<and>
     (\<forall>me lport q p rep. length me = 4 \<and> octet_list me \<and> udp_packet me SERVER_IP lport SERVER_PORT q p \<and>
        ip_packet me SERVER_IP (int (28 + length q)) p \<and> octet_list rep \<and> length rep \<le> nat UMAXLEN \<longrightarrow>
        reply_frame me lport rep (w_answer W p rep))"

text \<open>What the network leaves as it was, apart from the process that waits for a queue.\<close>

definition net_same :: "netst \<Rightarrow> netst \<Rightarrow> bool" where
  "net_same s s' \<longleftrightarrow> arp s' = arp s \<and> etpaddr s' = etpaddr s \<and> myaddr (net s') = myaddr (net s) \<and> mynet (net s') = mynet (net s) \<and>
     mavalid (net s') = mavalid (net s) \<and> map uport (netqs (net s')) = map uport (netqs (net s)) \<and>
     map xport (netqs (net s')) = map xport (netqs (net s))"

definition waiter :: "nat \<Rightarrow> netst \<Rightarrow> int" where
  "waiter k s = qpid (netqs (net s) ! k)"

text \<open>The device \<open>b\<close> is bound to the queue \<open>k\<close>.\<close>

definition bound :: "dgblk \<Rightarrow> nat \<Rightarrow> netst \<Rightarrow> bool" where
  "bound b k s \<longleftrightarrow> (\<exists>ead edev. neighbour s SERVER_IP ead edev) \<and> k < length (netqs (net s)) \<and> dg_netq b = int k \<and>
     netq_of (dg_lport b) 0 (netqs (net s)) = Some k \<and> xport (netqs (net s) ! k) = dg_xport b \<and> int16 (dg_lport b)"

lemma netq_of_cong: "map uport qs = map uport qs' \<Longrightarrow> netq_of p i qs = netq_of p i qs'"
proof (induction qs arbitrary: i qs')
  case (Cons q qs)
  then show ?case by (cases qs') auto
qed simp

lemma net_same_refl [simp]: "net_same s s"
  by (simp add: net_same_def)

lemma net_same_trans: "net_same s s' \<Longrightarrow> net_same s' s'' \<Longrightarrow> net_same s s''"
  by (simp add: net_same_def)

lemma net_same_neighbour: "net_same s s' \<Longrightarrow> neighbour s' a ead dev = neighbour s a ead dev"
  by (simp add: net_same_def neighbour_def good_host_def)

lemma net_same_bound:
  assumes "net_same s s'"
  shows "bound b k s' = bound b k s"
proof -
  have u: "map uport (netqs (net s')) = map uport (netqs (net s))" "map xport (netqs (net s')) = map xport (netqs (net s))"
    using assms by (simp_all add: net_same_def)
  have l: "length (netqs (net s')) = length (netqs (net s))" using arg_cong [OF u(1), of length] by simp
  have "xport (netqs (net s') ! k) = xport (netqs (net s) ! k)" if "k < length (netqs (net s))"
    using arg_cong [OF u(2), of "\<lambda>l. l ! k"] that l by simp
  then show ?thesis using netq_of_cong [OF u(1)] l by (auto simp: bound_def net_same_neighbour [OF assms])
qed


section \<open>Replies come in\<close>

lemma net_same_simps [simp]:
  "net_same s0 (count_packet s) = net_same s0 s" "net_same s0 (count_drop s) = net_same s0 s"
  "net_same s0 (count_over s) = net_same s0 s" "net_same s0 (do_call c s) = net_same s0 s"
  by (simp_all add: net_same_def count_packet_def count_drop_def count_over_def do_call_def)

lemma map_list_update_same: "f y = f (xs ! k) \<Longrightarrow> map f (xs[k := y]) = map f xs"
  by (cases "k < length xs") (simp_all add: map_update list_update_same_conv list_update_beyond)

lemma net_same_qpid [simp]: "net_same s0 (set_netq k (\<lambda>q. q\<lparr>qpid := v\<rparr>) s) = net_same s0 s"
  by (simp add: net_same_def set_netq_def map_list_update_same)

lemma umax: "UMAXLEN = 548"
  by (simp add: UMAXLEN_def EMAXPAK_def IPHLEN_def EHLEN_def UHLEN_def)

lemma netin_reply:
  assumes b: "bound b k s" and p: "reply_frame me (dg_lport b) rep p"
  shows "\<exists>s'. netin_packet cnt out p (int (length p)) s = Some s' \<and> net_same s s' \<and>
    calls s' = calls s @ (if cnt (dg_xport b) < NETQLEN
      then Psend (dg_xport b) p # (if isbadpid (waiter k s) then [] else [Send (waiter k s) OK]) else [Freebuf p]) \<and>
    waiter k s' = (if cnt (dg_xport b) < NETQLEN \<and> \<not> isbadpid (waiter k s) then BADPID else waiter k s)"
proof -
  have u: "udp_packet SERVER_IP me SERVER_PORT (dg_lport b) rep p" "length rep < 32000"
    and i: "ip_packet SERVER_IP me (int (28 + length rep)) p"
    using p by (simp_all add: reply_frame_def umax)
  have k: "netq_of (dg_lport b) 0 (netqs (net s)) = Some k" "k < length (netqs (net s))" "xport (netqs (net s) ! k) = dg_xport b" "int16 (dg_lport b)"
    using b by (simp_all add: bound_def)
  let ?s = "count_packet s"
  have n: "netqs (net ?s) = netqs (net s)" by (simp add: count_packet_def)
  have l: "42 \<le> length p" using u by (simp add: udp_packet_def U_DATA_def)
  obtain t where t: "get16 E_PTYPE p = Some t" "hton16 t = EP_IP"
    using get16_octets [of E_PTYPE p EP_IP] i l by (auto simp: ip_packet_def E_PTYPE_def EP_IP_def)
  obtain d where d: "get16 U_DPORT p = Some d" "hton16 d = u16 (dg_lport b)" using udp_packet_gets(4) [OF u] by blast
  have "ip_in cnt p out NETFQ ?s = Some (udp_in cnt p k ?s)"
    using udp_packet_gets(1) [OF u] d k(1,4) n by (simp add: ip_in_def IPRO_ICMP_def IPRO_UDP_def s16_u16)
  then have e: "netin_packet cnt out p (int (length p)) s = Some (snd (udp_in cnt p k ?s))"
    using t by (simp add: netin_packet_def Let_def EP_ARP_def EP_RARP_def EP_IP_def SYSERR_def)
  have w: "waiter k ?s = waiter k s" "calls ?s = calls s" by (simp_all add: waiter_def count_packet_def)
  have same: "net_same s (snd (udp_in cnt p k ?s))"
    by (simp add: udp_in_def Let_def)
  show ?thesis
  proof (cases "cnt (dg_xport b) < NETQLEN")
    case True
    then show ?thesis using e same k(2,3) n w
      by (auto simp: udp_in_def Let_def waiter_def do_call_def set_netq_def)
  next
    case False
    then show ?thesis using e same k(2,3) n w
      by (auto simp: udp_in_def Let_def waiter_def do_call_def set_netq_def count_drop_def count_over_def)
  qed
qed

lemma arrived_append [simp]: "arrived x (cs @ cs') = arrived x cs @ arrived x cs'"
  by (simp add: arrived_def)

lemma arrived_simps [simp]: "arrived x [] = []" "arrived x (Psend y p # cs) = (if y = x then p # arrived x cs else arrived x cs)"
  "arrived x (Send i m # cs) = arrived x cs" "arrived x (Freebuf p # cs) = arrived x cs" "arrived x (Packet.Wait i # cs) = arrived x cs"
  "arrived x (Packet.Signal i # cs) = arrived x cs" "arrived x (Write dev p n # cs) = arrived x cs"
  by (simp_all add: arrived_def)

text \<open>One reply after the other comes in; the first wakes the reader if the port was empty.\<close>

lemma input_replies:
  assumes "bound b k s" "\<forall>p \<in> set ps. \<exists>me rep. reply_frame me (dg_lport b) rep p" "tk (dg_xport b) \<le> length (arrived (dg_xport b) (calls s))"
  shows "\<exists>s' cs. input_all W tk ps s = Some s' \<and> net_same s s' \<and> calls s' = calls s @ cs \<and>
    set (arrived (dg_xport b) cs) \<subseteq> set ps \<and>
    (isbadpid (waiter k s) \<longrightarrow> isbadpid (waiter k s')) \<and> (ps = [] \<longrightarrow> s' = s) \<and>
    (ps \<noteq> [] \<and> in_port tk (dg_xport b) s = [] \<longrightarrow> arrived (dg_xport b) cs \<noteq> [] \<and>
       (isbadpid (waiter k s) \<or> Send (waiter k s) OK \<in> set cs) \<and> isbadpid (waiter k s'))"
  using assms
proof (induction ps arbitrary: s)
  case Nil
  then show ?case by simp
next
  case (Cons p ps)
  let ?x = "dg_xport b" let ?cnt = "\<lambda>x. int (length (in_port tk x s))"
  obtain me rep where rep: "reply_frame me (dg_lport b) rep p" using Cons.prems(2) by auto
  obtain s1 where s1: "netin_packet ?cnt (w_icmpp W) p (int (length p)) s = Some s1" "net_same s s1"
    "calls s1 = calls s @ (if ?cnt ?x < NETQLEN
      then Psend ?x p # (if isbadpid (waiter k s) then [] else [Send (waiter k s) OK]) else [Freebuf p])"
    "waiter k s1 = (if ?cnt ?x < NETQLEN \<and> \<not> isbadpid (waiter k s) then BADPID else waiter k s)"
    using netin_reply [OF Cons.prems(1) rep, of ?cnt "w_icmpp W"] by blast
  obtain c1 where c1: "calls s1 = calls s @ c1" "set (arrived ?x c1) \<subseteq> {p}"
    "in_port tk ?x s = [] \<longrightarrow> arrived ?x c1 \<noteq> [] \<and> (isbadpid (waiter k s) \<or> Send (waiter k s) OK \<in> set c1) \<and> isbadpid (waiter k s1)"
    "isbadpid (waiter k s) \<longrightarrow> isbadpid (waiter k s1)"
    using that [OF s1(3)] s1(4) by (auto simp: NETQLEN_def BADPID_def isbadpid_def split: if_splits)
  have "bound b k s1" "tk ?x \<le> length (arrived ?x (calls s1))"
    using Cons.prems(1,3) net_same_bound [OF s1(2)] c1(1) by simp_all
  then obtain s' c2 where s': "input_all W tk ps s1 = Some s'" "net_same s1 s'" "calls s' = calls s1 @ c2"
    "set (arrived ?x c2) \<subseteq> set ps" "isbadpid (waiter k s1) \<longrightarrow> isbadpid (waiter k s')"
    using Cons.IH [of s1] Cons.prems(2) by auto
  have i: "input_all W tk (p # ps) s = Some s'" using s1(1) s'(1) by simp
  show ?case
    by (rule exI [of _ s'], rule exI [of _ "c1 @ c2"]) (use i net_same_trans [OF s1(2) s'(2)] s'(3-5) c1 in auto)
qed


section \<open>The device is the link to the server\<close>

definition data_block :: "int \<Rightarrow> dgblk \<Rightarrow> 'f rnet \<Rightarrow> bool" where
  "data_block dev b d \<longleftrightarrow> block_of dev (dgtab d) = Some b \<and> dg_mode b = DG_DMODE OR DG_TMODE \<and>
     dg_faddr b = SERVER_IP \<and> dg_fport b = SERVER_PORT"

definition reader_port :: "dgblk \<Rightarrow> 'f rnet \<Rightarrow> packet list" where
  "reader_port b d = in_port (taken d) (dg_xport b) (client d)"

definition frames :: "dgblk \<Rightarrow> 'f rnet \<Rightarrow> packet set" where
  "frames b d = set (reader_port b d) \<union> snd ` set (flight d)"

text \<open>The device is bound, nobody waits for its queue.\<close>

definition at_rest :: "dgblk \<Rightarrow> nat \<Rightarrow> 'f rnet \<Rightarrow> bool" where
  "at_rest b k d \<longleftrightarrow> bound b k (client d) \<and> isbadpid (waiter k (client d)) \<and>
     taken d (dg_xport b) \<le> length (arrived (dg_xport b) (calls (client d)))"

definition net_opened :: "int \<Rightarrow> 'f rnet \<Rightarrow> bool" where
  "net_opened dev d \<longleftrightarrow> (\<exists>b k. data_block dev b d \<and> at_rest b k d \<and>
     (\<forall>p \<in> snd ` set (flight d). \<exists>me rep. reply_frame me (dg_lport b) rep p))"

definition replies_only :: "dgblk \<Rightarrow> int list \<Rightarrow> 'f rnet \<Rightarrow> bool" where
  "replies_only b rep d \<longleftrightarrow> (\<forall>p \<in> frames b d. \<exists>me. reply_frame me (dg_lport b) rep p)"

definition net_quiet :: "'f world \<Rightarrow> int \<Rightarrow> int list \<Rightarrow> 'f rnet \<Rightarrow> bool" where
  "net_quiet W dev q d \<longleftrightarrow> (\<exists>b k. data_block dev b d \<and> at_rest b k d \<and>
     replies_only b (fst (w_server W q (files_of d))) d \<and> (frames b d = {} \<or> snd (w_server W q (files_of d)) = files_of d))"

definition net_patience :: "'f world \<Rightarrow> 'f rnet \<Rightarrow> nat" where
  "net_patience W d = (if in_time (w_passage W (turn d)) then 0 else 1)"

lemma due_later: "set (due fl) \<subseteq> snd ` set fl" "snd ` set (later fl) \<subseteq> snd ` set fl"
  by (force simp: due_def later_def)+

lemma moment_replies:
  assumes "at_rest b k d" "\<forall>p \<in> snd ` set (flight d). \<exists>me rep. reply_frame me (dg_lport b) rep p"
  shows "\<exists>d'. moment W d = Some d' \<and> at_rest b k d' \<and> dgtab d' = dgtab d \<and> files_of d' = files_of d \<and> turn d' = turn d \<and>
    flight d' = later (flight d) \<and> frames b d' \<subseteq> frames b d \<and>
    (reader_port b d \<noteq> [] \<or> due (flight d) \<noteq> [] \<longrightarrow> reader_port b d' \<noteq> [])"
proof -
  have "\<forall>p \<in> set (due (flight d)). \<exists>me rep. reply_frame me (dg_lport b) rep p" using assms(2) due_later(1) [of "flight d"] by blast
  then obtain s' cs where s': "input_all W (taken d) (due (flight d)) (client d) = Some s'" "net_same (client d) s'" "calls s' = calls (client d) @ cs"
    "set (arrived (dg_xport b) cs) \<subseteq> set (due (flight d))" "isbadpid (waiter k s')"
    "due (flight d) \<noteq> [] \<and> in_port (taken d) (dg_xport b) (client d) = [] \<longrightarrow> arrived (dg_xport b) cs \<noteq> []"
    using input_replies [of b k "client d" "due (flight d)" "taken d" W] assms(1) by (auto simp: at_rest_def)
  let ?d = "d\<lparr>client := s', flight := later (flight d)\<rparr>"
  have "taken d (dg_xport b) \<le> length (arrived (dg_xport b) (calls (client d)))" using assms(1) by (simp add: at_rest_def)
  then have r: "reader_port b ?d = reader_port b d @ arrived (dg_xport b) cs" by (simp add: reader_port_def in_port_def s'(3))
  have "frames b ?d \<subseteq> frames b d" using r s'(4) due_later [of "flight d"] by (auto simp: frames_def)
  moreover have "at_rest b k ?d" using assms(1) s'(3,5) net_same_bound [OF s'(2)] by (simp add: at_rest_def)
  moreover have "reader_port b d \<noteq> [] \<or> due (flight d) \<noteq> [] \<longrightarrow> reader_port b ?d \<noteq> []"
    using r s'(6) by (auto simp: reader_port_def)
  ultimately show ?thesis using s'(1) by (intro exI [of _ ?d]) (simp add: moment_def)
qed

text \<open>A request goes out as a datagram to the server.\<close>

lemma dgwrite_request:
  assumes W: "world_ok W" and b: "data_block dev b d" "bound b k (client d)" and q: "octet_list q" "length q \<le> nat UMAXLEN"
  shows "\<exists>s p. dgwrite (w_env W) (w_bufs W) (w_pid W) (w_wres W) b (w_buf W (turn d))
      \<lparr>xg_faddr = [], xg_fport = 0, xg_lport = 0, xg_data = q\<rparr> (int (length q)) (client d) = Some (w_wres W, s) \<and>
    net s = net (client d) \<and> net_same (client d) s \<and> sent (drop (length (calls (client d))) (calls s)) = [p] \<and>
    arrived x (calls s) = arrived x (calls (client d)) \<and>
    udp_packet (myaddr (net (client d))) SERVER_IP (dg_lport b) SERVER_PORT q p \<and>
    ip_packet (myaddr (net (client d))) SERVER_IP (int (28 + length q)) p"
proof -
  let ?s = "client d" let ?n = "length q" let ?buf = "w_buf W (turn d)"
  obtain ead edev where nb: "neighbour ?s SERVER_IP ead edev" using b(2) by (auto simp: bound_def)
  have buf: "length ?buf = 590" "octet_list ?buf" using W by (simp_all add: world_ok_def EMAXPAK_def)
  have n: "?n \<le> 548" using q(2) by (simp add: umax)
  let ?p = "over U_DATA q ?buf"
  have p: "put_data q ?buf = Some ?p" using n buf(1) by (simp add: put_data_def put_bytes_over U_DATA_def)
  have o: "octet_list ?p" by (rule over_octets [OF buf(2) q(1)])
  have f: "fld U_DATA ?n ?p = q" using n buf(1) by (simp add: fld_over_same U_DATA_def)
  have "odd ?n \<longrightarrow> ?n \<le> 547" using n by presburger
  then have lp: "42 + ?n \<le> length ?p" "odd ?n \<longrightarrow> 43 + ?n \<le> length ?p" "?n < 60000" using n buf(1) by simp_all
  obtain s p where u: "udpsend (w_env W) (w_bufs W) (w_pid W) (w_wres W) SERVER_IP SERVER_PORT (dg_lport b) ?p ?n ?s = Some (w_wres W, s)"
      "net s = net ?s" "arp s = arp ?s" "etpaddr s = etpaddr ?s"
      "calls s = calls ?s @ [Packet.Wait (nmutex (net ?s)), Packet.Wait (arpsem (arp ?s)), Packet.Signal (arpsem (arp ?s)), Write edev p (42 + ?n), Packet.Signal (nmutex (net ?s))]"
      "ip_packet (myaddr (net ?s)) SERVER_IP (int (28 + ?n)) p" "udp_packet (myaddr (net ?s)) SERVER_IP (dg_lport b) SERVER_PORT q p"
    using udpsend_neighbour [OF nb o lp, of "w_env W" "w_bufs W" "w_pid W" "w_wres W" SERVER_PORT "dg_lport b"] unfolding f by blast
  have "dg_mode b AND DG_NMODE = 0" "dg_fport b \<noteq> 0"
    using b(1) by (simp_all add: data_block_def DG_DMODE_def DG_TMODE_def DG_NMODE_def SERVER_PORT_def)
  then have w: "dgwrite (w_env W) (w_bufs W) (w_pid W) (w_wres W) b ?buf \<lparr>xg_faddr = [], xg_fport = 0, xg_lport = 0, xg_data = q\<rparr> (int ?n) ?s = Some (w_wres W, s)"
    using u(1) p n b(1) by (simp add: dgwrite_def umax data_block_def)
  show ?thesis using w u(2-7) by (intro exI [of _ s] exI [of _ p]) (simp add: sent_def net_same_def)
qed

lemma payload_udp:
  assumes "udp_packet src dst sport dport dat p" "length dat < 32000"
  shows "payload p = Some dat"
  using udp_packet_gets(2,5) [OF assms] by (auto simp: payload_def)

text \<open>The server answers unless the request is lost.\<close>

lemma transit_replies:
  assumes W: "world_ok W" and r: "at_rest b k d" "replies_only b (fst (w_server W q F)) d" "frames b d = {} \<or> snd (w_server W q F) = F"
    and F: "files_of d = F" "repeatable (w_server W q) F"
    and q: "length q \<le> nat UMAXLEN" "octet_list (fst (w_server W q F))" "length (fst (w_server W q F)) \<le> nat UMAXLEN"
    and p: "udp_packet (myaddr (net (client d))) SERVER_IP (dg_lport b) SERVER_PORT q p"
      "ip_packet (myaddr (net (client d))) SERVER_IP (int (28 + length q)) p"
  shows "\<exists>d'. transit W w [p] d = Some d' \<and> client d' = client d \<and> dgtab d' = dgtab d \<and> taken d' = taken d \<and> turn d' = turn d \<and>
    replies_only b (fst (w_server W q F)) d' \<and> (files_of d' = F \<or> files_of d' = snd (w_server W q F)) \<and>
    (frames b d' = {} \<or> files_of d' = snd (w_server W q F)) \<and>
    (\<forall>i. w = Arrives i \<longrightarrow> i \<in> fst ` set (flight d'))"
proof (cases "w = RequestLost")
  case True
  then show ?thesis using r F by (auto simp: transit_def)
next
  case False
  let ?me = "myaddr (net (client d))" let ?rep = "fst (w_server W q F)"
  have me: "length ?me = 4" "octet_list ?me" using r(1) by (auto simp: at_rest_def bound_def neighbour_def good_host_def)
  have a: "reply_frame ?me (dg_lport b) ?rep (w_answer W p ?rep)"
    using W me p q(2,3) unfolding world_ok_def by blast
  have l: "payload p = Some q" using payload_udp [OF p(1)] q(1) by (simp add: umax)
  let ?d = "d\<lparr>files_of := snd (w_server W q F), flight := flight d @ (case w of Arrives k \<Rightarrow> [(k, w_answer W p ?rep)] | _ \<Rightarrow> [])\<rparr>"
  have t: "transit W w [p] d = Some ?d" using False l F(1) by (simp add: transit_def case_prod_beta)
  have "frames b ?d \<subseteq> insert (w_answer W p ?rep) (frames b d)" by (auto simp: frames_def reader_port_def split: passage.splits)
  then have "replies_only b ?rep ?d" using a r(2) unfolding replies_only_def by blast
  then show ?thesis using t by (intro exI [of _ ?d]) auto
qed


text \<open>A reader in data mode gets as much of the reply as it has room for.\<close>

lemma dgread_reply:
  assumes "reply_frame me lport rep p" "dg_mode b AND DG_NMODE = 0" "0 \<le> len"
  shows "dgread_packet b len p s = Some (int (length (take (nat len) rep)), Data (take (nat len) rep), do_call (Freebuf p) s)"
proof -
  have u: "udp_packet SERVER_IP me SERVER_PORT lport rep p" "length rep < 32000" using assms(1) by (simp_all add: reply_frame_def umax)
  obtain x where x: "get16 U_UDPLEN p = Some x" "hton16 x = int (UHLEN + length rep)" using udp_packet_gets(5) [OF u] by blast
  have "s16 (hton16 x - int UHLEN) = int (length rep)" using u(2) x(2) by (simp add: MININT_def MAXINT_def)
  moreover have "get_bytes U_DATA n p = Some (take n rep)" if "n \<le> length rep" for n
  proof -
    have g: "U_DATA + length rep \<le> length p" "rep = take (length rep) (drop U_DATA p)"
      using udp_packet_gets(2) [OF u] by (auto simp: get_bytes_def split: if_splits)
    have "take n rep = take n (drop U_DATA p)" by (subst g(2)) (simp add: that min_absorb1)
    then show ?thesis using g(1) that by (simp add: get_bytes_def)
  qed
  ultimately show ?thesis using x(1) assms(2,3) by (auto simp: dgread_packet_def Let_def min_def nat_le_iff)
qed

lemma data_block_modes:
  "data_block dev b d \<Longrightarrow> dg_mode b AND DG_NMODE = 0 \<and> dg_mode b AND DG_TMODE \<noteq> 0"
  by (simp add: data_block_def DG_DMODE_def DG_TMODE_def DG_NMODE_def)

lemma do_call_simps [simp]:
  "net (do_call c s) = net s" "calls (do_call c s) = calls s @ [c]" "waiter k (do_call c s) = waiter k s"
  "bound b k (do_call c s) = bound b k s"
  by (simp_all add: do_call_def waiter_def bound_def neighbour_def good_host_def)

lemma set_waiter [simp]:
  "k < length (netqs (net s)) \<Longrightarrow> waiter k (set_netq k (\<lambda>q. q\<lparr>qpid := v\<rparr>) s) = v"
  "calls (set_netq k f s) = calls s"
  by (simp_all add: waiter_def set_netq_def)

lemmas bound_waiter [simp] = net_same_bound [OF iffD2 [OF net_same_qpid net_same_refl]]

lemma replies_in_flight: "replies_only b rep d \<Longrightarrow> \<forall>p \<in> snd ` set (flight d). \<exists>me rep. reply_frame me (dg_lport b) rep p"
  unfolding replies_only_def frames_def by blast

text \<open>There is a reply in the port or it comes in while the reader waits.\<close>

lemma net_read_data:
  assumes W: "world_ok W" and b: "data_block dev b d" "at_rest b k d" "replies_only b rep d" and len: "0 \<le> len"
    and some: "reader_port b d \<noteq> [] \<or> due (flight d) \<noteq> []"
  shows "\<exists>d'. net_read W dev len d = Some (int (length (take (nat len) rep)), take (nat len) rep, d') \<and> net_opened dev d' \<and>
    files_of d' = files_of d"
proof -
  let ?x = "dg_xport b" let ?dat = "take (nat len) rep"
  have blk: "block_of dev (dgtab d) = Some b" using b(1) by (simp add: data_block_def)
  have m: "dg_mode b AND DG_NMODE = 0" "dg_mode b AND DG_TMODE \<noteq> 0" using data_block_modes [OF b(1)] by simp_all
  have k: "nat (dg_netq b) = k" "k < length (netqs (net (client d)))" "isbadpid (qpid (netqs (net (client d)) ! k))"
    using b(2) by (simp_all add: at_rest_def bound_def waiter_def)
  have t: "taken d ?x \<le> length (arrived ?x (calls (client d)))" using b(2) by (simp add: at_rest_def)
  note fl = replies_in_flight [OF b(3)]
  have pid: "\<not> isbadpid (w_pid W)" using W by (simp add: world_ok_def)
  have nt: "int (length ?dat) \<noteq> TIMEOUT" by (simp add: TIMEOUT_def)
  show ?thesis
  proof (cases "reader_port b d = []")
    case False
    then obtain p ps where p: "in_port (taken d) ?x (client d) = p # ps" by (cases "reader_port b d") (auto simp: reader_port_def)
    then obtain me where "reply_frame me (dg_lport b) rep p" using b(3) by (auto simp: replies_only_def frames_def reader_port_def)
    note r = dgread_reply [OF this m(1) len, of "client d"]
    let ?d = "d\<lparr>client := do_call (Freebuf p) (client d), taken := (taken d)(?x := taken d ?x + 1)\<rparr>"
    have "length (in_port (taken d) ?x (client d)) = length ps + 1" using p by simp
    then have "taken d ?x + 1 \<le> length (arrived ?x (calls (client d)))" by (simp add: in_port_def)
    then have "at_rest b k ?d" using b(2) by (simp add: at_rest_def)
    moreover have "net_read W dev len d = Some (int (length ?dat), ?dat, ?d)"
      using blk m(2) k p r nt by (simp add: net_read_def dgread_def Let_def)
    ultimately show ?thesis using b(1) fl unfolding net_opened_def data_block_def by auto
  next
    case True
    then have e: "in_port (taken d) ?x (client d) = []" and due: "due (flight d) \<noteq> []" using some by (simp_all add: reader_port_def)
    let ?s = "set_netq k (\<lambda>q. q\<lparr>qpid := w_pid W\<rparr>) (client d)"
    have "\<forall>p \<in> set (due (flight d)). \<exists>me rep. reply_frame me (dg_lport b) rep p" using fl due_later(1) [of "flight d"] by blast
    moreover have "bound b k ?s" using b(2) by (simp add: at_rest_def)
    ultimately obtain s' cs where s': "input_all W (taken d) (due (flight d)) ?s = Some s'" "net_same ?s s'" "calls s' = calls (client d) @ cs"
        "set (arrived ?x cs) \<subseteq> set (due (flight d))" "arrived ?x cs \<noteq> []" "Send (w_pid W) OK \<in> set cs" "isbadpid (waiter k s')"
      using input_replies [of b k ?s "due (flight d)" "taken d" W] t e due pid k(2) by (auto simp: in_port_def)
    obtain p ps where p: "arrived ?x cs = p # ps" using s'(5) by (cases "arrived ?x cs") auto
    have ip: "in_port (taken d) ?x s' = p # ps" using e s'(3) p t by (simp add: in_port_def)
    have "p \<in> frames b d" using p s'(4) due_later(1) [of "flight d"] by (auto simp: frames_def)
    then obtain me where "reply_frame me (dg_lport b) rep p" using b(3) by (auto simp: replies_only_def)
    note r = dgread_reply [OF this m(1) len, of s']
    have w: "waits W d 0 ?s = (OK, s')" using s'(1,3,6) by (simp add: waits_def)
    let ?d = "d\<lparr>client := do_call (Freebuf p) s', flight := later (flight d), taken := (taken d)(?x := taken d ?x + 1)\<rparr>"
    have "bound b k s'" using net_same_bound [OF s'(2)] b(2) by (simp add: at_rest_def)
    moreover have "taken d ?x + 1 \<le> length (arrived ?x (calls s'))" using arg_cong [OF ip, of length] by (simp add: in_port_def)
    ultimately have "at_rest b k ?d" using s'(7) by (simp add: at_rest_def)
    moreover have "net_read W dev len d = Some (int (length ?dat), ?dat, ?d)"
      using blk m(2) k e w ip r nt by (simp add: net_read_def dgread_def Let_def OK_def TIMEOUT_def)
    moreover have "\<forall>p \<in> snd ` set (later (flight d)). \<exists>me rep. reply_frame me (dg_lport b) rep p"
      using fl due_later(2) [of "flight d"] by blast
    ultimately show ?thesis using b(1) unfolding net_opened_def data_block_def by auto
  qed
qed

text \<open>Otherwise the reader gives up.\<close>

lemma net_read_timeout:
  assumes W: "world_ok W" and b: "data_block dev b d" "at_rest b k d" "replies_only b rep d"
    and none: "reader_port b d = []" "due (flight d) = []"
  shows "\<exists>d'. net_read W dev len d = Some (TIMEOUT, [], d') \<and> data_block dev b d' \<and> at_rest b k d' \<and> frames b d' \<subseteq> frames b d \<and>
    files_of d' = files_of d \<and> turn d' = turn d"
proof -
  let ?x = "dg_xport b"
  have blk: "block_of dev (dgtab d) = Some b" using b(1) by (simp add: data_block_def)
  have m: "dg_mode b AND DG_TMODE \<noteq> 0" using data_block_modes [OF b(1)] by simp
  have k: "nat (dg_netq b) = k" "k < length (netqs (net (client d)))" "isbadpid (qpid (netqs (net (client d)) ! k))"
    using b(2) by (simp_all add: at_rest_def bound_def waiter_def)
  have e: "in_port (taken d) ?x (client d) = []" using none(1) by (simp add: reader_port_def)
  let ?s = "set_netq k (\<lambda>q. q\<lparr>qpid := w_pid W\<rparr>) (client d)"
  let ?t = "set_netq k (\<lambda>q. q\<lparr>qpid := BADPID\<rparr>) ?s"
  have w: "waits W d 0 ?s = (TIMEOUT, ?s)" by (simp add: waits_def none(2))
  let ?d = "d\<lparr>client := ?t, flight := later (flight d)\<rparr>"
  have "k < length (netqs (net ?s))" using k(2) by (simp add: set_netq_def)
  then have "at_rest b k ?d" using b(2) by (simp add: at_rest_def isbadpid_def BADPID_def)
  moreover have "snd ` set (flight ?d) \<subseteq> snd ` set (flight d)" using due_later(2) [of "flight d"] by simp
  then have "\<forall>p \<in> snd ` set (flight ?d). \<exists>me rep. reply_frame me (dg_lport b) rep p"
    using replies_in_flight [OF b(3)] by (meson subsetD)
  ultimately obtain d' where d': "moment W ?d = Some d'" "at_rest b k d'" "dgtab d' = dgtab ?d" "files_of d' = files_of ?d" "turn d' = turn ?d"
      "frames b d' \<subseteq> frames b ?d"
    using moment_replies [of b k ?d W] by blast
  have "reader_port b ?d = reader_port b d" by (simp add: reader_port_def in_port_def)
  then have f: "frames b ?d \<subseteq> frames b d" using due_later(2) [of "flight d"] by (auto simp: frames_def)
  have "dgread (\<lambda>x. int (length (in_port (taken d) x (client d)))) (waits W d) (\<lambda>s. (hd (in_port (taken d) ?x s), s)) (w_pid W) b len (client d) =
      Some (TIMEOUT, Nothing, ?t)"
    using m k e w by (simp add: dgread_def Let_def OK_def TIMEOUT_def)
  then have "net_read W dev len d = Some (TIMEOUT, [], d')" using blk e d'(1) by (simp add: net_read_def)
  then show ?thesis using d' f b(1) by (auto simp: data_block_def)
qed


text \<open>A device can be opened, and then it is bound to a queue of its own.\<close>

definition net_cold :: "'f rnet \<Rightarrow> bool" where
  "net_cold d \<longleftrightarrow> (let N = net (client d) in
     0 \<le> nxtprt N \<and> nxtprt N + int (length (netqs N)) < MAXINT \<and> (\<exists>q \<in> set (netqs N). \<not> valid q) \<and>
     (\<forall>q \<in> set (netqs N). \<not> valid q \<longrightarrow> uport q = - 1) \<and> (\<exists>b \<in> set (dgtab d). dg_state b = DG_FREE) \<and>
     distinct (map dg_dnum (dgtab d)) \<and> (\<forall>b \<in> set (dgtab d). dg_dnum b \<noteq> SYSERR \<and> length (dg_faddr b) = 4) \<and>
     (\<exists>ead edev. neighbour (client d) SERVER_IP ead edev)) \<and>
     (\<forall>x. taken d x \<le> length (arrived x (calls (client d)))) \<and> flight d = []"

lemma dgparse_server:
  assumes "length (dg_faddr b) = 4"
  shows "dgparse (Some RSERVER) b = Some (OK, b\<lparr>dg_faddr := SERVER_IP, dg_fport := SERVER_PORT\<rparr>)"
proof -
  obtain a0 a1 a2 a3 where "dg_faddr b = [a0, a1, a2, a3]" using assms by (auto simp: length_Suc_conv numeral_eq_Suc)
  then show ?thesis
    by (simp add: dgparse_def RSERVER_def dg_parse_ip.simps isdigit_def digit_val_def u8_def MININT_def MAXINT_def
        SERVER_IP_def SERVER_PORT_def numeral_eq_Suc Let_def)
qed

lemma netq_of_only:
  assumes "k < length qs" "uport (qs ! k) = p" "\<forall>j < length qs. j \<noteq> k \<longrightarrow> uport (qs ! j) \<noteq> p"
  shows "netq_of p i qs = Some (i + k)"
  using assms
proof (induction qs arbitrary: i k)
  case (Cons q qs)
  show ?case
  proof (cases k)
    case 0
    then show ?thesis using Cons.prems by simp
  next
    case (Suc j)
    have "uport q \<noteq> p" using Cons.prems(3) Suc by force
    moreover have "netq_of p (i + 1) qs = Some (i + 1 + j)"
      by (rule Cons.IH) (use Cons.prems Suc in \<open>auto dest: spec [of _ "Suc _"]\<close>)
    ultimately show ?thesis using Suc by simp
  qed
qed simp

lemma find_update:
  assumes "i < length ds" "distinct (map dg_dnum ds)" "dg_dnum b = dg_dnum (ds ! i)"
  shows "block_of (dg_dnum b) (ds[i := b]) = Some b" "map dg_dnum (ds[i := b]) = map dg_dnum ds"
proof -
  show m: "map dg_dnum (ds[i := b]) = map dg_dnum ds" by (rule map_list_update_same) (use assms(3) in simp)
  have u: "j = i" if "j < length ds" "dg_dnum (ds[i := b] ! j) = dg_dnum b" for j
  proof -
    have "map dg_dnum ds ! j = dg_dnum (ds[i := b] ! j)" using that(1) nth_map [of j "ds[i := b]" dg_dnum] unfolding m by simp
    then have "map dg_dnum ds ! j = map dg_dnum ds ! i" using that(2) assms(1,3) by simp
    then show ?thesis using nth_eq_iff_index_eq [OF assms(2)] that(1) assms(1) by simp
  qed
  have "dg_dnum (ds[i := b] ! j) \<noteq> dg_dnum b" if "j < i" for j using u [of j] that assms(1) by auto
  then show "block_of (dg_dnum b) (ds[i := b]) = Some b"
    using assms(1) unfolding block_of_def find_Some_iff by (intro exI [of _ i]) simp
qed

lemma net_open_binds:
  assumes c: "net_cold d"
  shows "\<exists>dev d1 r d2. net_open d = Some (dev, d1) \<and> dev \<noteq> SYSERR \<and>
    net_control W dev DG_SETMODE (DG_DMODE OR DG_TMODE) d1 = Some (r, d2) \<and> r \<noteq> SYSERR \<and> net_opened dev d2 \<and> files_of d2 = files_of d"
proof -
  let ?N = "net (client d)" let ?ds = "dgtab d"
  have c: "0 \<le> nxtprt ?N" "nxtprt ?N + int (length (netqs ?N)) < MAXINT" "\<exists>q \<in> set (netqs ?N). \<not> valid q"
    "\<forall>q \<in> set (netqs ?N). \<not> valid q \<longrightarrow> uport q = - 1" "\<exists>b \<in> set ?ds. dg_state b = DG_FREE" "distinct (map dg_dnum ?ds)"
    "\<forall>b \<in> set ?ds. dg_dnum b \<noteq> SYSERR \<and> length (dg_faddr b) = 4" "\<exists>ead edev. neighbour (client d) SERVER_IP ead edev"
    "\<And>x. taken d x \<le> length (arrived x (calls (client d)))" "flight d = []"
    using c by (simp_all add: net_cold_def Let_def)
  have "nxtprt ?N + int (card (ports_in_use ?N \<inter> {nxtprt ?N..})) < MAXINT" "MININT \<le> nxtprt ?N"
    using card_mono [of "ports_in_use ?N" "ports_in_use ?N \<inter> {nxtprt ?N..}"] card_ports [of ?N] c(1,2) by (simp_all add: MININT_def)
  then obtain p where p: "udpnxtp ?N = Some (p, ?N\<lparr>nxtprt := p + 1\<rparr>)" "nxtprt ?N \<le> p"
      "p \<le> nxtprt ?N + int (card (ports_in_use ?N \<inter> {nxtprt ?N..}))" "p \<notin> ports_in_use ?N"
    using udpnxtp_finds [of ?N] by blast
  have pr: "0 \<le> p" "int16 p" using p c(1) \<open>nxtprt ?N + int (card _) < MAXINT\<close> by (simp_all add: MININT_def)
  obtain slot ds1 where s: "dgalloc 0 ?ds = Some (slot, ds1)" using c(5) dgalloc_None [of 0 ?ds] by fastforce
  then have slot: "slot < length ?ds" "ds1 = ?ds[slot := (?ds ! slot)\<lparr>dg_state := DG_USED\<rparr>]"
    using dgalloc_Some [OF s] by auto
  let ?b = "(?ds ! slot)\<lparr>dg_state := DG_USED, dg_faddr := SERVER_IP, dg_fport := SERVER_PORT\<rparr>"
  have bl: "length (dg_faddr (?ds ! slot)) = 4" "dg_dnum (?ds ! slot) \<noteq> SYSERR" using c(7) slot(1) by auto
  have ps: "dgparse (Some RSERVER) (ds1 ! slot) = Some (OK, ?b)" using dgparse_server [of "ds1 ! slot"] slot bl(1) by simp
  let ?N1 = "?N\<lparr>nxtprt := p + 1\<rparr>"
  obtain nq N2 where nq: "nqalloc ?N1 = (nq, N2)" by (cases "nqalloc ?N1")
  obtain k where k: "k < length (netqs ?N)" "nq = int k" "\<not> valid (netqs ?N ! k)"
      "N2 = ?N1\<lparr>netqs := (netqs ?N)[k := (netqs ?N ! k)\<lparr>valid := True, uport := - 1, qpid := BADPID\<rparr>]\<rparr>"
    using nqalloc_eq [OF nq] c(3) by (auto split: if_splits)
  let ?q = "(netqs ?N ! k)\<lparr>valid := True, qpid := BADPID, uport := p\<rparr>"
  let ?qs = "(netqs ?N)[k := ?q]"
  let ?b2 = "?b\<lparr>dg_lport := p, dg_xport := xport (netqs ?N ! k), dg_netq := int k, dg_mode := DG_NMODE\<rparr>"
  let ?dev = "dg_dnum (?ds ! slot)"
  let ?d1 = "d\<lparr>dgtab := ?ds[slot := ?b2], client := (client d)\<lparr>net := ?N1\<lparr>netqs := ?qs\<rparr>\<rparr>\<rparr>"
  have bind: "dgm_bind slot k p (ds1[slot := ?b]) N2 = (?dev, ?ds[slot := ?b2], ?N1\<lparr>netqs := ?qs\<rparr>)"
    using slot k by (simp add: dgm_bind_def Let_def)
  have o: "net_open d = Some (?dev, ?d1)"
    using s p(1) ps nq k(2) bind by (simp add: net_open_def dgmopen_def ANYLPORT_def OK_def SYSERR_def)
  let ?b3 = "?b2\<lparr>dg_mode := DG_DMODE OR DG_TMODE\<rparr>"
  have f: "block_of ?dev (?ds[slot := ?b2]) = Some ?b2" "distinct (map dg_dnum (?ds[slot := ?b2]))"
    using find_update [OF slot(1) c(6), of ?b2] c(6) by simp_all
  let ?ds3 = "map (\<lambda>c. if dg_dnum c = ?dev then ?b3 else c) (?ds[slot := ?b2])"
  have f3: "block_of ?dev ?ds3 = Some ?b3"
    using f(1) unfolding block_of_def by (auto simp: find_Some_iff)
  let ?d2 = "?d1\<lparr>dgtab := ?ds3\<rparr>"
  have m: "net_control W ?dev DG_SETMODE (DG_DMODE OR DG_TMODE) ?d1 = Some (OK, ?d2)"
    using f(1) by (simp add: net_control_def dgcntl_def)
  have "uport (?qs ! j) \<noteq> p" if "j < length ?qs" "j \<noteq> k" for j
  proof (cases "valid (netqs ?N ! j)")
    case True
    then show ?thesis using p(4) that by (auto simp: ports_in_use_def)
  next
    case False
    then show ?thesis using c(4) pr(1) that by (auto dest: bspec [of _ _ "netqs ?N ! j"])
  qed
  then have nqo: "netq_of p 0 ?qs = Some k" using netq_of_only [of k ?qs p 0] k(1) by auto
  have "bound ?b3 k (client ?d2)"
    using c(8) k(1) nqo pr(2) by (auto simp: bound_def neighbour_def good_host_def)
  then have "at_rest ?b3 k ?d2" using k(1) c(9) by (simp add: at_rest_def waiter_def isbadpid_def BADPID_def)
  then have "net_opened ?dev ?d2" unfolding net_opened_def data_block_def using f3 c(10) by (intro exI [of _ ?b3] exI [of _ k]) simp
  then show ?thesis using o m bl(2) by (intro exI) (auto simp: OK_def SYSERR_def)
qed

text \<open>The operation to clear the port leaves nothing behind.\<close>

lemma net_clear:
  assumes "net_opened dev d"
  shows "\<exists>r d'. net_control W dev DG_CLEAR 0 d = Some (r, d') \<and> files_of d' = files_of d \<and> net_quiet W dev q d'"
proof -
  obtain b k where b: "data_block dev b d" "at_rest b k d" "\<forall>p \<in> snd ` set (flight d). \<exists>me rep. reply_frame me (dg_lport b) rep p"
    using assms by (auto simp: net_opened_def)
  let ?x = "dg_xport b"
  have "\<forall>p \<in> set (map snd (flight d)). \<exists>me rep. reply_frame me (dg_lport b) rep p" using b(3) by simp
  then obtain s where s: "input_all W (taken d) (map snd (flight d)) (client d) = Some s" "net_same (client d) s" "isbadpid (waiter k s)"
    using input_replies [of b k "client d" "map snd (flight d)" "taken d" W] b(2) by (auto simp: at_rest_def)
  let ?s = "fold (\<lambda>p. do_call (Freebuf p)) (in_port (taken d) ?x s) s"
  have fb: "arrived ?x (calls (fold (\<lambda>p. do_call (Freebuf p)) ps s)) = arrived ?x (calls s)"
    "waiter k (fold (\<lambda>p. do_call (Freebuf p)) ps s) = waiter k s" "bound b k (fold (\<lambda>p. do_call (Freebuf p)) ps s) = bound b k s" for ps s
    by (induction ps arbitrary: s) simp_all
  let ?d = "d\<lparr>dgtab := map (\<lambda>c. if dg_dnum c = dev then b else c) (dgtab d), client := ?s, flight := [],
    taken := (taken d)(?x := length (arrived ?x (calls s)))\<rparr>"
  have blk: "block_of dev (dgtab d) = Some b" using b(1) by (simp add: data_block_def)
  then have "net_control W dev DG_CLEAR 0 d = Some (OK, ?d)"
    using s(1) by (simp add: net_control_def dgcntl_def DG_CLEAR_def DG_SETMODE_def)
  moreover have "block_of dev (dgtab ?d) = Some b" using blk unfolding block_of_def by (auto simp: find_Some_iff)
  then have "data_block dev b ?d" using b(1) by (simp add: data_block_def)
  moreover have "at_rest b k ?d" using b(2) s(3) net_same_bound [OF s(2)] by (simp add: at_rest_def fb)
  moreover have "frames b ?d = {}" by (simp add: frames_def reader_port_def in_port_def fb)
  ultimately show ?thesis unfolding net_quiet_def replies_only_def by (intro exI [of _ OK] exI [of _ ?d]) auto
qed


text \<open>A request and the reader after it: the reply, or none and only replies to this request on the way.\<close>

lemma net_sends:
  assumes W: "world_ok W" and qt: "net_quiet W dev q d" and rp: "repeatable (w_server W q) (files_of d)"
    and q: "octet_list q" "length q \<le> nat UMAXLEN"
    and rep: "octet_list (fst (w_server W q (files_of d)))" "length (fst (w_server W q (files_of d))) \<le> nat UMAXLEN" and len: "0 \<le> len"
  shows "\<exists>r d1 ret dat d2. net_write W dev q d = Some (r, d1) \<and> r \<noteq> SYSERR \<and> net_read W dev len d1 = Some (ret, dat, d2) \<and>
    (ret = TIMEOUT \<and> dat = [] \<and> net_quiet W dev q d2 \<and> net_patience W d2 < net_patience W d \<and>
       (files_of d2 = files_of d \<or> files_of d2 = snd (w_server W q (files_of d))) \<or>
     net_opened dev d2 \<and> ret = int (length dat) \<and> dat = take (nat len) (fst (w_server W q (files_of d))) \<and>
       files_of d2 = snd (w_server W q (files_of d)))"
proof -
  let ?F = "files_of d" let ?F1 = "snd (w_server W q ?F)" let ?rep = "fst (w_server W q ?F)"
  obtain b k where b: "data_block dev b d" "at_rest b k d" "replies_only b ?rep d" "frames b d = {} \<or> ?F1 = ?F"
    using qt by (auto simp: net_quiet_def)
  have blk: "block_of dev (dgtab d) = Some b" using b(1) by (simp add: data_block_def)
  let ?w = "w_passage W (turn d)"
  obtain s p where w: "dgwrite (w_env W) (w_bufs W) (w_pid W) (w_wres W) b (w_buf W (turn d))
      \<lparr>xg_faddr = [], xg_fport = 0, xg_lport = 0, xg_data = q\<rparr> (int (length q)) (client d) = Some (w_wres W, s)"
      "net s = net (client d)" "net_same (client d) s" "sent (drop (length (calls (client d))) (calls s)) = [p]"
      "arrived (dg_xport b) (calls s) = arrived (dg_xport b) (calls (client d))"
      "udp_packet (myaddr (net (client d))) SERVER_IP (dg_lport b) SERVER_PORT q p"
      "ip_packet (myaddr (net (client d))) SERVER_IP (int (28 + length q)) p"
    using dgwrite_request [OF W b(1) _ q] b(2) by (fastforce simp: at_rest_def)
  let ?d0 = "d\<lparr>client := s, turn := turn d + 1\<rparr>"
  have "reader_port b ?d0 = reader_port b d" by (simp add: reader_port_def in_port_def w(5))
  then have f0: "frames b ?d0 = frames b d" by (simp add: frames_def)
  have r0: "at_rest b k ?d0" using b(2) w(2,5) net_same_bound [OF w(3)] by (simp add: at_rest_def waiter_def)
  obtain dt where dt: "transit W ?w [p] ?d0 = Some dt" "client dt = s" "dgtab dt = dgtab d" "taken dt = taken d" "turn dt = turn d + 1"
      "replies_only b ?rep dt" "files_of dt = ?F \<or> files_of dt = ?F1" "frames b dt = {} \<or> files_of dt = ?F1"
      "\<forall>i. ?w = Arrives i \<longrightarrow> i \<in> fst ` set (flight dt)"
    using transit_replies [OF W r0 _ _ _ rp q(2) rep, of p ?w] b(3,4) f0 w(2,6,7) by (auto simp: replies_only_def)
  have rt: "at_rest b k dt" using r0 dt(2,4) by (simp add: at_rest_def)
  obtain dm where dm: "moment W dt = Some dm" "at_rest b k dm" "dgtab dm = dgtab dt" "files_of dm = files_of dt" "turn dm = turn dt"
      "flight dm = later (flight dt)" "frames b dm \<subseteq> frames b dt" "reader_port b dt \<noteq> [] \<or> due (flight dt) \<noteq> [] \<longrightarrow> reader_port b dm \<noteq> []"
    using moment_replies [OF rt replies_in_flight [OF dt(6)], of W] by blast
  have wr: "net_write W dev q d = Some (w_wres W, dm)" using blk w(1,4) dt(1) dm(1) by (simp add: net_write_def)
  have bm: "data_block dev b dm" using b(1) dt(3) dm(3) by (simp add: data_block_def)
  have rm: "replies_only b ?rep dm" using dt(6) dm(7) by (auto simp: replies_only_def)
  have wres: "w_wres W \<noteq> SYSERR" using W by (simp add: world_ok_def)
  show ?thesis
  proof (cases "reader_port b dm = [] \<and> due (flight dm) = []")
    case False
    then obtain d2 where d2: "net_read W dev len dm = Some (int (length (take (nat len) ?rep)), take (nat len) ?rep, d2)" "net_opened dev d2"
        "files_of d2 = files_of dm"
      using net_read_data [OF W bm dm(2) rm len] by blast
    have "frames b dm \<noteq> {}" using False due_later(1) [of "flight dm"] by (auto simp: frames_def)
    then have "files_of d2 = ?F1" using d2(3) dm(4,7) dt(8) by auto
    then show ?thesis using wr wres d2(1,2) by blast
  next
    case True
    obtain d2 where d2: "net_read W dev len dm = Some (TIMEOUT, [], d2)" "data_block dev b d2" "at_rest b k d2" "frames b d2 \<subseteq> frames b dm"
        "files_of d2 = files_of dm" "turn d2 = turn dm"
      using net_read_timeout [OF W bm dm(2) rm] True by blast
    have late: "\<not> in_time ?w"
    proof
      assume "in_time ?w"
      then consider "0 \<in> fst ` set (flight dt)" | "1 \<in> fst ` set (flight dt)" using dt(9) by (auto simp: in_time_def)
      then show False
      proof cases
        case 1
        then have "due (flight dt) \<noteq> []" by (force simp: due_def filter_empty_conv)
        then show ?thesis using dm(8) True by simp
      next
        case 2
        then have "0 \<in> fst ` set (later (flight dt))" by (force simp: later_def)
        then have "due (flight dm) \<noteq> []" unfolding dm(6) by (force simp: due_def filter_empty_conv)
        then show ?thesis using True by simp
      qed
    qed
    then have "in_time (w_passage W (turn d + 1))" using W unfolding world_ok_def by blast
    then have pt: "net_patience W d2 < net_patience W d" using late d2(6) dm(5) dt(5) by (simp add: net_patience_def)
    have fs: "files_of d2 = ?F \<or> files_of d2 = ?F1" using d2(5) dm(4) dt(7) by simp
    then have same: "w_server W q (files_of d2) = w_server W q ?F" using rp unfolding repeatable_def by metis
    have "replies_only b ?rep d2" using rm d2(4) by (auto simp: replies_only_def)
    moreover have "frames b d2 = {} \<or> ?F1 = files_of d2" using dt(8) dm(4,7) d2(4,5) by auto
    ultimately have "net_quiet W dev q d2" unfolding net_quiet_def same using d2(2,3) by blast
    then show ?thesis using wr wres d2(1) pt fs by blast
  qed
qed

lemma net_link:
  assumes "world_ok W"
  shows "server_link (net_device W) net_cold net_opened (net_quiet W) files_of (net_patience W) (w_server W) (nat UMAXLEN)"
proof
  show "\<exists>dev d1 r d2. sv_open (net_device W) d = Some (dev, d1) \<and> dev \<noteq> SYSERR \<and>
      sv_control (net_device W) dev DG_SETMODE (DG_DMODE OR DG_TMODE) d1 = Some (r, d2) \<and> r \<noteq> SYSERR \<and>
      net_opened dev d2 \<and> files_of d2 = files_of d" if "net_cold d" for d
    using net_open_binds [OF that] by (simp add: net_device_def)
  show "\<exists>r d'. sv_control (net_device W) dev DG_CLEAR 0 d = Some (r, d') \<and> files_of d' = files_of d \<and> net_quiet W dev q d'"
    if "net_opened dev d" for dev d q
    using net_clear [OF that] by (simp add: net_device_def)
  show "\<exists>r d1 ret dat d2. sv_write (net_device W) dev q d = Some (r, d1) \<and> r \<noteq> SYSERR \<and> sv_read (net_device W) dev k d1 = Some (ret, dat, d2) \<and>
        (ret = TIMEOUT \<and> dat = [] \<and> net_quiet W dev q d2 \<and> net_patience W d2 < net_patience W d \<and>
           (files_of d2 = files_of d \<or> files_of d2 = snd (w_server W q (files_of d))) \<or>
         net_opened dev d2 \<and> ret = int (length dat) \<and> dat = take (nat k) (fst (w_server W q (files_of d))) \<and>
           files_of d2 = snd (w_server W q (files_of d)))"
    if "net_quiet W dev q d" "repeatable (w_server W q) (files_of d)" "octet_list q" "length q \<le> nat UMAXLEN"
      "octet_list (fst (w_server W q (files_of d)))" "length (fst (w_server W q (files_of d))) \<le> nat UMAXLEN" "0 \<le> k" for dev q d k
    using net_sends [OF assms that] by (simp add: net_device_def)
  show "net_patience W d < RMAXTRY" if "net_quiet W dev q d" for dev q d
    by (simp add: net_patience_def RMAXTRY_def)
qed

lemma net_files:
  assumes "world_ok W" "serves_read (w_server W)" "serves_write (w_server W)"
  shows "file_link (net_device W) net_cold net_opened (net_quiet W) files_of (net_patience W) (w_server W) (nat UMAXLEN)"
  by (intro file_link.intro net_link file_link_axioms.intro assms)


section \<open>What is written can be read\<close>





section \<open>An example\<close>

definition ex_answer :: "packet \<Rightarrow> int list \<Rightarrow> packet" where
  "ex_answer p rep =
     (case do {
        sport \<leftarrow> get16 U_SPORT p;
        me \<leftarrow> get_bytes I_SRC IPLEN p;
        q \<leftarrow> udp_header SERVER_IP me (hton16 sport) SERVER_PORT (length rep) (over U_DATA rep (replicate EMAXPAK 0));
        ip_header SERVER_IP 0 me (int (UHLEN + length rep)) q
      } of Some q \<Rightarrow> q | None \<Rightarrow> [])"

lemma ex_answer_reply:
  assumes me: "length me = 4" "octet_list me" and p: "udp_packet me SERVER_IP lport SERVER_PORT q p" "ip_packet me SERVER_IP n p"
    and rep: "octet_list rep" "length rep \<le> nat UMAXLEN"
  shows "reply_frame me lport rep (ex_answer p rep)"
proof -
  let ?n = "length rep"
  have n: "?n \<le> 548" using rep(2) by (simp add: umax)
  have l: "42 \<le> length p" using p(1) by (simp add: udp_packet_def U_DATA_def)
  obtain x where x: "get16 U_SPORT p = Some x" "hton16 x = u16 lport"
    using get16_octets [of U_SPORT p "u16 lport"] p(1) l u16_range [of lport] by (auto simp: udp_packet_def U_SPORT_def)
  have src: "get_bytes I_SRC IPLEN p = Some me" using p(2) l by (simp add: ip_packet_def get_fld I_SRC_def IPLEN_def)
  let ?b = "over U_DATA rep (replicate EMAXPAK 0)"
  have o: "octet_list ?b" by (rule over_octets [OF zero_octets rep(1)])
  have f: "fld U_DATA ?n ?b = rep" using n by (simp add: fld_over_same U_DATA_def EMAXPAK_def)
  have "odd ?n \<longrightarrow> ?n \<le> 547" using n by presburger
  then have lb: "42 + ?n \<le> length ?b" "odd ?n \<longrightarrow> 43 + ?n \<le> length ?b" "?n < 60000" using n by (simp_all add: EMAXPAK_def)
  have sv: "length SERVER_IP = 4" "octet_list SERVER_IP" by (simp_all add: SERVER_IP_def octet_list_def)
  obtain q1 where q1: "udp_header SERVER_IP me (u16 lport) SERVER_PORT ?n ?b = Some q1" "length q1 = length ?b" "octet_list q1"
      "udp_packet SERVER_IP me SERVER_PORT (u16 lport) rep q1"
    using udp_header_fields [OF o lb sv(2) me(2)] unfolding f by blast
  have l1: "34 \<le> length q1" using q1(2) by (simp add: EMAXPAK_def)
  obtain q2 where q2: "ip_header SERVER_IP 0 me (int (UHLEN + ?n)) q1 = Some q2" "length q2 = length q1"
      "ip_packet SERVER_IP me (u16 (int (UHLEN + ?n) + 20)) q2" "fld I_PROTO 1 q2 = fld I_PROTO 1 q1"
      "\<forall>off n. 34 \<le> off \<longrightarrow> fld off n q2 = fld off n q1"
    using ip_header_fields [OF l1 q1(3) sv me] by blast
  have "u16 (u16 lport) = u16 lport" using u16_range [of lport] by simp
  then have "udp_packet SERVER_IP me SERVER_PORT lport rep q2"
    using q1(4) q2(2,4,5) by (simp add: udp_packet_def U_SPORT_def U_DPORT_def U_UDPLEN_def U_DATA_def I_DATA_def)
  moreover have "u16 (int (UHLEN + ?n) + 20) = int (28 + ?n)" using lb(3) by (simp add: UHLEN_def)
  ultimately have "reply_frame me lport rep q2" using q2(3) rep(2) by (simp add: reply_frame_def)
  then show ?thesis using x src q1(1) q2(1) by (simp add: ex_answer_def)
qed

text \<open>Every other reply comes in when the reader has given up.\<close>

definition ex_world :: "(string \<rightharpoonup> int list) world" where
  "ex_world = \<lparr>w_server = ex_serve, w_answer = ex_answer, w_passage = (\<lambda>t. if even t then Arrives 2 else Arrives 1),
     w_buf = (\<lambda>_. replicate EMAXPAK 0), w_pid = 3, w_wres = 1, w_icmpp = 6, w_env = (\<lambda>_ s. (0, s)), w_bufs = (\<lambda>_. None)\<rparr>"

lemma ex_world_ok: "world_ok ex_world"
  unfolding world_ok_def ex_world_def
  by (auto simp: isbadpid_def NPROC_def SYSERR_def in_time_def zero_octets intro: ex_answer_reply)

interpretation rnet: file_link "net_device ex_world" net_cold net_opened "net_quiet ex_world" files_of "net_patience ex_world"
  "w_server ex_world" "nat UMAXLEN"
  by (rule net_files [OF ex_world_ok]) (simp_all add: ex_world_def ex_serve_reads ex_serve_writes)








end
