(* ===== verification/Dhcp.thy ===== *)
theory Dhcp
  imports RemoteFile
begin

text \<open>
  The DHCP client (\<open>src/sys/net/dhcp_client.c\<close>, \<open>src/sys/h/dhcp_client.h\<close>): a process that obtains the address of the
  interface from a server. Its buffer is of octets, as the packets; its datagram device is a \<open>serverdev\<close>. One step is one
  turn of its loop. What it asks of the kernel and what it prints are recorded. \<open>None\<close> is an access outside the buffer.
\<close>

section \<open>Packets\<close>

definition MAXDHCP :: nat where "MAXDHCP = 600"
definition DHCP_CLIENT_RETRIES :: nat where "DHCP_CLIENT_RETRIES = 3"
definition DHCP_CLIENT_XID :: int where "DHCP_CLIENT_XID = 1426430260"
definition DHCP_OP_BOOTREQUEST :: int where "DHCP_OP_BOOTREQUEST = 1"
definition DHCP_OP_BOOTREPLY :: int where "DHCP_OP_BOOTREPLY = 2"
definition DHCP_HTYPE_ETHERNET :: int where "DHCP_HTYPE_ETHERNET = 1"
definition DHCP_HLEN_ETHERNET :: int where "DHCP_HLEN_ETHERNET = 6"
definition DHCP_FLAG_BROADCAST :: int where "DHCP_FLAG_BROADCAST = 32768"
definition DHCP_COOKIE :: int where "DHCP_COOKIE = 1669485411"

definition DHCP_OPTION_PAD :: int where "DHCP_OPTION_PAD = 0"
definition DHCP_OPTION_END :: int where "DHCP_OPTION_END = 255"
definition DHCP_OPTION_NETMASK :: int where "DHCP_OPTION_NETMASK = 1"
definition DHCP_OPTION_ROUTER :: int where "DHCP_OPTION_ROUTER = 3"
definition DHCP_OPTION_REQUESTIP :: int where "DHCP_OPTION_REQUESTIP = 50"
definition DHCP_OPTION_TIMELEASE :: int where "DHCP_OPTION_TIMELEASE = 51"
definition DHCP_OPTION_MESSAGETYPE :: int where "DHCP_OPTION_MESSAGETYPE = 53"
definition DHCP_OPTION_SERVERID :: int where "DHCP_OPTION_SERVERID = 54"
definition DHCP_OPTION_PARAMREQUEST :: int where "DHCP_OPTION_PARAMREQUEST = 55"
definition DHCPDISCOVER :: int where "DHCPDISCOVER = 1"
definition DHCPOFFER :: int where "DHCPOFFER = 2"
definition DHCPREQUEST :: int where "DHCPREQUEST = 3"
definition DHCPACK :: int where "DHCPACK = 5"

text \<open>The fields of \<open>dhcp_header\<close>, and the octet behind it.\<close>

definition D_OP :: nat where "D_OP = 0"
definition D_HTYPE :: nat where "D_HTYPE = 1"
definition D_HLEN :: nat where "D_HLEN = 2"
definition D_XID :: nat where "D_XID = 4"
definition D_FLAGS :: nat where "D_FLAGS = 10"
definition D_CIADDR :: nat where "D_CIADDR = 12"
definition D_YIADDR :: nat where "D_YIADDR = 16"
definition D_SIADDR :: nat where "D_SIADDR = 20"
definition D_CHADDR :: nat where "D_CHADDR = 28"
definition D_COOKIE :: nat where "D_COOKIE = 236"
definition D_OPTIONS :: nat where "D_OPTIONS = 240"

section \<open>The state\<close>

datatype dhcp_state = DHCP_INIT | DHCP_SELECTING | DHCP_REQUESTING | DHCP_BOUND | DHCP_REBINDING

datatype dhcp_event = LEASE_ACQUIRED | LEASE_DENIED | LEASE_EXPIRING | LEASE_EXPIRED | EVT_TIMEOUT | EVT_ERROR

record dhcp_client =
  cstate :: dhcp_state
  cdevice :: int
  timerPid :: int
  ip_server :: "int list"
  ip_local :: "int list"
  ip_netmask :: "int list"
  ip_gateway :: "int list"
  time_rebind :: int
  dhcplen :: int
  startupPid :: int

text \<open>Messages to processes, events that are printed, processes that are killed, and the return of the buffer.\<close>

datatype dhcpcall = SendEvent int dhcp_event | Report dhcp_event | KillTimer int | FreeBuff

record 'd dhcp =
  client :: dhcp_client
  dhcp_buff :: packet
  dnet :: netinfo
  dlink :: 'd
  dcalls :: "dhcpcall list"

definition dcall :: "dhcpcall \<Rightarrow> 'd dhcp \<Rightarrow> 'd dhcp" where
  "dcall c s = s\<lparr>dcalls := dcalls s @ [c]\<rparr>"

definition set_client :: "(dhcp_client \<Rightarrow> dhcp_client) \<Rightarrow> 'd dhcp \<Rightarrow> 'd dhcp" where
  "set_client f s = s\<lparr>client := f (client s)\<rparr>"

abbreviation set_state :: "dhcp_state \<Rightarrow> 'd dhcp \<Rightarrow> 'd dhcp" where
  "set_state q \<equiv> set_client (\<lambda>c. c\<lparr>cstate := q\<rparr>)"

section \<open>Options\<close>

text \<open>The option at \<open>opts\<close>, whose type and length are given: the message type and the client after it.\<close>

definition dhcp_option :: "packet \<Rightarrow> nat \<Rightarrow> int \<Rightarrow> int \<Rightarrow> int \<times> dhcp_client \<Rightarrow> (int \<times> dhcp_client) option" where
  "dhcp_option p dat ty len mc =
     (let (msg, c) = mc in
      if ty = DHCP_OPTION_NETMASK \<and> len = 4
      then map_option (\<lambda>b. (msg, c\<lparr>ip_netmask := b\<rparr>)) (get_bytes dat 4 p)
      else if ty = DHCP_OPTION_ROUTER \<and> len div 4 > 0
      then map_option (\<lambda>b. (msg, c\<lparr>ip_gateway := b\<rparr>)) (get_bytes dat 4 p)
      else if ty = DHCP_OPTION_TIMELEASE \<and> len = 4
      then map_option (\<lambda>v. (msg, c\<lparr>time_rebind := hton32 v - hton32 v div 8\<rparr>)) (get32 dat p)
      else if ty = DHCP_OPTION_MESSAGETYPE \<and> len = 1
      then map_option (\<lambda>m. (m, c)) (get8 dat p)
      else if ty = DHCP_OPTION_SERVERID \<and> len = 4
      then map_option (\<lambda>b. (msg, c\<lparr>ip_server := b\<rparr>)) (get_bytes dat 4 p)
      else Some (msg, c))"

function dhcp_options :: "packet \<Rightarrow> nat \<Rightarrow> int \<times> dhcp_client \<Rightarrow> (int \<times> dhcp_client) option" where
  "dhcp_options p opts mc =
     (if length p \<le> opts + 1 then None
      else let ty = p ! opts; len = p ! (opts + 1)
      in if ty = DHCP_OPTION_PAD then dhcp_options p (opts + 1) mc
         else if ty = DHCP_OPTION_END then Some mc
         else case dhcp_option p (opts + 2) ty len mc of
             None \<Rightarrow> None
           | Some mc \<Rightarrow> dhcp_options p (opts + nat len + 2) mc)"
  by pat_completeness auto
termination by (relation "measure (\<lambda>(p, opts, _). length p - opts)") auto

declare dhcp_options.simps [simp del]

definition dhcp_client_parse :: "packet \<Rightarrow> dhcp_client \<Rightarrow> (int \<times> dhcp_client) option" where
  "dhcp_client_parse p c = do {
     yi \<leftarrow> get_bytes D_YIADDR 4 p;
     si \<leftarrow> get_bytes D_SIADDR 4 p;
     dhcp_options p D_OPTIONS (0, c\<lparr>ip_local := yi, ip_server := si\<rparr>)
   }"

text \<open>The message type is of 8 bits, and so is the \<open>SYSERR\<close> that is returned for a packet that is not accepted.\<close>

definition dhcp_client_in :: "int list \<Rightarrow> 'd dhcp \<Rightarrow> (int \<times> 'd dhcp) option" where
  "dhcp_client_in et s = do {
     op \<leftarrow> get8 D_OP (dhcp_buff s);
     xid \<leftarrow> get32 D_XID (dhcp_buff s);
     cookie \<leftarrow> get32 D_COOKIE (dhcp_buff s);
     ch \<leftarrow> get_bytes D_CHADDR EPADLEN (dhcp_buff s);
     if op \<noteq> DHCP_OP_BOOTREPLY \<or> xid \<noteq> hton32 DHCP_CLIENT_XID \<or> cookie \<noteq> hton32 DHCP_COOKIE \<or> ch \<noteq> et
     then Some (u8 SYSERR, s)
     else do {
       (msg, c) \<leftarrow> dhcp_client_parse (dhcp_buff s) (client s);
       Some (if msg = 0 then u8 SYSERR else msg, s\<lparr>client := c\<rparr>)
     }
   }"

section \<open>Requests\<close>

definition dhcp_client_packet_add_msgtype :: "int \<Rightarrow> int list" where
  "dhcp_client_packet_add_msgtype ty = [DHCP_OPTION_MESSAGETYPE, 1, ty]"

definition dhcp_client_packet_add_params :: "int list" where
  "dhcp_client_packet_add_params = [DHCP_OPTION_PARAMREQUEST, 2, DHCP_OPTION_NETMASK, DHCP_OPTION_ROUTER]"

definition dhcp_client_packet_add_server :: "dhcp_client \<Rightarrow> int list" where
  "dhcp_client_packet_add_server c = [DHCP_OPTION_SERVERID, 4] @ ip_server c"

definition dhcp_client_packet_add_ip :: "dhcp_client \<Rightarrow> int list" where
  "dhcp_client_packet_add_ip c = [DHCP_OPTION_REQUESTIP, 4] @ ip_local c"

definition dhcp_client_packet_add_end :: "int list" where
  "dhcp_client_packet_add_end = [DHCP_OPTION_END]"

definition dhcp_request_options :: "int \<Rightarrow> dhcp_client \<Rightarrow> int list" where
  "dhcp_request_options ty c =
     dhcp_client_packet_add_msgtype ty @ dhcp_client_packet_add_params @
     (if ty = DHCPDISCOVER then dhcp_client_packet_add_ip c else []) @
     (if ty = DHCPREQUEST then dhcp_client_packet_add_ip c @ dhcp_client_packet_add_server c else []) @
     dhcp_client_packet_add_end"

definition dhcp_header :: "int list \<Rightarrow> int list \<Rightarrow> dhcp_client \<Rightarrow> packet \<Rightarrow> packet option" where
  "dhcp_header et addr c p = do {
     p \<leftarrow> put_bytes 0 (replicate D_OPTIONS 0) p;
     p \<leftarrow> put8 D_OP DHCP_OP_BOOTREQUEST p;
     p \<leftarrow> put8 D_HTYPE DHCP_HTYPE_ETHERNET p;
     p \<leftarrow> put8 D_HLEN DHCP_HLEN_ETHERNET p;
     p \<leftarrow> put32 D_XID (hton32 DHCP_CLIENT_XID) p;
     p \<leftarrow> put16 D_FLAGS (hton16 DHCP_FLAG_BROADCAST) p;
     p \<leftarrow> put32 D_COOKIE (hton32 DHCP_COOKIE) p;
     p \<leftarrow> put_bytes D_CIADDR addr p;
     p \<leftarrow> put_bytes D_YIADDR (ip_local c) p;
     p \<leftarrow> put_bytes D_SIADDR (ip_server c) p;
     put_bytes D_CHADDR et p
   }"

fun dhcp_try :: "'d serverdev \<Rightarrow> nat \<Rightarrow> 'd dhcp \<Rightarrow> (bool \<times> 'd dhcp) option" where
  "dhcp_try L 0 s = Some (False, s)"
| "dhcp_try L (Suc n) s = do {
     req \<leftarrow> get_bytes 0 (nat (dhcplen (client s))) (dhcp_buff s);
     (_, d) \<leftarrow> sv_write L (cdevice (client s)) req (dlink s);
     (resp, dat, d) \<leftarrow> sv_read L (cdevice (client s)) (int MAXDHCP) d;
     p \<leftarrow> put_bytes 0 dat (dhcp_buff s);
     let s = s\<lparr>dlink := d, dhcp_buff := p\<rparr>;
     if resp \<noteq> TIMEOUT then Some (True, set_client (\<lambda>c. c\<lparr>dhcplen := resp\<rparr>) s) else dhcp_try L n s
   }"

definition dhcp_client_abort :: "'d dhcp \<Rightarrow> 'd dhcp" where
  "dhcp_client_abort s =
     (let c = client s
      in if cstate c = DHCP_INIT then s
         else let s = (if \<not> isbadpid (timerPid c) then dcall (KillTimer (timerPid c)) s else s)
              in set_client (\<lambda>c. c\<lparr>timerPid := BADPID, cstate := DHCP_INIT\<rparr>) s)"

definition dhcp_client_send :: "'d serverdev \<Rightarrow> int list \<Rightarrow> int \<Rightarrow> 'd dhcp \<Rightarrow> (bool \<times> 'd dhcp) option" where
  "dhcp_client_send L et ty s = do {
     p \<leftarrow> dhcp_header et (myaddr (dnet s)) (client s) (dhcp_buff s);
     let opts = dhcp_request_options ty (client s);
     p \<leftarrow> put_bytes D_OPTIONS opts p;
     (ok, s) \<leftarrow> dhcp_try L DHCP_CLIENT_RETRIES
       (set_client (\<lambda>c. c\<lparr>dhcplen := int D_OPTIONS + int (length opts)\<rparr>) (s\<lparr>dhcp_buff := p\<rparr>));
     Some (if ok then (True, s) else (False, dhcp_client_abort (dcall (Report EVT_ERROR) s)))
   }"

section \<open>The process\<close>

text \<open>\<open>dhcp_Panic\<close> returns the buffer and kills the process; a step that ends so returns False.\<close>

definition dhcp_Panic :: "'d dhcp \<Rightarrow> bool \<times> 'd dhcp" where
  "dhcp_Panic s = (False, dcall FreeBuff s)"

definition DG_DELAY_TIME :: int where "DG_DELAY_TIME = 5"

definition dhcpSleep :: "int \<Rightarrow> dhcp_client \<Rightarrow> int \<times> dhcp_client" where
  "dhcpSleep delta c =
     (let t = u32 (time_rebind c - delta) in (if t \<le> 0 then TIMEOUT else OK, c\<lparr>time_rebind := t\<rparr>))"

definition dhcp_bound :: "'d dhcp \<Rightarrow> bool \<times> 'd dhcp" where
  "dhcp_bound s =
     (let (r, c) = dhcpSleep DG_DELAY_TIME (client s); s = s\<lparr>client := c\<rparr>
      in (True, if r = TIMEOUT then set_state DHCP_REBINDING s else s))"

definition dhcp_configure :: "'d dhcp \<Rightarrow> 'd dhcp" where
  "dhcp_configure s =
     (let c = client s
      in s\<lparr>dnet := (dnet s)\<lparr>myaddr := ip_local c, mynet := snd (netnum (ip_local c)), mavalid := True, gateway := ip_gateway c\<rparr>\<rparr>)"

definition dhcp_requesting :: "int list \<Rightarrow> 'd dhcp \<Rightarrow> (bool \<times> 'd dhcp) option" where
  "dhcp_requesting et s = do {
     (msg, s) \<leftarrow> dhcp_client_in et s;
     Some (if msg = DHCPOFFER then (True, s)
           else if msg \<noteq> DHCPACK
           then (let evt = (if cstate (client s) = DHCP_REBINDING then LEASE_EXPIRED else LEASE_DENIED)
                 in (True, dcall (Report evt) (dhcp_client_abort s)))
           else dhcp_bound (set_state DHCP_BOUND
                  (dcall (SendEvent (startupPid (client s)) LEASE_ACQUIRED) (dhcp_configure s))))
   }"

definition dhcp_selecting :: "'d serverdev \<Rightarrow> int list \<Rightarrow> 'd dhcp \<Rightarrow> (bool \<times> 'd dhcp) option" where
  "dhcp_selecting L et s = do {
     (msg, s) \<leftarrow> dhcp_client_in et s;
     if msg \<noteq> DHCPOFFER then Some (dhcp_Panic (dcall (SendEvent (startupPid (client s)) EVT_ERROR) s))
     else do {
       (ok, s) \<leftarrow> dhcp_client_send L et DHCPREQUEST (set_state DHCP_REQUESTING s);
       if ok then dhcp_requesting et s
       else Some (True, dcall (Report EVT_ERROR) (dhcp_client_abort s))
     }
   }"

definition dhcp_initial :: "'d serverdev \<Rightarrow> int list \<Rightarrow> 'd dhcp \<Rightarrow> (bool \<times> 'd dhcp) option" where
  "dhcp_initial L et s = do {
     (ok, s) \<leftarrow> dhcp_client_send L et DHCPDISCOVER (set_state DHCP_SELECTING s);
     if ok then dhcp_selecting L et s
     else Some (dhcp_Panic (dcall (SendEvent (startupPid (client s)) EVT_TIMEOUT) s))
   }"

definition dhcp_switch :: "'d serverdev \<Rightarrow> int list \<Rightarrow> 'd dhcp \<Rightarrow> (bool \<times> 'd dhcp) option" where
  "dhcp_switch L et s =
     (case cstate (client s) of
        DHCP_INIT \<Rightarrow> dhcp_initial L et s
      | DHCP_SELECTING \<Rightarrow> dhcp_selecting L et s
      | DHCP_REQUESTING \<Rightarrow> dhcp_requesting et s
      | DHCP_BOUND \<Rightarrow> Some (dhcp_bound s)
      | DHCP_REBINDING \<Rightarrow> dhcp_requesting et s)"

definition dhcp_read :: "'d serverdev \<Rightarrow> 'd dhcp \<Rightarrow> 'd dhcp option" where
  "dhcp_read L s = do {
     (len, dat, d) \<leftarrow> sv_read L (cdevice (client s)) (int MAXDHCP) (dlink s);
     p \<leftarrow> put_bytes 0 dat (dhcp_buff s);
     let s = s\<lparr>dlink := d, dhcp_buff := p\<rparr>;
     Some (if len \<noteq> TIMEOUT then set_client (\<lambda>c. c\<lparr>dhcplen := len\<rparr>) s else s)
   }"

text \<open>One turn of the loop of \<open>dhcp_Client\<close>: whether the process is alive.\<close>

definition dhcp_turn :: "'d serverdev \<Rightarrow> int list \<Rightarrow> 'd dhcp \<Rightarrow> (bool \<times> 'd dhcp) option" where
  "dhcp_turn L et s = do {
     (alive, s) \<leftarrow> dhcp_switch L et s;
     if alive then map_option (Pair True) (dhcp_read L s) else Some (False, s)
   }"

text \<open>\<open>dhcpInit\<close>, and the process up to its loop with a buffer \<open>buff\<close> from \<open>getmem\<close>.\<close>

definition dhcpInit :: "dhcp_client" where
  "dhcpInit =
     \<lparr>cstate = DHCP_INIT, cdevice = 0, timerPid = 0, ip_server = [0, 0, 0, 0], ip_local = dot2ip 192 168 1 106,
      ip_netmask = [0, 0, 0, 0], ip_gateway = [0, 0, 0, 0], time_rebind = 0, dhcplen = 0, startupPid = 0\<rparr>"

definition dhcp_begin :: "'d serverdev \<Rightarrow> packet \<Rightarrow> 'd dhcp \<Rightarrow> (bool \<times> 'd dhcp) option" where
  "dhcp_begin L buff s = do {
     let s = set_state DHCP_INIT (s\<lparr>dhcp_buff := buff, dnet := (dnet s)\<lparr>myaddr := replicate IPLEN 0\<rparr>\<rparr>);
     (dev, d) \<leftarrow> sv_open L (dlink s);
     let s = set_client (\<lambda>c. c\<lparr>cdevice := dev\<rparr>) (s\<lparr>dlink := d\<rparr>);
     if dev = SYSERR then Some (dhcp_Panic (dcall (SendEvent (startupPid (client s)) EVT_ERROR) s))
     else do {
       (_, d) \<leftarrow> sv_control L dev DG_SETMODE (DG_DMODE OR DG_TMODE) d;
       Some (True, s\<lparr>dlink := d\<rparr>)
     }
   }"

end
