(* ===== verification/DhcpProps.thy ===== *)
theory DhcpProps
  imports Dhcp RemoteProps
begin

text \<open>
  The DHCP client: its parser against a reading of the options one by one, the exchange by which it obtains an
  address, and that it takes no address that was not acknowledged.
\<close>

section \<open>Options\<close>

datatype dopt = Pad | Opt int "int list"

fun opt_octets :: "dopt \<Rightarrow> int list" where
  "opt_octets Pad = [DHCP_OPTION_PAD]"
| "opt_octets (Opt ty dat) = [ty, int (length dat)] @ dat"

fun good_opt :: "dopt \<Rightarrow> bool" where
  "good_opt Pad \<longleftrightarrow> True"
| "good_opt (Opt ty dat) \<longleftrightarrow> ty \<noteq> DHCP_OPTION_PAD \<and> ty \<noteq> DHCP_OPTION_END \<and> octet_list dat"

definition be_value :: "int list \<Rightarrow> int" where
  "be_value b = 16777216 * b ! 0 + 65536 * b ! 1 + 256 * b ! 2 + b ! 3"

text \<open>What an option means: others, and those of another length, mean nothing.\<close>

fun apply_opt :: "dopt \<Rightarrow> int \<times> dhcp_client \<Rightarrow> int \<times> dhcp_client" where
  "apply_opt Pad mc = mc"
| "apply_opt (Opt ty dat) (msg, c) =
     (if ty = DHCP_OPTION_NETMASK \<and> length dat = 4 then (msg, c\<lparr>ip_netmask := dat\<rparr>)
      else if ty = DHCP_OPTION_ROUTER \<and> 4 \<le> length dat then (msg, c\<lparr>ip_gateway := take 4 dat\<rparr>)
      else if ty = DHCP_OPTION_TIMELEASE \<and> length dat = 4 then (msg, c\<lparr>time_rebind := be_value dat - be_value dat div 8\<rparr>)
      else if ty = DHCP_OPTION_MESSAGETYPE \<and> length dat = 1 then (dat ! 0, c)
      else if ty = DHCP_OPTION_SERVERID \<and> length dat = 4 then (msg, c\<lparr>ip_server := dat\<rparr>)
      else (msg, c))"

lemma get32_be_value:
  assumes "length b = 4" "octet_list b"
  shows "\<exists>x. get32 (length pre) (pre @ b @ rest) = Some x \<and> hton32 x = be_value b"
proof -
  have "b = [b ! 0, b ! 1, b ! 2, b ! 3]" using assms(1) by (auto simp: length_Suc_conv numeral_eq_Suc)
  then obtain x0 x1 x2 x3 where b: "b = [x0, x1, x2, x3]" by blast
  have r: "0 \<le> x0" "x0 < 256" "0 \<le> x1" "x1 < 256" "0 \<le> x2" "x2 < 256" "0 \<le> x3" "x3 < 256" using assms(2) by (simp_all add: b octet_list_def)
  have "get32 (length pre) (pre @ b @ rest) = Some (x0 + 256 * x1 + 65536 * x2 + 16777216 * x3)"
    using get_bytes_app [of pre "length pre" b 4 rest] by (simp add: get32_def b)
  then show ?thesis using octets32_split(2) [OF r] by (simp add: be_value_def b)
qed

lemma option_step:
  assumes "good_opt (Opt ty dat)"
  shows "dhcp_option (pre @ [ty, int (length dat)] @ dat @ rest) (length pre + 2) ty (int (length dat)) mc = Some (apply_opt (Opt ty dat) mc)"
proof -
  obtain msg c where mc: "mc = (msg, c)" by (cases mc)
  define P where "P = pre @ [ty, int (length dat)] @ dat @ rest"
  have P: "P = (pre @ [ty, int (length dat)]) @ dat @ rest" by (simp add: P_def)
  have l: "length pre + 2 = length (pre @ [ty, int (length dat)])" by simp
  have k: "get_bytes (length pre + 2) k P = Some (take k dat)" if "k \<le> length dat" for k
    unfolding l P using that by (simp add: get_bytes_def)
  have v: "\<exists>x. get32 (length pre + 2) P = Some x \<and> hton32 x = be_value dat" if "length dat = 4"
    unfolding l P by (rule get32_be_value [OF that]) (use assms in simp)
  have d: "int (length dat) div 4 > 0 \<longleftrightarrow> 4 \<le> length dat" by (simp add: pos_imp_zdiv_pos_iff)
  have m: "get8 (length pre + 2) P = Some (dat ! 0)" if "length dat = 1"
    using k [of 1] that by (cases dat) (simp_all add: get8_def)
  obtain x where x: "length dat = 4 \<Longrightarrow> get32 (length pre + 2) P = Some x \<and> hton32 x = be_value dat" using v by blast
  have z: "int (length dat) = 4 \<longleftrightarrow> length dat = 4" "int (length dat) = 1 \<longleftrightarrow> length dat = 1" by simp_all
  let ?t = "dhcp_option P (length pre + 2) ty (int (length dat)) (msg, c) = Some (apply_opt (Opt ty dat) (msg, c))"
  note e = dhcp_option_def Let_def prod.case apply_opt.simps d z
  have ?t if "length dat = 4"
    using k [of 4] x [OF that] that unfolding e by simp
  moreover have ?t if "length dat = 1"
    using m [OF that] that unfolding e by simp
  moreover have ?t if "length dat \<noteq> 4" "length dat \<noteq> 1"
    using k [of 4] that unfolding e by simp
  ultimately show ?thesis unfolding P_def [symmetric] mc by blast
qed

text \<open>\<open>dhcp_client_parse\<close> reads the options up to the end mark as they mean one after the other.
\<close>

theorem options_meaning:
  assumes "\<forall>x \<in> set os. good_opt x" "rest \<noteq> []"
  shows "dhcp_options (pre @ concat (map opt_octets os) @ DHCP_OPTION_END # rest) (length pre) mc = Some (fold apply_opt os mc)"
  using assms(1)
proof (induction os arbitrary: pre mc)
  case Nil
  then show ?case using assms(2)
    by (subst dhcp_options.simps) (simp add: nth_append DHCP_OPTION_END_def DHCP_OPTION_PAD_def Let_def)
next
  case (Cons x os)
  let ?tail = "concat (map opt_octets os) @ DHCP_OPTION_END # rest"
  show ?case
  proof (cases x)
    case Pad
    have "dhcp_options ((pre @ [DHCP_OPTION_PAD]) @ ?tail) (length (pre @ [DHCP_OPTION_PAD])) mc = Some (fold apply_opt os mc)"
      by (rule Cons.IH) (use Cons.prems in simp)
    then show ?thesis by (subst dhcp_options.simps) (simp add: Pad nth_append Let_def)
  next
    case (Opt ty dat)
    let ?p = "pre @ [ty, int (length dat)] @ dat @ ?tail" and ?pre = "pre @ [ty, int (length dat)] @ dat"
    have g: "good_opt (Opt ty dat)" using Cons.prems Opt by simp
    have "dhcp_options (?pre @ ?tail) (length ?pre) (apply_opt (Opt ty dat) mc) = Some (fold apply_opt os (apply_opt (Opt ty dat) mc))"
      by (rule Cons.IH) (use Cons.prems in simp)
    then have r: "dhcp_options ?p (length pre + length dat + 2) (apply_opt (Opt ty dat) mc) = Some (fold apply_opt (x # os) mc)"
      by (simp add: Opt)
    have n: "?p ! length pre = ty" "?p ! (length pre + 1) = int (length dat)" "length ?p > length pre + 1" by (simp_all add: nth_append)
    have "dhcp_options ?p (length pre) mc = dhcp_options ?p (length pre + length dat + 2) (apply_opt (Opt ty dat) mc)"
      by (subst dhcp_options.simps) (use n g option_step [OF g, of pre ?tail mc] in \<open>simp add: Let_def del: append_assoc apply_opt.simps\<close>)
    then show ?thesis using r by (simp add: Opt)
  qed
qed

section \<open>No address that was not acknowledged\<close>

text \<open>The packet acknowledges the address \<open>a\<close> to the interface with the Ethernet address \<open>et\<close>.\<close>

definition acknowledges :: "int list \<Rightarrow> int list \<Rightarrow> packet \<Rightarrow> bool" where
  "acknowledges et a p \<longleftrightarrow> get8 D_OP p = Some DHCP_OP_BOOTREPLY \<and> get32 D_XID p = Some (hton32 DHCP_CLIENT_XID) \<and>
     get32 D_COOKIE p = Some (hton32 DHCP_COOKIE) \<and> get_bytes D_CHADDR EPADLEN p = Some et \<and> get_bytes D_YIADDR 4 p = Some a \<and>
     (\<exists>c c'. dhcp_client_parse p c = Some (DHCPACK, c'))"

lemma option_keeps_local: "dhcp_option p dat ty len (m, c) = Some (m', c') \<Longrightarrow> ip_local c' = ip_local c"
  by (auto simp: dhcp_option_def split: if_splits)

lemma options_keep_local: "dhcp_options p opts (m, c) = Some (m', c') \<Longrightarrow> ip_local c' = ip_local c"
proof (induction p opts "(m, c)" arbitrary: m c rule: dhcp_options.induct)
  case (1 p opts)
  let ?ty = "p ! opts" and ?len = "p ! (opts + 1)"
  have n: "\<not> length p \<le> opts + 1" using 1(3) by (subst (asm) dhcp_options.simps) (simp split: if_splits)
  consider (pad) "?ty = DHCP_OPTION_PAD" | (fin) "?ty \<noteq> DHCP_OPTION_PAD" "?ty = DHCP_OPTION_END"
    | (opt) "?ty \<noteq> DHCP_OPTION_PAD" "?ty \<noteq> DHCP_OPTION_END" by blast
  then show ?case
  proof cases
    case pad
    then show ?thesis using 1(1) [OF n refl refl pad] 1(3) n by (subst (asm) (2) dhcp_options.simps) (simp add: Let_def)
  next
    case fin
    then show ?thesis using 1(3) n by (subst (asm) dhcp_options.simps) (simp add: Let_def)
  next
    case opt
    obtain m1 c1 where o: "dhcp_option p (opts + 2) ?ty ?len (m, c) = Some (m1, c1)" "dhcp_options p (opts + nat ?len + 2) (m1, c1) = Some (m', c')"
      using 1(3) n opt by (subst (asm) dhcp_options.simps) (auto simp: Let_def split: option.splits)
    show ?thesis using 1(2) [OF n refl refl opt o(1) o(2)] option_keeps_local [OF o(1)] by simp
  qed
qed

lemma parsed_local: "dhcp_client_parse p c = Some (m, c') \<Longrightarrow> get_bytes D_YIADDR 4 p = Some (ip_local c')"
  by (auto simp: dhcp_client_parse_def dest!: options_keep_local split: bind_splits)

lemma in_ack:
  assumes "dhcp_client_in et s = Some (DHCPACK, s')"
  shows "acknowledges et (ip_local (client s')) (dhcp_buff s) \<and> dnet s' = dnet s"
proof -
  obtain m c where w: "dhcp_client_parse (dhcp_buff s) (client s) = Some (m, c)" "m = DHCPACK" "s' = s\<lparr>client := c\<rparr>"
      "get8 D_OP (dhcp_buff s) = Some DHCP_OP_BOOTREPLY" "get32 D_XID (dhcp_buff s) = Some (hton32 DHCP_CLIENT_XID)"
      "get32 D_COOKIE (dhcp_buff s) = Some (hton32 DHCP_COOKIE)" "get_bytes D_CHADDR EPADLEN (dhcp_buff s) = Some et"
    using assms by (auto simp: dhcp_client_in_def DHCPACK_def u8_def SYSERR_def split: bind_splits if_splits)
  then show ?thesis using parsed_local [OF w(1)] by (auto simp: acknowledges_def)
qed

lemma in_dnet: "dhcp_client_in et s = Some (m, s') \<Longrightarrow> dnet s' = dnet s"
  by (auto simp: dhcp_client_in_def split: bind_splits if_splits)

lemma try_dnet: "dhcp_try L n s = Some (b, s') \<Longrightarrow> dnet s' = dnet s"
proof (induction n arbitrary: s)
  case (Suc n)
  obtain q w d resp dat d2 p where w: "get_bytes 0 (nat (dhcplen (client s))) (dhcp_buff s) = Some q"
    "sv_write L (cdevice (client s)) q (dlink s) = Some (w, d)" "sv_read L (cdevice (client s)) (int MAXDHCP) d = Some (resp, dat, d2)"
    "put_bytes 0 dat (dhcp_buff s) = Some p" using Suc.prems by (auto split: bind_splits)
  then show ?case using Suc.prems Suc.IH [of "s\<lparr>dlink := d2, dhcp_buff := p\<rparr>"]
    by (cases "resp = TIMEOUT") (auto simp: Let_def set_client_def)
qed simp

lemma abort_dnet [simp]: "dnet (dhcp_client_abort s) = dnet s" "dnet (dcall c s) = dnet s" "dnet (set_client f s) = dnet s"
  by (simp_all add: dhcp_client_abort_def Let_def set_client_def dcall_def)

lemma send_dnet: "dhcp_client_send L et ty s = Some (b, s') \<Longrightarrow> dnet s' = dnet s"
  by (auto simp: dhcp_client_send_def Let_def dest!: try_dnet split: bind_splits if_splits)

definition configured_by :: "int list \<Rightarrow> netinfo \<Rightarrow> packet \<Rightarrow> bool" where
  "configured_by et N p \<longleftrightarrow> acknowledges et (myaddr N) p \<and> mavalid N \<and> mynet N = snd (netnum (myaddr N))"

lemma bound_dnet: "dnet (snd (dhcp_bound s)) = dnet s"
  by (simp add: dhcp_bound_def Let_def case_prod_beta set_client_def)

lemma requesting_dnet:
  assumes "dhcp_requesting et s = Some (b, s')"
  shows "dnet s' = dnet s \<or> configured_by et (dnet s') (dhcp_buff s)"
proof -
  obtain m s1 where i: "dhcp_client_in et s = Some (m, s1)" using assms by (auto simp: dhcp_requesting_def split: bind_splits)
  show ?thesis
  proof (cases "m = DHCPACK")
    case True
    then have "s' = snd (dhcp_bound (set_state DHCP_BOUND (dcall (SendEvent (startupPid (client (dhcp_configure s1))) LEASE_ACQUIRED) (dhcp_configure s1))))"
      using assms i by (simp add: dhcp_requesting_def DHCPACK_def DHCPOFFER_def dhcp_configure_def Let_def)
    then have "dnet s' = dnet (dhcp_configure s1)" by (simp add: bound_dnet)
    then show ?thesis using in_ack [of et s s1] i True by (simp add: configured_by_def dhcp_configure_def Let_def)
  next
    case False
    then show ?thesis using assms i in_dnet [OF i] by (auto simp: dhcp_requesting_def Let_def split: if_splits)
  qed
qed

text \<open>The client gives the interface no address but one that a packet of its own exchange acknowledged, whatever the
  network delivers to it.
\<close>

theorem only_acknowledged:
  assumes "dhcp_turn L et s = Some (b, s')"
  shows "dnet s' = dnet s \<or> (\<exists>p. configured_by et (dnet s') p)"
proof -
  obtain a s1 where w: "dhcp_switch L et s = Some (a, s1)" using assms by (auto simp: dhcp_turn_def split: bind_splits)
  have sel: "dnet t' = dnet t \<or> (\<exists>p. configured_by et (dnet t') p)" if t: "dhcp_selecting L et t = Some (x, t')" for t t' x
  proof -
    obtain m t1 where i: "dhcp_client_in et t = Some (m, t1)" using t by (auto simp: dhcp_selecting_def split: bind_splits)
    show ?thesis
    proof (cases "m = DHCPOFFER")
      case True
      then obtain ok t2 where s: "dhcp_client_send L et DHCPREQUEST (set_state DHCP_REQUESTING t1) = Some (ok, t2)"
        "if ok then dhcp_requesting et t2 = Some (x, t') else t' = dcall (Report EVT_ERROR) (dhcp_client_abort t2)"
        using t i by (auto simp: dhcp_selecting_def split: bind_splits if_splits)
      then show ?thesis using send_dnet [OF s(1)] in_dnet [OF i] by (auto dest: requesting_dnet split: if_splits)
    qed (use t i in_dnet [OF i] in \<open>auto simp: dhcp_selecting_def dhcp_Panic_def\<close>)
  qed
  have ini: "dnet t' = dnet t \<or> (\<exists>p. configured_by et (dnet t') p)" if t: "dhcp_initial L et t = Some (x, t')" for t t' x
  proof -
    obtain ok t1 where s: "dhcp_client_send L et DHCPDISCOVER (set_state DHCP_SELECTING t) = Some (ok, t1)"
      "if ok then dhcp_selecting L et t1 = Some (x, t') else t' = snd (dhcp_Panic (dcall (SendEvent (startupPid (client t1)) EVT_TIMEOUT) t1))"
      using t by (auto simp: dhcp_initial_def dhcp_Panic_def split: bind_splits if_splits)
    then show ?thesis using send_dnet [OF s(1)] sel [of t1 x t'] by (cases ok) (auto simp: dhcp_Panic_def)
  qed
  have "dnet s1 = dnet s \<or> (\<exists>p. configured_by et (dnet s1) p)"
    using w bound_dnet [of s] requesting_dnet [of et s a s1] sel ini by (auto simp: dhcp_switch_def split: dhcp_state.splits)
  moreover have "dnet s' = dnet s1"
    using assms w by (auto simp: dhcp_turn_def dhcp_read_def Let_def split: bind_splits if_splits)
  ultimately show ?thesis by simp
qed

section \<open>The exchange\<close>

text \<open>
  The network as a script: what each \<open>read\<close> finds, a datagram or nothing within its time, and what has been sent. Behind its end there
  is silence.
\<close>

record script =
  s_in :: "int list option list"
  s_out :: "int list list"

definition script_read :: "int \<Rightarrow> int \<Rightarrow> script \<Rightarrow> (int \<times> int list \<times> script) option" where
  "script_read dev k d =
     (case s_in d of
        [] \<Rightarrow> Some (TIMEOUT, [], d)
      | None # r \<Rightarrow> Some (TIMEOUT, [], d\<lparr>s_in := r\<rparr>)
      | Some dat # r \<Rightarrow> Some (int (length (take (nat k) dat)), take (nat k) dat, d\<lparr>s_in := r\<rparr>))"

definition script_dev :: "script serverdev" where
  "script_dev =
     \<lparr>sv_open = (\<lambda>d. Some (6, d)), sv_control = (\<lambda>dev f a d. Some (OK, d)),
      sv_write = (\<lambda>dev q d. Some (int (length q), d\<lparr>s_out := s_out d @ [q]\<rparr>)), sv_read = script_read\<rparr>"

text \<open>What a server's packet says, in the fields the client reads.\<close>

definition dhcp_reply :: "int list \<Rightarrow> int list \<Rightarrow> int list \<Rightarrow> dopt list \<Rightarrow> packet \<Rightarrow> bool" where
  "dhcp_reply et yi si os p \<longleftrightarrow> length et = EPADLEN \<and> length yi = 4 \<and> length si = 4 \<and> (\<forall>x \<in> set os. good_opt x) \<and>
     (\<exists>a b c e. length a = 3 \<and> length b = 8 \<and> length c = 4 \<and> length e = 202 \<and>
        p = [DHCP_OP_BOOTREPLY] @ a @ be4 DHCP_CLIENT_XID @ b @ yi @ si @ c @ et @ e @ be4 DHCP_COOKIE @
          concat (map opt_octets os) @ [DHCP_OPTION_END])"

fun opt_message :: "int \<Rightarrow> dopt \<Rightarrow> int" where
  "opt_message m Pad = m"
| "opt_message m (Opt ty dat) = (if ty = DHCP_OPTION_MESSAGETYPE \<and> length dat = 1 then dat ! 0 else m)"

fun opt_router :: "int list \<Rightarrow> dopt \<Rightarrow> int list" where
  "opt_router g Pad = g"
| "opt_router g (Opt ty dat) = (if ty = DHCP_OPTION_ROUTER \<and> 4 \<le> length dat then take 4 dat else g)"

lemma apply_opt_parts:
  assumes "apply_opt x (m, c) = (m', c')"
  shows "m' = opt_message m x" "ip_gateway c' = opt_router (ip_gateway c) x" "ip_local c' = ip_local c" "startupPid c' = startupPid c"
    "cstate c' = cstate c" "length (ip_server c) = 4 \<Longrightarrow> length (ip_server c') = 4"
  using assms by (cases x; auto simp: DHCP_OPTION_NETMASK_def DHCP_OPTION_ROUTER_def DHCP_OPTION_TIMELEASE_def
      DHCP_OPTION_MESSAGETYPE_def DHCP_OPTION_SERVERID_def split: if_splits)+

lemma fold_opt_parts:
  assumes "fold apply_opt os (m, c) = (m', c')"
  shows "m' = foldl opt_message m os \<and> ip_gateway c' = foldl opt_router (ip_gateway c) os \<and> ip_local c' = ip_local c \<and>
    startupPid c' = startupPid c \<and> cstate c' = cstate c \<and> (length (ip_server c) = 4 \<longrightarrow> length (ip_server c') = 4)"
  using assms
proof (induction os arbitrary: m c)
  case (Cons x os)
  obtain m1 c1 where x: "apply_opt x (m, c) = (m1, c1)" by fastforce
  show ?case using Cons.IH [of m1 c1] Cons.prems apply_opt_parts [OF x] by (simp add: x)
qed simp

lemma be4_values:
  "be4 DHCP_CLIENT_XID = [85, 5, 153, 52]" "hton32 DHCP_CLIENT_XID = 882443605"
  "be4 DHCP_COOKIE = [99, 130, 83, 99]" "hton32 DHCP_COOKIE = 1666417251"
  by (simp_all add: be4_def hton32_def DHCP_CLIENT_XID_def DHCP_COOKIE_def)

lemma reply_accepted:
  assumes "dhcp_reply et yi si os p" "dhcp_buff s = p @ stale" "stale \<noteq> []"
    "fold apply_opt os (0, (client s)\<lparr>ip_local := yi, ip_server := si\<rparr>) = (m, c)"
  shows "dhcp_client_in et s = Some (if m = 0 then u8 SYSERR else m, s\<lparr>client := c\<rparr>)"
proof -
  obtain a b g e where l: "length a = 3" "length b = 8" "length g = 4" "length e = 202" "length et = 6" "length yi = 4" "length si = 4"
    and os: "\<forall>x \<in> set os. good_opt x"
    and p: "p = [2] @ a @ [85, 5, 153, 52] @ b @ yi @ si @ g @ et @ e @ [99, 130, 83, 99] @ concat (map opt_octets os) @ [DHCP_OPTION_END]"
    using assms(1) unfolding dhcp_reply_def be4_values DHCP_OP_BOOTREPLY_def EPADLEN_def by blast
  let ?o = "concat (map opt_octets os) @ DHCP_OPTION_END # stale"
  define P where "P = p @ stale"
  have P: "P = [2] @ a @ [85, 5, 153, 52] @ b @ yi @ si @ g @ et @ e @ [99, 130, 83, 99] @ ?o" by (simp add: P_def p)
  have g8: "get8 D_OP P = Some 2" unfolding P by (simp add: get8_def get_bytes_def D_OP_def)
  have gx: "get_bytes D_XID 4 P = Some [85, 5, 153, 52]"
    using get_bytes_app [of "[2] @ a" 4 "[85, 5, 153, 52]" 4] l by (simp add: P D_XID_def)
  have gy: "get_bytes D_YIADDR 4 P = Some yi"
    using get_bytes_app [of "[2] @ a @ [85, 5, 153, 52] @ b" 16 yi 4] l by (simp add: P D_YIADDR_def)
  have gs: "get_bytes D_SIADDR 4 P = Some si"
    using get_bytes_app [of "[2] @ a @ [85, 5, 153, 52] @ b @ yi" 20 si 4] l by (simp add: P D_SIADDR_def)
  have gc: "get_bytes D_CHADDR EPADLEN P = Some et"
    using get_bytes_app [of "[2] @ a @ [85, 5, 153, 52] @ b @ yi @ si @ g" 28 et 6] l by (simp add: P D_CHADDR_def EPADLEN_def)
  let ?h = "[2] @ a @ [85, 5, 153, 52] @ b @ yi @ si @ g @ et @ e"
  have gk: "get_bytes D_COOKIE 4 P = Some [99, 130, 83, 99]"
    using get_bytes_app [of ?h 236 "[99, 130, 83, 99]" 4] l by (simp add: P D_COOKIE_def)
  have x: "get32 D_XID P = Some (hton32 DHCP_CLIENT_XID)" "get32 D_COOKIE P = Some (hton32 DHCP_COOKIE)"
    by (simp_all add: get32_def gx gk be4_values)
  have "dhcp_options ((?h @ [99, 130, 83, 99]) @ ?o) (length (?h @ [99, 130, 83, 99])) (0, (client s)\<lparr>ip_local := yi, ip_server := si\<rparr>) = Some (m, c)"
    unfolding options_meaning [OF os assms(3)] assms(4) ..
  then have "dhcp_options P D_OPTIONS (0, (client s)\<lparr>ip_local := yi, ip_server := si\<rparr>) = Some (m, c)"
    using l by (simp add: P D_OPTIONS_def)
  then have "dhcp_client_parse P (client s) = Some (m, c)" by (simp add: dhcp_client_parse_def gy gs)
  then show ?thesis unfolding dhcp_client_in_def assms(2) P_def [symmetric] by (simp add: g8 x gc DHCP_OP_BOOTREPLY_def)
qed

lemma try_script:
  assumes "s_in (dlink s) = replicate n None @ Some dat # r" "n < k" "length (dhcp_buff s) = MAXDHCP"
    "nat (dhcplen (client s)) \<le> MAXDHCP" "length dat \<le> MAXDHCP"
  shows "dhcp_try script_dev k s = Some (True, set_client (\<lambda>c. c\<lparr>dhcplen := int (length dat)\<rparr>)
    (s\<lparr>dlink := \<lparr>s_in = r, s_out = s_out (dlink s) @ replicate (Suc n) (take (nat (dhcplen (client s))) (dhcp_buff s))\<rparr>,
       dhcp_buff := dat @ drop (length dat) (dhcp_buff s)\<rparr>))"
  using assms(1-4)
proof (induction n arbitrary: k s)
  case 0
  then obtain j where k: "k = Suc j" by (cases k) auto
  have "int (length dat) \<noteq> TIMEOUT" by (simp add: TIMEOUT_def)
  then show ?case using 0 assms(5)
    by (simp add: k get_bytes_def put_bytes_def script_dev_def script_read_def Let_def set_client_def)
next
  case (Suc n)
  then obtain j where k: "k = Suc j" "n < j" by (cases k) auto
  let ?q = "take (nat (dhcplen (client s))) (dhcp_buff s)"
  let ?s = "s\<lparr>dlink := \<lparr>s_in = replicate n None @ Some dat # r, s_out = s_out (dlink s) @ [?q]\<rparr>\<rparr>"
  have "dhcp_try script_dev k s = dhcp_try script_dev j ?s"
    using Suc.prems by (cases "dlink s") (simp add: k get_bytes_def put_bytes_def script_dev_def script_read_def Let_def)
  then show ?case using Suc.IH [of ?s j] Suc.prems k(2) by (simp add: set_client_def)
qed

lemma dhcp_header_fits:
  assumes "length p = MAXDHCP" "length et = EPADLEN" "length addr = 4" "length (ip_local c) = 4" "length (ip_server c) = 4"
  shows "\<exists>p'. dhcp_header et addr c p = Some p' \<and> length p' = MAXDHCP"
  using assms by (simp add: dhcp_header_def put8_def put16_def put32_def put_bytes_over D_OP_def D_HTYPE_def D_HLEN_def D_XID_def D_FLAGS_def
      D_COOKIE_def D_CIADDR_def D_YIADDR_def D_SIADDR_def D_CHADDR_def D_OPTIONS_def MAXDHCP_def EPADLEN_def)

lemma request_options_length:
  "length (ip_local c) = 4 \<Longrightarrow> length (ip_server c) = 4 \<Longrightarrow> length (dhcp_request_options ty c) \<le> 30"
  by (simp add: dhcp_request_options_def dhcp_client_packet_add_msgtype_def dhcp_client_packet_add_params_def
      dhcp_client_packet_add_ip_def dhcp_client_packet_add_server_def dhcp_client_packet_add_end_def)

lemma send_script:
  assumes "s_in (dlink s) = replicate n None @ Some dat # r" "n < DHCP_CLIENT_RETRIES" "length (dhcp_buff s) = MAXDHCP" "length dat \<le> MAXDHCP"
    "length et = EPADLEN" "length (myaddr (dnet s)) = 4" "length (ip_local (client s)) = 4" "length (ip_server (client s)) = 4"
  shows "\<exists>req stale s'. dhcp_client_send script_dev et ty s = Some (True, s') \<and>
    s' = s\<lparr>client := (client s)\<lparr>dhcplen := int (length dat)\<rparr>, dhcp_buff := dat @ stale,
      dlink := \<lparr>s_in = r, s_out = s_out (dlink s) @ replicate (Suc n) req\<rparr>\<rparr> \<and>
    length (dat @ stale) = MAXDHCP \<and> drop D_OPTIONS req = dhcp_request_options ty (client s)"
proof -
  let ?o = "dhcp_request_options ty (client s)"
  obtain p where h: "dhcp_header et (myaddr (dnet s)) (client s) (dhcp_buff s) = Some p" "length p = MAXDHCP"
    using dhcp_header_fits [OF assms(3,5-8)] by blast
  note lo = request_options_length [OF assms(7,8), of ty]
  define p' where "p' = take D_OPTIONS p @ ?o @ drop (D_OPTIONS + length ?o) p"
  have p': "put_bytes D_OPTIONS ?o p = Some p'" using h(2) lo by (simp add: put_bytes_def p'_def D_OPTIONS_def MAXDHCP_def)
  have lp: "length p' = MAXDHCP" using put_bytes_length [OF p'] h(2) by simp
  let ?s = "set_client (\<lambda>c. c\<lparr>dhcplen := int D_OPTIONS + int (length ?o)\<rparr>) (s\<lparr>dhcp_buff := p'\<rparr>)"
  let ?req = "take (nat (int D_OPTIONS + int (length ?o))) p'"
  have nt: "nat (int D_OPTIONS + int (length ?o)) = D_OPTIONS + length ?o" by (simp add: nat_add_distrib)
  have t: "dhcp_try script_dev DHCP_CLIENT_RETRIES ?s = Some (True, set_client (\<lambda>c. c\<lparr>dhcplen := int (length dat)\<rparr>)
    (?s\<lparr>dlink := \<lparr>s_in = r, s_out = s_out (dlink s) @ replicate (Suc n) ?req\<rparr>, dhcp_buff := dat @ drop (length dat) p'\<rparr>))"
    using try_script [of ?s n dat r DHCP_CLIENT_RETRIES] assms(1,2,4) lp lo by (simp add: set_client_def D_OPTIONS_def MAXDHCP_def)
  have "drop D_OPTIONS ?req = ?o" unfolding nt using h(2) lo by (simp add: p'_def D_OPTIONS_def MAXDHCP_def)
  moreover have "length (dat @ drop (length dat) p') = MAXDHCP" using lp assms(4) by simp
  moreover have "dhcp_client_send script_dev et ty s = Some (True, s\<lparr>client := (client s)\<lparr>dhcplen := int (length dat)\<rparr>,
      dhcp_buff := dat @ drop (length dat) p', dlink := \<lparr>s_in = r, s_out = s_out (dlink s) @ replicate (Suc n) ?req\<rparr>\<rparr>)"
    using h(1) p' t by (simp add: dhcp_client_send_def Let_def set_client_def)
  ultimately show ?thesis by blast
qed

lemma read_script:
  assumes "length (dhcp_buff s) = MAXDHCP"
  shows "\<exists>s'. dhcp_read script_dev s = Some s' \<and> dnet s' = dnet s \<and> dcalls s' = dcalls s \<and> s_out (dlink s') = s_out (dlink s) \<and>
    cstate (client s') = cstate (client s)"
  using assms by (cases "s_in (dlink s)"; cases "hd (s_in (dlink s))")
    (simp_all add: dhcp_read_def script_dev_def script_read_def put_bytes_def Let_def set_client_def TIMEOUT_def)

lemma bound_parts:
  "dnet (snd (dhcp_bound s)) = dnet s" "dcalls (snd (dhcp_bound s)) = dcalls s" "dlink (snd (dhcp_bound s)) = dlink s"
  "dhcp_buff (snd (dhcp_bound s)) = dhcp_buff s" "fst (dhcp_bound s)"
  "cstate (client s) = DHCP_BOUND \<Longrightarrow> cstate (client (snd (dhcp_bound s))) \<in> {DHCP_BOUND, DHCP_REBINDING}"
  by (simp_all add: dhcp_bound_def Let_def case_prod_beta set_client_def dhcpSleep_def)

text \<open>In one turn a client that starts discovers a server, requests the address that is offered and, when it is acknowledged,
  configures the interface with it, its network and its router, although up to two answers to each request are missing.
\<close>

theorem dhcp_acquires:
  assumes st: "cstate (client s) = DHCP_INIT" "length (dhcp_buff s) = MAXDHCP" "length (myaddr (dnet s)) = 4"
      "length (ip_local (client s)) = 4" "length (ip_server (client s)) = 4"
    and replies: "s_in (dlink s) = replicate n1 None @ Some p1 # replicate n2 None @ Some p2 # r" "n1 < 3" "n2 < 3"
    and offer: "dhcp_reply et a1 si1 os1 p1" "length p1 < MAXDHCP" "foldl opt_message 0 os1 = DHCPOFFER"
    and ack: "dhcp_reply et a2 si2 os2 p2" "length p2 < MAXDHCP" "foldl opt_message 0 os2 = DHCPACK"
  shows "\<exists>s' c1 discover request. dhcp_turn script_dev et s = Some (True, s') \<and>
    dnet s' = (dnet s)\<lparr>myaddr := a2, mynet := snd (netnum a2), mavalid := True,
      gateway := foldl opt_router (foldl opt_router (ip_gateway (client s)) os1) os2\<rparr> \<and>
    s_out (dlink s') = s_out (dlink s) @ replicate (Suc n1) discover @ replicate (Suc n2) request \<and>
    drop D_OPTIONS discover = dhcp_request_options DHCPDISCOVER (client s) \<and>
    drop D_OPTIONS request = dhcp_request_options DHCPREQUEST c1 \<and> ip_local c1 = a1 \<and>
    dcalls s' = dcalls s @ [SendEvent (startupPid (client s)) LEASE_ACQUIRED] \<and>
    cstate (client s') \<in> {DHCP_BOUND, DHCP_REBINDING}"
proof -
  have n: "n1 < DHCP_CLIENT_RETRIES" "n2 < DHCP_CLIENT_RETRIES" using replies by (simp_all add: DHCP_CLIENT_RETRIES_def)
  have et: "length et = EPADLEN" "length a1 = 4" "length si1 = 4" "length a2 = 4" "length si2 = 4"
    using offer(1) ack(1) by (simp_all add: dhcp_reply_def)
  let ?s0 = "set_state DHCP_SELECTING s"
  obtain q1 w1 s1 where 1: "dhcp_client_send script_dev et DHCPDISCOVER ?s0 = Some (True, s1)"
    "s1 = ?s0\<lparr>client := (client ?s0)\<lparr>dhcplen := int (length p1)\<rparr>, dhcp_buff := p1 @ w1,
       dlink := \<lparr>s_in = replicate n2 None @ Some p2 # r, s_out = s_out (dlink ?s0) @ replicate (Suc n1) q1\<rparr>\<rparr>"
    "length (p1 @ w1) = MAXDHCP" "drop D_OPTIONS q1 = dhcp_request_options DHCPDISCOVER (client ?s0)"
    using send_script [of ?s0 n1 p1 "replicate n2 None @ Some p2 # r" et DHCPDISCOVER] replies(1) n(1) st offer(2) et
    by (auto simp: set_client_def)
  obtain m1 c1 where f1: "fold apply_opt os1 (0, (client s1)\<lparr>ip_local := a1, ip_server := si1\<rparr>) = (m1, c1)" by fastforce
  note k1 = fold_opt_parts [OF f1]
  let ?s2 = "set_state DHCP_REQUESTING (s1\<lparr>client := c1\<rparr>)"
  have m1: "m1 = DHCPOFFER" using k1 offer(3) by simp
  have "w1 \<noteq> []" using 1(3) offer(2) by auto
  then have i1: "dhcp_client_in et s1 = Some (DHCPOFFER, s1\<lparr>client := c1\<rparr>)"
    using reply_accepted [OF offer(1) _ _ f1, of w1] 1(2) m1 by (simp add: DHCPOFFER_def)
  obtain q2 w2 s3 where 2: "dhcp_client_send script_dev et DHCPREQUEST ?s2 = Some (True, s3)"
    "s3 = ?s2\<lparr>client := (client ?s2)\<lparr>dhcplen := int (length p2)\<rparr>, dhcp_buff := p2 @ w2,
       dlink := \<lparr>s_in = r, s_out = s_out (dlink ?s2) @ replicate (Suc n2) q2\<rparr>\<rparr>"
    "length (p2 @ w2) = MAXDHCP" "drop D_OPTIONS q2 = dhcp_request_options DHCPREQUEST (client ?s2)"
    using send_script [of ?s2 n2 p2 r et DHCPREQUEST] 1(2,3) n(2) st(3) ack(2) et k1 by (auto simp: set_client_def)
  obtain m2 c2 where f2: "fold apply_opt os2 (0, (client s3)\<lparr>ip_local := a2, ip_server := si2\<rparr>) = (m2, c2)" by fastforce
  note k2 = fold_opt_parts [OF f2]
  have m2: "m2 = DHCPACK" using k2 ack(3) by simp
  have "w2 \<noteq> []" using 2(3) ack(2) by auto
  then have i2: "dhcp_client_in et s3 = Some (DHCPACK, s3\<lparr>client := c2\<rparr>)"
    using reply_accepted [OF ack(1) _ _ f2, of w2] 2(2) m2 by (simp add: DHCPACK_def)
  define s4 where "s4 = set_state DHCP_BOUND (dcall (SendEvent (startupPid c2) LEASE_ACQUIRED) (dhcp_configure (s3\<lparr>client := c2\<rparr>)))"
  have "startupPid (client (dhcp_configure (s3\<lparr>client := c2\<rparr>))) = startupPid c2" by (simp add: dhcp_configure_def Let_def)
  then have "dhcp_requesting et s3 = Some (dhcp_bound s4)"
    using i2 by (simp add: dhcp_requesting_def s4_def DHCPACK_def DHCPOFFER_def)
  then have "dhcp_switch script_dev et s = Some (dhcp_bound s4)"
    using st(1) 1(1) i1 2(1) by (simp add: dhcp_switch_def dhcp_initial_def dhcp_selecting_def)
  moreover obtain s5 where s5: "dhcp_read script_dev (snd (dhcp_bound s4)) = Some s5" "dnet s5 = dnet s4" "dcalls s5 = dcalls s4"
      "s_out (dlink s5) = s_out (dlink s4)" "cstate (client s5) \<in> {DHCP_BOUND, DHCP_REBINDING}"
    using read_script [of "snd (dhcp_bound s4)"] bound_parts [of s4] 2(2,3)
    by (auto simp: s4_def set_client_def dcall_def dhcp_configure_def Let_def)
  ultimately have t: "dhcp_turn script_dev et s = Some (True, s5)" using bound_parts(5) [of s4] by (cases "dhcp_bound s4") (simp add: dhcp_turn_def)
  have "dnet s5 = (dnet s)\<lparr>myaddr := a2, mynet := snd (netnum a2), mavalid := True,
      gateway := foldl opt_router (foldl opt_router (ip_gateway (client s)) os1) os2\<rparr>"
    using s5(2) 1(2) 2(2) k1 k2 by (simp add: s4_def set_client_def dcall_def dhcp_configure_def Let_def)
  moreover have "s_out (dlink s5) = s_out (dlink s) @ replicate (Suc n1) q1 @ replicate (Suc n2) q2"
    using s5(4) 1(2) 2(2) by (simp add: s4_def set_client_def dcall_def dhcp_configure_def Let_def)
  moreover have "drop D_OPTIONS q1 = dhcp_request_options DHCPDISCOVER (client s)"
    using 1(4) by (simp add: set_client_def dhcp_request_options_def dhcp_client_packet_add_ip_def dhcp_client_packet_add_server_def)
  moreover have "drop D_OPTIONS q2 = dhcp_request_options DHCPREQUEST (client ?s2)" "ip_local (client ?s2) = a1"
    using 2(4) k1 by (simp_all add: set_client_def)
  moreover have "dcalls s5 = dcalls s @ [SendEvent (startupPid (client s)) LEASE_ACQUIRED]"
    using s5(3) 1(2) 2(2) k1 k2 by (simp add: s4_def set_client_def dcall_def dhcp_configure_def Let_def)
  ultimately show ?thesis using t s5(5) by blast
qed

section \<open>Instances\<close>

definition ex_mac :: "int list" where
  "ex_mac = [2, 0, 0, 0, 0, 5]"

definition ex_packet :: "int list \<Rightarrow> int list \<Rightarrow> dopt list \<Rightarrow> packet" where
  "ex_packet yi si os = [DHCP_OP_BOOTREPLY] @ replicate 3 0 @ be4 DHCP_CLIENT_XID @ replicate 8 0 @ yi @ si @ replicate 4 0 @ ex_mac @
     replicate 202 0 @ be4 DHCP_COOKIE @ concat (map opt_octets os) @ [DHCP_OPTION_END]"

definition ex_opts :: "int \<Rightarrow> dopt list" where
  "ex_opts m = [Opt DHCP_OPTION_MESSAGETYPE [m], Pad, Opt DHCP_OPTION_ROUTER [192, 168, 1, 1], Opt DHCP_OPTION_TIMELEASE [0, 0, 14, 16]]"

definition ex_dhcp :: "script dhcp" where
  "ex_dhcp = \<lparr>client = dhcpInit\<lparr>cdevice := 6, startupPid := 3\<rparr>, dhcp_buff = replicate MAXDHCP 0,
     dnet = \<lparr>netpool = 0, netqs = [], mnvalid = False, mavalid = False, myname = [], myaddr = replicate 4 0, mynet = replicate 4 0,
       gateway = replicate 4 0, nxtprt = 2050, nmutex = 1, npacket = 0, ndrop = 0, nover = 0\<rparr>,
     dlink = \<lparr>s_in = [None, Some (ex_packet [192, 168, 1, 9] [192, 168, 1, 1] (ex_opts DHCPOFFER)),
        Some (ex_packet [192, 168, 1, 9] [192, 168, 1, 1] (ex_opts DHCPACK))], s_out = []\<rparr>, dcalls = []\<rparr>"

lemma ex_opts_good: "0 \<le> m \<Longrightarrow> m < 256 \<Longrightarrow> \<forall>x \<in> set (ex_opts m). good_opt x"
  by (simp add: ex_opts_def octet_list_def DHCP_OPTION_PAD_def DHCP_OPTION_END_def DHCP_OPTION_MESSAGETYPE_def DHCP_OPTION_ROUTER_def
      DHCP_OPTION_TIMELEASE_def)

lemma ex_packet_reply:
  "length yi = 4 \<Longrightarrow> length si = 4 \<Longrightarrow> \<forall>x \<in> set os. good_opt x \<Longrightarrow> dhcp_reply ex_mac yi si os (ex_packet yi si os)"
  unfolding dhcp_reply_def ex_packet_def
  by (intro conjI exI [of _ "replicate 3 (0::int)"] exI [of _ "replicate 8 (0::int)"] exI [of _ "replicate 4 (0::int)"]
      exI [of _ "replicate 202 (0::int)"]) (simp_all add: ex_mac_def EPADLEN_def)

lemma ex_replies:
  assumes "0 \<le> m" "m < 256"
  shows "dhcp_reply ex_mac [192, 168, 1, 9] [192, 168, 1, 1] (ex_opts m) (ex_packet [192, 168, 1, 9] [192, 168, 1, 1] (ex_opts m))"
  by (rule ex_packet_reply) (use ex_opts_good [OF assms] in simp_all)

lemma ex_offer_ack:
  "dhcp_reply ex_mac [192, 168, 1, 9] [192, 168, 1, 1] (ex_opts DHCPOFFER) (ex_packet [192, 168, 1, 9] [192, 168, 1, 1] (ex_opts DHCPOFFER))"
  "dhcp_reply ex_mac [192, 168, 1, 9] [192, 168, 1, 1] (ex_opts DHCPACK) (ex_packet [192, 168, 1, 9] [192, 168, 1, 1] (ex_opts DHCPACK))"
  by (rule ex_replies; simp add: DHCPOFFER_def DHCPACK_def)+

lemma ex_exchange:
  "length (ex_packet [192, 168, 1, 9] [192, 168, 1, 1] (ex_opts m)) < MAXDHCP"
  "foldl opt_message 0 (ex_opts m) = m" "foldl opt_router g (ex_opts m) = [192, 168, 1, 1]"
  "s_in (dlink ex_dhcp) = replicate 1 None @ Some (ex_packet [192, 168, 1, 9] [192, 168, 1, 1] (ex_opts DHCPOFFER)) #
     replicate 0 None @ Some (ex_packet [192, 168, 1, 9] [192, 168, 1, 1] (ex_opts DHCPACK)) # []"
  "cstate (client ex_dhcp) = DHCP_INIT" "length (dhcp_buff ex_dhcp) = MAXDHCP" "length (myaddr (dnet ex_dhcp)) = 4"
  "length (ip_local (client ex_dhcp)) = 4" "length (ip_server (client ex_dhcp)) = 4"
  by (simp_all add: ex_packet_def ex_mac_def ex_opts_def ex_dhcp_def dhcpInit_def dot2ip_def MAXDHCP_def DHCP_OPTION_MESSAGETYPE_def
      DHCP_OPTION_ROUTER_def DHCP_OPTION_TIMELEASE_def DHCPOFFER_def DHCPACK_def)

theorem options_meaning_witness:
  "\<exists>c. dhcp_options (concat (map opt_octets (ex_opts 5)) @ DHCP_OPTION_END # [0]) 0 (0, dhcpInit) = Some (5, c) \<and>
    ip_gateway c = [192, 168, 1, 1] \<and> time_rebind c = 3150"
  using options_meaning [OF ex_opts_good [of 5], of "[0]" "[]" "(0, dhcpInit)"]
  by (simp add: ex_opts_def DHCP_OPTION_MESSAGETYPE_def DHCP_OPTION_NETMASK_def DHCP_OPTION_ROUTER_def DHCP_OPTION_TIMELEASE_def be_value_def)

theorem dhcp_acquires_witness:
  "\<exists>s'. dhcp_turn script_dev ex_mac ex_dhcp = Some (True, s') \<and> myaddr (dnet s') = [192, 168, 1, 9] \<and> mavalid (dnet s') \<and>
    gateway (dnet s') = [192, 168, 1, 1] \<and> length (s_out (dlink s')) = 3 \<and> dcalls s' = [SendEvent 3 LEASE_ACQUIRED]"
proof -
  have n: "1 < (3::nat)" "0 < (3::nat)" by simp_all
  obtain s' c1 d q where w: "dhcp_turn script_dev ex_mac ex_dhcp = Some (True, s')"
    "dnet s' = (dnet ex_dhcp)\<lparr>myaddr := [192, 168, 1, 9], mynet := snd (netnum [192, 168, 1, 9]), mavalid := True,
      gateway := foldl opt_router (foldl opt_router (ip_gateway (client ex_dhcp)) (ex_opts DHCPOFFER)) (ex_opts DHCPACK)\<rparr>"
    "s_out (dlink s') = s_out (dlink ex_dhcp) @ replicate (Suc 1) d @ replicate (Suc 0) q"
    "dcalls s' = dcalls ex_dhcp @ [SendEvent (startupPid (client ex_dhcp)) LEASE_ACQUIRED]"
    using dhcp_acquires [OF ex_exchange(5-9,4) n ex_offer_ack(1) ex_exchange(1,2) ex_offer_ack(2) ex_exchange(1,2)] by blast
  have "s_out (dlink ex_dhcp) = []" "dcalls ex_dhcp = []" "startupPid (client ex_dhcp) = 3" by (simp_all add: ex_dhcp_def)
  then show ?thesis using w ex_exchange(3) by simp
qed

theorem only_acknowledged_witness:
  "\<exists>s' p. dhcp_turn script_dev ex_mac ex_dhcp = Some (True, s') \<and> configured_by ex_mac (dnet s') p"
proof -
  obtain s' where w: "dhcp_turn script_dev ex_mac ex_dhcp = Some (True, s')" "mavalid (dnet s')" using dhcp_acquires_witness by blast
  moreover have "\<not> mavalid (dnet ex_dhcp)" by (simp add: ex_dhcp_def)
  ultimately show ?thesis using only_acknowledged [OF w(1)] by fastforce
qed

section \<open>The lease\<close>

text \<open>
  When the lease is to be renewed nothing is sent: while the server is silent the client finds the old acknowledgement in its buffer, takes
  it for a new one and keeps the address.
\<close>

lemma rebinding_accepts_old_ack:
  assumes "cstate (client s) = DHCP_REBINDING" "dhcp_buff s = p @ w" "w \<noteq> []" "s_in (dlink s) = []"
    and ack: "dhcp_reply et a si os p" "foldl opt_message 0 os = DHCPACK"
  shows "\<exists>s'. dhcp_turn script_dev et s = Some (True, s') \<and> dlink s' = dlink s \<and> dhcp_buff s' = dhcp_buff s \<and>
    myaddr (dnet s') = a \<and> mavalid (dnet s') \<and> cstate (client s') \<in> {DHCP_BOUND, DHCP_REBINDING}"
proof -
  obtain m c where f: "fold apply_opt os (0, (client s)\<lparr>ip_local := a, ip_server := si\<rparr>) = (m, c)" by fastforce
  note k = fold_opt_parts [OF f]
  have i: "dhcp_client_in et s = Some (DHCPACK, s\<lparr>client := c\<rparr>)"
    using reply_accepted [OF ack(1) assms(2,3) f] k ack(2) by (simp add: DHCPACK_def)
  define s1 where "s1 = set_state DHCP_BOUND (dcall (SendEvent (startupPid c) LEASE_ACQUIRED) (dhcp_configure (s\<lparr>client := c\<rparr>)))"
  have "startupPid (client (dhcp_configure (s\<lparr>client := c\<rparr>))) = startupPid c" by (simp add: dhcp_configure_def Let_def)
  then have t: "dhcp_switch script_dev et s = Some (True, snd (dhcp_bound s1))"
    using assms(1) i bound_parts(5) [of s1] by (cases "dhcp_bound s1") (simp add: dhcp_switch_def dhcp_requesting_def s1_def DHCPACK_def DHCPOFFER_def)
  have l: "dlink (snd (dhcp_bound s1)) = dlink s" "dhcp_buff (snd (dhcp_bound s1)) = dhcp_buff s"
    by (simp_all add: bound_parts s1_def set_client_def dcall_def dhcp_configure_def Let_def)
  have "dhcp_read script_dev (snd (dhcp_bound s1)) = Some (snd (dhcp_bound s1))"
    using assms(4) l by (simp add: dhcp_read_def script_dev_def script_read_def put_bytes_def Let_def)
  moreover have "myaddr (dnet (snd (dhcp_bound s1))) = a" "mavalid (dnet (snd (dhcp_bound s1)))"
    using k by (simp_all add: bound_parts s1_def set_client_def dcall_def dhcp_configure_def Let_def)
  moreover have "cstate (client (snd (dhcp_bound s1))) \<in> {DHCP_BOUND, DHCP_REBINDING}"
    by (rule bound_parts(6)) (simp add: s1_def set_client_def)
  ultimately show ?thesis using t l by (simp add: dhcp_turn_def)
qed

text \<open>
  The time to the renewal is unsigned and is counted down by 5, the seconds of a \<open>read\<close>, until it is not above 0. With a lease of 60 seconds
  it is 53, runs over, and meets 0 after 272 years.
\<close>

lemma lease_runs_over:
  assumes "time_rebind c = 53" "k < 1717986929"
  shows "time_rebind (((\<lambda>c. snd (dhcpSleep DG_DELAY_TIME c)) ^^ k) c) \<noteq> 0"
proof -
  have t: "time_rebind (((\<lambda>c. snd (dhcpSleep DG_DELAY_TIME c)) ^^ n) c) = u32 (53 - 5 * int n)" for n
  proof (induction n)
    case (Suc n)
    then show ?case by (simp add: dhcpSleep_def Let_def DG_DELAY_TIME_def u32_def mod_diff_left_eq algebra_simps)
  qed (simp add: assms u32_def)
  have "u32 (53 - 5 * int k) \<noteq> 0"
  proof
    assume "u32 (53 - 5 * int k) = 0"
    then obtain m where "53 - 5 * int k = 4294967296 * m" by (auto simp: u32_def elim: dvdE)
    moreover have "0 \<le> int k" "int k < 1717986929" using assms(2) by simp_all
    ultimately have "m < 1" "- 2 < m" by linarith+
    then have "m = 0 \<or> m = - 1" by linarith
    then have "5 * int k = 53 \<or> 5 * int k = 4294967349" using \<open>53 - 5 * int k = 4294967296 * m\<close> by auto
    then have "5 * int k mod 5 = 53 mod 5 \<or> 5 * int k mod 5 = 4294967349 mod 5" by presburger
    then show False by simp
  qed
  then show ?thesis by (simp add: t)
qed

text \<open>The end of the options is not compared with the length of the packet.\<close>

lemma options_unbounded: "dhcp_options (replicate n DHCP_OPTION_PAD) opts mc = None"
proof (induction "n - opts" arbitrary: opts)
  case 0
  then show ?case by (subst dhcp_options.simps) simp
next
  case (Suc k)
  then have "dhcp_options (replicate n DHCP_OPTION_PAD) (opts + 1) mc = None" by simp
  then show ?case by (subst dhcp_options.simps) (simp add: Let_def)
qed

end
