(* ===== verification/Spec2Isabelle.thy ===== *)
theory Spec2Isabelle
  imports KernelProps MemProps ProcProps TimeProps PortProps TtyProps FrameDump Stamp Mib Names Shell DgramProps NetTypes OneWireProps RemoteSafe RemoteNet DhcpProps
begin

text \<open>
  \<^bold>\<open>avr-Xinu\<close>, a Xinu kernel for AVR microcontrollers, as HOL functions and relations, with the
  properties that make it correct. The sources are those under \<open>avr-Xinu/src\<close> and, for the parts that
  depend on the board, \<open>avr-Xinu/platform/stk500\<close>; the configuration is that of \<open>HelloWorld\<close>.

  \<^bold>\<open>How the code is modelled.\<close> A C \<open>int\<close> of 16 bits is an \<open>int\<close>: a signed operation that overflows has no
  value (\<open>add16\<close>, \<open>sub16\<close>), and where the code converts or uses unsigned numbers the value wraps (\<open>s16\<close>,
  \<open>u16\<close>, \<open>u8\<close>, \<open>u32\<close>). A C struct is a record, an array a function on its indices, memory a function
  \<open>ram\<close> from addresses to octets with the fields of the blocks of the heap beside it. A function of the
  kernel takes the state (\<open>kstate\<close>) and returns its value and the new state. The result is an \<open>option\<close>
  where the code can fail to return: \<open>None\<close> is an endless walk of a damaged list, a signed overflow, a
  panic or an access outside an array. Loops over linked lists are partial functions, and the properties
  prove that they return; there is no fuel. Disabled interrupts are not a part of the state: every call
  runs without being interrupted up to the point where it gives up the processor. A context switch is
  the change of \<open>currpid\<close>, and what a call has still to do when its process runs again is its
  continuation (\<open>kont\<close>, \<open>pkont\<close> and the continuations of the terminal), resumed by \<open>continue_call\<close>,
  \<open>pcontinue\<close> and the \<open>*_rest\<close> and \<open>*_got\<close> functions.

  \<^bold>\<open>The theories\<close>, in the order in which they build on each other.

  \<^item> \<^bold>\<open>Prelude\<close>: machine integers, the constants of \<open>kernel.h\<close>, collections of rewrite rules.

  \<^item> \<^bold>\<open>QueueTab\<close>, \<^bold>\<open>DeltaQueue\<close>, \<^bold>\<open>QueueFam\<close>: the one array \<open>q\<close> that holds all lists (\<open>h/q.h\<close>, \<open>sys/queue.c\<close>,
    \<open>insert.c\<close>, \<open>insertd.c\<close>, \<open>getitem.c\<close>, \<open>newqueue.c\<close>). \<open>qrep\<close> relates a list of the array to a HOL list. The
    locales \<open>fifo\<close> and \<open>prioq\<close> are the contracts the semaphores and the ready list rely on; \<open>delays\<close> reads the
    list of sleepers, whose keys are differences; \<open>QueueFam\<close> holds the invariant that no process is in two lists.

  \<^item> \<^bold>\<open>Memory\<close>, \<^bold>\<open>MemProps\<close>: \<open>getmem.c\<close>, \<open>freemem.c\<close>, \<open>getstk.c\<close>, \<open>malloc.c\<close>. \<open>memwf\<close> is the ordered, merged
    list of free blocks; the locale \<open>allocator\<close>, interpreted for the heap, for stacks and for both together
    (\<open>arena\<close>), proves that what is allocated is disjoint and that no byte is lost.

  \<^item> \<^bold>\<open>KState\<close>: the tables and variables of the kernel (\<open>proc.h\<close>, \<open>sem.h\<close>, \<open>sleep.h\<close>, \<open>initialize.c\<close>) and the
    invariant \<open>kinv\<close>: the state of every process says in which list it is.

  \<^item> \<^bold>\<open>Sched\<close>, \<^bold>\<open>Sema\<close>, \<^bold>\<open>Clock\<close>, \<^bold>\<open>Msg\<close>: the scheduler and the calls that change a process (\<open>resched.c\<close>,
    \<open>ready.c\<close>, \<open>suspend.c\<close>, \<open>chprio.c\<close>, ...), semaphores, the clock interrupt with the sleepers, and messages. The
    locale \<open>kcall\<close> is the contract of every call (it returns, and keeps the invariant) and has an
    interpretation for each of them.

  \<^item> \<^bold>\<open>Example\<close>, \<^bold>\<open>KernelProps\<close>: a concrete kernel state, and the properties of the calls, most of them as
    refinements of an abstract scheduler, of semaphores as a count and a queue, and of a mailbox.

  \<^item> \<^bold>\<open>Dev\<close>: the device switch (\<open>open.c\<close> to \<open>rename.c\<close>) and the block operations. \<^bold>\<open>Procs\<close>, \<^bold>\<open>ProcMem\<close>,
    \<^bold>\<open>Kill\<close>, \<^bold>\<open>Boot\<close>: \<open>create.c\<close>, \<open>kill.c\<close>, the streams of a process (\<open>libxc/fopen.c\<close>, \<open>fclose.c\<close>) and \<open>sysinit\<close>.
    \<^bold>\<open>System\<close>, \<^bold>\<open>ProcProps\<close>: all kernel calls of all processes and the clock as one step relation \<open>kstep\<close>; the
    invariant, the account of the memory and what follows from them in every reachable state.

  \<^item> \<^bold>\<open>Ports\<close>, \<^bold>\<open>PortLists\<close>, \<^bold>\<open>PortProps\<close>: marks, ports and buffer pools (\<open>mark.c\<close>, \<open>psend.c\<close>, ..., \<open>mkpool.c\<close>,
    \<open>getbuf.c\<close>), which are built on semaphores and on the heap. A port is a queue of messages.

  \<^item> \<^bold>\<open>Tty\<close>, \<^bold>\<open>TtyProps\<close>: the terminal driver (\<open>src/sys/tty\<close>) from the receive interrupt to the reader. The
    input side is a line editor on lists of lines, the output side a queue.

  \<^item> \<^bold>\<open>Calendar\<close>, \<^bold>\<open>Normalize\<close>, \<^bold>\<open>TimeProps\<close>, \<^bold>\<open>Stamp\<close>: \<open>src/lib/Time\<close>: seconds since 1970 and broken-down time,
    normalization, and the time stamps in text that are kept over a reset.

  \<^item> \<^bold>\<open>Stdio\<close>: the conversions of \<open>printf\<close> and \<open>scanf\<close> that the sources use, and the console (\<open>kprintf.c\<close>).

  \<^item> \<^bold>\<open>Frame\<close>, \<^bold>\<open>FrameDump\<close>, \<^bold>\<open>Mib\<close>: IEEE 802.15.4 frames in the buffers of the radio, their dumps, and the
    table of attributes (\<open>src/sys/ieee802_15_4/frame802154.c\<close>, \<open>mib.c\<close>).

  \<^item> \<^bold>\<open>Names\<close>: the name space (\<open>mount.c\<close>, \<open>namrepl.c\<close>, \<open>nammap.c\<close>).

  \<^item> \<^bold>\<open>Lexan\<close>, \<^bold>\<open>Shell\<close>: \<open>src/sys/shell\<close>: from a line to its tokens in the area of the shell (\<open>lexan.c\<close>), to the
    redirections and the command (\<open>shell.c\<close>), and to the process of the command with its arguments (\<open>addarg.c\<close>).
    The specifications are \<open>tokens_of\<close> and \<open>redirect\<close> on lists of tokens.

  \<^item> \<^bold>\<open>NetUtil\<close>, \<^bold>\<open>Packet\<close>, \<^bold>\<open>Arp\<close>, \<^bold>\<open>IpUdp\<close>, \<^bold>\<open>Dgram\<close>, \<^bold>\<open>DgramProps\<close>, \<^bold>\<open>Echo\<close>, \<^bold>\<open>NetTypes\<close>: \<open>src/sys/net\<close>. \<open>NetUtil\<close> has what
    needs no packets (checksums, the table of Ethernet addresses, ports of datagrams), \<open>Packet\<close> the headers as fields
    in the octets of a buffer, \<open>Arp\<close> address resolution and routing, \<open>IpUdp\<close> datagrams in both directions
    and what the processes \<open>netin\<close> and \<open>netout\<close> do with a packet, \<open>Dgram\<close> the datagram devices. The state is
    \<open>netst\<close>; calls of the kernel (semaphores, messages, ports, buffers, the driver) are recorded in their order.
    The buffers that \<open>getbuf\<close> hands out (\<open>bufs\<close>), what the other processes do while one waits (\<open>env\<close>), the fill of
    a port (\<open>cnt\<close>), the message that \<open>preceive\<close> returns (\<open>recv\<close>) and the result of the driver (\<open>wres\<close>) are arguments;
    the driver itself (\<open>drv\<close>), which is not in the repository, is assumed to put the address of the interface
    into the packet (\<open>eth_driver\<close>), and the environment \<open>peer\<close> is the network of two hosts that both run this code.

  \<^item> \<^bold>\<open>OneWire\<close>, \<^bold>\<open>OneWireBus\<close>, \<^bold>\<open>OneWireProps\<close>: the search for devices and the transfers of a 1-Wire bus
    (\<open>APIs/1-Wire /singleGPIO\<close> and \<open>common\<close>: \<open>OWSearch.c\<close>, \<open>OWVerify.c\<close> and the functions beside them). The bus is
    an argument of the definitions (\<open>ow_bus\<close>: a reset and the two transfers of a bit). \<open>OneWireBus\<close> says what a set of devices answers
    (\<open>is_bus\<close>): \<open>fork\<close> is where two of their numbers part and \<open>rless\<close> their order, that of the bits from the first.
    \<open>wire_bus\<close> in \<open>OneWireProps\<close> is a bus that answers so for any finite set of numbers.

  \<^item> \<^bold>\<open>RemoteFile\<close>, \<^bold>\<open>RemoteProps\<close>, \<^bold>\<open>RemoteSafe\<close>: files on a server (\<open>src/sys/rf\<close>). The device of the server is a
    record of its routines (\<open>serverdev\<close>), and the server itself a parameter, of which \<open>serves_read\<close> and
    \<open>serves_write\<close> say what it answers. The locale \<open>server_link\<close> is the contract of a link that loses and delays requests
    and replies, but not two in a row, \<open>file_link\<close> that of a file server behind it. \<open>nested\<close> is the order of the semaphores.
    \<^bold>\<open>RemoteNet\<close>: both locales hold for the datagram device of the model (\<open>net_device\<close>: \<open>dgmopen\<close>, \<open>dgcntl\<close>, \<open>dgwrite\<close> and
    \<open>dgread\<close> on the state of the client's network, into whose port \<open>netin_packet\<close> puts the replies). What lies behind the
    Ethernet is a \<open>world\<close>: the server, the datagrams its host sends back, and for every request whether it or its reply is
    lost or how late the reply is; \<open>world_ok\<close> is what is assumed of it. \<open>lossy_dev\<close> in RemoteProps is the contract without
    a network, on which the lemmas about the limits of the code are evaluated.

  \<^item> \<^bold>\<open>Dhcp\<close>, \<^bold>\<open>DhcpProps\<close>: the DHCP client (\<open>src/sys/net/dhcp_client.c\<close>): its packets and options (\<open>options_meaning\<close>), the turns of its
    process as steps, and that the interface gets no address but one that was acknowledged (\<open>only_acknowledged\<close>).

  \<^bold>\<open>What the properties say.\<close> The scheduler always runs a process of the highest priority, serves equals in
  turn and refines an abstract dispatcher (C1 to C3); semaphores are counts with queues (C4 to C6); sleepers wake
  when they are due (C7, C8; a sleeper without delay absorbs the tick that wakes it); messages are delivered once, and a wait with a limit
  ends with its last tick (C9 to C11); allocation is disjoint and loses
  nothing (C13 to C15); processes are created and killed with everything they own: the registers and the stack of a new process, the
  memory that a refused \<open>create\<close> and \<open>kill\<close> give back, the message to the next of kin (C16 to C18); in every reachable state
  the tables are consistent and the blocks in use and the free list make up the memory (C19 to C21). Datagrams reach the reader of their port, addresses are resolved, pings are
  answered, and no packet breaks the types of the network (C22 to C27). The shell divides a line as its
  specification says (C28, C29). A remote file keeps what is written to it over the datagram
  device and a network that loses and delays requests and replies, as long as of two attempts in a row one is answered in time and
  what is late comes in before the next operation (C30), and its operations hold no semaphore when they return (C31). The search on a
  1-Wire bus reports every device once and finds out whether a given one is present (C32, C33). Times (C34 and C35, in the ranges they state and with \<open>tm_gmtoff\<close>, which
  the comments in the sources say is ignored), ports, empty or not (C36), the terminal, as long as a key that ends a line finds room
  (C37), and frames behave as their specifications on lists and numbers, and the mapping of names returns (C12, C34 to C40). Pools, the attributes of the
  radio and time stamps have theorems of the same kind in \<open>PortProps\<close>, \<open>Mib\<close> and \<open>Stamp\<close>. Each property has an instance
  on concrete data beside it.

  \<^bold>\<open>Ranges.\<close> The properties hold for the ranges their hypotheses state, which are those in which the code does not
  overflow: semaphore counts below 32767, delays that fit an \<open>int\<close>, requests of up to 65500 octets, times between
  1880 and 2059 (the day number is an \<open>int16_t\<close>), data of remote files of up to 460 octets (what fits in a datagram).

  \<^bold>\<open>Where the code is wrong\<close> the model follows the code, and a lemma shows the behaviour on concrete data:
  \<open>no_delay_absorbs_tick\<close> (KernelProps), \<open>newline_overruns\<close> (TtyProps), \<open>gmtoff_counts\<close>, \<open>second_60_stays\<close>,
  \<open>midnight_forgets_days\<close>, \<open>day_number_wraps\<close>, \<open>dst_weekday\<close> (TimeProps), \<open>short_frame_overflows\<close> (Frame),
  \<open>csma_backoffs_not_found\<close> (Mib), \<open>self_mount_loops\<close> (Names), \<open>netnum_class_a\<close>, \<open>dgparse_256\<close> (NetUtil),
  \<open>lexan_overflow\<close> (Lexan), \<open>addarg_too_many\<close> (Shell), \<open>closed_queue_receives\<close>, \<open>icmp_length_unchecked\<close>,
  \<open>datagram_length_unchecked\<close> (Echo),
  \<open>large_write_refused\<close>, \<open>rfgetc_end_of_file\<close>, \<open>rfopen_name_overflows\<close>, \<open>lost_reply_of_remove\<close>, \<open>stale_reply_taken\<close>
  (RemoteSafe), \<open>rebinding_accepts_old_ack\<close>, \<open>lease_runs_over\<close>, \<open>options_unbounded\<close> (DhcpProps).

  \<^bold>\<open>Not modelled.\<close> Assembly and registers (\<open>ctxsw.S\<close>, interrupt masks, timers, the USART, the transceiver); the
  copies of the platform files for other boards, which differ in registers only; boot loaders and the other
  third-party code; the interpretation of the addresses of procedures (a process is what it does in the kernel);
  the commands of the shell that print tables; the start of the processes of the network, and the other clients
  of the datagram devices (names, time, \<open>rwho\<close>), and dumps of packets; the radio driver; the calculation of sunrise with floating point numbers; the bridges to
  the 1-Wire bus, its thermometers and the web applications under \<open>APIs\<close>;
  tests.
\<close>

end
